(* ===== verification/Js_Prelude.thy ===== *)
theory Js_Prelude
  imports Main "HOL-Library.Word"
begin

text \<open>
  Shared vocabulary of the development: how the values of the TypeScript sources are read in HOL,
  the pieces of the JavaScript standard library the sources use, and the generic lemmas and
  \<open>named_theorems\<close> collections the component theories rely on.

  Numbers that denote lines, columns, offsets and indices are mathematical integers; the places
  where the sources leave the exact range (\<^verbatim>\<open>x | 0\<close>, typed arrays) are modelled by \<open>toInt32\<close> and by
  machine words.  Strings are lists of UTF-16 code units.  An exception is the left injection
  of a sum, and reading an array outside its bounds yields \<open>None\<close> (JavaScript's
  \<^verbatim>\<open>undefined\<close>).
\<close>

section \<open>Types\<close>

type_synonym code_unit = "16 word"
type_synonym js_string = "code_unit list"

datatype js_error = BugIndicatingError | JsError | TypeError | IllegalArgument | RangeError

type_synonym 'a result = "js_error + 'a"

named_theorems js_simps \<open>evaluation rules for the JavaScript primitives on in-range arguments\<close>
named_theorems range_defs \<open>definitions that unfold range and position operations\<close>

text \<open>Code units that form a character only in pairs.\<close>

definition is_high_surrogate :: "code_unit \<Rightarrow> bool" where
  "is_high_surrogate c \<longleftrightarrow> 0xD800 \<le> c \<and> c \<le> 0xDBFF"

definition is_low_surrogate :: "code_unit \<Rightarrow> bool" where
  "is_low_surrogate c \<longleftrightarrow> 0xDC00 \<le> c \<and> c \<le> 0xDFFF"

section \<open>Exceptions\<close>

text \<open>A statement that may throw followed by the rest of the function.\<close>

definition rbind :: "'a result \<Rightarrow> ('a \<Rightarrow> 'b result) \<Rightarrow> 'b result" where
  "rbind m f = (case m of Inl e \<Rightarrow> Inl e | Inr x \<Rightarrow> f x)"

text \<open>\<^verbatim>\<open>Array.prototype.map\<close> with a callback that may throw: the first exception wins.\<close>

fun rmap :: "('a \<Rightarrow> 'b result) \<Rightarrow> 'a list \<Rightarrow> 'b list result" where
  "rmap f [] = Inr []"
| "rmap f (x # xs) = rbind (f x) (\<lambda>y. rbind (rmap f xs) (\<lambda>ys. Inr (y # ys)))"

lemma rbind_simps [simp]:
  "rbind (Inl e) f = Inl e"
  "rbind (Inr x) f = f x"
  by (simp_all add: rbind_def)

lemma rbind_eq_Inr_iff: "rbind m f = Inr y \<longleftrightarrow> (\<exists>x. m = Inr x \<and> f x = Inr y)"
  by (cases m) simp_all

lemma rbind_cong [fundef_cong]:
  "m = m' \<Longrightarrow> (\<And>x. m' = Inr x \<Longrightarrow> f x = f' x) \<Longrightarrow> rbind m f = rbind m' f'"
  by (cases m') simp_all

lemma rmap_Inr: "(\<And>x. x \<in> set xs \<Longrightarrow> f x = Inr (g x)) \<Longrightarrow> rmap f xs = Inr (map g xs)"
  by (induction xs) simp_all

section \<open>Integers\<close>

text \<open>\<^verbatim>\<open>Number.MAX_SAFE_INTEGER\<close> and the conversion \<^verbatim>\<open>x | 0\<close> (ToInt32 of ECMAScript).\<close>

definition MAX_SAFE_INTEGER :: int where
  "MAX_SAFE_INTEGER = 9007199254740991"

definition toInt32 :: "int \<Rightarrow> int" where
  "toInt32 x = (x + 2147483648) mod 4294967296 - 2147483648"

definition int32_range :: "int \<Rightarrow> bool" where
  "int32_range x \<longleftrightarrow> - 2147483648 \<le> x \<and> x \<le> 2147483647"

lemma toInt32_id [js_simps]: "int32_range x \<Longrightarrow> toInt32 x = x"
  by (simp add: toInt32_def int32_range_def)

lemma toInt32_in_range: "int32_range (toInt32 x)"
proof -
  have "0 \<le> (x + 2147483648) mod 4294967296" "(x + 2147483648) mod 4294967296 < 4294967296"
    by simp_all
  then show ?thesis
    unfolding toInt32_def int32_range_def by linarith
qed

section \<open>Arrays\<close>

text \<open>\<^verbatim>\<open>array[i]\<close>: \<open>None\<close> stands for \<^verbatim>\<open>undefined\<close>.\<close>

definition js_at :: "'a list \<Rightarrow> int \<Rightarrow> 'a option" where
  "js_at xs i = (if 0 \<le> i \<and> i < int (length xs) then Some (xs ! nat i) else None)"

text \<open>A callback that expects an array element.  The library routines never apply it to
  \<^verbatim>\<open>undefined\<close> when they are called with indices inside the array.\<close>

definition on_elem :: "('a \<Rightarrow> bool) \<Rightarrow> 'a option \<Rightarrow> bool" where
  "on_elem p x = (case x of None \<Rightarrow> False | Some v \<Rightarrow> p v)"

text \<open>\<^verbatim>\<open>array.splice(i, n, ...items)\<close> with its clamping of the two indices.\<close>

definition js_splice :: "'a list \<Rightarrow> int \<Rightarrow> int \<Rightarrow> 'a list \<Rightarrow> 'a list" where
  "js_splice xs i n new_items =
     (let len = int (length xs);
          s = (if i < 0 then max (len + i) 0 else min i len);
          d = max 0 (min n (len - s))
      in take (nat s) xs @ new_items @ drop (nat (s + d)) xs)"

text \<open>The relative index of \<^verbatim>\<open>array.slice\<close> and \<^verbatim>\<open>string.slice\<close>, and the slice itself.\<close>

definition slice_index :: "int \<Rightarrow> int \<Rightarrow> int" where
  "slice_index len i = (if i < 0 then max (len + i) 0 else min i len)"

definition js_slice :: "'a list \<Rightarrow> int \<Rightarrow> int \<Rightarrow> 'a list" where
  "js_slice xs i j =
     (let len = int (length xs); a = slice_index len i; b = slice_index len j
      in take (nat (b - a)) (drop (nat a) xs))"

text \<open>\<^verbatim>\<open>str.substring(i, j)\<close>: both indices are clamped to the string and swapped when they
  come in the wrong order.\<close>

definition js_substring :: "'a list \<Rightarrow> int \<Rightarrow> int \<Rightarrow> 'a list" where
  "js_substring xs i j =
     (let len = int (length xs);
          a = max 0 (min i len);
          b = max 0 (min j len)
      in take (nat (max a b - min a b)) (drop (nat (min a b)) xs))"

text \<open>\<^verbatim>\<open>str.substring(i)\<close>.\<close>

definition js_substring_from :: "'a list \<Rightarrow> int \<Rightarrow> 'a list" where
  "js_substring_from xs i = js_substring xs i (int (length xs))"

text \<open>Arrays that may have holes: \<open>array_get\<close> reads, \<open>array_set\<close> is the assignment \<^verbatim>\<open>array[i] = v\<close> for
  an index \<^verbatim>\<open>i >= 0\<close>, which extends the array, and \<open>array_set_length\<close> the assignment to \<^verbatim>\<open>array.length\<close>.\<close>

definition array_get :: "'a option list \<Rightarrow> int \<Rightarrow> 'a option" where
  "array_get xs i = (case js_at xs i of None \<Rightarrow> None | Some x \<Rightarrow> x)"

definition array_set :: "'a option list \<Rightarrow> int \<Rightarrow> 'a option \<Rightarrow> 'a option list" where
  "array_set xs i v =
     (if i < 0 then xs else (xs @ replicate (nat i + 1 - length xs) None)[nat i := v])"

definition array_set_length :: "'a option list \<Rightarrow> int option \<Rightarrow> 'a option list result" where
  "array_set_length xs n =
     (case n of
        None \<Rightarrow> Inl RangeError
      | Some k \<Rightarrow> if k < 0 then Inl RangeError
                  else Inr (take (nat k) xs @ replicate (nat k - length xs) None))"

text \<open>Typed arrays have a fixed length: \<open>typed_write\<close> ignores an index outside, \<open>typed_subarray\<close> clamps and
  \<open>typed_set\<close> is the method \<^verbatim>\<open>set\<close>, which throws when the source does not fit.\<close>

definition typed_write :: "'a list \<Rightarrow> int \<Rightarrow> 'a \<Rightarrow> 'a list" where
  "typed_write xs i v = (if 0 \<le> i then xs[nat i := v] else xs)"

definition typed_subarray :: "'a list \<Rightarrow> int \<Rightarrow> int \<Rightarrow> 'a list" where
  "typed_subarray xs i j = js_slice xs i j"

definition typed_set :: "'a list \<Rightarrow> 'a list \<Rightarrow> int \<Rightarrow> 'a list result" where
  "typed_set xs src offset =
     (if offset < 0 \<or> int (length src) + offset > int (length xs) then Inl RangeError
      else Inr (take (nat offset) xs @ src @ drop (nat offset + length src) xs))"

lemma js_at_simps [js_simps]:
  "0 \<le> i \<Longrightarrow> i < int (length xs) \<Longrightarrow> js_at xs i = Some (xs ! nat i)"
  "i < 0 \<Longrightarrow> js_at xs i = None"
  "int (length xs) \<le> i \<Longrightarrow> js_at xs i = None"
  by (simp_all add: js_at_def)

lemma js_at_int [simp]: "k < length xs \<Longrightarrow> js_at xs (int k) = Some (xs ! k)"
  by (simp add: js_at_def)

lemma js_at_eq_Some_iff: "js_at xs i = Some x \<longleftrightarrow> 0 \<le> i \<and> nat i < length xs \<and> xs ! nat i = x"
  by (auto simp: js_at_def)

lemma on_elem_simps [simp]:
  "on_elem p None = False"
  "on_elem p (Some v) = p v"
  by (simp_all add: on_elem_def)

lemma js_splice_nat [js_simps]:
  "i + n \<le> length xs \<Longrightarrow> js_splice xs (int i) (int n) new_items = take i xs @ new_items @ drop (i + n) xs"
  by (simp add: js_splice_def Let_def flip: of_nat_add)

lemma js_substring_nat [js_simps]:
  "i \<le> j \<Longrightarrow> j \<le> length xs \<Longrightarrow> js_substring xs (int i) (int j) = take (j - i) (drop i xs)"
  by (simp add: js_substring_def Let_def flip: of_nat_diff)

lemma js_substring_in_range:
  "0 \<le> i \<Longrightarrow> i \<le> j \<Longrightarrow> j \<le> int (length xs) \<Longrightarrow>
   js_substring xs i j = take (nat j - nat i) (drop (nat i) xs)"
  by (simp add: js_substring_def nat_diff_distrib)

lemma length_js_substring:
  "0 \<le> i \<Longrightarrow> i \<le> j \<Longrightarrow> j \<le> int (length xs) \<Longrightarrow> int (length (js_substring xs i j)) = j - i"
  by (simp add: js_substring_in_range)

lemma take_drop_append:
  "i \<le> j \<Longrightarrow> j \<le> k \<Longrightarrow> take (j - i) (drop i xs) @ take (k - j) (drop j xs) = take (k - i) (drop i xs)"
proof -
  assume "i \<le> j" "j \<le> k"
  then have "take (k - i) (drop i xs) = take (j - i) (drop i xs) @ take (k - i - (j - i)) (drop (j - i) (drop i xs))"
    by (metis append_take_drop_id diff_le_mono drop_take take_add le_add_diff_inverse)
  with \<open>i \<le> j\<close> show ?thesis by simp
qed

lemma js_substring_append:
  assumes "0 \<le> i" "i \<le> j" "j \<le> k" "k \<le> int (length xs)"
  shows "js_substring xs i j @ js_substring xs j k = js_substring xs i k"
  using assms by (simp add: js_substring_in_range take_drop_append nat_mono)

lemma js_substring_all: "js_substring xs 0 (int (length xs)) = xs"
  by (simp add: js_substring_def)

lemma js_substring_empty [simp]: "js_substring xs i i = []"
  by (simp add: js_substring_def)

end
