(* ===== verification/Arrays_Find.thy ===== *)
theory Arrays_Find
  imports Js_Prelude
begin

text \<open>
  \<^verbatim>\<open>src/vs/base/common/arraysFind.ts\<close>: linear and binary searches over arrays.
\<close>

section \<open>Linear searches\<close>

fun findLastIdx_from :: "'a list \<Rightarrow> ('a option \<Rightarrow> bool) \<Rightarrow> nat \<Rightarrow> int" where
  "findLastIdx_from array predicate 0 = -1"
| "findLastIdx_from array predicate (Suc i) =
     (if predicate (js_at array (int i)) then int i else findLastIdx_from array predicate i)"

text \<open>\<^verbatim>\<open>fromIndex\<close> counts down to 0; a negative start runs no iteration.\<close>

definition findLastIdx :: "'a list \<Rightarrow> ('a option \<Rightarrow> bool) \<Rightarrow> int \<Rightarrow> int" where
  "findLastIdx array predicate fromIndex = findLastIdx_from array predicate (nat (fromIndex + 1))"

definition findLast :: "'a list \<Rightarrow> ('a option \<Rightarrow> bool) \<Rightarrow> 'a option" where
  "findLast array predicate =
     (let idx = findLastIdx array predicate (int (length array) - 1)
      in if idx = -1 then None else js_at array idx)"

fun mapFindFirst :: "'a list \<Rightarrow> ('a \<Rightarrow> 'b option) \<Rightarrow> 'b option" where
  "mapFindFirst [] mapFn = None"
| "mapFindFirst (v # items) mapFn =
     (case mapFn v of Some r \<Rightarrow> Some r | None \<Rightarrow> mapFindFirst items mapFn)"

section \<open>Binary searches\<close>

function findLastIdxMonotonous :: "'a list \<Rightarrow> ('a option \<Rightarrow> bool) \<Rightarrow> int \<Rightarrow> int \<Rightarrow> int" where
  "findLastIdxMonotonous array predicate i j =
     (if i < j then
        let k = (i + j) div 2 in
        if predicate (js_at array k) then findLastIdxMonotonous array predicate (k + 1) j
        else findLastIdxMonotonous array predicate i k
      else i - 1)"
  by pat_completeness auto
termination
  by (relation "measure (\<lambda>(array, predicate, i, j). nat (j - i))") auto

definition findLastMonotonous :: "'a list \<Rightarrow> ('a option \<Rightarrow> bool) \<Rightarrow> 'a option" where
  "findLastMonotonous array predicate =
     (let idx = findLastIdxMonotonous array predicate 0 (int (length array))
      in if idx = -1 then None else js_at array idx)"

function findFirstIdxMonotonousOrArrLen :: "'a list \<Rightarrow> ('a option \<Rightarrow> bool) \<Rightarrow> int \<Rightarrow> int \<Rightarrow> int" where
  "findFirstIdxMonotonousOrArrLen array predicate i j =
     (if i < j then
        let k = (i + j) div 2 in
        if predicate (js_at array k) then findFirstIdxMonotonousOrArrLen array predicate i k
        else findFirstIdxMonotonousOrArrLen array predicate (k + 1) j
      else i)"
  by pat_completeness auto
termination
  by (relation "measure (\<lambda>(array, predicate, i, j). nat (j - i))") auto

definition findFirstMonotonous :: "'a list \<Rightarrow> ('a option \<Rightarrow> bool) \<Rightarrow> 'a option" where
  "findFirstMonotonous array predicate =
     (let idx = findFirstIdxMonotonousOrArrLen array predicate 0 (int (length array))
      in if idx = int (length array) then None else js_at array idx)"

definition findFirstIdxMonotonous :: "'a list \<Rightarrow> ('a option \<Rightarrow> bool) \<Rightarrow> int \<Rightarrow> int \<Rightarrow> int" where
  "findFirstIdxMonotonous array predicate startIdx endIdxEx =
     (let idx = findFirstIdxMonotonousOrArrLen array predicate startIdx endIdxEx
      in if idx = int (length array) then -1 else idx)"

declare findLastIdxMonotonous.simps [simp del]
declare findFirstIdxMonotonousOrArrLen.simps [simp del]

section \<open>A searcher with a moving lower bound\<close>

text \<open>
  \<^verbatim>\<open>class MonotonousArray\<close>.  The static switch \<^verbatim>\<open>assertInvariants\<close> is a parameter; with it on, a query
  whose predicate is not weaker than the previous one throws.
\<close>

record 'a MonotonousArray =
  ma_array :: "'a list"
  ma_findLastMonotonousLastIdx :: int
  ma_prevFindLastPredicate :: "('a option \<Rightarrow> bool) option"

definition new_MonotonousArray :: "'a list \<Rightarrow> 'a MonotonousArray" where
  "new_MonotonousArray array =
     \<lparr>ma_array = array, ma_findLastMonotonousLastIdx = 0, ma_prevFindLastPredicate = None\<rparr>"

definition MonotonousArray_check ::
    "bool \<Rightarrow> 'a MonotonousArray \<Rightarrow> ('a option \<Rightarrow> bool) \<Rightarrow> 'a MonotonousArray result" where
  "MonotonousArray_check assertInvariants ma predicate =
     (if assertInvariants then
        if (case ma_prevFindLastPredicate ma of
              None \<Rightarrow> False
            | Some prev \<Rightarrow> list_ex (\<lambda>item. prev (Some item) \<and> \<not> predicate (Some item)) (ma_array ma))
        then Inl JsError
        else Inr (ma\<lparr>ma_prevFindLastPredicate := Some predicate\<rparr>)
      else Inr ma)"

definition MonotonousArray_findLastMonotonous ::
    "bool \<Rightarrow> 'a MonotonousArray \<Rightarrow> ('a option \<Rightarrow> bool) \<Rightarrow> ('a option \<times> 'a MonotonousArray) result" where
  "MonotonousArray_findLastMonotonous assertInvariants ma0 predicate =
     rbind (MonotonousArray_check assertInvariants ma0 predicate) (\<lambda>ma.
       let array = ma_array ma;
           idx = findLastIdxMonotonous array predicate (ma_findLastMonotonousLastIdx ma) (int (length array));
           ma' = ma\<lparr>ma_findLastMonotonousLastIdx := idx + 1\<rparr>
       in Inr (if idx = -1 then None else js_at array idx, ma'))"

text \<open>A client that asks one question after the other and collects the answers.\<close>

fun MonotonousArray_queries ::
    "bool \<Rightarrow> 'a MonotonousArray \<Rightarrow> ('a option \<Rightarrow> bool) list \<Rightarrow> 'a option list result" where
  "MonotonousArray_queries assertInvariants ma [] = Inr []"
| "MonotonousArray_queries assertInvariants ma (p # ps) =
     rbind (MonotonousArray_findLastMonotonous assertInvariants ma p) (\<lambda>(r, ma').
       rbind (MonotonousArray_queries assertInvariants ma' ps) (\<lambda>rs. Inr (r # rs)))"

section \<open>Extremal elements\<close>

text \<open>A comparator returns a negative, zero or positive number.\<close>

fun max_loop :: "('a \<Rightarrow> 'a \<Rightarrow> bool) \<Rightarrow> 'a \<Rightarrow> 'a list \<Rightarrow> 'a" where
  "max_loop better m [] = m"
| "max_loop better m (x # xs) = max_loop better (if better x m then x else m) xs"

definition findFirstMax :: "'a list \<Rightarrow> ('a \<Rightarrow> 'a \<Rightarrow> int) \<Rightarrow> 'a option" where
  "findFirstMax array comparator =
     (case array of [] \<Rightarrow> None | x # xs \<Rightarrow> Some (max_loop (\<lambda>item m. comparator item m > 0) x xs))"

definition findLastMax :: "'a list \<Rightarrow> ('a \<Rightarrow> 'a \<Rightarrow> int) \<Rightarrow> 'a option" where
  "findLastMax array comparator =
     (case array of [] \<Rightarrow> None | x # xs \<Rightarrow> Some (max_loop (\<lambda>item m. comparator item m \<ge> 0) x xs))"

definition findFirstMin :: "'a list \<Rightarrow> ('a \<Rightarrow> 'a \<Rightarrow> int) \<Rightarrow> 'a option" where
  "findFirstMin array comparator = findFirstMax array (\<lambda>a b. - comparator a b)"

fun maxIdx_loop :: "('a \<Rightarrow> 'a \<Rightarrow> int) \<Rightarrow> int \<Rightarrow> 'a \<Rightarrow> int \<Rightarrow> 'a list \<Rightarrow> int" where
  "maxIdx_loop comparator maxIdx m i [] = maxIdx"
| "maxIdx_loop comparator maxIdx m i (x # xs) =
     (if comparator x m > 0 then maxIdx_loop comparator i x (i + 1) xs
      else maxIdx_loop comparator maxIdx m (i + 1) xs)"

text \<open>The loop carries \<^verbatim>\<open>array[maxIdx]\<close> next to \<^verbatim>\<open>maxIdx\<close>.\<close>

definition findMaxIdx :: "'a list \<Rightarrow> ('a \<Rightarrow> 'a \<Rightarrow> int) \<Rightarrow> int" where
  "findMaxIdx array comparator =
     (case array of [] \<Rightarrow> -1 | x # xs \<Rightarrow> maxIdx_loop comparator 0 x 1 xs)"

section \<open>Correctness of the searches\<close>

text \<open>\<^verbatim>\<open>arr.map(predicate)\<close> is \<^verbatim>\<open>[true, ..., true, false, ..., false]\<close> on the indices from \<open>i\<close>
  below \<open>j\<close>.\<close>

definition true_then_false :: "'a list \<Rightarrow> ('a option \<Rightarrow> bool) \<Rightarrow> int \<Rightarrow> int \<Rightarrow> bool" where
  "true_then_false xs p i j \<longleftrightarrow>
     (\<forall>k l. i \<le> k \<and> k \<le> l \<and> l < j \<and> p (js_at xs l) \<longrightarrow> p (js_at xs k))"

lemma true_then_false_mono:
  "true_then_false xs p i j \<Longrightarrow> i \<le> i' \<Longrightarrow> j' \<le> j \<Longrightarrow> true_then_false xs p i' j'"
  unfolding true_then_false_def by (meson order_trans less_le_trans)

lemma findLastIdxMonotonous_correct:
  assumes "i \<le> j" and "true_then_false xs p i j"
  shows "i - 1 \<le> findLastIdxMonotonous xs p i j \<and> findLastIdxMonotonous xs p i j < j
    \<and> (\<forall>k. i \<le> k \<and> k < j \<longrightarrow> (p (js_at xs k) \<longleftrightarrow> k \<le> findLastIdxMonotonous xs p i j))"
  using assms
proof (induction xs p i j rule: findLastIdxMonotonous.induct)
  case (1 xs p i j)
  let ?k = "(i + j) div 2"
  show ?case
  proof (cases "i < j")
    case False
    with "1.prems"(1) have "i = j" by simp
    then show ?thesis by (auto simp: findLastIdxMonotonous.simps [of xs p j j])
  next
    case True
    then have k: "i \<le> ?k" "?k < j" by auto
    show ?thesis
    proof (cases "p (js_at xs ?k)")
      case t: True
      then have below: "p (js_at xs m)" if "i \<le> m" "m \<le> ?k" for m
        using "1.prems"(2) k that by (auto simp: true_then_false_def)
      have "true_then_false xs p (?k + 1) j"
        using "1.prems"(2) k by (auto intro: true_then_false_mono)
      with "1.IH"(1)[OF True refl t] k
      have IH: "?k \<le> findLastIdxMonotonous xs p (?k + 1) j" "findLastIdxMonotonous xs p (?k + 1) j < j"
        "\<And>m. ?k + 1 \<le> m \<Longrightarrow> m < j \<Longrightarrow> p (js_at xs m) \<longleftrightarrow> m \<le> findLastIdxMonotonous xs p (?k + 1) j"
        by auto
      have "p (js_at xs m) \<longleftrightarrow> m \<le> findLastIdxMonotonous xs p (?k + 1) j" if "i \<le> m" "m < j" for m
        using below[of m] IH(1) IH(3)[of m] that by (cases "m \<le> ?k") auto
      with True t IH(1,2) k show ?thesis
        by (auto simp: findLastIdxMonotonous.simps [of xs p i j] Let_def)
    next
      case f: False
      then have above: "\<not> p (js_at xs m)" if "?k \<le> m" "m < j" for m
        using "1.prems"(2) k that by (auto simp: true_then_false_def)
      have "true_then_false xs p i ?k"
        using "1.prems"(2) k by (auto intro: true_then_false_mono)
      with "1.IH"(2)[OF True refl f] k
      have IH: "i - 1 \<le> findLastIdxMonotonous xs p i ?k" "findLastIdxMonotonous xs p i ?k < ?k"
        "\<And>m. i \<le> m \<Longrightarrow> m < ?k \<Longrightarrow> p (js_at xs m) \<longleftrightarrow> m \<le> findLastIdxMonotonous xs p i ?k"
        by auto
      have "p (js_at xs m) \<longleftrightarrow> m \<le> findLastIdxMonotonous xs p i ?k" if "i \<le> m" "m < j" for m
        using above[of m] IH(2) IH(3)[of m] that by (cases "m < ?k") auto
      with True f IH(1,2) k show ?thesis
        by (auto simp: findLastIdxMonotonous.simps [of xs p i j] Let_def)
    qed
  qed
qed

text \<open>The search for the first match is the search for the last non-match, shifted by one.\<close>

lemma findFirst_as_findLast:
  "findFirstIdxMonotonousOrArrLen xs p i j = findLastIdxMonotonous xs (\<lambda>x. \<not> p x) i j + 1"
proof (induction xs p i j rule: findFirstIdxMonotonousOrArrLen.induct)
  case (1 xs p i j)
  then show ?case
    by (simp add: findFirstIdxMonotonousOrArrLen.simps [of xs p i j]
        findLastIdxMonotonous.simps [of xs _ i j] Let_def)
qed

lemma findFirstIdxMonotonousOrArrLen_correct:
  assumes "i \<le> j" and "true_then_false xs (\<lambda>x. \<not> p x) i j"
  shows "i \<le> findFirstIdxMonotonousOrArrLen xs p i j \<and> findFirstIdxMonotonousOrArrLen xs p i j \<le> j
    \<and> (\<forall>k. i \<le> k \<and> k < j \<longrightarrow> (p (js_at xs k) \<longleftrightarrow> findFirstIdxMonotonousOrArrLen xs p i j \<le> k))"
  using findLastIdxMonotonous_correct [OF assms] unfolding findFirst_as_findLast by force

lemma findLastIdx_from_spec:
  "-1 \<le> findLastIdx_from xs p n \<and> findLastIdx_from xs p n < int n
    \<and> (0 \<le> findLastIdx_from xs p n \<longrightarrow> p (js_at xs (findLastIdx_from xs p n)))
    \<and> (\<forall>k. findLastIdx_from xs p n < k \<and> k < int n \<longrightarrow> \<not> p (js_at xs k))"
proof (induction n)
  case 0
  show ?case by auto
next
  case (Suc n)
  show ?case
  proof (cases "p (js_at xs (int n))")
    case True
    then show ?thesis by auto
  next
    case False
    have "\<not> p (js_at xs k)" if "findLastIdx_from xs p n < k" "k < int (Suc n)" for k
      using Suc.IH that False by (cases "k = int n") auto
    with False Suc.IH show ?thesis by auto
  qed
qed

text \<open>The binary search finds what the linear scan finds.\<close>

lemma findLastIdxMonotonous_eq_findLastIdx:
  assumes "true_then_false xs p 0 (int (length xs))"
  shows "findLastIdxMonotonous xs p 0 (int (length xs)) = findLastIdx xs p (int (length xs) - 1)"
proof -
  let ?b = "findLastIdxMonotonous xs p 0 (int (length xs))"
  let ?l = "findLastIdx_from xs p (length xs)"
  have b: "-1 \<le> ?b" "?b < int (length xs)"
    "\<And>k. 0 \<le> k \<Longrightarrow> k < int (length xs) \<Longrightarrow> p (js_at xs k) \<longleftrightarrow> k \<le> ?b"
    using findLastIdxMonotonous_correct [OF _ assms] by auto
  have l: "-1 \<le> ?l" "?l < int (length xs)" "0 \<le> ?l \<Longrightarrow> p (js_at xs ?l)"
    "\<And>k. ?l < k \<Longrightarrow> k < int (length xs) \<Longrightarrow> \<not> p (js_at xs k)"
    using findLastIdx_from_spec [of xs p "length xs"] by auto
  have "?b \<le> ?l"
  proof (rule ccontr)
    assume "\<not> ?b \<le> ?l"
    with l(1) l(4)[of ?b] b(2) b(3)[of ?b] show False by auto
  qed
  moreover have "?l \<le> ?b"
    using l(1-3) b(1) b(3)[of ?l] by (cases "?l = -1") auto
  ultimately show ?thesis by (simp add: findLastIdx_def)
qed

lemma findLastMonotonous_eq_findLast:
  "true_then_false xs p 0 (int (length xs)) \<Longrightarrow> findLastMonotonous xs p = findLast xs p"
  by (simp add: findLastMonotonous_def findLast_def findLastIdxMonotonous_eq_findLastIdx)

text \<open>The same facts over natural-number indices of the whole array.\<close>

lemma true_then_false_natI:
  assumes "\<And>k l. k \<le> l \<Longrightarrow> l < length xs \<Longrightarrow> p (Some (xs ! l)) \<Longrightarrow> p (Some (xs ! k))"
  shows "true_then_false xs p 0 (int (length xs))"
  unfolding true_then_false_def
proof (intro allI impI, elim conjE)
  fix k l :: int
  assume "0 \<le> k" "k \<le> l" "l < int (length xs)" "p (js_at xs l)"
  then show "p (js_at xs k)" using assms [of "nat k" "nat l"] by (simp add: js_at_def)
qed

lemma findLastIdxMonotonous_nat:
  assumes "true_then_false xs p 0 (int (length xs))"
  obtains n where "n \<le> length xs" "findLastIdxMonotonous xs p 0 (int (length xs)) = int n - 1"
    "\<And>k. k < length xs \<Longrightarrow> p (Some (xs ! k)) \<longleftrightarrow> k < n"
proof -
  let ?b = "findLastIdxMonotonous xs p 0 (int (length xs))"
  have b: "-1 \<le> ?b" "?b < int (length xs)"
    and eq: "\<forall>k. 0 \<le> k \<and> k < int (length xs) \<longrightarrow> (p (js_at xs k) \<longleftrightarrow> k \<le> ?b)"
    using findLastIdxMonotonous_correct [OF _ assms] by auto
  show thesis
  proof (rule that [of "nat (?b + 1)"])
    show "p (Some (xs ! k)) \<longleftrightarrow> k < nat (?b + 1)" if "k < length xs" for k
      using eq [rule_format, of "int k"] b(1) that by auto
  qed (use b in auto)
qed

lemma findFirstIdxMonotonous_nat:
  assumes "true_then_false xs (\<lambda>x. \<not> p x) 0 (int (length xs))"
  obtains n where "n \<le> length xs" "findFirstIdxMonotonousOrArrLen xs p 0 (int (length xs)) = int n"
    "\<And>k. k < length xs \<Longrightarrow> p (Some (xs ! k)) \<longleftrightarrow> n \<le> k"
  using findLastIdxMonotonous_nat [OF assms] unfolding findFirst_as_findLast
  by (metis diff_add_cancel not_less)

lemma findLastMonotonous_cases:
  assumes mono: "true_then_false xs p 0 (int (length xs))"
  obtains (none) "findLastMonotonous xs p = None" "\<And>k. k < length xs \<Longrightarrow> \<not> p (Some (xs ! k))"
  | (found) r where "r < length xs" "findLastMonotonous xs p = Some (xs ! r)"
      "\<And>k. k < length xs \<Longrightarrow> p (Some (xs ! k)) \<longleftrightarrow> k \<le> r"
proof -
  obtain n where n: "n \<le> length xs" "findLastIdxMonotonous xs p 0 (int (length xs)) = int n - 1"
    "\<And>k. k < length xs \<Longrightarrow> p (Some (xs ! k)) \<longleftrightarrow> k < n"
    using findLastIdxMonotonous_nat [OF mono] by blast
  show thesis
  proof (cases n)
    case 0
    with n none show ?thesis by (simp add: findLastMonotonous_def)
  next
    case (Suc r)
    with n found [of r] show ?thesis by (simp add: findLastMonotonous_def less_Suc_eq_le)
  qed
qed

section \<open>The searcher answers like the plain search\<close>

definition weaker_on :: "'a list \<Rightarrow> ('a option \<Rightarrow> bool) \<Rightarrow> ('a option \<Rightarrow> bool) \<Rightarrow> bool" where
  "weaker_on xs p q \<longleftrightarrow> (\<forall>x \<in> set xs. p (Some x) \<longrightarrow> q (Some x))"

text \<open>Every predicate is monotonous and each is weaker than the one before, starting after \<open>p\<close>.\<close>

fun weakening_chain :: "'a list \<Rightarrow> ('a option \<Rightarrow> bool) \<Rightarrow> ('a option \<Rightarrow> bool) list \<Rightarrow> bool" where
  "weakening_chain xs p [] = True"
| "weakening_chain xs p (q # qs) \<longleftrightarrow>
     true_then_false xs q 0 (int (length xs)) \<and> weaker_on xs p q \<and> weakening_chain xs q qs"

text \<open>What the searcher remembers: everything below its bound satisfies the previous predicate.\<close>

definition ma_inv :: "'a list \<Rightarrow> ('a option \<Rightarrow> bool) \<Rightarrow> 'a MonotonousArray \<Rightarrow> bool" where
  "ma_inv xs p ma \<longleftrightarrow> ma_array ma = xs
     \<and> 0 \<le> ma_findLastMonotonousLastIdx ma \<and> ma_findLastMonotonousLastIdx ma \<le> int (length xs)
     \<and> (\<forall>k. 0 \<le> k \<and> k < ma_findLastMonotonousLastIdx ma \<longrightarrow> p (js_at xs k))
     \<and> (\<forall>q. ma_prevFindLastPredicate ma = Some q \<longrightarrow> weaker_on xs q p)"

lemma findLastIdxMonotonous_skip:
  assumes mono: "true_then_false xs p 0 n" and i: "0 \<le> i" "i \<le> n"
    and below: "\<And>k. 0 \<le> k \<Longrightarrow> k < i \<Longrightarrow> p (js_at xs k)"
  shows "findLastIdxMonotonous xs p i n = findLastIdxMonotonous xs p 0 n"
proof -
  let ?a = "findLastIdxMonotonous xs p i n" and ?b = "findLastIdxMonotonous xs p 0 n"
  have a: "i - 1 \<le> ?a" "?a < n" "\<And>k. i \<le> k \<Longrightarrow> k < n \<Longrightarrow> p (js_at xs k) \<longleftrightarrow> k \<le> ?a"
    using findLastIdxMonotonous_correct [OF i(2) true_then_false_mono [OF mono i(1) order_refl]] by auto
  have b: "-1 \<le> ?b" "?b < n" "\<And>k. 0 \<le> k \<Longrightarrow> k < n \<Longrightarrow> p (js_at xs k) \<longleftrightarrow> k \<le> ?b"
    using findLastIdxMonotonous_correct [OF _ mono] i by auto
  have "i - 1 \<le> ?b"
    using below [of "i - 1"] b(1) b(3) [of "i - 1"] i by (cases "i = 0") auto
  then show ?thesis
    using a(1) a(2) a(3) [of ?b] a(3) [of ?a] b(1) b(2) b(3) [of ?a] b(3) [of ?b] i(1) i(2)
    by (cases "?a = i - 1"; cases "?b = i - 1") force+
qed

lemma MonotonousArray_check_ok:
  assumes "ma_array ma = xs" and "\<And>r. ma_prevFindLastPredicate ma = Some r \<Longrightarrow> weaker_on xs r q"
  shows "MonotonousArray_check b ma q = Inr (if b then ma\<lparr>ma_prevFindLastPredicate := Some q\<rparr> else ma)"
proof (cases "ma_prevFindLastPredicate ma")
  case None
  then show ?thesis by (simp add: MonotonousArray_check_def)
next
  case (Some r)
  with assms have "\<not> list_ex (\<lambda>item. r (Some item) \<and> \<not> q (Some item)) (ma_array ma)"
    by (auto simp: weaker_on_def list_ex_iff)
  with Some show ?thesis by (simp add: MonotonousArray_check_def)
qed

lemma MonotonousArray_step:
  assumes inv: "ma_inv xs p ma" and mono: "true_then_false xs q 0 (int (length xs))"
    and weak: "weaker_on xs p q"
  shows "\<exists>ma'. MonotonousArray_findLastMonotonous assertInvariants ma q = Inr (findLastMonotonous xs q, ma')
    \<and> ma_inv xs q ma'"
proof -
  let ?i = "ma_findLastMonotonousLastIdx ma" and ?n = "int (length xs)"
  let ?b = "findLastIdxMonotonous xs q 0 ?n"
  have q_below: "q (js_at xs k)" if "0 \<le> k" "k < ?i" for k
  proof -
    have "k < ?n" "p (js_at xs k)" using inv that by (auto simp: ma_inv_def)
    then show ?thesis using weak that(1) by (auto simp: weaker_on_def js_at_def)
  qed
  have skip: "findLastIdxMonotonous xs q ?i ?n = ?b"
    using inv q_below by (intro findLastIdxMonotonous_skip [OF mono]) (auto simp: ma_inv_def)
  have prev: "weaker_on xs r q" if "ma_prevFindLastPredicate ma = Some r" for r
    using inv weak that by (auto simp: ma_inv_def weaker_on_def)
  define ma' where "ma' = (if assertInvariants then ma\<lparr>ma_prevFindLastPredicate := Some q\<rparr> else ma)"
  have arr: "ma_array ma' = xs" and idx: "ma_findLastMonotonousLastIdx ma' = ?i"
    and prev': "\<And>r. ma_prevFindLastPredicate ma' = Some r \<Longrightarrow> weaker_on xs r q"
    using inv prev by (auto simp: ma'_def ma_inv_def weaker_on_def split: if_splits)
  have check: "MonotonousArray_check assertInvariants ma q = Inr ma'"
    using inv prev unfolding ma'_def by (intro MonotonousArray_check_ok) (simp_all add: ma_inv_def)
  have b: "-1 \<le> ?b" "?b < ?n" "\<And>k. 0 \<le> k \<Longrightarrow> k < ?n \<Longrightarrow> q (js_at xs k) \<longleftrightarrow> k \<le> ?b"
    using findLastIdxMonotonous_correct [OF _ mono] by auto
  have "MonotonousArray_findLastMonotonous assertInvariants ma q
      = Inr (findLastMonotonous xs q, ma'\<lparr>ma_findLastMonotonousLastIdx := ?b + 1\<rparr>)"
    by (simp add: MonotonousArray_findLastMonotonous_def check arr idx skip findLastMonotonous_def Let_def)
  moreover have "ma_inv xs q (ma'\<lparr>ma_findLastMonotonousLastIdx := ?b + 1\<rparr>)"
    using b arr prev' by (simp add: ma_inv_def)
  ultimately show ?thesis by blast
qed

lemma MonotonousArray_queries_correct:
  assumes "ma_inv xs p ma" and "weakening_chain xs p qs"
  shows "MonotonousArray_queries assertInvariants ma qs = Inr (map (findLastMonotonous xs) qs)"
  using assms
proof (induction qs arbitrary: p ma)
  case Nil
  then show ?case by simp
next
  case (Cons q qs)
  then have chain: "true_then_false xs q 0 (int (length xs))" "weaker_on xs p q" "weakening_chain xs q qs"
    by simp_all
  from MonotonousArray_step [OF Cons.prems(1) chain(1,2), of assertInvariants]
  obtain ma' where "MonotonousArray_findLastMonotonous assertInvariants ma q = Inr (findLastMonotonous xs q, ma')"
    and "ma_inv xs q ma'" by blast
  with Cons.IH [OF _ chain(3)] show ?case by simp
qed

lemma ma_inv_new: "ma_inv xs (\<lambda>_. False) (new_MonotonousArray xs)"
  by (auto simp: ma_inv_def new_MonotonousArray_def)

section \<open>Comparators\<close>

text \<open>
  The contract of \<^verbatim>\<open>Comparator<T>\<close>: the sign of the result flips with the arguments, and \<open>\<le>\<close> is
  transitive.  Elements may compare as equal without being equal.
\<close>

locale comparator_laws =
  fixes cmp :: "'a \<Rightarrow> 'a \<Rightarrow> int"
  assumes cmp_flip: "sgn (cmp a b) = - sgn (cmp b a)"
    and cmp_trans: "cmp a b \<le> 0 \<Longrightarrow> cmp b c \<le> 0 \<Longrightarrow> cmp a c \<le> 0"
begin

lemma le_iff_ge: "cmp a b \<le> 0 \<longleftrightarrow> 0 \<le> cmp b a"
  using cmp_flip [of a b] by (auto simp: sgn_if split: if_splits)

lemma lt_iff_gt: "cmp a b < 0 \<longleftrightarrow> 0 < cmp b a"
  using le_iff_ge [of b a] by auto

lemma refl_zero: "cmp a a = 0"
  using cmp_flip [of a a] by (auto simp: sgn_if split: if_splits)

lemma lt_le_trans: "cmp a b < 0 \<Longrightarrow> cmp b c \<le> 0 \<Longrightarrow> cmp a c < 0"
  using cmp_trans [of a b c] cmp_trans [of b c a] le_iff_ge [of c a] le_iff_ge [of b a] lt_iff_gt
  by (metis less_le not_less)

lemma le_lt_trans: "cmp a b \<le> 0 \<Longrightarrow> cmp b c < 0 \<Longrightarrow> cmp a c < 0"
  using cmp_trans [of a b c] cmp_trans [of c a b] le_iff_ge [of c a] lt_iff_gt le_iff_ge
  by (metis less_le not_less)

text \<open>The running maximum splits the input: what came before it is smaller, what comes after is
  not larger.\<close>

lemma first_max_loop:
  assumes "max_loop (\<lambda>item m. cmp item m > 0) m xs = r"
  shows "\<exists>us vs. m # xs = us @ r # vs \<and> (\<forall>u \<in> set us. cmp u r < 0) \<and> (\<forall>v \<in> set vs. cmp v r \<le> 0)"
  using assms
proof (induction xs arbitrary: m)
  case Nil
  then show ?case by (intro exI [of _ "[]"]) simp
next
  case (Cons x xs)
  show ?case
  proof (cases "cmp x m > 0")
    case True
    with Cons.prems Cons.IH [of x] obtain us vs where
      *: "x # xs = us @ r # vs" "\<forall>u \<in> set us. cmp u r < 0" "\<forall>v \<in> set vs. cmp v r \<le> 0" by auto
    have "cmp x r \<le> 0" using * refl_zero by (cases us) auto
    with True have "cmp m r < 0" using lt_le_trans lt_iff_gt by blast
    with * show ?thesis by (intro exI [of _ "m # us"] exI [of _ vs]) auto
  next
    case False
    with Cons.prems Cons.IH [of m] obtain us vs where
      *: "m # xs = us @ r # vs" "\<forall>u \<in> set us. cmp u r < 0" "\<forall>v \<in> set vs. cmp v r \<le> 0" by auto
    show ?thesis
    proof (cases us)
      case Nil
      with * False show ?thesis
        by (intro exI [of _ "[]"] exI [of _ "x # vs"]) auto
    next
      case (Cons u us')
      with * have "cmp m r < 0" by auto
      with False have "cmp x r < 0" using le_lt_trans [of x m r] by auto
      with * Cons show ?thesis by (intro exI [of _ "m # x # us'"] exI [of _ vs]) auto
    qed
  qed
qed

lemma findFirstMax_split:
  assumes "findFirstMax xs cmp = Some r"
  shows "\<exists>us vs. xs = us @ r # vs \<and> (\<forall>u \<in> set us. cmp u r < 0) \<and> (\<forall>v \<in> set vs. cmp v r \<le> 0)"
  using assms first_max_loop by (auto simp: findFirstMax_def split: list.splits)

lemma last_max_loop:
  assumes "max_loop (\<lambda>item m. cmp item m \<ge> 0) m xs = r"
  shows "\<exists>us vs. m # xs = us @ r # vs \<and> (\<forall>u \<in> set us. cmp u r \<le> 0) \<and> (\<forall>v \<in> set vs. cmp v r < 0)"
  using assms
proof (induction xs arbitrary: m)
  case Nil
  then show ?case by (intro exI [of _ "[]"]) simp
next
  case (Cons x xs)
  show ?case
  proof (cases "cmp x m \<ge> 0")
    case True
    with Cons.prems Cons.IH [of x] obtain us vs where
      *: "x # xs = us @ r # vs" "\<forall>u \<in> set us. cmp u r \<le> 0" "\<forall>v \<in> set vs. cmp v r < 0" by auto
    have "cmp x r \<le> 0" using * refl_zero by (cases us) auto
    moreover have "cmp m x \<le> 0" using True le_iff_ge by blast
    ultimately have "cmp m r \<le> 0" using cmp_trans by blast
    with * show ?thesis by (intro exI [of _ "m # us"] exI [of _ vs]) auto
  next
    case False
    with Cons.prems Cons.IH [of m] obtain us vs where
      *: "m # xs = us @ r # vs" "\<forall>u \<in> set us. cmp u r \<le> 0" "\<forall>v \<in> set vs. cmp v r < 0" by auto
    show ?thesis
    proof (cases us)
      case Nil
      with * False show ?thesis
        by (intro exI [of _ "[]"] exI [of _ "x # vs"]) auto
    next
      case (Cons u us')
      with * have "cmp m r \<le> 0" by auto
      with False have "cmp x r \<le> 0" using lt_le_trans [of x m r] by auto
      with * Cons show ?thesis by (intro exI [of _ "m # x # us'"] exI [of _ vs]) auto
    qed
  qed
qed

lemma findLastMax_split:
  assumes "findLastMax xs cmp = Some r"
  shows "\<exists>us vs. xs = us @ r # vs \<and> (\<forall>u \<in> set us. cmp u r \<le> 0) \<and> (\<forall>v \<in> set vs. cmp v r < 0)"
  using assms last_max_loop by (auto simp: findLastMax_def split: list.splits)

lemma maxIdx_loop_split:
  assumes "maxIdx_loop cmp (int (length us)) m (int (length (us @ m # vs))) xs = k"
    and "\<forall>u \<in> set us. cmp u m < 0" and "\<forall>v \<in> set vs. cmp v m \<le> 0"
  shows "\<exists>us' r vs'. us @ m # vs @ xs = us' @ r # vs' \<and> k = int (length us')
    \<and> (\<forall>u \<in> set us'. cmp u r < 0) \<and> (\<forall>v \<in> set vs'. cmp v r \<le> 0)"
  using assms
proof (induction xs arbitrary: us m vs)
  case Nil
  then show ?case by auto
next
  case (Cons x xs)
  show ?case
  proof (cases "cmp x m > 0")
    case True
    then have mx: "cmp m x < 0" using lt_iff_gt by blast
    with Cons.prems(2,3) have "\<forall>u \<in> set (us @ m # vs). cmp u x < 0"
      using le_lt_trans lt_le_trans less_imp_le by (metis Un_iff set_ConsD set_append)
    with Cons.IH [of "us @ m # vs" x "[]"] Cons.prems(1) True show ?thesis
      by (auto simp: algebra_simps)
  next
    case False
    with Cons.IH [of us m "vs @ [x]"] Cons.prems show ?thesis
      by (auto simp: algebra_simps)
  qed
qed

lemma findMaxIdx_split:
  assumes "xs \<noteq> []"
  shows "\<exists>us r vs. xs = us @ r # vs \<and> findMaxIdx xs cmp = int (length us)
    \<and> (\<forall>u \<in> set us. cmp u r < 0) \<and> (\<forall>v \<in> set vs. cmp v r \<le> 0)"
proof -
  from assms obtain x ys where xs: "xs = x # ys" by (cases xs) auto
  show ?thesis
    using maxIdx_loop_split [of "[]" x "[]" ys "findMaxIdx xs cmp"] by (simp add: xs findMaxIdx_def)
qed

text \<open>Negating a comparator gives a comparator, so the smallest element is found like the largest.\<close>

lemma flipped_laws: "comparator_laws (\<lambda>a b. - cmp a b)"
proof
  show "sgn (- cmp a b) = - sgn (- cmp b a)" for a b
    using cmp_flip [of a b] by simp
  show "- cmp a c \<le> 0" if "- cmp a b \<le> 0" "- cmp b c \<le> 0" for a b c
    using that cmp_trans [of c b a] le_iff_ge [of b a] le_iff_ge [of c b] le_iff_ge [of c a] by auto
qed

lemma findFirstMin_split:
  assumes "findFirstMin xs cmp = Some r"
  shows "\<exists>us vs. xs = us @ r # vs \<and> (\<forall>u \<in> set us. cmp r u < 0) \<and> (\<forall>v \<in> set vs. cmp r v \<le> 0)"
proof -
  have "\<exists>us vs. xs = us @ r # vs \<and> (\<forall>u \<in> set us. - cmp u r < 0) \<and> (\<forall>v \<in> set vs. - cmp v r \<le> 0)"
    using assms by (intro comparator_laws.findFirstMax_split [OF flipped_laws]) (simp add: findFirstMin_def)
  then show ?thesis using lt_iff_gt le_iff_ge by fastforce
qed

end

section \<open>Properties\<close>

lemma findFirstMonotonous_eq_find:
  assumes "true_then_false xs (\<lambda>x. \<not> p x) 0 (int (length xs))"
  shows "findFirstMonotonous xs p = find (\<lambda>x. p (Some x)) xs"
proof -
  obtain n where n: "n \<le> length xs" "findFirstIdxMonotonousOrArrLen xs p 0 (int (length xs)) = int n"
    "\<And>k. k < length xs \<Longrightarrow> p (Some (xs ! k)) \<longleftrightarrow> n \<le> k"
    using findFirstIdxMonotonous_nat [OF assms] by blast
  show ?thesis
  proof (cases "n = length xs")
    case True
    with n have "find (\<lambda>x. p (Some x)) xs = None" by (auto simp: find_None_iff in_set_conv_nth)
    with n True show ?thesis by (simp add: findFirstMonotonous_def)
  next
    case False
    with n have "find (\<lambda>x. p (Some x)) xs = Some (xs ! n)"
      by (auto simp: find_Some_iff intro!: exI [of _ n])
    with n False show ?thesis by (simp add: findFirstMonotonous_def)
  qed
qed

text \<open>on an array on which the predicate is first true and then false, the binary searches return
  what the linear scans return: the index and the element of the last match, and the first element
  that does not match.\<close>

theorem monotonous_search_is_linear_search:
  assumes "true_then_false xs p 0 (int (length xs))"
  shows "findLastIdxMonotonous xs p 0 (int (length xs)) = findLastIdx xs p (int (length xs) - 1)
    \<and> findLastMonotonous xs p = findLast xs p
    \<and> findFirstMonotonous xs (\<lambda>x. \<not> p x) = find (\<lambda>x. \<not> p (Some x)) xs"
  using findLastIdxMonotonous_eq_findLastIdx [OF assms] findLastMonotonous_eq_findLast [OF assms]
    findFirstMonotonous_eq_find [of xs "\<lambda>x. \<not> p x"] assms by simp

theorem monotonous_search_is_linear_search_witness:
  "true_then_false [1, 3, 5 :: int] (on_elem (\<lambda>x. x < 4)) 0 3
   \<and> findLastIdxMonotonous [1, 3, 5 :: int] (on_elem (\<lambda>x. x < 4)) 0 3 = 1
   \<and> findLastMonotonous [1, 3, 5 :: int] (on_elem (\<lambda>x. x < 4)) = Some 3
   \<and> findFirstMonotonous [1, 3, 5 :: int] (\<lambda>x. \<not> on_elem (\<lambda>x. x < 4) x) = Some 5"
proof -
  have "true_then_false [1, 3, 5 :: int] (on_elem (\<lambda>x. x < 4)) 0 (int (length [1, 3, 5 :: int]))"
    by (rule true_then_false_natI) (auto simp: less_Suc_eq le_Suc_eq)
  from monotonous_search_is_linear_search [OF this] this show ?thesis
    by (simp add: findLastIdx_def findLast_def js_at_def eval_nat_numeral)
qed

text \<open>a \<^verbatim>\<open>MonotonousArray\<close> that is asked with weaker and weaker predicates gives every answer the plain
  binary search over the whole array gives, and its invariant check never throws.\<close>

theorem monotonous_array_answers:
  assumes "weakening_chain xs (\<lambda>_. False) qs"
  shows "MonotonousArray_queries assertInvariants (new_MonotonousArray xs) qs = Inr (map (findLast xs) qs)"
proof -
  have "map (findLastMonotonous xs) qs = map (findLast xs) qs"
    if "weakening_chain xs p qs" for p
    using that by (induction qs arbitrary: p) (auto intro: findLastMonotonous_eq_findLast)
  then show ?thesis using MonotonousArray_queries_correct [OF ma_inv_new assms] assms by simp
qed

theorem monotonous_array_answers_witness:
  "weakening_chain [1, 3, 5 :: int] (\<lambda>_. False) [on_elem (\<lambda>x. x < 2), on_elem (\<lambda>x. x < 6)]
   \<and> MonotonousArray_queries True (new_MonotonousArray [1, 3, 5 :: int]) [on_elem (\<lambda>x. x < 2), on_elem (\<lambda>x. x < 6)]
       = Inr [Some 1, Some 5]"
proof -
  have "true_then_false [1, 3, 5 :: int] (on_elem (\<lambda>x. x < c)) 0 (int (length [1, 3, 5 :: int]))" for c
    by (rule true_then_false_natI) (auto simp: less_Suc_eq le_Suc_eq)
  then have "weakening_chain [1, 3, 5 :: int] (\<lambda>_. False) [on_elem (\<lambda>x. x < 2), on_elem (\<lambda>x. x < 6)]"
    by (auto simp: weaker_on_def)
  from monotonous_array_answers [OF this, of True] this show ?thesis
    by (simp add: findLastIdx_def findLast_def js_at_def eval_nat_numeral)
qed

end
