(* ===== verification/Text_Position.thy ===== *)
theory Text_Position
  imports Arrays_Find
begin

text \<open>
  \<^verbatim>\<open>src/vs/editor/common/core/position.ts\<close>: positions of the text model (line and column, both
  starting at 1).  The class \<^verbatim>\<open>Position\<close> is a record; its order is the lexicographic one, and the type is
  made an instance of \<open>linorder\<close> so that the library's order reasoning applies to it.
\<close>

section \<open>The class Position\<close>

record Position =
  lineNumber :: int
  column :: int

abbreviation new_Position :: "int \<Rightarrow> int \<Rightarrow> Position" where
  "new_Position l c \<equiv> \<lparr>lineNumber = l, column = c\<rparr>"

definition Position_with :: "Position \<Rightarrow> int option \<Rightarrow> int option \<Rightarrow> Position" where
  "Position_with this newLineNumber newColumn =
     (let l = (case newLineNumber of None \<Rightarrow> lineNumber this | Some x \<Rightarrow> x);
          c = (case newColumn of None \<Rightarrow> column this | Some x \<Rightarrow> x)
      in if l = lineNumber this \<and> c = column this then this else new_Position l c)"

definition Position_delta :: "Position \<Rightarrow> int \<Rightarrow> int \<Rightarrow> Position" where
  "Position_delta this deltaLineNumber deltaColumn =
     Position_with this (Some (lineNumber this + deltaLineNumber)) (Some (column this + deltaColumn))"

definition Position_equals :: "Position option \<Rightarrow> Position option \<Rightarrow> bool" where
  "Position_equals a b =
     (case (a, b) of
        (None, None) \<Rightarrow> True
      | (Some p, Some q) \<Rightarrow> lineNumber p = lineNumber q \<and> column p = column q
      | _ \<Rightarrow> False)"

definition Position_isBefore :: "Position \<Rightarrow> Position \<Rightarrow> bool" where
  "Position_isBefore a b =
     (if lineNumber a < lineNumber b then True
      else if lineNumber b < lineNumber a then False
      else column a < column b)"

definition Position_isBeforeOrEqual :: "Position \<Rightarrow> Position \<Rightarrow> bool" where
  "Position_isBeforeOrEqual a b =
     (if lineNumber a < lineNumber b then True
      else if lineNumber b < lineNumber a then False
      else column a \<le> column b)"

definition Position_compare :: "Position \<Rightarrow> Position \<Rightarrow> int" where
  "Position_compare a b =
     (let aLineNumber = toInt32 (lineNumber a); bLineNumber = toInt32 (lineNumber b) in
      if aLineNumber = bLineNumber then
        let aColumn = toInt32 (column a); bColumn = toInt32 (column b) in aColumn - bColumn
      else aLineNumber - bLineNumber)"

section \<open>Positions are linearly ordered\<close>

instantiation Position_ext :: (linorder) linorder
begin

definition less_eq_Position_ext :: "'a Position_ext \<Rightarrow> 'a Position_ext \<Rightarrow> bool" where
  "p \<le> q \<longleftrightarrow> lineNumber p < lineNumber q
     \<or> lineNumber p = lineNumber q \<and> (column p < column q
        \<or> column p = column q \<and> Position.more p \<le> Position.more q)"

definition less_Position_ext :: "'a Position_ext \<Rightarrow> 'a Position_ext \<Rightarrow> bool" where
  "p < q \<longleftrightarrow> lineNumber p < lineNumber q
     \<or> lineNumber p = lineNumber q \<and> (column p < column q
        \<or> column p = column q \<and> Position.more p < Position.more q)"

instance
  by standard (auto simp: less_eq_Position_ext_def less_Position_ext_def)

end

lemma Position_le_iff [range_defs]:
  "(p :: Position) \<le> q \<longleftrightarrow> lineNumber p < lineNumber q \<or> lineNumber p = lineNumber q \<and> column p \<le> column q"
  by (auto simp: less_eq_Position_ext_def)

lemma Position_less_iff [range_defs]:
  "(p :: Position) < q \<longleftrightarrow> lineNumber p < lineNumber q \<or> lineNumber p = lineNumber q \<and> column p < column q"
  by (auto simp: less_Position_ext_def)

lemma Position_isBefore_iff [simp]: "Position_isBefore a b \<longleftrightarrow> a < b"
  by (auto simp: Position_isBefore_def Position_less_iff)

lemma Position_isBeforeOrEqual_iff [simp]: "Position_isBeforeOrEqual a b \<longleftrightarrow> a \<le> b"
  by (auto simp: Position_isBeforeOrEqual_def Position_le_iff)

lemma Position_equals_iff [simp]: "Position_equals a b \<longleftrightarrow> a = b"
  by (auto simp: Position_equals_def split: option.splits)

text \<open>Coordinates that \<^verbatim>\<open>x | 0\<close> keeps.\<close>

definition Position_int32 :: "Position \<Rightarrow> bool" where
  "Position_int32 p \<longleftrightarrow> int32_range (lineNumber p) \<and> int32_range (column p)"

lemma Position_compare_int32:
  assumes "Position_int32 a" "Position_int32 b"
  shows "Position_compare a b < 0 \<longleftrightarrow> a < b" and "Position_compare a b = 0 \<longleftrightarrow> a = b"
    and "Position_compare a b > 0 \<longleftrightarrow> b < a"
  using assms
  by (auto simp: Position_compare_def Position_int32_def Position_less_iff js_simps Let_def)

text \<open>Without the range condition \<^verbatim>\<open>compare\<close> still is a comparator, of the truncated positions.\<close>

interpretation position_cmp: comparator_laws Position_compare
proof
  show "sgn (Position_compare a b) = - sgn (Position_compare b a)" for a b
    by (simp add: Position_compare_def sgn_if Let_def)
  show "Position_compare a c \<le> 0"
    if "Position_compare a b \<le> 0" "Position_compare b c \<le> 0" for a b c
    using that by (auto simp: Position_compare_def Let_def split: if_splits)
qed

section \<open>Properties\<close>

text \<open>over positions whose coordinates fit 32 bits, \<^verbatim>\<open>Position.compare\<close> orders like
  \<^verbatim>\<open>isBefore\<close>, so the extremal searches called with it find the largest and the smallest position, and
  \<^verbatim>\<open>findMaxIdx\<close> the first index of the largest.\<close>

theorem extremal_positions:
  assumes "xs \<noteq> []" and "\<forall>p \<in> set xs. Position_int32 p"
  shows "findFirstMax xs Position_compare = Some (Max (set xs))
    \<and> findLastMax xs Position_compare = Some (Max (set xs))
    \<and> findFirstMin xs Position_compare = Some (Min (set xs))
    \<and> js_at xs (findMaxIdx xs Position_compare) = Some (Max (set xs))
    \<and> Max (set xs) \<notin> set (take (nat (findMaxIdx xs Position_compare)) xs)"
proof (intro conjI)
  have le: "p \<le> q \<longleftrightarrow> Position_compare p q \<le> 0" "p < q \<longleftrightarrow> Position_compare p q < 0"
    if "p \<in> set xs" "q \<in> set xs" for p q
    using that assms(2) Position_compare_int32 [of p q] by (auto simp: not_less [symmetric])
  have max: "Max (set xs) = r" if "xs = us @ r # vs" "\<forall>u \<in> set us \<union> set vs. Position_compare u r \<le> 0" for us r vs
    using that le by (intro Max_eqI) auto
  show "findFirstMax xs Position_compare = Some (Max (set xs))"
  proof -
    obtain r where r: "findFirstMax xs Position_compare = Some r" using assms(1) by (cases xs) (auto simp: findFirstMax_def)
    from position_cmp.findFirstMax_split [OF r] show ?thesis using max r by fastforce
  qed
  show "findLastMax xs Position_compare = Some (Max (set xs))"
  proof -
    obtain r where r: "findLastMax xs Position_compare = Some r" using assms(1) by (cases xs) (auto simp: findLastMax_def)
    from position_cmp.findLastMax_split [OF r] show ?thesis using max r by fastforce
  qed
  show "findFirstMin xs Position_compare = Some (Min (set xs))"
  proof -
    obtain r where r: "findFirstMin xs Position_compare = Some r"
      using assms(1) by (cases xs) (auto simp: findFirstMin_def findFirstMax_def)
    then obtain us vs where s: "xs = us @ r # vs" "\<forall>u \<in> set us. Position_compare r u < 0" "\<forall>v \<in> set vs. Position_compare r v \<le> 0"
      using position_cmp.findFirstMin_split by blast
    then have "Min (set xs) = r" using le by (intro Min_eqI) force+
    then show ?thesis using r by simp
  qed
  obtain us r vs where s: "xs = us @ r # vs" "findMaxIdx xs Position_compare = int (length us)"
    "\<forall>u \<in> set us. Position_compare u r < 0" "\<forall>v \<in> set vs. Position_compare v r \<le> 0"
    using position_cmp.findMaxIdx_split [OF assms(1)] by blast
  then have m: "Max (set xs) = r" by (intro max) auto
  show "js_at xs (findMaxIdx xs Position_compare) = Some (Max (set xs))"
    unfolding m s(2) using js_at_int [of "length us" xs] s(1) by simp
  have "\<forall>u \<in> set us. u < r" using s(1,3) le(2) by simp
  then show "Max (set xs) \<notin> set (take (nat (findMaxIdx xs Position_compare)) xs)"
    unfolding m s(2) using s(1) by auto
qed

theorem extremal_positions_witness:
  "findFirstMax [new_Position 1 5, new_Position 2 1] Position_compare = Some (new_Position 2 1)
   \<and> findFirstMin [new_Position 1 5, new_Position 2 1] Position_compare = Some (new_Position 1 5)"
proof -
  have "Max {new_Position 1 5, new_Position 2 1} = new_Position 2 1"
    "Min {new_Position 1 5, new_Position 2 1} = new_Position 1 5"
    by (simp_all add: max_def min_def Position_le_iff)
  then show ?thesis
    using extremal_positions [of "[new_Position 1 5, new_Position 2 1]"]
    by (simp add: Position_int32_def int32_range_def)
qed

end
