(* ===== verification/Text_Range.thy ===== *)
theory Text_Range
  imports Text_Position
begin

text \<open>
  \<^verbatim>\<open>src/vs/editor/common/core/range.ts\<close>: ranges between two positions.  The record \<open>Range\<close> carries the
  fields of \<^verbatim>\<open>IRange\<close>; the operations are stated on its extensible scheme, because \<^verbatim>\<open>Selection\<close> extends
  \<^verbatim>\<open>Range\<close>.  Ranges made by the constructor \<open>new_Range\<close> satisfy \<open>range_valid\<close>; a value that is only
  an \<^verbatim>\<open>IRange\<close> need not.
\<close>

section \<open>The class Range\<close>

record Range =
  startLineNumber :: int
  startColumn :: int
  endLineNumber :: int
  endColumn :: int

definition new_Range :: "int \<Rightarrow> int \<Rightarrow> int \<Rightarrow> int \<Rightarrow> Range" where
  "new_Range sl sc el ec =
     (if sl > el \<or> (sl = el \<and> sc > ec)
      then \<lparr>startLineNumber = el, startColumn = ec, endLineNumber = sl, endColumn = sc\<rparr>
      else \<lparr>startLineNumber = sl, startColumn = sc, endLineNumber = el, endColumn = ec\<rparr>)"

definition Range_isEmpty :: "'a Range_scheme \<Rightarrow> bool" where
  "Range_isEmpty r \<longleftrightarrow> startLineNumber r = endLineNumber r \<and> startColumn r = endColumn r"

definition Range_containsPosition :: "'a Range_scheme \<Rightarrow> Position \<Rightarrow> bool" where
  "Range_containsPosition r p =
     (if lineNumber p < startLineNumber r \<or> lineNumber p > endLineNumber r then False
      else if lineNumber p = startLineNumber r \<and> column p < startColumn r then False
      else if lineNumber p = endLineNumber r \<and> column p > endColumn r then False
      else True)"

definition Range_strictContainsPosition :: "'a Range_scheme \<Rightarrow> Position \<Rightarrow> bool" where
  "Range_strictContainsPosition r p =
     (if lineNumber p < startLineNumber r \<or> lineNumber p > endLineNumber r then False
      else if lineNumber p = startLineNumber r \<and> column p \<le> startColumn r then False
      else if lineNumber p = endLineNumber r \<and> column p \<ge> endColumn r then False
      else True)"

definition Range_containsRange :: "'a Range_scheme \<Rightarrow> 'b Range_scheme \<Rightarrow> bool" where
  "Range_containsRange r other =
     (if startLineNumber other < startLineNumber r \<or> endLineNumber other < startLineNumber r then False
      else if startLineNumber other > endLineNumber r \<or> endLineNumber other > endLineNumber r then False
      else if startLineNumber other = startLineNumber r \<and> startColumn other < startColumn r then False
      else if endLineNumber other = endLineNumber r \<and> endColumn other > endColumn r then False
      else True)"

definition Range_strictContainsRange :: "'a Range_scheme \<Rightarrow> 'b Range_scheme \<Rightarrow> bool" where
  "Range_strictContainsRange r other =
     (if startLineNumber other < startLineNumber r \<or> endLineNumber other < startLineNumber r then False
      else if startLineNumber other > endLineNumber r \<or> endLineNumber other > endLineNumber r then False
      else if startLineNumber other = startLineNumber r \<and> startColumn other \<le> startColumn r then False
      else if endLineNumber other = endLineNumber r \<and> endColumn other \<ge> endColumn r then False
      else True)"

definition Range_plusRange :: "'a Range_scheme \<Rightarrow> 'b Range_scheme \<Rightarrow> Range" where
  "Range_plusRange a b =
     (let (sl, sc) =
            (if startLineNumber b < startLineNumber a then (startLineNumber b, startColumn b)
             else if startLineNumber b = startLineNumber a
                  then (startLineNumber b, min (startColumn b) (startColumn a))
             else (startLineNumber a, startColumn a));
          (el, ec) =
            (if endLineNumber b > endLineNumber a then (endLineNumber b, endColumn b)
             else if endLineNumber b = endLineNumber a
                  then (endLineNumber b, max (endColumn b) (endColumn a))
             else (endLineNumber a, endColumn a))
      in new_Range sl sc el ec)"

definition Range_intersectRanges :: "'a Range_scheme \<Rightarrow> 'b Range_scheme \<Rightarrow> Range option" where
  "Range_intersectRanges a b =
     (let (sl, sc) =
            (if startLineNumber a < startLineNumber b then (startLineNumber b, startColumn b)
             else if startLineNumber a = startLineNumber b
                  then (startLineNumber a, max (startColumn a) (startColumn b))
             else (startLineNumber a, startColumn a));
          (el, ec) =
            (if endLineNumber a > endLineNumber b then (endLineNumber b, endColumn b)
             else if endLineNumber a = endLineNumber b
                  then (endLineNumber a, min (endColumn a) (endColumn b))
             else (endLineNumber a, endColumn a))
      in if sl > el then None
         else if sl = el \<and> sc > ec then None
         else Some (new_Range sl sc el ec))"

definition Range_equalsRange :: "Range option \<Rightarrow> Range option \<Rightarrow> bool" where
  "Range_equalsRange a b =
     (case (a, b) of
        (None, None) \<Rightarrow> True
      | (Some r, Some s) \<Rightarrow> startLineNumber r = startLineNumber s \<and> startColumn r = startColumn s
          \<and> endLineNumber r = endLineNumber s \<and> endColumn r = endColumn s
      | _ \<Rightarrow> False)"

definition Range_getEndPosition :: "'a Range_scheme \<Rightarrow> Position" where
  "Range_getEndPosition r = new_Position (endLineNumber r) (endColumn r)"

definition Range_getStartPosition :: "'a Range_scheme \<Rightarrow> Position" where
  "Range_getStartPosition r = new_Position (startLineNumber r) (startColumn r)"

definition Range_setEndPosition :: "'a Range_scheme \<Rightarrow> int \<Rightarrow> int \<Rightarrow> Range" where
  "Range_setEndPosition r el ec = new_Range (startLineNumber r) (startColumn r) el ec"

definition Range_setStartPosition :: "'a Range_scheme \<Rightarrow> int \<Rightarrow> int \<Rightarrow> Range" where
  "Range_setStartPosition r sl sc = new_Range sl sc (endLineNumber r) (endColumn r)"

definition Range_collapseToStart :: "'a Range_scheme \<Rightarrow> Range" where
  "Range_collapseToStart r =
     new_Range (startLineNumber r) (startColumn r) (startLineNumber r) (startColumn r)"

definition Range_collapseToEnd :: "'a Range_scheme \<Rightarrow> Range" where
  "Range_collapseToEnd r = new_Range (endLineNumber r) (endColumn r) (endLineNumber r) (endColumn r)"

definition Range_delta :: "'a Range_scheme \<Rightarrow> int \<Rightarrow> Range" where
  "Range_delta r lineCount =
     new_Range (startLineNumber r + lineCount) (startColumn r) (endLineNumber r + lineCount) (endColumn r)"

definition Range_fromPositions :: "Position \<Rightarrow> Position \<Rightarrow> Range" where
  "Range_fromPositions s e = new_Range (lineNumber s) (column s) (lineNumber e) (column e)"

definition Range_lift :: "'a Range_scheme option \<Rightarrow> Range option" where
  "Range_lift r =
     (case r of None \<Rightarrow> None
      | Some x \<Rightarrow> Some (new_Range (startLineNumber x) (startColumn x) (endLineNumber x) (endColumn x)))"

definition Range_areIntersectingOrTouching :: "'a Range_scheme \<Rightarrow> 'b Range_scheme \<Rightarrow> bool" where
  "Range_areIntersectingOrTouching a b =
     (if endLineNumber a < startLineNumber b
         \<or> (endLineNumber a = startLineNumber b \<and> endColumn a < startColumn b) then False
      else if endLineNumber b < startLineNumber a
         \<or> (endLineNumber b = startLineNumber a \<and> endColumn b < startColumn a) then False
      else True)"

definition Range_areIntersecting :: "'a Range_scheme \<Rightarrow> 'b Range_scheme \<Rightarrow> bool" where
  "Range_areIntersecting a b =
     (if endLineNumber a < startLineNumber b
         \<or> (endLineNumber a = startLineNumber b \<and> endColumn a \<le> startColumn b) then False
      else if endLineNumber b < startLineNumber a
         \<or> (endLineNumber b = startLineNumber a \<and> endColumn b \<le> startColumn a) then False
      else True)"

definition Range_compareRangesUsingStarts :: "Range option \<Rightarrow> Range option \<Rightarrow> int" where
  "Range_compareRangesUsingStarts a0 b0 =
     (case (a0, b0) of
        (Some a, Some b) \<Rightarrow>
          (if toInt32 (startLineNumber a) = toInt32 (startLineNumber b) then
             if toInt32 (startColumn a) = toInt32 (startColumn b) then
               if toInt32 (endLineNumber a) = toInt32 (endLineNumber b)
               then toInt32 (endColumn a) - toInt32 (endColumn b)
               else toInt32 (endLineNumber a) - toInt32 (endLineNumber b)
             else toInt32 (startColumn a) - toInt32 (startColumn b)
           else toInt32 (startLineNumber a) - toInt32 (startLineNumber b))
      | _ \<Rightarrow> (if a0 = None then 0 else 1) - (if b0 = None then 0 else 1))"

definition Range_compareRangesUsingEnds :: "'a Range_scheme \<Rightarrow> 'a Range_scheme \<Rightarrow> int" where
  "Range_compareRangesUsingEnds a b =
     (if endLineNumber a = endLineNumber b then
        if endColumn a = endColumn b then
          if startLineNumber a = startLineNumber b then startColumn a - startColumn b
          else startLineNumber a - startLineNumber b
        else endColumn a - endColumn b
      else endLineNumber a - endLineNumber b)"

definition Range_spansMultipleLines :: "'a Range_scheme \<Rightarrow> bool" where
  "Range_spansMultipleLines r \<longleftrightarrow> endLineNumber r > startLineNumber r"

section \<open>Ranges as intervals of positions\<close>

text \<open>The class invariant stated in the comment of \<^verbatim>\<open>Range\<close>.\<close>

definition range_valid :: "'a Range_scheme \<Rightarrow> bool" where
  "range_valid r \<longleftrightarrow> Range_getStartPosition r \<le> Range_getEndPosition r"

lemmas Range_get_defs = Range_getStartPosition_def Range_getEndPosition_def

lemma Range_get_simps [simp]:
  "lineNumber (Range_getStartPosition r) = startLineNumber r"
  "column (Range_getStartPosition r) = startColumn r"
  "lineNumber (Range_getEndPosition r) = endLineNumber r"
  "column (Range_getEndPosition r) = endColumn r"
  by (simp_all add: Range_get_defs)

lemma range_valid_iff [range_defs]:
  "range_valid r \<longleftrightarrow> startLineNumber r < endLineNumber r
     \<or> startLineNumber r = endLineNumber r \<and> startColumn r \<le> endColumn r"
  by (simp add: range_valid_def Position_le_iff)

lemma range_valid_new [simp]: "range_valid (new_Range sl sc el ec)"
  by (auto simp: range_valid_iff new_Range_def)

lemma new_Range_ends:
  "Range_getStartPosition (new_Range sl sc el ec) = min (new_Position sl sc) (new_Position el ec)"
  "Range_getEndPosition (new_Range sl sc el ec) = max (new_Position sl sc) (new_Position el ec)"
  by (auto simp: new_Range_def Range_get_defs min_def max_def Position_le_iff)

lemma Range_eq_iff:
  "(r :: Range) = s \<longleftrightarrow> Range_getStartPosition r = Range_getStartPosition s
     \<and> Range_getEndPosition r = Range_getEndPosition s"
  by (cases r; cases s) (auto simp: Range_get_defs)

lemma new_Position_collapse [simp]: "new_Position (lineNumber p) (column p) = p"
  by simp

lemma Range_fromPositions_ends [simp]:
  "Range_getStartPosition (Range_fromPositions p q) = min p q"
  "Range_getEndPosition (Range_fromPositions p q) = max p q"
  by (simp_all add: Range_fromPositions_def new_Range_ends)

lemma Range_fromPositions_valid [simp]: "range_valid (Range_fromPositions p q)"
  by (simp add: Range_fromPositions_def)

lemma Range_containsPosition_iff:
  "range_valid r \<Longrightarrow> Range_containsPosition r p \<longleftrightarrow> Range_getStartPosition r \<le> p \<and> p \<le> Range_getEndPosition r"
  by (auto simp: Range_containsPosition_def range_defs)

lemma Range_strictContainsPosition_iff:
  "range_valid r \<Longrightarrow> Range_strictContainsPosition r p \<longleftrightarrow> Range_getStartPosition r < p \<and> p < Range_getEndPosition r"
  by (auto simp: Range_strictContainsPosition_def range_defs)

lemma Range_containsRange_iff:
  "range_valid r \<Longrightarrow> range_valid s \<Longrightarrow> Range_containsRange r s \<longleftrightarrow>
     Range_getStartPosition r \<le> Range_getStartPosition s \<and> Range_getEndPosition s \<le> Range_getEndPosition r"
  by (auto simp: Range_containsRange_def range_defs)

lemma Range_strictContainsRange_iff:
  "range_valid r \<Longrightarrow> range_valid s \<Longrightarrow> Range_strictContainsRange r s \<longleftrightarrow>
     Range_getStartPosition r < Range_getStartPosition s \<and> Range_getEndPosition s < Range_getEndPosition r"
  by (auto simp: Range_strictContainsRange_def range_defs)

text \<open>The two \<^verbatim>\<open>if\<close> cascades compute the smaller start and the larger end.\<close>

lemma min_max_new_Position:
  "min (new_Position l c) (new_Position l' c') =
     (if l' < l then new_Position l' c' else if l' = l then new_Position l' (min c' c) else new_Position l c)"
  "max (new_Position l c) (new_Position l' c') =
     (if l' > l then new_Position l' c' else if l' = l then new_Position l' (max c' c) else new_Position l c)"
  by (auto simp: min_def max_def Position_le_iff)

lemma Range_plusRange_eq:
  "Range_plusRange a b = Range_fromPositions
     (min (Range_getStartPosition a) (Range_getStartPosition b))
     (max (Range_getEndPosition a) (Range_getEndPosition b))"
  unfolding Range_plusRange_def Range_get_defs min_max_new_Position Range_fromPositions_def
  by (simp add: Let_def)

lemma Range_plusRange_ends:
  assumes "range_valid a" "range_valid b"
  shows "Range_getStartPosition (Range_plusRange a b) = min (Range_getStartPosition a) (Range_getStartPosition b)"
    and "Range_getEndPosition (Range_plusRange a b) = max (Range_getEndPosition a) (Range_getEndPosition b)"
  using assms unfolding Range_plusRange_eq range_valid_def
  by (auto simp: min_def max_def)

lemma Range_plusRange_valid [simp]: "range_valid (Range_plusRange a b)"
  by (auto simp: Range_plusRange_def Let_def split: prod.splits)

lemma Range_intersectRanges_iff:
  assumes "range_valid a" "range_valid b"
  defines "s \<equiv> max (Range_getStartPosition a) (Range_getStartPosition b)"
    and "e \<equiv> min (Range_getEndPosition a) (Range_getEndPosition b)"
  shows "Range_intersectRanges a b = (if s \<le> e then Some (Range_fromPositions s e) else None)"
  using assms(1,2) unfolding s_def e_def
  by (auto simp: Range_intersectRanges_def Range_fromPositions_def range_defs Range_get_defs
      min_def max_def Let_def)

lemma Range_areIntersectingOrTouching_iff:
  "range_valid a \<Longrightarrow> range_valid b \<Longrightarrow> Range_areIntersectingOrTouching a b \<longleftrightarrow>
     Range_getStartPosition b \<le> Range_getEndPosition a \<and> Range_getStartPosition a \<le> Range_getEndPosition b"
  by (auto simp: Range_areIntersectingOrTouching_def range_defs)

lemma Range_areIntersecting_iff:
  "range_valid a \<Longrightarrow> range_valid b \<Longrightarrow> Range_areIntersecting a b \<longleftrightarrow>
     Range_getStartPosition b < Range_getEndPosition a \<and> Range_getStartPosition a < Range_getEndPosition b"
  by (auto simp: Range_areIntersecting_def range_defs)

lemma Range_isEmpty_iff: "Range_isEmpty r \<longleftrightarrow> Range_getStartPosition r = Range_getEndPosition r"
  by (auto simp: Range_isEmpty_def Range_get_defs)

interpretation range_ends_cmp: comparator_laws "Range_compareRangesUsingEnds :: Range \<Rightarrow> Range \<Rightarrow> int"
proof
  show "sgn (Range_compareRangesUsingEnds a b) = - sgn (Range_compareRangesUsingEnds b a)"
    for a b :: Range
    by (simp add: Range_compareRangesUsingEnds_def sgn_if)
  show "Range_compareRangesUsingEnds a c \<le> 0"
    if "Range_compareRangesUsingEnds a b \<le> 0" "Range_compareRangesUsingEnds b c \<le> 0" for a b c :: Range
    using that by (auto simp: Range_compareRangesUsingEnds_def split: if_splits)
qed

interpretation range_starts_cmp: comparator_laws Range_compareRangesUsingStarts
proof
  show "sgn (Range_compareRangesUsingStarts a b) = - sgn (Range_compareRangesUsingStarts b a)" for a b
    by (auto simp: Range_compareRangesUsingStarts_def sgn_if split: option.splits)
  show "Range_compareRangesUsingStarts a c \<le> 0"
    if "Range_compareRangesUsingStarts a b \<le> 0" "Range_compareRangesUsingStarts b c \<le> 0" for a b c
    using that by (auto simp: Range_compareRangesUsingStarts_def split: if_splits option.splits)
qed

section \<open>Properties\<close>

lemma Range_containsRange_trans_ends:
  assumes "range_valid a" "range_valid b" "range_valid r"
  shows "Range_containsRange r (Range_plusRange a b) \<longleftrightarrow> Range_containsRange r a \<and> Range_containsRange r b"
  using assms by (auto simp: Range_containsRange_iff Range_plusRange_ends)

lemma Range_intersectRanges_members:
  assumes "range_valid a" "range_valid b"
  shows "(case Range_intersectRanges a b of
       None \<Rightarrow> \<not> (\<exists>p. Range_containsPosition a p \<and> Range_containsPosition b p)
     | Some r \<Rightarrow> range_valid r \<and> (\<forall>p. Range_containsPosition r p \<longleftrightarrow> Range_containsPosition a p \<and> Range_containsPosition b p))"
  using assms by (auto simp: Range_intersectRanges_iff Range_containsPosition_iff max_def min_def)

text \<open>\<^verbatim>\<open>intersectRanges\<close> and \<^verbatim>\<open>plusRange\<close> are the meet and the join of ranges: the intersection
  holds exactly the common positions and is null when there are none, and a range contains the sum
  of two ranges exactly when it contains both.\<close>

theorem range_meet_and_join:
  assumes "range_valid a" "range_valid b"
  shows "(case Range_intersectRanges a b of
       None \<Rightarrow> \<not> (\<exists>p. Range_containsPosition a p \<and> Range_containsPosition b p)
     | Some r \<Rightarrow> range_valid r \<and> (\<forall>p. Range_containsPosition r p \<longleftrightarrow> Range_containsPosition a p \<and> Range_containsPosition b p))
    \<and> range_valid (Range_plusRange a b)
    \<and> (range_valid r \<longrightarrow>
        (Range_containsRange r (Range_plusRange a b) \<longleftrightarrow> Range_containsRange r a \<and> Range_containsRange r b))"
  using Range_intersectRanges_members [OF assms] Range_containsRange_trans_ends [OF assms, of r] by simp

theorem range_meet_and_join_witness:
  "Range_intersectRanges (new_Range 1 1 1 5) (new_Range 1 3 2 1) = Some (new_Range 1 3 1 5)
   \<and> Range_plusRange (new_Range 1 1 1 5) (new_Range 1 3 2 1) = new_Range 1 1 2 1
   \<and> Range_containsRange (new_Range 1 1 3 1) (Range_plusRange (new_Range 1 1 1 5) (new_Range 1 3 2 1))"
proof -
  have "Range_containsRange (new_Range 1 1 3 1) (new_Range 1 1 1 5)" "Range_containsRange (new_Range 1 1 3 1) (new_Range 1 3 2 1)"
    by (simp_all add: Range_containsRange_def new_Range_def)
  then have "Range_containsRange (new_Range 1 1 3 1) (Range_plusRange (new_Range 1 1 1 5) (new_Range 1 3 2 1))"
    using range_meet_and_join [of "new_Range 1 1 1 5" "new_Range 1 3 2 1" "new_Range 1 1 3 1"] by simp
  then show ?thesis by (simp add: Range_intersectRanges_def Range_plusRange_def new_Range_def Let_def)
qed

end
