(* ===== verification/Text_Selection.thy ===== *)
theory Text_Selection
  imports Text_Range
begin

text \<open>
  \<^verbatim>\<open>src/vs/editor/common/core/selection.ts\<close>: a selection is a range with an orientation.  The class
  extends \<^verbatim>\<open>Range\<close>, and so does the record; its constructor runs the range constructor first and then
  stores the anchor (\<^verbatim>\<open>selectionStart\<close>) and the active end (\<^verbatim>\<open>position\<close>).
\<close>

section \<open>The class Selection\<close>

datatype SelectionDirection = LTR | RTL

record Selection = Range +
  selectionStartLineNumber :: int
  selectionStartColumn :: int
  positionLineNumber :: int
  positionColumn :: int

definition new_Selection :: "int \<Rightarrow> int \<Rightarrow> int \<Rightarrow> int \<Rightarrow> Selection" where
  "new_Selection sl sc pl pc =
     Range.extend (new_Range sl sc pl pc)
       \<lparr>selectionStartLineNumber = sl, selectionStartColumn = sc, positionLineNumber = pl, positionColumn = pc\<rparr>"

definition Selection_selectionsEqual :: "Selection \<Rightarrow> Selection \<Rightarrow> bool" where
  "Selection_selectionsEqual a b \<longleftrightarrow>
     selectionStartLineNumber a = selectionStartLineNumber b
     \<and> selectionStartColumn a = selectionStartColumn b
     \<and> positionLineNumber a = positionLineNumber b
     \<and> positionColumn a = positionColumn b"

definition Selection_getDirection :: "Selection \<Rightarrow> SelectionDirection" where
  "Selection_getDirection s =
     (if selectionStartLineNumber s = startLineNumber s \<and> selectionStartColumn s = startColumn s
      then LTR else RTL)"

definition Selection_setEndPosition :: "Selection \<Rightarrow> int \<Rightarrow> int \<Rightarrow> Selection" where
  "Selection_setEndPosition s el ec =
     (if Selection_getDirection s = LTR
      then new_Selection (startLineNumber s) (startColumn s) el ec
      else new_Selection el ec (startLineNumber s) (startColumn s))"

definition Selection_getPosition :: "Selection \<Rightarrow> Position" where
  "Selection_getPosition s = new_Position (positionLineNumber s) (positionColumn s)"

definition Selection_getSelectionStart :: "Selection \<Rightarrow> Position" where
  "Selection_getSelectionStart s = new_Position (selectionStartLineNumber s) (selectionStartColumn s)"

definition Selection_setStartPosition :: "Selection \<Rightarrow> int \<Rightarrow> int \<Rightarrow> Selection" where
  "Selection_setStartPosition s sl sc =
     (if Selection_getDirection s = LTR
      then new_Selection sl sc (endLineNumber s) (endColumn s)
      else new_Selection (endLineNumber s) (endColumn s) sl sc)"

definition Selection_fromPositions :: "Position \<Rightarrow> Position \<Rightarrow> Selection" where
  "Selection_fromPositions s e = new_Selection (lineNumber s) (column s) (lineNumber e) (column e)"

definition Selection_fromRange :: "'a Range_scheme \<Rightarrow> SelectionDirection \<Rightarrow> Selection" where
  "Selection_fromRange r direction =
     (if direction = LTR
      then new_Selection (startLineNumber r) (startColumn r) (endLineNumber r) (endColumn r)
      else new_Selection (endLineNumber r) (endColumn r) (startLineNumber r) (startColumn r))"

definition Selection_liftSelection :: "Selection \<Rightarrow> Selection" where
  "Selection_liftSelection s =
     new_Selection (selectionStartLineNumber s) (selectionStartColumn s) (positionLineNumber s) (positionColumn s)"

text \<open>\<^verbatim>\<open>selectionsArrEqual\<close>: two missing arrays are equal, a missing one differs from a present one.\<close>

definition Selection_selectionsArrEqual :: "Selection list option \<Rightarrow> Selection list option \<Rightarrow> bool" where
  "Selection_selectionsArrEqual a b =
     (case (a, b) of
        (Some xs, Some ys) \<Rightarrow>
          (if length xs \<noteq> length ys then False
           else list_all (\<lambda>i. Selection_selectionsEqual (xs ! i) (ys ! i)) [0..<length xs])
      | (None, None) \<Rightarrow> True
      | _ \<Rightarrow> False)"

definition Selection_createWithDirection ::
    "int \<Rightarrow> int \<Rightarrow> int \<Rightarrow> int \<Rightarrow> SelectionDirection \<Rightarrow> Selection" where
  "Selection_createWithDirection sl sc el ec direction =
     (if direction = LTR then new_Selection sl sc el ec else new_Selection el ec sl sc)"

section \<open>A selection is its anchor and its active position\<close>

text \<open>What the constructor establishes: the inherited range spans the anchor and the position.\<close>

definition selection_valid :: "Selection \<Rightarrow> bool" where
  "selection_valid s \<longleftrightarrow>
     Range_getStartPosition s = min (Selection_getSelectionStart s) (Selection_getPosition s)
     \<and> Range_getEndPosition s = max (Selection_getSelectionStart s) (Selection_getPosition s)"

lemma new_Selection_get [simp]:
  "Selection_getSelectionStart (new_Selection sl sc pl pc) = new_Position sl sc"
  "Selection_getPosition (new_Selection sl sc pl pc) = new_Position pl pc"
  by (simp_all add: new_Selection_def Selection_getSelectionStart_def Selection_getPosition_def Range.defs)

lemma new_Selection_range [simp]:
  "Range_getStartPosition (new_Selection sl sc pl pc) = Range_getStartPosition (new_Range sl sc pl pc)"
  "Range_getEndPosition (new_Selection sl sc pl pc) = Range_getEndPosition (new_Range sl sc pl pc)"
  by (simp_all add: new_Selection_def Range.defs Range_get_defs)

lemma new_Selection_valid [simp]: "selection_valid (new_Selection sl sc pl pc)"
  by (simp add: selection_valid_def new_Range_ends)

lemma selection_valid_range_valid: "selection_valid s \<Longrightarrow> range_valid s"
  by (auto simp: selection_valid_def range_valid_def min_def max_def)

lemma Selection_ends_fields:
  "startLineNumber s = lineNumber (Range_getStartPosition s)" "startColumn s = column (Range_getStartPosition s)"
  "endLineNumber s = lineNumber (Range_getEndPosition s)" "endColumn s = column (Range_getEndPosition s)"
  by simp_all

lemma Selection_getDirection_iff:
  "selection_valid s \<Longrightarrow> Selection_getDirection s = LTR \<longleftrightarrow>
     Selection_getSelectionStart s \<le> Selection_getPosition s"
proof -
  assume v: "selection_valid s"
  have "Selection_getDirection s = LTR \<longleftrightarrow> Selection_getSelectionStart s = Range_getStartPosition s"
    by (auto simp: Selection_getDirection_def Selection_getSelectionStart_def Range_get_defs)
  with v show ?thesis by (auto simp: selection_valid_def min_def)
qed

lemma Selection_eqI:
  assumes "selection_valid s" "selection_valid t" "Selection_selectionsEqual s t"
  shows "s = t"
proof -
  from assms(3) have "Selection_getSelectionStart s = Selection_getSelectionStart t"
    "Selection_getPosition s = Selection_getPosition t"
    by (simp_all add: Selection_selectionsEqual_def Selection_getSelectionStart_def Selection_getPosition_def)
  with assms(1,2) have "Range_getStartPosition s = Range_getStartPosition t"
    "Range_getEndPosition s = Range_getEndPosition t"
    by (simp_all add: selection_valid_def)
  with assms(3) show ?thesis
    by (cases s; cases t) (simp add: Selection_selectionsEqual_def Range_get_defs)
qed

lemma Selection_selectionsArrEqual_iff:
  assumes "\<forall>s \<in> set xs \<union> set ys. selection_valid s"
  shows "Selection_selectionsArrEqual (Some xs) (Some ys) \<longleftrightarrow> xs = ys"
proof
  assume eq: "Selection_selectionsArrEqual (Some xs) (Some ys)"
  then have len: "length xs = length ys" and el: "\<And>i. i < length xs \<Longrightarrow> Selection_selectionsEqual (xs ! i) (ys ! i)"
    by (auto simp: Selection_selectionsArrEqual_def list_all_iff split: if_splits)
  show "xs = ys"
    using len el assms by (intro nth_equalityI) (auto intro!: Selection_eqI)
next
  show "xs = ys \<Longrightarrow> Selection_selectionsArrEqual (Some xs) (Some ys)"
    by (simp add: Selection_selectionsArrEqual_def Selection_selectionsEqual_def list_all_iff)
qed

section \<open>Properties\<close>

lemma Selection_fromRange_direction:
  assumes "selection_valid s"
  shows "Selection_fromRange s (Selection_getDirection s) = s"
proof (rule Selection_eqI [OF _ assms])
  show "selection_valid (Selection_fromRange s (Selection_getDirection s))" by (simp add: Selection_fromRange_def)
  have d: "Selection_getDirection s = (if Selection_getSelectionStart s \<le> Selection_getPosition s then LTR else RTL)"
    using Selection_getDirection_iff [OF assms] by (cases "Selection_getDirection s") auto
  show "Selection_selectionsEqual (Selection_fromRange s (Selection_getDirection s)) s"
    using assms unfolding selection_valid_def d Selection_fromRange_def Selection_ends_fields
    by (auto simp: Selection_selectionsEqual_def new_Selection_def Range.defs Selection_getSelectionStart_def
        Selection_getPosition_def min_def max_def)
qed

text \<open>a selection is determined by its range and its direction: taking both apart and putting them
  together with \<^verbatim>\<open>fromRange\<close> gives the selection back, the direction says whether the anchor comes
  first, and moving an end keeps the class invariant.\<close>

theorem selection_range_and_direction:
  assumes "selection_valid s"
  shows "Selection_fromRange s (Selection_getDirection s) = s
    \<and> Selection_liftSelection s = s
    \<and> (Selection_getDirection s = LTR \<longleftrightarrow> Selection_getSelectionStart s \<le> Selection_getPosition s)
    \<and> selection_valid (Selection_setEndPosition s l c) \<and> selection_valid (Selection_setStartPosition s l c)
    \<and> Range_getEndPosition (Selection_setEndPosition s l c) = max (Range_getStartPosition s) (new_Position l c)
    \<and> Range_getStartPosition (Selection_setStartPosition s l c) = min (new_Position l c) (Range_getEndPosition s)"
proof (intro conjI)
  have start: "new_Position (startLineNumber s) (startColumn s) = Range_getStartPosition s"
    "new_Position (endLineNumber s) (endColumn s) = Range_getEndPosition s"
    by (simp_all add: Range_get_defs)
  show "Selection_fromRange s (Selection_getDirection s) = s" by (rule Selection_fromRange_direction [OF assms])
  show "Selection_liftSelection s = s"
    by (rule Selection_eqI [OF _ assms]) (simp_all add: Selection_liftSelection_def Selection_selectionsEqual_def
        new_Selection_def Range.defs selection_valid_def Selection_getSelectionStart_def Selection_getPosition_def
        new_Range_ends [unfolded Range_get_defs] Range_get_defs)
  show "Selection_getDirection s = LTR \<longleftrightarrow> Selection_getSelectionStart s \<le> Selection_getPosition s"
    by (rule Selection_getDirection_iff [OF assms])
  show "selection_valid (Selection_setEndPosition s l c)" "selection_valid (Selection_setStartPosition s l c)"
    by (simp_all add: Selection_setEndPosition_def Selection_setStartPosition_def)
  show "Range_getEndPosition (Selection_setEndPosition s l c) = max (Range_getStartPosition s) (new_Position l c)"
    "Range_getStartPosition (Selection_setStartPosition s l c) = min (new_Position l c) (Range_getEndPosition s)"
    by (simp_all add: Selection_setEndPosition_def Selection_setStartPosition_def new_Range_ends start max.commute min.commute)
qed

theorem selection_range_and_direction_witness:
  "Selection_getDirection (new_Selection 2 1 1 4) = RTL
   \<and> Selection_fromRange (new_Selection 2 1 1 4) RTL = new_Selection 2 1 1 4"
proof -
  have "Selection_getDirection (new_Selection 2 1 1 4) = RTL"
    by (simp add: Selection_getDirection_def new_Selection_def new_Range_def Range.defs)
  then show ?thesis using selection_range_and_direction [of "new_Selection 2 1 1 4"] by simp
qed

end
