(* ===== verification/Interval_Lists.thy ===== *)
theory Interval_Lists
  imports Arrays_Find
begin

text \<open>
  The abstract side of the range sets: lists of half-open integer intervals that are sorted and do not
  touch, what it means to insert an interval, and the interface both \<^verbatim>\<open>OffsetRangeSet\<close> and
  \<^verbatim>\<open>LineRangeSet\<close> implement.
\<close>

section \<open>Separated interval lists\<close>

type_synonym interval = "int \<times> int"

definition iv :: "interval \<Rightarrow> int set" where
  "iv x = {fst x ..< snd x}"

definition ivs :: "interval list \<Rightarrow> int set" where
  "ivs xs = (\<Union>x \<in> set xs. iv x)"

definition separated :: "interval list \<Rightarrow> bool" where
  "separated xs \<longleftrightarrow> sorted_wrt (\<lambda>x y. snd x < fst y) xs \<and> (\<forall>x \<in> set xs. fst x \<le> snd x)"

lemma ivs_simps [simp]:
  "ivs [] = {}"
  "ivs (x # xs) = iv x \<union> ivs xs"
  "ivs (xs @ ys) = ivs xs \<union> ivs ys"
  by (auto simp: ivs_def)

lemma separated_Nil [simp]: "separated []"
  by (simp add: separated_def)

lemma separated_Cons:
  "separated (x # xs) \<longleftrightarrow> fst x \<le> snd x \<and> (\<forall>y \<in> set xs. snd x < fst y) \<and> separated xs"
  by (auto simp: separated_def)

lemma separated_append:
  "separated (xs @ ys) \<longleftrightarrow> separated xs \<and> separated ys \<and> (\<forall>x \<in> set xs. \<forall>y \<in> set ys. snd x < fst y)"
  by (auto simp: separated_def sorted_wrt_append)

lemma separated_nth:
  assumes "separated xs" "k < l" "l < length xs"
  shows "snd (xs ! k) < fst (xs ! l)"
  using assms by (auto simp: separated_def sorted_wrt_iff_nth_less)

lemma separated_valid: "separated xs \<Longrightarrow> x \<in> set xs \<Longrightarrow> fst x \<le> snd x"
  by (simp add: separated_def)

lemma iv_disjoint: "snd x \<le> fst y \<Longrightarrow> iv x \<inter> iv y = {}"
  by (auto simp: iv_def)

section \<open>Inserting an interval\<close>

definition merge_into :: "interval \<Rightarrow> interval list \<Rightarrow> interval" where
  "merge_into r M =
     (if M = [] then r else (min (fst r) (fst (hd M)), max (snd r) (snd (last M))))"

lemma merge_into_valid: "fst r \<le> snd r \<Longrightarrow> fst (merge_into r M) \<le> snd (merge_into r M)"
  by (auto simp: merge_into_def)

lemma separated_hd_last:
  assumes "separated M" "x \<in> set M"
  shows "fst (hd M) \<le> fst x \<and> snd x \<le> snd (last M)"
proof -
  have hd: "fst (hd M) \<le> fst x"
    using assms by (cases M) (auto simp: separated_Cons separated_valid)
  have "snd x \<le> snd (last M)"
    using assms
  proof (induction M rule: rev_induct)
    case (snoc y M)
    then show ?case by (force simp: separated_append separated_Cons separated_valid)
  qed simp
  with hd show ?thesis by simp
qed

text \<open>The middle part of the list touches the new interval, so their union is one interval.\<close>

lemma iv_merge_into:
  assumes "separated M" and r: "fst r \<le> snd r"
    and M: "\<forall>x \<in> set M. fst r \<le> snd x \<and> fst x \<le> snd r"
  shows "iv (merge_into r M) = iv r \<union> ivs M"
proof (cases "M = []")
  case True
  then show ?thesis by (simp add: merge_into_def)
next
  case False
  then have hd: "hd M \<in> set M" and la: "last M \<in> set M" by simp_all
  have "iv (merge_into r M) \<subseteq> iv r \<union> iv (hd M) \<union> iv (last M)"
  proof -
    have "fst r \<le> snd (hd M)" "fst (last M) \<le> snd r" using M hd la by auto
    then show ?thesis using False by (auto simp: merge_into_def iv_def min_def max_def split: if_splits)
  qed
  also have "\<dots> \<subseteq> iv r \<union> ivs M"
    using hd la by (auto simp: ivs_def)
  finally have "iv (merge_into r M) \<subseteq> iv r \<union> ivs M" .
  moreover have "iv x \<subseteq> iv (merge_into r M)" if "x \<in> set M" for x
    using False separated_hd_last [OF assms(1) that] by (auto simp: merge_into_def iv_def)
  moreover have "iv r \<subseteq> iv (merge_into r M)"
    by (auto simp: merge_into_def iv_def)
  ultimately show ?thesis by (auto simp: ivs_def)
qed

lemma separated_insert:
  assumes sep: "separated (L @ M @ R)" and r: "fst r \<le> snd r"
    and L: "\<forall>x \<in> set L. snd x < fst r"
    and M: "\<forall>x \<in> set M. fst r \<le> snd x \<and> fst x \<le> snd r"
    and R: "\<forall>x \<in> set R. snd r < fst x"
  shows "separated (L @ merge_into r M # R)"
    and "ivs (L @ merge_into r M # R) = ivs (L @ M @ R) \<union> iv r"
proof -
  from sep have sL: "separated L" and sM: "separated M" and sR: "separated R"
    and LM: "\<forall>x \<in> set L. \<forall>y \<in> set M. snd x < fst y" and LR: "\<forall>x \<in> set L. \<forall>y \<in> set R. snd x < fst y"
    and MR: "\<forall>x \<in> set M. \<forall>y \<in> set R. snd x < fst y"
    by (auto simp: separated_append)
  have lo: "\<forall>x \<in> set L. snd x < fst (merge_into r M)"
    using L LM by (auto simp: merge_into_def)
  have hi: "\<forall>y \<in> set R. snd (merge_into r M) < fst y"
    using R MR by (auto simp: merge_into_def)
  show "separated (L @ merge_into r M # R)"
    using sL sR lo hi LR merge_into_valid [OF r] by (auto simp: separated_append separated_Cons)
  show "ivs (L @ merge_into r M # R) = ivs (L @ M @ R) \<union> iv r"
    using iv_merge_into [OF sM r M] by auto
qed

text \<open>Where the two scans of an insertion stop in a separated list.\<close>

lemma separated_dropWhile_end:
  assumes "separated xs" "x \<in> set (dropWhile (\<lambda>x. snd x < a) xs)"
  shows "a \<le> snd x"
  using assms
proof (induction xs)
  case (Cons y ys)
  show ?case
  proof (cases "snd y < a \<or> x = y")
    case True
    with Cons show ?thesis by (auto simp: separated_Cons split: if_splits)
  next
    case False
    with Cons.prems have "x \<in> set ys" "snd y < fst x" "fst x \<le> snd x"
      by (auto simp: separated_Cons separated_valid)
    with False show ?thesis by simp
  qed
qed simp

lemma separated_dropWhile_start:
  assumes "separated xs" "x \<in> set (dropWhile (\<lambda>x. fst x \<le> b) xs)"
  shows "b < fst x"
  using assms by (induction xs) (auto simp: separated_Cons split: if_splits)

lemma separated_suffix: "separated xs \<Longrightarrow> separated (dropWhile P xs)"
  by (induction xs) (auto simp: separated_Cons)

section \<open>Size and membership\<close>

lemma finite_iv [simp]: "finite (iv x)"
  by (simp add: iv_def)

lemma finite_ivs [simp]: "finite (ivs xs)"
  by (simp add: ivs_def)

lemma separated_card:
  "separated xs \<Longrightarrow> sum_list (map (\<lambda>x. snd x - fst x) xs) = int (card (ivs xs))"
proof (induction xs)
  case (Cons x xs)
  have "iv x \<inter> ivs xs = {}"
    using Cons.prems by (force simp: separated_Cons ivs_def iv_def)
  then have "card (ivs (x # xs)) = card (iv x) + card (ivs xs)"
    by (simp add: card_Un_disjoint)
  with Cons show ?case by (auto simp: separated_Cons iv_def)
qed simp

text \<open>In a separated list the first interval that ends after \<open>a\<close> decides whether anything from \<open>a\<close>
  below \<open>b\<close> is covered.\<close>

lemma separated_meets:
  assumes "separated xs" "\<forall>x \<in> set xs. fst x < snd x" "a < b"
  shows "ivs xs \<inter> {a..<b} \<noteq> {} \<longleftrightarrow>
    (case dropWhile (\<lambda>x. snd x \<le> a) xs of [] \<Rightarrow> False | x # _ \<Rightarrow> fst x < b)"
  using assms(1,2)
proof (induction xs)
  case Nil
  then show ?case by simp
next
  case (Cons x xs)
  show ?case
  proof (cases "snd x \<le> a")
    case True
    then have "iv x \<inter> {a..<b} = {}" by (auto simp: iv_def)
    with Cons True show ?thesis by (simp add: Int_Un_distrib2 separated_Cons)
  next
    case False
    have "(ivs (x # xs) \<inter> {a..<b} \<noteq> {}) \<longleftrightarrow> fst x < b"
    proof
      assume "ivs (x # xs) \<inter> {a..<b} \<noteq> {}"
      then obtain n where "n \<in> ivs (x # xs)" "n < b" by fastforce
      moreover from this(1) obtain y where "y \<in> set (x # xs)" "n \<in> iv y" unfolding ivs_def by blast
      ultimately have "y \<in> set (x # xs)" "n \<in> iv y" "n < b" by simp_all
      then show "fst x < b" using Cons.prems by (auto simp: separated_Cons iv_def)
    next
      assume "fst x < b"
      with False assms(3) Cons.prems have "max a (fst x) \<in> iv x \<inter> {a..<b}"
        by (auto simp: iv_def max_def)
      then show "ivs (x # xs) \<inter> {a..<b} \<noteq> {}" by auto
    qed
    with False show ?thesis by simp
  qed
qed

section \<open>The interface of a set of ranges\<close>

text \<open>
  What a client of a range set relies on: inserting a well-formed range never throws, keeps the
  invariant and adds exactly the members of the range.
\<close>

fun rfold :: "('r \<Rightarrow> 's \<Rightarrow> 's result) \<Rightarrow> 'r list \<Rightarrow> 's \<Rightarrow> 's result" where
  "rfold f [] s = Inr s"
| "rfold f (r # rs) s = rbind (f r s) (rfold f rs)"

locale range_set_spec =
  fixes empty_set :: 's
    and add :: "'r \<Rightarrow> 's \<Rightarrow> 's result"
    and members :: "'s \<Rightarrow> int set"
    and invar :: "'s \<Rightarrow> bool"
    and range_members :: "'r \<Rightarrow> int set"
    and range_ok :: "'r \<Rightarrow> bool"
  assumes members_empty: "members empty_set = {}"
    and invar_empty: "invar empty_set"
    and add_ok: "invar s \<Longrightarrow> range_ok r \<Longrightarrow>
      \<exists>s'. add r s = Inr s' \<and> invar s' \<and> members s' = members s \<union> range_members r"
begin

lemma add_all_ok:
  assumes "invar s" "\<forall>r \<in> set rs. range_ok r"
  shows "\<exists>s'. rfold add rs s = Inr s' \<and> invar s' \<and> members s' = members s \<union> (\<Union>r \<in> set rs. range_members r)"
  using assms
proof (induction rs arbitrary: s)
  case (Cons r rs)
  then obtain t where "add r s = Inr t" "invar t" "members t = members s \<union> range_members r"
    using add_ok [of s r] by auto
  with Cons.IH [of t] Cons.prems show ?case by auto
qed simp

text \<open>The order in which ranges are inserted does not change the members.\<close>

lemma add_all_order:
  assumes "\<forall>r \<in> set rs. range_ok r" "set rs = set rs'"
    and "rfold add rs empty_set = Inr s" "rfold add rs' empty_set = Inr s'"
  shows "members s = members s'"
  using add_all_ok [OF invar_empty, of rs] add_all_ok [OF invar_empty, of rs'] assms by auto

end

end
