(* ===== verification/Offset_Range.thy ===== *)
theory Offset_Range
  imports Interval_Lists
begin

text \<open>
  \<^verbatim>\<open>src/vs/editor/common/core/offsetRange.ts\<close>: half-open ranges of offsets and sorted sets of them.  The
  constructor throws on reversed bounds, so every operation that builds a range returns a \<open>result\<close>.
\<close>

section \<open>The class OffsetRange\<close>

record OffsetRange =
  start :: int
  endExclusive :: int

definition new_OffsetRange :: "int \<Rightarrow> int \<Rightarrow> OffsetRange result" where
  "new_OffsetRange s e =
     (if s > e then Inl BugIndicatingError else Inr \<lparr>start = s, endExclusive = e\<rparr>)"

definition OffsetRange_tryCreate :: "int \<Rightarrow> int \<Rightarrow> OffsetRange option result" where
  "OffsetRange_tryCreate s e =
     (if s > e then Inr None else rbind (new_OffsetRange s e) (\<lambda>r. Inr (Some r)))"

definition OffsetRange_ofLength :: "int \<Rightarrow> OffsetRange result" where
  "OffsetRange_ofLength len = new_OffsetRange 0 len"

definition OffsetRange_ofStartAndLength :: "int \<Rightarrow> int \<Rightarrow> OffsetRange result" where
  "OffsetRange_ofStartAndLength s len = new_OffsetRange s (s + len)"

definition OffsetRange_emptyAt :: "int \<Rightarrow> OffsetRange result" where
  "OffsetRange_emptyAt offset = new_OffsetRange offset offset"

definition OffsetRange_isEmpty :: "OffsetRange \<Rightarrow> bool" where
  "OffsetRange_isEmpty r \<longleftrightarrow> start r = endExclusive r"

definition OffsetRange_delta :: "OffsetRange \<Rightarrow> int \<Rightarrow> OffsetRange result" where
  "OffsetRange_delta r offset = new_OffsetRange (start r + offset) (endExclusive r + offset)"

definition OffsetRange_deltaStart :: "OffsetRange \<Rightarrow> int \<Rightarrow> OffsetRange result" where
  "OffsetRange_deltaStart r offset = new_OffsetRange (start r + offset) (endExclusive r)"

definition OffsetRange_deltaEnd :: "OffsetRange \<Rightarrow> int \<Rightarrow> OffsetRange result" where
  "OffsetRange_deltaEnd r offset = new_OffsetRange (start r) (endExclusive r + offset)"

definition OffsetRange_length :: "OffsetRange \<Rightarrow> int" where
  "OffsetRange_length r = endExclusive r - start r"

definition OffsetRange_equals :: "OffsetRange \<Rightarrow> OffsetRange \<Rightarrow> bool" where
  "OffsetRange_equals r s \<longleftrightarrow> start r = start s \<and> endExclusive r = endExclusive s"

definition OffsetRange_containsRange :: "OffsetRange \<Rightarrow> OffsetRange \<Rightarrow> bool" where
  "OffsetRange_containsRange r s \<longleftrightarrow> start r \<le> start s \<and> endExclusive s \<le> endExclusive r"

definition OffsetRange_contains :: "OffsetRange \<Rightarrow> int \<Rightarrow> bool" where
  "OffsetRange_contains r offset \<longleftrightarrow> start r \<le> offset \<and> offset < endExclusive r"

definition OffsetRange_join :: "OffsetRange \<Rightarrow> OffsetRange \<Rightarrow> OffsetRange result" where
  "OffsetRange_join r s = new_OffsetRange (min (start r) (start s)) (max (endExclusive r) (endExclusive s))"

definition OffsetRange_intersect :: "OffsetRange \<Rightarrow> OffsetRange \<Rightarrow> OffsetRange option result" where
  "OffsetRange_intersect r s =
     (let a = max (start r) (start s); e = min (endExclusive r) (endExclusive s)
      in if a \<le> e then rbind (new_OffsetRange a e) (\<lambda>x. Inr (Some x)) else Inr None)"

definition OffsetRange_intersectionLength :: "OffsetRange \<Rightarrow> OffsetRange \<Rightarrow> int" where
  "OffsetRange_intersectionLength r s =
     (let a = max (start r) (start s); e = min (endExclusive r) (endExclusive s) in max 0 (e - a))"

definition OffsetRange_intersects :: "OffsetRange \<Rightarrow> OffsetRange \<Rightarrow> bool" where
  "OffsetRange_intersects r s =
     (let a = max (start r) (start s); e = min (endExclusive r) (endExclusive s) in a < e)"

definition OffsetRange_intersectsOrTouches :: "OffsetRange \<Rightarrow> OffsetRange \<Rightarrow> bool" where
  "OffsetRange_intersectsOrTouches r s =
     (let a = max (start r) (start s); e = min (endExclusive r) (endExclusive s) in a \<le> e)"

definition OffsetRange_isBefore :: "OffsetRange \<Rightarrow> OffsetRange \<Rightarrow> bool" where
  "OffsetRange_isBefore r s \<longleftrightarrow> endExclusive r \<le> start s"

definition OffsetRange_isAfter :: "OffsetRange \<Rightarrow> OffsetRange \<Rightarrow> bool" where
  "OffsetRange_isAfter r s \<longleftrightarrow> start r \<ge> endExclusive s"

definition OffsetRange_slice :: "OffsetRange \<Rightarrow> 'a list \<Rightarrow> 'a list" where
  "OffsetRange_slice r arr = js_slice arr (start r) (endExclusive r)"

definition OffsetRange_substring :: "OffsetRange \<Rightarrow> 'a list \<Rightarrow> 'a list" where
  "OffsetRange_substring r str = js_substring str (start r) (endExclusive r)"

definition OffsetRange_clip :: "OffsetRange \<Rightarrow> int \<Rightarrow> int result" where
  "OffsetRange_clip r v =
     (if OffsetRange_isEmpty r then Inl BugIndicatingError
      else Inr (max (start r) (min (endExclusive r - 1) v)))"

definition OffsetRange_clipCyclic :: "OffsetRange \<Rightarrow> int \<Rightarrow> int result" where
  "OffsetRange_clipCyclic r v =
     (if OffsetRange_isEmpty r then Inl BugIndicatingError
      else if v < start r then Inr (endExclusive r - ((start r - v) mod OffsetRange_length r))
      else if v \<ge> endExclusive r then Inr (start r + ((v - start r) mod OffsetRange_length r))
      else Inr v)"

definition OffsetRange_map :: "OffsetRange \<Rightarrow> (int \<Rightarrow> 'a) \<Rightarrow> 'a list" where
  "OffsetRange_map r f = map f [start r .. endExclusive r - 1]"

text \<open>\<^verbatim>\<open>forEach\<close> with the effect of the callback as a state transformer.\<close>

definition OffsetRange_forEach :: "OffsetRange \<Rightarrow> (int \<Rightarrow> 's \<Rightarrow> 's) \<Rightarrow> 's \<Rightarrow> 's" where
  "OffsetRange_forEach r f s = fold f [start r .. endExclusive r - 1] s"

text \<open>\<^verbatim>\<open>while (i < a.length && cond(a[i])) i++\<close>.\<close>

function scan_while :: "('a \<Rightarrow> bool) \<Rightarrow> 'a list \<Rightarrow> nat \<Rightarrow> nat" where
  "scan_while cond a i = (if i < length a \<and> cond (a ! i) then scan_while cond a (Suc i) else i)"
  by pat_completeness auto
termination
  by (relation "measure (\<lambda>(cond, a, i). length a - i)") auto

declare scan_while.simps [simp del]

definition OffsetRange_addRange :: "OffsetRange \<Rightarrow> OffsetRange list \<Rightarrow> OffsetRange list result" where
  "OffsetRange_addRange r sortedRanges =
     (let i = scan_while (\<lambda>x. endExclusive x < start r) sortedRanges 0;
          j = scan_while (\<lambda>x. start x \<le> endExclusive r) sortedRanges i
      in if i = j then Inr (js_splice sortedRanges (int i) 0 [r])
         else let s = min (start r) (start (sortedRanges ! i));
                  e = max (endExclusive r) (endExclusive (sortedRanges ! (j - 1)))
              in rbind (new_OffsetRange s e) (\<lambda>n.
                   Inr (js_splice sortedRanges (int i) (int j - int i) [n])))"

section \<open>The class OffsetRangeSet\<close>

record OffsetRangeSet =
  ors_sortedRanges :: "OffsetRange list"

definition new_OffsetRangeSet :: OffsetRangeSet where
  "new_OffsetRangeSet = \<lparr>ors_sortedRanges = []\<rparr>"

definition OffsetRangeSet_addRange :: "OffsetRange \<Rightarrow> OffsetRangeSet \<Rightarrow> OffsetRangeSet result" where
  "OffsetRangeSet_addRange r this =
     (let sortedRanges = ors_sortedRanges this;
          i = scan_while (\<lambda>x. endExclusive x < start r) sortedRanges 0;
          j = scan_while (\<lambda>x. start x \<le> endExclusive r) sortedRanges i
      in if i = j then Inr (this\<lparr>ors_sortedRanges := js_splice sortedRanges (int i) 0 [r]\<rparr>)
         else let s = min (start r) (start (sortedRanges ! i));
                  e = max (endExclusive r) (endExclusive (sortedRanges ! (j - 1)))
              in rbind (new_OffsetRange s e) (\<lambda>n.
                   Inr (this\<lparr>ors_sortedRanges := js_splice sortedRanges (int i) (int j - int i) [n]\<rparr>)))"

definition OffsetRangeSet_intersectsStrict :: "OffsetRangeSet \<Rightarrow> OffsetRange \<Rightarrow> bool" where
  "OffsetRangeSet_intersectsStrict this other =
     (let sortedRanges = ors_sortedRanges this;
          i = scan_while (\<lambda>x. endExclusive x \<le> start other) sortedRanges 0
      in i < length sortedRanges \<and> start (sortedRanges ! i) < endExclusive other)"

definition OffsetRangeSet_intersectWithRange :: "OffsetRangeSet \<Rightarrow> OffsetRange \<Rightarrow> OffsetRangeSet result" where
  "OffsetRangeSet_intersectWithRange this other =
     rfold (\<lambda>r acc. rbind (OffsetRange_intersect r other) (\<lambda>i.
              case i of None \<Rightarrow> Inr acc | Some x \<Rightarrow> OffsetRangeSet_addRange x acc))
       (ors_sortedRanges this) new_OffsetRangeSet"

definition OffsetRangeSet_length :: "OffsetRangeSet \<Rightarrow> int" where
  "OffsetRangeSet_length this = fold (\<lambda>cur prev. prev + OffsetRange_length cur) (ors_sortedRanges this) 0"

definition OffsetRangeSet_intersectWithRangeLength :: "OffsetRangeSet \<Rightarrow> OffsetRange \<Rightarrow> int result" where
  "OffsetRangeSet_intersectWithRangeLength this other =
     rbind (OffsetRangeSet_intersectWithRange this other) (\<lambda>s. Inr (OffsetRangeSet_length s))"

section \<open>Ranges as sets of offsets\<close>

definition or_valid :: "OffsetRange \<Rightarrow> bool" where
  "or_valid r \<longleftrightarrow> start r \<le> endExclusive r"

abbreviation or_iv :: "OffsetRange \<Rightarrow> interval" where
  "or_iv r \<equiv> (start r, endExclusive r)"

definition or_members :: "OffsetRange \<Rightarrow> int set" where
  "or_members r = iv (or_iv r)"

definition ors_invar :: "OffsetRangeSet \<Rightarrow> bool" where
  "ors_invar s \<longleftrightarrow> separated (map or_iv (ors_sortedRanges s))"

definition ors_members :: "OffsetRangeSet \<Rightarrow> int set" where
  "ors_members s = ivs (map or_iv (ors_sortedRanges s))"

lemma new_OffsetRange_ok [simp]: "s \<le> e \<Longrightarrow> new_OffsetRange s e = Inr \<lparr>start = s, endExclusive = e\<rparr>"
  by (simp add: new_OffsetRange_def)

lemma new_OffsetRange_Inr_iff: "new_OffsetRange s e = Inr r \<longleftrightarrow> s \<le> e \<and> r = \<lparr>start = s, endExclusive = e\<rparr>"
  by (auto simp: new_OffsetRange_def)

lemma or_members_contains: "or_members r = {n. OffsetRange_contains r n}"
  by (auto simp: or_members_def iv_def OffsetRange_contains_def)

lemma scan_while_takeWhile:
  "i \<le> length a \<Longrightarrow> scan_while cond a i = i + length (takeWhile cond (drop i a))"
proof (induction cond a i rule: scan_while.induct)
  case (1 cond a i)
  show ?case
  proof (cases "i < length a")
    case True
    with 1 show ?thesis
      by (auto simp: scan_while.simps [of cond a i] Cons_nth_drop_Suc [symmetric])
  next
    case False
    with 1 show ?thesis by (simp add: scan_while.simps [of cond a "length a"])
  qed
qed

lemma case_dropWhile_nth:
  "(case dropWhile P xs of [] \<Rightarrow> False | x # _ \<Rightarrow> Q x) \<longleftrightarrow>
     length (takeWhile P xs) < length xs \<and> Q (xs ! length (takeWhile P xs))"
proof (cases "length (takeWhile P xs) < length xs")
  case True
  then show ?thesis by (simp add: dropWhile_eq_drop Cons_nth_drop_Suc [symmetric])
next
  case False
  then show ?thesis by (simp add: dropWhile_eq_drop)
qed

lemma OffsetRangeSet_addRange_eq:
  "OffsetRangeSet_addRange r s =
     rbind (OffsetRange_addRange r (ors_sortedRanges s)) (\<lambda>xs. Inr (s\<lparr>ors_sortedRanges := xs\<rparr>))"
  by (auto simp: OffsetRangeSet_addRange_def OffsetRange_addRange_def Let_def rbind_def split: sum.splits)

text \<open>Both scans stop where the list splits into the ranges before, at and after the new one.\<close>

lemma OffsetRange_addRange_split:
  assumes "separated (map or_iv xs)" and "or_valid r"
  obtains L M R where "xs = L @ M @ R"
    and "OffsetRange_addRange r xs = Inr (L @ (let m = merge_into (or_iv r) (map or_iv M)
           in \<lparr>start = fst m, endExclusive = snd m\<rparr>) # R)"
    and "\<forall>x \<in> set L. endExclusive x < start r"
    and "\<forall>x \<in> set M. start r \<le> endExclusive x \<and> start x \<le> endExclusive r"
    and "\<forall>x \<in> set R. endExclusive r < start x"
proof -
  define L where "L = takeWhile (\<lambda>x. endExclusive x < start r) xs"
  define rest where "rest = dropWhile (\<lambda>x. endExclusive x < start r) xs"
  define M where "M = takeWhile (\<lambda>x. start x \<le> endExclusive r) rest"
  define R where "R = dropWhile (\<lambda>x. start x \<le> endExclusive r) rest"
  have xs: "xs = L @ M @ R" by (simp add: L_def M_def R_def rest_def)
  have rest_map: "map or_iv rest = dropWhile (\<lambda>x. snd x < start r) (map or_iv xs)"
    by (simp add: rest_def dropWhile_map comp_def)
  then have sep_rest: "separated (map or_iv rest)" using assms(1) by (simp add: separated_suffix)
  have R_map: "map or_iv R = dropWhile (\<lambda>x. fst x \<le> endExclusive r) (map or_iv rest)"
    by (simp add: R_def dropWhile_map comp_def)
  have pL: "\<forall>x \<in> set L. endExclusive x < start r"
    by (auto simp: L_def dest: set_takeWhileD)
  have ends: "start r \<le> endExclusive x" if "x \<in> set rest" for x
    using separated_dropWhile_end [OF assms(1), of "or_iv x" "start r"] that
    unfolding rest_map [symmetric] by auto
  have pM: "\<forall>x \<in> set M. start r \<le> endExclusive x \<and> start x \<le> endExclusive r"
    using ends by (auto simp: M_def dest: set_takeWhileD)
  have pR: "\<forall>x \<in> set R. endExclusive r < start x"
    using separated_dropWhile_start [OF sep_rest, of "or_iv _" "endExclusive r"]
    unfolding R_map [symmetric] by auto
  have i: "scan_while (\<lambda>x. endExclusive x < start r) xs 0 = length L"
    by (simp add: scan_while_takeWhile L_def)
  have "drop (length L) xs = rest" by (simp add: xs) (simp add: M_def R_def)
  then have j: "scan_while (\<lambda>x. start x \<le> endExclusive r) xs (length L) = length L + length M"
    by (simp add: scan_while_takeWhile M_def xs)
  have parts: "take (length L) xs = L" "drop (length L + length M) xs = R" "length L \<le> length xs"
    by (simp_all add: xs)
  have "OffsetRange_addRange r xs = Inr (L @ (let m = merge_into (or_iv r) (map or_iv M)
           in \<lparr>start = fst m, endExclusive = snd m\<rparr>) # R)"
  proof (cases M)
    case Nil
    then show ?thesis
      using js_splice_nat [of "length L" 0 xs "[r]"] parts
      by (simp add: OffsetRange_addRange_def i j Let_def merge_into_def)
  next
    case (Cons y ys)
    have last: "xs ! (length L + length M - 1) = last M"
      using Cons by (simp add: xs nth_append last_conv_nth)
    moreover have first: "xs ! length L = hd M"
      using Cons by (simp add: xs)
    moreover have "min (start r) (start (hd M)) \<le> max (endExclusive r) (endExclusive (last M))"
      using assms(2) by (auto simp: or_valid_def)
    moreover have "js_splice xs (int (length L)) (int (length M)) [n] = L @ n # R" for n
      using js_splice_nat [of "length L" "length M" xs "[n]"] parts by (simp add: xs)
    ultimately show ?thesis
      using Cons by (simp add: OffsetRange_addRange_def i j Let_def merge_into_def last_map hd_map)
  qed
  with xs pL pM pR that show thesis by blast
qed

lemma OffsetRange_addRange_correct:
  assumes "separated (map or_iv xs)" and "or_valid r"
  shows "\<exists>ys. OffsetRange_addRange r xs = Inr ys \<and> separated (map or_iv ys)
    \<and> ivs (map or_iv ys) = ivs (map or_iv xs) \<union> or_members r"
proof -
  from assms obtain L M R where xs: "xs = L @ M @ R"
    and eq: "OffsetRange_addRange r xs = Inr (L @ (let m = merge_into (or_iv r) (map or_iv M)
           in \<lparr>start = fst m, endExclusive = snd m\<rparr>) # R)"
    and pL: "\<forall>x \<in> set L. endExclusive x < start r"
    and pM: "\<forall>x \<in> set M. start r \<le> endExclusive x \<and> start x \<le> endExclusive r"
    and pR: "\<forall>x \<in> set R. endExclusive r < start x"
    by (rule OffsetRange_addRange_split)
  have "separated (map or_iv L @ map or_iv M @ map or_iv R)" using assms(1) xs by simp
  from separated_insert [OF this, of "or_iv r"] assms(2) pL pM pR show ?thesis
    unfolding eq by (auto simp: xs or_members_def or_valid_def Let_def)
qed

interpretation offset_set: range_set_spec new_OffsetRangeSet OffsetRangeSet_addRange ors_members ors_invar
  or_members or_valid
proof
  show "ors_members new_OffsetRangeSet = {}" "ors_invar new_OffsetRangeSet"
    by (simp_all add: ors_members_def ors_invar_def new_OffsetRangeSet_def)
  show "\<exists>s'. OffsetRangeSet_addRange r s = Inr s' \<and> ors_invar s' \<and> ors_members s' = ors_members s \<union> or_members r"
    if "ors_invar s" "or_valid r" for s r
    using OffsetRange_addRange_correct [of "ors_sortedRanges s" r] that
    by (auto simp: OffsetRangeSet_addRange_eq ors_invar_def ors_members_def)
qed

section \<open>Intersections, lengths and clipping\<close>

lemma OffsetRange_intersect_valid:
  assumes "or_valid r" "or_valid s"
  shows "(\<exists>x. OffsetRange_intersect r s = Inr (Some x) \<and> or_valid x \<and> or_members x = or_members r \<inter> or_members s)
    \<or> (OffsetRange_intersect r s = Inr None \<and> or_members r \<inter> or_members s = {})"
  using assms by (auto simp: OffsetRange_intersect_def Let_def or_valid_def or_members_def iv_def)

lemma OffsetRangeSet_intersect_loop:
  assumes "or_valid other" "\<forall>r \<in> set rs. or_valid r" "ors_invar s"
  shows "\<exists>s'. rfold (\<lambda>r acc. rbind (OffsetRange_intersect r other) (\<lambda>i.
              case i of None \<Rightarrow> Inr acc | Some x \<Rightarrow> OffsetRangeSet_addRange x acc)) rs s = Inr s'
    \<and> ors_invar s' \<and> ors_members s' = ors_members s \<union> (\<Union>r \<in> set rs. or_members r \<inter> or_members other)"
  using assms(2,3)
proof (induction rs arbitrary: s)
  case Nil
  then show ?case by simp
next
  case (Cons r rs)
  from Cons.prems have r: "or_valid r" by simp
  from OffsetRange_intersect_valid [OF r assms(1)] show ?case
  proof (elim disjE exE conjE)
    fix x assume x: "OffsetRange_intersect r other = Inr (Some x)" "or_valid x"
      "or_members x = or_members r \<inter> or_members other"
    obtain t where "OffsetRangeSet_addRange x s = Inr t" "ors_invar t"
      "ors_members t = ors_members s \<union> or_members x"
      using offset_set.add_ok [OF Cons.prems(2) x(2)] by blast
    with Cons.IH [of t] Cons.prems(1) x show ?thesis by auto
  next
    assume "OffsetRange_intersect r other = Inr None" "or_members r \<inter> or_members other = {}"
    with Cons.IH [of s] Cons.prems show ?thesis by auto
  qed
qed

lemma ors_invar_valid: "ors_invar s \<Longrightarrow> r \<in> set (ors_sortedRanges s) \<Longrightarrow> or_valid r"
  by (auto simp: ors_invar_def or_valid_def dest!: separated_valid [of _ "or_iv r"])

lemma OffsetRangeSet_intersectWithRange_correct:
  assumes "ors_invar s" "or_valid other"
  shows "\<exists>s'. OffsetRangeSet_intersectWithRange s other = Inr s' \<and> ors_invar s'
    \<and> ors_members s' = ors_members s \<inter> or_members other"
proof -
  have "\<exists>s'. OffsetRangeSet_intersectWithRange s other = Inr s' \<and> ors_invar s'
    \<and> ors_members s' = ors_members new_OffsetRangeSet
        \<union> (\<Union>r \<in> set (ors_sortedRanges s). or_members r \<inter> or_members other)"
    unfolding OffsetRangeSet_intersectWithRange_def
    using assms ors_invar_valid by (intro OffsetRangeSet_intersect_loop) (auto intro: offset_set.invar_empty)
  then show ?thesis
    by (auto simp: offset_set.members_empty) (auto simp: ors_members_def ivs_def or_members_def)
qed

lemma fold_add_sum: "fold (\<lambda>cur prev. prev + f cur) xs (a :: int) = a + sum_list (map f xs)"
  by (induction xs arbitrary: a) simp_all

lemma OffsetRangeSet_length_card: "ors_invar s \<Longrightarrow> OffsetRangeSet_length s = int (card (ors_members s))"
  using separated_card [of "map or_iv (ors_sortedRanges s)"]
  by (simp add: OffsetRangeSet_length_def fold_add_sum ors_invar_def ors_members_def OffsetRange_length_def comp_def)

lemma OffsetRangeSet_intersectsStrict_correct:
  assumes "ors_invar s" "\<forall>r \<in> set (ors_sortedRanges s). \<not> OffsetRange_isEmpty r"
    and "or_valid other" "\<not> OffsetRange_isEmpty other"
  shows "OffsetRangeSet_intersectsStrict s other \<longleftrightarrow> ors_members s \<inter> or_members other \<noteq> {}"
proof -
  let ?xs = "ors_sortedRanges s"
  let ?P = "\<lambda>x. endExclusive x \<le> start other"
  have sep: "separated (map or_iv ?xs)" using assms(1) by (simp add: ors_invar_def)
  have "r \<in> set ?xs \<Longrightarrow> start r < endExclusive r" for r
    using ors_invar_valid [OF assms(1), of r] assms(2) by (force simp: OffsetRange_isEmpty_def or_valid_def)
  then have ne: "\<forall>x \<in> set (map or_iv ?xs). fst x < snd x" by auto
  have lt: "start other < endExclusive other"
    using assms(3,4) by (auto simp: OffsetRange_isEmpty_def or_valid_def)
  have "OffsetRangeSet_intersectsStrict s other \<longleftrightarrow>
      (case dropWhile ?P ?xs of [] \<Rightarrow> False | x # _ \<Rightarrow> start x < endExclusive other)"
    by (simp add: OffsetRangeSet_intersectsStrict_def Let_def scan_while_takeWhile case_dropWhile_nth)
  also have "\<dots> \<longleftrightarrow> (case dropWhile (\<lambda>x. snd x \<le> start other) (map or_iv ?xs) of [] \<Rightarrow> False
      | x # _ \<Rightarrow> fst x < endExclusive other)"
    by (cases "dropWhile ?P ?xs") (simp_all add: dropWhile_map comp_def del: dropWhile_eq_Nil_conv)
  finally show ?thesis
    using separated_meets [OF sep ne lt] by (simp add: ors_members_def or_members_def iv_def)
qed

lemma OffsetRange_clip_correct:
  assumes "start r < endExclusive r"
  shows "\<exists>c. OffsetRange_clip r v = Inr c \<and> OffsetRange_contains r c
    \<and> (OffsetRange_contains r v \<longrightarrow> c = v) \<and> (\<forall>w. OffsetRange_contains r w \<longrightarrow> \<bar>v - c\<bar> \<le> \<bar>v - w\<bar>)"
  using assms by (auto simp: OffsetRange_clip_def OffsetRange_isEmpty_def OffsetRange_contains_def)

section \<open>Properties\<close>

text \<open>an \<^verbatim>\<open>OffsetRangeSet\<close> filled by \<^verbatim>\<open>addRange\<close> with any ranges in any order never throws, stays
  sorted and disjoint, holds exactly the offsets some range contains, and its \<^verbatim>\<open>length\<close> is their number;
  \<^verbatim>\<open>intersectWithRange\<close> and \<^verbatim>\<open>intersectWithRangeLength\<close> give and count the common offsets.\<close>

theorem offset_range_set_is_set:
  assumes "\<forall>r \<in> set rs. or_valid r" "or_valid q"
  shows "\<exists>s t. rfold OffsetRangeSet_addRange rs new_OffsetRangeSet = Inr s \<and> ors_invar s
    \<and> ors_members s = {n. \<exists>r \<in> set rs. OffsetRange_contains r n}
    \<and> OffsetRangeSet_length s = int (card {n. \<exists>r \<in> set rs. OffsetRange_contains r n})
    \<and> OffsetRangeSet_intersectWithRange s q = Inr t \<and> ors_invar t
    \<and> ors_members t = {n. (\<exists>r \<in> set rs. OffsetRange_contains r n) \<and> OffsetRange_contains q n}
    \<and> OffsetRangeSet_intersectWithRangeLength s q
        = Inr (int (card {n. (\<exists>r \<in> set rs. OffsetRange_contains r n) \<and> OffsetRange_contains q n}))"
proof -
  obtain s where s: "rfold OffsetRangeSet_addRange rs new_OffsetRangeSet = Inr s" "ors_invar s"
    "ors_members s = ors_members new_OffsetRangeSet \<union> (\<Union>r \<in> set rs. or_members r)"
    using offset_set.add_all_ok [OF offset_set.invar_empty assms(1)] by blast
  obtain t where t: "OffsetRangeSet_intersectWithRange s q = Inr t" "ors_invar t"
    "ors_members t = ors_members s \<inter> or_members q"
    using OffsetRangeSet_intersectWithRange_correct [OF s(2) assms(2)] by blast
  have m: "ors_members s = {n. \<exists>r \<in> set rs. OffsetRange_contains r n}"
    using s(3) by (auto simp: offset_set.members_empty or_members_contains)
  then have mt: "ors_members t = {n. (\<exists>r \<in> set rs. OffsetRange_contains r n) \<and> OffsetRange_contains q n}"
    using t(3) by (auto simp: or_members_contains)
  show ?thesis
    using s(1,2) t(1,2) m mt OffsetRangeSet_length_card [OF s(2)] OffsetRangeSet_length_card [OF t(2)]
    by - (rule exI [of _ s], rule exI [of _ t], simp add: OffsetRangeSet_intersectWithRangeLength_def)
qed

theorem offset_range_set_is_set_witness:
  "\<exists>s. rfold OffsetRangeSet_addRange [\<lparr>start = 5, endExclusive = 7\<rparr>, \<lparr>start = 0, endExclusive = 2\<rparr>] new_OffsetRangeSet = Inr s
     \<and> ors_invar s \<and> OffsetRangeSet_intersectWithRangeLength s \<lparr>start = 1, endExclusive = 6\<rparr> = Inr 2"
proof -
  let ?rs = "[\<lparr>start = 5, endExclusive = 7\<rparr>, \<lparr>start = 0, endExclusive = 2\<rparr>]"
  have "{n. (\<exists>r \<in> set ?rs. OffsetRange_contains r n) \<and> OffsetRange_contains \<lparr>start = 1, endExclusive = 6\<rparr> n} = {1, 5 :: int}"
    by (auto simp: OffsetRange_contains_def)
  then show ?thesis
    using offset_range_set_is_set [of ?rs "\<lparr>start = 1, endExclusive = 6\<rparr>"] by (auto simp: or_valid_def)
qed

end
