(* ===== verification/Line_Range.thy ===== *)
theory Line_Range
  imports Offset_Range Text_Range
begin

text \<open>
  \<^verbatim>\<open>src/vs/editor/common/core/lineRange.ts\<close>: half-open ranges of line numbers and normalized sets of
  them.  \<^verbatim>\<open>LineRangeSet\<close> finds the affected ranges with the binary searches of \<open>Arrays_Find\<close>.
\<close>

section \<open>The class LineRange\<close>

record LineRange =
  lr_startLineNumber :: int
  lr_endLineNumberExclusive :: int

abbreviation "lrs \<equiv> lr_startLineNumber"
abbreviation "lre \<equiv> lr_endLineNumberExclusive"

definition new_LineRange :: "int \<Rightarrow> int \<Rightarrow> LineRange result" where
  "new_LineRange s e =
     (if s > e then Inl BugIndicatingError
      else Inr \<lparr>lr_startLineNumber = s, lr_endLineNumberExclusive = e\<rparr>)"

definition LineRange_fromRange :: "'a Range_scheme \<Rightarrow> LineRange result" where
  "LineRange_fromRange r = new_LineRange (startLineNumber r) (endLineNumber r)"

definition LineRange_fromRangeInclusive :: "'a Range_scheme \<Rightarrow> LineRange result" where
  "LineRange_fromRangeInclusive r = new_LineRange (startLineNumber r) (endLineNumber r + 1)"

definition LineRange_subtract :: "LineRange \<Rightarrow> LineRange option \<Rightarrow> LineRange list result" where
  "LineRange_subtract a b0 =
     (case b0 of
        None \<Rightarrow> Inr [a]
      | Some b \<Rightarrow>
          if lrs a < lrs b \<and> lre b < lre a then
            rbind (new_LineRange (lrs a) (lrs b)) (\<lambda>x.
            rbind (new_LineRange (lre b) (lre a)) (\<lambda>y. Inr [x, y]))
          else if lrs b \<le> lrs a \<and> lre a \<le> lre b then Inr []
          else if lre b < lre a then
            rbind (new_LineRange (max (lre b) (lrs a)) (lre a)) (\<lambda>x. Inr [x])
          else
            rbind (new_LineRange (lrs a) (min (lrs b) (lre a))) (\<lambda>x. Inr [x]))"

text \<open>The static \<^verbatim>\<open>join\<close> over a non-empty array.\<close>

definition LineRange_joinAll :: "LineRange list \<Rightarrow> LineRange result" where
  "LineRange_joinAll lineRanges =
     (case lineRanges of
        [] \<Rightarrow> Inl BugIndicatingError
      | r # rs \<Rightarrow>
          let s = fold (\<lambda>x acc. min acc (lrs x)) rs (lrs r);
              e = fold (\<lambda>x acc. max acc (lre x)) rs (lre r)
          in new_LineRange s e)"

definition LineRange_ofLength :: "int \<Rightarrow> int \<Rightarrow> LineRange result" where
  "LineRange_ofLength s len = new_LineRange s (s + len)"

definition LineRange_deserialize :: "int \<times> int \<Rightarrow> LineRange result" where
  "LineRange_deserialize p = new_LineRange (fst p) (snd p)"

definition LineRange_contains :: "LineRange \<Rightarrow> int \<Rightarrow> bool" where
  "LineRange_contains r n \<longleftrightarrow> lrs r \<le> n \<and> n < lre r"

definition LineRange_isEmpty :: "LineRange \<Rightarrow> bool" where
  "LineRange_isEmpty r \<longleftrightarrow> lrs r = lre r"

definition LineRange_delta :: "LineRange \<Rightarrow> int \<Rightarrow> LineRange result" where
  "LineRange_delta r offset = new_LineRange (lrs r + offset) (lre r + offset)"

definition LineRange_deltaLength :: "LineRange \<Rightarrow> int \<Rightarrow> LineRange result" where
  "LineRange_deltaLength r offset = new_LineRange (lrs r) (lre r + offset)"

definition LineRange_length :: "LineRange \<Rightarrow> int" where
  "LineRange_length r = lre r - lrs r"

definition LineRange_join :: "LineRange \<Rightarrow> LineRange \<Rightarrow> LineRange result" where
  "LineRange_join r s = new_LineRange (min (lrs r) (lrs s)) (max (lre r) (lre s))"

definition LineRange_intersect :: "LineRange \<Rightarrow> LineRange \<Rightarrow> LineRange option result" where
  "LineRange_intersect r s =
     (let a = max (lrs r) (lrs s); e = min (lre r) (lre s)
      in if a \<le> e then rbind (new_LineRange a e) (\<lambda>x. Inr (Some x)) else Inr None)"

definition LineRange_intersectsStrict :: "LineRange \<Rightarrow> LineRange \<Rightarrow> bool" where
  "LineRange_intersectsStrict r s \<longleftrightarrow> lrs r < lre s \<and> lrs s < lre r"

definition LineRange_overlapOrTouch :: "LineRange \<Rightarrow> LineRange \<Rightarrow> bool" where
  "LineRange_overlapOrTouch r s \<longleftrightarrow> lrs r \<le> lre s \<and> lrs s \<le> lre r"

definition LineRange_equals :: "LineRange \<Rightarrow> LineRange \<Rightarrow> bool" where
  "LineRange_equals r s \<longleftrightarrow> lrs r = lrs s \<and> lre r = lre s"

definition LineRange_toInclusiveRange :: "LineRange \<Rightarrow> Range option" where
  "LineRange_toInclusiveRange r =
     (if LineRange_isEmpty r then None
      else Some (new_Range (lrs r) 1 (lre r - 1) MAX_SAFE_INTEGER))"

definition LineRange_toExclusiveRange :: "LineRange \<Rightarrow> Range" where
  "LineRange_toExclusiveRange r = new_Range (lrs r) 1 (lre r) 1"

definition LineRange_mapToLineArray :: "LineRange \<Rightarrow> (int \<Rightarrow> 'a) \<Rightarrow> 'a list" where
  "LineRange_mapToLineArray r f = map f [lrs r .. lre r - 1]"

definition LineRange_forEach :: "LineRange \<Rightarrow> (int \<Rightarrow> 's \<Rightarrow> 's) \<Rightarrow> 's \<Rightarrow> 's" where
  "LineRange_forEach r f s = fold f [lrs r .. lre r - 1] s"

definition LineRange_serialize :: "LineRange \<Rightarrow> int \<times> int" where
  "LineRange_serialize r = (lrs r, lre r)"

definition LineRange_includes :: "LineRange \<Rightarrow> int \<Rightarrow> bool" where
  "LineRange_includes r n \<longleftrightarrow> lrs r \<le> n \<and> n < lre r"

definition LineRange_toOffsetRange :: "LineRange \<Rightarrow> OffsetRange result" where
  "LineRange_toOffsetRange r = new_OffsetRange (lrs r - 1) (lre r - 1)"

section \<open>The class LineRangeSet\<close>

record LineRangeSet =
  lrs_normalizedRanges :: "LineRange list"

abbreviation new_LineRangeSet :: "LineRange list \<Rightarrow> LineRangeSet" where
  "new_LineRangeSet xs \<equiv> \<lparr>lrs_normalizedRanges = xs\<rparr>"

definition joinRangeStartIdx :: "LineRange \<Rightarrow> LineRange list \<Rightarrow> int" where
  "joinRangeStartIdx r xs =
     findFirstIdxMonotonousOrArrLen xs (on_elem (\<lambda>x. lre x \<ge> lrs r)) 0 (int (length xs))"

definition joinRangeEndIdxExclusive :: "LineRange \<Rightarrow> LineRange list \<Rightarrow> int" where
  "joinRangeEndIdxExclusive r xs =
     findLastIdxMonotonous xs (on_elem (\<lambda>x. lrs x \<le> lre r)) 0 (int (length xs)) + 1"

text \<open>\<^verbatim>\<open>a[i]\<close> followed by a member access: \<^verbatim>\<open>undefined\<close> makes it throw.\<close>

definition get_elem :: "'a list \<Rightarrow> int \<Rightarrow> 'a result" where
  "get_elem xs i = (case js_at xs i of None \<Rightarrow> Inl TypeError | Some x \<Rightarrow> Inr x)"

definition LineRangeSet_addRange :: "LineRange \<Rightarrow> LineRangeSet \<Rightarrow> LineRangeSet result" where
  "LineRangeSet_addRange r this =
     (if LineRange_length r = 0 then Inr this
      else
        let xs = lrs_normalizedRanges this;
            i = joinRangeStartIdx r xs;
            j = joinRangeEndIdxExclusive r xs
        in if i = j then Inr (this\<lparr>lrs_normalizedRanges := js_splice xs i 0 [r]\<rparr>)
           else if i = j - 1 then
             rbind (get_elem xs i) (\<lambda>joinRange.
             rbind (LineRange_join joinRange r) (\<lambda>m.
               Inr (this\<lparr>lrs_normalizedRanges := xs[nat i := m]\<rparr>)))
           else
             rbind (get_elem xs i) (\<lambda>first.
             rbind (get_elem xs (j - 1)) (\<lambda>last.
             rbind (LineRange_join first last) (\<lambda>m1.
             rbind (LineRange_join m1 r) (\<lambda>m.
               Inr (this\<lparr>lrs_normalizedRanges := js_splice xs i (j - i) [m]\<rparr>))))))"

definition LineRangeSet_contains :: "LineRangeSet \<Rightarrow> int \<Rightarrow> bool" where
  "LineRangeSet_contains this n =
     (case findLastMonotonous (lrs_normalizedRanges this) (on_elem (\<lambda>x. lrs x \<le> n)) of
        None \<Rightarrow> False
      | Some x \<Rightarrow> lre x > n)"

definition LineRangeSet_intersects :: "LineRangeSet \<Rightarrow> LineRange \<Rightarrow> bool" where
  "LineRangeSet_intersects this r =
     (case findLastMonotonous (lrs_normalizedRanges this) (on_elem (\<lambda>x. lrs x < lre r)) of
        None \<Rightarrow> False
      | Some x \<Rightarrow> lre x > lrs r)"

text \<open>The body of the loop of \<^verbatim>\<open>getUnion\<close>: which range comes next, and what is left.\<close>

fun union_next :: "LineRange list \<Rightarrow> LineRange list \<Rightarrow> (LineRange \<times> LineRange list \<times> LineRange list) option" where
  "union_next (x # xs) (y # ys) =
     (if lrs x < lrs y then Some (x, xs, y # ys) else Some (y, x # xs, ys))"
| "union_next (x # xs) [] = Some (x, xs, [])"
| "union_next [] (y # ys) = Some (y, [], ys)"
| "union_next [] [] = None"

lemma union_next_size:
  "union_next xs ys = Some (n, xs', ys') \<Longrightarrow> length xs' + length ys' < length xs + length ys"
  by (induction xs ys rule: union_next.induct) (auto split: if_splits)

function union_loop ::
    "LineRange list \<Rightarrow> LineRange list \<Rightarrow> LineRange option \<Rightarrow> LineRange list \<Rightarrow> LineRange list result" where
  "union_loop xs ys current acc =
     (case union_next xs ys of
        None \<Rightarrow> Inr (case current of None \<Rightarrow> acc | Some c \<Rightarrow> acc @ [c])
      | Some (next, xs', ys') \<Rightarrow>
          (case current of
             None \<Rightarrow> union_loop xs' ys' (Some next) acc
           | Some c \<Rightarrow>
               if lre c \<ge> lrs next then
                 rbind (new_LineRange (lrs c) (max (lre c) (lre next))) (\<lambda>m.
                   union_loop xs' ys' (Some m) acc)
               else union_loop xs' ys' (Some next) (acc @ [c])))"
  by pat_completeness auto
termination
  by (relation "measure (\<lambda>(xs, ys, current, acc). length xs + length ys)")
    (auto dest: union_next_size)

declare union_loop.simps [simp del]

definition LineRangeSet_getUnion :: "LineRangeSet \<Rightarrow> LineRangeSet \<Rightarrow> LineRangeSet result" where
  "LineRangeSet_getUnion this other =
     (if lrs_normalizedRanges this = [] then Inr other
      else if lrs_normalizedRanges other = [] then Inr this
      else rbind (union_loop (lrs_normalizedRanges this) (lrs_normalizedRanges other) None [])
             (\<lambda>rs. Inr (new_LineRangeSet rs)))"

fun subtract_loop :: "LineRange list \<Rightarrow> int \<Rightarrow> LineRange list \<Rightarrow> (LineRange list \<times> int) result" where
  "subtract_loop [] s acc = Inr (acc, s)"
| "subtract_loop (r # rs) s acc =
     (if lrs r > s then
        rbind (new_LineRange s (lrs r)) (\<lambda>x. subtract_loop rs (lre r) (acc @ [x]))
      else subtract_loop rs (lre r) acc)"

definition LineRangeSet_subtractFrom :: "LineRangeSet \<Rightarrow> LineRange \<Rightarrow> LineRangeSet result" where
  "LineRangeSet_subtractFrom this r =
     (let xs = lrs_normalizedRanges this;
          i = joinRangeStartIdx r xs;
          j = joinRangeEndIdxExclusive r xs
      in if i = j then Inr (new_LineRangeSet [r])
         else rbind (subtract_loop (take (nat (j - i)) (drop (nat i) xs)) (lrs r) []) (\<lambda>(acc, s).
                if s < lre r then
                  rbind (new_LineRange s (lre r)) (\<lambda>x. Inr (new_LineRangeSet (acc @ [x])))
                else Inr (new_LineRangeSet acc)))"

fun inter_loop :: "LineRange list \<Rightarrow> LineRange list \<Rightarrow> LineRange list \<Rightarrow> LineRange list result" where
  "inter_loop (x # xs) (y # ys) acc =
     rbind (LineRange_intersect x y) (\<lambda>i.
       let acc' = (case i of None \<Rightarrow> acc | Some z \<Rightarrow> if \<not> LineRange_isEmpty z then acc @ [z] else acc)
       in if lre x < lre y then inter_loop xs (y # ys) acc' else inter_loop (x # xs) ys acc')"
| "inter_loop [] ys acc = Inr acc"
| "inter_loop xs [] acc = Inr acc"

definition LineRangeSet_getIntersection :: "LineRangeSet \<Rightarrow> LineRangeSet \<Rightarrow> LineRangeSet result" where
  "LineRangeSet_getIntersection this other =
     rbind (inter_loop (lrs_normalizedRanges this) (lrs_normalizedRanges other) [])
       (\<lambda>rs. Inr (new_LineRangeSet rs))"

definition LineRangeSet_getWithDelta :: "LineRangeSet \<Rightarrow> int \<Rightarrow> LineRangeSet result" where
  "LineRangeSet_getWithDelta this v =
     rbind (rmap (\<lambda>r. LineRange_delta r v) (lrs_normalizedRanges this)) (\<lambda>rs. Inr (new_LineRangeSet rs))"

definition LineRange_joinMany :: "LineRange list list \<Rightarrow> LineRange list result" where
  "LineRange_joinMany lineRanges =
     (case lineRanges of
        [] \<Rightarrow> Inr []
      | r # rs \<Rightarrow>
          rbind (rfold (\<lambda>x acc. LineRangeSet_getUnion acc (new_LineRangeSet x)) rs (new_LineRangeSet r))
            (\<lambda>s. Inr (lrs_normalizedRanges s)))"


section \<open>Line ranges as sets of lines\<close>

definition lr_valid :: "LineRange \<Rightarrow> bool" where
  "lr_valid r \<longleftrightarrow> lrs r \<le> lre r"

abbreviation lr_iv :: "LineRange \<Rightarrow> interval" where
  "lr_iv r \<equiv> (lrs r, lre r)"

definition lr_members :: "LineRange \<Rightarrow> int set" where
  "lr_members r = iv (lr_iv r)"

text \<open>The comment on \<^verbatim>\<open>_normalizedRanges\<close>: sorted, no two ranges touching or intersecting; and the set
  holds no empty range.\<close>

definition lrs_ok :: "LineRange list \<Rightarrow> bool" where
  "lrs_ok xs \<longleftrightarrow> separated (map lr_iv xs) \<and> (\<forall>x \<in> set xs. lrs x < lre x)"

definition lrs_invar :: "LineRangeSet \<Rightarrow> bool" where
  "lrs_invar s \<longleftrightarrow> lrs_ok (lrs_normalizedRanges s)"

definition lrs_members :: "LineRangeSet \<Rightarrow> int set" where
  "lrs_members s = ivs (map lr_iv (lrs_normalizedRanges s))"

lemma new_LineRange_ok [simp]:
  "s \<le> e \<Longrightarrow> new_LineRange s e = Inr \<lparr>lr_startLineNumber = s, lr_endLineNumberExclusive = e\<rparr>"
  by (simp add: new_LineRange_def)

lemma lr_members_contains: "lr_members r = {n. LineRange_contains r n}"
  by (auto simp: lr_members_def iv_def LineRange_contains_def)

lemma lrs_ok_Nil [simp]: "lrs_ok []"
  by (simp add: lrs_ok_def)

lemma lrs_ok_Cons:
  "lrs_ok (x # xs) \<longleftrightarrow> lrs x < lre x \<and> (\<forall>y \<in> set xs. lre x < lrs y) \<and> lrs_ok xs"
  by (auto simp: lrs_ok_def separated_Cons)

lemma lrs_ok_append:
  "lrs_ok (xs @ ys) \<longleftrightarrow> lrs_ok xs \<and> lrs_ok ys \<and> (\<forall>x \<in> set xs. \<forall>y \<in> set ys. lre x < lrs y)"
  by (auto simp: lrs_ok_def separated_append)

lemma lrs_ok_nth:
  "lrs_ok xs \<Longrightarrow> k < l \<Longrightarrow> l < length xs \<Longrightarrow> lre (xs ! k) < lrs (xs ! l)"
  using separated_nth [of "map lr_iv xs" k l] by (simp add: lrs_ok_def)

lemma lrs_ok_nth_valid: "lrs_ok xs \<Longrightarrow> k < length xs \<Longrightarrow> lrs (xs ! k) < lre (xs ! k)"
  by (simp add: lrs_ok_def)

lemma lrs_ok_nth_le:
  assumes "lrs_ok xs" "k \<le> l" "l < length xs"
  shows "lrs (xs ! k) \<le> lrs (xs ! l)" and "lre (xs ! k) \<le> lre (xs ! l)"
  using assms lrs_ok_nth [of xs k l] lrs_ok_nth_valid [of xs k] lrs_ok_nth_valid [of xs l]
  by (cases "k = l"; force)+

text \<open>On a normalized array the predicates of the binary searches are monotonous.\<close>

lemma lrs_ok_starts_mono:
  assumes "lrs_ok xs"
  shows "true_then_false xs (on_elem (\<lambda>x. lrs x \<le> n)) 0 (int (length xs))"
    and "true_then_false xs (on_elem (\<lambda>x. lrs x < n)) 0 (int (length xs))"
    and "true_then_false xs (\<lambda>x. \<not> on_elem (\<lambda>x. lre x \<ge> n) x) 0 (int (length xs))"
  using lrs_ok_nth_le [OF assms] by (intro true_then_false_natI; force)+

lemma joinRange_split:
  assumes ok: "lrs_ok xs" and r: "lrs r \<le> lre r"
  obtains L M R where "xs = L @ M @ R"
    and "joinRangeStartIdx r xs = int (length L)"
    and "joinRangeEndIdxExclusive r xs = int (length L + length M)"
    and "\<forall>x \<in> set L. lre x < lrs r"
    and "\<forall>x \<in> set M. lrs r \<le> lre x \<and> lrs x \<le> lre r"
    and "\<forall>x \<in> set R. lre r < lrs x"
proof -
  obtain i where i: "i \<le> length xs" "joinRangeStartIdx r xs = int i"
    "\<And>k. k < length xs \<Longrightarrow> lrs r \<le> lre (xs ! k) \<longleftrightarrow> i \<le> k"
    by (rule findFirstIdxMonotonous_nat [OF lrs_ok_starts_mono(3) [OF ok, of "lrs r"]])
      (simp add: joinRangeStartIdx_def)
  obtain j where j: "j \<le> length xs" "joinRangeEndIdxExclusive r xs = int j"
    "\<And>k. k < length xs \<Longrightarrow> lrs (xs ! k) \<le> lre r \<longleftrightarrow> k < j"
    by (rule findLastIdxMonotonous_nat [OF lrs_ok_starts_mono(1) [OF ok, of "lre r"]])
      (simp add: joinRangeEndIdxExclusive_def)
  have ij: "i \<le> j"
  proof (rule ccontr)
    assume "\<not> i \<le> j"
    with i(1) have "j < length xs" by simp
    with \<open>\<not> i \<le> j\<close> i(3) [of j] j(3) [of j] lrs_ok_nth_valid [OF ok, of j] r show False by auto
  qed
  define L where "L = take i xs"
  define M where "M = take (j - i) (drop i xs)"
  define R where "R = drop j xs"
  have "M @ R = drop i xs"
    using ij j(1) take_drop_append [of i j "length xs" xs] by (simp add: M_def R_def)
  then have xs: "xs = L @ M @ R" by (simp add: L_def)
  have len: "i = length L" "j = length L + length M"
    using ij i(1) j(1) by (simp_all add: L_def M_def)
  have pL: "lre x < lrs r" if x: "x \<in> set L" for x
  proof -
    from x obtain k where "k < i" "x = xs ! k" using i(1) by (auto simp: L_def in_set_conv_nth)
    then show ?thesis using i(1) i(3) [of k] by auto
  qed
  have pM: "lrs r \<le> lre x \<and> lrs x \<le> lre r" if x: "x \<in> set M" for x
  proof -
    from x obtain k where "k < j - i" "x = xs ! (i + k)" using j(1) by (auto simp: M_def in_set_conv_nth)
    then show ?thesis using j(1) i(3) [of "i + k"] j(3) [of "i + k"] by auto
  qed
  have pR: "lre r < lrs x" if x: "x \<in> set R" for x
  proof -
    from x obtain k where "k < length xs - j" "x = xs ! (j + k)" by (auto simp: R_def in_set_conv_nth)
    moreover from this(1) have "j + k < length xs" by linarith
    ultimately show ?thesis using j(3) [of "j + k"] by auto
  qed
  show thesis
    using pL pM pR by (intro that [OF xs]) (simp_all add: i(2) j(2) len)
qed

lemma lrs_ok_merge:
  assumes ok: "lrs_ok (L @ M @ R)" and r: "lrs r < lre r"
    and L: "\<forall>x \<in> set L. lre x < lrs r"
    and M: "\<forall>x \<in> set M. lrs r \<le> lre x \<and> lrs x \<le> lre r"
    and R: "\<forall>x \<in> set R. lre r < lrs x"
    and m: "lr_iv m = merge_into (lr_iv r) (map lr_iv M)"
  shows "lrs_ok (L @ m # R)" and "ivs (map lr_iv (L @ m # R)) = ivs (map lr_iv (L @ M @ R)) \<union> lr_members r"
proof -
  have "separated (map lr_iv L @ map lr_iv M @ map lr_iv R)" using ok by (simp add: lrs_ok_def)
  note ins = separated_insert [OF this, of "lr_iv r"]
  have "lrs m \<le> lrs r" "lre r \<le> lre m"
    using m by (auto simp: merge_into_def split: if_splits)
  with r have "lrs m < lre m" by simp
  then show "lrs_ok (L @ m # R)"
    using ins(1) ok r L M R m by (auto simp: lrs_ok_def)
  show "ivs (map lr_iv (L @ m # R)) = ivs (map lr_iv (L @ M @ R)) \<union> lr_members r"
    using ins(2) r L M R m by (simp add: lr_members_def)
qed

lemma LineRangeSet_addRange_correct:
  assumes "lrs_invar s" "lr_valid r"
  shows "\<exists>s'. LineRangeSet_addRange r s = Inr s' \<and> lrs_invar s' \<and> lrs_members s' = lrs_members s \<union> lr_members r"
proof (cases "LineRange_length r = 0")
  case True
  then have "lr_members r = {}" by (simp add: LineRange_length_def lr_members_def iv_def)
  with True assms(1) show ?thesis by (simp add: LineRangeSet_addRange_def)
next
  case False
  with assms(2) have r: "lrs r < lre r" by (simp add: LineRange_length_def lr_valid_def)
  let ?xs = "lrs_normalizedRanges s"
  have ok: "lrs_ok ?xs" using assms(1) by (simp add: lrs_invar_def)
  obtain L M R where xs: "?xs = L @ M @ R"
    and i: "joinRangeStartIdx r ?xs = int (length L)"
    and j: "joinRangeEndIdxExclusive r ?xs = int (length L + length M)"
    and pL: "\<forall>x \<in> set L. lre x < lrs r"
    and pM: "\<forall>x \<in> set M. lrs r \<le> lre x \<and> lrs x \<le> lre r"
    and pR: "\<forall>x \<in> set R. lre r < lrs x"
    using r by (auto intro: joinRange_split [OF ok, of r])
  define m where "m = (let v = merge_into (lr_iv r) (map lr_iv M)
    in \<lparr>lr_startLineNumber = fst v, lr_endLineNumberExclusive = snd v\<rparr>)"
  have m: "lr_iv m = merge_into (lr_iv r) (map lr_iv M)" by (simp add: m_def Let_def)
  have "LineRangeSet_addRange r s = Inr (s\<lparr>lrs_normalizedRanges := L @ m # R\<rparr>)"
  proof (cases M)
    case Nil
    then have "m = r" by (simp add: m_def merge_into_def)
    with Nil False js_splice_nat [of "length L" 0 ?xs "[r]"] show ?thesis
      by (simp add: LineRangeSet_addRange_def i j Let_def) (simp add: xs)
  next
    case (Cons y ys)
    show ?thesis
    proof (cases ys)
      case Nil
      with Cons have M: "M = [y]" by simp
      have "get_elem ?xs (int (length L)) = Inr y" by (simp add: get_elem_def xs M)
      moreover have "LineRange_join y r = Inr m"
        using r pM by (auto simp: LineRange_join_def M m_def merge_into_def min.commute max.commute Let_def)
      moreover have "?xs[length L := m] = L @ m # R" by (simp add: xs M)
      ultimately show ?thesis
        using False by (simp add: LineRangeSet_addRange_def i j M Let_def)
    next
      case ys: (Cons z zs)
      have first: "get_elem ?xs (int (length L)) = Inr (hd M)" by (simp add: get_elem_def xs Cons)
      have "?xs ! (length L + length M - 1) = last M"
        using Cons by (simp add: xs nth_append last_conv_nth)
      then have last: "get_elem ?xs (int (length L + length M) - 1) = Inr (last M)"
        using Cons js_at_int [of "length L + length M - 1" ?xs] by (simp add: get_elem_def xs)
      have "M \<noteq> []" using Cons by simp
      moreover have "lrs (hd M) \<le> lre (last M)" "lrs (hd M) \<le> lrs (last M)" "lre (hd M) \<le> lre (last M)"
      proof -
        have "lrs_ok M" using ok by (simp add: xs lrs_ok_append)
        with \<open>M \<noteq> []\<close> show "lrs (hd M) \<le> lrs (last M)" and le: "lre (hd M) \<le> lre (last M)"
          using separated_hd_last [of "map lr_iv M" "lr_iv (hd M)"]
            separated_hd_last [of "map lr_iv M" "lr_iv (last M)"]
          by (simp_all add: lrs_ok_def last_map hd_map)
        have "lrs (hd M) < lre (hd M)" using \<open>lrs_ok M\<close> \<open>M \<noteq> []\<close> by (simp add: lrs_ok_def)
        with le show "lrs (hd M) \<le> lre (last M)" by simp
      qed
      ultimately obtain m1 where "LineRange_join (hd M) (last M) = Inr m1" "LineRange_join m1 r = Inr m"
        using r by (auto simp: LineRange_join_def m_def merge_into_def hd_map last_map Let_def
            min.commute max.commute min.left_commute max.left_commute)
      moreover have "js_splice ?xs (int (length L)) (int (length M)) [m] = L @ m # R"
        using js_splice_nat [of "length L" "length M" ?xs "[m]"] by (simp add: xs)
      ultimately show ?thesis
        using False first last by (simp add: LineRangeSet_addRange_def i j Let_def Cons ys)
    qed
  qed
  moreover have "lrs_ok (L @ m # R)" "ivs (map lr_iv (L @ m # R)) = ivs (map lr_iv ?xs) \<union> lr_members r"
    using lrs_ok_merge [OF ok [unfolded xs] r pL pM pR m] by (simp_all add: xs)
  ultimately show ?thesis by (simp add: lrs_invar_def lrs_members_def)
qed

interpretation line_set: range_set_spec "new_LineRangeSet []" LineRangeSet_addRange lrs_members lrs_invar
  lr_members lr_valid
proof
  show "lrs_members (new_LineRangeSet []) = {}" "lrs_invar (new_LineRangeSet [])"
    by (simp_all add: lrs_members_def lrs_invar_def)
qed (rule LineRangeSet_addRange_correct)

section \<open>Queries\<close>

lemma ivs_nth: "n \<in> ivs (map lr_iv xs) \<longleftrightarrow> (\<exists>k < length xs. lrs (xs ! k) \<le> n \<and> n < lre (xs ! k))"
  by (auto simp: ivs_def iv_def in_set_conv_nth) force+

lemma LineRangeSet_contains_correct:
  assumes "lrs_invar s"
  shows "LineRangeSet_contains s n \<longleftrightarrow> n \<in> lrs_members s"
proof -
  let ?xs = "lrs_normalizedRanges s"
  have ok: "lrs_ok ?xs" using assms by (simp add: lrs_invar_def)
  show ?thesis
  proof (cases rule: findLastMonotonous_cases [OF lrs_ok_starts_mono(1) [OF ok, of n]])
    case 1
    then show ?thesis by (auto simp: LineRangeSet_contains_def lrs_members_def ivs_nth)
  next
    case (2 r)
    have "lrs (?xs ! k) \<le> n \<and> n < lre (?xs ! k) \<longleftrightarrow> k = r \<and> n < lre (?xs ! r)" if "k < length ?xs" for k
      using 2(1) 2(3) [of k] 2(3) [of r] that lrs_ok_nth [OF ok, of k r] by (cases "k = r") (auto simp: le_less)
    with 2 show ?thesis by (auto simp: LineRangeSet_contains_def lrs_members_def ivs_nth)
  qed
qed

lemma LineRangeSet_intersects_iff:
  assumes "lrs_invar s"
  shows "LineRangeSet_intersects s r \<longleftrightarrow> (\<exists>k < length (lrs_normalizedRanges s). lrs (lrs_normalizedRanges s ! k) < lre r \<and> lrs r < lre (lrs_normalizedRanges s ! k))"
proof -
  let ?xs = "lrs_normalizedRanges s"
  have ok: "lrs_ok ?xs" using assms by (simp add: lrs_invar_def)
  show ?thesis
  proof (cases rule: findLastMonotonous_cases [OF lrs_ok_starts_mono(2) [OF ok, of "lre r"]])
    case 1
    then show ?thesis by (auto simp: LineRangeSet_intersects_def)
  next
    case (2 k)
    have "lrs r < lre (?xs ! k)" if "l < length ?xs" "lrs (?xs ! l) < lre r" "lrs r < lre (?xs ! l)" for l
      using that 2(1) 2(3) [of l] lrs_ok_nth_le(2) [OF ok, of l k] by auto
    with 2(1) 2(3) [of k] show ?thesis using 2(2) by (auto simp: LineRangeSet_intersects_def)
  qed
qed

lemma LineRangeSet_intersects_correct:
  assumes "lrs_invar s" "lrs r < lre r"
  shows "LineRangeSet_intersects s r \<longleftrightarrow> lrs_members s \<inter> lr_members r \<noteq> {}"
  unfolding LineRangeSet_intersects_iff [OF assms(1)]
proof
  let ?xs = "lrs_normalizedRanges s"
  assume "lrs_members s \<inter> lr_members r \<noteq> {}"
  then obtain n where "n \<in> lrs_members s" "n \<in> lr_members r" by blast
  then obtain k where "k < length ?xs" "lrs (?xs ! k) \<le> n" "n < lre (?xs ! k)" "lrs r \<le> n" "n < lre r"
    by (auto simp: lrs_members_def ivs_nth lr_members_def iv_def)
  then show "\<exists>k < length ?xs. lrs (?xs ! k) < lre r \<and> lrs r < lre (?xs ! k)" by (intro exI [of _ k]) auto
next
  let ?xs = "lrs_normalizedRanges s"
  assume "\<exists>k < length ?xs. lrs (?xs ! k) < lre r \<and> lrs r < lre (?xs ! k)"
  then obtain k where k: "k < length ?xs" "lrs (?xs ! k) < lre r" "lrs r < lre (?xs ! k)" by blast
  have ok: "lrs_ok ?xs" using assms by (simp add: lrs_invar_def)
  from k assms(2) lrs_ok_nth_valid [OF ok k(1)]
  have "max (lrs r) (lrs (?xs ! k)) \<in> lrs_members s \<inter> lr_members r"
    by (auto simp: lrs_members_def ivs_nth lr_members_def iv_def intro!: exI [of _ k])
  then show "lrs_members s \<inter> lr_members r \<noteq> {}" by blast
qed

text \<open>An empty range is met where it stands between two lines of the set.\<close>

lemma LineRangeSet_intersects_empty:
  assumes "lrs_invar s" "lrs r = lre r"
  shows "LineRangeSet_intersects s r \<longleftrightarrow> lrs r - 1 \<in> lrs_members s \<and> lrs r \<in> lrs_members s"
  unfolding LineRangeSet_intersects_iff [OF assms(1)]
proof
  let ?xs = "lrs_normalizedRanges s"
  assume "\<exists>k < length ?xs. lrs (?xs ! k) < lre r \<and> lrs r < lre (?xs ! k)"
  with assms(2) show "lrs r - 1 \<in> lrs_members s \<and> lrs r \<in> lrs_members s" by (force simp: lrs_members_def ivs_nth iv_def)
next
  let ?xs = "lrs_normalizedRanges s"
  have ok: "lrs_ok ?xs" using assms by (simp add: lrs_invar_def)
  assume "lrs r - 1 \<in> lrs_members s \<and> lrs r \<in> lrs_members s"
  then obtain k l where k: "k < length ?xs" "lrs (?xs ! k) \<le> lrs r - 1" "lrs r - 1 < lre (?xs ! k)" and l: "l < length ?xs" "lrs (?xs ! l) \<le> lrs r" "lrs r < lre (?xs ! l)"
    by (auto simp: lrs_members_def ivs_nth iv_def)
  have "k = l"
  proof (rule ccontr)
    assume "k \<noteq> l"
    with lrs_ok_nth [OF ok, of k l] lrs_ok_nth [OF ok, of l k] lrs_ok_nth_valid [OF ok k(1)] k l show False by (cases "k < l") auto
  qed
  with k l assms(2) show "\<exists>k < length ?xs. lrs (?xs ! k) < lre r \<and> lrs r < lre (?xs ! k)" by (intro exI [of _ k]) auto
qed

section \<open>Union\<close>

lemma union_next_props:
  assumes "union_next xs ys = Some (n, xs', ys')" "lrs_ok xs" "lrs_ok ys"
  shows "set xs \<union> set ys = insert n (set xs' \<union> set ys')" "lrs_ok xs'" "lrs_ok ys'" "lrs n < lre n"
    and "\<forall>z \<in> set xs' \<union> set ys'. lrs n \<le> lrs z"
  using assms by (induction xs ys rule: union_next.induct) (force simp: lrs_ok_Cons split: if_splits)+

lemma union_next_None: "union_next xs ys = None \<longleftrightarrow> xs = [] \<and> ys = []"
  by (induction xs ys rule: union_next.induct) auto

lemma ivs_map_set: "ivs (map lr_iv xs) = (\<Union>x \<in> set xs. lr_members x)"
  by (simp add: ivs_def lr_members_def)

lemma lr_members_join: "lrs c \<le> lrs n \<Longrightarrow> lrs n \<le> lre c \<Longrightarrow>
    lr_members \<lparr>lr_startLineNumber = lrs c, lr_endLineNumberExclusive = max (lre c) (lre n)\<rparr>
      = lr_members c \<union> lr_members n"
  by (auto simp: lr_members_def iv_def)

text \<open>The loop once a current range exists: everything emitted ends before it starts, and nothing
  left starts before it.\<close>

lemma union_loop_correct:
  assumes "lrs_ok xs" "lrs_ok ys" "lrs_ok (acc @ [c])" "\<forall>z \<in> set xs \<union> set ys. lrs c \<le> lrs z"
  shows "\<exists>rs. union_loop xs ys (Some c) acc = Inr rs \<and> lrs_ok rs
    \<and> (\<Union>x \<in> set rs. lr_members x) = (\<Union>x \<in> set acc \<union> {c} \<union> set xs \<union> set ys. lr_members x)"
  using assms
proof (induction "length xs + length ys" arbitrary: xs ys c acc rule: less_induct)
  case less
  show ?case
  proof (cases "union_next xs ys")
    case None
    then show ?thesis
      using less.prems by (auto simp: union_next_None union_loop.simps [of "[]" "[]"])
  next
    case (Some t)
    then obtain n xs' ys' where nx: "union_next xs ys = Some (n, xs', ys')" by (cases t) auto
    note p = union_next_props [OF nx less.prems(1,2)]
    have cn: "lrs c \<le> lrs n" using p(1) less.prems(4) by blast
    show ?thesis
    proof (cases "lre c \<ge> lrs n")
      case True
      let ?m = "\<lparr>lr_startLineNumber = lrs c, lr_endLineNumberExclusive = max (lre c) (lre n)\<rparr>"
      have "lrs_ok (acc @ [?m])" "lrs c < lre c"
        using less.prems(3) by (auto simp: lrs_ok_append lrs_ok_Cons)
      then have "\<exists>rs. union_loop xs' ys' (Some ?m) acc = Inr rs \<and> lrs_ok rs
        \<and> (\<Union>x \<in> set rs. lr_members x) = (\<Union>x \<in> set acc \<union> {?m} \<union> set xs' \<union> set ys'. lr_members x)"
        using p less.prems(4) union_next_size [OF nx] by (intro less.hyps) auto
      moreover have "union_loop xs ys (Some c) acc = union_loop xs' ys' (Some ?m) acc"
        using True nx \<open>lrs c < lre c\<close> by (simp add: union_loop.simps [of xs ys])
      moreover have "set acc \<union> {c} \<union> set xs \<union> set ys = set acc \<union> {c} \<union> insert n (set xs' \<union> set ys')"
        using p(1) by blast
      then have "(\<Union>x \<in> set acc \<union> {?m} \<union> set xs' \<union> set ys'. lr_members x)
          = (\<Union>x \<in> set acc \<union> {c} \<union> set xs \<union> set ys. lr_members x)"
        using lr_members_join [OF cn True] by (simp add: Un_ac)
      ultimately show ?thesis by simp
    next
      case False
      have "lrs_ok ((acc @ [c]) @ [n])"
        using less.prems(3) p(4) False by (auto simp: lrs_ok_append lrs_ok_Cons)
      then have "\<exists>rs. union_loop xs' ys' (Some n) (acc @ [c]) = Inr rs \<and> lrs_ok rs
        \<and> (\<Union>x \<in> set rs. lr_members x) = (\<Union>x \<in> set (acc @ [c]) \<union> {n} \<union> set xs' \<union> set ys'. lr_members x)"
        using p union_next_size [OF nx] by (intro less.hyps) auto
      moreover have "union_loop xs ys (Some c) acc = union_loop xs' ys' (Some n) (acc @ [c])"
        using False nx by (simp add: union_loop.simps [of xs ys])
      moreover have "set (acc @ [c]) \<union> {n} \<union> set xs' \<union> set ys' = set acc \<union> {c} \<union> set xs \<union> set ys"
        using p(1) by auto
      ultimately show ?thesis by metis
    qed
  qed
qed

lemma LineRangeSet_getUnion_correct:
  assumes "lrs_invar a" "lrs_invar b"
  shows "\<exists>u. LineRangeSet_getUnion a b = Inr u \<and> lrs_invar u \<and> lrs_members u = lrs_members a \<union> lrs_members b"
proof -
  let ?xs = "lrs_normalizedRanges a" and ?ys = "lrs_normalizedRanges b"
  have ok: "lrs_ok ?xs" "lrs_ok ?ys" using assms by (simp_all add: lrs_invar_def)
  show ?thesis
  proof (cases "?xs = [] \<or> ?ys = []")
    case True
    with assms show ?thesis by (auto simp: LineRangeSet_getUnion_def lrs_members_def)
  next
    case False
    then obtain t where "union_next ?xs ?ys = Some t" using union_next_None by (metis not_None_eq)
    then obtain n xs' ys' where nx: "union_next ?xs ?ys = Some (n, xs', ys')" by (cases t) auto
    note p = union_next_props [OF nx ok]
    have "\<exists>rs. union_loop xs' ys' (Some n) [] = Inr rs \<and> lrs_ok rs
      \<and> (\<Union>x \<in> set rs. lr_members x) = (\<Union>x \<in> set [] \<union> {n} \<union> set xs' \<union> set ys'. lr_members x)"
      using p by (intro union_loop_correct) (auto simp: lrs_ok_Cons)
    moreover have "union_loop ?xs ?ys None [] = union_loop xs' ys' (Some n) []"
      using nx by (simp add: union_loop.simps [of ?xs ?ys])
    moreover have "(\<Union>x \<in> set [] \<union> {n} \<union> set xs' \<union> set ys'. lr_members x)
        = (\<Union>x \<in> set ?xs. lr_members x) \<union> (\<Union>x \<in> set ?ys. lr_members x)"
      using p(1) by (simp add: UN_Un [symmetric] del: UN_Un)
    ultimately show ?thesis
      using False by (auto simp: LineRangeSet_getUnion_def lrs_invar_def lrs_members_def ivs_map_set)
  qed
qed

section \<open>Intersection\<close>

lemma LineRange_intersect_cases:
  "LineRange_intersect r s = Inr (if max (lrs r) (lrs s) \<le> min (lre r) (lre s)
     then Some \<lparr>lr_startLineNumber = max (lrs r) (lrs s), lr_endLineNumberExclusive = min (lre r) (lre s)\<rparr> else None)"
  by (simp add: LineRange_intersect_def Let_def)

text \<open>The ranges the loop pushes, without the accumulator.\<close>

fun inter_list :: "LineRange list \<Rightarrow> LineRange list \<Rightarrow> LineRange list" where
  "inter_list (x # xs) (y # ys) =
     (if max (lrs x) (lrs y) < min (lre x) (lre y)
      then [\<lparr>lr_startLineNumber = max (lrs x) (lrs y), lr_endLineNumberExclusive = min (lre x) (lre y)\<rparr>]
      else [])
     @ (if lre x < lre y then inter_list xs (y # ys) else inter_list (x # xs) ys)"
| "inter_list [] ys = []"
| "inter_list xs [] = []"

lemma inter_loop_eq: "inter_loop xs ys acc = Inr (acc @ inter_list xs ys)"
  by (induction xs ys acc rule: inter_loop.induct)
    (auto simp: LineRange_intersect_cases LineRange_isEmpty_def Let_def)

lemma inter_list_elem:
  "z \<in> set (inter_list xs ys) \<Longrightarrow> (\<exists>x \<in> set xs. lrs x \<le> lrs z) \<and> (\<exists>y \<in> set ys. lrs y \<le> lrs z)"
proof (induction xs ys rule: inter_list.induct)
  case (1 x xs y ys)
  show ?case
  proof (cases "z \<in> set (if lre x < lre y then inter_list xs (y # ys) else inter_list (x # xs) ys)")
    case True
    with 1 show ?thesis by (cases "lre x < lre y") auto
  next
    case False
    with "1.prems" have "lrs z = max (lrs x) (lrs y)" by (auto split: if_splits)
    then show ?thesis by auto
  qed
qed simp_all

lemma inter_list_correct:
  assumes "lrs_ok xs" "lrs_ok ys"
  shows "lrs_ok (inter_list xs ys)
    \<and> (\<Union>z \<in> set (inter_list xs ys). lr_members z)
      = (\<Union>x \<in> set xs. lr_members x) \<inter> (\<Union>y \<in> set ys. lr_members y)"
  using assms
proof (induction xs ys rule: inter_list.induct)
  case (1 x xs y ys)
  let ?i = "\<lparr>lr_startLineNumber = max (lrs x) (lrs y), lr_endLineNumberExclusive = min (lre x) (lre y)\<rparr>"
  let ?rest = "if lre x < lre y then inter_list xs (y # ys) else inter_list (x # xs) ys"
  have later: "min (lre x) (lre y) < lrs z" if "z \<in> set ?rest" for z
  proof (cases "lre x < lre y")
    case True
    with that inter_list_elem [of z xs "y # ys"] obtain x' where "x' \<in> set xs" "lrs x' \<le> lrs z" by auto
    with "1.prems"(1) True show ?thesis by (fastforce simp: lrs_ok_Cons)
  next
    case False
    with that inter_list_elem [of z "x # xs" ys] obtain y' where "y' \<in> set ys" "lrs y' \<le> lrs z" by auto
    with "1.prems"(2) False show ?thesis by (fastforce simp: lrs_ok_Cons)
  qed
  have IH: "lrs_ok ?rest \<and> (\<Union>z \<in> set ?rest. lr_members z)
      = (if lre x < lre y then (\<Union>x \<in> set xs. lr_members x) \<inter> (\<Union>y \<in> set (y # ys). lr_members y)
         else (\<Union>x \<in> set (x # xs). lr_members x) \<inter> (\<Union>y \<in> set ys. lr_members y))"
    using 1 by (auto simp: lrs_ok_Cons Let_def)
  have inter: "lr_members x \<inter> lr_members y = (if max (lrs x) (lrs y) < min (lre x) (lre y) then lr_members ?i else {})"
    by (auto simp: lr_members_def iv_def)
  have miss_x: "lr_members x \<inter> (\<Union>y \<in> set ys. lr_members y) = {}" if "lre x < lre y"
    using that "1.prems"(2) by (force simp: lrs_ok_Cons lr_members_def iv_def)
  have miss_y: "lr_members y \<inter> (\<Union>x \<in> set xs. lr_members x) = {}" if "\<not> lre x < lre y"
    using that "1.prems"(1) by (force simp: lrs_ok_Cons lr_members_def iv_def)
  have "lrs_ok (inter_list (x # xs) (y # ys))"
    using IH later by (auto simp: Let_def lrs_ok_Cons split: if_splits)
  moreover have "(\<Union>z \<in> set (inter_list (x # xs) (y # ys)). lr_members z)
      = (lr_members x \<inter> lr_members y) \<union> (\<Union>z \<in> set ?rest. lr_members z)"
    unfolding inter by (auto simp: Let_def)
  moreover have "\<dots> = (\<Union>x \<in> set (x # xs). lr_members x) \<inter> (\<Union>y \<in> set (y # ys). lr_members y)"
    unfolding IH [THEN conjunct2] using miss_x miss_y by (cases "lre x < lre y") auto
  ultimately show ?case by simp
qed auto

lemma LineRangeSet_getIntersection_correct:
  assumes "lrs_invar a" "lrs_invar b"
  shows "\<exists>u. LineRangeSet_getIntersection a b = Inr u \<and> lrs_invar u \<and> lrs_members u = lrs_members a \<inter> lrs_members b"
  using inter_list_correct [of "lrs_normalizedRanges a" "lrs_normalizedRanges b"] assms
  by (simp add: LineRangeSet_getIntersection_def inter_loop_eq lrs_invar_def lrs_members_def ivs_map_set)

section \<open>Difference\<close>

fun subtract_list :: "LineRange list \<Rightarrow> int \<Rightarrow> LineRange list" where
  "subtract_list [] s = []"
| "subtract_list (r # rs) s =
     (if lrs r > s then [\<lparr>lr_startLineNumber = s, lr_endLineNumberExclusive = lrs r\<rparr>] else [])
       @ subtract_list rs (lre r)"

definition subtract_end :: "LineRange list \<Rightarrow> int \<Rightarrow> int" where
  "subtract_end rs s = (if rs = [] then s else lre (last rs))"

lemma subtract_loop_eq: "subtract_loop rs s acc = Inr (acc @ subtract_list rs s, subtract_end rs s)"
  by (induction rs arbitrary: s acc) (auto simp: subtract_end_def)

lemma subtract_list_correct:
  assumes "lrs_ok rs" "\<forall>r \<in> set rs. s \<le> lre r" "\<forall>r \<in> set rs. lrs r \<le> e"
  shows "lrs_ok (subtract_list rs s)"
    and "\<forall>z \<in> set (subtract_list rs s). s \<le> lrs z \<and> (rs \<noteq> [] \<longrightarrow> lre z < subtract_end rs s)"
    and "(\<Union>z \<in> set (subtract_list rs s). lr_members z) \<union> {subtract_end rs s ..< e}
      = {s..<e} - (\<Union>r \<in> set rs. lr_members r)"
  using assms
proof (induction rs arbitrary: s)
  case Nil
  {
    case 1 show ?case by simp
  next
    case 2 show ?case by simp
  next
    case 3 show ?case by (simp add: subtract_end_def)
  }
next
  case (Cons r rs)
  have pre: "lrs_ok rs" "\<forall>x \<in> set rs. lre r \<le> lre x" "\<forall>x \<in> set rs. lrs x \<le> e" "lrs r < lre r"
    if "lrs_ok (r # rs)" "\<forall>x \<in> set (r # rs). lrs x \<le> e"
  proof -
    show ok: "lrs_ok rs" and "\<forall>x \<in> set rs. lrs x \<le> e" "lrs r < lre r" using that by (auto simp: lrs_ok_Cons)
    show "\<forall>x \<in> set rs. lre r \<le> lre x"
    proof
      fix x assume x: "x \<in> set rs"
      have "lre r < lrs x" using that(1) x by (simp add: lrs_ok_Cons)
      moreover have "lrs x < lre x" using ok x by (simp add: lrs_ok_def)
      ultimately show "lre r \<le> lre x" by simp
    qed
  qed
  have fin: "subtract_end (r # rs) t = subtract_end rs (lre r)" for t
    by (simp add: subtract_end_def)
  have ge: "lre r \<le> subtract_end rs (lre r)" if "lrs_ok (r # rs)" "\<forall>x \<in> set (r # rs). lrs x \<le> e"
    using pre [OF that] by (simp add: subtract_end_def)
  {
    case 1
    have ok: "lrs_ok (subtract_list rs (lre r))"
      and lo: "\<forall>z \<in> set (subtract_list rs (lre r)). lre r \<le> lrs z"
      using Cons.IH(1,2) [OF pre(1-3)] 1 by blast+
    then show ?case using pre(4) [OF 1(1,3)] by (auto simp: lrs_ok_Cons)
  next
    case 2
    have lo: "\<forall>z \<in> set (subtract_list rs (lre r)). lre r \<le> lrs z \<and> (rs \<noteq> [] \<longrightarrow> lre z < subtract_end rs (lre r))"
      using Cons.IH(2) [OF pre(1-3)] 2 by blast
    show ?case
    proof
      fix z assume z: "z \<in> set (subtract_list (r # rs) s)"
      show "s \<le> lrs z \<and> (r # rs \<noteq> [] \<longrightarrow> lre z < subtract_end (r # rs) s)"
      proof (cases "z \<in> set (subtract_list rs (lre r))")
        case True
        then have "rs \<noteq> []" by auto
        with True lo have "lre r \<le> lrs z" "lre z < subtract_end rs (lre r)" by auto
        moreover have "s \<le> lre r" using 2(2) by simp
        ultimately show ?thesis by (simp add: fin)
      next
        case False
        with z have "lrs z = s" "lre z = lrs r" by (auto split: if_splits)
        then show ?thesis using pre(4) [OF 2(1,3)] ge [OF 2(1,3)] by (simp add: fin)
      qed
    qed
  next
    case 3
    have IH: "(\<Union>z \<in> set (subtract_list rs (lre r)). lr_members z) \<union> {subtract_end rs (lre r) ..< e}
      = {lre r..<e} - (\<Union>r \<in> set rs. lr_members r)"
      using Cons.IH(3) [OF pre(1-3)] 3 by blast
    let ?U = "\<Union>r \<in> set rs. lr_members r" and ?P = "if s < lrs r then {s..<lrs r} else {}"
    have U: "n \<notin> ?U" if "n < lrs r" for n
      using that 3(1) by (force simp: lrs_ok_Cons lr_members_def iv_def)
    have "(\<Union>z \<in> set (subtract_list (r # rs) s). lr_members z) \<union> {subtract_end (r # rs) s ..< e}
        = ?P \<union> ({lre r..<e} - ?U)"
      unfolding fin IH [symmetric] by (auto simp: lr_members_def iv_def)
    also have "\<dots> = {s..<e} - (lr_members r \<union> ?U)"
      using U 3 by (auto simp: lr_members_def iv_def lrs_ok_Cons)
    finally show ?case by simp
  }
qed

lemma LineRangeSet_subtractFrom_correct:
  assumes "lrs_invar s" "lr_valid r"
  shows "\<exists>d. LineRangeSet_subtractFrom s r = Inr d \<and> lrs_members d = lr_members r - lrs_members s
    \<and> (\<not> LineRange_isEmpty r \<longrightarrow> lrs_invar d)"
proof -
  let ?xs = "lrs_normalizedRanges s"
  have ok: "lrs_ok ?xs" using assms(1) by (simp add: lrs_invar_def)
  have r: "lrs r \<le> lre r" using assms(2) by (simp add: lr_valid_def)
  obtain L M R where xs: "?xs = L @ M @ R"
    and i: "joinRangeStartIdx r ?xs = int (length L)"
    and j: "joinRangeEndIdxExclusive r ?xs = int (length L + length M)"
    and pL: "\<forall>x \<in> set L. lre x < lrs r"
    and pM: "\<forall>x \<in> set M. lrs r \<le> lre x \<and> lrs x \<le> lre r"
    and pR: "\<forall>x \<in> set R. lre r < lrs x"
    using r by (auto intro: joinRange_split [OF ok, of r])
  have other: "lr_members r - lrs_members s = lr_members r - (\<Union>x \<in> set M. lr_members x)"
    using pL pR by (force simp: lrs_members_def ivs_map_set xs lr_members_def iv_def)
  show ?thesis
  proof (cases "M = []")
    case True
    then have "LineRangeSet_subtractFrom s r = Inr (new_LineRangeSet [r])"
      by (simp add: LineRangeSet_subtractFrom_def i j Let_def)
    with True r show ?thesis
      by (auto simp: other) (auto simp: lrs_members_def lr_members_def lrs_invar_def lrs_ok_Cons LineRange_isEmpty_def)
  next
    case False
    have okM: "lrs_ok M" using ok by (simp add: xs lrs_ok_append)
    note sub = subtract_list_correct [OF okM, of "lrs r" "lre r"]
    let ?acc = "subtract_list M (lrs r)" and ?e = "subtract_end M (lrs r)"
    let ?l = "if ?e < lre r then [\<lparr>lr_startLineNumber = ?e, lr_endLineNumberExclusive = lre r\<rparr>] else []"
    have slice: "take (nat (int (length L + length M) - int (length L))) (drop (nat (int (length L))) ?xs) = M"
      by (simp add: xs)
    have "LineRangeSet_subtractFrom s r = Inr (new_LineRangeSet (?acc @ ?l))"
      using False unfolding LineRangeSet_subtractFrom_def i j Let_def slice
      by (simp add: subtract_loop_eq)
    moreover have "lrs_members (new_LineRangeSet (?acc @ ?l)) = lr_members r - (\<Union>x \<in> set M. lr_members x)"
    proof -
      have "lrs_members (new_LineRangeSet (?acc @ ?l)) = (\<Union>z \<in> set ?acc. lr_members z) \<union> {?e ..< lre r}"
        by (auto simp: lrs_members_def ivs_map_set lr_members_def iv_def)
      then show ?thesis using sub(3) pM by (simp add: lr_members_def iv_def)
    qed
    moreover have "lrs_ok (?acc @ ?l)"
      using sub(1,2) pM False by (auto simp: lrs_ok_append lrs_ok_Cons)
    ultimately show ?thesis by (simp add: other lrs_invar_def)
  qed
qed

section \<open>Shifting and joining\<close>

lemma lrs_ok_shift:
  "lrs_ok xs \<Longrightarrow>
   lrs_ok (map (\<lambda>r. \<lparr>lr_startLineNumber = lrs r + v, lr_endLineNumberExclusive = lre r + v\<rparr>) xs)"
  by (induction xs) (auto simp: lrs_ok_Cons)

lemma LineRangeSet_getWithDelta_correct:
  assumes "lrs_invar s"
  shows "\<exists>d. LineRangeSet_getWithDelta s v = Inr d \<and> lrs_invar d \<and> lrs_members d = (\<lambda>n. n + v) ` lrs_members s"
proof -
  let ?xs = "lrs_normalizedRanges s"
  let ?f = "\<lambda>r. \<lparr>lr_startLineNumber = lrs r + v, lr_endLineNumberExclusive = lre r + v\<rparr>"
  have ok: "lrs_ok ?xs" using assms by (simp add: lrs_invar_def)
  have "LineRangeSet_getWithDelta s v = Inr (new_LineRangeSet (map ?f ?xs))"
  proof -
    have "rmap (\<lambda>r. LineRange_delta r v) ?xs = Inr (map ?f ?xs)"
      using ok by (intro rmap_Inr) (auto simp: LineRange_delta_def lrs_ok_def dest!: bspec)
    then show ?thesis by (simp add: LineRangeSet_getWithDelta_def)
  qed
  moreover have "lrs_ok (map ?f ?xs)"
    using ok by (rule lrs_ok_shift)
  moreover have "lr_members (?f r) = (\<lambda>n. n + v) ` lr_members r" for r
    by (auto simp: lr_members_def iv_def image_iff intro: bexI [of _ "_ - v"])
  then have "lrs_members (new_LineRangeSet (map ?f ?xs)) = (\<lambda>n. n + v) ` lrs_members s"
    by (simp add: lrs_members_def ivs_map_set image_UN del: map_map)
  ultimately show ?thesis by (simp add: lrs_invar_def)
qed

lemma LineRange_joinMany_correct:
  assumes "\<forall>xs \<in> set xss. lrs_ok xs"
  shows "\<exists>rs. LineRange_joinMany xss = Inr rs \<and> lrs_ok rs
    \<and> ivs (map lr_iv rs) = (\<Union>xs \<in> set xss. ivs (map lr_iv xs))"
proof -
  have loop: "\<exists>u. rfold (\<lambda>x acc. LineRangeSet_getUnion acc (new_LineRangeSet x)) yss s = Inr u \<and> lrs_invar u
      \<and> lrs_members u = lrs_members s \<union> (\<Union>xs \<in> set yss. ivs (map lr_iv xs))"
    if "lrs_invar s" "\<forall>xs \<in> set yss. lrs_ok xs" for s yss
    using that
  proof (induction yss arbitrary: s)
    case (Cons y yss)
    obtain t where "LineRangeSet_getUnion s (new_LineRangeSet y) = Inr t" "lrs_invar t"
      "lrs_members t = lrs_members s \<union> ivs (map lr_iv y)"
      using LineRangeSet_getUnion_correct [of s "new_LineRangeSet y"] Cons.prems
      by (auto simp: lrs_invar_def lrs_members_def)
    with Cons.IH [of t] Cons.prems(2) show ?case by auto
  qed simp
  show ?thesis
  proof (cases xss)
    case (Cons x yss)
    with loop [of "new_LineRangeSet x" yss] assms show ?thesis
      by (auto simp: LineRange_joinMany_def lrs_invar_def lrs_members_def)
  qed (simp add: LineRange_joinMany_def)
qed

lemma LineRange_subtract_correct:
  assumes "lr_valid a" "lr_valid b"
  shows "\<exists>rs. LineRange_subtract a (Some b) = Inr rs \<and> (\<forall>r \<in> set rs. lr_valid r)
    \<and> (\<Union>r \<in> set rs. lr_members r) = lr_members a - lr_members b"
  using assms by (auto simp: LineRange_subtract_def lr_valid_def lr_members_def iv_def)

section \<open>Properties\<close>

text \<open>C26: a \<^verbatim>\<open>LineRangeSet\<close> filled by \<^verbatim>\<open>addRange\<close> with any ranges in any order never throws, stays
  normalized (sorted, non-empty ranges with gaps between them), \<^verbatim>\<open>contains\<close> exactly the lines of the
  ranges, and \<^verbatim>\<open>intersects\<close> exactly the non-empty ranges that share a line with it and the empty ranges that stand between two of its lines.\<close>

theorem line_range_set_is_set:
  assumes "\<forall>r \<in> set rs. lr_valid r" "lr_valid q"
  shows "\<exists>s. rfold LineRangeSet_addRange rs (new_LineRangeSet []) = Inr s \<and> lrs_invar s
    \<and> (\<forall>n. LineRangeSet_contains s n \<longleftrightarrow> (\<exists>r \<in> set rs. LineRange_contains r n))
    \<and> (LineRangeSet_intersects s q \<longleftrightarrow>
         (if LineRange_isEmpty q then LineRangeSet_contains s (lrs q - 1) \<and> LineRangeSet_contains s (lrs q)
          else \<exists>r \<in> set rs. \<exists>n. LineRange_contains r n \<and> LineRange_contains q n))"
proof -
  obtain s where s: "rfold LineRangeSet_addRange rs (new_LineRangeSet []) = Inr s" "lrs_invar s"
    "lrs_members s = lrs_members (new_LineRangeSet []) \<union> (\<Union>r \<in> set rs. lr_members r)"
    using line_set.add_all_ok [OF line_set.invar_empty assms(1)] by blast
  have m: "lrs_members s = {n. \<exists>r \<in> set rs. LineRange_contains r n}"
    using s(3) by (auto simp: line_set.members_empty lr_members_contains)
  note c = LineRangeSet_contains_correct [OF s(2)]
  have "LineRangeSet_intersects s q \<longleftrightarrow> (if LineRange_isEmpty q then LineRangeSet_contains s (lrs q - 1) \<and> LineRangeSet_contains s (lrs q)
          else \<exists>r \<in> set rs. \<exists>n. LineRange_contains r n \<and> LineRange_contains q n)"
  proof (cases "LineRange_isEmpty q")
    case True
    then show ?thesis using LineRangeSet_intersects_empty [OF s(2), of q] c by (simp add: LineRange_isEmpty_def)
  next
    case False
    then have "lrs q < lre q" using assms(2) by (simp add: lr_valid_def LineRange_isEmpty_def)
    from LineRangeSet_intersects_correct [OF s(2) this] False show ?thesis unfolding m lr_members_contains by auto
  qed
  with s(1,2) c m show ?thesis by (intro exI [of _ s]) simp
qed

theorem line_range_set_is_set_witness:
  "\<exists>s. rfold LineRangeSet_addRange [\<lparr>lr_startLineNumber = 5, lr_endLineNumberExclusive = 7\<rparr>,
         \<lparr>lr_startLineNumber = 7, lr_endLineNumberExclusive = 9\<rparr>] (new_LineRangeSet []) = Inr s
     \<and> LineRangeSet_contains s 6 \<and> LineRangeSet_contains s 8 \<and> \<not> LineRangeSet_contains s 9"
proof -
  let ?rs = "[\<lparr>lr_startLineNumber = 5, lr_endLineNumberExclusive = 7\<rparr>, \<lparr>lr_startLineNumber = 7, lr_endLineNumberExclusive = 9\<rparr>]"
  show ?thesis
    using line_range_set_is_set [of ?rs "\<lparr>lr_startLineNumber = 1, lr_endLineNumberExclusive = 2\<rparr>"]
    by (auto simp: lr_valid_def LineRange_isEmpty_def LineRange_contains_def)
qed

text \<open>C27: \<^verbatim>\<open>getUnion\<close>, \<^verbatim>\<open>getIntersection\<close> and \<^verbatim>\<open>getWithDelta\<close> on normalized sets never throw, return
  normalized sets and are union, intersection and translation of the lines the sets contain.\<close>

theorem line_range_set_algebra:
  assumes "lrs_invar a" "lrs_invar b"
  shows "\<exists>u i d. LineRangeSet_getUnion a b = Inr u \<and> LineRangeSet_getIntersection a b = Inr i
    \<and> LineRangeSet_getWithDelta a v = Inr d \<and> lrs_invar u \<and> lrs_invar i \<and> lrs_invar d
    \<and> (\<forall>n. (LineRangeSet_contains u n \<longleftrightarrow> LineRangeSet_contains a n \<or> LineRangeSet_contains b n)
        \<and> (LineRangeSet_contains i n \<longleftrightarrow> LineRangeSet_contains a n \<and> LineRangeSet_contains b n)
        \<and> (LineRangeSet_contains d n \<longleftrightarrow> LineRangeSet_contains a (n - v)))"
proof -
  obtain u where u: "LineRangeSet_getUnion a b = Inr u" "lrs_invar u" "lrs_members u = lrs_members a \<union> lrs_members b"
    using LineRangeSet_getUnion_correct [OF assms] by blast
  obtain i where i: "LineRangeSet_getIntersection a b = Inr i" "lrs_invar i" "lrs_members i = lrs_members a \<inter> lrs_members b"
    using LineRangeSet_getIntersection_correct [OF assms] by blast
  obtain d where d: "LineRangeSet_getWithDelta a v = Inr d" "lrs_invar d" "lrs_members d = (\<lambda>n. n + v) ` lrs_members a"
    using LineRangeSet_getWithDelta_correct [OF assms(1)] by blast
  have "n \<in> lrs_members d \<longleftrightarrow> n - v \<in> lrs_members a" for n using d(3) by force
  then show ?thesis
    using u i d by - (rule exI [of _ u], rule exI [of _ i], rule exI [of _ d],
      simp add: LineRangeSet_contains_correct [OF assms(1)] LineRangeSet_contains_correct [OF assms(2)]
        LineRangeSet_contains_correct)
qed

theorem line_range_set_algebra_witness:
  "\<exists>u. LineRangeSet_getUnion (new_LineRangeSet [\<lparr>lr_startLineNumber = 1, lr_endLineNumberExclusive = 3\<rparr>])
         (new_LineRangeSet [\<lparr>lr_startLineNumber = 3, lr_endLineNumberExclusive = 4\<rparr>]) = Inr u
     \<and> lrs_invar u \<and> LineRangeSet_contains u 3"
proof -
  have "lrs_invar (new_LineRangeSet [\<lparr>lr_startLineNumber = 1, lr_endLineNumberExclusive = 3\<rparr>])"
    "lrs_invar (new_LineRangeSet [\<lparr>lr_startLineNumber = 3, lr_endLineNumberExclusive = 4\<rparr>])"
    by (simp_all add: lrs_invar_def lrs_ok_Cons)
  moreover from this have "LineRangeSet_contains (new_LineRangeSet [\<lparr>lr_startLineNumber = 3, lr_endLineNumberExclusive = 4\<rparr>]) 3"
    by (simp add: LineRangeSet_contains_correct lrs_members_def iv_def)
  ultimately show ?thesis using line_range_set_algebra [where v = 0] by blast
qed

text \<open>\<^verbatim>\<open>subtractFrom\<close> leaves exactly the lines of the range that are not in the set, \<^verbatim>\<open>LineRange.subtract\<close>
  those of a range that are not in another one, and \<^verbatim>\<open>joinMany\<close> merges any number of normalized lists
  into one normalized list with the same lines.\<close>

theorem line_range_differences_and_joins:
  assumes "lrs_invar s" "lr_valid r" "lr_valid q" "\<forall>xs \<in> set xss. lrs_ok xs"
  shows "\<exists>d ds js. LineRangeSet_subtractFrom s r = Inr d \<and> LineRange_subtract r (Some q) = Inr ds
    \<and> LineRange_joinMany xss = Inr js \<and> lrs_ok js
    \<and> lrs_members d = {n. LineRange_contains r n \<and> \<not> LineRangeSet_contains s n}
    \<and> (\<forall>n. (\<exists>x \<in> set ds. LineRange_contains x n) \<longleftrightarrow> LineRange_contains r n \<and> \<not> LineRange_contains q n)
    \<and> (\<forall>n. (\<exists>x \<in> set js. LineRange_contains x n) \<longleftrightarrow> (\<exists>xs \<in> set xss. \<exists>x \<in> set xs. LineRange_contains x n))"
proof -
  obtain d where d: "LineRangeSet_subtractFrom s r = Inr d" "lrs_members d = lr_members r - lrs_members s"
    using LineRangeSet_subtractFrom_correct [OF assms(1,2)] by blast
  obtain ds where ds: "LineRange_subtract r (Some q) = Inr ds" "(\<Union>x \<in> set ds. lr_members x) = lr_members r - lr_members q"
    using LineRange_subtract_correct [OF assms(2,3)] by blast
  obtain js where js: "LineRange_joinMany xss = Inr js" "lrs_ok js"
    "ivs (map lr_iv js) = (\<Union>xs \<in> set xss. ivs (map lr_iv xs))"
    using LineRange_joinMany_correct [OF assms(4)] by blast
  have "lrs_members d = {n. LineRange_contains r n \<and> \<not> LineRangeSet_contains s n}"
    using d(2) LineRangeSet_contains_correct [OF assms(1)] by (auto simp: lr_members_contains)
  moreover have "\<forall>n. (\<exists>x \<in> set ds. LineRange_contains x n) \<longleftrightarrow> LineRange_contains r n \<and> \<not> LineRange_contains q n"
    using ds(2) by (auto simp: lr_members_contains set_eq_iff)
  moreover have "\<forall>n. (\<exists>x \<in> set js. LineRange_contains x n) \<longleftrightarrow> (\<exists>xs \<in> set xss. \<exists>x \<in> set xs. LineRange_contains x n)"
    using js(3) by (simp add: ivs_map_set lr_members_contains set_eq_iff)
  ultimately show ?thesis using d(1) ds(1) js(1,2) by blast
qed

theorem line_range_differences_and_joins_witness:
  "\<exists>d js. LineRangeSet_subtractFrom (new_LineRangeSet [\<lparr>lr_startLineNumber = 2, lr_endLineNumberExclusive = 3\<rparr>])
         \<lparr>lr_startLineNumber = 1, lr_endLineNumberExclusive = 4\<rparr> = Inr d \<and> 1 \<in> lrs_members d \<and> 2 \<notin> lrs_members d
     \<and> LineRange_joinMany [[\<lparr>lr_startLineNumber = 2, lr_endLineNumberExclusive = 3\<rparr>]] = Inr js \<and> lrs_ok js"
proof -
  let ?s = "new_LineRangeSet [\<lparr>lr_startLineNumber = 2, lr_endLineNumberExclusive = 3\<rparr>]"
    and ?r = "\<lparr>lr_startLineNumber = 1, lr_endLineNumberExclusive = 4\<rparr>"
    and ?xss = "[[\<lparr>lr_startLineNumber = 2, lr_endLineNumberExclusive = 3\<rparr>]]"
  have s: "lrs_invar ?s" "lr_valid ?r" "\<forall>xs \<in> set ?xss. lrs_ok xs"
    by (simp_all add: lrs_invar_def lrs_ok_Cons lr_valid_def)
  have "\<not> LineRangeSet_contains ?s 1" "LineRangeSet_contains ?s 2"
    using LineRangeSet_contains_correct [OF s(1)] by (simp_all add: lrs_members_def iv_def)
  moreover have "LineRange_contains ?r 1" by (simp add: LineRange_contains_def)
  ultimately show ?thesis using line_range_differences_and_joins [OF s(1,2,2,3)] by fastforce
qed

end
