(* ===== verification/Text_Length.thy ===== *)
theory Text_Length
  imports Text_Range
begin

text \<open>
  \<^verbatim>\<open>src/vs/editor/common/core/textLength.ts\<close>: the extent of a text as a number of line breaks and the length of
  what follows the last one.  \<^verbatim>\<open>ofText\<close> iterates over the string with \<^verbatim>\<open>for ... of\<close>, that is over its
  code points; \<open>tlen\<close> is the reference that counts UTF-16 code units, the unit columns have
  everywhere else.  Lengths act on positions: the lemmas are those of a monoid action.
\<close>

section \<open>The class TextLength\<close>

record TextLength =
  lineCount :: int
  columnCount :: int

abbreviation new_TextLength :: "int \<Rightarrow> int \<Rightarrow> TextLength" where
  "new_TextLength l c \<equiv> \<lparr>lineCount = l, columnCount = c\<rparr>"

definition TextLength_zero :: TextLength where
  "TextLength_zero = new_TextLength 0 0"

definition TextLength_isZero :: "TextLength \<Rightarrow> bool" where
  "TextLength_isZero a \<longleftrightarrow> lineCount a = 0 \<and> columnCount a = 0"

definition TextLength_isLessThan :: "TextLength \<Rightarrow> TextLength \<Rightarrow> bool" where
  "TextLength_isLessThan a b =
     (if lineCount a \<noteq> lineCount b then lineCount a < lineCount b else columnCount a < columnCount b)"

definition TextLength_isGreaterThan :: "TextLength \<Rightarrow> TextLength \<Rightarrow> bool" where
  "TextLength_isGreaterThan a b =
     (if lineCount a \<noteq> lineCount b then lineCount a > lineCount b else columnCount a > columnCount b)"

definition TextLength_isGreaterThanOrEqualTo :: "TextLength \<Rightarrow> TextLength \<Rightarrow> bool" where
  "TextLength_isGreaterThanOrEqualTo a b =
     (if lineCount a \<noteq> lineCount b then lineCount a > lineCount b else columnCount a \<ge> columnCount b)"

definition TextLength_equals :: "TextLength \<Rightarrow> TextLength \<Rightarrow> bool" where
  "TextLength_equals a b \<longleftrightarrow> lineCount a = lineCount b \<and> columnCount a = columnCount b"

definition TextLength_compare :: "TextLength \<Rightarrow> TextLength \<Rightarrow> int" where
  "TextLength_compare a b =
     (if lineCount a \<noteq> lineCount b then lineCount a - lineCount b else columnCount a - columnCount b)"

definition TextLength_lengthDiffNonNegative :: "TextLength \<Rightarrow> TextLength \<Rightarrow> TextLength" where
  "TextLength_lengthDiffNonNegative a b =
     (if TextLength_isLessThan b a then TextLength_zero
      else if lineCount a = lineCount b then new_TextLength 0 (columnCount b - columnCount a)
      else new_TextLength (lineCount b - lineCount a) (columnCount b))"

definition TextLength_betweenPositions :: "Position \<Rightarrow> Position \<Rightarrow> TextLength" where
  "TextLength_betweenPositions p q =
     (if lineNumber p = lineNumber q then new_TextLength 0 (column q - column p)
      else new_TextLength (lineNumber q - lineNumber p) (column q - 1))"

definition TextLength_fromPosition :: "Position \<Rightarrow> TextLength" where
  "TextLength_fromPosition p = new_TextLength (lineNumber p - 1) (column p - 1)"

definition TextLength_ofRange :: "'a Range_scheme \<Rightarrow> TextLength" where
  "TextLength_ofRange r = TextLength_betweenPositions (Range_getStartPosition r) (Range_getEndPosition r)"

text \<open>The string iterator of ECMAScript: a high surrogate and the low surrogate behind it are one
  item.\<close>

fun code_points :: "js_string \<Rightarrow> js_string list" where
  "code_points [] = []"
| "code_points [c] = [[c]]"
| "code_points (c # d # s) =
     (if is_high_surrogate c \<and> is_low_surrogate d then [c, d] # code_points s else [c] # code_points (d # s))"

abbreviation LF :: code_unit where
  "LF \<equiv> 10"

fun ofText_loop :: "js_string list \<Rightarrow> int \<Rightarrow> int \<Rightarrow> TextLength" where
  "ofText_loop [] l c = new_TextLength l c"
| "ofText_loop (x # xs) l c = (if x = [LF] then ofText_loop xs (l + 1) 0 else ofText_loop xs l (c + 1))"

definition TextLength_ofText :: "js_string \<Rightarrow> TextLength" where
  "TextLength_ofText t = ofText_loop (code_points t) 0 0"

definition TextLength_add :: "TextLength \<Rightarrow> TextLength \<Rightarrow> TextLength" where
  "TextLength_add a b =
     (if lineCount b = 0 then new_TextLength (lineCount a) (columnCount a + columnCount b)
      else new_TextLength (lineCount a + lineCount b) (columnCount b))"

definition TextLength_createRange :: "TextLength \<Rightarrow> Position \<Rightarrow> Range" where
  "TextLength_createRange a p =
     (if lineCount a = 0 then new_Range (lineNumber p) (column p) (lineNumber p) (column p + columnCount a)
      else new_Range (lineNumber p) (column p) (lineNumber p + lineCount a) (columnCount a + 1))"

definition TextLength_toRange :: "TextLength \<Rightarrow> Range" where
  "TextLength_toRange a = new_Range 1 1 (lineCount a + 1) (columnCount a + 1)"

definition TextLength_addToPosition :: "TextLength \<Rightarrow> Position \<Rightarrow> Position" where
  "TextLength_addToPosition a p =
     (if lineCount a = 0 then new_Position (lineNumber p) (column p + columnCount a)
      else new_Position (lineNumber p + lineCount a) (columnCount a + 1))"

definition TextLength_addToRange :: "TextLength \<Rightarrow> 'a Range_scheme \<Rightarrow> Range" where
  "TextLength_addToRange a r =
     Range_fromPositions (TextLength_addToPosition a (Range_getStartPosition r))
       (TextLength_addToPosition a (Range_getEndPosition r))"

section \<open>Order\<close>

instantiation TextLength_ext :: (linorder) linorder
begin

definition less_eq_TextLength_ext :: "'a TextLength_ext \<Rightarrow> 'a TextLength_ext \<Rightarrow> bool" where
  "a \<le> b \<longleftrightarrow> lineCount a < lineCount b \<or> lineCount a = lineCount b \<and> (columnCount a < columnCount b
     \<or> columnCount a = columnCount b \<and> TextLength.more a \<le> TextLength.more b)"

definition less_TextLength_ext :: "'a TextLength_ext \<Rightarrow> 'a TextLength_ext \<Rightarrow> bool" where
  "a < b \<longleftrightarrow> lineCount a < lineCount b \<or> lineCount a = lineCount b \<and> (columnCount a < columnCount b
     \<or> columnCount a = columnCount b \<and> TextLength.more a < TextLength.more b)"

instance
  by standard (auto simp: less_eq_TextLength_ext_def less_TextLength_ext_def)

end

lemma TextLength_order_iff [range_defs]:
  "(a :: TextLength) \<le> b \<longleftrightarrow> lineCount a < lineCount b \<or> lineCount a = lineCount b \<and> columnCount a \<le> columnCount b"
  "(a :: TextLength) < b \<longleftrightarrow> lineCount a < lineCount b \<or> lineCount a = lineCount b \<and> columnCount a < columnCount b"
  by (auto simp: less_eq_TextLength_ext_def less_TextLength_ext_def)

lemma TextLength_compare_order:
  "TextLength_isLessThan a b \<longleftrightarrow> a < b" "TextLength_isGreaterThan a b \<longleftrightarrow> b < a"
  "TextLength_isGreaterThanOrEqualTo a b \<longleftrightarrow> b \<le> a" "TextLength_equals a b \<longleftrightarrow> a = b"
  "TextLength_compare a b < 0 \<longleftrightarrow> a < b" "TextLength_compare a b = 0 \<longleftrightarrow> a = b"
  by (auto simp: TextLength_isLessThan_def TextLength_isGreaterThan_def TextLength_isGreaterThanOrEqualTo_def
      TextLength_equals_def TextLength_compare_def TextLength_order_iff)

interpretation text_length_cmp: comparator_laws TextLength_compare
proof
  show "sgn (TextLength_compare a b) = - sgn (TextLength_compare b a)" for a b
    by (simp add: TextLength_compare_def sgn_if)
  show "TextLength_compare a c \<le> 0"
    if "TextLength_compare a b \<le> 0" "TextLength_compare b c \<le> 0" for a b c
    using that by (auto simp: TextLength_compare_def split: if_splits)
qed

section \<open>Lengths are a monoid that acts on positions\<close>

definition tl_nonneg :: "TextLength \<Rightarrow> bool" where
  "tl_nonneg a \<longleftrightarrow> 0 \<le> lineCount a \<and> 0 \<le> columnCount a"

lemma TextLength_add_zero [simp]:
  "TextLength_add TextLength_zero a = a" "TextLength_add a TextLength_zero = a"
  by (simp_all add: TextLength_add_def TextLength_zero_def)

lemma TextLength_add_assoc:
  "tl_nonneg b \<Longrightarrow> tl_nonneg c \<Longrightarrow>
   TextLength_add (TextLength_add a b) c = TextLength_add a (TextLength_add b c)"
  by (auto simp: TextLength_add_def tl_nonneg_def)

lemma TextLength_addToPosition_zero [simp]: "TextLength_addToPosition TextLength_zero p = p"
  by (simp add: TextLength_addToPosition_def TextLength_zero_def)

lemma TextLength_addToPosition_add:
  "tl_nonneg a \<Longrightarrow> tl_nonneg b \<Longrightarrow>
   TextLength_addToPosition (TextLength_add a b) p = TextLength_addToPosition b (TextLength_addToPosition a p)"
  by (auto simp: TextLength_add_def TextLength_addToPosition_def tl_nonneg_def)

lemma TextLength_between_add [simp]:
  "TextLength_addToPosition (TextLength_betweenPositions p q) p = q"
  by (simp add: TextLength_betweenPositions_def TextLength_addToPosition_def)

lemma TextLength_add_between [simp]:
  "TextLength_betweenPositions p (TextLength_addToPosition a p) = a"
  by (simp add: TextLength_betweenPositions_def TextLength_addToPosition_def)

lemma TextLength_addToPosition_ge: "tl_nonneg a \<Longrightarrow> p \<le> TextLength_addToPosition a p"
  by (auto simp: TextLength_addToPosition_def tl_nonneg_def Position_le_iff)

lemma TextLength_diff_add:
  "tl_nonneg b \<Longrightarrow> TextLength_lengthDiffNonNegative a (TextLength_add a b) = b"
  by (auto simp: TextLength_lengthDiffNonNegative_def TextLength_add_def TextLength_isLessThan_def tl_nonneg_def)

lemma TextLength_createRange_ends:
  assumes "tl_nonneg a"
  shows "Range_getStartPosition (TextLength_createRange a p) = p"
    and "Range_getEndPosition (TextLength_createRange a p) = TextLength_addToPosition a p"
  using assms by (auto simp: TextLength_createRange_def TextLength_addToPosition_def tl_nonneg_def new_Range_def
      Range_getStartPosition_def Range_getEndPosition_def)

section \<open>The length of a string\<close>

text \<open>The reference: line feeds, and the code units behind the last of them.\<close>

fun tlen_from :: "TextLength \<Rightarrow> js_string \<Rightarrow> TextLength" where
  "tlen_from a [] = a"
| "tlen_from a (c # s) =
     tlen_from (if c = LF then new_TextLength (lineCount a + 1) 0
                else new_TextLength (lineCount a) (columnCount a + 1)) s"

definition tlen :: "js_string \<Rightarrow> TextLength" where
  "tlen s = tlen_from TextLength_zero s"

text \<open>No character of the string needs two code units.\<close>

definition no_pairs :: "js_string \<Rightarrow> bool" where
  "no_pairs s \<longleftrightarrow> list_all (\<lambda>c. length c = 1) (code_points s)"

lemma tlen_from_nonneg: "tl_nonneg a \<Longrightarrow> tl_nonneg (tlen_from a s)"
  by (induction s arbitrary: a) (auto simp: tl_nonneg_def)

lemma tlen_nonneg [simp]: "tl_nonneg (tlen s)"
  unfolding tlen_def by (rule tlen_from_nonneg) (simp add: tl_nonneg_def TextLength_zero_def)

lemma tlen_from_eq: "tl_nonneg a \<Longrightarrow> tlen_from a s = TextLength_add a (tlen s)"
proof (induction s arbitrary: a)
  case (Cons c s)
  let ?u = "if c = LF then new_TextLength 1 0 else new_TextLength 0 1"
  have u: "tl_nonneg ?u" by (simp add: tl_nonneg_def)
  have step: "tlen_from b (c # s) = tlen_from (TextLength_add b ?u) s" for b
    by (simp add: TextLength_add_def)
  have "tlen (c # s) = TextLength_add ?u (tlen s)"
    using Cons.IH [OF u] by (simp add: tlen_def step del: tlen_from.simps)
  moreover have "tl_nonneg (TextLength_add a ?u)"
    using Cons.prems by (simp add: TextLength_add_def tl_nonneg_def)
  ultimately show ?case using Cons.IH Cons.prems u by (simp add: step TextLength_add_assoc del: tlen_from.simps)
qed (simp add: tlen_def)

lemma tlen_Nil [simp]: "tlen [] = TextLength_zero"
  by (simp add: tlen_def)

lemma tlen_append: "tlen (s @ t) = TextLength_add (tlen s) (tlen t)"
proof -
  have "tlen_from a (s @ t) = tlen_from (tlen_from a s) t" for a
    by (induction s arbitrary: a) simp_all
  then show ?thesis by (simp add: tlen_def) (metis tlen_def tlen_from_eq tlen_nonneg)
qed

lemma tlen_single: "tlen [c] = (if c = LF then new_TextLength 1 0 else new_TextLength 0 1)"
  by (simp add: tlen_def TextLength_zero_def)

lemma tlen_Cons: "tlen (c # s) = TextLength_add (if c = LF then new_TextLength 1 0 else new_TextLength 0 1) (tlen s)"
  using tlen_append [of "[c]" s] by (simp add: tlen_single)

lemma ofText_loop_eq: "no_pairs s \<Longrightarrow> ofText_loop (code_points s) (lineCount a) (columnCount a) = tlen_from a s"
proof (induction s arbitrary: a rule: code_points.induct)
  case (3 c d s)
  then have "\<not> (is_high_surrogate c \<and> is_low_surrogate d)" by (auto simp: no_pairs_def)
  moreover from this 3 have "no_pairs (d # s)" by (auto simp: no_pairs_def split: if_splits)
  ultimately show ?case
    using 3(2) [of "new_TextLength (lineCount a + 1) 0"] 3(2) [of "new_TextLength (lineCount a) (columnCount a + 1)"]
    by auto
qed (auto simp: TextLength.equality)

lemma TextLength_ofText_tlen: "no_pairs s \<Longrightarrow> TextLength_ofText s = tlen s"
  using ofText_loop_eq [of s TextLength_zero] by (simp add: TextLength_ofText_def tlen_def TextLength_zero_def)

section \<open>Properties\<close>

text \<open>lengths add up like texts and act on positions: \<^verbatim>\<open>ofText\<close> of a concatenation is the sum of the
  lengths, moving a position by a sum is moving it twice, \<^verbatim>\<open>betweenPositions\<close> recovers the length that was
  added, and \<^verbatim>\<open>lengthDiffNonNegative\<close> the summand (for texts without surrogate pairs, which
  \<^verbatim>\<open>ofText\<close> counts as one column).\<close>

theorem text_length_action:
  assumes "no_pairs s" "no_pairs t" "no_pairs (s @ t)"
  shows "TextLength_ofText (s @ t) = TextLength_add (TextLength_ofText s) (TextLength_ofText t)
    \<and> TextLength_addToPosition (TextLength_ofText (s @ t)) p
        = TextLength_addToPosition (TextLength_ofText t) (TextLength_addToPosition (TextLength_ofText s) p)
    \<and> TextLength_betweenPositions p (TextLength_addToPosition (TextLength_ofText s) p) = TextLength_ofText s
    \<and> TextLength_lengthDiffNonNegative (TextLength_ofText s) (TextLength_ofText (s @ t)) = TextLength_ofText t
    \<and> Range_getEndPosition (TextLength_createRange (TextLength_ofText s) p) = TextLength_addToPosition (TextLength_ofText s) p"
  using assms
  by (simp add: TextLength_ofText_tlen tlen_append TextLength_addToPosition_add TextLength_diff_add
      TextLength_createRange_ends)

theorem text_length_action_witness:
  "TextLength_ofText ([97, 10] @ [98, 99]) = TextLength_add (TextLength_ofText [97, 10]) (TextLength_ofText [98, 99])
   \<and> TextLength_addToPosition (TextLength_ofText ([97, 10] @ [98, 99])) (new_Position 3 7)
       = TextLength_addToPosition (TextLength_ofText [98, 99]) (TextLength_addToPosition (TextLength_ofText [97, 10]) (new_Position 3 7))
   \<and> TextLength_betweenPositions (new_Position 3 7) (TextLength_addToPosition (TextLength_ofText [97, 10]) (new_Position 3 7))
       = new_TextLength 1 0"
proof -
  have "no_pairs [97, 10]" "no_pairs [98, 99]" "no_pairs ([97, 10] @ [98, 99])"
    by (simp_all add: no_pairs_def is_high_surrogate_def)
  moreover have "TextLength_ofText [97, 10] = new_TextLength 1 0"
    by (simp add: TextLength_ofText_def is_high_surrogate_def)
  ultimately show ?thesis using text_length_action [of "[97, 10]" "[98, 99]" "new_Position 3 7"] by auto
qed

end
