(* ===== verification/Position_Offset.thy ===== *)
theory Position_Offset
  imports Text_Length Offset_Range
begin

text \<open>
  \<^verbatim>\<open>src/vs/editor/common/core/positionToOffset.ts\<close>: the class \<^verbatim>\<open>PositionOffsetTransformer\<close> translates between positions
  and offsets of a string with an array of line starts and a binary search.  \<^verbatim>\<open>NaN\<close>, which the code computes
  for a line outside of the text or for a negative offset, is \<open>None\<close>.  The lemmas relate the
  class to the reference \<open>pos_at\<close>: the position of an offset is the text length of the
  characters before it, added to the position (1, 1).
\<close>

section \<open>The class PositionOffsetTransformer\<close>

record PositionOffsetTransformer =
  pot_text :: js_string
  lineStartOffsetByLineIdx :: "int list"

fun lineStart_loop :: "js_string \<Rightarrow> int \<Rightarrow> int list \<Rightarrow> int list" where
  "lineStart_loop [] i acc = acc"
| "lineStart_loop (c # s) i acc = lineStart_loop s (i + 1) (if c = LF then acc @ [i + 1] else acc)"

definition new_PositionOffsetTransformer :: "js_string \<Rightarrow> PositionOffsetTransformer" where
  "new_PositionOffsetTransformer t = \<lparr>pot_text = t, lineStartOffsetByLineIdx = lineStart_loop t 0 [0]\<rparr>"

definition PositionOffsetTransformer_getOffset :: "PositionOffsetTransformer \<Rightarrow> Position \<Rightarrow> int option" where
  "PositionOffsetTransformer_getOffset this p =
     (case js_at (lineStartOffsetByLineIdx this) (lineNumber p - 1) of
        None \<Rightarrow> None
      | Some s \<Rightarrow> Some (s + column p - 1))"

text \<open>With a \<^verbatim>\<open>NaN\<close> bound the comparison in the constructor of \<^verbatim>\<open>OffsetRange\<close> is false and nothing is
  thrown; such a range is \<open>None\<close>.\<close>

definition PositionOffsetTransformer_getOffsetRange ::
    "PositionOffsetTransformer \<Rightarrow> 'a Range_scheme \<Rightarrow> OffsetRange option result" where
  "PositionOffsetTransformer_getOffsetRange this r =
     (case (PositionOffsetTransformer_getOffset this (Range_getStartPosition r),
            PositionOffsetTransformer_getOffset this (Range_getEndPosition r)) of
        (Some a, Some b) \<Rightarrow> rbind (new_OffsetRange a b) (\<lambda>x. Inr (Some x))
      | _ \<Rightarrow> Inr None)"

definition PositionOffsetTransformer_getPosition :: "PositionOffsetTransformer \<Rightarrow> int \<Rightarrow> Position option" where
  "PositionOffsetTransformer_getPosition this offset =
     (let starts = lineStartOffsetByLineIdx this;
          idx = findLastIdxMonotonous starts (on_elem (\<lambda>i. i \<le> offset)) 0 (int (length starts))
      in case js_at starts idx of
           None \<Rightarrow> None
         | Some s \<Rightarrow> Some (new_Position (idx + 1) (offset - s + 1)))"

definition PositionOffsetTransformer_getRange :: "PositionOffsetTransformer \<Rightarrow> OffsetRange \<Rightarrow> Range option" where
  "PositionOffsetTransformer_getRange this r =
     (case (PositionOffsetTransformer_getPosition this (start r),
            PositionOffsetTransformer_getPosition this (endExclusive r)) of
        (Some p, Some q) \<Rightarrow> Some (Range_fromPositions p q)
      | _ \<Rightarrow> None)"

definition PositionOffsetTransformer_getTextLength :: "PositionOffsetTransformer \<Rightarrow> OffsetRange \<Rightarrow> TextLength option" where
  "PositionOffsetTransformer_getTextLength this r =
     map_option TextLength_ofRange (PositionOffsetTransformer_getRange this r)"

definition PositionOffsetTransformer_textLength :: "PositionOffsetTransformer \<Rightarrow> TextLength option" where
  "PositionOffsetTransformer_textLength this =
     (let lineIdx = int (length (lineStartOffsetByLineIdx this)) - 1
      in case js_at (lineStartOffsetByLineIdx this) lineIdx of
           None \<Rightarrow> None
         | Some s \<Rightarrow> Some (new_TextLength lineIdx (int (length (pot_text this)) - s)))"

section \<open>Reference: positions of offsets\<close>

definition pos_at :: "js_string \<Rightarrow> nat \<Rightarrow> Position" where
  "pos_at s k = TextLength_addToPosition (tlen (take k s)) (new_Position 1 1)"

abbreviation line_starts :: "js_string \<Rightarrow> int list" where
  "line_starts s \<equiv> lineStart_loop s 0 [0]"

lemma pos_at_eq: "pos_at s k = new_Position (lineCount (tlen (take k s)) + 1) (columnCount (tlen (take k s)) + 1)"
  using tlen_nonneg [of "take k s"] by (auto simp: pos_at_def TextLength_addToPosition_def tl_nonneg_def)

lemma lineStart_loop_append:
  "lineStart_loop (s @ t) i acc = lineStart_loop t (i + int (length s)) (lineStart_loop s i acc)"
  by (induction s arbitrary: i acc) (simp_all add: add.assoc)

lemma lineStart_loop_acc: "lineStart_loop s i acc = acc @ lineStart_loop s i []"
proof (induction s arbitrary: i acc)
  case (Cons c s)
  show ?case by (simp add: Cons [of _ "acc @ _"] Cons [of _ "[_]"] Cons [of "i + 1" acc])
qed simp

lemma lineStart_loop_bounds: "x \<in> set (lineStart_loop s i []) \<Longrightarrow> i < x \<and> x \<le> i + int (length s)"
proof (induction s arbitrary: i)
  case (Cons c s)
  then have "x = i + 1 \<or> x \<in> set (lineStart_loop s (i + 1) [])"
    by (auto simp: lineStart_loop_acc [of _ _ "[_]"] split: if_splits)
  with Cons.IH [of "i + 1"] show ?case by auto
qed simp

lemma line_starts_split:
  assumes "k \<le> length s"
  shows "\<exists>rest. line_starts s = line_starts (take k s) @ rest \<and> (\<forall>x \<in> set rest. int k < x)"
proof -
  have "line_starts s = lineStart_loop (drop k s) (int k) (line_starts (take k s))"
    using lineStart_loop_append [of "take k s" "drop k s" 0 "[0]"] assms by (simp add: min_absorb2)
  also have "\<dots> = line_starts (take k s) @ lineStart_loop (drop k s) (int k) []"
    by (rule lineStart_loop_acc)
  finally show ?thesis using lineStart_loop_bounds by blast
qed

lemma line_starts_last:
  "int (length (line_starts s)) = lineCount (tlen s) + 1
   \<and> last (line_starts s) = int (length s) - columnCount (tlen s)
   \<and> (\<forall>x \<in> set (line_starts s). x \<le> int (length s))"
proof (induction s rule: rev_induct)
  case (snoc c s)
  have "0 \<le> lineCount (tlen s)" using tlen_nonneg [of s] by (simp add: tl_nonneg_def)
  with snoc show ?case
    by (auto simp: lineStart_loop_append tlen_append tlen_single TextLength_add_def)
qed (simp add: TextLength_zero_def)

lemma line_starts_nonempty [simp]: "line_starts s \<noteq> []"
  by (simp add: lineStart_loop_acc [of _ _ "[_]"])

lemma line_starts_at:
  assumes "k \<le> length s"
  shows "js_at (line_starts s) (lineCount (tlen (take k s))) = Some (int k - columnCount (tlen (take k s)))"
proof -
  let ?u = "take k s"
  obtain rest where r: "line_starts s = line_starts ?u @ rest" using line_starts_split [OF assms] by blast
  have u: "int (length (line_starts ?u)) = lineCount (tlen ?u) + 1"
    "last (line_starts ?u) = int k - columnCount (tlen ?u)" using line_starts_last [of ?u] assms by simp_all
  then have "nat (lineCount (tlen ?u)) = length (line_starts ?u) - 1" by linarith
  then have "line_starts s ! nat (lineCount (tlen ?u)) = last (line_starts ?u)"
    by (simp add: r nth_append last_conv_nth)
  moreover have "0 \<le> lineCount (tlen ?u)" "lineCount (tlen ?u) < int (length (line_starts s))"
    using u tlen_nonneg [of ?u] by (simp_all add: tl_nonneg_def r)
  ultimately show ?thesis using u by (simp add: js_at_def)
qed

lemma getOffset_pos_at:
  "k \<le> length s \<Longrightarrow>
   PositionOffsetTransformer_getOffset (new_PositionOffsetTransformer s) (pos_at s k) = Some (int k)"
  by (simp add: PositionOffsetTransformer_getOffset_def new_PositionOffsetTransformer_def pos_at_eq line_starts_at)

lemma getPosition_pos_at:
  assumes "k \<le> length s"
  shows "PositionOffsetTransformer_getPosition (new_PositionOffsetTransformer s) (int k) = Some (pos_at s k)"
proof -
  let ?u = "take k s" and ?p = "on_elem (\<lambda>i. i \<le> int k)"
  obtain rest where r: "line_starts s = line_starts ?u @ rest" "\<forall>x \<in> set rest. int k < x"
    using line_starts_split [OF assms] by blast
  have u: "\<forall>x \<in> set (line_starts ?u). x \<le> int k" and len: "int (length (line_starts ?u)) = lineCount (tlen ?u) + 1"
    using line_starts_last [of ?u] assms by simp_all
  have at: "j < length (line_starts s) \<Longrightarrow> ?p (Some (line_starts s ! j)) \<longleftrightarrow> j < length (line_starts ?u)" for j
  proof (cases "j < length (line_starts ?u)")
    case False
    moreover assume "j < length (line_starts s)"
    ultimately have "rest ! (j - length (line_starts ?u)) \<in> set rest" by (simp add: r(1))
    with False r show ?thesis by (auto simp: nth_append not_le)
  qed (use u r in \<open>auto simp: nth_append\<close>)
  then have mono: "true_then_false (line_starts s) ?p 0 (int (length (line_starts s)))"
    by (intro true_then_false_natI) (use le_less_trans in blast)
  obtain n where n: "n \<le> length (line_starts s)"
    "findLastIdxMonotonous (line_starts s) ?p 0 (int (length (line_starts s))) = int n - 1"
    "\<And>j. j < length (line_starts s) \<Longrightarrow> ?p (Some (line_starts s ! j)) \<longleftrightarrow> j < n"
    using findLastIdxMonotonous_nat [OF mono] by blast
  have "n = length (line_starts ?u)"
  proof (rule antisym)
    have le: "length (line_starts ?u) \<le> length (line_starts s)" using r(1) by simp
    show "n \<le> length (line_starts ?u)"
      using at [of "length (line_starts ?u)"] n(1) n(3) [of "length (line_starts ?u)"] by (cases "length (line_starts ?u) < length (line_starts s)") auto
    show "length (line_starts ?u) \<le> n"
      using at [of n] n(3) [of n] le n(1) by (cases "n < length (line_starts s)") auto
  qed
  with n(2) len have "findLastIdxMonotonous (line_starts s) ?p 0 (int (length (line_starts s))) = lineCount (tlen ?u)"
    by simp
  with line_starts_at [OF assms] show ?thesis
    by (simp add: PositionOffsetTransformer_getPosition_def new_PositionOffsetTransformer_def pos_at_eq)
qed

lemma textLength_tlen:
  "PositionOffsetTransformer_textLength (new_PositionOffsetTransformer s) = Some (tlen s)"
  using line_starts_at [of "length s" s] line_starts_last [of s]
  by (simp add: PositionOffsetTransformer_textLength_def new_PositionOffsetTransformer_def Let_def)

lemma pos_at_append:
  "a \<le> b \<Longrightarrow> pos_at s b = TextLength_addToPosition (tlen (take (b - a) (drop a s))) (pos_at s a)"
  unfolding pos_at_def
  by (simp add: TextLength_addToPosition_add [symmetric] tlen_append [symmetric] take_add [symmetric])

lemma pos_at_mono: "a \<le> b \<Longrightarrow> pos_at s a \<le> pos_at s b"
  using pos_at_append TextLength_addToPosition_ge tlen_nonneg by metis

lemma pos_at_inj: "a \<le> length s \<Longrightarrow> b \<le> length s \<Longrightarrow> pos_at s a = pos_at s b \<longleftrightarrow> a = b"
  using getOffset_pos_at by (metis nat_int option.inject)

lemma pos_at_le_iff: "a \<le> length s \<Longrightarrow> b \<le> length s \<Longrightarrow> pos_at s a \<le> pos_at s b \<longleftrightarrow> a \<le> b"
  using pos_at_mono pos_at_inj by (metis linorder_linear order_antisym)

lemma pos_at_0: "pos_at s 0 = new_Position 1 1"
  by (simp add: pos_at_def)

lemma getTextLength_tlen:
  assumes "a \<le> b" "b \<le> length s"
  shows "PositionOffsetTransformer_getTextLength (new_PositionOffsetTransformer s) \<lparr>start = int a, endExclusive = int b\<rparr>
    = Some (tlen (take (b - a) (drop a s)))"
  using assms getPosition_pos_at [of a s] getPosition_pos_at [of b s] pos_at_mono [OF assms(1), of s]
  by (simp add: PositionOffsetTransformer_getTextLength_def PositionOffsetTransformer_getRange_def
      TextLength_ofRange_def pos_at_append [OF assms(1)] TextLength_addToPosition_ge)

section \<open>Lines\<close>

text \<open>The lines of a text, and the text made of lines; a valid position names a line of the text and
  a column between 1 and one more than the length of that line.\<close>

fun text_lines :: "js_string \<Rightarrow> js_string list" where
  "text_lines [] = [[]]"
| "text_lines (c # s) = (if c = LF then [] # text_lines s else (c # hd (text_lines s)) # tl (text_lines s))"

fun join_lines :: "js_string list \<Rightarrow> js_string" where
  "join_lines [] = []"
| "join_lines [l] = l"
| "join_lines (l # m # ls) = l @ LF # join_lines (m # ls)"

definition pos_valid :: "js_string \<Rightarrow> Position \<Rightarrow> bool" where
  "pos_valid s p \<longleftrightarrow> 1 \<le> lineNumber p \<and> lineNumber p \<le> int (length (text_lines s))
     \<and> 1 \<le> column p \<and> column p \<le> int (length (text_lines s ! nat (lineNumber p - 1))) + 1"

text \<open>The number of characters before line \<open>k\<close> (from 0).\<close>

definition line_offset :: "js_string list \<Rightarrow> nat \<Rightarrow> nat" where
  "line_offset ls k = (\<Sum>l\<leftarrow>take k ls. length l + 1)"

lemma text_lines_ne [simp]: "text_lines s \<noteq> []"
  by (induction s) simp_all

lemma join_text_lines [simp]: "join_lines (text_lines s) = s"
proof (induction s)
  case (Cons c s)
  obtain l ls where "text_lines s = l # ls" using text_lines_ne [of s] by (cases "text_lines s") auto
  with Cons show ?case by (cases ls) auto
qed simp

lemma text_lines_no_LF: "l \<in> set (text_lines s) \<Longrightarrow> LF \<notin> set l"
proof (induction s arbitrary: l)
  case (Cons c s)
  obtain m ms where "text_lines s = m # ms" using text_lines_ne [of s] by (cases "text_lines s") auto
  with Cons show ?case by (auto split: if_splits)
qed simp

lemma text_lines_append: "LF \<notin> set l \<Longrightarrow> text_lines (l @ LF # s) = l # text_lines s"
  by (induction l) auto

lemma text_lines_single: "LF \<notin> set l \<Longrightarrow> text_lines l = [l]"
  by (induction l) auto

lemma text_lines_join: "ls \<noteq> [] \<Longrightarrow> \<forall>l \<in> set ls. LF \<notin> set l \<Longrightarrow> text_lines (join_lines ls) = ls"
  by (induction ls rule: join_lines.induct) (auto simp: text_lines_single text_lines_append)

lemma tlen_line: "LF \<notin> set l \<Longrightarrow> tlen l = new_TextLength 0 (int (length l))"
  by (induction l rule: rev_induct) (auto simp: tlen_append tlen_single TextLength_add_def TextLength_zero_def)

lemma tlen_take_line: "LF \<notin> set l \<Longrightarrow> j \<le> length l \<Longrightarrow> tlen (take j l) = new_TextLength 0 (int j)"
  by (subst tlen_line) (auto dest: in_set_takeD)

lemma tlen_line_LF: "LF \<notin> set l \<Longrightarrow> tlen (l @ LF # s) = TextLength_add (new_TextLength 1 0) (tlen s)"
  using tlen_append [of l "LF # s"] tlen_Cons [of LF s] tlen_nonneg [of s]
  by (auto simp: tlen_line TextLength_add_def tl_nonneg_def)

lemma line_offset_simps [simp]:
  "line_offset ls 0 = 0" "line_offset (l # ls) (Suc k) = length l + 1 + line_offset ls k"
  by (simp_all add: line_offset_def)

text \<open>Line \<open>k\<close>, column \<open>j\<close> is at the offset \<open>line_offset ls k + j\<close>.\<close>

lemma take_join_lines:
  assumes "\<forall>l \<in> set ls. LF \<notin> set l" "k < length ls" "j \<le> length (ls ! k)"
  shows "line_offset ls k + j \<le> length (join_lines ls)
    \<and> tlen (take (line_offset ls k + j) (join_lines ls)) = new_TextLength (int k) (int j)"
  using assms
proof (induction ls arbitrary: k rule: join_lines.induct)
  case (2 l)
  then show ?case by (auto simp: tlen_take_line)
next
  case (3 l m ls)
  show ?case
  proof (cases k)
    case 0
    with 3 show ?thesis by (auto simp: tlen_take_line)
  next
    case (Suc k')
    have IH: "line_offset (m # ls) k' + j \<le> length (join_lines (m # ls))
      \<and> tlen (take (line_offset (m # ls) k' + j) (join_lines (m # ls))) = new_TextLength (int k') (int j)"
      using 3 Suc by auto
    moreover have "tlen (take (line_offset (l # m # ls) k + j) (join_lines (l # m # ls)))
        = tlen (l @ LF # take (line_offset (m # ls) k' + j) (join_lines (m # ls)))"
      using Suc by (simp add: take_Cons')
    ultimately show ?thesis using Suc 3 by (simp add: tlen_line_LF TextLength_add_def)
  qed
qed simp

lemma pos_at_lines:
  assumes "\<forall>l \<in> set ls. LF \<notin> set l" "k < length ls" "j \<le> length (ls ! k)"
  shows "pos_at (join_lines ls) (line_offset ls k + j) = new_Position (int k + 1) (int j + 1)"
  using take_join_lines [OF assms] by (simp add: pos_at_eq)

lemma line_offset_cover:
  assumes "ls \<noteq> []" "x \<le> length (join_lines ls)"
  obtains k j where "k < length ls" "j \<le> length (ls ! k)" "x = line_offset ls k + j"
  using assms
proof (induction ls arbitrary: x thesis rule: join_lines.induct)
  case (2 l)
  then show ?case by (force intro: "2.prems"(1) [of 0 x])
next
  case (3 l m ls)
  show ?case
  proof (cases "x \<le> length l")
    case True
    then show ?thesis by (intro "3.prems"(1) [of 0 x]) auto
  next
    case False
    then have "x - (length l + 1) \<le> length (join_lines (m # ls))" using "3.prems" by simp
    with "3.IH" obtain k j where "k < length (m # ls)" "j \<le> length ((m # ls) ! k)"
      "x - (length l + 1) = line_offset (m # ls) k + j" by blast
    with False show ?thesis by (intro "3.prems"(1) [of "Suc k" j]) auto
  qed
qed simp

lemma pos_valid_iff: "pos_valid s p \<longleftrightarrow> (\<exists>k \<le> length s. p = pos_at s k)"
proof
  let ?ls = "text_lines s"
  have lf: "\<forall>l \<in> set ?ls. LF \<notin> set l" using text_lines_no_LF by blast
  {
    assume p: "pos_valid s p"
    let ?k = "nat (lineNumber p - 1)" and ?j = "nat (column p - 1)"
    have "?k < length ?ls" "?j \<le> length (?ls ! ?k)" using p by (auto simp: pos_valid_def)
    from take_join_lines [OF lf this] pos_at_lines [OF lf this] p
    show "\<exists>k \<le> length s. p = pos_at s k"
      by (intro exI [of _ "line_offset ?ls ?k + ?j"]) (auto simp: pos_valid_def)
  next
    assume "\<exists>k \<le> length s. p = pos_at s k"
    then obtain x where "x \<le> length s" "p = pos_at s x" by blast
    moreover from this obtain k j where "k < length ?ls" "j \<le> length (?ls ! k)" "x = line_offset ?ls k + j"
      using line_offset_cover [of ?ls x] by auto
    ultimately show "pos_valid s p" using pos_at_lines [OF lf, of k j] by (auto simp: pos_valid_def)
  }
qed

section \<open>Properties\<close>

text \<open>C33: every offset of a text has a position, the position is valid, and \<^verbatim>\<open>getOffset\<close> leads back to
  the offset.\<close>

theorem offset_position_offset:
  assumes "0 \<le> k" "k \<le> int (length s)"
  shows "\<exists>p. PositionOffsetTransformer_getPosition (new_PositionOffsetTransformer s) k = Some p \<and> pos_valid s p
    \<and> PositionOffsetTransformer_getOffset (new_PositionOffsetTransformer s) p = Some k"
proof -
  have k: "nat k \<le> length s" using assms by simp
  then have "pos_valid s (pos_at s (nat k))" using pos_valid_iff by blast
  then show ?thesis using getPosition_pos_at [OF k] getOffset_pos_at [OF k] assms(1) by simp
qed

theorem offset_position_offset_witness:
  "\<exists>p. PositionOffsetTransformer_getPosition (new_PositionOffsetTransformer [97, 10, 98]) 2 = Some p
     \<and> pos_valid [97, 10, 98] p \<and> PositionOffsetTransformer_getOffset (new_PositionOffsetTransformer [97, 10, 98]) p = Some 2"
  using offset_position_offset [of 2 "[97, 10, 98]"] by simp

text \<open>C34: every valid position of a text has an offset inside the text, \<^verbatim>\<open>getPosition\<close> leads back to the
  position, and the order of positions is the order of offsets.\<close>

theorem position_offset_position:
  assumes "pos_valid s p" "pos_valid s q"
  shows "\<exists>j k. PositionOffsetTransformer_getOffset (new_PositionOffsetTransformer s) p = Some j
    \<and> PositionOffsetTransformer_getOffset (new_PositionOffsetTransformer s) q = Some k
    \<and> 0 \<le> j \<and> j \<le> int (length s) \<and> (Position_isBefore p q \<longleftrightarrow> j < k)
    \<and> PositionOffsetTransformer_getPosition (new_PositionOffsetTransformer s) j = Some p"
proof -
  obtain j k where j: "j \<le> length s" "p = pos_at s j" and k: "k \<le> length s" "q = pos_at s k"
    using assms pos_valid_iff by blast
  have "p < q \<longleftrightarrow> j < k" using pos_at_le_iff [OF k(1) j(1)] j k by (simp add: not_le [symmetric])
  then show ?thesis
    using getOffset_pos_at [OF j(1)] getOffset_pos_at [OF k(1)] getPosition_pos_at [OF j(1)] j k
    by - (rule exI [of _ "int j"], rule exI [of _ "int k"], simp)
qed

theorem position_offset_position_witness:
  "\<exists>j. PositionOffsetTransformer_getOffset (new_PositionOffsetTransformer [97, 10, 98]) (new_Position 2 1) = Some j
     \<and> PositionOffsetTransformer_getPosition (new_PositionOffsetTransformer [97, 10, 98]) j = Some (new_Position 2 1)"
proof -
  have "pos_valid [97, 10, 98] (new_Position 2 1)" by (simp add: pos_valid_def)
  from position_offset_position [OF this this] show ?thesis by blast
qed

text \<open>\<^verbatim>\<open>getTextLength\<close> of an offset range is the length of the text in the range, as
  \<^verbatim>\<open>TextLength.ofText\<close> computes it.\<close>

theorem getTextLength_of_range:
  assumes "0 \<le> a" "a \<le> b" "b \<le> int (length s)" "no_pairs (js_substring s a b)"
  shows "PositionOffsetTransformer_getTextLength (new_PositionOffsetTransformer s) \<lparr>start = a, endExclusive = b\<rparr>
    = Some (TextLength_ofText (js_substring s a b))"
  using getTextLength_tlen [of "nat a" "nat b" s] assms
  by (simp add: TextLength_ofText_tlen js_substring_in_range nat_le_iff nat_mono)

theorem getTextLength_of_range_witness:
  "PositionOffsetTransformer_getTextLength (new_PositionOffsetTransformer [97, 10, 98]) \<lparr>start = 1, endExclusive = 3\<rparr>
     = Some (new_TextLength 1 1)"
  using getTextLength_of_range [of 1 3 "[97, 10, 98]"]
  by (simp add: js_substring_def no_pairs_def is_high_surrogate_def TextLength_ofText_def)

end
