(* ===== verification/Offset_Edit.thy ===== *)
theory Offset_Edit
  imports Offset_Range
begin

text \<open>
  \<^verbatim>\<open>src/vs/editor/common/core/offsetEdit.ts\<close>: edits of a 0-based string.  An edit is a list of replacements of
  sorted, disjoint offset ranges; the operations apply it, invert it, compose two edits
  (\<^verbatim>\<open>joinEdits\<close>), rebase one edit over another and map offsets through an edit.  The
  operations are polymorphic in the type of the characters.
\<close>

section \<open>Single edits\<close>

record 'c SingleOffsetEdit =
  replaceRange :: OffsetRange
  newText :: "'c list"

definition new_SingleOffsetEdit :: "OffsetRange \<Rightarrow> 'c list \<Rightarrow> 'c SingleOffsetEdit" where
  "new_SingleOffsetEdit r t = \<lparr>replaceRange = r, newText = t\<rparr>"

record 'c ISingleOffsetEdit =
  json_txt :: "'c list"
  json_pos :: int
  json_len :: int

definition SingleOffsetEdit_fromJson :: "'c ISingleOffsetEdit \<Rightarrow> 'c SingleOffsetEdit result" where
  "SingleOffsetEdit_fromJson data =
     rbind (OffsetRange_ofStartAndLength (json_pos data) (json_len data)) (\<lambda>r.
       Inr (new_SingleOffsetEdit r (json_txt data)))"

definition SingleOffsetEdit_insert :: "int \<Rightarrow> 'c list \<Rightarrow> 'c SingleOffsetEdit result" where
  "SingleOffsetEdit_insert offset t =
     rbind (OffsetRange_emptyAt offset) (\<lambda>r. Inr (new_SingleOffsetEdit r t))"

definition SingleOffsetEdit_isEmpty :: "'c SingleOffsetEdit \<Rightarrow> bool" where
  "SingleOffsetEdit_isEmpty e \<longleftrightarrow> length (newText e) = 0 \<and> OffsetRange_length (replaceRange e) = 0"

abbreviation est :: "'c SingleOffsetEdit \<Rightarrow> int" where
  "est e \<equiv> start (replaceRange e)"

abbreviation een :: "'c SingleOffsetEdit \<Rightarrow> int" where
  "een e \<equiv> endExclusive (replaceRange e)"

text \<open>\<^verbatim>\<open>e.newText.length - e.replaceRange.length\<close>: by how much an edit moves the text behind it.\<close>

definition edit_delta :: "'c SingleOffsetEdit \<Rightarrow> int" where
  "edit_delta e = int (length (newText e)) - OffsetRange_length (replaceRange e)"

section \<open>The class OffsetEdit\<close>

record 'c OffsetEdit =
  edits :: "'c SingleOffsetEdit list"

text \<open>The loop of the constructor.\<close>

fun edits_sorted_from :: "int \<Rightarrow> 'c SingleOffsetEdit list \<Rightarrow> bool" where
  "edits_sorted_from lastEndEx [] \<longleftrightarrow> True"
| "edits_sorted_from lastEndEx (edit # es) \<longleftrightarrow>
     (if \<not> (est edit \<ge> lastEndEx) then False else edits_sorted_from (een edit) es)"

definition new_OffsetEdit :: "'c SingleOffsetEdit list \<Rightarrow> 'c OffsetEdit result" where
  "new_OffsetEdit es = (if edits_sorted_from (- 1) es then Inr \<lparr>edits = es\<rparr> else Inl BugIndicatingError)"

definition OffsetEdit_empty :: "'c OffsetEdit result" where
  "OffsetEdit_empty = new_OffsetEdit []"

definition OffsetEdit_fromJson :: "'c ISingleOffsetEdit list \<Rightarrow> 'c OffsetEdit result" where
  "OffsetEdit_fromJson data = rbind (rmap SingleOffsetEdit_fromJson data) new_OffsetEdit"

definition OffsetEdit_replace :: "OffsetRange \<Rightarrow> 'c list \<Rightarrow> 'c OffsetEdit result" where
  "OffsetEdit_replace r t = new_OffsetEdit [new_SingleOffsetEdit r t]"

definition OffsetEdit_insert :: "int \<Rightarrow> 'c list \<Rightarrow> 'c OffsetEdit result" where
  "OffsetEdit_insert offset t = rbind (OffsetRange_emptyAt offset) (\<lambda>r. OffsetEdit_replace r t)"

definition OffsetEdit_isEmpty :: "'c OffsetEdit \<Rightarrow> bool" where
  "OffsetEdit_isEmpty this \<longleftrightarrow> length (edits this) = 0"

text \<open>\<^verbatim>\<open>normalize\<close>: drops the empty edits and joins the touching ones.  \<open>acc\<close> is the array
  under construction, \<open>lastEdit\<close> the edit not pushed yet.\<close>

definition push_option :: "'a list \<Rightarrow> 'a option \<Rightarrow> 'a list" where
  "push_option acc x = (case x of None \<Rightarrow> acc | Some e \<Rightarrow> acc @ [e])"

fun normalize_loop :: "'c SingleOffsetEdit list \<Rightarrow> 'c SingleOffsetEdit list \<Rightarrow> 'c SingleOffsetEdit option
    \<Rightarrow> 'c SingleOffsetEdit list result" where
  "normalize_loop [] acc lastEdit = Inr (push_option acc lastEdit)"
| "normalize_loop (edit # es) acc lastEdit =
     (if length (newText edit) = 0 \<and> OffsetRange_length (replaceRange edit) = 0
      then normalize_loop es acc lastEdit
      else if (case lastEdit of None \<Rightarrow> False | Some l \<Rightarrow> een l = est edit)
      then rbind (OffsetRange_join (replaceRange (the lastEdit)) (replaceRange edit)) (\<lambda>r.
             normalize_loop es acc (Some (new_SingleOffsetEdit r (newText (the lastEdit) @ newText edit))))
      else normalize_loop es (push_option acc lastEdit) (Some edit))"

definition OffsetEdit_normalize :: "'c OffsetEdit \<Rightarrow> 'c OffsetEdit result" where
  "OffsetEdit_normalize this = rbind (normalize_loop (edits this) [] None) new_OffsetEdit"

fun apply_loop :: "'c list \<Rightarrow> 'c SingleOffsetEdit list \<Rightarrow> 'c list list \<Rightarrow> int \<Rightarrow> 'c list list" where
  "apply_loop str [] resultText p = resultText @ [js_substring_from str p]"
| "apply_loop str (edit # es) resultText p =
     apply_loop str es (resultText @ [js_substring str p (est edit), newText edit]) (een edit)"

definition OffsetEdit_apply :: "'c OffsetEdit \<Rightarrow> 'c list \<Rightarrow> 'c list" where
  "OffsetEdit_apply this str = concat (apply_loop str (edits this) [] 0)"

fun inverse_loop :: "'c list \<Rightarrow> 'c SingleOffsetEdit list \<Rightarrow> int \<Rightarrow> 'c SingleOffsetEdit list result" where
  "inverse_loop originalStr [] offset = Inr []"
| "inverse_loop originalStr (e # es) offset =
     rbind (OffsetRange_ofStartAndLength (est e + offset) (int (length (newText e)))) (\<lambda>r.
     rbind (inverse_loop originalStr es (offset + edit_delta e)) (\<lambda>rest.
       Inr (new_SingleOffsetEdit r (js_substring originalStr (est e) (een e)) # rest)))"

definition OffsetEdit_inverse :: "'c OffsetEdit \<Rightarrow> 'c list \<Rightarrow> 'c OffsetEdit result" where
  "OffsetEdit_inverse this originalStr =
     rbind (inverse_loop originalStr (edits this) 0) new_OffsetEdit"

fun newTextRanges_loop :: "'c SingleOffsetEdit list \<Rightarrow> int \<Rightarrow> OffsetRange list result" where
  "newTextRanges_loop [] offset = Inr []"
| "newTextRanges_loop (e # es) offset =
     rbind (OffsetRange_ofStartAndLength (est e + offset) (int (length (newText e)))) (\<lambda>r.
     rbind (newTextRanges_loop es (offset + edit_delta e)) (\<lambda>rest. Inr (r # rest)))"

definition OffsetEdit_getNewTextRanges :: "'c OffsetEdit \<Rightarrow> OffsetRange list result" where
  "OffsetEdit_getNewTextRanges this = newTextRanges_loop (edits this) 0"

text \<open>\<^verbatim>\<open>tryRebase\<close>: the first argument holds the edits of \<^verbatim>\<open>this\<close> from \<^verbatim>\<open>ourIdx\<close> on, the second
  those of \<^verbatim>\<open>base\<close> from \<^verbatim>\<open>baseIdx\<close> on.\<close>

fun tryRebase_loop :: "'c SingleOffsetEdit list \<Rightarrow> 'c SingleOffsetEdit list \<Rightarrow> int
    \<Rightarrow> 'c SingleOffsetEdit list \<Rightarrow> 'c SingleOffsetEdit list result" where
  "tryRebase_loop [] bases offset newEdits = Inr newEdits"
| "tryRebase_loop (ourEdit # ours) [] offset newEdits =
     rbind (OffsetRange_delta (replaceRange ourEdit) offset) (\<lambda>r.
       tryRebase_loop ours [] offset (newEdits @ [new_SingleOffsetEdit r (newText ourEdit)]))"
| "tryRebase_loop (ourEdit # ours) (baseEdit # bases) offset newEdits =
     (if OffsetRange_intersects (replaceRange ourEdit) (replaceRange baseEdit)
      then tryRebase_loop ours (baseEdit # bases) offset newEdits
      else if est ourEdit < est baseEdit
      then rbind (OffsetRange_delta (replaceRange ourEdit) offset) (\<lambda>r.
             tryRebase_loop ours (baseEdit # bases) offset
               (newEdits @ [new_SingleOffsetEdit r (newText ourEdit)]))
      else tryRebase_loop (ourEdit # ours) bases (offset + edit_delta baseEdit) newEdits)"

definition OffsetEdit_tryRebase :: "'c OffsetEdit \<Rightarrow> 'c OffsetEdit \<Rightarrow> 'c OffsetEdit result" where
  "OffsetEdit_tryRebase this base =
     rbind (tryRebase_loop (edits this) (edits base) 0 []) new_OffsetEdit"

fun applyToOffset_loop :: "'c SingleOffsetEdit list \<Rightarrow> int \<Rightarrow> int \<Rightarrow> int" where
  "applyToOffset_loop [] originalOffset accumulatedDelta = originalOffset + accumulatedDelta"
| "applyToOffset_loop (edit # es) originalOffset accumulatedDelta =
     (if est edit \<le> originalOffset
      then if originalOffset < een edit then est edit + accumulatedDelta
           else applyToOffset_loop es originalOffset (accumulatedDelta + edit_delta edit)
      else originalOffset + accumulatedDelta)"

definition OffsetEdit_applyToOffset :: "'c OffsetEdit \<Rightarrow> int \<Rightarrow> int" where
  "OffsetEdit_applyToOffset this originalOffset = applyToOffset_loop (edits this) originalOffset 0"

definition OffsetEdit_applyToOffsetRange :: "'c OffsetEdit \<Rightarrow> OffsetRange \<Rightarrow> OffsetRange result" where
  "OffsetEdit_applyToOffsetRange this originalRange =
     new_OffsetRange (OffsetEdit_applyToOffset this (start originalRange))
       (OffsetEdit_applyToOffset this (endExclusive originalRange))"

fun applyInverseToOffset_loop :: "'c SingleOffsetEdit list \<Rightarrow> int \<Rightarrow> int \<Rightarrow> int" where
  "applyInverseToOffset_loop [] postEditsOffset accumulatedDelta = postEditsOffset - accumulatedDelta"
| "applyInverseToOffset_loop (edit # es) postEditsOffset accumulatedDelta =
     (if est edit \<le> postEditsOffset - accumulatedDelta
      then if postEditsOffset - accumulatedDelta < est edit + int (length (newText edit)) then est edit
           else applyInverseToOffset_loop es postEditsOffset (accumulatedDelta + edit_delta edit)
      else postEditsOffset - accumulatedDelta)"

definition OffsetEdit_applyInverseToOffset :: "'c OffsetEdit \<Rightarrow> int \<Rightarrow> int" where
  "OffsetEdit_applyInverseToOffset this postEditsOffset =
     applyInverseToOffset_loop (edits this) postEditsOffset 0"

section \<open>The function joinEdits\<close>

text \<open>The two inner loops: \<open>join_copy\<close> copies the edits of the queue that end before \<open>edit2\<close>;
  \<open>join_touch\<close> removes those that intersect or touch it and remembers the first and the
  last of them.\<close>

fun join_copy :: "'c SingleOffsetEdit \<Rightarrow> 'c SingleOffsetEdit list \<Rightarrow> 'c SingleOffsetEdit list \<Rightarrow> int
    \<Rightarrow> 'c SingleOffsetEdit list \<times> 'c SingleOffsetEdit list \<times> int" where
  "join_copy edit2 [] res d = ([], res, d)"
| "join_copy edit2 (edit1 # queue) res d =
     (if est edit1 + d + int (length (newText edit1)) \<ge> est edit2 then (edit1 # queue, res, d)
      else join_copy edit2 queue (res @ [edit1]) (d + edit_delta edit1))"

fun join_touch :: "'c SingleOffsetEdit \<Rightarrow> 'c SingleOffsetEdit list \<Rightarrow> 'c SingleOffsetEdit option
    \<Rightarrow> 'c SingleOffsetEdit option \<Rightarrow> int
    \<Rightarrow> 'c SingleOffsetEdit list \<times> 'c SingleOffsetEdit option \<times> 'c SingleOffsetEdit option \<times> int" where
  "join_touch edit2 [] firstI lastI d = ([], firstI, lastI, d)"
| "join_touch edit2 (edit1 # queue) firstI lastI d =
     (if est edit1 + d > een edit2 then (edit1 # queue, firstI, lastI, d)
      else join_touch edit2 queue (case firstI of None \<Rightarrow> Some edit1 | Some f \<Rightarrow> Some f) (Some edit1)
             (d + edit_delta edit1))"

text \<open>The body of the loop over \<^verbatim>\<open>edits2.edits\<close>, on the state (queue, result, edit1ToEdit2):
  \<open>join_emit\<close> is the part behind the inner loops.\<close>

definition join_emit :: "'c SingleOffsetEdit \<Rightarrow> 'c SingleOffsetEdit list \<Rightarrow> int
    \<Rightarrow> 'c SingleOffsetEdit list \<times> 'c SingleOffsetEdit option \<times> 'c SingleOffsetEdit option \<times> int
    \<Rightarrow> ('c SingleOffsetEdit list \<times> 'c SingleOffsetEdit list \<times> int) result" where
  "join_emit edit2 res firstEdit1ToEdit2 st = (case st of (queue, firstI, lastI, d) \<Rightarrow>
     (case firstI of
        None \<Rightarrow> rbind (OffsetRange_delta (replaceRange edit2) (- d)) (\<lambda>r.
                  Inr (queue, res @ [new_SingleOffsetEdit r (newText edit2)], d))
      | Some f \<Rightarrow>
          let l = the lastI;
              prefixLength = est edit2 - (est f + firstEdit1ToEdit2);
              prefix = (if prefixLength > 0 then js_slice (newText f) 0 prefixLength else []);
              suffixLength = (een l + d) - een edit2
          in rbind (if suffixLength > 0
                    then rbind (OffsetRange_ofStartAndLength (een l) 0) (\<lambda>r.
                      let e = new_SingleOffsetEdit r
                                (js_slice (newText l) (- suffixLength) (int (length (newText l))))
                      in Inr (e # queue, d - edit_delta e))
                    else Inr (queue, d)) (\<lambda>(queue', d').
             rbind (new_OffsetRange (min (est f) (est edit2 - firstEdit1ToEdit2)) (een edit2 - d')) (\<lambda>r.
               Inr (queue', res @ [new_SingleOffsetEdit r (prefix @ newText edit2)], d')))))"

definition join_step :: "'c SingleOffsetEdit
    \<Rightarrow> 'c SingleOffsetEdit list \<times> 'c SingleOffsetEdit list \<times> int
    \<Rightarrow> ('c SingleOffsetEdit list \<times> 'c SingleOffsetEdit list \<times> int) result" where
  "join_step edit2 st = (case st of (queue0, res0, d0) \<Rightarrow>
     (case join_copy edit2 queue0 res0 d0 of (queue1, res, firstEdit1ToEdit2) \<Rightarrow>
        join_emit edit2 res firstEdit1ToEdit2 (join_touch edit2 queue1 None None firstEdit1ToEdit2)))"

fun join_loop :: "'c SingleOffsetEdit list
    \<Rightarrow> 'c SingleOffsetEdit list \<times> 'c SingleOffsetEdit list \<times> int
    \<Rightarrow> ('c SingleOffsetEdit list \<times> 'c SingleOffsetEdit list \<times> int) result" where
  "join_loop [] st = Inr st"
| "join_loop (edit2 # es) st = rbind (join_step edit2 st) (join_loop es)"

definition joinEdits :: "'c OffsetEdit \<Rightarrow> 'c OffsetEdit \<Rightarrow> 'c OffsetEdit result" where
  "joinEdits e1 e2 =
     rbind (OffsetEdit_normalize e1) (\<lambda>edits1.
     rbind (OffsetEdit_normalize e2) (\<lambda>edits2.
       if OffsetEdit_isEmpty edits1 then Inr edits2
       else if OffsetEdit_isEmpty edits2 then Inr edits1
       else rbind (join_loop (edits edits2) (edits edits1, [], 0)) (\<lambda>(queue, res, d).
              rbind (new_OffsetEdit (res @ queue)) OffsetEdit_normalize)))"

definition OffsetEdit_compose :: "'c OffsetEdit \<Rightarrow> 'c OffsetEdit \<Rightarrow> 'c OffsetEdit result" where
  "OffsetEdit_compose this other = joinEdits this other"

section \<open>Reference semantics\<close>

text \<open>\<open>app_at p t es\<close> applies \<open>es\<close> to the text \<open>t\<close> whose first character has offset \<open>p\<close>;
  \<open>mid p t es\<close> is the part of the result up to the end of the last edit, \<open>pend p es\<close> the offset
  behind that edit, and \<open>rest_at p t es\<close> the text that is left.  \<open>fits lo hi es\<close>: the edits are sorted,
  disjoint and lie between the offsets \<open>lo\<close> and \<open>hi\<close>.\<close>

fun app_at :: "int \<Rightarrow> 'c list \<Rightarrow> 'c SingleOffsetEdit list \<Rightarrow> 'c list" where
  "app_at p t [] = t"
| "app_at p t (e # es) = take (nat (est e - p)) t @ newText e @ app_at (een e) (drop (nat (een e - p)) t) es"

fun mid :: "int \<Rightarrow> 'c list \<Rightarrow> 'c SingleOffsetEdit list \<Rightarrow> 'c list" where
  "mid p t [] = []"
| "mid p t (e # es) = take (nat (est e - p)) t @ newText e @ mid (een e) (drop (nat (een e - p)) t) es"

fun pend :: "int \<Rightarrow> 'c SingleOffsetEdit list \<Rightarrow> int" where
  "pend p [] = p"
| "pend p (e # es) = pend (een e) es"

abbreviation rest_at :: "int \<Rightarrow> 'c list \<Rightarrow> 'c SingleOffsetEdit list \<Rightarrow> 'c list" where
  "rest_at p t es \<equiv> drop (nat (pend p es - p)) t"

fun fits :: "int \<Rightarrow> int \<Rightarrow> 'c SingleOffsetEdit list \<Rightarrow> bool" where
  "fits lo hi [] \<longleftrightarrow> lo \<le> hi"
| "fits lo hi (e # es) \<longleftrightarrow> lo \<le> est e \<and> est e \<le> een e \<and> fits (een e) hi es"

abbreviation fits_text :: "int \<Rightarrow> 'c list \<Rightarrow> 'c SingleOffsetEdit list \<Rightarrow> bool" where
  "fits_text p t es \<equiv> fits p (p + int (length t)) es"

definition total_delta :: "'c SingleOffsetEdit list \<Rightarrow> int" where
  "total_delta es = (\<Sum>e\<leftarrow>es. edit_delta e)"

definition oe_fits :: "'c OffsetEdit \<Rightarrow> 'c list \<Rightarrow> bool" where
  "oe_fits e s \<longleftrightarrow> fits_text 0 s (edits e)"

lemma total_delta_simps [simp]:
  "total_delta [] = 0" "total_delta (e # es) = edit_delta e + total_delta es"
  "total_delta (es @ fs) = total_delta es + total_delta fs"
  by (simp_all add: total_delta_def)

lemma total_delta_last: "i \<noteq> [] \<Longrightarrow> total_delta i = total_delta (butlast i) + edit_delta (last i)"
  by (induction i) auto

lemma pend_append [simp]: "pend p (es @ fs) = pend (pend p es) fs"
  by (induction es arbitrary: p) simp_all

lemma fits_le: "fits lo hi es \<Longrightarrow> lo \<le> hi"
  by (induction es arbitrary: lo) fastforce+

lemma fits_lower: "fits lo hi es \<Longrightarrow> lo' \<le> lo \<Longrightarrow> fits lo' hi es"
  by (cases es) auto

lemma fits_pend: "fits lo hi es \<Longrightarrow> lo \<le> pend lo es \<and> pend lo es \<le> hi"
  by (induction es arbitrary: lo) fastforce+

lemma fits_append: "fits lo hi (es @ fs) \<longleftrightarrow> fits lo (pend lo es) es \<and> fits (pend lo es) hi fs"
  by (induction es arbitrary: lo) auto

lemma fits_self: "fits lo hi es \<Longrightarrow> fits lo (pend lo es) es"
  by (induction es arbitrary: lo) auto

lemma fits_upper: "fits lo hi es \<Longrightarrow> hi \<le> hi' \<Longrightarrow> fits lo hi' es"
  by (induction es arbitrary: lo) auto

lemma fits_sorted: "fits lo hi es \<Longrightarrow> - 1 \<le> lo \<Longrightarrow> edits_sorted_from (- 1) es"
proof -
  have "fits lo hi es \<Longrightarrow> edits_sorted_from lo es" for lo
    by (induction es arbitrary: lo) auto
  moreover have "edits_sorted_from lo es \<Longrightarrow> lo' \<le> lo \<Longrightarrow> edits_sorted_from lo' es" for lo lo'
    by (cases es) (auto split: if_splits)
  ultimately show "fits lo hi es \<Longrightarrow> - 1 \<le> lo \<Longrightarrow> edits_sorted_from (- 1) es" by blast
qed

lemma new_OffsetEdit_fits [simp]: "fits 0 hi es \<Longrightarrow> new_OffsetEdit es = Inr \<lparr>edits = es\<rparr>"
  using fits_sorted [of 0 hi es] by (simp add: new_OffsetEdit_def)

lemma mid_append:
  "fits p (pend p es) es \<Longrightarrow> mid p t (es @ fs) = mid p t es @ mid (pend p es) (rest_at p t es) fs"
proof (induction es arbitrary: p t)
  case (Cons e es)
  then have "een e \<le> pend (een e) es" "p \<le> een e" by (auto dest: fits_pend)
  with Cons show ?case by (simp add: nat_add_distrib [symmetric])
qed simp

lemma app_at_append:
  "fits p (pend p es) es \<Longrightarrow> app_at p t (es @ fs) = mid p t es @ app_at (pend p es) (rest_at p t es) fs"
proof (induction es arbitrary: p t)
  case (Cons e es)
  then have "een e \<le> pend (een e) es" "p \<le> een e" by (auto dest: fits_pend)
  with Cons show ?case by (simp add: nat_add_distrib [symmetric])
qed simp

lemma app_at_mid: "fits p (pend p es) es \<Longrightarrow> app_at p t es = mid p t es @ rest_at p t es"
  using app_at_append [of p es t "[]"] by simp

lemma length_mid:
  "fits_text p t es \<Longrightarrow> int (length (mid p t es)) = pend p es - p + total_delta es"
proof (induction es arbitrary: p t)
  case (Cons e es)
  let ?t = "drop (nat (een e - p)) t"
  have le: "een e \<le> p + int (length t)" using Cons.prems fits_le by force
  with Cons.prems have "een e + int (length ?t) = p + int (length t)" by auto
  with Cons.prems have "fits_text (een e) ?t es" by (simp only: fits.simps)
  with Cons.IH have "int (length (mid (een e) ?t es)) = pend (een e) es - een e + total_delta es" .
  moreover have "int (length (take (nat (est e - p)) t)) = est e - p" using Cons.prems le by auto
  ultimately show ?case by (simp add: edit_delta_def OffsetRange_length_def)
qed simp

lemma length_app_at:
  "fits_text p t es \<Longrightarrow> int (length (app_at p t es)) = int (length t) + total_delta es"
proof -
  assume *: "fits_text p t es"
  have "app_at p t es = mid p t es @ rest_at p t es" by (rule app_at_mid [OF fits_self [OF *]])
  then show ?thesis using length_mid [OF *] fits_pend [OF *] by auto
qed

lemma app_at_skip:
  assumes "fits q (p + int (length t)) es" "p \<le> q"
  shows "app_at p t es = take (nat (q - p)) t @ app_at q (drop (nat (q - p)) t) es"
proof (cases es)
  case (Cons e es')
  with assms have "q \<le> est e" "est e \<le> een e" by auto
  then have "take (nat (est e - p)) t = take (nat (q - p)) t @ take (nat (est e - q)) (drop (nat (q - p)) t)"
    using assms(2) by (simp add: take_add [symmetric] nat_add_distrib [symmetric])
  with Cons \<open>q \<le> est e\<close> \<open>est e \<le> een e\<close> assms(2) show ?thesis
    by (simp add: nat_add_distrib [symmetric])
qed simp

lemma app_at_prefix:
  assumes "fits (p + int (length u)) (p + int (length u) + int (length t)) es"
  shows "app_at p (u @ t) es = u @ app_at (p + int (length u)) t es"
  using assms app_at_skip [of "p + int (length u)" p "u @ t" es] by (simp add: algebra_simps)

lemma app_at_Cons_split:
  assumes "int (length u) = est e - p" "int (length v) = een e - est e"
  shows "app_at p (u @ v @ w) (e # es) = u @ newText e @ app_at (een e) w es"
proof -
  have "nat (est e - p) = length u" "nat (een e - p) = length u + length v" using assms by auto
  then show ?thesis by simp
qed

lemma apply_loop_eq:
  "fits p (int (length s)) es \<Longrightarrow> 0 \<le> p \<Longrightarrow>
   concat (apply_loop s es acc p) = concat acc @ app_at p (drop (nat p) s) es"
proof (induction es arbitrary: p acc)
  case Nil
  then show ?case by (simp add: js_substring_from_def js_substring_in_range nat_diff_distrib)
next
  case (Cons e es)
  then have "est e \<le> int (length s)" "p \<le> een e" using fits_le by force+
  moreover from this have "nat (een e - p) + nat p = nat (een e)"
    using Cons.prems by auto
  ultimately show ?case using Cons
    by (simp add: js_substring_in_range nat_diff_distrib [of p "est e"] del: nat_diff_distrib')
qed

lemma OffsetEdit_apply_eq: "oe_fits e s \<Longrightarrow> OffsetEdit_apply e s = app_at 0 s (edits e)"
  by (simp add: oe_fits_def OffsetEdit_apply_def apply_loop_eq)


section \<open>normalize\<close>

lemma app_at_tail_cong:
  assumes "fits_text p t (xs @ ys)"
    and "app_at (pend p xs) (rest_at p t xs) ys = app_at (pend p xs) (rest_at p t xs) zs"
  shows "app_at p t (xs @ ys) = app_at p t (xs @ zs)"
  using assms by (simp add: app_at_append fits_append)

lemma fits_text_rest:
  assumes "fits_text p t (xs @ ys)"
  shows "fits_text (pend p xs) (rest_at p t xs) ys"
proof -
  have *: "fits p (pend p xs) xs" "fits (pend p xs) (p + int (length t)) ys"
    using assms by (simp_all add: fits_append)
  then have "pend p xs + int (length (rest_at p t xs)) = p + int (length t)"
    using fits_pend [OF *(1)] fits_le [OF *(2)] by auto
  with *(2) show ?thesis by (simp only:)
qed

lemma app_at_drop_empty:
  assumes "fits_text p t (e # es)" "newText e = []" "een e = est e"
  shows "app_at p t (e # es) = app_at p t es"
  using assms app_at_skip [of "een e" p t es] by simp

lemma app_at_join:
  assumes "fits_text p t (x # e # es)" "een x = est e"
  shows "app_at p t (\<lparr>replaceRange = \<lparr>start = est x, endExclusive = een e\<rparr>, newText = newText x @ newText e\<rparr> # es)
     = app_at p t (x # e # es)"
proof -
  have "nat (een e - een x) + nat (een x - p) = nat (een e - p)" using assms by auto
  with assms show ?thesis by simp
qed

lemma normalize_loop_ok:
  assumes "fits_text p t (push_option acc l @ es)" "l = None \<longrightarrow> acc = []"
  shows "\<exists>r. normalize_loop es acc l = Inr r \<and> fits_text p t r
           \<and> app_at p t r = app_at p t (push_option acc l @ es)"
  using assms
proof (induction es acc l rule: normalize_loop.induct)
  case (1 acc l)
  then show ?case by simp
next
  case (2 e es acc l)
  let ?a = "push_option acc l"
  consider (empty) "newText e = []" "een e = est e" 
    | (join) x where "\<not> (newText e = [] \<and> een e = est e)" "l = Some x" "een x = est e" 
    | (push) "\<not> (newText e = [] \<and> een e = est e)" "\<not> (case l of None \<Rightarrow> False | Some x \<Rightarrow> een x = est e)"
    by (cases l) auto
  then show ?case
  proof cases
    case empty
    have fe: "fits_text (pend p ?a) (rest_at p t ?a) (e # es)" using "2.prems" by (intro fits_text_rest) simp
    then have "fits_text (pend p ?a) (rest_at p t ?a) es" using empty by (auto intro: fits_lower)
    then have "fits_text p t (?a @ es)" using "2.prems"(1) empty by (auto simp: fits_append intro: fits_lower)
    moreover have "app_at p t (?a @ e # es) = app_at p t (?a @ es)"
      using "2.prems"(1) app_at_drop_empty [OF fe] empty by (intro app_at_tail_cong) auto
    ultimately show ?thesis using "2.IH"(1) "2.prems"(2) empty by (simp add: OffsetRange_length_def)
  next
    case join
    let ?j = "\<lparr>replaceRange = \<lparr>start = est x, endExclusive = een e\<rparr>, newText = newText x @ newText e\<rparr>"
    have f: "fits_text p t (acc @ x # e # es)" using "2.prems" join by (simp add: push_option_def)
    then have b: "est x \<le> een x" "est e \<le> een e" by (auto simp: fits_append)
    have "fits_text p t (acc @ ?j # es)" using f b join by (auto simp: fits_append)
    moreover have "app_at p t (acc @ x # e # es) = app_at p t (acc @ ?j # es)"
      using f app_at_join [OF fits_text_rest [OF f]] join by (intro app_at_tail_cong) auto
    moreover have "OffsetRange_join (replaceRange x) (replaceRange e) = Inr (replaceRange ?j)"
      using join b by (simp add: OffsetRange_join_def new_OffsetRange_def)
    ultimately show ?thesis using "2.IH"(2) join 
      by (auto simp: OffsetRange_length_def push_option_def new_SingleOffsetEdit_def)
  next
    case push
    then have "fits_text p t (push_option ?a (Some e) @ es)" using "2.prems" by (simp add: push_option_def)
    with "2.IH"(3) push show ?thesis by (auto simp: OffsetRange_length_def push_option_def)
  qed
qed

section \<open>inverse\<close>

lemma inverse_loop_ok:
  assumes "fits p (int (length s)) es" "0 \<le> p"
  shows "\<exists>inv. inverse_loop s es d = Inr inv \<and> fits_text (p + d) (app_at p (drop (nat p) s) es) inv
     \<and> app_at (p + d) (app_at p (drop (nat p) s) es) inv = drop (nat p) s"
  using assms
proof (induction es arbitrary: p d)
  case (Cons e es)
  let ?t = "drop (nat p) s" and ?u = "drop (nat (een e)) s"
  have b: "p \<le> est e" "est e \<le> een e" "een e \<le> int (length s)" "fits (een e) (int (length s)) es"
    using Cons.prems fits_le by auto
  obtain inv where inv: "inverse_loop s es (d + edit_delta e) = Inr inv"
    "fits_text (een e + (d + edit_delta e)) (app_at (een e) ?u es) inv"
    "app_at (een e + (d + edit_delta e)) (app_at (een e) ?u es) inv = ?u"
    using Cons.IH [OF b(4), of "d + edit_delta e"] b Cons.prems by auto
  let ?A = "take (nat (est e - p)) ?t" and ?R = "app_at (een e) ?u es"
  have lenA: "int (length ?A) = est e - p" using b Cons.prems by auto
  have "nat (een e - p) + nat p = nat (een e)" using b Cons.prems by auto
  then have split: "app_at p ?t (e # es) = ?A @ newText e @ ?R" by simp
  have mid_end: "est e + d + int (length (newText e)) = een e + (d + edit_delta e)"
    by (simp add: edit_delta_def OffsetRange_length_def)
  let ?new = "\<lparr>replaceRange = \<lparr>start = est e + d, endExclusive = est e + d + int (length (newText e))\<rparr>,
      newText = js_substring s (est e) (een e)\<rparr>"
  have "inverse_loop s (e # es) d = Inr (?new # inv)"
    using inv(1) by (simp add: OffsetRange_ofStartAndLength_def new_OffsetRange_def new_SingleOffsetEdit_def)
  moreover have "fits_text (p + d) (app_at p ?t (e # es)) (?new # inv)"
  proof -
    have "p + d + int (length (app_at p ?t (e # es))) = een e + (d + edit_delta e) + int (length ?R)"
      unfolding split using lenA mid_end by (simp del: length_take)
    then have "fits (est e + d + int (length (newText e))) (p + d + int (length (app_at p ?t (e # es)))) inv"
      using inv(2) mid_end by (simp only:)
    then show ?thesis using b by simp
  qed
  moreover have "app_at (p + d) (app_at p ?t (e # es)) (?new # inv) = ?t"
  proof -
    have "app_at (p + d) (app_at p ?t (e # es)) (?new # inv)
        = ?A @ js_substring s (est e) (een e) @ app_at (est e + d + int (length (newText e))) ?R inv"
      unfolding split using lenA by (subst app_at_Cons_split) (simp_all del: length_take)
    also have "\<dots> = ?A @ js_substring s (est e) (een e) @ ?u" by (simp only: mid_end inv(3))
    also have "\<dots> = ?t"
      using js_substring_append [of p "est e" "een e" s] js_substring_append [of p "een e" "int (length s)" s]
        b Cons.prems by (simp add: js_substring_in_range nat_diff_distrib flip: append_assoc)
    finally show ?thesis .
  qed
  ultimately show ?case by blast
qed simp


lemma OffsetEdit_normalize_ok:
  assumes "oe_fits e s"
  shows "\<exists>n. OffsetEdit_normalize e = Inr n \<and> oe_fits n s \<and> OffsetEdit_apply n s = OffsetEdit_apply e s"
proof -
  have "fits_text 0 s (push_option [] None @ edits e)" using assms by (simp add: oe_fits_def push_option_def)
  from normalize_loop_ok [OF this] obtain r where r: "normalize_loop (edits e) [] None = Inr r"
    "fits_text 0 s r" "app_at 0 s r = app_at 0 s (edits e)"
    by (auto simp: push_option_def)
  then have "OffsetEdit_normalize e = Inr \<lparr>edits = r\<rparr>" by (simp add: OffsetEdit_normalize_def)
  with r assms show ?thesis by (auto simp: OffsetEdit_apply_eq oe_fits_def)
qed

lemma OffsetEdit_inverse_ok:
  assumes "oe_fits e s"
  shows "\<exists>i. OffsetEdit_inverse e s = Inr i \<and> oe_fits i (OffsetEdit_apply e s)
    \<and> OffsetEdit_apply i (OffsetEdit_apply e s) = s"
proof -
  from inverse_loop_ok [of 0 s "edits e" 0] assms obtain r where r: "inverse_loop s (edits e) 0 = Inr r"
    "fits_text 0 (app_at 0 s (edits e)) r" "app_at 0 (app_at 0 s (edits e)) r = s"
    by (auto simp: oe_fits_def)
  then have "OffsetEdit_inverse e s = Inr \<lparr>edits = r\<rparr>" by (simp add: OffsetEdit_inverse_def)
  with r assms show ?thesis by (auto simp: OffsetEdit_apply_eq oe_fits_def)
qed

section \<open>joinEdits\<close>

lemma join_copy_ok:
  assumes "fits_text p t q" "fits_text (p + d) (app_at p t q) (e2 # es2)"
  shows "\<exists>c q1. join_copy e2 q res d = (q1, res @ c, d + total_delta c) \<and> q = c @ q1
    \<and> (q1 \<noteq> [] \<longrightarrow> est e2 \<le> est (hd q1) + (d + total_delta c) + int (length (newText (hd q1))))
    \<and> pend p c + (d + total_delta c) \<le> est e2"
  using assms
proof (induction q arbitrary: p t d res)
  case (Cons e1 q)
  show ?case
  proof (cases "est e1 + d + int (length (newText e1)) \<ge> est e2")
    case True
    then show ?thesis using Cons.prems by (intro exI [of _ "[]"] exI [of _ "e1 # q"]) simp
  next
    case False
    let ?t = "drop (nat (een e1 - p)) t"
    have f: "fits_text (een e1) ?t q" using fits_text_rest [of p t "[e1]" q] Cons.prems by simp
    have le: "een e1 \<le> p + int (length t)" using Cons.prems(1) fits_le by fastforce
    then have end1: "een e1 + (d + edit_delta e1) = est e1 + d + int (length (newText e1))"
      and "int (length (take (nat (est e1 - p)) t)) = est e1 - p"
      using Cons.prems(1) by (auto simp: edit_delta_def OffsetRange_length_def)
    then have "p + d + int (length (app_at p t (e1 # q)))
        = een e1 + (d + edit_delta e1) + int (length (app_at (een e1) ?t q))"
      by (simp del: length_take)
    with Cons.prems(2) have "fits (p + d) (een e1 + (d + edit_delta e1) + int (length (app_at (een e1) ?t q))) (e2 # es2)"
      by (simp only:)
    moreover have "een e1 + (d + edit_delta e1) \<le> est e2" using False end1 by linarith
    ultimately have "fits_text (een e1 + (d + edit_delta e1)) (app_at (een e1) ?t q) (e2 # es2)"
      by simp
    with Cons.IH [OF f, of "d + edit_delta e1" "res @ [e1]"] obtain c q1 where
      "join_copy e2 q (res @ [e1]) (d + edit_delta e1) = (q1, (res @ [e1]) @ c, d + edit_delta e1 + total_delta c)" "q = c @ q1"
      "q1 \<noteq> [] \<longrightarrow> est e2 \<le> est (hd q1) + (d + edit_delta e1 + total_delta c) + int (length (newText (hd q1)))"
      "pend (een e1) c + (d + edit_delta e1 + total_delta c) \<le> est e2"
      by blast
    with False show ?thesis by (intro exI [of _ "e1 # c"] exI [of _ q1]) (simp add: add.assoc)
  qed
qed (auto)

lemma join_touch_ok:
  "\<exists>i q2. join_touch e2 q f l d = (q2, (case f of None \<Rightarrow> (if i = [] then None else Some (hd i)) | Some x \<Rightarrow> Some x),
       (if i = [] then l else Some (last i)), d + total_delta i) \<and> q = i @ q2
    \<and> (q2 \<noteq> [] \<longrightarrow> een e2 < est (hd q2) + (d + total_delta i))
    \<and> (i \<noteq> [] \<longrightarrow> est (last i) + (d + total_delta (butlast i)) \<le> een e2)"
proof (induction q arbitrary: f l d)
  case (Cons e1 q)
  show ?case
  proof (cases "est e1 + d > een e2")
    case True
    then show ?thesis by (intro exI [of _ "[]"] exI [of _ "e1 # q"]) (simp split: option.split)
  next
    case False
    obtain y where y: "(case f of None \<Rightarrow> Some e1 | Some x \<Rightarrow> Some x) = Some y" by (cases f) auto
    obtain i q2 where i: "join_touch e2 q (Some y) (Some e1) (d + edit_delta e1) =
       (q2, Some y, (if i = [] then Some e1 else Some (last i)), d + edit_delta e1 + total_delta i)"
      "q = i @ q2" "q2 \<noteq> [] \<longrightarrow> een e2 < est (hd q2) + (d + edit_delta e1 + total_delta i)"
      "i \<noteq> [] \<longrightarrow> est (last i) + (d + edit_delta e1 + total_delta (butlast i)) \<le> een e2"
      using Cons.IH [of "Some y" "Some e1" "d + edit_delta e1"] by fastforce
    have "join_touch e2 (e1 # q) f l d = (q2, Some y, Some (last (e1 # i)), d + total_delta (e1 # i))"
      using False y i(1) by (simp add: add.assoc)
    moreover have "Some y = (case f of None \<Rightarrow> Some (hd (e1 # i)) | Some x \<Rightarrow> Some x)"
      using y by (cases f) auto
    ultimately show ?thesis using False i(2-4)
      by (intro exI [of _ "e1 # i"] exI [of _ q2]) (auto simp: add.assoc)
  qed
qed (auto split: option.split)


lemma app_at_Cons_cut:
  assumes "fits_text om m (e2 # es2)"
    and takeM: "take (nat (est e2 - om)) m = take (nat (a - p)) t @ prefix"
    and dropM: "drop (nat (een e2 - om)) m = m'"
  shows "app_at om m (e2 # es2) = take (nat (a - p)) t @ (prefix @ newText e2) @ app_at (een e2) m' es2"
    and "fits_text (een e2) m' es2"
proof -
  show "app_at om m (e2 # es2) = take (nat (a - p)) t @ (prefix @ newText e2) @ app_at (een e2) m' es2"
    using takeM dropM by simp
  have "fits_text (pend om [e2]) (rest_at om m [e2]) es2"
    by (rule fits_text_rest) (use assms(1) in simp)
  with dropM show "fits_text (een e2) m' es2" by simp
qed

lemma take_skip_length:
  "fits q (p + int (length t)) es \<Longrightarrow> p \<le> q \<Longrightarrow> int (length (take (nat (q - p)) t)) = q - p"
  using fits_le [of q "p + int (length t)" es] by simp

text \<open>What one pass of the loop over \<^verbatim>\<open>edits2\<close> achieves: it emits the edit \<open>E\<close>, leaves
  the queue \<open>q'\<close> for the text behind \<open>E\<close>, and the rest of \<open>edits2\<close> applies to that text.\<close>

definition emitted where
  "emitted p t d q e2 es2 q' E d' \<longleftrightarrow>
     p \<le> est E \<and> est E \<le> een E \<and> een E + d' = een e2
     \<and> fits (een E) (p + int (length t)) q'
     \<and> app_at (p + d) (app_at p t q) (e2 # es2)
         = take (nat (est E - p)) t @ newText E @ app_at (een e2) (app_at (een E) (drop (nat (een E - p)) t) q') es2
     \<and> fits_text (een e2) (app_at (een E) (drop (nat (een E - p)) t) q') es2"

lemma emittedI:
  assumes "fits_text (p + d) (app_at p t q) (e2 # es2)"
    and "take (nat (est e2 - (p + d))) (app_at p t q) = take (nat (est E - p)) t @ prefix"
    and "drop (nat (een e2 - (p + d))) (app_at p t q) = app_at (een E) (drop (nat (een E - p)) t) q'"
    and "newText E = prefix @ newText e2" "een E + d' = een e2" "p \<le> est E" "est E \<le> een E"
    and "fits (een E) (p + int (length t)) q'"
  shows "emitted p t d q e2 es2 q' E d'"
  using app_at_Cons_cut [OF assms(1-3)] assms(4-8) by (simp add: emitted_def)

lemma join_emit_none:
  assumes q: "fits_text p t q" and e2: "fits_text (p + d) (app_at p t q) (e2 # es2)"
    and far: "q \<noteq> [] \<longrightarrow> een e2 < est (hd q) + d"
  shows "\<exists>q' E d'. join_emit e2 res d (q, None, None, d) = Inr (q', res @ [E], d')
    \<and> emitted p t d q e2 es2 q' E d'"
proof -
  let ?E = "\<lparr>replaceRange = \<lparr>start = est e2 - d, endExclusive = een e2 - d\<rparr>, newText = newText e2\<rparr>"
  let ?m = "app_at p t q" and ?k = "nat (een e2 - d - p)"
  have b: "p + d \<le> est e2" "est e2 \<le> een e2" "een e2 \<le> p + d + int (length ?m)"
    using e2 fits_le by auto
  have f: "fits (een e2 - d) (p + int (length t)) q" using q far b by (cases q) auto
  then have m: "?m = take ?k t @ app_at (een e2 - d) (drop ?k t) q"
    using b by (intro app_at_skip) auto
  have len: "int (length (take ?k t)) = een e2 - d - p" using f b by (intro take_skip_length) auto
  then have "drop (nat (een e2 - (p + d))) ?m = app_at (een e2 - d) (drop ?k t) q"
    by (subst m) (simp add: algebra_simps)
  moreover have "take (nat (est e2 - (p + d))) ?m = take (nat (est e2 - d - p)) t @ []"
    using len b by (subst m) (simp add: algebra_simps min_def)
  ultimately have "emitted p t d q e2 es2 q ?E d"
    using e2 f b by (intro emittedI [where prefix = "[]"]) simp_all
  moreover have "join_emit e2 res d (q, None, None, d) = Inr (q, res @ [?E], d)"
    using b by (simp add: join_emit_def OffsetRange_delta_def new_OffsetRange_def new_SingleOffsetEdit_def)
  ultimately show ?thesis by blast
qed

lemma mid_last:
  assumes "fits p (pend p i) i" "i \<noteq> []"
  obtains u where "mid p t i = u @ newText (last i)" "pend p i = een (last i)"
proof -
  have i: "i = butlast i @ [last i]" using assms(2) by simp
  have "fits p (pend p (butlast i)) (butlast i)"
    using assms(1) by (subst (asm) (2) i) (simp add: fits_append)
  from mid_append [OF this, of t "[last i]"] i have "\<exists>u. mid p t i = u @ newText (last i)" by auto
  moreover have "pend p i = een (last i)" by (subst i) simp
  ultimately show thesis using that by blast
qed

lemma js_slice_prefix: "0 \<le> k \<Longrightarrow> k \<le> int (length xs) \<Longrightarrow> js_slice xs 0 k = take (nat k) xs"
  by (simp add: js_slice_def slice_index_def)

lemma js_slice_suffix:
  "0 < k \<Longrightarrow> k \<le> int (length xs) \<Longrightarrow> js_slice xs (- k) (int (length xs)) = drop (length xs - nat k) xs"
  by (auto simp: js_slice_def slice_index_def nat_diff_distrib)

lemma join_prefix_ok:
  assumes "fits_text p t (f # es)" "p + d \<le> s2" "s2 \<le> est f + d + int (length (newText f))"
  shows "take (nat (s2 - (p + d))) (app_at p t (f # es)) = take (nat (min (est f) (s2 - d) - p)) t
    @ (if s2 - (est f + d) > 0 then js_slice (newText f) 0 (s2 - (est f + d)) else [])"
proof -
  have "p \<le> est f" "est f \<le> p + int (length t)" using assms(1) fits_le by fastforce+
  then have len: "int (length (take (nat (est f - p)) t)) = est f - p" by auto
  show ?thesis
  proof (cases "s2 > est f + d")
    case True
    then have "nat (s2 - (p + d)) = length (take (nat (est f - p)) t) + nat (s2 - (est f + d))"
      using len \<open>p \<le> est f\<close> by linarith
    with True assms(3) show ?thesis by (simp add: js_slice_prefix min_def take_add del: length_take)
  next
    case False
    then have "nat (s2 - (p + d)) \<le> nat (est f - p)" by linarith
    moreover from this have "nat (s2 - (p + d)) \<le> length (take (nat (est f - p)) t)" using len by linarith
    ultimately show ?thesis using False by (auto simp: min_def algebra_simps)
  qed
qed

lemma join_emit_some:
  assumes q: "fits_text p t (i @ q2)" and e2: "fits_text (p + d) (app_at p t (i @ q2)) (e2 # es2)" and "i \<noteq> []"
    and near: "est e2 \<le> est (hd i) + d + int (length (newText (hd i)))"
    and far: "q2 \<noteq> [] \<longrightarrow> een e2 < est (hd q2) + (d + total_delta i)"
    and touch: "est (last i) + (d + total_delta (butlast i)) \<le> een e2"
  shows "\<exists>q' E d'. join_emit e2 res d (q2, Some (hd i), Some (last i), d + total_delta i) = Inr (q', res @ [E], d')
    \<and> emitted p t d (i @ q2) e2 es2 q' E d'"
proof -
  let ?f = "hd i" and ?l = "last i" and ?m = "app_at p t (i @ q2)" and ?d2 = "d + total_delta i"
  let ?t2 = "drop (nat (een ?l - p)) t"
  let ?pre = "est e2 - (est ?f + d)" and ?suf = "een ?l + ?d2 - een e2"
  let ?prefix = "if ?pre > 0 then js_slice (newText ?f) 0 ?pre else []"
  let ?a = "min (est ?f) (est e2 - d)"
  have b: "p + d \<le> est e2" "est e2 \<le> een e2" "een e2 \<le> p + d + int (length ?m)"
    using e2 fits_le by auto
  have fi: "fits p (pend p i) i" and f2: "fits (pend p i) (p + int (length t)) q2"
    using q by (simp_all add: fits_append)
  obtain u where u: "mid p t i = u @ newText ?l" and pl: "pend p i = een ?l"
    using mid_last [OF fi \<open>i \<noteq> []\<close>] .
  have m: "?m = mid p t i @ app_at (een ?l) ?t2 q2" using app_at_append [OF fi, of t q2] by (simp add: pl)
  have pf: "p \<le> est ?f" using fi \<open>i \<noteq> []\<close> by (cases i) auto
  have fl: "een ?f \<le> een ?l" "est ?f \<le> een ?f" using fi \<open>i \<noteq> []\<close> fits_pend [of "een ?f" _ "tl i"] pl by (cases i; auto)+
  have "fits_text p t i" using fits_upper [OF fi] fits_le [OF f2] by blast
  then have lm: "int (length (mid p t i)) = een ?l + ?d2 - (p + d)"
    using length_mid [of p t i] pl by simp
  have tk: "take (nat (est e2 - (p + d))) ?m = take (nat (?a - p)) t @ ?prefix"
  proof -
    have "i @ q2 = ?f # (tl i @ q2)" using \<open>i \<noteq> []\<close> by simp
    then show ?thesis using join_prefix_ok [of p t ?f "tl i @ q2" d "est e2"] q b(1) near by (simp only:)
  qed
  show ?thesis
  proof (cases "?suf > 0")
    case True
    have "total_delta i = total_delta (butlast i) + edit_delta ?l"
      by (rule total_delta_last [OF \<open>i \<noteq> []\<close>])
    then have sl: "?suf \<le> int (length (newText ?l))"
      using touch by (simp add: edit_delta_def OffsetRange_length_def)
    let ?s = "js_slice (newText ?l) (- ?suf) (int (length (newText ?l)))"
    let ?e = "\<lparr>replaceRange = \<lparr>start = een ?l, endExclusive = een ?l\<rparr>, newText = ?s\<rparr>"
    let ?E = "\<lparr>replaceRange = \<lparr>start = ?a, endExclusive = een ?l\<rparr>, newText = ?prefix @ newText e2\<rparr>"
    have slice: "?s = drop (length (newText ?l) - nat ?suf) (newText ?l)"
      by (rule js_slice_suffix) (use True sl in simp_all)
    then have ls: "int (length ?s) = ?suf" using True sl by (simp only: length_drop)
    have "join_emit e2 res d (q2, Some ?f, Some ?l, ?d2) = Inr (?e # q2, res @ [?E], ?d2 - ?suf)"
      using True ls fl by (simp add: join_emit_def Let_def OffsetRange_ofStartAndLength_def new_OffsetRange_def
        new_SingleOffsetEdit_def edit_delta_def OffsetRange_length_def)
    moreover have "drop (nat (een e2 - (p + d))) ?m = app_at (een ?l) ?t2 (?e # q2)"
    proof -
      have "nat (een e2 - (p + d)) = length u + (length (newText ?l) - nat ?suf)"
        using lm b sl True by (simp add: u)
      then show ?thesis using sl True unfolding m u app_at.simps slice by simp
    qed
    then have "emitted p t d (i @ q2) e2 es2 (?e # q2) ?E (?d2 - ?suf)"
      using b pf fl f2 by (intro emittedI [OF e2, where prefix = ?prefix]) (simp_all add: tk pl del: app_at.simps)
    ultimately show ?thesis by blast
  next
    case False
    let ?E = "\<lparr>replaceRange = \<lparr>start = ?a, endExclusive = een e2 - ?d2\<rparr>, newText = ?prefix @ newText e2\<rparr>"
    let ?k = "nat (een e2 - ?d2 - een ?l)"
    have f3: "fits (een e2 - ?d2) (p + int (length t)) q2"
    proof (cases q2)
      case Nil
      have "int (length ?t2) = p + int (length t) - een ?l" using f2 fits_le [OF f2] pf fl pl by auto
      moreover have "int (length ?m) = int (length (mid p t i)) + int (length ?t2)" 
        using Nil by (subst m) simp
      ultimately show ?thesis using Nil b lm by simp
    next
      case (Cons e q3)
      then show ?thesis using far f2 by auto
    qed
    have "een ?l + int (length ?t2) = p + int (length t)" using fits_le [OF f2] pf fl pl by auto
    then have f4: "fits (een e2 - ?d2) (een ?l + int (length ?t2)) q2" using f3 by (simp only:)
    have le: "een ?l \<le> een e2 - ?d2" using False by linarith
    have "app_at (een ?l) ?t2 q2 = take ?k ?t2 @ app_at (een e2 - ?d2) (drop ?k ?t2) q2"
      and "int (length (take ?k ?t2)) = een e2 - ?d2 - een ?l"
      using app_at_skip [OF f4 le] take_skip_length [OF f4 le] by blast+
    moreover have "?k + nat (een ?l - p) = nat (een e2 - ?d2 - p)" using False pf fl by linarith
    moreover have "nat (een e2 - (p + d)) = length (mid p t i) + length (take ?k ?t2)"
      using lm calculation(2) b by linarith
    ultimately have "drop (nat (een e2 - (p + d))) ?m = app_at (een ?E) (drop (nat (een ?E - p)) t) q2"
      by (simp add: m)
    moreover have "?a \<le> een e2 - ?d2" using False fl by linarith
    moreover have "join_emit e2 res d (q2, Some ?f, Some ?l, ?d2) = Inr (q2, res @ [?E], ?d2)"
      using False calculation(2)
      by (simp add: join_emit_def Let_def new_OffsetRange_def new_SingleOffsetEdit_def min_le_iff_disj) linarith
    moreover have "emitted p t d (i @ q2) e2 es2 q2 ?E ?d2"
      using b pf f3 calculation(1,2)
      by (intro emittedI [OF e2, where prefix = ?prefix]) (simp_all add: tk del: app_at.simps)
    ultimately show ?thesis by blast
  qed
qed


lemma join_step_ok:
  assumes q: "fits_text p t q" and e2: "fits_text (p + d) (app_at p t q) (e2 # es2)"
  shows "\<exists>new q' d'. join_step e2 (q, res, d) = Inr (q', res @ new, d')
    \<and> fits_text p t (new @ q')
    \<and> app_at (p + d) (app_at p t q) (e2 # es2)
        = mid p t new @ app_at (pend p new + d') (app_at (pend p new) (rest_at p t new) q') es2
    \<and> fits_text (pend p new + d') (app_at (pend p new) (rest_at p t new) q') es2"
proof -
  obtain c q1 where c: "join_copy e2 q res d = (q1, res @ c, d + total_delta c)" "q = c @ q1"
    "q1 \<noteq> [] \<longrightarrow> est e2 \<le> est (hd q1) + (d + total_delta c) + int (length (newText (hd q1)))"
    "pend p c + (d + total_delta c) \<le> est e2"
    using join_copy_ok [OF q e2] by blast
  let ?p = "pend p c" and ?t = "rest_at p t c" and ?d = "d + total_delta c"
  have fc: "fits p ?p c" and f1: "fits_text ?p ?t q1" using q fits_text_rest [of p t c q1] by (simp_all add: c fits_append)
  have m: "app_at p t q = mid p t c @ app_at ?p ?t q1" using app_at_append [OF fc] c by simp
  have "fits_text p t c" using fits_upper [OF fc] fits_le [of ?p _ q1] q c(2) by (auto simp: fits_append)
  then have pm: "p + d + int (length (mid p t c)) = ?p + ?d" by (simp add: length_mid)
  then have "p + d + int (length (app_at p t q)) = ?p + ?d + int (length (app_at ?p ?t q1))" by (simp add: m)
  with e2 have "fits (p + d) (?p + ?d + int (length (app_at ?p ?t q1))) (e2 # es2)" by (simp only:)
  then have e2': "fits_text (?p + ?d) (app_at ?p ?t q1) (e2 # es2)" using c(4) by simp
  have out: "app_at (p + d) (app_at p t q) (e2 # es2) = mid p t c @ app_at (?p + ?d) (app_at ?p ?t q1) (e2 # es2)"
    using app_at_prefix [of "p + d" "mid p t c" "app_at ?p ?t q1" "e2 # es2"] e2' unfolding m pm by blast
  obtain i q2 where i: "join_touch e2 q1 None None ?d = (q2, (if i = [] then None else Some (hd i)),
       (if i = [] then None else Some (last i)), ?d + total_delta i)" "q1 = i @ q2"
    "q2 \<noteq> [] \<longrightarrow> een e2 < est (hd q2) + (?d + total_delta i)"
    "i \<noteq> [] \<longrightarrow> est (last i) + (?d + total_delta (butlast i)) \<le> een e2"
    using join_touch_ok [of e2 q1 None None ?d] by auto
  have "\<exists>q' E d'. join_emit e2 (res @ c) ?d (join_touch e2 q1 None None ?d) = Inr (q', (res @ c) @ [E], d')
    \<and> emitted ?p ?t ?d q1 e2 es2 q' E d'"
  proof (cases "i = []")
    case True
    then show ?thesis using join_emit_none [OF f1 e2', of "res @ c"] i by simp
  next
    case False
    then show ?thesis using join_emit_some [of ?p ?t i q2 ?d e2 es2 "res @ c"] f1 e2' i c(3) by auto
  qed
  then obtain q' E d' where E: "join_step e2 (q, res, d) = Inr (q', res @ c @ [E], d')"
    "emitted ?p ?t ?d q1 e2 es2 q' E d'"
    by (auto simp: join_step_def c(1))
  have "p \<le> ?p" using fits_pend [OF fc] by simp
  then have "nat (een E - ?p) + nat (?p - p) = nat (een E - p)"
    using E(2) by (auto simp: emitted_def)
  moreover have "?p + int (length ?t) = p + int (length t)"
    using fits_pend [OF \<open>fits_text p t c\<close>] by auto
  then have "fits (een E) (p + int (length t)) q'" using E(2) unfolding emitted_def by (simp only:)
  ultimately show ?thesis using E out fc
    by - (rule exI [of _ "c @ [E]"], rule exI [of _ q'], rule exI [of _ d'],
      simp add: emitted_def fits_append mid_append)
qed


lemma join_loop_ok:
  "fits_text p t q \<Longrightarrow> fits_text (p + d) (app_at p t q) es2 \<Longrightarrow>
   \<exists>new q' d'. join_loop es2 (q, res, d) = Inr (q', res @ new, d') \<and> fits_text p t (new @ q')
     \<and> app_at p t (new @ q') = app_at (p + d) (app_at p t q) es2"
proof (induction es2 arbitrary: p t q d res)
  case (Cons e2 es2)
  obtain new q' d' where s: "join_step e2 (q, res, d) = Inr (q', res @ new, d')"
    "fits_text p t (new @ q')"
    "app_at (p + d) (app_at p t q) (e2 # es2)
        = mid p t new @ app_at (pend p new + d') (app_at (pend p new) (rest_at p t new) q') es2"
    "fits_text (pend p new + d') (app_at (pend p new) (rest_at p t new) q') es2"
    using join_step_ok [OF Cons.prems] by blast
  from Cons.IH [OF fits_text_rest [OF s(2)] s(4), of "res @ new"] obtain new2 q2 d2 where
    l: "join_loop es2 (q', res @ new, d') = Inr (q2, res @ new @ new2, d2)"
    "fits_text (pend p new) (rest_at p t new) (new2 @ q2)"
    "app_at (pend p new) (rest_at p t new) (new2 @ q2)
      = app_at (pend p new + d') (app_at (pend p new) (rest_at p t new) q') es2"
    by auto
  have f: "fits p (pend p new) new" "fits (pend p new) (p + int (length t)) q'" using s(2) by (simp_all add: fits_append)
  then have "pend p new + int (length (rest_at p t new)) = p + int (length t)"
    using fits_pend [OF f(1)] fits_le [OF f(2)] by auto
  with l(2) have f2: "fits (pend p new) (p + int (length t)) (new2 @ q2)" by (simp only:)
  show ?case
  proof (rule exI [of _ "new @ new2"], intro exI [of _ q2] exI [of _ d2] conjI)
    show "join_loop (e2 # es2) (q, res, d) = Inr (q2, res @ (new @ new2), d2)" using s(1) l(1) by simp
    show "app_at p t ((new @ new2) @ q2) = app_at (p + d) (app_at p t q) (e2 # es2)"
      using app_at_append [OF f(1), of t "new2 @ q2"] s(3) l(3) by simp
    show "fits_text p t ((new @ new2) @ q2)" using f(1) f2 by (simp add: fits_append)
  qed
qed simp

lemma OffsetEdit_compose_ok:
  assumes e1: "oe_fits e1 s" and e2: "oe_fits e2 (OffsetEdit_apply e1 s)"
  shows "\<exists>c. OffsetEdit_compose e1 e2 = Inr c \<and> oe_fits c s
    \<and> OffsetEdit_apply c s = OffsetEdit_apply e2 (OffsetEdit_apply e1 s)"
proof -
  obtain n1 where n1: "OffsetEdit_normalize e1 = Inr n1" "oe_fits n1 s" "OffsetEdit_apply n1 s = OffsetEdit_apply e1 s"
    using OffsetEdit_normalize_ok [OF e1] by blast
  obtain n2 where n2: "OffsetEdit_normalize e2 = Inr n2" "oe_fits n2 (OffsetEdit_apply e1 s)"
    "OffsetEdit_apply n2 (OffsetEdit_apply e1 s) = OffsetEdit_apply e2 (OffsetEdit_apply e1 s)"
    using OffsetEdit_normalize_ok [OF e2] by blast
  have id: "oe_fits x y \<Longrightarrow> OffsetEdit_isEmpty x \<Longrightarrow> OffsetEdit_apply x y = y" for x :: "'a OffsetEdit" and y
    by (simp add: OffsetEdit_apply_eq OffsetEdit_isEmpty_def)
  obtain new q d where l: "join_loop (edits n2) (edits n1, [], 0) = Inr (q, new, d)" "fits_text 0 s (new @ q)"
    "app_at 0 s (new @ q) = app_at 0 (app_at 0 s (edits n1)) (edits n2)"
    using join_loop_ok [of 0 s "edits n1" 0 "edits n2" "[]"] n1 n2 e1
    by (auto simp: oe_fits_def OffsetEdit_apply_eq)
  let ?j = "\<lparr>edits = new @ q\<rparr>"
  have j: "oe_fits ?j s" "OffsetEdit_apply ?j s = OffsetEdit_apply e2 (OffsetEdit_apply e1 s)"
    using l n1 n2 e1 e2 by (simp_all add: oe_fits_def OffsetEdit_apply_eq flip: n1(3) n2(3))
  obtain c where "OffsetEdit_normalize ?j = Inr c" "oe_fits c s"
    "OffsetEdit_apply c s = OffsetEdit_apply e2 (OffsetEdit_apply e1 s)"
    using OffsetEdit_normalize_ok [OF j(1)] j(2) by auto
  then show ?thesis
    using n1 n2 l id [of n1 s] id [of n2 "OffsetEdit_apply e1 s"]
    by (auto simp: OffsetEdit_compose_def joinEdits_def)
qed

section \<open>tryRebase\<close>

text \<open>Two lists of edits without conflicts: no edit of one touches an edit of the other.  Their combined
  effect is that of the edits merged by position.\<close>

definition edits_apart :: "'c SingleOffsetEdit list \<Rightarrow> 'c SingleOffsetEdit list \<Rightarrow> bool" where
  "edits_apart os bs \<longleftrightarrow> list_all (\<lambda>x. list_all (\<lambda>b. een x < est b \<or> een b < est x) bs) os"

fun merge_edits :: "'c SingleOffsetEdit list \<Rightarrow> 'c SingleOffsetEdit list \<Rightarrow> 'c SingleOffsetEdit list" where
  "merge_edits [] bs = bs"
| "merge_edits (x # os) [] = x # os"
| "merge_edits (x # os) (b # bs) =
     (if est x < est b then x # merge_edits os (b # bs) else b # merge_edits (x # os) bs)"

lemma merge_edits_Nil [simp]: "merge_edits os [] = os"
  by (cases os) simp_all

lemma edits_apart_Nil [simp]: "edits_apart os []"
  by (simp add: edits_apart_def list_all_iff)

lemma merge_edits_commute: "edits_apart os bs \<Longrightarrow> fits lo hi os \<Longrightarrow> fits lo' hi' bs \<Longrightarrow> merge_edits os bs = merge_edits bs os"
proof (induction os bs arbitrary: lo lo' rule: merge_edits.induct)
  case (1 bs)
  then show ?case by (cases bs) simp_all
next
  case (3 x os b bs)
  then have "est x \<noteq> est b" by (auto simp: edits_apart_def)
  then show ?case
  proof (cases "est x < est b")
    case True
    moreover have "merge_edits os (b # bs) = merge_edits (b # bs) os"
      using True "3.prems" by (intro "3.IH"(1)) (auto simp: edits_apart_def)
    ultimately show ?thesis by simp
  next
    case False
    moreover have "merge_edits (x # os) bs = merge_edits bs (x # os)"
      using False "3.prems" by (intro "3.IH"(2)) (auto simp: edits_apart_def list_all_iff)
    ultimately show ?thesis using \<open>est x \<noteq> est b\<close> by simp
  qed
qed simp

lemma fits_text_tl: 
  assumes "fits_text p t (e # es)"
  shows "fits_text (een e) (drop (nat (een e - p)) t) es"
  using fits_text_rest [of p t "[e]" es] assms by simp

lemma fits_text_drop:
  assumes "fits q (p + int (length t)) es" "p \<le> q"
  shows "fits_text q (drop (nat (q - p)) t) es"
proof -
  have "q + int (length (drop (nat (q - p)) t)) = p + int (length t)" using fits_le [OF assms(1)] assms(2) by auto
  with assms(1) show ?thesis by (simp only:)
qed

abbreviation rebased :: "int \<Rightarrow> 'c SingleOffsetEdit \<Rightarrow> 'c SingleOffsetEdit" where
  "rebased d x \<equiv> \<lparr>replaceRange = \<lparr>start = est x + d, endExclusive = een x + d\<rparr>, newText = newText x\<rparr>"

lemma rebased_first:
  assumes x: "fits_text p t (x # os)" and bs: "fits (een x) (p + int (length t)) bs"
    and new: "fits_text (een x + d) (app_at (een x) (drop (nat (een x - p)) t) bs) new"
      "app_at (een x + d) (app_at (een x) (drop (nat (een x - p)) t) bs) new = app_at (een x) (drop (nat (een x - p)) t) ms"
  shows "fits_text (p + d) (app_at p t bs) (rebased d x # new)"
    and "app_at (p + d) (app_at p t bs) (rebased d x # new) = app_at p t (x # ms)"
proof -
  let ?k = "nat (een x - p)"
  have b: "p \<le> est x" "est x \<le> een x" "p \<le> een x" using x by auto
  have m: "app_at p t bs = take ?k t @ app_at (een x) (drop ?k t) bs" by (rule app_at_skip [OF bs b(3)])
  have len: "int (length (take ?k t)) = een x - p" by (rule take_skip_length [OF bs b(3)])
  have "take ?k t = take (nat (est x - p)) t @ take (nat (een x - est x)) (drop (nat (est x - p)) t)"
    using b by (simp add: take_add [symmetric] nat_add_distrib [symmetric])
  moreover have l1: "int (length (take (nat (est x - p)) t)) = est x - p" using len b by auto
  ultimately have "app_at (p + d) (app_at p t bs) (rebased d x # new)
      = take (nat (est x - p)) t @ newText x @ app_at (een x + d) (app_at (een x) (drop ?k t) bs) new"
    using len by (subst m) (simp add: app_at_Cons_split del: length_take length_drop app_at.simps)
  then show "app_at (p + d) (app_at p t bs) (rebased d x # new) = app_at p t (x # ms)"
    using new(2) by simp
  have "p + d + int (length (app_at p t bs)) = een x + d + int (length (app_at (een x) (drop ?k t) bs))"
    using len by (subst m) (simp del: length_take)
  with new(1) have "fits (een x + d) (p + d + int (length (app_at p t bs))) new" by (simp only:)
  then show "fits_text (p + d) (app_at p t bs) (rebased d x # new)" using b by simp
qed

lemma tryRebase_loop_ok:
  assumes "fits_text p t os" "fits_text p t bs" "edits_apart os bs"
  shows "\<exists>new. tryRebase_loop os bs d acc = Inr (acc @ new) \<and> fits_text (p + d) (app_at p t bs) new
    \<and> app_at (p + d) (app_at p t bs) new = app_at p t (merge_edits os bs)"
  using assms
proof (induction os bs d acc arbitrary: p t rule: tryRebase_loop.induct)
  case (1 bs d acc)
  then show ?case by (auto intro!: exI [of _ "[]"])
next
  case (2 x os d acc)
  have delta: "OffsetRange_delta (replaceRange x) d = Inr (replaceRange (rebased d x))"
    using "2.prems" by (simp add: OffsetRange_delta_def new_OffsetRange_def)
  obtain new where new: "tryRebase_loop os [] d (acc @ [rebased d x]) = Inr ((acc @ [rebased d x]) @ new)"
    "fits_text (een x + d) (app_at (een x) (drop (nat (een x - p)) t) []) new"
    "app_at (een x + d) (app_at (een x) (drop (nat (een x - p)) t) []) new = app_at (een x) (drop (nat (een x - p)) t) os"
    using "2.IH" [OF delta fits_text_tl [OF "2.prems"(1)]] by (auto simp: new_SingleOffsetEdit_def)
  have "fits (een x) (p + int (length t)) []" using "2.prems"(1) fits_le by auto
  from rebased_first [OF "2.prems"(1) this new(2,3)] new(1) delta show ?case
    by (intro exI [of _ "rebased d x # new"]) (simp add: new_SingleOffsetEdit_def)
next
  case (3 x os b bs d acc)
  have no: "\<not> OffsetRange_intersects (replaceRange x) (replaceRange b)"
    using "3.prems" by (auto simp: OffsetRange_intersects_def edits_apart_def)
  have ap: "een x < est b \<or> een b < est x" using "3.prems"(3) by (simp add: edits_apart_def)
  have ord: "est x \<le> een x" "est b \<le> een b" using "3.prems" by auto
  show ?case
  proof (cases "est x < est b")
    case True
    have delta: "OffsetRange_delta (replaceRange x) d = Inr (replaceRange (rebased d x))"
      using "3.prems" by (simp add: OffsetRange_delta_def new_OffsetRange_def)
    have fb: "fits (een x) (p + int (length t)) (b # bs)" using "3.prems"(2) ap ord True by auto
    then have "fits_text (een x) (drop (nat (een x - p)) t) (b # bs)"
      using "3.prems"(1) by (intro fits_text_drop) auto
    then obtain new where new: "tryRebase_loop os (b # bs) d (acc @ [rebased d x]) = Inr ((acc @ [rebased d x]) @ new)"
      "fits_text (een x + d) (app_at (een x) (drop (nat (een x - p)) t) (b # bs)) new"
      "app_at (een x + d) (app_at (een x) (drop (nat (een x - p)) t) (b # bs)) new
        = app_at (een x) (drop (nat (een x - p)) t) (merge_edits os (b # bs))"
      using "3.IH"(2) [OF no True delta fits_text_tl [OF "3.prems"(1)]] "3.prems"(3)
      by (auto simp: edits_apart_def new_SingleOffsetEdit_def simp del: app_at.simps fits.simps)
    from rebased_first [OF "3.prems"(1) fb new(2,3)] new(1) delta no True show ?thesis
      by (intro exI [of _ "rebased d x # new"]) (simp add: new_SingleOffsetEdit_def)
  next
    case False
    let ?t = "drop (nat (een b - p)) t" and ?P = "take (nat (est b - p)) t @ newText b"
    have "fits (een b) (p + int (length t)) (x # os)" using "3.prems"(1) ap ord False by auto
    then have "fits_text (een b) ?t (x # os)" using "3.prems"(2) by (intro fits_text_drop) auto
    then obtain new where new: "tryRebase_loop (x # os) bs (d + edit_delta b) acc = Inr (acc @ new)"
      "fits_text (een b + (d + edit_delta b)) (app_at (een b) ?t bs) new"
      "app_at (een b + (d + edit_delta b)) (app_at (een b) ?t bs) new = app_at (een b) ?t (merge_edits (x # os) bs)"
      using "3.IH"(3) [OF no False _ fits_text_tl [OF "3.prems"(2)]] "3.prems"(3)
      by (auto simp: edits_apart_def list_all_iff simp del: app_at.simps fits.simps)
    have m: "app_at p t (b # bs) = ?P @ app_at (een b) ?t bs" by simp
    have "int (length ?P) = est b - p + int (length (newText b))" 
      using "3.prems"(2) fits_le by fastforce
    then have len: "p + d + int (length ?P) = een b + (d + edit_delta b)"
      by (simp add: edit_delta_def OffsetRange_length_def)
    have "app_at (p + d) (app_at p t (b # bs)) new = ?P @ app_at (een b) ?t (merge_edits (x # os) bs)"
      unfolding m using app_at_prefix [of "p + d" ?P "app_at (een b) ?t bs" new] new(2,3) unfolding len by simp
    moreover have "fits_text (p + d) (app_at p t (b # bs)) new"
    proof (rule fits_lower)
      show "fits (een b + (d + edit_delta b)) (p + d + int (length (app_at p t (b # bs)))) new"
      proof -
        have "p + d + int (length (app_at p t (b # bs)))
            = een b + (d + edit_delta b) + int (length (app_at (een b) ?t bs))"
          unfolding m using len by simp
        with new(2) show ?thesis by (simp only:)
      qed
      show "p + d \<le> een b + (d + edit_delta b)" using len by linarith
    qed
    ultimately show ?thesis using new(1) no False by (intro exI [of _ new]) simp
  qed
qed


lemma OffsetEdit_tryRebase_ok:
  assumes e: "oe_fits e s" and b: "oe_fits b s" and ap: "edits_apart (edits e) (edits b)"
  shows "\<exists>r. OffsetEdit_tryRebase e b = Inr r \<and> oe_fits r (OffsetEdit_apply b s)
    \<and> OffsetEdit_apply r (OffsetEdit_apply b s) = app_at 0 s (merge_edits (edits e) (edits b))"
proof -
  obtain new where new: "tryRebase_loop (edits e) (edits b) 0 [] = Inr new"
    "fits_text 0 (app_at 0 s (edits b)) new"
    "app_at 0 (app_at 0 s (edits b)) new = app_at 0 s (merge_edits (edits e) (edits b))"
    using tryRebase_loop_ok [of 0 s "edits e" "edits b" 0 "[]"] e b ap by (auto simp: oe_fits_def)
  then have "OffsetEdit_tryRebase e b = Inr \<lparr>edits = new\<rparr>" by (simp add: OffsetEdit_tryRebase_def)
  with new b show ?thesis by (auto simp: OffsetEdit_apply_eq oe_fits_def)
qed

lemma edits_apart_sym: "edits_apart os bs \<Longrightarrow> edits_apart bs os"
  by (auto simp: edits_apart_def list_all_iff)

lemma tryRebase_diamond:
  assumes e: "oe_fits e s" and b: "oe_fits b s" and ap: "edits_apart (edits e) (edits b)"
  shows "\<exists>r r'. OffsetEdit_tryRebase e b = Inr r \<and> OffsetEdit_tryRebase b e = Inr r'
    \<and> OffsetEdit_apply r (OffsetEdit_apply b s) = OffsetEdit_apply r' (OffsetEdit_apply e s)"
  using OffsetEdit_tryRebase_ok [OF e b ap] OffsetEdit_tryRebase_ok [OF b e edits_apart_sym [OF ap]]
    merge_edits_commute [OF ap] e b by (fastforce simp: oe_fits_def)

section \<open>Offsets\<close>

definition untouched :: "'c SingleOffsetEdit list \<Rightarrow> int \<Rightarrow> bool" where
  "untouched es x \<longleftrightarrow> list_all (\<lambda>e. \<not> OffsetRange_contains (replaceRange e) x) es"

lemma delta_end: "een e + (d + edit_delta e) = est e + d + int (length (newText e))"
  by (simp add: edit_delta_def OffsetRange_length_def)

lemma fits_total_delta: "fits lo hi es \<Longrightarrow> lo \<le> hi + total_delta es"
proof (induction es arbitrary: lo)
  case (Cons e es)
  then have "een e \<le> hi + total_delta es" "lo \<le> est e" by auto
  then show ?case using delta_end [of e 0] by simp
qed simp

lemma applyToOffset_loop_ge: "fits lo hi es \<Longrightarrow> lo \<le> x \<Longrightarrow> lo + d \<le> applyToOffset_loop es x d"
proof (induction es arbitrary: lo d)
  case (Cons e es)
  show ?case
  proof (cases "een e \<le> x")
    case True
    then have "een e + (d + edit_delta e) \<le> applyToOffset_loop es x (d + edit_delta e)" using Cons by simp
    then show ?thesis using True Cons.prems delta_end [of e d] by simp
  next
    case False
    then show ?thesis using Cons.prems by simp
  qed
qed simp

lemma applyToOffset_loop_le:
  "fits lo hi es \<Longrightarrow> x \<le> hi \<Longrightarrow> applyToOffset_loop es x d \<le> hi + d + total_delta es"
proof (induction es arbitrary: lo d)
  case (Cons e es)
  then have "een e \<le> hi + total_delta es" using fits_total_delta [of "een e" hi es] by simp
  then show ?case using Cons.prems Cons.IH [of "een e" "d + edit_delta e"] delta_end [of e 0] by simp
qed simp

lemma applyToOffset_loop_mono:
  "fits lo hi es \<Longrightarrow> x \<le> y \<Longrightarrow> applyToOffset_loop es x d \<le> applyToOffset_loop es y d"
proof (induction es arbitrary: lo d)
  case (Cons e es)
  then have "een e \<le> y \<Longrightarrow> een e + (d + edit_delta e) \<le> applyToOffset_loop es y (d + edit_delta e)"
    using applyToOffset_loop_ge [of "een e" hi es y] by simp
  then show ?case using Cons.prems Cons.IH [of "een e" "d + edit_delta e"] delta_end [of e d] by auto
qed simp

lemma untouched_Cons: "untouched (e # es) x \<longleftrightarrow> (x < est e \<or> een e \<le> x) \<and> untouched es x"
  by (auto simp: untouched_def OffsetRange_contains_def)

lemma applyToOffset_loop_char:
  "fits_text p t es \<Longrightarrow> p \<le> x \<Longrightarrow> x < p + int (length t) \<Longrightarrow> untouched es x \<Longrightarrow>
   nat (applyToOffset_loop es x d - (p + d)) < length (app_at p t es)
   \<and> app_at p t es ! nat (applyToOffset_loop es x d - (p + d)) = t ! nat (x - p)"
proof (induction es arbitrary: p t d)
  case Nil
  then show ?case by auto
next
  case (Cons e es)
  have b: "p \<le> est e" "est e \<le> een e" "een e \<le> p + int (length t)" using Cons.prems fits_le by auto
  then have len: "int (length (take (nat (est e - p)) t)) = est e - p" by auto
  show ?case
  proof (cases "x < est e")
    case True
    then show ?thesis using b len Cons.prems by (simp add: nth_append)
  next
    case False
    then have x: "een e \<le> x" using Cons.prems by (simp add: untouched_Cons)
    let ?t = "drop (nat (een e - p)) t" and ?P = "take (nat (est e - p)) t @ newText e"
    let ?y = "applyToOffset_loop es x (d + edit_delta e)"
    have f: "fits_text (een e) ?t es" by (rule fits_text_tl) (use Cons.prems in simp)
    have "nat (?y - (een e + (d + edit_delta e))) < length (app_at (een e) ?t es)
      \<and> app_at (een e) ?t es ! nat (?y - (een e + (d + edit_delta e))) = ?t ! nat (x - een e)"
      using Cons.prems x b by (intro Cons.IH [OF f]) (auto simp: untouched_Cons)
    moreover have "een e + (d + edit_delta e) \<le> ?y" by (rule applyToOffset_loop_ge [OF f x])
    then have "nat (?y - (p + d)) = length ?P + nat (?y - (een e + (d + edit_delta e)))"
      using len delta_end [of e d] b by simp
    moreover have "?t ! nat (x - een e) = t ! nat (x - p)"
      using x b Cons.prems by (subst nth_drop) (auto simp: nat_add_distrib [symmetric])
    moreover have "app_at p t (e # es) = ?P @ app_at (een e) ?t es" by simp
    ultimately show ?thesis using x False
      by (simp del: app_at.simps length_take add: nth_append)
  qed
qed

lemma applyInverse_loop_roundtrip:
  "fits lo hi es \<Longrightarrow> untouched es x \<Longrightarrow>
   applyInverseToOffset_loop es (applyToOffset_loop es x d) d = x"
proof (induction es arbitrary: lo d)
  case (Cons e es)
  show ?case
  proof (cases "x < est e")
    case False
    then have x: "een e \<le> x" using Cons.prems by (simp add: untouched_Cons)
    then have "een e + (d + edit_delta e) \<le> applyToOffset_loop es x (d + edit_delta e)"
      using applyToOffset_loop_ge Cons.prems by auto
    then show ?thesis using x False Cons delta_end [of e d] by (auto simp: untouched_Cons)
  qed simp
qed simp

section \<open>Properties\<close>

text \<open>A normalized list: no edit is empty and there is text between any two.\<close>

definition normal_edits :: "'c SingleOffsetEdit list \<Rightarrow> bool" where
  "normal_edits es \<longleftrightarrow> list_all (\<lambda>e. \<not> SingleOffsetEdit_isEmpty e) es \<and> sorted_wrt (\<lambda>a b. een a < est b) es"

lemma normal_edits_snoc:
  "normal_edits (es @ [e]) \<longleftrightarrow> normal_edits es \<and> \<not> SingleOffsetEdit_isEmpty e \<and> (\<forall>a \<in> set es. een a < est e)"
  by (auto simp: normal_edits_def sorted_wrt_append)

lemma fits_mem: "fits lo hi es \<Longrightarrow> e \<in> set es \<Longrightarrow> lo \<le> est e \<and> est e \<le> een e"
  by (induction lo hi es rule: fits.induct) force+

lemma fits_snoc_le: "fits lo hi (es @ e # fs) \<Longrightarrow> a \<in> set es \<Longrightarrow> een a \<le> est e \<and> est a \<le> een a"
  by (induction es arbitrary: lo) (auto dest: fits_mem)

lemma normalize_loop_normal:
  assumes "fits lo hi (push_option acc lastEdit @ es)" "normal_edits (push_option acc lastEdit)"
    and "normalize_loop es acc lastEdit = Inr r" "lastEdit = None \<Longrightarrow> acc = []"
  shows "normal_edits r"
  using assms
proof (induction es arbitrary: acc lastEdit)
  case (Cons x es)
  show ?case
  proof (cases "SingleOffsetEdit_isEmpty x")
    case True
    then have e: "length (newText x) = 0 \<and> OffsetRange_length (replaceRange x) = 0" by (simp add: SingleOffsetEdit_isEmpty_def)
    then have "fits lo hi (push_option acc lastEdit @ es)" using Cons.prems(1) fits_lower
      by (auto simp: fits_append OffsetRange_length_def)
    then show ?thesis using Cons e by auto
  next
    case False
    then have ne: "\<not> (length (newText x) = 0 \<and> OffsetRange_length (replaceRange x) = 0)" by (simp add: SingleOffsetEdit_isEmpty_def)
    show ?thesis
    proof (cases lastEdit)
      case None
      then show ?thesis using Cons.IH [of "[]" "Some x"] Cons.prems False ne
        by (simp add: push_option_def normal_edits_def split: if_splits)
    next
      case (Some l)
      note p = Cons.prems [unfolded Some push_option_def, simplified]
      have b: "est l \<le> een l" "een l \<le> est x" "est x \<le> een x" "\<forall>a \<in> set acc. een a < est l"
        using p(1) fits_snoc_le [of lo hi "acc @ [l]" x es l] fits_mem [of lo hi _ x] p(2)
        by (auto simp: normal_edits_snoc)
      show ?thesis
      proof (cases "een l = est x")
        case True
        let ?m = "new_SingleOffsetEdit \<lparr>start = est l, endExclusive = een x\<rparr> (newText l @ newText x)"
        have j: "OffsetRange_join (replaceRange l) (replaceRange x) = Inr \<lparr>start = est l, endExclusive = een x\<rparr>"
          using b True by (simp add: OffsetRange_join_def min_def max_def)
        have "fits lo hi (push_option acc (Some ?m) @ es)" using p(1) b True
          by (auto simp: push_option_def fits_append new_SingleOffsetEdit_def)
        moreover have "normal_edits (push_option acc (Some ?m))" using p(2) b True
          by (auto simp: push_option_def normal_edits_snoc new_SingleOffsetEdit_def SingleOffsetEdit_isEmpty_def OffsetRange_length_def)
        ultimately show ?thesis using Cons.IH [of acc "Some ?m"] p(3) True ne j by (simp split: if_splits)
      next
        case gap: False
        then have "normal_edits ((acc @ [l]) @ [x])" unfolding normal_edits_snoc [of "acc @ [l]"]
          using p(2) b False by force
        then have "normal_edits (push_option (acc @ [l]) (Some x))" by (simp add: push_option_def)
        moreover have "fits lo hi (push_option (acc @ [l]) (Some x) @ es)" using p(1) by (simp add: push_option_def)
        ultimately show ?thesis using Cons.IH [of "acc @ [l]" "Some x"] p(3) gap ne by (simp add: push_option_def split: if_splits)
      qed
    qed
  qed
qed simp

text \<open>C1: composing two edits gives one edit whose effect is the effect of the first followed by the
  second, and \<^verbatim>\<open>compose\<close> never throws on edits that fit their texts.\<close>

theorem compose_apply:
  assumes "oe_fits e1 s" "oe_fits e2 (OffsetEdit_apply e1 s)"
  shows "\<exists>c. OffsetEdit_compose e1 e2 = Inr c \<and> oe_fits c s
    \<and> OffsetEdit_apply c s = OffsetEdit_apply e2 (OffsetEdit_apply e1 s)"
  by (rule OffsetEdit_compose_ok [OF assms])

abbreviation edit_bc_by_x :: "char OffsetEdit" where
  "edit_bc_by_x \<equiv> \<lparr>edits = [new_SingleOffsetEdit \<lparr>start = 1, endExclusive = 3\<rparr> ''x'']\<rparr>"

abbreviation edit_x_by_yy :: "char OffsetEdit" where
  "edit_x_by_yy \<equiv> \<lparr>edits = [new_SingleOffsetEdit \<lparr>start = 0, endExclusive = 2\<rparr> ''yy'']\<rparr>"

theorem compose_apply_witness:
  "\<exists>c. OffsetEdit_compose edit_bc_by_x edit_x_by_yy = Inr c \<and> OffsetEdit_apply c ''abcd'' = ''yyd''"
proof -
  have "oe_fits edit_bc_by_x ''abcd''" "OffsetEdit_apply edit_bc_by_x ''abcd'' = ''axd''"
    "oe_fits edit_x_by_yy ''axd''" "OffsetEdit_apply edit_x_by_yy ''axd'' = ''yyd''"
    by (simp_all add: oe_fits_def new_SingleOffsetEdit_def OffsetEdit_apply_def js_substring_def js_substring_from_def)
  then show ?thesis using compose_apply [of edit_bc_by_x "''abcd''" edit_x_by_yy] by auto
qed

text \<open>C11: the inverse of an edit undoes it: applied to the edited text it gives the original text.\<close>

theorem inverse_apply:
  assumes "oe_fits e s"
  shows "\<exists>i. OffsetEdit_inverse e s = Inr i \<and> oe_fits i (OffsetEdit_apply e s)
    \<and> OffsetEdit_apply i (OffsetEdit_apply e s) = s"
  by (rule OffsetEdit_inverse_ok [OF assms])

theorem inverse_apply_witness:
  "\<exists>i. OffsetEdit_inverse edit_bc_by_x ''abcd'' = Inr i \<and> OffsetEdit_apply i ''axd'' = ''abcd''"
proof -
  have "oe_fits edit_bc_by_x ''abcd''" "OffsetEdit_apply edit_bc_by_x ''abcd'' = ''axd''"
    by (simp_all add: oe_fits_def new_SingleOffsetEdit_def OffsetEdit_apply_def js_substring_def js_substring_from_def)
  then show ?thesis using inverse_apply [of edit_bc_by_x "''abcd''"] by auto
qed

text \<open>C35: \<^verbatim>\<open>normalize\<close> keeps the effect of an edit and leaves no empty and no touching edits.\<close>

theorem normalize_apply_normal:
  assumes "oe_fits e s"
  shows "\<exists>n. OffsetEdit_normalize e = Inr n \<and> oe_fits n s \<and> normal_edits (edits n)
    \<and> OffsetEdit_apply n s = OffsetEdit_apply e s"
proof -
  obtain n where n: "OffsetEdit_normalize e = Inr n" "oe_fits n s" "OffsetEdit_apply n s = OffsetEdit_apply e s"
    using OffsetEdit_normalize_ok [OF assms] by blast
  have "normalize_loop (edits e) [] None = Inr (edits n)"
    using n(1) by (auto simp: OffsetEdit_normalize_def rbind_eq_Inr_iff new_OffsetEdit_def split: if_splits)
  then have "normal_edits (edits n)"
    using normalize_loop_normal [of 0 "int (length s)" "[]" None "edits e"] assms
    by (simp add: oe_fits_def push_option_def normal_edits_def)
  with n show ?thesis by blast
qed

theorem normalize_apply_normal_witness:
  "\<exists>n. OffsetEdit_normalize \<lparr>edits = [new_SingleOffsetEdit \<lparr>start = 1, endExclusive = 2\<rparr> ''x'',
       new_SingleOffsetEdit \<lparr>start = 2, endExclusive = 3\<rparr> '''']\<rparr> = Inr n \<and> normal_edits (edits n)"
  using normalize_apply_normal [of "\<lparr>edits = [new_SingleOffsetEdit \<lparr>start = 1, endExclusive = 2\<rparr> ''x'',
       new_SingleOffsetEdit \<lparr>start = 2, endExclusive = 3\<rparr> '''']\<rparr>" "''abcd''"]
  by (auto simp: oe_fits_def new_SingleOffsetEdit_def)

text \<open>C12: rebasing is a diamond: when no edit of one list touches an edit of the other, rebasing either edit
  over the other succeeds, and both orders produce the same text.\<close>

theorem rebase_diamond:
  assumes "oe_fits e s" "oe_fits b s" "edits_apart (edits e) (edits b)"
  shows "\<exists>r r'. OffsetEdit_tryRebase e b = Inr r \<and> OffsetEdit_tryRebase b e = Inr r'
    \<and> oe_fits r (OffsetEdit_apply b s) \<and> oe_fits r' (OffsetEdit_apply e s)
    \<and> OffsetEdit_apply r (OffsetEdit_apply b s) = OffsetEdit_apply r' (OffsetEdit_apply e s)
    \<and> OffsetEdit_apply r (OffsetEdit_apply b s) = app_at 0 s (merge_edits (edits e) (edits b))"
  using OffsetEdit_tryRebase_ok [OF assms] OffsetEdit_tryRebase_ok [OF assms(2,1) edits_apart_sym [OF assms(3)]]
    merge_edits_commute [OF assms(3)] assms(1,2) by (fastforce simp: oe_fits_def)

theorem rebase_diamond_witness:
  "\<exists>r r'. OffsetEdit_tryRebase edit_bc_by_x \<lparr>edits = [new_SingleOffsetEdit \<lparr>start = 4, endExclusive = 5\<rparr> ''zz'']\<rparr> = Inr r
     \<and> OffsetEdit_tryRebase \<lparr>edits = [new_SingleOffsetEdit \<lparr>start = 4, endExclusive = 5\<rparr> ''zz'']\<rparr> edit_bc_by_x = Inr r'
     \<and> OffsetEdit_apply r ''abcdzz'' = OffsetEdit_apply r' ''axde''"
proof -
  let ?b = "\<lparr>edits = [new_SingleOffsetEdit \<lparr>start = 4, endExclusive = 5\<rparr> ''zz'']\<rparr>"
  have "oe_fits edit_bc_by_x ''abcde''" "oe_fits ?b ''abcde''" "edits_apart (edits edit_bc_by_x) (edits ?b)"
    "OffsetEdit_apply ?b ''abcde'' = ''abcdzz''" "OffsetEdit_apply edit_bc_by_x ''abcde'' = ''axde''"
    by (simp_all add: oe_fits_def edits_apart_def new_SingleOffsetEdit_def OffsetEdit_apply_def js_substring_def js_substring_from_def)
  then show ?thesis using rebase_diamond [of edit_bc_by_x "''abcde''" ?b] by auto
qed

text \<open>C36: \<^verbatim>\<open>applyToOffset\<close> is monotone, so mapping a range never throws; it maps the offset of a character no edit
  replaces to the offset of that same character in the edited text, and \<^verbatim>\<open>applyInverseToOffset\<close> maps it
  back.\<close>

theorem applyToOffset_tracks_characters:
  assumes "oe_fits e s" "0 \<le> x" "x < int (length s)" "untouched (edits e) x" "or_valid r"
  shows "nat (OffsetEdit_applyToOffset e x) < length (OffsetEdit_apply e s)
    \<and> OffsetEdit_apply e s ! nat (OffsetEdit_applyToOffset e x) = s ! nat x
    \<and> OffsetEdit_applyInverseToOffset e (OffsetEdit_applyToOffset e x) = x
    \<and> (\<exists>r'. OffsetEdit_applyToOffsetRange e r = Inr r' \<and> start r' = OffsetEdit_applyToOffset e (start r)
        \<and> endExclusive r' = OffsetEdit_applyToOffset e (endExclusive r))"
proof (intro conjI)
  have f: "fits 0 (int (length s)) (edits e)" using assms(1) by (simp add: oe_fits_def)
  from applyToOffset_loop_char [of 0 s "edits e" x 0] f assms(2-4)
  show "nat (OffsetEdit_applyToOffset e x) < length (OffsetEdit_apply e s)"
    "OffsetEdit_apply e s ! nat (OffsetEdit_applyToOffset e x) = s ! nat x"
    by (simp_all add: OffsetEdit_applyToOffset_def OffsetEdit_apply_eq [OF assms(1)])
  show "OffsetEdit_applyInverseToOffset e (OffsetEdit_applyToOffset e x) = x"
    using applyInverse_loop_roundtrip [OF f assms(4), of 0]
    by (simp add: OffsetEdit_applyToOffset_def OffsetEdit_applyInverseToOffset_def)
  have "OffsetEdit_applyToOffset e (start r) \<le> OffsetEdit_applyToOffset e (endExclusive r)"
    using applyToOffset_loop_mono [OF f, of "start r" "endExclusive r" 0] assms(5)
    by (simp add: OffsetEdit_applyToOffset_def or_valid_def)
  then show "\<exists>r'. OffsetEdit_applyToOffsetRange e r = Inr r' \<and> start r' = OffsetEdit_applyToOffset e (start r)
        \<and> endExclusive r' = OffsetEdit_applyToOffset e (endExclusive r)"
    by (simp add: OffsetEdit_applyToOffsetRange_def)
qed

theorem applyToOffset_tracks_characters_witness:
  "OffsetEdit_apply edit_bc_by_x ''abcd'' ! nat (OffsetEdit_applyToOffset edit_bc_by_x 3) = CHR ''d''
   \<and> OffsetEdit_applyInverseToOffset edit_bc_by_x (OffsetEdit_applyToOffset edit_bc_by_x 3) = 3"
  using applyToOffset_tracks_characters [of edit_bc_by_x "''abcd''" 3 "\<lparr>start = 0, endExclusive = 1\<rparr>"]
  by (simp add: oe_fits_def untouched_def or_valid_def new_SingleOffsetEdit_def OffsetRange_contains_def)

end
