(* ===== verification/Text_Edit.thy ===== *)
theory Text_Edit
  imports Position_Offset Offset_Edit
begin

text \<open>
  \<^verbatim>\<open>src/vs/editor/common/core/textEdit.ts\<close> and the assertions of \<^verbatim>\<open>src/vs/base/common/assert.ts\<close>: edits of a text in terms of
  lines and columns, and the texts they apply to.  The abstract class \<^verbatim>\<open>AbstractText\<close> is a record of its
  methods; \<^verbatim>\<open>StringText\<close> and \<^verbatim>\<open>LineBasedText\<close> are two implementations.  The locale \<open>abstract_text\<close> states
  what \<^verbatim>\<open>TextEdit\<close> relies on; both classes interpret it, and in it \<^verbatim>\<open>TextEdit\<close> is
  shown to refine \<^verbatim>\<open>OffsetEdit\<close>.
\<close>

section \<open>Assertions\<close>

definition js_assert :: "bool \<Rightarrow> unit result" where
  "js_assert condition = (if \<not> condition then Inl BugIndicatingError else Inr ())"

fun checkAdjacentItems :: "'a list \<Rightarrow> ('a \<Rightarrow> 'a \<Rightarrow> bool) \<Rightarrow> bool" where
  "checkAdjacentItems [] predicate = True"
| "checkAdjacentItems [a] predicate = True"
| "checkAdjacentItems (a # b # xs) predicate =
     (if \<not> predicate a b then False else checkAdjacentItems (b # xs) predicate)"

section \<open>The class AbstractText and its subclasses\<close>

record AbstractText =
  at_getValueOfRange :: "Range \<Rightarrow> js_string result"
  at_length :: "TextLength result"
  at_getLineLength :: "int \<Rightarrow> int result"

definition AbstractText_endPositionExclusive :: "AbstractText \<Rightarrow> Position result" where
  "AbstractText_endPositionExclusive this =
     rbind (at_length this) (\<lambda>len. Inr (TextLength_addToPosition len (new_Position 1 1)))"

definition AbstractText_getValue :: "AbstractText \<Rightarrow> js_string result" where
  "AbstractText_getValue this =
     rbind (at_length this) (\<lambda>len. at_getValueOfRange this (TextLength_toRange len))"

text \<open>The inherited implementation, as a function of the subclass's \<^verbatim>\<open>getValueOfRange\<close>.\<close>

definition AbstractText_getLineLength :: "(Range \<Rightarrow> js_string result) \<Rightarrow> int \<Rightarrow> int result" where
  "AbstractText_getLineLength getValueOfRange l =
     rbind (getValueOfRange (new_Range l 1 l MAX_SAFE_INTEGER)) (\<lambda>s. Inr (int (length s)))"

record LineBasedText =
  getLineContent :: "int \<Rightarrow> js_string option"
  lbt_lineCount :: int

definition new_LineBasedText :: "(int \<Rightarrow> js_string option) \<Rightarrow> int \<Rightarrow> LineBasedText result" where
  "new_LineBasedText f n = rbind (js_assert (n \<ge> 1)) (\<lambda>_. Inr \<lparr>getLineContent = f, lbt_lineCount = n\<rparr>)"

text \<open>A member access on the content of a line that does not exist throws.\<close>

definition line_content :: "LineBasedText \<Rightarrow> int \<Rightarrow> js_string result" where
  "line_content this l = (case getLineContent this l of None \<Rightarrow> Inl TypeError | Some s \<Rightarrow> Inr s)"

text \<open>\<^verbatim>\<open>result += '\n' + this._getLineContent(i)\<close>; concatenating \<^verbatim>\<open>undefined\<close> appends its name.\<close>

definition js_undefined_string :: js_string where
  "js_undefined_string = [117, 110, 100, 101, 102, 105, 110, 101, 100]"

definition LineBasedText_getValueOfRange :: "LineBasedText \<Rightarrow> Range \<Rightarrow> js_string result" where
  "LineBasedText_getValueOfRange this r =
     (if startLineNumber r = endLineNumber r
      then rbind (line_content this (startLineNumber r)) (\<lambda>s.
             Inr (js_substring s (startColumn r - 1) (endColumn r - 1)))
      else rbind (line_content this (startLineNumber r)) (\<lambda>first.
           rbind (line_content this (endLineNumber r)) (\<lambda>final.
             Inr (js_substring_from first (startColumn r - 1)
               @ concat (map (\<lambda>i. LF # (case getLineContent this i of None \<Rightarrow> js_undefined_string | Some s \<Rightarrow> s))
                   [startLineNumber r + 1 .. endLineNumber r - 1])
               @ LF # js_substring final 0 (endColumn r - 1)))))"

definition LineBasedText_getLineLength :: "LineBasedText \<Rightarrow> int \<Rightarrow> int result" where
  "LineBasedText_getLineLength this l = rbind (line_content this l) (\<lambda>s. Inr (int (length s)))"

definition LineBasedText_length :: "LineBasedText \<Rightarrow> TextLength result" where
  "LineBasedText_length this =
     rbind (line_content this (lbt_lineCount this)) (\<lambda>lastLine.
       Inr (new_TextLength (lbt_lineCount this - 1) (int (length lastLine))))"

definition LineBasedText_methods :: "LineBasedText \<Rightarrow> AbstractText" where
  "LineBasedText_methods this =
     \<lparr>at_getValueOfRange = LineBasedText_getValueOfRange this, at_length = LineBasedText_length this,
      at_getLineLength = LineBasedText_getLineLength this\<rparr>"

definition new_ArrayText :: "js_string list \<Rightarrow> LineBasedText result" where
  "new_ArrayText ls = new_LineBasedText (\<lambda>l. js_at ls (l - 1)) (int (length ls))"

record StringText =
  st_value :: js_string
  st_t :: PositionOffsetTransformer

definition new_StringText :: "js_string \<Rightarrow> StringText" where
  "new_StringText v = \<lparr>st_value = v, st_t = new_PositionOffsetTransformer v\<rparr>"

text \<open>\<^verbatim>\<open>substring\<close> treats \<^verbatim>\<open>NaN\<close> as 0.\<close>

definition nan_to_zero :: "int option \<Rightarrow> int" where
  "nan_to_zero x = (case x of None \<Rightarrow> 0 | Some v \<Rightarrow> v)"

definition StringText_getValueOfRange :: "StringText \<Rightarrow> Range \<Rightarrow> js_string result" where
  "StringText_getValueOfRange this r =
     rbind (PositionOffsetTransformer_getOffsetRange (st_t this) r) (\<lambda>x.
       case x of
         Some orange \<Rightarrow> Inr (OffsetRange_substring orange (st_value this))
       | None \<Rightarrow> Inr (js_substring (st_value this)
           (nan_to_zero (PositionOffsetTransformer_getOffset (st_t this) (Range_getStartPosition r)))
           (nan_to_zero (PositionOffsetTransformer_getOffset (st_t this) (Range_getEndPosition r)))))"

text \<open>The array of line starts is never empty; the error stands for a case that cannot occur.\<close>

definition StringText_length :: "StringText \<Rightarrow> TextLength result" where
  "StringText_length this =
     (case PositionOffsetTransformer_textLength (st_t this) of None \<Rightarrow> Inl TypeError | Some len \<Rightarrow> Inr len)"

definition StringText_methods :: "StringText \<Rightarrow> AbstractText" where
  "StringText_methods this =
     \<lparr>at_getValueOfRange = StringText_getValueOfRange this, at_length = StringText_length this,
      at_getLineLength = AbstractText_getLineLength (StringText_getValueOfRange this)\<rparr>"

section \<open>The classes SingleTextEdit and TextEdit\<close>

record SingleTextEdit =
  ste_range :: Range
  ste_text :: js_string

record ISingleEditOperation =
  op_range :: Range
  op_text :: js_string

record TextEdit =
  te_edits :: "SingleTextEdit list"

definition SingleTextEdit_isEmpty :: "SingleTextEdit \<Rightarrow> bool" where
  "SingleTextEdit_isEmpty e \<longleftrightarrow> Range_isEmpty (ste_range e) \<and> length (ste_text e) = 0"

definition SingleTextEdit_equals :: "SingleTextEdit \<Rightarrow> SingleTextEdit \<Rightarrow> bool" where
  "SingleTextEdit_equals a b \<longleftrightarrow> Range_equalsRange (Some (ste_range a)) (Some (ste_range b)) \<and> ste_text a = ste_text b"

definition SingleTextEdit_toSingleEditOperation :: "SingleTextEdit \<Rightarrow> ISingleEditOperation" where
  "SingleTextEdit_toSingleEditOperation e = \<lparr>op_range = ste_range e, op_text = ste_text e\<rparr>"

text \<open>The constructor only reports a failed assertion (\<^verbatim>\<open>assertFn\<close>); \<open>TextEdit_assertion\<close> is the
  condition it checks.\<close>

definition TextEdit_assertion :: "SingleTextEdit list \<Rightarrow> bool" where
  "TextEdit_assertion es = checkAdjacentItems es (\<lambda>a b.
     Position_isBeforeOrEqual (Range_getEndPosition (ste_range a)) (Range_getStartPosition (ste_range b)))"

definition new_TextEdit :: "SingleTextEdit list \<Rightarrow> TextEdit" where
  "new_TextEdit es = \<lparr>te_edits = es\<rparr>"

definition SingleTextEdit_toEdit :: "SingleTextEdit \<Rightarrow> TextEdit" where
  "SingleTextEdit_toEdit e = new_TextEdit [e]"

definition TextEdit_single :: "Range \<Rightarrow> js_string \<Rightarrow> TextEdit" where
  "TextEdit_single r t = new_TextEdit [\<lparr>ste_range = r, ste_text = t\<rparr>]"

definition TextEdit_insert :: "Position \<Rightarrow> js_string \<Rightarrow> TextEdit" where
  "TextEdit_insert p t = new_TextEdit [\<lparr>ste_range = Range_fromPositions p p, ste_text = t\<rparr>]"

fun TextEdit_normalize_loop :: "SingleTextEdit list \<Rightarrow> SingleTextEdit list \<Rightarrow> SingleTextEdit list" where
  "TextEdit_normalize_loop [] acc = acc"
| "TextEdit_normalize_loop (e # es) acc =
     (if acc \<noteq> [] \<and> Position_equals (Some (Range_getEndPosition (ste_range (last acc))))
                       (Some (Range_getStartPosition (ste_range e)))
      then TextEdit_normalize_loop es
             (butlast acc @ [\<lparr>ste_range = Range_plusRange (ste_range (last acc)) (ste_range e),
                              ste_text = ste_text (last acc) @ ste_text e\<rparr>])
      else if \<not> SingleTextEdit_isEmpty e then TextEdit_normalize_loop es (acc @ [e])
      else TextEdit_normalize_loop es acc)"

definition TextEdit_normalize :: "TextEdit \<Rightarrow> TextEdit" where
  "TextEdit_normalize this = new_TextEdit (TextEdit_normalize_loop (te_edits this) [])"

definition rangeFromPositions :: "Position \<Rightarrow> Position \<Rightarrow> Range result" where
  "rangeFromPositions s e =
     (if lineNumber s = lineNumber e \<and> column s = MAX_SAFE_INTEGER then Inr (Range_fromPositions e e)
      else if \<not> Position_isBeforeOrEqual s e then Inl BugIndicatingError
      else Inr (new_Range (lineNumber s) (column s) (lineNumber e) (column e)))"

text \<open>The union type \<^verbatim>\<open>Position | Range\<close>.\<close>

datatype PositionOrRange = PosResult Position | RangeResult Range

fun mapPosition_loop :: "SingleTextEdit list \<Rightarrow> Position \<Rightarrow> int \<Rightarrow> int \<Rightarrow> int \<Rightarrow> PositionOrRange result" where
  "mapPosition_loop [] p lineDelta curLine columnDeltaInCurLine =
     Inr (PosResult (new_Position (lineNumber p + lineDelta)
       (column p + (if lineNumber p + lineDelta = curLine then columnDeltaInCurLine else 0))))"
| "mapPosition_loop (e # es) p lineDelta curLine columnDeltaInCurLine =
     (let s = Range_getStartPosition (ste_range e);
          f = Range_getEndPosition (ste_range e);
          len = TextLength_ofText (ste_text e)
      in if Position_isBeforeOrEqual p s
         then Inr (PosResult (new_Position (lineNumber p + lineDelta)
                (column p + (if lineNumber p + lineDelta = curLine then columnDeltaInCurLine else 0))))
         else if Position_isBefore p f
         then let startPos = new_Position (lineNumber s + lineDelta)
                    (column s + (if lineNumber s + lineDelta = curLine then columnDeltaInCurLine else 0));
                  endPos = TextLength_addToPosition len startPos
              in rbind (rangeFromPositions startPos endPos) (\<lambda>r. Inr (RangeResult r))
         else let cd = (if lineNumber s + lineDelta \<noteq> curLine then 0 else columnDeltaInCurLine);
                  ld = lineDelta + (lineCount len - (endLineNumber (ste_range e) - startLineNumber (ste_range e)));
                  cd' = (if lineCount len = 0
                         then if lineNumber f \<noteq> lineNumber s then cd + (columnCount len - (column f - 1))
                              else cd + (columnCount len - (column f - column s))
                         else columnCount len)
              in mapPosition_loop es p ld (lineNumber f + ld) cd')"

definition TextEdit_mapPosition :: "TextEdit \<Rightarrow> Position \<Rightarrow> PositionOrRange result" where
  "TextEdit_mapPosition this p = mapPosition_loop (te_edits this) p 0 0 0"

fun result_start :: "PositionOrRange \<Rightarrow> Position" where
  "result_start (PosResult p) = p"
| "result_start (RangeResult r) = Range_getStartPosition r"

fun result_end :: "PositionOrRange \<Rightarrow> Position" where
  "result_end (PosResult p) = p"
| "result_end (RangeResult r) = Range_getEndPosition r"

definition TextEdit_mapRange :: "TextEdit \<Rightarrow> Range \<Rightarrow> Range result" where
  "TextEdit_mapRange this r =
     rbind (TextEdit_mapPosition this (Range_getStartPosition r)) (\<lambda>a.
     rbind (TextEdit_mapPosition this (Range_getEndPosition r)) (\<lambda>b.
       rangeFromPositions (result_start a) (result_end b)))"

text \<open>\<^verbatim>\<open>if (!r.isEmpty()) { result += text.getValueOfRange(r); }\<close>\<close>

definition append_value :: "AbstractText \<Rightarrow> Range \<Rightarrow> js_string \<Rightarrow> js_string result" where
  "append_value doc r acc =
     (if \<not> Range_isEmpty r then rbind (at_getValueOfRange doc r) (\<lambda>s. Inr (acc @ s)) else Inr acc)"

fun TextEdit_apply_loop :: "AbstractText \<Rightarrow> SingleTextEdit list \<Rightarrow> js_string \<Rightarrow> Position \<Rightarrow> js_string result" where
  "TextEdit_apply_loop doc [] acc lastEditEnd =
     rbind (AbstractText_endPositionExclusive doc) (\<lambda>docEnd.
     rbind (rangeFromPositions lastEditEnd docEnd) (\<lambda>r. append_value doc r acc))"
| "TextEdit_apply_loop doc (e # es) acc lastEditEnd =
     rbind (rangeFromPositions lastEditEnd (Range_getStartPosition (ste_range e))) (\<lambda>r.
     rbind (append_value doc r acc) (\<lambda>acc'.
       TextEdit_apply_loop doc es (acc' @ ste_text e) (Range_getEndPosition (ste_range e))))"

definition TextEdit_apply :: "TextEdit \<Rightarrow> AbstractText \<Rightarrow> js_string result" where
  "TextEdit_apply this doc = TextEdit_apply_loop doc (te_edits this) [] (new_Position 1 1)"

definition TextEdit_applyToString :: "TextEdit \<Rightarrow> js_string \<Rightarrow> js_string result" where
  "TextEdit_applyToString this str = TextEdit_apply this (StringText_methods (new_StringText str))"

fun newRanges_loop :: "SingleTextEdit list \<Rightarrow> int \<Rightarrow> int \<Rightarrow> int \<Rightarrow> Range list" where
  "newRanges_loop [] previousEditEndLineNumber lineOffset columnOffset = []"
| "newRanges_loop (e # es) previousEditEndLineNumber lineOffset columnOffset =
     (let r = ste_range e;
          newRangeStart = new_Position (startLineNumber r + lineOffset)
            (startColumn r + (if startLineNumber r = previousEditEndLineNumber then columnOffset else 0));
          newRange = TextLength_createRange (TextLength_ofText (ste_text e)) newRangeStart
      in newRange # newRanges_loop es (endLineNumber r) (endLineNumber newRange - endLineNumber r)
                      (endColumn newRange - endColumn r))"

definition TextEdit_getNewRanges :: "TextEdit \<Rightarrow> Range list" where
  "TextEdit_getNewRanges this = newRanges_loop (te_edits this) 0 0 0"

definition TextEdit_inverse :: "TextEdit \<Rightarrow> AbstractText \<Rightarrow> TextEdit result" where
  "TextEdit_inverse this doc =
     rbind (rmap (\<lambda>(e, r). rbind (at_getValueOfRange doc (ste_range e)) (\<lambda>s.
                    Inr \<lparr>ste_range = r, ste_text = s\<rparr>))
              (zip (te_edits this) (TextEdit_getNewRanges this))) (\<lambda>es. Inr (new_TextEdit es))"

definition TextEdit_inverseMapPosition :: "TextEdit \<Rightarrow> Position \<Rightarrow> AbstractText \<Rightarrow> PositionOrRange result" where
  "TextEdit_inverseMapPosition this p doc = rbind (TextEdit_inverse this doc) (\<lambda>rev. TextEdit_mapPosition rev p)"

definition TextEdit_inverseMapRange :: "TextEdit \<Rightarrow> Range \<Rightarrow> AbstractText \<Rightarrow> Range result" where
  "TextEdit_inverseMapRange this r doc = rbind (TextEdit_inverse this doc) (\<lambda>rev. TextEdit_mapRange rev r)"

section \<open>What a text promises\<close>

locale abstract_text =
  fixes ok :: "'t \<Rightarrow> bool" and methods :: "'t \<Rightarrow> AbstractText" and content :: "'t \<Rightarrow> js_string"
  assumes length_law: "ok t \<Longrightarrow> at_length (methods t) = Inr (tlen (content t))"
    and value_law: "ok t \<Longrightarrow> a \<le> b \<Longrightarrow> b \<le> length (content t) \<Longrightarrow>
      at_getValueOfRange (methods t) (Range_fromPositions (pos_at (content t) a) (pos_at (content t) b))
        = Inr (take (b - a) (drop a (content t)))"
    and short_law: "ok t \<Longrightarrow> int (length (content t)) < MAX_SAFE_INTEGER - 1"
begin

lemma endPosition: "ok t \<Longrightarrow>
    AbstractText_endPositionExclusive (methods t) = Inr (pos_at (content t) (length (content t)))"
  by (simp add: AbstractText_endPositionExclusive_def length_law pos_at_def)

lemma toRange_tlen: "TextLength_toRange (tlen s) = Range_fromPositions (pos_at s 0) (pos_at s (length s))"
  by (simp add: TextLength_toRange_def Range_fromPositions_def pos_at_eq TextLength_zero_def)

lemma getValue: "ok t \<Longrightarrow> AbstractText_getValue (methods t) = Inr (content t)"
  using value_law [of t 0 "length (content t)"]
  by (simp add: AbstractText_getValue_def length_law toRange_tlen)

end

section \<open>The two implementations\<close>

definition st_ok :: "StringText \<Rightarrow> bool" where
  "st_ok t \<longleftrightarrow> st_t t = new_PositionOffsetTransformer (st_value t)
     \<and> int (length (st_value t)) < MAX_SAFE_INTEGER - 1"

lemma StringText_value:
  assumes "a \<le> b" "b \<le> length v"
  shows "StringText_getValueOfRange (new_StringText v) (Range_fromPositions (pos_at v a) (pos_at v b))
    = Inr (take (b - a) (drop a v))"
  using assms getOffset_pos_at [of a v] getOffset_pos_at [of b v] pos_at_mono [OF assms(1), of v]
  by (simp add: StringText_getValueOfRange_def PositionOffsetTransformer_getOffsetRange_def new_StringText_def
      new_OffsetRange_def OffsetRange_substring_def js_substring_nat)

interpretation string_text: abstract_text st_ok StringText_methods st_value
proof
  fix t :: StringText and a b :: nat
  assume t: "st_ok t"
  then have eq: "t = new_StringText (st_value t)" by (simp add: st_ok_def new_StringText_def)
  show "at_length (StringText_methods t) = Inr (tlen (st_value t))"
    using t by (simp add: StringText_methods_def StringText_length_def st_ok_def textLength_tlen)
  show "int (length (st_value t)) < MAX_SAFE_INTEGER - 1" using t by (simp add: st_ok_def)
  assume "a \<le> b" "b \<le> length (st_value t)"
  from StringText_value [OF this] eq
  show "at_getValueOfRange (StringText_methods t)
      (Range_fromPositions (pos_at (st_value t) a) (pos_at (st_value t) b)) = Inr (take (b - a) (drop a (st_value t)))"
    by (simp add: StringText_methods_def)
qed

text \<open>A line based text is well formed when every line exists and holds no line feed.\<close>

definition lbt_lines :: "LineBasedText \<Rightarrow> js_string list" where
  "lbt_lines t = map (\<lambda>i. case getLineContent t i of None \<Rightarrow> [] | Some s \<Rightarrow> s) [1 .. lbt_lineCount t]"

definition lbt_ok :: "LineBasedText \<Rightarrow> bool" where
  "lbt_ok t \<longleftrightarrow> 1 \<le> lbt_lineCount t
     \<and> list_all (\<lambda>i. case getLineContent t i of None \<Rightarrow> False | Some s \<Rightarrow> LF \<notin> set s) [1 .. lbt_lineCount t]
     \<and> int (length (join_lines (lbt_lines t))) < MAX_SAFE_INTEGER - 1"

abbreviation lbt_content :: "LineBasedText \<Rightarrow> js_string" where
  "lbt_content t \<equiv> join_lines (lbt_lines t)"

lemma lbt_lines_at:
  assumes "lbt_ok t"
  shows "\<forall>l \<in> set (lbt_lines t). LF \<notin> set l" and "int (length (lbt_lines t)) = lbt_lineCount t"
    and "k < length (lbt_lines t) \<Longrightarrow> getLineContent t (int k + 1) = Some (lbt_lines t ! k)"
proof -
  show "\<forall>l \<in> set (lbt_lines t). LF \<notin> set l"
    using assms by (auto simp: lbt_ok_def lbt_lines_def list_all_iff split: option.splits)
  show len: "int (length (lbt_lines t)) = lbt_lineCount t"
    using assms by (simp add: lbt_ok_def lbt_lines_def)
  assume "k < length (lbt_lines t)"
  then have "int k + 1 \<in> {1..lbt_lineCount t}" using len by simp
  then have "getLineContent t (int k + 1) \<noteq> None" using assms by (auto simp: lbt_ok_def list_all_iff split: option.splits)
  with \<open>k < length (lbt_lines t)\<close> show "getLineContent t (int k + 1) = Some (lbt_lines t ! k)"
    by (auto simp: lbt_lines_def add.commute)
qed

text \<open>The lines between two lines of a text, each behind a line feed.\<close>

lemma drop_line_offset:
  "k < length ls \<Longrightarrow> line_offset ls k \<le> length (join_lines ls)
    \<and> drop (line_offset ls k) (join_lines ls) = join_lines (drop k ls)"
proof (induction ls arbitrary: k rule: join_lines.induct)
  case (3 l m ls)
  then show ?case by (cases k) auto
qed auto

lemma join_lines_head:
  assumes "k < length ls"
  obtains rest where "drop (line_offset ls k) (join_lines ls) = ls ! k @ rest"
    "Suc k < length ls \<Longrightarrow> rest = LF # drop (line_offset ls (Suc k)) (join_lines ls)"
proof (cases "Suc k < length ls")
  case True
  then have "drop k ls = ls ! k # ls ! Suc k # drop (Suc (Suc k)) ls" "drop (Suc k) ls = ls ! Suc k # drop (Suc (Suc k)) ls"
    by (simp_all add: Cons_nth_drop_Suc)
  with True drop_line_offset [of k ls] drop_line_offset [of "Suc k" ls] show ?thesis
    by (intro that [of "LF # drop (line_offset ls (Suc k)) (join_lines ls)"]) auto
next
  case False
  with assms have "drop k ls = [ls ! k]" by (simp add: Cons_nth_drop_Suc [symmetric])
  with assms drop_line_offset [of k ls] False show ?thesis by (intro that [of "[]"]) auto
qed

lemma join_lines_between:
  "k < l \<Longrightarrow> l < length ls \<Longrightarrow> drop (line_offset ls k) (join_lines ls)
    = ls ! k @ concat (map (\<lambda>i. LF # ls ! i) [Suc k ..< l]) @ LF # drop (line_offset ls l) (join_lines ls)"
proof (induction l)
  case (Suc l)
  show ?case
  proof (cases "k = l")
    case True
    with Suc.prems show ?thesis by (auto intro: join_lines_head [of k ls])
  next
    case False
    then have "drop (line_offset ls l) (join_lines ls) = ls ! l @ LF # drop (line_offset ls (Suc l)) (join_lines ls)"
      using Suc.prems by (auto intro: join_lines_head [of l ls])
    with False Suc show ?thesis by simp
  qed
qed simp

lemma upto_upt_Suc: "[int a + 1 .. int b] = map (\<lambda>i. int i + 1) [a ..< b]"
  by (rule nth_equalityI) auto

lemma LineBasedText_value:
  assumes t: "lbt_ok t" and ab: "a \<le> b" "b \<le> length (lbt_content t)"
  shows "LineBasedText_getValueOfRange t (Range_fromPositions (pos_at (lbt_content t) a) (pos_at (lbt_content t) b))
    = Inr (take (b - a) (drop a (lbt_content t)))"
proof -
  let ?ls = "lbt_lines t" and ?s = "lbt_content t"
  note lines = lbt_lines_at [OF t]
  have ne: "?ls \<noteq> []" using lines(2) t by (auto simp: lbt_ok_def)
  obtain k i where k: "k < length ?ls" "i \<le> length (?ls ! k)" "a = line_offset ?ls k + i"
    using line_offset_cover [OF ne, of a] ab by auto
  obtain l j where l: "l < length ?ls" "j \<le> length (?ls ! l)" "b = line_offset ?ls l + j"
    using line_offset_cover [OF ne ab(2)] by auto
  have pos: "pos_at ?s a = new_Position (int k + 1) (int i + 1)" "pos_at ?s b = new_Position (int l + 1) (int j + 1)"
    using pos_at_lines [OF lines(1)] k l by auto
  then have le: "k < l \<or> k = l \<and> i \<le> j" using pos_at_mono [OF ab(1), of ?s] by (auto simp: Position_le_iff)
  have r: "Range_fromPositions (pos_at ?s a) (pos_at ?s b)
      = \<lparr>startLineNumber = int k + 1, startColumn = int i + 1, endLineNumber = int l + 1, endColumn = int j + 1\<rparr>"
    unfolding pos using le by (auto simp: Range_fromPositions_def new_Range_def)
  have content: "line_content t (int k + 1) = Inr (?ls ! k)" "line_content t (int l + 1) = Inr (?ls ! l)"
    using lines(3) k l by (simp_all add: line_content_def)
  obtain rest where rest: "drop (line_offset ?ls l) ?s = ?ls ! l @ rest" using join_lines_head [OF l(1)] .
  show ?thesis
  proof (cases "k = l")
    case True
    have "drop a ?s = drop i (?ls ! k) @ rest"
      using k(2) rest True by (simp add: k(3) add.commute [of _ i] flip: drop_drop)
    with True le k l have rhs: "take (b - a) (drop a ?s) = take (j - i) (drop i (?ls ! k))" by simp
    show ?thesis unfolding r rhs using True le content l(2)
      by (simp add: LineBasedText_getValueOfRange_def js_substring_nat)
  next
    case False
    then have kl: "k < l" using le by simp
    let ?C = "concat (map (\<lambda>i. LF # ?ls ! i) [Suc k ..< l])"
    have btw: "drop (line_offset ?ls k) ?s = ?ls ! k @ ?C @ LF # ?ls ! l @ rest"
      using join_lines_between [OF kl l(1)] rest by simp
    have "length (drop (line_offset ?ls k) ?s) = length (?ls ! k) + length ?C + 1 + length (drop (line_offset ?ls l) ?s)"
      using btw rest by simp
    then have off: "line_offset ?ls l = line_offset ?ls k + length (?ls ! k) + length ?C + 1"
      using drop_line_offset [OF k(1)] drop_line_offset [OF l(1)] unfolding length_drop by linarith
    have "drop a ?s = drop i (?ls ! k) @ ?C @ LF # ?ls ! l @ rest"
      using k(2) btw by (simp add: k(3) add.commute [of _ i] flip: drop_drop)
    moreover have "b - a = length (drop i (?ls ! k)) + (length ?C + Suc j)"
      using off k l by simp
    ultimately have rhs: "take (b - a) (drop a ?s) = drop i (?ls ! k) @ ?C @ LF # take j (?ls ! l)"
      using l(2) by simp
    have "map (\<lambda>i. LF # (case getLineContent t i of None \<Rightarrow> js_undefined_string | Some s \<Rightarrow> s)) [int k + 1 + 1 .. int l]
        = map (\<lambda>i. LF # ?ls ! i) [Suc k ..< l]"
      using upto_upt_Suc [of "Suc k" l] lines(3) l(1) by (simp add: add.commute)
    with False k(2) l(2) content show ?thesis
      unfolding rhs r by (simp add: LineBasedText_getValueOfRange_def js_substring_from_def js_substring_in_range)
  qed
qed

lemma LineBasedText_len: "lbt_ok t \<Longrightarrow> LineBasedText_length t = Inr (tlen (lbt_content t))"
proof -
  assume t: "lbt_ok t"
  let ?ls = "lbt_lines t" and ?k = "length (lbt_lines t) - 1"
  note lines = lbt_lines_at [OF t]
  have k: "?k < length ?ls" "lbt_lineCount t = int ?k + 1" using lines(2) t by (auto simp: lbt_ok_def)
  then have "drop ?k ?ls = [?ls ! ?k]" by (simp add: Cons_nth_drop_Suc [symmetric])
  then have "line_offset ?ls ?k + length (?ls ! ?k) = length (lbt_content t)"
    using drop_line_offset [OF k(1)] by (metis join_lines.simps(2) le_add_diff_inverse length_drop)
  with take_join_lines [OF lines(1) k(1) order_refl] have "tlen (lbt_content t) = new_TextLength (int ?k) (int (length (?ls ! ?k)))"
    by simp
  then show ?thesis using lines(3) [OF k(1)] k(2) by (simp add: LineBasedText_length_def line_content_def)
qed

interpretation line_based_text: abstract_text lbt_ok LineBasedText_methods lbt_content
  by unfold_locales
    (simp_all add: LineBasedText_methods_def LineBasedText_value LineBasedText_len, simp add: lbt_ok_def)

section \<open>TextEdit refines OffsetEdit\<close>

definition offset_of :: "js_string \<Rightarrow> Position \<Rightarrow> int" where
  "offset_of s p = nan_to_zero (PositionOffsetTransformer_getOffset (new_PositionOffsetTransformer s) p)"

definition to_offset_edit :: "js_string \<Rightarrow> SingleTextEdit \<Rightarrow> code_unit SingleOffsetEdit" where
  "to_offset_edit s e =
     \<lparr>replaceRange = \<lparr>start = offset_of s (Range_getStartPosition (ste_range e)),
        endExclusive = offset_of s (Range_getEndPosition (ste_range e))\<rparr>, newText = ste_text e\<rparr>"

definition te_offsets :: "js_string \<Rightarrow> TextEdit \<Rightarrow> code_unit OffsetEdit" where
  "te_offsets s te = \<lparr>edits = map (to_offset_edit s) (te_edits te)\<rparr>"

definition te_ok :: "js_string \<Rightarrow> TextEdit \<Rightarrow> bool" where
  "te_ok s te \<longleftrightarrow> TextEdit_assertion (te_edits te)
     \<and> list_all (\<lambda>e. range_valid (ste_range e) \<and> pos_valid s (Range_getStartPosition (ste_range e))
          \<and> pos_valid s (Range_getEndPosition (ste_range e))) (te_edits te)"

text \<open>The same, with the offsets of the edits at hand.\<close>

fun te_fits :: "js_string \<Rightarrow> nat \<Rightarrow> SingleTextEdit list \<Rightarrow> bool" where
  "te_fits s p [] \<longleftrightarrow> p \<le> length s"
| "te_fits s p (e # es) \<longleftrightarrow> (\<exists>a b. p \<le> a \<and> a \<le> b \<and> b \<le> length s
     \<and> ste_range e = Range_fromPositions (pos_at s a) (pos_at s b) \<and> te_fits s b es)"

lemma offset_of_pos_at [simp]: "k \<le> length s \<Longrightarrow> offset_of s (pos_at s k) = int k"
  by (simp add: offset_of_def nan_to_zero_def getOffset_pos_at)

lemma te_fits_le: "te_fits s p es \<Longrightarrow> p \<le> length s"
  by (cases es) auto

lemma te_fits_cases:
  assumes "te_fits s p (e # es)"
  obtains a b where "p \<le> a" "a \<le> b" "b \<le> length s" "ste_range e = Range_fromPositions (pos_at s a) (pos_at s b)"
    "Range_getStartPosition (ste_range e) = pos_at s a" "Range_getEndPosition (ste_range e) = pos_at s b"
    "est (to_offset_edit s e) = int a" "een (to_offset_edit s e) = int b" "newText (to_offset_edit s e) = ste_text e"
    "te_fits s b es"
proof -
  from assms obtain a b where ab: "p \<le> a" "a \<le> b" "b \<le> length s"
    "ste_range e = Range_fromPositions (pos_at s a) (pos_at s b)" "te_fits s b es" by auto
  moreover have "pos_at s a \<le> pos_at s b" by (rule pos_at_mono) fact
  ultimately show thesis by (intro that [of a b]) (simp_all add: to_offset_edit_def)
qed

lemma te_fits_fits: "te_fits s p es \<Longrightarrow> fits (int p) (int (length s)) (map (to_offset_edit s) es)"
  by (induction es arbitrary: p) (auto elim!: te_fits_cases simp del: te_fits.simps(2))

lemma range_valid_eta: "range_valid (r :: Range) \<Longrightarrow> r = Range_fromPositions (Range_getStartPosition r) (Range_getEndPosition r)"
  by (simp add: Range_eq_iff range_valid_def)

lemma te_ok_fits: "te_ok s te \<Longrightarrow> te_fits s 0 (te_edits te)"
proof -
  have "checkAdjacentItems es (\<lambda>a b. Position_isBeforeOrEqual (Range_getEndPosition (ste_range a)) (Range_getStartPosition (ste_range b)))
      \<Longrightarrow> list_all (\<lambda>e. range_valid (ste_range e) \<and> pos_valid s (Range_getStartPosition (ste_range e))
          \<and> pos_valid s (Range_getEndPosition (ste_range e))) es \<Longrightarrow> p \<le> length s \<Longrightarrow>
     (es \<noteq> [] \<longrightarrow> pos_at s p \<le> Range_getStartPosition (ste_range (hd es))) \<Longrightarrow> te_fits s p es" for es p
  proof (induction es arbitrary: p)
    case (Cons e es)
    obtain a b where ab: "a \<le> length s" "b \<le> length s" "Range_getStartPosition (ste_range e) = pos_at s a"
      "Range_getEndPosition (ste_range e) = pos_at s b" using Cons.prems(2) by (auto simp: pos_valid_iff)
    moreover have "te_fits s b es" using Cons ab by (cases es) (auto split: if_splits)
    moreover have "ste_range e = Range_fromPositions (pos_at s a) (pos_at s b)" "pos_at s a \<le> pos_at s b"
      using Cons.prems(2) ab range_valid_eta [of "ste_range e"] by (simp_all add: range_valid_def)
    ultimately show ?case using Cons.prems pos_at_le_iff [of p s a] pos_at_le_iff [of a s b]
      unfolding te_fits.simps by - (rule exI [of _ a], rule exI [of _ b], auto)
  qed simp
  moreover have "pos_at s 0 \<le> p" if "pos_valid s p" for p
    using that pos_at_mono [of 0 _ s] by (auto simp: pos_valid_iff)
  ultimately show "te_ok s te \<Longrightarrow> te_fits s 0 (te_edits te)"
    by (cases "te_edits te") (auto simp: te_ok_def TextEdit_assertion_def simp del: te_fits.simps(2))
qed

lemma te_ok_oe_fits: "te_ok s te \<Longrightarrow> oe_fits (te_offsets s te) s"
  using te_fits_fits [OF te_ok_fits] by (simp add: oe_fits_def te_offsets_def)

lemma column_pos_at: "k \<le> length s \<Longrightarrow> column (pos_at s k) \<le> int (length s) + 1"
proof -
  assume "k \<le> length s"
  moreover have "columnCount (tlen u) \<le> int (length u)" for u
    by (induction u rule: rev_induct) (auto simp: tlen_append tlen_single TextLength_add_def TextLength_zero_def)
  from this [of "take k s"] have "columnCount (tlen (take k s)) \<le> int k" by (simp split: if_splits)
  ultimately show ?thesis by (simp add: pos_at_eq)
qed

context abstract_text begin

lemma rangeFromPositions_ok:
  "ok t \<Longrightarrow> a \<le> b \<Longrightarrow> b \<le> length (content t) \<Longrightarrow>
   rangeFromPositions (pos_at (content t) a) (pos_at (content t) b)
     = Inr (Range_fromPositions (pos_at (content t) a) (pos_at (content t) b))"
  using column_pos_at [of a "content t"] short_law [of t] pos_at_mono [of a b "content t"]
  by (simp add: rangeFromPositions_def Range_fromPositions_def)

lemma append_value_ok:
  assumes "ok t" "a \<le> b" "b \<le> length (content t)"
  shows "append_value (methods t) (Range_fromPositions (pos_at (content t) a) (pos_at (content t) b)) acc
    = Inr (acc @ take (b - a) (drop a (content t)))"
proof (cases "a = b")
  case True
  then show ?thesis by (simp add: append_value_def Range_isEmpty_def Range_fromPositions_def new_Range_def)
next
  case False
  then have "pos_at (content t) a \<noteq> pos_at (content t) b" using assms pos_at_inj by simp
  then have "\<not> Range_isEmpty (Range_fromPositions (pos_at (content t) a) (pos_at (content t) b))"
    using pos_at_mono [OF assms(2), of "content t"] by (simp add: Range_isEmpty_iff)
  with assms show ?thesis by (simp add: append_value_def value_law)
qed

lemma apply_loop_ok:
  assumes "ok t"
  shows "te_fits (content t) p es \<Longrightarrow> TextEdit_apply_loop (methods t) es acc (pos_at (content t) p)
    = Inr (acc @ app_at (int p) (drop p (content t)) (map (to_offset_edit (content t)) es))"
proof (induction es arbitrary: p acc)
  case Nil
  with assms show ?case by (simp add: endPosition rangeFromPositions_ok append_value_ok)
next
  case (Cons e es)
  from Cons.prems show ?case
  proof (rule te_fits_cases)
    fix a b
    assume ab: "p \<le> a" "a \<le> b" "b \<le> length (content t)" and e: "Range_getStartPosition (ste_range e) = pos_at (content t) a"
      "Range_getEndPosition (ste_range e) = pos_at (content t) b"
      "est (to_offset_edit (content t) e) = int a" "een (to_offset_edit (content t) e) = int b"
      "newText (to_offset_edit (content t) e) = ste_text e"
      and fits: "te_fits (content t) b es"
    from ab have "drop (nat (int b - int p)) (drop p (content t)) = drop b (content t)" by (simp add: nat_diff_distrib)
    with ab e Cons.IH [OF fits] show ?thesis using assms
      by (simp add: rangeFromPositions_ok append_value_ok nat_diff_distrib)
  qed
qed

lemma apply_refines:
  "ok t \<Longrightarrow> te_ok (content t) te \<Longrightarrow>
   TextEdit_apply te (methods t) = Inr (OffsetEdit_apply (te_offsets (content t) te) (content t))"
  using apply_loop_ok [of t 0 "te_edits te" "[]"] te_ok_fits [of "content t" te] te_ok_oe_fits [of "content t" te]
  by (simp add: TextEdit_apply_def pos_at_0 OffsetEdit_apply_eq te_offsets_def)

end

section \<open>The ranges of the new text\<close>

definition te_no_pairs :: "TextEdit \<Rightarrow> bool" where
  "te_no_pairs te \<longleftrightarrow> list_all (\<lambda>e. no_pairs (ste_text e)) (te_edits te)"

text \<open>The loop of \<^verbatim>\<open>getNewRanges\<close> carries the position \<open>E\<close> behind the last edit and its image \<open>N\<close> in the new
  text; the next edit starts as far behind \<open>N\<close> as it did behind \<open>E\<close>.\<close>

abbreviation new_ranges_from :: "SingleTextEdit list \<Rightarrow> Position \<Rightarrow> Position \<Rightarrow> Range list" where
  "new_ranges_from es E N \<equiv> newRanges_loop es (lineNumber E) (lineNumber N - lineNumber E) (column N - column E)"

lemma newRanges_loop_zero: "newRanges_loop es x l 0 = newRanges_loop es y l 0"
  by (cases es) (simp_all add: Let_def)

lemma new_ranges_from_Cons:
  fixes E N S :: Position
  assumes "S = Range_getStartPosition (ste_range e)" "M = TextLength_addToPosition (TextLength_betweenPositions E S) N"
    and "tl_nonneg (TextLength_ofText (ste_text e))"
  shows "new_ranges_from (e # es) E N = TextLength_createRange (TextLength_ofText (ste_text e)) M
    # new_ranges_from es (Range_getEndPosition (ste_range e)) (TextLength_addToPosition (TextLength_ofText (ste_text e)) M)"
proof -
  have M: "new_Position (startLineNumber (ste_range e) + (lineNumber N - lineNumber E))
      (startColumn (ste_range e) + (if startLineNumber (ste_range e) = lineNumber E then column N - column E else 0)) = M"
    using assms by (auto simp: TextLength_addToPosition_def TextLength_betweenPositions_def Range_getStartPosition_def)
  let ?r = "TextLength_createRange (TextLength_ofText (ste_text e)) M"
  have "TextLength_addToPosition (TextLength_ofText (ste_text e)) M = Range_getEndPosition ?r"
    using TextLength_createRange_ends [OF assms(3)] by simp
  then have "endLineNumber ?r = lineNumber (TextLength_addToPosition (TextLength_ofText (ste_text e)) M)"
    "endColumn ?r = column (TextLength_addToPosition (TextLength_ofText (ste_text e)) M)"
    by (simp_all add: Range_getEndPosition_def)
  then show ?thesis by (simp add: M Let_def Range_getEndPosition_def)
qed

text \<open>Where the first of the remaining edits lands in the new text.\<close>

lemma edit_image:
  assumes ab: "p \<le> a" "a \<le> b" "b \<le> length s"
    and e: "est (to_offset_edit s e) = int a" "een (to_offset_edit s e) = int b" "newText (to_offset_edit s e) = ste_text e"
    and M: "M = P @ app_at (int p) (drop p s) (map (to_offset_edit s) (e # es))"
  shows "M = (P @ take (a - p) (drop p s) @ ste_text e) @ app_at (int b) (drop b s) (map (to_offset_edit s) es)"
    and "pos_at M (length P + (a - p))
      = TextLength_addToPosition (TextLength_betweenPositions (pos_at s p) (pos_at s a)) (pos_at M (length P))"
    and "pos_at M (length P + (a - p) + length (ste_text e))
      = TextLength_addToPosition (tlen (ste_text e)) (pos_at M (length P + (a - p)))"
proof -
  let ?A = "take (a - p) (drop p s)" and ?T = "ste_text e"
  show split: "M = (P @ ?A @ ?T) @ app_at (int b) (drop b s) (map (to_offset_edit s) es)"
    using M ab e by (simp add: nat_diff_distrib)
  have lenA: "length ?A = a - p" using ab by simp
  have "TextLength_betweenPositions (pos_at s p) (pos_at s a) = tlen ?A"
    using pos_at_append [OF ab(1), of s] by simp
  then show "pos_at M (length P + (a - p))
      = TextLength_addToPosition (TextLength_betweenPositions (pos_at s p) (pos_at s a)) (pos_at M (length P))"
    using pos_at_append [of "length P" "length P + (a - p)" M] lenA by (simp add: split)
  show "pos_at M (length P + (a - p) + length ?T) = TextLength_addToPosition (tlen ?T) (pos_at M (length P + (a - p)))"
    using pos_at_append [of "length P + (a - p)" "length P + (a - p) + length ?T" M] lenA by (simp add: split)
qed

context abstract_text begin

lemma inverse_loop_refines:
  assumes t: "ok t"
  shows "te_fits (content t) p es \<Longrightarrow> list_all (\<lambda>e. no_pairs (ste_text e)) es \<Longrightarrow>
    M = P @ app_at (int p) (drop p (content t)) (map (to_offset_edit (content t)) es) \<Longrightarrow> m = length P \<Longrightarrow>
    \<exists>ies. rmap (\<lambda>(e, r). rbind (at_getValueOfRange (methods t) (ste_range e)) (\<lambda>s. Inr \<lparr>ste_range = r, ste_text = s\<rparr>))
        (zip es (new_ranges_from es (pos_at (content t) p) (pos_at M m))) = Inr ies
      \<and> te_fits M m ies
      \<and> inverse_loop (content t) (map (to_offset_edit (content t)) es) (int m - int p) = Inr (map (to_offset_edit M) ies)"
proof (induction es arbitrary: p P m)
  case (Cons e es)
  let ?s = "content t"
  from Cons.prems(1) show ?case
  proof (rule te_fits_cases)
    fix a b
    assume ab: "p \<le> a" "a \<le> b" "b \<le> length ?s" and r: "ste_range e = Range_fromPositions (pos_at ?s a) (pos_at ?s b)"
      and e: "Range_getStartPosition (ste_range e) = pos_at ?s a" "Range_getEndPosition (ste_range e) = pos_at ?s b"
      "est (to_offset_edit ?s e) = int a" "een (to_offset_edit ?s e) = int b" "newText (to_offset_edit ?s e) = ste_text e"
      and fits: "te_fits ?s b es"
    let ?T = "ste_text e" and ?a = "m + (a - p)" and ?b = "m + (a - p) + length (ste_text e)"
    note img = edit_image [OF ab e(3-5) Cons.prems(3), folded Cons.prems(4)]
    have np: "TextLength_ofText ?T = tlen ?T" using Cons.prems(2) by (simp add: TextLength_ofText_tlen)
    have ranges: "new_ranges_from (e # es) (pos_at ?s p) (pos_at M m)
        = TextLength_createRange (tlen ?T) (pos_at M ?a) # new_ranges_from es (pos_at ?s b) (pos_at M ?b)"
      using new_ranges_from_Cons [of "pos_at ?s a" e "pos_at M ?a" "pos_at ?s p" "pos_at M m"] img(2,3) np e by simp
    have rng: "TextLength_createRange (tlen ?T) (pos_at M ?a) = Range_fromPositions (pos_at M ?a) (pos_at M ?b)"
      by (simp add: Range_eq_iff TextLength_createRange_ends img(3) TextLength_addToPosition_ge)
    obtain ies where ies: "rmap (\<lambda>(e, r). rbind (at_getValueOfRange (methods t) (ste_range e)) (\<lambda>s. Inr \<lparr>ste_range = r, ste_text = s\<rparr>))
        (zip es (new_ranges_from es (pos_at ?s b) (pos_at M ?b))) = Inr ies" "te_fits M ?b ies"
      "inverse_loop ?s (map (to_offset_edit ?s) es) (int ?b - int b) = Inr (map (to_offset_edit M) ies)"
    proof -
      have "list_all (\<lambda>e. no_pairs (ste_text e)) es" using Cons.prems(2) by simp
      moreover have "?b = length (P @ take (a - p) (drop p ?s) @ ?T)" using ab Cons.prems(4) by simp
      ultimately show ?thesis using that Cons.IH [OF fits _ img(1)] by blast
    qed
    let ?i = "\<lparr>ste_range = Range_fromPositions (pos_at M ?a) (pos_at M ?b), ste_text = take (b - a) (drop a ?s)\<rparr>"
    have "?b \<le> length M" using img(1) ab Cons.prems(4) by simp
    have "te_fits M m (?i # ies)" using ies(2) \<open>?b \<le> length M\<close>
      unfolding te_fits.simps by - (rule exI [of _ ?a], rule exI [of _ ?b], simp)
    moreover have "inverse_loop ?s (map (to_offset_edit ?s) (e # es)) (int m - int p) = Inr (map (to_offset_edit M) (?i # ies))"
    proof -
      have delta: "int m - int p + edit_delta (to_offset_edit ?s e) = int ?b - int b"
        using ab e by (simp add: edit_delta_def OffsetRange_length_def)
      have at: "int a + (int m - int p) = int ?a" using ab by simp
      have new: "OffsetRange_ofStartAndLength (int ?a) (int (length ?T)) = Inr \<lparr>start = int ?a, endExclusive = int ?b\<rparr>"
        by (simp add: OffsetRange_ofStartAndLength_def new_OffsetRange_def)
      have "pos_at M ?a \<le> pos_at M ?b" by (rule pos_at_mono) simp
      then have img: "to_offset_edit M ?i = new_SingleOffsetEdit \<lparr>start = int ?a, endExclusive = int ?b\<rparr> (js_substring ?s (int a) (int b))"
        using \<open>?b \<le> length M\<close> ab by (simp add: to_offset_edit_def new_SingleOffsetEdit_def js_substring_nat)
      show ?thesis unfolding list.map inverse_loop.simps e delta at new ies(3) rbind_simps img ..
    qed
    moreover have "at_getValueOfRange (methods t) (ste_range e) = Inr (take (b - a) (drop a ?s))"
      using value_law [OF t ab(2,3)] r by simp
    then have "rmap (\<lambda>(e, r). rbind (at_getValueOfRange (methods t) (ste_range e)) (\<lambda>s. Inr \<lparr>ste_range = r, ste_text = s\<rparr>))
        (zip (e # es) (new_ranges_from (e # es) (pos_at ?s p) (pos_at M m))) = Inr (?i # ies)"
      by (simp add: ranges rng ies(1) del: newRanges_loop.simps)
    ultimately show ?thesis by blast
  qed
qed simp

lemma inverse_ok:
  assumes "ok t" "te_ok (content t) te" "te_no_pairs te" and M: "TextEdit_apply te (methods t) = Inr M"
  shows "\<exists>inv. TextEdit_inverse te (methods t) = Inr inv \<and> te_fits M 0 (te_edits inv)
    \<and> OffsetEdit_inverse (te_offsets (content t) te) (content t) = Inr (te_offsets M inv)"
proof -
  have M': "M = [] @ app_at (int 0) (drop 0 (content t)) (map (to_offset_edit (content t)) (te_edits te))"
    using apply_refines [OF assms(1,2)] M te_ok_oe_fits [OF assms(2)]
    by (simp add: OffsetEdit_apply_eq) (simp add: te_offsets_def)
  have "newRanges_loop (te_edits te) 0 0 0 = new_ranges_from (te_edits te) (pos_at (content t) 0) (pos_at M 0)"
    by (simp add: pos_at_0 newRanges_loop_zero [of _ 0 _ 1])
  then obtain ies where "TextEdit_inverse te (methods t) = Inr (new_TextEdit ies)" "te_fits M 0 ies"
    and inv: "inverse_loop (content t) (map (to_offset_edit (content t)) (te_edits te)) 0 = Inr (map (to_offset_edit M) ies)"
    using inverse_loop_refines [OF assms(1) te_ok_fits [OF assms(2)] _ M' refl] assms(3)
    by (auto simp: TextEdit_inverse_def TextEdit_getNewRanges_def te_no_pairs_def)
  moreover have "OffsetEdit_inverse (te_offsets (content t) te) (content t) = Inr (te_offsets M (new_TextEdit ies))"
    using inv te_fits_fits [OF \<open>te_fits M 0 ies\<close>]
    by (simp add: OffsetEdit_inverse_def te_offsets_def new_TextEdit_def)
  ultimately show ?thesis by (auto simp: new_TextEdit_def)
qed

text \<open>Undoing an edit on any text that holds its result restores the original content.\<close>

lemma inverse_roundtrip:
  assumes "ok t" "te_ok (content t) te" "te_no_pairs te" "TextEdit_apply te (methods t) = Inr (content t')" "ok t'"
  shows "\<exists>inv. TextEdit_inverse te (methods t) = Inr inv \<and> TextEdit_apply inv (methods t') = Inr (content t)"
proof -
  obtain inv where inv: "TextEdit_inverse te (methods t) = Inr inv" "te_fits (content t') 0 (te_edits inv)"
    "OffsetEdit_inverse (te_offsets (content t) te) (content t) = Inr (te_offsets (content t') inv)"
    using inverse_ok [OF assms(1-4)] by blast
  have "content t' = OffsetEdit_apply (te_offsets (content t) te) (content t)"
    using apply_refines [OF assms(1,2)] assms(4) by simp
  then have "OffsetEdit_apply (te_offsets (content t') inv) (content t') = content t"
    and f: "oe_fits (te_offsets (content t') inv) (content t')"
    using OffsetEdit_inverse_ok [OF te_ok_oe_fits [OF assms(2)]] inv(3) by auto
  then have "app_at 0 (content t') (map (to_offset_edit (content t')) (te_edits inv)) = content t"
    by (simp add: OffsetEdit_apply_eq [OF f]) (simp add: te_offsets_def)
  then show ?thesis using apply_loop_ok [OF assms(5) inv(2), of "[]"] inv(1)
    by (simp add: TextEdit_apply_def pos_at_0)
qed

end

section \<open>mapPosition\<close>

text \<open>The offset in the new text of an offset that lies in no replaced range; an offset at the start of an
  edit stays before the new text.\<close>

fun map_offset :: "'c SingleOffsetEdit list \<Rightarrow> int \<Rightarrow> int \<Rightarrow> int" where
  "map_offset [] x d = x + d"
| "map_offset (e # es) x d = (if x \<le> est e then x + d else map_offset es x (d + edit_delta e))"

text \<open>The edits for which the column arithmetic of \<^verbatim>\<open>mapPosition\<close> is exact.\<close>

definition mappable :: "SingleTextEdit \<Rightarrow> bool" where
  "mappable e \<longleftrightarrow>
     (if lineCount (tlen (ste_text e)) = 0
      then startLineNumber (ste_range e) = endLineNumber (ste_range e) \<or> startColumn (ste_range e) = 1
      else endColumn (ste_range e) = 1)"

definition outside_edits :: "'c SingleOffsetEdit list \<Rightarrow> int \<Rightarrow> bool" where
  "outside_edits es x \<longleftrightarrow> list_all (\<lambda>e. \<not> (est e < x \<and> x < een e)) es"

abbreviation map_position_from :: "SingleTextEdit list \<Rightarrow> Position \<Rightarrow> Position \<Rightarrow> Position \<Rightarrow> PositionOrRange result" where
  "map_position_from es p E N \<equiv>
     mapPosition_loop es p (lineNumber N - lineNumber E) (lineNumber N) (column N - column E)"

lemma mapPosition_loop_zero: "mapPosition_loop es p l c 0 = mapPosition_loop es p l c' 0"
  by (cases es) (simp_all add: Let_def)

lemma map_position_stop:
  "new_Position (lineNumber p + (lineNumber N - lineNumber E))
     (column p + (if lineNumber p + (lineNumber N - lineNumber E) = lineNumber N then column N - column E else 0))
   = TextLength_addToPosition (TextLength_betweenPositions E p) N"
  by (auto simp: TextLength_addToPosition_def TextLength_betweenPositions_def)

lemma map_position_skip:
  assumes "Range_getStartPosition (ste_range e) < p" "Range_getEndPosition (ste_range e) \<le> p"
    and "mappable e" "TextLength_ofText (ste_text e) = tlen (ste_text e)"
    and M: "M = TextLength_addToPosition (TextLength_betweenPositions E (Range_getStartPosition (ste_range e))) N"
  shows "map_position_from (e # es) p E N
    = map_position_from es p (Range_getEndPosition (ste_range e)) (TextLength_addToPosition (tlen (ste_text e)) M)"
proof -
  let ?r = "ste_range e" and ?l = "tlen (ste_text e)"
  let ?cd = "if startLineNumber ?r + (lineNumber N - lineNumber E) \<noteq> lineNumber N then 0 else column N - column E"
  let ?ld = "lineNumber N - lineNumber E + (lineCount ?l - (endLineNumber ?r - startLineNumber ?r))"
  let ?cd' = "if lineCount ?l = 0
    then if endLineNumber ?r \<noteq> startLineNumber ?r then ?cd + (columnCount ?l - (endColumn ?r - 1))
         else ?cd + (columnCount ?l - (endColumn ?r - startColumn ?r))
    else columnCount ?l"
  let ?N = "TextLength_addToPosition ?l M"
  have M': "lineNumber M = startLineNumber ?r + (lineNumber N - lineNumber E)" "column M = startColumn ?r + ?cd"
    using M by (auto simp: TextLength_addToPosition_def TextLength_betweenPositions_def Range_get_defs)
  have "map_position_from (e # es) p E N = mapPosition_loop es p ?ld (endLineNumber ?r + ?ld) ?cd'"
  proof -
    have "\<not> p \<le> new_Position (startLineNumber ?r) (startColumn ?r)" "\<not> p < new_Position (endLineNumber ?r) (endColumn ?r)"
      using assms(1,2) by (simp_all add: Range_get_defs not_le not_less)
    then show ?thesis using assms(4) by (simp add: Let_def Range_get_defs)
  qed
  moreover have "?ld = lineNumber ?N - endLineNumber ?r"
    using M' by (auto simp: TextLength_addToPosition_def)
  moreover from this have "endLineNumber ?r + ?ld = lineNumber ?N" by simp
  moreover have "?cd' = column ?N - endColumn ?r"
    using M'(2) assms(3) by (auto simp: TextLength_addToPosition_def mappable_def)
  ultimately show ?thesis by (simp add: Range_get_defs)
qed

lemma unchanged_image:
  assumes "take (x - p) (drop (length P) M) = take (x - p) (drop p s)" "p \<le> x"
  shows "TextLength_addToPosition (TextLength_betweenPositions (pos_at s p) (pos_at s x)) (pos_at M (length P))
    = pos_at M (length P + (x - p))"
  using assms pos_at_append [of "length P" "length P + (x - p)" M] pos_at_append [OF assms(2), of s] by simp

lemma mapPosition_loop_ok:
  "te_fits s p es \<Longrightarrow> list_all (\<lambda>e. no_pairs (ste_text e) \<and> mappable e) es \<Longrightarrow>
   M = P @ app_at (int p) (drop p s) (map (to_offset_edit s) es) \<Longrightarrow> p \<le> x \<Longrightarrow> x \<le> length s \<Longrightarrow>
   outside_edits (map (to_offset_edit s) es) (int x) \<Longrightarrow>
   map_position_from es (pos_at s x) (pos_at s p) (pos_at M (length P))
     = Inr (PosResult (pos_at M (nat (map_offset (map (to_offset_edit s) es) (int x) (int (length P) - int p)))))"
proof (induction es arbitrary: p P)
  case Nil
  have "nat (int x + (int (length P) - int p)) = length P + (x - p)" using Nil.prems(4) by simp
  then show ?case using Nil.prems unchanged_image [of x p P M s] map_position_stop by simp
next
  case (Cons e es)
  from Cons.prems(1) show ?case
  proof (rule te_fits_cases)
    fix a b
    assume ab: "p \<le> a" "a \<le> b" "b \<le> length s"
      and e: "Range_getStartPosition (ste_range e) = pos_at s a" "Range_getEndPosition (ste_range e) = pos_at s b"
        "est (to_offset_edit s e) = int a" "een (to_offset_edit s e) = int b" "newText (to_offset_edit s e) = ste_text e"
      and fits: "te_fits s b es"
    note img = edit_image [OF ab e(3-5) Cons.prems(3)]
    show ?thesis
    proof (cases "x \<le> a")
      case True
      have "nat (int x + (int (length P) - int p)) = length P + (x - p)" using Cons.prems(4) by simp
      moreover have "take (x - p) (drop (length P) M) = take (x - p) (drop p s)"
        using True ab by (subst img(1)) simp
      ultimately show ?thesis
        using True Cons.prems(4) pos_at_mono [OF True, of s] unchanged_image [of x p P M s] map_position_stop e
        by simp
    next
      case False
      then have x: "b \<le> x" using Cons.prems(6) e by (simp add: outside_edits_def)
      let ?P = "P @ take (a - p) (drop p s) @ ste_text e"
      have len: "length ?P = length P + (a - p) + length (ste_text e)" using ab by simp
      have less: "pos_at s a < pos_at s x" using False Cons.prems(5) pos_at_le_iff [of x s a] by simp
      have np: "TextLength_ofText (ste_text e) = tlen (ste_text e)" "mappable e" 
        using Cons.prems(2) by (simp_all add: TextLength_ofText_tlen)
      have "map_position_from (e # es) (pos_at s x) (pos_at s p) (pos_at M (length P))
          = map_position_from es (pos_at s x) (pos_at s b) (pos_at M (length ?P))"
        using map_position_skip [of e "pos_at s x" "pos_at M (length P + (a - p))" "pos_at s p" "pos_at M (length P)" es,
          unfolded e(1,2), OF less pos_at_mono [OF x] np(2,1) img(2)] unfolding img(3) [symmetric] len .
      also have "\<dots> = Inr (PosResult (pos_at M (nat (map_offset (map (to_offset_edit s) es) (int x) (int (length ?P) - int b)))))"
        using Cons.prems x by (intro Cons.IH [OF fits _ img(1)]) (simp_all add: outside_edits_def)
      also have "int (length ?P) - int b = int (length P) - int p + edit_delta (to_offset_edit s e)"
        using ab e by (simp add: len edit_delta_def OffsetRange_length_def)
      finally show ?thesis using False e(3) by (simp del: mapPosition_loop.simps)
    qed
  qed
qed

lemma TextEdit_mapPosition_ok:
  assumes "te_ok s te" "te_no_pairs te" "list_all mappable (te_edits te)" "x \<le> length s"
    "outside_edits (edits (te_offsets s te)) (int x)"
  shows "TextEdit_mapPosition te (pos_at s x) = Inr (PosResult
    (pos_at (OffsetEdit_apply (te_offsets s te) s) (nat (map_offset (edits (te_offsets s te)) (int x) 0))))"
proof -
  let ?M = "OffsetEdit_apply (te_offsets s te) s"
  have M: "?M = [] @ app_at (int 0) (drop 0 s) (map (to_offset_edit s) (te_edits te))"
    using te_ok_oe_fits [OF assms(1)] by (simp add: OffsetEdit_apply_eq) (simp add: te_offsets_def)
  have "TextEdit_mapPosition te (pos_at s x) = map_position_from (te_edits te) (pos_at s x) (pos_at s 0) (pos_at ?M (length []))"
    by (simp add: TextEdit_mapPosition_def pos_at_0 mapPosition_loop_zero [of _ _ _ 0 1])
  with mapPosition_loop_ok [OF te_ok_fits [OF assms(1)] _ M] assms(2-5) show ?thesis
    by (simp add: te_no_pairs_def te_offsets_def list_all_iff)
qed

section \<open>normalize\<close>

definition located :: "js_string \<Rightarrow> SingleTextEdit \<Rightarrow> bool" where
  "located s e \<longleftrightarrow> (\<exists>a b. a \<le> b \<and> b \<le> length s \<and> ste_range e = Range_fromPositions (pos_at s a) (pos_at s b))"

lemma locatedE:
  assumes "located s e"
  obtains a b where "a \<le> b" "b \<le> length s" "ste_range e = Range_fromPositions (pos_at s a) (pos_at s b)"
    "Range_getStartPosition (ste_range e) = pos_at s a" "Range_getEndPosition (ste_range e) = pos_at s b"
    "est (to_offset_edit s e) = int a" "een (to_offset_edit s e) = int b" "newText (to_offset_edit s e) = ste_text e"
proof -
  from assms obtain a b where ab: "a \<le> b" "b \<le> length s" "ste_range e = Range_fromPositions (pos_at s a) (pos_at s b)"
    by (auto simp: located_def)
  moreover have "pos_at s a \<le> pos_at s b" using ab(1) by (rule pos_at_mono)
  ultimately show thesis by (intro that [of a b]) (simp_all add: to_offset_edit_def)
qed

lemma te_fits_iff:
  "te_fits s p es \<longleftrightarrow> (\<forall>e \<in> set es. located s e) \<and> fits (int p) (int (length s)) (map (to_offset_edit s) es)"
proof (induction es arbitrary: p)
  case (Cons e es)
  show ?case
  proof
    assume f: "te_fits s p (e # es)"
    then have "located s e" by (auto simp: located_def)
    moreover have "\<forall>e \<in> set es. located s e" using f Cons by auto
    ultimately show "(\<forall>x \<in> set (e # es). located s x) \<and> fits (int p) (int (length s)) (map (to_offset_edit s) (e # es))"
      using te_fits_fits [OF f] by simp
  next
    assume *: "(\<forall>x \<in> set (e # es). located s x) \<and> fits (int p) (int (length s)) (map (to_offset_edit s) (e # es))"
    then have "located s e" by simp
    then show "te_fits s p (e # es)"
    proof (rule locatedE)
      fix a b
      assume "a \<le> b" "b \<le> length s" "ste_range e = Range_fromPositions (pos_at s a) (pos_at s b)"
        "est (to_offset_edit s e) = int a" "een (to_offset_edit s e) = int b"
      then show ?thesis using * Cons unfolding te_fits.simps
        by - (rule exI [of _ a], rule exI [of _ b], simp)
    qed
  qed
qed simp

lemma touching_join:
  assumes "located s x" "located s e" "Range_getEndPosition (ste_range x) = Range_getStartPosition (ste_range e)"
  defines "j \<equiv> \<lparr>ste_range = Range_plusRange (ste_range x) (ste_range e), ste_text = ste_text x @ ste_text e\<rparr>"
  shows "located s j" and "een (to_offset_edit s x) = est (to_offset_edit s e)"
    and "to_offset_edit s j = \<lparr>replaceRange = \<lparr>start = est (to_offset_edit s x), endExclusive = een (to_offset_edit s e)\<rparr>,
      newText = newText (to_offset_edit s x) @ newText (to_offset_edit s e)\<rparr>"
proof -
  from assms(1) obtain a b where x: "a \<le> b" "b \<le> length s" "ste_range x = Range_fromPositions (pos_at s a) (pos_at s b)"
    "Range_getEndPosition (ste_range x) = pos_at s b" "est (to_offset_edit s x) = int a" "een (to_offset_edit s x) = int b"
    "newText (to_offset_edit s x) = ste_text x" by (rule locatedE) blast
  from assms(2) obtain c d where e: "c \<le> d" "d \<le> length s" "ste_range e = Range_fromPositions (pos_at s c) (pos_at s d)"
    "Range_getStartPosition (ste_range e) = pos_at s c" "est (to_offset_edit s e) = int c" "een (to_offset_edit s e) = int d"
    "newText (to_offset_edit s e) = ste_text e" by (rule locatedE) blast
  have bc: "b = c" using assms(3) x e pos_at_inj [of b s c] by simp
  then show "een (to_offset_edit s x) = est (to_offset_edit s e)" using x e by simp
  have le: "pos_at s a \<le> pos_at s b" "pos_at s b \<le> pos_at s d" using x e bc by (auto intro: pos_at_mono)
  then have j: "ste_range j = Range_fromPositions (pos_at s a) (pos_at s d)"
  proof -
    have "range_valid (ste_range x)" "range_valid (ste_range e)" using x(3) e(3) by simp_all
    from Range_plusRange_ends [OF this] le x(3) e(3) bc show ?thesis
      by (simp add: j_def Range_eq_iff [of "Range_plusRange _ _"])
  qed
  show "located s j"
    unfolding located_def j using x(1) e(1,2) bc by - (rule exI [of _ a], rule exI [of _ d], simp)
  have "pos_at s a \<le> pos_at s d" using le by simp
  with j x e bc show "to_offset_edit s j = \<lparr>replaceRange = \<lparr>start = est (to_offset_edit s x), endExclusive = een (to_offset_edit s e)\<rparr>,
      newText = newText (to_offset_edit s x) @ newText (to_offset_edit s e)\<rparr>"
    by (simp add: to_offset_edit_def [of s j]) (simp add: j_def)
qed

lemma normalize_loop_refines:
  "(\<forall>e \<in> set (acc @ es). located s e) \<Longrightarrow> fits_text 0 s (map (to_offset_edit s) (acc @ es)) \<Longrightarrow>
   (\<forall>e \<in> set (TextEdit_normalize_loop es acc). located s e)
   \<and> fits_text 0 s (map (to_offset_edit s) (TextEdit_normalize_loop es acc))
   \<and> app_at 0 s (map (to_offset_edit s) (TextEdit_normalize_loop es acc)) = app_at 0 s (map (to_offset_edit s) (acc @ es))"
proof (induction es acc rule: TextEdit_normalize_loop.induct)
  case (2 e es acc)
  let ?off = "to_offset_edit s"
  consider (join) xs x where "acc = xs @ [x]" "Range_getEndPosition (ste_range x) = Range_getStartPosition (ste_range e)"
    | (push) "\<not> (acc \<noteq> [] \<and> Range_getEndPosition (ste_range (last acc)) = Range_getStartPosition (ste_range e))"
        "\<not> SingleTextEdit_isEmpty e"
    | (skip) "\<not> (acc \<noteq> [] \<and> Range_getEndPosition (ste_range (last acc)) = Range_getStartPosition (ste_range e))"
        "SingleTextEdit_isEmpty e"
    by (cases acc rule: rev_cases) auto
  then show ?case
  proof cases
    case join
    let ?j = "\<lparr>ste_range = Range_plusRange (ste_range x) (ste_range e), ste_text = ste_text x @ ste_text e\<rparr>"
    have loc: "located s x" "located s e" using "2.prems"(1) join by simp_all
    note j = touching_join [OF loc join(2)]
    have f: "fits_text 0 s (map ?off xs @ ?off x # ?off e # map ?off es)" using "2.prems"(2) join by simp
    then have f': "fits_text 0 s (map ?off (xs @ [?j]) @ map ?off es)" using j(3) by (auto simp: fits_append)
    have "app_at 0 s (map ?off xs @ ?off x # ?off e # map ?off es) = app_at 0 s (map ?off xs @ ?off ?j # map ?off es)"
      by (rule app_at_tail_cong [OF f]) (use app_at_join [OF fits_text_rest [OF f] j(2)] j(3) in simp)
    then show ?thesis using "2.IH"(1) "2.prems"(1) join j(1) f' by simp
  next
    case push
    then show ?thesis using "2.IH"(2) "2.prems" by auto
  next
    case skip
    have e: "newText (?off e) = []" "een (?off e) = est (?off e)"
      using skip(2) by (simp_all add: SingleTextEdit_isEmpty_def to_offset_edit_def Range_isEmpty_iff)
    have f: "fits_text 0 s (map ?off acc @ ?off e # map ?off es)" using "2.prems"(2) by simp
    then have f': "fits_text 0 s (map ?off acc @ map ?off es)" using e by (auto simp: fits_append intro: fits_lower)
    have "app_at 0 s (map ?off acc @ ?off e # map ?off es) = app_at 0 s (map ?off acc @ map ?off es)"
      by (rule app_at_tail_cong [OF f app_at_drop_empty [OF fits_text_rest [OF f] e]])
    then show ?thesis using "2.IH"(3) "2.prems"(1) skip f' by auto
  qed
qed simp

lemma TextEdit_normalize_ok:
  assumes "te_ok s te"
  shows "te_fits s 0 (te_edits (TextEdit_normalize te))
    \<and> OffsetEdit_apply (te_offsets s (TextEdit_normalize te)) s = OffsetEdit_apply (te_offsets s te) s"
proof -
  have "te_fits s 0 (te_edits te)" using te_ok_fits [OF assms] .
  then have n: "(\<forall>e \<in> set (te_edits (TextEdit_normalize te)). located s e)
   \<and> fits_text 0 s (map (to_offset_edit s) (te_edits (TextEdit_normalize te)))
   \<and> app_at 0 s (map (to_offset_edit s) (te_edits (TextEdit_normalize te))) = app_at 0 s (map (to_offset_edit s) (te_edits te))"
    using normalize_loop_refines [of "[]" "te_edits te" s]
    by (simp add: te_fits_iff TextEdit_normalize_def new_TextEdit_def)
  then have "oe_fits (te_offsets s (TextEdit_normalize te)) s" by (simp add: oe_fits_def te_offsets_def)
  with n te_ok_oe_fits [OF assms] show ?thesis
    by (simp add: te_fits_iff OffsetEdit_apply_eq) (simp add: te_offsets_def)
qed

context abstract_text begin

lemma normalize_apply:
  assumes "ok t" "te_ok (content t) te"
  shows "TextEdit_apply (TextEdit_normalize te) (methods t) = TextEdit_apply te (methods t)"
proof -
  have n: "te_fits (content t) 0 (te_edits (TextEdit_normalize te))" using TextEdit_normalize_ok [OF assms(2)] by simp
  have "oe_fits (te_offsets (content t) (TextEdit_normalize te)) (content t)"
    using te_fits_fits [OF n] by (simp add: oe_fits_def te_offsets_def)
  then have "TextEdit_apply (TextEdit_normalize te) (methods t)
      = Inr (OffsetEdit_apply (te_offsets (content t) (TextEdit_normalize te)) (content t))"
    using apply_loop_ok [OF assms(1) n, of "[]"]
    by (simp add: TextEdit_apply_def pos_at_0 OffsetEdit_apply_eq) (simp add: te_offsets_def)
  then show ?thesis using apply_refines [OF assms] TextEdit_normalize_ok [OF assms(2)] by simp
qed

end

section \<open>Properties\<close>

lemma st_ok_new: "int (length s) < MAX_SAFE_INTEGER - 1 \<Longrightarrow> st_ok (new_StringText s)"
  by (simp add: st_ok_def new_StringText_def)

lemma st_value_new [simp]: "st_value (new_StringText s) = s"
  by (simp add: new_StringText_def)

text \<open>C2: applying a \<^verbatim>\<open>TextEdit\<close> to a string is applying the \<^verbatim>\<open>OffsetEdit\<close> with the offsets of its ranges.\<close>

theorem text_edit_refines_offset_edit:
  assumes "te_ok s te" "int (length s) < MAX_SAFE_INTEGER - 1"
  shows "TextEdit_applyToString te s = Inr (OffsetEdit_apply (te_offsets s te) s)"
  using string_text.apply_refines [OF st_ok_new [OF assms(2)], of te] assms(1)
  by (simp add: TextEdit_applyToString_def)

text \<open>The text \<^verbatim>\<open>ab\ncd\<close>, and the edit that replaces \<^verbatim>\<open>b\nc\<close> by \<^verbatim>\<open>x\<close>.\<close>

abbreviation sample_text :: js_string where
  "sample_text \<equiv> [97, 98, 10, 99, 100]"

abbreviation sample_edit :: TextEdit where
  "sample_edit \<equiv> TextEdit_single (new_Range 1 2 2 2) [120]"

lemma sample_edit_ok: "te_ok sample_text sample_edit"
  by (simp add: te_ok_def TextEdit_single_def new_TextEdit_def TextEdit_assertion_def pos_valid_def
      Range_getStartPosition_def Range_getEndPosition_def new_Range_def range_valid_iff)

lemma sample_edit_applied: "OffsetEdit_apply (te_offsets sample_text sample_edit) sample_text = [97, 120, 100]"
proof -
  have "offset_of sample_text (new_Position 1 2) = 1" "offset_of sample_text (new_Position 2 2) = 4"
    by (simp_all add: offset_of_def nan_to_zero_def PositionOffsetTransformer_getOffset_def
        new_PositionOffsetTransformer_def js_at_def)
  then show ?thesis
    by (simp add: te_offsets_def TextEdit_single_def new_TextEdit_def to_offset_edit_def new_Range_def Range_get_defs
        OffsetEdit_apply_def js_substring_def js_substring_from_def eval_nat_numeral)
qed

theorem text_edit_refines_offset_edit_witness:
  "TextEdit_applyToString sample_edit sample_text = Inr [97, 120, 100]"
  using text_edit_refines_offset_edit [OF sample_edit_ok] by (simp only: sample_edit_applied) (simp add: MAX_SAFE_INTEGER_def)

text \<open>it does not matter which kind of text an edit is applied to: on an \<^verbatim>\<open>ArrayText\<close> of the lines it gives
  the same string as on a \<^verbatim>\<open>StringText\<close> of the lines joined by line feeds.\<close>

theorem array_text_like_string_text:
  assumes "ls \<noteq> []" "\<forall>l \<in> set ls. LF \<notin> set l" "int (length (join_lines ls)) < MAX_SAFE_INTEGER - 1"
    and "te_ok (join_lines ls) te"
  shows "\<exists>t. new_ArrayText ls = Inr t \<and> AbstractText_getValue (LineBasedText_methods t) = Inr (join_lines ls)
    \<and> TextEdit_apply te (LineBasedText_methods t) = TextEdit_applyToString te (join_lines ls)"
proof -
  let ?t = "\<lparr>getLineContent = (\<lambda>l. js_at ls (l - 1)), lbt_lineCount = int (length ls)\<rparr>"
  have n: "1 \<le> int (length ls)" using assms(1) by (cases ls) simp_all
  then have new: "new_ArrayText ls = Inr ?t" by (simp add: new_ArrayText_def new_LineBasedText_def js_assert_def)
  have "lbt_lines ?t = map (\<lambda>i. case js_at ls (int i) of None \<Rightarrow> [] | Some s \<Rightarrow> s) [0 ..< length ls]"
    using upto_upt_Suc [of 0 "length ls"] by (simp add: lbt_lines_def comp_def)
  also have "\<dots> = ls" by (rule nth_equalityI) simp_all
  finally have lines: "lbt_lines ?t = ls" .
  have "lbt_ok ?t" unfolding lbt_ok_def lines
    using n assms(2,3) by (auto simp: list_all_iff js_at_def)
  then show ?thesis
    using new lines line_based_text.getValue [of ?t] line_based_text.apply_refines [of ?t te] assms(4)
      string_text.apply_refines [OF st_ok_new [OF assms(3)], of te]
    by (simp add: TextEdit_applyToString_def)
qed

theorem array_text_like_string_text_witness:
  "\<exists>t. new_ArrayText [[97, 98], [99, 100]] = Inr t
     \<and> TextEdit_apply sample_edit (LineBasedText_methods t) = TextEdit_applyToString sample_edit sample_text"
  using array_text_like_string_text [of "[[97, 98], [99, 100]]" sample_edit] sample_edit_ok
  by (auto simp: MAX_SAFE_INTEGER_def)

text \<open>C10: the inverse of a \<^verbatim>\<open>TextEdit\<close> whose inserted texts contain no surrogate pairs restores the text: \<^verbatim>\<open>inverse\<close> computes the ranges the new text
  occupies, and applying it to the edited string gives the original string.  (\<^verbatim>\<open>TextLength.ofText\<close> counts a surrogate pair as one column, so the statement does not hold for inserted pairs.)\<close>

theorem text_edit_inverse:
  assumes "te_ok s te" "te_no_pairs te" "int (length s) < MAX_SAFE_INTEGER - 1"
    and "TextEdit_applyToString te s = Inr m" "int (length m) < MAX_SAFE_INTEGER - 1"
  shows "\<exists>i. TextEdit_inverse te (StringText_methods (new_StringText s)) = Inr i \<and> TextEdit_applyToString i m = Inr s"
  using string_text.inverse_roundtrip [OF st_ok_new [OF assms(3)] _ assms(2) _ st_ok_new [OF assms(5)]] assms(1,4)
  by (simp add: TextEdit_applyToString_def)

theorem text_edit_inverse_witness:
  "\<exists>i. TextEdit_inverse sample_edit (StringText_methods (new_StringText sample_text)) = Inr i
     \<and> TextEdit_applyToString i [97, 120, 100] = Inr sample_text"
proof -
  have l: "int (length sample_text) < MAX_SAFE_INTEGER - 1" by (simp add: MAX_SAFE_INTEGER_def)
  have "TextEdit_applyToString sample_edit sample_text = Inr [97, 120, 100]"
    using string_text.apply_refines [OF st_ok_new [OF l], of sample_edit] sample_edit_ok
    by (simp only: TextEdit_applyToString_def st_value_new sample_edit_applied)
  moreover have "te_no_pairs sample_edit"
    by (simp add: te_no_pairs_def no_pairs_def TextEdit_single_def new_TextEdit_def)
  ultimately show ?thesis
    using text_edit_inverse [OF sample_edit_ok, of "[97, 120, 100]"] l by (simp add: MAX_SAFE_INTEGER_def)
qed

text \<open>\<^verbatim>\<open>TextEdit.normalize\<close> joins touching edits and drops empty ones without changing what the edit
  does.\<close>

theorem text_edit_normalize:
  assumes "te_ok s te" "int (length s) < MAX_SAFE_INTEGER - 1"
  shows "TextEdit_applyToString (TextEdit_normalize te) s = TextEdit_applyToString te s"
  using string_text.normalize_apply [OF st_ok_new [OF assms(2)], of te] assms(1) by (simp add: TextEdit_applyToString_def)

theorem text_edit_normalize_witness:
  "TextEdit_applyToString (TextEdit_normalize sample_edit) sample_text = TextEdit_applyToString sample_edit sample_text"
  using text_edit_normalize [OF sample_edit_ok] by (simp add: MAX_SAFE_INTEGER_def)

text \<open>C37: \<^verbatim>\<open>mapPosition\<close> takes a position that lies inside no replaced range to the position its offset has
  after the edit, for edits that delete whole lines only from column 1 and insert line breaks only before
  column 1.\<close>

theorem mapPosition_follows_offset:
  assumes "te_ok s te" "te_no_pairs te" "list_all mappable (te_edits te)" "0 \<le> x" "x \<le> int (length s)"
    "outside_edits (edits (te_offsets s te)) x"
    and "PositionOffsetTransformer_getPosition (new_PositionOffsetTransformer s) x = Some p"
  shows "TextEdit_mapPosition te p = Inr (PosResult
    (pos_at (OffsetEdit_apply (te_offsets s te) s) (nat (map_offset (edits (te_offsets s te)) x 0))))"
proof -
  have "nat x \<le> length s" using assms(5) by simp
  moreover from this have "p = pos_at s (nat x)" using getPosition_pos_at [of "nat x" s] assms(4,7) by simp
  ultimately show ?thesis using TextEdit_mapPosition_ok [OF assms(1-3), of "nat x"] assms(4,6) by simp
qed

theorem mapPosition_follows_offset_witness:
  "TextEdit_mapPosition (TextEdit_single (new_Range 1 1 2 1) [120]) (new_Position 2 2) = Inr (PosResult (new_Position 1 3))"
proof -
  let ?te = "TextEdit_single (new_Range 1 1 2 1) [120]"
  have ok: "te_ok sample_text ?te"
    by (simp add: te_ok_def TextEdit_single_def new_TextEdit_def TextEdit_assertion_def pos_valid_def
        Range_getStartPosition_def Range_getEndPosition_def new_Range_def range_valid_iff)
  have np: "te_no_pairs ?te" by (simp add: te_no_pairs_def no_pairs_def TextEdit_single_def new_TextEdit_def)
  have m: "list_all mappable (te_edits ?te)"
    by (simp add: mappable_def TextEdit_single_def new_TextEdit_def new_Range_def tlen_single)
  have "offset_of sample_text (new_Position 1 1) = 0" "offset_of sample_text (new_Position 2 1) = 3"
    by (simp_all add: offset_of_def nan_to_zero_def PositionOffsetTransformer_getOffset_def
        new_PositionOffsetTransformer_def js_at_def)
  then have es: "te_offsets sample_text ?te = \<lparr>edits = [\<lparr>replaceRange = \<lparr>start = 0, endExclusive = 3\<rparr>, newText = [120]\<rparr>]\<rparr>"
    by (simp add: te_offsets_def TextEdit_single_def new_TextEdit_def to_offset_edit_def new_Range_def Range_get_defs)
  have p: "pos_at sample_text 4 = new_Position 2 2"
    by (simp add: pos_at_eq take_Cons' tlen_def TextLength_zero_def)
  have "PositionOffsetTransformer_getPosition (new_PositionOffsetTransformer sample_text) 4 = Some (new_Position 2 2)"
    using getPosition_pos_at [of 4 sample_text] p by simp
  from mapPosition_follows_offset [OF ok np m _ _ _ this, unfolded es]
  have "TextEdit_mapPosition ?te (new_Position 2 2) = Inr (PosResult (pos_at [120, 99, 100] 2))"
    by (simp add: outside_edits_def OffsetEdit_apply_def js_substring_def js_substring_from_def edit_delta_def
        OffsetRange_length_def)
  moreover have "pos_at [120, 99, 100] 2 = new_Position 1 3"
    by (simp add: pos_at_eq take_Cons' tlen_def TextLength_zero_def)
  ultimately show ?thesis by simp
qed

end
