(* ===== verification/Prefix_Sum.thy ===== *)
theory Prefix_Sum
  imports Js_Prelude
begin

text \<open>
  \<^verbatim>\<open>src/vs/editor/common/model/prefixSumComputer.ts\<close>, \<^verbatim>\<open>src/vs/base/common/uint.ts\<close> and \<^verbatim>\<open>arrayInsert\<close> of \<^verbatim>\<open>src/vs/base/common/arrays.ts\<close>: two
  data structures that answer prefix sum queries over a list of values.  \<^verbatim>\<open>PrefixSumComputer\<close> keeps
  32-bit words and a lazily extended prefix of valid sums; \<^verbatim>\<open>ConstantTimePrefixSumComputer\<close> keeps numbers and a table from sums to
  indices.  A class is a record of its fields; the methods return the updated object.
\<close>

section \<open>Conversions to unsigned integers\<close>

definition MAX_UINT_8 :: int where "MAX_UINT_8 = 255"

definition MAX_UINT_32 :: int where "MAX_UINT_32 = 4294967295"

definition toUint8 :: "int \<Rightarrow> int" where
  "toUint8 v = (if v < 0 then 0 else if v > MAX_UINT_8 then MAX_UINT_8 else toInt32 v)"

definition toUint32 :: "int \<Rightarrow> int" where
  "toUint32 v = (if v < 0 then 0 else if v > MAX_UINT_32 then MAX_UINT_32 else toInt32 v)"

section \<open>The class PrefixSumComputer\<close>

type_synonym u32 = "32 word"

record PrefixSumIndexOfResult =
  res_index :: "int option"
  res_remainder :: "int option"

record PrefixSumComputer =
  psc_values :: "u32 list"
  psc_prefixSum :: "u32 list"
  psc_validIndex :: int

definition new_PrefixSumComputer :: "u32 list \<Rightarrow> PrefixSumComputer" where
  "new_PrefixSumComputer vs = \<lparr>psc_values = vs, psc_prefixSum = replicate (length vs) 0, psc_validIndex = - 1\<rparr>"

definition PrefixSumComputer_getCount :: "PrefixSumComputer \<Rightarrow> int" where
  "PrefixSumComputer_getCount this = int (length (psc_values this))"

text \<open>The tail that \<^verbatim>\<open>insertValues\<close> and \<^verbatim>\<open>removeValues\<close> share: lower the valid index and
  keep the valid part of the sums in a new array.\<close>

definition keep_valid_sums :: "PrefixSumComputer \<Rightarrow> u32 list \<Rightarrow> int \<Rightarrow> PrefixSumComputer result" where
  "keep_valid_sums this newValues index =
     (let validIndex = (if index - 1 < psc_validIndex this then toInt32 (index - 1) else psc_validIndex this);
          fresh = replicate (length newValues) 0
      in rbind (if validIndex \<ge> 0
                then typed_set fresh (typed_subarray (psc_prefixSum this) 0 (validIndex + 1)) 0
                else Inr fresh) (\<lambda>ps.
           Inr \<lparr>psc_values = newValues, psc_prefixSum = ps, psc_validIndex = validIndex\<rparr>))"

definition PrefixSumComputer_insertValues ::
    "PrefixSumComputer \<Rightarrow> int \<Rightarrow> u32 list \<Rightarrow> (bool \<times> PrefixSumComputer) result" where
  "PrefixSumComputer_insertValues this insertIndex0 insertVals =
     (let insertIndex = toUint32 insertIndex0;
          oldValues = psc_values this;
          n = int (length oldValues);
          insertValuesLen = int (length insertVals)
      in if insertValuesLen = 0 then Inr (False, this)
         else rbind (typed_set (replicate (nat (n + insertValuesLen)) 0) (typed_subarray oldValues 0 insertIndex) 0) (\<lambda>v1.
              rbind (typed_set v1 (typed_subarray oldValues insertIndex n) (insertIndex + insertValuesLen)) (\<lambda>v2.
              rbind (typed_set v2 insertVals insertIndex) (\<lambda>v3.
              rbind (keep_valid_sums this v3 insertIndex) (\<lambda>this'. Inr (True, this'))))))"

definition PrefixSumComputer_setValue :: "PrefixSumComputer \<Rightarrow> int \<Rightarrow> int \<Rightarrow> bool \<times> PrefixSumComputer" where
  "PrefixSumComputer_setValue this index0 v0 =
     (let index = toUint32 index0; v = toUint32 v0
      in if map_option uint (js_at (psc_values this) index) = Some v then (False, this)
         else (True, this \<lparr>psc_values := typed_write (psc_values this) index (word_of_int v),
                      psc_validIndex := (if index - 1 < psc_validIndex this then toInt32 (index - 1)
                                         else psc_validIndex this)\<rparr>))"

definition PrefixSumComputer_removeValues ::
    "PrefixSumComputer \<Rightarrow> int \<Rightarrow> int \<Rightarrow> (bool \<times> PrefixSumComputer) result" where
  "PrefixSumComputer_removeValues this startIndex0 count0 =
     (let startIndex = toUint32 startIndex0;
          oldValues = psc_values this;
          n = int (length oldValues)
      in if startIndex \<ge> n then Inr (False, this)
         else let maxCount = n - startIndex;
                  count = (if toUint32 count0 \<ge> maxCount then maxCount else toUint32 count0)
              in if count = 0 then Inr (False, this)
                 else rbind (typed_set (replicate (nat (n - count)) 0) (typed_subarray oldValues 0 startIndex) 0) (\<lambda>v1.
                      rbind (typed_set v1 (typed_subarray oldValues (startIndex + count) n) startIndex) (\<lambda>v2.
                      rbind (keep_valid_sums this v2 startIndex) (\<lambda>this'. Inr (True, this')))))"

text \<open>The loop of \<^verbatim>\<open>_getPrefixSum\<close>; reading outside the array gives \<^verbatim>\<open>undefined\<close>, which a typed array stores
  as 0.\<close>

definition typed_get :: "u32 list \<Rightarrow> int \<Rightarrow> u32" where
  "typed_get xs i = (case js_at xs i of None \<Rightarrow> 0 | Some v \<Rightarrow> v)"

function sum_loop :: "u32 list \<Rightarrow> int \<Rightarrow> int \<Rightarrow> u32 list \<Rightarrow> u32 list" where
  "sum_loop vs i index ps =
     (if i \<le> index then sum_loop vs (i + 1) index (typed_write ps i (typed_get ps (i - 1) + typed_get vs i)) else ps)"
  by pat_completeness auto
termination
  by (relation "measure (\<lambda>(vs, i, index, ps). nat (index + 1 - i))") auto

declare sum_loop.simps [simp del]

definition PrefixSumComputer_getPrefixSum_impl ::
    "PrefixSumComputer \<Rightarrow> int \<Rightarrow> u32 option \<times> PrefixSumComputer" where
  "PrefixSumComputer_getPrefixSum_impl this index0 =
     (if index0 \<le> psc_validIndex this then (js_at (psc_prefixSum this) index0, this)
      else let start0 = psc_validIndex this + 1;
               ps0 = (if start0 = 0 then typed_write (psc_prefixSum this) 0 (typed_get (psc_values this) 0)
                      else psc_prefixSum this);
               startIndex = (if start0 = 0 then start0 + 1 else start0);
               n = int (length (psc_values this));
               index = (if index0 \<ge> n then n - 1 else index0);
               ps = sum_loop (psc_values this) startIndex index ps0
           in (js_at ps index,
               this \<lparr>psc_prefixSum := ps, psc_validIndex := toInt32 (max (psc_validIndex this) index)\<rparr>))"

definition PrefixSumComputer_getTotalSum :: "PrefixSumComputer \<Rightarrow> int option \<times> PrefixSumComputer" where
  "PrefixSumComputer_getTotalSum this =
     (if length (psc_values this) = 0 then (Some 0, this)
      else case PrefixSumComputer_getPrefixSum_impl this (int (length (psc_values this)) - 1) of
             (r, this') \<Rightarrow> (map_option uint r, this'))"

definition PrefixSumComputer_getPrefixSum :: "PrefixSumComputer \<Rightarrow> int \<Rightarrow> int option \<times> PrefixSumComputer" where
  "PrefixSumComputer_getPrefixSum this index =
     (if index < 0 then (Some 0, this)
      else case PrefixSumComputer_getPrefixSum_impl this (toUint32 index) of
             (r, this') \<Rightarrow> (map_option uint r, this'))"

text \<open>The binary search of \<^verbatim>\<open>getIndexOf\<close>; \<open>None\<close> is a search that does not end.  The result is the pair of
  \<^verbatim>\<open>mid\<close> and \<^verbatim>\<open>midStart\<close>.\<close>

partial_function (option) index_search ::
    "u32 list \<Rightarrow> u32 list \<Rightarrow> int \<Rightarrow> int \<Rightarrow> int \<Rightarrow> int \<Rightarrow> int \<Rightarrow> (int \<times> int) option" where
  "index_search vs ps s low high mid midStart =
     (if low \<le> high
      then let mid' = toInt32 (low + (high - low) div 2);
               midStop = uint (typed_get ps mid');
               midStart' = midStop - uint (typed_get vs mid')
           in if s < midStart' then index_search vs ps s low (mid' - 1) mid' midStart'
              else if s \<ge> midStop then index_search vs ps s (mid' + 1) high mid' midStart'
              else Some (mid', midStart')
      else Some (mid, midStart))"

declare index_search.simps [code]

definition PrefixSumComputer_getIndexOf ::
    "PrefixSumComputer \<Rightarrow> int \<Rightarrow> (PrefixSumIndexOfResult \<times> PrefixSumComputer) option" where
  "PrefixSumComputer_getIndexOf this s =
     (let this' = snd (PrefixSumComputer_getTotalSum this)
      in case index_search (psc_values this') (psc_prefixSum this') s 0 (int (length (psc_values this')) - 1) 0 0 of
           None \<Rightarrow> None
         | Some (mid, midStart) \<Rightarrow> Some (\<lparr>res_index = Some mid, res_remainder = Some (s - midStart)\<rparr>, this'))"

section \<open>The class ConstantTimePrefixSumComputer\<close>

text \<open>\<open>None\<close> is \<^verbatim>\<open>undefined\<close> or \<^verbatim>\<open>NaN\<close>.\<close>

record ConstantTimePrefixSumComputer =
  ct_values :: "int option list"
  ct_isValid :: bool
  ct_validEndIndex :: int
  ct_prefixSum :: "int option list"
  ct_indexBySum :: "int option list"

definition new_ConstantTimePrefixSumComputer :: "int list \<Rightarrow> ConstantTimePrefixSumComputer" where
  "new_ConstantTimePrefixSumComputer vs =
     \<lparr>ct_values = map Some vs, ct_isValid = False, ct_validEndIndex = - 1, ct_prefixSum = [], ct_indexBySum = []\<rparr>"

definition ConstantTimePrefixSumComputer_invalidate ::
    "ConstantTimePrefixSumComputer \<Rightarrow> int \<Rightarrow> ConstantTimePrefixSumComputer" where
  "ConstantTimePrefixSumComputer_invalidate this index =
     this \<lparr>ct_isValid := False, ct_validEndIndex := min (ct_validEndIndex this) (index - 1)\<rparr>"

definition ConstantTimePrefixSumComputer_removeValues ::
    "ConstantTimePrefixSumComputer \<Rightarrow> int \<Rightarrow> int \<Rightarrow> ConstantTimePrefixSumComputer" where
  "ConstantTimePrefixSumComputer_removeValues this s deleteCount =
     ConstantTimePrefixSumComputer_invalidate
       (this \<lparr>ct_values := js_splice (ct_values this) s deleteCount []\<rparr>) s"

definition arrayInsert :: "'a list \<Rightarrow> int \<Rightarrow> 'a list \<Rightarrow> 'a list" where
  "arrayInsert target insertIndex insertArr =
     js_slice target 0 insertIndex @ insertArr @ js_slice target insertIndex (int (length target))"

definition ConstantTimePrefixSumComputer_insertValues ::
    "ConstantTimePrefixSumComputer \<Rightarrow> int \<Rightarrow> int list \<Rightarrow> ConstantTimePrefixSumComputer" where
  "ConstantTimePrefixSumComputer_insertValues this insertIndex insertArr =
     ConstantTimePrefixSumComputer_invalidate
       (this \<lparr>ct_values := arrayInsert (ct_values this) insertIndex (map Some insertArr)\<rparr>) insertIndex"

definition ConstantTimePrefixSumComputer_setValue ::
    "ConstantTimePrefixSumComputer \<Rightarrow> int \<Rightarrow> int \<Rightarrow> ConstantTimePrefixSumComputer" where
  "ConstantTimePrefixSumComputer_setValue this index v =
     (if array_get (ct_values this) index = Some v then this
      else ConstantTimePrefixSumComputer_invalidate
             (this \<lparr>ct_values := array_set (ct_values this) index (Some v)\<rparr>) index)"

text \<open>The inner loop \<^verbatim>\<open>for (let j = 0; j < value; j++) { this._indexBySum[sumAbove + j] = i; }\<close>: it does nothing when \<^verbatim>\<open>value\<close> is not a number.\<close>

function fill_loop :: "int \<Rightarrow> int \<Rightarrow> int \<Rightarrow> int \<Rightarrow> int option list \<Rightarrow> int option list" where
  "fill_loop sumAbove v i j table =
     (if j < v then fill_loop sumAbove v i (j + 1) (array_set table (sumAbove + j) (Some i)) else table)"
  by pat_completeness auto
termination
  by (relation "measure (\<lambda>(a, v, i, j, t). nat (v - j))") auto

declare fill_loop.simps [simp del]

function ensure_loop :: "int option list \<Rightarrow> int \<Rightarrow> int option list \<Rightarrow> int option list
    \<Rightarrow> int option list \<times> int option list" where
  "ensure_loop vs i prefix table =
     (if i < int (length vs)
      then let v = array_get vs i;
               sumAbove = (if i > 0 then array_get prefix (i - 1) else Some 0);
               prefix' = array_set prefix i
                 (case (sumAbove, v) of (Some a, Some b) \<Rightarrow> Some (a + b) | _ \<Rightarrow> None);
               table' = (case (sumAbove, v) of (Some a, Some b) \<Rightarrow> fill_loop a b i 0 table | _ \<Rightarrow> table)
           in ensure_loop vs (i + 1) prefix' table'
      else (prefix, table))"
  by pat_completeness auto
termination
  by (relation "measure (\<lambda>(vs, i, p, t). nat (int (length vs) - i))") auto

declare ensure_loop.simps [simp del]

definition ConstantTimePrefixSumComputer_ensureValid ::
    "ConstantTimePrefixSumComputer \<Rightarrow> ConstantTimePrefixSumComputer result" where
  "ConstantTimePrefixSumComputer_ensureValid this =
     (if ct_isValid this then Inr this
      else let n = int (length (ct_values this)) in
           (case ensure_loop (ct_values this) (ct_validEndIndex this + 1) (ct_prefixSum this) (ct_indexBySum this) of
              (prefix, table) \<Rightarrow>
                rbind (array_set_length prefix (Some n)) (\<lambda>prefix'.
                rbind (array_set_length table (array_get prefix' (int (length prefix') - 1))) (\<lambda>table'.
                  Inr (this \<lparr>ct_isValid := True, ct_validEndIndex := n - 1, ct_prefixSum := prefix',
                        ct_indexBySum := table'\<rparr>)))))"

definition ConstantTimePrefixSumComputer_getTotalSum ::
    "ConstantTimePrefixSumComputer \<Rightarrow> (int \<times> ConstantTimePrefixSumComputer) result" where
  "ConstantTimePrefixSumComputer_getTotalSum this =
     rbind (ConstantTimePrefixSumComputer_ensureValid this) (\<lambda>this'.
       Inr (int (length (ct_indexBySum this')), this'))"

definition ConstantTimePrefixSumComputer_getPrefixSum ::
    "ConstantTimePrefixSumComputer \<Rightarrow> int \<Rightarrow> (int option \<times> ConstantTimePrefixSumComputer) result" where
  "ConstantTimePrefixSumComputer_getPrefixSum this count =
     rbind (ConstantTimePrefixSumComputer_ensureValid this) (\<lambda>this'.
       Inr (if count = 0 then Some 0 else array_get (ct_prefixSum this') (count - 1), this'))"

text \<open>\<^verbatim>\<open>idx > 0\<close> is false when the lookup gives \<^verbatim>\<open>undefined\<close>.\<close>

definition ConstantTimePrefixSumComputer_getIndexOf ::
    "ConstantTimePrefixSumComputer \<Rightarrow> int \<Rightarrow> (PrefixSumIndexOfResult \<times> ConstantTimePrefixSumComputer) result" where
  "ConstantTimePrefixSumComputer_getIndexOf this s =
     rbind (ConstantTimePrefixSumComputer_ensureValid this) (\<lambda>this'.
       let idx = array_get (ct_indexBySum this') s;
           viewLinesAbove = (case idx of
                               None \<Rightarrow> Some 0
                             | Some k \<Rightarrow> if k > 0 then array_get (ct_prefixSum this') (k - 1) else Some 0)
       in Inr (\<lparr>res_index = idx, res_remainder = map_option (\<lambda>x. s - x) viewLinesAbove\<rparr>, this'))"

section \<open>What both classes promise\<close>

text \<open>The lists of values the classes are meant for: not empty, not negative, with a sum that stays below
  $2^{31}$.\<close>

definition ps_dom :: "int list \<Rightarrow> bool" where
  "ps_dom vs \<longleftrightarrow> vs \<noteq> [] \<and> list_all (\<lambda>v. 0 \<le> v) vs \<and> sum_list vs < 2147483648 \<and> int (length vs) < 2147483647"

text \<open>The reference for \<^verbatim>\<open>getIndexOf\<close>: the index whose value covers the sum, and what remains there.\<close>

fun ref_index :: "int list \<Rightarrow> int \<Rightarrow> int \<times> int" where
  "ref_index [] s = (0, s)"
| "ref_index (v # vs) s = (if s < v then (0, s) else case ref_index vs (s - v) of (k, r) \<Rightarrow> (k + 1, r))"

definition list_insert :: "'a list \<Rightarrow> nat \<Rightarrow> 'a list \<Rightarrow> 'a list" where
  "list_insert vs i xs = take i vs @ xs @ drop i vs"

definition list_remove :: "'a list \<Rightarrow> nat \<Rightarrow> nat \<Rightarrow> 'a list" where
  "list_remove vs i n = take i vs @ drop (i + n) vs"

datatype ps_op = SetValue nat int | InsertValues nat "int list" | RemoveValues nat nat
  | GetTotalSum | GetPrefixSum nat | GetIndexOf int

fun op_list :: "ps_op \<Rightarrow> int list \<Rightarrow> int list" where
  "op_list (SetValue i v) vs = vs[i := v]"
| "op_list (InsertValues i xs) vs = list_insert vs i xs"
| "op_list (RemoveValues i n) vs = list_remove vs i n"
| "op_list _ vs = vs"

fun op_answer :: "ps_op \<Rightarrow> int list \<Rightarrow> int list" where
  "op_answer GetTotalSum vs = [sum_list vs]"
| "op_answer (GetPrefixSum n) vs = [sum_list (take n vs)]"
| "op_answer (GetIndexOf s) vs = [fst (ref_index vs s), snd (ref_index vs s)]"
| "op_answer _ vs = []"

fun op_ok :: "ps_op \<Rightarrow> int list \<Rightarrow> bool" where
  "op_ok (SetValue i v) vs \<longleftrightarrow> i < length vs \<and> ps_dom (vs[i := v])"
| "op_ok (InsertValues i xs) vs \<longleftrightarrow> i \<le> length vs \<and> ps_dom (list_insert vs i xs)"
| "op_ok (RemoveValues i n) vs \<longleftrightarrow> i + n \<le> length vs \<and> ps_dom (list_remove vs i n)"
| "op_ok GetTotalSum vs \<longleftrightarrow> True"
| "op_ok (GetPrefixSum n) vs \<longleftrightarrow> n \<le> length vs"
| "op_ok (GetIndexOf s) vs \<longleftrightarrow> 0 \<le> s \<and> s < sum_list vs"

fun ops_ok :: "ps_op list \<Rightarrow> int list \<Rightarrow> bool" where
  "ops_ok [] vs \<longleftrightarrow> True"
| "ops_ok (x # xs) vs \<longleftrightarrow> op_ok x vs \<and> ops_ok xs (op_list x vs)"

fun ops_answers :: "ps_op list \<Rightarrow> int list \<Rightarrow> int list list" where
  "ops_answers [] vs = []"
| "ops_answers (x # xs) vs = op_answer x vs # ops_answers xs (op_list x vs)"

text \<open>An implementation runs an operation and gives its answer and the new object.\<close>

fun run_ops :: "(ps_op \<Rightarrow> 's \<Rightarrow> (int list \<times> 's) result) \<Rightarrow> ps_op list \<Rightarrow> 's \<Rightarrow> (int list list \<times> 's) result" where
  "run_ops step [] s = Inr ([], s)"
| "run_ops step (x # xs) s =
     rbind (step x s) (\<lambda>(a, s'). rbind (run_ops step xs s') (\<lambda>(as, s''). Inr (a # as, s'')))"

locale prefix_sum_spec =
  fixes invar :: "'s \<Rightarrow> bool" and vals :: "'s \<Rightarrow> int list" and step :: "ps_op \<Rightarrow> 's \<Rightarrow> (int list \<times> 's) result"
  assumes step_law: "invar s \<Longrightarrow> op_ok x (vals s) \<Longrightarrow>
    \<exists>s'. step x s = Inr (op_answer x (vals s), s') \<and> invar s' \<and> vals s' = op_list x (vals s)"
begin

lemma run_ops_ok:
  "invar s \<Longrightarrow> ops_ok xs (vals s) \<Longrightarrow>
   \<exists>s'. run_ops step xs s = Inr (ops_answers xs (vals s), s') \<and> invar s'"
proof (induction xs arbitrary: s)
  case (Cons x xs)
  obtain s' where "step x s = Inr (op_answer x (vals s), s')" "invar s'" "vals s' = op_list x (vals s)"
    using step_law [of s x] Cons.prems by auto
  with Cons.IH [of s'] Cons.prems show ?case by auto
qed simp

end

section \<open>PrefixSumComputer\<close>

definition psc_invar :: "PrefixSumComputer \<Rightarrow> bool" where
  "psc_invar t \<longleftrightarrow> length (psc_prefixSum t) = length (psc_values t)
     \<and> - 1 \<le> psc_validIndex t \<and> psc_validIndex t < int (length (psc_values t))
     \<and> int (length (psc_values t)) < 2147483647
     \<and> (\<forall>k. int k \<le> psc_validIndex t \<longrightarrow> psc_prefixSum t ! k = sum_list (take (Suc k) (psc_values t)))"

lemma toUint32_id: "0 \<le> v \<Longrightarrow> v < 2147483648 \<Longrightarrow> toUint32 v = v"
  by (simp add: toUint32_def MAX_UINT_32_def toInt32_id int32_range_def)

lemma typed_get_nth: "k < length xs \<Longrightarrow> typed_get xs (int k) = xs ! k"
  by (simp add: typed_get_def)

lemma sum_loop_ok:
  assumes "1 \<le> i" "i \<le> index + 1" "index < int (length vs)" "length ps = length vs"
    and "\<forall>k. int k < i \<longrightarrow> ps ! k = sum_list (take (Suc k) vs)"
  shows "length (sum_loop vs i index ps) = length vs
    \<and> (\<forall>k. int k \<le> index \<longrightarrow> sum_loop vs i index ps ! k = sum_list (take (Suc k) vs))"
  using assms
proof (induction vs i index ps rule: sum_loop.induct)
  case (1 vs i index ps)
  show ?case
  proof (cases "i \<le> index")
    case True
    define n where "n = nat i - 1"
    have n: "i = int (Suc n)" "Suc n < length vs" using 1(2-4) True by (auto simp: n_def)
    let ?ps = "typed_write ps i (typed_get ps (i - 1) + typed_get vs i)"
    have ps: "?ps = ps[Suc n := sum_list (take (Suc (Suc n)) vs)]"
      using 1(5,6) n typed_get_nth [of n ps] typed_get_nth [of "Suc n" vs]
      by (simp add: typed_write_def take_Suc_conv_app_nth nat_add_distrib add.assoc)
    have "\<forall>k. int k < i + 1 \<longrightarrow> ?ps ! k = sum_list (take (Suc k) vs)"
      unfolding ps using 1(5,6) n by (auto simp: nth_list_update less_Suc_eq)
    then have "length (sum_loop vs (i + 1) index ?ps) = length vs
      \<and> (\<forall>k. int k \<le> index \<longrightarrow> sum_loop vs (i + 1) index ?ps ! k = sum_list (take (Suc k) vs))"
      using 1(2-5) True by (intro 1(1)) (auto simp: ps)
    with True show ?thesis by (subst (1 2) sum_loop.simps) simp
  next
    case False
    with 1(3,5,6) show ?thesis by (subst (1 2) sum_loop.simps) auto
  qed
qed


lemma getPrefixSum_impl_ok:
  assumes t: "psc_invar t" and n: "psc_values t \<noteq> []" and i: "0 \<le> index"
  shows "\<exists>t'. PrefixSumComputer_getPrefixSum_impl t index = (Some (sum_list (take (nat index + 1) (psc_values t))), t')
    \<and> psc_invar t' \<and> psc_values t' = psc_values t
    \<and> min index (int (length (psc_values t)) - 1) \<le> psc_validIndex t'"
proof (cases "index \<le> psc_validIndex t")
  case True
  then have "nat index < length (psc_prefixSum t)" using t i by (auto simp: psc_invar_def nat_less_iff)
  then show ?thesis using True t i
    by (simp add: PrefixSumComputer_getPrefixSum_impl_def psc_invar_def js_at_def)
next
  case False
  let ?vs = "psc_values t" and ?start = "psc_validIndex t + 1"
  define ps0 where "ps0 = (if ?start = 0 then typed_write (psc_prefixSum t) 0 (typed_get ?vs 0) else psc_prefixSum t)"
  define s where "s = (if ?start = 0 then ?start + 1 else ?start)"
  define i' where "i' = (if index \<ge> int (length ?vs) then int (length ?vs) - 1 else index)"
  let ?ps = "sum_loop ?vs s i' ps0"
  have len: "length (psc_prefixSum t) = length ?vs" and v: "- 1 \<le> psc_validIndex t" "psc_validIndex t < int (length ?vs)"
    "int (length ?vs) < 2147483647" using t by (simp_all add: psc_invar_def)
  have bi: "0 \<le> i'" "i' < int (length ?vs)" "psc_validIndex t \<le> i'" using i n v False by (auto simp: i'_def Suc_le_eq)
  have ps: "length ?ps = length ?vs \<and> (\<forall>k. int k \<le> i' \<longrightarrow> ?ps ! k = sum_list (take (Suc k) ?vs))"
  proof (rule sum_loop_ok)
    show "1 \<le> s" "s \<le> i' + 1" "i' < int (length ?vs)" using v bi by (auto simp: s_def)
    show "length ps0 = length ?vs" using len by (simp add: ps0_def typed_write_def)
    show "\<forall>k. int k < s \<longrightarrow> ps0 ! k = sum_list (take (Suc k) ?vs)"
      using t n len by (auto simp: s_def ps0_def psc_invar_def typed_write_def typed_get_def js_at_def take_Suc hd_conv_nth)
  qed
  have "js_at ?ps i' = Some (sum_list (take (nat index + 1) ?vs))"
  proof -
    have "take (nat index + 1) ?vs = take (Suc (nat i')) ?vs" using n i by (auto simp: i'_def nat_diff_distrib)
    then show ?thesis using ps bi by (simp add: js_at_def)
  qed
  moreover have "toInt32 (max (psc_validIndex t) i') = i'"
    using bi v by (simp add: max_def toInt32_id int32_range_def)
  moreover have "PrefixSumComputer_getPrefixSum_impl t index = (js_at ?ps i',
      t \<lparr>psc_prefixSum := ?ps, psc_validIndex := toInt32 (max (psc_validIndex t) i')\<rparr>)"
    using False by (simp add: PrefixSumComputer_getPrefixSum_impl_def Let_def ps0_def s_def i'_def)
  ultimately show ?thesis using ps bi v i by (auto simp: psc_invar_def i'_def)
qed

lemma sum_list_uint:
  "(\<Sum>v\<leftarrow>vs. uint (v :: u32)) < 4294967296 \<Longrightarrow> uint (sum_list vs) = (\<Sum>v\<leftarrow>vs. uint v)"
proof (induction vs)
  case (Cons v vs)
  have nn: "0 \<le> (\<Sum>v\<leftarrow>vs. uint v)" by (induction vs) simp_all
  have lt: "uint v + (\<Sum>v\<leftarrow>vs. uint v) < 4294967296" using Cons.prems by simp
  then have "(\<Sum>v\<leftarrow>vs. uint v) < 4294967296" using uint_ge_0 [of v] by linarith
  with Cons.IH have "uint (sum_list vs) = (\<Sum>v\<leftarrow>vs. uint v)" .
  with lt nn show ?case by (simp add: uint_word_ariths)
qed simp

section \<open>Binary search for a sum\<close>

definition psum :: "int list \<Rightarrow> nat \<Rightarrow> int" where
  "psum vs k = sum_list (take k vs)"

lemma psum_Suc: "k < length vs \<Longrightarrow> psum vs (Suc k) = psum vs k + vs ! k"
  by (simp add: psum_def take_Suc_conv_app_nth)

lemma psum_mono: "list_all (\<lambda>v. 0 \<le> v) vs \<Longrightarrow> k \<le> l \<Longrightarrow> psum vs k \<le> psum vs l"
proof (induction l)
  case (Suc l)
  show ?case
  proof (cases "k = Suc l")
    case False
    with Suc have "psum vs k \<le> psum vs l" by simp
    also have "\<dots> \<le> psum vs (Suc l)"
    proof (cases "l < length vs")
      case True
      then show ?thesis using Suc.prems by (simp add: psum_Suc list_all_length)
    qed (simp add: psum_def)
    finally show ?thesis .
  qed simp
qed simp

lemma ref_index_eq:
  assumes "list_all (\<lambda>v. 0 \<le> v) vs" "k < length vs" "psum vs k \<le> s" "s < psum vs (Suc k)"
  shows "ref_index vs s = (int k, s - psum vs k)"
  using assms
proof (induction vs arbitrary: k s)
  case (Cons v vs)
  show ?case
  proof (cases k)
    case 0
    with Cons.prems show ?thesis by (simp add: psum_def)
  next
    case (Suc l)
    then have "ref_index vs (s - v) = (int l, s - v - psum vs l)"
      using Cons.prems by (intro Cons.IH) (auto simp: psum_def)
    moreover have "0 \<le> psum vs l" using psum_mono [of vs 0 l] Cons.prems(1) by (simp add: psum_def)
    then have "\<not> s < v" using Cons.prems(3) Suc by (simp add: psum_def)
    ultimately show ?thesis using Suc by (simp add: psum_def)
  qed
qed simp

lemma index_search_ok:
  assumes nn: "list_all (\<lambda>v. 0 \<le> v) vals" and len: "length vs = length vals" "length ps = length vals" "int (length vals) < 2147483647"
    and vs: "\<And>k. k < length vals \<Longrightarrow> uint (vs ! k) = vals ! k"
    and ps: "\<And>k. k < length vals \<Longrightarrow> uint (ps ! k) = psum vals (Suc k)"
  shows "l \<le> h \<Longrightarrow> h < length vals \<Longrightarrow> psum vals l \<le> s \<Longrightarrow> s < psum vals (Suc h) \<Longrightarrow>
    \<exists>k < length vals. index_search vs ps s (int l) (int h) m a = Some (int k, psum vals k)
      \<and> psum vals k \<le> s \<and> s < psum vals (Suc k)"
proof (induction "h - l" arbitrary: l h m a rule: less_induct)
  case less
  define k where "k = l + (h - l) div 2"
  have k: "l \<le> k" "k \<le> h" "k < length vals" using less.prems by (auto simp: k_def)
  have "int l + (int h - int l) div 2 = int k" using less.prems by (simp add: k_def zdiv_int of_nat_diff)
  then have mid: "toInt32 (int l + (int h - int l) div 2) = int k"
    using k len by (simp add: toInt32_id int32_range_def)
  have stop: "uint (typed_get ps (int k)) = psum vals (Suc k)"
    using k len ps by (simp add: typed_get_nth)
  have begn: "psum vals (Suc k) - uint (typed_get vs (int k)) = psum vals k"
    using k len vs by (simp add: typed_get_nth psum_Suc)
  have step: "index_search vs ps s (int l) (int h) m a =
     (if s < psum vals k then index_search vs ps s (int l) (int k - 1) (int k) (psum vals k)
      else if s \<ge> psum vals (Suc k) then index_search vs ps s (int k + 1) (int h) (int k) (psum vals k)
      else Some (int k, psum vals k))"
    using less.prems by (subst index_search.simps) (simp add: mid stop begn Let_def)
  show ?case
  proof (cases "s < psum vals k")
    case True
    then have "l < k" using less.prems(3) k(1) by (cases "l = k") auto
    then obtain k' where k': "k = Suc k'" by (cases k) auto
    with True step less.hyps [of k' l "int k" "psum vals k"] \<open>l < k\<close> k less.prems show ?thesis by auto
  next
    case False
    show ?thesis
    proof (cases "s \<ge> psum vals (Suc k)")
      case True
      then have "k < h" using less.prems(4) k(2) by (cases "k = h") auto
      then have "\<exists>j<length vals. index_search vs ps s (int (Suc k)) (int h) (int k) (psum vals k) = Some (int j, psum vals j)
          \<and> psum vals j \<le> s \<and> s < psum vals (Suc j)"
        using True k less.prems by (intro less.hyps) auto
      with False True step show ?thesis by (simp add: add.commute)
    next
      case False2: False
      with False step k show ?thesis by (intro exI [of _ k]) simp
    qed
  qed
qed


section \<open>PrefixSumComputer implements the promise\<close>

definition psc_vals :: "PrefixSumComputer \<Rightarrow> int list" where
  "psc_vals t = map uint (psc_values t)"

definition psc_ok :: "PrefixSumComputer \<Rightarrow> bool" where
  "psc_ok t \<longleftrightarrow> psc_invar t \<and> ps_dom (psc_vals t)"

definition to_u32 :: "int list \<Rightarrow> u32 list" where
  "to_u32 vs = map word_of_int vs"

text \<open>\<^verbatim>\<open>getPrefixSum\<close> of this class takes the index of the last value, that of the other one a count.\<close>

fun psc_step :: "ps_op \<Rightarrow> PrefixSumComputer \<Rightarrow> (int list \<times> PrefixSumComputer) result" where
  "psc_step (SetValue i v) t = Inr ([], snd (PrefixSumComputer_setValue t (int i) v))"
| "psc_step (InsertValues i vs) t =
     rbind (PrefixSumComputer_insertValues t (int i) (to_u32 vs)) (\<lambda>r. Inr ([], snd r))"
| "psc_step (RemoveValues i n) t =
     rbind (PrefixSumComputer_removeValues t (int i) (int n)) (\<lambda>r. Inr ([], snd r))"
| "psc_step GetTotalSum t =
     (case PrefixSumComputer_getTotalSum t of (Some s, t') \<Rightarrow> Inr ([s], t') | (None, _) \<Rightarrow> Inl TypeError)"
| "psc_step (GetPrefixSum n) t =
     (case PrefixSumComputer_getPrefixSum t (int n - 1) of (Some s, t') \<Rightarrow> Inr ([s], t') | (None, _) \<Rightarrow> Inl TypeError)"
| "psc_step (GetIndexOf s) t =
     (case PrefixSumComputer_getIndexOf t s of
        Some (r, t') \<Rightarrow> (case (res_index r, res_remainder r) of (Some k, Some m) \<Rightarrow> Inr ([k, m], t') | _ \<Rightarrow> Inl TypeError)
      | None \<Rightarrow> Inl TypeError)"

lemma member_le_sum_list_int: "\<forall>x \<in> set vs. 0 \<le> (x :: int) \<Longrightarrow> v \<in> set vs \<Longrightarrow> v \<le> sum_list vs"
proof (induction vs)
  case (Cons x vs)
  then have "0 \<le> sum_list vs" by (simp add: sum_list_nonneg)
  with Cons show ?case by auto
qed simp

lemma ps_dom_nth: "ps_dom vs \<Longrightarrow> v \<in> set vs \<Longrightarrow> 0 \<le> v \<and> v < 2147483648"
proof -
  assume d: "ps_dom vs" and v: "v \<in> set vs"
  then have "0 \<le> v" and nn: "\<forall>x \<in> set vs. 0 \<le> x" by (auto simp: ps_dom_def list_all_iff)
  moreover have "v \<le> sum_list vs" using nn v by (rule member_le_sum_list_int)
  ultimately show ?thesis using d by (simp add: ps_dom_def)
qed

lemma to_u32_uint: "\<forall>v \<in> set vs. 0 \<le> v \<and> v < 2147483648 \<Longrightarrow> map uint (to_u32 vs) = vs"
  by (induction vs) (auto simp: to_u32_def uint_word_of_int)

lemma keep_valid_sums_ok:
  assumes t: "psc_invar t" and i: "i \<le> length (psc_values t)" "i \<le> length new"
    and same: "take i new = take i (psc_values t)" and len: "int (length new) < 2147483647"
  shows "\<exists>t'. keep_valid_sums t new (int i) = Inr t' \<and> psc_invar t' \<and> psc_values t' = new"
proof -
  define w where "w = (if int i - 1 < psc_validIndex t then int i - 1 else psc_validIndex t)"
  have inv: "length (psc_prefixSum t) = length (psc_values t)" "- 1 \<le> psc_validIndex t"
    "psc_validIndex t < int (length (psc_values t))" "int (length (psc_values t)) < 2147483647"
    "\<And>k. int k \<le> psc_validIndex t \<Longrightarrow> psc_prefixSum t ! k = sum_list (take (Suc k) (psc_values t))"
    using t by (auto simp: psc_invar_def)
  have v: "- 1 \<le> w" "w < int i" "w \<le> psc_validIndex t" "toInt32 w = w"
    using inv i by (auto simp: w_def toInt32_id int32_range_def)
  have sub: "typed_subarray (psc_prefixSum t) 0 (w + 1) = take (nat (w + 1)) (psc_prefixSum t)"
    using v inv i by (auto simp: typed_subarray_def js_slice_def slice_index_def)
  let ?ps = "take (nat (w + 1)) (psc_prefixSum t) @ replicate (length new - nat (w + 1)) 0"
  have "keep_valid_sums t new (int i) = Inr \<lparr>psc_values = new, psc_prefixSum = ?ps, psc_validIndex = w\<rparr>"
  proof -
    have vi: "(if int i - 1 < psc_validIndex t then toInt32 (int i - 1) else psc_validIndex t) = w"
      using v(4) by (auto simp: w_def split: if_splits)
    have "length (take (nat (w + 1)) (psc_prefixSum t)) = nat (w + 1)" using v inv by auto
    moreover have "nat (w + 1) \<le> length new" using v(2) i by linarith
    ultimately have "w \<ge> 0 \<Longrightarrow> typed_set (replicate (length new) 0) (take (nat (w + 1)) (psc_prefixSum t)) 0 = Inr ?ps"
      by (simp add: typed_set_def del: length_take)
    moreover have "\<not> w \<ge> 0 \<Longrightarrow> nat (w + 1) = 0" by simp
    ultimately show ?thesis unfolding keep_valid_sums_def Let_def vi sub by (cases "w \<ge> 0") simp_all
  qed
  moreover have "psc_invar \<lparr>psc_values = new, psc_prefixSum = ?ps, psc_validIndex = w\<rparr>"
  proof -
    have "?ps ! k = sum_list (take (Suc k) new)" if k: "int k \<le> w" for k
    proof -
      have "Suc k \<le> i" "k < nat (w + 1)" "k < length (psc_prefixSum t)" using k v inv by linarith+
      then have "take (Suc k) new = take (Suc k) (psc_values t)"
        using arg_cong [OF same, of "take (Suc k)"] by (simp add: min_absorb1)
      moreover have "psc_prefixSum t ! k = sum_list (take (Suc k) (psc_values t))" using inv(5) k v(3) by simp
      ultimately show ?thesis using \<open>k < nat (w + 1)\<close> \<open>k < length (psc_prefixSum t)\<close>
        by (simp add: nth_append del: sum_list.append)
    qed
    moreover have "length ?ps = length new" using v(1-3) inv(1,3) i by (simp add: min_def) linarith
    moreover have "w < int (length new)" using v(2) i by linarith
    ultimately show ?thesis using v(1) len unfolding psc_invar_def by simp
  qed
  ultimately show ?thesis by fastforce
qed


lemma insertValues_ok:
  assumes t: "psc_invar t" and i: "i \<le> length (psc_values t)" and len: "int (length (psc_values t) + length xs) < 2147483647"
  shows "\<exists>b t'. PrefixSumComputer_insertValues t (int i) xs = Inr (b, t') \<and> psc_invar t'
    \<and> psc_values t' = list_insert (psc_values t) i xs"
proof (cases "xs = []")
  case True
  then show ?thesis using t by (auto simp: PrefixSumComputer_insertValues_def list_insert_def)
next
  case False
  let ?vs = "psc_values t" and ?n = "length xs"
  let ?new = "take i ?vs @ xs @ drop i ?vs"
  have ui: "toUint32 (int i) = int i" using i len by (intro toUint32_id) auto
  have sub: "typed_subarray ?vs 0 (int i) = take i ?vs" "typed_subarray ?vs (int i) (int (length ?vs)) = drop i ?vs"
    using i by (simp_all add: typed_subarray_def js_slice_def slice_index_def nat_diff_distrib)
  have "\<exists>t'. keep_valid_sums t ?new (int i) = Inr t' \<and> psc_invar t' \<and> psc_values t' = ?new"
    using i len by (intro keep_valid_sums_ok [OF t]) auto
  then obtain t' where t': "keep_valid_sums t ?new (int i) = Inr t'" "psc_invar t'" "psc_values t' = ?new" by blast
  have "typed_set (replicate (length ?vs + ?n) 0) (take i ?vs) 0 = Inr (take i ?vs @ replicate (length ?vs + ?n - i) 0)"
    using i by (simp add: typed_set_def min_absorb2)
  moreover have "typed_set (take i ?vs @ replicate (length ?vs + ?n - i) 0) (drop i ?vs) (int i + int ?n)
      = Inr (take i ?vs @ replicate ?n 0 @ drop i ?vs)"
  proof -
    have "nat (int i + int ?n) = i + ?n" by simp
    then show ?thesis using i by (simp add: typed_set_def min_absorb2 nat_add_distrib)
  qed
  moreover have "typed_set (take i ?vs @ replicate ?n 0 @ drop i ?vs) xs (int i) = Inr ?new"
    using i by (simp add: typed_set_def min_absorb2)
  moreover have "nat (int (length ?vs) + int ?n) = length ?vs + ?n" by simp
  ultimately have "PrefixSumComputer_insertValues t (int i) xs = Inr (True, t')"
    using False t' by (simp add: PrefixSumComputer_insertValues_def Let_def ui sub)
  with t' show ?thesis by (auto simp: list_insert_def)
qed

lemma removeValues_ok:
  assumes t: "psc_invar t" and i: "i + n \<le> length (psc_values t)"
  shows "\<exists>b t'. PrefixSumComputer_removeValues t (int i) (int n) = Inr (b, t') \<and> psc_invar t'
    \<and> psc_values t' = list_remove (psc_values t) i n"
proof (cases "n = 0 \<or> i = length (psc_values t)")
  case True
  have "int (length (psc_values t)) < 2147483647" using t by (simp add: psc_invar_def)
  then have "toUint32 (int i) = int i" "toUint32 (int n) = int n" using i by (auto intro: toUint32_id)
  with True i t show ?thesis by (auto simp: PrefixSumComputer_removeValues_def Let_def list_remove_def)
next
  case False
  let ?vs = "psc_values t"
  let ?new = "take i ?vs @ drop (i + n) ?vs"
  have len: "int (length ?vs) < 2147483647" using t by (simp add: psc_invar_def)
  have ui: "toUint32 (int i) = int i" "toUint32 (int n) = int n" using i len by (auto intro: toUint32_id)
  have sub: "typed_subarray ?vs 0 (int i) = take i ?vs" "typed_subarray ?vs (int i + int n) (int (length ?vs)) = drop (i + n) ?vs"
    using i by (simp_all add: typed_subarray_def js_slice_def slice_index_def nat_diff_distrib nat_add_distrib)
  have "\<exists>t'. keep_valid_sums t ?new (int i) = Inr t' \<and> psc_invar t' \<and> psc_values t' = ?new"
    using i len by (intro keep_valid_sums_ok [OF t]) auto
  then obtain t' where t': "keep_valid_sums t ?new (int i) = Inr t'" "psc_invar t'" "psc_values t' = ?new" by blast
  have "typed_set (replicate (length ?vs - n) 0) (take i ?vs) 0 = Inr (take i ?vs @ replicate (length ?vs - n - i) 0)"
    using i by (simp add: typed_set_def min_absorb2)
  moreover have "typed_set (take i ?vs @ replicate (length ?vs - n - i) 0) (drop (i + n) ?vs) (int i) = Inr ?new"
    using i by (simp add: typed_set_def min_absorb2)
  moreover have "nat (int (length ?vs) - int n) = length ?vs - n" by simp
  moreover have "\<not> int (length ?vs) \<le> int i" "int n \<noteq> 0" using False i by auto
  moreover have "(if int (length ?vs) - int i \<le> int n then int (length ?vs) - int i else int n) = int n" using i by auto
  ultimately have "PrefixSumComputer_removeValues t (int i) (int n) = Inr (True, t')"
    using t' unfolding PrefixSumComputer_removeValues_def Let_def ui by (simp add: sub)
  with t' show ?thesis by (auto simp: list_remove_def)
qed

lemma setValue_ok:
  assumes t: "psc_invar t" and i: "i < length (psc_values t)" and v: "0 \<le> v" "v < 2147483648"
  shows "psc_invar (snd (PrefixSumComputer_setValue t (int i) v))
    \<and> psc_values (snd (PrefixSumComputer_setValue t (int i) v)) = (psc_values t)[i := word_of_int v]"
proof -
  let ?vs = "psc_values t"
  let ?w = "if int i - 1 < psc_validIndex t then toInt32 (int i - 1) else psc_validIndex t"
  have inv: "length (psc_prefixSum t) = length ?vs" "- 1 \<le> psc_validIndex t"
    "psc_validIndex t < int (length ?vs)" "int (length ?vs) < 2147483647"
    "\<And>k. int k \<le> psc_validIndex t \<Longrightarrow> psc_prefixSum t ! k = sum_list (take (Suc k) ?vs)"
    using t by (auto simp: psc_invar_def)
  have u: "toUint32 (int i) = int i" "toUint32 v = v" using i inv v by (auto intro: toUint32_id)
  show ?thesis
  proof (cases "uint (?vs ! i) = v")
    case True
    then have "?vs[i := word_of_int v] = ?vs" by auto
    with True i t show ?thesis by (simp add: PrefixSumComputer_setValue_def Let_def u)
  next
    case False
    have w: "- 1 \<le> ?w" "?w < int i" "?w \<le> psc_validIndex t"
      using i inv by (auto simp: toInt32_id int32_range_def)
    have "psc_prefixSum t ! k = sum_list (take (Suc k) (?vs[i := word_of_int v]))" if "int k \<le> ?w" for k
    proof -
      have "take (Suc k) (?vs[i := word_of_int v]) = take (Suc k) ?vs" using that w(2) by (intro take_update_cancel) linarith
      then show ?thesis using inv(5) [of k] that w(3) by simp
    qed
    moreover have "PrefixSumComputer_setValue t (int i) v
        = (True, t \<lparr>psc_values := ?vs[i := word_of_int v], psc_validIndex := ?w\<rparr>)"
      using False i by (simp add: PrefixSumComputer_setValue_def Let_def u typed_write_def)
    ultimately show ?thesis using inv w(1,3) unfolding psc_invar_def by simp
  qed
qed

lemma psc_total:
  assumes "psc_ok t"
  shows "\<exists>t'. PrefixSumComputer_getTotalSum t = (Some (sum_list (psc_vals t)), t') \<and> psc_ok t'
    \<and> psc_values t' = psc_values t \<and> psc_validIndex t' = int (length (psc_values t)) - 1"
proof -
  let ?vs = "psc_values t"
  have t: "psc_invar t" "?vs \<noteq> []" "(\<Sum>v\<leftarrow>?vs. uint v) < 2147483648"
    using assms by (auto simp: psc_ok_def ps_dom_def psc_vals_def)
  have "0 \<le> int (length ?vs) - 1" using t(2) by (simp add: Suc_le_eq)
  from getPrefixSum_impl_ok [OF t(1,2) this] obtain t' where
    t': "PrefixSumComputer_getPrefixSum_impl t (int (length ?vs) - 1) = (Some (sum_list ?vs), t')" "psc_invar t'"
      "psc_values t' = ?vs" "int (length ?vs) - 1 \<le> psc_validIndex t'"
    by (auto simp: nat_diff_distrib)
  moreover have "psc_validIndex t' = int (length ?vs) - 1" using t' by (auto simp: psc_invar_def)
  ultimately show ?thesis using t assms
    by (auto simp: PrefixSumComputer_getTotalSum_def psc_ok_def psc_vals_def sum_list_uint)
qed

lemma psc_index_of:
  assumes ok: "psc_ok t" and s: "0 \<le> s" "s < sum_list (psc_vals t)"
  shows "\<exists>t'. PrefixSumComputer_getIndexOf t s = Some (\<lparr>res_index = Some (fst (ref_index (psc_vals t) s)),
      res_remainder = Some (snd (ref_index (psc_vals t) s))\<rparr>, t') \<and> psc_ok t' \<and> psc_values t' = psc_values t"
proof -
  let ?vs = "psc_values t" and ?vals = "psc_vals t"
  obtain t' where t': "PrefixSumComputer_getTotalSum t = (Some (sum_list ?vals), t')" "psc_ok t'"
    "psc_values t' = ?vs" "psc_validIndex t' = int (length ?vs) - 1" using psc_total [OF ok] by blast
  have dom: "ps_dom ?vals" using ok by (simp add: psc_ok_def)
  then have nn: "list_all (\<lambda>v. 0 \<le> v) ?vals" and n: "?vals \<noteq> []" "int (length ?vals) < 2147483647" by (simp_all add: ps_dom_def)
  have ps: "uint (psc_prefixSum t' ! k) = psum ?vals (Suc k)" if "k < length ?vals" for k
  proof -
    have "psc_prefixSum t' ! k = sum_list (take (Suc k) ?vs)"
      using t' that by (auto simp: psc_ok_def psc_invar_def psc_vals_def)
    moreover have "(\<Sum>v\<leftarrow>take (Suc k) ?vs. uint v) = psum ?vals (Suc k)" by (simp add: psum_def psc_vals_def take_map)
    moreover have "psum ?vals (Suc k) \<le> psum ?vals (length ?vals)" using nn that by (intro psum_mono) auto
    then have "psum ?vals (Suc k) < 4294967296" using dom by (simp add: psum_def ps_dom_def)
    ultimately show ?thesis by (simp add: sum_list_uint)
  qed
  have len: "length ?vs = length ?vals" "length (psc_prefixSum t') = length ?vals"
    using t' by (auto simp: psc_vals_def psc_ok_def psc_invar_def)
  let ?h = "length ?vals - 1"
  have h: "0 \<le> ?h" "?h < length ?vals" "Suc ?h = length ?vals" using n by simp_all
  obtain k where k: "k < length ?vals" "index_search ?vs (psc_prefixSum t') s (int 0) (int ?h) 0 0 = Some (int k, psum ?vals k)"
    "psum ?vals k \<le> s" "s < psum ?vals (Suc k)"
    using index_search_ok [OF nn len n(2) _ ps h(1,2), of s 0 0] s h(3) by (auto simp: psum_def psc_vals_def)
  moreover have "int ?h = int (length ?vs) - 1" using h len by auto
  ultimately show ?thesis using t' ref_index_eq [OF nn k(1,3,4)]
    by (auto simp: PrefixSumComputer_getIndexOf_def Let_def)
qed

lemma psc_prefix:
  assumes ok: "psc_ok t" and n: "n \<le> length (psc_vals t)"
  shows "\<exists>t'. PrefixSumComputer_getPrefixSum t (int n - 1) = (Some (sum_list (take n (psc_vals t))), t')
    \<and> psc_ok t' \<and> psc_values t' = psc_values t"
proof (cases n)
  case 0
  then show ?thesis using ok by (simp add: PrefixSumComputer_getPrefixSum_def)
next
  case (Suc k)
  let ?vs = "psc_values t" and ?vals = "psc_vals t"
  have t: "psc_invar t" "?vs \<noteq> []" and dom: "ps_dom ?vals" using ok by (auto simp: psc_ok_def ps_dom_def psc_vals_def)
  obtain t' where t': "PrefixSumComputer_getPrefixSum_impl t (int k) = (Some (sum_list (take n ?vs)), t')"
    "psc_invar t'" "psc_values t' = ?vs"
    using getPrefixSum_impl_ok [OF t, of "int k"] Suc by auto
  have "toUint32 (int k) = int k" using n Suc dom by (intro toUint32_id) (auto simp: ps_dom_def)
  moreover have "uint (sum_list (take n ?vs)) = sum_list (take n ?vals)"
  proof -
    have "psum ?vals n \<le> psum ?vals (length ?vals)" using dom n by (intro psum_mono) (auto simp: ps_dom_def)
    then have "(\<Sum>v\<leftarrow>take n ?vs. uint v) < 4294967296" using dom by (simp add: psum_def ps_dom_def psc_vals_def take_map)
    from sum_list_uint [OF this] show ?thesis by (simp add: psc_vals_def take_map)
  qed
  ultimately show ?thesis using t' Suc ok by (simp add: PrefixSumComputer_getPrefixSum_def psc_ok_def psc_vals_def)
qed

interpretation psc: prefix_sum_spec psc_ok psc_vals psc_step
proof
  fix t x
  assume ok: "psc_ok t" and x: "op_ok x (psc_vals t)"
  have inv: "psc_invar t" and dom: "ps_dom (psc_vals t)" using ok by (simp_all add: psc_ok_def)
  have len: "length (psc_vals t) = length (psc_values t)" by (simp add: psc_vals_def)
  show "\<exists>t'. psc_step x t = Inr (op_answer x (psc_vals t), t') \<and> psc_ok t' \<and> psc_vals t' = op_list x (psc_vals t)"
  proof (cases x)
    case (SetValue i v)
    have "v \<in> set ((psc_vals t)[i := v])" using x SetValue by (simp add: set_update_memI)
    then have "0 \<le> v" "v < 2147483648" using x SetValue ps_dom_nth by auto
    then show ?thesis using setValue_ok [OF inv, of i v] x SetValue len
      by (simp add: psc_ok_def psc_vals_def map_update uint_word_of_int)
  next
    case (InsertValues i xs)
    have "\<forall>v \<in> set xs. 0 \<le> v \<and> v < 2147483648" using x InsertValues ps_dom_nth by (auto simp: list_insert_def)
    then have "map uint (to_u32 xs) = xs" by (rule to_u32_uint)
    moreover have "length (to_u32 xs) = length xs" by (simp add: to_u32_def)
    moreover have "int (length (psc_values t) + length (to_u32 xs)) < 2147483647"
      using x InsertValues len by (auto simp: list_insert_def ps_dom_def to_u32_def)
    ultimately show ?thesis using insertValues_ok [OF inv, of i "to_u32 xs"] x InsertValues len
      by (auto simp: psc_ok_def psc_vals_def list_insert_def take_map drop_map)
  next
    case (RemoveValues i n)
    then show ?thesis using removeValues_ok [OF inv, of i n] x len
      by (auto simp: psc_ok_def psc_vals_def list_remove_def take_map drop_map)
  next
    case GetTotalSum
    then show ?thesis using psc_total [OF ok] by (auto simp: psc_vals_def)
  next
    case (GetPrefixSum n)
    then show ?thesis using psc_prefix [OF ok, of n] x by (auto simp: psc_vals_def)
  next
    case (GetIndexOf s)
    then show ?thesis using psc_index_of [OF ok, of s] x by (auto simp: psc_vals_def)
  qed
qed

section \<open>ConstantTimePrefixSumComputer implements the promise\<close>

lemma array_set_nat:
  "s \<le> length xs \<Longrightarrow> array_set xs (int s) x = (if s < length xs then xs[s := x] else xs @ [x])"
  by (auto simp: array_set_def list_update_append)

lemma array_get_nat: "k < length xs \<Longrightarrow> array_get xs (int k) = xs ! k"
  by (simp add: array_get_def)

lemma fill_loop_ok:
  assumes "j \<le> v" "a + j \<le> length table"
  shows "length (fill_loop (int a) (int v) i (int j) table) = max (length table) (a + v)
    \<and> (\<forall>s. s < max (length table) (a + v) \<longrightarrow>
        fill_loop (int a) (int v) i (int j) table ! s = (if a + j \<le> s \<and> s < a + v then Some i else table ! s))"
  using assms
proof (induction "v - j" arbitrary: j table)
  case 0
  then show ?case by (subst (1 2) fill_loop.simps) auto
next
  case (Suc n)
  define t' where "t' = array_set table (int (a + j)) (Some i)"
  have jv: "j < v" using Suc by simp
  have t: "t' = (if a + j < length table then table[a + j := Some i] else table @ [Some i])"
    using Suc.prems unfolding t'_def by (intro array_set_nat) simp
  have "fill_loop (int a) (int v) i (int j) table = fill_loop (int a) (int v) i (int (Suc j)) t'"
    using jv by (subst fill_loop.simps) (simp add: t'_def add.commute)
  moreover have "length t' = max (length table) (Suc (a + j))" using Suc.prems by (simp add: t)
  moreover have "length (fill_loop (int a) (int v) i (int (Suc j)) t') = max (length t') (a + v)
    \<and> (\<forall>s. s < max (length t') (a + v) \<longrightarrow>
        fill_loop (int a) (int v) i (int (Suc j)) t' ! s = (if a + Suc j \<le> s \<and> s < a + v then Some i else t' ! s))"
    using Suc.hyps jv Suc.prems by (intro Suc.hyps(1)) (auto simp: t)
  moreover have "s < max (length table) (a + v) \<Longrightarrow> \<not> (a + Suc j \<le> s \<and> s < a + v) \<Longrightarrow>
      t' ! s = (if a + j \<le> s \<and> s < a + v then Some i else table ! s)" for s
    using jv Suc.prems by (auto simp: t nth_list_update nth_append)
  ultimately show ?case using jv by auto
qed

text \<open>The first \<open>m\<close> entries of the sums and the table entries below their total are right.\<close>

definition ct_upto :: "int list \<Rightarrow> nat \<Rightarrow> int option list \<Rightarrow> int option list \<Rightarrow> bool" where
  "ct_upto vs m prefix table \<longleftrightarrow> m \<le> length prefix \<and> psum vs m \<le> int (length table)
     \<and> (\<forall>k < m. prefix ! k = Some (psum vs (Suc k)))
     \<and> (\<forall>k < m. \<forall>s. psum vs k \<le> int s \<and> int s < psum vs (Suc k) \<longrightarrow> table ! s = Some (int k))"

lemma psum_nonneg: "list_all (\<lambda>v. 0 \<le> v) vs \<Longrightarrow> 0 \<le> psum vs k"
  using psum_mono [of vs 0 k] by (simp add: psum_def)

lemma ct_upto_step:
  assumes nn: "list_all (\<lambda>v. 0 \<le> v) vs" and m: "m < length vs" and up: "ct_upto vs m prefix table"
  shows "ct_upto vs (Suc m) (array_set prefix (int m) (Some (psum vs m + vs ! m)))
    (fill_loop (psum vs m) (vs ! m) (int m) 0 table)"
proof -
  obtain a v where av: "psum vs m = int a" "vs ! m = int v"
    using nn m psum_nonneg [OF nn, of m] by (metis list_all_length nonneg_int_cases)
  let ?r = "fill_loop (psum vs m) (vs ! m) (int m) 0 table"
  have r: "length ?r = max (length table) (a + v)"
    "\<And>s. s < max (length table) (a + v) \<Longrightarrow> ?r ! s = (if a \<le> s \<and> s < a + v then Some (int m) else table ! s)"
    using fill_loop_ok [of 0 v a table "int m"] up av by (auto simp: ct_upto_def)
  have suc: "psum vs (Suc m) = int (a + v)" using m av by (simp add: psum_Suc)
  have set: "array_set prefix (int m) (Some (psum vs m + vs ! m))
      = (if m < length prefix then prefix[m := Some (psum vs (Suc m))] else prefix @ [Some (psum vs (Suc m))])"
    using up m by (simp add: array_set_nat ct_upto_def psum_Suc)
  have "?r ! s = Some (int k)" if "k < Suc m" "psum vs k \<le> int s" "int s < psum vs (Suc k)" for k s
  proof (cases "k = m")
    case True
    with that av suc show ?thesis by (subst r(2)) auto
  next
    case False
    then have "psum vs (Suc k) \<le> psum vs m" using that(1) nn by (intro psum_mono) auto
    then have "s < a" using that(3) av by simp
    moreover have "table ! s = Some (int k)" using False that up by (simp add: ct_upto_def)
    ultimately show ?thesis by (subst r(2)) auto
  qed
  moreover have "\<forall>k < Suc m. array_set prefix (int m) (Some (psum vs m + vs ! m)) ! k = Some (psum vs (Suc k))"
    using up by (auto simp: set ct_upto_def nth_list_update nth_append less_Suc_eq)
  ultimately show ?thesis using up unfolding ct_upto_def suc r(1) by (auto simp: set)
qed

lemma ensure_loop_ok:
  assumes nn: "list_all (\<lambda>v. 0 \<le> v) vs"
  shows "m \<le> length vs \<Longrightarrow> ct_upto vs m prefix table \<Longrightarrow>
    case ensure_loop (map Some vs) (int m) prefix table of (p, t) \<Rightarrow> ct_upto vs (length vs) p t"
proof (induction "length vs - m" arbitrary: m prefix table)
  case 0
  then show ?case by (subst ensure_loop.simps) simp
next
  case (Suc n)
  then have m: "m < length vs" by simp
  have v: "array_get (map Some vs) (int m) = Some (vs ! m)" using m by (simp add: array_get_nat)
  have above: "(if int m > 0 then array_get prefix (int m - 1) else Some 0) = Some (psum vs m)"
  proof (cases m)
    case (Suc k)
    then have "array_get prefix (int k) = Some (psum vs (Suc k))" using \<open>ct_upto vs m prefix table\<close>
      by (subst array_get_nat) (auto simp: ct_upto_def)
    with Suc show ?thesis by simp
  qed (simp add: psum_def)
  have "ensure_loop (map Some vs) (int m) prefix table = ensure_loop (map Some vs) (int (Suc m))
      (array_set prefix (int m) (Some (psum vs m + vs ! m))) (fill_loop (psum vs m) (vs ! m) (int m) 0 table)"
    using m by (subst ensure_loop.simps) (simp add: v above Let_def add.commute del: of_nat_0_less_iff)
  moreover have "case ensure_loop (map Some vs) (int (Suc m))
      (array_set prefix (int m) (Some (psum vs m + vs ! m))) (fill_loop (psum vs m) (vs ! m) (int m) 0 table) of
      (p, t) \<Rightarrow> ct_upto vs (length vs) p t"
    using Suc.hyps m by (intro Suc.hyps(1) ct_upto_step [OF nn m Suc.prems(2)]) auto
  ultimately show ?case by simp
qed


definition ct_vals :: "ConstantTimePrefixSumComputer \<Rightarrow> int list" where
  "ct_vals t = map the (ct_values t)"

definition ct_ok :: "ConstantTimePrefixSumComputer \<Rightarrow> bool" where
  "ct_ok t \<longleftrightarrow> list_all (\<lambda>x. x \<noteq> None) (ct_values t) \<and> ps_dom (ct_vals t)
     \<and> - 1 \<le> ct_validEndIndex t \<and> ct_validEndIndex t < int (length (ct_values t))
     \<and> ct_upto (ct_vals t) (nat (ct_validEndIndex t + 1)) (ct_prefixSum t) (ct_indexBySum t)
     \<and> (ct_isValid t \<longrightarrow> ct_validEndIndex t = int (length (ct_values t)) - 1
          \<and> length (ct_prefixSum t) = length (ct_values t) \<and> int (length (ct_indexBySum t)) = sum_list (ct_vals t))"

fun ct_step :: "ps_op \<Rightarrow> ConstantTimePrefixSumComputer \<Rightarrow> (int list \<times> ConstantTimePrefixSumComputer) result" where
  "ct_step (SetValue i v) t = Inr ([], ConstantTimePrefixSumComputer_setValue t (int i) v)"
| "ct_step (InsertValues i vs) t = Inr ([], ConstantTimePrefixSumComputer_insertValues t (int i) vs)"
| "ct_step (RemoveValues i n) t = Inr ([], ConstantTimePrefixSumComputer_removeValues t (int i) (int n))"
| "ct_step GetTotalSum t = rbind (ConstantTimePrefixSumComputer_getTotalSum t) (\<lambda>(s, t'). Inr ([s], t'))"
| "ct_step (GetPrefixSum n) t =
     rbind (ConstantTimePrefixSumComputer_getPrefixSum t (int n)) (\<lambda>(s, t').
       case s of Some x \<Rightarrow> Inr ([x], t') | None \<Rightarrow> Inl TypeError)"
| "ct_step (GetIndexOf s) t =
     rbind (ConstantTimePrefixSumComputer_getIndexOf t s) (\<lambda>(r, t').
       case (res_index r, res_remainder r) of (Some k, Some m) \<Rightarrow> Inr ([k, m], t') | _ \<Rightarrow> Inl TypeError)"

lemma ct_values_vals: "list_all (\<lambda>x. x \<noteq> None) xs \<Longrightarrow> xs = map Some (map the xs)"
  by (induction xs) auto

text \<open>What a change at index \<open>i\<close> keeps.\<close>

lemma ct_invalidate_ok:
  assumes ok: "ct_ok t" and new: "list_all (\<lambda>x. x \<noteq> None) new" "ps_dom (map the new)" and i: "i \<le> length new" "i \<le> length (ct_values t)"
    and same: "take i (map the new) = take i (ct_vals t)"
  shows "ct_ok (ConstantTimePrefixSumComputer_invalidate (t \<lparr>ct_values := new\<rparr>) (int i))"
proof -
  define m where "m = nat (min (ct_validEndIndex t) (int i - 1) + 1)"
  have v: "- 1 \<le> ct_validEndIndex t" using ok by (simp add: ct_ok_def)
  have m: "m \<le> i" "m \<le> nat (ct_validEndIndex t + 1)" using v by (auto simp: m_def)
  have eq: "psum (map the new) k = psum (ct_vals t) k" if "k \<le> m" for k
    using arg_cong [OF same, of "take k"] that m(1) by (simp add: psum_def min_absorb1)
  have up: "ct_upto (ct_vals t) (nat (ct_validEndIndex t + 1)) (ct_prefixSum t) (ct_indexBySum t)"
    and nn: "list_all (\<lambda>v. 0 \<le> v) (ct_vals t)"
    using ok by (simp_all add: ct_ok_def ps_dom_def)
  have "ct_upto (map the new) m (ct_prefixSum t) (ct_indexBySum t)"
    using up m(2) psum_mono [OF nn m(2)] unfolding ct_upto_def by (auto simp: eq)
  then have "ct_upto (map the new) (nat (min (ct_validEndIndex t) (int i - 1) + 1)) (ct_prefixSum t) (ct_indexBySum t)"
    by (simp add: m_def)
  moreover have "- 1 \<le> min (ct_validEndIndex t) (int i - 1)" "min (ct_validEndIndex t) (int i - 1) < int (length new)"
    using v i by auto
  ultimately show ?thesis using new
    by (simp add: ct_ok_def ct_vals_def ConstantTimePrefixSumComputer_invalidate_def)
qed

lemma ct_ensureValid_ok:
  assumes ok: "ct_ok t"
  shows "\<exists>t'. ConstantTimePrefixSumComputer_ensureValid t = Inr t' \<and> ct_ok t' \<and> ct_isValid t' \<and> ct_values t' = ct_values t"
proof (cases "ct_isValid t")
  case True
  then show ?thesis using ok by (simp add: ConstantTimePrefixSumComputer_ensureValid_def)
next
  case False
  let ?vs = "ct_vals t" and ?n = "length (ct_values t)"
  have vs: "ct_values t = map Some ?vs" using ok unfolding ct_vals_def by (intro ct_values_vals) (simp add: ct_ok_def)
  have dom: "?vs \<noteq> []" and nn: "list_all (\<lambda>v. 0 \<le> v) ?vs" using ok by (auto simp: ct_ok_def ps_dom_def)
  have v: "- 1 \<le> ct_validEndIndex t" "ct_validEndIndex t < int ?n" using ok by (simp_all add: ct_ok_def)
  obtain p tb where e: "ensure_loop (ct_values t) (ct_validEndIndex t + 1) (ct_prefixSum t) (ct_indexBySum t) = (p, tb)"
    by (cases "ensure_loop (ct_values t) (ct_validEndIndex t + 1) (ct_prefixSum t) (ct_indexBySum t)")
  have len: "?n = length ?vs" by (simp add: ct_vals_def)
  have up: "ct_upto ?vs ?n p tb"
    using ensure_loop_ok [OF nn, of "nat (ct_validEndIndex t + 1)" "ct_prefixSum t" "ct_indexBySum t"] ok v e len
    by (auto simp: ct_ok_def nat_le_iff vs [symmetric])
  let ?p = "take ?n p" and ?tb = "take (nat (psum ?vs ?n)) tb"
  have lp: "length ?p = ?n" using up by (simp add: ct_upto_def)
  have "array_get ?p (int ?n - 1) = Some (psum ?vs ?n)"
  proof -
    obtain k where k: "?n = Suc k" using dom len by (metis length_0_conv old.nat.exhaust)
    then have "array_get ?p (int k) = ?p ! k" using lp by (intro array_get_nat) simp
    then show ?thesis using up k by (simp add: ct_upto_def)
  qed
  moreover have "0 \<le> psum ?vs ?n" by (rule psum_nonneg [OF nn])
  moreover have ltb: "nat (psum ?vs ?n) \<le> length tb" using up by (simp add: ct_upto_def nat_le_iff)
  define t' where "t' = t \<lparr>ct_isValid := True, ct_validEndIndex := int ?n - 1, ct_prefixSum := ?p, ct_indexBySum := ?tb\<rparr>"
  have "nat (psum ?vs ?n) - length tb = 0" using ltb by simp
  then have res: "ConstantTimePrefixSumComputer_ensureValid t = Inr t'"
    using False e lp up calculation(1,2)
    by (simp add: ConstantTimePrefixSumComputer_ensureValid_def array_set_length_def ct_upto_def t'_def)
  have "ct_upto ?vs ?n ?p ?tb"
  proof -
    have "?tb ! s = Some (int k)" if "k < ?n" "psum ?vs k \<le> int s" "int s < psum ?vs (Suc k)" for k s
    proof -
      have "int s < psum ?vs ?n" using psum_mono [OF nn, of "Suc k" ?n] that by simp
      then have "s < nat (psum ?vs ?n)" by simp
      with that up show ?thesis by (simp add: ct_upto_def)
    qed
    moreover have "\<forall>k < ?n. ?p ! k = Some (psum ?vs (Suc k))" using up by (simp add: ct_upto_def)
    moreover have "psum ?vs ?n \<le> int (length ?tb)" using ltb by simp
    ultimately show ?thesis using lp unfolding ct_upto_def by auto
  qed
  moreover have "int (length ?tb) = sum_list ?vs" using ltb psum_nonneg [OF nn, of ?n] by (simp add: psum_def len)
  moreover have "ct_vals t' = ?vs" by (simp add: ct_vals_def t'_def)
  moreover have "0 < ?n" using dom len by simp
  ultimately have "ct_ok t'" using ok lp unfolding ct_ok_def by (simp add: t'_def del: length_take)
  with res show ?thesis by (simp add: t'_def)
qed

lemma ref_index_exists:
  assumes nn: "list_all (\<lambda>v. 0 \<le> v) vs" and s: "0 \<le> s" "s < sum_list vs"
  obtains k where "k < length vs" "psum vs k \<le> s" "s < psum vs (Suc k)"
  using s
proof (induction vs arbitrary: s thesis)
  case (Cons v vs)
  show ?case
  proof (cases "s < v")
    case True
    then show ?thesis using Cons.prems by (intro Cons.prems(1) [of 0]) (simp_all add: psum_def)
  next
    case False
    obtain k where "k < length vs" "psum vs k \<le> s - v" "s - v < psum vs (Suc k)"
      using Cons.IH [of "s - v"] Cons.prems False by (auto simp: psum_def)
    then show ?thesis by (intro Cons.prems(1) [of "Suc k"]) (simp_all add: psum_def)
  qed
qed simp

lemma ct_index_of:
  assumes ok: "ct_ok t" and s: "0 \<le> s" "s < sum_list (ct_vals t)"
  shows "\<exists>t'. ConstantTimePrefixSumComputer_getIndexOf t s = Inr (\<lparr>res_index = Some (fst (ref_index (ct_vals t) s)),
      res_remainder = Some (snd (ref_index (ct_vals t) s))\<rparr>, t') \<and> ct_ok t' \<and> ct_values t' = ct_values t"
proof -
  obtain t' where t': "ConstantTimePrefixSumComputer_ensureValid t = Inr t'" "ct_ok t'" "ct_isValid t'" "ct_values t' = ct_values t"
    using ct_ensureValid_ok [OF ok] by blast
  let ?vs = "ct_vals t"
  have nn: "list_all (\<lambda>v. 0 \<le> v) ?vs" using ok by (simp add: ct_ok_def ps_dom_def)
  have up: "ct_upto ?vs (length ?vs) (ct_prefixSum t') (ct_indexBySum t')" and lt: "int (length (ct_indexBySum t')) = sum_list ?vs"
    using t' by (auto simp: ct_ok_def ct_vals_def)
  obtain k where k: "k < length ?vs" "psum ?vs k \<le> s" "s < psum ?vs (Suc k)"
    using ref_index_exists [OF nn s] by blast
  have "array_get (ct_indexBySum t') (int (nat s)) = ct_indexBySum t' ! nat s"
    using s lt by (intro array_get_nat) (simp add: nat_less_iff)
  then have "array_get (ct_indexBySum t') s = ct_indexBySum t' ! nat s" using s by simp
  also have "ct_indexBySum t' ! nat s = Some (int k)" using up k s by (simp add: ct_upto_def)
  finally have idx: "array_get (ct_indexBySum t') s = Some (int k)" .
  have "(if int k > 0 then array_get (ct_prefixSum t') (int k - 1) else Some 0) = Some (psum ?vs k)"
  proof (cases k)
    case (Suc l)
    then have "array_get (ct_prefixSum t') (int l) = ct_prefixSum t' ! l" using up k(1)
      by (intro array_get_nat) (auto simp: ct_upto_def)
    with Suc up k(1) show ?thesis by (simp add: ct_upto_def)
  qed (simp add: psum_def)
  with idx t' ref_index_eq [OF nn k] show ?thesis
    by (simp add: ConstantTimePrefixSumComputer_getIndexOf_def Let_def del: of_nat_0_less_iff)
qed

lemma ct_prefix:
  assumes ok: "ct_ok t" and n: "n \<le> length (ct_vals t)"
  shows "\<exists>t'. ConstantTimePrefixSumComputer_getPrefixSum t (int n) = Inr (Some (sum_list (take n (ct_vals t))), t')
    \<and> ct_ok t' \<and> ct_values t' = ct_values t"
proof -
  obtain t' where t': "ConstantTimePrefixSumComputer_ensureValid t = Inr t'" "ct_ok t'" "ct_isValid t'" "ct_values t' = ct_values t"
    using ct_ensureValid_ok [OF ok] by blast
  have up: "ct_upto (ct_vals t) (length (ct_vals t)) (ct_prefixSum t') (ct_indexBySum t')"
    using t' by (auto simp: ct_ok_def ct_vals_def)
  show ?thesis
  proof (cases n)
    case 0
    then show ?thesis using t' by (simp add: ConstantTimePrefixSumComputer_getPrefixSum_def)
  next
    case (Suc k)
    then have "array_get (ct_prefixSum t') (int k) = ct_prefixSum t' ! k" using up n
      by (intro array_get_nat) (auto simp: ct_upto_def)
    with Suc up n t' show ?thesis
      by (simp add: ConstantTimePrefixSumComputer_getPrefixSum_def ct_upto_def psum_def)
  qed
qed

interpretation ct: prefix_sum_spec ct_ok ct_vals ct_step
proof
  fix t x
  assume ok: "ct_ok t" and x: "op_ok x (ct_vals t)"
  let ?xs = "ct_values t"
  have len: "length (ct_vals t) = length ?xs" by (simp add: ct_vals_def)
  have some: "list_all (\<lambda>x. x \<noteq> None) ?xs" using ok by (simp add: ct_ok_def)
  show "\<exists>t'. ct_step x t = Inr (op_answer x (ct_vals t), t') \<and> ct_ok t' \<and> ct_vals t' = op_list x (ct_vals t)"
  proof (cases x)
    case (SetValue i v)
    show ?thesis
    proof (cases "?xs ! i = Some v")
      case True
      then have "(ct_vals t)[i := v] = ct_vals t" using x SetValue len by (metis ct_vals_def list_update_id nth_map op_ok.simps(1) option.sel)
      with True x SetValue len ok show ?thesis
        by (simp add: ConstantTimePrefixSumComputer_setValue_def array_get_nat)
    next
      case False
      let ?new = "?xs[i := Some v]"
      have "map the ?new = (ct_vals t)[i := v]" by (simp add: ct_vals_def map_update)
      moreover have "list_all (\<lambda>x. x \<noteq> None) ?new" using some by (auto simp: list_all_iff dest!: subsetD [OF set_update_subset_insert])
      ultimately have "ct_ok (ConstantTimePrefixSumComputer_invalidate (t \<lparr>ct_values := ?new\<rparr>) (int i))"
        using x SetValue len by (intro ct_invalidate_ok [OF ok]) auto
      with False x SetValue len \<open>map the ?new = _\<close> show ?thesis
        by (simp add: ConstantTimePrefixSumComputer_setValue_def array_get_nat array_set_nat
            ConstantTimePrefixSumComputer_invalidate_def ct_vals_def)
    qed
  next
    case (InsertValues i ys)
    let ?new = "take i ?xs @ map Some ys @ drop i ?xs"
    have new: "arrayInsert ?xs (int i) (map Some ys) = ?new"
      using x InsertValues len by (simp add: arrayInsert_def js_slice_def slice_index_def nat_diff_distrib)
    have eq: "map the ?new = list_insert (ct_vals t) i ys" by (simp add: list_insert_def ct_vals_def take_map drop_map comp_def)
    have "list_all (\<lambda>x. x \<noteq> None) ?new" using some by (auto simp: list_all_iff dest: in_set_takeD in_set_dropD)
    then have "ct_ok (ConstantTimePrefixSumComputer_invalidate (t \<lparr>ct_values := ?new\<rparr>) (int i))"
      using x InsertValues len eq by (intro ct_invalidate_ok [OF ok]) (auto simp: list_insert_def)
    with InsertValues eq show ?thesis
      by (simp add: ConstantTimePrefixSumComputer_insertValues_def ConstantTimePrefixSumComputer_invalidate_def new ct_vals_def)
  next
    case (RemoveValues i n)
    let ?new = "take i ?xs @ drop (i + n) ?xs"
    have new: "js_splice ?xs (int i) (int n) [] = ?new" using x RemoveValues len by (simp add: js_splice_nat)
    have eq: "map the ?new = list_remove (ct_vals t) i n" by (simp add: list_remove_def ct_vals_def take_map drop_map)
    have "list_all (\<lambda>x. x \<noteq> None) ?new" using some by (auto simp: list_all_iff dest: in_set_takeD in_set_dropD)
    then have "ct_ok (ConstantTimePrefixSumComputer_invalidate (t \<lparr>ct_values := ?new\<rparr>) (int i))"
      using x RemoveValues len eq by (intro ct_invalidate_ok [OF ok]) (auto simp: list_remove_def)
    with RemoveValues eq show ?thesis
      by (simp add: ConstantTimePrefixSumComputer_removeValues_def ConstantTimePrefixSumComputer_invalidate_def new ct_vals_def)
  next
    case GetTotalSum
    then show ?thesis using ct_ensureValid_ok [OF ok]
      by (auto simp: ConstantTimePrefixSumComputer_getTotalSum_def ct_ok_def ct_vals_def)
  next
    case (GetPrefixSum n)
    then show ?thesis using ct_prefix [OF ok, of n] x by (auto simp: ct_vals_def)
  next
    case (GetIndexOf s)
    then show ?thesis using ct_index_of [OF ok, of s] x by (auto simp: ct_vals_def)
  qed
qed

text \<open>The constructors establish the invariants.\<close>

lemma new_PrefixSumComputer_ok:
  assumes "ps_dom vs"
  shows "psc_ok (new_PrefixSumComputer (to_u32 vs)) \<and> psc_vals (new_PrefixSumComputer (to_u32 vs)) = vs"
proof -
  have "map uint (to_u32 vs) = vs" using ps_dom_nth [OF assms] by (intro to_u32_uint) blast
  moreover have "length (to_u32 vs) = length vs" by (simp add: to_u32_def)
  moreover have "vs \<noteq> []" "int (length vs) < 2147483647" using assms by (simp_all add: ps_dom_def)
  ultimately show ?thesis using assms
    by (simp add: psc_ok_def psc_invar_def psc_vals_def new_PrefixSumComputer_def)
qed

lemma new_ConstantTimePrefixSumComputer_ok:
  "ps_dom vs \<Longrightarrow> ct_ok (new_ConstantTimePrefixSumComputer vs) \<and> ct_vals (new_ConstantTimePrefixSumComputer vs) = vs"
  by (auto simp: ct_ok_def ct_vals_def new_ConstantTimePrefixSumComputer_def ct_upto_def psum_def comp_def ps_dom_def list_all_iff)

section \<open>Properties\<close>

text \<open>C4: a \<^verbatim>\<open>PrefixSumComputer\<close> with its lazily maintained 32-bit prefix sums answers every sequence of
  updates and queries like a plain list: sums are sums of the list, and \<^verbatim>\<open>getIndexOf\<close>
  returns the index whose value covers the sum and the remainder there; no operation throws and the
  search always ends.\<close>

theorem prefix_sum_computer_answers:
  assumes "ps_dom vs" "ops_ok xs vs"
  shows "\<exists>t. run_ops psc_step xs (new_PrefixSumComputer (to_u32 vs)) = Inr (ops_answers xs vs, t)"
  using psc.run_ops_ok [of "new_PrefixSumComputer (to_u32 vs)" xs] new_PrefixSumComputer_ok [OF assms(1)] assms(2) by auto

theorem prefix_sum_computer_answers_witness:
  "\<exists>t. run_ops psc_step [GetTotalSum, SetValue 1 5, GetPrefixSum 2, GetIndexOf 4, InsertValues 0 [7], GetTotalSum]
         (new_PrefixSumComputer (to_u32 [3, 2])) = Inr ([[5], [], [8], [1, 1], [], [15]], t)"
  using prefix_sum_computer_answers [of "[3, 2]" "[GetTotalSum, SetValue 1 5, GetPrefixSum 2, GetIndexOf 4, InsertValues 0 [7], GetTotalSum]"]
  by (simp add: ps_dom_def list_insert_def eval_nat_numeral)

text \<open>a \<^verbatim>\<open>ConstantTimePrefixSumComputer\<close>, which stores the index of every sum, gives the same answers.\<close>

theorem constant_time_prefix_sum_computer_answers:
  assumes "ps_dom vs" "ops_ok xs vs"
  shows "\<exists>t. run_ops ct_step xs (new_ConstantTimePrefixSumComputer vs) = Inr (ops_answers xs vs, t)"
  using ct.run_ops_ok [of "new_ConstantTimePrefixSumComputer vs" xs] new_ConstantTimePrefixSumComputer_ok [OF assms(1)] assms(2)
  by auto

theorem constant_time_prefix_sum_computer_answers_witness:
  "\<exists>t. run_ops ct_step [GetTotalSum, SetValue 1 5, GetPrefixSum 2, GetIndexOf 4, RemoveValues 0 1, GetTotalSum]
         (new_ConstantTimePrefixSumComputer [3, 2]) = Inr ([[5], [], [8], [1, 1], [], [5]], t)"
  using constant_time_prefix_sum_computer_answers [of "[3, 2]" "[GetTotalSum, SetValue 1 5, GetPrefixSum 2, GetIndexOf 4, RemoveValues 0 1, GetTotalSum]"]
  by (simp add: ps_dom_def list_remove_def eval_nat_numeral)

end
