(* ===== verification/Text_Change.thy ===== *)
theory Text_Change
  imports Js_Prelude
begin

text \<open>
  \<^verbatim>\<open>src/vs/editor/common/core/textChange.ts\<close>, with the parts of \<^verbatim>\<open>src/vs/base/common/buffer.ts\<close> and \<^verbatim>\<open>src/vs/editor/common/core/stringBuilder.ts\<close>
  it calls: the changes the undo stack stores, their binary format, and the compression of
  two consecutive lists of changes into one.  A buffer is a list of bytes that starts at the beginning of
  its \<^verbatim>\<open>ArrayBuffer\<close>; the platform is little-endian.
\<close>

section \<open>Reading and writing numbers\<close>

type_synonym byte = "8 word"

text \<open>An element of a \<^verbatim>\<open>Uint8Array\<close> keeps the value modulo 256; \<^verbatim>\<open>v >>> 8\<close> works on the value modulo
  $2^{32}$.\<close>

definition js_ushr8 :: "int \<Rightarrow> int" where
  "js_ushr8 v = (v mod 4294967296) div 256"

definition writeUInt32BE :: "byte list \<Rightarrow> int \<Rightarrow> int \<Rightarrow> byte list" where
  "writeUInt32BE b v0 offset =
     (let b1 = typed_write b (offset + 3) (word_of_int v0); v1 = js_ushr8 v0;
          b2 = typed_write b1 (offset + 2) (word_of_int v1); v2 = js_ushr8 v1;
          b3 = typed_write b2 (offset + 1) (word_of_int v2); v3 = js_ushr8 v2
      in typed_write b3 offset (word_of_int v3))"

definition writeUInt32LE :: "byte list \<Rightarrow> int \<Rightarrow> int \<Rightarrow> byte list" where
  "writeUInt32LE b v0 offset =
     (let b1 = typed_write b (offset + 0) (word_of_int (v0 mod 256)); v1 = js_ushr8 v0;
          b2 = typed_write b1 (offset + 1) (word_of_int (v1 mod 256)); v2 = js_ushr8 v1;
          b3 = typed_write b2 (offset + 2) (word_of_int (v2 mod 256)); v3 = js_ushr8 v2
      in typed_write b3 (offset + 3) (word_of_int (v3 mod 256)))"

definition writeUInt16LE :: "byte list \<Rightarrow> int \<Rightarrow> int \<Rightarrow> byte list" where
  "writeUInt16LE b v0 offset =
     (let b1 = typed_write b (offset + 0) (word_of_int (v0 mod 256)); v1 = js_ushr8 v0
      in typed_write b1 (offset + 1) (word_of_int (v1 mod 256)))"

text \<open>Reading outside of the buffer gives \<^verbatim>\<open>undefined\<close>: in an addition it makes the result \<^verbatim>\<open>NaN\<close>, here \<open>None\<close>;
  the bitwise operators treat it as 0.\<close>

definition readUInt32BE :: "byte list \<Rightarrow> int \<Rightarrow> int option" where
  "readUInt32BE b offset =
     (case (js_at b offset, js_at b (offset + 1), js_at b (offset + 2), js_at b (offset + 3)) of
        (Some b0, Some b1, Some b2, Some b3) \<Rightarrow>
          Some (uint b0 * 2 ^ 24 + uint b1 * 2 ^ 16 + uint b2 * 2 ^ 8 + uint b3)
      | _ \<Rightarrow> None)"

definition byte_at :: "byte list \<Rightarrow> int \<Rightarrow> int" where
  "byte_at b i = (case js_at b i of None \<Rightarrow> 0 | Some x \<Rightarrow> uint x)"

text \<open>The operands of \<^verbatim>\<open>|\<close> have no bit in common, so their bitwise or is their sum; the result of \<^verbatim>\<open>|\<close> is a
  signed 32-bit integer.\<close>

definition readUInt32LE :: "byte list \<Rightarrow> int \<Rightarrow> int" where
  "readUInt32LE b offset =
     toInt32 (byte_at b (offset + 0) + byte_at b (offset + 1) * 2 ^ 8
       + byte_at b (offset + 2) * 2 ^ 16 + byte_at b (offset + 3) * 2 ^ 24)"

definition readUInt16LE :: "byte list \<Rightarrow> int \<Rightarrow> int" where
  "readUInt16LE b offset = toInt32 (byte_at b (offset + 0) + byte_at b (offset + 1) * 2 ^ 8)"

section \<open>Decoding UTF-16\<close>

text \<open>The decoder of the platform (\<^verbatim>\<open>TextDecoder('UTF-16LE')\<close>) replaces a surrogate without partner by U+FFFD.\<close>

fun utf16_decode :: "js_string \<Rightarrow> js_string" where
  "utf16_decode [] = []"
| "utf16_decode [c] = [if is_high_surrogate c \<or> is_low_surrogate c then 0xFFFD else c]"
| "utf16_decode (c # d # s) =
     (if is_high_surrogate c \<and> is_low_surrogate d then c # d # utf16_decode s
      else (if is_high_surrogate c \<or> is_low_surrogate c then 0xFFFD else c) # utf16_decode (d # s))"

definition compatDecodeUTF16LE :: "byte list \<Rightarrow> int \<Rightarrow> nat \<Rightarrow> js_string" where
  "compatDecodeUTF16LE source offset len =
     map (\<lambda>i. word_of_int (readUInt16LE source (offset + 2 * int i))) [0 ..< len]"

text \<open>\<^verbatim>\<open>new Uint16Array(source.buffer, offset, len)\<close> throws when \<^verbatim>\<open>offset\<close> is odd or the view does not fit.\<close>

definition uint16_view :: "byte list \<Rightarrow> int \<Rightarrow> nat \<Rightarrow> js_string result" where
  "uint16_view source offset len =
     (if offset < 0 \<or> offset mod 2 \<noteq> 0 \<or> offset + 2 * int len > int (length source) then Inl RangeError
      else Inr (map (\<lambda>i. word_of_int (byte_at source (offset + 2 * int i) + 256 * byte_at source (offset + 2 * int i + 1)))
             [0 ..< len]))"

definition decodeUTF16LE :: "byte list \<Rightarrow> int \<Rightarrow> nat \<Rightarrow> js_string result" where
  "decodeUTF16LE source offset len =
     rbind (uint16_view source offset len) (\<lambda>view.
       if len > 0 \<and> (hd view = 0xFEFF \<or> hd view = 0xFFFE) then Inr (compatDecodeUTF16LE source offset len)
       else Inr (utf16_decode view))"

section \<open>The class TextChange\<close>

record TextChange =
  oldPosition :: int
  oldText :: js_string
  newPosition :: int
  insText :: js_string

abbreviation new_TextChange :: "int \<Rightarrow> js_string \<Rightarrow> int \<Rightarrow> js_string \<Rightarrow> TextChange" where
  "new_TextChange a s b t \<equiv> \<lparr>oldPosition = a, oldText = s, newPosition = b, insText = t\<rparr>"

definition TextChange_oldLength :: "TextChange \<Rightarrow> int" where
  "TextChange_oldLength c = int (length (oldText c))"

definition TextChange_oldEnd :: "TextChange \<Rightarrow> int" where
  "TextChange_oldEnd c = oldPosition c + int (length (oldText c))"

definition TextChange_newLength :: "TextChange \<Rightarrow> int" where
  "TextChange_newLength c = int (length (insText c))"

definition TextChange_newEnd :: "TextChange \<Rightarrow> int" where
  "TextChange_newEnd c = newPosition c + int (length (insText c))"

definition TextChange_writeStringSize :: "js_string \<Rightarrow> int" where
  "TextChange_writeStringSize str = 4 + 2 * int (length str)"

fun writeChars_loop :: "byte list \<Rightarrow> js_string \<Rightarrow> int \<Rightarrow> byte list \<times> int" where
  "writeChars_loop b [] offset = (b, offset)"
| "writeChars_loop b (c # s) offset = writeChars_loop (writeUInt16LE b (uint c) offset) s (offset + 2)"

definition TextChange_writeString :: "byte list \<Rightarrow> js_string \<Rightarrow> int \<Rightarrow> byte list \<times> int" where
  "TextChange_writeString b str offset =
     writeChars_loop (writeUInt32BE b (int (length str)) offset) str (offset + 4)"

text \<open>A length that is \<^verbatim>\<open>NaN\<close> makes an empty view.\<close>

definition TextChange_readString :: "byte list \<Rightarrow> int \<Rightarrow> js_string result" where
  "TextChange_readString b offset =
     (case readUInt32BE b offset of
        None \<Rightarrow> decodeUTF16LE b (offset + 4) 0
      | Some len \<Rightarrow> decodeUTF16LE b (offset + 4) (nat len))"

definition TextChange_writeSize :: "TextChange \<Rightarrow> int" where
  "TextChange_writeSize c =
     4 + 4 + TextChange_writeStringSize (oldText c) + TextChange_writeStringSize (insText c)"

definition TextChange_write :: "TextChange \<Rightarrow> byte list \<Rightarrow> int \<Rightarrow> byte list \<times> int" where
  "TextChange_write c b offset =
     (let b1 = writeUInt32BE b (oldPosition c) offset;
          b2 = writeUInt32BE b1 (newPosition c) (offset + 4)
      in case TextChange_writeString b2 (oldText c) (offset + 4 + 4) of
           (b3, o3) \<Rightarrow> TextChange_writeString b3 (insText c) o3)"

text \<open>\<^verbatim>\<open>read\<close> pushes the change onto \<^verbatim>\<open>dest\<close> and returns the new offset; a position that cannot be read is
  \<^verbatim>\<open>NaN\<close> (\<open>None\<close>).\<close>

definition TextChange_read :: "byte list \<Rightarrow> int
    \<Rightarrow> (int option \<times> js_string \<times> int option \<times> js_string) list
    \<Rightarrow> (int \<times> (int option \<times> js_string \<times> int option \<times> js_string) list) result" where
  "TextChange_read b offset dest =
     (let p = readUInt32BE b offset; q = readUInt32BE b (offset + 4)
      in rbind (TextChange_readString b (offset + 4 + 4)) (\<lambda>s.
           let o3 = offset + 4 + 4 + TextChange_writeStringSize s
           in rbind (TextChange_readString b o3) (\<lambda>t.
                Inr (o3 + TextChange_writeStringSize t, dest @ [(p, s, q, t)]))))"

section \<open>Compression\<close>

text \<open>\<^verbatim>\<open>str.substr(start, length)\<close> and \<^verbatim>\<open>str.substr(start)\<close>.\<close>

definition js_substr :: "'a list \<Rightarrow> int \<Rightarrow> int \<Rightarrow> 'a list" where
  "js_substr s a n = (let b = (if a < 0 then max 0 (int (length s) + a) else a) in take (nat n) (drop (nat b) s))"

definition js_substr_from :: "'a list \<Rightarrow> int \<Rightarrow> 'a list" where
  "js_substr_from s a = js_substr s a (int (length s))"

definition rebaseCurr :: "int \<Rightarrow> TextChange \<Rightarrow> TextChange" where
  "rebaseCurr prevDeltaOffset c =
     new_TextChange (oldPosition c - prevDeltaOffset) (oldText c) (newPosition c) (insText c)"

definition rebasePrev :: "int \<Rightarrow> TextChange \<Rightarrow> TextChange" where
  "rebasePrev currDeltaOffset c =
     new_TextChange (oldPosition c) (oldText c) (newPosition c + currDeltaOffset) (insText c)"

definition splitPrev :: "TextChange \<Rightarrow> int \<Rightarrow> TextChange \<times> TextChange" where
  "splitPrev c offset =
     (let preText = js_substr (insText c) 0 offset; postText = js_substr_from (insText c) offset
      in (new_TextChange (oldPosition c) (oldText c) (newPosition c) preText,
          new_TextChange (TextChange_oldEnd c) [] (newPosition c + offset) postText))"

definition splitCurr :: "TextChange \<Rightarrow> int \<Rightarrow> TextChange \<times> TextChange" where
  "splitCurr c offset =
     (let preText = js_substr (oldText c) 0 offset; postText = js_substr_from (oldText c) offset
      in (new_TextChange (oldPosition c) preText (newPosition c) (insText c),
          new_TextChange (oldPosition c + offset) postText (TextChange_newEnd c) []))"

definition change_delta :: "TextChange \<Rightarrow> int" where
  "change_delta c = TextChange_newLength c - TextChange_oldLength c"

definition mergeChanges :: "TextChange \<Rightarrow> TextChange \<Rightarrow> TextChange" where
  "mergeChanges mergePrev mergeCurr =
     new_TextChange (oldPosition mergePrev) (oldText mergePrev) (newPosition mergeCurr) (insText mergeCurr)"

text \<open>The loop of \<^verbatim>\<open>compress\<close>.  The lists hold the changes from \<^verbatim>\<open>prevIndex\<close> and \<^verbatim>\<open>currIndex\<close> on, with the (perhaps
  already split) \<^verbatim>\<open>prevEdit\<close> and \<^verbatim>\<open>currEdit\<close> in front; \<open>pd\<close> and \<open>cd\<close> are the two delta offsets.\<close>

function compress_loop :: "TextChange list \<Rightarrow> TextChange list \<Rightarrow> int \<Rightarrow> int \<Rightarrow> TextChange list \<Rightarrow> TextChange list" where
  "compress_loop [] [] pd cd res = res"
| "compress_loop [] (c # cs) pd cd res =
     compress_loop [] cs pd (cd + change_delta c) (res @ [rebaseCurr pd c])"
| "compress_loop (p # ps) [] pd cd res =
     compress_loop ps [] (pd + change_delta p) cd (res @ [rebasePrev cd p])"
| "compress_loop (p # ps) (c # cs) pd cd res =
     (if TextChange_oldEnd c \<le> newPosition p
      then compress_loop (p # ps) cs pd (cd + change_delta c) (res @ [rebaseCurr pd c])
      else if TextChange_newEnd p \<le> oldPosition c
      then compress_loop ps (c # cs) (pd + change_delta p) cd (res @ [rebasePrev cd p])
      else if oldPosition c < newPosition p
      then (case splitCurr c (newPosition p - oldPosition c) of (e1, e2) \<Rightarrow>
              compress_loop (p # ps) (e2 # cs) pd (cd + change_delta e1) (res @ [rebaseCurr pd e1]))
      else if newPosition p < oldPosition c
      then (case splitPrev p (oldPosition c - newPosition p) of (e1, e2) \<Rightarrow>
              compress_loop (e2 # ps) (c # cs) (pd + change_delta e1) cd (res @ [rebasePrev cd e1]))
      else if TextChange_oldEnd c = TextChange_newEnd p
      then compress_loop ps cs (pd + change_delta p) (cd + change_delta c) (res @ [mergeChanges p c])
      else if TextChange_oldEnd c < TextChange_newEnd p
      then (case splitPrev p (TextChange_oldLength c) of (e1, e2) \<Rightarrow>
              compress_loop (e2 # ps) cs (pd + change_delta e1) (cd + change_delta c) (res @ [mergeChanges e1 c]))
      else (case splitCurr c (TextChange_newLength p) of (e1, e2) \<Rightarrow>
              compress_loop ps (e2 # cs) (pd + change_delta p) (cd + change_delta e1) (res @ [mergeChanges p e1])))"
  by pat_completeness auto
termination
  by (relation "measure (\<lambda>(ps, cs, pd, cd, res).
        length ps + length cs + (\<Sum>p\<leftarrow>ps. length (insText p)) + (\<Sum>c\<leftarrow>cs. length (oldText c)))")
    (auto simp: splitCurr_def splitPrev_def js_substr_def js_substr_from_def Let_def TextChange_oldEnd_def
      TextChange_newEnd_def TextChange_oldLength_def TextChange_newLength_def)

fun merge_loop :: "TextChange \<Rightarrow> TextChange list \<Rightarrow> TextChange list \<Rightarrow> TextChange list" where
  "merge_loop prev [] res = res @ [prev]"
| "merge_loop prev (cur # es) res =
     (if TextChange_oldEnd prev = oldPosition cur
      then merge_loop (new_TextChange (oldPosition prev) (oldText prev @ oldText cur) (newPosition prev)
             (insText prev @ insText cur)) es res
      else merge_loop cur es (res @ [prev]))"

definition mergeTouching :: "TextChange list \<Rightarrow> TextChange list" where
  "mergeTouching es = (case es of [] \<Rightarrow> es | prev # rest \<Rightarrow> merge_loop prev rest [])"

definition removeNoOps :: "TextChange list \<Rightarrow> TextChange list" where
  "removeNoOps es = filter (\<lambda>e. \<not> (oldText e = insText e)) es"

definition TextChangeCompressor_compress :: "TextChange list \<Rightarrow> TextChange list \<Rightarrow> TextChange list" where
  "TextChangeCompressor_compress prevEdits currEdits =
     removeNoOps (mergeTouching (compress_loop prevEdits currEdits 0 0 []))"

definition compressConsecutiveTextChanges :: "TextChange list option \<Rightarrow> TextChange list \<Rightarrow> TextChange list" where
  "compressConsecutiveTextChanges prevEdits currEdits =
     (case prevEdits of
        None \<Rightarrow> currEdits
      | Some ps \<Rightarrow> if length ps = 0 then currEdits else TextChangeCompressor_compress ps currEdits)"

section \<open>What a list of changes means\<close>

text \<open>\<open>tcs_app p t es\<close> carries out the changes on the text \<open>t\<close> whose first character has the old offset
  \<open>p\<close>.  \<open>tcs_ok p q t es\<close>: they are sorted, remove what the text holds at their old positions, and their new
  positions are those of the resulting text, which starts at the new offset \<open>q\<close>.\<close>

fun tcs_app :: "int \<Rightarrow> js_string \<Rightarrow> TextChange list \<Rightarrow> js_string" where
  "tcs_app p t [] = t"
| "tcs_app p t (e # es) = take (nat (oldPosition e - p)) t @ insText e
     @ tcs_app (TextChange_oldEnd e) (drop (nat (TextChange_oldEnd e - p)) t) es"

fun tcs_ok :: "int \<Rightarrow> int \<Rightarrow> js_string \<Rightarrow> TextChange list \<Rightarrow> bool" where
  "tcs_ok p q t [] \<longleftrightarrow> True"
| "tcs_ok p q t (e # es) \<longleftrightarrow> p \<le> oldPosition e \<and> newPosition e = q + (oldPosition e - p)
     \<and> TextChange_oldEnd e \<le> p + int (length t)
     \<and> take (length (oldText e)) (drop (nat (oldPosition e - p)) t) = oldText e
     \<and> tcs_ok (TextChange_oldEnd e) (TextChange_newEnd e) (drop (nat (TextChange_oldEnd e - p)) t) es"

definition changes_ok :: "js_string \<Rightarrow> TextChange list \<Rightarrow> bool" where
  "changes_ok s es \<longleftrightarrow> tcs_ok 0 0 s es"

definition changes_apply :: "js_string \<Rightarrow> TextChange list \<Rightarrow> js_string" where
  "changes_apply s es = tcs_app 0 s es"

lemmas tc_ends = TextChange_oldEnd_def TextChange_newEnd_def TextChange_oldLength_def TextChange_newLength_def

text \<open>Skipping text before the first change.\<close>

lemma tcs_skip:
  assumes "n \<le> length t" "es \<noteq> [] \<longrightarrow> p + int n \<le> oldPosition (hd es)"
  shows "tcs_app p t es = take n t @ tcs_app (p + int n) (drop n t) es"
    and "tcs_ok (p + int n) (q + int n) (drop n t) es \<longleftrightarrow> tcs_ok p q t es"
proof -
  have "tcs_app p t es = take n t @ tcs_app (p + int n) (drop n t) es
    \<and> (tcs_ok (p + int n) (q + int n) (drop n t) es \<longleftrightarrow> tcs_ok p q t es)"
  proof (cases es)
    case (Cons e es')
    define k where "k = nat (oldPosition e - (p + int n))"
    have k: "nat (oldPosition e - p) = n + k" "oldPosition e = p + int n + int k"
      using assms(2) Cons by (auto simp: k_def)
    then have d: "nat (TextChange_oldEnd e - p) = n + k + length (oldText e)"
      "nat (TextChange_oldEnd e - (p + int n)) = k + length (oldText e)"
      by (simp_all add: TextChange_oldEnd_def)
    have "drop (k + length (oldText e)) (drop n t) = drop (n + k + length (oldText e)) t"
      by (simp add: ac_simps)
    moreover have "take (n + k) t = take n t @ take k (drop n t)" by (rule take_add)
    moreover have "drop k (drop n t) = drop (n + k) t" by (simp add: add.commute)
    moreover have "nat (oldPosition e - (p + int n)) = k" by (simp add: k_def)
    ultimately show ?thesis using assms(1) k(2) by (auto simp: Cons k(1) d nat_add_distrib)
  qed simp
  then show "tcs_app p t es = take n t @ tcs_app (p + int n) (drop n t) es"
    and "tcs_ok (p + int n) (q + int n) (drop n t) es \<longleftrightarrow> tcs_ok p q t es" by blast+
qed


lemma tcs_Cons:
  assumes "oldPosition e = p + int (length u)"
  shows "tcs_app p (u @ oldText e @ v) (e # es)
      = u @ insText e @ tcs_app (p + int (length u) + int (length (oldText e))) v es"
    and "tcs_ok p q (u @ oldText e @ v) (e # es) \<longleftrightarrow> newPosition e = q + int (length u)
      \<and> tcs_ok (p + int (length u) + int (length (oldText e))) (q + int (length u) + int (length (insText e))) v es"
proof -
  have "nat (oldPosition e - p) = length u" "nat (TextChange_oldEnd e - p) = length u + length (oldText e)"
    using assms by (simp_all add: TextChange_oldEnd_def)
  then show "tcs_app p (u @ oldText e @ v) (e # es)
      = u @ insText e @ tcs_app (p + int (length u) + int (length (oldText e))) v es"
    and "tcs_ok p q (u @ oldText e @ v) (e # es) \<longleftrightarrow> newPosition e = q + int (length u)
      \<and> tcs_ok (p + int (length u) + int (length (oldText e))) (q + int (length u) + int (length (insText e))) v es"
    using assms by (auto simp: TextChange_oldEnd_def TextChange_newEnd_def)
qed

lemma tcs_ok_ConsE:
  assumes "tcs_ok p q t (e # es)"
  obtains u v where "t = u @ oldText e @ v" "oldPosition e = p + int (length u)" "newPosition e = q + int (length u)"
    "tcs_ok (p + int (length u) + int (length (oldText e))) (q + int (length u) + int (length (insText e))) v es"
    "tcs_app p t (e # es) = u @ insText e @ tcs_app (p + int (length u) + int (length (oldText e))) v es"
proof -
  define k where "k = nat (oldPosition e - p)"
  let ?u = "take k t" and ?v = "drop (k + length (oldText e)) t"
  have k: "oldPosition e = p + int k" "k + length (oldText e) \<le> length t" "take (length (oldText e)) (drop k t) = oldText e"
    using assms by (auto simp: k_def TextChange_oldEnd_def)
  have "t = ?u @ take (length (oldText e)) (drop k t) @ drop (length (oldText e)) (drop k t)"
    by (simp only: append_take_drop_id)
  then have t: "t = ?u @ oldText e @ ?v" using k(3) by (simp add: add.commute)
  have pos: "oldPosition e = p + int (length ?u)" using k by simp
  have "tcs_app p t (e # es) = ?u @ insText e @ tcs_app (p + int (length ?u) + int (length (oldText e))) ?v es"
    using tcs_Cons(1) [OF pos, of ?v es] t by (simp only: t [symmetric])
  moreover have "newPosition e = q + int (length ?u)
      \<and> tcs_ok (p + int (length ?u) + int (length (oldText e))) (q + int (length ?u) + int (length (insText e))) ?v es"
    using tcs_Cons(2) [OF pos, of q ?v es] assms by (simp only: t [symmetric])
  ultimately show thesis using that [OF t pos] by blast
qed

lemma skip_to_head:
  assumes "tcs_ok p q t es" "es \<noteq> [] \<longrightarrow> n \<le> nat (oldPosition (hd es) - p)" "n \<le> length (tcs_app p t es)"
  shows "n \<le> length t" and "tcs_app p t es = take n t @ tcs_app (p + int n) (drop n t) es"
    and "tcs_ok (p + int n) (q + int n) (drop n t) es"
proof -
  show n: "n \<le> length t"
  proof (cases es)
    case (Cons e es')
    then show ?thesis using assms(1,2) by (auto simp: TextChange_oldEnd_def)
  qed (use assms(3) in simp)
  have h: "es \<noteq> [] \<longrightarrow> p + int n \<le> oldPosition (hd es)"
    using assms(1,2) by (cases es) auto
  show "tcs_app p t es = take n t @ tcs_app (p + int n) (drop n t) es" by (rule tcs_skip [OF n h])
  show "tcs_ok (p + int n) (q + int n) (drop n t) es" using tcs_skip(2) [OF n h] assms(1) by blast
qed

section \<open>The steps of the compressor\<close>

text \<open>The state of the loop: the text \<open>t\<close> from the old offset \<open>p\<close> on, the text between the two lists from \<open>q\<close>
  on, the final text from \<open>r\<close> on.\<close>

definition synced :: "int \<Rightarrow> int \<Rightarrow> int \<Rightarrow> js_string \<Rightarrow> TextChange list \<Rightarrow> TextChange list \<Rightarrow> bool" where
  "synced p q r t ps cs \<longleftrightarrow> tcs_ok p q t ps \<and> tcs_ok q r (tcs_app p t ps) cs"

text \<open>A step emits a change \<open>e\<close> and leaves the lists \<open>ps'\<close> and \<open>cs'\<close> with \<open>q'\<close> between them.\<close>

definition emits where
  "emits p q r t ps cs e q' ps' cs' \<longleftrightarrow> (\<exists>u v. t = u @ oldText e @ v
     \<and> oldPosition e = p + int (length u) \<and> newPosition e = r + int (length u)
     \<and> synced (p + int (length u) + int (length (oldText e))) q' (r + int (length u) + int (length (insText e))) v ps' cs'
     \<and> tcs_app q (tcs_app p t ps) cs = u @ insText e
         @ tcs_app q' (tcs_app (p + int (length u) + int (length (oldText e))) v ps') cs')"

lemma accept_curr:
  assumes s: "synced p q r t ps (c # cs)" and before: "ps \<noteq> [] \<Longrightarrow> TextChange_oldEnd c \<le> newPosition (hd ps)"
  shows "emits p q r t ps (c # cs) (rebaseCurr (q - p) c) (TextChange_oldEnd c) ps cs"
proof -
  from s obtain u w where m: "tcs_app p t ps = u @ oldText c @ w" and pos: "oldPosition c = q + int (length u)"
    "newPosition c = r + int (length u)"
    and rest: "tcs_ok (q + int (length u) + int (length (oldText c))) (r + int (length u) + int (length (insText c))) w cs"
    and out: "tcs_app q (tcs_app p t ps) (c # cs) = u @ insText c @ tcs_app (q + int (length u) + int (length (oldText c))) w cs"
    unfolding synced_def by (auto elim: tcs_ok_ConsE simp del: tcs_app.simps(2) tcs_ok.simps(2))
  let ?n = "length u + length (oldText c)"
  have ps: "tcs_ok p q t ps" using s by (simp add: synced_def)
  have le: "ps \<noteq> [] \<longrightarrow> ?n \<le> nat (oldPosition (hd ps) - p)"
    using before ps pos by (cases ps) (auto simp: TextChange_oldEnd_def)
  have n: "?n \<le> length (tcs_app p t ps)" by (simp add: m)
  note sk = skip_to_head [OF ps le n]
  have "take ?n t @ tcs_app (p + int ?n) (drop ?n t) ps = (u @ oldText c) @ w" using sk(2) m by simp
  moreover have "length (take ?n t) = length (u @ oldText c)" using sk(1) by simp
  ultimately have "take ?n t = u @ oldText c" and w: "tcs_app (p + int ?n) (drop ?n t) ps = w"
    using append_eq_append_conv by blast+
  then have t: "t = u @ oldText c @ drop ?n t" using append_take_drop_id [of ?n t] by simp
  have q': "TextChange_oldEnd c = q + int ?n" using pos by (simp add: TextChange_oldEnd_def)
  show ?thesis unfolding emits_def synced_def
    using t w pos rest out sk(3) q'
    by - (rule exI [of _ u], rule exI [of _ "drop ?n t"],
      simp add: rebaseCurr_def add.assoc del: tcs_app.simps(2) tcs_ok.simps(2))
qed


lemma accept_prev:
  assumes s: "synced p q r t (x # ps) cs" and before: "cs \<noteq> [] \<Longrightarrow> TextChange_newEnd x \<le> oldPosition (hd cs)"
  shows "emits p q r t (x # ps) cs (rebasePrev (r - q) x) (TextChange_newEnd x) ps cs"
proof -
  from s obtain u v where t: "t = u @ oldText x @ v" and pos: "oldPosition x = p + int (length u)"
    "newPosition x = q + int (length u)"
    and rest: "tcs_ok (p + int (length u) + int (length (oldText x))) (q + int (length u) + int (length (insText x))) v ps"
    and m: "tcs_app p t (x # ps) = u @ insText x @ tcs_app (p + int (length u) + int (length (oldText x))) v ps"
    unfolding synced_def by (auto elim: tcs_ok_ConsE simp del: tcs_app.simps(2) tcs_ok.simps(2))
  let ?m = "u @ insText x @ tcs_app (p + int (length u) + int (length (oldText x))) v ps"
  let ?n = "length u + length (insText x)"
  have cs: "tcs_ok q r ?m cs" using s unfolding synced_def m by blast
  have q': "TextChange_newEnd x = q + int ?n" using pos by (simp add: TextChange_newEnd_def)
  have h: "cs \<noteq> [] \<longrightarrow> q + int ?n \<le> oldPosition (hd cs)" using before q' by simp
  have n: "?n \<le> length ?m" by simp
  have "drop ?n ?m = tcs_app (p + int (length u) + int (length (oldText x))) v ps" "take ?n ?m = u @ insText x" by simp_all
  then have "tcs_app q ?m cs = (u @ insText x) @ tcs_app (q + int ?n) (tcs_app (p + int (length u) + int (length (oldText x))) v ps) cs"
    and "tcs_ok (q + int ?n) (r + int ?n) (tcs_app (p + int (length u) + int (length (oldText x))) v ps) cs"
    using tcs_skip(1) [OF n h] tcs_skip(2) [OF n h, of r] cs by auto
  then show ?thesis unfolding emits_def synced_def m
    using t pos rest q'
    by - (rule exI [of _ u], rule exI [of _ v], simp add: rebasePrev_def add.assoc)
qed

lemma merge_changes:
  assumes s: "synced p q r t (x # ps) (c # cs)"
    and same: "oldPosition c = newPosition x" "TextChange_oldEnd c = TextChange_newEnd x"
  shows "emits p q r t (x # ps) (c # cs) (mergeChanges x c) (TextChange_newEnd x) ps cs"
proof -
  from s obtain u v where t: "t = u @ oldText x @ v" and pos: "oldPosition x = p + int (length u)"
    "newPosition x = q + int (length u)"
    and rest: "tcs_ok (p + int (length u) + int (length (oldText x))) (q + int (length u) + int (length (insText x))) v ps"
    and m: "tcs_app p t (x # ps) = u @ insText x @ tcs_app (p + int (length u) + int (length (oldText x))) v ps"
    unfolding synced_def by (auto elim: tcs_ok_ConsE simp del: tcs_app.simps(2) tcs_ok.simps(2))
  let ?w = "tcs_app (p + int (length u) + int (length (oldText x))) v ps"
  have "tcs_ok q r (u @ insText x @ ?w) (c # cs)" using s unfolding synced_def m by blast
  then obtain u' w' where c: "u @ insText x @ ?w = u' @ oldText c @ w'" "oldPosition c = q + int (length u')"
    "newPosition c = r + int (length u')"
    "tcs_ok (q + int (length u') + int (length (oldText c))) (r + int (length u') + int (length (insText c))) w' cs"
    "tcs_app q (u @ insText x @ ?w) (c # cs) = u' @ insText c @ tcs_app (q + int (length u') + int (length (oldText c))) w' cs"
    by (rule tcs_ok_ConsE)
  have "length u' = length u" "length (oldText c) = length (insText x)"
    using same pos c(2) by (simp_all add: TextChange_oldEnd_def TextChange_newEnd_def)
  with c(1) have eq: "u' = u" "oldText c = insText x" "w' = ?w" by (auto simp: append_eq_append_conv)
  have "TextChange_newEnd x = q + int (length u) + int (length (insText x))" using pos by (simp add: TextChange_newEnd_def)
  then show ?thesis unfolding emits_def synced_def m
    using t pos rest c(3-5) unfolding eq
    by - (rule exI [of _ u], rule exI [of _ v], simp add: mergeChanges_def)
qed

lemma split_curr_ok:
  assumes c: "tcs_ok q r m (c # cs)" and n: "n \<le> length (oldText c)" and e: "splitCurr c (int n) = (e1, e2)"
  shows "tcs_ok q r m (e1 # e2 # cs)" and "tcs_app q m (e1 # e2 # cs) = tcs_app q m (c # cs)"
proof -
  obtain u v where m: "m = u @ oldText c @ v" and pos: "oldPosition c = q + int (length u)" "newPosition c = r + int (length u)"
    and rest: "tcs_ok (q + int (length u) + int (length (oldText c))) (r + int (length u) + int (length (insText c))) v cs"
    and out: "tcs_app q m (c # cs) = u @ insText c @ tcs_app (q + int (length u) + int (length (oldText c))) v cs"
    using c by (rule tcs_ok_ConsE)
  let ?a = "take n (oldText c)" and ?b = "drop n (oldText c)"
  have e1: "e1 = new_TextChange (oldPosition c) ?a (newPosition c) (insText c)"
    and e2: "e2 = new_TextChange (oldPosition c + int n) ?b (TextChange_newEnd c) []"
    using e by (auto simp: splitCurr_def js_substr_def js_substr_from_def Let_def)
  have m': "m = u @ oldText e1 @ [] @ oldText e2 @ v" using m by (simp add: e1 e2)
  have p1: "oldPosition e1 = q + int (length u)" using pos by (simp add: e1)
  have p2: "oldPosition e2 = q + int (length u) + int (length (oldText e1)) + int (length [])" using pos n by (simp add: e1 e2)
  have len: "length (oldText e1) + length (oldText e2) = length (oldText c)" using n by (simp add: e1 e2)
  then have lens: "int (length (oldText e1)) + int (length (oldText e2)) = int (length (oldText c))" by linarith
  show "tcs_ok q r m (e1 # e2 # cs)"
    unfolding m' tcs_Cons(2) [OF p1] tcs_Cons(2) [OF p2]
    using pos rest lens by (simp add: e1 e2 TextChange_newEnd_def add.assoc)
  show "tcs_app q m (e1 # e2 # cs) = tcs_app q m (c # cs)"
    unfolding out unfolding m' tcs_Cons(1) [OF p1] tcs_Cons(1) [OF p2]
    using lens by (simp add: e1 e2 add.assoc)
qed

lemma split_prev_ok:
  assumes x: "tcs_ok p q t (x # ps)" and n: "n \<le> length (insText x)" and e: "splitPrev x (int n) = (e1, e2)"
  shows "tcs_ok p q t (e1 # e2 # ps)" and "tcs_app p t (e1 # e2 # ps) = tcs_app p t (x # ps)"
proof -
  obtain u v where t: "t = u @ oldText x @ v" and pos: "oldPosition x = p + int (length u)" "newPosition x = q + int (length u)"
    and rest: "tcs_ok (p + int (length u) + int (length (oldText x))) (q + int (length u) + int (length (insText x))) v ps"
    and out: "tcs_app p t (x # ps) = u @ insText x @ tcs_app (p + int (length u) + int (length (oldText x))) v ps"
    using x by (rule tcs_ok_ConsE)
  let ?a = "take n (insText x)" and ?b = "drop n (insText x)"
  have e1: "e1 = new_TextChange (oldPosition x) (oldText x) (newPosition x) ?a"
    and e2: "e2 = new_TextChange (TextChange_oldEnd x) [] (newPosition x + int n) ?b"
    using e by (auto simp: splitPrev_def js_substr_def js_substr_from_def Let_def)
  have t': "t = u @ oldText e1 @ [] @ oldText e2 @ v" using t by (simp add: e1 e2)
  have p1: "oldPosition e1 = p + int (length u)" using pos by (simp add: e1)
  have p2: "oldPosition e2 = p + int (length u) + int (length (oldText e1)) + int (length [])"
    using pos by (simp add: e1 e2 TextChange_oldEnd_def)
  have "length ?a + length ?b = length (insText x)" using n by simp
  then have lens: "int (length ?a) + int (length ?b) = int (length (insText x))" by linarith
  show "tcs_ok p q t (e1 # e2 # ps)"
    unfolding t' tcs_Cons(2) [OF p1] tcs_Cons(2) [OF p2]
    using pos rest lens n by (simp add: e1 e2 add.assoc min_absorb2 of_nat_diff)
  show "tcs_app p t (e1 # e2 # ps) = tcs_app p t (x # ps)"
    unfolding out unfolding t' tcs_Cons(1) [OF p1] tcs_Cons(1) [OF p2]
    by (simp add: e1 e2)
qed


lemma emits_step:
  assumes em: "emits p q r t ps cs e q' ps' cs'"
    and rest: "\<And>v. synced (TextChange_oldEnd e) q' (TextChange_newEnd e) v ps' cs' \<Longrightarrow>
      \<exists>new. L = (res @ [e]) @ new \<and> tcs_ok (TextChange_oldEnd e) (TextChange_newEnd e) v new
        \<and> tcs_app (TextChange_oldEnd e) v new = tcs_app q' (tcs_app (TextChange_oldEnd e) v ps') cs'"
  shows "\<exists>new. L = res @ new \<and> tcs_ok p r t new \<and> tcs_app p t new = tcs_app q (tcs_app p t ps) cs"
proof -
  obtain u v where t: "t = u @ oldText e @ v" and pos: "oldPosition e = p + int (length u)" "newPosition e = r + int (length u)"
    and s: "synced (p + int (length u) + int (length (oldText e))) q' (r + int (length u) + int (length (insText e))) v ps' cs'"
    and out: "tcs_app q (tcs_app p t ps) cs = u @ insText e
         @ tcs_app q' (tcs_app (p + int (length u) + int (length (oldText e))) v ps') cs'"
    using em unfolding emits_def by blast
  have ends: "TextChange_oldEnd e = p + int (length u) + int (length (oldText e))"
    "TextChange_newEnd e = r + int (length u) + int (length (insText e))"
    using pos by (simp_all add: TextChange_oldEnd_def TextChange_newEnd_def)
  obtain new where new: "L = (res @ [e]) @ new" "tcs_ok (TextChange_oldEnd e) (TextChange_newEnd e) v new"
    "tcs_app (TextChange_oldEnd e) v new = tcs_app q' (tcs_app (TextChange_oldEnd e) v ps') cs'"
    using rest [of v] s unfolding ends by blast
  have "tcs_ok p r t (e # new)" unfolding t tcs_Cons(2) [OF pos(1)] using pos new(2) by (simp add: ends)
  moreover have "tcs_app p t (e # new) = tcs_app q (tcs_app p t ps) cs"
    unfolding out unfolding t tcs_Cons(1) [OF pos(1)] using new(3) by (simp add: ends)
  ultimately show ?thesis using new(1) by (intro exI [of _ "e # new"]) (simp del: tcs_app.simps tcs_ok.simps)
qed

lemma synced_curr_pos: "synced p q r t ps (c # cs) \<Longrightarrow> newPosition c = r + (oldPosition c - q)"
  by (simp add: synced_def)

lemma synced_prev_pos: "synced p q r t (x # ps) cs \<Longrightarrow> newPosition x = q + (oldPosition x - p)"
  by (simp add: synced_def)

lemmas step_ends = TextChange_oldEnd_def TextChange_newEnd_def TextChange_oldLength_def TextChange_newLength_def
  rebaseCurr_def rebasePrev_def mergeChanges_def change_delta_def

lemma synced_split_curr:
  assumes "synced p q r t ps (c # cs)" "splitCurr c k = (e1, e2)" "0 \<le> k" "k \<le> TextChange_oldLength c"
  shows "synced p q r t ps (e1 # e2 # cs)"
    and "tcs_app q (tcs_app p t ps) (e1 # e2 # cs) = tcs_app q (tcs_app p t ps) (c # cs)"
    and "oldPosition e1 = oldPosition c" "TextChange_oldEnd e1 = oldPosition c + k" "newPosition e1 = newPosition c"
proof -
  obtain n where k: "k = int n" using assms(3) nonneg_int_cases by blast
  then have n: "n \<le> length (oldText c)" using assms(4) by (simp add: TextChange_oldLength_def)
  have c: "tcs_ok q r (tcs_app p t ps) (c # cs)" using assms(1) unfolding synced_def by blast
  show "synced p q r t ps (e1 # e2 # cs)"
    using split_curr_ok(1) [OF c n assms(2) [unfolded k]] assms(1) unfolding synced_def by blast
  show "tcs_app q (tcs_app p t ps) (e1 # e2 # cs) = tcs_app q (tcs_app p t ps) (c # cs)"
    by (rule split_curr_ok(2) [OF c n assms(2) [unfolded k]])
  show "oldPosition e1 = oldPosition c" "TextChange_oldEnd e1 = oldPosition c + k" "newPosition e1 = newPosition c"
    using assms(2) n k by (auto simp: splitCurr_def js_substr_def Let_def TextChange_oldEnd_def min_absorb2)
qed

lemma synced_split_prev:
  assumes "synced p q r t (x # ps) cs" "splitPrev x k = (e1, e2)" "0 \<le> k" "k \<le> TextChange_newLength x"
  shows "synced p q r t (e1 # e2 # ps) cs"
    and "tcs_app p t (e1 # e2 # ps) = tcs_app p t (x # ps)"
    and "oldPosition e1 = oldPosition x" "newPosition e1 = newPosition x" "TextChange_newEnd e1 = newPosition x + k"
proof -
  obtain n where k: "k = int n" using assms(3) nonneg_int_cases by blast
  then have n: "n \<le> length (insText x)" using assms(4) by (simp add: TextChange_newLength_def)
  have x: "tcs_ok p q t (x # ps)" using assms(1) unfolding synced_def by blast
  note sp = split_prev_ok [OF x n assms(2) [unfolded k]]
  show "synced p q r t (e1 # e2 # ps) cs" using sp assms(1) unfolding synced_def by (simp only:)
  show "tcs_app p t (e1 # e2 # ps) = tcs_app p t (x # ps)" by (rule sp(2))
  show "oldPosition e1 = oldPosition x" "newPosition e1 = newPosition x" "TextChange_newEnd e1 = newPosition x + k"
    using assms(2) n k by (auto simp: splitPrev_def js_substr_def Let_def TextChange_newEnd_def min_absorb2)
qed

text \<open>One pass of the loop: a change is emitted, the delta offsets are the distances between the three texts
  again, and the lists get smaller.\<close>

definition csize :: "TextChange list \<Rightarrow> TextChange list \<Rightarrow> nat" where
  "csize ps cs = length ps + length cs + (\<Sum>x\<leftarrow>ps. length (insText x)) + (\<Sum>c\<leftarrow>cs. length (oldText c))"

definition compress_progress where
  "compress_progress p q r t ps cs res \<longleftrightarrow> (\<exists>e q' ps' cs'. emits p q r t ps cs e q' ps' cs' \<and> csize ps' cs' < csize ps cs
     \<and> compress_loop ps cs (q - p) (r - q) res
         = compress_loop ps' cs' (q' - TextChange_oldEnd e) (TextChange_newEnd e - q') (res @ [e]))"

lemma compress_progressI:
  assumes "emits p q r t ps2 cs2 e q' ps' cs'"
    and "tcs_app q (tcs_app p t ps2) cs2 = tcs_app q (tcs_app p t ps) cs"
    and "csize ps' cs' < csize ps cs"
    and "compress_loop ps cs (q - p) (r - q) res = compress_loop ps' cs' pd cd (res @ [e])"
    and "pd = q' - TextChange_oldEnd e" "cd = TextChange_newEnd e - q'"
  shows "compress_progress p q r t ps cs res"
proof -
  have "emits p q r t ps cs e q' ps' cs'" using assms(1) unfolding emits_def assms(2) .
  with assms(3-6) show ?thesis unfolding compress_progress_def by blast
qed

lemma progress_accept_curr:
  assumes s: "synced p q r t ps (c # cs)" and before: "ps \<noteq> [] \<Longrightarrow> TextChange_oldEnd c \<le> newPosition (hd ps)"
  shows "compress_progress p q r t ps (c # cs) res"
proof (rule compress_progressI [OF accept_curr [OF s before] refl])
  show "compress_loop ps (c # cs) (q - p) (r - q) res
      = compress_loop ps cs (q - p) (r - q + change_delta c) (res @ [rebaseCurr (q - p) c])"
    using before by (cases ps) simp_all
qed (use synced_curr_pos [OF s] in \<open>simp_all add: csize_def step_ends\<close>)

lemma progress_accept_prev:
  assumes s: "synced p q r t (x # ps) cs" and after: "cs \<noteq> [] \<Longrightarrow> TextChange_newEnd x \<le> oldPosition (hd cs)"
    and not_before: "cs \<noteq> [] \<Longrightarrow> \<not> TextChange_oldEnd (hd cs) \<le> newPosition x"
  shows "compress_progress p q r t (x # ps) cs res"
proof (rule compress_progressI [OF accept_prev [OF s after] refl])
  show "compress_loop (x # ps) cs (q - p) (r - q) res
      = compress_loop ps cs (q - p + change_delta x) (r - q) (res @ [rebasePrev (r - q) x])"
    using after not_before by (cases cs) simp_all
qed (use synced_prev_pos [OF s] in \<open>simp_all add: csize_def step_ends\<close>)

lemma progress_split_curr:
  assumes s: "synced p q r t (x # ps) (c # cs)" and o: "\<not> TextChange_oldEnd c \<le> newPosition x" "\<not> TextChange_newEnd x \<le> oldPosition c"
    and lt: "oldPosition c < newPosition x"
  shows "compress_progress p q r t (x # ps) (c # cs) res"
proof -
  obtain e1 e2 where sp: "splitCurr c (newPosition x - oldPosition c) = (e1, e2)" by (meson surj_pair)
  have k: "0 \<le> newPosition x - oldPosition c" "newPosition x - oldPosition c \<le> TextChange_oldLength c"
    using o lt by (simp_all add: tc_ends)
  note e = synced_split_curr [OF s sp k]
  have sz: "length (oldText e2) < length (oldText c)"
    using sp lt o by (auto simp: splitCurr_def js_substr_def js_substr_from_def Let_def tc_ends)
  have em: "emits p q r t (x # ps) (e1 # e2 # cs) (rebaseCurr (q - p) e1) (TextChange_oldEnd e1) (x # ps) (e2 # cs)"
    by (rule accept_curr [OF e(1)]) (use e(4) in simp)
  have loop: "compress_loop (x # ps) (c # cs) (q - p) (r - q) res
      = compress_loop (x # ps) (e2 # cs) (q - p) (r - q + change_delta e1) (res @ [rebaseCurr (q - p) e1])"
    using o lt sp by simp
  show ?thesis
    by (rule compress_progressI [OF em e(2) _ loop])
      (use sz synced_curr_pos [OF e(1)] in \<open>simp_all add: csize_def step_ends\<close>)
qed

lemma progress_split_prev:
  assumes s: "synced p q r t (x # ps) (c # cs)" and o: "\<not> TextChange_oldEnd c \<le> newPosition x" "\<not> TextChange_newEnd x \<le> oldPosition c"
    and lt: "newPosition x < oldPosition c"
  shows "compress_progress p q r t (x # ps) (c # cs) res"
proof -
  obtain e1 e2 where sp: "splitPrev x (oldPosition c - newPosition x) = (e1, e2)" by (meson surj_pair)
  have k: "0 \<le> oldPosition c - newPosition x" "oldPosition c - newPosition x \<le> TextChange_newLength x"
    using o lt by (simp_all add: tc_ends)
  note e = synced_split_prev [OF s sp k]
  have sz: "length (insText e2) < length (insText x)"
    using sp lt o by (auto simp: splitPrev_def js_substr_def js_substr_from_def Let_def tc_ends)
  have em: "emits p q r t (e1 # e2 # ps) (c # cs) (rebasePrev (r - q) e1) (TextChange_newEnd e1) (e2 # ps) (c # cs)"
    by (rule accept_prev [OF e(1)]) (use e(5) in simp)
  have loop: "compress_loop (x # ps) (c # cs) (q - p) (r - q) res
      = compress_loop (e2 # ps) (c # cs) (q - p + change_delta e1) (r - q) (res @ [rebasePrev (r - q) e1])"
    using o lt sp by simp
  show ?thesis
    by (rule compress_progressI [OF em arg_cong [OF e(2), of "\<lambda>m. tcs_app q m (c # cs)"] _ loop])
      (use sz synced_prev_pos [OF e(1)] in \<open>simp_all add: csize_def step_ends\<close>)
qed

lemma progress_merge:
  assumes s: "synced p q r t (x # ps) (c # cs)" and o: "\<not> TextChange_oldEnd c \<le> newPosition x" "\<not> TextChange_newEnd x \<le> oldPosition c"
    and pos: "oldPosition c = newPosition x" and eq: "TextChange_oldEnd c = TextChange_newEnd x"
  shows "compress_progress p q r t (x # ps) (c # cs) res"
proof (rule compress_progressI [OF merge_changes [OF s pos eq] refl])
  show "compress_loop (x # ps) (c # cs) (q - p) (r - q) res
      = compress_loop ps cs (q - p + change_delta x) (r - q + change_delta c) (res @ [mergeChanges x c])"
    using o pos eq by simp
qed (use synced_curr_pos [OF s] synced_prev_pos [OF s] pos eq in \<open>simp_all add: csize_def step_ends\<close>)

lemma progress_merge_split_prev:
  assumes s: "synced p q r t (x # ps) (c # cs)" and o: "\<not> TextChange_oldEnd c \<le> newPosition x" "\<not> TextChange_newEnd x \<le> oldPosition c"
    and pos: "oldPosition c = newPosition x" and lt: "TextChange_oldEnd c < TextChange_newEnd x"
  shows "compress_progress p q r t (x # ps) (c # cs) res"
proof -
  obtain e1 e2 where sp: "splitPrev x (TextChange_oldLength c) = (e1, e2)" by (meson surj_pair)
  have k: "0 \<le> TextChange_oldLength c" "TextChange_oldLength c \<le> TextChange_newLength x"
    using lt pos by (simp_all add: tc_ends)
  note e = synced_split_prev [OF s sp k]
  have eq: "oldPosition c = newPosition e1" "TextChange_oldEnd c = TextChange_newEnd e1"
    using e(4,5) pos by (simp_all add: tc_ends)
  have sz: "length (insText e2) \<le> length (insText x)"
    using sp by (auto simp: splitPrev_def js_substr_def js_substr_from_def Let_def)
  note em = merge_changes [OF e(1) eq]
  have loop: "compress_loop (x # ps) (c # cs) (q - p) (r - q) res
      = compress_loop (e2 # ps) cs (q - p + change_delta e1) (r - q + change_delta c) (res @ [mergeChanges e1 c])"
    using o pos lt sp by simp
  show ?thesis
    by (rule compress_progressI [OF em arg_cong [OF e(2), of "\<lambda>m. tcs_app q m (c # cs)"] _ loop])
      (use sz synced_prev_pos [OF e(1)] synced_curr_pos [OF e(1)] eq in \<open>simp_all add: csize_def step_ends\<close>)
qed

lemma progress_merge_split_curr:
  assumes s: "synced p q r t (x # ps) (c # cs)" and o: "\<not> TextChange_oldEnd c \<le> newPosition x" "\<not> TextChange_newEnd x \<le> oldPosition c"
    and pos: "oldPosition c = newPosition x" and gt: "TextChange_newEnd x < TextChange_oldEnd c"
  shows "compress_progress p q r t (x # ps) (c # cs) res"
proof -
  obtain e1 e2 where sp: "splitCurr c (TextChange_newLength x) = (e1, e2)" by (meson surj_pair)
  have k: "0 \<le> TextChange_newLength x" "TextChange_newLength x \<le> TextChange_oldLength c"
    using gt pos by (simp_all add: tc_ends)
  note e = synced_split_curr [OF s sp k]
  have eq: "oldPosition e1 = newPosition x" "TextChange_oldEnd e1 = TextChange_newEnd x"
    using e(3,4) pos by (simp_all add: tc_ends)
  have sz: "length (oldText e2) \<le> length (oldText c)"
    using sp by (auto simp: splitCurr_def js_substr_def js_substr_from_def Let_def)
  note em = merge_changes [OF e(1) eq]
  have loop: "compress_loop (x # ps) (c # cs) (q - p) (r - q) res
      = compress_loop ps (e2 # cs) (q - p + change_delta x) (r - q + change_delta e1) (res @ [mergeChanges x e1])"
    using o pos gt sp by simp
  show ?thesis
    by (rule compress_progressI [OF em e(2) _ loop])
      (use sz synced_prev_pos [OF e(1)] synced_curr_pos [OF e(1)] eq in \<open>simp_all add: csize_def step_ends\<close>)
qed

lemma compress_progress_always:
  assumes "synced p q r t ps cs" "ps \<noteq> [] \<or> cs \<noteq> []"
  shows "compress_progress p q r t ps cs res"
proof (cases ps)
  case Nil
  then obtain c cs' where "cs = c # cs'" using assms(2) by (cases cs) auto
  with Nil show ?thesis using progress_accept_curr [of p q r t "[]" c cs'] assms(1) by simp
next
  case (Cons x ps')
  show ?thesis
  proof (cases cs)
    case Nil
    with Cons show ?thesis using progress_accept_prev [of p q r t x ps' "[]"] assms(1) by simp
  next
    case (Cons c cs')
    note s = assms(1) [unfolded \<open>ps = x # ps'\<close> Cons]
    have "compress_progress p q r t (x # ps') (c # cs') res"
      using progress_accept_curr [OF s] progress_accept_prev [OF s] progress_split_curr [OF s] progress_split_prev [OF s]
        progress_merge [OF s] progress_merge_split_prev [OF s] progress_merge_split_curr [OF s]
      by (metis list.sel(1) not_less_iff_gr_or_eq)
    then show ?thesis using \<open>ps = x # ps'\<close> Cons by simp
  qed
qed

lemma compress_loop_ok:
  "synced p q r t ps cs \<Longrightarrow>
   \<exists>new. compress_loop ps cs (q - p) (r - q) res = res @ new \<and> tcs_ok p r t new
     \<and> tcs_app p t new = tcs_app q (tcs_app p t ps) cs"
proof (induction "csize ps cs" arbitrary: ps cs p q r t res rule: less_induct)
  case less
  show ?case
  proof (cases "ps = [] \<and> cs = []")
    case False
    then obtain e q' ps' cs' where e: "emits p q r t ps cs e q' ps' cs'" "csize ps' cs' < csize ps cs"
      and eq: "compress_loop ps cs (q - p) (r - q) res
         = compress_loop ps' cs' (q' - TextChange_oldEnd e) (TextChange_newEnd e - q') (res @ [e])"
      using compress_progress_always [OF less.prems, of res] unfolding compress_progress_def by blast
    show ?thesis unfolding eq by (rule emits_step [OF e(1)]) (rule less.hyps [OF e(2)])
  qed simp
qed


text \<open>Two changes that touch are one.\<close>

lemma merge_two_ok:
  assumes s: "tcs_ok p q t (x # y # es)" and touch: "TextChange_oldEnd x = oldPosition y"
  defines "m \<equiv> new_TextChange (oldPosition x) (oldText x @ oldText y) (newPosition x) (insText x @ insText y)"
  shows "tcs_ok p q t (m # es)" and "tcs_app p t (m # es) = tcs_app p t (x # y # es)"
proof -
  from s obtain u v where x: "t = u @ oldText x @ v" "oldPosition x = p + int (length u)" "newPosition x = q + int (length u)"
    and rest: "tcs_ok (p + int (length u) + int (length (oldText x))) (q + int (length u) + int (length (insText x))) v (y # es)"
    and out: "tcs_app p t (x # y # es) = u @ insText x @ tcs_app (p + int (length u) + int (length (oldText x))) v (y # es)"
    by (rule tcs_ok_ConsE)
  from rest obtain u' v' where y: "v = u' @ oldText y @ v'" "oldPosition y = p + int (length u) + int (length (oldText x)) + int (length u')"
    and rest': "tcs_ok (p + int (length u) + int (length (oldText x)) + int (length u') + int (length (oldText y)))
      (q + int (length u) + int (length (insText x)) + int (length u') + int (length (insText y))) v' es"
    and out': "tcs_app (p + int (length u) + int (length (oldText x))) v (y # es)
      = u' @ insText y @ tcs_app (p + int (length u) + int (length (oldText x)) + int (length u') + int (length (oldText y))) v' es"
    by (rule tcs_ok_ConsE)
  have "u' = []" using touch x(2) y(2) by (simp add: TextChange_oldEnd_def)
  then have t: "t = u @ oldText m @ v'" and pos: "oldPosition m = p + int (length u)" "newPosition m = q + int (length u)"
    using x y by (simp_all add: m_def)
  show "tcs_ok p q t (m # es)"
    unfolding t tcs_Cons(2) [OF pos(1)] using pos rest' \<open>u' = []\<close> by (simp add: m_def add.assoc)
  have "tcs_app p t (m # es) = u @ insText m @ tcs_app (p + int (length u) + int (length (oldText m))) v' es"
    unfolding t by (rule tcs_Cons(1) [OF pos(1)])
  then show "tcs_app p t (m # es) = tcs_app p t (x # y # es)"
    using out out' \<open>u' = []\<close> by (simp add: m_def add.assoc del: tcs_app.simps)
qed

lemma merge_loop_ok:
  "tcs_ok p q t (x # es) \<Longrightarrow>
   \<exists>new. merge_loop x es res = res @ new \<and> tcs_ok p q t new \<and> tcs_app p t new = tcs_app p t (x # es)"
proof (induction es arbitrary: x p q t res)
  case (Cons y es)
  show ?case
  proof (cases "TextChange_oldEnd x = oldPosition y")
    case True
    note m = merge_two_ok [OF Cons.prems True]
    show ?thesis using Cons.IH [OF m(1), of res] True m(2) by (simp del: tcs_app.simps tcs_ok.simps)
  next
    case False
    from Cons.prems obtain u v where x: "t = u @ oldText x @ v" "oldPosition x = p + int (length u)" "newPosition x = q + int (length u)"
      and rest: "tcs_ok (p + int (length u) + int (length (oldText x))) (q + int (length u) + int (length (insText x))) v (y # es)"
      and out: "tcs_app p t (x # y # es) = u @ insText x @ tcs_app (p + int (length u) + int (length (oldText x))) v (y # es)"
      by (rule tcs_ok_ConsE)
    obtain new where new: "merge_loop y es (res @ [x]) = (res @ [x]) @ new"
      "tcs_ok (p + int (length u) + int (length (oldText x))) (q + int (length u) + int (length (insText x))) v new"
      "tcs_app (p + int (length u) + int (length (oldText x))) v new = tcs_app (p + int (length u) + int (length (oldText x))) v (y # es)"
      using Cons.IH [OF rest] by blast
    have "tcs_ok p q t (x # new)" unfolding x(1) tcs_Cons(2) [OF x(2)] using new(2) x(3) by blast
    moreover have "tcs_app p t (x # new) = tcs_app p t (x # y # es)"
      unfolding out unfolding x(1) tcs_Cons(1) [OF x(2)] new(3) ..
    ultimately show ?thesis using False new(1)
      by (intro exI [of _ "x # new"]) (simp del: tcs_app.simps tcs_ok.simps)
  qed
qed (simp del: tcs_app.simps tcs_ok.simps)

lemma mergeTouching_ok:
  assumes "tcs_ok p q t es"
  shows "tcs_ok p q t (mergeTouching es)" and "tcs_app p t (mergeTouching es) = tcs_app p t es"
  using assms merge_loop_ok [of p q t "hd es" "tl es" "[]"]
  by (auto simp: mergeTouching_def simp del: tcs_app.simps tcs_ok.simps split: list.split)

lemma removeNoOps_ok:
  "tcs_ok p q t es \<Longrightarrow> tcs_ok p q t (removeNoOps es) \<and> tcs_app p t (removeNoOps es) = tcs_app p t es"
proof (induction es arbitrary: p q t)
  case (Cons x es)
  let ?f = "removeNoOps es"
  from Cons.prems obtain u v where x: "t = u @ oldText x @ v" "oldPosition x = p + int (length u)" "newPosition x = q + int (length u)"
    and rest: "tcs_ok (p + int (length u) + int (length (oldText x))) (q + int (length u) + int (length (insText x))) v es"
    and out: "tcs_app p t (x # es) = u @ insText x @ tcs_app (p + int (length u) + int (length (oldText x))) v es"
    by (rule tcs_ok_ConsE)
  note IH = Cons.IH [OF rest]
  show ?case
  proof (cases "oldText x = insText x")
    case True
    let ?n = "length u + length (oldText x)"
    have h: "?f \<noteq> [] \<longrightarrow> p + int ?n \<le> oldPosition (hd ?f)" using IH by (cases ?f) auto
    have n: "?n \<le> length t" and d: "drop ?n t = v" "take ?n t = u @ insText x" using x(1) True by simp_all
    have "tcs_ok p q t ?f" using IH tcs_skip(2) [OF n h, of q] True d by (simp add: add.assoc)
    moreover have "tcs_app p t ?f = tcs_app p t (x # es)"
      unfolding out tcs_skip(1) [OF n h] d using IH by (simp add: add.assoc)
    moreover have "removeNoOps (x # es) = ?f" using True by (simp add: removeNoOps_def)
    ultimately show ?thesis by (simp del: tcs_app.simps)
  next
    case False
    have "tcs_ok p q t (x # ?f)" unfolding x(1) tcs_Cons(2) [OF x(2)] using IH x(3) by blast
    moreover have "tcs_app p t (x # ?f) = tcs_app p t (x # es)"
      unfolding out unfolding x(1) tcs_Cons(1) [OF x(2)] using IH by simp
    moreover have "removeNoOps (x # es) = x # ?f" using False by (simp add: removeNoOps_def)
    ultimately show ?thesis by (simp del: tcs_app.simps)
  qed
qed (simp add: removeNoOps_def)

lemma TextChangeCompressor_compress_ok:
  assumes "changes_ok s ps" "changes_ok (changes_apply s ps) cs"
  shows "changes_ok s (TextChangeCompressor_compress ps cs)"
    and "changes_apply s (TextChangeCompressor_compress ps cs) = changes_apply (changes_apply s ps) cs"
proof -
  have "synced 0 0 0 s ps cs" using assms by (simp add: synced_def changes_ok_def changes_apply_def)
  from compress_loop_ok [OF this, of "[]"] have "tcs_ok 0 0 s (compress_loop ps cs 0 0 [])"
    "tcs_app 0 s (compress_loop ps cs 0 0 []) = tcs_app 0 (tcs_app 0 s ps) cs" by auto
  then show "changes_ok s (TextChangeCompressor_compress ps cs)"
    "changes_apply s (TextChangeCompressor_compress ps cs) = changes_apply (changes_apply s ps) cs"
    using mergeTouching_ok [of 0 0 s "compress_loop ps cs 0 0 []"]
      removeNoOps_ok [of 0 0 s "mergeTouching (compress_loop ps cs 0 0 [])"]
    by (simp_all add: changes_ok_def changes_apply_def TextChangeCompressor_compress_def)
qed

lemma removeNoOps_no_noop: "e \<in> set (TextChangeCompressor_compress ps cs) \<Longrightarrow> oldText e \<noteq> insText e"
  by (simp add: TextChangeCompressor_compress_def removeNoOps_def)

section \<open>The binary format\<close>

definition enc32 :: "int \<Rightarrow> byte list" where
  "enc32 v = [word_of_int (v div 16777216), word_of_int (v div 65536), word_of_int (v div 256), word_of_int v]"

definition enc16 :: "16 word \<Rightarrow> byte list" where
  "enc16 c = [word_of_int (uint c), word_of_int (uint c div 256)]"

definition enc_str :: "js_string \<Rightarrow> byte list" where
  "enc_str s = enc32 (int (length s)) @ concat (map enc16 s)"

definition enc_change :: "TextChange \<Rightarrow> byte list" where
  "enc_change c = enc32 (oldPosition c) @ enc32 (newPosition c) @ enc_str (oldText c) @ enc_str (insText c)"

lemma length_enc [simp]: "length (enc32 v) = 4" "length (enc16 c) = 2"
  "length (concat (map enc16 s)) = 2 * length s"
  "length (enc_str s) = 4 + 2 * length s"
proof -
  show l: "length (enc32 v) = 4" "length (enc16 c) = 2" for v c by (simp_all add: enc32_def enc16_def)
  show c: "length (concat (map enc16 s)) = 2 * length s" for s
    by (induction s) (simp_all add: enc16_def)
  show "length (enc_str s) = 4 + 2 * length s" by (simp add: enc_str_def l c)
qed

lemma length_enc_change: "int (length (enc_change c)) = TextChange_writeSize c"
  by (simp add: enc_change_def TextChange_writeSize_def TextChange_writeStringSize_def)

lemma typed_write_append:
  "typed_write (a @ x # c) (int (length a)) v = a @ v # c"
  by (simp add: typed_write_def)

lemma uint32_digits:
  fixes v :: int
  assumes "0 \<le> v" "v < 4294967296"
  shows "js_ushr8 v = v div 256" "js_ushr8 (v div 256) = v div 65536" "js_ushr8 (v div 65536) = v div 16777216"
proof -
  have "v div 256 < 4294967296" "v div 65536 < 4294967296" using assms by linarith+
  then show "js_ushr8 v = v div 256" "js_ushr8 (v div 256) = v div 65536" "js_ushr8 (v div 65536) = v div 16777216"
    using assms by (simp_all add: js_ushr8_def zdiv_zmult2_eq [symmetric] pos_imp_zdiv_nonneg_iff)
qed

lemma writeUInt32BE_enc:
  assumes "0 \<le> v" "v < 4294967296" "length g = 4"
  shows "writeUInt32BE (a @ g @ c) v (int (length a)) = a @ enc32 v @ c"
proof -
  obtain w x y z where "g = [w, x, y, z]" using assms(3) by (auto simp: numeral_eq_Suc length_Suc_conv)
  moreover have "nat (int (length a) + k) = length a + nat k" if "0 \<le> k" for k using that by linarith
  ultimately show ?thesis using uint32_digits [OF assms(1,2)]
    by (simp add: writeUInt32BE_def enc32_def Let_def typed_write_def list_update_append numeral_eq_Suc)
qed

lemma readUInt32BE_enc:
  assumes "0 \<le> v" "v < 4294967296"
  shows "readUInt32BE (a @ enc32 v @ c) (int (length a)) = Some v"
proof -
  have at: "js_at (a @ xs) (int (length a) + k) = js_at xs k" if "0 \<le> k" for k :: int and xs :: "byte list"
    using that by (auto simp: js_at_def nth_append nat_add_distrib)
  have "js_at (a @ xs) (int (length a)) = js_at xs 0" for xs :: "byte list" using at [of 0] by simp
  then have "readUInt32BE (a @ enc32 v @ c) (int (length a))
      = Some (v div 16777216 mod 256 * 16777216 + v div 65536 mod 256 * 65536 + v div 256 mod 256 * 256 + v mod 256)"
    using at by (simp add: readUInt32BE_def) (simp add: enc32_def js_at_def unsigned_of_int take_bit_eq_mod)
  moreover have "v div 16777216 mod 256 * 16777216 + v div 65536 mod 256 * 65536 + v div 256 mod 256 * 256 + v mod 256 = v"
  proof -
    define x y z where "x = v div 256" and "y = x div 256" and "z = y div 256"
    have d: "v div 65536 = y" "v div 16777216 = z" by (simp_all add: x_def y_def z_def zdiv_zmult2_eq [symmetric])
    have "z < 256" "0 \<le> z" unfolding d(2) [symmetric] using assms by (linarith, simp add: pos_imp_zdiv_nonneg_iff)
    then have "z mod 256 = z" by simp
    moreover have "v = 256 * x + v mod 256" "x = 256 * y + x mod 256" "y = 256 * z + y mod 256"
      unfolding x_def y_def z_def by (simp_all only: mult_div_mod_eq)
    ultimately show ?thesis by (simp only: d x_def [symmetric])
  qed
  ultimately show ?thesis by (simp only:)
qed

lemma writeUInt16LE_enc:
  assumes "length g = 2"
  shows "writeUInt16LE (a @ g @ d) (uint c) (int (length a)) = a @ enc16 c @ d"
proof -
  obtain w x where "g = [w, x]" using assms by (auto simp: numeral_eq_Suc length_Suc_conv)
  moreover have "nat (int (length a) + k) = length a + nat k" if "0 \<le> k" for k using that by linarith
  moreover have "js_ushr8 (uint c) = uint c div 256"
    using uint_lt2p [of c] by (simp add: js_ushr8_def)
  moreover have "(word_of_int (i mod 256) :: 8 word) = word_of_int i" for i
    by (rule word_uint_eqI) (simp add: unsigned_of_int take_bit_eq_mod)
  ultimately show ?thesis
    by (simp add: writeUInt16LE_def enc16_def Let_def typed_write_def list_update_append numeral_eq_Suc)
qed

lemma writeChars_loop_enc:
  "length g = 2 * length s \<Longrightarrow>
   writeChars_loop (a @ g @ d) s (int (length a)) = (a @ concat (map enc16 s) @ d, int (length a) + 2 * int (length s))"
proof (induction s arbitrary: a g)
  case (Cons c s)
  define g1 g2 where "g1 = take 2 g" and "g2 = drop 2 g"
  have g: "g = g1 @ g2" "length g1 = 2" "length g2 = 2 * length s" using Cons.prems by (simp_all add: g1_def g2_def)
  have "writeUInt16LE (a @ g @ d) (uint c) (int (length a)) = (a @ enc16 c) @ g2 @ d"
    using writeUInt16LE_enc [OF g(2), of a "g2 @ d"] g(1) by simp
  moreover have "int (length a) + 2 = int (length (a @ enc16 c))" by simp
  ultimately show ?case using Cons.IH [OF g(3), of "a @ enc16 c"] by (simp only: writeChars_loop.simps) simp
qed simp

lemma writeString_enc:
  assumes "length s < 2 ^ 32" "length g = 4 + 2 * length s"
  shows "TextChange_writeString (a @ g @ d) s (int (length a)) = (a @ enc_str s @ d, int (length a) + TextChange_writeStringSize s)"
proof -
  define g1 g2 where "g1 = take 4 g" and "g2 = drop 4 g"
  have g: "g = g1 @ g2" "length g1 = 4" "length g2 = 2 * length s" using assms by (simp_all add: g1_def g2_def)
  have "writeUInt32BE (a @ g @ d) (int (length s)) (int (length a)) = (a @ enc32 (int (length s))) @ g2 @ d"
    using writeUInt32BE_enc [OF _ _ g(2), of "int (length s)" a "g2 @ d"] g(1) assms(1) by simp
  moreover have "int (length a) + 4 = int (length (a @ enc32 (int (length s))))" by simp
  ultimately show ?thesis using writeChars_loop_enc [OF g(3), of "a @ enc32 (int (length s))" d]
    by (simp only: TextChange_writeString_def) (simp add: enc_str_def TextChange_writeStringSize_def)
qed

text \<open>A change fits the format when its positions and lengths fit 32 bits.\<close>

definition tc_storable :: "TextChange \<Rightarrow> bool" where
  "tc_storable c \<longleftrightarrow> 0 \<le> oldPosition c \<and> oldPosition c < 2 ^ 32 \<and> 0 \<le> newPosition c \<and> newPosition c < 2 ^ 32
     \<and> length (oldText c) < 2 ^ 32 \<and> length (insText c) < 2 ^ 32"

lemma TextChange_write_enc:
  assumes c: "tc_storable c" and g: "int (length g) = TextChange_writeSize c"
  shows "TextChange_write c (a @ g @ d) (int (length a))
    = (a @ enc_change c @ d, int (length a) + TextChange_writeSize c)"
proof -
  let ?m = "length (oldText c)" and ?n = "length (insText c)"
  define g1 g2 g3 g4 where "g1 = take 4 g" and "g2 = take 4 (drop 4 g)" and "g3 = take (4 + 2 * ?m) (drop 8 g)"
    and "g4 = drop (12 + 2 * ?m) g"
  have len: "length g = 16 + 2 * ?m + 2 * ?n"
    using g by (simp add: TextChange_writeSize_def TextChange_writeStringSize_def)
  have "drop 8 g = g3 @ g4" unfolding g3_def g4_def
    using append_take_drop_id [of "4 + 2 * ?m" "drop 8 g"] by (simp add: ac_simps)
  moreover have "drop 4 g = g2 @ drop 8 g" unfolding g2_def using append_take_drop_id [of 4 "drop 4 g"] by simp
  ultimately have gs: "g = g1 @ g2 @ g3 @ g4" unfolding g1_def by (metis append_take_drop_id)
  have l: "length g1 = 4" "length g2 = 4" "length g3 = 4 + 2 * ?m" "length g4 = 4 + 2 * ?n"
    using len by (simp_all add: g1_def g2_def g3_def g4_def)
  have b: "0 \<le> oldPosition c" "oldPosition c < 4294967296" "0 \<le> newPosition c" "newPosition c < 4294967296"
    "?m < 2 ^ 32" "?n < 2 ^ 32"
    using c by (simp_all add: tc_storable_def)
  let ?a1 = "a @ enc32 (oldPosition c)" let ?a2 = "?a1 @ enc32 (newPosition c)" let ?a3 = "?a2 @ enc_str (oldText c)"
  have 1: "writeUInt32BE (a @ g @ d) (oldPosition c) (int (length a)) = ?a1 @ g2 @ g3 @ g4 @ d"
    using writeUInt32BE_enc [OF b(1,2) l(1), of a "g2 @ g3 @ g4 @ d"] gs by simp
  have 2: "writeUInt32BE (?a1 @ g2 @ g3 @ g4 @ d) (newPosition c) (int (length a) + 4) = ?a2 @ g3 @ g4 @ d"
    using writeUInt32BE_enc [OF b(3,4) l(2), of ?a1 "g3 @ g4 @ d"] by simp
  have 3: "TextChange_writeString (?a2 @ g3 @ g4 @ d) (oldText c) (int (length a) + 4 + 4)
      = (?a3 @ g4 @ d, int (length a) + 8 + TextChange_writeStringSize (oldText c))"
    using writeString_enc [OF b(5) l(3), of ?a2 "g4 @ d"] by (simp add: ac_simps)
  have 4: "TextChange_writeString (?a3 @ g4 @ d) (insText c) (int (length a) + 8 + TextChange_writeStringSize (oldText c))
      = (?a3 @ enc_str (insText c) @ d, int (length a) + TextChange_writeSize c)"
    using writeString_enc [OF b(6) l(4), of ?a3 d] by (simp add: TextChange_writeSize_def TextChange_writeStringSize_def ac_simps)
  show ?thesis using 4 by (simp only: TextChange_write_def Let_def 1 2 3 prod.case) (simp add: enc_change_def)
qed


text \<open>What the decoder makes of a stored string: itself when every surrogate has its partner.\<close>

definition decoded :: "js_string \<Rightarrow> js_string" where
  "decoded s = (if s \<noteq> [] \<and> (hd s = 0xFEFF \<or> hd s = 0xFFFE) then s else utf16_decode s)"

fun wf_utf16 :: "js_string \<Rightarrow> bool" where
  "wf_utf16 [] = True"
| "wf_utf16 [c] = (\<not> is_high_surrogate c \<and> \<not> is_low_surrogate c)"
| "wf_utf16 (c # d # s) =
     (if is_high_surrogate c \<and> is_low_surrogate d then wf_utf16 s
      else \<not> is_high_surrogate c \<and> \<not> is_low_surrogate c \<and> wf_utf16 (d # s))"

lemma utf16_decode_wf: "wf_utf16 s \<Longrightarrow> utf16_decode s = s"
  by (induction s rule: utf16_decode.induct) (auto split: if_splits)

lemma length_utf16_decode: "length (utf16_decode s) = length s"
  by (induction s rule: utf16_decode.induct) auto

lemma length_decoded [simp]: "length (decoded s) = length s"
  by (simp add: decoded_def length_utf16_decode)

lemma decoded_wf: "wf_utf16 s \<Longrightarrow> decoded s = s"
  by (simp add: decoded_def utf16_decode_wf)

lemma enc16_bytes:
  "i < length s \<Longrightarrow> byte_at (a @ concat (map enc16 s) @ d) (int (length a) + 2 * int i) = uint (s ! i) mod 256"
  "i < length s \<Longrightarrow> byte_at (a @ concat (map enc16 s) @ d) (int (length a) + 2 * int i + 1) = uint (s ! i) div 256"
proof (induction s arbitrary: a i)
  case (Cons c s)
  have b: "0 \<le> uint c div 256" "uint c div 256 < 256" using uint_lt2p [of c] by (simp_all add: pos_imp_zdiv_nonneg_iff)
  {
    case 1
    show ?case
    proof (cases i)
      case 0
      have "uint (word_of_int (uint c) :: byte) = uint c mod 256" by (simp add: unsigned_of_int take_bit_eq_mod del: word_of_int_uint of_int_uint)
      then show ?thesis using 0 by (simp add: byte_at_def enc16_def del: word_of_int_uint of_int_uint)
    next
      case (Suc j)
      then show ?thesis using 1 Cons.IH(1) [of j "a @ enc16 c"] by (simp add: algebra_simps)
    qed
  next
    case 2
    show ?case
    proof (cases i)
      case 0
      have "js_at (a @ enc16 c @ concat (map enc16 s) @ d) (int (length a) + 1) = Some (word_of_int (uint c div 256))"
        using js_at_int [of "length a + 1" "a @ enc16 c @ concat (map enc16 s) @ d"] by (simp add: enc16_def nth_append add.commute)
      then show ?thesis using 0 b by (simp add: byte_at_def unsigned_of_int take_bit_eq_mod)
    next
      case (Suc j)
      then show ?thesis using 2 Cons.IH(2) [of j "a @ enc16 c"] by (simp add: algebra_simps)
    qed
  }
qed simp_all

lemma enc16_chars:
  "map (\<lambda>i. word_of_int (byte_at (a @ concat (map enc16 s) @ d) (int (length a) + 2 * int i)
      + 256 * byte_at (a @ concat (map enc16 s) @ d) (int (length a) + 2 * int i + 1))) [0 ..< length s] = s"
proof (rule nth_equalityI)
  fix i assume "i < length (map (\<lambda>i. word_of_int (byte_at (a @ concat (map enc16 s) @ d) (int (length a) + 2 * int i)
      + 256 * byte_at (a @ concat (map enc16 s) @ d) (int (length a) + 2 * int i + 1)) :: 16 word) [0 ..< length s])"
  then show "map (\<lambda>i. word_of_int (byte_at (a @ concat (map enc16 s) @ d) (int (length a) + 2 * int i)
      + 256 * byte_at (a @ concat (map enc16 s) @ d) (int (length a) + 2 * int i + 1))) [0 ..< length s] ! i = s ! i"
    using mod_mult_div_eq [of "uint (s ! i)" 256] by (simp add: enc16_bytes del: of_int_add of_int_mult)
qed simp

lemma compatDecode_enc:
  "compatDecodeUTF16LE (a @ concat (map enc16 s) @ d) (int (length a)) (length s) = s"
proof -
  have "readUInt16LE (a @ concat (map enc16 s) @ d) (int (length a) + 2 * int i) = uint (s ! i)" if "i < length s" for i
  proof -
    have "int32_range (uint (s ! i))" using uint_lt2p [of "s ! i"] by (simp add: int32_range_def) (smt (verit) uint_nonnegative)
    then show ?thesis using that
      by (simp add: readUInt16LE_def enc16_bytes toInt32_id)
  qed
  then show ?thesis unfolding compatDecodeUTF16LE_def by (intro nth_equalityI) simp_all
qed

lemma readString_enc:
  assumes "length s < 2 ^ 32" "even (length a)"
  shows "TextChange_readString (a @ enc_str s @ d) (int (length a)) = Inr (decoded s)"
proof -
  let ?a = "a @ enc32 (int (length s))"
  let ?b = "?a @ concat (map enc16 s) @ d"
  have r: "readUInt32BE ?b (int (length a)) = Some (int (length s))"
    using readUInt32BE_enc [of "int (length s)" a] assms(1) by simp
  have e: "(int (length a) + 4) mod 2 = 0" using assms(2) by presburger
  have "uint16_view ?b (int (length a) + 4) (length s) = Inr s"
    using enc16_chars [of ?a s d] e by (simp add: uint16_view_def)
  moreover have "compatDecodeUTF16LE ?b (int (length a) + 4) (length s) = s"
    using compatDecode_enc [of ?a s d] by simp
  ultimately have "decodeUTF16LE ?b (int (length a) + 4) (length s) = Inr (decoded s)"
    by (simp add: decodeUTF16LE_def decoded_def del: append_assoc)
  then show ?thesis using r by (simp add: TextChange_readString_def enc_str_def)
qed

lemma TextChange_read_enc:
  assumes c: "tc_storable c" and a: "even (length a)"
  shows "TextChange_read (a @ enc_change c @ d) (int (length a)) dest
    = Inr (int (length a) + TextChange_writeSize c,
        dest @ [(Some (oldPosition c), decoded (oldText c), Some (newPosition c), decoded (insText c))])"
proof -
  let ?a1 = "a @ enc32 (oldPosition c)" let ?a2 = "?a1 @ enc32 (newPosition c)" let ?a3 = "?a2 @ enc_str (oldText c)"
  let ?b = "a @ enc_change c @ d"
  have b: "0 \<le> oldPosition c" "oldPosition c < 4294967296" "0 \<le> newPosition c" "newPosition c < 4294967296"
    "length (oldText c) < 2 ^ 32" "length (insText c) < 2 ^ 32"
    using c by (simp_all add: tc_storable_def)
  have 1: "readUInt32BE ?b (int (length a)) = Some (oldPosition c)"
    using readUInt32BE_enc [OF b(1,2), of a] by (simp add: enc_change_def)
  have 2: "readUInt32BE ?b (int (length a) + 4) = Some (newPosition c)"
    using readUInt32BE_enc [OF b(3,4), of ?a1] by (simp add: enc_change_def)
  have 3: "TextChange_readString ?b (int (length a) + 4 + 4) = Inr (decoded (oldText c))"
    using readString_enc [OF b(5), of ?a2 "enc_str (insText c) @ d"] a by (simp add: enc_change_def ac_simps)
  have 4: "TextChange_readString ?b (int (length a) + 4 + 4 + TextChange_writeStringSize (decoded (oldText c)))
      = Inr (decoded (insText c))"
    using readString_enc [OF b(6), of ?a3 d] a by (simp add: enc_change_def TextChange_writeStringSize_def ac_simps)
  show ?thesis unfolding TextChange_read_def Let_def 1 2 3 rbind_simps 4
    by (simp add: TextChange_writeSize_def TextChange_writeStringSize_def)
qed

section \<open>Properties\<close>



text \<open>C13: what \<^verbatim>\<open>write\<close> stores, \<^verbatim>\<open>read\<close> gives back: for positions and lengths below $2^{32}$, well-formed
  UTF-16 texts and an even offset with enough room, writing a change and reading at the same offset
  returns the change and the offset behind it, and no byte outside is changed.\<close>

theorem write_read_change:
  assumes "tc_storable c" "wf_utf16 (oldText c)" "wf_utf16 (insText c)"
    and "even (length a)" "int (length g) = TextChange_writeSize c"
  shows "\<exists>b. TextChange_write c (a @ g @ d) (int (length a)) = (b, int (length a) + TextChange_writeSize c)
    \<and> TextChange_read b (int (length a)) dest = Inr (int (length a) + TextChange_writeSize c,
        dest @ [(Some (oldPosition c), oldText c, Some (newPosition c), insText c)])
    \<and> take (length a) b = a \<and> drop (length a + length g) b = d"
proof -
  have "int (length (enc_change c)) = int (length g)" using assms(5) length_enc_change by simp
  then have "length (enc_change c) = length g" by simp
  then show ?thesis
    using TextChange_write_enc [OF assms(1,5)] TextChange_read_enc [OF assms(1,4)] assms(2,3)
    by - (rule exI [of _ "a @ enc_change c @ d"], simp add: decoded_wf)
qed

theorem write_read_change_witness:
  "\<exists>b. TextChange_write (new_TextChange 3 [97] 3 [98, 99]) (replicate 22 0) 0 = (b, 22)
     \<and> TextChange_read b 0 [] = Inr (22, [(Some 3, [97], Some 3, [98, 99])])"
proof -
  let ?c = "new_TextChange 3 [97] 3 [98, 99]"
  have "tc_storable ?c" "wf_utf16 (oldText ?c)" "wf_utf16 (insText ?c)" "TextChange_writeSize ?c = 22"
    by (simp_all add: tc_storable_def is_high_surrogate_def is_low_surrogate_def TextChange_writeSize_def
        TextChange_writeStringSize_def)
  then show ?thesis using write_read_change [of ?c "[]" "replicate 22 0" "[]" "[]"] by auto
qed

end
