(* ===== verification/Js_Values.thy ===== *)
theory Js_Values
  imports Complex_Main Js_Prelude
begin

text \<open>
  The values a context key can have (\<^verbatim>\<open>ContextKeyValue\<close> of \<^verbatim>\<open>contextkey.ts\<close>) and the conversions and comparisons of ECMAScript
  the sources apply to them: truthiness, \<^verbatim>\<open>==\<close>, \<^verbatim>\<open>===\<close>, \<^verbatim>\<open><\<close>, \<^verbatim>\<open>Number(s)\<close>, \<^verbatim>\<open>parseFloat\<close> and the conversion to
  strings.  A number is exact (a rational); the rounding of a long decimal literal to the nearest double and the
  sign of zero, which no comparison shows, are left out.  What the engine does and the sources
  only rely on is a record of parameters: how a number is printed, and whether a regular
  expression matches.
\<close>

section \<open>Values\<close>

datatype js_number = NaN | PosInfinity | NegInfinity | Num rat

datatype js_prim = PUndefined | PNull | PBool bool | PNum js_number | PStr js_string

datatype js_value = Prim js_prim | Arr "js_prim list" | Obj "(js_string \<times> js_prim) list"

record RegExp =
  re_source :: js_string
  re_flags :: js_string

record js_lib =
  number_toString :: "js_number \<Rightarrow> js_string"
  regex_test :: "RegExp \<Rightarrow> js_string \<Rightarrow> bool"

section \<open>Strings\<close>

text \<open>An ASCII literal of the sources as a string of code units.\<close>

definition lit :: "string \<Rightarrow> js_string" where
  "lit s = map (\<lambda>c. word_of_nat (of_char c)) s"

text \<open>\<^verbatim>\<open>s < t\<close> on strings compares code units.\<close>

fun js_string_less :: "js_string \<Rightarrow> js_string \<Rightarrow> bool" where
  "js_string_less s [] = False"
| "js_string_less [] (d # t) = True"
| "js_string_less (c # s) (d # t) = (c < d \<or> c = d \<and> js_string_less s t)"

definition is_js_space :: "code_unit \<Rightarrow> bool" where
  "is_js_space c \<longleftrightarrow> 9 \<le> c \<and> c \<le> 13 \<or> c = 32 \<or> c = 160 \<or> c = 0x1680 \<or> 0x2000 \<le> c \<and> c \<le> 0x200A
     \<or> c = 0x2028 \<or> c = 0x2029 \<or> c = 0x202F \<or> c = 0x205F \<or> c = 0x3000 \<or> c = 0xFEFF"

definition js_trimStart :: "js_string \<Rightarrow> js_string" where
  "js_trimStart s = dropWhile is_js_space s"

definition js_trim :: "js_string \<Rightarrow> js_string" where
  "js_trim s = rev (dropWhile is_js_space (rev (js_trimStart s)))"

definition starts_with :: "'a list \<Rightarrow> 'a list \<Rightarrow> bool" where
  "starts_with p s \<longleftrightarrow> take (length p) s = p"

section \<open>Numbers in strings\<close>

definition is_digit :: "code_unit \<Rightarrow> bool" where
  "is_digit c \<longleftrightarrow> 48 \<le> c \<and> c \<le> 57"

definition digit_of :: "code_unit \<Rightarrow> int" where
  "digit_of c = (if is_digit c then uint c - 48
     else if 97 \<le> c \<and> c \<le> 122 then uint c - 87
     else if 65 \<le> c \<and> c \<le> 90 then uint c - 55 else 99)"

definition digits_value :: "int \<Rightarrow> js_string \<Rightarrow> int" where
  "digits_value base s = foldl (\<lambda>a c. a * base + digit_of c) 0 s"

definition scale10 :: "int \<Rightarrow> int \<Rightarrow> rat" where
  "scale10 m e = (if 0 \<le> e then of_int m * 10 ^ nat e else of_int m / 10 ^ nat (- e))"

text \<open>An optional sign.\<close>

definition take_sign :: "js_string \<Rightarrow> bool \<times> js_string" where
  "take_sign s = (case s of [] \<Rightarrow> (False, s)
     | c # t \<Rightarrow> if c = 45 then (True, t) else if c = 43 then (False, t) else (False, s))"

text \<open>The exponent of a decimal literal, if there is one.\<close>

definition take_exponent :: "js_string \<Rightarrow> int \<times> js_string" where
  "take_exponent s = (case s of [] \<Rightarrow> (0, s)
     | c # t \<Rightarrow>
         if c = 101 \<or> c = 69 then
           (case take_sign t of (neg, u) \<Rightarrow>
              let ds = takeWhile is_digit u
              in if ds = [] then (0, s)
                 else ((if neg then - digits_value 10 ds else digits_value 10 ds), dropWhile is_digit u))
         else (0, s))"

text \<open>The longest prefix that is a decimal literal (StrDecimalLiteral), and what follows it.\<close>

definition parse_decimal :: "js_string \<Rightarrow> (js_number \<times> js_string) option" where
  "parse_decimal s0 = (case take_sign s0 of (neg, s) \<Rightarrow>
     if starts_with (lit ''Infinity'') s then Some (if neg then NegInfinity else PosInfinity, drop 8 s)
     else
       let ip = takeWhile is_digit s; s2 = dropWhile is_digit s;
           frac = (case s2 of [] \<Rightarrow> ([], s2) | c # t \<Rightarrow> if c = 46 then (takeWhile is_digit t, dropWhile is_digit t) else ([], s2))
       in if ip = [] \<and> fst frac = [] then None
          else case take_exponent (snd frac) of (e, rest) \<Rightarrow>
            let m = digits_value 10 (ip @ fst frac)
            in Some (Num (scale10 (if neg then - m else m) (e - int (length (fst frac)))), rest))"

definition js_parseFloat :: "js_string \<Rightarrow> js_number" where
  "js_parseFloat s = (case parse_decimal (js_trimStart s) of None \<Rightarrow> NaN | Some (n, _) \<Rightarrow> n)"

text \<open>\<^verbatim>\<open>Number(s)\<close>: a literal with a radix prefix, or a decimal literal and nothing else.\<close>

definition radix_literal :: "js_string \<Rightarrow> (int \<times> js_string) option" where
  "radix_literal s = (case s of
       c # d # ds \<Rightarrow>
         if c = 48 \<and> ds \<noteq> [] then
           let base = (if d = 120 \<or> d = 88 then 16 else if d = 111 \<or> d = 79 then 8 else if d = 98 \<or> d = 66 then 2 else 0)
           in if base \<noteq> 0 then Some (base, ds) else None
         else None
     | _ \<Rightarrow> None)"

definition js_Number :: "js_string \<Rightarrow> js_number" where
  "js_Number s0 =
     (let s = js_trim s0
      in if s = [] then Num 0
         else case radix_literal s of
           Some (base, ds) \<Rightarrow>
             if list_all (\<lambda>c. digit_of c < base) ds then Num (of_int (digits_value base ds)) else NaN
         | None \<Rightarrow> (case parse_decimal s of None \<Rightarrow> NaN | Some (n, rest) \<Rightarrow> if rest = [] then n else NaN))"

section \<open>Comparisons\<close>

fun number_eq :: "js_number \<Rightarrow> js_number \<Rightarrow> bool" where
  "number_eq NaN y = False"
| "number_eq x y = (x = y)"

fun number_less :: "js_number \<Rightarrow> js_number \<Rightarrow> bool" where
  "number_less NaN y = False"
| "number_less x NaN = False"
| "number_less x NegInfinity = False"
| "number_less NegInfinity y = True"
| "number_less PosInfinity y = False"
| "number_less (Num x) PosInfinity = True"
| "number_less (Num x) (Num y) = (x < y)"

definition number_leq :: "js_number \<Rightarrow> js_number \<Rightarrow> bool" where
  "number_leq x y \<longleftrightarrow> number_less x y \<or> number_eq x y"

lemma number_not_less: "x \<noteq> NaN \<Longrightarrow> y \<noteq> NaN \<Longrightarrow> \<not> number_less x y \<longleftrightarrow> number_leq y x"
  by (cases x; cases y) (auto simp: number_leq_def)

lemma number_not_leq: "x \<noteq> NaN \<Longrightarrow> y \<noteq> NaN \<Longrightarrow> \<not> number_leq x y \<longleftrightarrow> number_less y x"
  using number_not_less [of y x] by blast

lemma number_trichotomy: "x \<noteq> NaN \<Longrightarrow> y \<noteq> NaN \<Longrightarrow> \<not> number_less x y \<Longrightarrow> \<not> number_less y x \<Longrightarrow> x = y"
  by (cases x; cases y) auto

text \<open>\<^verbatim>\<open>===\<close> on primitive values.\<close>

fun strict_eq :: "js_prim \<Rightarrow> js_prim \<Rightarrow> bool" where
  "strict_eq (PNum x) (PNum y) = number_eq x y"
| "strict_eq x y = (x = y)"

lemma number_eq_imp: "number_eq x y \<Longrightarrow> x = y"
  by (cases x) auto

lemma strict_eq_imp: "strict_eq p q \<Longrightarrow> p = q"
  by (cases p; cases q) (auto dest: number_eq_imp)

text \<open>\<^verbatim>\<open>includes\<close> compares with SameValueZero, for which \<^verbatim>\<open>NaN\<close> is itself.\<close>

definition same_value_zero :: "js_prim \<Rightarrow> js_prim \<Rightarrow> bool" where
  "same_value_zero p q \<longleftrightarrow> p = q"

fun prim_truthy :: "js_prim \<Rightarrow> bool" where
  "prim_truthy PUndefined = False"
| "prim_truthy PNull = False"
| "prim_truthy (PBool b) = b"
| "prim_truthy (PNum n) = (n \<noteq> NaN \<and> n \<noteq> Num 0)"
| "prim_truthy (PStr s) = (s \<noteq> [])"

fun truthy :: "js_value \<Rightarrow> bool" where
  "truthy (Prim p) = prim_truthy p"
| "truthy _ = True"

fun prim_toNumber :: "js_prim \<Rightarrow> js_number" where
  "prim_toNumber PUndefined = NaN"
| "prim_toNumber PNull = Num 0"
| "prim_toNumber (PBool b) = Num (if b then 1 else 0)"
| "prim_toNumber (PNum n) = n"
| "prim_toNumber (PStr s) = js_Number s"

fun prim_toString :: "js_lib \<Rightarrow> js_prim \<Rightarrow> js_string" where
  "prim_toString lib PUndefined = lit ''undefined''"
| "prim_toString lib PNull = lit ''null''"
| "prim_toString lib (PBool b) = (if b then lit ''true'' else lit ''false'')"
| "prim_toString lib (PNum n) = number_toString lib n"
| "prim_toString lib (PStr s) = s"

text \<open>\<^verbatim>\<open>array.join(',')\<close> leaves out \<^verbatim>\<open>null\<close> and \<^verbatim>\<open>undefined\<close>.\<close>

definition join_item :: "js_lib \<Rightarrow> js_prim \<Rightarrow> js_string" where
  "join_item lib p = (if p = PUndefined \<or> p = PNull then [] else prim_toString lib p)"

fun join_with :: "'a list \<Rightarrow> 'a list list \<Rightarrow> 'a list" where
  "join_with sep [] = []"
| "join_with sep [s] = s"
| "join_with sep (s # t # ss) = s @ sep @ join_with sep (t # ss)"

fun value_toString :: "js_lib \<Rightarrow> js_value \<Rightarrow> js_string" where
  "value_toString lib (Prim p) = prim_toString lib p"
| "value_toString lib (Arr ps) = join_with (lit '','') (map (join_item lib) ps)"
| "value_toString lib (Obj fs) = lit ''[object Object]''"

text \<open>\<^verbatim>\<open>==\<close> (IsLooselyEqual), with a primitive on the right.\<close>

fun prim_loose_eq :: "js_prim \<Rightarrow> js_prim \<Rightarrow> bool" where
  "prim_loose_eq PUndefined q = (q = PUndefined \<or> q = PNull)"
| "prim_loose_eq PNull q = (q = PUndefined \<or> q = PNull)"
| "prim_loose_eq (PStr s) (PStr t) = (s = t)"
| "prim_loose_eq p q = (if q = PUndefined \<or> q = PNull then False else number_eq (prim_toNumber p) (prim_toNumber q))"

fun loose_eq :: "js_lib \<Rightarrow> js_value \<Rightarrow> js_prim \<Rightarrow> bool" where
  "loose_eq lib (Prim p) q = prim_loose_eq p q"
| "loose_eq lib v q = (if q = PUndefined \<or> q = PNull then False else prim_loose_eq (PStr (value_toString lib v)) q)"

text \<open>\<^verbatim>\<open>p < q\<close> on primitives: two strings by code units, everything else as numbers.\<close>

fun prim_less :: "js_prim \<Rightarrow> js_prim \<Rightarrow> bool" where
  "prim_less (PStr s) (PStr t) = js_string_less s t"
| "prim_less p q = number_less (prim_toNumber p) (prim_toNumber q)"

text \<open>\<^verbatim>\<open>parseFloat(v)\<close> for any value; the printed form of a number reads back as the number.\<close>

fun value_parseFloat :: "js_lib \<Rightarrow> js_value \<Rightarrow> js_number" where
  "value_parseFloat lib (Prim (PNum n)) = n"
| "value_parseFloat lib v = js_parseFloat (value_toString lib v)"

section \<open>Order of strings\<close>

lemma js_string_less_irrefl [simp]: "\<not> js_string_less s s"
  by (induction s) auto

lemma js_string_less_trans: "js_string_less s t \<Longrightarrow> js_string_less t u \<Longrightarrow> js_string_less s u"
proof (induction s t arbitrary: u rule: js_string_less.induct)
  case (3 c s d t)
  then show ?case by (cases u) auto
next
  case (2 d t)
  then show ?case by (cases u) auto
qed simp

lemma js_string_less_linear: "js_string_less s t \<or> s = t \<or> js_string_less t s"
  by (induction s t rule: js_string_less.induct) (auto simp: neq_iff, case_tac s, auto)

lemma js_string_less_asym: "js_string_less s t \<Longrightarrow> \<not> js_string_less t s"
  using js_string_less_trans js_string_less_irrefl by blast

end
