(* ===== verification/Context_Key.thy ===== *)
theory Context_Key
  imports Js_Values
begin

text \<open>
  \<^verbatim>\<open>src/vs/platform/contextkey/common/contextkey.ts\<close>: the expressions of \<^verbatim>\<open>when\<close> clauses.  Every class is a constructor of one
  datatype, every method of a class a definition over its fields, and a call of a method on an
  expression goes through a dispatching function, as in the source.  The field \<^verbatim>\<open>negated\<close> is the
  expression given at creation; an expression created without one computes it on demand,
  and computes the same one each time, so the cache itself is not part of the model.

  \<^verbatim>\<open>create\<close> of \<^verbatim>\<open>ContextKeyAndExpr\<close> and \<^verbatim>\<open>ContextKeyOrExpr\<close> and the method \<^verbatim>\<open>negate\<close> call each other.  Their bodies are definitions
  that take the functions they call as arguments; \<open>ck_negate\<close>, \<open>ContextKeyAndExpr_create\<close> and \<open>ContextKeyOrExpr_create\<close> tie the
  knot with a bound on the depth of calls, and \<open>None\<close> says that the bound was too small.
  The theory \<open>Context_Key_Fuel\<close> shows that for every argument some bound is enough.  \<^verbatim>\<open>expr.sort(cmp)\<close> is a stable
  insertion sort; where \<^verbatim>\<open>cmp\<close> is not an order (numbers next to strings), the order is the engine's and the results
  do not depend on it.
\<close>

section \<open>Expressions\<close>

type_synonym constants = "js_string \<Rightarrow> bool option"

type_synonym ck_context = "js_string \<Rightarrow> js_value"

datatype ContextKeyExpression =
    FalseExpr
  | TrueExpr
  | DefinedExpr js_string "ContextKeyExpression option"
  | NotExpr js_string "ContextKeyExpression option"
  | EqualsExpr js_string js_prim "ContextKeyExpression option"
  | NotEqualsExpr js_string js_prim "ContextKeyExpression option"
  | AndExpr "ContextKeyExpression list" "ContextKeyExpression option"
  | RegexExpr js_string "RegExp option"
  | NotRegexExpr js_string "RegExp option"
  | OrExpr "ContextKeyExpression list" "ContextKeyExpression option"
  | InExpr js_string js_string
  | NotInExpr js_string js_string
  | GreaterExpr js_string js_prim "ContextKeyExpression option"
  | GreaterEqualsExpr js_string js_prim "ContextKeyExpression option"
  | SmallerExpr js_string js_prim "ContextKeyExpression option"
  | SmallerEqualsExpr js_string js_prim "ContextKeyExpression option"

fun ContextKeyExprType :: "ContextKeyExpression \<Rightarrow> int" where
  "ContextKeyExprType FalseExpr = 0"
| "ContextKeyExprType TrueExpr = 1"
| "ContextKeyExprType (DefinedExpr k n) = 2"
| "ContextKeyExprType (NotExpr k n) = 3"
| "ContextKeyExprType (EqualsExpr k v n) = 4"
| "ContextKeyExprType (NotEqualsExpr k v n) = 5"
| "ContextKeyExprType (AndExpr es n) = 6"
| "ContextKeyExprType (RegexExpr k r) = 7"
| "ContextKeyExprType (NotRegexExpr k r) = 8"
| "ContextKeyExprType (OrExpr es n) = 9"
| "ContextKeyExprType (InExpr k vk) = 10"
| "ContextKeyExprType (NotInExpr k vk) = 11"
| "ContextKeyExprType (GreaterExpr k v n) = 12"
| "ContextKeyExprType (GreaterEqualsExpr k v n) = 13"
| "ContextKeyExprType (SmallerExpr k v n) = 14"
| "ContextKeyExprType (SmallerEqualsExpr k v n) = 15"

section \<open>Constants\<close>

record platform =
  isMacintosh :: bool
  isLinux :: bool
  isWindows :: bool
  isWeb :: bool
  isEdge :: bool
  isFirefox :: bool
  isChrome :: bool
  isSafari :: bool

definition CONSTANT_VALUES :: "platform \<Rightarrow> constants" where
  "CONSTANT_VALUES p = map_of [
     (lit ''isSafari'', isSafari p), (lit ''isChrome'', isChrome p), (lit ''isFirefox'', isFirefox p),
     (lit ''isEdge'', isEdge p), (lit ''isMacNative'', isMacintosh p \<and> \<not> isWeb p), (lit ''isWeb'', isWeb p),
     (lit ''isWindows'', isWindows p), (lit ''isLinux'', isLinux p), (lit ''isMac'', isMacintosh p),
     (lit ''true'', True), (lit ''false'', False)]"

definition setConstant :: "constants \<Rightarrow> js_string \<Rightarrow> bool \<Rightarrow> constants result" where
  "setConstant cs key v = (if cs key \<noteq> None then Inl IllegalArgument else Inr (cs(key \<mapsto> v)))"

section \<open>Comparing keys and values\<close>

definition cmp1 :: "js_string \<Rightarrow> js_string \<Rightarrow> int" where
  "cmp1 key1 key2 = (if js_string_less key1 key2 then - 1 else if js_string_less key2 key1 then 1 else 0)"

definition cmp2 :: "js_string \<Rightarrow> js_prim \<Rightarrow> js_string \<Rightarrow> js_prim \<Rightarrow> int" where
  "cmp2 key1 value1 key2 value2 =
     (if js_string_less key1 key2 then - 1
      else if js_string_less key2 key1 then 1
      else if prim_less value1 value2 then - 1
      else if prim_less value2 value1 then 1
      else 0)"

section \<open>ContextKeyFalseExpr and ContextKeyTrueExpr\<close>

definition ContextKeyFalseExpr_cmp :: "ContextKeyExpression \<Rightarrow> int" where
  "ContextKeyFalseExpr_cmp other = 0 - ContextKeyExprType other"

definition ContextKeyFalseExpr_equals :: "ContextKeyExpression \<Rightarrow> bool" where
  "ContextKeyFalseExpr_equals other \<longleftrightarrow> ContextKeyExprType other = 0"

definition ContextKeyFalseExpr_evaluate :: "ck_context \<Rightarrow> bool" where
  "ContextKeyFalseExpr_evaluate ctx = False"

definition ContextKeyFalseExpr_serialize :: js_string where
  "ContextKeyFalseExpr_serialize = lit ''false''"

definition ContextKeyFalseExpr_negate :: ContextKeyExpression where
  "ContextKeyFalseExpr_negate = TrueExpr"

definition ContextKeyTrueExpr_cmp :: "ContextKeyExpression \<Rightarrow> int" where
  "ContextKeyTrueExpr_cmp other = 1 - ContextKeyExprType other"

definition ContextKeyTrueExpr_equals :: "ContextKeyExpression \<Rightarrow> bool" where
  "ContextKeyTrueExpr_equals other \<longleftrightarrow> ContextKeyExprType other = 1"

definition ContextKeyTrueExpr_evaluate :: "ck_context \<Rightarrow> bool" where
  "ContextKeyTrueExpr_evaluate ctx = True"

definition ContextKeyTrueExpr_serialize :: js_string where
  "ContextKeyTrueExpr_serialize = lit ''true''"

definition ContextKeyTrueExpr_negate :: ContextKeyExpression where
  "ContextKeyTrueExpr_negate = FalseExpr"

section \<open>ContextKeyDefinedExpr and ContextKeyNotExpr\<close>

definition ContextKeyDefinedExpr_create :: "constants \<Rightarrow> js_string \<Rightarrow> ContextKeyExpression option \<Rightarrow> ContextKeyExpression" where
  "ContextKeyDefinedExpr_create cs key negated =
     (case cs key of Some c \<Rightarrow> if c then TrueExpr else FalseExpr | None \<Rightarrow> DefinedExpr key negated)"

definition ContextKeyNotExpr_create :: "constants \<Rightarrow> js_string \<Rightarrow> ContextKeyExpression option \<Rightarrow> ContextKeyExpression" where
  "ContextKeyNotExpr_create cs key negated =
     (case cs key of Some c \<Rightarrow> if c then FalseExpr else TrueExpr | None \<Rightarrow> NotExpr key negated)"

definition ContextKeyDefinedExpr_cmp :: "js_string \<Rightarrow> ContextKeyExpression \<Rightarrow> int" where
  "ContextKeyDefinedExpr_cmp key other =
     (case other of DefinedExpr key2 n \<Rightarrow> cmp1 key key2 | _ \<Rightarrow> 2 - ContextKeyExprType other)"

definition ContextKeyDefinedExpr_equals :: "js_string \<Rightarrow> ContextKeyExpression \<Rightarrow> bool" where
  "ContextKeyDefinedExpr_equals key other = (case other of DefinedExpr key2 n \<Rightarrow> key = key2 | _ \<Rightarrow> False)"

definition ContextKeyDefinedExpr_substituteConstants :: "constants \<Rightarrow> js_string \<Rightarrow> ContextKeyExpression option \<Rightarrow> ContextKeyExpression" where
  "ContextKeyDefinedExpr_substituteConstants cs key negated =
     (case cs key of Some c \<Rightarrow> if c then TrueExpr else FalseExpr | None \<Rightarrow> DefinedExpr key negated)"

definition ContextKeyDefinedExpr_evaluate :: "ck_context \<Rightarrow> js_string \<Rightarrow> bool" where
  "ContextKeyDefinedExpr_evaluate ctx key = (truthy (ctx key))"

definition ContextKeyDefinedExpr_serialize :: "js_string \<Rightarrow> js_string" where
  "ContextKeyDefinedExpr_serialize key = key"

definition ContextKeyDefinedExpr_negate :: "constants \<Rightarrow> js_string \<Rightarrow> ContextKeyExpression option \<Rightarrow> ContextKeyExpression" where
  "ContextKeyDefinedExpr_negate cs key negated =
     (case negated of Some n \<Rightarrow> n | None \<Rightarrow> ContextKeyNotExpr_create cs key (Some (DefinedExpr key negated)))"

definition ContextKeyNotExpr_cmp :: "js_string \<Rightarrow> ContextKeyExpression \<Rightarrow> int" where
  "ContextKeyNotExpr_cmp key other =
     (case other of NotExpr key2 n \<Rightarrow> cmp1 key key2 | _ \<Rightarrow> 3 - ContextKeyExprType other)"

definition ContextKeyNotExpr_equals :: "js_string \<Rightarrow> ContextKeyExpression \<Rightarrow> bool" where
  "ContextKeyNotExpr_equals key other = (case other of NotExpr key2 n \<Rightarrow> key = key2 | _ \<Rightarrow> False)"

definition ContextKeyNotExpr_substituteConstants :: "constants \<Rightarrow> js_string \<Rightarrow> ContextKeyExpression option \<Rightarrow> ContextKeyExpression" where
  "ContextKeyNotExpr_substituteConstants cs key negated =
     (case cs key of Some c \<Rightarrow> if c then FalseExpr else TrueExpr | None \<Rightarrow> NotExpr key negated)"

definition ContextKeyNotExpr_evaluate :: "ck_context \<Rightarrow> js_string \<Rightarrow> bool" where
  "ContextKeyNotExpr_evaluate ctx key = (\<not> truthy (ctx key))"

definition ContextKeyNotExpr_serialize :: "js_string \<Rightarrow> js_string" where
  "ContextKeyNotExpr_serialize key = lit ''!'' @ key"

definition ContextKeyNotExpr_negate :: "constants \<Rightarrow> js_string \<Rightarrow> ContextKeyExpression option \<Rightarrow> ContextKeyExpression" where
  "ContextKeyNotExpr_negate cs key negated =
     (case negated of Some n \<Rightarrow> n | None \<Rightarrow> ContextKeyDefinedExpr_create cs key (Some (NotExpr key negated)))"

section \<open>ContextKeyEqualsExpr and ContextKeyNotEqualsExpr\<close>

definition ContextKeyEqualsExpr_create ::
    "constants \<Rightarrow> js_string \<Rightarrow> js_prim \<Rightarrow> ContextKeyExpression option \<Rightarrow> ContextKeyExpression" where
  "ContextKeyEqualsExpr_create cs key v negated =
     (case v of
        PBool b \<Rightarrow> if b then ContextKeyDefinedExpr_create cs key negated else ContextKeyNotExpr_create cs key negated
      | _ \<Rightarrow>
          (case cs key of
             Some c \<Rightarrow> if strict_eq v (PStr (if c then lit ''true'' else lit ''false'')) then TrueExpr else FalseExpr
           | None \<Rightarrow> EqualsExpr key v negated))"

definition ContextKeyNotEqualsExpr_create ::
    "constants \<Rightarrow> js_string \<Rightarrow> js_prim \<Rightarrow> ContextKeyExpression option \<Rightarrow> ContextKeyExpression" where
  "ContextKeyNotEqualsExpr_create cs key v negated =
     (case v of
        PBool b \<Rightarrow> if b then ContextKeyNotExpr_create cs key negated else ContextKeyDefinedExpr_create cs key negated
      | _ \<Rightarrow>
          (case cs key of
             Some c \<Rightarrow> if strict_eq v (PStr (if c then lit ''true'' else lit ''false'')) then FalseExpr else TrueExpr
           | None \<Rightarrow> NotEqualsExpr key v negated))"

definition ContextKeyEqualsExpr_cmp :: "js_string \<Rightarrow> js_prim \<Rightarrow> ContextKeyExpression \<Rightarrow> int" where
  "ContextKeyEqualsExpr_cmp key v other =
     (case other of EqualsExpr key2 v2 n \<Rightarrow> cmp2 key v key2 v2 | _ \<Rightarrow> 4 - ContextKeyExprType other)"

definition ContextKeyEqualsExpr_equals :: "js_string \<Rightarrow> js_prim \<Rightarrow> ContextKeyExpression \<Rightarrow> bool" where
  "ContextKeyEqualsExpr_equals key v other = (case other of EqualsExpr key2 v2 n \<Rightarrow> key = key2 \<and> strict_eq v v2 | _ \<Rightarrow> False)"

definition ContextKeyEqualsExpr_substituteConstants ::
    "constants \<Rightarrow> js_string \<Rightarrow> js_prim \<Rightarrow> ContextKeyExpression option \<Rightarrow> ContextKeyExpression" where
  "ContextKeyEqualsExpr_substituteConstants cs key v negated =
     (case cs key of
        Some c \<Rightarrow> if strict_eq v (PStr (if c then lit ''true'' else lit ''false'')) then TrueExpr else FalseExpr
      | None \<Rightarrow> EqualsExpr key v negated)"

definition ContextKeyEqualsExpr_evaluate :: "js_lib \<Rightarrow> ck_context \<Rightarrow> js_string \<Rightarrow> js_prim \<Rightarrow> bool" where
  "ContextKeyEqualsExpr_evaluate lib ctx key v = (loose_eq lib (ctx key) v)"

definition ContextKeyEqualsExpr_serialize :: "js_lib \<Rightarrow> js_string \<Rightarrow> js_prim \<Rightarrow> js_string" where
  "ContextKeyEqualsExpr_serialize lib key v = key @ lit '' == '' @ [39] @ prim_toString lib v @ [39]"

definition ContextKeyEqualsExpr_negate ::
    "constants \<Rightarrow> js_string \<Rightarrow> js_prim \<Rightarrow> ContextKeyExpression option \<Rightarrow> ContextKeyExpression" where
  "ContextKeyEqualsExpr_negate cs key v negated =
     (case negated of Some n \<Rightarrow> n | None \<Rightarrow> ContextKeyNotEqualsExpr_create cs key v (Some (EqualsExpr key v negated)))"

definition ContextKeyNotEqualsExpr_cmp :: "js_string \<Rightarrow> js_prim \<Rightarrow> ContextKeyExpression \<Rightarrow> int" where
  "ContextKeyNotEqualsExpr_cmp key v other =
     (case other of NotEqualsExpr key2 v2 n \<Rightarrow> cmp2 key v key2 v2 | _ \<Rightarrow> 5 - ContextKeyExprType other)"

definition ContextKeyNotEqualsExpr_equals :: "js_string \<Rightarrow> js_prim \<Rightarrow> ContextKeyExpression \<Rightarrow> bool" where
  "ContextKeyNotEqualsExpr_equals key v other = (case other of NotEqualsExpr key2 v2 n \<Rightarrow> key = key2 \<and> strict_eq v v2 | _ \<Rightarrow> False)"

definition ContextKeyNotEqualsExpr_substituteConstants ::
    "constants \<Rightarrow> js_string \<Rightarrow> js_prim \<Rightarrow> ContextKeyExpression option \<Rightarrow> ContextKeyExpression" where
  "ContextKeyNotEqualsExpr_substituteConstants cs key v negated =
     (case cs key of
        Some c \<Rightarrow> if strict_eq v (PStr (if c then lit ''true'' else lit ''false'')) then FalseExpr else TrueExpr
      | None \<Rightarrow> NotEqualsExpr key v negated)"

definition ContextKeyNotEqualsExpr_evaluate :: "js_lib \<Rightarrow> ck_context \<Rightarrow> js_string \<Rightarrow> js_prim \<Rightarrow> bool" where
  "ContextKeyNotEqualsExpr_evaluate lib ctx key v = (\<not> loose_eq lib (ctx key) v)"

definition ContextKeyNotEqualsExpr_serialize :: "js_lib \<Rightarrow> js_string \<Rightarrow> js_prim \<Rightarrow> js_string" where
  "ContextKeyNotEqualsExpr_serialize lib key v = key @ lit '' != '' @ [39] @ prim_toString lib v @ [39]"

definition ContextKeyNotEqualsExpr_negate ::
    "constants \<Rightarrow> js_string \<Rightarrow> js_prim \<Rightarrow> ContextKeyExpression option \<Rightarrow> ContextKeyExpression" where
  "ContextKeyNotEqualsExpr_negate cs key v negated =
     (case negated of Some n \<Rightarrow> n | None \<Rightarrow> ContextKeyEqualsExpr_create cs key v (Some (NotEqualsExpr key v negated)))"

section \<open>ContextKeyInExpr and ContextKeyNotInExpr\<close>

definition ContextKeyInExpr_create :: "js_string \<Rightarrow> js_string \<Rightarrow> ContextKeyExpression" where
  "ContextKeyInExpr_create key valueKey = InExpr key valueKey"

definition ContextKeyNotInExpr_create :: "js_string \<Rightarrow> js_string \<Rightarrow> ContextKeyExpression" where
  "ContextKeyNotInExpr_create key valueKey = NotInExpr key valueKey"

definition ContextKeyInExpr_cmp :: "js_string \<Rightarrow> js_string \<Rightarrow> ContextKeyExpression \<Rightarrow> int" where
  "ContextKeyInExpr_cmp key valueKey other =
     (case other of InExpr key2 valueKey2 \<Rightarrow> cmp2 key (PStr valueKey) key2 (PStr valueKey2) | _ \<Rightarrow> 10 - ContextKeyExprType other)"

definition ContextKeyInExpr_equals :: "js_string \<Rightarrow> js_string \<Rightarrow> ContextKeyExpression \<Rightarrow> bool" where
  "ContextKeyInExpr_equals key valueKey other = (case other of InExpr key2 valueKey2 \<Rightarrow> key = key2 \<and> valueKey = valueKey2 | _ \<Rightarrow> False)"

text \<open>The elements of an array are primitive, so an array or object is never among them.\<close>

definition ContextKeyInExpr_evaluate :: "ck_context \<Rightarrow> js_string \<Rightarrow> js_string \<Rightarrow> bool" where
  "ContextKeyInExpr_evaluate ctx key valueKey =
     (let source = ctx valueKey; item = ctx key
      in case source of
           Arr ps \<Rightarrow> (case item of Prim p \<Rightarrow> list_ex (same_value_zero p) ps | _ \<Rightarrow> False)
         | Obj fs \<Rightarrow> (case item of Prim (PStr s) \<Rightarrow> list_ex (\<lambda>f. fst f = s) fs | _ \<Rightarrow> False)
         | Prim p \<Rightarrow> False)"

definition ContextKeyInExpr_serialize :: "js_string \<Rightarrow> js_string \<Rightarrow> js_string" where
  "ContextKeyInExpr_serialize key valueKey = key @ lit '' in '' @ [39] @ valueKey @ [39]"

definition ContextKeyInExpr_keys :: "js_string \<Rightarrow> js_string \<Rightarrow> js_string list" where
  "ContextKeyInExpr_keys key valueKey = [key, valueKey]"

definition ContextKeyInExpr_negate :: "js_string \<Rightarrow> js_string \<Rightarrow> ContextKeyExpression" where
  "ContextKeyInExpr_negate key valueKey = ContextKeyNotInExpr_create key valueKey"

definition ContextKeyNotInExpr_cmp :: "js_string \<Rightarrow> js_string \<Rightarrow> ContextKeyExpression \<Rightarrow> int" where
  "ContextKeyNotInExpr_cmp key valueKey other =
     (case other of
        NotInExpr key2 valueKey2 \<Rightarrow> ContextKeyInExpr_cmp key valueKey (InExpr key2 valueKey2)
      | _ \<Rightarrow> 11 - ContextKeyExprType other)"

definition ContextKeyNotInExpr_equals :: "js_string \<Rightarrow> js_string \<Rightarrow> ContextKeyExpression \<Rightarrow> bool" where
  "ContextKeyNotInExpr_equals key valueKey other =
     (case other of NotInExpr key2 valueKey2 \<Rightarrow> ContextKeyInExpr_equals key valueKey (InExpr key2 valueKey2) | _ \<Rightarrow> False)"

definition ContextKeyNotInExpr_evaluate :: "ck_context \<Rightarrow> js_string \<Rightarrow> js_string \<Rightarrow> bool" where
  "ContextKeyNotInExpr_evaluate ctx key valueKey \<longleftrightarrow> \<not> ContextKeyInExpr_evaluate ctx key valueKey"

definition ContextKeyNotInExpr_serialize :: "js_string \<Rightarrow> js_string \<Rightarrow> js_string" where
  "ContextKeyNotInExpr_serialize key valueKey = key @ lit '' not in '' @ [39] @ valueKey @ [39]"

definition ContextKeyNotInExpr_negate :: "js_string \<Rightarrow> js_string \<Rightarrow> ContextKeyExpression" where
  "ContextKeyNotInExpr_negate key valueKey = InExpr key valueKey"

section \<open>The numeric comparisons\<close>

definition withFloatOrStr :: "js_prim \<Rightarrow> (js_prim \<Rightarrow> ContextKeyExpression) \<Rightarrow> ContextKeyExpression" where
  "withFloatOrStr v0 callback =
     (let v = (case v0 of PStr s \<Rightarrow> (let n = js_parseFloat s in if n \<noteq> NaN then PNum n else v0) | _ \<Rightarrow> v0)
      in case v of PStr s \<Rightarrow> callback v | PNum n \<Rightarrow> callback v | _ \<Rightarrow> FalseExpr)"

definition ContextKeyGreaterExpr_create ::
    "js_string \<Rightarrow> js_prim \<Rightarrow> ContextKeyExpression option \<Rightarrow> ContextKeyExpression" where
  "ContextKeyGreaterExpr_create key v0 negated = withFloatOrStr v0 (\<lambda>v. GreaterExpr key v negated)"

definition ContextKeyGreaterEqualsExpr_create ::
    "js_string \<Rightarrow> js_prim \<Rightarrow> ContextKeyExpression option \<Rightarrow> ContextKeyExpression" where
  "ContextKeyGreaterEqualsExpr_create key v0 negated = withFloatOrStr v0 (\<lambda>v. GreaterEqualsExpr key v negated)"

definition ContextKeySmallerExpr_create ::
    "js_string \<Rightarrow> js_prim \<Rightarrow> ContextKeyExpression option \<Rightarrow> ContextKeyExpression" where
  "ContextKeySmallerExpr_create key v0 negated = withFloatOrStr v0 (\<lambda>v. SmallerExpr key v negated)"

definition ContextKeySmallerEqualsExpr_create ::
    "js_string \<Rightarrow> js_prim \<Rightarrow> ContextKeyExpression option \<Rightarrow> ContextKeyExpression" where
  "ContextKeySmallerEqualsExpr_create key v0 negated = withFloatOrStr v0 (\<lambda>v. SmallerEqualsExpr key v negated)"

definition ContextKeyGreaterExpr_cmp :: "js_string \<Rightarrow> js_prim \<Rightarrow> ContextKeyExpression \<Rightarrow> int" where
  "ContextKeyGreaterExpr_cmp key v other =
     (case other of GreaterExpr key2 v2 n \<Rightarrow> cmp2 key v key2 v2 | _ \<Rightarrow> 12 - ContextKeyExprType other)"

definition ContextKeyGreaterExpr_equals :: "js_string \<Rightarrow> js_prim \<Rightarrow> ContextKeyExpression \<Rightarrow> bool" where
  "ContextKeyGreaterExpr_equals key v other = (case other of GreaterExpr key2 v2 n \<Rightarrow> key = key2 \<and> strict_eq v v2 | _ \<Rightarrow> False)"

definition ContextKeyGreaterExpr_evaluate :: "js_lib \<Rightarrow> ck_context \<Rightarrow> js_string \<Rightarrow> js_prim \<Rightarrow> bool" where
  "ContextKeyGreaterExpr_evaluate lib ctx key v = (case v of PNum n \<Rightarrow> number_less n (value_parseFloat lib (ctx key)) | _ \<Rightarrow> False)"

definition ContextKeyGreaterExpr_serialize :: "js_lib \<Rightarrow> js_string \<Rightarrow> js_prim \<Rightarrow> js_string" where
  "ContextKeyGreaterExpr_serialize lib key v = key @ lit '' > '' @ prim_toString lib v"

definition ContextKeyGreaterExpr_negate :: "js_string \<Rightarrow> js_prim \<Rightarrow> ContextKeyExpression option \<Rightarrow> ContextKeyExpression" where
  "ContextKeyGreaterExpr_negate key v negated =
     (case negated of Some n \<Rightarrow> n | None \<Rightarrow> ContextKeySmallerEqualsExpr_create key v (Some (GreaterExpr key v negated)))"

definition ContextKeyGreaterEqualsExpr_cmp :: "js_string \<Rightarrow> js_prim \<Rightarrow> ContextKeyExpression \<Rightarrow> int" where
  "ContextKeyGreaterEqualsExpr_cmp key v other =
     (case other of GreaterEqualsExpr key2 v2 n \<Rightarrow> cmp2 key v key2 v2 | _ \<Rightarrow> 13 - ContextKeyExprType other)"

definition ContextKeyGreaterEqualsExpr_equals :: "js_string \<Rightarrow> js_prim \<Rightarrow> ContextKeyExpression \<Rightarrow> bool" where
  "ContextKeyGreaterEqualsExpr_equals key v other = (case other of GreaterEqualsExpr key2 v2 n \<Rightarrow> key = key2 \<and> strict_eq v v2 | _ \<Rightarrow> False)"

definition ContextKeyGreaterEqualsExpr_evaluate :: "js_lib \<Rightarrow> ck_context \<Rightarrow> js_string \<Rightarrow> js_prim \<Rightarrow> bool" where
  "ContextKeyGreaterEqualsExpr_evaluate lib ctx key v = (case v of PNum n \<Rightarrow> number_leq n (value_parseFloat lib (ctx key)) | _ \<Rightarrow> False)"

definition ContextKeyGreaterEqualsExpr_serialize :: "js_lib \<Rightarrow> js_string \<Rightarrow> js_prim \<Rightarrow> js_string" where
  "ContextKeyGreaterEqualsExpr_serialize lib key v = key @ lit '' >= '' @ prim_toString lib v"

definition ContextKeyGreaterEqualsExpr_negate :: "js_string \<Rightarrow> js_prim \<Rightarrow> ContextKeyExpression option \<Rightarrow> ContextKeyExpression" where
  "ContextKeyGreaterEqualsExpr_negate key v negated =
     (case negated of Some n \<Rightarrow> n | None \<Rightarrow> ContextKeySmallerExpr_create key v (Some (GreaterEqualsExpr key v negated)))"

definition ContextKeySmallerExpr_cmp :: "js_string \<Rightarrow> js_prim \<Rightarrow> ContextKeyExpression \<Rightarrow> int" where
  "ContextKeySmallerExpr_cmp key v other =
     (case other of SmallerExpr key2 v2 n \<Rightarrow> cmp2 key v key2 v2 | _ \<Rightarrow> 14 - ContextKeyExprType other)"

definition ContextKeySmallerExpr_equals :: "js_string \<Rightarrow> js_prim \<Rightarrow> ContextKeyExpression \<Rightarrow> bool" where
  "ContextKeySmallerExpr_equals key v other = (case other of SmallerExpr key2 v2 n \<Rightarrow> key = key2 \<and> strict_eq v v2 | _ \<Rightarrow> False)"

definition ContextKeySmallerExpr_evaluate :: "js_lib \<Rightarrow> ck_context \<Rightarrow> js_string \<Rightarrow> js_prim \<Rightarrow> bool" where
  "ContextKeySmallerExpr_evaluate lib ctx key v = (case v of PNum n \<Rightarrow> number_less (value_parseFloat lib (ctx key)) n | _ \<Rightarrow> False)"

definition ContextKeySmallerExpr_serialize :: "js_lib \<Rightarrow> js_string \<Rightarrow> js_prim \<Rightarrow> js_string" where
  "ContextKeySmallerExpr_serialize lib key v = key @ lit '' < '' @ prim_toString lib v"

definition ContextKeySmallerExpr_negate :: "js_string \<Rightarrow> js_prim \<Rightarrow> ContextKeyExpression option \<Rightarrow> ContextKeyExpression" where
  "ContextKeySmallerExpr_negate key v negated =
     (case negated of Some n \<Rightarrow> n | None \<Rightarrow> ContextKeyGreaterEqualsExpr_create key v (Some (SmallerExpr key v negated)))"

definition ContextKeySmallerEqualsExpr_cmp :: "js_string \<Rightarrow> js_prim \<Rightarrow> ContextKeyExpression \<Rightarrow> int" where
  "ContextKeySmallerEqualsExpr_cmp key v other =
     (case other of SmallerEqualsExpr key2 v2 n \<Rightarrow> cmp2 key v key2 v2 | _ \<Rightarrow> 15 - ContextKeyExprType other)"

definition ContextKeySmallerEqualsExpr_equals :: "js_string \<Rightarrow> js_prim \<Rightarrow> ContextKeyExpression \<Rightarrow> bool" where
  "ContextKeySmallerEqualsExpr_equals key v other = (case other of SmallerEqualsExpr key2 v2 n \<Rightarrow> key = key2 \<and> strict_eq v v2 | _ \<Rightarrow> False)"

definition ContextKeySmallerEqualsExpr_evaluate :: "js_lib \<Rightarrow> ck_context \<Rightarrow> js_string \<Rightarrow> js_prim \<Rightarrow> bool" where
  "ContextKeySmallerEqualsExpr_evaluate lib ctx key v = (case v of PNum n \<Rightarrow> number_leq (value_parseFloat lib (ctx key)) n | _ \<Rightarrow> False)"

definition ContextKeySmallerEqualsExpr_serialize :: "js_lib \<Rightarrow> js_string \<Rightarrow> js_prim \<Rightarrow> js_string" where
  "ContextKeySmallerEqualsExpr_serialize lib key v = key @ lit '' <= '' @ prim_toString lib v"

definition ContextKeySmallerEqualsExpr_negate :: "js_string \<Rightarrow> js_prim \<Rightarrow> ContextKeyExpression option \<Rightarrow> ContextKeyExpression" where
  "ContextKeySmallerEqualsExpr_negate key v negated =
     (case negated of Some n \<Rightarrow> n | None \<Rightarrow> ContextKeyGreaterExpr_create key v (Some (SmallerEqualsExpr key v negated)))"

section \<open>ContextKeyRegexExpr and ContextKeyNotRegexExpr\<close>

definition ContextKeyRegexExpr_create :: "js_string \<Rightarrow> RegExp option \<Rightarrow> ContextKeyExpression" where
  "ContextKeyRegexExpr_create key regexp = RegexExpr key regexp"

definition regexp_source :: "RegExp option \<Rightarrow> js_string" where
  "regexp_source r = (case r of None \<Rightarrow> [] | Some x \<Rightarrow> re_source x)"

definition ContextKeyRegexExpr_cmp :: "js_string \<Rightarrow> RegExp option \<Rightarrow> ContextKeyExpression \<Rightarrow> int" where
  "ContextKeyRegexExpr_cmp key regexp other =
     (case other of
        RegexExpr key2 regexp2 \<Rightarrow>
          (if js_string_less key key2 then - 1
           else if js_string_less key2 key then 1
           else if js_string_less (regexp_source regexp) (regexp_source regexp2) then - 1
           else if js_string_less (regexp_source regexp2) (regexp_source regexp) then 1
           else 0)
      | _ \<Rightarrow> 7 - ContextKeyExprType other)"

definition ContextKeyRegexExpr_equals :: "js_string \<Rightarrow> RegExp option \<Rightarrow> ContextKeyExpression \<Rightarrow> bool" where
  "ContextKeyRegexExpr_equals key regexp other =
     (case other of
        RegexExpr key2 regexp2 \<Rightarrow> key = key2 \<and> regexp_source regexp = regexp_source regexp2
      | _ \<Rightarrow> False)"

definition ContextKeyRegexExpr_evaluate :: "js_lib \<Rightarrow> ck_context \<Rightarrow> js_string \<Rightarrow> RegExp option \<Rightarrow> bool" where
  "ContextKeyRegexExpr_evaluate lib ctx key regexp =
     (case regexp of None \<Rightarrow> False | Some r \<Rightarrow> regex_test lib r (value_toString lib (ctx key)))"

definition ContextKeyRegexExpr_serialize :: "js_string \<Rightarrow> RegExp option \<Rightarrow> js_string" where
  "ContextKeyRegexExpr_serialize key regexp =
     key @ lit '' =~ '' @ (case regexp of None \<Rightarrow> lit ''/invalid/'' | Some r \<Rightarrow> lit ''/'' @ re_source r @ lit ''/'' @ re_flags r)"

definition ContextKeyNotRegexExpr_create :: "js_string \<Rightarrow> RegExp option \<Rightarrow> ContextKeyExpression" where
  "ContextKeyNotRegexExpr_create key regexp = NotRegexExpr key regexp"

definition ContextKeyRegexExpr_negate :: "js_string \<Rightarrow> RegExp option \<Rightarrow> ContextKeyExpression" where
  "ContextKeyRegexExpr_negate key regexp = ContextKeyNotRegexExpr_create key regexp"

definition ContextKeyNotRegexExpr_cmp :: "js_string \<Rightarrow> RegExp option \<Rightarrow> ContextKeyExpression \<Rightarrow> int" where
  "ContextKeyNotRegexExpr_cmp key regexp other =
     (case other of
        NotRegexExpr key2 regexp2 \<Rightarrow> ContextKeyRegexExpr_cmp key regexp (RegexExpr key2 regexp2)
      | _ \<Rightarrow> 8 - ContextKeyExprType other)"

definition ContextKeyNotRegexExpr_equals :: "js_string \<Rightarrow> RegExp option \<Rightarrow> ContextKeyExpression \<Rightarrow> bool" where
  "ContextKeyNotRegexExpr_equals key regexp other =
     (case other of NotRegexExpr key2 regexp2 \<Rightarrow> ContextKeyRegexExpr_equals key regexp (RegexExpr key2 regexp2) | _ \<Rightarrow> False)"

definition ContextKeyNotRegexExpr_evaluate :: "js_lib \<Rightarrow> ck_context \<Rightarrow> js_string \<Rightarrow> RegExp option \<Rightarrow> bool" where
  "ContextKeyNotRegexExpr_evaluate lib ctx key regexp \<longleftrightarrow> \<not> ContextKeyRegexExpr_evaluate lib ctx key regexp"

definition ContextKeyNotRegexExpr_serialize :: "js_string \<Rightarrow> RegExp option \<Rightarrow> js_string" where
  "ContextKeyNotRegexExpr_serialize key regexp = lit ''!('' @ ContextKeyRegexExpr_serialize key regexp @ lit '')''"

definition ContextKeyNotRegexExpr_negate :: "js_string \<Rightarrow> RegExp option \<Rightarrow> ContextKeyExpression" where
  "ContextKeyNotRegexExpr_negate key regexp = RegexExpr key regexp"

section \<open>Operations on expressions\<close>

text \<open>The loops of \<^verbatim>\<open>cmp\<close> and \<^verbatim>\<open>equals\<close> over two arrays of the same length.\<close>

fun cmp_arrays :: "('a \<Rightarrow> 'a \<Rightarrow> int) \<Rightarrow> 'a list \<Rightarrow> 'a list \<Rightarrow> int" where
  "cmp_arrays f (a # as) (b # bs) = (let r = f a b in if r \<noteq> 0 then r else cmp_arrays f as bs)"
| "cmp_arrays f _ _ = 0"

lemma cmp_arrays_cong [fundef_cong]:
  assumes "as = as'" "bs = bs'" "\<And>a b. a \<in> set as' \<Longrightarrow> b \<in> set bs' \<Longrightarrow> f a b = g a b"
  shows "cmp_arrays f as bs = cmp_arrays g as' bs'"
proof -
  have "(\<And>a b. a \<in> set xs \<Longrightarrow> b \<in> set ys \<Longrightarrow> f a b = g a b) \<Longrightarrow> cmp_arrays f xs ys = cmp_arrays g xs ys" for xs ys
    by (induction xs ys rule: list_induct2') (auto simp: Let_def)
  then show ?thesis using assms by auto
qed

definition ContextKeyAndExpr_cmp ::
    "(ContextKeyExpression \<Rightarrow> ContextKeyExpression \<Rightarrow> int) \<Rightarrow> ContextKeyExpression list \<Rightarrow> ContextKeyExpression \<Rightarrow> int" where
  "ContextKeyAndExpr_cmp cmp es other =
     (case other of
        AndExpr fs n \<Rightarrow>
          (if length es < length fs then - 1 else if length es > length fs then 1 else cmp_arrays cmp es fs)
      | _ \<Rightarrow> 6 - ContextKeyExprType other)"

definition ContextKeyOrExpr_cmp ::
    "(ContextKeyExpression \<Rightarrow> ContextKeyExpression \<Rightarrow> int) \<Rightarrow> ContextKeyExpression list \<Rightarrow> ContextKeyExpression \<Rightarrow> int" where
  "ContextKeyOrExpr_cmp cmp es other =
     (case other of
        OrExpr fs n \<Rightarrow>
          (if length es < length fs then - 1 else if length es > length fs then 1 else cmp_arrays cmp es fs)
      | _ \<Rightarrow> 9 - ContextKeyExprType other)"

definition ContextKeyAndExpr_equals ::
    "(ContextKeyExpression \<Rightarrow> ContextKeyExpression \<Rightarrow> bool) \<Rightarrow> ContextKeyExpression list \<Rightarrow> ContextKeyExpression \<Rightarrow> bool" where
  "ContextKeyAndExpr_equals eq es other =
     (case other of
        AndExpr fs n \<Rightarrow> if length es \<noteq> length fs then False else list_all2 eq es fs
      | _ \<Rightarrow> False)"

definition ContextKeyOrExpr_equals ::
    "(ContextKeyExpression \<Rightarrow> ContextKeyExpression \<Rightarrow> bool) \<Rightarrow> ContextKeyExpression list \<Rightarrow> ContextKeyExpression \<Rightarrow> bool" where
  "ContextKeyOrExpr_equals eq es other =
     (case other of
        OrExpr fs n \<Rightarrow> if length es \<noteq> length fs then False else list_all2 eq es fs
      | _ \<Rightarrow> False)"

lemma AndOr_cmp_cong [fundef_cong]:
  assumes "es = es'" "other = other'" "\<And>a b. a \<in> set es' \<Longrightarrow> f a b = g a b"
  shows "ContextKeyAndExpr_cmp f es other = ContextKeyAndExpr_cmp g es' other'"
    and "ContextKeyOrExpr_cmp f es other = ContextKeyOrExpr_cmp g es' other'"
  using assms by (auto simp: ContextKeyAndExpr_cmp_def ContextKeyOrExpr_cmp_def intro!: cmp_arrays_cong
      split: ContextKeyExpression.split)

lemma AndOr_equals_cong [fundef_cong]:
  assumes "es = es'" "other = other'" "\<And>a b. a \<in> set es' \<Longrightarrow> f a b = g a b"
  shows "ContextKeyAndExpr_equals f es other = ContextKeyAndExpr_equals g es' other'"
    and "ContextKeyOrExpr_equals f es other = ContextKeyOrExpr_equals g es' other'"
  using assms by (auto simp: ContextKeyAndExpr_equals_def ContextKeyOrExpr_equals_def list_all2_conv_all_nth
      split: ContextKeyExpression.split)

fun ck_cmp :: "ContextKeyExpression \<Rightarrow> ContextKeyExpression \<Rightarrow> int" where
  "ck_cmp FalseExpr other = ContextKeyFalseExpr_cmp other"
| "ck_cmp TrueExpr other = ContextKeyTrueExpr_cmp other"
| "ck_cmp (DefinedExpr k n) other = ContextKeyDefinedExpr_cmp k other"
| "ck_cmp (NotExpr k n) other = ContextKeyNotExpr_cmp k other"
| "ck_cmp (EqualsExpr k v n) other = ContextKeyEqualsExpr_cmp k v other"
| "ck_cmp (NotEqualsExpr k v n) other = ContextKeyNotEqualsExpr_cmp k v other"
| "ck_cmp (AndExpr es n) other = ContextKeyAndExpr_cmp ck_cmp es other"
| "ck_cmp (RegexExpr k r) other = ContextKeyRegexExpr_cmp k r other"
| "ck_cmp (NotRegexExpr k r) other = ContextKeyNotRegexExpr_cmp k r other"
| "ck_cmp (OrExpr es n) other = ContextKeyOrExpr_cmp ck_cmp es other"
| "ck_cmp (InExpr k vk) other = ContextKeyInExpr_cmp k vk other"
| "ck_cmp (NotInExpr k vk) other = ContextKeyNotInExpr_cmp k vk other"
| "ck_cmp (GreaterExpr k v n) other = ContextKeyGreaterExpr_cmp k v other"
| "ck_cmp (GreaterEqualsExpr k v n) other = ContextKeyGreaterEqualsExpr_cmp k v other"
| "ck_cmp (SmallerExpr k v n) other = ContextKeySmallerExpr_cmp k v other"
| "ck_cmp (SmallerEqualsExpr k v n) other = ContextKeySmallerEqualsExpr_cmp k v other"

fun ck_equals :: "ContextKeyExpression \<Rightarrow> ContextKeyExpression \<Rightarrow> bool" where
  "ck_equals FalseExpr other = ContextKeyFalseExpr_equals other"
| "ck_equals TrueExpr other = ContextKeyTrueExpr_equals other"
| "ck_equals (DefinedExpr k n) other = ContextKeyDefinedExpr_equals k other"
| "ck_equals (NotExpr k n) other = ContextKeyNotExpr_equals k other"
| "ck_equals (EqualsExpr k v n) other = ContextKeyEqualsExpr_equals k v other"
| "ck_equals (NotEqualsExpr k v n) other = ContextKeyNotEqualsExpr_equals k v other"
| "ck_equals (AndExpr es n) other = ContextKeyAndExpr_equals ck_equals es other"
| "ck_equals (RegexExpr k r) other = ContextKeyRegexExpr_equals k r other"
| "ck_equals (NotRegexExpr k r) other = ContextKeyNotRegexExpr_equals k r other"
| "ck_equals (OrExpr es n) other = ContextKeyOrExpr_equals ck_equals es other"
| "ck_equals (InExpr k vk) other = ContextKeyInExpr_equals k vk other"
| "ck_equals (NotInExpr k vk) other = ContextKeyNotInExpr_equals k vk other"
| "ck_equals (GreaterExpr k v n) other = ContextKeyGreaterExpr_equals k v other"
| "ck_equals (GreaterEqualsExpr k v n) other = ContextKeyGreaterEqualsExpr_equals k v other"
| "ck_equals (SmallerExpr k v n) other = ContextKeySmallerExpr_equals k v other"
| "ck_equals (SmallerEqualsExpr k v n) other = ContextKeySmallerEqualsExpr_equals k v other"

definition ContextKeyAndExpr_evaluate :: "(ContextKeyExpression \<Rightarrow> bool) \<Rightarrow> ContextKeyExpression list \<Rightarrow> bool" where
  "ContextKeyAndExpr_evaluate ev es = list_all ev es"

definition ContextKeyOrExpr_evaluate :: "(ContextKeyExpression \<Rightarrow> bool) \<Rightarrow> ContextKeyExpression list \<Rightarrow> bool" where
  "ContextKeyOrExpr_evaluate ev es = list_ex ev es"

lemma AndOr_evaluate_cong [fundef_cong]:
  assumes "es = es'" "\<And>a. a \<in> set es' \<Longrightarrow> f a = g a"
  shows "ContextKeyAndExpr_evaluate f es = ContextKeyAndExpr_evaluate g es'"
    and "ContextKeyOrExpr_evaluate f es = ContextKeyOrExpr_evaluate g es'"
  using assms by (auto simp: ContextKeyAndExpr_evaluate_def ContextKeyOrExpr_evaluate_def list_all_iff list_ex_iff)

fun ck_evaluate :: "js_lib \<Rightarrow> ck_context \<Rightarrow> ContextKeyExpression \<Rightarrow> bool" where
  "ck_evaluate lib ctx FalseExpr = ContextKeyFalseExpr_evaluate ctx"
| "ck_evaluate lib ctx TrueExpr = ContextKeyTrueExpr_evaluate ctx"
| "ck_evaluate lib ctx (DefinedExpr k n) = ContextKeyDefinedExpr_evaluate ctx k"
| "ck_evaluate lib ctx (NotExpr k n) = ContextKeyNotExpr_evaluate ctx k"
| "ck_evaluate lib ctx (EqualsExpr k v n) = ContextKeyEqualsExpr_evaluate lib ctx k v"
| "ck_evaluate lib ctx (NotEqualsExpr k v n) = ContextKeyNotEqualsExpr_evaluate lib ctx k v"
| "ck_evaluate lib ctx (AndExpr es n) = ContextKeyAndExpr_evaluate (ck_evaluate lib ctx) es"
| "ck_evaluate lib ctx (RegexExpr k r) = ContextKeyRegexExpr_evaluate lib ctx k r"
| "ck_evaluate lib ctx (NotRegexExpr k r) = ContextKeyNotRegexExpr_evaluate lib ctx k r"
| "ck_evaluate lib ctx (OrExpr es n) = ContextKeyOrExpr_evaluate (ck_evaluate lib ctx) es"
| "ck_evaluate lib ctx (InExpr k vk) = ContextKeyInExpr_evaluate ctx k vk"
| "ck_evaluate lib ctx (NotInExpr k vk) = ContextKeyNotInExpr_evaluate ctx k vk"
| "ck_evaluate lib ctx (GreaterExpr k v n) = ContextKeyGreaterExpr_evaluate lib ctx k v"
| "ck_evaluate lib ctx (GreaterEqualsExpr k v n) = ContextKeyGreaterEqualsExpr_evaluate lib ctx k v"
| "ck_evaluate lib ctx (SmallerExpr k v n) = ContextKeySmallerExpr_evaluate lib ctx k v"
| "ck_evaluate lib ctx (SmallerEqualsExpr k v n) = ContextKeySmallerEqualsExpr_evaluate lib ctx k v"

definition ContextKeyAndExpr_serialize :: "(ContextKeyExpression \<Rightarrow> js_string) \<Rightarrow> ContextKeyExpression list \<Rightarrow> js_string" where
  "ContextKeyAndExpr_serialize ser es = join_with (lit '' && '') (map ser es)"

definition ContextKeyOrExpr_serialize :: "(ContextKeyExpression \<Rightarrow> js_string) \<Rightarrow> ContextKeyExpression list \<Rightarrow> js_string" where
  "ContextKeyOrExpr_serialize ser es = join_with (lit '' || '') (map ser es)"

definition ContextKeyAndExpr_keys :: "(ContextKeyExpression \<Rightarrow> js_string list) \<Rightarrow> ContextKeyExpression list \<Rightarrow> js_string list" where
  "ContextKeyAndExpr_keys ks es = concat (map ks es)"

definition ContextKeyOrExpr_keys :: "(ContextKeyExpression \<Rightarrow> js_string list) \<Rightarrow> ContextKeyExpression list \<Rightarrow> js_string list" where
  "ContextKeyOrExpr_keys ks es = concat (map ks es)"

lemma AndOr_map_cong [fundef_cong]:
  assumes "es = es'" "\<And>a. a \<in> set es' \<Longrightarrow> f a = g a"
  shows "ContextKeyAndExpr_serialize f es = ContextKeyAndExpr_serialize g es'"
    and "ContextKeyOrExpr_serialize f es = ContextKeyOrExpr_serialize g es'"
  using assms by (auto simp: ContextKeyAndExpr_serialize_def ContextKeyOrExpr_serialize_def intro!: arg_cong [where f = "join_with _"])

lemma AndOr_keys_cong [fundef_cong]:
  assumes "es = es'" "\<And>a. a \<in> set es' \<Longrightarrow> f a = g a"
  shows "ContextKeyAndExpr_keys f es = ContextKeyAndExpr_keys g es'"
    and "ContextKeyOrExpr_keys f es = ContextKeyOrExpr_keys g es'"
  using assms by (auto simp: ContextKeyAndExpr_keys_def ContextKeyOrExpr_keys_def intro!: arg_cong [where f = concat])

fun ck_serialize :: "js_lib \<Rightarrow> ContextKeyExpression \<Rightarrow> js_string" where
  "ck_serialize lib FalseExpr = ContextKeyFalseExpr_serialize"
| "ck_serialize lib TrueExpr = ContextKeyTrueExpr_serialize"
| "ck_serialize lib (DefinedExpr k n) = ContextKeyDefinedExpr_serialize k"
| "ck_serialize lib (NotExpr k n) = ContextKeyNotExpr_serialize k"
| "ck_serialize lib (EqualsExpr k v n) = ContextKeyEqualsExpr_serialize lib k v"
| "ck_serialize lib (NotEqualsExpr k v n) = ContextKeyNotEqualsExpr_serialize lib k v"
| "ck_serialize lib (AndExpr es n) = ContextKeyAndExpr_serialize (ck_serialize lib) es"
| "ck_serialize lib (RegexExpr k r) = ContextKeyRegexExpr_serialize k r"
| "ck_serialize lib (NotRegexExpr k r) = ContextKeyNotRegexExpr_serialize k r"
| "ck_serialize lib (OrExpr es n) = ContextKeyOrExpr_serialize (ck_serialize lib) es"
| "ck_serialize lib (InExpr k vk) = ContextKeyInExpr_serialize k vk"
| "ck_serialize lib (NotInExpr k vk) = ContextKeyNotInExpr_serialize k vk"
| "ck_serialize lib (GreaterExpr k v n) = ContextKeyGreaterExpr_serialize lib k v"
| "ck_serialize lib (GreaterEqualsExpr k v n) = ContextKeyGreaterEqualsExpr_serialize lib k v"
| "ck_serialize lib (SmallerExpr k v n) = ContextKeySmallerExpr_serialize lib k v"
| "ck_serialize lib (SmallerEqualsExpr k v n) = ContextKeySmallerEqualsExpr_serialize lib k v"

fun ck_keys :: "ContextKeyExpression \<Rightarrow> js_string list" where
  "ck_keys FalseExpr = []"
| "ck_keys TrueExpr = []"
| "ck_keys (AndExpr es n) = ContextKeyAndExpr_keys ck_keys es"
| "ck_keys (OrExpr es n) = ContextKeyOrExpr_keys ck_keys es"
| "ck_keys (InExpr k vk) = ContextKeyInExpr_keys k vk"
| "ck_keys (NotInExpr k vk) = ContextKeyInExpr_keys k vk"
| "ck_keys (DefinedExpr k n) = [k]"
| "ck_keys (NotExpr k n) = [k]"
| "ck_keys (EqualsExpr k v n) = [k]"
| "ck_keys (NotEqualsExpr k v n) = [k]"
| "ck_keys (RegexExpr k r) = [k]"
| "ck_keys (NotRegexExpr k r) = [k]"
| "ck_keys (GreaterExpr k v n) = [k]"
| "ck_keys (GreaterEqualsExpr k v n) = [k]"
| "ck_keys (SmallerExpr k v n) = [k]"
| "ck_keys (SmallerEqualsExpr k v n) = [k]"

text \<open>\<^verbatim>\<open>map\<close>; \<^verbatim>\<open>mapRegex\<close> returns a regular expression node, given by its key and expression.\<close>

record IContextKeyExprMapper =
  mapDefined :: "js_string \<Rightarrow> ContextKeyExpression"
  mapNot :: "js_string \<Rightarrow> ContextKeyExpression"
  mapEquals :: "js_string \<Rightarrow> js_prim \<Rightarrow> ContextKeyExpression"
  mapNotEquals :: "js_string \<Rightarrow> js_prim \<Rightarrow> ContextKeyExpression"
  mapGreater :: "js_string \<Rightarrow> js_prim \<Rightarrow> ContextKeyExpression"
  mapGreaterEquals :: "js_string \<Rightarrow> js_prim \<Rightarrow> ContextKeyExpression"
  mapSmaller :: "js_string \<Rightarrow> js_prim \<Rightarrow> ContextKeyExpression"
  mapSmallerEquals :: "js_string \<Rightarrow> js_prim \<Rightarrow> ContextKeyExpression"
  mapRegex :: "js_string \<Rightarrow> RegExp option \<Rightarrow> js_string \<times> RegExp option"
  mapIn :: "js_string \<Rightarrow> js_string \<Rightarrow> ContextKeyExpression"
  mapNotIn :: "js_string \<Rightarrow> js_string \<Rightarrow> ContextKeyExpression"

fun ck_map :: "IContextKeyExprMapper \<Rightarrow> ContextKeyExpression \<Rightarrow> ContextKeyExpression" where
  "ck_map f FalseExpr = FalseExpr"
| "ck_map f TrueExpr = TrueExpr"
| "ck_map f (DefinedExpr k n) = mapDefined f k"
| "ck_map f (NotExpr k n) = mapNot f k"
| "ck_map f (EqualsExpr k v n) = mapEquals f k v"
| "ck_map f (NotEqualsExpr k v n) = mapNotEquals f k v"
| "ck_map f (AndExpr es n) = AndExpr (map (ck_map f) es) None"
| "ck_map f (RegexExpr k r) = (case mapRegex f k r of (k', r') \<Rightarrow> RegexExpr k' r')"
| "ck_map f (NotRegexExpr k r) = (case mapRegex f k r of (k', r') \<Rightarrow> NotRegexExpr k' r')"
| "ck_map f (OrExpr es n) = OrExpr (map (ck_map f) es) None"
| "ck_map f (InExpr k vk) = mapIn f k vk"
| "ck_map f (NotInExpr k vk) = mapNotIn f k vk"
| "ck_map f (GreaterExpr k v n) = mapGreater f k v"
| "ck_map f (GreaterEqualsExpr k v n) = mapGreaterEquals f k v"
| "ck_map f (SmallerExpr k v n) = mapSmaller f k v"
| "ck_map f (SmallerEqualsExpr k v n) = mapSmallerEquals f k v"

section \<open>Normal forms\<close>

text \<open>\<^verbatim>\<open>expr.sort(cmp)\<close>: a stable sort.\<close>

fun insert_by :: "('a \<Rightarrow> 'a \<Rightarrow> int) \<Rightarrow> 'a \<Rightarrow> 'a list \<Rightarrow> 'a list" where
  "insert_by cmp x [] = [x]"
| "insert_by cmp x (y # ys) = (if cmp x y \<le> 0 then x # y # ys else y # insert_by cmp x ys)"

definition sort_by :: "('a \<Rightarrow> 'a \<Rightarrow> int) \<Rightarrow> 'a list \<Rightarrow> 'a list" where
  "sort_by cmp xs = foldr (insert_by cmp) xs []"

lemma length_insert_by [simp]: "length (insert_by cmp x ys) = Suc (length ys)"
  by (induction ys) auto

lemma length_sort_by [simp]: "length (sort_by cmp xs) = length xs"
  by (induction xs) (auto simp: sort_by_def)

text \<open>The loop that removes an element equal to the one before it.\<close>

fun eliminate_duplicates :: "ContextKeyExpression list \<Rightarrow> ContextKeyExpression list" where
  "eliminate_duplicates (x # y # ys) =
     (if ck_equals x y then eliminate_duplicates (x # ys) else x # eliminate_duplicates (y # ys))"
| "eliminate_duplicates xs = xs"

text \<open>
  The first loop of \<^verbatim>\<open>_normalizeArr\<close>: \<open>None\<close> is the early return of the absorbing constant, and the flag is
  \<^verbatim>\<open>hasTrue\<close>, respectively \<^verbatim>\<open>hasFalse\<close>.  An element that is \<^verbatim>\<open>null\<close> or \<^verbatim>\<open>undefined\<close> is \<open>None\<close>.
\<close>

fun and_flatten :: "ContextKeyExpression option list \<Rightarrow> ContextKeyExpression list \<Rightarrow> bool
    \<Rightarrow> (ContextKeyExpression list \<times> bool) option" where
  "and_flatten [] es hasTrue = Some (es, hasTrue)"
| "and_flatten (None # arr) es hasTrue = and_flatten arr es hasTrue"
| "and_flatten (Some e # arr) es hasTrue =
     (case e of
        TrueExpr \<Rightarrow> and_flatten arr es True
      | FalseExpr \<Rightarrow> None
      | AndExpr fs n \<Rightarrow> and_flatten arr (es @ fs) hasTrue
      | _ \<Rightarrow> and_flatten arr (es @ [e]) hasTrue)"

fun or_flatten :: "ContextKeyExpression option list \<Rightarrow> ContextKeyExpression list \<Rightarrow> bool
    \<Rightarrow> (ContextKeyExpression list \<times> bool) option" where
  "or_flatten [] es hasFalse = Some (es, hasFalse)"
| "or_flatten (None # arr) es hasFalse = or_flatten arr es hasFalse"
| "or_flatten (Some e # arr) es hasFalse =
     (case e of
        FalseExpr \<Rightarrow> or_flatten arr es True
      | TrueExpr \<Rightarrow> None
      | OrExpr fs n \<Rightarrow> or_flatten arr (es @ fs) hasFalse
      | _ \<Rightarrow> or_flatten arr (es @ [e]) hasFalse)"

text \<open>
  The functions the bodies below call: \<^verbatim>\<open>negate\<close>, and \<^verbatim>\<open>create\<close> of the two classes, whose result may be \<^verbatim>\<open>undefined\<close>.
  The outer \<open>None\<close> of a result says that the call did not return.
\<close>

type_synonym ck_negator = "ContextKeyExpression \<Rightarrow> ContextKeyExpression option"

type_synonym ck_creator =
  "ContextKeyExpression option list \<Rightarrow> ContextKeyExpression option \<Rightarrow> bool \<Rightarrow> ContextKeyExpression option option"

text \<open>The loop that distributes an OR at the end of the array over the element before it.\<close>

function and_distribute :: "ck_creator \<Rightarrow> ck_creator \<Rightarrow> bool \<Rightarrow> ContextKeyExpression list \<Rightarrow> ContextKeyExpression list option" where
  "and_distribute andc orc extraRedundantCheck es =
     (if length es \<le> 1 then Some es
      else case last es of
        OrExpr os n \<Rightarrow>
          (let secondToLastElement = last (butlast es); rest = butlast (butlast es)
           in case those (map (\<lambda>el. andc [Some el, Some secondToLastElement] None extraRedundantCheck) os) of
                None \<Rightarrow> None
              | Some rs \<Rightarrow>
                  (case orc rs None (rest = []) of
                     None \<Rightarrow> None
                   | Some None \<Rightarrow> and_distribute andc orc extraRedundantCheck rest
                   | Some (Some r) \<Rightarrow> and_distribute andc orc extraRedundantCheck (sort_by ck_cmp (rest @ [r]))))
      | _ \<Rightarrow> Some es)"
  by pat_completeness auto

termination by (relation "measure (\<lambda>(_, _, _, es). length es)") auto

declare and_distribute.simps [simp del]

text \<open>The two nested loops that look for \<^verbatim>\<open>A\<close> before \<^verbatim>\<open>!A\<close>.\<close>

fun has_negated_pair :: "ck_negator \<Rightarrow> ContextKeyExpression list \<Rightarrow> bool option" where
  "has_negated_pair neg [] = Some False"
| "has_negated_pair neg (e # es) =
     (if es = [] then Some False
      else case neg e of
        None \<Rightarrow> None
      | Some ne \<Rightarrow> if list_ex (ck_equals ne) es then Some True else has_negated_pair neg es)"

definition ContextKeyAndExpr_normalizeArr :: "ck_negator \<Rightarrow> ck_creator \<Rightarrow> ck_creator \<Rightarrow> ck_creator" where
  "ContextKeyAndExpr_normalizeArr neg andc orc arr negated extraRedundantCheck =
     (case and_flatten arr [] False of
        None \<Rightarrow> Some (Some FalseExpr)
      | Some (es, hasTrue) \<Rightarrow>
          if es = [] then Some (if hasTrue then Some TrueExpr else None)
          else if length es = 1 then Some (Some (hd es))
          else
            let es1 = eliminate_duplicates (sort_by ck_cmp es)
            in if length es1 = 1 then Some (Some (hd es1))
               else case and_distribute andc orc extraRedundantCheck es1 of
                 None \<Rightarrow> None
               | Some es2 \<Rightarrow>
                   if length es2 = 1 then Some (Some (hd es2))
                   else if extraRedundantCheck then
                     (case has_negated_pair neg es2 of
                        None \<Rightarrow> None
                      | Some found \<Rightarrow> Some (Some (if found then FalseExpr else AndExpr es2 negated)))
                   else Some (Some (AndExpr es2 negated)))"

definition ContextKeyOrExpr_normalizeArr :: "ck_negator \<Rightarrow> ck_creator" where
  "ContextKeyOrExpr_normalizeArr neg arr negated extraRedundantCheck =
     (case or_flatten arr [] False of
        None \<Rightarrow> Some (Some TrueExpr)
      | Some (es, hasFalse) \<Rightarrow>
          if es = [] \<and> hasFalse then Some (Some FalseExpr)
          else
            let es0 = sort_by ck_cmp es
            in if es0 = [] then Some None
               else if length es0 = 1 then Some (Some (hd es0))
               else
                 let es1 = eliminate_duplicates es0
                 in if length es1 = 1 then Some (Some (hd es1))
                    else if extraRedundantCheck then
                      (case has_negated_pair neg es1 of
                         None \<Rightarrow> None
                       | Some found \<Rightarrow> Some (Some (if found then TrueExpr else OrExpr es1 negated)))
                    else Some (Some (OrExpr es1 negated)))"

section \<open>Negation\<close>

definition getTerminals :: "ContextKeyExpression \<Rightarrow> ContextKeyExpression list" where
  "getTerminals node = (case node of OrExpr es n \<Rightarrow> es | _ \<Rightarrow> [node])"

text \<open>
  \<^verbatim>\<open>create(...)!\<close> asserts that the result is defined.  Where it were not, the code would raise a \<^verbatim>\<open>TypeError\<close>
  at the next use; the model has \<open>None\<close> there.
\<close>

fun defined_result :: "'a option option \<Rightarrow> 'a option" where
  "defined_result (Some (Some r)) = Some r"
| "defined_result _ = None"

definition ContextKeyAndExpr_negate ::
    "ck_negator \<Rightarrow> ck_creator \<Rightarrow> ContextKeyExpression list \<Rightarrow> ContextKeyExpression option \<Rightarrow> ContextKeyExpression option" where
  "ContextKeyAndExpr_negate neg orc es negated =
     (case negated of
        Some n \<Rightarrow> Some n
      | None \<Rightarrow>
          (case those (map neg es) of
             None \<Rightarrow> None
           | Some rs \<Rightarrow> defined_result (orc (map Some rs) (Some (AndExpr es negated)) True)))"

text \<open>All pairs of terminals of the first two elements, until one element is left.\<close>

fun or_negate_loop :: "ck_creator \<Rightarrow> ck_creator \<Rightarrow> ContextKeyExpression list \<Rightarrow> ContextKeyExpression list option" where
  "or_negate_loop andc orc (LEFT # RIGHT # rest) =
     (case those (map (\<lambda>(left, right). andc [Some left, Some right] None False)
              (List.product (getTerminals LEFT) (getTerminals RIGHT))) of
        None \<Rightarrow> None
      | Some all \<Rightarrow>
          (case defined_result (orc all None False) of
             None \<Rightarrow> None
           | Some r \<Rightarrow> or_negate_loop andc orc (r # rest)))"
| "or_negate_loop andc orc es = Some es"

definition ContextKeyOrExpr_negate ::
    "ck_negator \<Rightarrow> ck_creator \<Rightarrow> ck_creator \<Rightarrow> ContextKeyExpression list \<Rightarrow> ContextKeyExpression option \<Rightarrow> ContextKeyExpression option" where
  "ContextKeyOrExpr_negate neg andc orc es negated =
     (case negated of
        Some n \<Rightarrow> Some n
      | None \<Rightarrow>
          (case those (map neg es) of
             None \<Rightarrow> None
           | Some rs \<Rightarrow>
               (case or_negate_loop andc orc rs of
                  None \<Rightarrow> None
                | Some rs2 \<Rightarrow> defined_result (orc (map Some rs2) (Some (OrExpr es negated)) True))))"

fun expr_negate :: "constants \<Rightarrow> ck_negator \<Rightarrow> ck_creator \<Rightarrow> ck_creator \<Rightarrow> ck_negator" where
  "expr_negate cs neg andc orc FalseExpr = Some ContextKeyFalseExpr_negate"
| "expr_negate cs neg andc orc TrueExpr = Some ContextKeyTrueExpr_negate"
| "expr_negate cs neg andc orc (DefinedExpr k n) = Some (ContextKeyDefinedExpr_negate cs k n)"
| "expr_negate cs neg andc orc (NotExpr k n) = Some (ContextKeyNotExpr_negate cs k n)"
| "expr_negate cs neg andc orc (EqualsExpr k v n) = Some (ContextKeyEqualsExpr_negate cs k v n)"
| "expr_negate cs neg andc orc (NotEqualsExpr k v n) = Some (ContextKeyNotEqualsExpr_negate cs k v n)"
| "expr_negate cs neg andc orc (AndExpr es n) = ContextKeyAndExpr_negate neg orc es n"
| "expr_negate cs neg andc orc (RegexExpr k r) = Some (ContextKeyRegexExpr_negate k r)"
| "expr_negate cs neg andc orc (NotRegexExpr k r) = Some (ContextKeyNotRegexExpr_negate k r)"
| "expr_negate cs neg andc orc (OrExpr es n) = ContextKeyOrExpr_negate neg andc orc es n"
| "expr_negate cs neg andc orc (InExpr k vk) = Some (ContextKeyInExpr_negate k vk)"
| "expr_negate cs neg andc orc (NotInExpr k vk) = Some (ContextKeyNotInExpr_negate k vk)"
| "expr_negate cs neg andc orc (GreaterExpr k v n) = Some (ContextKeyGreaterExpr_negate k v n)"
| "expr_negate cs neg andc orc (GreaterEqualsExpr k v n) = Some (ContextKeyGreaterEqualsExpr_negate k v n)"
| "expr_negate cs neg andc orc (SmallerExpr k v n) = Some (ContextKeySmallerExpr_negate k v n)"
| "expr_negate cs neg andc orc (SmallerEqualsExpr k v n) = Some (ContextKeySmallerEqualsExpr_negate k v n)"

text \<open>The knot: the bound counts nested calls of the three operations.\<close>

fun ck_negate :: "nat \<Rightarrow> constants \<Rightarrow> ck_negator"
  and ContextKeyAndExpr_create :: "nat \<Rightarrow> constants \<Rightarrow> ck_creator"
  and ContextKeyOrExpr_create :: "nat \<Rightarrow> constants \<Rightarrow> ck_creator" where
  "ck_negate 0 cs e = None"
| "ck_negate (Suc n) cs e = expr_negate cs (ck_negate n cs) (ContextKeyAndExpr_create n cs) (ContextKeyOrExpr_create n cs) e"
| "ContextKeyAndExpr_create 0 cs arr negated extraRedundantCheck = None"
| "ContextKeyAndExpr_create (Suc n) cs arr negated extraRedundantCheck =
     ContextKeyAndExpr_normalizeArr (ck_negate n cs) (ContextKeyAndExpr_create n cs) (ContextKeyOrExpr_create n cs)
       arr negated extraRedundantCheck"
| "ContextKeyOrExpr_create 0 cs arr negated extraRedundantCheck = None"
| "ContextKeyOrExpr_create (Suc n) cs arr negated extraRedundantCheck =
     ContextKeyOrExpr_normalizeArr (ck_negate n cs) arr negated extraRedundantCheck"

section \<open>Substituting constants\<close>

text \<open>
  The loop of \<^verbatim>\<open>eliminateConstantsInArray\<close>, with \<open>None\<close> for \<^verbatim>\<open>newArr === null\<close>.  Where the source compares references, a
  substituted expression is compared with the original structurally.
\<close>

fun eliminateConstants_loop :: "(ContextKeyExpression \<Rightarrow> ContextKeyExpression option option) \<Rightarrow> ContextKeyExpression list
    \<Rightarrow> ContextKeyExpression list \<Rightarrow> ContextKeyExpression option list option \<Rightarrow> ContextKeyExpression option list option option" where
  "eliminateConstants_loop sub before [] newArr = Some newArr"
| "eliminateConstants_loop sub before (e # es) newArr =
     (case sub e of
        None \<Rightarrow> None
      | Some newExpr \<Rightarrow>
          let newArr' = (if newExpr \<noteq> Some e \<and> newArr = None then Some (map Some before) else newArr)
          in eliminateConstants_loop sub (before @ [e]) es (map_option (\<lambda>a. a @ [newExpr]) newArr'))"

definition eliminateConstantsInArray ::
    "(ContextKeyExpression \<Rightarrow> ContextKeyExpression option option) \<Rightarrow> ContextKeyExpression list
     \<Rightarrow> ContextKeyExpression option list option option" where
  "eliminateConstantsInArray sub arr = eliminateConstants_loop sub [] arr None"

definition ContextKeyAndExpr_substituteConstants ::
    "(ContextKeyExpression \<Rightarrow> ContextKeyExpression option option) \<Rightarrow> ck_creator \<Rightarrow> ContextKeyExpression list
     \<Rightarrow> ContextKeyExpression option \<Rightarrow> ContextKeyExpression option option" where
  "ContextKeyAndExpr_substituteConstants sub andc es negated =
     (case eliminateConstantsInArray sub es of
        None \<Rightarrow> None
      | Some None \<Rightarrow> Some (Some (AndExpr es negated))
      | Some (Some exprArr) \<Rightarrow> andc exprArr negated False)"

definition ContextKeyOrExpr_substituteConstants ::
    "(ContextKeyExpression \<Rightarrow> ContextKeyExpression option option) \<Rightarrow> ck_creator \<Rightarrow> ContextKeyExpression list
     \<Rightarrow> ContextKeyExpression option \<Rightarrow> ContextKeyExpression option option" where
  "ContextKeyOrExpr_substituteConstants sub orc es negated =
     (case eliminateConstantsInArray sub es of
        None \<Rightarrow> None
      | Some None \<Rightarrow> Some (Some (OrExpr es negated))
      | Some (Some exprArr) \<Rightarrow> orc exprArr negated False)"

lemma eliminateConstants_loop_cong:
  "(\<And>e. e \<in> set es \<Longrightarrow> f e = g e) \<Longrightarrow> eliminateConstants_loop f before es a = eliminateConstants_loop g before es a"
  by (induction es arbitrary: before a) (auto simp: Let_def split: option.split)

lemma AndOr_substituteConstants_cong [fundef_cong]:
  assumes "es = es'" "c = c'" "n = n'" "\<And>a. a \<in> set es' \<Longrightarrow> f a = g a"
  shows "ContextKeyAndExpr_substituteConstants f c es n = ContextKeyAndExpr_substituteConstants g c' es' n'"
    and "ContextKeyOrExpr_substituteConstants f c es n = ContextKeyOrExpr_substituteConstants g c' es' n'"
  using assms eliminateConstants_loop_cong [of es' f g]
  by (auto simp: ContextKeyAndExpr_substituteConstants_def ContextKeyOrExpr_substituteConstants_def eliminateConstantsInArray_def)

fun ck_substituteConstants :: "nat \<Rightarrow> constants \<Rightarrow> ContextKeyExpression \<Rightarrow> ContextKeyExpression option option" where
  "ck_substituteConstants m cs (DefinedExpr k n) = Some (Some (ContextKeyDefinedExpr_substituteConstants cs k n))"
| "ck_substituteConstants m cs (NotExpr k n) = Some (Some (ContextKeyNotExpr_substituteConstants cs k n))"
| "ck_substituteConstants m cs (EqualsExpr k v n) = Some (Some (ContextKeyEqualsExpr_substituteConstants cs k v n))"
| "ck_substituteConstants m cs (NotEqualsExpr k v n) = Some (Some (ContextKeyNotEqualsExpr_substituteConstants cs k v n))"
| "ck_substituteConstants m cs (AndExpr es n) =
     ContextKeyAndExpr_substituteConstants (ck_substituteConstants m cs) (ContextKeyAndExpr_create m cs) es n"
| "ck_substituteConstants m cs (OrExpr es n) =
     ContextKeyOrExpr_substituteConstants (ck_substituteConstants m cs) (ContextKeyOrExpr_create m cs) es n"
| "ck_substituteConstants m cs e = Some (Some e)"

definition expressionsAreEqualWithConstantSubstitution ::
    "nat \<Rightarrow> constants \<Rightarrow> ContextKeyExpression option \<Rightarrow> ContextKeyExpression option \<Rightarrow> bool option" where
  "expressionsAreEqualWithConstantSubstitution m cs a b =
     (case (case a of None \<Rightarrow> Some None | Some e \<Rightarrow> ck_substituteConstants m cs e) of
        None \<Rightarrow> None
      | Some aExpr \<Rightarrow>
          (case (case b of None \<Rightarrow> Some None | Some e \<Rightarrow> ck_substituteConstants m cs e) of
             None \<Rightarrow> None
           | Some bExpr \<Rightarrow>
               Some (case (aExpr, bExpr) of
                       (None, None) \<Rightarrow> True
                     | (Some x, Some y) \<Rightarrow> ck_equals x y
                     | _ \<Rightarrow> False)))"

section \<open>ContextKeyExpr\<close>

definition ContextKeyExpr_has :: "constants \<Rightarrow> js_string \<Rightarrow> ContextKeyExpression" where
  "ContextKeyExpr_has cs key = ContextKeyDefinedExpr_create cs key None"

definition ContextKeyExpr_not :: "constants \<Rightarrow> js_string \<Rightarrow> ContextKeyExpression" where
  "ContextKeyExpr_not cs key = ContextKeyNotExpr_create cs key None"

definition ContextKeyExpr_equals :: "constants \<Rightarrow> js_string \<Rightarrow> js_prim \<Rightarrow> ContextKeyExpression" where
  "ContextKeyExpr_equals cs key v = ContextKeyEqualsExpr_create cs key v None"

definition ContextKeyExpr_notEquals :: "constants \<Rightarrow> js_string \<Rightarrow> js_prim \<Rightarrow> ContextKeyExpression" where
  "ContextKeyExpr_notEquals cs key v = ContextKeyNotEqualsExpr_create cs key v None"

definition ContextKeyExpr_regex :: "js_string \<Rightarrow> RegExp option \<Rightarrow> ContextKeyExpression" where
  "ContextKeyExpr_regex key v = ContextKeyRegexExpr_create key v"

definition ContextKeyExpr_in :: "js_string \<Rightarrow> js_string \<Rightarrow> ContextKeyExpression" where
  "ContextKeyExpr_in key v = ContextKeyInExpr_create key v"

definition ContextKeyExpr_notIn :: "js_string \<Rightarrow> js_string \<Rightarrow> ContextKeyExpression" where
  "ContextKeyExpr_notIn key v = ContextKeyNotInExpr_create key v"

definition ContextKeyExpr_and :: "nat \<Rightarrow> constants \<Rightarrow> ContextKeyExpression option list \<Rightarrow> ContextKeyExpression option option" where
  "ContextKeyExpr_and n cs arr = ContextKeyAndExpr_create n cs arr None True"

definition ContextKeyExpr_or :: "nat \<Rightarrow> constants \<Rightarrow> ContextKeyExpression option list \<Rightarrow> ContextKeyExpression option option" where
  "ContextKeyExpr_or n cs arr = ContextKeyOrExpr_create n cs arr None True"

definition ContextKeyExpr_greater :: "js_string \<Rightarrow> js_number \<Rightarrow> ContextKeyExpression" where
  "ContextKeyExpr_greater key v = ContextKeyGreaterExpr_create key (PNum v) None"

definition ContextKeyExpr_greaterEquals :: "js_string \<Rightarrow> js_number \<Rightarrow> ContextKeyExpression" where
  "ContextKeyExpr_greaterEquals key v = ContextKeyGreaterEqualsExpr_create key (PNum v) None"

definition ContextKeyExpr_smaller :: "js_string \<Rightarrow> js_number \<Rightarrow> ContextKeyExpression" where
  "ContextKeyExpr_smaller key v = ContextKeySmallerExpr_create key (PNum v) None"

definition ContextKeyExpr_smallerEquals :: "js_string \<Rightarrow> js_number \<Rightarrow> ContextKeyExpression" where
  "ContextKeyExpr_smallerEquals key v = ContextKeySmallerEqualsExpr_create key (PNum v) None"

section \<open>Implication\<close>

fun allElementsIncluded :: "ContextKeyExpression list \<Rightarrow> ContextKeyExpression list \<Rightarrow> bool" where
  "allElementsIncluded [] q = True"
| "allElementsIncluded (x # p) [] = False"
| "allElementsIncluded (x # p) (y # q) =
     (let c = ck_cmp x y
      in if c < 0 then False
         else if c = 0 then allElementsIncluded p q
         else allElementsIncluded (x # p) q)"

text \<open>The elements of an expression of type \<^verbatim>\<open>Or\<close>, respectively \<^verbatim>\<open>And\<close>.\<close>

fun or_elements :: "ContextKeyExpression \<Rightarrow> ContextKeyExpression list option" where
  "or_elements (OrExpr es n) = Some es"
| "or_elements _ = None"

fun and_elements :: "ContextKeyExpression \<Rightarrow> ContextKeyExpression list option" where
  "and_elements (AndExpr es n) = Some es"
| "and_elements _ = None"

lemma or_elements_Some: "or_elements p = Some es \<longleftrightarrow> (\<exists>n. p = OrExpr es n)"
  by (cases p) auto

lemma and_elements_Some: "and_elements p = Some es \<longleftrightarrow> (\<exists>n. p = AndExpr es n)"
  by (cases p) auto

lemma size_element: "e \<in> set es \<Longrightarrow> size e < size (OrExpr es n)" "e \<in> set es \<Longrightarrow> size e < size (AndExpr es n)"
  by (auto simp: less_Suc_eq_le intro!: trans_le_add1 size_list_estimation')

function ck_implies :: "ContextKeyExpression \<Rightarrow> ContextKeyExpression \<Rightarrow> bool" where
  "ck_implies p q =
     (if ContextKeyExprType p = 0 \<or> ContextKeyExprType q = 1 then True
      else case or_elements p of
        Some ps \<Rightarrow> (case or_elements q of Some qs \<Rightarrow> allElementsIncluded ps qs | None \<Rightarrow> False)
      | None \<Rightarrow>
          (case or_elements q of
             Some qs \<Rightarrow> list_ex (\<lambda>e. ck_implies p e) qs
           | None \<Rightarrow>
               (case and_elements p of
                  Some ps \<Rightarrow>
                    (case and_elements q of
                       Some qs \<Rightarrow> allElementsIncluded qs ps
                     | None \<Rightarrow> list_ex (\<lambda>e. ck_implies e q) ps)
                | None \<Rightarrow> ck_equals p q)))"
  by pat_completeness auto

termination
  by (relation "measure (\<lambda>(p, q). size p + size q)")
    (auto simp: or_elements_Some and_elements_Some simp del: ContextKeyExpression.size dest: size_element)

declare ck_implies.simps [simp del]

section \<open>RawContextKey\<close>

record ContextKeyInfo =
  info_key :: js_string
  info_type :: "js_string option"
  info_description :: "js_string option"

text \<open>The third argument of the constructor: absent, a description, \<^verbatim>\<open>true\<close>, or an object.\<close>

datatype metaOrHide = NoMeta | Description js_string | Hide | Meta js_string js_string

record RawContextKey =
  raw_key :: js_string
  raw_defaultValue :: js_value

definition js_typeof :: "js_value \<Rightarrow> js_string" where
  "js_typeof v = (case v of
       Prim PUndefined \<Rightarrow> lit ''undefined'' | Prim (PBool b) \<Rightarrow> lit ''boolean'' | Prim (PNum n) \<Rightarrow> lit ''number''
     | Prim (PStr s) \<Rightarrow> lit ''string'' | _ \<Rightarrow> lit ''object'')"

definition new_RawContextKey ::
    "ContextKeyInfo list \<Rightarrow> js_string \<Rightarrow> js_value \<Rightarrow> metaOrHide \<Rightarrow> ContextKeyInfo list \<times> RawContextKey" where
  "new_RawContextKey infos key defaultValue m =
     ((case m of
         Meta t d \<Rightarrow> infos @ [\<lparr>info_key = key, info_type = Some t, info_description = Some d\<rparr>]
       | Hide \<Rightarrow> infos
       | _ \<Rightarrow> infos @ [\<lparr>info_key = key,
                  info_type = (if defaultValue \<noteq> Prim PNull \<and> defaultValue \<noteq> Prim PUndefined then Some (js_typeof defaultValue) else None),
                  info_description = (case m of Description d \<Rightarrow> Some d | _ \<Rightarrow> None)\<rparr>]),
      \<lparr>raw_key = key, raw_defaultValue = defaultValue\<rparr>)"

definition RawContextKey_toNegated :: "constants \<Rightarrow> RawContextKey \<Rightarrow> ContextKeyExpression" where
  "RawContextKey_toNegated cs k = ContextKeyDefinedExpr_negate cs (raw_key k) None"

definition RawContextKey_isEqualTo :: "constants \<Rightarrow> RawContextKey \<Rightarrow> js_prim \<Rightarrow> ContextKeyExpression" where
  "RawContextKey_isEqualTo cs k v = ContextKeyEqualsExpr_create cs (raw_key k) v None"

definition RawContextKey_notEqualsTo :: "constants \<Rightarrow> RawContextKey \<Rightarrow> js_prim \<Rightarrow> ContextKeyExpression" where
  "RawContextKey_notEqualsTo cs k v = ContextKeyNotEqualsExpr_create cs (raw_key k) v None"

end
