(* ===== verification/Context_Key_Semantics.thy ===== *)
theory Context_Key_Semantics
  imports Context_Key
begin

text \<open>
  The value of a normal form.  \<open>sane\<close> says in which contexts an expression can be rewritten at all; under it,
  equal expressions have equal values, and \<^verbatim>\<open>negate\<close> and the two \<^verbatim>\<open>create\<close> methods keep the value.  What the three promise
  each other is the locale \<open>ck_calls\<close>; it holds for calls with a bound by induction on the bound.
\<close>

section \<open>Contexts in which the operations are exact\<close>

text \<open>
  The key of a comparison with a number has a numeric value, since no comparison with \<^verbatim>\<open>NaN\<close> holds and its negation does not hold either; where a key is a constant, the
  context has the constant as the value of the key (for a key that is only tested, a value with the same truth), and it is compared only with strings that are neither numbers nor \<^verbatim>\<open>'true'\<close> or \<^verbatim>\<open>'false'\<close>;
  and two regular expressions with one source have one set of flags, which \<open>fl\<close> gives.  A stored negation is the complement.
\<close>

fun comparable :: "js_lib \<Rightarrow> ck_context \<Rightarrow> js_string \<Rightarrow> js_prim \<Rightarrow> bool" where
  "comparable lib ctx k (PNum m) = (m \<noteq> NaN \<and> value_parseFloat lib (ctx k) \<noteq> NaN)"
| "comparable lib ctx k _ = False"

definition agrees :: "constants \<Rightarrow> js_string \<Rightarrow> (bool \<Rightarrow> bool) \<Rightarrow> bool" where
  "agrees cs k P = (case cs k of None \<Rightarrow> True | Some c \<Rightarrow> P c)"

text \<open>A value that no boolean is loosely equal to and that is not the text of one.\<close>

definition plain_value :: "js_prim \<Rightarrow> bool" where
  "plain_value v \<longleftrightarrow> v \<noteq> PStr (lit ''true'') \<and> v \<noteq> PStr (lit ''false'') \<and> (\<exists>s. v = PStr s \<and> js_Number s = NaN)"

lemma plain_value_simps [simp]: "plain_value v \<Longrightarrow> \<not> loose_eq lib (Prim (PBool c)) v" "plain_value v \<Longrightarrow> \<not> prim_loose_eq (PBool c) v"
  "\<not> plain_value (PStr (lit ''true''))" "\<not> plain_value (PStr (lit ''false''))" "plain_value v \<Longrightarrow> \<not> strict_eq v (PStr (if c then lit ''true'' else lit ''false''))"
  "plain_value (PStr s) \<Longrightarrow> s \<noteq> (if c then lit ''true'' else lit ''false'')" "\<not> plain_value (PNum m)"
  "plain_value v \<Longrightarrow> v \<noteq> PStr (lit ''true'')" "plain_value v \<Longrightarrow> v \<noteq> PStr (lit ''false'')" "plain_value v \<Longrightarrow> prim_toNumber v = NaN" "plain_value (PStr s) \<Longrightarrow> js_Number s = NaN"
  by (auto simp: plain_value_def dest: strict_eq_imp split: if_splits)

fun is_bool :: "js_prim \<Rightarrow> bool" where
  "is_bool (PBool b) = True"
| "is_bool _ = False"

fun flags_ok :: "(js_string \<Rightarrow> js_string) \<Rightarrow> RegExp option \<Rightarrow> bool" where
  "flags_ok fl None = True"
| "flags_ok fl (Some r) = (re_source r \<noteq> [] \<and> re_flags r = fl (re_source r))"

fun sane :: "js_lib \<Rightarrow> ck_context \<Rightarrow> constants \<Rightarrow> (js_string \<Rightarrow> js_string) \<Rightarrow> ContextKeyExpression \<Rightarrow> bool" where
  "sane lib ctx cs fl FalseExpr = True"
| "sane lib ctx cs fl TrueExpr = True"
| "sane lib ctx cs fl (DefinedExpr k n) =
     (agrees cs k (\<lambda>c. truthy (ctx k) = c) \<and>
      (case n of None \<Rightarrow> True | Some m \<Rightarrow> sane lib ctx cs fl m \<and> ck_evaluate lib ctx m = (\<not> truthy (ctx k))))"
| "sane lib ctx cs fl (NotExpr k n) =
     (agrees cs k (\<lambda>c. truthy (ctx k) = c) \<and>
      (case n of None \<Rightarrow> True | Some m \<Rightarrow> sane lib ctx cs fl m \<and> ck_evaluate lib ctx m = truthy (ctx k)))"
| "sane lib ctx cs fl (EqualsExpr k v n) =
     (\<not> is_bool v \<and> agrees cs k (\<lambda>c. ctx k = Prim (PBool c) \<and> plain_value v) \<and>
      (case n of None \<Rightarrow> True | Some m \<Rightarrow> sane lib ctx cs fl m \<and> ck_evaluate lib ctx m = (\<not> loose_eq lib (ctx k) v)))"
| "sane lib ctx cs fl (NotEqualsExpr k v n) =
     (\<not> is_bool v \<and> agrees cs k (\<lambda>c. ctx k = Prim (PBool c) \<and> plain_value v) \<and>
      (case n of None \<Rightarrow> True | Some m \<Rightarrow> sane lib ctx cs fl m \<and> ck_evaluate lib ctx m = loose_eq lib (ctx k) v))"
| "sane lib ctx cs fl (AndExpr es n) =
     (es \<noteq> [] \<and> list_all (sane lib ctx cs fl) es \<and>
      (case n of None \<Rightarrow> True | Some m \<Rightarrow> sane lib ctx cs fl m \<and> ck_evaluate lib ctx m = (\<not> list_all (ck_evaluate lib ctx) es)))"
| "sane lib ctx cs fl (RegexExpr k r) = flags_ok fl r"
| "sane lib ctx cs fl (NotRegexExpr k r) = flags_ok fl r"
| "sane lib ctx cs fl (OrExpr es n) =
     (es \<noteq> [] \<and> list_all (sane lib ctx cs fl) es \<and>
      (case n of None \<Rightarrow> True | Some m \<Rightarrow> sane lib ctx cs fl m \<and> ck_evaluate lib ctx m = (\<not> list_ex (ck_evaluate lib ctx) es)))"
| "sane lib ctx cs fl (InExpr k vk) = True"
| "sane lib ctx cs fl (NotInExpr k vk) = True"
| "sane lib ctx cs fl (GreaterExpr k v n) =
     (comparable lib ctx k v \<and>
      (case n of None \<Rightarrow> True | Some m \<Rightarrow> sane lib ctx cs fl m \<and> ck_evaluate lib ctx m = (\<not> ContextKeyGreaterExpr_evaluate lib ctx k v)))"
| "sane lib ctx cs fl (GreaterEqualsExpr k v n) =
     (comparable lib ctx k v \<and>
      (case n of None \<Rightarrow> True | Some m \<Rightarrow> sane lib ctx cs fl m \<and> ck_evaluate lib ctx m = (\<not> ContextKeyGreaterEqualsExpr_evaluate lib ctx k v)))"
| "sane lib ctx cs fl (SmallerExpr k v n) =
     (comparable lib ctx k v \<and>
      (case n of None \<Rightarrow> True | Some m \<Rightarrow> sane lib ctx cs fl m \<and> ck_evaluate lib ctx m = (\<not> ContextKeySmallerExpr_evaluate lib ctx k v)))"
| "sane lib ctx cs fl (SmallerEqualsExpr k v n) =
     (comparable lib ctx k v \<and>
      (case n of None \<Rightarrow> True | Some m \<Rightarrow> sane lib ctx cs fl m \<and> ck_evaluate lib ctx m = (\<not> ContextKeySmallerEqualsExpr_evaluate lib ctx k v)))"

lemmas leaf_evaluate_defs =
  ContextKeyFalseExpr_evaluate_def ContextKeyTrueExpr_evaluate_def ContextKeyDefinedExpr_evaluate_def
  ContextKeyNotExpr_evaluate_def ContextKeyEqualsExpr_evaluate_def ContextKeyNotEqualsExpr_evaluate_def
  ContextKeyNotRegexExpr_evaluate_def ContextKeyNotInExpr_evaluate_def
  ContextKeyAndExpr_evaluate_def ContextKeyOrExpr_evaluate_def

lemmas equals_defs =
  ContextKeyFalseExpr_equals_def ContextKeyTrueExpr_equals_def ContextKeyDefinedExpr_equals_def
  ContextKeyNotExpr_equals_def ContextKeyEqualsExpr_equals_def ContextKeyNotEqualsExpr_equals_def
  ContextKeyRegexExpr_equals_def ContextKeyNotRegexExpr_equals_def ContextKeyInExpr_equals_def
  ContextKeyNotInExpr_equals_def ContextKeyGreaterExpr_equals_def ContextKeyGreaterEqualsExpr_equals_def
  ContextKeySmallerExpr_equals_def ContextKeySmallerEqualsExpr_equals_def
  ContextKeyAndExpr_equals_def ContextKeyOrExpr_equals_def

lemma flags_ok_unique:
  "flags_ok fl r \<Longrightarrow> flags_ok fl s \<Longrightarrow> regexp_source r = regexp_source s \<Longrightarrow> r = s"
  by (cases r; cases s) (auto simp: regexp_source_def)

lemma list_all2_evaluate:
  assumes "list_all2 eq es fs" "\<And>e f. e \<in> set es \<Longrightarrow> f \<in> set fs \<Longrightarrow> eq e f \<Longrightarrow> P e = P f"
  shows "list_all P es = list_all P fs" "list_ex P es = list_ex P fs"
  using assms by (induction rule: list_all2_induct) auto

text \<open>Equal expressions have the same value.\<close>

lemma ck_equals_evaluate:
  assumes "ck_equals e f" "sane lib ctx cs fl e" "sane lib ctx cs fl f"
  shows "ck_evaluate lib ctx e = ck_evaluate lib ctx f"
  using assms
proof (induction e arbitrary: f)
  case (AndExpr es n)
  then obtain fs m where f: "f = AndExpr fs m" by (cases f) (auto simp: equals_defs)
  have "list_all2 ck_equals es fs" using AndExpr.prems unfolding f by (auto simp: equals_defs split: if_splits)
  then show ?case unfolding f using AndExpr list_all2_evaluate(1) [of ck_equals es fs "ck_evaluate lib ctx"]
    by (auto simp: f leaf_evaluate_defs list_all_iff)
next
  case (OrExpr es n)
  then obtain fs m where f: "f = OrExpr fs m" by (cases f) (auto simp: equals_defs)
  have "list_all2 ck_equals es fs" using OrExpr.prems unfolding f by (auto simp: equals_defs split: if_splits)
  then show ?case unfolding f using OrExpr list_all2_evaluate(2) [of ck_equals es fs "ck_evaluate lib ctx"]
    by (auto simp: f leaf_evaluate_defs list_all_iff)
next
  case (RegexExpr k r)
  then show ?case by (cases f) (auto simp: equals_defs dest: flags_ok_unique)
next
  case (NotRegexExpr k r)
  then show ?case by (cases f) (auto simp: equals_defs leaf_evaluate_defs dest: flags_ok_unique)
qed (case_tac f; auto simp: equals_defs leaf_evaluate_defs dest: strict_eq_imp)+

section \<open>The steps of a normal form keep the value\<close>

lemma set_insert_by [simp]: "set (insert_by cmp x ys) = insert x (set ys)"
  by (induction ys) auto

lemma set_sort_by [simp]: "set (sort_by cmp xs) = set xs"
  by (induction xs) (auto simp: sort_by_def)

lemma sort_by_eq_Nil [simp]: "sort_by cmp xs = [] \<longleftrightarrow> xs = []"
  using length_sort_by [of cmp xs] by (metis length_0_conv)

lemma eliminate_duplicates_eq_Nil [simp]: "eliminate_duplicates es = [] \<longleftrightarrow> es = []"
  by (induction es rule: eliminate_duplicates.induct) auto

lemma set_eliminate_duplicates: "set (eliminate_duplicates es) \<subseteq> set es"
  by (induction es rule: eliminate_duplicates.induct) auto

lemma eliminate_duplicates_sane:
  "list_all P es \<Longrightarrow> list_all P (eliminate_duplicates es)"
  using set_eliminate_duplicates [of es] by (auto simp: list_all_iff)

lemma eliminate_duplicates_evaluate:
  assumes "list_all (sane lib ctx cs fl) es"
  shows "list_all (ck_evaluate lib ctx) (eliminate_duplicates es) = list_all (ck_evaluate lib ctx) es"
    and "list_ex (ck_evaluate lib ctx) (eliminate_duplicates es) = list_ex (ck_evaluate lib ctx) es"
  using assms
  by (induction es rule: eliminate_duplicates.induct) (auto dest: ck_equals_evaluate)

lemma list_all_sort_by [simp]: "list_all P (sort_by cmp xs) = list_all P xs"
  by (simp add: list_all_iff)

lemma list_ex_sort_by [simp]: "list_ex P (sort_by cmp xs) = list_ex P xs"
  by (simp add: list_ex_iff)

text \<open>The elements of an array that are not \<^verbatim>\<open>null\<close> or \<^verbatim>\<open>undefined\<close>.\<close>

fun defined_elements :: "'a option list \<Rightarrow> 'a list" where
  "defined_elements [] = []"
| "defined_elements (None # arr) = defined_elements arr"
| "defined_elements (Some e # arr) = e # defined_elements arr"

lemma set_defined_elements: "x \<in> set (defined_elements arr) \<longleftrightarrow> Some x \<in> set arr"
  by (induction arr rule: defined_elements.induct) auto

lemma defined_elements_map_Some [simp]: "defined_elements (map Some es) = es"
  by (induction es) auto

lemma and_flatten_evaluate:
  assumes "list_all (sane lib ctx cs fl) (defined_elements arr)" "list_all (sane lib ctx cs fl) acc"
  shows "case and_flatten arr acc b of
      None \<Rightarrow> \<not> list_all (ck_evaluate lib ctx) (defined_elements arr)
    | Some (es, h) \<Rightarrow>
        list_all (sane lib ctx cs fl) es \<and>
        (es = [] \<longrightarrow> acc = [] \<and> (h \<longleftrightarrow> b \<or> defined_elements arr \<noteq> [])) \<and>
        (es \<noteq> [] \<longrightarrow> acc \<noteq> [] \<or> defined_elements arr \<noteq> []) \<and>
        (list_all (ck_evaluate lib ctx) es = (list_all (ck_evaluate lib ctx) acc \<and> list_all (ck_evaluate lib ctx) (defined_elements arr)))"
  using assms
proof (induction arr acc b rule: and_flatten.induct)
  case (3 e arr es h)
  then show ?case by (cases e) (simp_all add: leaf_evaluate_defs split: option.splits prod.splits)
qed (auto split: option.splits)

lemma or_flatten_evaluate:
  assumes "list_all (sane lib ctx cs fl) (defined_elements arr)" "list_all (sane lib ctx cs fl) acc"
  shows "case or_flatten arr acc b of
      None \<Rightarrow> list_ex (ck_evaluate lib ctx) (defined_elements arr)
    | Some (es, h) \<Rightarrow>
        list_all (sane lib ctx cs fl) es \<and>
        (es = [] \<longrightarrow> acc = [] \<and> (h \<longleftrightarrow> b \<or> defined_elements arr \<noteq> [])) \<and>
        (es \<noteq> [] \<longrightarrow> acc \<noteq> [] \<or> defined_elements arr \<noteq> []) \<and>
        (list_ex (ck_evaluate lib ctx) es = (list_ex (ck_evaluate lib ctx) acc \<or> list_ex (ck_evaluate lib ctx) (defined_elements arr)))"
  using assms
proof (induction arr acc b rule: or_flatten.induct)
  case (3 e arr es h)
  then show ?case by (cases e) (simp_all add: leaf_evaluate_defs split: option.splits prod.splits)
qed (auto split: option.splits)

lemma those_map_Some:
  "those (map f xs) = Some ys \<Longrightarrow> list_all2 (\<lambda>x y. f x = Some y) xs ys"
  by (induction xs arbitrary: ys) (auto split: option.splits)

section \<open>What the mutually recursive operations promise each other\<close>

locale ck_calls =
  fixes lib :: js_lib and ctx :: ck_context and cs :: constants and fl :: "js_string \<Rightarrow> js_string"
    and neg :: ck_negator and andc :: ck_creator and orc :: ck_creator
  assumes neg_law: "neg e = Some ne \<Longrightarrow> sane lib ctx cs fl e \<Longrightarrow>
      sane lib ctx cs fl ne \<and> ck_evaluate lib ctx ne = (\<not> ck_evaluate lib ctx e)"
    and and_law: "andc arr negated chk = Some r \<Longrightarrow> list_all (sane lib ctx cs fl) (defined_elements arr) \<Longrightarrow>
      (\<And>m. negated = Some m \<Longrightarrow> sane lib ctx cs fl m \<and> ck_evaluate lib ctx m = (\<not> list_all (ck_evaluate lib ctx) (defined_elements arr))) \<Longrightarrow>
      (case r of None \<Rightarrow> defined_elements arr = []
       | Some x \<Rightarrow> defined_elements arr \<noteq> [] \<and> sane lib ctx cs fl x \<and>
           ck_evaluate lib ctx x = list_all (ck_evaluate lib ctx) (defined_elements arr))"
    and or_law: "orc arr negated chk = Some r \<Longrightarrow> list_all (sane lib ctx cs fl) (defined_elements arr) \<Longrightarrow>
      (\<And>m. negated = Some m \<Longrightarrow> sane lib ctx cs fl m \<and> ck_evaluate lib ctx m = (\<not> list_ex (ck_evaluate lib ctx) (defined_elements arr))) \<Longrightarrow>
      (case r of None \<Rightarrow> defined_elements arr = []
       | Some x \<Rightarrow> defined_elements arr \<noteq> [] \<and> sane lib ctx cs fl x \<and>
           ck_evaluate lib ctx x = list_ex (ck_evaluate lib ctx) (defined_elements arr))"
begin

lemma has_negated_pair_found:
  assumes "has_negated_pair neg es = Some True" "list_all (sane lib ctx cs fl) es"
  shows "\<not> list_all (ck_evaluate lib ctx) es" "list_ex (ck_evaluate lib ctx) es"
proof -
  have "\<not> list_all (ck_evaluate lib ctx) es \<and> list_ex (ck_evaluate lib ctx) es"
    using assms
  proof (induction es)
    case (Cons e es)
    then obtain ne where ne: "neg e = Some ne" by (auto split: if_splits option.splits)
    show ?case
    proof (cases "list_ex (ck_equals ne) es")
      case True
      then obtain f where f: "f \<in> set es" "ck_equals ne f" by (auto simp: list_ex_iff)
      then have "ck_evaluate lib ctx f = (\<not> ck_evaluate lib ctx e)"
        using Cons.prems neg_law [OF ne] ck_equals_evaluate [of ne f lib ctx cs fl] by (auto simp: list_all_iff)
      with f show ?thesis by (auto simp: list_all_iff list_ex_iff)
    next
      case False
      with Cons ne show ?thesis by (auto split: if_splits)
    qed
  qed simp
  then show "\<not> list_all (ck_evaluate lib ctx) es" "list_ex (ck_evaluate lib ctx) es" by auto
qed

lemma products_evaluate:
  assumes "those (map (\<lambda>(l, r). andc [Some l, Some r] None chk) ps) = Some all"
    "\<forall>(l, r) \<in> set ps. sane lib ctx cs fl l \<and> sane lib ctx cs fl r"
  shows "list_all (sane lib ctx cs fl) (defined_elements all) \<and> (ps \<noteq> [] \<longrightarrow> defined_elements all \<noteq> []) \<and>
    list_ex (ck_evaluate lib ctx) (defined_elements all) = (\<exists>(l, r) \<in> set ps. ck_evaluate lib ctx l \<and> ck_evaluate lib ctx r)"
  using those_map_Some [OF assms(1)] assms(2)
proof (induction rule: list_all2_induct)
  case (Cons p ps o' all)
  obtain l r where p: "p = (l, r)" by (cases p)
  from Cons(1) Cons.prems and_law [of "[Some l, Some r]" None chk o'] p
  obtain x where "o' = Some x" "sane lib ctx cs fl x" "ck_evaluate lib ctx x = (ck_evaluate lib ctx l \<and> ck_evaluate lib ctx r)"
    by (auto split: option.splits)
  with Cons p show ?case by auto
qed simp

end

context ck_calls
begin

lemma and_distribute_evaluate:
  assumes "and_distribute andc orc chk es = Some es2" "list_all (sane lib ctx cs fl) es" "es \<noteq> []"
  shows "es2 \<noteq> [] \<and> list_all (sane lib ctx cs fl) es2 \<and>
    list_all (ck_evaluate lib ctx) es2 = list_all (ck_evaluate lib ctx) es"
  using assms
proof (induction es rule: length_induct)
  case (1 es)
  show ?case
  proof (cases "length es \<le> 1 \<or> or_elements (last es) = None")
    case True
    then have "es2 = es" using "1.prems"(1) unfolding and_distribute.simps [of andc orc chk es]
      by (cases "last es") (auto split: if_splits)
    with "1.prems" show ?thesis by simp
  next
    case False
    then obtain os n where os: "last es = OrExpr os n" and len: "\<not> length es \<le> 1"
      by (auto simp: or_elements_Some)
    define s rest where "s = last (butlast es)" and "rest = butlast (butlast es)"
    have bl: "butlast es \<noteq> []" using len by (cases es rule: rev_cases) auto
    have es: "es = rest @ [s, OrExpr os n]"
      using append_butlast_last_id [OF "1.prems"(3)] append_butlast_last_id [OF bl] os
      unfolding s_def rest_def by (metis append.assoc append_Cons append_Nil)
    have se: "list_all (sane lib ctx cs fl) rest" "sane lib ctx cs fl s" "list_all (sane lib ctx cs fl) os" "os \<noteq> []"
      using "1.prems"(2) unfolding es by auto
    obtain rs x where rs: "those (map (\<lambda>el. andc [Some el, Some s] None chk) os) = Some rs"
      and x: "orc rs None (rest = []) = Some x"
      and e2: "(case x of None \<Rightarrow> and_distribute andc orc chk rest
                | Some r \<Rightarrow> and_distribute andc orc chk (sort_by ck_cmp (rest @ [r]))) = Some es2"
      using "1.prems"(1) len unfolding and_distribute.simps [of andc orc chk es]
      by (auto simp: os s_def [symmetric] rest_def [symmetric] Let_def split: option.splits)
    have "those (map (\<lambda>(l, r). andc [Some l, Some r] None chk) (map (\<lambda>el. (el, s)) os)) = Some rs"
      using rs by (simp add: comp_def)
    from products_evaluate [OF this] se
    have pr: "list_all (sane lib ctx cs fl) (defined_elements rs)" "defined_elements rs \<noteq> []"
      "list_ex (ck_evaluate lib ctx) (defined_elements rs) = (list_ex (ck_evaluate lib ctx) os \<and> ck_evaluate lib ctx s)"
      by (auto simp: list_all_iff list_ex_iff)
    from or_law [OF x pr(1)] pr obtain r where r: "x = Some r" "sane lib ctx cs fl r"
      "ck_evaluate lib ctx r = (list_ex (ck_evaluate lib ctx) os \<and> ck_evaluate lib ctx s)"
      by (auto split: option.splits)
    let ?es' = "sort_by ck_cmp (rest @ [r])"
    have "length ?es' < length es" "?es' \<noteq> []" "list_all (sane lib ctx cs fl) ?es'"
      using se r unfolding es by (auto simp: list_all_iff)
    then have "es2 \<noteq> [] \<and> list_all (sane lib ctx cs fl) es2 \<and>
        list_all (ck_evaluate lib ctx) es2 = list_all (ck_evaluate lib ctx) ?es'"
      using "1.IH" [rule_format, of ?es'] e2 r(1) by simp
    then show ?thesis using r unfolding es by (auto simp: list_all_iff leaf_evaluate_defs list_ex_iff)
  qed
qed

lemma and_normalize_law:
  assumes "ContextKeyAndExpr_normalizeArr neg andc orc arr negated chk = Some r"
    "list_all (sane lib ctx cs fl) (defined_elements arr)"
    "\<And>m. negated = Some m \<Longrightarrow> sane lib ctx cs fl m \<and> ck_evaluate lib ctx m = (\<not> list_all (ck_evaluate lib ctx) (defined_elements arr))"
  shows "case r of None \<Rightarrow> defined_elements arr = []
    | Some x \<Rightarrow> defined_elements arr \<noteq> [] \<and> sane lib ctx cs fl x \<and>
        ck_evaluate lib ctx x = list_all (ck_evaluate lib ctx) (defined_elements arr)"
proof (cases "and_flatten arr [] False")
  case None
  then show ?thesis using assms and_flatten_evaluate [of lib ctx cs fl arr "[]" False]
    by (auto simp: ContextKeyAndExpr_normalizeArr_def leaf_evaluate_defs)
next
  case (Some p)
  then obtain es h where p: "and_flatten arr [] False = Some (es, h)" by (cases p) auto
  note fl = and_flatten_evaluate [OF assms(2), of "[]" False, unfolded p, simplified]
  show ?thesis
  proof (cases "length es \<le> 1")
    case True
    then consider "es = []" | e where "es = [e]" by (cases es) auto
    then show ?thesis using assms(1) fl
      by cases (auto simp: ContextKeyAndExpr_normalizeArr_def p leaf_evaluate_defs)
  next
    case False
    let ?es1 = "eliminate_duplicates (sort_by ck_cmp es)"
    have ne: "?es1 \<noteq> []" "es \<noteq> []" using False by auto
    have es1: "list_all (sane lib ctx cs fl) ?es1" "list_all (ck_evaluate lib ctx) ?es1 = list_all (ck_evaluate lib ctx) es"
      using fl eliminate_duplicates_evaluate(1) [of lib ctx cs fl "sort_by ck_cmp es"] by (simp_all add: eliminate_duplicates_sane)
    show ?thesis
    proof (cases "length ?es1 = 1")
      case True
      then obtain e where "?es1 = [e]" by (auto simp: length_Suc_conv)
      then show ?thesis using assms(1) fl es1 ne False by (auto simp: ContextKeyAndExpr_normalizeArr_def p)
    next
      case nl: False
      then obtain es2 where es2: "and_distribute andc orc chk ?es1 = Some es2"
        using assms(1) False ne by (auto simp: ContextKeyAndExpr_normalizeArr_def p split: option.splits)
      note d = and_distribute_evaluate [OF es2 es1(1) ne(1)]
      have "sane lib ctx cs fl (AndExpr es2 negated)" using d es1 fl assms(3) by (auto split: option.splits)
      moreover have "\<not> list_all (ck_evaluate lib ctx) es2" if "has_negated_pair neg es2 = Some True"
        using has_negated_pair_found [OF that] d by auto
      moreover have "length es2 = 1 \<Longrightarrow> \<exists>e. es2 = [e]" by (auto simp: length_Suc_conv)
      ultimately show ?thesis using assms(1) False ne nl d es1 fl
        by (auto simp: ContextKeyAndExpr_normalizeArr_def p es2 leaf_evaluate_defs split: option.splits if_splits)
    qed
  qed
qed

lemma or_normalize_law:
  assumes "ContextKeyOrExpr_normalizeArr neg arr negated chk = Some r"
    "list_all (sane lib ctx cs fl) (defined_elements arr)"
    "\<And>m. negated = Some m \<Longrightarrow> sane lib ctx cs fl m \<and> ck_evaluate lib ctx m = (\<not> list_ex (ck_evaluate lib ctx) (defined_elements arr))"
  shows "case r of None \<Rightarrow> defined_elements arr = []
    | Some x \<Rightarrow> defined_elements arr \<noteq> [] \<and> sane lib ctx cs fl x \<and>
        ck_evaluate lib ctx x = list_ex (ck_evaluate lib ctx) (defined_elements arr)"
proof (cases "or_flatten arr [] False")
  case None
  then show ?thesis using assms or_flatten_evaluate [of lib ctx cs fl arr "[]" False]
    by (auto simp: ContextKeyOrExpr_normalizeArr_def leaf_evaluate_defs)
next
  case (Some p)
  then obtain es h where p: "or_flatten arr [] False = Some (es, h)" by (cases p) auto
  note fl = or_flatten_evaluate [OF assms(2), of "[]" False, unfolded p, simplified]
  show ?thesis
  proof (cases "length es \<le> 1")
    case True
    then consider "es = []" | e where "es = [e]" by (cases es) auto
    then show ?thesis using assms(1) fl
      by cases (auto simp: ContextKeyOrExpr_normalizeArr_def p leaf_evaluate_defs sort_by_def)
  next
    case False
    let ?es1 = "eliminate_duplicates (sort_by ck_cmp es)"
    have ne: "?es1 \<noteq> []" "es \<noteq> []" using False by auto
    have es1: "list_all (sane lib ctx cs fl) ?es1" "list_ex (ck_evaluate lib ctx) ?es1 = list_ex (ck_evaluate lib ctx) es"
      using fl eliminate_duplicates_evaluate(2) [of lib ctx cs fl "sort_by ck_cmp es"] by (simp_all add: eliminate_duplicates_sane)
    have "sane lib ctx cs fl (OrExpr ?es1 negated)" using ne es1 fl assms(3) by (auto split: option.splits)
    moreover have "list_ex (ck_evaluate lib ctx) ?es1" if "has_negated_pair neg ?es1 = Some True"
      using has_negated_pair_found [OF that] es1 by auto
    moreover have "length ?es1 = 1 \<Longrightarrow> \<exists>e. ?es1 = [e]" by (auto simp: length_Suc_conv)
    ultimately show ?thesis using assms(1) False ne es1 fl
      by (auto simp: ContextKeyOrExpr_normalizeArr_def p leaf_evaluate_defs Let_def split: option.splits if_splits)
  qed
qed

end

lemma defined_result_Some: "defined_result x = Some r \<longleftrightarrow> x = Some (Some r)"
  by (cases x rule: defined_result.cases) auto

lemma getTerminals_evaluate:
  assumes "sane lib ctx cs fl e"
  shows "getTerminals e \<noteq> []" "list_all (sane lib ctx cs fl) (getTerminals e)"
    "list_ex (ck_evaluate lib ctx) (getTerminals e) = ck_evaluate lib ctx e"
  using assms by (cases e; auto simp: getTerminals_def leaf_evaluate_defs)+

lemmas negate_defs =
  ContextKeyFalseExpr_negate_def ContextKeyTrueExpr_negate_def ContextKeyDefinedExpr_negate_def
  ContextKeyNotExpr_negate_def ContextKeyEqualsExpr_negate_def ContextKeyNotEqualsExpr_negate_def
  ContextKeyRegexExpr_negate_def ContextKeyNotRegexExpr_negate_def ContextKeyInExpr_negate_def
  ContextKeyNotInExpr_negate_def ContextKeyGreaterExpr_negate_def ContextKeyGreaterEqualsExpr_negate_def
  ContextKeySmallerExpr_negate_def ContextKeySmallerEqualsExpr_negate_def

lemmas create_defs =
  ContextKeyDefinedExpr_create_def ContextKeyNotExpr_create_def ContextKeyEqualsExpr_create_def
  ContextKeyNotEqualsExpr_create_def ContextKeyInExpr_create_def ContextKeyNotInExpr_create_def
  ContextKeyRegexExpr_create_def ContextKeyNotRegexExpr_create_def ContextKeyGreaterExpr_create_def
  ContextKeyGreaterEqualsExpr_create_def ContextKeySmallerExpr_create_def ContextKeySmallerEqualsExpr_create_def

lemmas comparison_evaluate_defs =
  ContextKeyGreaterExpr_evaluate_def ContextKeyGreaterEqualsExpr_evaluate_def
  ContextKeySmallerExpr_evaluate_def ContextKeySmallerEqualsExpr_evaluate_def

lemma withFloatOrStr_PNum [simp]: "withFloatOrStr (PNum n) callback = callback (PNum n)"
  by (simp add: withFloatOrStr_def)

text \<open>The negation of an expression that is neither an AND nor an OR is its complement.\<close>

lemma leaf_negate_evaluate:
  assumes "sane lib ctx cs fl e" "or_elements e = None" "and_elements e = None" "expr_negate cs neg andc orc e = Some r"
  shows "sane lib ctx cs fl r \<and> ck_evaluate lib ctx r = (\<not> ck_evaluate lib ctx e)"
proof (cases e)
  case (EqualsExpr k v n)
  then show ?thesis using assms
    by (auto simp: negate_defs create_defs leaf_evaluate_defs agrees_def split: option.splits js_prim.splits)
next
  case (NotEqualsExpr k v n)
  then show ?thesis using assms
    by (auto simp: negate_defs create_defs leaf_evaluate_defs agrees_def split: option.splits js_prim.splits)
next
  case (GreaterExpr k v n)
  then show ?thesis using assms
    by (cases v) (auto simp: negate_defs create_defs comparison_evaluate_defs number_not_less number_not_leq split: option.splits)
next
  case (GreaterEqualsExpr k v n)
  then show ?thesis using assms
    by (cases v) (auto simp: negate_defs create_defs comparison_evaluate_defs number_not_less number_not_leq split: option.splits)
next
  case (SmallerExpr k v n)
  then show ?thesis using assms
    by (cases v) (auto simp: negate_defs create_defs comparison_evaluate_defs number_not_less number_not_leq split: option.splits)
next
  case (SmallerEqualsExpr k v n)
  then show ?thesis using assms
    by (cases v) (auto simp: negate_defs create_defs comparison_evaluate_defs number_not_less number_not_leq split: option.splits)
qed (use assms in \<open>auto simp: negate_defs create_defs leaf_evaluate_defs agrees_def split: option.splits if_splits\<close>)

context ck_calls
begin

lemma negate_elements:
  assumes "those (map neg es) = Some rs" "list_all (sane lib ctx cs fl) es"
  shows "list_all (sane lib ctx cs fl) rs \<and> length rs = length es \<and>
    list_ex (ck_evaluate lib ctx) rs = (\<not> list_all (ck_evaluate lib ctx) es) \<and>
    list_all (ck_evaluate lib ctx) rs = (\<not> list_ex (ck_evaluate lib ctx) es)"
  using those_map_Some [OF assms(1)] assms(2)
  by (induction rule: list_all2_induct) (auto dest: neg_law)

lemma or_negate_loop_evaluate:
  assumes "or_negate_loop andc orc rs = Some rs2" "list_all (sane lib ctx cs fl) rs" "rs \<noteq> []"
  shows "\<exists>r. rs2 = [r] \<and> sane lib ctx cs fl r \<and> ck_evaluate lib ctx r = list_all (ck_evaluate lib ctx) rs"
  using assms
proof (induction "length rs" arbitrary: rs rule: less_induct)
  case less
  show ?case
  proof (cases "length rs \<le> 1")
    case True
    then obtain x where "rs = [x]" using less.prems(3) by (cases rs) auto
    then show ?thesis using less.prems by auto
  next
    case False
    then obtain L R rest where rs: "rs = L # R # rest" by (cases rs; cases "tl rs") auto
    let ?ps = "List.product (getTerminals L) (getTerminals R)"
    obtain all r where all: "those (map (\<lambda>(l, r). andc [Some l, Some r] None False) ?ps) = Some all"
      and r: "orc all None False = Some (Some r)" and rec: "or_negate_loop andc orc (r # rest) = Some rs2"
      using less.prems(1) unfolding rs by (auto simp: defined_result_Some split: option.splits)
    have LR: "sane lib ctx cs fl L" "sane lib ctx cs fl R" "list_all (sane lib ctx cs fl) rest"
      using less.prems(2) by (auto simp: rs)
    note t = getTerminals_evaluate [OF LR(1)] getTerminals_evaluate [OF LR(2)]
    have ps: "\<forall>(l, r) \<in> set ?ps. sane lib ctx cs fl l \<and> sane lib ctx cs fl r" using t by (auto simp: list_all_iff)
    have "(\<exists>(l, r) \<in> set ?ps. ck_evaluate lib ctx l \<and> ck_evaluate lib ctx r) = (ck_evaluate lib ctx L \<and> ck_evaluate lib ctx R)"
      using t by (auto simp: list_ex_iff)
    then have "sane lib ctx cs fl r" "ck_evaluate lib ctx r = (ck_evaluate lib ctx L \<and> ck_evaluate lib ctx R)"
      using products_evaluate [OF all ps] or_law [OF r] by auto
    then show ?thesis using less.hyps [OF _ rec] LR by (simp add: rs)
  qed
qed

lemma and_negate_law:
  assumes "ContextKeyAndExpr_negate neg orc es n = Some r" "sane lib ctx cs fl (AndExpr es n)"
  shows "sane lib ctx cs fl r \<and> ck_evaluate lib ctx r = (\<not> list_all (ck_evaluate lib ctx) es)"
proof (cases n)
  case None
  then obtain rs where rs: "those (map neg es) = Some rs" and r: "orc (map Some rs) (Some (AndExpr es n)) True = Some (Some r)"
    using assms(1) by (auto simp: ContextKeyAndExpr_negate_def defined_result_Some split: option.splits)
  have "list_all (sane lib ctx cs fl) es" using assms(2) by simp
  note ne = negate_elements [OF rs this]
  show ?thesis using or_law [OF r] ne assms(2) by (simp add: leaf_evaluate_defs)
qed (use assms in \<open>auto simp: ContextKeyAndExpr_negate_def\<close>)

lemma or_negate_law:
  assumes "ContextKeyOrExpr_negate neg andc orc es n = Some r" "sane lib ctx cs fl (OrExpr es n)"
  shows "sane lib ctx cs fl r \<and> ck_evaluate lib ctx r = (\<not> list_ex (ck_evaluate lib ctx) es)"
proof (cases n)
  case None
  then obtain rs rs2 where rs: "those (map neg es) = Some rs" and rs2: "or_negate_loop andc orc rs = Some rs2"
    and r: "orc (map Some rs2) (Some (OrExpr es n)) True = Some (Some r)"
    using assms(1) by (auto simp: ContextKeyOrExpr_negate_def defined_result_Some split: option.splits)
  have es: "list_all (sane lib ctx cs fl) es" "es \<noteq> []" using assms(2) by auto
  note ne = negate_elements [OF rs es(1)]
  then have "rs \<noteq> []" using es by auto
  with or_negate_loop_evaluate [OF rs2] ne obtain x where x: "rs2 = [x]" "sane lib ctx cs fl x"
    "ck_evaluate lib ctx x = (\<not> list_ex (ck_evaluate lib ctx) es)" by auto
  show ?thesis using or_law [OF r] x assms(2) by (simp add: leaf_evaluate_defs)
qed (use assms in \<open>auto simp: ContextKeyOrExpr_negate_def\<close>)

lemma negate_law:
  assumes "expr_negate cs neg andc orc e = Some r" "sane lib ctx cs fl e"
  shows "sane lib ctx cs fl r \<and> ck_evaluate lib ctx r = (\<not> ck_evaluate lib ctx e)"
proof (cases "or_elements e = None \<and> and_elements e = None")
  case True
  then show ?thesis using leaf_negate_evaluate assms by blast
next
  case False
  then consider es n where "e = AndExpr es n" | es n where "e = OrExpr es n"
    by (auto simp: or_elements_Some and_elements_Some)
  then show ?thesis
    using assms and_negate_law or_negate_law by cases (simp_all add: leaf_evaluate_defs)
qed

end

lemma ck_calls_bounded:
  "ck_calls lib ctx cs fl (ck_negate n cs) (ContextKeyAndExpr_create n cs) (ContextKeyOrExpr_create n cs)"
proof (induction n)
  case 0
  then show ?case by unfold_locales auto
next
  case (Suc n)
  then show ?case
    using ck_calls.negate_law [OF Suc] ck_calls.and_normalize_law [OF Suc] ck_calls.or_normalize_law [OF Suc]
    by unfold_locales simp_all
qed

interpretation bounded: ck_calls lib ctx cs fl "ck_negate n cs" "ContextKeyAndExpr_create n cs" "ContextKeyOrExpr_create n cs"
  for lib ctx cs fl n
  by (rule ck_calls_bounded)

end
