(* ===== verification/Context_Key_Shape.thy ===== *)
theory Context_Key_Shape
  imports Context_Key_Semantics
begin

text \<open>
  The shape of a normal form.  \<open>wf_expr\<close> is the invariant of all expressions the factories build, and \<^verbatim>\<open>negate\<close> and
  \<^verbatim>\<open>create\<close> keep it (locale \<open>ck_shape\<close>); the number of products of the distributed form does not grow.
\<close>

section \<open>The shape of expressions\<close>

definition is_or :: "ContextKeyExpression \<Rightarrow> bool" where
  "is_or e \<longleftrightarrow> ContextKeyExprType e = 9"

definition is_leaf :: "ContextKeyExpression \<Rightarrow> bool" where
  "is_leaf e \<longleftrightarrow> ContextKeyExprType e \<noteq> 9 \<and> ContextKeyExprType e \<noteq> 6"

text \<open>
  An AND or OR has two elements at least, no element of an OR is an OR, and an AND that has an OR among its
  elements also has an element that is sorted behind it: this is what stopped the distribution.  Only
  an OR stores a negation that is not itself a leaf.
\<close>

fun wf_expr :: "ContextKeyExpression \<Rightarrow> bool" where
  "wf_expr (DefinedExpr k n) = (case n of None \<Rightarrow> True | Some m \<Rightarrow> is_leaf m \<and> wf_expr m)"
| "wf_expr (NotExpr k n) = (case n of None \<Rightarrow> True | Some m \<Rightarrow> is_leaf m \<and> wf_expr m)"
| "wf_expr (EqualsExpr k v n) = (case n of None \<Rightarrow> True | Some m \<Rightarrow> is_leaf m \<and> wf_expr m)"
| "wf_expr (NotEqualsExpr k v n) = (case n of None \<Rightarrow> True | Some m \<Rightarrow> is_leaf m \<and> wf_expr m)"
| "wf_expr (GreaterExpr k v n) = (case n of None \<Rightarrow> True | Some m \<Rightarrow> is_leaf m \<and> wf_expr m)"
| "wf_expr (GreaterEqualsExpr k v n) = (case n of None \<Rightarrow> True | Some m \<Rightarrow> is_leaf m \<and> wf_expr m)"
| "wf_expr (SmallerExpr k v n) = (case n of None \<Rightarrow> True | Some m \<Rightarrow> is_leaf m \<and> wf_expr m)"
| "wf_expr (SmallerEqualsExpr k v n) = (case n of None \<Rightarrow> True | Some m \<Rightarrow> is_leaf m \<and> wf_expr m)"
| "wf_expr (AndExpr es n) =
     (2 \<le> length es \<and> list_all wf_expr es \<and> n = None \<and> (list_ex is_or es \<longrightarrow> list_ex (\<lambda>e. 9 < ContextKeyExprType e) es))"
| "wf_expr (OrExpr es n) =
     (2 \<le> length es \<and> list_all wf_expr es \<and> list_all (\<lambda>e. \<not> is_or e) es \<and> (case n of None \<Rightarrow> True | Some m \<Rightarrow> wf_expr m))"
| "wf_expr _ = True"

text \<open>The number of products when every AND is distributed over every OR.\<close>

fun dnf_size :: "ContextKeyExpression \<Rightarrow> nat" where
  "dnf_size (AndExpr es n) = prod_list (map dnf_size es)"
| "dnf_size (OrExpr es n) = sum_list (map dnf_size es)"
| "dnf_size e = 1"

lemma is_or_iff: "is_or e \<longleftrightarrow> (\<exists>es n. e = OrExpr es n)"
  by (cases e) (auto simp: is_or_def)

lemma is_leaf_iff: "is_leaf e \<longleftrightarrow> or_elements e = None \<and> and_elements e = None"
  by (cases e) (auto simp: is_leaf_def)

lemma prod_list_pos: "(\<forall>x \<in> set xs. 1 \<le> f x) \<Longrightarrow> 1 \<le> prod_list (map f xs)" for f :: "'a \<Rightarrow> nat"
  by (induction xs) (auto simp: Suc_le_eq)

lemma sum_list_pos: "xs \<noteq> [] \<Longrightarrow> (\<forall>x \<in> set xs. 1 \<le> f x) \<Longrightarrow> 1 \<le> sum_list (map f xs)" for f :: "'a \<Rightarrow> nat"
  by (cases xs) auto

lemma dnf_size_pos: "wf_expr e \<Longrightarrow> 1 \<le> dnf_size e"
proof (induction e)
  case (AndExpr es n)
  then show ?case using prod_list_pos [of es dnf_size] by (auto simp: list_all_iff)
next
  case (OrExpr es n)
  then have "es \<noteq> []" by auto
  with OrExpr show ?case using sum_list_pos [of es dnf_size] by (auto simp: list_all_iff)
qed simp_all

lemma dnf_size_leaf: "is_leaf e \<Longrightarrow> dnf_size e = 1"
  by (cases e) (auto simp: is_leaf_def)

subsection \<open>Sorting and duplicates\<close>

lemmas cmp_defs =
  ContextKeyFalseExpr_cmp_def ContextKeyTrueExpr_cmp_def ContextKeyDefinedExpr_cmp_def
  ContextKeyNotExpr_cmp_def ContextKeyEqualsExpr_cmp_def ContextKeyNotEqualsExpr_cmp_def
  ContextKeyRegexExpr_cmp_def ContextKeyNotRegexExpr_cmp_def ContextKeyInExpr_cmp_def
  ContextKeyNotInExpr_cmp_def ContextKeyGreaterExpr_cmp_def ContextKeyGreaterEqualsExpr_cmp_def
  ContextKeySmallerExpr_cmp_def ContextKeySmallerEqualsExpr_cmp_def
  ContextKeyAndExpr_cmp_def ContextKeyOrExpr_cmp_def

lemma ck_cmp_type:
  "ContextKeyExprType a \<noteq> ContextKeyExprType b \<Longrightarrow> ck_cmp a b = ContextKeyExprType a - ContextKeyExprType b"
  by (cases a; cases b) (simp_all add: cmp_defs)

lemma insert_by_types:
  "sorted (map ContextKeyExprType es) \<Longrightarrow> sorted (map ContextKeyExprType (insert_by ck_cmp e es))"
proof (induction es)
  case (Cons x es)
  have "ck_cmp e x \<le> 0 \<longrightarrow> ContextKeyExprType e \<le> ContextKeyExprType x"
    "\<not> ck_cmp e x \<le> 0 \<longrightarrow> ContextKeyExprType x \<le> ContextKeyExprType e"
    using ck_cmp_type [of e x] by linarith+
  with Cons show ?case by fastforce
qed simp

lemma sort_by_types: "sorted (map ContextKeyExprType (sort_by ck_cmp es))"
  by (induction es) (auto simp: sort_by_def insert_by_types)

lemma eliminate_duplicates_types:
  "sorted (map ContextKeyExprType es) \<Longrightarrow> sorted (map ContextKeyExprType (eliminate_duplicates es))"
  using set_eliminate_duplicates by (induction es rule: eliminate_duplicates.induct) (simp, fastforce+)

lemma sort_by_aggregate [simp]:
  "prod_list (map f (sort_by cmp xs)) = prod_list (map f xs)" "sum_list (map f (sort_by cmp xs)) = sum_list (map f xs)"
  for f :: "'a \<Rightarrow> nat"
proof -
  have ins: "prod_list (map f (insert_by cmp x ys)) = f x * prod_list (map f ys)"
    "sum_list (map f (insert_by cmp x ys)) = f x + sum_list (map f ys)" for x ys
    by (induction ys) auto
  show "prod_list (map f (sort_by cmp xs)) = prod_list (map f xs)" "sum_list (map f (sort_by cmp xs)) = sum_list (map f xs)"
    by (induction xs) (auto simp: sort_by_def ins)
qed

lemma eliminate_duplicates_prod:
  "list_all wf_expr es \<Longrightarrow> prod_list (map dnf_size (eliminate_duplicates es)) \<le> prod_list (map dnf_size es)"
proof (induction es rule: eliminate_duplicates.induct)
  case (1 x y ys)
  have "dnf_size x * prod_list (map dnf_size ys) \<le> dnf_size x * (dnf_size y * prod_list (map dnf_size ys))"
    using dnf_size_pos [of y] 1 by simp
  moreover have "prod_list (map dnf_size (eliminate_duplicates (x # ys))) \<le> dnf_size x * prod_list (map dnf_size ys)"
    if "ck_equals x y" using 1 that by simp
  ultimately show ?case using 1 by (cases "ck_equals x y") (auto intro: order_trans)
qed auto

lemma eliminate_duplicates_sum:
  "sum_list (map dnf_size (eliminate_duplicates es)) \<le> sum_list (map dnf_size es)"
  by (induction es rule: eliminate_duplicates.induct) auto

subsection \<open>Flattening\<close>

lemma and_flatten_shape:
  assumes "list_all wf_expr (defined_elements arr)" "list_all wf_expr acc" "and_flatten arr acc b = Some (es, h)"
  shows "list_all wf_expr es \<and> (es = [] \<longrightarrow> acc = [] \<and> (h \<longleftrightarrow> b \<or> defined_elements arr \<noteq> [])) \<and>
    (es \<noteq> [] \<longrightarrow> acc \<noteq> [] \<or> defined_elements arr \<noteq> []) \<and>
    prod_list (map dnf_size es) = prod_list (map dnf_size acc) * prod_list (map dnf_size (defined_elements arr))"
  using assms
proof (induction arr acc b rule: and_flatten.induct)
  case (3 e arr es h)
  then show ?case by (cases e) (auto simp: ac_simps)
qed auto

lemma or_flatten_shape:
  assumes "list_all wf_expr (defined_elements arr)" "list_all wf_expr acc" "list_all (\<lambda>e. \<not> is_or e) acc" "or_flatten arr acc b = Some (es, h)"
  shows "list_all wf_expr es \<and> list_all (\<lambda>e. \<not> is_or e) es \<and> (es = [] \<longrightarrow> acc = [] \<and> (h \<longleftrightarrow> b \<or> defined_elements arr \<noteq> [])) \<and>
    (es \<noteq> [] \<longrightarrow> acc \<noteq> [] \<or> defined_elements arr \<noteq> []) \<and>
    sum_list (map dnf_size es) \<le> sum_list (map dnf_size acc) + sum_list (map dnf_size (defined_elements arr)) \<and>
    set es \<subseteq> set acc \<union> (\<Union>e \<in> set (defined_elements arr). set (getTerminals e))"
  using assms
proof (induction arr acc b rule: or_flatten.induct)
  case (3 e arr es h)
  then show ?case by (cases e) (auto simp: getTerminals_def is_or_def)
qed auto

lemma sorted_not_or_last:
  assumes "es \<noteq> []" "sorted (map ContextKeyExprType es)" "\<not> is_or (last es)" "list_ex is_or es"
  shows "list_ex (\<lambda>e. 9 < ContextKeyExprType e) es"
proof -
  obtain xs l where es: "es = xs @ [l]" using assms(1) by (cases es rule: rev_cases) auto
  obtain e where e: "e \<in> set xs" "ContextKeyExprType e = 9" using assms(3,4) by (auto simp: es list_ex_iff is_or_def)
  then have "9 \<le> ContextKeyExprType l" using assms(2) by (auto simp: es sorted_append)
  with assms(3) show ?thesis by (auto simp: es is_or_def)
qed

lemma and_flatten_None: "defined_elements arr = [] \<Longrightarrow> and_flatten arr acc b \<noteq> None"
  by (induction arr acc b rule: and_flatten.induct) auto

lemma or_flatten_None: "defined_elements arr = [] \<Longrightarrow> or_flatten arr acc b \<noteq> None"
  by (induction arr acc b rule: or_flatten.induct) auto

locale ck_shape =
  fixes neg :: ck_negator and andc :: ck_creator and orc :: ck_creator
  assumes neg_law: "neg e = Some ne \<Longrightarrow> wf_expr e \<Longrightarrow> wf_expr ne"
    and and_law: "andc arr None chk = Some r \<Longrightarrow> list_all wf_expr (defined_elements arr) \<Longrightarrow>
      (case r of None \<Rightarrow> defined_elements arr = []
       | Some x \<Rightarrow> defined_elements arr \<noteq> [] \<and> wf_expr x \<and> dnf_size x \<le> prod_list (map dnf_size (defined_elements arr)))"
    and or_law: "orc arr negated chk = Some r \<Longrightarrow> list_all wf_expr (defined_elements arr) \<Longrightarrow> pred_option wf_expr negated \<Longrightarrow>
      (case r of None \<Rightarrow> defined_elements arr = []
       | Some x \<Rightarrow> defined_elements arr \<noteq> [] \<and> wf_expr x \<and> dnf_size x \<le> sum_list (map dnf_size (defined_elements arr)) \<and>
           set (getTerminals x) \<subseteq> {TrueExpr, FalseExpr} \<union> (\<Union>e \<in> set (defined_elements arr). set (getTerminals e)))"
begin

lemma products_shape:
  assumes "those (map (\<lambda>(l, r). andc [Some l, Some r] None chk) ps) = Some all"
    "\<forall>(l, r) \<in> set ps. wf_expr l \<and> wf_expr r"
  shows "list_all wf_expr (defined_elements all) \<and> (ps \<noteq> [] \<longrightarrow> defined_elements all \<noteq> []) \<and>
    sum_list (map dnf_size (defined_elements all)) \<le> sum_list (map (\<lambda>(l, r). dnf_size l * dnf_size r) ps)"
  using those_map_Some [OF assms(1)] assms(2)
proof (induction rule: list_all2_induct)
  case (Cons p ps o' all)
  obtain l r where p: "p = (l, r)" by (cases p)
  from Cons(1) Cons.prems and_law [of "[Some l, Some r]" chk o'] p
  obtain x where "o' = Some x" "wf_expr x" "dnf_size x \<le> dnf_size l * dnf_size r"
    by (auto split: option.splits)
  with Cons p show ?case by auto
qed simp

lemma distribute_step_shape:
  assumes "those (map (\<lambda>el. andc [Some el, Some s] None chk) os) = Some rs" "orc rs None fin = Some x"
    "wf_expr (OrExpr os n)" "wf_expr s"
  shows "\<exists>r. x = Some r \<and> wf_expr r \<and> dnf_size r \<le> dnf_size (OrExpr os n) * dnf_size s"
proof -
  have "those (map (\<lambda>(l, r). andc [Some l, Some r] None chk) (map (\<lambda>el. (el, s)) os)) = Some rs"
    using assms(1) by (simp add: comp_def)
  from products_shape [OF this] assms(3,4)
  have pr: "list_all wf_expr (defined_elements rs)" "defined_elements rs \<noteq> []"
    "sum_list (map dnf_size (defined_elements rs)) \<le> dnf_size (OrExpr os n) * dnf_size s"
    by (auto simp: list_all_iff comp_def sum_list_mult_const)
  with or_law [OF assms(2) pr(1)] show ?thesis by (auto split: option.splits)
qed

lemma and_distribute_shape:
  assumes "and_distribute andc orc chk es = Some es2" "list_all wf_expr es" "es \<noteq> []" "sorted (map ContextKeyExprType es)"
  shows "es2 \<noteq> [] \<and> list_all wf_expr es2 \<and> sorted (map ContextKeyExprType es2) \<and> (length es2 \<noteq> 1 \<longrightarrow> \<not> is_or (last es2)) \<and>
    prod_list (map dnf_size es2) \<le> prod_list (map dnf_size es)"
  using assms
proof (induction es rule: length_induct)
  case (1 es)
  show ?case
  proof (cases "length es \<le> 1 \<or> or_elements (last es) = None")
    case True
    then have "es2 = es" using "1.prems"(1) unfolding and_distribute.simps [of andc orc chk es]
      by (cases "last es") (auto split: if_splits)
    with "1.prems" True show ?thesis by (cases es) (auto simp: is_or_iff)
  next
    case False
    then obtain os n where os: "last es = OrExpr os n" and len: "\<not> length es \<le> 1"
      by (auto simp: or_elements_Some)
    define s rest where "s = last (butlast es)" and "rest = butlast (butlast es)"
    have bl: "butlast es \<noteq> []" using len by (cases es rule: rev_cases) auto
    have es: "es = rest @ [s, OrExpr os n]"
      using append_butlast_last_id [OF "1.prems"(3)] append_butlast_last_id [OF bl] os
      unfolding s_def rest_def by (metis append.assoc append_Cons append_Nil)
    have se: "list_all wf_expr rest" "wf_expr s" "wf_expr (OrExpr os n)"
      using "1.prems"(2) unfolding es by auto
    obtain rs x where rs: "those (map (\<lambda>el. andc [Some el, Some s] None chk) os) = Some rs"
      and x: "orc rs None (rest = []) = Some x"
      and e2: "(case x of None \<Rightarrow> and_distribute andc orc chk rest
                | Some r \<Rightarrow> and_distribute andc orc chk (sort_by ck_cmp (rest @ [r]))) = Some es2"
      using "1.prems"(1) len unfolding and_distribute.simps [of andc orc chk es]
      by (auto simp: os s_def [symmetric] rest_def [symmetric] Let_def split: option.splits)
    from distribute_step_shape [OF rs x se(3,2)]
    obtain r where r: "x = Some r" "wf_expr r" "dnf_size r \<le> dnf_size (OrExpr os n) * dnf_size s" by blast
    let ?es' = "sort_by ck_cmp (rest @ [r])"
    have "length ?es' < length es" "?es' \<noteq> []" "list_all wf_expr ?es'"
      using se r unfolding es by auto
    then have "es2 \<noteq> [] \<and> list_all wf_expr es2 \<and> sorted (map ContextKeyExprType es2) \<and> (length es2 \<noteq> 1 \<longrightarrow> \<not> is_or (last es2)) \<and>
        prod_list (map dnf_size es2) \<le> prod_list (map dnf_size ?es')"
      using "1.IH" [rule_format, of ?es'] e2 r(1) sort_by_types by simp
    moreover have "prod_list (map dnf_size ?es') \<le> prod_list (map dnf_size es)"
      using r(3) unfolding es by (simp add: ac_simps)
    ultimately show ?thesis by auto
  qed
qed

lemma and_normalize_shape:
  assumes "ContextKeyAndExpr_normalizeArr neg andc orc arr None chk = Some r" "list_all wf_expr (defined_elements arr)"
  shows "case r of None \<Rightarrow> defined_elements arr = []
    | Some x \<Rightarrow> defined_elements arr \<noteq> [] \<and> wf_expr x \<and> dnf_size x \<le> prod_list (map dnf_size (defined_elements arr))"
proof (cases "and_flatten arr [] False")
  case None
  have "defined_elements arr \<noteq> []" using None and_flatten_None by force
  moreover have "1 \<le> prod_list (map dnf_size (defined_elements arr))"
    using assms(2) by (intro prod_list_pos) (auto simp: list_all_iff intro: dnf_size_pos [simplified])
  ultimately show ?thesis using None assms(1) by (auto simp: ContextKeyAndExpr_normalizeArr_def)
next
  case (Some p)
  then obtain es h where p: "and_flatten arr [] False = Some (es, h)" by (cases p) auto
  note fl = and_flatten_shape [OF assms(2) _ p, simplified]
  show ?thesis
  proof (cases "length es \<le> 1")
    case True
    then consider "es = []" | e where "es = [e]" by (cases es) auto
    then show ?thesis using assms(1) fl
      by cases (auto simp: ContextKeyAndExpr_normalizeArr_def p)
  next
    case False
    let ?es1 = "eliminate_duplicates (sort_by ck_cmp es)"
    have ne: "?es1 \<noteq> []" "es \<noteq> []" using False by auto
    have es1: "list_all wf_expr ?es1" "prod_list (map dnf_size ?es1) \<le> prod_list (map dnf_size es)"
      "sorted (map ContextKeyExprType ?es1)"
      using fl eliminate_duplicates_prod [of "sort_by ck_cmp es"] sort_by_types
      by (simp_all add: eliminate_duplicates_sane eliminate_duplicates_types)
    show ?thesis
    proof (cases "length ?es1 = 1")
      case True
      then obtain e where "?es1 = [e]" by (auto simp: length_Suc_conv)
      then show ?thesis using assms(1) fl es1 ne False by (auto simp: ContextKeyAndExpr_normalizeArr_def p)
    next
      case nl: False
      then obtain es2 where es2: "and_distribute andc orc chk ?es1 = Some es2"
        using assms(1) False ne by (auto simp: ContextKeyAndExpr_normalizeArr_def p split: option.splits)
      note d = and_distribute_shape [OF es2 es1(1) ne(1) es1(3)]
      show ?thesis
      proof (cases "length es2 = 1")
        case True
        then obtain e where "es2 = [e]" by (auto simp: length_Suc_conv)
        then show ?thesis using assms(1) False ne nl d es1 fl
          by (auto simp: ContextKeyAndExpr_normalizeArr_def p es2)
      next
        case l2: False
        then have "2 \<le> length es2" using d by (cases es2; cases "tl es2") auto
        then have "wf_expr (AndExpr es2 None)" using d sorted_not_or_last [of es2] l2 by auto
        moreover have "1 \<le> prod_list (map dnf_size es2)"
          using d by (intro prod_list_pos) (auto simp: list_all_iff intro: dnf_size_pos [simplified])
        ultimately show ?thesis using assms(1) False ne nl d es1 fl l2
          by (auto simp: ContextKeyAndExpr_normalizeArr_def p es2 simp del: wf_expr.simps(9) split: option.splits if_splits)
      qed
    qed
  qed
qed

end

lemma getTerminals_not_or: "\<not> is_or e \<Longrightarrow> getTerminals e = [e]"
  by (cases e) (auto simp: is_or_def getTerminals_def)

lemma getTerminals_shape:
  assumes "wf_expr e"
  shows "getTerminals e \<noteq> []" "list_all wf_expr (getTerminals e)" "list_all (\<lambda>x. \<not> is_or x) (getTerminals e)"
  using assms by (cases e; auto simp: getTerminals_def is_or_def)+

lemma leaf_negate_shape:
  assumes "is_leaf e" "wf_expr e" "expr_negate cs neg andc orc e = Some r"
  shows "is_leaf r \<and> wf_expr r"
proof (cases e)
  case (EqualsExpr k v n)
  then show ?thesis using assms by (auto simp: negate_defs create_defs is_leaf_def split: option.splits js_prim.splits if_splits)
next
  case (NotEqualsExpr k v n)
  then show ?thesis using assms by (auto simp: negate_defs create_defs is_leaf_def split: option.splits js_prim.splits if_splits)
next
  case (GreaterExpr k v n)
  then show ?thesis using assms by (auto simp: negate_defs create_defs is_leaf_def withFloatOrStr_def Let_def split: option.splits js_prim.splits)
next
  case (GreaterEqualsExpr k v n)
  then show ?thesis using assms by (auto simp: negate_defs create_defs is_leaf_def withFloatOrStr_def Let_def split: option.splits js_prim.splits)
next
  case (SmallerExpr k v n)
  then show ?thesis using assms by (auto simp: negate_defs create_defs is_leaf_def withFloatOrStr_def Let_def split: option.splits js_prim.splits)
next
  case (SmallerEqualsExpr k v n)
  then show ?thesis using assms by (auto simp: negate_defs create_defs is_leaf_def withFloatOrStr_def Let_def split: option.splits js_prim.splits)
qed (use assms in \<open>auto simp: negate_defs create_defs is_leaf_def split: option.splits if_splits\<close>)

context ck_shape
begin

lemma or_normalize_shape:
  assumes "ContextKeyOrExpr_normalizeArr neg arr negated chk = Some r" "list_all wf_expr (defined_elements arr)"
    "pred_option wf_expr negated"
  shows "case r of None \<Rightarrow> defined_elements arr = []
    | Some x \<Rightarrow> defined_elements arr \<noteq> [] \<and> wf_expr x \<and> dnf_size x \<le> sum_list (map dnf_size (defined_elements arr)) \<and>
        set (getTerminals x) \<subseteq> {TrueExpr, FalseExpr} \<union> (\<Union>e \<in> set (defined_elements arr). set (getTerminals e))"
proof -
  have pos: "defined_elements arr \<noteq> [] \<Longrightarrow> 1 \<le> sum_list (map dnf_size (defined_elements arr))"
    using assms(2) by (intro sum_list_pos) (auto simp: list_all_iff intro: dnf_size_pos [simplified])
  show ?thesis
  proof (cases "or_flatten arr [] False")
    case None
    have "defined_elements arr \<noteq> []" using None or_flatten_None by force
    then show ?thesis using None assms(1) pos by (auto simp: ContextKeyOrExpr_normalizeArr_def getTerminals_def)
  next
    case (Some p)
    then obtain es h where p: "or_flatten arr [] False = Some (es, h)" by (cases p) auto
    note fl = or_flatten_shape [OF assms(2) _ _ p, simplified]
    show ?thesis
    proof (cases "length es \<le> 1")
      case True
      then consider "es = []" | e where "es = [e]" by (cases es) auto
      then show ?thesis using assms(1) fl pos
        by cases (auto simp: ContextKeyOrExpr_normalizeArr_def p sort_by_def getTerminals_not_or getTerminals_def [of FalseExpr])
    next
      case False
      let ?es1 = "eliminate_duplicates (sort_by ck_cmp es)"
      have ne: "?es1 \<noteq> []" "es \<noteq> []" using False by auto
      have sub: "set ?es1 \<subseteq> set es" using set_eliminate_duplicates [of "sort_by ck_cmp es"] by simp
      have es1: "list_all wf_expr ?es1" "sum_list (map dnf_size ?es1) \<le> sum_list (map dnf_size es)" "list_all (\<lambda>e. \<not> is_or e) ?es1"
        using fl eliminate_duplicates_sum [of "sort_by ck_cmp es"] by (simp_all add: eliminate_duplicates_sane)
      show ?thesis
      proof (cases "length ?es1 = 1")
        case True
        then obtain e where e: "?es1 = [e]" by (auto simp: length_Suc_conv)
        then have "e \<in> (\<Union>d \<in> set (defined_elements arr). set (getTerminals d))" using sub fl by auto
        then show ?thesis using assms(1) fl es1 ne False e
          by (auto simp: ContextKeyOrExpr_normalizeArr_def p getTerminals_not_or)
      next
        case l1: False
        then have "2 \<le> length ?es1" using ne by (cases ?es1; cases "tl ?es1") auto
        then have "wf_expr (OrExpr ?es1 negated)" using es1 assms(3) by (auto split: option.splits)
        moreover have "getTerminals (OrExpr ?es1 negated) = ?es1" by (simp add: getTerminals_def)
        ultimately show ?thesis using assms(1) False ne es1 fl l1 pos sub
          by (auto simp: ContextKeyOrExpr_normalizeArr_def p Let_def getTerminals_def [of TrueExpr] simp del: wf_expr.simps(10)
              split: option.splits if_splits)
      qed
    qed
  qed
qed

lemma negate_elements_shape:
  assumes "those (map neg es) = Some rs" "list_all wf_expr es"
  shows "list_all wf_expr rs \<and> length rs = length es"
  using those_map_Some [OF assms(1)] assms(2)
  by (induction rule: list_all2_induct) (auto dest: neg_law)

lemma negate_product_shape:
  assumes "wf_expr L" "wf_expr R"
    "those (map (\<lambda>(l, r). andc [Some l, Some r] None False) (List.product (getTerminals L) (getTerminals R))) = Some all"
  shows "list_all wf_expr (defined_elements all) \<and> defined_elements all \<noteq> []"
proof -
  have "\<forall>(l, r) \<in> set (List.product (getTerminals L) (getTerminals R)). wf_expr l \<and> wf_expr r"
    using getTerminals_shape [OF assms(1)] getTerminals_shape [OF assms(2)] by (auto simp: list_all_iff)
  moreover have "List.product (getTerminals L) (getTerminals R) \<noteq> []"
    using getTerminals_shape(1) [OF assms(1)] getTerminals_shape(1) [OF assms(2)]
    by (metis length_0_conv length_product mult_is_0)
  ultimately show ?thesis using products_shape [OF assms(3)] by auto
qed

lemma or_negate_loop_shape:
  assumes "or_negate_loop andc orc rs = Some rs2" "list_all wf_expr rs" "rs \<noteq> []"
  shows "\<exists>r. rs2 = [r] \<and> wf_expr r"
  using assms
proof (induction "length rs" arbitrary: rs rule: less_induct)
  case less
  show ?case
  proof (cases "length rs \<le> 1")
    case True
    then obtain x where "rs = [x]" using less.prems(3) by (cases rs) auto
    then show ?thesis using less.prems by auto
  next
    case False
    then obtain L R rest where rs: "rs = L # R # rest" by (cases rs; cases "tl rs") auto
    obtain all r where all: "those (map (\<lambda>(l, r). andc [Some l, Some r] None False) (List.product (getTerminals L) (getTerminals R))) = Some all"
      and r: "orc all None False = Some (Some r)" and rec: "or_negate_loop andc orc (r # rest) = Some rs2"
      using less.prems(1) unfolding rs by (auto simp: defined_result_Some split: option.splits)
    have LR: "wf_expr L" "wf_expr R" "list_all wf_expr rest" using less.prems(2) by (auto simp: rs)
    from or_law [OF r] negate_product_shape [OF LR(1,2) all] have "wf_expr r" by simp
    then show ?thesis using less.hyps [OF _ rec] LR by (simp add: rs)
  qed
qed

lemma negate_shape:
  assumes "expr_negate cs neg andc orc e = Some r" "wf_expr e"
  shows "wf_expr r"
proof (cases "is_leaf e")
  case True
  then show ?thesis using leaf_negate_shape assms by blast
next
  case False
  then consider es n where "e = AndExpr es n" | es n where "e = OrExpr es n"
    by (auto simp: is_leaf_iff or_elements_Some and_elements_Some)
  then show ?thesis
  proof cases
    case 1
    with assms obtain rs where rs: "those (map neg es) = Some rs" and r: "orc (map Some rs) (Some e) True = Some (Some r)"
      by (auto simp: ContextKeyAndExpr_negate_def defined_result_Some split: option.splits)
    then show ?thesis using or_law [OF r] negate_elements_shape [OF rs] assms(2) 1 by simp
  next
    case 2
    show ?thesis
    proof (cases n)
      case None
      with 2 assms obtain rs rs2 where rs: "those (map neg es) = Some rs" and rs2: "or_negate_loop andc orc rs = Some rs2"
        and r: "orc (map Some rs2) (Some e) True = Some (Some r)"
        by (auto simp: ContextKeyOrExpr_negate_def defined_result_Some split: option.splits)
      have "list_all wf_expr rs" "rs \<noteq> []" using negate_elements_shape [OF rs] assms(2) 2 by auto
      with or_negate_loop_shape [OF rs2] or_law [OF r] assms(2) show ?thesis by auto
    qed (use 2 assms in \<open>auto simp: ContextKeyOrExpr_negate_def\<close>)
  qed
qed

end

lemma ck_shape_bounded:
  "ck_shape (ck_negate n cs) (ContextKeyAndExpr_create n cs) (ContextKeyOrExpr_create n cs)"
proof (induction n)
  case 0
  then show ?case by unfold_locales auto
next
  case (Suc n)
  then show ?case
    using ck_shape.negate_shape [OF Suc] ck_shape.and_normalize_shape [OF Suc] ck_shape.or_normalize_shape [OF Suc]
    by unfold_locales simp_all
qed

interpretation shaped: ck_shape "ck_negate n cs" "ContextKeyAndExpr_create n cs" "ContextKeyOrExpr_create n cs"
  for cs n
  by (rule ck_shape_bounded)

end
