(* ===== verification/Context_Key_Fuel.thy ===== *)
theory Context_Key_Fuel
  imports Context_Key_Shape
begin

text \<open>
  The mutually recursive operations return.  A negation recurs on expressions whose largest OR is smaller; a
  conjunction recurs on arrays with fewer products.  So from some bound on the result of \<^verbatim>\<open>negate\<close> and
  \<^verbatim>\<open>create\<close> no longer changes.
\<close>

section \<open>Enough fuel\<close>

text \<open>From some bound on, the result no longer depends on the bound.\<close>

definition settles :: "(nat \<Rightarrow> 'a option) \<Rightarrow> 'a \<Rightarrow> bool" where
  "settles f r \<longleftrightarrow> (\<exists>N. \<forall>n \<ge> N. f n = Some r)"

lemma settlesI: "(\<And>n. n \<ge> N \<Longrightarrow> f n = Some r) \<Longrightarrow> settles f r"
  by (auto simp: settles_def)

lemma settles_const [simp]: "settles (\<lambda>n. Some r) r"
  by (auto simp: settles_def)

lemma settles_Suc: "settles (\<lambda>n. f (Suc n)) r \<Longrightarrow> settles f r"
  unfolding settles_def by (metis Suc_le_D Suc_le_mono)

lemma settles_ex_Suc: "\<exists>r. settles (\<lambda>n. f (Suc n)) r \<Longrightarrow> \<exists>r. settles f r"
  by (elim exE, rule exI, rule settles_Suc)

lemma settles_const_ex [simp]: "\<exists>r. settles (\<lambda>n. Some x) r"
  by (rule exI) (rule settles_const)

lemma settles_value: "settles f r \<Longrightarrow> \<exists>n. f n = Some r"
  by (auto simp: settles_def)

lemma settles_both: "settles f r \<Longrightarrow> settles g s \<Longrightarrow> \<exists>n. f n = Some r \<and> g n = Some s"
  unfolding settles_def by (metis nle_le)

lemma settles_bind:
  assumes "settles f x" "settles (\<lambda>n. g n x) r"
  shows "settles (\<lambda>n. case f n of None \<Rightarrow> None | Some x \<Rightarrow> g n x) r"
proof -
  obtain N M where "\<forall>n \<ge> N. f n = Some x" "\<forall>n \<ge> M. g n x = Some r" using assms by (auto simp: settles_def)
  then show ?thesis by (intro settlesI [of "max N M"]) auto
qed

lemma settles_case: "settles f x \<Longrightarrow> \<exists>r. settles (\<lambda>n. case f n of None \<Rightarrow> None | Some x \<Rightarrow> Some (h x)) r"
  by (rule exI, rule settles_bind [where g = "\<lambda>n x. Some (h x)"], assumption, rule settles_const)

lemma settles_ifI:
  "(c \<Longrightarrow> \<exists>r. settles f r) \<Longrightarrow> (\<not> c \<Longrightarrow> \<exists>r. settles g r) \<Longrightarrow> \<exists>r. settles (\<lambda>n. if c then f n else g n) r"
  by (cases c) auto

lemma settles_those:
  "(\<And>x. x \<in> set xs \<Longrightarrow> \<exists>r. settles (\<lambda>n. f n x) r) \<Longrightarrow> \<exists>rs. settles (\<lambda>n. those (map (f n) xs)) rs"
proof (induction xs)
  case (Cons x xs)
  then obtain r rs where "settles (\<lambda>n. f n x) r" "settles (\<lambda>n. those (map (f n) xs)) rs" by force
  then obtain N M where "\<forall>n \<ge> N. f n x = Some r" "\<forall>n \<ge> M. those (map (f n) xs) = Some rs"
    by (auto simp: settles_def)
  then show ?case by (intro exI [of _ "r # rs"] settlesI [of "max N M"]) auto
qed (auto intro: exI [of _ "[]"])

lemma settles_pairs:
  assumes "\<And>e. e \<in> set es \<Longrightarrow> \<exists>r. settles (\<lambda>n. f n e) r"
  shows "\<exists>b. settles (\<lambda>n. has_negated_pair (f n) es) b"
  using assms
proof (induction es)
  case (Cons e es)
  obtain ne where ne: "settles (\<lambda>n. f n e) ne" using Cons.prems by auto
  obtain b where b: "settles (\<lambda>n. has_negated_pair (f n) es) b" using Cons by auto
  show ?case
  proof (cases "es = []")
    case False
    let ?g = "\<lambda>n ne. if list_ex (ck_equals ne) es then Some True else has_negated_pair (f n) es"
    have "settles (\<lambda>n. ?g n ne) (if list_ex (ck_equals ne) es then True else b)" using b by simp
    from settles_bind [where g = ?g, OF ne this] show ?thesis using False by auto
  qed auto
qed auto

lemma or_create_settles:
  assumes "list_all wf_expr (defined_elements arr)"
    "\<And>e t. e \<in> set (defined_elements arr) \<Longrightarrow> t \<in> set (getTerminals e) \<Longrightarrow> \<exists>r. settles (\<lambda>n. ck_negate n cs t) r"
  shows "\<exists>r. settles (\<lambda>n. ContextKeyOrExpr_create n cs arr negated chk) r"
proof (cases "or_flatten arr [] False")
  case None
  then show ?thesis by - (rule settles_ex_Suc, auto simp: ContextKeyOrExpr_normalizeArr_def)
next
  case (Some p)
  then obtain es h where p: "or_flatten arr [] False = Some (es, h)" by (cases p) auto
  let ?es1 = "eliminate_duplicates (sort_by ck_cmp es)"
  have "set ?es1 \<subseteq> set es" using set_eliminate_duplicates [of "sort_by ck_cmp es"] by simp
  with or_flatten_shape [OF assms(1) _ _ p] assms(2)
  have "\<exists>r. settles (\<lambda>n. ck_negate n cs e) r" if "e \<in> set ?es1" for e using that by fastforce
  then obtain b where "settles (\<lambda>n. has_negated_pair (ck_negate n cs) ?es1) b"
    using settles_pairs [of ?es1 "\<lambda>n. ck_negate n cs"] by blast
  note settles_case [OF this, of "\<lambda>b. Some (if b then TrueExpr else OrExpr ?es1 negated)"]
  then show ?thesis 
    by - (rule settles_ex_Suc, unfold ContextKeyOrExpr_create.simps ContextKeyOrExpr_normalizeArr_def p option.case prod.case Let_def,
      intro settles_ifI settles_const_ex)
qed

lemma and_distribute_stays: "\<not> is_or (last es) \<or> length es \<le> 1 \<Longrightarrow> and_distribute andc orc chk es = Some es"
  unfolding and_distribute.simps [of andc orc chk es] by (cases "last es") (auto simp: is_or_iff)

subsection \<open>Negation\<close>

fun rank :: "ContextKeyExpression \<Rightarrow> nat" where
  "rank (OrExpr es n) = Suc (size (OrExpr es n))"
| "rank (AndExpr es n) = foldr max (map rank es) 1"
| "rank _ = 0"

lemma foldr_max_le: "foldr max xs (b::nat) \<le> k \<longleftrightarrow> b \<le> k \<and> (\<forall>x \<in> set xs. x \<le> k)"
  by (induction xs) auto

lemma rank_and_le: "rank (AndExpr es n) \<le> k \<longleftrightarrow> 1 \<le> k \<and> (\<forall>e \<in> set es. rank e \<le> k)"
  by (simp add: foldr_max_le)

lemma rank_element: "e \<in> set es \<Longrightarrow> rank e \<le> rank (AndExpr es n)"
  using rank_and_le [of es n "rank (AndExpr es n)"] by blast

lemma rank_leaf: "is_leaf e \<Longrightarrow> rank e = 0"
  by (cases e) (auto simp: is_leaf_def)

lemma rank_size: "rank e \<le> Suc (size e)"
proof (induction e)
  case (AndExpr es n)
  have "rank e \<le> Suc (size (AndExpr es n))" if "e \<in> set es" for e
    using AndExpr(1) [OF that] size_element(2) [OF that, of n] by linarith
  then show ?case unfolding rank_and_le by simp
qed simp_all

lemma rank_terminal: "t \<in> set (getTerminals e) \<Longrightarrow> rank t \<le> rank e"
proof (cases "is_or e")
  case True
  assume t: "t \<in> set (getTerminals e)"
  obtain es n where e: "e = OrExpr es n" using True by (auto simp: is_or_iff)
  have "size t < size e" using t size_element(1) [of t es n] by (simp add: e getTerminals_def)
  then show ?thesis using rank_size [of t] by (simp add: e)
qed (auto simp: getTerminals_not_or)

lemma settles_those_all:
  assumes "\<And>x. x \<in> set xs \<Longrightarrow> \<exists>r. settles (\<lambda>n. f n x) r \<and> P x r"
  shows "\<exists>rs. settles (\<lambda>n. those (map (f n) xs)) rs \<and> list_all2 P xs rs"
  using assms
proof (induction xs)
  case (Cons x xs)
  then obtain r rs where "settles (\<lambda>n. f n x) r" "P x r" "settles (\<lambda>n. those (map (f n) xs)) rs" "list_all2 P xs rs" by force
  then obtain N M where "\<forall>n \<ge> N. f n x = Some r" "\<forall>n \<ge> M. those (map (f n) xs) = Some rs" "list_all2 P (x # xs) (r # rs)"
    by (auto simp: settles_def)
  then show ?case by (intro exI [of _ "r # rs"] conjI settlesI [of "max N M"]) auto
qed (auto intro: exI [of _ "[]"])

lemma settles_defined_result: "settles f (Some r) \<Longrightarrow> settles (\<lambda>n. defined_result (f n)) r"
  unfolding settles_def by (elim exE, rule exI) auto

lemma ck_equals_type: "ck_equals x y \<Longrightarrow> ContextKeyExprType x = ContextKeyExprType y"
  by (cases x; cases y) (simp_all add: equals_defs)

lemma eliminate_duplicates_type_set:
  "ContextKeyExprType ` set (eliminate_duplicates es) = ContextKeyExprType ` set es"
  by (induction es rule: eliminate_duplicates.induct) (auto dest: ck_equals_type)

text \<open>The elements an expression adds to the array of an AND.\<close>

fun and_parts :: "ContextKeyExpression \<Rightarrow> ContextKeyExpression list" where
  "and_parts (AndExpr es n) = es"
| "and_parts TrueExpr = []"
| "and_parts e = [e]"

lemma and_flatten_Some: "and_flatten arr acc b = Some (es, h) \<Longrightarrow> es = acc @ concat (map and_parts (defined_elements arr))"
proof (induction arr acc b rule: and_flatten.induct)
  case (3 e arr acc b)
  then show ?case by (cases e) auto
qed auto

lemma and_parts_rank: "p \<in> set (and_parts e) \<Longrightarrow> rank p \<le> rank e"
  using rank_element by (cases e) auto

lemma and_parts_late:
  "wf_expr e \<Longrightarrow> \<not> is_or e \<Longrightarrow> list_ex is_or (and_parts e) \<Longrightarrow> list_ex (\<lambda>e. 9 < ContextKeyExprType e) (and_parts e)"
  by (cases e) (auto simp: is_or_def)

lemma late_not_or_last:
  assumes "sorted (map ContextKeyExprType es)" "list_ex is_or es \<longrightarrow> list_ex (\<lambda>e. 9 < ContextKeyExprType e) es" "es \<noteq> []"
  shows "\<not> is_or (last es)"
proof -
  obtain xs l where es: "es = xs @ [l]" using assms(3) by (cases es rule: rev_cases) auto
  have "ContextKeyExprType e \<le> ContextKeyExprType l" if "e \<in> set es" for e
    using that assms(1) by (auto simp: es sorted_append)
  then show ?thesis using assms(2) by (force simp: es is_or_def list_ex_iff)
qed

text \<open>The AND of two terms is made without a further call.\<close>

lemma and_create_pair:
  assumes "wf_expr l" "wf_expr r" "\<not> is_or l" "\<not> is_or r"
  shows "\<exists>x. (\<forall>n. ContextKeyAndExpr_create (Suc n) cs [Some l, Some r] None False = Some (Some x)) \<and>
    rank x \<le> max 1 (max (rank l) (rank r))"
proof (cases "and_flatten [Some l, Some r] [] False")
  case None
  then show ?thesis by (intro exI [of _ FalseExpr]) (simp add: ContextKeyAndExpr_normalizeArr_def)
next
  case (Some p)
  then obtain es h where p: "and_flatten [Some l, Some r] [] False = Some (es, h)" by (cases p) auto
  have es: "es = and_parts l @ and_parts r" using and_flatten_Some [OF p] by simp
  have rk: "rank e \<le> max 1 (max (rank l) (rank r))" if "e \<in> set es" for e
    using that and_parts_rank [of e l] and_parts_rank [of e r] by (auto simp: es)
  have late: "list_ex is_or es \<longrightarrow> list_ex (\<lambda>e. 9 < ContextKeyExprType e) es"
    using and_parts_late assms by (auto simp: es)
  let ?es1 = "eliminate_duplicates (sort_by ck_cmp es)"
  have sub: "set ?es1 \<subseteq> set es" using set_eliminate_duplicates [of "sort_by ck_cmp es"] by simp
  have ty: "ContextKeyExprType ` set ?es1 = ContextKeyExprType ` set es" using eliminate_duplicates_type_set [of "sort_by ck_cmp es"] by simp
  have "list_ex is_or ?es1 \<longrightarrow> list_ex (\<lambda>e. 9 < ContextKeyExprType e) ?es1"
  proof
    assume "list_ex is_or ?es1"
    then have "list_ex is_or es" using sub by (auto simp: list_ex_iff)
    with late obtain e where "e \<in> set es" "9 < ContextKeyExprType e" by (auto simp: list_ex_iff)
    then obtain e' where "e' \<in> set ?es1" "ContextKeyExprType e' = ContextKeyExprType e" using ty by (metis imageE imageI)
    with \<open>9 < ContextKeyExprType e\<close> show "list_ex (\<lambda>e. 9 < ContextKeyExprType e) ?es1"
      by (auto simp: list_ex_iff intro!: bexI [of _ e'])
  qed
  then have "and_distribute andc orc False ?es1 = Some ?es1" if "es \<noteq> []" for andc orc
    using late_not_or_last [of ?es1] that sort_by_types by (intro and_distribute_stays) (simp add: eliminate_duplicates_types)
  then have "ContextKeyAndExpr_create (Suc n) cs [Some l, Some r] None False =
      Some (Some (if es = [] then TrueExpr else if length es = 1 then hd es else if length ?es1 = 1 then hd ?es1 else AndExpr ?es1 None))" for n
    using and_flatten_shape [OF _ _ p] assms by (auto simp: ContextKeyAndExpr_normalizeArr_def p Let_def simp del: and_flatten.simps)
  moreover have "rank (if es = [] then TrueExpr else if length es = 1 then hd es else if length ?es1 = 1 then hd ?es1 else AndExpr ?es1 None)
      \<le> max 1 (max (rank l) (rank r))"
  proof -
    have "rank (AndExpr ?es1 None) \<le> max 1 (max (rank l) (rank r))" unfolding rank_and_le using sub rk by auto
    moreover have "es \<noteq> [] \<Longrightarrow> hd es \<in> set es \<and> hd ?es1 \<in> set es"
      using sub hd_in_set [of ?es1] by auto
    ultimately show ?thesis using rk by auto
  qed
  ultimately show ?thesis by blast
qed

lemma or_create_unchecked: "\<exists>r. \<forall>n. ContextKeyOrExpr_create (Suc n) cs arr negated False = Some r"
proof -
  have "ContextKeyOrExpr_normalizeArr f arr negated False = ContextKeyOrExpr_normalizeArr (\<lambda>_. None) arr negated False"
    and "ContextKeyOrExpr_normalizeArr (\<lambda>_. None) arr negated False \<noteq> None" for f
    by (auto simp: ContextKeyOrExpr_normalizeArr_def Let_def split: option.split)
  then show ?thesis by fastforce
qed

lemma leaf_negate_settles:
  assumes "is_leaf e" "wf_expr e"
  shows "\<exists>r. settles (\<lambda>n. ck_negate n cs e) r \<and> (\<forall>t \<in> set (getTerminals r). rank t = 0)"
proof -
  obtain r where r: "expr_negate cs neg andc orc e = Some r" for neg andc orc
    using assms(1) by (cases e) (auto simp: is_leaf_def)
  have "is_leaf r" using leaf_negate_shape [OF assms r] by simp
  then have "\<forall>t \<in> set (getTerminals r). rank t = 0"
    using rank_leaf by (auto simp: getTerminals_not_or is_leaf_def is_or_def)
  moreover have "settles (\<lambda>n. ck_negate n cs e) r" by (rule settlesI [of 1]) (auto simp: r gr0_conv_Suc Suc_le_eq)
  ultimately show ?thesis by blast
qed

lemma or_negate_loop_settles:
  assumes "list_all wf_expr rs" "rs \<noteq> []" "1 \<le> K" "\<And>r t. r \<in> set rs \<Longrightarrow> t \<in> set (getTerminals r) \<Longrightarrow> rank t \<le> K"
  shows "\<exists>r. settles (\<lambda>n. or_negate_loop (ContextKeyAndExpr_create n cs) (ContextKeyOrExpr_create n cs) rs) [r] \<and>
    wf_expr r \<and> (\<forall>t \<in> set (getTerminals r). rank t \<le> K)"
  using assms
proof (induction "length rs" arbitrary: rs rule: less_induct)
  case less
  show ?case
  proof (cases "length rs \<le> 1")
    case True
    then obtain x where "rs = [x]" using less.prems(2) by (cases rs) auto
    then show ?thesis using less.prems by (auto intro!: exI [of _ x])
  next
    case False
    then obtain L R rest where rs: "rs = L # R # rest" by (cases rs; cases "tl rs") auto
    let ?ps = "List.product (getTerminals L) (getTerminals R)"
    have LR: "wf_expr L" "wf_expr R" "list_all wf_expr rest" using less.prems(1) by (auto simp: rs)
    have "\<exists>x. settles (\<lambda>n. case p of (l, r) \<Rightarrow> ContextKeyAndExpr_create n cs [Some l, Some r] None False) x \<and>
        (\<exists>y. x = Some y \<and> rank y \<le> K)" if p: "p \<in> set ?ps" for p
    proof -
      obtain l r where p': "p = (l, r)" "l \<in> set (getTerminals L)" "r \<in> set (getTerminals R)" using p by auto
      have lr: "wf_expr l" "wf_expr r" "\<not> is_or l" "\<not> is_or r"
        using p' getTerminals_shape [OF LR(1)] getTerminals_shape [OF LR(2)] by (auto simp: list_all_iff)
      have "rank l \<le> K" "rank r \<le> K" using less.prems(4) p' by (auto simp: rs)
      with and_create_pair [OF lr, of cs] less.prems(3) obtain x
        where "\<forall>n. ContextKeyAndExpr_create (Suc n) cs [Some l, Some r] None False = Some (Some x)" "rank x \<le> K" by fastforce
      then show ?thesis unfolding p'(1) prod.case
        by - (rule exI [of _ "Some x"], rule conjI, rule settles_Suc, auto)
    qed
    from settles_those_all [of ?ps "\<lambda>n p. case p of (l, r) \<Rightarrow> ContextKeyAndExpr_create n cs [Some l, Some r] None False"
        "\<lambda>p x. \<exists>y. x = Some y \<and> rank y \<le> K", OF this] obtain all where
      all: "settles (\<lambda>n. those (map (\<lambda>p. case p of (l, r) \<Rightarrow> ContextKeyAndExpr_create n cs [Some l, Some r] None False) ?ps)) all"
      and al: "list_all2 (\<lambda>p x. \<exists>y. x = Some y \<and> rank y \<le> K) ?ps all" by blast
    have "\<forall>x \<in> set all. \<exists>y. x = Some y \<and> rank y \<le> K"
      using al by (auto simp: list_all2_conv_all_nth in_set_conv_nth)
    then have allK: "rank y \<le> K" if "y \<in> set (defined_elements all)" for y
      using that by (auto simp: set_defined_elements)
    obtain n where "those (map (\<lambda>p. case p of (l, r) \<Rightarrow> ContextKeyAndExpr_create n cs [Some l, Some r] None False) ?ps) = Some all"
      using settles_value [OF all] by blast
    note sh = shaped.negate_product_shape [OF LR(1,2) this]
    obtain x where x: "\<forall>n. ContextKeyOrExpr_create (Suc n) cs all None False = Some x" using or_create_unchecked by blast
    from shaped.or_law [OF x [rule_format]] sh obtain r where r: "x = Some r" "wf_expr r"
      "set (getTerminals r) \<subseteq> {TrueExpr, FalseExpr} \<union> (\<Union>e \<in> set (defined_elements all). set (getTerminals e))"
      by (auto split: option.splits)
    have rK: "rank t \<le> K" if "t \<in> set (getTerminals r)" for t
      using r(3) that order_trans [OF rank_terminal allK] by auto
    have "settles (\<lambda>n. ContextKeyOrExpr_create n cs all None False) (Some r)"
      by (rule settles_Suc) (simp add: x r(1) del: ContextKeyOrExpr_create.simps)
    note dr = settles_defined_result [OF this]
    obtain r2 where r2: "settles (\<lambda>n. or_negate_loop (ContextKeyAndExpr_create n cs) (ContextKeyOrExpr_create n cs) (r # rest)) [r2]"
      "wf_expr r2" "\<forall>t \<in> set (getTerminals r2). rank t \<le> K"
      using less.hyps [of "r # rest"] less.prems(3,4) r(2) rK LR(3) by (auto simp: rs)
    have "settles (\<lambda>n. or_negate_loop (ContextKeyAndExpr_create n cs) (ContextKeyOrExpr_create n cs) rs) [r2]"
      unfolding rs or_negate_loop.simps
      by (rule settles_bind [OF all]) (rule settles_bind [where g = "\<lambda>n r. or_negate_loop (ContextKeyAndExpr_create n cs)
          (ContextKeyOrExpr_create n cs) (r # rest)", OF dr r2(1)])
    then show ?thesis using r2 by blast
  qed
qed

definition negation_settles :: "constants \<Rightarrow> ContextKeyExpression \<Rightarrow> bool" where
  "negation_settles cs e \<longleftrightarrow>
     (\<exists>r. settles (\<lambda>n. ck_negate n cs e) r \<and> wf_expr r \<and> (\<forall>t \<in> set (getTerminals r). rank t < max 1 (rank e)))"

lemma negation_settlesI:
  assumes "settles (\<lambda>n. ck_negate n cs e) r" "wf_expr e" "\<And>t. t \<in> set (getTerminals r) \<Longrightarrow> rank t < max 1 (rank e)"
  shows "negation_settles cs e"
  using assms settles_value [OF assms(1)] shaped.neg_law unfolding negation_settles_def by blast

text \<open>The last step of a negation: the OR of negations, checked for a contradiction.\<close>

lemma or_create_negations:
  assumes "list_all wf_expr rs" "rs \<noteq> []" "wf_expr e"
    "\<And>r t. r \<in> set rs \<Longrightarrow> t \<in> set (getTerminals r) \<Longrightarrow> wf_expr t \<Longrightarrow> rank t < K \<and> negation_settles cs t" "1 \<le> K"
  shows "\<exists>r. settles (\<lambda>n. defined_result (ContextKeyOrExpr_create n cs (map Some rs) (Some e) True)) r \<and>
    (\<forall>t \<in> set (getTerminals r). rank t < K)"
proof -
  have tw: "wf_expr t" if "r \<in> set rs" "t \<in> set (getTerminals r)" for r t
    using that assms(1) getTerminals_shape(2) by (auto simp: list_all_iff)
  have "\<exists>r'. settles (\<lambda>n. ck_negate n cs t) r'" if "r \<in> set rs" "t \<in> set (getTerminals r)" for r t
    using assms(4) [OF that tw [OF that]] by (auto simp: negation_settles_def)
  then have "\<exists>x. settles (\<lambda>n. ContextKeyOrExpr_create n cs (map Some rs) (Some e) True) x"
    by (intro or_create_settles) (simp_all add: assms(1))
  then obtain x where x: "settles (\<lambda>n. ContextKeyOrExpr_create n cs (map Some rs) (Some e) True) x" ..
  obtain n where n: "ContextKeyOrExpr_create n cs (map Some rs) (Some e) True = Some x" using settles_value [OF x] ..
  have "pred_option wf_expr (Some e)" by (simp add: assms(3))
  from shaped.or_law [OF n _ this] assms(1,2) obtain r where r: "x = Some r"
    "set (getTerminals r) \<subseteq> {TrueExpr, FalseExpr} \<union> (\<Union>e \<in> set rs. set (getTerminals e))"
    by (auto split: option.splits)
  have "rank t < K" if "t \<in> set (getTerminals r)" for t
  proof -
    from r(2) that consider "rank t = 0" | e where "e \<in> set rs" "t \<in> set (getTerminals e)" by auto
    then show ?thesis
    proof cases
      case 1
      then show ?thesis using assms(5) by simp
    next
      case 2
      then show ?thesis using assms(4) tw by blast
    qed
  qed
  then show ?thesis using settles_defined_result [OF x [unfolded r(1)]] by blast
qed

lemma and_negate_settles:
  assumes "wf_expr (AndExpr es n)" "\<And>e. e \<in> set es \<Longrightarrow> negation_settles cs e"
    "\<And>t. wf_expr t \<Longrightarrow> rank t < rank (AndExpr es n) \<Longrightarrow> negation_settles cs t"
  shows "negation_settles cs (AndExpr es n)"
proof -
  let ?e = "AndExpr es n"
  have n: "n = None" using assms(1) by simp
  have pos: "1 \<le> rank ?e" using rank_and_le [of es n "rank ?e"] by blast
  have "\<exists>r. settles (\<lambda>n. ck_negate n cs e) r \<and> wf_expr r \<and> (\<forall>t \<in> set (getTerminals r). rank t < rank ?e)" if "e \<in> set es" for e
  proof -
    have "max 1 (rank e) \<le> rank ?e" using rank_element [OF that, of n] pos by simp
    then show ?thesis using assms(2) [OF that] unfolding negation_settles_def by (meson less_le_trans)
  qed
  from settles_those_all [of es "\<lambda>n e. ck_negate n cs e", OF this] obtain rs
    where rs: "settles (\<lambda>n. those (map (ck_negate n cs) es)) rs"
      and P: "list_all2 (\<lambda>e r. wf_expr r \<and> (\<forall>t \<in> set (getTerminals r). rank t < rank ?e)) es rs" by blast
  have Pr: "wf_expr r \<and> (\<forall>t \<in> set (getTerminals r). rank t < rank ?e)" if "r \<in> set rs" for r
    using P that by (auto simp: list_all2_conv_all_nth in_set_conv_nth)
  have ne: "rs \<noteq> []" using P assms(1) by auto
  have "\<exists>r. settles (\<lambda>n. defined_result (ContextKeyOrExpr_create n cs (map Some rs) (Some ?e) True)) r \<and>
      (\<forall>t \<in> set (getTerminals r). rank t < rank ?e)"
    by (rule or_create_negations) (use Pr ne pos assms(1,3) in \<open>auto simp: list_all_iff simp del: rank.simps\<close>)
  then obtain r where r: "settles (\<lambda>n. defined_result (ContextKeyOrExpr_create n cs (map Some rs) (Some ?e) True)) r"
    "\<forall>t \<in> set (getTerminals r). rank t < rank ?e" by blast
  have "settles (\<lambda>m. ck_negate (Suc m) cs ?e) r"
    using settles_bind [where g = "\<lambda>m rs. defined_result (ContextKeyOrExpr_create m cs (map Some rs) (Some ?e) True)", OF rs r(1)]
    unfolding n by (simp add: ContextKeyAndExpr_negate_def)
  then show ?thesis using negation_settlesI [OF settles_Suc] assms(1) r(2) by force
qed

lemma or_negate_settles:
  assumes "wf_expr (OrExpr es n)" "\<And>t. wf_expr t \<Longrightarrow> rank t < rank (OrExpr es n) \<Longrightarrow> negation_settles cs t"
  shows "negation_settles cs (OrExpr es n)"
proof (cases n)
  case (Some m)
  have "size m < size (OrExpr es n)" by (simp add: Some)
  then have "rank t < rank (OrExpr es n)" if "t \<in> set (getTerminals m)" for t
    using rank_terminal [OF that] rank_size [of m] by simp
  moreover have "settles (\<lambda>k. ck_negate (Suc k) cs (OrExpr es n)) m"
    by (simp add: ContextKeyOrExpr_negate_def Some)
  ultimately show ?thesis using negation_settlesI [OF settles_Suc] assms(1) by force
next
  case None
  let ?e = "OrExpr es n" and ?K = "size (OrExpr es n)"
  have "\<exists>r. settles (\<lambda>n. ck_negate n cs e) r \<and> wf_expr r \<and> (\<forall>t \<in> set (getTerminals r). rank t \<le> ?K)" if "e \<in> set es" for e
  proof -
    have "wf_expr e" using assms(1) that by (auto simp: list_all_iff)
    moreover have "rank e \<le> ?K" using rank_size [of e] size_element(1) [OF that, of n] by linarith
    ultimately have "negation_settles cs e" using assms(2) by simp
    moreover have "max 1 (rank e) \<le> ?K" using \<open>rank e \<le> ?K\<close> by simp
    ultimately show ?thesis unfolding negation_settles_def by (meson less_le_trans less_imp_le)
  qed
  from settles_those_all [of es "\<lambda>n e. ck_negate n cs e", OF this] obtain rs
    where rs: "settles (\<lambda>n. those (map (ck_negate n cs) es)) rs"
      and P: "list_all2 (\<lambda>e r. wf_expr r \<and> (\<forall>t \<in> set (getTerminals r). rank t \<le> ?K)) es rs" by blast
  have Pr: "wf_expr r \<and> (\<forall>t \<in> set (getTerminals r). rank t \<le> ?K)" if "r \<in> set rs" for r
    using P that by (auto simp: list_all2_conv_all_nth in_set_conv_nth)
  have ne: "rs \<noteq> []" "list_all wf_expr rs" using P assms(1) Pr by (auto simp: list_all_iff)
  have "\<exists>r. settles (\<lambda>n. or_negate_loop (ContextKeyAndExpr_create n cs) (ContextKeyOrExpr_create n cs) rs) [r] \<and>
      wf_expr r \<and> (\<forall>t \<in> set (getTerminals r). rank t \<le> ?K)"
    by (rule or_negate_loop_settles) (use ne Pr in auto)
  then obtain x where x: "settles (\<lambda>n. or_negate_loop (ContextKeyAndExpr_create n cs) (ContextKeyOrExpr_create n cs) rs) [x]"
    "wf_expr x" "\<forall>t \<in> set (getTerminals x). rank t \<le> ?K" by blast
  have "\<exists>r. settles (\<lambda>n. defined_result (ContextKeyOrExpr_create n cs (map Some [x]) (Some ?e) True)) r \<and>
      (\<forall>t \<in> set (getTerminals r). rank t < rank ?e)"
    by (rule or_create_negations) (use x assms in auto)
  then obtain r where r: "settles (\<lambda>n. defined_result (ContextKeyOrExpr_create n cs (map Some [x]) (Some ?e) True)) r"
    "\<forall>t \<in> set (getTerminals r). rank t < rank ?e" by blast
  note in2 = settles_bind [where g = "\<lambda>m rs. defined_result (ContextKeyOrExpr_create m cs (map Some rs) (Some ?e) True)", OF x(1) r(1)]
  have "settles (\<lambda>m. ck_negate (Suc m) cs ?e) r"
    using settles_bind [where g = "\<lambda>m rs. case or_negate_loop (ContextKeyAndExpr_create m cs) (ContextKeyOrExpr_create m cs) rs of None \<Rightarrow> None
        | Some rs \<Rightarrow> defined_result (ContextKeyOrExpr_create m cs (map Some rs) (Some ?e) True)", OF rs in2]
    unfolding None by (simp add: ContextKeyOrExpr_negate_def)
  then show ?thesis using negation_settlesI [OF settles_Suc] assms(1) r(2) by force
qed

lemma negation_settles_wf: "wf_expr e \<Longrightarrow> negation_settles cs e"
proof (induction e rule: wf_induct_rule [OF wf_mlex [OF wf_measure [of size], of rank]])
  case (1 e)
  have lower: "negation_settles cs t" if "wf_expr t" "rank t < rank e" for t
    using 1 that by (auto intro: mlex_less)
  show ?case
  proof (cases "is_leaf e")
    case True
    then show ?thesis using leaf_negate_settles [OF True 1(2)] negation_settlesI [of cs e] 1(2) by fastforce
  next
    case False
    then consider es n where "e = AndExpr es n" | es n where "e = OrExpr es n"
      by (auto simp: is_leaf_iff or_elements_Some and_elements_Some)
    then show ?thesis
    proof cases
      case a: 1
      have "negation_settles cs x" if "x \<in> set es" for x
      proof (rule 1(1))
        show "(x, e) \<in> rank <*mlex*> measure size"
          using rank_element [OF that, of n] size_element(2) [OF that, of n] by (intro mlex_leq) (simp_all add: a del: rank.simps)
        show "wf_expr x" using 1(2) that by (auto simp: a list_all_iff)
      qed
      then show ?thesis using and_negate_settles [of es n cs] 1(2) lower unfolding a by blast
    next
      case 2
      then show ?thesis using or_negate_settles [of es n cs] \<open>wf_expr e\<close> lower by blast
    qed
  qed
qed

lemma negate_settles: "wf_expr e \<Longrightarrow> \<exists>r. settles (\<lambda>n. ck_negate n cs e) r"
  using negation_settles_wf [of e cs] unfolding negation_settles_def by blast

lemma or_create_settles_wf:
  assumes "list_all wf_expr (defined_elements arr)"
  shows "\<exists>r. settles (\<lambda>n. ContextKeyOrExpr_create n cs arr negated chk) r"
proof (rule or_create_settles [OF assms])
  fix e t
  assume "e \<in> set (defined_elements arr)" "t \<in> set (getTerminals e)"
  then show "\<exists>r. settles (\<lambda>n. ck_negate n cs t) r"
    using assms getTerminals_shape(2) by (intro negate_settles) (auto simp: list_all_iff)
qed

subsection \<open>Conjunction\<close>

lemma dnf_size_or_element:
  assumes "wf_expr (OrExpr os n)" "el \<in> set os"
  shows "dnf_size el < dnf_size (OrExpr os n)"
proof -
  obtain xs ys where os: "os = xs @ el # ys" using assms(2) by (auto simp: in_set_conv_decomp)
  have pos: "\<forall>e \<in> set (xs @ ys). 1 \<le> dnf_size e" using assms(1) dnf_size_pos by (auto simp: os list_all_iff)
  have "xs @ ys \<noteq> []" using assms(1) by (auto simp: os)
  from sum_list_pos [OF this pos] show ?thesis unfolding os dnf_size.simps map_append sum_list_append list.map sum_list.Cons by linarith
qed

lemma and_distribute_settles:
  assumes "list_all wf_expr es" "prod_list (map dnf_size es) \<le> P"
    "\<And>arr. list_all wf_expr (defined_elements arr) \<Longrightarrow> prod_list (map dnf_size (defined_elements arr)) < P \<Longrightarrow>
       \<exists>r. settles (\<lambda>n. ContextKeyAndExpr_create n cs arr None chk) r"
  shows "\<exists>es2. settles (\<lambda>n. and_distribute (ContextKeyAndExpr_create n cs) (ContextKeyOrExpr_create n cs) chk es) es2"
  using assms(1,2)
proof (induction es rule: length_induct)
  case (1 es)
  show ?case
  proof (cases "length es \<le> 1 \<or> \<not> is_or (last es)")
    case True
    then show ?thesis using and_distribute_stays by (auto intro!: exI [of _ es])
  next
    case False
    then obtain os n where os: "last es = OrExpr os n" and len: "\<not> length es \<le> 1" by (auto simp: is_or_iff)
    define s rest where "s = last (butlast es)" and "rest = butlast (butlast es)"
    have bl: "es \<noteq> []" "butlast es \<noteq> []" using len by (cases es rule: rev_cases; auto)+
    have es: "es = rest @ [s, OrExpr os n]"
      using append_butlast_last_id [OF bl(1)] append_butlast_last_id [OF bl(2)] os
      unfolding s_def rest_def by (metis append.assoc append_Cons append_Nil)
    have se: "list_all wf_expr rest" "wf_expr s" "wf_expr (OrExpr os n)" using "1.prems"(1) unfolding es by auto
    have "1 \<le> prod_list (map dnf_size rest)"
      using se(1) by (intro prod_list_pos) (auto simp: list_all_iff intro: dnf_size_pos [simplified])
    then have P: "dnf_size (OrExpr os n) * dnf_size s \<le> P"
      using "1.prems"(2) by (auto simp: es ac_simps intro: order_trans [rotated])
    have "\<exists>r. settles (\<lambda>n. ContextKeyAndExpr_create n cs [Some el, Some s] None chk) r" if "el \<in> set os" for el
    proof (rule assms(3))
      show "list_all wf_expr (defined_elements [Some el, Some s])" using se that by (auto simp: list_all_iff)
      have "dnf_size el * dnf_size s < dnf_size (OrExpr os n) * dnf_size s"
        using dnf_size_or_element [OF se(3) that] dnf_size_pos [OF se(2)] by simp
      from less_le_trans [OF this P] show "prod_list (map dnf_size (defined_elements [Some el, Some s])) < P" by simp
    qed
    from settles_those [of os "\<lambda>n el. ContextKeyAndExpr_create n cs [Some el, Some s] None chk", OF this]
    obtain rs where rs: "settles (\<lambda>n. those (map (\<lambda>el. ContextKeyAndExpr_create n cs [Some el, Some s] None chk) os)) rs" ..
    obtain k where k: "those (map (\<lambda>el. ContextKeyAndExpr_create k cs [Some el, Some s] None chk) os) = Some rs"
      using settles_value [OF rs] ..
    have "list_all wf_expr (defined_elements rs)"
      using shaped.products_shape [of k cs chk "map (\<lambda>el. (el, s)) os" rs] k se by (auto simp: comp_def list_all_iff)
    from or_create_settles_wf [OF this] obtain x where x: "settles (\<lambda>n. ContextKeyOrExpr_create n cs rs None (rest = [])) x" ..
    obtain m where m: "those (map (\<lambda>el. ContextKeyAndExpr_create m cs [Some el, Some s] None chk) os) = Some rs"
      "ContextKeyOrExpr_create m cs rs None (rest = []) = Some x" using settles_both [OF rs x] by blast
    from shaped.distribute_step_shape [OF m se(3,2)] obtain r
      where r: "x = Some r" "wf_expr r" "dnf_size r \<le> dnf_size (OrExpr os n) * dnf_size s" by blast
    let ?es' = "sort_by ck_cmp (rest @ [r])"
    have "prod_list (map dnf_size rest) * dnf_size r \<le> prod_list (map dnf_size rest) * (dnf_size (OrExpr os n) * dnf_size s)"
      using r(3) by (rule mult_le_mono2)
    also have "\<dots> = prod_list (map dnf_size es)" by (simp add: es ac_simps)
    also have "\<dots> \<le> P" by (rule "1.prems"(2))
    finally have "prod_list (map dnf_size ?es') \<le> P" by simp
    moreover have "length ?es' < length es" "list_all wf_expr ?es'" using se r(2) unfolding es by auto
    ultimately obtain es2 where es2: "settles (\<lambda>n. and_distribute (ContextKeyAndExpr_create n cs) (ContextKeyOrExpr_create n cs) chk ?es') es2"
      using "1.IH" by blast
    let ?rec = "\<lambda>n x. case x of None \<Rightarrow> and_distribute (ContextKeyAndExpr_create n cs) (ContextKeyOrExpr_create n cs) chk rest
      | Some r \<Rightarrow> and_distribute (ContextKeyAndExpr_create n cs) (ContextKeyOrExpr_create n cs) chk (sort_by ck_cmp (rest @ [r]))"
    have "settles (\<lambda>n. ?rec n x) es2" using es2 by (simp add: r(1))
    note in2 = settles_bind [where g = ?rec, OF x this]
    note in3 = settles_bind [where g = "\<lambda>n rs. case ContextKeyOrExpr_create n cs rs None (rest = []) of None \<Rightarrow> None | Some x \<Rightarrow> ?rec n x", OF rs in2]
    have "and_distribute andc orc chk es = (case those (map (\<lambda>el. andc [Some el, Some s] None chk) os) of None \<Rightarrow> None
       | Some rs \<Rightarrow> (case orc rs None (rest = []) of None \<Rightarrow> None | Some x \<Rightarrow>
          (case x of None \<Rightarrow> and_distribute andc orc chk rest | Some r \<Rightarrow> and_distribute andc orc chk (sort_by ck_cmp (rest @ [r])))))" for andc orc
      using len unfolding and_distribute.simps [of andc orc chk es]
      by (simp add: os s_def [symmetric] rest_def [symmetric] Let_def cong: option.case_cong split: option.split)
    then show ?thesis using in3 by auto
  qed
qed

lemma and_create_settles:
  "list_all wf_expr (defined_elements arr) \<Longrightarrow> \<exists>r. settles (\<lambda>n. ContextKeyAndExpr_create n cs arr None chk) r"
proof (induction "prod_list (map dnf_size (defined_elements arr))" arbitrary: arr rule: less_induct)
  case less
  show ?case
  proof (cases "and_flatten arr [] False")
    case None
    then show ?thesis by - (rule settles_ex_Suc, auto simp: ContextKeyAndExpr_normalizeArr_def)
  next
    case (Some p)
    then obtain es h where p: "and_flatten arr [] False = Some (es, h)" by (cases p) auto
    note fl = and_flatten_shape [OF less.prems _ p, simplified]
    let ?es1 = "eliminate_duplicates (sort_by ck_cmp es)"
    have wf1: "list_all wf_expr ?es1" using fl by (simp add: eliminate_duplicates_sane)
    have "prod_list (map dnf_size ?es1) \<le> prod_list (map dnf_size (defined_elements arr))"
      using fl eliminate_duplicates_prod [of "sort_by ck_cmp es"] by simp
    from and_distribute_settles [OF wf1 this less.hyps] obtain es2 where
      es2: "settles (\<lambda>n. and_distribute (ContextKeyAndExpr_create n cs) (ContextKeyOrExpr_create n cs) chk ?es1) es2" by blast
    obtain k where k: "and_distribute (ContextKeyAndExpr_create k cs) (ContextKeyOrExpr_create k cs) chk ?es1 = Some es2"
      using settles_value [OF es2] ..
    have neg: "\<exists>r. settles (\<lambda>n. ck_negate n cs e) r" if "es \<noteq> []" "e \<in> set es2" for e
      using shaped.and_distribute_shape [OF k wf1] sort_by_types that
      by (intro negate_settles) (simp add: eliminate_duplicates_types list_all_iff)
    let ?last = "\<lambda>n es2. if length es2 = 1 then Some (Some (hd es2))
      else if chk then (case has_negated_pair (ck_negate n cs) es2 of None \<Rightarrow> None
        | Some found \<Rightarrow> Some (Some (if found then FalseExpr else AndExpr es2 None)))
      else Some (Some (AndExpr es2 None))"
    have "\<exists>r. settles (\<lambda>n. ?last n es2) r" if ne: "es \<noteq> []"
    proof -
      obtain b where b: "settles (\<lambda>n. has_negated_pair (ck_negate n cs) es2) b"
        using settles_pairs [of es2 "\<lambda>n. ck_negate n cs"] neg [OF ne] by blast
      note settles_case [OF b, of "\<lambda>b. Some (if b then FalseExpr else AndExpr es2 None)"]
      then show ?thesis by (intro settles_ifI settles_const_ex)
    qed
    then have "\<exists>r. settles (\<lambda>n. case and_distribute (ContextKeyAndExpr_create n cs) (ContextKeyOrExpr_create n cs) chk ?es1 of
        None \<Rightarrow> None | Some es2 \<Rightarrow> ?last n es2) r" if "es \<noteq> []"
      using settles_bind [where g = ?last, OF es2] that by meson
    then show ?thesis
      by - (rule settles_ex_Suc, unfold ContextKeyAndExpr_create.simps ContextKeyAndExpr_normalizeArr_def p option.case prod.case Let_def,
        intro settles_ifI settles_const_ex)
  qed
qed

end
