(* ===== verification/Context_Key_Results.thy ===== *)
theory Context_Key_Results
  imports Context_Key_Fuel
begin

text \<open>
  Implication, substitution of constants, and the results about \<^verbatim>\<open>contextkey.ts\<close>.
\<close>

section \<open>Implication\<close>

text \<open>
  \<^verbatim>\<open>implies\<close> compares elements with \<^verbatim>\<open>cmp\<close>, which does not tell a string from a number it is not ordered with.
  The values of the equalities of a parsed expression are strings.
\<close>

fun is_string :: "js_prim \<Rightarrow> bool" where
  "is_string (PStr s) = True"
| "is_string _ = False"

fun string_values :: "ContextKeyExpression \<Rightarrow> bool" where
  "string_values (EqualsExpr k v n) = is_string v"
| "string_values (NotEqualsExpr k v n) = is_string v"
| "string_values (AndExpr es n) = list_all string_values es"
| "string_values (OrExpr es n) = list_all string_values es"
| "string_values _ = True"

lemma cmp1_zero: "cmp1 k k2 = 0 \<longleftrightarrow> k = k2"
  using js_string_less_linear [of k k2] by (auto simp: cmp1_def)

lemma cmp2_zero_key: "cmp2 k v k2 v2 = 0 \<Longrightarrow> k = k2"
  using js_string_less_linear [of k k2] by (auto simp: cmp2_def split: if_splits)

lemma cmp2_zero_string: "cmp2 k (PStr s) k2 (PStr t) = 0 \<longleftrightarrow> k = k2 \<and> s = t"
  using js_string_less_linear [of k k2] js_string_less_linear [of s t] by (auto simp: cmp2_def)

lemma cmp2_zero_number: "cmp2 k (PNum m) k2 (PNum n) = 0 \<Longrightarrow> m \<noteq> NaN \<Longrightarrow> n \<noteq> NaN \<Longrightarrow> m = n"
  using number_trichotomy [of m n] js_string_less_linear [of k k2] by (auto simp: cmp2_def split: if_splits)

lemma cmp2_zero_comparable:
  "cmp2 k v k2 v2 = 0 \<Longrightarrow> comparable lib ctx k v \<Longrightarrow> comparable lib ctx k2 v2 \<Longrightarrow> k = k2 \<and> v = v2"
  using cmp2_zero_key by (cases v; cases v2) (auto dest: cmp2_zero_number)

lemma cmp2_zero_is_string:
  "cmp2 k v k2 v2 = 0 \<Longrightarrow> is_string v \<Longrightarrow> is_string v2 \<Longrightarrow> k = k2 \<and> v = v2"
  by (cases v; cases v2) (auto simp: cmp2_zero_string)

lemma regex_cmp_zero: "ContextKeyRegexExpr_cmp k r (RegexExpr k2 s) = 0 \<longleftrightarrow> k = k2 \<and> regexp_source r = regexp_source s"
  using js_string_less_linear [of k k2] js_string_less_linear [of "regexp_source r" "regexp_source s"]
  by (auto simp: ContextKeyRegexExpr_cmp_def)

lemma ck_cmp_zero_type: "ck_cmp e f = 0 \<Longrightarrow> ContextKeyExprType e = ContextKeyExprType f"
  using ck_cmp_type by fastforce

lemma cmp_arrays_zero: "cmp_arrays f as bs = 0 \<Longrightarrow> length as = length bs \<Longrightarrow> list_all2 (\<lambda>a b. f a b = 0) as bs"
  by (induction f as bs rule: cmp_arrays.induct) (auto simp: Let_def split: if_splits)

lemma ck_cmp_zero_evaluate:
  assumes "ck_cmp e f = 0" "sane lib ctx cs fl e" "sane lib ctx cs fl f" "string_values e" "string_values f"
  shows "ck_evaluate lib ctx e = ck_evaluate lib ctx f"
  using assms
proof (induction e arbitrary: f)
  case (AndExpr es n)
  have "ContextKeyExprType f = 6" using ck_cmp_zero_type [OF AndExpr.prems(1)] by simp
  then obtain fs m where f: "f = AndExpr fs m" by (cases f) auto
  have "list_all2 (\<lambda>a b. ck_cmp a b = 0) es fs"
    using AndExpr.prems(1) by (intro cmp_arrays_zero) (auto simp: f ContextKeyAndExpr_cmp_def split: if_splits)
  then show ?case unfolding f using AndExpr list_all2_evaluate(1) [of "\<lambda>a b. ck_cmp a b = 0" es fs "ck_evaluate lib ctx"]
    by (auto simp: f leaf_evaluate_defs list_all_iff)
next
  case (OrExpr es n)
  have "ContextKeyExprType f = 9" using ck_cmp_zero_type [OF OrExpr.prems(1)] by simp
  then obtain fs m where f: "f = OrExpr fs m" by (cases f) auto
  have "list_all2 (\<lambda>a b. ck_cmp a b = 0) es fs"
    using OrExpr.prems(1) by (intro cmp_arrays_zero) (auto simp: f ContextKeyOrExpr_cmp_def split: if_splits)
  then show ?case unfolding f using OrExpr list_all2_evaluate(2) [of "\<lambda>a b. ck_cmp a b = 0" es fs "ck_evaluate lib ctx"]
    by (auto simp: f leaf_evaluate_defs list_all_iff)
next
  case (DefinedExpr k n)
  then show ?case using ck_cmp_zero_type [OF DefinedExpr.prems(1)]
    by (cases f) (auto simp: leaf_evaluate_defs ContextKeyDefinedExpr_cmp_def cmp1_zero)
next
  case (NotExpr k n)
  then show ?case using ck_cmp_zero_type [OF NotExpr.prems(1)]
    by (cases f) (auto simp: leaf_evaluate_defs ContextKeyNotExpr_cmp_def cmp1_zero)
next
  case (RegexExpr k r)
  then show ?case using ck_cmp_zero_type [OF RegexExpr.prems(1)]
    by (cases f) (auto simp: regex_cmp_zero dest: flags_ok_unique)
next
  case (NotRegexExpr k r)
  then show ?case using ck_cmp_zero_type [OF NotRegexExpr.prems(1)]
    by (cases f) (auto simp: leaf_evaluate_defs ContextKeyNotRegexExpr_cmp_def regex_cmp_zero dest: flags_ok_unique)
next
  case (EqualsExpr k v n)
  then show ?case using ck_cmp_zero_type [OF EqualsExpr.prems(1)]
    by (cases f) (auto simp: leaf_evaluate_defs ContextKeyEqualsExpr_cmp_def dest: cmp2_zero_is_string)
next
  case (NotEqualsExpr k v n)
  then show ?case using ck_cmp_zero_type [OF NotEqualsExpr.prems(1)]
    by (cases f) (auto simp: leaf_evaluate_defs ContextKeyNotEqualsExpr_cmp_def dest: cmp2_zero_is_string)
next
  case (InExpr k vk)
  then show ?case using ck_cmp_zero_type [OF InExpr.prems(1)]
    by (cases f) (auto simp: ContextKeyInExpr_cmp_def cmp2_zero_string)
next
  case (NotInExpr k vk)
  then show ?case using ck_cmp_zero_type [OF NotInExpr.prems(1)]
    by (cases f) (auto simp: leaf_evaluate_defs ContextKeyNotInExpr_cmp_def ContextKeyInExpr_cmp_def cmp2_zero_string)
next
  case (GreaterExpr k v n)
  then show ?case using ck_cmp_zero_type [OF GreaterExpr.prems(1)]
    by (cases f) (auto simp: ContextKeyGreaterExpr_cmp_def dest: cmp2_zero_comparable)
next
  case (GreaterEqualsExpr k v n)
  then show ?case using ck_cmp_zero_type [OF GreaterEqualsExpr.prems(1)]
    by (cases f) (auto simp: ContextKeyGreaterEqualsExpr_cmp_def dest: cmp2_zero_comparable)
next
  case (SmallerExpr k v n)
  then show ?case using ck_cmp_zero_type [OF SmallerExpr.prems(1)]
    by (cases f) (auto simp: ContextKeySmallerExpr_cmp_def dest: cmp2_zero_comparable)
next
  case (SmallerEqualsExpr k v n)
  then show ?case using ck_cmp_zero_type [OF SmallerEqualsExpr.prems(1)]
    by (cases f) (auto simp: ContextKeySmallerEqualsExpr_cmp_def dest: cmp2_zero_comparable)
next
  case FalseExpr
  then show ?case using ck_cmp_zero_type [OF FalseExpr.prems(1)] by (cases f) auto
next
  case TrueExpr
  then show ?case using ck_cmp_zero_type [OF TrueExpr.prems(1)] by (cases f) auto
qed

lemma allElementsIncluded_found: "allElementsIncluded p q \<Longrightarrow> x \<in> set p \<Longrightarrow> \<exists>y \<in> set q. ck_cmp x y = 0"
  by (induction p q rule: allElementsIncluded.induct) (auto simp: Let_def split: if_splits)

lemma allElementsIncluded_evaluate:
  assumes "allElementsIncluded p q" "list_all (sane lib ctx cs fl) p" "list_all (sane lib ctx cs fl) q"
    "list_all string_values p" "list_all string_values q" "x \<in> set p"
  shows "\<exists>y \<in> set q. ck_evaluate lib ctx x = ck_evaluate lib ctx y"
  using allElementsIncluded_found [OF assms(1,6)] assms ck_cmp_zero_evaluate [of x _ lib ctx cs fl] by (auto simp: list_all_iff)

lemma implies_evaluate:
  assumes "ck_implies p q" "sane lib ctx cs fl p" "sane lib ctx cs fl q" "string_values p" "string_values q" "ck_evaluate lib ctx p"
  shows "ck_evaluate lib ctx q"
  using assms
proof (induction "size p + size q" arbitrary: p q rule: less_induct)
  case (less p q)
  consider "ContextKeyExprType p = 0 \<or> ContextKeyExprType q = 1"
    | ps qs n m where "p = OrExpr ps n" "q = OrExpr qs m" "allElementsIncluded ps qs"
    | qs m where "or_elements p = None" "q = OrExpr qs m" "list_ex (\<lambda>e. ck_implies p e) qs"
        "\<not> (ContextKeyExprType p = 0 \<or> ContextKeyExprType q = 1)"
    | ps qs n m where "p = AndExpr ps n" "q = AndExpr qs m" "allElementsIncluded qs ps"
    | ps n where "p = AndExpr ps n" "or_elements q = None" "and_elements q = None" "list_ex (\<lambda>e. ck_implies e q) ps"
        "\<not> (ContextKeyExprType p = 0 \<or> ContextKeyExprType q = 1)"
    | "ck_equals p q"
    using less.prems(1) unfolding ck_implies.simps [of p q]
    by (auto simp: or_elements_Some and_elements_Some split: if_splits option.splits)
  then show ?case
  proof cases
    case 1
    then show ?thesis using less.prems by (cases p; cases q) (auto simp: leaf_evaluate_defs)
  next
    case 2
    then show ?thesis using less.prems allElementsIncluded_evaluate [OF 2(3), of lib ctx cs fl]
      by (auto simp: leaf_evaluate_defs list_ex_iff)
  next
    case 3
    then obtain e where e: "e \<in> set qs" "ck_implies p e" by (auto simp: list_ex_iff)
    moreover have "sane lib ctx cs fl e" "string_values e" using less.prems 3 e by (auto simp: list_all_iff)
    ultimately have "ck_evaluate lib ctx e"
      using less.hyps [of p e] size_element(1) [OF e(1), of m] less.prems 3 by (simp del: ContextKeyExpression.size)
    then show ?thesis using 3 e by (auto simp: leaf_evaluate_defs list_ex_iff)
  next
    case 4
    then show ?thesis using less.prems allElementsIncluded_evaluate [OF 4(3), of lib ctx cs fl]
      by (auto simp: leaf_evaluate_defs list_all_iff)
  next
    case 5
    then obtain e where e: "e \<in> set ps" "ck_implies e q" by (auto simp: list_ex_iff)
    moreover have "sane lib ctx cs fl e" "string_values e" "ck_evaluate lib ctx e"
      using less.prems 5 e by (auto simp: list_all_iff leaf_evaluate_defs)
    ultimately show ?thesis
      using less.hyps [of e q] size_element(2) [OF e(1), of n] less.prems 5 by (simp del: ContextKeyExpression.size)
  next
    case 6
    then show ?thesis using less.prems ck_equals_evaluate by blast
  qed
qed

lemma number_less_irrefl [simp]: "\<not> number_less n n"
  by (cases n) auto

lemma prim_less_irrefl [simp]: "\<not> prim_less v v"
  by (cases v) auto

lemma ck_cmp_refl: "ck_cmp e e = 0"
proof (induction e)
  case (AndExpr es n)
  have "cmp_arrays ck_cmp xs xs = 0" if "set xs \<subseteq> set es" for xs using that AndExpr(1) by (induction xs) auto
  then show ?case by (simp add: ContextKeyAndExpr_cmp_def)
next
  case (OrExpr es n)
  have "cmp_arrays ck_cmp xs xs = 0" if "set xs \<subseteq> set es" for xs using that OrExpr(1) by (induction xs) auto
  then show ?case by (simp add: ContextKeyOrExpr_cmp_def)
qed (auto simp: cmp_defs cmp1_def cmp2_def)

section \<open>Substituting constants\<close>

lemma eliminateConstants_loop_those:
  "those (map sub es) = Some rs \<Longrightarrow> (case a of None \<Rightarrow> True | Some xs \<Rightarrow> length xs = length before) \<Longrightarrow>
   eliminateConstants_loop sub before es a =
     Some (if a = None \<and> rs = map Some es then None else Some ((case a of None \<Rightarrow> map Some before | Some xs \<Rightarrow> xs) @ rs))"
proof (induction es arbitrary: rs before a)
  case (Cons e es)
  then obtain r rs' where "sub e = Some r" "those (map sub es) = Some rs'" "rs = r # rs'" by (auto split: option.splits)
  with Cons show ?case by (auto simp: Let_def split: option.splits)
qed (auto split: option.splits)

lemmas substituteConstants_defs =
  ContextKeyDefinedExpr_substituteConstants_def ContextKeyNotExpr_substituteConstants_def
  ContextKeyEqualsExpr_substituteConstants_def ContextKeyNotEqualsExpr_substituteConstants_def

lemma leaf_substituteConstants:
  assumes "is_leaf e" "wf_expr e" "ck_substituteConstants n cs e = Some (Some r)"
  shows "wf_expr r"
    and "sane lib ctx cs fl e \<Longrightarrow> sane lib ctx cs fl r \<and> ck_evaluate lib ctx r = ck_evaluate lib ctx e"
proof -
  show "wf_expr r" using assms by (cases e; auto simp: is_leaf_def substituteConstants_defs split: option.splits if_splits)
  assume sn: "sane lib ctx cs fl e"
  show "sane lib ctx cs fl r \<and> ck_evaluate lib ctx r = ck_evaluate lib ctx e"
  proof (cases e)
    case (EqualsExpr k v m)
    with assms sn show ?thesis by (cases "cs k") (auto simp: substituteConstants_defs agrees_def leaf_evaluate_defs split: if_splits)
  next
    case (NotEqualsExpr k v m)
    with assms sn show ?thesis by (cases "cs k") (auto simp: substituteConstants_defs agrees_def leaf_evaluate_defs split: if_splits)
  qed (use assms sn in \<open>auto simp: is_leaf_def substituteConstants_defs agrees_def leaf_evaluate_defs split: option.splits if_splits\<close>)
qed

lemma leaf_substituteConstants_settles:
  assumes "is_leaf e"
  shows "\<exists>r. \<forall>n. ck_substituteConstants n cs e = Some (Some r)"
  using assms by (cases e) (auto simp: is_leaf_def)

text \<open>What substitution promises for an expression: in every context in which the expression is sane, the result is, with
  the same value.\<close>

definition substitution_ok :: "constants \<Rightarrow> ContextKeyExpression \<Rightarrow> ContextKeyExpression \<Rightarrow> bool" where
  "substitution_ok cs e r \<longleftrightarrow> wf_expr r \<and>
     (\<forall>lib ctx fl. sane lib ctx cs fl e \<longrightarrow> sane lib ctx cs fl r \<and> ck_evaluate lib ctx r = ck_evaluate lib ctx e)"

lemma eliminateConstantsInArray_settles:
  assumes "\<And>e. e \<in> set es \<Longrightarrow> \<exists>r. settles (\<lambda>n. ck_substituteConstants n cs e) (Some r) \<and> substitution_ok cs e r"
  shows "\<exists>rs. settles (\<lambda>n. eliminateConstantsInArray (ck_substituteConstants n cs) es) (if rs = es then None else Some (map Some rs)) \<and>
    list_all2 (substitution_ok cs) es rs"
proof -
  have "\<exists>rs. settles (\<lambda>n. those (map (ck_substituteConstants n cs) es)) rs \<and>
      list_all2 (\<lambda>e x. \<exists>r. x = Some r \<and> substitution_ok cs e r) es rs"
    using assms by (intro settles_those_all) blast
  then obtain xs where xs: "settles (\<lambda>n. those (map (ck_substituteConstants n cs) es)) xs"
    "list_all2 (\<lambda>e x. \<exists>r. x = Some r \<and> substitution_ok cs e r) es xs" by blast
  have "\<exists>rs. xs = map Some rs \<and> list_all2 (substitution_ok cs) es rs"
    using xs(2) by (induction rule: list_all2_induct) (auto simp: Cons_eq_map_conv)
  then obtain rs where rs: "xs = map Some rs" "list_all2 (substitution_ok cs) es rs" by blast
  have "map Some rs = map Some es \<longleftrightarrow> rs = es" by (metis inj_Some inj_map_eq_map)
  then have "settles (\<lambda>n. eliminateConstantsInArray (ck_substituteConstants n cs) es) (if rs = es then None else Some (map Some rs))"
    using xs(1) eliminateConstants_loop_those [where es = es and rs = xs and a = None and before = "[]"]
    unfolding settles_def eliminateConstantsInArray_def rs(1) by fastforce
  with rs(2) show ?thesis by blast
qed

lemma substitution_ok_elements:
  assumes "list_all2 (substitution_ok cs) es rs"
  shows "list_all wf_expr rs \<and> length rs = length es"
    and "list_all (sane lib ctx cs fl) es \<Longrightarrow> list_all (sane lib ctx cs fl) rs \<and>
      list_all (ck_evaluate lib ctx) rs = list_all (ck_evaluate lib ctx) es \<and> list_ex (ck_evaluate lib ctx) rs = list_ex (ck_evaluate lib ctx) es"
  using assms by (induction rule: list_all2_induct) (auto simp: substitution_ok_def)

lemma or_create_exact:
  assumes "list_all wf_expr (defined_elements arr)" "pred_option wf_expr negated"
  shows "\<exists>x. settles (\<lambda>n. ContextKeyOrExpr_create n cs arr negated chk) x \<and>
    (case x of None \<Rightarrow> defined_elements arr = []
     | Some r \<Rightarrow> defined_elements arr \<noteq> [] \<and> wf_expr r \<and>
         (\<forall>lib ctx fl. list_all (sane lib ctx cs fl) (defined_elements arr) \<longrightarrow>
            (\<forall>m. negated = Some m \<longrightarrow> sane lib ctx cs fl m \<and>
               ck_evaluate lib ctx m = (\<not> list_ex (ck_evaluate lib ctx) (defined_elements arr))) \<longrightarrow>
            sane lib ctx cs fl r \<and> ck_evaluate lib ctx r = list_ex (ck_evaluate lib ctx) (defined_elements arr)))"
proof -
  obtain x where x: "settles (\<lambda>n. ContextKeyOrExpr_create n cs arr negated chk) x" using or_create_settles_wf [OF assms(1)] ..
  obtain n where n: "ContextKeyOrExpr_create n cs arr negated chk = Some x" using settles_value [OF x] ..
  show ?thesis
    using x shaped.or_law [OF n assms] bounded.or_law [OF n] by (intro exI [of _ x]) (cases x; auto)
qed

lemma and_create_exact:
  assumes "list_all wf_expr (defined_elements arr)"
  shows "\<exists>x. settles (\<lambda>n. ContextKeyAndExpr_create n cs arr None chk) x \<and>
    (case x of None \<Rightarrow> defined_elements arr = []
     | Some r \<Rightarrow> defined_elements arr \<noteq> [] \<and> wf_expr r \<and>
         (\<forall>lib ctx fl. list_all (sane lib ctx cs fl) (defined_elements arr) \<longrightarrow>
            sane lib ctx cs fl r \<and> ck_evaluate lib ctx r = list_all (ck_evaluate lib ctx) (defined_elements arr)))"
proof -
  obtain x where x: "settles (\<lambda>n. ContextKeyAndExpr_create n cs arr None chk) x" using and_create_settles [OF assms(1)] ..
  obtain n where n: "ContextKeyAndExpr_create n cs arr None chk = Some x" using settles_value [OF x] ..
  show ?thesis
    using x shaped.and_law [OF n assms] bounded.and_law [OF n] by (intro exI [of _ x]) (cases x; auto)
qed

lemma negate_exact:
  assumes "wf_expr e"
  shows "\<exists>r. settles (\<lambda>n. ck_negate n cs e) r \<and> wf_expr r \<and>
    (\<forall>lib ctx fl. sane lib ctx cs fl e \<longrightarrow> sane lib ctx cs fl r \<and> ck_evaluate lib ctx r = (\<not> ck_evaluate lib ctx e))"
proof -
  obtain r where r: "settles (\<lambda>n. ck_negate n cs e) r" using negate_settles [OF assms(1)] ..
  obtain n where n: "ck_negate n cs e = Some r" using settles_value [OF r] ..
  show ?thesis using r shaped.neg_law [OF n assms(1)] bounded.neg_law [OF n] by blast
qed

text \<open>What the two methods do once the elements are substituted, given what \<^verbatim>\<open>create\<close> does.\<close>

lemma substituteConstants_step:
  assumes a: "settles (\<lambda>n. eliminateConstantsInArray (sub n) es) (if rs = es then None else Some (map Some rs))"
    and c: "settles (\<lambda>n. create n (map Some rs)) (Some r)"
  shows "settles (\<lambda>n. case eliminateConstantsInArray (sub n) es of None \<Rightarrow> None | Some None \<Rightarrow> Some (Some e) | Some (Some arr) \<Rightarrow> create n arr)
    (Some (if rs = es then e else r))"
proof -
  have "settles (\<lambda>n. case (if rs = es then None else Some (map Some rs)) of None \<Rightarrow> Some (Some e) | Some arr \<Rightarrow> create n arr)
      (Some (if rs = es then e else r))"
    using c by auto
  from settles_bind [where g = "\<lambda>n x. case x of None \<Rightarrow> Some (Some e) | Some arr \<Rightarrow> create n arr", OF a this]
  show ?thesis by (simp cong: option.case_cong)
qed

lemma and_substituteConstants:
  assumes wf: "wf_expr (AndExpr es n)"
    and IH: "\<And>e. e \<in> set es \<Longrightarrow> wf_expr e \<Longrightarrow>
       \<exists>r. settles (\<lambda>n. ck_substituteConstants n cs e) (Some r) \<and> substitution_ok cs e r"
  shows "\<exists>r. settles (\<lambda>m. ck_substituteConstants m cs (AndExpr es n)) (Some r) \<and> substitution_ok cs (AndExpr es n) r"
proof -
  have es: "list_all wf_expr es" "es \<noteq> []" "pred_option wf_expr n" using wf by (auto split: option.splits)
  from eliminateConstantsInArray_settles [of es cs] IH es obtain rs
    where a: "settles (\<lambda>n. eliminateConstantsInArray (ck_substituteConstants n cs) es) (if rs = es then None else Some (map Some rs))"
      and ok: "list_all2 (substitution_ok cs) es rs" by (auto simp: list_all_iff)
  note el = substitution_ok_elements [OF ok]
  have ne: "rs \<noteq> []" using el(1) es(2) by auto
  obtain r where c: "settles (\<lambda>m. ContextKeyAndExpr_create m cs (map Some rs) n False) (Some r)"
    and r: "wf_expr r" "\<And>lib ctx fl. list_all (sane lib ctx cs fl) rs \<Longrightarrow>
        (\<And>m. n = Some m \<Longrightarrow> sane lib ctx cs fl m \<and> ck_evaluate lib ctx m = (\<not> list_all (ck_evaluate lib ctx) rs)) \<Longrightarrow>
        sane lib ctx cs fl r \<and> ck_evaluate lib ctx r = list_all (ck_evaluate lib ctx) rs"
    using and_create_exact [of "map Some rs" cs False] el(1) es ne wf by (auto split: option.splits)
  let ?r = "if rs = es then AndExpr es n else r"
  have "settles (\<lambda>m. ck_substituteConstants m cs (AndExpr es n)) (Some ?r)"
    using substituteConstants_step [where create = "\<lambda>m arr. ContextKeyAndExpr_create m cs arr n False", OF a c]
    by (simp add: ContextKeyAndExpr_substituteConstants_def)
  moreover have "sane lib ctx cs fl r \<and> ck_evaluate lib ctx r = ck_evaluate lib ctx (AndExpr es n)"
    if "sane lib ctx cs fl (AndExpr es n)" for lib ctx fl
    using r(2) [of lib ctx fl] el(2) [of lib ctx fl] that by (cases n) (simp_all add: leaf_evaluate_defs)
  then have "substitution_ok cs (AndExpr es n) ?r" using r(1) wf unfolding substitution_ok_def by auto
  ultimately show ?thesis by blast
qed

lemma or_substituteConstants:
  assumes wf: "wf_expr (OrExpr es n)"
    and IH: "\<And>e. e \<in> set es \<Longrightarrow> wf_expr e \<Longrightarrow>
       \<exists>r. settles (\<lambda>n. ck_substituteConstants n cs e) (Some r) \<and> substitution_ok cs e r"
  shows "\<exists>r. settles (\<lambda>m. ck_substituteConstants m cs (OrExpr es n)) (Some r) \<and> substitution_ok cs (OrExpr es n) r"
proof -
  have es: "list_all wf_expr es" "es \<noteq> []" "pred_option wf_expr n" using wf by (auto split: option.splits)
  from eliminateConstantsInArray_settles [of es cs] IH es obtain rs
    where a: "settles (\<lambda>n. eliminateConstantsInArray (ck_substituteConstants n cs) es) (if rs = es then None else Some (map Some rs))"
      and ok: "list_all2 (substitution_ok cs) es rs" by (auto simp: list_all_iff)
  note el = substitution_ok_elements [OF ok]
  have ne: "rs \<noteq> []" using el(1) es(2) by auto
  obtain r where c: "settles (\<lambda>m. ContextKeyOrExpr_create m cs (map Some rs) n False) (Some r)"
    and r: "wf_expr r" "\<And>lib ctx fl. list_all (sane lib ctx cs fl) rs \<Longrightarrow>
        (\<And>m. n = Some m \<Longrightarrow> sane lib ctx cs fl m \<and> ck_evaluate lib ctx m = (\<not> list_ex (ck_evaluate lib ctx) rs)) \<Longrightarrow>
        sane lib ctx cs fl r \<and> ck_evaluate lib ctx r = list_ex (ck_evaluate lib ctx) rs"
    using or_create_exact [of "map Some rs" n cs False] el(1) es ne wf by (auto split: option.splits)
  let ?r = "if rs = es then OrExpr es n else r"
  have "settles (\<lambda>m. ck_substituteConstants m cs (OrExpr es n)) (Some ?r)"
    using substituteConstants_step [where create = "\<lambda>m arr. ContextKeyOrExpr_create m cs arr n False", OF a c]
    by (simp add: ContextKeyOrExpr_substituteConstants_def)
  moreover have "sane lib ctx cs fl r \<and> ck_evaluate lib ctx r = ck_evaluate lib ctx (OrExpr es n)"
    if "sane lib ctx cs fl (OrExpr es n)" for lib ctx fl
    using r(2) [of lib ctx fl] el(2) [of lib ctx fl] that by (cases n) (simp_all add: leaf_evaluate_defs)
  then have "substitution_ok cs (OrExpr es n) ?r" using r(1) wf unfolding substitution_ok_def by auto
  ultimately show ?thesis by blast
qed

lemma substituteConstants_exact:
  assumes "wf_expr e"
  shows "\<exists>r. settles (\<lambda>n. ck_substituteConstants n cs e) (Some r) \<and> substitution_ok cs e r"
  using assms
proof (induction e rule: measure_induct_rule [of size])
  case (less e)
  consider "is_leaf e" | es n where "e = AndExpr es n" | es n where "e = OrExpr es n"
    by (cases e) (auto simp: is_leaf_def)
  then show ?case
  proof cases
    case 1
    obtain r where r: "\<forall>n. ck_substituteConstants n cs e = Some (Some r)" using leaf_substituteConstants_settles [OF 1, of cs] ..
    with leaf_substituteConstants [OF 1 less.prems r [rule_format]] show ?thesis
      by (intro exI [of _ r]) (simp add: substitution_ok_def)
  next
    case 2
    show ?thesis unfolding 2
      by (rule and_substituteConstants) (use less 2 size_element(2) in \<open>auto simp del: ContextKeyExpression.size\<close>)
  next
    case 3
    show ?thesis unfolding 3
      by (rule or_substituteConstants) (use less 3 size_element(1) in \<open>auto simp del: ContextKeyExpression.size\<close>)
  qed
qed

section \<open>What an expression depends on\<close>

lemma evaluate_keys:
  "(\<And>k. k \<in> set (ck_keys e) \<Longrightarrow> ctx1 k = ctx2 k) \<Longrightarrow> ck_evaluate lib ctx1 e = ck_evaluate lib ctx2 e"
proof (induction e)
  case (AndExpr es n)
  have "ck_evaluate lib ctx1 x = ck_evaluate lib ctx2 x" if "x \<in> set es" for x
    using AndExpr.IH(1) [OF that] AndExpr.prems that by (force simp: ContextKeyAndExpr_keys_def)
  then show ?case by (simp add: leaf_evaluate_defs list_all_iff)
next
  case (OrExpr es n)
  have "ck_evaluate lib ctx1 x = ck_evaluate lib ctx2 x" if "x \<in> set es" for x
    using OrExpr.IH(1) [OF that] OrExpr.prems that by (force simp: ContextKeyOrExpr_keys_def)
  then show ?case by (simp add: leaf_evaluate_defs list_ex_iff)
qed (simp_all add: leaf_evaluate_defs comparison_evaluate_defs ContextKeyRegexExpr_evaluate_def ContextKeyInExpr_evaluate_def ContextKeyInExpr_keys_def
    split: option.split js_prim.split)

lemma expressionsAreEqual_exact:
  assumes "wf_expr a" "wf_expr b"
  shows "\<exists>eq. settles (\<lambda>n. expressionsAreEqualWithConstantSubstitution n cs (Some a) (Some b)) eq \<and>
    (\<forall>lib ctx fl. eq \<longrightarrow> sane lib ctx cs fl a \<longrightarrow> sane lib ctx cs fl b \<longrightarrow> ck_evaluate lib ctx a = ck_evaluate lib ctx b)"
proof -
  obtain x y where x: "settles (\<lambda>n. ck_substituteConstants n cs a) (Some x)" "substitution_ok cs a x"
    and y: "settles (\<lambda>n. ck_substituteConstants n cs b) (Some y)" "substitution_ok cs b y"
    using substituteConstants_exact [OF assms(1)] substituteConstants_exact [OF assms(2)] by blast
  then obtain N M where "\<forall>n \<ge> N. ck_substituteConstants n cs a = Some (Some x)" "\<forall>n \<ge> M. ck_substituteConstants n cs b = Some (Some y)"
    by (auto simp: settles_def)
  then have "settles (\<lambda>n. expressionsAreEqualWithConstantSubstitution n cs (Some a) (Some b)) (ck_equals x y)"
    by (intro settlesI [of "max N M"]) (simp add: expressionsAreEqualWithConstantSubstitution_def)
  moreover have "ck_evaluate lib ctx a = ck_evaluate lib ctx b"
    if "ck_equals x y" "sane lib ctx cs fl a" "sane lib ctx cs fl b" for lib ctx fl
    using x(2) y(2) ck_equals_evaluate [of x y lib ctx cs fl] that by (auto simp: substitution_ok_def)
  ultimately show ?thesis by blast
qed

text \<open>The expressions the factories make from keys and values are well formed.\<close>

lemma factories_wf:
  "wf_expr (ContextKeyExpr_has cs k)" "wf_expr (ContextKeyExpr_not cs k)" "wf_expr (ContextKeyExpr_equals cs k v)"
  "wf_expr (ContextKeyExpr_notEquals cs k v)" "wf_expr (ContextKeyExpr_regex k rx)" "wf_expr (ContextKeyExpr_in k k2)"
  "wf_expr (ContextKeyExpr_notIn k k2)" "wf_expr (ContextKeyExpr_greater k n)" "wf_expr (ContextKeyExpr_greaterEquals k n)"
  "wf_expr (ContextKeyExpr_smaller k n)" "wf_expr (ContextKeyExpr_smallerEquals k n)"
  by (simp_all add: ContextKeyExpr_has_def ContextKeyExpr_not_def ContextKeyExpr_equals_def ContextKeyExpr_notEquals_def
      ContextKeyExpr_regex_def ContextKeyExpr_in_def ContextKeyExpr_notIn_def ContextKeyExpr_greater_def ContextKeyExpr_greaterEquals_def
      ContextKeyExpr_smaller_def ContextKeyExpr_smallerEquals_def create_defs split: option.split js_prim.split)

section \<open>Main results\<close>

text \<open>C15: \<^verbatim>\<open>ContextKeyExpr.and(...)\<close> returns, whatever well formed expressions it gets, and in every context that is sane for all its arguments (see \<open>sane\<close>: numeric comparisons meet numbers,
  one set of flags for each regular expression, constants have their values) what it returns holds exactly
  when all its arguments hold: flattening, sorting, removing duplicates, distributing over ORs and folding
  \<^verbatim>\<open>A && !A\<close> do not change the meaning there.  It returns \<^verbatim>\<open>undefined\<close> just when no argument is defined.\<close>

theorem ContextKeyExpr_and_evaluate:
  assumes "list_all wf_expr (defined_elements arr)"
  shows "\<exists>x N. (\<forall>n \<ge> N. ContextKeyExpr_and n cs arr = Some x) \<and>
    (case x of None \<Rightarrow> defined_elements arr = []
     | Some r \<Rightarrow> defined_elements arr \<noteq> [] \<and> wf_expr r \<and>
         (\<forall>lib ctx fl. list_all (sane lib ctx cs fl) (defined_elements arr) \<longrightarrow>
            sane lib ctx cs fl r \<and> ck_evaluate lib ctx r = list_all (ck_evaluate lib ctx) (defined_elements arr)))"
  using and_create_exact [OF assms, of cs True] unfolding settles_def ContextKeyExpr_and_def by blast

theorem ContextKeyExpr_and_evaluate_witness:
  "\<exists>r N. (\<forall>n \<ge> N. ContextKeyExpr_and n (\<lambda>_. None) [Some (OrExpr [DefinedExpr (lit ''a'') None, NotExpr (lit ''b'') None] None), None, Some (GreaterExpr (lit ''c'') (PNum (Num 3)) None)] = Some (Some r)) \<and>
    wf_expr r \<and> ck_evaluate \<lparr>number_toString = \<lambda>_. [], regex_test = \<lambda>_ _. False\<rparr> (\<lambda>k. Prim (PNum (Num (if k = lit ''a'' then 5 else 0)))) r = False"
proof -
  have wf: "list_all wf_expr (defined_elements [Some (OrExpr [DefinedExpr (lit ''a'') None, NotExpr (lit ''b'') None] None), None, Some (GreaterExpr (lit ''c'') (PNum (Num 3)) None)])" by (simp add: is_or_def)
  have sn: "list_all (sane \<lparr>number_toString = \<lambda>_. [], regex_test = \<lambda>_ _. False\<rparr> (\<lambda>k. Prim (PNum (Num (if k = lit ''a'' then 5 else 0)))) (\<lambda>_. None) (\<lambda>_. [])) (defined_elements [Some (OrExpr [DefinedExpr (lit ''a'') None, NotExpr (lit ''b'') None] None), None, Some (GreaterExpr (lit ''c'') (PNum (Num 3)) None)])"
    by (simp add: agrees_def)
  have "lit ''c'' \<noteq> lit ''a''" by (simp add: lit_def)
  then have v: "list_all (ck_evaluate \<lparr>number_toString = \<lambda>_. [], regex_test = \<lambda>_ _. False\<rparr> (\<lambda>k. Prim (PNum (Num (if k = lit ''a'' then 5 else 0))))) (defined_elements [Some (OrExpr [DefinedExpr (lit ''a'') None, NotExpr (lit ''b'') None] None), None, Some (GreaterExpr (lit ''c'') (PNum (Num 3)) None)]) = False"
    by (simp add: leaf_evaluate_defs comparison_evaluate_defs)
  obtain x N where x: "\<forall>n \<ge> N. ContextKeyExpr_and n (\<lambda>_. None) [Some (OrExpr [DefinedExpr (lit ''a'') None, NotExpr (lit ''b'') None] None), None, Some (GreaterExpr (lit ''c'') (PNum (Num 3)) None)] = Some x"
    "case x of None \<Rightarrow> defined_elements [Some (OrExpr [DefinedExpr (lit ''a'') None, NotExpr (lit ''b'') None] None), None, Some (GreaterExpr (lit ''c'') (PNum (Num 3)) None)] = []
     | Some r \<Rightarrow> defined_elements [Some (OrExpr [DefinedExpr (lit ''a'') None, NotExpr (lit ''b'') None] None), None, Some (GreaterExpr (lit ''c'') (PNum (Num 3)) None)] \<noteq> [] \<and> wf_expr r \<and>
         (\<forall>lib ctx fl. list_all (sane lib ctx (\<lambda>_. None) fl) (defined_elements [Some (OrExpr [DefinedExpr (lit ''a'') None, NotExpr (lit ''b'') None] None), None, Some (GreaterExpr (lit ''c'') (PNum (Num 3)) None)]) \<longrightarrow>
            sane lib ctx (\<lambda>_. None) fl r \<and> ck_evaluate lib ctx r = list_all (ck_evaluate lib ctx) (defined_elements [Some (OrExpr [DefinedExpr (lit ''a'') None, NotExpr (lit ''b'') None] None), None, Some (GreaterExpr (lit ''c'') (PNum (Num 3)) None)]))"
    using ContextKeyExpr_and_evaluate [OF wf, of "\<lambda>_. None"] by blast
  then obtain r where "x = Some r" "wf_expr r" "ck_evaluate \<lparr>number_toString = \<lambda>_. [], regex_test = \<lambda>_ _. False\<rparr> (\<lambda>k. Prim (PNum (Num (if k = lit ''a'' then 5 else 0)))) r = False"
    using sn v by (cases x) auto
  with x(1) show ?thesis by blast
qed

text \<open>C16: \<^verbatim>\<open>ContextKeyExpr.or(...)\<close> returns, whatever well formed expressions it gets, and in every context that is sane for all its arguments what it returns holds exactly when one of its arguments
  holds.  (Outside of such contexts it need not: \<^verbatim>\<open>k > 3 || k <= 3\<close> is folded to true, also where \<^verbatim>\<open>k\<close> is not a number.)\<close>

theorem ContextKeyExpr_or_evaluate:
  assumes "list_all wf_expr (defined_elements arr)"
  shows "\<exists>x N. (\<forall>n \<ge> N. ContextKeyExpr_or n cs arr = Some x) \<and>
    (case x of None \<Rightarrow> defined_elements arr = []
     | Some r \<Rightarrow> defined_elements arr \<noteq> [] \<and> wf_expr r \<and>
         (\<forall>lib ctx fl. list_all (sane lib ctx cs fl) (defined_elements arr) \<longrightarrow>
            sane lib ctx cs fl r \<and> ck_evaluate lib ctx r = list_ex (ck_evaluate lib ctx) (defined_elements arr)))"
  using or_create_exact [OF assms, of None cs True] unfolding settles_def ContextKeyExpr_or_def by (simp cong: option.case_cong)

theorem ContextKeyExpr_or_evaluate_witness:
  "\<exists>r N. (\<forall>n \<ge> N. ContextKeyExpr_or n (\<lambda>_. None) [Some (OrExpr [DefinedExpr (lit ''a'') None, NotExpr (lit ''b'') None] None), None, Some (GreaterExpr (lit ''c'') (PNum (Num 3)) None)] = Some (Some r)) \<and>
    wf_expr r \<and> ck_evaluate \<lparr>number_toString = \<lambda>_. [], regex_test = \<lambda>_ _. False\<rparr> (\<lambda>k. Prim (PNum (Num (if k = lit ''a'' then 5 else 0)))) r = True"
proof -
  have wf: "list_all wf_expr (defined_elements [Some (OrExpr [DefinedExpr (lit ''a'') None, NotExpr (lit ''b'') None] None), None, Some (GreaterExpr (lit ''c'') (PNum (Num 3)) None)])" by (simp add: is_or_def)
  have sn: "list_all (sane \<lparr>number_toString = \<lambda>_. [], regex_test = \<lambda>_ _. False\<rparr> (\<lambda>k. Prim (PNum (Num (if k = lit ''a'' then 5 else 0)))) (\<lambda>_. None) (\<lambda>_. [])) (defined_elements [Some (OrExpr [DefinedExpr (lit ''a'') None, NotExpr (lit ''b'') None] None), None, Some (GreaterExpr (lit ''c'') (PNum (Num 3)) None)])"
    by (simp add: agrees_def)
  have "lit ''c'' \<noteq> lit ''a''" by (simp add: lit_def)
  then have v: "list_ex (ck_evaluate \<lparr>number_toString = \<lambda>_. [], regex_test = \<lambda>_ _. False\<rparr> (\<lambda>k. Prim (PNum (Num (if k = lit ''a'' then 5 else 0))))) (defined_elements [Some (OrExpr [DefinedExpr (lit ''a'') None, NotExpr (lit ''b'') None] None), None, Some (GreaterExpr (lit ''c'') (PNum (Num 3)) None)]) = True"
    by (simp add: leaf_evaluate_defs comparison_evaluate_defs)
  obtain x N where x: "\<forall>n \<ge> N. ContextKeyExpr_or n (\<lambda>_. None) [Some (OrExpr [DefinedExpr (lit ''a'') None, NotExpr (lit ''b'') None] None), None, Some (GreaterExpr (lit ''c'') (PNum (Num 3)) None)] = Some x"
    "case x of None \<Rightarrow> defined_elements [Some (OrExpr [DefinedExpr (lit ''a'') None, NotExpr (lit ''b'') None] None), None, Some (GreaterExpr (lit ''c'') (PNum (Num 3)) None)] = []
     | Some r \<Rightarrow> defined_elements [Some (OrExpr [DefinedExpr (lit ''a'') None, NotExpr (lit ''b'') None] None), None, Some (GreaterExpr (lit ''c'') (PNum (Num 3)) None)] \<noteq> [] \<and> wf_expr r \<and>
         (\<forall>lib ctx fl. list_all (sane lib ctx (\<lambda>_. None) fl) (defined_elements [Some (OrExpr [DefinedExpr (lit ''a'') None, NotExpr (lit ''b'') None] None), None, Some (GreaterExpr (lit ''c'') (PNum (Num 3)) None)]) \<longrightarrow>
            sane lib ctx (\<lambda>_. None) fl r \<and> ck_evaluate lib ctx r = list_ex (ck_evaluate lib ctx) (defined_elements [Some (OrExpr [DefinedExpr (lit ''a'') None, NotExpr (lit ''b'') None] None), None, Some (GreaterExpr (lit ''c'') (PNum (Num 3)) None)]))"
    using ContextKeyExpr_or_evaluate [OF wf, of "\<lambda>_. None"] by blast
  then obtain r where "x = Some r" "wf_expr r" "ck_evaluate \<lparr>number_toString = \<lambda>_. [], regex_test = \<lambda>_ _. False\<rparr> (\<lambda>k. Prim (PNum (Num (if k = lit ''a'' then 5 else 0)))) r = True"
    using sn v by (cases x) auto
  with x(1) show ?thesis by blast
qed

text \<open>C17: \<^verbatim>\<open>negate()\<close> of a well formed expression returns, and its result is well formed and, in every context that is sane for the expression, holds exactly where the expression does not.
  (A comparison and its negation are both false where the key has no numeric value; such contexts are not sane for it.)\<close>

theorem ck_negate_complement:
  assumes "wf_expr e"
  shows "\<exists>r N. (\<forall>n \<ge> N. ck_negate n cs e = Some r) \<and> wf_expr r \<and>
    (\<forall>lib ctx fl. sane lib ctx cs fl e \<longrightarrow> sane lib ctx cs fl r \<and> ck_evaluate lib ctx r = (\<not> ck_evaluate lib ctx e))"
  using negate_exact [OF assms, of cs] unfolding settles_def by blast

theorem ck_negate_complement_witness:
  "\<exists>r N. (\<forall>n \<ge> N. ck_negate n (\<lambda>_. None) (OrExpr [DefinedExpr (lit ''a'') None, NotExpr (lit ''b'') None] None) = Some r) \<and> wf_expr r \<and> \<not> ck_evaluate \<lparr>number_toString = \<lambda>_. [], regex_test = \<lambda>_ _. False\<rparr> (\<lambda>k. Prim (PNum (Num (if k = lit ''a'' then 5 else 0)))) r"
proof -
  have "wf_expr (OrExpr [DefinedExpr (lit ''a'') None, NotExpr (lit ''b'') None] None)" by (simp add: is_or_def)
  moreover have "sane \<lparr>number_toString = \<lambda>_. [], regex_test = \<lambda>_ _. False\<rparr> (\<lambda>k. Prim (PNum (Num (if k = lit ''a'' then 5 else 0)))) (\<lambda>_. None) (\<lambda>_. []) (OrExpr [DefinedExpr (lit ''a'') None, NotExpr (lit ''b'') None] None)" "ck_evaluate \<lparr>number_toString = \<lambda>_. [], regex_test = \<lambda>_ _. False\<rparr> (\<lambda>k. Prim (PNum (Num (if k = lit ''a'' then 5 else 0)))) (OrExpr [DefinedExpr (lit ''a'') None, NotExpr (lit ''b'') None] None)"
    by (simp_all add: agrees_def leaf_evaluate_defs)
  ultimately show ?thesis using ck_negate_complement [of "OrExpr [DefinedExpr (lit ''a'') None, NotExpr (lit ''b'') None] None" "\<lambda>_. None"] by blast
qed

text \<open>C24: \<^verbatim>\<open>substituteConstants()\<close> returns a defined expression that has the same value in every context that is sane for the expression: the context gives the constants as the values of their keys
  (for keys that are only tested, a value with the same truth), constants are compared only with strings that are neither numbers nor \<^verbatim>\<open>'true'\<close> or \<^verbatim>\<open>'false'\<close>, numeric comparisons meet numbers, and regular expressions with
  one source have one set of flags.\<close>

theorem ck_substituteConstants_evaluate:
  assumes "wf_expr e"
  shows "\<exists>r N. (\<forall>n \<ge> N. ck_substituteConstants n cs e = Some (Some r)) \<and> wf_expr r \<and>
    (\<forall>lib ctx fl. sane lib ctx cs fl e \<longrightarrow> sane lib ctx cs fl r \<and> ck_evaluate lib ctx r = ck_evaluate lib ctx e)"
  using substituteConstants_exact [OF assms, of cs] unfolding settles_def substitution_ok_def by blast

theorem ck_substituteConstants_evaluate_witness:
  "\<exists>r N. (\<forall>n \<ge> N. ck_substituteConstants n (\<lambda>k. if k = lit ''isMac'' then Some True else None) (AndExpr [DefinedExpr (lit ''isMac'') None, NotExpr (lit ''b'') None] None) = Some (Some r)) \<and> wf_expr r \<and> ck_evaluate \<lparr>number_toString = \<lambda>_. [], regex_test = \<lambda>_ _. False\<rparr> (\<lambda>k. Prim (PBool (k = lit ''isMac''))) r"
proof -
  have "wf_expr (AndExpr [DefinedExpr (lit ''isMac'') None, NotExpr (lit ''b'') None] None)" by (simp add: is_or_def)
  moreover have "sane \<lparr>number_toString = \<lambda>_. [], regex_test = \<lambda>_ _. False\<rparr> (\<lambda>k. Prim (PBool (k = lit ''isMac''))) (\<lambda>k. if k = lit ''isMac'' then Some True else None) (\<lambda>_. []) (AndExpr [DefinedExpr (lit ''isMac'') None, NotExpr (lit ''b'') None] None)" "ck_evaluate \<lparr>number_toString = \<lambda>_. [], regex_test = \<lambda>_ _. False\<rparr> (\<lambda>k. Prim (PBool (k = lit ''isMac''))) (AndExpr [DefinedExpr (lit ''isMac'') None, NotExpr (lit ''b'') None] None)"
    by (simp_all add: agrees_def leaf_evaluate_defs lit_def)
  ultimately show ?thesis using ck_substituteConstants_evaluate [of "AndExpr [DefinedExpr (lit ''isMac'') None, NotExpr (lit ''b'') None] None" "(\<lambda>k. if k = lit ''isMac'' then Some True else None)"] by blast
qed

text \<open>\<^verbatim>\<open>expressionsAreEqualWithConstantSubstitution\<close> decides, and when it answers yes the two expressions have the same value.\<close>

theorem expressionsAreEqual_evaluate:
  assumes "wf_expr a" "wf_expr b"
  shows "\<exists>eq N. (\<forall>n \<ge> N. expressionsAreEqualWithConstantSubstitution n cs (Some a) (Some b) = Some eq) \<and>
    (\<forall>lib ctx fl. eq \<longrightarrow> sane lib ctx cs fl a \<longrightarrow> sane lib ctx cs fl b \<longrightarrow> ck_evaluate lib ctx a = ck_evaluate lib ctx b)"
  using expressionsAreEqual_exact [OF assms, of cs] unfolding settles_def by blast

theorem expressionsAreEqual_evaluate_witness:
  "\<exists>eq N. (\<forall>n \<ge> N. expressionsAreEqualWithConstantSubstitution n (\<lambda>k. if k = lit ''isMac'' then Some True else None) (Some (AndExpr [DefinedExpr (lit ''isMac'') None, NotExpr (lit ''b'') None] None)) (Some (NotExpr (lit ''b'') None)) = Some eq) \<and>
    (eq \<longrightarrow> ck_evaluate \<lparr>number_toString = \<lambda>_. [], regex_test = \<lambda>_ _. False\<rparr> (\<lambda>k. Prim (PBool (k = lit ''isMac''))) (AndExpr [DefinedExpr (lit ''isMac'') None, NotExpr (lit ''b'') None] None) = ck_evaluate \<lparr>number_toString = \<lambda>_. [], regex_test = \<lambda>_ _. False\<rparr> (\<lambda>k. Prim (PBool (k = lit ''isMac''))) (NotExpr (lit ''b'') None))"
proof -
  have "wf_expr (AndExpr [DefinedExpr (lit ''isMac'') None, NotExpr (lit ''b'') None] None)" "wf_expr (NotExpr (lit ''b'') None)" by (simp_all add: is_or_def)
  moreover have "sane \<lparr>number_toString = \<lambda>_. [], regex_test = \<lambda>_ _. False\<rparr> (\<lambda>k. Prim (PBool (k = lit ''isMac''))) (\<lambda>k. if k = lit ''isMac'' then Some True else None) (\<lambda>_. []) (AndExpr [DefinedExpr (lit ''isMac'') None, NotExpr (lit ''b'') None] None)" "sane \<lparr>number_toString = \<lambda>_. [], regex_test = \<lambda>_ _. False\<rparr> (\<lambda>k. Prim (PBool (k = lit ''isMac''))) (\<lambda>k. if k = lit ''isMac'' then Some True else None) (\<lambda>_. []) (NotExpr (lit ''b'') None)"
    by (simp_all add: agrees_def lit_def)
  ultimately show ?thesis using expressionsAreEqual_evaluate [of "AndExpr [DefinedExpr (lit ''isMac'') None, NotExpr (lit ''b'') None] None" "NotExpr (lit ''b'') None" "(\<lambda>k. if k = lit ''isMac'' then Some True else None)"] by blast
qed

text \<open>C23: when \<^verbatim>\<open>implies(p, q)\<close> answers yes and \<^verbatim>\<open>==\<close> and \<^verbatim>\<open>!=\<close> compare with strings only, \<open>q\<close> holds in every context that is sane for both and in which \<open>p\<close> holds.\<close>

theorem ck_implies_sound:
  assumes "ck_implies p q" "sane lib ctx cs fl p" "sane lib ctx cs fl q" "string_values p" "string_values q"
  shows "ck_evaluate lib ctx p \<longrightarrow> ck_evaluate lib ctx q"
  using implies_evaluate [OF assms] by blast



theorem ck_implies_sound_witness:
  "ck_implies (AndExpr [DefinedExpr (lit ''a'') None, NotExpr (lit ''b'') None] None) (DefinedExpr (lit ''a'') None) \<and> ck_evaluate \<lparr>number_toString = \<lambda>_. [], regex_test = \<lambda>_ _. False\<rparr> (\<lambda>k. Prim (PNum (Num (if k = lit ''a'' then 5 else 0)))) (DefinedExpr (lit ''a'') None)"
proof -
  have "ck_implies (AndExpr [DefinedExpr (lit ''a'') None, NotExpr (lit ''b'') None] None) (DefinedExpr (lit ''a'') None)" by code_simp
  then show ?thesis using ck_implies_sound [of "AndExpr [DefinedExpr (lit ''a'') None, NotExpr (lit ''b'') None] None" "DefinedExpr (lit ''a'') None" "\<lparr>number_toString = \<lambda>_. [], regex_test = \<lambda>_ _. False\<rparr>" "(\<lambda>k. Prim (PNum (Num (if k = lit ''a'' then 5 else 0))))" "\<lambda>_. None" "\<lambda>_. []"]
    by (simp add: agrees_def leaf_evaluate_defs lit_def)
qed

text \<open>the value of an expression depends on no key but those \<^verbatim>\<open>keys()\<close> lists.\<close>

theorem ck_evaluate_depends_on_keys:
  assumes "\<forall>k \<in> set (ck_keys e). ctx1 k = ctx2 k"
  shows "ck_evaluate lib ctx1 e = ck_evaluate lib ctx2 e"
  using evaluate_keys assms by blast



theorem ck_evaluate_depends_on_keys_witness:
  "ck_evaluate \<lparr>number_toString = \<lambda>_. [], regex_test = \<lambda>_ _. False\<rparr> (\<lambda>k. Prim (PNum (Num (if k = lit ''a'' then 5 else 0)))) (AndExpr [DefinedExpr (lit ''a'') None, NotExpr (lit ''b'') None] None) = ck_evaluate \<lparr>number_toString = \<lambda>_. [], regex_test = \<lambda>_ _. False\<rparr> (\<lambda>k. if k = lit ''d'' then Prim PNull else (\<lambda>k. Prim (PNum (Num (if k = lit ''a'' then 5 else 0)))) k) (AndExpr [DefinedExpr (lit ''a'') None, NotExpr (lit ''b'') None] None)"
  by (rule ck_evaluate_depends_on_keys) (simp add: ContextKeyAndExpr_keys_def lit_def)

text \<open>\<^verbatim>\<open>ContextKeyExpr.and\<close> leaves an AND that contains an OR when another element is sorted behind the OR, and as
  \<^verbatim>\<open>serialize()\<close> writes no parentheses, the text of \<^verbatim>\<open>(a || b) && c > 3\<close> is that of \<^verbatim>\<open>a || b && c > 3\<close>, which has another value.
\<close>

theorem serialize_loses_parentheses:
  "\<exists>e f ctx. ContextKeyExpr_and 6 (\<lambda>_. None)
      [Some (OrExpr [DefinedExpr (lit ''a'') None, DefinedExpr (lit ''b'') None] None), Some (ContextKeyExpr_greater (lit ''c'') (Num 3))] = Some (Some e) \<and>
    ContextKeyExpr_or 6 (\<lambda>_. None)
      [Some (DefinedExpr (lit ''a'') None), Some (AndExpr [DefinedExpr (lit ''b'') None, ContextKeyExpr_greater (lit ''c'') (Num 3)] None)] = Some (Some f) \<and>
    ck_serialize lib e = ck_serialize lib f \<and> ck_evaluate lib ctx e \<noteq> ck_evaluate lib ctx f"
proof -
  let ?a = "DefinedExpr (lit ''a'') None" and ?b = "DefinedExpr (lit ''b'') None" and ?c = "GreaterExpr (lit ''c'') (PNum (Num 3)) None"
  let ?ctx = "\<lambda>k. if k = lit ''c'' then Prim (PNum (Num 0)) else Prim (PBool True)"
  have e: "ContextKeyExpr_and 6 (\<lambda>_. None) [Some (OrExpr [?a, ?b] None), Some (ContextKeyExpr_greater (lit ''c'') (Num 3))] =
      Some (Some (AndExpr [OrExpr [?a, ?b] None, ?c] None))"
    by code_simp
  have f: "ContextKeyExpr_or 6 (\<lambda>_. None) [Some ?a, Some (AndExpr [?b, ContextKeyExpr_greater (lit ''c'') (Num 3)] None)] =
      Some (Some (OrExpr [?a, AndExpr [?b, ?c] None] None))"
    by code_simp
  have s: "ck_serialize lib (AndExpr [OrExpr [?a, ?b] None, ?c] None) = ck_serialize lib (OrExpr [?a, AndExpr [?b, ?c] None] None)"
    by (simp add: ContextKeyAndExpr_serialize_def ContextKeyOrExpr_serialize_def)
  have v: "ck_evaluate lib ?ctx (AndExpr [OrExpr [?a, ?b] None, ?c] None) \<noteq> ck_evaluate lib ?ctx (OrExpr [?a, AndExpr [?b, ?c] None] None)"
    by (simp add: leaf_evaluate_defs comparison_evaluate_defs lit_def)
  from e f s v show ?thesis by blast
qed

end
