(* ===== verification/Keybinding_Resolver.thy ===== *)
theory Keybinding_Resolver
  imports Context_Key_Results
begin

text \<open>
  \<^verbatim>\<open>src/vs/platform/keybinding/common/keybindingResolver.ts\<close> and \<^verbatim>\<open>resolvedKeybindingItem.ts\<close>: which command a
  sequence of chords runs, and which keybinding a menu shows for a command.

  A \<^verbatim>\<open>Map\<close> is an association list in insertion order.  The source compares items by reference; an item of the
  model carries a number that stands for its identity.  The messages for the log are part of the
  result of \<^verbatim>\<open>resolve\<close>.  A bound on the calls of \<^verbatim>\<open>substituteConstants\<close> is passed down, and \<open>None\<close> says that it was too small.
\<close>

section \<open>Maps\<close>

fun Map_set :: "('k \<times> 'v) list \<Rightarrow> 'k \<Rightarrow> 'v \<Rightarrow> ('k \<times> 'v) list" where
  "Map_set [] k v = [(k, v)]"
| "Map_set ((k', v') # m) k v = (if k' = k then (k, v) # m else (k', v') # Map_set m k v)"

abbreviation Map_get :: "('k \<times> 'v) list \<Rightarrow> 'k \<Rightarrow> 'v option" where
  "Map_get m k \<equiv> map_of m k"

lemma Map_get_set [simp]: "Map_get (Map_set m k v) k' = (if k' = k then Some v else Map_get m k')"
  by (induction m k v rule: Map_set.induct) auto

section \<open>ResolvedKeybindingItem\<close>

text \<open>What the constructor asks a \<^verbatim>\<open>ResolvedKeybinding\<close> for: its chords, \<open>None\<close> for \<^verbatim>\<open>null\<close>.\<close>

record ResolvedKeybinding =
  getDispatchChords :: "js_string option list"
  getSingleModifierDispatchChords :: "js_string option list"

record ResolvedKeybindingItem =
  item_ref :: nat
  chords :: "js_string list"
  bubble :: bool
  command :: "js_string option"
  commandArgs :: js_value
  when_clause :: "ContextKeyExpression option"
  isDefault :: bool
  extensionId :: "js_string option"
  isBuiltinExtension :: bool

fun toEmptyArray_loop :: "js_string option list \<Rightarrow> js_string list \<Rightarrow> js_string list" where
  "toEmptyArray_loop [] acc = acc"
| "toEmptyArray_loop (None # arr) acc = []"
| "toEmptyArray_loop (Some e # arr) acc = (if e = [] then [] else toEmptyArray_loop arr (acc @ [e]))"

definition toEmptyArrayIfContainsNull :: "js_string option list \<Rightarrow> js_string list" where
  "toEmptyArrayIfContainsNull arr = toEmptyArray_loop arr []"

text \<open>\<^verbatim>\<open>null\<close> and the empty string are falsy.\<close>

definition truthy_string :: "js_string option \<Rightarrow> bool" where
  "truthy_string c \<longleftrightarrow> c \<noteq> None \<and> c \<noteq> Some []"

definition first_char :: "js_string option \<Rightarrow> code_unit option" where
  "first_char c = (case c of Some (x # xs) \<Rightarrow> Some x | _ \<Rightarrow> None)"

definition new_ResolvedKeybindingItem ::
    "nat \<Rightarrow> ResolvedKeybinding option \<Rightarrow> js_string option \<Rightarrow> js_value \<Rightarrow> ContextKeyExpression option \<Rightarrow> bool
     \<Rightarrow> js_string option \<Rightarrow> bool \<Rightarrow> ResolvedKeybindingItem" where
  "new_ResolvedKeybindingItem ref resolvedKeybinding cmd args w dflt ext builtin =
     (let cs1 = (case resolvedKeybinding of None \<Rightarrow> [] | Some rk \<Rightarrow> toEmptyArrayIfContainsNull (getDispatchChords rk));
          cs2 = (case resolvedKeybinding of None \<Rightarrow> cs1
                 | Some rk \<Rightarrow> if cs1 = [] then toEmptyArrayIfContainsNull (getSingleModifierDispatchChords rk) else cs1);
          bub = (if truthy_string cmd then first_char cmd = Some 94 else False)
      in \<lparr>item_ref = ref, chords = cs2, bubble = bub, command = (if bub then map_option (drop 1) cmd else cmd),
          commandArgs = args, when_clause = w, isDefault = dflt, extensionId = ext, isBuiltinExtension = builtin\<rparr>)"

section \<open>Removals\<close>

text \<open>The loop over the chords of a removal; a chord the default keybinding does not have is \<^verbatim>\<open>undefined\<close>.\<close>

fun keypress_matches :: "js_string list \<Rightarrow> js_string list \<Rightarrow> bool" where
  "keypress_matches [] cs = True"
| "keypress_matches (k # ks) [] = False"
| "keypress_matches (k # ks) (c # cs) = (if k \<noteq> c then False else keypress_matches ks cs)"

definition KeybindingResolver_isTargetedForRemoval ::
    "nat \<Rightarrow> constants \<Rightarrow> ResolvedKeybindingItem \<Rightarrow> js_string list \<Rightarrow> ContextKeyExpression option \<Rightarrow> bool option" where
  "KeybindingResolver_isTargetedForRemoval m cs defaultKb keypress w =
     (if \<not> keypress_matches keypress (chords defaultKb) then Some False
      else case w of
        None \<Rightarrow> Some True
      | Some e \<Rightarrow>
          if ContextKeyExprType e \<noteq> 1 then
            (case when_clause defaultKb of
               None \<Rightarrow> Some False
             | Some dw \<Rightarrow> expressionsAreEqualWithConstantSubstitution m cs (Some e) (Some dw))
          else Some True)"

text \<open>The first pass: the rules \<^verbatim>\<open>-commandId\<close> by command.\<close>

fun removals_loop :: "ResolvedKeybindingItem list \<Rightarrow> (js_string \<times> ResolvedKeybindingItem list) list
    \<Rightarrow> (js_string \<times> ResolvedKeybindingItem list) list" where
  "removals_loop [] removals = removals"
| "removals_loop (rule # rules) removals =
     (if truthy_string (command rule) \<and> first_char (command rule) = Some 45 then
        (let cmd = drop 1 (the (command rule))
         in case Map_get removals cmd of
              None \<Rightarrow> removals_loop rules (Map_set removals cmd [rule])
            | Some rs \<Rightarrow> removals_loop rules (Map_set removals cmd (rs @ [rule])))
      else removals_loop rules removals)"

fun isRemoved_loop :: "nat \<Rightarrow> constants \<Rightarrow> ResolvedKeybindingItem \<Rightarrow> ResolvedKeybindingItem list \<Rightarrow> bool option" where
  "isRemoved_loop m cs rule [] = Some False"
| "isRemoved_loop m cs rule (commandRemoval # rest) =
     (case KeybindingResolver_isTargetedForRemoval m cs rule (chords commandRemoval) (when_clause commandRemoval) of
        None \<Rightarrow> None
      | Some b \<Rightarrow> if b then Some True else isRemoved_loop m cs rule rest)"

text \<open>The body of the second pass: whether a rule is kept.\<close>

definition keep_rule :: "nat \<Rightarrow> constants \<Rightarrow> (js_string \<times> ResolvedKeybindingItem list) list \<Rightarrow> ResolvedKeybindingItem \<Rightarrow> bool option" where
  "keep_rule m cs removals rule =
     (if \<not> truthy_string (command rule) then Some True
      else if first_char (command rule) = Some 45 then Some False
      else case Map_get removals (the (command rule)) of
        None \<Rightarrow> Some True
      | Some commandRemovals \<Rightarrow>
          if \<not> isDefault rule then Some True
          else map_option Not (isRemoved_loop m cs rule commandRemovals))"

fun keep_loop :: "nat \<Rightarrow> constants \<Rightarrow> (js_string \<times> ResolvedKeybindingItem list) list \<Rightarrow> ResolvedKeybindingItem list
    \<Rightarrow> ResolvedKeybindingItem list \<Rightarrow> ResolvedKeybindingItem list option" where
  "keep_loop m cs removals [] acc = Some acc"
| "keep_loop m cs removals (rule # rules) acc =
     (case keep_rule m cs removals rule of
        None \<Rightarrow> None
      | Some b \<Rightarrow> keep_loop m cs removals rules (if b then acc @ [rule] else acc))"

definition KeybindingResolver_handleRemovals ::
    "nat \<Rightarrow> constants \<Rightarrow> ResolvedKeybindingItem list \<Rightarrow> ResolvedKeybindingItem list option" where
  "KeybindingResolver_handleRemovals m cs rules =
     (let removals = removals_loop rules []
      in if removals = [] then Some rules else keep_loop m cs removals rules [])"

section \<open>The tables\<close>

record KeybindingResolver =
  kr_defaultKeybindings :: "ResolvedKeybindingItem list"
  kr_keybindings :: "ResolvedKeybindingItem list"
  kr_defaultBoundCommands :: "(js_string \<times> bool) list"
  kr_map :: "(js_string \<times> ResolvedKeybindingItem list) list"
  kr_lookupMap :: "(js_string \<times> ResolvedKeybindingItem list) list"

definition KeybindingResolver_addToLookupMap :: "KeybindingResolver \<Rightarrow> ResolvedKeybindingItem \<Rightarrow> KeybindingResolver" where
  "KeybindingResolver_addToLookupMap r item =
     (if \<not> truthy_string (command item) then r
      else
        let cmd = the (command item)
        in case Map_get (kr_lookupMap r) cmd of
             None \<Rightarrow> r\<lparr>kr_lookupMap := Map_set (kr_lookupMap r) cmd [item]\<rparr>
           | Some arr \<Rightarrow> r\<lparr>kr_lookupMap := Map_set (kr_lookupMap r) cmd (arr @ [item])\<rparr>)"

text \<open>Removing the first element that is the item itself.\<close>

fun splice_item :: "ResolvedKeybindingItem list \<Rightarrow> ResolvedKeybindingItem \<Rightarrow> ResolvedKeybindingItem list" where
  "splice_item [] item = []"
| "splice_item (x # arr) item = (if item_ref x = item_ref item then arr else x # splice_item arr item)"

definition KeybindingResolver_removeFromLookupMap :: "KeybindingResolver \<Rightarrow> ResolvedKeybindingItem \<Rightarrow> KeybindingResolver" where
  "KeybindingResolver_removeFromLookupMap r item =
     (if \<not> truthy_string (command item) then r
      else case Map_get (kr_lookupMap r) (the (command item)) of
        None \<Rightarrow> r
      | Some arr \<Rightarrow> r\<lparr>kr_lookupMap := Map_set (kr_lookupMap r) (the (command item)) (splice_item arr item)\<rparr>)"

definition KeybindingResolver_whenIsEntirelyIncluded :: "ContextKeyExpression option \<Rightarrow> ContextKeyExpression option \<Rightarrow> bool" where
  "KeybindingResolver_whenIsEntirelyIncluded a b =
     (case b of
        None \<Rightarrow> True
      | Some q \<Rightarrow>
          if ContextKeyExprType q = 1 then True
          else case a of
            None \<Rightarrow> False
          | Some p \<Rightarrow> if ContextKeyExprType p = 1 then False else ck_implies p q)"

text \<open>The loop that compares the chords behind the first, as far as both keybindings have them.\<close>

fun shorter_is_prefix :: "js_string list \<Rightarrow> js_string list \<Rightarrow> bool" where
  "shorter_is_prefix (a # as) (b # bs) = (if a \<noteq> b then False else shorter_is_prefix as bs)"
| "shorter_is_prefix _ _ = True"

text \<open>The loop over the conflicts, given from the last to the first.\<close>

fun conflicts_loop :: "ResolvedKeybindingItem \<Rightarrow> ResolvedKeybindingItem list \<Rightarrow> KeybindingResolver \<Rightarrow> KeybindingResolver" where
  "conflicts_loop item [] r = r"
| "conflicts_loop item (conflict # rest) r =
     (if command conflict = command item then conflicts_loop item rest r
      else if \<not> shorter_is_prefix (drop 1 (chords conflict)) (drop 1 (chords item)) then conflicts_loop item rest r
      else if KeybindingResolver_whenIsEntirelyIncluded (when_clause conflict) (when_clause item)
        then conflicts_loop item rest (KeybindingResolver_removeFromLookupMap r conflict)
      else conflicts_loop item rest r)"

definition KeybindingResolver_addKeyPress :: "KeybindingResolver \<Rightarrow> js_string \<Rightarrow> ResolvedKeybindingItem \<Rightarrow> KeybindingResolver" where
  "KeybindingResolver_addKeyPress r keypress item =
     (case Map_get (kr_map r) keypress of
        None \<Rightarrow> KeybindingResolver_addToLookupMap (r\<lparr>kr_map := Map_set (kr_map r) keypress [item]\<rparr>) item
      | Some conflicts \<Rightarrow>
          (let r1 = conflicts_loop item (rev conflicts) r
           in KeybindingResolver_addToLookupMap (r1\<lparr>kr_map := Map_set (kr_map r1) keypress (conflicts @ [item])\<rparr>) item))"

fun defaultBound_loop :: "ResolvedKeybindingItem list \<Rightarrow> (js_string \<times> bool) list \<Rightarrow> (js_string \<times> bool) list" where
  "defaultBound_loop [] m = m"
| "defaultBound_loop (k # ks) m =
     (if truthy_string (command k) \<and> first_char (command k) \<noteq> Some 45 then defaultBound_loop ks (Map_set m (the (command k)) True)
      else defaultBound_loop ks m)"

text \<open>Whether the constructor enters a keybinding into the tables.\<close>

definition is_active :: "nat \<Rightarrow> constants \<Rightarrow> ResolvedKeybindingItem \<Rightarrow> bool option" where
  "is_active m cs k =
     (if chords k = [] then Some False
      else case when_clause k of
        None \<Rightarrow> Some True
      | Some e \<Rightarrow>
          (case ck_substituteConstants m cs e of
             None \<Rightarrow> None
           | Some None \<Rightarrow> Some True
           | Some (Some w) \<Rightarrow> Some (ContextKeyExprType w \<noteq> 0)))"

fun tables_loop :: "nat \<Rightarrow> constants \<Rightarrow> ResolvedKeybindingItem list \<Rightarrow> KeybindingResolver \<Rightarrow> KeybindingResolver option" where
  "tables_loop m cs [] r = Some r"
| "tables_loop m cs (k # ks) r =
     (case is_active m cs k of
        None \<Rightarrow> None
      | Some b \<Rightarrow> tables_loop m cs ks (if b then KeybindingResolver_addKeyPress r (hd (chords k)) k else r))"

definition new_KeybindingResolver ::
    "nat \<Rightarrow> constants \<Rightarrow> ResolvedKeybindingItem list \<Rightarrow> ResolvedKeybindingItem list \<Rightarrow> KeybindingResolver option" where
  "new_KeybindingResolver m cs defaultKeybindings overrides =
     (case KeybindingResolver_handleRemovals m cs (defaultKeybindings @ overrides) of
        None \<Rightarrow> None
      | Some kbs \<Rightarrow>
          tables_loop m cs kbs
            \<lparr>kr_defaultKeybindings = defaultKeybindings, kr_keybindings = kbs,
             kr_defaultBoundCommands = defaultBound_loop defaultKeybindings [], kr_map = [], kr_lookupMap = []\<rparr>)"

section \<open>Queries\<close>

definition KeybindingResolver_getDefaultBoundCommands :: "KeybindingResolver \<Rightarrow> (js_string \<times> bool) list" where
  "KeybindingResolver_getDefaultBoundCommands r = kr_defaultBoundCommands r"

definition KeybindingResolver_getDefaultKeybindings :: "KeybindingResolver \<Rightarrow> ResolvedKeybindingItem list" where
  "KeybindingResolver_getDefaultKeybindings r = kr_defaultKeybindings r"

definition KeybindingResolver_getKeybindings :: "KeybindingResolver \<Rightarrow> ResolvedKeybindingItem list" where
  "KeybindingResolver_getKeybindings r = kr_keybindings r"

definition KeybindingResolver_lookupKeybindings :: "KeybindingResolver \<Rightarrow> js_string \<Rightarrow> ResolvedKeybindingItem list" where
  "KeybindingResolver_lookupKeybindings r commandId =
     (case Map_get (kr_lookupMap r) commandId of None \<Rightarrow> [] | Some items \<Rightarrow> rev items)"

text \<open>\<^verbatim>\<open>contextMatchesRules\<close> of the context key service is a parameter.\<close>

definition KeybindingResolver_lookupPrimaryKeybinding ::
    "KeybindingResolver \<Rightarrow> js_string \<Rightarrow> (ContextKeyExpression option \<Rightarrow> bool) \<Rightarrow> ResolvedKeybindingItem option" where
  "KeybindingResolver_lookupPrimaryKeybinding r commandId contextMatchesRules =
     (case Map_get (kr_lookupMap r) commandId of
        None \<Rightarrow> None
      | Some items \<Rightarrow>
          if items = [] then None
          else if length items = 1 then Some (hd items)
          else case find (\<lambda>item. contextMatchesRules (when_clause item)) (rev items) of
            Some item \<Rightarrow> Some item
          | None \<Rightarrow> Some (last items))"

datatype ResolutionResult = NoMatchingKb | MoreChordsNeeded | KbFound "js_string option" js_value bool

definition KeybindingResolver_contextMatchesRules :: "js_lib \<Rightarrow> ck_context \<Rightarrow> ContextKeyExpression option \<Rightarrow> bool" where
  "KeybindingResolver_contextMatchesRules lib ctx rules =
     (case rules of None \<Rightarrow> True | Some e \<Rightarrow> ck_evaluate lib ctx e)"

definition KeybindingResolver_findCommand ::
    "js_lib \<Rightarrow> ck_context \<Rightarrow> ResolvedKeybindingItem list \<Rightarrow> ResolvedKeybindingItem option" where
  "KeybindingResolver_findCommand lib ctx matches =
     find (\<lambda>k. KeybindingResolver_contextMatchesRules lib ctx (when_clause k)) (rev matches)"

text \<open>The loop over the candidates when more than one chord was pressed.\<close>

fun candidates_loop :: "js_string list \<Rightarrow> ResolvedKeybindingItem list \<Rightarrow> ResolvedKeybindingItem list \<Rightarrow> ResolvedKeybindingItem list" where
  "candidates_loop pressedChords [] acc = acc"
| "candidates_loop pressedChords (candidate # rest) acc =
     (if length pressedChords > length (chords candidate) then candidates_loop pressedChords rest acc
      else if keypress_matches (drop 1 pressedChords) (drop 1 (chords candidate))
        then candidates_loop pressedChords rest (acc @ [candidate])
      else candidates_loop pressedChords rest acc)"

definition printWhenExplanation :: "js_lib \<Rightarrow> ContextKeyExpression option \<Rightarrow> js_string" where
  "printWhenExplanation lib w = (case w of None \<Rightarrow> lit ''no when condition'' | Some e \<Rightarrow> ck_serialize lib e)"

definition printSourceExplanation :: "ResolvedKeybindingItem \<Rightarrow> js_string" where
  "printSourceExplanation kb =
     (if truthy_string (extensionId kb) then
        (if isBuiltinExtension kb then lit ''built-in extension '' @ the (extensionId kb)
         else lit ''user extension '' @ the (extensionId kb))
      else if isDefault kb then lit ''built-in'' else lit ''user'')"

definition nat_toString :: "js_lib \<Rightarrow> nat \<Rightarrow> js_string" where
  "nat_toString lib n = number_toString lib (Num (of_nat n))"

text \<open>The result and the lines written to the log; the code unit 92 is the backslash that opens an answer.\<close>

definition KeybindingResolver_resolve ::
    "js_lib \<Rightarrow> KeybindingResolver \<Rightarrow> ck_context \<Rightarrow> js_string list \<Rightarrow> js_string \<Rightarrow> ResolutionResult \<times> js_string list" where
  "KeybindingResolver_resolve lib r ctx currentChords keypress =
     (let pressedChords = currentChords @ [keypress];
          log1 = lit ''| Resolving '' @ join_with (lit '','') pressedChords
      in case Map_get (kr_map r) (hd pressedChords) of
           None \<Rightarrow> (NoMatchingKb, [log1, 92 # lit '' No keybinding entries.''])
         | Some kbCandidates \<Rightarrow>
             (let lookupMap = (if length pressedChords < 2 then kbCandidates else candidates_loop pressedChords kbCandidates []);
                  from_entries = 92 # lit '' From '' @ nat_toString lib (length lookupMap) @ lit '' keybinding entries, ''
              in case KeybindingResolver_findCommand lib ctx lookupMap of
                   None \<Rightarrow> (NoMatchingKb, [log1, from_entries @ lit ''no when clauses matched the context.''])
                 | Some result \<Rightarrow>
                     (let explained = lit '', when: '' @ printWhenExplanation lib (when_clause result) @ lit '', source: ''
                                        @ printSourceExplanation result @ lit ''.''
                      in if length pressedChords < length (chords result) then
                           (MoreChordsNeeded,
                            [log1, from_entries @ lit ''awaiting '' @ nat_toString lib (length (chords result) - length pressedChords)
                                     @ lit '' more chord(s)'' @ explained])
                         else
                           (KbFound (command result) (commandArgs result) (bubble result),
                            [log1, from_entries @ lit ''matched ''
                                     @ (case command result of None \<Rightarrow> lit ''null'' | Some c \<Rightarrow> c) @ explained]))))"

end
