(* ===== verification/Keybinding_Results.thy ===== *)
theory Keybinding_Results
  imports Keybinding_Resolver
begin

text \<open>
  What a \<^verbatim>\<open>KeybindingResolver\<close> promises: \<open>resolve_reference\<close> and \<open>visible\<close> are its specification over the plain list of keybindings;
  the two tables refine them, and the constructor returns for well formed conditions.
\<close>

section \<open>Removals\<close>

lemma first_char_iff: "truthy_string c \<and> first_char c = Some x \<longleftrightarrow> (\<exists>s. c = Some (x # s))"
  by (auto simp: truthy_string_def first_char_def split: option.splits list.splits)

lemma removals_loop_get:
  "Map_get (removals_loop rules m) c =
     (let l = filter (\<lambda>r. command r = Some (45 # c)) rules
      in case Map_get m c of None \<Rightarrow> if l = [] then None else Some l | Some old \<Rightarrow> Some (old @ l))"
proof (induction rules m rule: removals_loop.induct)
  case (2 rule rules m)
  show ?case
  proof (cases "truthy_string (command rule) \<and> first_char (command rule) = Some 45")
    case True
    then obtain s where s: "command rule = Some (45 # s)" using first_char_iff by blast
    show ?thesis
    proof (cases "Map_get m s")
      case None
      then have "removals_loop (rule # rules) m = removals_loop rules (Map_set m s [rule])" using True s by simp
      moreover note 2(1) [OF True, of s]
      ultimately show ?thesis using None s by (cases "c = s") (simp_all add: Let_def)
    next
      case (Some rs)
      then have "removals_loop (rule # rules) m = removals_loop rules (Map_set m s (rs @ [rule]))" using True s by simp
      moreover note 2(2) [OF True, of s rs]
      ultimately show ?thesis using Some s by (cases "c = s") (simp_all add: Let_def)
    qed
  next
    case False
    then have "command rule \<noteq> Some (45 # c)" using first_char_iff by blast
    with 2(3) [OF False] False show ?thesis by auto
  qed
qed (auto split: option.splits)

lemma removals_loop_Nil: "removals_loop rules m = [] \<Longrightarrow> m = [] \<and> (\<forall>r \<in> set rules. \<nexists>c. command r = Some (45 # c))"
proof -
  assume nil: "removals_loop rules m = []"
  have get: "Map_get (removals_loop rules m) c = None" for c by (simp add: nil)
  have "Map_get m c = None" for c using get [of c] by (simp add: removals_loop_get Let_def split: option.splits if_splits)
  then have "m = []" by (cases m) (auto, metis option.distinct(1))
  moreover have "filter (\<lambda>r. command r = Some (45 # c)) rules = []" for c
    using get [of c] \<open>m = []\<close> by (simp add: removals_loop_get Let_def split: if_splits)
  ultimately show ?thesis by (auto simp: filter_empty_conv)
qed

text \<open>The rules that stay: those without a command, and those that no rule \<^verbatim>\<open>-commandId\<close> targets.\<close>

definition kept :: "nat \<Rightarrow> constants \<Rightarrow> ResolvedKeybindingItem list \<Rightarrow> ResolvedKeybindingItem \<Rightarrow> bool" where
  "kept m cs rules k \<longleftrightarrow>
     \<not> truthy_string (command k) \<or>
     first_char (command k) \<noteq> Some 45 \<and>
     \<not> (isDefault k \<and> (\<exists>rm \<in> set rules. command rm = Some (45 # the (command k)) \<and>
           KeybindingResolver_isTargetedForRemoval m cs k (chords rm) (when_clause rm) = Some True))"

lemma isRemoved_loop_iff:
  "isRemoved_loop m cs rule rms = Some b \<Longrightarrow>
   b \<longleftrightarrow> (\<exists>rm \<in> set rms. KeybindingResolver_isTargetedForRemoval m cs rule (chords rm) (when_clause rm) = Some True)"
  by (induction rms) (auto split: option.splits if_splits)

lemma keep_rule_kept: "keep_rule m cs (removals_loop rules []) rule = Some b \<Longrightarrow> b \<longleftrightarrow> kept m cs rules rule"
  by (auto simp: keep_rule_def kept_def removals_loop_get Let_def filter_empty_conv dest!: isRemoved_loop_iff
      split: if_splits option.splits)

lemma keep_loop_kept:
  "keep_loop m cs (removals_loop rules0 []) rules acc = Some ks \<Longrightarrow> ks = acc @ filter (kept m cs rules0) rules"
proof (induction rules arbitrary: acc)
  case (Cons rule rules)
  then obtain b where b: "keep_rule m cs (removals_loop rules0 []) rule = Some b" by (auto split: option.splits)
  with Cons.prems have "keep_loop m cs (removals_loop rules0 []) rules (if b then acc @ [rule] else acc) = Some ks" by simp
  from Cons.IH [OF this] keep_rule_kept [OF b] show ?case by simp
qed simp

lemma handleRemovals_kept:
  assumes "KeybindingResolver_handleRemovals m cs rules = Some ks"
  shows "ks = filter (kept m cs rules) rules"
proof (cases "removals_loop rules [] = []")
  case True
  then have no: "\<forall>r \<in> set rules. \<nexists>c. command r = Some (45 # c)" using removals_loop_Nil by blast
  then have "kept m cs rules r" if "r \<in> set rules" for r
    using that first_char_iff [of "command r" 45] by (auto simp: kept_def)
  then have "filter (kept m cs rules) rules = rules" by (simp add: filter_id_conv)
  with True assms show ?thesis by (simp add: KeybindingResolver_handleRemovals_def)
next
  case False
  then show ?thesis using assms keep_loop_kept [of m cs rules rules "[]"] by (simp add: KeybindingResolver_handleRemovals_def)
qed

section \<open>The table of keypresses\<close>

abbreviation active :: "nat \<Rightarrow> constants \<Rightarrow> ResolvedKeybindingItem \<Rightarrow> bool" where
  "active m cs k \<equiv> is_active m cs k = Some True"

definition map_ok :: "KeybindingResolver \<Rightarrow> ResolvedKeybindingItem list \<Rightarrow> bool" where
  "map_ok r items \<longleftrightarrow> (\<forall>c. Map_get (kr_map r) c =
     (if filter (\<lambda>k. hd (chords k) = c) items = [] then None else Some (filter (\<lambda>k. hd (chords k) = c) items)))"

lemma lookup_update_fields [simp]:
  "kr_map (KeybindingResolver_addToLookupMap r k) = kr_map r"
  "kr_keybindings (KeybindingResolver_addToLookupMap r k) = kr_keybindings r"
  "kr_map (KeybindingResolver_removeFromLookupMap r k) = kr_map r"
  "kr_keybindings (KeybindingResolver_removeFromLookupMap r k) = kr_keybindings r"
  by (simp_all add: KeybindingResolver_addToLookupMap_def KeybindingResolver_removeFromLookupMap_def Let_def split: option.split)

lemma conflicts_loop_fields [simp]:
  "kr_map (conflicts_loop item cs r) = kr_map r" "kr_keybindings (conflicts_loop item cs r) = kr_keybindings r"
  by (induction item cs r rule: conflicts_loop.induct) simp_all

lemma addKeyPress_map:
  assumes "map_ok r items"
  shows "map_ok (KeybindingResolver_addKeyPress r (hd (chords k)) k) (items @ [k])"
  using assms by (auto simp: map_ok_def KeybindingResolver_addKeyPress_def Let_def split: option.split)

lemma addKeyPress_keybindings [simp]: "kr_keybindings (KeybindingResolver_addKeyPress r c k) = kr_keybindings r"
  by (simp add: KeybindingResolver_addKeyPress_def Let_def split: option.split)

lemma tables_loop_map:
  "tables_loop m cs ks r = Some r' \<Longrightarrow> map_ok r items \<Longrightarrow>
   map_ok r' (items @ filter (active m cs) ks) \<and> kr_keybindings r' = kr_keybindings r"
proof (induction ks arbitrary: r items)
  case (Cons k ks)
  then obtain b where b: "is_active m cs k = Some b" by (auto split: option.splits)
  show ?case
  proof (cases b)
    case True
    with Cons b addKeyPress_map [OF Cons.prems(2), of k] show ?thesis by fastforce
  next
    case False
    with Cons b show ?thesis by simp
  qed
qed auto

section \<open>Resolution\<close>

text \<open>The reference: the last keybinding whose chords start with the pressed ones and whose condition holds.\<close>

definition resolve_reference ::
    "js_lib \<Rightarrow> ck_context \<Rightarrow> ResolvedKeybindingItem list \<Rightarrow> js_string list \<Rightarrow> ResolutionResult" where
  "resolve_reference lib ctx items pressed =
     (case find (\<lambda>k. keypress_matches pressed (chords k) \<and> KeybindingResolver_contextMatchesRules lib ctx (when_clause k)) (rev items) of
        None \<Rightarrow> NoMatchingKb
      | Some k \<Rightarrow> if length pressed < length (chords k) then MoreChordsNeeded
                  else KbFound (command k) (commandArgs k) (bubble k))"

lemma find_filter: "find P (filter Q xs) = find (\<lambda>x. Q x \<and> P x) xs"
  by (induction xs) auto

lemma find_cong_set: "(\<And>x. x \<in> set xs \<Longrightarrow> P x = Q x) \<Longrightarrow> find P xs = find Q xs"
  by (induction xs) auto

lemma keypress_matches_length: "keypress_matches ks cs \<Longrightarrow> length ks \<le> length cs"
  by (induction ks cs rule: keypress_matches.induct) (auto split: if_splits)

lemma candidates_loop_filter:
  "candidates_loop pressed cands acc =
     acc @ filter (\<lambda>k. length pressed \<le> length (chords k) \<and> keypress_matches (drop 1 pressed) (drop 1 (chords k))) cands"
  by (induction cands arbitrary: acc) auto

lemma keypress_matches_hd:
  assumes "chords k \<noteq> []"
  shows "keypress_matches (p # ps) (chords k) \<longleftrightarrow>
    hd (chords k) = p \<and> length (p # ps) \<le> length (chords k) \<and> keypress_matches ps (drop 1 (chords k))"
  using assms keypress_matches_length [of ps "drop 1 (chords k)"] by (cases "chords k") auto

lemma resolve_map_ok:
  assumes "map_ok r items" "\<And>k. k \<in> set items \<Longrightarrow> chords k \<noteq> []"
  shows "fst (KeybindingResolver_resolve lib r ctx currentChords keypress) = resolve_reference lib ctx items (currentChords @ [keypress])"
proof -
  obtain p ps where p: "currentChords @ [keypress] = p # ps" by (cases "currentChords @ [keypress]") auto
  let ?C = "filter (\<lambda>k. hd (chords k) = p) items"
  let ?M = "\<lambda>k. KeybindingResolver_contextMatchesRules lib ctx (when_clause k)"
  let ?L = "if length (p # ps) < 2 then ?C else candidates_loop (p # ps) ?C []"
  have L: "find ?M (rev ?L) = find (\<lambda>k. keypress_matches (p # ps) (chords k) \<and> ?M k) (rev items)"
  proof (cases ps)
    case Nil
    have "find ?M (rev ?L) = find (\<lambda>k. hd (chords k) = p \<and> ?M k) (rev items)" by (simp add: Nil rev_filter find_filter)
    also have "\<dots> = find (\<lambda>k. keypress_matches (p # ps) (chords k) \<and> ?M k) (rev items)"
      using keypress_matches_hd [OF assms(2)] by (intro find_cong_set) (auto simp: Nil Suc_le_eq dest: assms(2))
    finally show ?thesis .
  next
    case (Cons q qs)
    have "find ?M (rev ?L) = find (\<lambda>k. hd (chords k) = p \<and> (length (p # ps) \<le> length (chords k) \<and> keypress_matches ps (drop 1 (chords k))) \<and> ?M k) (rev items)"
      by (simp add: Cons candidates_loop_filter rev_filter find_filter conj_ac)
    also have "\<dots> = find (\<lambda>k. keypress_matches (p # ps) (chords k) \<and> ?M k) (rev items)"
      using keypress_matches_hd [OF assms(2)] by (intro find_cong_set) auto
    finally show ?thesis .
  qed
  show ?thesis
  proof (cases "?C = []")
    case True
    then have "find (\<lambda>k. keypress_matches (p # ps) (chords k) \<and> ?M k) (rev items) = None"
      using L unfolding True by (simp split: if_splits)
    with True assms(1) show ?thesis
      by (simp add: KeybindingResolver_resolve_def Let_def p map_ok_def resolve_reference_def)
  next
    case False
    have "Map_get (kr_map r) p = Some ?C" using assms(1) False by (simp add: map_ok_def)
    then show ?thesis using L
      by (auto simp: KeybindingResolver_resolve_def Let_def p resolve_reference_def KeybindingResolver_findCommand_def split: option.split)
  qed
qed

section \<open>The table of commands\<close>

text \<open>A later keybinding hides an earlier one of another command: one of the two chord sequences is a prefix of the other, and
  whenever the condition of the earlier one holds, so does that of the later one.\<close>

definition overrides :: "ResolvedKeybindingItem \<Rightarrow> ResolvedKeybindingItem \<Rightarrow> bool" where
  "overrides k' k \<longleftrightarrow> command k \<noteq> command k' \<and> hd (chords k) = hd (chords k') \<and>
     shorter_is_prefix (drop 1 (chords k)) (drop 1 (chords k')) \<and>
     KeybindingResolver_whenIsEntirelyIncluded (when_clause k) (when_clause k')"

fun visible :: "ResolvedKeybindingItem list \<Rightarrow> ResolvedKeybindingItem list" where
  "visible [] = []"
| "visible (k # ks) = (if list_ex (\<lambda>k'. overrides k' k) ks then visible ks else k # visible ks)"

lemma visible_snoc: "visible (ks @ [x]) = filter (\<lambda>k. \<not> overrides x k) (visible ks) @ [x]"
  by (induction ks) auto

lemma set_visible: "set (visible ks) \<subseteq> set ks"
  by (induction ks) auto

definition lookup_of :: "KeybindingResolver \<Rightarrow> js_string \<Rightarrow> ResolvedKeybindingItem list" where
  "lookup_of r c = (case Map_get (kr_lookupMap r) c of None \<Rightarrow> [] | Some l \<Rightarrow> l)"

lemma splice_item_filter:
  "distinct (map item_ref arr) \<Longrightarrow> splice_item arr x = filter (\<lambda>y. item_ref y \<noteq> item_ref x) arr"
proof (induction arr x rule: splice_item.induct)
  case (2 y arr x)
  have "filter (\<lambda>z. item_ref z \<noteq> item_ref y) arr = arr" using 2(2) by (auto simp: filter_id_conv) (metis imageI)
  with 2 show ?case by auto
qed simp

lemma lookup_of_add:
  "lookup_of (KeybindingResolver_addToLookupMap r k) c =
     (if command k = Some c \<and> c \<noteq> [] then lookup_of r c @ [k] else lookup_of r c)"
  by (cases "command k") (auto simp: lookup_of_def KeybindingResolver_addToLookupMap_def truthy_string_def Let_def split: option.split)

lemma lookup_of_remove:
  assumes "distinct (map item_ref (lookup_of r c))"
  shows "lookup_of (KeybindingResolver_removeFromLookupMap r x) c =
    (if command x = Some c \<and> c \<noteq> [] then filter (\<lambda>y. item_ref y \<noteq> item_ref x) (lookup_of r c) else lookup_of r c)"
  using assms
  by (cases "command x") (auto simp: lookup_of_def KeybindingResolver_removeFromLookupMap_def truthy_string_def splice_item_filter split: option.splits)

definition removes :: "ResolvedKeybindingItem \<Rightarrow> ResolvedKeybindingItem \<Rightarrow> bool" where
  "removes item x \<longleftrightarrow> command x \<noteq> command item \<and> shorter_is_prefix (drop 1 (chords x)) (drop 1 (chords item)) \<and>
     KeybindingResolver_whenIsEntirelyIncluded (when_clause x) (when_clause item)"

lemma conflicts_loop_lookup:
  assumes "distinct (map item_ref (lookup_of r c))" "c \<noteq> []"
  shows "lookup_of (conflicts_loop item xs r) c =
    filter (\<lambda>y. \<not> (\<exists>x \<in> set xs. item_ref y = item_ref x \<and> command x = Some c \<and> removes item x)) (lookup_of r c)"
  using assms(1)
proof (induction xs arbitrary: r)
  case (Cons x xs)
  show ?case
  proof (cases "removes item x")
    case True
    let ?r = "KeybindingResolver_removeFromLookupMap r x"
    have "lookup_of ?r c = (if command x = Some c then filter (\<lambda>y. item_ref y \<noteq> item_ref x) (lookup_of r c) else lookup_of r c)"
      using lookup_of_remove [OF Cons.prems] assms(2) by simp
    moreover from this have "distinct (map item_ref (lookup_of ?r c))" using Cons.prems by (simp add: distinct_map_filter)
    moreover have "conflicts_loop item (x # xs) r = conflicts_loop item xs ?r" using True by (simp add: removes_def)
    ultimately show ?thesis using Cons.IH [of ?r] True by (auto intro!: filter_cong)
  next
    case False
    then have "conflicts_loop item (x # xs) r = conflicts_loop item xs r" by (auto simp: removes_def)
    with Cons False show ?thesis by (auto intro!: filter_cong)
  qed
qed simp

definition lookup_ok :: "KeybindingResolver \<Rightarrow> ResolvedKeybindingItem list \<Rightarrow> bool" where
  "lookup_ok r items \<longleftrightarrow> (\<forall>c. c \<noteq> [] \<longrightarrow> lookup_of r c = filter (\<lambda>k. command k = Some c) (visible items))"

lemma distinct_refs_visible: "distinct (map item_ref items) \<Longrightarrow> distinct (map item_ref (visible items))"
  using set_visible by (induction items) auto

lemma addKeyPress_lookup:
  assumes "map_ok r items" "lookup_ok r items" "distinct (map item_ref (items @ [k]))"
  shows "lookup_ok (KeybindingResolver_addKeyPress r (hd (chords k)) k) (items @ [k])"
  unfolding lookup_ok_def
proof (intro allI impI)
  fix c :: js_string
  assume c: "c \<noteq> []"
  let ?C = "filter (\<lambda>x. hd (chords x) = hd (chords k)) items" and ?V = "filter (\<lambda>k. command k = Some c) (visible items)"
  have lk: "lookup_of r c = ?V" using assms(2) c by (simp add: lookup_ok_def)
  have dis: "distinct (map item_ref (lookup_of r c))"
    unfolding lk using assms(3) distinct_refs_visible by (intro distinct_map_filter) auto
  have inj: "x = y" if "x \<in> set items" "y \<in> set items" "item_ref x = item_ref y" for x y
    using that assms(3) by (auto simp: distinct_map inj_on_def)
  have "(\<exists>x \<in> set (rev ?C). item_ref y = item_ref x \<and> command x = Some c \<and> removes k x) \<longleftrightarrow> overrides k y" if "y \<in> set ?V" for y
  proof -
    have y: "y \<in> set items" "command y = Some c" using that set_visible [of items] by auto
    show ?thesis using y inj by (auto simp: removes_def overrides_def)
  qed
  then have "filter (\<lambda>y. \<not> (\<exists>x \<in> set (rev ?C). item_ref y = item_ref x \<and> command x = Some c \<and> removes k x)) ?V
      = filter (\<lambda>y. \<not> overrides k y) ?V" by (intro filter_cong) auto
  with conflicts_loop_lookup [OF dis c, of k "rev ?C"]
  have cl: "lookup_of (conflicts_loop k (rev ?C) r) c = filter (\<lambda>y. \<not> overrides k y) ?V" unfolding lk by simp
  have upd: "lookup_of (r\<lparr>kr_map := m\<rparr>) c = lookup_of r c" for r m by (simp add: lookup_of_def)
  have none: "filter (\<lambda>y. \<not> overrides k y) ?V = ?V" if "?C = []"
  proof -
    have "\<not> overrides k y" if "y \<in> set ?V" for y
      using \<open>?C = []\<close> that set_visible [of items] by (auto simp: filter_empty_conv overrides_def)
    then show ?thesis unfolding filter_id_conv by blast
  qed
  have goal: "filter (\<lambda>x. command x = Some c) (visible (items @ [k])) =
      filter (\<lambda>y. \<not> overrides k y) ?V @ (if command k = Some c then [k] else [])"
    by (simp add: visible_snoc filter_filter conj_commute)
  show "lookup_of (KeybindingResolver_addKeyPress r (hd (chords k)) k) c = filter (\<lambda>x. command x = Some c) (visible (items @ [k]))"
  proof (cases "?C = []")
    case True
    then have "Map_get (kr_map r) (hd (chords k)) = None" using assms(1) by (simp add: map_ok_def)
    then show ?thesis unfolding goal none [OF True] using c lk
      by (simp add: KeybindingResolver_addKeyPress_def lookup_of_add upd)
  next
    case False
    then have "Map_get (kr_map r) (hd (chords k)) = Some ?C" using assms(1) by (simp add: map_ok_def)
    then show ?thesis unfolding goal using c cl
      by (simp add: KeybindingResolver_addKeyPress_def lookup_of_add upd Let_def)
  qed
qed

lemma tables_loop_lookup:
  "tables_loop m cs ks r = Some r' \<Longrightarrow> map_ok r items \<Longrightarrow> lookup_ok r items \<Longrightarrow> distinct (map item_ref (items @ ks)) \<Longrightarrow>
   lookup_ok r' (items @ filter (active m cs) ks)"
proof (induction ks arbitrary: r items)
  case (Cons k ks)
  then obtain b where b: "is_active m cs k = Some b" by (auto split: option.splits)
  show ?case
  proof (cases b)
    case True
    have d: "distinct (map item_ref (items @ [k]))" "distinct (map item_ref ((items @ [k]) @ ks))" using Cons.prems(4) by auto
    have "lookup_ok r' ((items @ [k]) @ filter (active m cs) ks)"
      by (rule Cons.IH [OF _ addKeyPress_map [OF Cons.prems(2)] addKeyPress_lookup [OF Cons.prems(2,3) d(1)] d(2)])
        (use Cons.prems(1) b True in simp)
    then show ?thesis using b True by simp
  next
    case False
    with Cons b show ?thesis by simp
  qed
qed auto

lemma lookupKeybindings_lookup_of: "KeybindingResolver_lookupKeybindings r c = rev (lookup_of r c)"
  by (simp add: KeybindingResolver_lookupKeybindings_def lookup_of_def split: option.split)

lemma not_visible: "k \<in> set items \<Longrightarrow> k \<notin> set (visible items) \<Longrightarrow> \<exists>xs ys k'. items = xs @ k # ys \<and> k' \<in> set ys \<and> overrides k' k"
proof (induction items)
  case (Cons x items)
  show ?case
  proof (cases "x = k")
    case True
    then obtain k' where "k' \<in> set items" "overrides k' k" using Cons.prems by (auto simp: list_ex_iff split: if_splits)
    then show ?thesis using True by (intro exI [of _ "[]"] exI [of _ items] exI [of _ k']) simp
  next
    case False
    then obtain xs ys k' where "items = xs @ k # ys \<and> k' \<in> set ys \<and> overrides k' k" using Cons by (auto split: if_splits)
    then show ?thesis by (intro exI [of _ "x # xs"] exI [of _ ys] exI [of _ k']) simp
  qed
qed simp

section \<open>The constructor returns\<close>

definition wf_item :: "ResolvedKeybindingItem \<Rightarrow> bool" where
  "wf_item k \<longleftrightarrow> pred_option wf_expr (when_clause k)"

lemma targeted_settles:
  assumes "wf_item k" "pred_option wf_expr w"
  shows "\<exists>b. settles (\<lambda>m. KeybindingResolver_isTargetedForRemoval m cs k ch w) b"
proof -
  have "\<exists>b. settles (\<lambda>m. expressionsAreEqualWithConstantSubstitution m cs (Some e) (Some dw)) b"
    if "w = Some e" "when_clause k = Some dw" for e dw
    using expressionsAreEqual_exact [of e dw cs] assms that by (auto simp: wf_item_def)
  then have "\<exists>b. settles (\<lambda>m. case when_clause k of None \<Rightarrow> Some False
      | Some dw \<Rightarrow> expressionsAreEqualWithConstantSubstitution m cs (Some e) (Some dw)) b" if "w = Some e" for e
    using that by (cases "when_clause k") simp_all
  then show ?thesis unfolding KeybindingResolver_isTargetedForRemoval_def
    by (cases w) (simp_all only: option.case, (intro settles_ifI settles_const_ex; simp)+)
qed

lemma isRemoved_settles:
  assumes "wf_item k" "list_all wf_item rms"
  shows "\<exists>b. settles (\<lambda>m. isRemoved_loop m cs k rms) b"
  using assms(2)
proof (induction rms)
  case (Cons rm rms)
  then obtain b where b: "settles (\<lambda>m. isRemoved_loop m cs k rms) b" by auto
  have "pred_option wf_expr (when_clause rm)" using Cons.prems by (simp add: wf_item_def)
  from targeted_settles [OF assms(1) this] obtain t
    where t: "settles (\<lambda>m. KeybindingResolver_isTargetedForRemoval m cs k (chords rm) (when_clause rm)) t" ..
  let ?g = "\<lambda>m t. if t then Some True else isRemoved_loop m cs k rms"
  have "settles (\<lambda>m. ?g m t) (if t then True else b)" using b by simp
  from settles_bind [where g = ?g, OF t this] show ?case by auto
qed simp

lemma keep_rule_settles:
  assumes "wf_item k" "list_all wf_item rules"
  shows "\<exists>b. settles (\<lambda>m. keep_rule m cs (removals_loop rules []) k) b"
proof (cases "Map_get (removals_loop rules []) (the (command k))")
  case None
  show ?thesis unfolding keep_rule_def None option.case by (intro settles_ifI settles_const_ex)
next
  case (Some rms)
  have "set rms \<subseteq> set rules" using Some by (auto simp: removals_loop_get Let_def split: if_splits)
  then have "list_all wf_item rms" using assms(2) by (auto simp: list_all_iff)
  from isRemoved_settles [OF assms(1) this] obtain b where "settles (\<lambda>m. isRemoved_loop m cs k rms) b" ..
  then have "\<exists>b. settles (\<lambda>m. map_option Not (isRemoved_loop m cs k rms)) b"
    using settles_case [of "\<lambda>m. isRemoved_loop m cs k rms" b Not] by (simp add: map_option_case)
  then show ?thesis unfolding keep_rule_def Some option.case by (intro settles_ifI settles_const_ex)
qed

lemma keep_loop_settles:
  assumes "list_all wf_item rules" "list_all wf_item ks"
  shows "\<exists>r. settles (\<lambda>m. keep_loop m cs (removals_loop rules []) ks acc) r"
  using assms(2)
proof (induction ks arbitrary: acc)
  case (Cons k ks)
  then obtain b where b: "settles (\<lambda>m. keep_rule m cs (removals_loop rules []) k) b"
    using keep_rule_settles [of k rules cs] assms(1) by auto
  obtain r where r: "settles (\<lambda>m. keep_loop m cs (removals_loop rules []) ks (if b then acc @ [k] else acc)) r"
    using Cons by fastforce
  from settles_bind [where g = "\<lambda>m b. keep_loop m cs (removals_loop rules []) ks (if b then acc @ [k] else acc)", OF b r]
  show ?case by auto
qed simp

lemma handleRemovals_settles:
  assumes "list_all wf_item rules"
  shows "\<exists>ks. settles (\<lambda>m. KeybindingResolver_handleRemovals m cs rules) ks"
  unfolding KeybindingResolver_handleRemovals_def Let_def
  by (intro settles_ifI settles_const_ex keep_loop_settles assms)

lemma is_active_settles:
  assumes "wf_item k"
  shows "\<exists>b. settles (\<lambda>m. is_active m cs k) b"
proof (cases "when_clause k")
  case None
  show ?thesis unfolding is_active_def None option.case by (intro settles_ifI settles_const_ex)
next
  case (Some e)
  obtain w where w: "settles (\<lambda>m. ck_substituteConstants m cs e) (Some w)"
    using substituteConstants_exact [of e cs] assms Some by (auto simp: wf_item_def)
  then obtain N where "\<forall>m \<ge> N. ck_substituteConstants m cs e = Some (Some w)" by (auto simp: settles_def)
  then have "\<forall>m \<ge> N. is_active m cs k = Some (chords k \<noteq> [] \<and> ContextKeyExprType w \<noteq> 0)"
    by (simp add: is_active_def Some)
  then show ?thesis unfolding settles_def by blast
qed

lemma tables_loop_settles:
  "list_all wf_item ks \<Longrightarrow> \<exists>r'. settles (\<lambda>m. tables_loop m cs ks r) r'"
proof (induction ks arbitrary: r)
  case (Cons k ks)
  then obtain b where b: "settles (\<lambda>m. is_active m cs k) b" using is_active_settles [of k cs] by auto
  obtain r' where r: "settles (\<lambda>m. tables_loop m cs ks (if b then KeybindingResolver_addKeyPress r (hd (chords k)) k else r)) r'"
    using Cons by fastforce
  from settles_bind [where g = "\<lambda>m b. tables_loop m cs ks (if b then KeybindingResolver_addKeyPress r (hd (chords k)) k else r)", OF b r]
  show ?case by auto
qed simp

lemma new_KeybindingResolver_settles:
  assumes "list_all wf_item (defaults @ ovr)"
  shows "\<exists>r. settles (\<lambda>m. new_KeybindingResolver m cs defaults ovr) r"
proof -
  obtain ks where ks: "settles (\<lambda>m. KeybindingResolver_handleRemovals m cs (defaults @ ovr)) ks"
    using handleRemovals_settles [OF assms] ..
  obtain m where "KeybindingResolver_handleRemovals m cs (defaults @ ovr) = Some ks" using settles_value [OF ks] ..
  then have "set ks \<subseteq> set (defaults @ ovr)" by (auto dest: handleRemovals_kept)
  then have "list_all wf_item ks" using assms by (auto simp: list_all_iff)
  let ?g = "\<lambda>m kbs. tables_loop m cs kbs \<lparr>kr_defaultKeybindings = defaults, kr_keybindings = kbs,
             kr_defaultBoundCommands = defaultBound_loop defaults [], kr_map = [], kr_lookupMap = []\<rparr>"
  obtain r where "settles (\<lambda>m. ?g m ks) r" using tables_loop_settles [OF \<open>list_all wf_item ks\<close>] by blast
  from settles_bind [where g = ?g, OF ks this] show ?thesis unfolding new_KeybindingResolver_def by blast
qed

section \<open>What the tables hold\<close>

lemma new_KeybindingResolver_tables:
  assumes "new_KeybindingResolver m cs defaults ovr = Some r"
  shows "kr_keybindings r = filter (kept m cs (defaults @ ovr)) (defaults @ ovr)"
    and "map_ok r (filter (active m cs) (kr_keybindings r))"
    and "distinct (map item_ref (defaults @ ovr)) \<Longrightarrow> lookup_ok r (filter (active m cs) (kr_keybindings r))"
proof -
  obtain ks where ks: "KeybindingResolver_handleRemovals m cs (defaults @ ovr) = Some ks"
    and t: "tables_loop m cs ks \<lparr>kr_defaultKeybindings = defaults, kr_keybindings = ks,
             kr_defaultBoundCommands = defaultBound_loop defaults [], kr_map = [], kr_lookupMap = []\<rparr> = Some r"
    using assms by (auto simp: new_KeybindingResolver_def split: option.splits)
  let ?r0 = "\<lparr>kr_defaultKeybindings = defaults, kr_keybindings = ks,
             kr_defaultBoundCommands = defaultBound_loop defaults [], kr_map = [], kr_lookupMap = []\<rparr>"
  have 0: "map_ok ?r0 []" "lookup_ok ?r0 []" by (simp_all add: map_ok_def lookup_ok_def lookup_of_def)
  from tables_loop_map [OF t 0(1)] have r: "map_ok r (filter (active m cs) ks)" "kr_keybindings r = ks" by simp_all
  note kk = handleRemovals_kept [OF ks]
  show "kr_keybindings r = filter (kept m cs (defaults @ ovr)) (defaults @ ovr)" using r(2) kk by simp
  show "map_ok r (filter (active m cs) (kr_keybindings r))" using r by simp
  show "lookup_ok r (filter (active m cs) (kr_keybindings r))" if "distinct (map item_ref (defaults @ ovr))"
  proof -
    have "distinct (map item_ref ks)" unfolding kk using that by (rule distinct_map_filter)
    then show ?thesis using tables_loop_lookup [OF t 0] r(2) by simp
  qed
qed

text \<open>An item the constructor leaves out can never be run.\<close>

lemma inactive_no_match:
  assumes "wf_item k" "pred_option (sane lib ctx cs fl) (when_clause k)"
    "settles (\<lambda>m. is_active m cs k) False" "chords k \<noteq> []"
  shows "\<not> KeybindingResolver_contextMatchesRules lib ctx (when_clause k)"
proof (cases "when_clause k")
  case None
  then have "is_active m cs k = Some True" for m using assms(4) by (simp add: is_active_def)
  then show ?thesis using settles_value [OF assms(3)] by auto
next
  case (Some e)
  obtain w where w: "settles (\<lambda>m. ck_substituteConstants m cs e) (Some w)" and ok: "substitution_ok cs e w"
    using substituteConstants_exact [of e cs] assms(1) Some by (auto simp: wf_item_def)
  obtain m where "is_active m cs k = Some False" "ck_substituteConstants m cs e = Some (Some w)"
    using settles_both [OF assms(3) w] by blast
  then have "ContextKeyExprType w = 0" using assms(4) by (simp add: is_active_def Some)
  then have "w = FalseExpr" by (cases w) auto
  then show ?thesis using ok assms(2) Some
    by (auto simp: substitution_ok_def KeybindingResolver_contextMatchesRules_def leaf_evaluate_defs)
qed

lemma resolve_reference_active:
  assumes "\<And>k. k \<in> set items \<Longrightarrow> wf_item k \<and> pred_option (sane lib ctx cs fl) (when_clause k)" "pressed \<noteq> []"
    "\<And>k. k \<in> set items \<Longrightarrow> \<exists>b. settles (\<lambda>m. is_active m cs k) b \<and> is_active n cs k = Some b"
  shows "resolve_reference lib ctx (filter (active n cs) items) pressed = resolve_reference lib ctx items pressed"
proof -
  let ?P = "\<lambda>k. keypress_matches pressed (chords k) \<and> KeybindingResolver_contextMatchesRules lib ctx (when_clause k)"
  have "active n cs k" if k: "k \<in> set items" "?P k" for k
  proof -
    obtain b where b: "settles (\<lambda>m. is_active m cs k) b" "is_active n cs k = Some b" using assms(3) k by blast
    have "chords k \<noteq> []" using k(2) assms(2) by (cases pressed) auto
    then have b using inactive_no_match [of k lib ctx cs fl] assms(1) k b by (cases b) auto
    with b show ?thesis by simp
  qed
  then have "find ?P (rev (filter (active n cs) items)) = find ?P (rev items)"
    unfolding rev_filter find_filter by (intro find_cong_set) auto
  then show ?thesis by (simp add: resolve_reference_def)
qed

lemma is_active_eventually:
  assumes "list_all wf_item items"
  shows "\<exists>N. \<forall>n \<ge> N. \<forall>k \<in> set items. \<exists>b. settles (\<lambda>m. is_active m cs k) b \<and> is_active n cs k = Some b"
  using assms
proof (induction items)
  case (Cons k items)
  then obtain N where N: "\<forall>n \<ge> N. \<forall>k \<in> set items. \<exists>b. settles (\<lambda>m. is_active m cs k) b \<and> is_active n cs k = Some b" by auto
  obtain b where b: "settles (\<lambda>m. is_active m cs k) b" using is_active_settles [of k cs] Cons.prems by auto
  then obtain M where "\<forall>n \<ge> M. is_active n cs k = Some b" by (auto simp: settles_def)
  with N b show ?case by (intro exI [of _ "max N M"]) auto
qed simp

lemma whenIsEntirelyIncluded_matches:
  assumes "KeybindingResolver_whenIsEntirelyIncluded a b" "pred_option (sane lib ctx cs fl) a" "pred_option (sane lib ctx cs fl) b"
    "pred_option string_values a" "pred_option string_values b" "KeybindingResolver_contextMatchesRules lib ctx a"
  shows "KeybindingResolver_contextMatchesRules lib ctx b"
proof (cases b)
  case (Some q)
  show ?thesis
  proof (cases "ContextKeyExprType q = 1")
    case True
    then have "q = TrueExpr" by (cases q) auto
    then show ?thesis by (simp add: Some KeybindingResolver_contextMatchesRules_def leaf_evaluate_defs)
  next
    case False
    then obtain p where "a = Some p" "ck_implies p q"
      using assms(1) Some by (auto simp: KeybindingResolver_whenIsEntirelyIncluded_def split: option.splits if_splits)
    then show ?thesis using implies_evaluate [of p q lib ctx cs fl] assms Some
      by (auto simp: KeybindingResolver_contextMatchesRules_def)
  qed
qed (simp add: KeybindingResolver_contextMatchesRules_def)

lemma later_in_filter:
  "filter P ks = xs @ k # ys \<Longrightarrow> k' \<in> set ys \<Longrightarrow> \<exists>us vs. ks = us @ k # vs \<and> k' \<in> set vs"
proof (induction ks arbitrary: xs)
  case (Cons x ks)
  show ?case
  proof (cases "P x \<and> xs = []")
    case True
    then show ?thesis using Cons.prems by (intro exI [of _ "[]"] exI [of _ ks]) auto
  next
    case False
    then obtain zs where "filter P ks = zs @ k # ys" using Cons.prems(1) by (cases "P x"; cases xs) auto
    with Cons obtain us vs where "ks = us @ k # vs" "k' \<in> set vs" by blast
    then show ?thesis by (intro exI [of _ "x # us"] exI [of _ vs]) simp
  qed
qed simp

section \<open>Main results\<close>

text \<open>C18: whatever default and user keybindings a \<^verbatim>\<open>KeybindingResolver\<close> is built from, the constructor returns, and in every context that is sane for the conditions of all the keybindings (numeric comparisons meet numbers, one set
  of flags for each regular expression, constants have their values) \<^verbatim>\<open>resolve\<close>
  answers as the plain list of keybindings does: the last one that starts with the pressed chords and whose condition holds
  decides, and the answer is the command, or that more chords are needed, or that nothing matches.
\<close>

theorem resolve_last_matching:
  assumes "list_all wf_item (defaults @ ovr)"
  shows "\<exists>r N. (\<forall>n \<ge> N. new_KeybindingResolver n cs defaults ovr = Some r) \<and>
    (\<forall>lib ctx fl currentChords keypress.
       (\<forall>k \<in> set (defaults @ ovr). pred_option (sane lib ctx cs fl) (when_clause k)) \<longrightarrow>
       fst (KeybindingResolver_resolve lib r ctx currentChords keypress) =
       resolve_reference lib ctx (KeybindingResolver_getKeybindings r) (currentChords @ [keypress]))"
proof -
  obtain r where r: "settles (\<lambda>m. new_KeybindingResolver m cs defaults ovr) r" using new_KeybindingResolver_settles [OF assms] ..
  then obtain N where N: "\<forall>n \<ge> N. new_KeybindingResolver n cs defaults ovr = Some r" by (auto simp: settles_def)
  obtain M where M: "\<forall>n \<ge> M. \<forall>k \<in> set (defaults @ ovr). \<exists>b. settles (\<lambda>m. is_active m cs k) b \<and> is_active n cs k = Some b"
    using is_active_eventually [OF assms] by blast
  let ?n = "max N M"
  have n: "new_KeybindingResolver ?n cs defaults ovr = Some r" using N by simp
  note t = new_KeybindingResolver_tables [OF n]
  have sub: "set (kr_keybindings r) \<subseteq> set (defaults @ ovr)" unfolding t(1) by auto
  have "fst (KeybindingResolver_resolve lib r ctx currentChords keypress) =
      resolve_reference lib ctx (KeybindingResolver_getKeybindings r) (currentChords @ [keypress])"
    if sn: "\<forall>k \<in> set (defaults @ ovr). pred_option (sane lib ctx cs fl) (when_clause k)" for lib ctx fl currentChords keypress
  proof -
    have "fst (KeybindingResolver_resolve lib r ctx currentChords keypress) =
        resolve_reference lib ctx (filter (active ?n cs) (kr_keybindings r)) (currentChords @ [keypress])"
      by (rule resolve_map_ok [OF t(2)]) (auto simp: is_active_def split: if_splits)
    also have "\<dots> = resolve_reference lib ctx (kr_keybindings r) (currentChords @ [keypress])"
    proof (rule resolve_reference_active)
      fix k
      assume "k \<in> set (kr_keybindings r)"
      then have k: "k \<in> set (defaults @ ovr)" using sub by blast
      then show "wf_item k \<and> pred_option (sane lib ctx cs fl) (when_clause k)" using sn assms by (simp only: list_all_iff)
      show "\<exists>b. settles (\<lambda>m. is_active m cs k) b \<and> is_active ?n cs k = Some b" using M k by simp
    qed simp
    finally show ?thesis by (simp add: KeybindingResolver_getKeybindings_def)
  qed
  with N show ?thesis by blast
qed

theorem resolve_last_matching_witness:
  "\<exists>r N. (\<forall>n \<ge> N. new_KeybindingResolver n (\<lambda>_. None)
       [(\<lparr>item_ref = 1, chords = [lit ''f1''], bubble = False, command = Some (lit ''open''), commandArgs = Prim PUndefined, when_clause = Some (AndExpr [DefinedExpr (lit ''a'') None, DefinedExpr (lit ''b'') None] None), isDefault = True, extensionId = None, isBuiltinExtension = False\<rparr> :: ResolvedKeybindingItem), (\<lparr>item_ref = 2, chords = [lit ''f1''], bubble = False, command = Some (lit ''save''), commandArgs = Prim PUndefined, when_clause = Some (DefinedExpr (lit ''a'') None), isDefault = True, extensionId = None, isBuiltinExtension = False\<rparr> :: ResolvedKeybindingItem), (\<lparr>item_ref = 3, chords = [lit ''f2'', lit ''f3''], bubble = False, command = Some (lit ''quit''), commandArgs = Prim PUndefined, when_clause = None, isDefault = True, extensionId = None, isBuiltinExtension = False\<rparr> :: ResolvedKeybindingItem)] [(\<lparr>item_ref = 4, chords = [], bubble = False, command = Some (lit ''-quit''), commandArgs = Prim PUndefined, when_clause = None, isDefault = False, extensionId = None, isBuiltinExtension = False\<rparr> :: ResolvedKeybindingItem)] = Some r) \<and>
    fst (KeybindingResolver_resolve \<lparr>number_toString = \<lambda>_. [], regex_test = \<lambda>_ _. False\<rparr> r (\<lambda>k. Prim (PBool True)) [] (lit ''f1'')) =
    resolve_reference \<lparr>number_toString = \<lambda>_. [], regex_test = \<lambda>_ _. False\<rparr> (\<lambda>k. Prim (PBool True)) (KeybindingResolver_getKeybindings r) [lit ''f1'']"
proof -
  let ?d = "[(\<lparr>item_ref = 1, chords = [lit ''f1''], bubble = False, command = Some (lit ''open''), commandArgs = Prim PUndefined, when_clause = Some (AndExpr [DefinedExpr (lit ''a'') None, DefinedExpr (lit ''b'') None] None), isDefault = True, extensionId = None, isBuiltinExtension = False\<rparr> :: ResolvedKeybindingItem), (\<lparr>item_ref = 2, chords = [lit ''f1''], bubble = False, command = Some (lit ''save''), commandArgs = Prim PUndefined, when_clause = Some (DefinedExpr (lit ''a'') None), isDefault = True, extensionId = None, isBuiltinExtension = False\<rparr> :: ResolvedKeybindingItem), (\<lparr>item_ref = 3, chords = [lit ''f2'', lit ''f3''], bubble = False, command = Some (lit ''quit''), commandArgs = Prim PUndefined, when_clause = None, isDefault = True, extensionId = None, isBuiltinExtension = False\<rparr> :: ResolvedKeybindingItem)]" and ?o = "[(\<lparr>item_ref = 4, chords = [], bubble = False, command = Some (lit ''-quit''), commandArgs = Prim PUndefined, when_clause = None, isDefault = False, extensionId = None, isBuiltinExtension = False\<rparr> :: ResolvedKeybindingItem)]"
  have wf: "list_all wf_item (?d @ ?o)" by (simp add: wf_item_def is_or_def)
  have sn: "\<forall>k \<in> set (?d @ ?o). pred_option (sane \<lparr>number_toString = \<lambda>_. [], regex_test = \<lambda>_ _. False\<rparr> (\<lambda>k. Prim (PBool True)) (\<lambda>_. None) (\<lambda>_. [])) (when_clause k)"
    by (simp add: agrees_def)
  from resolve_last_matching [OF wf, of "\<lambda>_. None"] obtain r N
    where N: "\<forall>n \<ge> N. new_KeybindingResolver n (\<lambda>_. None) ?d ?o = Some r"
      and res: "\<forall>lib ctx fl currentChords keypress.
       (\<forall>k \<in> set (?d @ ?o). pred_option (sane lib ctx (\<lambda>_. None) fl) (when_clause k)) \<longrightarrow>
       fst (KeybindingResolver_resolve lib r ctx currentChords keypress) =
       resolve_reference lib ctx (KeybindingResolver_getKeybindings r) (currentChords @ [keypress])" by blast
  from res [rule_format, OF sn [rule_format], of "[]" "lit ''f1''"] N show ?thesis by (metis append_Nil)
qed

text \<open>C25: the keybindings \<^verbatim>\<open>getKeybindings\<close> lists are the given rules in their order, without the rules \<^verbatim>\<open>-commandId\<close> and without the
  default keybindings such a rule targets: a prefix of its chords, and the same condition after constants are substituted.
  A keybinding of the user is never removed.
\<close>

theorem handleRemovals_exact:
  assumes "list_all wf_item rules"
  shows "\<exists>ks N. \<forall>n \<ge> N. KeybindingResolver_handleRemovals n cs rules = Some ks \<and> ks = filter (kept n cs rules) rules \<and>
    (\<forall>k \<in> set rules. \<not> isDefault k \<and> first_char (command k) \<noteq> Some 45 \<longrightarrow> k \<in> set ks) \<and>
    (\<forall>k \<in> set ks. \<nexists>c. command k = Some (45 # c))"
proof -
  obtain ks N where N: "\<forall>n \<ge> N. KeybindingResolver_handleRemovals n cs rules = Some ks"
    using handleRemovals_settles [OF assms, of cs] by (auto simp: settles_def)
  have "ks = filter (kept n cs rules) rules" if "n \<ge> N" for n using handleRemovals_kept N that by blast
  moreover from this [of N] have "k \<in> set ks" if "k \<in> set rules" "\<not> isDefault k \<and> first_char (command k) \<noteq> Some 45" for k
    using that by (auto simp: kept_def)
  moreover have "\<nexists>c. command k = Some (45 # c)" if "k \<in> set ks" for k
    using that \<open>\<And>n. n \<ge> N \<Longrightarrow> ks = filter (kept n cs rules) rules\<close> [of N]
    by (auto simp: kept_def truthy_string_def first_char_def)
  ultimately show ?thesis using N by blast
qed

theorem handleRemovals_exact_witness:
  "\<exists>ks N. \<forall>n \<ge> N. KeybindingResolver_handleRemovals n (\<lambda>_. None)
      [(\<lparr>item_ref = 2, chords = [lit ''f1''], bubble = False, command = Some (lit ''save''), commandArgs = Prim PUndefined, when_clause = Some (DefinedExpr (lit ''a'') None), isDefault = True, extensionId = None, isBuiltinExtension = False\<rparr> :: ResolvedKeybindingItem), (\<lparr>item_ref = 3, chords = [lit ''f2'', lit ''f3''], bubble = False, command = Some (lit ''quit''), commandArgs = Prim PUndefined, when_clause = None, isDefault = True, extensionId = None, isBuiltinExtension = False\<rparr> :: ResolvedKeybindingItem), (\<lparr>item_ref = 4, chords = [], bubble = False, command = Some (lit ''-quit''), commandArgs = Prim PUndefined, when_clause = None, isDefault = False, extensionId = None, isBuiltinExtension = False\<rparr> :: ResolvedKeybindingItem)] = Some ks \<and> (\<lparr>item_ref = 2, chords = [lit ''f1''], bubble = False, command = Some (lit ''save''), commandArgs = Prim PUndefined, when_clause = Some (DefinedExpr (lit ''a'') None), isDefault = True, extensionId = None, isBuiltinExtension = False\<rparr> :: ResolvedKeybindingItem) \<in> set ks"
proof -
  let ?rules = "[(\<lparr>item_ref = 2, chords = [lit ''f1''], bubble = False, command = Some (lit ''save''), commandArgs = Prim PUndefined, when_clause = Some (DefinedExpr (lit ''a'') None), isDefault = True, extensionId = None, isBuiltinExtension = False\<rparr> :: ResolvedKeybindingItem), (\<lparr>item_ref = 3, chords = [lit ''f2'', lit ''f3''], bubble = False, command = Some (lit ''quit''), commandArgs = Prim PUndefined, when_clause = None, isDefault = True, extensionId = None, isBuiltinExtension = False\<rparr> :: ResolvedKeybindingItem), (\<lparr>item_ref = 4, chords = [], bubble = False, command = Some (lit ''-quit''), commandArgs = Prim PUndefined, when_clause = None, isDefault = False, extensionId = None, isBuiltinExtension = False\<rparr> :: ResolvedKeybindingItem)]"
  have wf: "list_all wf_item ?rules" by (simp add: wf_item_def)
  from handleRemovals_exact [OF wf, of "\<lambda>_. None"] obtain ks N
    where N: "\<forall>n \<ge> N. KeybindingResolver_handleRemovals n (\<lambda>_. None) ?rules = Some ks \<and> ks = filter (kept n (\<lambda>_. None) ?rules) ?rules" by blast
  have "kept n (\<lambda>_. None) ?rules (\<lparr>item_ref = 2, chords = [lit ''f1''], bubble = False, command = Some (lit ''save''), commandArgs = Prim PUndefined, when_clause = Some (DefinedExpr (lit ''a'') None), isDefault = True, extensionId = None, isBuiltinExtension = False\<rparr> :: ResolvedKeybindingItem)" for n by (simp add: kept_def lit_def first_char_def)
  then have "(\<lparr>item_ref = 2, chords = [lit ''f1''], bubble = False, command = Some (lit ''save''), commandArgs = Prim PUndefined, when_clause = Some (DefinedExpr (lit ''a'') None), isDefault = True, extensionId = None, isBuiltinExtension = False\<rparr> :: ResolvedKeybindingItem) \<in> set ks" using N by auto
  with N show ?thesis by blast
qed



end
