(* ===== verification/When_Scanner.thy ===== *)
theory When_Scanner
  imports Js_Values
begin

text \<open>
  \<^verbatim>\<open>src/vs/platform/contextkey/common/scanner.ts\<close>: the scanner of \<^verbatim>\<open>when\<close> clauses.  A scanner is a record of its fields, and a method
  returns the changed scanner.  A token is a record; the fields that only some types of tokens have are
  empty in the others.  Parameters are the localized messages and which code points are letters
  (\<^verbatim>\<open>\p{L}\<close> of a regular expression; a surrogate alone is none).
\<close>

section \<open>Tokens\<close>

datatype TokenType =
    T_LParen | T_RParen | T_Neg | T_Eq | T_NotEq | T_Lt | T_LtEq | T_Gt | T_GtEq | T_RegexOp | T_RegexStr
  | T_True | T_False | T_In | T_Not | T_And | T_Or | T_Str | T_QuotedStr | T_Error | T_EOF

record Token =
  tok_type :: TokenType
  tok_offset :: nat
  tok_isTripleEq :: bool
  tok_lexeme :: js_string

record LexingError =
  le_offset :: nat
  le_lexeme :: js_string
  le_additionalInfo :: "js_string option"

text \<open>\<^verbatim>\<open>localize\<close> gets the key of the message and the arguments that are put into it.\<close>

record when_env =
  localize :: "js_string \<Rightarrow> js_string list \<Rightarrow> js_string"
  is_letter :: "int \<Rightarrow> bool"

definition hintDidYouMean :: "when_env \<Rightarrow> js_string list \<Rightarrow> js_string option" where
  "hintDidYouMean env meant =
     (if length meant = 1 then Some (localize env (lit ''contextkey.scanner.hint.didYouMean1'') meant)
      else if length meant = 2 then Some (localize env (lit ''contextkey.scanner.hint.didYouMean2'') meant)
      else if length meant = 3 then Some (localize env (lit ''contextkey.scanner.hint.didYouMean3'') meant)
      else None)"

definition Scanner_getLexeme :: "Token \<Rightarrow> js_string" where
  "Scanner_getLexeme token =
     (case tok_type token of
        T_LParen \<Rightarrow> lit ''(''
      | T_RParen \<Rightarrow> lit '')''
      | T_Neg \<Rightarrow> lit ''!''
      | T_Eq \<Rightarrow> if tok_isTripleEq token then lit ''==='' else lit ''==''
      | T_NotEq \<Rightarrow> if tok_isTripleEq token then lit ''!=='' else lit ''!=''
      | T_Lt \<Rightarrow> lit ''<''
      | T_LtEq \<Rightarrow> lit ''<=''
      | T_Gt \<Rightarrow> lit ''>=''
      | T_GtEq \<Rightarrow> lit ''>=''
      | T_RegexOp \<Rightarrow> lit ''=~''
      | T_RegexStr \<Rightarrow> tok_lexeme token
      | T_True \<Rightarrow> lit ''true''
      | T_False \<Rightarrow> lit ''false''
      | T_In \<Rightarrow> lit ''in''
      | T_Not \<Rightarrow> lit ''not''
      | T_And \<Rightarrow> lit ''&&''
      | T_Or \<Rightarrow> lit ''||''
      | T_Str \<Rightarrow> tok_lexeme token
      | T_QuotedStr \<Rightarrow> tok_lexeme token
      | T_Error \<Rightarrow> tok_lexeme token
      | T_EOF \<Rightarrow> lit ''EOF'')"

section \<open>The scanner\<close>

record Scanner =
  sc_input :: js_string
  sc_start :: nat
  sc_current :: nat
  sc_tokens :: "Token list"
  sc_errors :: "LexingError list"

definition Scanner_reset :: "js_string \<Rightarrow> Scanner" where
  "Scanner_reset v = \<lparr>sc_input = v, sc_start = 0, sc_current = 0, sc_tokens = [], sc_errors = []\<rparr>"

definition Scanner_isAtEnd :: "Scanner \<Rightarrow> bool" where
  "Scanner_isAtEnd s \<longleftrightarrow> sc_current s \<ge> length (sc_input s)"

definition Scanner_match :: "code_unit \<Rightarrow> Scanner \<Rightarrow> bool \<times> Scanner" where
  "Scanner_match expected s =
     (if Scanner_isAtEnd s then (False, s)
      else if sc_input s ! sc_current s \<noteq> expected then (False, s)
      else (True, s\<lparr>sc_current := sc_current s + 1\<rparr>))"

text \<open>Only called before the end of the input.\<close>

definition Scanner_advance :: "Scanner \<Rightarrow> code_unit \<times> Scanner" where
  "Scanner_advance s = (sc_input s ! sc_current s, s\<lparr>sc_current := sc_current s + 1\<rparr>)"

definition Scanner_peek :: "Scanner \<Rightarrow> code_unit" where
  "Scanner_peek s = (if Scanner_isAtEnd s then 0 else sc_input s ! sc_current s)"

definition plain_token :: "TokenType \<Rightarrow> nat \<Rightarrow> Token" where
  "plain_token t offset = \<lparr>tok_type = t, tok_offset = offset, tok_isTripleEq = False, tok_lexeme = []\<rparr>"

definition push_token :: "Token \<Rightarrow> Scanner \<Rightarrow> Scanner" where
  "push_token t s = s\<lparr>sc_tokens := sc_tokens s @ [t]\<rparr>"

definition Scanner_addToken :: "TokenType \<Rightarrow> Scanner \<Rightarrow> Scanner" where
  "Scanner_addToken t s = push_token (plain_token t (sc_start s)) s"

definition substring :: "'a list \<Rightarrow> nat \<Rightarrow> nat \<Rightarrow> 'a list" where
  "substring s a b = js_substring s (int a) (int b)"

definition Scanner_error :: "js_string option \<Rightarrow> Scanner \<Rightarrow> Scanner" where
  "Scanner_error additional s =
     (let lexeme = substring (sc_input s) (sc_start s) (sc_current s)
      in push_token ((plain_token T_Error (sc_start s))\<lparr>tok_lexeme := lexeme\<rparr>)
           (s\<lparr>sc_errors := sc_errors s @ [\<lparr>le_offset = sc_start s, le_lexeme = lexeme, le_additionalInfo = additional\<rparr>]\<rparr>))"

text \<open>The characters of \<^verbatim>\<open>stringRe\<close> other than letters.\<close>

definition is_string_char :: "code_unit \<Rightarrow> bool" where
  "is_string_char c \<longleftrightarrow> 97 \<le> c \<and> c \<le> 122 \<or> 65 \<le> c \<and> c \<le> 90 \<or> 48 \<le> c \<and> c \<le> 57 \<or>
     c \<in> {95, 60, 62, 45, 46, 47, 92, 58, 42, 63, 43, 91, 93, 94, 44, 35, 64, 59, 34, 37, 36}"

text \<open>The length of the longest match of \<^verbatim>\<open>stringRe\<close> at the front; the flag \<^verbatim>\<open>u\<close> reads surrogate pairs as code points.\<close>

fun string_match :: "when_env \<Rightarrow> js_string \<Rightarrow> nat" where
  "string_match env [] = 0"
| "string_match env [c] = (if is_string_char c \<or> is_letter env (uint c) then 1 else 0)"
| "string_match env (c # d # cs) =
     (if 0xD800 \<le> c \<and> c \<le> 0xDBFF \<and> 0xDC00 \<le> d \<and> d \<le> 0xDFFF then
        (if is_letter env (0x10000 + (uint c - 0xD800) * 0x400 + (uint d - 0xDC00)) then 2 + string_match env cs else 0)
      else if is_string_char c \<or> is_letter env (uint c) then 1 + string_match env (d # cs)
      else 0)"

definition Scanner_keywords :: "js_string \<Rightarrow> TokenType option" where
  "Scanner_keywords = map_of [(lit ''not'', T_Not), (lit ''in'', T_In), (lit ''false'', T_False), (lit ''true'', T_True)]"

text \<open>No match is the empty match; then nothing happens.\<close>

definition Scanner_string :: "when_env \<Rightarrow> Scanner \<Rightarrow> Scanner" where
  "Scanner_string env s =
     (let m = string_match env (drop (sc_start s) (sc_input s))
      in if m = 0 then s
         else
           let s1 = s\<lparr>sc_current := sc_start s + m\<rparr>; lexeme = substring (sc_input s1) (sc_start s1) (sc_current s1)
           in case Scanner_keywords lexeme of
                Some keyword \<Rightarrow> Scanner_addToken keyword s1
              | None \<Rightarrow> push_token ((plain_token T_Str (sc_start s1))\<lparr>tok_lexeme := lexeme\<rparr>) s1)"

text \<open>The loop up to the closing quote.\<close>

function quote_loop :: "Scanner \<Rightarrow> Scanner" where
  "quote_loop s =
     (if Scanner_peek s \<noteq> 39 \<and> \<not> Scanner_isAtEnd s then quote_loop (snd (Scanner_advance s)) else s)"
  by pat_completeness auto

termination
  by (relation "measure (\<lambda>s. length (sc_input s) - sc_current s)") (auto simp: Scanner_isAtEnd_def Scanner_advance_def)

declare quote_loop.simps [simp del]

definition Scanner_quotedString :: "when_env \<Rightarrow> Scanner \<Rightarrow> Scanner" where
  "Scanner_quotedString env s0 =
     (let s = quote_loop s0
      in if Scanner_isAtEnd s
         then Scanner_error (Some (localize env (lit ''contextkey.scanner.hint.didYouForgetToOpenOrCloseQuote'') [])) s
         else
           let s1 = snd (Scanner_advance s)
           in push_token ((plain_token T_QuotedStr (sc_start s1 + 1))
                \<lparr>tok_lexeme := substring (sc_input s1) (sc_start s1 + 1) (sc_current s1 - 1)\<rparr>) s1)"

text \<open>The loop to the slash that ends a regular expression: its end, or \<open>None\<close> at the end of the input.\<close>

fun regex_loop :: "js_string \<Rightarrow> nat \<Rightarrow> bool \<Rightarrow> bool \<Rightarrow> nat option" where
  "regex_loop [] p inEscape inCharacterClass = None"
| "regex_loop (ch # cs) p inEscape inCharacterClass =
     (if inEscape then regex_loop cs (p + 1) False inCharacterClass
      else if ch = 47 \<and> \<not> inCharacterClass then Some (p + 1)
      else if ch = 91 then regex_loop cs (p + 1) inEscape True
      else if ch = 92 then regex_loop cs (p + 1) True inCharacterClass
      else if ch = 93 then regex_loop cs (p + 1) inEscape False
      else regex_loop cs (p + 1) inEscape inCharacterClass)"

definition Scanner_regexFlags :: "code_unit set" where
  "Scanner_regexFlags = set (lit ''igsmyu'')"

definition Scanner_regex :: "when_env \<Rightarrow> Scanner \<Rightarrow> Scanner" where
  "Scanner_regex env s =
     (case regex_loop (drop (sc_current s) (sc_input s)) (sc_current s) False False of
        None \<Rightarrow>
          Scanner_error (Some (localize env (lit ''contextkey.scanner.hint.didYouForgetToEscapeSlash'') []))
            (s\<lparr>sc_current := max (sc_current s) (length (sc_input s))\<rparr>)
      | Some p \<Rightarrow>
          (let s1 = s\<lparr>sc_current := p + length (takeWhile (\<lambda>c. c \<in> Scanner_regexFlags) (drop p (sc_input s)))\<rparr>
           in push_token ((plain_token T_RegexStr (sc_start s1))
                \<lparr>tok_lexeme := substring (sc_input s1) (sc_start s1) (sc_current s1)\<rparr>) s1))"

text \<open>The switch on the character that was just read.\<close>

definition scan_char :: "when_env \<Rightarrow> code_unit \<Rightarrow> Scanner \<Rightarrow> Scanner" where
  "scan_char env ch s =
     (if ch = 40 then Scanner_addToken T_LParen s
      else if ch = 41 then Scanner_addToken T_RParen s
      else if ch = 33 then
        (case Scanner_match 61 s of
           (True, s1) \<Rightarrow>
             (case Scanner_match 61 s1 of (isTripleEq, s2) \<Rightarrow>
                push_token ((plain_token T_NotEq (sc_start s2))\<lparr>tok_isTripleEq := isTripleEq\<rparr>) s2)
         | (False, s1) \<Rightarrow> Scanner_addToken T_Neg s1)
      else if ch = 39 then Scanner_quotedString env s
      else if ch = 47 then Scanner_regex env s
      else if ch = 61 then
        (case Scanner_match 61 s of
           (True, s1) \<Rightarrow>
             (case Scanner_match 61 s1 of (isTripleEq, s2) \<Rightarrow>
                push_token ((plain_token T_Eq (sc_start s2))\<lparr>tok_isTripleEq := isTripleEq\<rparr>) s2)
         | (False, s1) \<Rightarrow>
             (case Scanner_match 126 s1 of
                (True, s2) \<Rightarrow> Scanner_addToken T_RegexOp s2
              | (False, s2) \<Rightarrow> Scanner_error (hintDidYouMean env [lit ''=='', lit ''=~'']) s2))
      else if ch = 60 then
        (case Scanner_match 61 s of (b, s1) \<Rightarrow> Scanner_addToken (if b then T_LtEq else T_Lt) s1)
      else if ch = 62 then
        (case Scanner_match 61 s of (b, s1) \<Rightarrow> Scanner_addToken (if b then T_GtEq else T_Gt) s1)
      else if ch = 38 then
        (case Scanner_match 38 s of
           (True, s1) \<Rightarrow> Scanner_addToken T_And s1
         | (False, s1) \<Rightarrow> Scanner_error (hintDidYouMean env [lit ''&&'']) s1)
      else if ch = 124 then
        (case Scanner_match 124 s of
           (True, s1) \<Rightarrow> Scanner_addToken T_Or s1
         | (False, s1) \<Rightarrow> Scanner_error (hintDidYouMean env [lit ''||'']) s1)
      else if ch = 32 \<or> ch = 13 \<or> ch = 9 \<or> ch = 10 \<or> ch = 160 then s
      else Scanner_string env s)"

section \<open>What a step of the scanner does\<close>

text \<open>The text a token was read from, without the quotes of a quoted string.  It is the lexeme, except for \<^verbatim>\<open>>\<close>.\<close>

definition token_text :: "Token \<Rightarrow> js_string" where
  "token_text t = (if tok_type t = T_Gt then lit ''>'' else Scanner_getLexeme t)"

definition token_at :: "js_string \<Rightarrow> Token \<Rightarrow> bool" where
  "token_at v t \<longleftrightarrow> starts_with (token_text t) (drop (tok_offset t) v)"

definition token_end :: "Token \<Rightarrow> nat" where
  "token_end t = tok_offset t + length (token_text t)"

definition error_entry :: "Token \<Rightarrow> (nat \<times> js_string) list" where
  "error_entry t = (if tok_type t = T_Error then [(tok_offset t, tok_lexeme t)] else [])"

definition error_log :: "Scanner \<Rightarrow> (nat \<times> js_string) list" where
  "error_log s = map (\<lambda>e. (le_offset e, le_lexeme e)) (sc_errors s)"

text \<open>A step reads forward, and adds no token or one that stands in what was read.\<close>

definition moves :: "Scanner \<Rightarrow> Scanner \<Rightarrow> bool" where
  "moves s s' \<longleftrightarrow> sc_input s' = sc_input s \<and> sc_start s' = sc_start s \<and> sc_current s \<le> sc_current s' \<and>
     sc_current s' \<le> length (sc_input s) \<and> sc_tokens s' = sc_tokens s \<and> sc_errors s' = sc_errors s"

definition emits :: "Scanner \<Rightarrow> Scanner \<Rightarrow> bool" where
  "emits s s' \<longleftrightarrow> sc_input s' = sc_input s \<and> sc_current s \<le> sc_current s' \<and> sc_current s' \<le> length (sc_input s) \<and>
     (sc_tokens s' = sc_tokens s \<and> error_log s' = error_log s \<or>
      (\<exists>t. sc_tokens s' = sc_tokens s @ [t] \<and> tok_type t \<noteq> T_EOF \<and> token_at (sc_input s) t \<and>
         sc_start s \<le> tok_offset t \<and> token_end t \<le> sc_current s' \<and> error_log s' = error_log s @ error_entry t))"

lemma lit_tokens [simp]:
  "lit ''('' = [40]" "lit '')'' = [41]" "lit ''!'' = [33]" "lit ''==='' = [61, 61, 61]" "lit ''=='' = [61, 61]"
  "lit ''!=='' = [33, 61, 61]" "lit ''!='' = [33, 61]" "lit ''<'' = [60]" "lit ''<='' = [60, 61]" "lit ''>'' = [62]"
  "lit ''>='' = [62, 61]" "lit ''=~'' = [61, 126]" "lit ''&&'' = [38, 38]" "lit ''||'' = [124, 124]"
  by (simp_all add: lit_def)

lemma starts_with_drop_Cons [simp]:
  "starts_with (c # p) (drop i v) \<longleftrightarrow> i < length v \<and> v ! i = c \<and> starts_with p (drop (Suc i) v)"
  by (cases "i < length v") (auto simp: starts_with_def Cons_nth_drop_Suc [symmetric] simp del: Cons_nth_drop_Suc)

lemma starts_with_Nil [simp]: "starts_with [] s"
  by (simp add: starts_with_def)

lemma substring_eq: "a \<le> b \<Longrightarrow> b \<le> length v \<Longrightarrow> substring v a b = take (b - a) (drop a v)"
  by (simp add: substring_def js_substring_nat)

lemma starts_with_substring [simp]: "a \<le> b \<Longrightarrow> b \<le> length v \<Longrightarrow> starts_with (substring v a b) (drop a v)"
  by (simp add: starts_with_def substring_eq)

lemma length_substring [simp]: "a \<le> b \<Longrightarrow> b \<le> length v \<Longrightarrow> length (substring v a b) = b - a"
  by (simp add: substring_eq)

lemma plain_token_fields [simp]:
  "tok_type (plain_token t i) = t" "tok_offset (plain_token t i) = i" "tok_isTripleEq (plain_token t i) = False"
  "tok_lexeme (plain_token t i) = []"
  by (simp_all add: plain_token_def)

lemma moves_refl [simp]: "sc_current s \<le> length (sc_input s) \<Longrightarrow> moves s s"
  by (simp add: moves_def)

lemma Scanner_match_alt:
  "Scanner_match c s =
     (if sc_current s < length (sc_input s) \<and> sc_input s ! sc_current s = c
      then (True, s\<lparr>sc_current := sc_current s + 1\<rparr>) else (False, s))"
  by (auto simp: Scanner_match_def Scanner_isAtEnd_def)

lemma emits_token:
  assumes "moves s s'" "tok_type t \<noteq> T_EOF" "tok_type t \<noteq> T_Error" "token_at (sc_input s) t" "sc_start s \<le> tok_offset t"
    "token_end t \<le> sc_current s'"
  shows "emits s (push_token t s')"
  using assms by (auto simp: emits_def moves_def push_token_def error_log_def error_entry_def)

lemma emits_moves: "moves s s' \<Longrightarrow> emits s s'"
  by (auto simp: emits_def moves_def error_log_def)

lemma emits_error:
  assumes "moves s s'" "sc_start s \<le> sc_current s"
  shows "emits s (Scanner_error a s')"
  using assms
  by (auto simp: emits_def moves_def push_token_def error_log_def error_entry_def Scanner_error_def Let_def token_at_def
      token_end_def token_text_def Scanner_getLexeme_def plain_token_def)

lemma quote_loop_moves:
  "sc_current s \<le> length (sc_input s) \<Longrightarrow> moves s (quote_loop s)"
proof (induction s rule: quote_loop.induct)
  case (1 s)
  then show ?case
    unfolding quote_loop.simps [of s] by (auto simp: Scanner_advance_def Scanner_isAtEnd_def moves_def)
qed

lemma Scanner_quotedString_emits:
  assumes "sc_current s = sc_start s + 1" "sc_current s \<le> length (sc_input s)"
  shows "emits s (Scanner_quotedString env s)"
proof (cases "Scanner_isAtEnd (quote_loop s)")
  case True
  then show ?thesis
    using assms by (simp add: Scanner_quotedString_def emits_error quote_loop_moves)
next
  case False
  then have "moves s (snd (Scanner_advance (quote_loop s)))" "sc_current s < sc_current (snd (Scanner_advance (quote_loop s)))"
    using quote_loop_moves [OF assms(2)] by (auto simp: moves_def Scanner_advance_def Scanner_isAtEnd_def)
  with False show ?thesis
    using assms
    by (auto simp: Scanner_quotedString_def Let_def token_at_def token_end_def token_text_def Scanner_getLexeme_def moves_def
        intro!: emits_token)
qed

lemma regex_loop_forward: "regex_loop cs p e c = Some q \<Longrightarrow> p < q \<and> q \<le> p + length cs"
  by (induction cs p e c rule: regex_loop.induct) (auto split: if_splits)

lemma Scanner_regex_emits:
  assumes "sc_current s = sc_start s + 1" "sc_current s \<le> length (sc_input s)"
  shows "emits s (Scanner_regex env s)"
proof (cases "regex_loop (drop (sc_current s) (sc_input s)) (sc_current s) False False")
  case None
  then show ?thesis
    using assms by (auto simp: Scanner_regex_def moves_def intro!: emits_error)
next
  case (Some p)
  let ?fl = "takeWhile (\<lambda>c. c \<in> Scanner_regexFlags) (drop p (sc_input s))"
  have p: "sc_current s < p" "p \<le> length (sc_input s)"
    using regex_loop_forward [OF Some] assms by auto
  have "length ?fl \<le> length (sc_input s) - p"
    using length_takeWhile_le [of _ "drop p (sc_input s)"] by simp
  with p have "moves s (s\<lparr>sc_current := p + length ?fl\<rparr>)"
    by (auto simp: moves_def)
  with Some show ?thesis
    using assms
    by (auto simp: Scanner_regex_def Let_def token_at_def token_end_def token_text_def Scanner_getLexeme_def moves_def
        intro!: emits_token)
qed

lemma string_match_bound: "string_match env s \<le> length s"
  by (induction env s rule: string_match.induct) auto

lemma Scanner_keywords_text:
  "Scanner_keywords w = Some k \<Longrightarrow> Scanner_getLexeme (plain_token k i) = w \<and> k \<in> {T_Not, T_In, T_False, T_True}"
  by (auto simp: Scanner_keywords_def Scanner_getLexeme_def split: if_splits)

lemma Scanner_string_emits:
  assumes "sc_current s = sc_start s + 1" "sc_current s \<le> length (sc_input s)"
  shows "emits s (Scanner_string env s)"
proof -
  let ?m = "string_match env (drop (sc_start s) (sc_input s))"
  let ?s = "s\<lparr>sc_current := sc_start s + ?m\<rparr>" and ?w = "substring (sc_input s) (sc_start s) (sc_start s + ?m)"
  have le: "sc_start s + ?m \<le> length (sc_input s)"
    using string_match_bound [of env "drop (sc_start s) (sc_input s)"] assms by simp
  consider (none) "?m = 0" | (key) k where "?m \<noteq> 0" "Scanner_keywords ?w = Some k" | (str) "?m \<noteq> 0" "Scanner_keywords ?w = None"
    by (cases "Scanner_keywords ?w") auto
  then show ?thesis
  proof cases
    case none
    with assms show ?thesis by (simp add: Scanner_string_def emits_moves)
  next
    case key
    then have "moves s ?s" using le assms by (auto simp: moves_def)
    moreover have "token_text (plain_token k (sc_start s)) = ?w" "k \<notin> {T_EOF, T_Error}"
      using Scanner_keywords_text [OF key(2), of "sc_start s"] by (auto simp: token_text_def)
    ultimately show ?thesis
      using key assms le
      by (auto simp: Scanner_string_def Let_def Scanner_addToken_def token_at_def token_end_def intro!: emits_token)
  next
    case str
    then have "moves s ?s" using le assms by (auto simp: moves_def)
    with str show ?thesis
      using assms le
      by (auto simp: Scanner_string_def Let_def token_at_def token_end_def token_text_def Scanner_getLexeme_def intro!: emits_token)
  qed
qed

lemmas token_simps = token_at_def token_end_def token_text_def Scanner_getLexeme_def Scanner_addToken_def moves_def

lemma scan_operator_emits:
  assumes s: "sc_current s = sc_start s + 1" "sc_current s \<le> length (sc_input s)" "ch = sc_input s ! sc_start s"
    and op: "ch \<in> {40, 41, 33, 61, 60, 62, 38, 124}"
  shows "emits s (scan_char env ch s)"
proof -
  consider "ch = 40" | "ch = 41" | "ch = 33" | "ch = 61" | "ch = 60" | "ch = 62" | "ch = 38" | "ch = 124"
    using op by blast
  then show ?thesis
    using s
    by cases ((auto simp: scan_char_def Scanner_match_alt token_simps intro!: emits_token emits_error) [1])+
qed

lemma scan_char_emits:
  assumes s: "sc_current s = sc_start s + 1" "sc_current s \<le> length (sc_input s)" "ch = sc_input s ! sc_start s"
  shows "emits s (scan_char env ch s)"
proof (cases "ch \<in> {40, 41, 33, 61, 60, 62, 38, 124}")
  case True
  then show ?thesis using scan_operator_emits s by blast
next
  case False
  then have "scan_char env ch s \<in> {Scanner_quotedString env s, Scanner_regex env s, s, Scanner_string env s}"
    by (simp add: scan_char_def)
  then show ?thesis
    using s Scanner_quotedString_emits [OF s(1,2)] Scanner_regex_emits [OF s(1,2)] Scanner_string_emits [OF s(1,2)]
    by (auto simp: emits_moves)
qed

text \<open>One iteration of the loop of \<^verbatim>\<open>scan\<close>.\<close>

definition scan_step :: "when_env \<Rightarrow> Scanner \<Rightarrow> Scanner" where
  "scan_step env s =
     (let s1 = s\<lparr>sc_start := sc_current s\<rparr> in case Scanner_advance s1 of (ch, s2) \<Rightarrow> scan_char env ch s2)"

lemma scan_step_emits:
  assumes "\<not> Scanner_isAtEnd s"
  shows "emits (s\<lparr>sc_start := sc_current s, sc_current := sc_current s + 1\<rparr>) (scan_step env s)"
  using assms by (auto simp: scan_step_def Scanner_advance_def Scanner_isAtEnd_def intro!: scan_char_emits)

function scan_loop :: "when_env \<Rightarrow> Scanner \<Rightarrow> Scanner" where
  "scan_loop env s = (if Scanner_isAtEnd s then s else scan_loop env (scan_step env s))"
  by pat_completeness auto

termination
proof (relation "measure (\<lambda>(env, s). length (sc_input s) - sc_current s)", goal_cases)
  case (2 env s)
  then show ?case
    using scan_step_emits [of s env] by (auto simp: emits_def Scanner_isAtEnd_def)
qed simp

declare scan_loop.simps [simp del]

definition Scanner_scan :: "when_env \<Rightarrow> Scanner \<Rightarrow> Token list \<times> Scanner" where
  "Scanner_scan env s0 =
     (let s = scan_loop env s0; s1 = Scanner_addToken T_EOF (s\<lparr>sc_start := sc_current s\<rparr>)
      in (sc_tokens s1, s1))"

section \<open>The tokens of an input\<close>

definition scanned :: "Scanner \<Rightarrow> bool" where
  "scanned s \<longleftrightarrow> sc_current s \<le> length (sc_input s) \<and>
     (\<forall>t \<in> set (sc_tokens s). tok_type t \<noteq> T_EOF \<and> token_at (sc_input s) t \<and> token_end t \<le> sc_current s) \<and>
     sorted_wrt (\<lambda>t u. token_end t \<le> tok_offset u) (sc_tokens s) \<and>
     error_log s = concat (map error_entry (sc_tokens s))"

lemma scanned_step:
  assumes "scanned s" "\<not> Scanner_isAtEnd s"
  shows "scanned (scan_step env s)" "sc_input (scan_step env s) = sc_input s"
proof -
  let ?s = "scan_step env s"
  have e: "emits (s\<lparr>sc_start := sc_current s, sc_current := sc_current s + 1\<rparr>) ?s"
    using scan_step_emits [OF assms(2)] .
  then show "sc_input ?s = sc_input s" by (simp add: emits_def)
  have "\<forall>t \<in> set (sc_tokens s). token_end t \<le> sc_current s" "sc_current s \<le> sc_current ?s"
    using assms e by (auto simp: scanned_def emits_def)
  then have "\<forall>t \<in> set (sc_tokens s). token_end t \<le> sc_current ?s \<and> (\<forall>n. sc_current s \<le> n \<longrightarrow> token_end t \<le> n)"
    by (meson order_trans)
  with assms e show "scanned ?s"
    by (auto simp: scanned_def emits_def sorted_wrt_append error_log_def)
qed

lemma scanned_loop:
  "scanned s \<Longrightarrow> scanned (scan_loop env s) \<and> sc_input (scan_loop env s) = sc_input s \<and> Scanner_isAtEnd (scan_loop env s)"
proof (induction env s rule: scan_loop.induct)
  case (1 env s)
  show ?case
  proof (cases "Scanner_isAtEnd s")
    case True
    with 1 show ?thesis by (simp add: scan_loop.simps [of env s])
  next
    case False
    with 1 scanned_step [OF \<open>scanned s\<close> False, of env] show ?thesis
      by (simp add: scan_loop.simps [of env s])
  qed
qed

text \<open>C22: Scanning any text (\<^verbatim>\<open>Scanner.reset(v).scan()\<close>) returns tokens of which exactly the last is the end-of-input
  token, at the end of the text; each other one stands at its offset with its lexeme (the text \<^verbatim>\<open>>\<close> for a
  greater-than token, whose lexeme the code gives as \<^verbatim>\<open>>=\<close>), they are in order and do not overlap, and the lexing errors are,
  one for one and in order, the error tokens.\<close>

theorem Scanner_scan_tokens:
  "case Scanner_scan env (Scanner_reset v) of (tokens, s) \<Rightarrow>
     tokens \<noteq> [] \<and> last tokens = plain_token T_EOF (length v) \<and>
     list_all (\<lambda>t. tok_type t \<noteq> T_EOF \<and> token_at v t) (butlast tokens) \<and>
     sorted_wrt (\<lambda>t u. token_end t \<le> tok_offset u) tokens \<and>
     error_log s = concat (map error_entry tokens)"
proof -
  let ?s = "scan_loop env (Scanner_reset v)"
  have "scanned (Scanner_reset v)" "sc_input (Scanner_reset v) = v"
    by (simp_all add: scanned_def Scanner_reset_def error_log_def)
  then have "scanned ?s" "sc_input ?s = v" "sc_current ?s = length v"
    using scanned_loop [of "Scanner_reset v" env] by (auto simp: Scanner_isAtEnd_def scanned_def)
  then show ?thesis
    by (auto simp: Scanner_scan_def Let_def Scanner_addToken_def push_token_def scanned_def list_all_iff sorted_wrt_append
        error_log_def error_entry_def)
qed

end
