(* ===== verification/When_Parser.thy ===== *)
theory When_Parser
  imports When_Scanner Context_Key
begin

text \<open>
  The class \<^verbatim>\<open>Parser\<close> of \<^verbatim>\<open>src/vs/platform/contextkey/common/contextkey.ts\<close>, and \<^verbatim>\<open>ContextKeyExpr.deserialize\<close> and \<^verbatim>\<open>validateWhenClauses\<close>, which use it.
  A parser is a record of its fields.  A method returns, or it throws \<^verbatim>\<open>Parser._parseError\<close> with the fields as they are then.  The methods that
  call each other have a bound on the depth of the calls, which they pass on to \<^verbatim>\<open>create\<close> and \<^verbatim>\<open>negate\<close>;
  \<open>None\<close> is a bound that does not suffice.  The constructor of regular expressions, which throws for some
  arguments, is a parameter.
\<close>

section \<open>The parser and its tokens\<close>

record ParsingError =
  pe_message :: js_string
  pe_offset :: nat
  pe_lexeme :: js_string
  pe_additionalInfo :: "js_string option"

record parser_env = when_env +
  new_RegExp :: "js_string \<Rightarrow> js_string option \<Rightarrow> RegExp option"

record Parser =
  regexParsingWithErrorRecovery :: bool
  pa_scanner :: Scanner
  pa_tokens :: "Token list"
  pa_current :: nat
  pa_parsingErrors :: "ParsingError list"

definition new_Parser :: "bool \<Rightarrow> Parser" where
  "new_Parser config =
     \<lparr>regexParsingWithErrorRecovery = config, pa_scanner = Scanner_reset [], pa_tokens = [], pa_current = 0, pa_parsingErrors = []\<rparr>"

datatype 'a parsed = Returned 'a Parser | ThrowsParseError Parser

definition andThen :: "'a parsed option \<Rightarrow> ('a \<Rightarrow> Parser \<Rightarrow> 'b parsed option) \<Rightarrow> 'b parsed option" where
  "andThen m f =
     (case m of
        None \<Rightarrow> None
      | Some (ThrowsParseError p) \<Rightarrow> Some (ThrowsParseError p)
      | Some (Returned x p) \<Rightarrow> f x p)"

definition Parser_lexingErrors :: "Parser \<Rightarrow> LexingError list" where
  "Parser_lexingErrors p = sc_errors (pa_scanner p)"

text \<open>The current token; the class keeps \<^verbatim>\<open>_current < _tokens.length\<close>.\<close>

definition Parser_peek :: "Parser \<Rightarrow> Token" where
  "Parser_peek p = pa_tokens p ! pa_current p"

definition Parser_previous :: "Parser \<Rightarrow> Token option" where
  "Parser_previous p = (if pa_current p = 0 then None else Some (pa_tokens p ! (pa_current p - 1)))"

definition Parser_isAtEnd :: "Parser \<Rightarrow> bool" where
  "Parser_isAtEnd p \<longleftrightarrow> tok_type (Parser_peek p) = T_EOF"

definition Parser_check :: "TokenType \<Rightarrow> Parser \<Rightarrow> bool" where
  "Parser_check t p \<longleftrightarrow> tok_type (Parser_peek p) = t"

text \<open>No caller looks at the token \<^verbatim>\<open>_advance\<close> and \<^verbatim>\<open>_consume\<close> return.\<close>

definition Parser_advance :: "Parser \<Rightarrow> Parser" where
  "Parser_advance p = (if \<not> Parser_isAtEnd p then p\<lparr>pa_current := pa_current p + 1\<rparr> else p)"

definition Parser_matchOne :: "TokenType \<Rightarrow> Parser \<Rightarrow> bool \<times> Parser" where
  "Parser_matchOne t p = (if Parser_check t p then (True, Parser_advance p) else (False, p))"

definition push_parsingError :: "ParsingError \<Rightarrow> Parser \<Rightarrow> Parser" where
  "push_parsingError e p = p\<lparr>pa_parsingErrors := pa_parsingErrors p @ [e]\<rparr>"

definition Parser_errExpectedButGot :: "parser_env \<Rightarrow> js_string \<Rightarrow> Token \<Rightarrow> Parser \<Rightarrow> 'a parsed option" where
  "Parser_errExpectedButGot env expected got p =
     Some (ThrowsParseError (push_parsingError
       \<lparr>pe_message = localize env (lit ''contextkey.parser.error.expectedButGot'') [expected, Scanner_getLexeme got],
        pe_offset = tok_offset got, pe_lexeme = Scanner_getLexeme got, pe_additionalInfo = None\<rparr> p))"

definition Parser_consume :: "parser_env \<Rightarrow> TokenType \<Rightarrow> js_string \<Rightarrow> Parser \<Rightarrow> unit parsed option" where
  "Parser_consume env t message p =
     (if Parser_check t p then Some (Returned () (Parser_advance p))
      else Parser_errExpectedButGot env message (Parser_peek p) p)"

definition Parser_value :: "Parser \<Rightarrow> js_string \<times> Parser" where
  "Parser_value p =
     (let token = Parser_peek p
      in case tok_type token of
           T_Str \<Rightarrow> (tok_lexeme token, Parser_advance p)
         | T_QuotedStr \<Rightarrow> (tok_lexeme token, Parser_advance p)
         | T_True \<Rightarrow> (lit ''true'', Parser_advance p)
         | T_False \<Rightarrow> (lit ''false'', Parser_advance p)
         | T_In \<Rightarrow> (lit ''in'', Parser_advance p)
         | _ \<Rightarrow> ([], p))"

section \<open>Messages\<close>

definition in_quotes :: "string \<Rightarrow> string" where
  "in_quotes s = CHR 0x27 # s @ [CHR 0x27]"

definition errorClosingParenthesis :: "parser_env \<Rightarrow> js_string" where
  "errorClosingParenthesis env = localize env (lit ''contextkey.parser.error.closingParenthesis'') []"

definition errorNoInAfterNot :: "parser_env \<Rightarrow> js_string" where
  "errorNoInAfterNot env = localize env (lit ''contextkey.parser.error.noInAfterNot'') []"

definition expected_term :: js_string where
  "expected_term = lit (''KEY | true | false | '' @ in_quotes ''('' @ '' expression '' @ in_quotes '')'')"

definition expected_primary :: js_string where
  "expected_primary =
     lit (''true | false | KEY '' @ [CHR 0x0A, CHR 0x09] @ ''| KEY '' @ in_quotes ''=~'' @ '' REGEX '' @ [CHR 0x0A, CHR 0x09] @
       ''| KEY ('' @ in_quotes ''=='' @ '' | '' @ in_quotes ''!='' @ '' | '' @ in_quotes ''<'' @ '' | '' @ in_quotes ''<='' @ '' | '' @
       in_quotes ''>'' @ '' | '' @ in_quotes ''>='' @ '' | '' @ in_quotes ''in'' @ '' | '' @ in_quotes ''not'' @ '' '' @ in_quotes ''in'' @
       '') value'')"

section \<open>Regular expressions\<close>

fun last_index_from :: "code_unit \<Rightarrow> js_string \<Rightarrow> int \<Rightarrow> int \<Rightarrow> int" where
  "last_index_from c [] i found = found"
| "last_index_from c (d # s) i found = last_index_from c s (i + 1) (if d = c then i else found)"

definition js_lastIndexOf :: "code_unit \<Rightarrow> js_string \<Rightarrow> int" where
  "js_lastIndexOf c s = last_index_from c s 0 (- 1)"

fun js_indexOf :: "code_unit \<Rightarrow> js_string \<Rightarrow> int \<Rightarrow> int" where
  "js_indexOf c [] i = - 1"
| "js_indexOf c (d # s) i = (if d = c then i else js_indexOf c s (i + 1))"

definition isFalsyOrWhitespace :: "js_string \<Rightarrow> bool" where
  "isFalsyOrWhitespace s \<longleftrightarrow> s = [] \<or> js_trim s = []"

definition Parser_removeFlagsGY :: "js_string \<Rightarrow> js_string" where
  "Parser_removeFlagsGY flags = filter (\<lambda>c. c \<noteq> 103 \<and> c \<noteq> 121) flags"

text \<open>The regular expression a lexeme stands for; \<open>None\<close> where the constructor throws.\<close>

definition regexp_of_lexeme :: "parser_env \<Rightarrow> js_string \<Rightarrow> RegExp option" where
  "regexp_of_lexeme env regexLexeme =
     (let closingSlashIndex = js_lastIndexOf 47 regexLexeme;
          flags = (if closingSlashIndex = int (length regexLexeme) - 1 then None
                   else Some (Parser_removeFlagsGY (js_substring_from regexLexeme (closingSlashIndex + 1))))
      in new_RegExp env (js_substring regexLexeme 1 closingSlashIndex) flags)"

text \<open>Without recovery the next token is the regular expression.\<close>

definition Parser_regex_strict :: "parser_env \<Rightarrow> js_string \<Rightarrow> Parser \<Rightarrow> ContextKeyExpression option parsed option" where
  "Parser_regex_strict env key p =
     (let expr = Parser_peek p; p1 = Parser_advance p
      in if tok_type expr \<noteq> T_RegexStr then Parser_errExpectedButGot env (lit ''REGEX'') expr p1
         else
           case regexp_of_lexeme env (tok_lexeme expr) of
             None \<Rightarrow> Parser_errExpectedButGot env (lit ''REGEX'') expr p1
           | Some regexp \<Rightarrow> Some (Returned (Some (ContextKeyRegexExpr_create key (Some regexp))) p1))"

definition paren_balance :: "js_string \<Rightarrow> int" where
  "paren_balance s = foldl (\<lambda>b c. if c = 40 then b + 1 else if c = 41 then b - 1 else b) 0 s"

text \<open>The second test looks at \<^verbatim>\<open>expr.lexeme\<close>, not at the following token; past its end \<^verbatim>\<open>charCodeAt\<close> is \<^verbatim>\<open>NaN\<close>.\<close>

fun following_balance :: "js_string \<Rightarrow> js_string \<Rightarrow> int \<Rightarrow> int" where
  "following_balance [] lexeme b = b"
| "following_balance (c # cs) lexeme b =
     following_balance cs (tl lexeme) (if c = 40 then b + 1 else if lexeme \<noteq> [] \<and> hd lexeme = 41 then b - 1 else b)"

text \<open>The loop that takes following tokens: their lexemes, one for each token taken.\<close>

fun recover_loop :: "js_string \<Rightarrow> int \<Rightarrow> Token list \<Rightarrow> js_string list" where
  "recover_loop lexeme b [] = []"
| "recover_loop lexeme b (t # ts) =
     (if tok_type t \<in> {T_EOF, T_And, T_Or} then []
      else
        let b2 = (if tok_type t = T_LParen then b + 1 else if tok_type t = T_RParen then b - 1
                  else if tok_type t \<in> {T_RegexStr, T_QuotedStr} then following_balance (tok_lexeme t) lexeme b else b)
        in if b2 < 0 then [] else Scanner_getLexeme t # recover_loop lexeme b2 ts)"

text \<open>The regular expression of a quoted string, as an older parser read it.\<close>

definition quoted_regexp :: "parser_env \<Rightarrow> js_string \<Rightarrow> RegExp option" where
  "quoted_regexp env serializedValue =
     (if isFalsyOrWhitespace serializedValue then None
      else
        let start = js_indexOf 47 serializedValue 0; last = js_lastIndexOf 47 serializedValue
        in if start \<noteq> last \<and> start \<ge> 0 then
             new_RegExp env (js_slice serializedValue (start + 1) last)
               (Some (if last + 1 < int (length serializedValue) \<and> serializedValue ! nat (last + 1) = 105 then lit ''i'' else []))
           else None)"

definition Parser_regex_recovering :: "parser_env \<Rightarrow> js_string \<Rightarrow> Parser \<Rightarrow> ContextKeyExpression option parsed option" where
  "Parser_regex_recovering env key p =
     (let expr = Parser_peek p
      in if tok_type expr \<in> {T_RegexStr, T_Error} then
           let p1 = Parser_advance p;
               taken = recover_loop (tok_lexeme expr) (paren_balance (tok_lexeme expr)) (drop (pa_current p1) (pa_tokens p1));
               p2 = p1\<lparr>pa_current := pa_current p1 + length taken\<rparr>
           in case regexp_of_lexeme env (concat (tok_lexeme expr # taken)) of
                None \<Rightarrow> Parser_errExpectedButGot env (lit ''REGEX'') expr p2
              | Some regexp \<Rightarrow> Some (Returned (Some (ContextKeyExpr_regex key (Some regexp))) p2)
         else if tok_type expr = T_QuotedStr then
           let p1 = Parser_advance p
           in case quoted_regexp env (tok_lexeme expr) of
                None \<Rightarrow> Parser_errExpectedButGot env (lit ''REGEX'') expr p1
              | Some regexp \<Rightarrow> Some (Returned (Some (ContextKeyRegexExpr_create key (Some regexp))) p1)
         else Parser_errExpectedButGot env (lit ''REGEX'') (Parser_peek p) p)"

section \<open>Clauses\<close>

definition Parser_equality :: "constants \<Rightarrow> js_string \<Rightarrow> Parser \<Rightarrow> ContextKeyExpression option parsed option" where
  "Parser_equality cs key p =
     (case Parser_value (Parser_advance p) of (right, p1) \<Rightarrow>
        Some (Returned (Some (
          if map_option tok_type (Parser_previous p1) = Some T_QuotedStr then ContextKeyExpr_equals cs key (PStr right)
          else if right = lit ''true'' then ContextKeyExpr_has cs key
          else if right = lit ''false'' then ContextKeyExpr_not cs key
          else ContextKeyExpr_equals cs key (PStr right))) p1))"

definition Parser_inequality :: "constants \<Rightarrow> js_string \<Rightarrow> Parser \<Rightarrow> ContextKeyExpression option parsed option" where
  "Parser_inequality cs key p =
     (case Parser_value (Parser_advance p) of (right, p1) \<Rightarrow>
        Some (Returned (Some (
          if map_option tok_type (Parser_previous p1) = Some T_QuotedStr then ContextKeyExpr_notEquals cs key (PStr right)
          else if right = lit ''true'' then ContextKeyExpr_not cs key
          else if right = lit ''false'' then ContextKeyExpr_has cs key
          else ContextKeyExpr_notEquals cs key (PStr right))) p1))"

text \<open>\<^verbatim>\<open>create(key, this._value())\<close> after the operator.\<close>

definition with_value :: "(js_string \<Rightarrow> ContextKeyExpression) \<Rightarrow> Parser \<Rightarrow> ContextKeyExpression option parsed option" where
  "with_value create p = (case Parser_value (Parser_advance p) of (right, p1) \<Rightarrow> Some (Returned (Some (create right)) p1))"

text \<open>What may follow a key.\<close>

definition Parser_key_clause :: "parser_env \<Rightarrow> constants \<Rightarrow> js_string \<Rightarrow> Parser \<Rightarrow> ContextKeyExpression option parsed option" where
  "Parser_key_clause env cs key p0 =
     (case Parser_matchOne T_RegexOp p0 of
        (True, p) \<Rightarrow>
          (if \<not> regexParsingWithErrorRecovery p then Parser_regex_strict env key p else Parser_regex_recovering env key p)
      | (False, p1) \<Rightarrow>
          (case Parser_matchOne T_Not p1 of
             (True, p) \<Rightarrow>
               andThen (Parser_consume env T_In (errorNoInAfterNot env) p)
                 (\<lambda>u p2. case Parser_value p2 of (right, p3) \<Rightarrow> Some (Returned (Some (ContextKeyExpr_notIn key right)) p3))
           | (False, p) \<Rightarrow>
               (case tok_type (Parser_peek p) of
                  T_Eq \<Rightarrow> Parser_equality cs key p
                | T_NotEq \<Rightarrow> Parser_inequality cs key p
                | T_Lt \<Rightarrow> with_value (\<lambda>v. ContextKeySmallerExpr_create key (PStr v) None) p
                | T_LtEq \<Rightarrow> with_value (\<lambda>v. ContextKeySmallerEqualsExpr_create key (PStr v) None) p
                | T_Gt \<Rightarrow> with_value (\<lambda>v. ContextKeyGreaterExpr_create key (PStr v) None) p
                | T_GtEq \<Rightarrow> with_value (\<lambda>v. ContextKeyGreaterEqualsExpr_create key (PStr v) None) p
                | T_In \<Rightarrow> with_value (\<lambda>v. ContextKeyExpr_in key v) p
                | _ \<Rightarrow> Some (Returned (Some (ContextKeyExpr_has cs key)) p))))"

section \<open>Expressions\<close>

text \<open>The argument \<open>expr\<close> is \<^verbatim>\<open>this._expr()\<close>.\<close>

definition Parser_primary ::
    "(Parser \<Rightarrow> ContextKeyExpression option parsed option) \<Rightarrow> parser_env \<Rightarrow> constants \<Rightarrow> Parser \<Rightarrow> ContextKeyExpression option parsed option" where
  "Parser_primary expr env cs p =
     (let peek = Parser_peek p
      in case tok_type peek of
           T_True \<Rightarrow> Some (Returned (Some TrueExpr) (Parser_advance p))
         | T_False \<Rightarrow> Some (Returned (Some FalseExpr) (Parser_advance p))
         | T_LParen \<Rightarrow>
             andThen (expr (Parser_advance p)) (\<lambda>e p1.
               andThen (Parser_consume env T_RParen (errorClosingParenthesis env) p1) (\<lambda>u p2. Some (Returned e p2)))
         | T_Str \<Rightarrow> Parser_key_clause env cs (tok_lexeme peek) (Parser_advance p)
         | T_EOF \<Rightarrow>
             Some (ThrowsParseError (push_parsingError
               \<lparr>pe_message = localize env (lit ''contextkey.parser.error.unexpectedEOF'') [],
                pe_offset = tok_offset peek, pe_lexeme = [],
                pe_additionalInfo = Some (localize env (lit ''contextkey.parser.error.unexpectedEOF.hint'') [])\<rparr> p))
         | _ \<Rightarrow> Parser_errExpectedButGot env expected_primary (Parser_peek p) p)"

definition Parser_term ::
    "nat \<Rightarrow> (Parser \<Rightarrow> ContextKeyExpression option parsed option) \<Rightarrow> parser_env \<Rightarrow> constants \<Rightarrow> Parser \<Rightarrow> ContextKeyExpression option parsed option" where
  "Parser_term n expr env cs p0 =
     (case Parser_matchOne T_Neg p0 of
        (True, p) \<Rightarrow>
          (let peek = Parser_peek p
           in case tok_type peek of
                T_True \<Rightarrow> Some (Returned (Some FalseExpr) (Parser_advance p))
              | T_False \<Rightarrow> Some (Returned (Some TrueExpr) (Parser_advance p))
              | T_LParen \<Rightarrow>
                  andThen (expr (Parser_advance p)) (\<lambda>e p1.
                    andThen (Parser_consume env T_RParen (errorClosingParenthesis env) p1) (\<lambda>u p2.
                      case e of
                        None \<Rightarrow> Some (Returned None p2)
                      | Some e1 \<Rightarrow> map_option (\<lambda>r. Returned (Some r) p2) (ck_negate n cs e1)))
              | T_Str \<Rightarrow> Some (Returned (Some (ContextKeyNotExpr_create cs (tok_lexeme peek) None)) (Parser_advance p))
              | _ \<Rightarrow> Parser_errExpectedButGot env expected_term peek p)
      | (False, p) \<Rightarrow> Parser_primary expr env cs p)"

text \<open>The two loops are the same but for the operator, the operand and what combines the operands.\<close>

fun operands_loop ::
    "nat \<Rightarrow> TokenType \<Rightarrow> (Parser \<Rightarrow> ContextKeyExpression option parsed option) \<Rightarrow>
     (ContextKeyExpression option list \<Rightarrow> ContextKeyExpression option option) \<Rightarrow>
     ContextKeyExpression option list \<Rightarrow> Parser \<Rightarrow> ContextKeyExpression option parsed option" where
  "operands_loop 0 op operand combine expr p = None"
| "operands_loop (Suc n) op operand combine expr p0 =
     (case Parser_matchOne op p0 of
        (True, p) \<Rightarrow> andThen (operand p) (\<lambda>right. operands_loop n op operand combine (expr @ [right]))
      | (False, p) \<Rightarrow>
          (if length expr = 1 then Some (Returned (hd expr) p)
           else map_option (\<lambda>e. Returned e p) (combine expr)))"

definition Parser_and ::
    "nat \<Rightarrow> (Parser \<Rightarrow> ContextKeyExpression option parsed option) \<Rightarrow> parser_env \<Rightarrow> constants \<Rightarrow> Parser \<Rightarrow> ContextKeyExpression option parsed option" where
  "Parser_and n expr env cs p =
     andThen (Parser_term n expr env cs p) (\<lambda>e. operands_loop n T_And (Parser_term n expr env cs) (ContextKeyExpr_and n cs) [e])"

definition Parser_or ::
    "nat \<Rightarrow> (Parser \<Rightarrow> ContextKeyExpression option parsed option) \<Rightarrow> parser_env \<Rightarrow> constants \<Rightarrow> Parser \<Rightarrow> ContextKeyExpression option parsed option" where
  "Parser_or n expr env cs p =
     andThen (Parser_and n expr env cs p) (\<lambda>e. operands_loop n T_Or (Parser_and n expr env cs) (ContextKeyExpr_or n cs) [e])"

fun Parser_expr :: "nat \<Rightarrow> parser_env \<Rightarrow> constants \<Rightarrow> Parser \<Rightarrow> ContextKeyExpression option parsed option" where
  "Parser_expr 0 env cs p = None"
| "Parser_expr (Suc n) env cs p = Parser_or n (Parser_expr n env cs) env cs p"

text \<open>What \<^verbatim>\<open>parse\<close> does with the result of \<^verbatim>\<open>_expr\<close>.\<close>

definition parse_end :: "parser_env \<Rightarrow> ContextKeyExpression option parsed \<Rightarrow> ContextKeyExpression option \<times> Parser" where
  "parse_end env r =
     (case r of
        ThrowsParseError p \<Rightarrow> (None, p)
      | Returned expr p \<Rightarrow>
          (if \<not> Parser_isAtEnd p then
             let peek = Parser_peek p;
                 additionalInfo = (if tok_type peek = T_Str
                   then Some (localize env (lit ''contextkey.parser.error.unexpectedToken.hint'') []) else None)
             in (None, push_parsingError
                  \<lparr>pe_message = localize env (lit ''contextkey.parser.error.unexpectedToken'') [], pe_offset = tok_offset peek,
                   pe_lexeme = Scanner_getLexeme peek, pe_additionalInfo = additionalInfo\<rparr> p)
           else (expr, p)))"

definition Parser_parse :: "nat \<Rightarrow> parser_env \<Rightarrow> constants \<Rightarrow> js_string \<Rightarrow> Parser \<Rightarrow> (ContextKeyExpression option \<times> Parser) option" where
  "Parser_parse n env cs input p0 =
     (if input = [] then
        Some (None, push_parsingError
          \<lparr>pe_message = localize env (lit ''contextkey.parser.error.emptyString'') [], pe_offset = 0, pe_lexeme = [],
           pe_additionalInfo = Some (localize env (lit ''contextkey.parser.error.emptyString.hint'') [])\<rparr> p0)
      else
        case Scanner_scan (when_env.truncate env) (Scanner_reset input) of (tokens, scanner) \<Rightarrow>
          (case Parser_expr n env cs (p0\<lparr>pa_scanner := scanner, pa_tokens := tokens, pa_current := 0, pa_parsingErrors := []\<rparr>) of
             None \<Rightarrow> None
           | Some r \<Rightarrow> Some (parse_end env r)))"

text \<open>The static parser of \<^verbatim>\<open>ContextKeyExpr\<close> lives between calls.\<close>

definition ContextKeyExpr_parser :: Parser where
  "ContextKeyExpr_parser = new_Parser False"

definition ContextKeyExpr_deserialize ::
    "nat \<Rightarrow> parser_env \<Rightarrow> constants \<Rightarrow> js_string option \<Rightarrow> Parser \<Rightarrow> (ContextKeyExpression option \<times> Parser) option" where
  "ContextKeyExpr_deserialize n env cs serialized parser =
     (case serialized of None \<Rightarrow> Some (None, parser) | Some s \<Rightarrow> Parser_parse n env cs s parser)"

record WhenClauseError =
  errorMessage :: js_string
  error_offset :: nat
  error_length :: nat

definition when_clause_errors :: "parser_env \<Rightarrow> Parser \<Rightarrow> WhenClauseError list" where
  "when_clause_errors env parser =
     (if length (Parser_lexingErrors parser) > 0 then
        map (\<lambda>se. \<lparr>errorMessage = (case le_additionalInfo se of
              Some info \<Rightarrow>
                (if info \<noteq> [] then localize env (lit ''contextkey.scanner.errorForLinterWithHint'') [info]
                 else localize env (lit ''contextkey.scanner.errorForLinter'') [])
            | None \<Rightarrow> localize env (lit ''contextkey.scanner.errorForLinter'') []),
            error_offset = le_offset se, error_length = length (le_lexeme se)\<rparr>) (Parser_lexingErrors parser)
      else if length (pa_parsingErrors parser) > 0 then
        map (\<lambda>pe. \<lparr>errorMessage = (case pe_additionalInfo pe of
              Some info \<Rightarrow> (if info \<noteq> [] then pe_message pe @ lit ''. '' @ info else pe_message pe)
            | None \<Rightarrow> pe_message pe),
            error_offset = pe_offset pe, error_length = length (pe_lexeme pe)\<rparr>) (pa_parsingErrors parser)
      else [])"

fun validate_loop :: "nat \<Rightarrow> parser_env \<Rightarrow> constants \<Rightarrow> js_string list \<Rightarrow> Parser \<Rightarrow> WhenClauseError list list option" where
  "validate_loop n env cs [] parser = Some []"
| "validate_loop n env cs (w # ws) parser =
     (case Parser_parse n env cs w parser of
        None \<Rightarrow> None
      | Some (_, parser2) \<Rightarrow> map_option (\<lambda>r. when_clause_errors env parser2 # r) (validate_loop n env cs ws parser2))"

definition validateWhenClauses :: "nat \<Rightarrow> parser_env \<Rightarrow> constants \<Rightarrow> js_string list \<Rightarrow> WhenClauseError list list option" where
  "validateWhenClauses n env cs whenClauses = validate_loop n env cs whenClauses (new_Parser False)"

end
