(* ===== verification/When_Grammar.thy ===== *)
theory When_Grammar
  imports When_Parser Context_Key_Results
begin

text \<open>
  The grammar of \<^verbatim>\<open>when\<close> clauses, as the comment above the class \<^verbatim>\<open>Parser\<close> of \<^verbatim>\<open>contextkey.ts\<close> gives it, and what the parser does with it: it
  always returns; what it returns was derived by the grammar and has the value of the tree the grammar gives.
\<close>

section \<open>Trees\<close>

datatype when_tree = Atom ContextKeyExpression | Negation when_tree | Conj "when_tree list" | Disj "when_tree list"

fun tree_evaluate :: "js_lib \<Rightarrow> ck_context \<Rightarrow> when_tree \<Rightarrow> bool" where
  "tree_evaluate lib ctx (Atom e) = ck_evaluate lib ctx e"
| "tree_evaluate lib ctx (Negation t) = (\<not> tree_evaluate lib ctx t)"
| "tree_evaluate lib ctx (Conj ts) = list_all (tree_evaluate lib ctx) ts"
| "tree_evaluate lib ctx (Disj ts) = list_ex (tree_evaluate lib ctx) ts"

fun tree_atoms :: "when_tree \<Rightarrow> ContextKeyExpression list" where
  "tree_atoms (Atom e) = [e]"
| "tree_atoms (Negation t) = tree_atoms t"
| "tree_atoms (Conj ts) = concat (map tree_atoms ts)"
| "tree_atoms (Disj ts) = concat (map tree_atoms ts)"

text \<open>An expression means a tree when it has the value of the tree wherever the atoms are sane.\<close>

definition means :: "constants \<Rightarrow> ContextKeyExpression \<Rightarrow> when_tree \<Rightarrow> bool" where
  "means cs e t \<longleftrightarrow> wf_expr e \<and>
     (\<forall>lib ctx fl. list_all (sane lib ctx cs fl) (tree_atoms t) \<longrightarrow>
        sane lib ctx cs fl e \<and> ck_evaluate lib ctx e = tree_evaluate lib ctx t)"

section \<open>The grammar\<close>

text \<open>A value: its text, and whether it was quoted.\<close>

inductive g_value :: "Token list \<Rightarrow> js_string \<Rightarrow> bool \<Rightarrow> bool" where
  "tok_type t = T_Str \<Longrightarrow> g_value [t] (tok_lexeme t) False"
| "tok_type t = T_QuotedStr \<Longrightarrow> g_value [t] (tok_lexeme t) True"
| "tok_type t = T_True \<Longrightarrow> g_value [t] (lit ''true'') False"
| "tok_type t = T_False \<Longrightarrow> g_value [t] (lit ''false'') False"
| "tok_type t = T_In \<Longrightarrow> g_value [t] (lit ''in'') False"
| "g_value [] [] False"

definition numeric_value :: "js_string \<Rightarrow> js_prim" where
  "numeric_value v = (if js_parseFloat v \<noteq> NaN then PNum (js_parseFloat v) else PStr v)"

definition equality_atom :: "js_string \<Rightarrow> js_string \<Rightarrow> bool \<Rightarrow> ContextKeyExpression" where
  "equality_atom k v quoted =
     (if \<not> quoted \<and> v = lit ''true'' then DefinedExpr k None
      else if \<not> quoted \<and> v = lit ''false'' then NotExpr k None
      else EqualsExpr k (PStr v) None)"

definition inequality_atom :: "js_string \<Rightarrow> js_string \<Rightarrow> bool \<Rightarrow> ContextKeyExpression" where
  "inequality_atom k v quoted =
     (if \<not> quoted \<and> v = lit ''true'' then NotExpr k None
      else if \<not> quoted \<and> v = lit ''false'' then DefinedExpr k None
      else NotEqualsExpr k (PStr v) None)"

text \<open>What an operator that takes a value says about a key.\<close>

fun operator_atom :: "TokenType \<Rightarrow> js_string \<Rightarrow> js_string \<Rightarrow> bool \<Rightarrow> ContextKeyExpression option" where
  "operator_atom T_Eq k v quoted = Some (equality_atom k v quoted)"
| "operator_atom T_NotEq k v quoted = Some (inequality_atom k v quoted)"
| "operator_atom T_Lt k v quoted = Some (SmallerExpr k (numeric_value v) None)"
| "operator_atom T_LtEq k v quoted = Some (SmallerEqualsExpr k (numeric_value v) None)"
| "operator_atom T_Gt k v quoted = Some (GreaterExpr k (numeric_value v) None)"
| "operator_atom T_GtEq k v quoted = Some (GreaterEqualsExpr k (numeric_value v) None)"
| "operator_atom T_In k v quoted = Some (InExpr k v)"
| "operator_atom _ k v quoted = None"

text \<open>A regular expression: one token; with recovery, a quoted string, or a run of tokens without \<^verbatim>\<open>&&\<close> and \<^verbatim>\<open>||\<close>.\<close>

inductive g_regex :: "parser_env \<Rightarrow> bool \<Rightarrow> Token list \<Rightarrow> RegExp \<Rightarrow> bool" for env recovery where
  "tok_type t = T_RegexStr \<Longrightarrow> regexp_of_lexeme env (tok_lexeme t) = Some re \<Longrightarrow> g_regex env recovery [t] re"
| "recovery \<Longrightarrow> tok_type t \<in> {T_RegexStr, T_Error} \<Longrightarrow> list_all (\<lambda>u. tok_type u \<notin> {T_EOF, T_And, T_Or}) ts \<Longrightarrow>
     regexp_of_lexeme env (concat (tok_lexeme t # map Scanner_getLexeme ts)) = Some re \<Longrightarrow> g_regex env recovery (t # ts) re"
| "recovery \<Longrightarrow> tok_type t = T_QuotedStr \<Longrightarrow> quoted_regexp env (tok_lexeme t) = Some re \<Longrightarrow> g_regex env recovery [t] re"

text \<open>What follows a key.\<close>

inductive g_clause :: "parser_env \<Rightarrow> bool \<Rightarrow> js_string \<Rightarrow> Token list \<Rightarrow> ContextKeyExpression \<Rightarrow> bool" for env recovery k where
  "g_clause env recovery k [] (DefinedExpr k None)"
| "tok_type op = T_RegexOp \<Longrightarrow> g_regex env recovery ts re \<Longrightarrow> g_clause env recovery k (op # ts) (RegexExpr k (Some re))"
| "tok_type nt = T_Not \<Longrightarrow> tok_type i = T_In \<Longrightarrow> g_value ts v q \<Longrightarrow> g_clause env recovery k (nt # i # ts) (NotInExpr k v)"
| "operator_atom (tok_type op) k v q = Some e \<Longrightarrow> g_value ts v q \<Longrightarrow> g_clause env recovery k (op # ts) e"

text \<open>Operands with an operator in front of each.\<close>

inductive g_rest :: "TokenType \<Rightarrow> (Token list \<Rightarrow> when_tree \<Rightarrow> bool) \<Rightarrow> Token list \<Rightarrow> when_tree list \<Rightarrow> bool" for op g where
  g_rest_Nil: "g_rest op g [] []"
| g_rest_Cons: "tok_type o1 = op \<Longrightarrow> g ts t \<Longrightarrow> g_rest op g us trees \<Longrightarrow> g_rest op g (o1 # ts @ us) (t # trees)"

lemma g_rest_mono [mono]: "(\<And>ts t. g ts t \<longrightarrow> h ts t) \<Longrightarrow> g_rest op g ts trees \<longrightarrow> g_rest op h ts trees"
proof
  assume *: "\<And>ts t. g ts t \<longrightarrow> h ts t"
  assume "g_rest op g ts trees"
  then show "g_rest op h ts trees"
    by (induction rule: g_rest.induct) (use * in \<open>auto intro: g_rest.intros\<close>)
qed

inductive g_or :: "parser_env \<Rightarrow> bool \<Rightarrow> Token list \<Rightarrow> when_tree \<Rightarrow> bool"
  and g_and :: "parser_env \<Rightarrow> bool \<Rightarrow> Token list \<Rightarrow> when_tree \<Rightarrow> bool"
  and g_term :: "parser_env \<Rightarrow> bool \<Rightarrow> Token list \<Rightarrow> when_tree \<Rightarrow> bool"
  and g_primary :: "parser_env \<Rightarrow> bool \<Rightarrow> Token list \<Rightarrow> when_tree \<Rightarrow> bool" for env recovery where
  g_or: "g_and env recovery ts t \<Longrightarrow> g_rest T_Or (g_and env recovery) us trees \<Longrightarrow> g_or env recovery (ts @ us) (Disj (t # trees))"
| g_and: "g_term env recovery ts t \<Longrightarrow> g_rest T_And (g_term env recovery) us trees \<Longrightarrow> g_and env recovery (ts @ us) (Conj (t # trees))"
| g_not_key: "tok_type n = T_Neg \<Longrightarrow> tok_type t = T_Str \<Longrightarrow> g_term env recovery [n, t] (Negation (Atom (DefinedExpr (tok_lexeme t) None)))"
| g_not_true: "tok_type n = T_Neg \<Longrightarrow> tok_type t = T_True \<Longrightarrow> g_term env recovery [n, t] (Negation (Atom TrueExpr))"
| g_not_false: "tok_type n = T_Neg \<Longrightarrow> tok_type t = T_False \<Longrightarrow> g_term env recovery [n, t] (Negation (Atom FalseExpr))"
| g_not_parens: "tok_type n = T_Neg \<Longrightarrow> tok_type l = T_LParen \<Longrightarrow> tok_type r = T_RParen \<Longrightarrow> g_or env recovery ts t \<Longrightarrow>
     g_term env recovery (n # l # ts @ [r]) (Negation t)"
| g_term: "g_primary env recovery ts t \<Longrightarrow> g_term env recovery ts t"
| g_true: "tok_type t = T_True \<Longrightarrow> g_primary env recovery [t] (Atom TrueExpr)"
| g_false: "tok_type t = T_False \<Longrightarrow> g_primary env recovery [t] (Atom FalseExpr)"
| g_parens: "tok_type l = T_LParen \<Longrightarrow> tok_type r = T_RParen \<Longrightarrow> g_or env recovery ts t \<Longrightarrow> g_primary env recovery (l # ts @ [r]) t"
| g_key: "tok_type t = T_Str \<Longrightarrow> g_clause env recovery (tok_lexeme t) ts e \<Longrightarrow> g_primary env recovery (t # ts) (Atom e)"

section \<open>Reading tokens\<close>

text \<open>The tokens that are left; the last one is the end of the input.\<close>

definition pending :: "Parser \<Rightarrow> Token list" where
  "pending p = drop (pa_current p) (pa_tokens p)"

definition eof_last :: "Token list \<Rightarrow> bool" where
  "eof_last ts \<longleftrightarrow> ts \<noteq> [] \<and> tok_type (last ts) = T_EOF \<and> list_all (\<lambda>t. tok_type t \<noteq> T_EOF) (butlast ts)"

definition consumes :: "Parser \<Rightarrow> Token list \<Rightarrow> Parser \<Rightarrow> bool" where
  "consumes p ts q \<longleftrightarrow> q = p\<lparr>pa_current := pa_current p + length ts\<rparr> \<and> pending p = ts @ pending q \<and> eof_last (pending q)"

lemma consumes_Nil [simp]: "eof_last (pending p) \<Longrightarrow> consumes p [] p"
  by (simp add: consumes_def)

lemma consumes_trans: "consumes p ts q \<Longrightarrow> consumes q us r \<Longrightarrow> consumes p (ts @ us) r"
  by (auto simp: consumes_def)

lemma consumes_Cons: "consumes p [t] q \<Longrightarrow> consumes q us r \<Longrightarrow> consumes p (t # us) r"
  using consumes_trans [of p "[t]" q us r] by simp

lemma eof_last_Cons: "eof_last (t # ts) \<longleftrightarrow> (if tok_type t = T_EOF then ts = [] else eof_last ts)"
  by (auto simp: eof_last_def)

lemma peek_pending: "eof_last (pending p) \<Longrightarrow> Parser_peek p = hd (pending p)"
  by (auto simp: eof_last_def Parser_peek_def pending_def hd_drop_conv_nth)

lemma consumes_advance:
  assumes "eof_last (pending p)" "tok_type (Parser_peek p) \<noteq> T_EOF"
  shows "consumes p [Parser_peek p] (Parser_advance p)"
proof -
  obtain t ts where t: "pending p = t # ts" using assms(1) by (cases "pending p") (auto simp: eof_last_def)
  then have "pending (Parser_advance p) = ts"
    using assms(2) by (simp add: Parser_advance_def Parser_isAtEnd_def pending_def drop_Suc flip: tl_drop)
  with t show ?thesis
    using assms peek_pending [OF assms(1)] by (auto simp: consumes_def eof_last_Cons Parser_advance_def Parser_isAtEnd_def)
qed

lemma consumes_fields:
  assumes "consumes p ts q"
  shows "pa_tokens q = pa_tokens p" "pa_parsingErrors q = pa_parsingErrors p" "eof_last (pending q)"
    "regexParsingWithErrorRecovery q = regexParsingWithErrorRecovery p" "length (pending p) = length ts + length (pending q)"
  using assms by (auto simp: consumes_def)

section \<open>What the parser returns\<close>

definition parses :: "constants \<Rightarrow> (Token list \<Rightarrow> when_tree \<Rightarrow> bool) \<Rightarrow> Parser \<Rightarrow> ContextKeyExpression option parsed \<Rightarrow> bool" where
  "parses cs g p r =
     (case r of
        ThrowsParseError q \<Rightarrow> pa_parsingErrors q \<noteq> []
      | Returned x q \<Rightarrow> \<exists>ts e t. x = Some e \<and> consumes p ts q \<and> g ts t \<and> means cs e t)"

lemma parses_Returned: "consumes p ts q \<Longrightarrow> g ts t \<Longrightarrow> means cs e t \<Longrightarrow> parses cs g p (Returned (Some e) q)"
  by (auto simp: parses_def)

definition settles_as :: "(nat \<Rightarrow> 'a option) \<Rightarrow> ('a \<Rightarrow> bool) \<Rightarrow> bool" where
  "settles_as f P \<longleftrightarrow> (\<exists>r. settles f r \<and> P r)"

lemma settles_as_const [simp]: "P r \<Longrightarrow> settles_as (\<lambda>n. Some r) P"
  unfolding settles_as_def by (rule exI [of _ r]) simp

lemma settles_as_throw [simp]:
  "settles_as (\<lambda>n. Parser_errExpectedButGot env expected got p) (parses cs g q)"
  by (simp add: Parser_errExpectedButGot_def parses_def push_parsingError_def)

lemma settles_as_mono: "settles_as f P \<Longrightarrow> (\<And>r. P r \<Longrightarrow> Q r) \<Longrightarrow> settles_as f Q"
  by (auto simp: settles_as_def)

lemma settles_as_andThen:
  assumes "settles_as m P" "\<And>x q. P (Returned x q) \<Longrightarrow> settles_as (\<lambda>n. f n x q) Q"
    "\<And>q. P (ThrowsParseError q) \<Longrightarrow> Q (ThrowsParseError q)"
  shows "settles_as (\<lambda>n. andThen (m n) (f n)) Q"
proof -
  obtain r where r: "settles m r" "P r" using assms(1) by (auto simp: settles_as_def)
  show ?thesis
  proof (cases r)
    case (Returned x q)
    then obtain r' where r': "settles (\<lambda>n. f n x q) r'" "Q r'" using assms(2) r(2) by (auto simp: settles_as_def)
    have "settles (\<lambda>n. andThen (m n) (f n)) r'"
      using settles_bind [where g = "\<lambda>n r. andThen (Some r) (f n)", OF r(1)] r'(1)
      by (simp add: Returned andThen_def cong: option.case_cong)
    with r'(2) show ?thesis by (auto simp: settles_as_def)
  next
    case (ThrowsParseError q)
    have "settles (\<lambda>n. andThen (m n) (f n)) (ThrowsParseError q)"
      using settles_bind [where g = "\<lambda>n r. andThen (Some r) (f n)" and r = "ThrowsParseError q", OF r(1)]
      by (simp add: ThrowsParseError andThen_def cong: option.case_cong)
    with assms(3) r(2) ThrowsParseError show ?thesis by (auto simp: settles_as_def)
  qed
qed

lemma settles_as_map: "settles_as f P \<Longrightarrow> (\<And>x. P x \<Longrightarrow> Q (h x)) \<Longrightarrow> settles_as (\<lambda>n. map_option h (f n)) Q"
  unfolding settles_as_def settles_def by (metis option.map(2))

subsection \<open>Atoms\<close>

lemmas atom_defs = means_def ContextKeyExpr_has_def ContextKeyExpr_not_def ContextKeyExpr_equals_def ContextKeyExpr_notEquals_def
  ContextKeyExpr_regex_def ContextKeyExpr_in_def ContextKeyExpr_notIn_def create_defs agrees_def leaf_evaluate_defs

lemma means_has: "means cs (ContextKeyExpr_has cs k) (Atom (DefinedExpr k None))"
  by (auto simp: atom_defs split: option.splits)

lemma means_not: "means cs (ContextKeyNotExpr_create cs k None) (Negation (Atom (DefinedExpr k None)))"
  by (auto simp: atom_defs split: option.splits)

lemma means_hasnt: "means cs (ContextKeyExpr_not cs k) (Atom (NotExpr k None))"
  by (auto simp: atom_defs split: option.splits)

lemma means_equals: "means cs (ContextKeyExpr_equals cs k (PStr v)) (Atom (EqualsExpr k (PStr v) None))"
  by (auto simp: atom_defs split: option.splits)

lemma means_notEquals: "means cs (ContextKeyExpr_notEquals cs k (PStr v)) (Atom (NotEqualsExpr k (PStr v) None))"
  by (auto simp: atom_defs split: option.splits)

lemma withFloatOrStr_PStr: "withFloatOrStr (PStr v) callback = callback (numeric_value v)"
  by (simp add: withFloatOrStr_def numeric_value_def Let_def)

lemma means_leaf: "wf_expr e \<Longrightarrow> means cs e (Atom e)"
  by (simp add: means_def)

lemma means_constants:
  "means cs FalseExpr (Negation (Atom TrueExpr))" "means cs TrueExpr (Negation (Atom FalseExpr))"
  by (simp_all add: means_def leaf_evaluate_defs)

lemma means_negation:
  assumes "means cs e t"
  shows "settles_as (\<lambda>n. ck_negate n cs e) (\<lambda>r. means cs r (Negation t))"
  using assms negate_exact [of e cs] unfolding means_def settles_as_def by fastforce

lemma means_singleton: "means cs e (Conj [t]) \<longleftrightarrow> means cs e t" "means cs e (Disj [t]) \<longleftrightarrow> means cs e t"
  by (simp_all add: means_def)

lemma list_all2_means:
  assumes "list_all2 (means cs) es ts" "list_all (sane lib ctx cs fl) (concat (map tree_atoms ts))"
  shows "list_all (sane lib ctx cs fl) es \<and> list_all (ck_evaluate lib ctx) es = list_all (tree_evaluate lib ctx) ts \<and>
    list_ex (ck_evaluate lib ctx) es = list_ex (tree_evaluate lib ctx) ts"
  using assms by (induction rule: list_all2_induct) (auto simp: means_def)

lemma list_all2_means_wf: "list_all2 (means cs) es ts \<Longrightarrow> list_all wf_expr es"
  by (induction rule: list_all2_induct) (auto simp: means_def)

lemma means_list:
  assumes "list_all2 (means cs) es ts" "wf_expr e"
  shows "\<forall>lib ctx fl. list_all (sane lib ctx cs fl) es \<longrightarrow>
      sane lib ctx cs fl e \<and> ck_evaluate lib ctx e = list_all (ck_evaluate lib ctx) es \<Longrightarrow> means cs e (Conj ts)"
    and "\<forall>lib ctx fl. list_all (sane lib ctx cs fl) es \<longrightarrow>
      sane lib ctx cs fl e \<and> ck_evaluate lib ctx e = list_ex (ck_evaluate lib ctx) es \<Longrightarrow> means cs e (Disj ts)"
  unfolding means_def tree_atoms.simps tree_evaluate.simps using assms(2) list_all2_means [OF assms(1)] by metis+

lemma means_conj:
  assumes "list_all2 (means cs) es ts" "es \<noteq> []"
  shows "settles_as (\<lambda>n. ContextKeyExpr_and n cs (map Some es)) (\<lambda>x. \<exists>e. x = Some e \<and> means cs e (Conj ts))"
proof -
  obtain x where x: "settles (\<lambda>n. ContextKeyAndExpr_create n cs (map Some es) None True) x"
    and "case x of None \<Rightarrow> es = [] | Some r \<Rightarrow> es \<noteq> [] \<and> wf_expr r \<and>
         (\<forall>lib ctx fl. list_all (sane lib ctx cs fl) es \<longrightarrow>
            sane lib ctx cs fl r \<and> ck_evaluate lib ctx r = list_all (ck_evaluate lib ctx) es)"
    using and_create_exact [of "map Some es" cs True, unfolded defined_elements_map_Some, OF list_all2_means_wf [OF assms(1)]]
    by (elim exE conjE)
  with assms means_list(1) show ?thesis
    unfolding settles_as_def by (intro exI [of _ x]) (auto simp: ContextKeyExpr_and_def split: option.splits)
qed

lemma means_disj:
  assumes "list_all2 (means cs) es ts" "es \<noteq> []"
  shows "settles_as (\<lambda>n. ContextKeyExpr_or n cs (map Some es)) (\<lambda>x. \<exists>e. x = Some e \<and> means cs e (Disj ts))"
proof -
  obtain x where x: "settles (\<lambda>n. ContextKeyOrExpr_create n cs (map Some es) None True) x"
    and "case x of None \<Rightarrow> es = [] | Some r \<Rightarrow> es \<noteq> [] \<and> wf_expr r \<and>
         (\<forall>lib ctx fl. list_all (sane lib ctx cs fl) es \<longrightarrow>
            sane lib ctx cs fl r \<and> ck_evaluate lib ctx r = list_ex (ck_evaluate lib ctx) es)"
    using or_create_exact [of "map Some es" None cs True, unfolded defined_elements_map_Some, OF list_all2_means_wf [OF assms(1)]]
    by (auto cong: option.case_cong)
  with assms means_list(2) show ?thesis
    unfolding settles_as_def by (intro exI [of _ x]) (auto simp: ContextKeyExpr_or_def split: option.splits)
qed

subsection \<open>Clauses\<close>

lemma Parser_matchOne_True:
  assumes "Parser_matchOne t p = (True, q)" "eof_last (pending p)" "t \<noteq> T_EOF"
  shows "tok_type (Parser_peek p) = t" "consumes p [Parser_peek p] q"
  using assms consumes_advance [of p] by (auto simp: Parser_matchOne_def Parser_check_def split: if_splits)

lemma Parser_matchOne_False: "Parser_matchOne t p = (False, q) \<Longrightarrow> q = p \<and> tok_type (Parser_peek p) \<noteq> t"
  by (auto simp: Parser_matchOne_def Parser_check_def split: if_splits)

lemma previous_consumed:
  assumes "consumes p ts q" "ts \<noteq> []"
  shows "Parser_previous q = Some (last ts)"
proof -
  have p: "drop (pa_current p) (pa_tokens p) = ts @ pending q" using assms(1) by (simp add: consumes_def pending_def)
  have "pa_tokens p ! (pa_current p + (length ts - 1)) = (ts @ pending q) ! (length ts - 1)"
    using assms p by (metis add_diff_cancel_right' append_is_Nil_conv drop_eq_Nil linorder_le_cases nth_drop)
  moreover have "pa_current p + length ts - 1 = pa_current p + (length ts - 1)" using assms(2) by (cases ts) simp_all
  ultimately show ?thesis
    using assms by (auto simp: consumes_def Parser_previous_def nth_append last_conv_nth)
qed

lemma Parser_value_consumes:
  assumes "eof_last (pending p)" "Parser_value p = (v, q)"
  shows "\<exists>ts b. consumes p ts q \<and> g_value ts v b \<and> b = (ts \<noteq> [] \<and> tok_type (last ts) = T_QuotedStr)"
proof (cases "tok_type (Parser_peek p) \<in> {T_Str, T_QuotedStr, T_True, T_False, T_In}")
  case True
  then have q: "q = Parser_advance p" "g_value [Parser_peek p] v (tok_type (Parser_peek p) = T_QuotedStr)"
    using assms(2) g_value.intros(1-5) [of "Parser_peek p"] by (auto simp: Parser_value_def Let_def)
  moreover have "consumes p [Parser_peek p] q" using True assms(1) q by (auto intro: consumes_advance)
  ultimately show ?thesis by (intro exI [of _ "[Parser_peek p]"]) auto
next
  case False
  then have "q = p" "v = []"
    using assms(2) by (auto simp: Parser_value_def Let_def split: TokenType.splits)
  with assms(1) show ?thesis by (intro exI [of _ "[]"]) (auto intro: g_value.intros)
qed

text \<open>An operator and its value.\<close>

lemma operator_value:
  assumes "eof_last (pending p)" "tok_type (Parser_peek p) \<notin> {T_EOF, T_QuotedStr}" "Parser_value (Parser_advance p) = (v, q)"
  shows "\<exists>ts b. consumes p (Parser_peek p # ts) q \<and> g_value ts v b \<and>
    b = (map_option tok_type (Parser_previous q) = Some T_QuotedStr)"
proof -
  have a: "consumes p [Parser_peek p] (Parser_advance p)" using assms by (auto intro: consumes_advance)
  obtain ts b where ts: "consumes (Parser_advance p) ts q" "g_value ts v b" "b = (ts \<noteq> [] \<and> tok_type (last ts) = T_QuotedStr)"
    using Parser_value_consumes [OF consumes_fields(3) [OF a] assms(3)] by blast
  have c: "consumes p (Parser_peek p # ts) q" by (rule consumes_Cons [OF a ts(1)])
  then have "Parser_previous q = Some (last (Parser_peek p # ts))" by (rule previous_consumed) simp
  with c ts assms(2) show ?thesis by auto
qed

definition clause_tree :: "parser_env \<Rightarrow> bool \<Rightarrow> js_string \<Rightarrow> Token list \<Rightarrow> when_tree \<Rightarrow> bool" where
  "clause_tree env recovery k ts t \<longleftrightarrow> (\<exists>e. t = Atom e \<and> g_clause env recovery k ts e)"

lemma operator_clause:
  assumes "eof_last (pending p)" "tok_type (Parser_peek p) \<notin> {T_EOF, T_QuotedStr}" "Parser_value (Parser_advance p) = (v, q)"
    "\<And>b. b = (map_option tok_type (Parser_previous q) = Some T_QuotedStr) \<Longrightarrow>
       \<exists>a. operator_atom (tok_type (Parser_peek p)) k v b = Some a \<and> means cs e (Atom a)"
  shows "parses cs (clause_tree env recovery k) p (Returned (Some e) q)"
proof -
  obtain ts b where ts: "consumes p (Parser_peek p # ts) q" "g_value ts v b"
    "b = (map_option tok_type (Parser_previous q) = Some T_QuotedStr)"
    using operator_value [OF assms(1-3)] by blast
  obtain a where a: "operator_atom (tok_type (Parser_peek p)) k v b = Some a" "means cs e (Atom a)" using assms(4) [OF ts(3)] by blast
  have "g_clause env recovery k (Parser_peek p # ts) a" using g_clause.intros(4) [OF a(1) ts(2)] .
  with ts(1) a(2) show ?thesis by (auto simp: clause_tree_def intro!: parses_Returned)
qed

lemma with_value_clause:
  assumes "eof_last (pending p)" "tok_type (Parser_peek p) \<notin> {T_EOF, T_QuotedStr}"
    "\<And>v b. \<exists>a. operator_atom (tok_type (Parser_peek p)) k v b = Some a \<and> means cs (create v) (Atom a)"
  shows "settles_as (\<lambda>n. with_value create p) (parses cs (clause_tree env recovery k) p)"
proof -
  obtain v q where v: "Parser_value (Parser_advance p) = (v, q)" by fastforce
  have "parses cs (clause_tree env recovery k) p (Returned (Some (create v)) q)"
    by (rule operator_clause [OF assms(1,2) v]) (rule assms(3))
  then show ?thesis by (simp add: with_value_def v)
qed

lemma equality_clauses:
  assumes "eof_last (pending p)"
  shows "tok_type (Parser_peek p) = T_Eq \<Longrightarrow> settles_as (\<lambda>n. Parser_equality cs k p) (parses cs (clause_tree env recovery k) p)"
    and "tok_type (Parser_peek p) = T_NotEq \<Longrightarrow> settles_as (\<lambda>n. Parser_inequality cs k p) (parses cs (clause_tree env recovery k) p)"
proof -
  obtain v q where v: "Parser_value (Parser_advance p) = (v, q)" by fastforce
  show "settles_as (\<lambda>n. Parser_equality cs k p) (parses cs (clause_tree env recovery k) p)" if "tok_type (Parser_peek p) = T_Eq"
    unfolding Parser_equality_def v prod.case
    by (intro settles_as_const operator_clause [OF assms _ v])
      (auto simp: that equality_atom_def intro: means_has means_hasnt means_equals)
  show "settles_as (\<lambda>n. Parser_inequality cs k p) (parses cs (clause_tree env recovery k) p)" if "tok_type (Parser_peek p) = T_NotEq"
    unfolding Parser_inequality_def v prod.case
    by (intro settles_as_const operator_clause [OF assms _ v])
      (auto simp: that inequality_atom_def intro: means_has means_hasnt means_notEquals)
qed

lemma recover_loop_take:
  "\<exists>us vs. ts = us @ vs \<and> recover_loop l b ts = map Scanner_getLexeme us \<and> list_all (\<lambda>t. tok_type t \<notin> {T_EOF, T_And, T_Or}) us"
proof (induction l b ts rule: recover_loop.induct)
  case (2 l b t ts)
  show ?case
  proof (cases "recover_loop l b (t # ts) = []")
    case False
    then obtain b2 us vs where "recover_loop l b (t # ts) = Scanner_getLexeme t # recover_loop l b2 ts" "tok_type t \<notin> {T_EOF, T_And, T_Or}"
      "ts = us @ vs" "recover_loop l b2 ts = map Scanner_getLexeme us" "list_all (\<lambda>t. tok_type t \<notin> {T_EOF, T_And, T_Or}) us"
      using 2 by (auto simp: Let_def split: if_splits)
    then show ?thesis by (intro exI [of _ "t # us"] exI [of _ vs]) simp
  qed auto
qed simp

lemma consumes_run:
  assumes "eof_last (pending p)" "pending p = us @ vs" "list_all (\<lambda>t. tok_type t \<notin> {T_EOF, T_And, T_Or}) us"
  shows "consumes p us (p\<lparr>pa_current := pa_current p + length us\<rparr>)"
proof -
  have "pending (p\<lparr>pa_current := pa_current p + length us\<rparr>) = vs"
    using arg_cong [OF assms(2), of "drop (length us)"] by (simp add: pending_def add.commute)
  moreover have "eof_last vs"
    using assms unfolding eof_last_def by (cases "vs = []") (auto simp: list_all_iff butlast_append dest: last_in_set)
  ultimately show ?thesis using assms(2) by (simp add: consumes_def)
qed

lemma regex_recovering_clause:
  assumes "eof_last (pending p)"
  shows "settles_as (\<lambda>n. Parser_regex_recovering env k p)
    (parses cs (\<lambda>ts t. \<exists>re. t = Atom (RegexExpr k (Some re)) \<and> g_regex env True ts re) p)"
proof -
  let ?t = "Parser_peek p" and ?P = "parses cs (\<lambda>ts t. \<exists>re. t = Atom (RegexExpr k (Some re)) \<and> g_regex env True ts re) p"
  have m: "means cs (RegexExpr k (Some re)) (Atom (RegexExpr k (Some re)))" for re by (rule means_leaf) simp
  consider "tok_type ?t \<in> {T_RegexStr, T_Error}" | "tok_type ?t = T_QuotedStr" | "tok_type ?t \<notin> {T_RegexStr, T_Error, T_QuotedStr}" by blast
  then show ?thesis
  proof cases
    case 1
    then have a: "consumes p [?t] (Parser_advance p)" using assms by (auto intro: consumes_advance)
    define taken where "taken = recover_loop (tok_lexeme ?t) (paren_balance (tok_lexeme ?t)) (pending (Parser_advance p))"
    define q where "q = (Parser_advance p)\<lparr>pa_current := pa_current (Parser_advance p) + length taken\<rparr>"
    obtain ts vs where ts: "pending (Parser_advance p) = ts @ vs" "taken = map Scanner_getLexeme ts"
      "list_all (\<lambda>t. tok_type t \<notin> {T_EOF, T_And, T_Or}) ts"
      using recover_loop_take unfolding taken_def by blast
    then have "consumes (Parser_advance p) ts q"
      using consumes_run [OF consumes_fields(3) [OF a]] by (simp add: q_def)
    from consumes_Cons [OF a this] have c: "consumes p (?t # ts) q" .
    have P: "?P (Returned (Some (RegexExpr k (Some re))) q)" if "regexp_of_lexeme env (concat (tok_lexeme ?t # taken)) = Some re" for re
      using that g_regex.intros(2) [of True ?t ts env re] 1 ts by (intro parses_Returned [OF c _ m]) auto
    have "Parser_regex_recovering env k p =
        (case regexp_of_lexeme env (concat (tok_lexeme ?t # taken)) of
           None \<Rightarrow> Parser_errExpectedButGot env (lit ''REGEX'') ?t q
         | Some re \<Rightarrow> Some (Returned (Some (RegexExpr k (Some re))) q))"
      using 1 by (simp add: Parser_regex_recovering_def Let_def taken_def q_def pending_def ContextKeyExpr_regex_def ContextKeyRegexExpr_create_def
          split: option.split)
    then show ?thesis using P by (simp split: option.split)
  next
    case 2
    then have c: "consumes p [?t] (Parser_advance p)" using assms by (auto intro: consumes_advance)
    have "?P (Returned (Some (RegexExpr k (Some re))) (Parser_advance p))" if "quoted_regexp env (tok_lexeme ?t) = Some re" for re
      using that g_regex.intros(3) [of True ?t env re] 2 by (intro parses_Returned [OF c _ m]) auto
    with 2 show ?thesis by (simp add: Parser_regex_recovering_def Let_def ContextKeyRegexExpr_create_def split: option.split)
  next
    case 3
    then show ?thesis by (simp add: Parser_regex_recovering_def Let_def)
  qed
qed

lemma regex_strict_clause:
  assumes "eof_last (pending p)"
  shows "settles_as (\<lambda>n. Parser_regex_strict env k p)
    (parses cs (\<lambda>ts t. \<exists>re. t = Atom (RegexExpr k (Some re)) \<and> g_regex env recovery ts re) p)"
proof (cases "tok_type (Parser_peek p) = T_RegexStr")
  case True
  let ?t = "Parser_peek p"
  have c: "consumes p [?t] (Parser_advance p)" using assms True by (auto intro: consumes_advance)
  have "parses cs (\<lambda>ts t. \<exists>re. t = Atom (RegexExpr k (Some re)) \<and> g_regex env recovery ts re) p
      (Returned (Some (RegexExpr k (Some re))) (Parser_advance p))" if "regexp_of_lexeme env (tok_lexeme ?t) = Some re" for re
    using that g_regex.intros(1) [of ?t env re recovery] True by (intro parses_Returned [OF c _ means_leaf]) auto
  with True show ?thesis by (simp add: Parser_regex_strict_def Let_def ContextKeyRegexExpr_create_def split: option.split)
qed (simp add: Parser_regex_strict_def Let_def)

lemma parses_lift:
  assumes "parses cs g q r" "consumes p ts q" "\<And>us t. g us t \<Longrightarrow> h (ts @ us) t"
  shows "parses cs h p r"
  using assms consumes_trans [OF assms(2)] by (fastforce simp: parses_def split: parsed.splits)

lemma key_clause_parses:
  assumes "eof_last (pending p)"
  shows "settles_as (\<lambda>n. Parser_key_clause env cs k p) (parses cs (clause_tree env (regexParsingWithErrorRecovery p) k) p)"
proof -
  let ?P = "parses cs (clause_tree env (regexParsingWithErrorRecovery p) k) p" and ?t = "Parser_peek p"
  obtain b1 q1 where m1: "Parser_matchOne T_RegexOp p = (b1, q1)" by fastforce
  obtain b2 q2 where m2: "Parser_matchOne T_Not p = (b2, q2)" by fastforce
  consider (regex) b1 | (notin) "\<not> b1" "q1 = p" b2 | (other) "\<not> b1" "q1 = p" "\<not> b2" "q2 = p"
    using Parser_matchOne_False m1 m2 by (cases b1; cases b2) auto
  then show ?thesis
  proof cases
    case regex
    then have c: "tok_type ?t = T_RegexOp" "consumes p [?t] q1"
      using Parser_matchOne_True [of T_RegexOp p q1] m1 assms by auto
    let ?Q = "parses cs (\<lambda>ts t. \<exists>re. t = Atom (RegexExpr k (Some re)) \<and> g_regex env (regexParsingWithErrorRecovery p) ts re) q1"
    have Q: "?P r" if "?Q r" for r
      using that c(2) by (rule parses_lift) (auto simp: clause_tree_def intro!: g_clause.intros(2) c(1))
    have "settles_as (\<lambda>n. Parser_key_clause env cs k p) ?Q"
      using regex regex_strict_clause [OF consumes_fields(3) [OF c(2)], of env k cs] regex_recovering_clause [OF consumes_fields(3) [OF c(2)], of env k cs]
        consumes_fields(4) [OF c(2)]
      by (cases "regexParsingWithErrorRecovery p") (auto simp: Parser_key_clause_def m1)
    then show ?thesis using Q by (rule settles_as_mono)
  next
    case notin
    then have c: "tok_type ?t = T_Not" "consumes p [?t] q2"
      using Parser_matchOne_True [of T_Not p q2] m2 assms by auto
    show ?thesis
    proof (cases "tok_type (Parser_peek q2) = T_In")
      case True
      then have a: "consumes q2 [Parser_peek q2] (Parser_advance q2)" using consumes_fields(3) [OF c(2)] by (auto intro: consumes_advance)
      obtain v q3 where v: "Parser_value (Parser_advance q2) = (v, q3)" by fastforce
      obtain ts b where ts: "consumes (Parser_advance q2) ts q3" "g_value ts v b"
        using Parser_value_consumes [OF consumes_fields(3) [OF a] v] by blast
      have "consumes p (?t # Parser_peek q2 # ts) q3" by (rule consumes_Cons [OF c(2) consumes_Cons [OF a ts(1)]])
      then have "?P (Returned (Some (NotInExpr k v)) q3)"
        by (rule parses_Returned) (auto simp: clause_tree_def intro: means_leaf g_clause.intros(3) [OF c(1) True ts(2)])
      then show ?thesis
        using notin True m1 m2 v
        by (simp add: Parser_key_clause_def andThen_def Parser_consume_def Parser_check_def ContextKeyExpr_notIn_def ContextKeyNotInExpr_create_def)
    next
      case False
      then show ?thesis
        using notin m1 m2
        by (simp add: Parser_key_clause_def andThen_def Parser_consume_def Parser_check_def Parser_errExpectedButGot_def parses_def push_parsingError_def)
    qed
  next
    case other
    let ?op = "tok_type ?t"
    have e: "Parser_key_clause env cs k p =
      (case ?op of
          T_Eq \<Rightarrow> Parser_equality cs k p
        | T_NotEq \<Rightarrow> Parser_inequality cs k p
        | T_Lt \<Rightarrow> with_value (\<lambda>v. ContextKeySmallerExpr_create k (PStr v) None) p
        | T_LtEq \<Rightarrow> with_value (\<lambda>v. ContextKeySmallerEqualsExpr_create k (PStr v) None) p
        | T_Gt \<Rightarrow> with_value (\<lambda>v. ContextKeyGreaterExpr_create k (PStr v) None) p
        | T_GtEq \<Rightarrow> with_value (\<lambda>v. ContextKeyGreaterEqualsExpr_create k (PStr v) None) p
        | T_In \<Rightarrow> with_value (\<lambda>v. ContextKeyExpr_in k v) p
        | _ \<Rightarrow> Some (Returned (Some (ContextKeyExpr_has cs k)) p))"
      using other by (simp add: Parser_key_clause_def m1 m2)
    have has: "settles_as (\<lambda>n. Some (Returned (Some (ContextKeyExpr_has cs k)) p)) ?P"
      by (intro settles_as_const parses_Returned [OF consumes_Nil [OF assms] _ means_has])
        (simp add: clause_tree_def g_clause.intros(1))
    have wv: "settles_as (\<lambda>n. with_value create p) ?P"
      if "?op \<in> {T_Lt, T_LtEq, T_Gt, T_GtEq, T_In}" "\<And>v b. operator_atom ?op k v b = Some (create v)" "\<And>v. wf_expr (create v)" for create
      using that by (intro with_value_clause [OF assms]) (auto intro: means_leaf)
    show ?thesis
      unfolding e using has equality_clauses [OF assms]
      by (cases ?op) (auto simp: ContextKeySmallerExpr_create_def ContextKeySmallerEqualsExpr_create_def ContextKeyGreaterExpr_create_def
          ContextKeyGreaterEqualsExpr_create_def ContextKeyExpr_in_def ContextKeyInExpr_create_def withFloatOrStr_PStr intro!: wv)
  qed
qed

subsection \<open>Expressions\<close>

text \<open>What is known of \<^verbatim>\<open>_expr\<close> when fewer tokens are left.\<close>

definition parses_shorter :: "parser_env \<Rightarrow> constants \<Rightarrow> (nat \<Rightarrow> Parser \<Rightarrow> ContextKeyExpression option parsed option) \<Rightarrow> bool \<Rightarrow> nat \<Rightarrow> bool" where
  "parses_shorter env cs expr recovery k \<longleftrightarrow>
     (\<forall>p. eof_last (pending p) \<longrightarrow> length (pending p) < k \<longrightarrow> regexParsingWithErrorRecovery p = recovery \<longrightarrow>
        settles_as (\<lambda>n. expr n p) (parses cs (g_or env recovery) p))"

lemma parses_throw: "parses cs g p (ThrowsParseError q) \<Longrightarrow> parses cs h p2 (ThrowsParseError q)"
  by (simp add: parses_def)

lemma parens_parse:
  assumes expr: "parses_shorter env cs expr (regexParsingWithErrorRecovery p) (length (pending p))"
    and c: "consumes p ts q" "ts \<noteq> []"
    and f: "\<And>e t us r s. consumes p (ts @ us @ [r]) s \<Longrightarrow> g_or env (regexParsingWithErrorRecovery p) us t \<Longrightarrow> tok_type r = T_RParen \<Longrightarrow>
        means cs e t \<Longrightarrow> settles_as (\<lambda>n. f n (Some e) s) (parses cs g p)"
  shows "settles_as (\<lambda>n. andThen (expr n q) (\<lambda>e p1. andThen (Parser_consume env T_RParen msg p1) (\<lambda>u p2. f n e p2))) (parses cs g p)"
proof (rule settles_as_andThen [where f = "\<lambda>n e p1. andThen (Parser_consume env T_RParen msg p1) (\<lambda>u p2. f n e p2)"])
  have "length (pending q) < length (pending p)" using consumes_fields(5) [OF c(1)] c(2) by simp
  with expr show "settles_as (\<lambda>n. expr n q) (parses cs (g_or env (regexParsingWithErrorRecovery p)) q)"
    using consumes_fields(3,4) [OF c(1)] by (auto simp: parses_shorter_def)
next
  fix x s
  assume "parses cs (g_or env (regexParsingWithErrorRecovery p)) q (Returned x s)"
  then obtain us e t where e: "x = Some e" "consumes q us s" "g_or env (regexParsingWithErrorRecovery p) us t" "means cs e t"
    by (auto simp: parses_def)
  show "settles_as (\<lambda>n. andThen (Parser_consume env T_RParen msg s) (\<lambda>u. f n x)) (parses cs g p)"
  proof (cases "tok_type (Parser_peek s) = T_RParen")
    case True
    then have "consumes s [Parser_peek s] (Parser_advance s)" using consumes_fields(3) [OF e(2)] by (auto intro: consumes_advance)
    then have "consumes p (ts @ us @ [Parser_peek s]) (Parser_advance s)"
      using consumes_trans [OF c(1) consumes_trans [OF e(2)]] by simp
    from f [OF this e(3) True e(4)] True show ?thesis by (simp add: e(1) Parser_consume_def Parser_check_def andThen_def)
  next
    case False
    then show ?thesis
      by (simp add: Parser_consume_def Parser_check_def andThen_def Parser_errExpectedButGot_def parses_def push_parsingError_def)
  qed
qed (rule parses_throw)

lemma primary_parses:
  assumes expr: "parses_shorter env cs expr (regexParsingWithErrorRecovery p) (length (pending p))" and eof: "eof_last (pending p)"
  shows "settles_as (\<lambda>n. Parser_primary (expr n) env cs p) (parses cs (g_primary env (regexParsingWithErrorRecovery p)) p)"
proof -
  let ?t = "Parser_peek p" and ?P = "parses cs (g_primary env (regexParsingWithErrorRecovery p)) p"
  have a: "consumes p [?t] (Parser_advance p)" if "tok_type ?t \<noteq> T_EOF" using that eof by (intro consumes_advance)
  consider "tok_type ?t = T_True" | "tok_type ?t = T_False" | "tok_type ?t = T_LParen" | "tok_type ?t = T_Str" | "tok_type ?t = T_EOF"
    | "tok_type ?t \<notin> {T_True, T_False, T_LParen, T_Str, T_EOF}" by blast
  then show ?thesis
  proof cases
    case 1
    then have "?P (Returned (Some TrueExpr) (Parser_advance p))" by (intro parses_Returned [OF a]) (auto intro: g_true means_leaf)
    with 1 show ?thesis by (simp add: Parser_primary_def)
  next
    case 2
    then have "?P (Returned (Some FalseExpr) (Parser_advance p))" by (intro parses_Returned [OF a]) (auto intro: g_false means_leaf)
    with 2 show ?thesis by (simp add: Parser_primary_def)
  next
    case 3
    have "settles_as (\<lambda>n. andThen (expr n (Parser_advance p)) (\<lambda>e p1.
        andThen (Parser_consume env T_RParen (errorClosingParenthesis env) p1) (\<lambda>u p2. Some (Returned e p2)))) ?P"
      by (rule parens_parse [where f = "\<lambda>n e p2. Some (Returned e p2)", OF expr a])
        (use 3 in \<open>auto intro!: settles_as_const parses_Returned intro: g_parens\<close>)
    with 3 show ?thesis by (simp add: Parser_primary_def)
  next
    case 4
    then have c: "consumes p [?t] (Parser_advance p)" using a by simp
    have "settles_as (\<lambda>n. Parser_key_clause env cs (tok_lexeme ?t) (Parser_advance p)) ?P"
      using key_clause_parses [OF consumes_fields(3) [OF c]]
      by (rule settles_as_mono) (erule parses_lift [OF _ c], use 4 consumes_fields(4) [OF c] in \<open>auto simp: clause_tree_def intro: g_key\<close>)
    with 4 show ?thesis by (simp add: Parser_primary_def)
  next
    case 5
    then show ?thesis by (simp add: Parser_primary_def parses_def push_parsingError_def)
  next
    case 6
    then have "Parser_primary (expr n) env cs p = Parser_errExpectedButGot env expected_primary ?t p" for n
      by (cases "tok_type ?t") (simp_all add: Parser_primary_def)
    then show ?thesis by simp
  qed
qed

lemma term_parses:
  assumes expr: "parses_shorter env cs expr (regexParsingWithErrorRecovery p) (length (pending p))" and eof: "eof_last (pending p)"
  shows "settles_as (\<lambda>n. Parser_term n (expr n) env cs p) (parses cs (g_term env (regexParsingWithErrorRecovery p)) p)"
proof -
  let ?n = "Parser_peek p" and ?P = "parses cs (g_term env (regexParsingWithErrorRecovery p)) p"
  obtain b q where m: "Parser_matchOne T_Neg p = (b, q)" by fastforce
  let ?t = "Parser_peek q"
  show ?thesis
  proof (cases b)
    case False
    then have "Parser_term n (expr n) env cs p = Parser_primary (expr n) env cs p" for n
      using Parser_matchOne_False [of T_Neg p q] m by (simp add: Parser_term_def)
    moreover have "settles_as (\<lambda>n. Parser_primary (expr n) env cs p) ?P"
      using primary_parses [OF assms] by (rule settles_as_mono) (auto simp: parses_def split: parsed.splits intro: g_term)
    ultimately show ?thesis by simp
  next
    case True
    then have c: "tok_type ?n = T_Neg" "consumes p [?n] q" using Parser_matchOne_True [of T_Neg p q] m eof by auto
    have a: "consumes p [?n, ?t] (Parser_advance q)" if "tok_type ?t \<noteq> T_EOF"
      using consumes_Cons [OF c(2) consumes_advance [OF consumes_fields(3) [OF c(2)] that]] .
    consider "tok_type ?t = T_True" | "tok_type ?t = T_False" | "tok_type ?t = T_LParen" | "tok_type ?t = T_Str"
      | "tok_type ?t \<notin> {T_True, T_False, T_LParen, T_Str}" by blast
    then show ?thesis
    proof cases
      case 1
      then have "?P (Returned (Some FalseExpr) (Parser_advance q))"
        by (intro parses_Returned [OF a]) (auto intro: g_not_true c means_constants)
      with 1 True m show ?thesis by (simp add: Parser_term_def)
    next
      case 2
      then have "?P (Returned (Some TrueExpr) (Parser_advance q))"
        by (intro parses_Returned [OF a]) (auto intro: g_not_false c means_constants)
      with 2 True m show ?thesis by (simp add: Parser_term_def)
    next
      case 3
      let ?f = "\<lambda>n e p2. case e of None \<Rightarrow> Some (Returned None p2)
                      | Some e1 \<Rightarrow> map_option (\<lambda>r. Returned (Some r) p2) (ck_negate n cs e1)"
      have "settles_as (\<lambda>n. andThen (expr n (Parser_advance q)) (\<lambda>e p1.
          andThen (Parser_consume env T_RParen (errorClosingParenthesis env) p1) (\<lambda>u p2. ?f n e p2))) ?P"
      proof (rule parens_parse [where f = ?f, OF expr a])
        fix e t us r s
        assume s: "consumes p ([?n, ?t] @ us @ [r]) s" "g_or env (regexParsingWithErrorRecovery p) us t" "tok_type r = T_RParen" "means cs e t"
        have "settles_as (\<lambda>n. map_option (\<lambda>r. Returned (Some r) s) (ck_negate n cs e)) ?P"
          using means_negation [OF s(4)]
          by (rule settles_as_map) (use parses_Returned [OF s(1)] g_not_parens [OF c(1) 3 s(3,2)] in auto)
        then show "settles_as (\<lambda>n. ?f n (Some e) s) ?P" by simp
      qed (use 3 in auto)
      with 3 True m show ?thesis by (simp add: Parser_term_def)
    next
      case 4
      then have "?P (Returned (Some (ContextKeyNotExpr_create cs (tok_lexeme ?t) None)) (Parser_advance q))"
        by (intro parses_Returned [OF a _ means_not]) (auto intro: g_not_key c)
      with 4 True m show ?thesis by (simp add: Parser_term_def)
    next
      case 5
      then have "Parser_term n (expr n) env cs p = Parser_errExpectedButGot env expected_term ?t q" for n
        using True m by (cases "tok_type ?t") (simp_all add: Parser_term_def)
      then show ?thesis by simp
    qed
  qed
qed

text \<open>A loop over operands, for bounds of the loop and of the operands that grow apart.\<close>

lemma settles_as_shift: "settles_as (\<lambda>n. f (Suc n)) P \<Longrightarrow> settles_as f P"
  unfolding settles_as_def by (elim exE conjE, rule exI, rule conjI, rule settles_Suc)

definition settles2 :: "(nat \<Rightarrow> nat \<Rightarrow> 'a option) \<Rightarrow> ('a \<Rightarrow> bool) \<Rightarrow> bool" where
  "settles2 f P \<longleftrightarrow> (\<exists>r N. P r \<and> (\<forall>k \<ge> N. \<forall>n \<ge> N. f k n = Some r))"

lemma settles2_diagonal: "settles2 f P \<Longrightarrow> settles_as (\<lambda>n. f n n) P"
  unfolding settles2_def settles_as_def settles_def by blast

lemma settles2_Suc:
  assumes "settles2 (\<lambda>k. f (Suc k)) P"
  shows "settles2 f P"
proof -
  obtain r N where "P r" "\<forall>k \<ge> N. \<forall>n \<ge> N. f (Suc k) n = Some r" using assms by (auto simp: settles2_def)
  moreover from this have "f k n = Some r" if "Suc N \<le> k" "Suc N \<le> n" for k n using that by (cases k) auto
  ultimately show ?thesis unfolding settles2_def by blast
qed

lemma settles2_single: "settles_as f P \<Longrightarrow> settles2 (\<lambda>k. f) P"
  unfolding settles2_def settles_as_def settles_def by blast

lemma settles2_andThen:
  assumes m: "settles_as m P" and f: "\<And>x q. P (Returned x q) \<Longrightarrow> settles2 (\<lambda>k n. f k n x q) Q"
    and t: "\<And>q. P (ThrowsParseError q) \<Longrightarrow> Q (ThrowsParseError q)"
  shows "settles2 (\<lambda>k n. andThen (m n) (f k n)) Q"
proof -
  obtain r N where r: "P r" "\<forall>n \<ge> N. m n = Some r" using m by (auto simp: settles_as_def settles_def)
  show ?thesis
  proof (cases r)
    case (Returned x q)
    then obtain r' M where r': "Q r'" "\<forall>k \<ge> M. \<forall>n \<ge> M. f k n x q = Some r'"
      using f [of x q] r(1) unfolding settles2_def by blast
    then show ?thesis
      unfolding settles2_def using r Returned by (intro exI [of _ r'] exI [of _ "max M N"]) (auto simp: andThen_def)
  next
    case (ThrowsParseError q)
    then show ?thesis
      unfolding settles2_def using r t by (intro exI [of _ "ThrowsParseError q"] exI [of _ N]) (auto simp: andThen_def)
  qed
qed

lemma operands_parse:
  assumes operand: "\<And>p. eof_last (pending p) \<Longrightarrow> length (pending p) < m \<Longrightarrow> regexParsingWithErrorRecovery p = recovery \<Longrightarrow>
      settles_as (\<lambda>n. operand n p) (parses cs g p)"
    and combine: "\<And>es ts. list_all2 (means cs) es ts \<Longrightarrow> es \<noteq> [] \<Longrightarrow>
      settles_as (\<lambda>n. combine n (map Some es)) (\<lambda>x. \<exists>e. x = Some e \<and> means cs e (C ts))"
    and single: "\<And>e t. means cs e (C [t]) = means cs e t" and op: "op \<noteq> T_EOF"
    and p: "eof_last (pending p)" "length (pending p) \<le> m" "regexParsingWithErrorRecovery p = recovery"
      "list_all2 (means cs) es trees" "es \<noteq> []"
  shows "settles2 (\<lambda>k n. operands_loop k op (operand n) (combine n) (map Some es) p)
    (parses cs (\<lambda>ts t. \<exists>more. t = C (trees @ more) \<and> g_rest op g ts more) p)"
  using p
proof (induction "length (pending p)" arbitrary: p es trees rule: less_induct)
  case less
  let ?P = "\<lambda>p trees. parses cs (\<lambda>ts t. \<exists>more. t = C (trees @ more) \<and> g_rest op g ts more) p"
  obtain b q where m: "Parser_matchOne op p = (b, q)" by fastforce
  show ?case
  proof (rule settles2_Suc, cases b)
    case False
    then have q: "q = p" using Parser_matchOne_False [of op p q] m by simp
    have P: "?P p trees (Returned (Some e) p)" if "means cs e (C trees)" for e
      using that less.prems(1) by (auto intro!: parses_Returned [OF consumes_Nil] g_rest_Nil)
    show "settles2 (\<lambda>k n. operands_loop (Suc k) op (operand n) (combine n) (map Some es) p) (?P p trees)"
    proof (cases "length es = 1")
      case True
      then obtain e t where "es = [e]" "trees = [t]" "means cs e t"
        using less.prems(4) by (cases es; cases trees) auto
      with P [of e] single m False q show ?thesis by (auto intro!: settles2_single settles_as_const)
    next
      case neq: False
      have "settles_as (\<lambda>n. map_option (\<lambda>e. Returned e p) (combine n (map Some es))) (?P p trees)"
        using combine [OF less.prems(4,5)] by (rule settles_as_map) (use P in auto)
      with m False q neq show ?thesis by (auto intro!: settles2_single)
    qed
  next
    case True
    then have c: "tok_type (Parser_peek p) = op" "consumes p [Parser_peek p] q"
      using Parser_matchOne_True [of op p q] m op less.prems(1) by auto
    note cf = consumes_fields [OF c(2)]
    have "settles2 (\<lambda>k n. andThen (operand n q) (\<lambda>right. operands_loop k op (operand n) (combine n) (map Some es @ [right]))) (?P p trees)"
    proof (rule settles2_andThen [where P = "parses cs g q"])
      show "settles_as (\<lambda>n. operand n q) (parses cs g q)"
        using operand [of q] cf less.prems by simp
    next
      fix x s
      assume "parses cs g q (Returned x s)"
      then obtain ts e t where e: "x = Some e" "consumes q ts s" "g ts t" "means cs e t" by (auto simp: parses_def)
      note sf = consumes_fields [OF e(2)]
      have "settles2 (\<lambda>k n. operands_loop k op (operand n) (combine n) (map Some (es @ [e])) s) (?P s (trees @ [t]))"
        using less.prems cf sf e(4) by (intro less.hyps) (auto intro: list_all2_appendI)
      moreover have "?P p trees r" if "?P s (trees @ [t]) r" for r
        using that consumes_Cons [OF c(2) e(2)]
        by (rule parses_lift) (use g_rest_Cons [where g = g, OF c(1) e(3)] in force)
      ultimately show "settles2 (\<lambda>k n. operands_loop k op (operand n) (combine n) (map Some es @ [x]) s) (?P p trees)"
        unfolding settles2_def e(1) by fastforce
    qed (rule parses_throw)
    with m True show "settles2 (\<lambda>k n. operands_loop (Suc k) op (operand n) (combine n) (map Some es) p) (?P p trees)" by simp
  qed
qed

lemma operands_parse_first:
  assumes operand: "\<And>p. eof_last (pending p) \<Longrightarrow> length (pending p) < m \<Longrightarrow> regexParsingWithErrorRecovery p = recovery \<Longrightarrow>
      settles_as (\<lambda>n. operand n p) (parses cs g p)"
    and combine: "\<And>es ts. list_all2 (means cs) es ts \<Longrightarrow> es \<noteq> [] \<Longrightarrow>
      settles_as (\<lambda>n. combine n (map Some es)) (\<lambda>x. \<exists>e. x = Some e \<and> means cs e (C ts))"
    and single: "\<And>e t. means cs e (C [t]) = means cs e t" and op: "op \<noteq> T_EOF"
    and p: "eof_last (pending p)" "length (pending p) < m" "regexParsingWithErrorRecovery p = recovery"
  shows "settles_as (\<lambda>n. andThen (operand n p) (\<lambda>e. operands_loop n op (operand n) (combine n) [e]))
    (parses cs (\<lambda>ts t. \<exists>us vs t1 more. ts = us @ vs \<and> t = C (t1 # more) \<and> g us t1 \<and> g_rest op g vs more) p)"
proof (rule settles_as_andThen [where f = "\<lambda>n e. operands_loop n op (operand n) (combine n) [e]"])
  show "settles_as (\<lambda>n. operand n p) (parses cs g p)" using operand p by blast
next
  fix x q
  assume "parses cs g p (Returned x q)"
  then obtain ts e t where e: "x = Some e" "consumes p ts q" "g ts t" "means cs e t" by (auto simp: parses_def)
  note qf = consumes_fields [OF e(2)]
  have "settles2 (\<lambda>k n. operands_loop k op (operand n) (combine n) (map Some [e]) q)
      (parses cs (\<lambda>ts u. \<exists>more. u = C ([t] @ more) \<and> g_rest op g ts more) q)"
  proof (rule operands_parse [where m = m and recovery = recovery])
    show "settles_as (\<lambda>n. operand n p) (parses cs g p)"
      if "eof_last (pending p)" "length (pending p) < m" "regexParsingWithErrorRecovery p = recovery" for p
      using that by (rule operand)
    show "settles_as (\<lambda>n. combine n (map Some es)) (\<lambda>x. \<exists>e. x = Some e \<and> means cs e (C ts))"
      if "list_all2 (means cs) es ts" "es \<noteq> []" for es ts
      using that by (rule combine)
  qed (use single op qf p e(4) in auto)
  then have "settles_as (\<lambda>n. operands_loop n op (operand n) (combine n) [x] q)
      (parses cs (\<lambda>ts u. \<exists>more. u = C ([t] @ more) \<and> g_rest op g ts more) q)"
    unfolding e(1) using settles2_diagonal by force
  then show "settles_as (\<lambda>n. operands_loop n op (operand n) (combine n) [x] q)
      (parses cs (\<lambda>ts t. \<exists>us vs t1 more. ts = us @ vs \<and> t = C (t1 # more) \<and> g us t1 \<and> g_rest op g vs more) p)"
    by (rule settles_as_mono) (erule parses_lift [OF _ e(2)], use e(3) in auto)
qed (rule parses_throw)

lemma and_parses:
  assumes "parses_shorter env cs expr recovery (length (pending p))" "eof_last (pending p)" "regexParsingWithErrorRecovery p = recovery"
  shows "settles_as (\<lambda>n. Parser_and n (expr n) env cs p) (parses cs (g_and env recovery) p)"
proof -
  have "settles_as (\<lambda>n. andThen (Parser_term n (expr n) env cs p)
      (\<lambda>e. operands_loop n T_And (Parser_term n (expr n) env cs) (ContextKeyExpr_and n cs) [e]))
    (parses cs (\<lambda>ts t. \<exists>us vs t1 more. ts = us @ vs \<and> t = Conj (t1 # more) \<and> g_term env recovery us t1 \<and> g_rest T_And (g_term env recovery) vs more) p)"
  proof (rule operands_parse_first [where m = "Suc (length (pending p))" and operand = "\<lambda>n. Parser_term n (expr n) env cs" and C = Conj])
    fix q :: Parser
    assume "eof_last (pending q)" "length (pending q) < Suc (length (pending p))" "regexParsingWithErrorRecovery q = recovery"
    then show "settles_as (\<lambda>n. Parser_term n (expr n) env cs q) (parses cs (g_term env recovery) q)"
      using term_parses [of env cs expr q] assms by (auto simp: parses_shorter_def)
  qed (simp_all add: means_conj means_singleton assms)
  then show ?thesis
    unfolding Parser_and_def by (rule settles_as_mono) (erule parses_lift [OF _ consumes_Nil [OF assms(2)]], auto intro: g_and)
qed

lemma or_parses:
  assumes "parses_shorter env cs expr recovery (length (pending p))" "eof_last (pending p)" "regexParsingWithErrorRecovery p = recovery"
  shows "settles_as (\<lambda>n. Parser_or n (expr n) env cs p) (parses cs (g_or env recovery) p)"
proof -
  have "settles_as (\<lambda>n. andThen (Parser_and n (expr n) env cs p)
      (\<lambda>e. operands_loop n T_Or (Parser_and n (expr n) env cs) (ContextKeyExpr_or n cs) [e]))
    (parses cs (\<lambda>ts t. \<exists>us vs t1 more. ts = us @ vs \<and> t = Disj (t1 # more) \<and> g_and env recovery us t1 \<and> g_rest T_Or (g_and env recovery) vs more) p)"
  proof (rule operands_parse_first [where m = "Suc (length (pending p))" and operand = "\<lambda>n. Parser_and n (expr n) env cs" and C = Disj])
    fix q :: Parser
    assume "eof_last (pending q)" "length (pending q) < Suc (length (pending p))" "regexParsingWithErrorRecovery q = recovery"
    then show "settles_as (\<lambda>n. Parser_and n (expr n) env cs q) (parses cs (g_and env recovery) q)"
      using and_parses [of env cs expr recovery q] assms by (auto simp: parses_shorter_def)
  qed (simp_all add: means_disj means_singleton assms)
  then show ?thesis
    unfolding Parser_or_def by (rule settles_as_mono) (erule parses_lift [OF _ consumes_Nil [OF assms(2)]], auto intro: g_or)
qed

lemma expr_parses:
  "eof_last (pending p) \<Longrightarrow> settles_as (\<lambda>n. Parser_expr n env cs p) (parses cs (g_or env (regexParsingWithErrorRecovery p)) p)"
proof (induction "length (pending p)" arbitrary: p rule: less_induct)
  case less
  have "parses_shorter env cs (\<lambda>n. Parser_expr n env cs) (regexParsingWithErrorRecovery p) (length (pending p))"
    unfolding parses_shorter_def
  proof (intro allI impI)
    fix q :: Parser
    assume q: "eof_last (pending q)" "length (pending q) < length (pending p)"
      "regexParsingWithErrorRecovery q = regexParsingWithErrorRecovery p"
    show "settles_as (\<lambda>n. Parser_expr n env cs q) (parses cs (g_or env (regexParsingWithErrorRecovery p)) q)"
      using less.hyps [OF q(2,1)] unfolding q(3) .
  qed
  from or_parses [OF this less.prems refl] show ?case
    by - (rule settles_as_shift, simp)
qed

lemma scan_eof_last:
  assumes "Scanner_scan env (Scanner_reset v) = (tokens, s)"
  shows "eof_last tokens"
proof -
  have "scanned (Scanner_reset v)" by (simp add: scanned_def Scanner_reset_def error_log_def)
  from scanned_loop [OF this, of env] have "scanned (scan_loop env (Scanner_reset v))" by blast
  with assms show ?thesis
    by (auto simp: Scanner_scan_def Let_def Scanner_addToken_def push_token_def scanned_def eof_last_def list_all_iff)
qed

end
