(* ===== verification/When_Completeness.thy ===== *)
theory When_Completeness
  imports When_Grammar
begin

text \<open>
  The other direction of the grammar of \<^verbatim>\<open>when\<close> clauses: a phrase of the grammar is accepted; and the theorem about \<^verbatim>\<open>Parser.parse\<close>.
\<close>

section \<open>Every derivable clause is accepted\<close>

text \<open>Without recovery.  A phrase is read up to its end when the token behind it is one that may follow it.\<close>

definition skip :: "Parser \<Rightarrow> Token list \<Rightarrow> Parser" where
  "skip p ts = p\<lparr>pa_current := pa_current p + length ts\<rparr>"

definition ready :: "TokenType set \<Rightarrow> Parser \<Rightarrow> Token list \<Rightarrow> Token list \<Rightarrow> bool" where
  "ready S p ts rest \<longleftrightarrow> pending p = ts @ rest \<and> eof_last rest \<and> eof_last (pending p) \<and> tok_type (hd rest) \<in> S \<and> \<not> regexParsingWithErrorRecovery p"

definition accepted :: "constants \<Rightarrow> Parser \<Rightarrow> Token list \<Rightarrow> ContextKeyExpression option parsed \<Rightarrow> bool" where
  "accepted cs p ts r \<longleftrightarrow> (\<exists>e t. r = Returned (Some e) (skip p ts) \<and> means cs e t)"

abbreviation follow_term :: "TokenType set" where
  "follow_term \<equiv> {T_And, T_Or, T_RParen, T_EOF}"

abbreviation follow_and :: "TokenType set" where
  "follow_and \<equiv> {T_Or, T_RParen, T_EOF}"

abbreviation follow_or :: "TokenType set" where
  "follow_or \<equiv> {T_RParen, T_EOF}"

lemma skip_fields [simp]:
  "regexParsingWithErrorRecovery (skip p ts) = regexParsingWithErrorRecovery p" "pending (skip p ts) = drop (length ts) (pending p)"
  "skip (skip p ts) us = skip p (ts @ us)" "skip p [] = p"
  by (simp_all add: skip_def pending_def add.commute)

lemma accepted_Returned: "means cs e t \<Longrightarrow> accepted cs p ts (Returned (Some e) (skip p ts))"
  by (auto simp: accepted_def)

lemma accepted_skip: "accepted cs (skip p ts) us = accepted cs p (ts @ us)"
  by (rule ext) (simp add: accepted_def)

lemma ready_skip: "ready S p (ts @ us) rest \<Longrightarrow> list_all (\<lambda>t. tok_type t \<noteq> T_EOF) ts \<Longrightarrow> ready S (skip p ts) us rest"
  by (induction ts arbitrary: p) (auto simp: ready_def eof_last_def butlast_append)

lemma ready_not_eof: "ready S p ts rest \<Longrightarrow> list_all (\<lambda>t. tok_type t \<noteq> T_EOF) ts"
  by (auto simp: ready_def eof_last_def butlast_append list_all_iff)

lemma ready_append: "ready S p (ts @ us) rest \<Longrightarrow> ready S (skip p ts) us rest"
  using ready_not_eof [of S p "ts @ us" rest] by (intro ready_skip) auto

lemma ready_Cons: "ready S p (t # us) rest \<Longrightarrow> Parser_peek p = t \<and> tok_type t \<noteq> T_EOF \<and> Parser_advance p = skip p [t] \<and> ready S (skip p [t]) us rest"
  using ready_append [of S p "[t]" us rest] ready_not_eof [of S p "t # us" rest] peek_pending [of p]
  by (auto simp: ready_def skip_def Parser_advance_def Parser_isAtEnd_def)

lemma ready_Nil: "ready S p [] rest \<Longrightarrow> tok_type (Parser_peek p) \<in> S"
  using peek_pending [of p] by (auto simp: ready_def)

lemma value_complete:
  assumes "g_value ts v b" "ready follow_term p ts rest"
  shows "\<exists>v. Parser_value p = (v, skip p ts)"
  using assms ready_Nil [of follow_term p rest] ready_Cons [of follow_term p _ "[]" rest]
  by (cases rule: g_value.cases) (auto simp: Parser_value_def Let_def)

lemma operator_not_special: "operator_atom t k v b = Some e \<Longrightarrow> t \<in> {T_Eq, T_NotEq, T_Lt, T_LtEq, T_Gt, T_GtEq, T_In}"
  by (cases t) auto

lemma key_clause_complete:
  assumes "g_clause env False k ts e" "ready follow_term p ts rest"
  shows "\<exists>x. Parser_key_clause env cs k p = Some (Returned x (skip p ts))"
  using assms(1)
proof (cases rule: g_clause.cases)
  case 1
  then have "tok_type (Parser_peek p) \<in> follow_term" using ready_Nil assms(2) by blast
  with 1 show ?thesis by (auto simp: Parser_key_clause_def Parser_matchOne_def Parser_check_def)
next
  case (2 op us re)
  obtain t where t: "us = [t]" "tok_type t = T_RegexStr" "regexp_of_lexeme env (tok_lexeme t) = Some re"
    using 2(4) by (cases rule: g_regex.cases) auto
  note r1 = ready_Cons [OF assms(2) [unfolded 2(1)]]
  note r2 = ready_Cons [OF r1 [THEN conjunct2, THEN conjunct2, THEN conjunct2, unfolded t(1)]]
  have "\<not> regexParsingWithErrorRecovery p" using assms(2) by (simp add: ready_def)
  with 2 t r1 r2 show ?thesis
    by (auto simp: Parser_key_clause_def Parser_matchOne_def Parser_check_def Parser_regex_strict_def)
next
  case (3 nt i us v q)
  note r1 = ready_Cons [OF assms(2) [unfolded 3(1)]]
  note r2 = ready_Cons [OF r1 [THEN conjunct2, THEN conjunct2, THEN conjunct2]]
  obtain w where "Parser_value (skip p [nt, i]) = (w, skip (skip p [nt, i]) us)"
    using value_complete [OF 3(5), of "skip p [nt, i]" rest] r2 by fastforce
  with 3 r1 r2 show ?thesis
    by (auto simp: Parser_key_clause_def Parser_matchOne_def Parser_check_def Parser_consume_def andThen_def)
next
  case (4 op v q us)
  note r1 = ready_Cons [OF assms(2) [unfolded 4(1)]]
  obtain w where w: "Parser_value (skip p [op]) = (w, skip (skip p [op]) us)"
    using value_complete [OF 4(3), of "skip p [op]" rest] r1 by fastforce
  show ?thesis
    using operator_not_special [OF 4(2)] 4 r1 w
    by (auto simp: Parser_key_clause_def Parser_matchOne_def Parser_check_def Parser_equality_def Parser_inequality_def with_value_def)
qed

lemma settles_unique: "settles f r \<Longrightarrow> settles f s \<Longrightarrow> r = s"
  using settles_both [of f r f s] by auto

lemma accepted_parsed:
  assumes "settles_as f (parses cs g p)" "settles_as f (\<lambda>r. \<exists>x. r = Returned x (skip p ts))"
  shows "settles_as f (accepted cs p ts)"
proof -
  obtain r x where "settles f r" "parses cs g p r" "settles f (Returned x (skip p ts))"
    using assms by (auto simp: settles_as_def)
  with settles_unique show ?thesis unfolding settles_as_def accepted_def parses_def by fastforce
qed

definition accepts :: "constants \<Rightarrow> TokenType set \<Rightarrow> (nat \<Rightarrow> Parser \<Rightarrow> ContextKeyExpression option parsed option) \<Rightarrow> Token list \<Rightarrow> bool" where
  "accepts cs S f ts \<longleftrightarrow> (\<forall>p rest. ready S p ts rest \<longrightarrow> settles_as (\<lambda>n. f n p) (accepted cs p ts))"

lemma acceptsD: "accepts cs S f ts \<Longrightarrow> ready S p ts rest \<Longrightarrow> settles_as (\<lambda>n. f n p) (accepted cs p ts)"
  unfolding accepts_def by blast

lemma ready_prefix:
  assumes "ready S p (ts @ us) rest" "us = [] \<or> tok_type (hd us) \<in> T" "S \<subseteq> T"
  shows "ready T p ts (us @ rest)"
  using assms unfolding ready_def by (cases us) (auto simp: eof_last_def butlast_append split: if_splits)

lemma g_rest_front: "g_rest op g us trees \<Longrightarrow> us = [] \<or> tok_type (hd us) = op"
  by (erule g_rest.cases) auto

lemma operands_complete:
  assumes rest: "g_rest op (\<lambda>ts t. g ts t \<and> accepts cs (insert op S) operand ts) us trees"
    and combine: "\<And>es ts. list_all2 (means cs) es ts \<Longrightarrow> es \<noteq> [] \<Longrightarrow>
      settles_as (\<lambda>n. combine n (map Some es)) (\<lambda>x. \<exists>e. x = Some e \<and> means cs e (C ts))"
    and op: "op \<notin> S"
    and p: "ready S p us rest" "list_all2 (means cs) es ts" "es \<noteq> []"
  shows "settles2 (\<lambda>k n. operands_loop k op (operand n) (combine n) (map Some es) p) (accepted cs p us)"
  using rest p
proof (induction arbitrary: p es ts rule: g_rest.induct)
  case g_rest_Nil
  have peek: "tok_type (Parser_peek p) \<noteq> op" using ready_Nil [OF g_rest_Nil(1)] op by auto
  show ?case
  proof (rule settles2_Suc, cases "length es = 1")
    case True
    then obtain e t where "es = [e]" "means cs e t" using g_rest_Nil by (cases es; cases ts) auto
    with peek show "settles2 (\<lambda>k n. operands_loop (Suc k) op (operand n) (combine n) (map Some es) p) (accepted cs p [])"
      by (auto simp: Parser_matchOne_def Parser_check_def accepted_def intro!: settles2_single settles_as_const)
  next
    case False
    have "settles_as (\<lambda>n. map_option (\<lambda>e. Returned e p) (combine n (map Some es))) (accepted cs p [])"
      using combine [OF g_rest_Nil(2,3)] by (rule settles_as_map) (auto simp: accepted_def)
    with peek False show "settles2 (\<lambda>k n. operands_loop (Suc k) op (operand n) (combine n) (map Some es) p) (accepted cs p [])"
      by (auto simp: Parser_matchOne_def Parser_check_def intro!: settles2_single)
  qed
next
  case (g_rest_Cons o1 vs t us trees)
  note r1 = ready_Cons [OF g_rest_Cons.prems(1)]
  have "ready (insert op S) (skip p [o1]) vs (us @ rest)"
    using r1 g_rest_front [OF g_rest_Cons(3)] by (intro ready_prefix [where S = S]) auto
  then have v: "settles_as (\<lambda>n. operand n (skip p [o1])) (accepted cs (skip p [o1]) vs)"
    using g_rest_Cons(2) acceptsD by blast
  have "settles2 (\<lambda>k n. andThen (operand n (skip p [o1])) (\<lambda>right. operands_loop k op (operand n) (combine n) (map Some es @ [right])))
      (accepted cs p (o1 # vs @ us))"
  proof (rule settles2_andThen [OF v])
    fix x q
    assume "accepted cs (skip p [o1]) vs (Returned x q)"
    then obtain e t where e: "x = Some e" "q = skip p (o1 # vs)" "means cs e t" by (auto simp: accepted_def)
    have "ready S q us rest" using g_rest_Cons.prems(1) ready_append [of S p "o1 # vs" us rest] by (simp add: e(2))
    then have "settles2 (\<lambda>k n. operands_loop k op (operand n) (combine n) (map Some (es @ [e])) q) (accepted cs q us)"
      using g_rest_Cons.prems(2) e(3) by (intro g_rest_Cons.IH [where ts = "ts @ [t]"]) (auto intro: list_all2_appendI)
    then show "settles2 (\<lambda>k n. operands_loop k op (operand n) (combine n) (map Some es @ [x]) q) (accepted cs p (o1 # vs @ us))"
      by (simp add: e accepted_skip)
  qed (simp add: accepted_def)
  then have "settles2 (\<lambda>k n. operands_loop (Suc k) op (operand n) (combine n) (map Some es) p) (accepted cs p (o1 # vs @ us))"
    using r1 g_rest_Cons(1) by (simp add: Parser_matchOne_def Parser_check_def)
  then show ?case by (rule settles2_Suc)
qed

lemma operands_complete_first:
  assumes first: "accepts cs (insert op S) operand ts"
    and rest: "g_rest op (\<lambda>ts t. g ts t \<and> accepts cs (insert op S) operand ts) us trees"
    and combine: "\<And>es ts. list_all2 (means cs) es ts \<Longrightarrow> es \<noteq> [] \<Longrightarrow>
      settles_as (\<lambda>n. combine n (map Some es)) (\<lambda>x. \<exists>e. x = Some e \<and> means cs e (C ts))"
    and op: "op \<notin> S"
  shows "accepts cs S (\<lambda>n p. andThen (operand n p) (\<lambda>e. operands_loop n op (operand n) (combine n) [e])) (ts @ us)"
  unfolding accepts_def
proof (intro allI impI)
  fix p rst
  assume p: "ready S p (ts @ us) rst"
  have "ready (insert op S) p ts (us @ rst)"
    using p g_rest_front [OF rest] by (intro ready_prefix [where S = S]) auto
  then have a: "settles_as (\<lambda>n. operand n p) (accepted cs p ts)" by (rule acceptsD [OF first])
  show "settles_as (\<lambda>n. andThen (operand n p) (\<lambda>e. operands_loop n op (operand n) (combine n) [e])) (accepted cs p (ts @ us))"
  proof (rule settles_as_andThen [where f = "\<lambda>n e. operands_loop n op (operand n) (combine n) [e]", OF a])
    fix x q
    assume "accepted cs p ts (Returned x q)"
    then obtain e t where e: "x = Some e" "q = skip p ts" "means cs e t" by (auto simp: accepted_def)
    have "settles2 (\<lambda>k n. operands_loop k op (operand n) (combine n) (map Some [e]) q) (accepted cs q us)"
    proof (rule operands_complete [where ts = "[t]", OF rest _ op])
      show "settles_as (\<lambda>n. combine n (map Some es)) (\<lambda>x. \<exists>e. x = Some e \<and> means cs e (C ts))"
        if "list_all2 (means cs) es ts" "es \<noteq> []" for es ts
        using that by (rule combine)
    qed (use ready_append [OF p] e in auto)
    from settles2_diagonal [OF this] show "settles_as (\<lambda>n. operands_loop n op (operand n) (combine n) [x] q) (accepted cs p (ts @ us))"
      by (simp add: e accepted_skip)
  qed (simp add: accepted_def)
qed

lemma parens_complete:
  assumes "accepts cs follow_or (\<lambda>n p. Parser_expr n env cs p) us" "ready S p (us @ [r]) rest" "tok_type r = T_RParen"
    "\<And>e t. means cs e t \<Longrightarrow> settles_as (\<lambda>n. f n (Some e) (skip p (us @ [r]))) P"
  shows "settles_as (\<lambda>n. andThen (Parser_expr n env cs p) (\<lambda>e p1. andThen (Parser_consume env T_RParen msg p1) (\<lambda>u p2. f n e p2))) P"
proof -
  have "ready follow_or p us (r # rest)"
    using assms(2,3) by (auto simp: ready_def eof_last_def butlast_append split: if_splits)
  from acceptsD [OF assms(1) this] show ?thesis
  proof (rule settles_as_andThen [where f = "\<lambda>n e p1. andThen (Parser_consume env T_RParen msg p1) (\<lambda>u p2. f n e p2)"])
    fix x q
    assume "accepted cs p us (Returned x q)"
    then obtain e t where e: "x = Some e" "q = skip p us" "means cs e t" by (auto simp: accepted_def)
    note r = ready_Cons [OF ready_append [OF assms(2)]]
    show "settles_as (\<lambda>n. andThen (Parser_consume env T_RParen msg q) (\<lambda>u p2. f n x p2)) P"
      using assms(3,4) e r by (simp add: Parser_consume_def Parser_check_def andThen_def)
  qed (simp add: accepted_def)
qed

lemma ready_Cons2:
  assumes "ready S p (a # b # us) rest"
  shows "Parser_peek p = a" "Parser_advance p = skip p [a]" "Parser_peek (skip p [a]) = b" "Parser_advance (skip p [a]) = skip p [a, b]"
    "ready S (skip p [a, b]) us rest"
  using ready_Cons [OF assms] ready_Cons [of S "skip p [a]" b us rest] by auto

lemma acceptsI: "(\<And>p rest. ready S p ts rest \<Longrightarrow> settles_as (\<lambda>n. f n p) (accepted cs p ts)) \<Longrightarrow> accepts cs S f ts"
  unfolding accepts_def by blast

lemma negated_atom_complete:
  assumes "tok_type n = T_Neg" "tok_type t \<in> {T_Str, T_True, T_False}"
  shows "accepts cs S (\<lambda>m p. Parser_term m (expr m) env cs p) [n, t]"
proof (rule acceptsI)
  fix p rest
  assume "ready S p [n, t] rest"
  note r = ready_Cons2 [OF this]
  show "settles_as (\<lambda>m. Parser_term m (expr m) env cs p) (accepted cs p [n, t])"
    using r assms
    by (auto simp: Parser_term_def Parser_matchOne_def Parser_check_def
        intro!: settles_as_const accepted_Returned means_not means_constants)
qed

lemma negated_parens_complete:
  assumes "tok_type n = T_Neg" "tok_type l = T_LParen" "tok_type r = T_RParen" "accepts cs follow_or (\<lambda>n p. Parser_expr n env cs p) ts"
  shows "accepts cs S (\<lambda>m p. Parser_term m (Parser_expr m env cs) env cs p) (n # l # ts @ [r])"
proof (rule acceptsI)
  fix p rest
  assume "ready S p (n # l # ts @ [r]) rest"
  note rd = ready_Cons2 [OF this]
  let ?f = "\<lambda>n e p2. case e of None \<Rightarrow> Some (Returned None p2)
                  | Some e1 \<Rightarrow> map_option (\<lambda>r. Returned (Some r) p2) (ck_negate n cs e1)"
  have "settles_as (\<lambda>m. andThen (Parser_expr m env cs (skip p [n, l])) (\<lambda>e p1.
      andThen (Parser_consume env T_RParen (errorClosingParenthesis env) p1) (\<lambda>u p2. ?f m e p2))) (accepted cs p (n # l # ts @ [r]))"
  proof (rule parens_complete [where f = ?f, OF assms(4) rd(5) assms(3)])
    fix e t
    assume e: "means cs e t"
    have "settles_as (\<lambda>m. map_option (\<lambda>x. Returned (Some x) (skip p (n # l # ts @ [r]))) (ck_negate m cs e)) (accepted cs p (n # l # ts @ [r]))"
      using means_negation [OF e] by (rule settles_as_map) (auto simp: accepted_def)
    then show "settles_as (\<lambda>m. ?f m (Some e) (skip (skip p [n, l]) (ts @ [r]))) (accepted cs p (n # l # ts @ [r]))" by simp
  qed
  then show "settles_as (\<lambda>m. Parser_term m (Parser_expr m env cs) env cs p) (accepted cs p (n # l # ts @ [r]))"
    using rd assms by (simp add: Parser_term_def Parser_matchOne_def Parser_check_def)
qed

lemma parens_primary_complete:
  assumes "tok_type l = T_LParen" "tok_type r = T_RParen" "accepts cs follow_or (\<lambda>n p. Parser_expr n env cs p) ts"
  shows "accepts cs S (\<lambda>m p. Parser_primary (Parser_expr m env cs) env cs p) (l # ts @ [r])"
proof (rule acceptsI)
  fix p rest
  assume "ready S p (l # ts @ [r]) rest"
  note rd = ready_Cons [OF this]
  have "settles_as (\<lambda>m. andThen (Parser_expr m env cs (skip p [l])) (\<lambda>e p1.
      andThen (Parser_consume env T_RParen (errorClosingParenthesis env) p1) (\<lambda>u p2. Some (Returned e p2)))) (accepted cs p (l # ts @ [r]))"
    by (rule parens_complete [where f = "\<lambda>n e p2. Some (Returned e p2)" and S = S, OF assms(3) _ assms(2)])
      (use rd in \<open>auto simp: accepted_def intro!: settles_as_const\<close>)
  then show "settles_as (\<lambda>m. Parser_primary (Parser_expr m env cs) env cs p) (accepted cs p (l # ts @ [r]))"
    using rd assms by (simp add: Parser_primary_def)
qed

lemma key_complete:
  assumes "tok_type t = T_Str" "g_clause env False (tok_lexeme t) ts e"
  shows "accepts cs follow_term (\<lambda>n p. Parser_primary (expr n) env cs p) (t # ts)"
proof (rule acceptsI)
  fix p rest
  assume "ready follow_term p (t # ts) rest"
  note rd = ready_Cons [OF this]
  then have r: "ready follow_term (skip p [t]) ts rest" by blast
  then have "eof_last (pending (skip p [t]))" unfolding ready_def by blast
  from key_clause_parses [OF this] have
    "settles_as (\<lambda>n. Parser_key_clause env cs (tok_lexeme t) (skip p [t])) (accepted cs (skip p [t]) ts)"
    using key_clause_complete [OF assms(2) r, of cs] by (intro accepted_parsed) (auto intro!: settles_as_const)
  then show "settles_as (\<lambda>n. Parser_primary (expr n) env cs p) (accepted cs p (t # ts))"
    using rd assms by (simp add: Parser_primary_def accepted_skip)
qed

lemma constant_complete:
  assumes "tok_type t \<in> {T_True, T_False}"
  shows "accepts cs S (\<lambda>n p. Parser_primary (expr n) env cs p) [t]"
proof (rule acceptsI)
  fix p rest
  assume "ready S p [t] rest"
  from ready_Cons [OF this] show "settles_as (\<lambda>n. Parser_primary (expr n) env cs p) (accepted cs p [t])"
    using assms means_leaf [of TrueExpr cs, THEN accepted_Returned] means_leaf [of FalseExpr cs, THEN accepted_Returned]
    by (auto simp: Parser_primary_def intro!: settles_as_const)
qed

lemma g_primary_front: "g_primary env recovery ts t \<Longrightarrow> ts \<noteq> [] \<and> tok_type (hd ts) \<noteq> T_Neg"
  by (erule g_primary.cases) auto

lemma primary_term_complete:
  assumes "g_primary env recovery ts t" "accepts cs S (\<lambda>n p. Parser_primary (expr n) env cs p) ts"
  shows "accepts cs S (\<lambda>n p. Parser_term n (expr n) env cs p) ts"
proof (rule acceptsI)
  fix p rest
  assume p: "ready S p ts rest"
  obtain a us where ts: "ts = a # us" "tok_type a \<noteq> T_Neg" using g_primary_front [OF assms(1)] by (cases ts) auto
  then have "Parser_matchOne T_Neg p = (False, p)"
    using ready_Cons p by (auto simp: Parser_matchOne_def Parser_check_def)
  with acceptsD [OF assms(2) p] show "settles_as (\<lambda>n. Parser_term n (expr n) env cs p) (accepted cs p ts)"
    by (simp add: Parser_term_def)
qed

lemma grammar_complete:
  shows "g_or env False ts t \<Longrightarrow> accepts cs follow_or (\<lambda>n p. Parser_expr n env cs p) ts"
    and "g_and env False ts t \<Longrightarrow> accepts cs follow_and (\<lambda>n p. Parser_and n (Parser_expr n env cs) env cs p) ts"
    and "g_term env False ts t \<Longrightarrow> accepts cs follow_term (\<lambda>n p. Parser_term n (Parser_expr n env cs) env cs p) ts"
    and "g_primary env False ts t \<Longrightarrow> accepts cs follow_term (\<lambda>n p. Parser_primary (Parser_expr n env cs) env cs p) ts"
proof (induction rule: g_or_g_and_g_term_g_primary.inducts)
  case (g_or ts t us trees)
  have "accepts cs follow_or (\<lambda>n p. Parser_or n (Parser_expr n env cs) env cs p) (ts @ us)"
    unfolding Parser_or_def using g_or(2,3) by (rule operands_complete_first [where C = Disj]) (simp_all add: means_disj)
  then have "settles_as (\<lambda>n. Parser_expr (Suc n) env cs p) (accepted cs p (ts @ us))" if "ready follow_or p (ts @ us) rest" for p rest
    using acceptsD that by fastforce
  then show ?case by (intro acceptsI) (rule settles_as_shift)
next
  case (g_and ts t us trees)
  show ?case
    unfolding Parser_and_def using g_and(2,3) by (rule operands_complete_first [where C = Conj]) (simp_all add: means_conj)
qed (auto intro: negated_atom_complete negated_parens_complete parens_primary_complete key_complete constant_complete primary_term_complete)

section \<open>Results\<close>

text \<open>What \<^verbatim>\<open>parse\<close> promises for the tokens of an input: an expression that means a tree of the grammar and no parsing errors,
  or parsing errors; and without recovery no error when there is such a tree.\<close>

definition parse_result :: "parser_env \<Rightarrow> constants \<Rightarrow> bool \<Rightarrow> js_string \<Rightarrow> ContextKeyExpression option \<times> Parser \<Rightarrow> bool" where
  "parse_result env cs recovery input r =
     (let tokens = butlast (fst (Scanner_scan (when_env.truncate env) (Scanner_reset input)))
      in case fst r of
           Some e \<Rightarrow> pa_parsingErrors (snd r) = [] \<and> (\<exists>t. g_or env recovery tokens t \<and> means cs e t)
         | None \<Rightarrow> pa_parsingErrors (snd r) \<noteq> [] \<and> (recovery \<or> (\<nexists>t. g_or env recovery tokens t)))"

lemma g_or_nonempty: "g_or env recovery ts t \<Longrightarrow> ts \<noteq> []"
  using g_primary_front by (auto elim!: g_or.cases g_and.cases g_term.cases)

lemma expr_complete:
  assumes "pending p = ts @ [eof]" "eof_last (pending p)" "\<not> regexParsingWithErrorRecovery p" "g_or env False ts t"
  shows "settles_as (\<lambda>n. Parser_expr n env cs p) (accepted cs p ts)"
proof -
  have "ready follow_or p ts [eof]" using assms(1-3) by (auto simp: ready_def eof_last_def)
  then show ?thesis using grammar_complete(1) [OF assms(4)] by (rule acceptsD [rotated])
qed

lemma at_end_pending: "eof_last (pending p) \<Longrightarrow> Parser_isAtEnd p \<longleftrightarrow> (\<exists>t. pending p = [t])"
  by (cases "pending p") (auto simp: Parser_isAtEnd_def peek_pending eof_last_def split: if_splits)

lemma parse_end_result:
  assumes r: "settles (\<lambda>n. Parser_expr n env cs q) r" "parses cs (g_or env (regexParsingWithErrorRecovery q)) q r"
    and q: "eof_last (pending q)" "pa_parsingErrors q = []"
    and input: "fst (Scanner_scan (when_env.truncate env) (Scanner_reset input)) = pending q"
  shows "parse_result env cs (regexParsingWithErrorRecovery q) input (parse_end env r)"
proof -
  let ?ts = "butlast (pending q)"
  have p: "pending q = ?ts @ [last (pending q)]" using q(1) by (simp add: eof_last_def)
  have complete: "\<exists>e. r = Returned (Some e) (skip q ?ts)" if strict: "\<not> regexParsingWithErrorRecovery q" and g: "g_or env False ?ts t" for t
  proof -
    obtain r' where "settles (\<lambda>n. Parser_expr n env cs q) r'" "accepted cs q ?ts r'"
      using expr_complete [OF p q(1) strict g, of cs] by (auto simp: settles_as_def)
    with settles_unique [OF r(1)] show ?thesis by (auto simp: accepted_def)
  qed
  show ?thesis
  proof (cases r)
    case (ThrowsParseError s)
    then show ?thesis using r(2) complete input by (auto simp: parse_result_def parse_end_def parses_def)
  next
    case (Returned x s)
    then obtain us e t where e: "x = Some e" "consumes q us s" "g_or env (regexParsingWithErrorRecovery q) us t" "means cs e t"
      using r(2) by (auto simp: parses_def)
    note sf = consumes_fields [OF e(2)]
    show ?thesis
    proof (cases "Parser_isAtEnd s")
      case True
      then have "us = ?ts" using e(2) at_end_pending [OF sf(3)] by (auto simp: consumes_def)
      with True e sf Returned q(2) input show ?thesis by (auto simp: parse_result_def parse_end_def)
    next
      case False
      have "\<not> g_or env False ?ts t" if "\<not> regexParsingWithErrorRecovery q" for t
      proof
        assume "g_or env False ?ts t"
        with complete that Returned have "s = skip q ?ts" by auto
        then have "pending s = [last (pending q)]" using p by (metis append_eq_conv_conj skip_fields(2))
        with False at_end_pending [OF sf(3)] show False by blast
      qed
      with False Returned input show ?thesis by (auto simp: parse_result_def parse_end_def push_parsingError_def Let_def)
    qed
  qed
qed

text \<open>C14: The parser of \<^verbatim>\<open>when\<close> clauses always returns, whatever text it is given and whatever it parsed before.  When it returns an expression, there are no
  parsing errors, the tokens of the text are a phrase of the grammar that the source gives, and the (normalized) expression has the
  value of that phrase, read as a tree of conjunctions, disjunctions and negations, in every context that is sane for the atoms of the phrase: the keys of numeric comparisons have numeric values, regular expressions
  with one source have one set of flags, and constants have their values and are compared only with strings that are neither numbers nor the texts of booleans.  When it returns \<^verbatim>\<open>undefined\<close> there are parsing errors, and, without
  recovery of regular expressions, the tokens are not a phrase of the grammar: no valid clause is refused.\<close>

theorem Parser_parse_exact:
  "\<exists>r. settles (\<lambda>n. Parser_parse n env cs input p) r \<and> parse_result env cs (regexParsingWithErrorRecovery p) input r"
proof (cases "input = []")
  case True
  have "fst (Scanner_scan (when_env.truncate env) (Scanner_reset [])) = [plain_token T_EOF 0]"
    by (simp add: Scanner_scan_def scan_loop.simps Scanner_isAtEnd_def Scanner_reset_def Scanner_addToken_def push_token_def)
  then have "\<nexists>t. g_or env r (butlast (fst (Scanner_scan (when_env.truncate env) (Scanner_reset input)))) t" for r
    using g_or_nonempty [of env r "[]"] True by auto
  with True show ?thesis
    unfolding settles_as_def [symmetric] by (simp add: Parser_parse_def parse_result_def push_parsingError_def)
next
  case False
  obtain tokens s where scan: "Scanner_scan (when_env.truncate env) (Scanner_reset input) = (tokens, s)" by fastforce
  define q where "q = p\<lparr>pa_scanner := s, pa_tokens := tokens, pa_current := 0, pa_parsingErrors := []\<rparr>"
  have eof: "eof_last (pending q)" using scan_eof_last [OF scan] by (simp add: q_def pending_def)
  let ?rec = "regexParsingWithErrorRecovery p"
  obtain r where r: "settles (\<lambda>n. Parser_expr n env cs q) r" "parses cs (g_or env ?rec) q r"
    using expr_parses [OF eof, of env cs] by (auto simp: settles_as_def q_def)
  have "settles (\<lambda>n. Parser_parse n env cs input p) (parse_end env r)"
    using settles_bind [where g = "\<lambda>n r. Some (parse_end env r)", OF r(1) settles_const] False
    by (simp add: Parser_parse_def scan q_def)
  moreover have "parse_result env cs ?rec input (parse_end env r)"
    using parse_end_result [OF r(1) _ eof, of input] r(2) scan by (simp add: q_def pending_def)
  ultimately show ?thesis by blast
qed

end
