(* ===== verification/Bracket_Length.thy ===== *)
theory Bracket_Length
  imports Position_Offset
begin

text \<open>
  \<^verbatim>\<open>src/vs/editor/common/model/bracketPairsTextModelPart/bracketPairsTree/length.ts\<close>: lengths in lines and columns, packed into one number.  They refine the lengths of
  \<open>Text_Length\<close> as long as no column reaches \<open>factor\<close>; \<open>plen\<close> is the packed length of a text.
\<close>

section \<open>Packed lengths\<close>

type_synonym Length = int

definition factor :: int where
  "factor = 2 ^ 26"

text \<open>\<^verbatim>\<open>x % y\<close> has the sign of \<open>x\<close>.\<close>

definition js_rem :: "int \<Rightarrow> int \<Rightarrow> int" where
  "js_rem x y = sgn x * (\<bar>x\<bar> mod \<bar>y\<bar>)"

definition lengthZero :: Length where
  "lengthZero = 0"

definition lengthIsZero :: "Length \<Rightarrow> bool" where
  "lengthIsZero l \<longleftrightarrow> l = 0"

definition toLength :: "int \<Rightarrow> int \<Rightarrow> Length" where
  "toLength lines columns = lines * factor + columns"

definition lengthDiff :: "int \<Rightarrow> int \<Rightarrow> int \<Rightarrow> int \<Rightarrow> Length" where
  "lengthDiff startLineCount startColumnCount endLineCount endColumnCount =
     (if startLineCount \<noteq> endLineCount then toLength (endLineCount - startLineCount) endColumnCount
      else toLength 0 (endColumnCount - startColumnCount))"

definition lengthToObj :: "Length \<Rightarrow> TextLength" where
  "lengthToObj l = (let lines = l div factor in new_TextLength lines (l - lines * factor))"

definition lengthGetLineCount :: "Length \<Rightarrow> int" where
  "lengthGetLineCount l = l div factor"

definition lengthGetColumnCountIfZeroLineCount :: "Length \<Rightarrow> int" where
  "lengthGetColumnCountIfZeroLineCount l = l"

definition lengthAdd :: "Length \<Rightarrow> Length \<Rightarrow> Length" where
  "lengthAdd l1 l2 = (let r = l1 + l2 in if l2 \<ge> factor then r - js_rem l1 factor else r)"

definition sumLengths :: "'a list \<Rightarrow> ('a \<Rightarrow> Length) \<Rightarrow> Length" where
  "sumLengths items lengthFn = foldl (\<lambda>a b. lengthAdd a (lengthFn b)) lengthZero items"

definition lengthEquals :: "Length \<Rightarrow> Length \<Rightarrow> bool" where
  "lengthEquals l1 l2 \<longleftrightarrow> l1 = l2"

definition lengthDiffNonNegative :: "Length \<Rightarrow> Length \<Rightarrow> Length" where
  "lengthDiffNonNegative l1 l2 =
     (if l2 - l1 \<le> 0 then lengthZero
      else
        let lineCount1 = l1 div factor; lineCount2 = l2 div factor; colCount2 = l2 - lineCount2 * factor
        in if lineCount1 = lineCount2 then
             let colCount1 = l1 - lineCount1 * factor in toLength 0 (colCount2 - colCount1)
           else toLength (lineCount2 - lineCount1) colCount2)"

definition lengthLessThan :: "Length \<Rightarrow> Length \<Rightarrow> bool" where
  "lengthLessThan l1 l2 \<longleftrightarrow> l1 < l2"

definition lengthLessThanEqual :: "Length \<Rightarrow> Length \<Rightarrow> bool" where
  "lengthLessThanEqual l1 l2 \<longleftrightarrow> l1 \<le> l2"

definition lengthGreaterThanEqual :: "Length \<Rightarrow> Length \<Rightarrow> bool" where
  "lengthGreaterThanEqual l1 l2 \<longleftrightarrow> l1 \<ge> l2"

definition lengthToPosition :: "Length \<Rightarrow> Position" where
  "lengthToPosition l = (let lines = l div factor; col = l - lines * factor in new_Position (lines + 1) (col + 1))"

definition positionToLength :: "Position \<Rightarrow> Length" where
  "positionToLength p = toLength (lineNumber p - 1) (column p - 1)"

definition lengthsToRange :: "Length \<Rightarrow> Length \<Rightarrow> Range" where
  "lengthsToRange l l2 =
     (let lines = l div factor; col = l - lines * factor; lines2 = l2 div factor; col2 = l2 - lines2 * factor
      in new_Range (lines + 1) (col + 1) (lines2 + 1) (col2 + 1))"

definition lengthOfRange :: "'a Range_scheme \<Rightarrow> TextLength" where
  "lengthOfRange r =
     (if startLineNumber r = endLineNumber r then new_TextLength 0 (endColumn r - startColumn r)
      else new_TextLength (endLineNumber r - startLineNumber r) (endColumn r - 1))"

definition lengthCompare :: "Length \<Rightarrow> Length \<Rightarrow> int" where
  "lengthCompare l1 l2 = l1 - l2"

text \<open>\<^verbatim>\<open>splitLines\<close> of \<^verbatim>\<open>strings.ts\<close> splits at CR LF, CR and LF.  The arguments are the line so far, and whether it starts behind a CR.\<close>

fun splitLines_from :: "js_string \<Rightarrow> bool \<Rightarrow> js_string \<Rightarrow> js_string list" where
  "splitLines_from line cr [] = [line]"
| "splitLines_from line cr (c # s) =
     (if c = 13 then line # splitLines_from [] True s
      else if c = 10 then (if cr then splitLines_from [] False s else line # splitLines_from [] False s)
      else splitLines_from (line @ [c]) False s)"

definition splitLines :: "js_string \<Rightarrow> js_string list" where
  "splitLines s = splitLines_from [] False s"

definition lengthOfString :: "js_string \<Rightarrow> Length" where
  "lengthOfString s = (let lines = splitLines s in toLength (int (length lines) - 1) (int (length (last lines))))"

definition lengthOfStringObj :: "js_string \<Rightarrow> TextLength" where
  "lengthOfStringObj s = (let lines = splitLines s in new_TextLength (int (length lines) - 1) (int (length (last lines))))"

definition lengthHash :: "Length \<Rightarrow> int" where
  "lengthHash l = l"

definition lengthMax :: "Length \<Rightarrow> Length \<Rightarrow> Length" where
  "lengthMax l1 l2 = (if l1 > l2 then l1 else l2)"

section \<open>Packing\<close>

definition pack :: "TextLength \<Rightarrow> Length" where
  "pack a = toLength (lineCount a) (columnCount a)"

definition fits_packed :: "TextLength \<Rightarrow> bool" where
  "fits_packed a \<longleftrightarrow> 0 \<le> lineCount a \<and> 0 \<le> columnCount a \<and> columnCount a < factor"

lemma factor_pos [simp]: "0 < factor" "0 \<le> factor"
  by (simp_all add: factor_def)

lemma js_rem_nonneg: "0 \<le> x \<Longrightarrow> 0 < y \<Longrightarrow> js_rem x y = x mod y"
  by (cases "x = 0") (auto simp: js_rem_def)

lemma pack_div: "fits_packed a \<Longrightarrow> pack a div factor = lineCount a"
  by (simp add: fits_packed_def pack_def toLength_def)

lemma pack_mod: "fits_packed a \<Longrightarrow> pack a mod factor = columnCount a"
  by (simp add: fits_packed_def pack_def toLength_def)

lemma pack_nonneg: "fits_packed a \<Longrightarrow> 0 \<le> pack a"
  by (simp add: fits_packed_def pack_def toLength_def)

lemma unpack: "fits_packed a \<Longrightarrow> lengthToObj (pack a) = a"
  by (simp add: lengthToObj_def pack_div Let_def) (simp add: pack_def toLength_def)

lemma pack_less: "fits_packed a \<Longrightarrow> fits_packed b \<Longrightarrow> pack a < pack b \<longleftrightarrow> a < b"
proof -
  assume f: "fits_packed a" "fits_packed b"
  have "pack a < pack b" if "lineCount a < lineCount b"
  proof -
    have "(lineCount a + 1) * factor \<le> lineCount b * factor" using that by (intro mult_right_mono) auto
    then show ?thesis using f by (auto simp: pack_def toLength_def fits_packed_def algebra_simps)
  qed
  moreover have "pack b < pack a" if "lineCount b < lineCount a"
  proof -
    have "(lineCount b + 1) * factor \<le> lineCount a * factor" using that by (intro mult_right_mono) auto
    then show ?thesis using f by (auto simp: pack_def toLength_def fits_packed_def algebra_simps)
  qed
  moreover have "pack a < pack b \<longleftrightarrow> columnCount a < columnCount b" if "lineCount a = lineCount b"
    using that by (simp add: pack_def toLength_def)
  ultimately show ?thesis unfolding TextLength_order_iff by (metis less_asym' linorder_less_linear)
qed

lemma pack_inject: "fits_packed a \<Longrightarrow> fits_packed b \<Longrightarrow> pack a = pack b \<longleftrightarrow> a = b"
  by (metis unpack)

lemma pack_le: "fits_packed a \<Longrightarrow> fits_packed b \<Longrightarrow> pack a \<le> pack b \<longleftrightarrow> a \<le> b"
  using pack_less [of b a] by (auto simp: not_less [symmetric])

lemma pack_ge_factor: "fits_packed b \<Longrightarrow> factor \<le> pack b \<longleftrightarrow> lineCount b \<noteq> 0"
proof (cases "lineCount b \<le> 0")
  case False
  assume "fits_packed b"
  moreover have "1 * factor \<le> lineCount b * factor" using False by (intro mult_right_mono) auto
  ultimately have "factor \<le> pack b" unfolding pack_def toLength_def fits_packed_def by linarith
  with False show ?thesis by simp
qed (auto simp: pack_def toLength_def fits_packed_def)

lemma pack_add:
  assumes "fits_packed a" "fits_packed b"
  shows "lengthAdd (pack a) (pack b) = pack (TextLength_add a b)"
proof -
  have "js_rem (pack a) factor = columnCount a" using assms by (simp add: js_rem_nonneg pack_nonneg pack_mod)
  then show ?thesis
    using assms by (auto simp: lengthAdd_def Let_def pack_ge_factor TextLength_add_def)
      (auto simp: pack_def toLength_def algebra_simps)
qed

lemma pack_diff:
  assumes "fits_packed a" "fits_packed b"
  shows "lengthDiffNonNegative (pack a) (pack b) = pack (TextLength_lengthDiffNonNegative a b)"
proof (cases "b \<le> a")
  case True
  then have "TextLength_lengthDiffNonNegative a b = TextLength_zero"
    by (auto simp: TextLength_lengthDiffNonNegative_def TextLength_isLessThan_def TextLength_zero_def TextLength_order_iff)
  with True assms show ?thesis
    using pack_le [of b a] by (simp add: lengthDiffNonNegative_def lengthZero_def pack_def toLength_def TextLength_zero_def)
next
  case False
  then have "\<not> pack b - pack a \<le> 0" "\<not> TextLength_isLessThan b a"
    using pack_le [of b a] assms by (auto simp: TextLength_compare_order)
  with assms show ?thesis
    by (simp add: lengthDiffNonNegative_def TextLength_lengthDiffNonNegative_def pack_div Let_def)
      (simp add: pack_def toLength_def)
qed

lemma pack_position: "fits_packed a \<Longrightarrow> lengthToPosition (pack a) = TextLength_addToPosition a (new_Position 1 1)"
  by (simp add: lengthToPosition_def pack_div Let_def TextLength_addToPosition_def)
    (auto simp: pack_def toLength_def)

text \<open>A text without CR.\<close>

lemma splitLines_from_tlen:
  "13 \<notin> set s \<Longrightarrow> new_TextLength (int (length (splitLines_from line False s)) - 1) (int (length (last (splitLines_from line False s)))) =
     tlen_from (new_TextLength 0 (int (length line))) s"
proof (induction s arbitrary: line)
  case (Cons c s)
  have ne: "splitLines_from l b t \<noteq> []" for l b t by (induction l b t rule: splitLines_from.induct) auto
  have sh: "tlen_from (new_TextLength (k + a) b) t = (let r = tlen_from (new_TextLength a b) t in new_TextLength (k + lineCount r) (columnCount r))" for k a b t
    by (induction t arbitrary: a b) (auto simp: Let_def add.assoc)
  show ?case
  proof (cases "c = 10")
    case True
    have "tlen_from (new_TextLength 1 0) s = (let r = tlen_from (new_TextLength 0 0) s in new_TextLength (1 + lineCount r) (columnCount r))"
      using sh [of 1 0 0 s] by simp
    also have "tlen_from (new_TextLength 0 0) s = new_TextLength (int (length (splitLines_from [] False s)) - 1) (int (length (last (splitLines_from [] False s))))"
      using Cons.IH [of "[]"] Cons.prems by simp
    finally show ?thesis using True ne by simp
  next
    case False
    then show ?thesis using Cons.IH [of "line @ [c]"] Cons.prems by (simp add: add.commute)
  qed
qed simp

lemma lengthOfString_pack: "13 \<notin> set s \<Longrightarrow> lengthOfString s = pack (tlen s)"
  using splitLines_from_tlen [of s "[]"]
  by (simp add: lengthOfString_def splitLines_def Let_def pack_def tlen_def TextLength_zero_def) (metis TextLength.select_convs(1,2))

text \<open>The lines and the last columns of a text.\<close>

lemma tlen_append_counts:
  "lineCount (tlen (s @ t)) = lineCount (tlen s) + lineCount (tlen t)"
  "columnCount (tlen (s @ t)) = (if lineCount (tlen t) = 0 then columnCount (tlen s) + columnCount (tlen t) else columnCount (tlen t))"
  by (auto simp: tlen_append TextLength_add_def)

lemma tlen_counts_nonneg: "0 \<le> lineCount (tlen s)" "0 \<le> columnCount (tlen s)"
  using tlen_nonneg [of s] by (simp_all add: tl_nonneg_def)

lemma no_lines: "lineCount (tlen s) = 0 \<longleftrightarrow> LF \<notin> set s"
proof (induction s)
  case (Cons c s)
  then show ?case using tlen_counts_nonneg [of s] by (auto simp: tlen_Cons TextLength_add_def)
qed (simp add: TextLength_zero_def)

text \<open>C30: Packed lengths are the lengths in lines and columns, for columns below \<^verbatim>\<open>2^26\<close>: packing can be undone, and \<^verbatim>\<open>lengthAdd\<close>, \<^verbatim>\<open>lengthDiffNonNegative\<close>, the comparisons,
  \<^verbatim>\<open>lengthToPosition\<close> and, for a text without carriage returns, \<^verbatim>\<open>lengthOfString\<close> compute, in exact arithmetic, on packed lengths what \<^verbatim>\<open>TextLength\<close> computes on pairs.  When the
  line counts are below \<^verbatim>\<open>2^26\<close> too, a packed length has at most 52 bits and sums and differences stay below \<^verbatim>\<open>2^53\<close>, where doubles are exact.\<close>

theorem packed_length_refines:
  assumes "fits_packed a" "fits_packed b"
  shows "lengthToObj (pack a) = a \<and> 0 \<le> pack a \<and>
    (lineCount a < factor \<and> lineCount b < factor \<longrightarrow> pack a < 2 ^ 52 \<and> lengthAdd (pack a) (pack b) < 2 ^ 53 \<and> lengthDiffNonNegative (pack a) (pack b) < 2 ^ 53) \<and>
    lengthAdd (pack a) (pack b) = pack (TextLength_add a b) \<and>
    lengthDiffNonNegative (pack a) (pack b) = pack (TextLength_lengthDiffNonNegative a b) \<and>
    lengthLessThan (pack a) (pack b) = TextLength_isLessThan a b \<and>
    lengthGreaterThanEqual (pack a) (pack b) = TextLength_isGreaterThanOrEqualTo a b \<and>
    lengthEquals (pack a) (pack b) = TextLength_equals a b \<and>
    positionToLength (lengthToPosition (pack a)) = pack a \<and>
    (13 \<notin> set s \<longrightarrow> lengthOfString s = pack (tlen s))"
proof -
  have "pack a < 2 ^ 52 \<and> pack (TextLength_add a b) < 2 ^ 53 \<and> pack (TextLength_lengthDiffNonNegative a b) < 2 ^ 53" if "lineCount a < factor" "lineCount b < factor"
    using that assms by (auto simp: pack_def toLength_def fits_packed_def factor_def TextLength_add_def TextLength_lengthDiffNonNegative_def TextLength_zero_def)
  moreover have "positionToLength (lengthToPosition (pack a)) = pack a"
    by (simp add: positionToLength_def lengthToPosition_def Let_def toLength_def)
  ultimately show ?thesis
    using assms
    by (simp add: unpack pack_nonneg pack_add pack_diff lengthLessThan_def lengthGreaterThanEqual_def lengthEquals_def
        TextLength_compare_order pack_less pack_le pack_inject lengthOfString_pack)
qed

theorem packed_length_refines_witness:
  "fits_packed (new_TextLength 10 5) \<and> fits_packed (new_TextLength 20 3) \<and>
   lengthAdd (pack (new_TextLength 10 5)) (pack (new_TextLength 20 3)) = pack (new_TextLength 30 3)"
proof -
  have "fits_packed (new_TextLength 10 5)" "fits_packed (new_TextLength 20 3)" by (simp_all add: fits_packed_def factor_def)
  with packed_length_refines [of "new_TextLength 10 5" "new_TextLength 20 3"] show ?thesis by (simp add: TextLength_add_def)
qed

end
