(* ===== verification/Array_Queue.thy ===== *)
theory Array_Queue
  imports Js_Prelude
begin

text \<open>
  The class \<^verbatim>\<open>ArrayQueue\<close> of \<^verbatim>\<open>src/vs/base/common/arrays.ts\<close>: an array read from both ends.  Its contents are the elements between the two indices;
  the operations that take elements while a predicate holds look only at the bounds of the array.
\<close>

section \<open>Queues\<close>

record 'a ArrayQueue =
  aq_items :: "'a list"
  aq_firstIdx :: nat
  aq_lastIdx :: int

definition new_ArrayQueue :: "'a list \<Rightarrow> 'a ArrayQueue" where
  "new_ArrayQueue items = \<lparr>aq_items = items, aq_firstIdx = 0, aq_lastIdx = int (length items) - 1\<rparr>"

definition ArrayQueue_length :: "'a ArrayQueue \<Rightarrow> int" where
  "ArrayQueue_length q = aq_lastIdx q - int (aq_firstIdx q) + 1"

definition ArrayQueue_dequeue :: "'a ArrayQueue \<Rightarrow> 'a option \<times> 'a ArrayQueue" where
  "ArrayQueue_dequeue q = (js_at (aq_items q) (int (aq_firstIdx q)), q\<lparr>aq_firstIdx := aq_firstIdx q + 1\<rparr>)"

definition ArrayQueue_takeWhile :: "('a \<Rightarrow> bool) \<Rightarrow> 'a ArrayQueue \<Rightarrow> 'a list option \<times> 'a ArrayQueue" where
  "ArrayQueue_takeWhile predicate q =
     (let result = takeWhile predicate (drop (aq_firstIdx q) (aq_items q))
      in (if result = [] then None else Some result, q\<lparr>aq_firstIdx := aq_firstIdx q + length result\<rparr>))"

text \<open>The loop of \<^verbatim>\<open>takeFromEndWhile\<close> goes down to index 0.\<close>

definition ArrayQueue_takeFromEndWhile :: "('a \<Rightarrow> bool) \<Rightarrow> 'a ArrayQueue \<Rightarrow> 'a list option \<times> 'a ArrayQueue" where
  "ArrayQueue_takeFromEndWhile predicate q =
     (let result = rev (takeWhile predicate (rev (take (nat (aq_lastIdx q + 1)) (aq_items q))))
      in (if result = [] then None else Some result, q\<lparr>aq_lastIdx := aq_lastIdx q - int (length result)\<rparr>))"

definition ArrayQueue_peek :: "'a ArrayQueue \<Rightarrow> 'a option" where
  "ArrayQueue_peek q = (if ArrayQueue_length q = 0 then None else js_at (aq_items q) (int (aq_firstIdx q)))"

definition ArrayQueue_peekLast :: "'a ArrayQueue \<Rightarrow> 'a option" where
  "ArrayQueue_peekLast q = (if ArrayQueue_length q = 0 then None else js_at (aq_items q) (aq_lastIdx q))"

definition ArrayQueue_removeLast :: "'a ArrayQueue \<Rightarrow> 'a option \<times> 'a ArrayQueue" where
  "ArrayQueue_removeLast q = (js_at (aq_items q) (aq_lastIdx q), q\<lparr>aq_lastIdx := aq_lastIdx q - 1\<rparr>)"

definition ArrayQueue_takeCount :: "nat \<Rightarrow> 'a ArrayQueue \<Rightarrow> 'a list \<times> 'a ArrayQueue" where
  "ArrayQueue_takeCount count q = (take count (drop (aq_firstIdx q) (aq_items q)), q\<lparr>aq_firstIdx := aq_firstIdx q + count\<rparr>)"

section \<open>Queues that are only read from the front\<close>

text \<open>The elements that are left.\<close>

definition queued :: "'a ArrayQueue \<Rightarrow> 'a list" where
  "queued q = drop (aq_firstIdx q) (aq_items q)"

lemma queued_new [simp]: "queued (new_ArrayQueue xs) = xs"
  by (simp add: queued_def new_ArrayQueue_def)

lemma queued_dequeue:
  "fst (ArrayQueue_dequeue q) = (case queued q of [] \<Rightarrow> None | x # _ \<Rightarrow> Some x)" "queued (snd (ArrayQueue_dequeue q)) = tl (queued q)"
  by (auto simp: ArrayQueue_dequeue_def queued_def js_at_def drop_Suc tl_drop hd_drop_conv_nth split: list.split)
    (metis drop_eq_Nil hd_drop_conv_nth linorder_not_le list.sel(1))+

lemma takeWhile_True [simp]: "takeWhile (\<lambda>_. True) xs = xs"
  by (induction xs) auto

lemma queued_takeWhile_all:
  "fst (ArrayQueue_takeWhile (\<lambda>_. True) q) = (if queued q = [] then None else Some (queued q))"
  by (simp add: ArrayQueue_takeWhile_def queued_def)


section \<open>Both ends\<close>

definition aq_ok :: "'a ArrayQueue \<Rightarrow> bool" where
  "aq_ok q \<longleftrightarrow> int (aq_firstIdx q) \<le> aq_lastIdx q + 1 \<and> aq_lastIdx q < int (length (aq_items q))"

definition aq_content :: "'a ArrayQueue \<Rightarrow> 'a list" where
  "aq_content q = drop (aq_firstIdx q) (take (nat (aq_lastIdx q + 1)) (aq_items q))"

lemma aq_new: "aq_ok (new_ArrayQueue xs) \<and> aq_content (new_ArrayQueue xs) = xs"
  by (simp add: aq_ok_def aq_content_def new_ArrayQueue_def)

lemma aq_okE:
  assumes "aq_ok q"
  obtains n where "aq_lastIdx q = int n - 1" "aq_firstIdx q \<le> n" "n \<le> length (aq_items q)" "aq_content q = drop (aq_firstIdx q) (take n (aq_items q))"
proof -
  have "0 \<le> aq_lastIdx q + 1" using assms by (simp add: aq_ok_def)
  then obtain n where "aq_lastIdx q + 1 = int n" by (metis nat_0_le)
  with that [of n] assms show thesis by (simp add: aq_ok_def aq_content_def)
qed

lemma aq_length: "aq_ok q \<Longrightarrow> ArrayQueue_length q = int (length (aq_content q))"
  by (elim aq_okE) (simp add: ArrayQueue_length_def)

lemma aq_front:
  assumes "aq_ok q" "aq_content q = x # xs"
  shows "ArrayQueue_peek q = Some x \<and> fst (ArrayQueue_dequeue q) = Some x \<and>
    aq_ok (snd (ArrayQueue_dequeue q)) \<and> aq_content (snd (ArrayQueue_dequeue q)) = xs"
proof -
  obtain n where n: "aq_lastIdx q = int n - 1" "aq_firstIdx q \<le> n" "n \<le> length (aq_items q)" "drop (aq_firstIdx q) (take n (aq_items q)) = x # xs"
    using assms(2) by (auto intro: aq_okE [OF assms(1)])
  have "aq_firstIdx q < n"
  proof (rule ccontr)
    assume "\<not> aq_firstIdx q < n"
    with n(2,4) show False by simp
  qed
  with n Cons_nth_drop_Suc [of "aq_firstIdx q" "take n (aq_items q)"] show ?thesis
    by (simp add: ArrayQueue_peek_def ArrayQueue_dequeue_def ArrayQueue_length_def js_at_def aq_ok_def aq_content_def)
qed

lemma aq_back:
  assumes "aq_ok q" "aq_content q = xs @ [x]"
  shows "ArrayQueue_peekLast q = Some x \<and> fst (ArrayQueue_removeLast q) = Some x \<and>
    aq_ok (snd (ArrayQueue_removeLast q)) \<and> aq_content (snd (ArrayQueue_removeLast q)) = xs"
proof -
  obtain k where k: "aq_lastIdx q = int k - 1" "aq_firstIdx q \<le> k" "k \<le> length (aq_items q)" "drop (aq_firstIdx q) (take k (aq_items q)) = xs @ [x]"
    using assms(2) by (auto intro: aq_okE [OF assms(1)])
  have "aq_firstIdx q < k"
  proof (rule ccontr)
    assume "\<not> aq_firstIdx q < k"
    with k(2,4) show False by simp
  qed
  then obtain n where n: "k = Suc n" "aq_firstIdx q \<le> n" by (cases k) auto
  then have "drop (aq_firstIdx q) (take n (aq_items q)) @ [aq_items q ! n] = xs @ [x]"
    using k by (simp add: take_Suc_conv_app_nth)
  with n k show ?thesis
    by (simp add: ArrayQueue_peekLast_def ArrayQueue_removeLast_def ArrayQueue_length_def js_at_def aq_ok_def aq_content_def)
qed

text \<open>Taking while a predicate holds from a queue of which nothing was removed at the other end.\<close>

lemma aq_takeWhile:
  assumes "aq_ok q" "aq_lastIdx q = int (length (aq_items q)) - 1"
  shows "fst (ArrayQueue_takeWhile P q) = (case takeWhile P (aq_content q) of [] \<Rightarrow> None | xs \<Rightarrow> Some xs) \<and>
    aq_content (snd (ArrayQueue_takeWhile P q)) = dropWhile P (aq_content q)"
  using assms by (auto simp: ArrayQueue_takeWhile_def Let_def aq_content_def dropWhile_eq_drop add.commute split: list.splits)

lemma aq_takeFromEndWhile:
  assumes "aq_ok q" "aq_firstIdx q = 0"
  shows "fst (ArrayQueue_takeFromEndWhile P q) = (case rev (takeWhile P (rev (aq_content q))) of [] \<Rightarrow> None | xs \<Rightarrow> Some xs) \<and>
    aq_content (snd (ArrayQueue_takeFromEndWhile P q)) = rev (dropWhile P (rev (aq_content q)))"
proof -
  obtain n where n: "aq_lastIdx q + 1 = int n" "n \<le> length (aq_items q)" by (rule aq_okE [OF assms(1)]) simp
  let ?k = "length (takeWhile P (rev (take n (aq_items q))))"
  have k: "?k \<le> n" using length_takeWhile_le [of P "rev (take n (aq_items q))"] n(2) by simp
  have "rev (dropWhile P (rev (take n (aq_items q)))) = take (n - ?k) (take n (aq_items q))"
    using n(2) by (simp add: dropWhile_eq_drop rev_drop)
  moreover have "nat (aq_lastIdx q - int ?k + 1) = n - ?k" using n k by linarith
  ultimately show ?thesis
    using n assms(2) by (auto simp: ArrayQueue_takeFromEndWhile_def Let_def aq_content_def min_def split: list.splits)
qed

text \<open>What was removed from the end is still taken from the front.\<close>

lemma takeWhile_ignores_lastIdx:
  "fst (ArrayQueue_takeWhile (\<lambda>_. True) (snd (ArrayQueue_removeLast (new_ArrayQueue [1, 2 :: int])))) = Some [1, 2]"
  by (simp add: ArrayQueue_takeWhile_def ArrayQueue_removeLast_def new_ArrayQueue_def Let_def)

lemma takeFromEndWhile_ignores_firstIdx:
  "fst (ArrayQueue_takeFromEndWhile (\<lambda>_. True) (snd (ArrayQueue_dequeue (new_ArrayQueue [1, 2 :: int])))) = Some [1, 2]"
  by (simp add: ArrayQueue_takeFromEndWhile_def ArrayQueue_dequeue_def new_ArrayQueue_def Let_def)

end
