(* ===== verification/Edit_Infos.thy ===== *)
theory Edit_Infos
  imports Bracket_Length Array_Queue
begin

text \<open>
  \<^verbatim>\<open>combineTextEditInfos.ts\<close> of the bracket pair trees: edits of which only the packed lengths are known.  Such a list of edits describes a change of one text into
  another, and combining two lists describes both changes together.
\<close>

section \<open>Combining edits\<close>

record TextEditInfo =
  startOffset :: Length
  endOffset :: Length
  newLength :: Length

definition new_TextEditInfo :: "Length \<Rightarrow> Length \<Rightarrow> Length \<Rightarrow> TextEditInfo" where
  "new_TextEditInfo s e n = \<lparr>startOffset = s, endOffset = e, newLength = n\<rparr>"

record LengthMapping =
  modified :: bool
  lengthBefore :: Length
  lengthAfter :: Length

definition new_LengthMapping :: "bool \<Rightarrow> Length \<Rightarrow> Length \<Rightarrow> LengthMapping" where
  "new_LengthMapping m b a = \<lparr>modified = m, lengthBefore = b, lengthAfter = a\<rparr>"

definition LengthMapping_splitAt :: "LengthMapping \<Rightarrow> Length \<Rightarrow> LengthMapping \<times> LengthMapping option" where
  "LengthMapping_splitAt this l =
     (let remainingLengthAfter = lengthDiffNonNegative l (lengthAfter this)
      in if lengthEquals remainingLengthAfter lengthZero then (this, None)
         else if modified this then
           (new_LengthMapping (modified this) (lengthBefore this) l,
            Some (new_LengthMapping (modified this) lengthZero remainingLengthAfter))
         else
           (new_LengthMapping (modified this) l l,
            Some (new_LengthMapping (modified this) remainingLengthAfter remainingLengthAfter)))"

fun toLengthMapping_loop :: "TextEditInfo list \<Rightarrow> Length \<Rightarrow> LengthMapping list" where
  "toLengthMapping_loop [] lastOffset = []"
| "toLengthMapping_loop (e # es) lastOffset =
     (let spaceLength = lengthDiffNonNegative lastOffset (startOffset e);
          before = lengthDiffNonNegative (startOffset e) (endOffset e)
      in (if \<not> lengthIsZero spaceLength then [new_LengthMapping False spaceLength spaceLength] else []) @
         new_LengthMapping True before (newLength e) # toLengthMapping_loop es (endOffset e))"

definition toLengthMapping :: "TextEditInfo list \<Rightarrow> LengthMapping list" where
  "toLengthMapping es = toLengthMapping_loop es lengthZero"

text \<open>The state of the two closures: the current item and the queue.\<close>

type_synonym mapping_state = "LengthMapping option \<times> LengthMapping ArrayQueue"

definition waiting :: "mapping_state \<Rightarrow> LengthMapping list" where
  "waiting st = (case fst st of None \<Rightarrow> [] | Some m \<Rightarrow> m # queued (snd st))"

definition next_item :: "Length \<Rightarrow> LengthMapping \<Rightarrow> LengthMapping ArrayQueue \<Rightarrow> LengthMapping \<times> mapping_state" where
  "next_item s1Length curItem q =
     (case LengthMapping_splitAt curItem s1Length of (item, remainingItem) \<Rightarrow>
        (item, case remainingItem of Some m \<Rightarrow> (Some m, q) | None \<Rightarrow> ArrayQueue_dequeue q))"

lemma next_item_waiting:
  assumes "next_item l m q = (item, st)"
  shows "waiting st = queued q \<or> lengthAfter item = l \<and> length (waiting st) = Suc (length (queued q))"
  using assms queued_dequeue [of q]
  by (auto simp: next_item_def LengthMapping_splitAt_def Let_def waiting_def new_LengthMapping_def split: if_splits prod.splits option.splits list.splits)

lemma lengthDiffNonNegative_self [simp]: "lengthDiffNonNegative l l = 0"
  by (simp add: lengthDiffNonNegative_def lengthZero_def)

function next_loop :: "Length \<Rightarrow> mapping_state \<Rightarrow> LengthMapping list \<times> Length \<times> mapping_state" where
  "next_loop s1Length st =
     (case fst st of
        None \<Rightarrow> ([], s1Length, st)
      | Some curItem \<Rightarrow>
          if lengthIsZero s1Length then ([], s1Length, st)
          else
            (case next_item s1Length curItem (snd st) of (item, st2) \<Rightarrow>
               (case next_loop (lengthDiffNonNegative (lengthAfter item) s1Length) st2 of (items, rest) \<Rightarrow> (item # items, rest))))"
  by pat_completeness auto

termination
proof (relation "(\<lambda>(l, st). length (waiting st)) <*mlex*> measure (\<lambda>(l, st). if lengthIsZero l then 0 else 1)", goal_cases)
  case 1
  show ?case by (intro wf_mlex wf_measure)
next
  case (2 l st m item st2)
  then have "next_item l m (snd st) = (item, st2)" "length (waiting st) = Suc (length (queued (snd st)))" by (auto simp: waiting_def)
  moreover from next_item_waiting [OF this(1)]
  have "length (waiting st2) < length (waiting st) \<or> lengthAfter item = l \<and> length (waiting st2) \<le> length (waiting st)"
    using calculation(2) by auto
  ultimately show ?case
    using 2(2) by (elim disjE conjE) (auto simp: mlex_less mlex_leq lengthIsZero_def)
qed

declare next_loop.simps [simp del]

definition nextS0ToS1MapWithS1LengthOf :: "Length option \<Rightarrow> mapping_state \<Rightarrow> LengthMapping list \<times> mapping_state" where
  "nextS0ToS1MapWithS1LengthOf s1Length st =
     (case s1Length of
        None \<Rightarrow>
          (case ArrayQueue_takeWhile (\<lambda>_. True) (snd st) of (taken, q) \<Rightarrow>
             let arr = (case taken of None \<Rightarrow> [] | Some xs \<Rightarrow> xs)
             in (case fst st of None \<Rightarrow> arr | Some m \<Rightarrow> m # arr, (fst st, q)))
      | Some l \<Rightarrow>
          (case next_loop l st of (items, l2, st2) \<Rightarrow>
             (if \<not> lengthIsZero l2 then items @ [new_LengthMapping False l2 l2] else items, st2)))"

definition pushEdit :: "TextEditInfo list \<Rightarrow> Length \<Rightarrow> Length \<Rightarrow> Length \<Rightarrow> TextEditInfo list" where
  "pushEdit result s e n =
     (if result \<noteq> [] \<and> lengthEquals (endOffset (last result)) s then
        let lastResult = last result
        in butlast result @ [new_TextEditInfo (startOffset lastResult) e (lengthAdd (newLength lastResult) n)]
      else result @ [new_TextEditInfo s e n])"

fun copy_loop :: "LengthMapping list \<Rightarrow> TextEditInfo list \<Rightarrow> Length \<Rightarrow> TextEditInfo list \<times> Length" where
  "copy_loop [] result s0offset = (result, s0offset)"
| "copy_loop (s1 # ms) result s0startOffset =
     (let s0offset = lengthAdd s0startOffset (lengthBefore s1)
      in copy_loop ms (if modified s1 then pushEdit result s0startOffset s0offset (lengthAfter s1) else result) s0offset)"

text \<open>The last item, which copies everything, is \<open>None\<close>.\<close>

fun combine_loop :: "LengthMapping option list \<Rightarrow> TextEditInfo list \<Rightarrow> Length \<Rightarrow> mapping_state \<Rightarrow> TextEditInfo list" where
  "combine_loop [] result s0offset st = result"
| "combine_loop (s1ToS2 # rest) result s0offset st =
     (case nextS0ToS1MapWithS1LengthOf (map_option lengthBefore s1ToS2) st of (s0ToS1Map, st2) \<Rightarrow>
        (case s1ToS2 of
           Some m \<Rightarrow>
             if modified m then
               let s0Length = sumLengths s0ToS1Map lengthBefore; s0EndOffset = lengthAdd s0offset s0Length
               in combine_loop rest (pushEdit result s0offset s0EndOffset (lengthAfter m)) s0EndOffset st2
             else (case copy_loop s0ToS1Map result s0offset of (result2, s0offset2) \<Rightarrow> combine_loop rest result2 s0offset2 st2)
         | None \<Rightarrow> (case copy_loop s0ToS1Map result s0offset of (result2, s0offset2) \<Rightarrow> combine_loop rest result2 s0offset2 st2)))"

definition combineTextEditInfos :: "TextEditInfo list \<Rightarrow> TextEditInfo list \<Rightarrow> TextEditInfo list" where
  "combineTextEditInfos first second =
     (if length first = 0 then second
      else if length second = 0 then first
      else combine_loop (map Some (toLengthMapping second) @ [None]) [] lengthZero
             (ArrayQueue_dequeue (new_ArrayQueue (toLengthMapping first))))"

section \<open>Texts whose lines are not too long\<close>

definition short :: "js_string \<Rightarrow> bool" where
  "short s \<longleftrightarrow> (\<forall>a b c. s = a @ b @ c \<longrightarrow> columnCount (tlen b) < 2 ^ 25)"

definition plen :: "js_string \<Rightarrow> Length" where
  "plen s = pack (tlen s)"

lemma short_append: "short (s @ t) \<Longrightarrow> short s \<and> short t"
  unfolding short_def by (metis append.assoc)

lemma short_columns: "short s \<Longrightarrow> columnCount (tlen s) < 2 ^ 25"
  unfolding short_def by (metis append.right_neutral append_Nil)

lemma short_Nil [simp]: "short []"
  by (simp add: short_def TextLength_zero_def)

lemma columns_le_length: "columnCount (tlen s) \<le> int (length s)"
  by (induction s rule: rev_induct) (auto simp: tlen_append tlen_single TextLength_add_def TextLength_zero_def)

lemma short_small: "length s < 2 ^ 25 \<Longrightarrow> short s"
  unfolding short_def
proof (intro allI impI)
  fix a b c assume "length s < 2 ^ 25" "s = a @ b @ c"
  then have "int (length b) < 2 ^ 25" by simp
  with columns_le_length [of b] show "columnCount (tlen b) < 2 ^ 25" by (rule le_less_trans)
qed

lemma short_fits: "short s \<Longrightarrow> fits_packed (tlen s)"
  using short_columns [of s] tlen_nonneg [of s] by (simp add: fits_packed_def tl_nonneg_def factor_def)

lemma fits_packed_append:
  assumes "short s" "short t"
  shows "fits_packed (tlen (s @ t))"
proof -
  have "columnCount (tlen s) + columnCount (tlen t) < factor"
    using short_columns [OF assms(1)] short_columns [OF assms(2)] by (simp add: factor_def)
  with assms show ?thesis
    using tlen_nonneg [of s] tlen_nonneg [of t] by (auto simp: fits_packed_def tl_nonneg_def tlen_append TextLength_add_def)
qed

lemma plen_append: "short s \<Longrightarrow> short t \<Longrightarrow> lengthAdd (plen s) (plen t) = plen (s @ t)"
  by (simp add: plen_def pack_add short_fits tlen_append)

lemma plen_diff: "short s \<Longrightarrow> short t \<Longrightarrow> lengthDiffNonNegative (plen s) (plen (s @ t)) = plen t"
  by (simp add: plen_def pack_diff short_fits fits_packed_append) (simp add: tlen_append TextLength_diff_add)

lemma plen_Nil [simp]: "plen [] = 0"
  by (simp add: plen_def pack_def toLength_def TextLength_zero_def)

lemma tlen_eq_zero: "tlen s = TextLength_zero \<longleftrightarrow> s = []"
proof
  assume z: "tlen s = TextLength_zero"
  show "s = []"
  proof (cases s)
    case (Cons c u)
    with z tlen_nonneg [of u] show ?thesis by (auto simp: tlen_Cons TextLength_add_def TextLength_zero_def tl_nonneg_def split: if_splits)
  qed simp
qed simp

lemma plen_zero_iff: "short s \<Longrightarrow> plen s = 0 \<longleftrightarrow> s = []"
  using pack_inject [OF short_fits short_fits, of s "[]"] by (simp add: plen_def tlen_eq_zero) (simp add: pack_def toLength_def TextLength_zero_def)

lemma plen_le_append:
  assumes "short s" "short t"
  shows "plen s \<le> plen (s @ t)"
proof -
  have "tlen s \<le> tlen (s @ t)"
    using tlen_nonneg [of t] by (auto simp: tlen_append TextLength_add_def TextLength_order_iff tl_nonneg_def)
  then show ?thesis using assms by (simp add: plen_def pack_le short_fits fits_packed_append)
qed

lemma plen_diff_prefix: "short s \<Longrightarrow> short t \<Longrightarrow> lengthDiffNonNegative (plen (s @ t)) (plen s) = 0"
  using plen_le_append [of s t] by (simp add: lengthDiffNonNegative_def lengthZero_def)

lemma plen_append_eq: "short s \<Longrightarrow> short t \<Longrightarrow> plen (s @ t) = plen s \<longleftrightarrow> t = []"
  using plen_diff [of s t] plen_zero_iff [of t] by auto

section \<open>Edits between texts\<close>

text \<open>\<open>describes_from p es s t\<close>: behind the prefix \<open>p\<close>, the edits change \<open>s\<close> into \<open>t\<close>.\<close>

inductive describes_from :: "js_string \<Rightarrow> TextEditInfo list \<Rightarrow> js_string \<Rightarrow> js_string \<Rightarrow> bool" where
  describes_Nil: "describes_from p [] s s"
| describes_Cons: "describes_from (p @ u @ d) es s t \<Longrightarrow>
    e = new_TextEditInfo (plen (p @ u)) (plen (p @ u @ d)) (plen n) \<Longrightarrow> describes_from p (e # es) (u @ d @ s) (u @ n @ t)"

definition describes :: "TextEditInfo list \<Rightarrow> js_string \<Rightarrow> js_string \<Rightarrow> bool" where
  "describes es s t \<longleftrightarrow> describes_from [] es s t"

lemma describes_common: "describes_from p es s t \<Longrightarrow> describes_from p es (s @ u) (t @ u)"
proof (induction rule: describes_from.induct)
  case (describes_Cons p u' d es s t e n)
  then show ?case using describes_from.describes_Cons [of p u' d es "s @ u" "t @ u" e n] by simp
qed (simp add: describes_Nil)

lemma describes_snoc:
  "describes_from p es s t \<Longrightarrow> describes_from p (es @ [new_TextEditInfo (plen (p @ s)) (plen (p @ s @ d)) (plen n)]) (s @ d) (t @ n)"
proof (induction rule: describes_from.induct)
  case (describes_Nil p s)
  then show ?case using describes_Cons [OF describes_from.describes_Nil [of "p @ s @ d" "[]"] refl, of n] by simp
next
  case (describes_Cons p u d' es s t e n')
  then show ?case using describes_from.describes_Cons [of p u d' _ "s @ d" "t @ n" e n'] by simp
qed

lemma describes_merge:
  assumes "describes_from p es s t" "es \<noteq> []" "endOffset (last es) = plen (p @ s)" "short (p @ s)" "short t" "short n"
  shows "describes_from p (butlast es @ [new_TextEditInfo (startOffset (last es)) (plen (p @ s @ d)) (lengthAdd (newLength (last es)) (plen n))])
    (s @ d) (t @ n)"
  using assms
proof (induction rule: describes_from.induct)
  case (describes_Cons p u d' es s t e n')
  show ?case
  proof (cases "es = []")
    case True
    then have t: "t = s" using describes_Cons(1) by (auto elim: describes_from.cases)
    have sh: "short (p @ u @ d')" "short s" "short n'" using describes_Cons.prems short_append [of "p @ u @ d'" s] short_append [of "u @ n'"] short_append [of u n'] t
      by (auto dest: short_append)
    moreover have "plen ((p @ u @ d') @ s) = plen (p @ u @ d')" using describes_Cons True by (simp add: new_TextEditInfo_def)
    ultimately have "s = []" using plen_append_eq by blast
    with True t describes_Cons sh show ?thesis
      using describes_from.describes_Cons [of p u "d' @ d" "[]" "[]" "[]" _ "n' @ n"] describes_Nil [of "p @ u @ d' @ d" "[]"]
      by (simp add: new_TextEditInfo_def plen_append)
  next
    case False
    have "describes_from (p @ u @ d') (butlast es @ [new_TextEditInfo (startOffset (last es)) (plen ((p @ u @ d') @ s @ d)) (lengthAdd (newLength (last es)) (plen n))]) (s @ d) (t @ n)"
      using describes_Cons False by (intro describes_Cons.IH) (auto dest: short_append)
    from describes_from.describes_Cons [OF this describes_Cons(2)] False show ?thesis by simp
  qed
qed simp

lemma pushEdit_describes:
  assumes "describes es s t" "short s" "short t" "short n"
  shows "describes (pushEdit es (plen s) (plen (s @ d)) (plen n)) (s @ d) (t @ n)"
  using assms describes_snoc [of "[]" es s t d n] describes_merge [of "[]" es s t n d]
  by (auto simp: describes_def pushEdit_def lengthEquals_def Let_def)

section \<open>Length mappings between texts\<close>

inductive maps :: "LengthMapping list \<Rightarrow> js_string \<Rightarrow> js_string \<Rightarrow> bool" where
  maps_Nil: "maps [] [] []"
| maps_Cons: "maps ms s t \<Longrightarrow> lengthBefore m = plen b \<Longrightarrow> lengthAfter m = plen a \<Longrightarrow> modified m \<or> a = b \<Longrightarrow> maps (m # ms) (b @ s) (a @ t)"

inductive_cases maps_ConsE: "maps (m # ms) s t"

text \<open>The mappings, and behind them the same text.\<close>

definition covers :: "LengthMapping list \<Rightarrow> js_string \<Rightarrow> js_string \<Rightarrow> bool" where
  "covers ms s t \<longleftrightarrow> (\<exists>s1 t1 r. s = s1 @ r \<and> t = t1 @ r \<and> maps ms s1 t1)"

lemma covers_Nil: "covers [] s t \<longleftrightarrow> s = t"
proof
  show "covers [] s t" if "s = t" using that unfolding covers_def by (intro exI [of _ "[]"] exI [of _ t]) (simp add: maps_Nil)
qed (auto simp: covers_def elim: maps.cases)

lemma covers_Cons:
  "covers (m # ms) s t \<longleftrightarrow> (\<exists>b a s1 t1. s = b @ s1 \<and> t = a @ t1 \<and> covers ms s1 t1 \<and> lengthBefore m = plen b \<and> lengthAfter m = plen a \<and> (modified m \<or> a = b))"
proof
  assume "covers (m # ms) s t"
  then obtain s1 t1 r where "s = s1 @ r" "t = t1 @ r" "maps (m # ms) s1 t1" by (auto simp: covers_def)
  then show "\<exists>b a s1 t1. s = b @ s1 \<and> t = a @ t1 \<and> covers ms s1 t1 \<and> lengthBefore m = plen b \<and> lengthAfter m = plen a \<and> (modified m \<or> a = b)"
    unfolding covers_def by (elim maps_ConsE) (simp, metis)
next
  assume "\<exists>b a s1 t1. s = b @ s1 \<and> t = a @ t1 \<and> covers ms s1 t1 \<and> lengthBefore m = plen b \<and> lengthAfter m = plen a \<and> (modified m \<or> a = b)"
  then show "covers (m # ms) s t" unfolding covers_def using maps_Cons by (metis append.assoc)
qed

lemma covers_ConsI:
  "covers ms s t \<Longrightarrow> lengthBefore m = plen b \<Longrightarrow> lengthAfter m = plen a \<Longrightarrow> modified m \<or> a = b \<Longrightarrow> covers (m # ms) (b @ s) (a @ t)"
  unfolding covers_Cons by blast

lemma toLengthMapping_covers:
  assumes "describes_from p es s t" "short (p @ s)" "short t"
  shows "covers (toLengthMapping_loop es (plen p)) s t"
  using assms
proof (induction rule: describes_from.induct)
  case (describes_Cons p u d es s t e n)
  have sh: "short (p @ u @ d)" "short (p @ u)" "short u" "short d" "short p" "short s"
    using describes_Cons.prems(1) short_append [of "p @ u" "d @ s"] short_append [of "p @ u @ d" s] short_append [of p u] short_append [of d s] by auto
  have IH: "covers (toLengthMapping_loop es (plen (p @ u @ d))) s t"
    using describes_Cons by (auto dest: short_append)
  have sp: "lengthDiffNonNegative (plen p) (plen (p @ u)) = plen u" using sh plen_diff by blast
  have bf: "lengthDiffNonNegative (plen (p @ u)) (plen (p @ u @ d)) = plen d" using sh plen_diff [of "p @ u" d] by simp
  have c: "covers (new_LengthMapping True (plen d) (plen n) # toLengthMapping_loop es (plen (p @ u @ d))) (d @ s) (n @ t)"
    using IH unfolding covers_Cons by (fastforce simp: new_LengthMapping_def)
  have "covers (new_LengthMapping False (plen u) (plen u) # new_LengthMapping True (plen d) (plen n) # toLengthMapping_loop es (plen (p @ u @ d)))
      (u @ d @ s) (u @ n @ t)"
    unfolding covers_Cons [of "new_LengthMapping False (plen u) (plen u)"] using c by (fastforce simp: new_LengthMapping_def)
  with c show ?case
    using describes_Cons(2) sh plen_zero_iff [of u]
    by (auto simp: Let_def sp bf new_TextEditInfo_def lengthIsZero_def)
qed (simp add: covers_Nil)

text \<open>Taking mappings for a text \<open>x\<close> in the middle.\<close>

lemma splitAt_longer:
  assumes "lengthAfter m = plen (x @ y)" "y \<noteq> []" "short x" "short y"
  shows "LengthMapping_splitAt m (plen x) =
    (if modified m then (new_LengthMapping True (lengthBefore m) (plen x), Some (new_LengthMapping True 0 (plen y)))
     else (new_LengthMapping False (plen x) (plen x), Some (new_LengthMapping False (plen y) (plen y))))"
  using assms plen_diff [of x y] plen_zero_iff [of y]
  by (auto simp: LengthMapping_splitAt_def Let_def lengthEquals_def lengthZero_def)

lemma splitAt_shorter:
  assumes "lengthAfter m = plen a" "short a" "short y"
  shows "LengthMapping_splitAt m (plen (a @ y)) = (m, None)"
  using assms plen_diff_prefix [of a y] by (simp add: LengthMapping_splitAt_def lengthEquals_def lengthZero_def)

lemma next_loop_covers:
  assumes "covers (waiting st) s (x @ t)" "short s" "short (x @ t)" "next_loop (plen x) st = (items, l2, st2)"
  shows "\<exists>s1 s2 x1 x2. s = s1 @ s2 \<and> x = x1 @ x2 \<and> l2 = plen x2 \<and> maps items s1 x1 \<and> covers (waiting st2) s2 (x2 @ t) \<and>
    (x2 = [] \<or> waiting st2 = [])"
  using assms
proof (induction "plen x" st arbitrary: x s items rule: next_loop.induct)
  case (1 st)
  note shx = short_append [OF 1(4)]
  show ?case
  proof (cases "fst st = None \<or> x = []")
    case True
    then have "items = []" "l2 = plen x" "st2 = st"
      using 1(5) by (auto simp: next_loop.simps [of "plen x" st] lengthIsZero_def split: option.splits)
    moreover have "waiting st = []" if "fst st = None" using that by (simp add: waiting_def)
    ultimately show ?thesis using True 1(2)
      by (intro exI [of _ "[]"] exI [of _ s] exI [of _ x]) (auto intro: maps_Nil)
  next
    case False
    then obtain m where m: "fst st = Some m" by auto
    then have w: "waiting st = m # queued (snd st)" by (simp add: waiting_def)
    obtain item st' where ni: "next_item (plen x) m (snd st) = (item, st')" by (cases "next_item (plen x) m (snd st)")
    obtain items' where nl: "next_loop (lengthDiffNonNegative (lengthAfter item) (plen x)) st' = (items', l2, st2)" "items = item # items'"
      using 1(5) False shx plen_zero_iff [of x] by (auto simp: next_loop.simps [of "plen x" st] m ni lengthIsZero_def split: prod.splits)
    obtain b a s' t' where c: "s = b @ s'" "x @ t = a @ t'" "covers (queued (snd st)) s' t'" "lengthBefore m = plen b" "lengthAfter m = plen a" "modified m \<or> a = b"
      using 1(2) unfolding w covers_Cons by blast
    have IH: "\<exists>s1 s2 x1 x2. s'' = s1 @ s2 \<and> x'' = x1 @ x2 \<and> l2 = plen x2 \<and> maps items' s1 x1 \<and> covers (waiting st2) s2 (x2 @ t) \<and> (x2 = [] \<or> waiting st2 = [])"
      if "lengthDiffNonNegative (lengthAfter item) (plen x) = plen x''" "covers (waiting st') s'' (x'' @ t)" "short s''" "short (x'' @ t)" for s'' x''
    proof (rule 1(1) [OF m _ ni [symmetric] that(1) that(2-4)])
      show "\<not> lengthIsZero (plen x)" using False shx plen_zero_iff [of x] by (simp add: lengthIsZero_def)
      show "next_loop (plen x'') st' = (items', l2, st2)" using nl(1) that(1) by simp
    qed
    from c(2) obtain y where "x = a @ y \<and> y @ t = t' \<or> a = x @ y \<and> y \<noteq> [] \<and> t = y @ t'"
      unfolding append_eq_append_conv2 by (metis append.right_neutral append_Nil)
    then consider (shorter) "x = a @ y" "t' = y @ t" | (longer) "a = x @ y" "y \<noteq> []" "t = y @ t'" by blast
    then show ?thesis
    proof cases
      case shorter
      have sh: "short a" "short y" using shx shorter(1) short_append [of a y] by auto
      then have "LengthMapping_splitAt m (plen x) = (m, None)" using splitAt_shorter [OF c(5)] shorter(1) by simp
      then have i: "item = m" "waiting st' = queued (snd st)"
        using ni queued_dequeue [of "snd st"] by (auto simp: next_item_def waiting_def split: list.splits option.splits)
      have "lengthDiffNonNegative (lengthAfter item) (plen x) = plen y" using i c(5) shorter(1) sh by (simp add: plen_diff)
      then obtain s1 s2 x1 x2 where r: "s' = s1 @ s2" "y = x1 @ x2" "l2 = plen x2" "maps items' s1 x1" "covers (waiting st2) s2 (x2 @ t)" "x2 = [] \<or> waiting st2 = []"
        using IH [of y s'] c(1,3) i shorter 1(3,4) short_append [of b s'] short_append [of a "y @ t"] by auto
      then show ?thesis
        using nl(2) i c maps_Cons [OF r(4) c(4,5,6)] shorter(1)
        by (intro exI [of _ "b @ s1"] exI [of _ s2] exI [of _ "a @ x1"] exI [of _ x2]) simp
    next
      case longer
      have sh: "short x" "short y" using 1(4) longer(3) short_append [of x "y @ t'"] short_append [of y t'] by auto
      note sp = splitAt_longer [OF c(5) [unfolded longer(1)] longer(2) sh]
      show ?thesis
      proof (cases "modified m")
        case True
        with sp ni have i: "item = new_LengthMapping True (plen b) (plen x)" "waiting st' = new_LengthMapping True 0 (plen y) # queued (snd st)"
          using c(4) by (auto simp: next_item_def waiting_def)
        have cv: "covers (waiting st') s' ([] @ t)"
          unfolding i longer(3) using covers_ConsI [OF c(3), of "new_LengthMapping True 0 (plen y)" "[]" y] by (simp add: new_LengthMapping_def)
        have "lengthDiffNonNegative (lengthAfter item) (plen x) = plen []" by (simp add: i new_LengthMapping_def)
        from IH [OF this cv] obtain s1 s2 where r: "s' = s1 @ s2" "l2 = plen []" "maps items' s1 []" "covers (waiting st2) s2 t"
          using c(1) 1(3,4) short_append [of b s'] short_append [of x t] by auto
        then show ?thesis
          using nl(2) i c(1) maps_Cons [OF r(3), of item b x]
          by (intro exI [of _ "b @ s1"] exI [of _ s2] exI [of _ x] exI [of _ "[]"]) (simp add: new_LengthMapping_def)
      next
        case False
        then have b: "b = x @ y" using c(6) longer(1) by simp
        from False sp ni have i: "item = new_LengthMapping False (plen x) (plen x)" "waiting st' = new_LengthMapping False (plen y) (plen y) # queued (snd st)"
          by (auto simp: next_item_def waiting_def)
        have cv: "covers (waiting st') (y @ s') ([] @ t)"
          unfolding i longer(3) using covers_ConsI [OF c(3), of "new_LengthMapping False (plen y) (plen y)" y y] by (simp add: new_LengthMapping_def)
        have "lengthDiffNonNegative (lengthAfter item) (plen x) = plen []" by (simp add: i new_LengthMapping_def)
        from IH [OF this cv] obtain s1 s2 where r: "y @ s' = s1 @ s2" "l2 = plen []" "maps items' s1 []" "covers (waiting st2) s2 t"
          using c(1) b 1(3,4) short_append [of x "y @ s'"] short_append [of x t] by auto
        then show ?thesis
          using nl(2) i c(1) b maps_Cons [OF r(3), of item x x]
          by (intro exI [of _ "x @ s1"] exI [of _ s2] exI [of _ x] exI [of _ "[]"]) (simp add: new_LengthMapping_def)
      qed
    qed
  qed
qed

lemma maps_append: "maps ms s t \<Longrightarrow> maps ms' s' t' \<Longrightarrow> maps (ms @ ms') (s @ s') (t @ t')"
  by (induction rule: maps.induct) (auto intro: maps_Cons)

lemma maps_identity: "maps [new_LengthMapping False (plen u) (plen u)] u u"
  using maps_Cons [OF maps_Nil, of "new_LengthMapping False (plen u) (plen u)" u u] by (simp add: new_LengthMapping_def)

lemma next_covers:
  assumes "covers (waiting st) s (x @ t)" "short s" "short (x @ t)" "nextS0ToS1MapWithS1LengthOf (Some (plen x)) st = (ms, st2)"
  shows "\<exists>s1 s2. s = s1 @ s2 \<and> maps ms s1 x \<and> covers (waiting st2) s2 t"
proof -
  obtain items l2 where nl: "next_loop (plen x) st = (items, l2, st2)"
    "ms = (if \<not> lengthIsZero l2 then items @ [new_LengthMapping False l2 l2] else items)"
    using assms(4) by (auto simp: nextS0ToS1MapWithS1LengthOf_def split: prod.splits)
  from next_loop_covers [OF assms(1-3) nl(1)] obtain s1 s2 x1 x2
    where r: "s = s1 @ s2" "x = x1 @ x2" "l2 = plen x2" "maps items s1 x1" "covers (waiting st2) s2 (x2 @ t)" "x2 = [] \<or> waiting st2 = []" by blast
  show ?thesis
  proof (cases "x2 = []")
    case True
    with r nl(2) show ?thesis by (auto simp: lengthIsZero_def)
  next
    case False
    then have "s2 = x2 @ t" "waiting st2 = []" using r by (simp_all add: covers_Nil)
    moreover have "short x2" using assms(3) r(2) short_append [of "x1 @ x2" t] short_append [of x1 x2] by simp
    ultimately show ?thesis
      using r nl(2) False plen_zero_iff [of x2] maps_append [OF r(4) maps_identity [of x2]]
      by (auto simp: lengthIsZero_def covers_Nil)
  qed
qed

text \<open>The current item is missing only when the queue is empty.\<close>

definition settled :: "mapping_state \<Rightarrow> bool" where
  "settled st \<longleftrightarrow> (fst st = None \<longrightarrow> queued (snd st) = [])"

lemma dequeue_settled: "settled (ArrayQueue_dequeue q)" "waiting (ArrayQueue_dequeue q) = queued q"
  using queued_dequeue [of q] by (auto simp: settled_def waiting_def split: list.splits)

lemma next_loop_settled: "settled st \<Longrightarrow> next_loop l st = (items, l2, st2) \<Longrightarrow> settled st2"
proof (induction l st arbitrary: items rule: next_loop.induct)
  case (1 l st)
  have "settled (snd (next_item l m q))" for m q
    using dequeue_settled(1) [of q] by (auto simp: next_item_def settled_def split: prod.splits option.splits)
  with 1 show ?case
    by (auto simp: next_loop.simps [of l st] split: option.splits if_splits prod.splits) (metis snd_conv)+
qed

lemma next_settled: "settled st \<Longrightarrow> nextS0ToS1MapWithS1LengthOf (Some l) st = (ms, st2) \<Longrightarrow> settled st2"
  using next_loop_settled [of st l] by (auto simp: nextS0ToS1MapWithS1LengthOf_def split: prod.splits)

lemma next_all: "settled st \<Longrightarrow> fst (nextS0ToS1MapWithS1LengthOf None st) = waiting st"
  using queued_takeWhile_all [of "snd st"]
  by (auto simp: nextS0ToS1MapWithS1LengthOf_def settled_def waiting_def Let_def split: prod.splits option.splits if_splits)

section \<open>The combined edits\<close>

lemma copy_loop_describes:
  assumes "maps ms s x" "describes es p q" "short (p @ s)" "short (q @ x)" "copy_loop ms es (plen p) = (es', l')"
  shows "describes es' (p @ s) (q @ x) \<and> l' = plen (p @ s)"
  using assms
proof (induction arbitrary: es p q rule: maps.induct)
  case (maps_Cons ms s t m b a)
  have sh: "short p" "short b" "short q" "short a" "short (p @ b)" "short (q @ a)"
    using maps_Cons.prems(2,3) short_append [of "p @ b" s] short_append [of p b] short_append [of "q @ a" t] short_append [of q a] by auto
  have o: "lengthAdd (plen p) (lengthBefore m) = plen (p @ b)" using sh maps_Cons(2) by (simp add: plen_append)
  let ?es = "if modified m then pushEdit es (plen p) (plen (p @ b)) (plen a) else es"
  have d: "describes ?es (p @ b) (q @ a)"
    using pushEdit_describes [OF maps_Cons.prems(1), of a b] sh maps_Cons(4) describes_common [of "[]" es p q b] maps_Cons.prems(1)
    by (auto simp: describes_def)
  have cl: "copy_loop ms ?es (plen (p @ b)) = (es', l')"
    using maps_Cons.prems(4) by (simp add: o Let_def maps_Cons(3) cong: if_cong)
  show ?case using maps_Cons.IH [OF d _ _ cl] maps_Cons.prems(2,3) by simp
qed simp

lemma sum_before: "maps ms s x \<Longrightarrow> short (p @ s) \<Longrightarrow> foldl (\<lambda>a b. lengthAdd a (lengthBefore b)) (plen p) ms = plen (p @ s)"
proof (induction arbitrary: p rule: maps.induct)
  case (maps_Cons ms s t m b a)
  then have "short p" "short b" using short_append [of "p @ b" s] short_append [of p b] by auto
  with maps_Cons show ?case using maps_Cons.IH [of "p @ b"] by (simp add: plen_append)
qed simp

lemma sumLengths_before: "maps ms s x \<Longrightarrow> short s \<Longrightarrow> sumLengths ms lengthBefore = plen s"
  using sum_before [of ms s x "[]"] by (simp add: sumLengths_def lengthZero_def)

lemma combine_loop_describes:
  assumes "maps ms x y" "covers (waiting st) s (x @ r)" "settled st" "describes es p q" "short (p @ s)" "short (x @ r)" "short (q @ y @ r)"
  shows "describes (combine_loop (map Some ms @ [None]) es (plen p) st) (p @ s) (q @ y @ r)"
  using assms
proof (induction arbitrary: st s es p q rule: maps.induct)
  case maps_Nil
  then obtain s1 r1 u where c: "s = s1 @ u" "r = r1 @ u" "maps (waiting st) s1 r1" by (auto simp: covers_def)
  obtain es' l' where cl: "copy_loop (waiting st) es (plen p) = (es', l')" by (rule prod.exhaust)
  have "describes es' (p @ s1) (q @ r1)"
    using copy_loop_describes [OF c(3) maps_Nil(3) _ _ cl] maps_Nil(4,6) c(1,2) short_append [of "p @ s1" u] short_append [of "q @ r1" u] by simp
  from this [unfolded describes_def, THEN describes_common, of u] cl show ?case
    using next_all [OF maps_Nil(2)] c(1,2) by (auto simp: describes_def split: prod.splits)
next
  case (maps_Cons ms x y m b a)
  obtain ms0 st2 where n: "nextS0ToS1MapWithS1LengthOf (Some (plen b)) st = (ms0, st2)" by (rule prod.exhaust)
  have sh: "short p" "short s" "short q" "short a" "short b" "short (b @ x @ r)" "short (x @ r)"
    using maps_Cons.prems(4-6) short_append [of p s] short_append [of q "a @ y @ r"] short_append [of a "y @ r"] short_append [of b "x @ r"] by auto
  obtain s1 s2 where c: "s = s1 @ s2" "maps ms0 s1 b" "covers (waiting st2) s2 (x @ r)"
    using next_covers [of st s b "x @ r" ms0 st2] maps_Cons.prems(1) n sh by auto
  have st: "settled st2" using next_settled [OF maps_Cons.prems(2) n] .
  have sh2: "short s1" "short (p @ s1)" "short (q @ a)" "short (p @ s1 @ s2)" "short ((q @ a) @ y @ r)"
    using maps_Cons.prems(4,6) c(1) short_append [of s1 s2] sh short_append [of "p @ s1" s2] short_append [of "q @ a" "y @ r"] by auto
  show ?case
  proof (cases "modified m")
    case True
    have "describes (pushEdit es (plen p) (plen (p @ s1)) (plen a)) (p @ s1) (q @ a)"
      using pushEdit_describes [OF maps_Cons.prems(3)] sh by blast
    from maps_Cons.IH [OF c(3) st this] show ?thesis
      using n True maps_Cons(2,3) sumLengths_before [OF c(2)] sh sh2 c(1) by (simp add: Let_def plen_append)
  next
    case False
    then have ab: "a = b" using maps_Cons(4) by simp
    obtain es' l' where cl: "copy_loop ms0 es (plen p) = (es', l')" by (rule prod.exhaust)
    have d: "describes es' (p @ s1) (q @ a)" "l' = plen (p @ s1)"
      using copy_loop_describes [OF c(2) maps_Cons.prems(3) _ _ cl] sh2 ab by auto
    from maps_Cons.IH [OF c(3) st d(1)] show ?thesis
      using n False maps_Cons(2,3) cl d(2) sh sh2 c(1) by simp
  qed
qed

lemma combine_describes:
  assumes "describes first s0 s1" "describes second s1 s2" "short s0" "short s1" "short s2"
  shows "describes (combineTextEditInfos first second) s0 s2"
proof (cases "first = [] \<or> second = []")
  case True
  then show ?thesis using assms by (auto simp: combineTextEditInfos_def describes_def elim: describes_from.cases)
next
  case False
  have "covers (toLengthMapping second) s1 s2" "covers (toLengthMapping first) s0 s1"
    using assms toLengthMapping_covers [of "[]"] by (auto simp: describes_def toLengthMapping_def lengthZero_def)
  then obtain x y r where c: "s1 = x @ r" "s2 = y @ r" "maps (toLengthMapping second) x y" "covers (toLengthMapping first) s0 (x @ r)"
    unfolding covers_def [of "toLengthMapping second"] by blast
  then show ?thesis
    using combine_loop_describes [OF c(3), of "ArrayQueue_dequeue (new_ArrayQueue (toLengthMapping first))" s0 r "[]" "[]" "[]"] assms False
    by (auto simp: combineTextEditInfos_def dequeue_settled describes_def describes_Nil lengthZero_def)
qed

text \<open>C20: Combining edits: when the first edits change the text \<open>s0\<close> into \<open>s1\<close> and the second ones change \<open>s1\<close> into \<open>s2\<close>, the combined edits change \<open>s0\<close> into
  \<open>s2\<close>, although the function only knows the lengths of the replaced and of the new texts, for texts in which no column reaches \<^verbatim>\<open>2^25\<close>.\<close>

theorem combineTextEditInfos_describes:
  assumes "describes first s0 s1" "describes second s1 s2" "short s0" "short s1" "short s2"
  shows "describes (combineTextEditInfos first second) s0 s2"
  using assms by (rule combine_describes)

theorem combineTextEditInfos_describes_witness:
  "describes [new_TextEditInfo 1 1 1] [97] [97, 98] \<and> describes [new_TextEditInfo 0 1 0] [97, 98] [98] \<and>
   describes (combineTextEditInfos [new_TextEditInfo 1 1 1] [new_TextEditInfo 0 1 0]) [97] [98]"
proof -
  have p: "plen [x] = 1" if "x \<noteq> LF" for x
    using that by (simp add: plen_def pack_def toLength_def tlen_def TextLength_zero_def)
  have d: "describes [new_TextEditInfo 1 1 1] [97] [97, 98]" "describes [new_TextEditInfo 0 1 0] [97, 98] [98]"
    using describes_Cons [of "[]" "[97]" "[]" "[]" "[]" "[]" "new_TextEditInfo 1 1 1" "[98]"]
      describes_Cons [of "[]" "[]" "[97]" "[]" "[98]" "[98]" "new_TextEditInfo 0 1 0" "[]"] describes_Nil
    by (simp_all add: describes_def p)
  have "short [97]" "short [97, 98]" "short [98]" by (rule short_small, simp)+
  with combineTextEditInfos_describes [OF d] d show ?thesis by blast
qed

end
