(* ===== verification/Bracket_Set.thy ===== *)
theory Bracket_Set
  imports Js_Prelude "HOL-Library.Word"
begin

text \<open>
  \<^verbatim>\<open>smallImmutableSet.ts\<close> of the bracket pair trees: sets of keys as bit masks, 32 keys in each number.  They refine finite sets of numbers.
\<close>

unbundle bit_operations_syntax

section \<open>What the trees rely on\<close>

text \<open>A set of keys that can be empty or the union of two sets, and that can be tested for common keys.\<close>

locale key_set =
  fixes key_elements :: "'s \<Rightarrow> nat set" and key_empty :: 's and key_merge :: "'s \<Rightarrow> 's \<Rightarrow> 's" and key_intersects :: "'s \<Rightarrow> 's \<Rightarrow> bool"
  assumes empty_law: "key_elements key_empty = {}"
    and merge_law: "key_elements (key_merge s t) = key_elements s \<union> key_elements t"
    and intersects_law: "key_intersects s t \<longleftrightarrow> key_elements s \<inter> key_elements t \<noteq> {}"
begin

lemma merge_all: "key_elements (foldl key_merge s ts) = key_elements s \<union> (\<Union>t \<in> set ts. key_elements t)"
  by (induction ts arbitrary: s) (auto simp: merge_law)

lemma not_intersects_merge: "\<not> key_intersects u (key_merge s t) \<longleftrightarrow> \<not> key_intersects u s \<and> \<not> key_intersects u t"
  by (auto simp: intersects_law merge_law)

lemma not_intersects_empty: "\<not> key_intersects u key_empty"
  by (simp add: intersects_law empty_law)

lemma intersects_commute: "key_intersects s t \<longleftrightarrow> key_intersects t s"
  by (auto simp: intersects_law)

end

section \<open>The sets\<close>

record SmallImmutableSet =
  sis_items :: "32 word"
  sis_additionalItems :: "32 word list"

text \<open>\<^verbatim>\<open>create\<close> returns a cached object with the same contents, or a new one.\<close>

definition SmallImmutableSet_create :: "32 word \<Rightarrow> 32 word list \<Rightarrow> SmallImmutableSet" where
  "SmallImmutableSet_create items additionalItems = \<lparr>sis_items = items, sis_additionalItems = additionalItems\<rparr>"

definition SmallImmutableSet_getEmpty :: SmallImmutableSet where
  "SmallImmutableSet_getEmpty = SmallImmutableSet_create 0 []"

text \<open>\<^verbatim>\<open>1 << key\<close>: a shift uses the lowest five bits of the distance.\<close>

definition key_bit :: "nat \<Rightarrow> 32 word" where
  "key_bit key = push_bit (key mod 32) 1"

text \<open>\<^verbatim>\<open>newItems[idx] |= bit\<close>, where the array ends at the index or behind it.\<close>

definition or_at :: "32 word list \<Rightarrow> nat \<Rightarrow> 32 word \<Rightarrow> 32 word list" where
  "or_at newItems idx b = (if idx < length newItems then newItems[idx := newItems ! idx OR b] else newItems @ [b])"

definition SmallImmutableSet_add_key :: "nat \<Rightarrow> SmallImmutableSet \<Rightarrow> SmallImmutableSet" where
  "SmallImmutableSet_add_key key this =
     (let idx = key div 32
      in if idx = 0 then
           let newItem = key_bit key OR sis_items this
           in if newItem = sis_items this then this else SmallImmutableSet_create newItem (sis_additionalItems this)
         else
           let newItems = sis_additionalItems this @ replicate (idx - 1 - length (sis_additionalItems this)) 0
           in SmallImmutableSet_create (sis_items this) (or_at newItems (idx - 1) (key_bit key)))"

definition SmallImmutableSet_has_key :: "nat \<Rightarrow> SmallImmutableSet \<Rightarrow> bool" where
  "SmallImmutableSet_has_key key this =
     (let idx = key div 32
      in if idx = 0 then sis_items this AND key_bit key \<noteq> 0
         else (if idx - 1 < length (sis_additionalItems this) then sis_additionalItems this ! (idx - 1) else 0) AND key_bit key \<noteq> 0)"

text \<open>A key provider finds the key of a value and may change its state.\<close>

definition SmallImmutableSet_add :: "'v \<Rightarrow> ('v \<Rightarrow> 's \<Rightarrow> nat \<times> 's) \<Rightarrow> 's \<Rightarrow> SmallImmutableSet \<Rightarrow> SmallImmutableSet \<times> 's" where
  "SmallImmutableSet_add v getKey keyProvider this = (case getKey v keyProvider of (key, kp) \<Rightarrow> (SmallImmutableSet_add_key key this, kp))"

definition SmallImmutableSet_has :: "'v \<Rightarrow> ('v \<Rightarrow> 's \<Rightarrow> nat \<times> 's) \<Rightarrow> 's \<Rightarrow> SmallImmutableSet \<Rightarrow> bool \<times> 's" where
  "SmallImmutableSet_has v getKey keyProvider this = (case getKey v keyProvider of (key, kp) \<Rightarrow> (SmallImmutableSet_has_key key this, kp))"

text \<open>The loop of \<^verbatim>\<open>merge\<close>; a missing item counts as 0.\<close>

fun merge_items :: "32 word list \<Rightarrow> 32 word list \<Rightarrow> 32 word list" where
  "merge_items [] ys = ys"
| "merge_items xs [] = xs"
| "merge_items (x # xs) (y # ys) = (x OR y) # merge_items xs ys"

text \<open>The arrays of additional items are the one empty array \<^verbatim>\<open>emptyArr\<close> or not empty.\<close>

definition SmallImmutableSet_merge :: "SmallImmutableSet \<Rightarrow> SmallImmutableSet \<Rightarrow> SmallImmutableSet" where
  "SmallImmutableSet_merge this other =
     (let merged = sis_items this OR sis_items other
      in if sis_additionalItems this = [] \<and> sis_additionalItems other = [] then
           (if merged = sis_items this then this else if merged = sis_items other then other else SmallImmutableSet_create merged [])
         else SmallImmutableSet_create merged (merge_items (sis_additionalItems this) (sis_additionalItems other)))"

definition SmallImmutableSet_intersects :: "SmallImmutableSet \<Rightarrow> SmallImmutableSet \<Rightarrow> bool" where
  "SmallImmutableSet_intersects this other =
     (sis_items this AND sis_items other \<noteq> 0 \<or>
      list_ex (\<lambda>(x, y). x AND y \<noteq> 0) (zip (sis_additionalItems this) (sis_additionalItems other)))"

definition SmallImmutableSet_equals :: "SmallImmutableSet \<Rightarrow> SmallImmutableSet \<Rightarrow> bool" where
  "SmallImmutableSet_equals this other =
     (if sis_items this \<noteq> sis_items other then False
      else if length (sis_additionalItems this) \<noteq> length (sis_additionalItems other) then False
      else list_all (\<lambda>(x, y). x = y) (zip (sis_additionalItems this) (sis_additionalItems other)))"

definition identityKeyProvider_getKey :: "nat \<Rightarrow> unit \<Rightarrow> nat \<times> unit" where
  "identityKeyProvider_getKey v s = (v, s)"

section \<open>The set of keys\<close>

definition keys_of :: "SmallImmutableSet \<Rightarrow> nat set" where
  "keys_of s = {k. SmallImmutableSet_has_key k s}"

text \<open>The set as one long bit mask, cut into words.\<close>

definition words :: "SmallImmutableSet \<Rightarrow> 32 word list" where
  "words s = sis_items s # sis_additionalItems s"

definition word_at :: "32 word list \<Rightarrow> nat \<Rightarrow> 32 word" where
  "word_at ws i = (if i < length ws then ws ! i else 0)"

lemma word_at_Nil [simp]: "word_at [] i = 0"
  by (simp add: word_at_def)

lemma word_at_Cons [simp]: "word_at (w # ws) 0 = w" "word_at (w # ws) (Suc i) = word_at ws i"
  by (simp_all add: word_at_def)

lemma and_key_bit: "w AND key_bit k \<noteq> 0 \<longleftrightarrow> bit w (k mod 32)"
proof -
  have "k mod 32 < 32" by simp
  then show ?thesis
    unfolding key_bit_def bit_eq_iff by (auto simp: bit_simps)
qed

lemma keys_of_iff: "k \<in> keys_of s \<longleftrightarrow> bit (word_at (words s) (k div 32)) (k mod 32)"
proof (cases "k div 32")
  case 0
  then show ?thesis by (simp add: keys_of_def SmallImmutableSet_has_key_def Let_def words_def and_key_bit)
next
  case (Suc i)
  then show ?thesis by (simp add: keys_of_def SmallImmutableSet_has_key_def Let_def words_def and_key_bit word_at_def)
qed

lemma bit_key_bit: "bit (key_bit k) n \<longleftrightarrow> n = k mod 32"
  by (auto simp: key_bit_def bit_simps)

lemma keys_of_eqI: "(\<And>k. bit (word_at (words s) (k div 32)) (k mod 32) \<longleftrightarrow> k \<in> A) \<Longrightarrow> keys_of s = A"
  unfolding set_eq_iff keys_of_iff by blast

lemma keys_of_finite: "finite (keys_of s)"
proof (rule finite_subset)
  show "keys_of s \<subseteq> {..< length (words s) * 32}"
  proof
    fix k assume "k \<in> keys_of s"
    then have "word_at (words s) (k div 32) \<noteq> 0" unfolding keys_of_iff by fastforce
    then have "k div 32 < length (words s)" unfolding word_at_def by presburger
    then show "k \<in> {..< length (words s) * 32}" by (simp only: div_less_iff_less_mult zero_less_numeral lessThan_iff)
  qed
qed simp

lemma keys_of_empty: "keys_of SmallImmutableSet_getEmpty = {}"
  by (rule keys_of_eqI) (simp add: words_def SmallImmutableSet_getEmpty_def SmallImmutableSet_create_def word_at_def)

lemma word_at_or_at:
  "idx \<le> length ws \<Longrightarrow> word_at (or_at ws idx b) i = (if i = idx then word_at ws i OR b else word_at ws i)"
  by (auto simp: word_at_def or_at_def nth_append)

lemma word_at_pad: "word_at (ws @ replicate n 0) i = word_at ws i"
  by (auto simp: word_at_def nth_append)

lemma words_add:
  "word_at (words (SmallImmutableSet_add_key key s)) i = (if i = key div 32 then word_at (words s) i OR key_bit key else word_at (words s) i)"
proof (cases "key div 32")
  case 0
  then show ?thesis
    by (cases i) (auto simp: SmallImmutableSet_add_key_def Let_def words_def SmallImmutableSet_create_def or.commute)
next
  case (Suc n)
  then show ?thesis
    by (cases i) (auto simp: SmallImmutableSet_add_key_def Let_def words_def SmallImmutableSet_create_def word_at_or_at word_at_pad)
qed

lemma keys_of_add: "keys_of (SmallImmutableSet_add_key key s) = insert key (keys_of s)"
proof (rule keys_of_eqI)
  fix k
  have "k = key \<longleftrightarrow> k div 32 = key div 32 \<and> k mod 32 = key mod 32" by (metis div_mult_mod_eq)
  then show "bit (word_at (words (SmallImmutableSet_add_key key s)) (k div 32)) (k mod 32) \<longleftrightarrow> k \<in> insert key (keys_of s)"
    by (auto simp: words_add keys_of_iff bit_or_iff bit_key_bit)
qed

lemma word_at_merge: "word_at (merge_items xs ys) i = word_at xs i OR word_at ys i"
proof (induction xs ys arbitrary: i rule: merge_items.induct)
  case (3 x xs y ys)
  then show ?case by (cases i) simp_all
qed simp_all

lemma keys_of_merge: "keys_of (SmallImmutableSet_merge s t) = keys_of s \<union> keys_of t"
proof (rule keys_of_eqI)
  fix k
  have "word_at (words (SmallImmutableSet_merge s t)) i = word_at (words s) i OR word_at (words t) i" for i
    by (cases i) (auto simp: SmallImmutableSet_merge_def Let_def words_def SmallImmutableSet_create_def word_at_merge)
  then show "bit (word_at (words (SmallImmutableSet_merge s t)) (k div 32)) (k mod 32) \<longleftrightarrow> k \<in> keys_of s \<union> keys_of t"
    by (simp add: keys_of_iff bit_or_iff)
qed

lemma word_and_nonzero: "(w :: 32 word) AND v \<noteq> 0 \<longleftrightarrow> (\<exists>n < 32. bit w n \<and> bit v n)"
  unfolding bit_eq_iff by (auto simp: bit_simps)

lemma intersects_words:
  "SmallImmutableSet_intersects s t \<longleftrightarrow> (\<exists>i. word_at (words s) i AND word_at (words t) i \<noteq> 0)"
proof -
  have "list_ex (\<lambda>(x, y). x AND y \<noteq> 0) (zip xs ys) \<longleftrightarrow> (\<exists>i. word_at xs i AND word_at ys i \<noteq> 0)" for xs ys :: "32 word list"
    by (auto simp: list_ex_iff set_zip word_at_def split: if_splits)
  then have "SmallImmutableSet_intersects s t \<longleftrightarrow>
      sis_items s AND sis_items t \<noteq> 0 \<or> (\<exists>i. word_at (sis_additionalItems s) i AND word_at (sis_additionalItems t) i \<noteq> 0)"
    by (simp add: SmallImmutableSet_intersects_def)
  also have "\<dots> \<longleftrightarrow> (\<exists>i. word_at (words s) i AND word_at (words t) i \<noteq> 0)"
    unfolding words_def by (metis not0_implies_Suc word_at_Cons)
  finally show ?thesis .
qed

lemma intersects_iff: "SmallImmutableSet_intersects s t \<longleftrightarrow> keys_of s \<inter> keys_of t \<noteq> {}"
proof
  assume "SmallImmutableSet_intersects s t"
  then obtain i n where "n < 32" "bit (word_at (words s) i) n" "bit (word_at (words t) i) n"
    unfolding intersects_words word_and_nonzero by blast
  then have "32 * i + n \<in> keys_of s \<inter> keys_of t" by (simp add: keys_of_iff)
  then show "keys_of s \<inter> keys_of t \<noteq> {}" by blast
next
  assume "keys_of s \<inter> keys_of t \<noteq> {}"
  then obtain k where "bit (word_at (words s) (k div 32)) (k mod 32)" "bit (word_at (words t) (k div 32)) (k mod 32)" by (auto simp: keys_of_iff)
  moreover have "k mod 32 < 32" by simp
  ultimately show "SmallImmutableSet_intersects s t" unfolding intersects_words word_and_nonzero by blast
qed

interpretation sis: key_set keys_of SmallImmutableSet_getEmpty SmallImmutableSet_merge SmallImmutableSet_intersects
  by unfold_locales (simp_all add: keys_of_empty keys_of_merge intersects_iff)

text \<open>The representation is unique: the last additional item is not 0.\<close>

definition sis_ok :: "SmallImmutableSet \<Rightarrow> bool" where
  "sis_ok s \<longleftrightarrow> sis_additionalItems s = [] \<or> last (sis_additionalItems s) \<noteq> 0"

lemma key_bit_nonzero: "key_bit k \<noteq> 0"
  using bit_key_bit [of k "k mod 32"] by auto

lemma or_nonzero: "(b :: 32 word) \<noteq> 0 \<Longrightarrow> a OR b \<noteq> 0 \<and> b OR a \<noteq> 0"
  by (metis or.commute or_eq_0_iff)

lemma sis_ok_add: "sis_ok s \<Longrightarrow> sis_ok (SmallImmutableSet_add_key key s)"
proof (cases "key div 32")
  case (Suc n)
  assume s: "sis_ok s"
  let ?ws = "sis_additionalItems s"
  have "last (or_at (?ws @ replicate (n - length ?ws) 0) n (key_bit key)) \<noteq> 0"
  proof (cases "n < length ?ws")
    case True
    moreover have "?ws \<noteq> []" using True by auto
    ultimately show ?thesis using s or_nonzero [OF key_bit_nonzero]
      by (auto simp: or_at_def last_list_update sis_ok_def)
  qed (simp add: or_at_def key_bit_nonzero)
  with Suc show ?thesis by (simp add: sis_ok_def SmallImmutableSet_add_key_def SmallImmutableSet_create_def Let_def)
qed (auto simp: sis_ok_def SmallImmutableSet_add_key_def SmallImmutableSet_create_def Let_def)

lemma last_merge:
  "(xs = [] \<or> last xs \<noteq> 0) \<Longrightarrow> (ys = [] \<or> last ys \<noteq> 0) \<Longrightarrow> merge_items xs ys = [] \<or> last (merge_items xs ys) \<noteq> 0"
proof (induction xs ys rule: merge_items.induct)
  case (3 x xs y ys)
  have "merge_items xs ys = [] \<longleftrightarrow> xs = [] \<and> ys = []" by (cases xs; cases ys) simp_all
  with 3 show ?case by (cases "xs = [] \<and> ys = []") (auto simp: or_nonzero split: if_splits)
qed simp_all

lemma sis_ok_merge: "sis_ok s \<Longrightarrow> sis_ok t \<Longrightarrow> sis_ok (SmallImmutableSet_merge s t)"
  using last_merge [of "sis_additionalItems s" "sis_additionalItems t"]
  by (auto simp: sis_ok_def SmallImmutableSet_merge_def SmallImmutableSet_create_def Let_def)

lemma equals_iff_eq: "SmallImmutableSet_equals s t \<longleftrightarrow> s = t"
proof -
  have "list_all (\<lambda>(x, y). x = y) (zip xs ys) \<longleftrightarrow> xs = ys" if "length xs = length ys" for xs ys :: "32 word list"
    using that by (induction rule: list_induct2) auto
  then show ?thesis by (cases s; cases t) (auto simp: SmallImmutableSet_equals_def)
qed

lemma words_unique:
  assumes "\<And>i. word_at xs i = word_at ys i" "xs = [] \<or> last xs \<noteq> 0" "ys = [] \<or> last ys \<noteq> 0"
  shows "xs = ys"
proof -
  have le: "length vs \<le> length us" if "\<And>i. word_at us i = word_at vs i" "vs = [] \<or> last vs \<noteq> 0" for us vs :: "32 word list"
  proof (rule ccontr)
    assume l: "\<not> length vs \<le> length us"
    then have "word_at vs (length vs - 1) = last vs" "word_at us (length vs - 1) = 0" "vs \<noteq> []"
      by (cases vs rule: rev_cases; simp add: word_at_def)+
    with that show False by metis
  qed
  have "length xs = length ys" using le [of xs ys] le [of ys xs] assms by (metis le_antisym)
  then show ?thesis using assms(1) by (intro nth_equalityI) (metis word_at_def)+
qed

lemma keys_of_inject:
  assumes "sis_ok s" "sis_ok t" "keys_of s = keys_of t"
  shows "s = t"
proof -
  have w: "word_at (words s) i = word_at (words t) i" for i
  proof (rule bit_word_eqI)
    fix n assume "n < LENGTH(32)"
    then show "bit (word_at (words s) i) n \<longleftrightarrow> bit (word_at (words t) i) n"
      using assms(3) keys_of_iff [of "32 * i + n" s] keys_of_iff [of "32 * i + n" t] by simp
  qed
  from w [of 0] have "sis_items s = sis_items t" by (simp add: words_def)
  moreover have "sis_additionalItems s = sis_additionalItems t"
    using w [of "Suc _"] assms(1,2) by (intro words_unique) (auto simp: words_def sis_ok_def)
  ultimately show ?thesis by simp
qed



section \<open>Dense keys\<close>

text \<open>The map of a \<^verbatim>\<open>DenseKeyProvider\<close>, in the order in which the values were entered.\<close>

type_synonym 'v DenseKeyProvider = "('v \<times> nat) list"

definition DenseKeyProvider_getKey :: "'v \<Rightarrow> 'v DenseKeyProvider \<Rightarrow> nat \<times> 'v DenseKeyProvider" where
  "DenseKeyProvider_getKey v items =
     (case map_of items v of
        None \<Rightarrow> let existing = length items in (existing, items @ [(v, existing)])
      | Some existing \<Rightarrow> (existing, items))"

definition DenseKeyProvider_reverseLookup :: "nat \<Rightarrow> 'v DenseKeyProvider \<Rightarrow> 'v option" where
  "DenseKeyProvider_reverseLookup key items = map_option fst (find (\<lambda>(_, v). v = key) items)"

definition DenseKeyProvider_reverseLookupSet :: "SmallImmutableSet \<Rightarrow> 'v DenseKeyProvider \<Rightarrow> 'v list" where
  "DenseKeyProvider_reverseLookupSet s items =
     map fst (filter (\<lambda>(v, _). fst (SmallImmutableSet_has v DenseKeyProvider_getKey items s)) items)"

definition DenseKeyProvider_keys :: "'v DenseKeyProvider \<Rightarrow> 'v list" where
  "DenseKeyProvider_keys items = map fst items"

definition dkp_ok :: "'v DenseKeyProvider \<Rightarrow> bool" where
  "dkp_ok items \<longleftrightarrow> distinct (map fst items) \<and> map snd items = [0..<length items]"

lemma dkp_find: "dkp_ok items \<Longrightarrow> map_of items v = Some k \<longleftrightarrow> k < length items \<and> fst (items ! k) = v"
proof -
  assume ok: "dkp_ok items"
  have "map_of items v = Some k \<longleftrightarrow> (v, k) \<in> set items" using ok by (simp add: dkp_ok_def)
  also have "\<dots> \<longleftrightarrow> (\<exists>i < length items. items ! i = (v, k))" by (auto simp: in_set_conv_nth)
  also have "\<dots> \<longleftrightarrow> k < length items \<and> fst (items ! k) = v"
  proof -
    have "snd (items ! i) = i" if "i < length items" for i
      using ok that by (metis add_0 dkp_ok_def length_map nth_map nth_upt)
    then show ?thesis by (metis fst_conv prod.collapse snd_conv)
  qed
  finally show ?thesis .
qed

lemma dense_keys_roundtrip:
  assumes "dkp_ok items" "DenseKeyProvider_getKey v items = (k, items2)"
  shows "dkp_ok items2" "DenseKeyProvider_reverseLookup k items2 = Some v" "k < length items2"
    "fst (DenseKeyProvider_getKey v items2) = k" "\<exists>more. items2 = items @ more"
proof -
  have "v \<notin> fst ` set items" if "map_of items v = None" using that by (simp add: map_of_eq_None_iff)
  with assms show ok: "dkp_ok items2" by (auto simp: DenseKeyProvider_getKey_def dkp_ok_def Let_def split: option.splits)
  have m: "map_of items2 v = Some k" using assms(2) by (auto simp: DenseKeyProvider_getKey_def Let_def map_add_def split: option.splits)
  then show "k < length items2" "fst (DenseKeyProvider_getKey v items2) = k"
    using dkp_find [OF ok, of v k] by (simp_all add: DenseKeyProvider_getKey_def)
  show "\<exists>more. items2 = items @ more" using assms(2) by (auto simp: DenseKeyProvider_getKey_def Let_def split: option.splits)
  have "(w, k) \<in> set items2 \<longleftrightarrow> w = v" for w
    using ok m dkp_find [OF ok] by (metis dkp_ok_def map_of_eq_Some_iff option.inject)
  then have "find (\<lambda>(_, x). x = k) items2 \<noteq> None" "\<And>w x. find (\<lambda>(_, x). x = k) items2 = Some (w, x) \<Longrightarrow> w = v"
    unfolding find_None_iff by (blast, metis (mono_tags, lifting) case_prodE find_Some_iff nth_mem old.prod.case)
  then show "DenseKeyProvider_reverseLookup k items2 = Some v"
    by (auto simp: DenseKeyProvider_reverseLookup_def)
qed

lemma reverseLookupSet_keys:
  assumes "dkp_ok items"
  shows "set (DenseKeyProvider_reverseLookupSet s items) = {v. \<exists>k. map_of items v = Some k \<and> k \<in> keys_of s}"
proof -
  have d: "(v, k) \<in> set items \<longleftrightarrow> map_of items v = Some k" for v k using assms by (simp add: dkp_ok_def)
  then have "fst (SmallImmutableSet_has v DenseKeyProvider_getKey items s) \<longleftrightarrow> k \<in> keys_of s" if "(v, k) \<in> set items" for v k
    using that by (simp add: SmallImmutableSet_has_def DenseKeyProvider_getKey_def keys_of_def)
  then have "set (DenseKeyProvider_reverseLookupSet s items) = fst ` {(v, k). (v, k) \<in> set items \<and> k \<in> keys_of s}"
    unfolding DenseKeyProvider_reverseLookupSet_def by force
  also have "\<dots> = {v. \<exists>k. map_of items v = Some k \<and> k \<in> keys_of s}" unfolding d by force
  finally show ?thesis .
qed

end
