(* ===== verification/Bracket_Ast.thy ===== *)
theory Bracket_Ast
  imports Edit_Infos Bracket_Set
begin

text \<open>
  \<^verbatim>\<open>ast.ts\<close> of the bracket pair trees: the nodes, with the length and the set of missing opening brackets that every node keeps.  A node is a value here: the sources change a list
  node in place only while they build a tree, on nodes that \<^verbatim>\<open>toMutable\<close> has copied or that belong to the tree that is being replaced, and the operations return the changed node.
  The cached indentation and \<^verbatim>\<open>computeMinIndentation\<close>, which read the text model, are left out.
\<close>

section \<open>Nodes\<close>

datatype AstNodeKind = KText | KBracket | KPair | KUnexpectedClosingBracket | KList

text \<open>\<^verbatim>\<open>TwoThreeListAstNode\<close> and \<^verbatim>\<open>ArrayListAstNode\<close> start with a flag for their immutable subclasses.  The type \<open>'k\<close> is the \<^verbatim>\<open>BracketKind\<close> of a bracket.\<close>

datatype 'k AstNode =
    TextAstNode Length
  | BracketAstNode Length 'k SmallImmutableSet
  | InvalidBracketAstNode SmallImmutableSet Length
  | PairAstNode Length "'k AstNode" "'k AstNode option" "'k AstNode option" SmallImmutableSet
  | TwoThreeListAstNode bool Length nat "'k AstNode" "'k AstNode" "'k AstNode option" SmallImmutableSet
  | ArrayListAstNode bool Length nat "'k AstNode list" SmallImmutableSet

fun AstNode_kind :: "'k AstNode \<Rightarrow> AstNodeKind" where
  "AstNode_kind (TextAstNode _) = KText"
| "AstNode_kind (BracketAstNode _ _ _) = KBracket"
| "AstNode_kind (InvalidBracketAstNode _ _) = KUnexpectedClosingBracket"
| "AstNode_kind (PairAstNode _ _ _ _ _) = KPair"
| "AstNode_kind (TwoThreeListAstNode _ _ _ _ _ _ _) = KList"
| "AstNode_kind (ArrayListAstNode _ _ _ _ _) = KList"

fun AstNode_length :: "'k AstNode \<Rightarrow> Length" where
  "AstNode_length (TextAstNode l) = l"
| "AstNode_length (BracketAstNode l _ _) = l"
| "AstNode_length (InvalidBracketAstNode _ l) = l"
| "AstNode_length (PairAstNode l _ _ _ _) = l"
| "AstNode_length (TwoThreeListAstNode _ l _ _ _ _ _) = l"
| "AstNode_length (ArrayListAstNode _ l _ _ _) = l"

fun AstNode_missingOpeningBracketIds :: "'k AstNode \<Rightarrow> SmallImmutableSet" where
  "AstNode_missingOpeningBracketIds (TextAstNode _) = SmallImmutableSet_getEmpty"
| "AstNode_missingOpeningBracketIds (BracketAstNode _ _ _) = SmallImmutableSet_getEmpty"
| "AstNode_missingOpeningBracketIds (InvalidBracketAstNode ids _) = ids"
| "AstNode_missingOpeningBracketIds (PairAstNode _ _ _ _ ids) = ids"
| "AstNode_missingOpeningBracketIds (TwoThreeListAstNode _ _ _ _ _ _ ids) = ids"
| "AstNode_missingOpeningBracketIds (ArrayListAstNode _ _ _ _ ids) = ids"

fun AstNode_listHeight :: "'k AstNode \<Rightarrow> nat" where
  "AstNode_listHeight (TwoThreeListAstNode _ _ h _ _ _ _) = h"
| "AstNode_listHeight (ArrayListAstNode _ _ h _ _) = h"
| "AstNode_listHeight _ = 0"

fun AstNode_children :: "'k AstNode \<Rightarrow> 'k AstNode list" where
  "AstNode_children (PairAstNode _ openingBracket child closingBracket _) =
     openingBracket # (case child of None \<Rightarrow> [] | Some c \<Rightarrow> [c]) @ (case closingBracket of None \<Rightarrow> [] | Some c \<Rightarrow> [c])"
| "AstNode_children (TwoThreeListAstNode _ _ _ item1 item2 item3 _) =
     (case item3 of Some i \<Rightarrow> [item1, item2, i] | None \<Rightarrow> [item1, item2])"
| "AstNode_children (ArrayListAstNode _ _ _ cs _) = cs"
| "AstNode_children _ = []"

fun AstNode_childrenLength :: "'k AstNode \<Rightarrow> nat" where
  "AstNode_childrenLength (PairAstNode _ _ _ _ _) = 3"
| "AstNode_childrenLength (TwoThreeListAstNode _ _ _ _ _ item3 _) = (if item3 \<noteq> None then 3 else 2)"
| "AstNode_childrenLength (ArrayListAstNode _ _ _ cs _) = length cs"
| "AstNode_childrenLength _ = 0"

text \<open>\<open>None\<close> is \<^verbatim>\<open>null\<close> (or \<^verbatim>\<open>undefined\<close>, behind the end of an array).\<close>

fun AstNode_getChild :: "nat \<Rightarrow> 'k AstNode \<Rightarrow> 'k AstNode option result" where
  "AstNode_getChild idx (PairAstNode _ openingBracket child closingBracket _) =
     (if idx = 0 then Inr (Some openingBracket) else if idx = 1 then Inr child else if idx = 2 then Inr closingBracket else Inl JsError)"
| "AstNode_getChild idx (TwoThreeListAstNode _ _ _ item1 item2 item3 _) =
     (if idx = 0 then Inr (Some item1) else if idx = 1 then Inr (Some item2) else if idx = 2 then Inr item3 else Inl JsError)"
| "AstNode_getChild idx (ArrayListAstNode _ _ _ cs _) = Inr (js_at cs (int idx))"
| "AstNode_getChild idx _ = Inr None"

fun ListAstNode_setChild :: "nat \<Rightarrow> 'k AstNode \<Rightarrow> 'k AstNode \<Rightarrow> 'k AstNode result" where
  "ListAstNode_setChild idx node (TwoThreeListAstNode im l h item1 item2 item3 ids) =
     (if idx = 0 then Inr (TwoThreeListAstNode im l h node item2 item3 ids)
      else if idx = 1 then Inr (TwoThreeListAstNode im l h item1 node item3 ids)
      else if idx = 2 then Inr (TwoThreeListAstNode im l h item1 item2 (Some node) ids)
      else Inl JsError)"
| "ListAstNode_setChild idx node (ArrayListAstNode im l h cs ids) = Inr (ArrayListAstNode im l h (cs[idx := node]) ids)"
| "ListAstNode_setChild idx node _ = Inl TypeError"

section \<open>Making nodes\<close>

definition PairAstNode_create :: "'k AstNode \<Rightarrow> 'k AstNode option \<Rightarrow> 'k AstNode option \<Rightarrow> 'k AstNode" where
  "PairAstNode_create openingBracket child closingBracket =
     (let l = AstNode_length openingBracket;
          l = (case child of Some c \<Rightarrow> lengthAdd l (AstNode_length c) | None \<Rightarrow> l);
          l = (case closingBracket of Some c \<Rightarrow> lengthAdd l (AstNode_length c) | None \<Rightarrow> l)
      in PairAstNode l openingBracket child closingBracket
           (case child of Some c \<Rightarrow> AstNode_missingOpeningBracketIds c | None \<Rightarrow> SmallImmutableSet_getEmpty))"

definition ListAstNode_create23 :: "'k AstNode \<Rightarrow> 'k AstNode \<Rightarrow> 'k AstNode option \<Rightarrow> bool \<Rightarrow> 'k AstNode result" where
  "ListAstNode_create23 item1 item2 item3 immutable =
     (if AstNode_listHeight item1 \<noteq> AstNode_listHeight item2 then Inl JsError
      else
        let l = lengthAdd (AstNode_length item1) (AstNode_length item2);
            m = SmallImmutableSet_merge (AstNode_missingOpeningBracketIds item1) (AstNode_missingOpeningBracketIds item2)
        in (case item3 of
              None \<Rightarrow> Inr (TwoThreeListAstNode immutable l (AstNode_listHeight item1 + 1) item1 item2 None m)
            | Some i \<Rightarrow>
                if AstNode_listHeight item1 \<noteq> AstNode_listHeight i then Inl JsError
                else Inr (TwoThreeListAstNode immutable (lengthAdd l (AstNode_length i)) (AstNode_listHeight item1 + 1) item1 item2 (Some i)
                            (SmallImmutableSet_merge m (AstNode_missingOpeningBracketIds i)))))"

definition ListAstNode_getEmpty :: "'k AstNode" where
  "ListAstNode_getEmpty = ArrayListAstNode True lengthZero 0 [] SmallImmutableSet_getEmpty"

text \<open>The loops that add up the children of a list.\<close>

definition children_length :: "'k AstNode \<Rightarrow> 'k AstNode list \<Rightarrow> Length" where
  "children_length c cs = foldl (\<lambda>l c. lengthAdd l (AstNode_length c)) (AstNode_length c) cs"

definition children_missing :: "'k AstNode \<Rightarrow> 'k AstNode list \<Rightarrow> SmallImmutableSet" where
  "children_missing c cs = foldl SmallImmutableSet_merge (AstNode_missingOpeningBracketIds c) (map AstNode_missingOpeningBracketIds cs)"

definition ListAstNode_create :: "'k AstNode list \<Rightarrow> bool \<Rightarrow> 'k AstNode" where
  "ListAstNode_create items immutable =
     (case items of
        [] \<Rightarrow> ListAstNode_getEmpty
      | c # cs \<Rightarrow> ArrayListAstNode immutable (children_length c cs) (AstNode_listHeight c + 1) items (children_missing c cs))"

section \<open>Changing lists\<close>

fun ListAstNode_throwIfImmutable :: "'k AstNode \<Rightarrow> unit result" where
  "ListAstNode_throwIfImmutable (TwoThreeListAstNode im _ _ _ _ _ _) = (if im then Inl JsError else Inr ())"
| "ListAstNode_throwIfImmutable (ArrayListAstNode im _ _ _ _) = (if im then Inl JsError else Inr ())"
| "ListAstNode_throwIfImmutable _ = Inl TypeError"

fun set_length_missing :: "Length \<Rightarrow> SmallImmutableSet \<Rightarrow> 'k AstNode \<Rightarrow> 'k AstNode" where
  "set_length_missing l ids (TwoThreeListAstNode im _ h item1 item2 item3 _) = TwoThreeListAstNode im l h item1 item2 item3 ids"
| "set_length_missing l ids (ArrayListAstNode im _ h cs _) = ArrayListAstNode im l h cs ids"
| "set_length_missing l ids node = node"

definition ListAstNode_handleChildrenChanged :: "'k AstNode \<Rightarrow> 'k AstNode result" where
  "ListAstNode_handleChildrenChanged this =
     rbind (ListAstNode_throwIfImmutable this) (\<lambda>_.
       (case AstNode_children this of
          [] \<Rightarrow> Inl TypeError
        | c # cs \<Rightarrow> Inr (set_length_missing (children_length c cs) (children_missing c cs) this)))"

fun ListAstNode_toMutable :: "'k AstNode \<Rightarrow> 'k AstNode" where
  "ListAstNode_toMutable (TwoThreeListAstNode _ l h item1 item2 item3 ids) = TwoThreeListAstNode False l h item1 item2 item3 ids"
| "ListAstNode_toMutable (ArrayListAstNode _ l h cs ids) = ArrayListAstNode False l h cs ids"
| "ListAstNode_toMutable node = node"

text \<open>The element at an end, made mutable, and the list that holds it.\<close>

definition make_element_mutable :: "nat \<Rightarrow> 'k AstNode \<Rightarrow> ('k AstNode option \<times> 'k AstNode) result" where
  "make_element_mutable idx this =
     rbind (AstNode_getChild idx this) (\<lambda>child.
       case child of
         None \<Rightarrow> Inl TypeError
       | Some c \<Rightarrow>
           let mut = (if AstNode_kind c = KList then ListAstNode_toMutable c else c)
           in rbind (ListAstNode_setChild idx mut this) (\<lambda>this2. Inr (Some mut, this2)))"

definition ListAstNode_makeLastElementMutable :: "'k AstNode \<Rightarrow> ('k AstNode option \<times> 'k AstNode) result" where
  "ListAstNode_makeLastElementMutable this =
     rbind (ListAstNode_throwIfImmutable this) (\<lambda>_.
       if AstNode_childrenLength this = 0 then Inr (None, this)
       else make_element_mutable (AstNode_childrenLength this - 1) this)"

definition ListAstNode_makeFirstElementMutable :: "'k AstNode \<Rightarrow> ('k AstNode option \<times> 'k AstNode) result" where
  "ListAstNode_makeFirstElementMutable this =
     rbind (ListAstNode_throwIfImmutable this) (\<lambda>_.
       if AstNode_childrenLength this = 0 then Inr (None, this) else make_element_mutable 0 this)"

fun ListAstNode_appendChildOfSameHeight :: "'k AstNode \<Rightarrow> 'k AstNode \<Rightarrow> 'k AstNode result" where
  "ListAstNode_appendChildOfSameHeight node (TwoThreeListAstNode im l h item1 item2 item3 ids) =
     (if item3 \<noteq> None then Inl JsError
      else rbind (ListAstNode_throwIfImmutable (TwoThreeListAstNode im l h item1 item2 item3 ids))
             (\<lambda>_. ListAstNode_handleChildrenChanged (TwoThreeListAstNode im l h item1 item2 (Some node) ids)))"
| "ListAstNode_appendChildOfSameHeight node (ArrayListAstNode im l h cs ids) =
     rbind (ListAstNode_throwIfImmutable (ArrayListAstNode im l h cs ids))
       (\<lambda>_. ListAstNode_handleChildrenChanged (ArrayListAstNode im l h (cs @ [node]) ids))"
| "ListAstNode_appendChildOfSameHeight node _ = Inl TypeError"

fun ListAstNode_prependChildOfSameHeight :: "'k AstNode \<Rightarrow> 'k AstNode \<Rightarrow> 'k AstNode result" where
  "ListAstNode_prependChildOfSameHeight node (TwoThreeListAstNode im l h item1 item2 item3 ids) =
     (if item3 \<noteq> None then Inl JsError
      else rbind (ListAstNode_throwIfImmutable (TwoThreeListAstNode im l h item1 item2 item3 ids))
             (\<lambda>_. ListAstNode_handleChildrenChanged (TwoThreeListAstNode im l h node item1 (Some item2) ids)))"
| "ListAstNode_prependChildOfSameHeight node (ArrayListAstNode im l h cs ids) =
     rbind (ListAstNode_throwIfImmutable (ArrayListAstNode im l h cs ids))
       (\<lambda>_. ListAstNode_handleChildrenChanged (ArrayListAstNode im l h (node # cs) ids))"
| "ListAstNode_prependChildOfSameHeight node _ = Inl TypeError"

text \<open>The removed child and the list without it.\<close>

fun ListAstNode_unappendChild :: "'k AstNode \<Rightarrow> ('k AstNode option \<times> 'k AstNode) result" where
  "ListAstNode_unappendChild (TwoThreeListAstNode im l h item1 item2 item3 ids) =
     (if item3 = None then Inl JsError
      else rbind (ListAstNode_throwIfImmutable (TwoThreeListAstNode im l h item1 item2 item3 ids))
             (\<lambda>_. rbind (ListAstNode_handleChildrenChanged (TwoThreeListAstNode im l h item1 item2 None ids)) (\<lambda>t. Inr (item3, t))))"
| "ListAstNode_unappendChild (ArrayListAstNode im l h cs ids) =
     rbind (ListAstNode_throwIfImmutable (ArrayListAstNode im l h cs ids))
       (\<lambda>_. rbind (ListAstNode_handleChildrenChanged (ArrayListAstNode im l h (butlast cs) ids))
              (\<lambda>t. Inr (if cs = [] then None else Some (last cs), t)))"
| "ListAstNode_unappendChild _ = Inl TypeError"

fun ListAstNode_unprependChild :: "'k AstNode \<Rightarrow> ('k AstNode option \<times> 'k AstNode) result" where
  "ListAstNode_unprependChild (TwoThreeListAstNode im l h item1 item2 item3 ids) =
     (case item3 of
        None \<Rightarrow> Inl JsError
      | Some i \<Rightarrow> rbind (ListAstNode_throwIfImmutable (TwoThreeListAstNode im l h item1 item2 item3 ids))
             (\<lambda>_. rbind (ListAstNode_handleChildrenChanged (TwoThreeListAstNode im l h item2 i None ids)) (\<lambda>t. Inr (Some item1, t))))"
| "ListAstNode_unprependChild (ArrayListAstNode im l h cs ids) =
     rbind (ListAstNode_throwIfImmutable (ArrayListAstNode im l h cs ids))
       (\<lambda>_. rbind (ListAstNode_handleChildrenChanged (ArrayListAstNode im l h (tl cs) ids))
              (\<lambda>t. Inr (if cs = [] then None else Some (hd cs), t)))"
| "ListAstNode_unprependChild _ = Inl TypeError"

section \<open>Reuse, flattening and cloning\<close>

text \<open>\<^verbatim>\<open>canBeReused\<close> of the nodes that are not lists.\<close>

fun leaf_canBeReused :: "SmallImmutableSet \<Rightarrow> 'k AstNode \<Rightarrow> bool" where
  "leaf_canBeReused openBracketIds (TextAstNode _) = True"
| "leaf_canBeReused openBracketIds (BracketAstNode _ _ _) = False"
| "leaf_canBeReused openBracketIds (InvalidBracketAstNode ids _) = (\<not> SmallImmutableSet_intersects openBracketIds ids)"
| "leaf_canBeReused openBracketIds (PairAstNode _ _ _ closingBracket ids) =
     (if closingBracket = None then False else if SmallImmutableSet_intersects openBracketIds ids then False else True)"
| "leaf_canBeReused openBracketIds _ = False"

text \<open>The loop to the last child that is not a list.\<close>

fun last_leaf :: "'k AstNode \<Rightarrow> 'k AstNode result" where
  "last_leaf (TwoThreeListAstNode _ _ _ _ item2 item3 _) = (case item3 of Some i \<Rightarrow> last_leaf i | None \<Rightarrow> last_leaf item2)"
| "last_leaf (ArrayListAstNode _ _ _ cs _) = (if cs = [] then Inl BugIndicatingError else last (map last_leaf cs))"
| "last_leaf node = Inr node"

definition AstNode_canBeReused :: "SmallImmutableSet \<Rightarrow> 'k AstNode \<Rightarrow> bool result" where
  "AstNode_canBeReused openBracketIds this =
     (if AstNode_kind this \<noteq> KList then Inr (leaf_canBeReused openBracketIds this)
      else if SmallImmutableSet_intersects openBracketIds (AstNode_missingOpeningBracketIds this) then Inr False
      else if AstNode_childrenLength this = 0 then Inr False
      else rbind (last_leaf this) (\<lambda>lastChild. Inr (leaf_canBeReused openBracketIds lastChild)))"

text \<open>A child that was flattened to a list gives its children.\<close>

definition splice_list :: "'k AstNode \<Rightarrow> 'k AstNode list" where
  "splice_list normalized = (if AstNode_kind normalized = KList then AstNode_children normalized else [normalized])"

fun AstNode_flattenLists :: "'k AstNode \<Rightarrow> 'k AstNode" where
  "AstNode_flattenLists (PairAstNode _ openingBracket child closingBracket _) =
     PairAstNode_create (AstNode_flattenLists openingBracket) (map_option AstNode_flattenLists child) (map_option AstNode_flattenLists closingBracket)"
| "AstNode_flattenLists (TwoThreeListAstNode _ _ _ item1 item2 item3 _) =
     ListAstNode_create (splice_list (AstNode_flattenLists item1) @ splice_list (AstNode_flattenLists item2) @
       (case item3 of None \<Rightarrow> [] | Some i \<Rightarrow> splice_list (AstNode_flattenLists i))) False"
| "AstNode_flattenLists (ArrayListAstNode _ _ _ cs _) = ListAstNode_create (concat (map (\<lambda>c. splice_list (AstNode_flattenLists c)) cs)) False"
| "AstNode_flattenLists node = node"

fun AstNode_deepClone :: "'k AstNode \<Rightarrow> 'k AstNode" where
  "AstNode_deepClone (PairAstNode l openingBracket child closingBracket ids) =
     PairAstNode l (AstNode_deepClone openingBracket) (map_option AstNode_deepClone child) (map_option AstNode_deepClone closingBracket) ids"
| "AstNode_deepClone (TwoThreeListAstNode _ l h item1 item2 item3 ids) =
     TwoThreeListAstNode False l h (AstNode_deepClone item1) (AstNode_deepClone item2) (map_option AstNode_deepClone item3) ids"
| "AstNode_deepClone (ArrayListAstNode _ l h cs ids) = ArrayListAstNode False l h (map AstNode_deepClone cs) ids"
| "AstNode_deepClone node = node"

section \<open>Trees for a text\<close>

abbreviation missing :: "'k AstNode \<Rightarrow> nat set" where
  "missing n \<equiv> keys_of (AstNode_missingOpeningBracketIds n)"

text \<open>\<open>spans n s\<close>: the node is built according to the rules for the text \<open>s\<close>.  Every node keeps the length of its text, a list has two or three children of the same height, and the
  missing opening brackets of a node are those of its children.\<close>

inductive spans :: "'k AstNode \<Rightarrow> js_string \<Rightarrow> bool" where
  spans_text: "l = plen s \<Longrightarrow> spans (TextAstNode l) s"
| spans_bracket: "l = plen s \<Longrightarrow> spans (BracketAstNode l k ids) s"
| spans_invalid: "l = plen s \<Longrightarrow> spans (InvalidBracketAstNode ids l) s"
| spans_pair: "spans opening s1 \<Longrightarrow> AstNode_kind opening = KBracket \<Longrightarrow>
    child = None \<and> s2 = [] \<and> keys_of ids = {} \<or> (\<exists>c. child = Some c \<and> spans c s2 \<and> keys_of ids = missing c) \<Longrightarrow>
    closing = None \<and> s3 = [] \<or> (\<exists>c. closing = Some c \<and> spans c s3 \<and> AstNode_kind c = KBracket) \<Longrightarrow>
    l = plen (s1 @ s2 @ s3) \<Longrightarrow> spans (PairAstNode l opening child closing ids) (s1 @ s2 @ s3)"
| spans_two: "spans a s \<Longrightarrow> spans b t \<Longrightarrow> h = Suc (AstNode_listHeight a) \<Longrightarrow> AstNode_listHeight b = AstNode_listHeight a \<Longrightarrow>
    l = plen (s @ t) \<Longrightarrow> keys_of ids = missing a \<union> missing b \<Longrightarrow> spans (TwoThreeListAstNode im l h a b None ids) (s @ t)"
| spans_three: "spans a s \<Longrightarrow> spans b t \<Longrightarrow> spans c u \<Longrightarrow> h = Suc (AstNode_listHeight a) \<Longrightarrow> AstNode_listHeight b = AstNode_listHeight a \<Longrightarrow>
    AstNode_listHeight c = AstNode_listHeight a \<Longrightarrow> l = plen (s @ t @ u) \<Longrightarrow> keys_of ids = missing a \<union> missing b \<union> missing c \<Longrightarrow>
    spans (TwoThreeListAstNode im l h a b (Some c) ids) (s @ t @ u)"

inductive_cases spans_twoE: "spans (TwoThreeListAstNode im l h a b None ids) s"
inductive_cases spans_threeE: "spans (TwoThreeListAstNode im l h a b (Some c) ids) s"
inductive_cases spans_arrayE: "spans (ArrayListAstNode im l h cs ids) s"
inductive_cases spans_pairE: "spans (PairAstNode l opening child closing ids) s"

lemma spans_length: "spans n s \<Longrightarrow> AstNode_length n = plen s"
  by (erule spans.cases) simp_all

lemma spans_height: "spans n s \<Longrightarrow> AstNode_kind n = KList \<longleftrightarrow> AstNode_listHeight n \<noteq> 0"
  by (erule spans.cases) simp_all

text \<open>The elements of a list, from left to right.\<close>

fun ast_leaves :: "'k AstNode \<Rightarrow> 'k AstNode list" where
  "ast_leaves (TwoThreeListAstNode _ _ _ item1 item2 item3 _) = ast_leaves item1 @ ast_leaves item2 @ (case item3 of None \<Rightarrow> [] | Some i \<Rightarrow> ast_leaves i)"
| "ast_leaves (ArrayListAstNode _ _ _ cs _) = concat (map ast_leaves cs)"
| "ast_leaves node = [node]"

lemma ast_leaves_flat: "AstNode_kind n \<noteq> KList \<Longrightarrow> ast_leaves n = [n]"
  by (cases n) simp_all

text \<open>Lists with two and with three children.\<close>

definition two_list :: "bool \<Rightarrow> 'k AstNode \<Rightarrow> 'k AstNode \<Rightarrow> 'k AstNode" where
  "two_list im a b = TwoThreeListAstNode im (lengthAdd (AstNode_length a) (AstNode_length b)) (Suc (AstNode_listHeight a)) a b None
     (SmallImmutableSet_merge (AstNode_missingOpeningBracketIds a) (AstNode_missingOpeningBracketIds b))"

definition three_list :: "bool \<Rightarrow> 'k AstNode \<Rightarrow> 'k AstNode \<Rightarrow> 'k AstNode \<Rightarrow> 'k AstNode" where
  "three_list im a b c = TwoThreeListAstNode im (lengthAdd (lengthAdd (AstNode_length a) (AstNode_length b)) (AstNode_length c)) (Suc (AstNode_listHeight a)) a b (Some c)
     (SmallImmutableSet_merge (SmallImmutableSet_merge (AstNode_missingOpeningBracketIds a) (AstNode_missingOpeningBracketIds b)) (AstNode_missingOpeningBracketIds c))"

lemma create23_node:
  "AstNode_listHeight b = AstNode_listHeight a \<Longrightarrow> ListAstNode_create23 a b None im = Inr (two_list im a b)"
  "AstNode_listHeight b = AstNode_listHeight a \<Longrightarrow> AstNode_listHeight c = AstNode_listHeight a \<Longrightarrow> ListAstNode_create23 a b (Some c) im = Inr (three_list im a b c)"
  by (simp_all add: ListAstNode_create23_def two_list_def three_list_def Let_def)

lemma refresh_node:
  "ListAstNode_handleChildrenChanged (TwoThreeListAstNode False l (Suc (AstNode_listHeight a)) a b None ids) = Inr (two_list False a b)"
  "ListAstNode_handleChildrenChanged (TwoThreeListAstNode False l (Suc (AstNode_listHeight a)) a b (Some c) ids) = Inr (three_list False a b c)"
  by (simp_all add: ListAstNode_handleChildrenChanged_def children_length_def children_missing_def two_list_def three_list_def)

lemma two_list_simps [simp]: "AstNode_listHeight (two_list im a b) = Suc (AstNode_listHeight a)" "ast_leaves (two_list im a b) = ast_leaves a @ ast_leaves b"
  by (simp_all add: two_list_def)

lemma three_list_simps [simp]:
  "AstNode_listHeight (three_list im a b c) = Suc (AstNode_listHeight a)" "ast_leaves (three_list im a b c) = ast_leaves a @ ast_leaves b @ ast_leaves c"
  by (simp_all add: three_list_def)

lemma two_list_spans:
  assumes "spans a s" "spans b t" "AstNode_listHeight b = AstNode_listHeight a" "short (s @ t)"
  shows "spans (two_list im a b) (s @ t)"
proof -
  have "short s" "short t" using short_append [OF assms(4)] by auto
  then show ?thesis
    unfolding two_list_def using assms by (intro spans_two) (simp_all add: spans_length plen_append keys_of_merge)
qed

lemma three_list_spans:
  assumes "spans a s" "spans b t" "spans c u" "AstNode_listHeight b = AstNode_listHeight a" "AstNode_listHeight c = AstNode_listHeight a" "short (s @ t @ u)"
  shows "spans (three_list im a b c) (s @ t @ u)"
proof -
  have "short s" "short t" "short u" "short (s @ t)" using short_append [of s "t @ u"] short_append [of t u] short_append [of "s @ t" u] assms(6) by auto
  then show ?thesis
    unfolding three_list_def using assms by (intro spans_three) (simp_all add: spans_length plen_append keys_of_merge)
qed

lemma toMutable_simps [simp]:
  "AstNode_listHeight (ListAstNode_toMutable n) = AstNode_listHeight n" "ast_leaves (ListAstNode_toMutable n) = ast_leaves n"
  "AstNode_kind (ListAstNode_toMutable n) = AstNode_kind n" "AstNode_missingOpeningBracketIds (ListAstNode_toMutable n) = AstNode_missingOpeningBracketIds n"
  "size (ListAstNode_toMutable n) = size n"
  by (cases n; simp)+

lemma toMutable_spans: "spans n s \<Longrightarrow> spans (ListAstNode_toMutable n) s"
  by (erule spans.cases) (auto intro: spans.intros)

lemma toMutable_flat: "AstNode_kind n \<noteq> KList \<Longrightarrow> ListAstNode_toMutable n = n"
  by (cases n) simp_all

lemma deepClone_simps [simp]:
  "AstNode_length (AstNode_deepClone n) = AstNode_length n" "AstNode_listHeight (AstNode_deepClone n) = AstNode_listHeight n"
  "AstNode_missingOpeningBracketIds (AstNode_deepClone n) = AstNode_missingOpeningBracketIds n" "AstNode_kind (AstNode_deepClone n) = AstNode_kind n"
  by (cases n; simp)+

lemma deepClone_spans: "spans n s \<Longrightarrow> spans (AstNode_deepClone n) s"
proof (induction rule: spans.induct)
  case (spans_pair ob s1 child s2 ids closing s3 l)
  then show ?case by (auto intro!: spans.spans_pair)
qed (auto intro: spans.intros)

lemma create_pair_spans:
  assumes "spans opening s1" "AstNode_kind opening = KBracket" "child = None \<and> s2 = [] \<or> (\<exists>c. child = Some c \<and> spans c s2)"
    "closing = None \<and> s3 = [] \<or> (\<exists>c. closing = Some c \<and> spans c s3 \<and> AstNode_kind c = KBracket)" "short (s1 @ s2 @ s3)"
  shows "spans (PairAstNode_create opening child closing) (s1 @ s2 @ s3)"
proof -
  have "short s1" "short s2" "short s3" "short (s1 @ s2)"
    using short_append [of s1 "s2 @ s3"] short_append [of s2 s3] short_append [of "s1 @ s2" s3] assms(5) by auto
  then show ?thesis
    unfolding PairAstNode_create_def Let_def using assms
    by (intro spans_pair) (auto simp: spans_length plen_append keys_of_empty)
qed

end
