(* ===== verification/Bracket_Tokens.thy ===== *)
theory Bracket_Tokens
  imports Bracket_Ast "HOL-Library.AList"
begin

text \<open>
  \<^verbatim>\<open>languageBracketsConfiguration.ts\<close>, \<^verbatim>\<open>brackets.ts\<close> and the tokens and the fast tokenizer of \<^verbatim>\<open>tokenizer.ts\<close>: from the bracket pairs of a language
  to the bracket tokens, and from a text and the matches of the bracket expression to its tokens.
\<close>

section \<open>The brackets of a language\<close>

record OpeningBracketKind =
  ob_languageId :: js_string
  ob_bracketText :: js_string

record ClosingBracketKind =
  cb_languageId :: js_string
  cb_bracketText :: js_string
  cb_openingBrackets :: "js_string list"
  cb_openingColorizedBrackets :: "js_string list"

text \<open>The closing brackets that an opening bracket knows (\<^verbatim>\<open>openedBrackets\<close>) are left out: nothing in the trees reads them.\<close>

datatype BracketKind = OpeningKind OpeningBracketKind | ClosingKind ClosingBracketKind

text \<open>The brackets of one language have different texts, so the sets of brackets hold their texts.\<close>

record LanguageBracketsConfiguration =
  lb_languageId :: js_string
  lb_openingBrackets :: "js_string list"
  lb_closingBrackets :: "(js_string \<times> js_string list \<times> js_string list) list"

definition filterValidBrackets :: "(js_string \<times> js_string) list \<Rightarrow> (js_string \<times> js_string) list" where
  "filterValidBrackets bracketPairs = filter (\<lambda>(open1, close1). open1 \<noteq> [] \<and> close1 \<noteq> []) bracketPairs"

text \<open>\<^verbatim>\<open>Set.add\<close> keeps the order in which the elements came.\<close>

definition set_add :: "'a \<Rightarrow> 'a list \<Rightarrow> 'a list" where
  "set_add x xs = (if x \<in> set xs then xs else xs @ [x])"

text \<open>The bodies of the two loops; the cached functions enter a bracket when it is asked for the first time.\<close>

definition add_pair ::
  "bool \<Rightarrow> js_string \<times> js_string \<Rightarrow> js_string list \<times> (js_string \<times> js_string list \<times> js_string list) list
   \<Rightarrow> js_string list \<times> (js_string \<times> js_string list \<times> js_string list) list" where
  "add_pair colorized p st =
     (case (p, st) of ((open1, close1), (openings, closings)) \<Rightarrow>
        (set_add open1 openings,
         case (case map_of closings close1 of None \<Rightarrow> ([], []) | Some sets \<Rightarrow> sets) of (opening, openingColorized) \<Rightarrow>
           AList.update close1 (set_add open1 opening, if colorized then set_add open1 openingColorized else openingColorized) closings))"

text \<open>\<^verbatim>\<open>config.brackets\<close> and \<^verbatim>\<open>config.colorizedBracketPairs\<close>, where they are configured.\<close>

definition new_LanguageBracketsConfiguration ::
  "js_string \<Rightarrow> (js_string \<times> js_string) list option \<Rightarrow> (js_string \<times> js_string) list option \<Rightarrow> LanguageBracketsConfiguration" where
  "new_LanguageBracketsConfiguration languageId brackets colorizedBracketPairs =
     (let bracketPairs = (case brackets of None \<Rightarrow> [] | Some ps \<Rightarrow> filterValidBrackets ps);
          colorized = (case colorizedBracketPairs of Some ps \<Rightarrow> filterValidBrackets ps | None \<Rightarrow> filter (\<lambda>p. \<not> (fst p = [60] \<and> snd p = [62])) bracketPairs);
          (openings, closings) = fold (add_pair True) colorized (fold (add_pair False) bracketPairs ([], []))
      in \<lparr>lb_languageId = languageId, lb_openingBrackets = openings, lb_closingBrackets = closings\<rparr>)"

definition LanguageBracketsConfiguration_openingBrackets :: "LanguageBracketsConfiguration \<Rightarrow> OpeningBracketKind list" where
  "LanguageBracketsConfiguration_openingBrackets c = map (\<lambda>t. \<lparr>ob_languageId = lb_languageId c, ob_bracketText = t\<rparr>) (lb_openingBrackets c)"

definition LanguageBracketsConfiguration_closingBrackets :: "LanguageBracketsConfiguration \<Rightarrow> ClosingBracketKind list" where
  "LanguageBracketsConfiguration_closingBrackets c =
     map (\<lambda>(t, opening, colorized). \<lparr>cb_languageId = lb_languageId c, cb_bracketText = t, cb_openingBrackets = opening, cb_openingColorizedBrackets = colorized\<rparr>)
       (lb_closingBrackets c)"

definition LanguageBracketsConfiguration_getOpeningBracketInfo :: "js_string \<Rightarrow> LanguageBracketsConfiguration \<Rightarrow> OpeningBracketKind option" where
  "LanguageBracketsConfiguration_getOpeningBracketInfo t c = find (\<lambda>b. ob_bracketText b = t) (LanguageBracketsConfiguration_openingBrackets c)"

definition LanguageBracketsConfiguration_getClosingBracketInfo :: "js_string \<Rightarrow> LanguageBracketsConfiguration \<Rightarrow> ClosingBracketKind option" where
  "LanguageBracketsConfiguration_getClosingBracketInfo t c = find (\<lambda>b. cb_bracketText b = t) (LanguageBracketsConfiguration_closingBrackets c)"

definition LanguageBracketsConfiguration_getBracketInfo :: "js_string \<Rightarrow> LanguageBracketsConfiguration \<Rightarrow> BracketKind option" where
  "LanguageBracketsConfiguration_getBracketInfo t c =
     (case LanguageBracketsConfiguration_getOpeningBracketInfo t c of
        Some b \<Rightarrow> Some (OpeningKind b)
      | None \<Rightarrow> map_option ClosingKind (LanguageBracketsConfiguration_getClosingBracketInfo t c))"

text \<open>\<^verbatim>\<open>getOpeningBrackets\<close>, and \<^verbatim>\<open>closes\<close> for brackets of the same configuration (a bracket of another one is told by its language here).\<close>

definition ClosingBracketKind_getOpeningBrackets :: "ClosingBracketKind \<Rightarrow> OpeningBracketKind list" where
  "ClosingBracketKind_getOpeningBrackets b = map (\<lambda>t. \<lparr>ob_languageId = cb_languageId b, ob_bracketText = t\<rparr>) (cb_openingBrackets b)"

definition ClosingBracketKind_closes :: "OpeningBracketKind \<Rightarrow> ClosingBracketKind \<Rightarrow> bool" where
  "ClosingBracketKind_closes other this = (if ob_languageId other \<noteq> cb_languageId this then False else ob_bracketText other \<in> set (cb_openingBrackets this))"

definition ClosingBracketKind_closesColorized :: "OpeningBracketKind \<Rightarrow> ClosingBracketKind \<Rightarrow> bool" where
  "ClosingBracketKind_closesColorized other this =
     (if ob_languageId other \<noteq> cb_languageId this then False else ob_bracketText other \<in> set (cb_openingColorizedBrackets this))"

section \<open>Bracket tokens\<close>

datatype TokenKind = TText | TOpeningBracket | TClosingBracket

record BracketToken =
  tk_length :: Length
  tk_kind :: TokenKind
  tk_bracketId :: int
  tk_bracketIds :: SmallImmutableSet
  tk_astNode :: "BracketKind AstNode option"

definition new_BracketToken :: "Length \<Rightarrow> TokenKind \<Rightarrow> int \<Rightarrow> SmallImmutableSet \<Rightarrow> BracketKind AstNode option \<Rightarrow> BracketToken" where
  "new_BracketToken l k i ids n = \<lparr>tk_length = l, tk_kind = k, tk_bracketId = i, tk_bracketIds = ids, tk_astNode = n\<rparr>"

text \<open>\<^verbatim>\<open>getId\<close>: the dense key of \<^verbatim>\<open>${languageId}:::${bracketText}\<close>.\<close>

definition getId :: "OpeningBracketKind \<Rightarrow> js_string DenseKeyProvider \<Rightarrow> nat \<times> js_string DenseKeyProvider" where
  "getId b kp = DenseKeyProvider_getKey (ob_languageId b @ [58, 58, 58] @ ob_bracketText b) kp"

fun opening_tokens :: "OpeningBracketKind list \<Rightarrow> (js_string \<times> BracketToken) list \<Rightarrow> js_string DenseKeyProvider \<Rightarrow> (js_string \<times> BracketToken) list \<times> js_string DenseKeyProvider" where
  "opening_tokens [] m kp = (m, kp)"
| "opening_tokens (b # bs) m kp =
     (case getId b kp of (openingTextId, kp2) \<Rightarrow>
        let l = toLength 0 (int (length (ob_bracketText b)));
            bracketIds = SmallImmutableSet_add_key openingTextId SmallImmutableSet_getEmpty
        in opening_tokens bs
             (AList.update (ob_bracketText b) (new_BracketToken l TOpeningBracket (int openingTextId) bracketIds (Some (BracketAstNode l (OpeningKind b) bracketIds))) m) kp2)"

fun closing_ids :: "OpeningBracketKind list \<Rightarrow> SmallImmutableSet \<Rightarrow> js_string DenseKeyProvider \<Rightarrow> SmallImmutableSet \<times> js_string DenseKeyProvider" where
  "closing_ids [] ids kp = (ids, kp)"
| "closing_ids (b # bs) ids kp = (case getId b kp of (i, kp2) \<Rightarrow> closing_ids bs (SmallImmutableSet_add_key i ids) kp2)"

text \<open>\<^verbatim>\<open>getId(closingBrackets[0])\<close> throws when there is no bracket to close.\<close>

fun closing_tokens ::
  "ClosingBracketKind list \<Rightarrow> (js_string \<times> BracketToken) list \<Rightarrow> js_string DenseKeyProvider \<Rightarrow> ((js_string \<times> BracketToken) list \<times> js_string DenseKeyProvider) result" where
  "closing_tokens [] m kp = Inr (m, kp)"
| "closing_tokens (b # bs) m kp =
     (let l = toLength 0 (int (length (cb_bracketText b)));
          closingBrackets = ClosingBracketKind_getOpeningBrackets b
      in case closing_ids closingBrackets SmallImmutableSet_getEmpty kp of (bracketIds, kp2) \<Rightarrow>
           (case closingBrackets of
              [] \<Rightarrow> Inl TypeError
            | c # _ \<Rightarrow>
                (case getId c kp2 of (i, kp3) \<Rightarrow>
                   closing_tokens bs
                     (AList.update (cb_bracketText b) (new_BracketToken l TClosingBracket (int i) bracketIds (Some (BracketAstNode l (ClosingKind b) bracketIds))) m) kp3)))"

definition BracketTokens_createFromLanguage ::
  "LanguageBracketsConfiguration \<Rightarrow> js_string DenseKeyProvider \<Rightarrow> ((js_string \<times> BracketToken) list \<times> js_string DenseKeyProvider) result" where
  "BracketTokens_createFromLanguage configuration denseKeyProvider =
     (case opening_tokens (LanguageBracketsConfiguration_openingBrackets configuration) [] denseKeyProvider of (m, kp) \<Rightarrow>
        closing_tokens (LanguageBracketsConfiguration_closingBrackets configuration) m kp)"

text \<open>\<^verbatim>\<open>toLowerCase\<close> is a parameter.\<close>

definition BracketTokens_getToken :: "(js_string \<Rightarrow> js_string) \<Rightarrow> js_string \<Rightarrow> (js_string \<times> BracketToken) list \<Rightarrow> BracketToken option" where
  "BracketTokens_getToken toLowerCase v m = map_of m (toLowerCase v)"

definition BracketTokens_findClosingTokenText :: "SmallImmutableSet \<Rightarrow> (js_string \<times> BracketToken) list \<Rightarrow> js_string option" where
  "BracketTokens_findClosingTokenText openingBracketIds m =
     map_option fst (find (\<lambda>(_, info). tk_kind info = TClosingBracket \<and> SmallImmutableSet_intersects (tk_bracketIds info) openingBracketIds) m)"

definition BracketTokens_isEmpty :: "(js_string \<times> BracketToken) list \<Rightarrow> bool" where
  "BracketTokens_isEmpty m \<longleftrightarrow> length m = 0"

section \<open>Configured pairs\<close>

text \<open>The sets of a closing bracket, empty when it was not entered.\<close>

definition opening_sets :: "(js_string \<times> js_string list \<times> js_string list) list \<Rightarrow> js_string \<Rightarrow> js_string list \<times> js_string list" where
  "opening_sets closings c = (case map_of closings c of None \<Rightarrow> ([], []) | Some sets \<Rightarrow> sets)"

text \<open>What the two loops have done for the pairs so far.\<close>

definition config_ok :: "(js_string \<times> js_string) set \<Rightarrow> js_string list \<Rightarrow> (js_string \<times> js_string list \<times> js_string list) list \<Rightarrow> bool" where
  "config_ok P openings closings \<longleftrightarrow> distinct openings \<and> set openings = fst ` P \<and> distinct (map fst closings) \<and> fst ` set closings = snd ` P \<and>
     (\<forall>c. set (fst (opening_sets closings c)) = {o1. (o1, c) \<in> P})"

lemma set_set_add [simp]: "set (set_add x xs) = insert x (set xs)" "distinct (set_add x xs) = distinct xs"
  by (auto simp: set_add_def)

lemma opening_sets_update: "opening_sets (AList.update c v closings) x = (if x = c then v else opening_sets closings x)"
  by (simp add: opening_sets_def update_conv')

lemma config_ok_add:
  assumes "config_ok P openings closings"
  shows "case_prod (config_ok (insert p P)) (add_pair colorized p (openings, closings))"
proof -
  obtain o1 c where p: "p = (o1, c)" by (cases p)
  obtain os cs where sets: "opening_sets closings c = (os, cs)" by (rule prod.exhaust)
  let ?new = "(set_add o1 os, if colorized then set_add o1 cs else cs)"
  have a: "add_pair colorized p (openings, closings) = (set_add o1 openings, AList.update c ?new closings)"
    using sets by (simp add: add_pair_def p opening_sets_def)
  have os: "set os = {x. (x, c) \<in> P}" using assms sets unfolding config_ok_def by (metis fst_conv)
  have k: "fst ` set (AList.update c ?new closings) = insert c (fst ` set closings)"
    using arg_cong [OF update_keys, of set c ?new closings] by (auto split: if_splits)
  have "set (fst (opening_sets (AList.update c ?new closings) x)) = {y. (y, x) \<in> insert p P}" for x
    using assms os by (cases "x = c") (auto simp: opening_sets_update p config_ok_def)
  with assms k show ?thesis
    unfolding a config_ok_def by (simp add: distinct_update p)
qed

lemma config_ok_fold:
  "config_ok P openings closings \<Longrightarrow> case_prod (config_ok (P \<union> set ps)) (fold (add_pair colorized) ps (openings, closings))"
proof (induction ps arbitrary: P openings closings)
  case (Cons p ps)
  obtain os cs where a: "add_pair colorized p (openings, closings) = (os, cs)" by (rule prod.exhaust)
  from config_ok_add [OF Cons.prems, of p colorized] a have "config_ok (insert p P) os cs" by simp
  from Cons.IH [OF this] a show ?case by simp
qed simp

text \<open>The valid pairs that are configured.\<close>

definition configured :: "(js_string \<times> js_string) list option \<Rightarrow> (js_string \<times> js_string) list option \<Rightarrow> (js_string \<times> js_string) set" where
  "configured brackets colorized = {(o1, c). o1 \<noteq> [] \<and> c \<noteq> [] \<and> (o1, c) \<in> (case brackets of None \<Rightarrow> {} | Some ps \<Rightarrow> set ps) \<union> (case colorized of None \<Rightarrow> {} | Some ps \<Rightarrow> set ps)}"

lemma configuration_ok:
  "config_ok (configured brackets colorized) (lb_openingBrackets (new_LanguageBracketsConfiguration lang brackets colorized))
     (lb_closingBrackets (new_LanguageBracketsConfiguration lang brackets colorized))"
proof -
  let ?b = "case brackets of None \<Rightarrow> [] | Some ps \<Rightarrow> filterValidBrackets ps"
  let ?c = "case colorized of Some ps \<Rightarrow> filterValidBrackets ps | None \<Rightarrow> filter (\<lambda>p. \<not> (fst p = [60] \<and> snd p = [62])) ?b"
  have "config_ok {} [] []" by (simp add: config_ok_def opening_sets_def)
  from config_ok_fold [OF this, of ?b False] obtain os cs where 1: "fold (add_pair False) ?b ([], []) = (os, cs)" "config_ok (set ?b) os cs"
    by (auto split: prod.splits)
  from config_ok_fold [OF 1(2), of ?c True] obtain os2 cs2 where 2: "fold (add_pair True) ?c (os, cs) = (os2, cs2)" "config_ok (set ?b \<union> set ?c) os2 cs2"
    by (auto split: prod.splits)
  have "set ?b \<union> set ?c = configured brackets colorized"
    by (auto simp: configured_def filterValidBrackets_def split: option.splits)
  with 1 2 show ?thesis by (simp add: new_LanguageBracketsConfiguration_def Let_def)
qed

text \<open>A closing bracket closes exactly the opening brackets it is configured with, at least one, and no two brackets have the same text.\<close>

lemma configuration_closes:
  assumes "b \<in> set (LanguageBracketsConfiguration_closingBrackets (new_LanguageBracketsConfiguration lang brackets colorized))"
  shows "ClosingBracketKind_getOpeningBrackets b \<noteq> []"
    "ClosingBracketKind_closes \<lparr>ob_languageId = lang, ob_bracketText = t\<rparr> b \<longleftrightarrow> (t, cb_bracketText b) \<in> configured brackets colorized"
proof -
  let ?c = "new_LanguageBracketsConfiguration lang brackets colorized"
  have ok: "distinct (map fst (lb_closingBrackets ?c))" "fst ` set (lb_closingBrackets ?c) = snd ` configured brackets colorized"
    "set (fst (opening_sets (lb_closingBrackets ?c) t')) = {o1. (o1, t') \<in> configured brackets colorized}" for t'
    using configuration_ok [of brackets colorized lang] unfolding config_ok_def by blast+
  have l: "lb_languageId ?c = lang" by (simp add: new_LanguageBracketsConfiguration_def Let_def split: prod.split)
  obtain t' os cs where b: "(t', os, cs) \<in> set (lb_closingBrackets ?c)" "b = \<lparr>cb_languageId = lang, cb_bracketText = t', cb_openingBrackets = os, cb_openingColorizedBrackets = cs\<rparr>"
    using assms unfolding LanguageBracketsConfiguration_closingBrackets_def l by auto
  have "opening_sets (lb_closingBrackets ?c) t' = (os, cs)" using map_of_is_SomeI [OF ok(1) b(1)] by (simp add: opening_sets_def)
  then have os: "set os = {o1. (o1, t') \<in> configured brackets colorized}" using ok(3) [of t'] by simp
  have "t' \<in> snd ` configured brackets colorized" using imageI [OF b(1), of fst] unfolding ok(2) fst_conv .
  then have "set os \<noteq> {}" unfolding os by (metis (mono_tags, lifting) empty_Collect_eq imageE prod.collapse)
  then show "ClosingBracketKind_getOpeningBrackets b \<noteq> []" using b(2) by (simp add: ClosingBracketKind_getOpeningBrackets_def)
  show "ClosingBracketKind_closes \<lparr>ob_languageId = lang, ob_bracketText = t\<rparr> b \<longleftrightarrow> (t, cb_bracketText b) \<in> configured brackets colorized"
    using b(2) os by (simp add: ClosingBracketKind_closes_def)
qed

section \<open>The tokens of a language\<close>

text \<open>A bracket token: its length is that of its text, its node has the same length and brackets, and it is about its own id.\<close>

definition bracket_token :: "js_string \<Rightarrow> BracketToken \<Rightarrow> bool" where
  "bracket_token s t \<longleftrightarrow> tk_length t = toLength 0 (int (length s)) \<and>
     (\<exists>i k. tk_bracketId t = int i \<and> i \<in> keys_of (tk_bracketIds t) \<and> tk_astNode t = Some (BracketAstNode (tk_length t) k (tk_bracketIds t)) \<and>
        (tk_kind t = TOpeningBracket \<and> keys_of (tk_bracketIds t) = {i} \<and> (\<exists>b. k = OpeningKind b) \<or> tk_kind t = TClosingBracket \<and> (\<exists>b. k = ClosingKind b)))"

definition tokens_ok :: "(js_string \<times> BracketToken) list \<Rightarrow> bool" where
  "tokens_ok m \<longleftrightarrow> (\<forall>s t. map_of m s = Some t \<longrightarrow> bracket_token s t)"

lemma tokens_ok_update: "tokens_ok m \<Longrightarrow> bracket_token s t \<Longrightarrow> tokens_ok (AList.update s t m)"
  by (simp add: tokens_ok_def update_conv')

lemma opening_tokens_ok: "tokens_ok m \<Longrightarrow> opening_tokens bs m kp = (m2, kp2) \<Longrightarrow> tokens_ok m2"
proof (induction bs m kp rule: opening_tokens.induct)
  case (2 b bs m kp)
  obtain i kp1 where g: "getId b kp = (i, kp1)" by (rule prod.exhaust)
  have "bracket_token (ob_bracketText b) (new_BracketToken l TOpeningBracket (int i) (SmallImmutableSet_add_key i SmallImmutableSet_getEmpty)
      (Some (BracketAstNode l (OpeningKind k) (SmallImmutableSet_add_key i SmallImmutableSet_getEmpty))))"
    if "l = toLength 0 (int (length (ob_bracketText b)))" for l k
    using that by (simp add: bracket_token_def new_BracketToken_def keys_of_add keys_of_empty)
  from tokens_ok_update [OF 2(2) this [OF refl]] 2 g show ?case by (simp add: Let_def)
qed simp

lemma closing_ids_keys:
  "closing_ids bs ids kp = (ids2, kp2) \<Longrightarrow> dkp_ok kp \<Longrightarrow> keys_of ids \<subseteq> keys_of ids2 \<and> dkp_ok kp2 \<and> (\<exists>more. kp2 = kp @ more) \<and>
   (bs \<noteq> [] \<longrightarrow> fst (getId (hd bs) kp2) \<in> keys_of ids2)"
proof (induction bs ids kp rule: closing_ids.induct)
  case (2 b bs ids kp)
  obtain i kp1 where g: "getId b kp = (i, kp1)" by (rule prod.exhaust)
  note r = dense_keys_roundtrip [OF 2(3) g [unfolded getId_def]]
  from 2(1) [OF g [symmetric]] 2(2) g r(1)
  have IH: "keys_of (SmallImmutableSet_add_key i ids) \<subseteq> keys_of ids2" "dkp_ok kp2" "\<exists>more. kp2 = kp1 @ more" by auto
  obtain m where m: "kp2 = kp1 @ m" using IH(3) by blast
  have "map_of kp1 (ob_languageId b @ [58, 58, 58] @ ob_bracketText b) = Some i"
    using r(4) r(3) by (auto simp: DenseKeyProvider_getKey_def Let_def split: option.splits)
  then have "fst (getId b kp2) = i" by (simp add: getId_def DenseKeyProvider_getKey_def m)
  with IH r(5) m show ?case by (auto simp: keys_of_add)
qed auto

lemma closing_tokens_ok:
  assumes "tokens_ok m" "dkp_ok kp" "\<forall>b \<in> set bs. ClosingBracketKind_getOpeningBrackets b \<noteq> []"
  shows "\<exists>m2 kp2. closing_tokens bs m kp = Inr (m2, kp2) \<and> tokens_ok m2 \<and> dkp_ok kp2"
  using assms
proof (induction bs arbitrary: m kp)
  case (Cons b bs)
  obtain c cs where c: "ClosingBracketKind_getOpeningBrackets b = c # cs" using Cons.prems(3) by (cases "ClosingBracketKind_getOpeningBrackets b") auto
  obtain ids kp2 where i: "closing_ids (c # cs) SmallImmutableSet_getEmpty kp = (ids, kp2)" by (rule prod.exhaust)
  obtain i kp3 where g: "getId c kp2 = (i, kp3)" by (rule prod.exhaust)
  have k: "i \<in> keys_of ids" "dkp_ok kp2" using closing_ids_keys [OF i Cons.prems(2)] g by auto
  have "dkp_ok kp3" using dense_keys_roundtrip(1) [OF k(2) g [unfolded getId_def]] .
  moreover have "bracket_token (cb_bracketText b) (new_BracketToken l TClosingBracket (int i) ids (Some (BracketAstNode l (ClosingKind kd) ids)))"
    if "l = toLength 0 (int (length (cb_bracketText b)))" for l kd
    using that k(1) by (simp add: bracket_token_def new_BracketToken_def)
  ultimately show ?case
    using Cons.IH [OF tokens_ok_update [OF Cons.prems(1)]] Cons.prems(3) c i g by (simp add: Let_def)
qed simp

lemma opening_tokens_keys: "opening_tokens bs m kp = (m2, kp2) \<Longrightarrow> dkp_ok kp \<Longrightarrow> dkp_ok kp2"
proof (induction bs m kp rule: opening_tokens.induct)
  case (2 b bs m kp)
  obtain i kp1 where g: "getId b kp = (i, kp1)" by (rule prod.exhaust)
  from dense_keys_roundtrip(1) [OF 2(3) g [unfolded getId_def]] 2 g show ?case by (simp add: Let_def)
qed simp

lemma update_texts: "fst ` set (AList.update k v m) = insert k (fst ` set m)"
  using arg_cong [OF update_keys, of set k v m] by (auto split: if_splits)

lemma opening_tokens_texts: "opening_tokens bs m kp = (m2, kp2) \<Longrightarrow> fst ` set m2 = fst ` set m \<union> ob_bracketText ` set bs"
  by (induction bs m kp rule: opening_tokens.induct) (auto simp: Let_def update_texts split: prod.splits)

lemma closing_tokens_texts: "closing_tokens bs m kp = Inr (m2, kp2) \<Longrightarrow> fst ` set m2 = fst ` set m \<union> cb_bracketText ` set bs"
  by (induction bs m kp rule: closing_tokens.induct) (auto simp: Let_def update_texts split: prod.splits list.splits)

text \<open>The tokens that are made for a language are bracket tokens of their texts.\<close>

lemma created_tokens_ok:
  assumes "dkp_ok kp" "BracketTokens_createFromLanguage (new_LanguageBracketsConfiguration lang brackets colorized) kp = Inr (m, kp2)"
  shows "tokens_ok m"
proof -
  let ?c = "new_LanguageBracketsConfiguration lang brackets colorized"
  obtain m1 kp1 where o: "opening_tokens (LanguageBracketsConfiguration_openingBrackets ?c) [] kp = (m1, kp1)" by (rule prod.exhaust)
  have "tokens_ok m1" using opening_tokens_ok [OF _ o] by (simp add: tokens_ok_def)
  moreover have "dkp_ok kp1" using opening_tokens_keys [OF o assms(1)] .
  ultimately show ?thesis
    using closing_tokens_ok [of m1 kp1 "LanguageBracketsConfiguration_closingBrackets ?c"] configuration_closes(1) [of _ lang brackets colorized] assms(2) o
    by (auto simp: BracketTokens_createFromLanguage_def)
qed

lemma getToken_bracket: "tokens_ok m \<Longrightarrow> BracketTokens_getToken toLowerCase v m = Some t \<Longrightarrow> length (toLowerCase v) = length v \<Longrightarrow> bracket_token v t"
  unfolding BracketTokens_getToken_def tokens_ok_def bracket_token_def by fastforce

text \<open>C31: The tokens of a language: for every configuration the tokens are made without an error, exactly the texts of the configured brackets (pairs with an empty text are ignored) have one, and a token has the
  length of its text, a node with the same brackets, and stands for its own id (an opening bracket for no other).\<close>

theorem language_tokens:
  assumes "dkp_ok kp"
  shows "\<exists>m kp2. BracketTokens_createFromLanguage (new_LanguageBracketsConfiguration lang brackets colorized) kp = Inr (m, kp2) \<and> dkp_ok kp2 \<and>
    fst ` set m = fst ` configured brackets colorized \<union> snd ` configured brackets colorized \<and>
    (\<forall>s t. map_of m s = Some t \<longrightarrow> bracket_token s t)"
proof -
  let ?c = "new_LanguageBracketsConfiguration lang brackets colorized"
  obtain m1 kp1 where o: "opening_tokens (LanguageBracketsConfiguration_openingBrackets ?c) [] kp = (m1, kp1)" by (rule prod.exhaust)
  have "tokens_ok m1" using opening_tokens_ok [OF _ o] by (simp add: tokens_ok_def)
  moreover have "dkp_ok kp1" using opening_tokens_keys [OF o assms] .
  ultimately obtain m2 kp2 where c: "closing_tokens (LanguageBracketsConfiguration_closingBrackets ?c) m1 kp1 = Inr (m2, kp2)" "tokens_ok m2" "dkp_ok kp2"
    using closing_tokens_ok [of m1 kp1 "LanguageBracketsConfiguration_closingBrackets ?c"] configuration_closes(1) [of _ lang brackets colorized] by auto
  have "set (lb_openingBrackets ?c) = fst ` configured brackets colorized" "fst ` set (lb_closingBrackets ?c) = snd ` configured brackets colorized"
    using configuration_ok [of brackets colorized lang] unfolding config_ok_def by blast+
  then have "fst ` set m2 = fst ` configured brackets colorized \<union> snd ` configured brackets colorized"
    using opening_tokens_texts [OF o] closing_tokens_texts [OF c(1)]
    by (simp add: LanguageBracketsConfiguration_openingBrackets_def LanguageBracketsConfiguration_closingBrackets_def image_image case_prod_beta)
  with o c show ?thesis by (auto simp: BracketTokens_createFromLanguage_def tokens_ok_def)
qed

theorem language_tokens_witness:
  "dkp_ok ([] :: js_string DenseKeyProvider) \<and> (\<exists>m kp2. BracketTokens_createFromLanguage (new_LanguageBracketsConfiguration [] (Some [([40], [41])]) None) [] = Inr (m, kp2) \<and> fst ` set m = {[40], [41]})"
proof -
  have ok: "dkp_ok ([] :: js_string DenseKeyProvider)" by (simp add: dkp_ok_def)
  have c: "configured (Some [([40], [41])]) None = {([40], [41])}" by (auto simp: configured_def)
  obtain m kp2 where m: "BracketTokens_createFromLanguage (new_LanguageBracketsConfiguration [] (Some [([40], [41])]) None) [] = Inr (m, kp2)"
    "fst ` set m = fst ` configured (Some [([40], [41])]) None \<union> snd ` configured (Some [([40], [41])]) None"
    using language_tokens [OF ok, of "[]" "Some [([40], [41])]" None] by (elim exE conjE) (rule that)
  have "fst ` set m = {[40], [41]}" unfolding m(2) c by auto
  with ok m(1) show ?thesis by (intro conjI exI)
qed

end
