(* ===== verification/Fast_Tokenizer.thy ===== *)
theory Fast_Tokenizer
  imports Bracket_Tokens
begin

text \<open>
  The class \<^verbatim>\<open>FastTokenizer\<close> of \<^verbatim>\<open>tokenizer.ts\<close>: the tokens of a text, from the matches of the regular expression for the brackets or a line feed.  How regular expressions match is
  a parameter: the matches come as a list of offsets and texts (or not at all, when a language has no brackets).
\<close>

section \<open>The tokenizer\<close>

record FastTokenizer =
  ft_offset :: Length
  ft_tokens :: "BracketToken option list"
  ft_idx :: nat
  ft_length :: Length
  ft_text :: js_string

definition text_token :: "Length \<Rightarrow> BracketToken" where
  "text_token l = new_BracketToken l TText (- 1) SmallImmutableSet_getEmpty (Some (TextAstNode l))"

record fast_state =
  fs_tokens :: "BracketToken option list"
  fs_curLineCount :: int
  fs_lastLineBreakOffset :: int
  fs_lastTokenEndOffset :: int
  fs_lastTokenEndLine :: int

text \<open>The length of the text between the last token and an offset.  The tokens for short texts are made beforehand.\<close>

definition gap_length :: "fast_state \<Rightarrow> int \<Rightarrow> Length" where
  "gap_length st curOffset =
     (if fs_lastTokenEndLine st = fs_curLineCount st then toLength 0 (curOffset - fs_lastTokenEndOffset st)
      else toLength (fs_curLineCount st - fs_lastTokenEndLine st) (curOffset - fs_lastLineBreakOffset st))"

definition fast_step :: "(js_string \<Rightarrow> BracketToken option) \<Rightarrow> int \<times> js_string \<Rightarrow> fast_state \<Rightarrow> fast_state" where
  "fast_step getToken match1 st =
     (case match1 of (curOffset, v) \<Rightarrow>
        if v = [LF] then st\<lparr>fs_curLineCount := fs_curLineCount st + 1, fs_lastLineBreakOffset := curOffset + 1\<rparr>
        else
          st\<lparr>fs_tokens := fs_tokens st @ (if fs_lastTokenEndOffset st \<noteq> curOffset then [Some (text_token (gap_length st curOffset))] else []) @ [getToken v],
             fs_lastTokenEndOffset := curOffset + int (length v),
             fs_lastTokenEndLine := fs_curLineCount st\<rparr>)"

definition new_FastTokenizer :: "js_string \<Rightarrow> (int \<times> js_string) list option \<Rightarrow> (js_string \<Rightarrow> BracketToken option) \<Rightarrow> FastTokenizer" where
  "new_FastTokenizer text1 matches getToken =
     (let st0 = \<lparr>fs_tokens = [], fs_curLineCount = 0, fs_lastLineBreakOffset = 0, fs_lastTokenEndOffset = 0, fs_lastTokenEndLine = 0\<rparr>;
          st = (case matches of None \<Rightarrow> st0 | Some ms \<Rightarrow> fold (fast_step getToken) ms st0);
          off = int (length text1)
      in \<lparr>ft_offset = lengthZero,
          ft_tokens = fs_tokens st @ (if fs_lastTokenEndOffset st \<noteq> off then [Some (text_token (gap_length st off))] else []),
          ft_idx = 0, ft_length = toLength (fs_curLineCount st) (off - fs_lastLineBreakOffset st), ft_text = text1\<rparr>)"

definition FastTokenizer_read :: "FastTokenizer \<Rightarrow> BracketToken option \<times> FastTokenizer" where
  "FastTokenizer_read this = (if ft_idx this < length (ft_tokens this) then ft_tokens this ! ft_idx this else None, this\<lparr>ft_idx := ft_idx this + 1\<rparr>)"

definition FastTokenizer_peek :: "FastTokenizer \<Rightarrow> BracketToken option \<times> FastTokenizer" where
  "FastTokenizer_peek this = (if ft_idx this < length (ft_tokens this) then ft_tokens this ! ft_idx this else None, this)"

definition FastTokenizer_skip :: "Length \<Rightarrow> FastTokenizer \<Rightarrow> FastTokenizer result" where
  "FastTokenizer_skip l this = Inl JsError"

section \<open>The tokens cover the text\<close>

text \<open>What the matches of the expression in a text are, from an offset on: in order, without overlap, each a line feed or a bracket, and no line feed is left out.\<close>

inductive matches_from :: "int \<Rightarrow> (int \<times> js_string) list \<Rightarrow> js_string \<Rightarrow> bool" where
  matches_Nil: "LF \<notin> set s \<Longrightarrow> matches_from p [] s"
| matches_line: "LF \<notin> set u \<Longrightarrow> matches_from (p + int (length u) + 1) ms s \<Longrightarrow> matches_from p ((p + int (length u), [LF]) # ms) (u @ LF # s)"
| matches_bracket: "LF \<notin> set u \<Longrightarrow> LF \<notin> set v \<Longrightarrow> v \<noteq> [] \<Longrightarrow> matches_from (p + int (length u) + int (length v)) ms s \<Longrightarrow>
    matches_from p ((p + int (length u), v) # ms) (u @ v @ s)"

text \<open>A token for a text.\<close>

definition token_for :: "js_string \<Rightarrow> BracketToken option \<Rightarrow> bool" where
  "token_for s x \<longleftrightarrow> s \<noteq> [] \<and> (\<exists>t. x = Some t \<and> tk_length t = plen s \<and>
     (tk_kind t = TText \<and> tk_astNode t = Some (TextAstNode (plen s)) \<or> tk_kind t \<noteq> TText \<and> bracket_token s t))"

lemma bracket_token_for: "bracket_token s t \<Longrightarrow> LF \<notin> set s \<Longrightarrow> s \<noteq> [] \<Longrightarrow> token_for s (Some t)"
  by (auto simp: token_for_def bracket_token_def plen_def pack_def tlen_line)

text \<open>The token of a match stands at the offset of the match.\<close>

definition placed :: "js_string list \<Rightarrow> BracketToken option list \<Rightarrow> (js_string \<Rightarrow> BracketToken option) \<Rightarrow> int \<times> js_string \<Rightarrow> bool" where
  "placed ss ts getToken = (\<lambda>(i, v). v \<noteq> [LF] \<longrightarrow> (\<exists>k < length ts. ss ! k = v \<and> ts ! k = getToken v \<and> int (length (concat (take k ss))) = i))"

lemma placed_append:
  assumes "placed ss ts getToken m" "length ss = length ts"
  shows "placed (ss @ ss2) (ts @ ts2) getToken m"
proof -
  obtain i v where m: "m = (i, v)" by (cases m)
  show ?thesis
  proof (cases "v = [LF]")
    case False
    then obtain k where "k < length ts" "ss ! k = v" "ts ! k = getToken v" "int (length (concat (take k ss))) = i" using assms(1) m by (auto simp: placed_def)
    with assms(2) have "k < length (ts @ ts2) \<and> (ss @ ss2) ! k = v \<and> (ts @ ts2) ! k = getToken v \<and> int (length (concat (take k (ss @ ss2)))) = i" by (simp add: nth_append)
    then show ?thesis unfolding m placed_def split_conv by blast
  qed (simp add: m placed_def)
qed

lemma placed_last: "length ss = length ts \<Longrightarrow> int (length (concat ss)) = i \<Longrightarrow> placed (ss @ [v]) (ts @ [getToken v]) getToken (i, v)"
  unfolding placed_def split_conv by (intro impI exI [of _ "length ts"]) (simp add: nth_append)

text \<open>The state when \<open>q @ r\<close> was read and the tokens are those of \<open>q\<close>.\<close>

definition fast_ok :: "(js_string \<Rightarrow> BracketToken option) \<Rightarrow> (int \<times> js_string) set \<Rightarrow> fast_state \<Rightarrow> js_string \<Rightarrow> js_string \<Rightarrow> bool" where
  "fast_ok getToken found st q r \<longleftrightarrow> (\<exists>ss. list_all2 token_for ss (fs_tokens st) \<and> concat ss = q \<and> (\<forall>m \<in> found. placed ss (fs_tokens st) getToken m)) \<and> fs_lastTokenEndOffset st = int (length q) \<and>
     fs_lastTokenEndLine st = lineCount (tlen q) \<and> fs_curLineCount st = lineCount (tlen (q @ r)) \<and>
     fs_lastLineBreakOffset st = int (length (q @ r)) - columnCount (tlen (q @ r))"

lemma fast_ok_gap:
  assumes "fast_ok getToken found st q r"
  shows "gap_length st (int (length (q @ r))) = plen r"
proof (cases "lineCount (tlen r) = 0")
  case True
  then have "tlen r = new_TextLength 0 (int (length r))" using no_lines tlen_line by blast
  with assms True show ?thesis by (simp add: fast_ok_def gap_length_def tlen_append_counts plen_def pack_def)
next
  case False
  with assms show ?thesis by (simp add: fast_ok_def gap_length_def tlen_append_counts plen_def pack_def)
qed

lemma fast_ok_read: "fast_ok getToken found st q r \<Longrightarrow> LF \<notin> set u \<Longrightarrow> fast_ok getToken found st q (r @ u)"
  by (auto simp: fast_ok_def tlen_append_counts tlen_line)

text \<open>The tokens for the text read so far.\<close>

definition flushed :: "fast_state \<Rightarrow> int \<Rightarrow> BracketToken option list" where
  "flushed st off = fs_tokens st @ (if fs_lastTokenEndOffset st \<noteq> off then [Some (text_token (gap_length st off))] else [])"

lemma fast_ok_flush:
  assumes "fast_ok getToken found st q r"
  shows "\<exists>ss. list_all2 token_for ss (flushed st (int (length (q @ r)))) \<and> concat ss = q @ r \<and> (\<forall>m \<in> found. placed ss (flushed st (int (length (q @ r)))) getToken m)"
proof -
  obtain ss where ss: "list_all2 token_for ss (fs_tokens st)" "concat ss = q" "\<forall>m \<in> found. placed ss (fs_tokens st) getToken m" using assms by (auto simp: fast_ok_def)
  have e: "fs_lastTokenEndOffset st = int (length (q @ r)) \<longleftrightarrow> r = []" using assms by (auto simp: fast_ok_def)
  show ?thesis
  proof (cases "r = []")
    case True
    with ss e show ?thesis by (auto simp: flushed_def)
  next
    case False
    then have "token_for r (Some (text_token (plen r)))" by (simp add: token_for_def text_token_def new_BracketToken_def)
    moreover have "flushed st (int (length (q @ r))) = fs_tokens st @ [Some (text_token (plen r))]" unfolding flushed_def fast_ok_gap [OF assms] using e False by simp
    ultimately show ?thesis using ss placed_append [of ss "fs_tokens st" getToken _ "[r]"] list_all2_lengthD [OF ss(1)]
      by (intro exI [of _ "ss @ [r]"]) (auto intro: list_all2_appendI)
  qed
qed

lemma fast_step_ok:
  assumes "fast_ok getToken found st q r" "\<And>v t. getToken v = Some t \<Longrightarrow> bracket_token v t" "LF \<notin> set u"
  shows "fast_ok getToken (insert (int (length (q @ r @ u)), [LF]) found) (fast_step getToken (int (length (q @ r @ u)), [LF]) st) q (r @ u @ [LF])"
    and "LF \<notin> set v \<Longrightarrow> v \<noteq> [] \<Longrightarrow> getToken v \<noteq> None \<Longrightarrow>
      fast_ok getToken (insert (int (length (q @ r @ u)), v) found) (fast_step getToken (int (length (q @ r @ u)), v) st) (q @ r @ u @ v) []"
proof -
  have ok: "fast_ok getToken found st q (r @ u)" using fast_ok_read [OF assms(1,3)] .
  have "lineCount (tlen ((r @ u) @ [LF])) \<noteq> 0" "columnCount (tlen ((r @ u) @ [LF])) = 0" "lineCount (tlen ((r @ u) @ [LF])) = lineCount (tlen (r @ u)) + 1"
    using tlen_counts_nonneg(1) [of "r @ u"] unfolding tlen_append_counts [of "r @ u" "[LF]"] by (simp_all add: tlen_single)
  with ok show "fast_ok getToken (insert (int (length (q @ r @ u)), [LF]) found) (fast_step getToken (int (length (q @ r @ u)), [LF]) st) q (r @ u @ [LF])"
    by (simp add: fast_ok_def fast_step_def tlen_append_counts [of q] placed_def)
  assume v: "LF \<notin> set v" "v \<noteq> []" "getToken v \<noteq> None"
  then obtain t where t: "getToken v = Some t" by auto
  let ?ts = "flushed st (int (length (q @ r @ u)))" and ?st = "fast_step getToken (int (length (q @ r @ u)), v) st"
  have tv: "token_for v (getToken v)" using bracket_token_for [OF assms(2) [OF t] v(1,2)] t by simp
  obtain ss where ss: "list_all2 token_for ss ?ts" "concat ss = q @ r @ u" "\<forall>m \<in> found. placed ss ?ts getToken m" using fast_ok_flush [OF ok] by auto
  note len = list_all2_lengthD [OF ss(1)]
  have "[LF] \<noteq> v" using v(1) by auto
  then have "fs_tokens (fast_step getToken (int (length (q @ r @ u)), v) st) = ?ts @ [getToken v]" by (simp add: fast_step_def flushed_def)
  moreover have "list_all2 token_for (ss @ [v]) (?ts @ [getToken v])" using ss(1) tv by (intro list_all2_appendI) auto
  moreover have "\<forall>m \<in> insert (int (length (q @ r @ u)), v) found. placed (ss @ [v]) (?ts @ [getToken v]) getToken m"
    using ss(3) placed_append [OF _ len, of getToken _ "[v]" "[getToken v]"] placed_last [OF len, of "int (length (q @ r @ u))"] ss(2) by auto
  moreover have rest: "fs_lastTokenEndOffset ?st = int (length (q @ r @ u @ v))" "fs_lastTokenEndLine ?st = lineCount (tlen (q @ r @ u @ v))"
    "fs_curLineCount ?st = lineCount (tlen ((q @ r @ u @ v) @ []))" "fs_lastLineBreakOffset ?st = int (length ((q @ r @ u @ v) @ [])) - columnCount (tlen ((q @ r @ u @ v) @ []))"
    using ok v(1) \<open>[LF] \<noteq> v\<close> by (auto simp: fast_ok_def fast_step_def tlen_append_counts tlen_line)
  ultimately show "fast_ok getToken (insert (int (length (q @ r @ u)), v) found) (fast_step getToken (int (length (q @ r @ u)), v) st) (q @ r @ u @ v) []"
    using rest ss(2) unfolding fast_ok_def by (intro conjI exI [of _ "ss @ [v]"]) simp_all
qed

lemma fast_fold_ok:
  assumes "matches_from p ms s" "p = int (length (q @ r))" "fast_ok getToken found st q r" "\<And>v t. getToken v = Some t \<Longrightarrow> bracket_token v t"
    "\<forall>(i, v) \<in> set ms. v \<noteq> [LF] \<longrightarrow> getToken v \<noteq> None"
  shows "\<exists>q2 r2. fast_ok getToken (found \<union> set ms) (fold (fast_step getToken) ms st) q2 r2 \<and> q2 @ r2 = q @ r @ s"
  using assms
proof (induction arbitrary: q r st found rule: matches_from.induct)
  case (matches_Nil s p)
  then show ?case using fast_ok_read [of getToken found st q r s] by (intro exI [of _ q] exI [of _ "r @ s"]) simp
next
  case (matches_line u p ms s)
  have "fast_ok getToken (insert (p + int (length u), [LF]) found) (fast_step getToken (p + int (length u), [LF]) st) q (r @ u @ [LF])"
    using fast_step_ok(1) [OF matches_line.prems(2,3) matches_line(1)] matches_line.prems(1) by (simp add: add.assoc)
  from matches_line.IH [OF _ this matches_line.prems(3)] matches_line.prems(1,4) show ?case by simp
next
  case (matches_bracket u v p ms s)
  have "[LF] \<noteq> v" using matches_bracket(2) by auto
  then have "fast_ok getToken (insert (p + int (length u), v) found) (fast_step getToken (p + int (length u), v) st) (q @ r @ u @ v) []"
    using fast_step_ok(2) [OF matches_bracket.prems(2,3) matches_bracket(1-3)] matches_bracket.prems(1,4) by (simp add: add.assoc)
  from matches_bracket.IH [OF _ this matches_bracket.prems(3)] matches_bracket.prems(1,4) show ?case by simp
qed

lemma fast_tokens_cover:
  assumes "matches_from 0 ms s" "\<And>v t. getToken v = Some t \<Longrightarrow> bracket_token v t" "\<forall>(i, v) \<in> set ms. v \<noteq> [LF] \<longrightarrow> getToken v \<noteq> None"
  shows "(\<exists>ss. list_all2 token_for ss (ft_tokens (new_FastTokenizer s (Some ms) getToken)) \<and> concat ss = s \<and>
      (\<forall>m \<in> set ms. placed ss (ft_tokens (new_FastTokenizer s (Some ms) getToken)) getToken m)) \<and>
    ft_length (new_FastTokenizer s (Some ms) getToken) = plen s"
proof -
  let ?st0 = "\<lparr>fs_tokens = [], fs_curLineCount = 0, fs_lastLineBreakOffset = 0, fs_lastTokenEndOffset = 0, fs_lastTokenEndLine = 0\<rparr>"
  have "fast_ok getToken {} ?st0 [] []" by (auto simp: fast_ok_def TextLength_zero_def)
  from fast_fold_ok [OF assms(1) _ this assms(2,3)]
  obtain q r where f: "fast_ok getToken (set ms) (fold (fast_step getToken) ms ?st0) q r" "q @ r = s" by auto
  have "ft_length (new_FastTokenizer s (Some ms) getToken) = plen (q @ r)"
    using f by (auto simp: new_FastTokenizer_def Let_def fast_ok_def plen_def pack_def)
  with fast_ok_flush [OF f(1)] show ?thesis unfolding f(2) by (simp add: new_FastTokenizer_def Let_def flushed_def)
qed

text \<open>The brackets among the tokens are those of the matches, in order.\<close>

lemma fast_brackets:
  assumes "\<And>v t. getToken v = Some t \<Longrightarrow> bracket_token v t" "\<forall>(i, v) \<in> set ms. v \<noteq> [LF] \<longrightarrow> getToken v \<noteq> None"
  shows "filter (\<lambda>t. tk_kind t \<noteq> TText) (map the (ft_tokens (new_FastTokenizer s (Some ms) getToken))) = map (\<lambda>(i, v). the (getToken v)) (filter (\<lambda>(i, v). v \<noteq> [LF]) ms)"
proof -
  have tt: "tk_kind (text_token l) = TText" for l by (simp add: text_token_def new_BracketToken_def)
  have "filter (\<lambda>t. tk_kind t \<noteq> TText) (map the (fs_tokens (fold (fast_step getToken) ms st))) =
      filter (\<lambda>t. tk_kind t \<noteq> TText) (map the (fs_tokens st)) @ map (\<lambda>(i, v). the (getToken v)) (filter (\<lambda>(i, v). v \<noteq> [LF]) ms)" for st
    using assms(2)
  proof (induction ms arbitrary: st)
    case (Cons m ms)
    obtain i v where m: "m = (i, v)" by (cases m)
    show ?case
    proof (cases "v = [LF]")
      case False
      then obtain t where "getToken v = Some t" using Cons.prems m by auto
      moreover from this have "tk_kind t \<noteq> TText" using assms(1) [of v t] by (auto simp: bracket_token_def)
      ultimately show ?thesis using Cons.IH [of "fast_step getToken m st"] Cons.prems m False by (simp add: fast_step_def tt)
    qed (use Cons.IH [of "fast_step getToken m st"] Cons.prems m in \<open>simp add: fast_step_def\<close>)
  qed simp
  then show ?thesis by (simp add: new_FastTokenizer_def Let_def tt)
qed

text \<open>The fast tokenizer of a text with brackets: its tokens are those of consecutive, non-empty pieces that together are the text, each with the length of its piece, and its length is that of the
  text.  (The matches of the regular expression are assumed to be those of line feeds and brackets that have tokens.)\<close>

theorem fast_tokenizer_covers_text:
  assumes "matches_from 0 ms s" "\<And>v t. getToken v = Some t \<Longrightarrow> bracket_token v t" "\<forall>(i, v) \<in> set ms. v \<noteq> [LF] \<longrightarrow> getToken v \<noteq> None"
  shows "(\<exists>ss. list_all2 token_for ss (ft_tokens (new_FastTokenizer s (Some ms) getToken)) \<and> concat ss = s) \<and>
    ft_length (new_FastTokenizer s (Some ms) getToken) = plen s"
  using fast_tokens_cover [OF assms(1) assms(2) assms(3)] by blast

text \<open>A parenthesis for examples.\<close>

definition example_token :: "js_string \<Rightarrow> BracketToken option" where
  "example_token v =
     (if v = [40] then Some (new_BracketToken 1 TOpeningBracket 0 (SmallImmutableSet_add_key 0 SmallImmutableSet_getEmpty)
        (Some (BracketAstNode 1 (OpeningKind \<lparr>ob_languageId = [], ob_bracketText = [40]\<rparr>) (SmallImmutableSet_add_key 0 SmallImmutableSet_getEmpty)))) else None)"

lemma example_token_ok: "example_token v = Some t \<Longrightarrow> bracket_token v t"
  by (auto simp: example_token_def bracket_token_def new_BracketToken_def keys_of_add keys_of_empty toLength_def split: if_splits)

theorem fast_tokenizer_covers_text_witness:
  "ft_length (new_FastTokenizer [97, LF, 40] (Some [(1, [LF]), (2, [40])]) example_token) = plen [97, LF, 40] \<and>
   (\<exists>ss. list_all2 token_for ss (ft_tokens (new_FastTokenizer [97, LF, 40] (Some [(1, [LF]), (2, [40])]) example_token)) \<and> concat ss = [97, LF, 40])"
proof -
  have "matches_from 0 [(1, [LF]), (2, [40])] [97, LF, 40]"
    using matches_line [of "[97]" 0 "[(2, [40])]" "[40]"] matches_bracket [of "[]" "[40]" 2 "[]" "[]"] matches_Nil by simp
  moreover have "\<forall>(i, v) \<in> set [(1 :: int, [LF]), (2, [40])]. v \<noteq> [LF] \<longrightarrow> example_token v \<noteq> None" by (simp add: example_token_def)
  ultimately show ?thesis using fast_tokenizer_covers_text [where getToken = example_token, OF _ example_token_ok] by blast
qed

text \<open>Without brackets there is no expression, and line feeds are not counted.\<close>

lemma fast_tokenizer_without_brackets:
  "ft_length (new_FastTokenizer [97, LF, 98] None getToken) = toLength 0 3" "plen [97, LF, 98] = toLength 1 1"
  by (simp_all add: new_FastTokenizer_def Let_def plen_def pack_def tlen_def TextLength_zero_def)

text \<open>A bracket that is configured with a capital letter matches, but has no token.\<close>

lemma getToken_capital: "toLowerCase [66] = [98] \<Longrightarrow> BracketTokens_getToken toLowerCase [66] [([66], t)] = None"
  by (simp add: BracketTokens_getToken_def)

end
