(* ===== verification/Concat_Trees.thy ===== *)
theory Concat_Trees
  imports Bracket_Ast
begin

text \<open>
  \<^verbatim>\<open>concat23Trees.ts\<close> of the bracket pair trees: concatenating (2,3) trees.  The loops that walk down one side of a tree and back up again along the list of parents are recursions
  that return the changed node and the node that still has to be inserted.
\<close>

section \<open>Inserting at an end\<close>

lemma getChild_size: "AstNode_getChild idx n = Inr (Some c) \<Longrightarrow> size c < size n"
proof (cases n)
  case (ArrayListAstNode im l h cs ids)
  assume "AstNode_getChild idx n = Inr (Some c)"
  then have "c \<in> set cs" using ArrayListAstNode by (auto simp: js_at_def split: if_splits)
  then show ?thesis using ArrayListAstNode size_list_estimation' [of c cs "size c" size] by simp
qed (auto split: if_splits)

lemma make_element_size:
  assumes "make_element_mutable idx n = Inr (Some c, n2)"
  shows "size c < size n"
proof -
  obtain d where d: "AstNode_getChild idx n = Inr (Some d)" using assms by (auto simp: make_element_mutable_def rbind_eq_Inr_iff split: option.splits)
  with assms have "size c = size d" by (auto simp: make_element_mutable_def Let_def rbind_eq_Inr_iff)
  with getChild_size [OF d] show ?thesis by simp
qed

lemma makeLast_size: "ListAstNode_makeLastElementMutable n = Inr (Some c, n2) \<Longrightarrow> size c < size n"
  using make_element_size [of "AstNode_childrenLength n - 1" n c n2]
  by (auto simp: ListAstNode_makeLastElementMutable_def rbind_eq_Inr_iff split: if_splits)

lemma makeFirst_size: "ListAstNode_makeFirstElementMutable n = Inr (Some c, n2) \<Longrightarrow> size c < size n"
  using make_element_size [of 0 n c n2]
  by (auto simp: ListAstNode_makeFirstElementMutable_def rbind_eq_Inr_iff split: if_splits)

text \<open>On the way up: a parent whose last child was changed takes the pending node, or splits.\<close>

definition append_up :: "'k AstNode option \<Rightarrow> 'k AstNode \<Rightarrow> ('k AstNode \<times> 'k AstNode option) result" where
  "append_up pending parent =
     (case pending of
        Some nodeToAppendOfCorrectHeight \<Rightarrow>
          if AstNode_childrenLength parent \<ge> 3 then
            rbind (ListAstNode_unappendChild parent) (\<lambda>(child, parent2).
              case child of
                None \<Rightarrow> Inl TypeError
              | Some c \<Rightarrow> rbind (ListAstNode_create23 c nodeToAppendOfCorrectHeight None False) (\<lambda>n. Inr (parent2, Some n)))
          else rbind (ListAstNode_appendChildOfSameHeight nodeToAppendOfCorrectHeight parent) (\<lambda>parent2. Inr (parent2, None))
      | None \<Rightarrow> rbind (ListAstNode_handleChildrenChanged parent) (\<lambda>parent2. Inr (parent2, None)))"

definition prepend_up :: "'k AstNode option \<Rightarrow> 'k AstNode \<Rightarrow> ('k AstNode \<times> 'k AstNode option) result" where
  "prepend_up pending parent =
     (case pending of
        Some nodeToPrependOfCorrectHeight \<Rightarrow>
          if AstNode_childrenLength parent \<ge> 3 then
            rbind (ListAstNode_unprependChild parent) (\<lambda>(child, parent2).
              case child of
                None \<Rightarrow> Inl TypeError
              | Some c \<Rightarrow> rbind (ListAstNode_create23 nodeToPrependOfCorrectHeight c None False) (\<lambda>n. Inr (parent2, Some n)))
          else rbind (ListAstNode_prependChildOfSameHeight nodeToPrependOfCorrectHeight parent) (\<lambda>parent2. Inr (parent2, None))
      | None \<Rightarrow> rbind (ListAstNode_handleChildrenChanged parent) (\<lambda>parent2. Inr (parent2, None)))"

function append_to :: "'k AstNode \<Rightarrow> 'k AstNode \<Rightarrow> ('k AstNode \<times> 'k AstNode option) result" where
  "append_to curNode nodeToAppend =
     (if AstNode_listHeight nodeToAppend = AstNode_listHeight curNode then Inr (curNode, Some nodeToAppend)
      else if AstNode_kind curNode \<noteq> KList then Inl JsError
      else
        (case ListAstNode_makeLastElementMutable curNode of
           Inl e \<Rightarrow> Inl e
         | Inr (None, _) \<Rightarrow> Inl TypeError
         | Inr (Some child, parent) \<Rightarrow>
             rbind (append_to child nodeToAppend) (\<lambda>(child2, pending).
               rbind (ListAstNode_setChild (AstNode_childrenLength parent - 1) child2 parent) (append_up pending))))"
  by pat_completeness auto
termination by (relation "measure (\<lambda>(cur, _). size cur)") (auto dest: makeLast_size)

function prepend_to :: "'k AstNode \<Rightarrow> 'k AstNode \<Rightarrow> ('k AstNode \<times> 'k AstNode option) result" where
  "prepend_to curNode nodeToAppend =
     (if AstNode_listHeight nodeToAppend = AstNode_listHeight curNode then Inr (curNode, Some nodeToAppend)
      else if AstNode_kind curNode \<noteq> KList then Inl JsError
      else
        (case ListAstNode_makeFirstElementMutable curNode of
           Inl e \<Rightarrow> Inl e
         | Inr (None, _) \<Rightarrow> Inl TypeError
         | Inr (Some child, parent) \<Rightarrow>
             rbind (prepend_to child nodeToAppend) (\<lambda>(child2, pending).
               rbind (ListAstNode_setChild 0 child2 parent) (prepend_up pending))))"
  by pat_completeness auto
termination by (relation "measure (\<lambda>(cur, _). size cur)") (auto dest: makeFirst_size)

declare append_to.simps [simp del] prepend_to.simps [simp del]

definition concat_append :: "'k AstNode \<Rightarrow> 'k AstNode \<Rightarrow> 'k AstNode result" where
  "concat_append l nodeToAppend =
     rbind (append_to (ListAstNode_toMutable l) nodeToAppend) (\<lambda>(l2, pending).
       case pending of Some n \<Rightarrow> ListAstNode_create23 l2 n None False | None \<Rightarrow> Inr l2)"

definition concat_prepend :: "'k AstNode \<Rightarrow> 'k AstNode \<Rightarrow> 'k AstNode result" where
  "concat_prepend l nodeToAppend =
     rbind (prepend_to (ListAstNode_toMutable l) nodeToAppend) (\<lambda>(l2, pending).
       case pending of Some n \<Rightarrow> ListAstNode_create23 n l2 None False | None \<Rightarrow> Inr l2)"

definition heightDiff :: "'k AstNode \<Rightarrow> 'k AstNode \<Rightarrow> int" where
  "heightDiff node1 node2 = \<bar>int (AstNode_listHeight node1) - int (AstNode_listHeight node2)\<bar>"

definition concat_two :: "'k AstNode \<Rightarrow> 'k AstNode \<Rightarrow> 'k AstNode result" where
  "concat_two node1 node2 =
     (if AstNode_listHeight node1 = AstNode_listHeight node2 then ListAstNode_create23 node1 node2 None False
      else if AstNode_listHeight node1 > AstNode_listHeight node2 then concat_append node1 node2
      else concat_prepend node2 node1)"

section \<open>Trees of the same height\<close>

text \<open>One pass of the loop: the items are paired, the last three of an odd number together.  (The sources write the parents over the items they are made of.)\<close>

fun pair_items :: "bool \<Rightarrow> 'k AstNode list \<Rightarrow> 'k AstNode list result" where
  "pair_items im [a, b, c] = rbind (ListAstNode_create23 a b (Some c) im) (\<lambda>n. Inr [n])"
| "pair_items im (a # b # rest) = rbind (ListAstNode_create23 a b None im) (\<lambda>n. rbind (pair_items im rest) (\<lambda>ns. Inr (n # ns)))"
| "pair_items im _ = Inr []"

lemma pair_items_length: "pair_items im items = Inr ns \<Longrightarrow> length ns = length items div 2"
  by (induction im items arbitrary: ns rule: pair_items.induct) (auto simp: rbind_eq_Inr_iff)

function same_height_loop :: "bool \<Rightarrow> 'k AstNode list \<Rightarrow> 'k AstNode list result" where
  "same_height_loop im items =
     (if length items > 3 then (case pair_items im items of Inl e \<Rightarrow> Inl e | Inr ns \<Rightarrow> same_height_loop im ns) else Inr items)"
  by pat_completeness auto
termination by (relation "measure (\<lambda>(_, items). length items)") (auto dest: pair_items_length)

declare same_height_loop.simps [simp del]

definition concat23TreesOfSameHeight :: "'k AstNode list \<Rightarrow> bool \<Rightarrow> 'k AstNode option result" where
  "concat23TreesOfSameHeight items createImmutableLists =
     (if length items = 0 then Inr None
      else if length items = 1 then Inr (Some (items ! 0))
      else
        rbind (same_height_loop createImmutableLists items) (\<lambda>ns.
          rbind (ListAstNode_create23 (ns ! 0) (ns ! 1) (if length ns \<ge> 3 then Some (ns ! 2) else None) createImmutableLists)
            (\<lambda>n. Inr (Some n))))"

section \<open>Trees of any height\<close>

text \<open>\<^verbatim>\<open>readNode\<close>: the node for the next items of the same height, and the items behind them.\<close>

definition readNode :: "'k AstNode list \<Rightarrow> ('k AstNode option \<times> 'k AstNode list) result" where
  "readNode items =
     (case items of
        [] \<Rightarrow> Inr (None, [])
      | node1 # others \<Rightarrow>
          let same = takeWhile (\<lambda>c. AstNode_listHeight c = AstNode_listHeight node1) others; rest = drop (length same) others
          in if same \<noteq> [] then rbind (concat23TreesOfSameHeight (node1 # same) False) (\<lambda>n. Inr (n, rest)) else Inr (Some node1, rest))"

lemma readNode_rest: "readNode items = Inr (n, rest) \<Longrightarrow> items \<noteq> [] \<Longrightarrow> length rest < length items"
  by (cases items) (auto simp: readNode_def Let_def rbind_eq_Inr_iff split: if_splits)

function concat_loop :: "'k AstNode \<Rightarrow> 'k AstNode \<Rightarrow> 'k AstNode list \<Rightarrow> 'k AstNode result" where
  "concat_loop first second items =
     (if items = [] then concat_two first second
      else
        (case readNode items of
           Inl e \<Rightarrow> Inl e
         | Inr (None, _) \<Rightarrow> concat_two first second
         | Inr (Some item, rest) \<Rightarrow>
             if heightDiff first second \<le> heightDiff second item
             then rbind (concat_two first second) (\<lambda>n. concat_loop n item rest)
             else rbind (concat_two second item) (\<lambda>n. concat_loop first n rest)))"
  by pat_completeness auto
termination by (relation "measure (\<lambda>(_, _, items). length items)") (auto dest: readNode_rest)

declare concat_loop.simps [simp del]

definition concat23Trees :: "'k AstNode list \<Rightarrow> 'k AstNode option result" where
  "concat23Trees items =
     (if length items = 0 then Inr None
      else if length items = 1 then Inr (Some (items ! 0))
      else
        rbind (readNode items) (\<lambda>(first, rest).
          case first of
            None \<Rightarrow> Inl TypeError
          | Some f \<Rightarrow>
              rbind (readNode rest) (\<lambda>(second, rest2).
                case second of None \<Rightarrow> Inr (Some f) | Some s \<Rightarrow> rbind (concat_loop f s rest2) (\<lambda>n. Inr (Some n)))))"

section \<open>Concatenation keeps the rules\<close>

text \<open>\<open>joined s ls r\<close>: the operation returned a tree for the text \<open>s\<close> with the elements \<open>ls\<close>.\<close>

definition joined :: "js_string \<Rightarrow> 'k AstNode list \<Rightarrow> 'k AstNode result \<Rightarrow> bool" where
  "joined s ls r \<longleftrightarrow> (\<exists>n. r = Inr n \<and> spans n s \<and> ast_leaves n = ls)"

text \<open>The result of an insertion: the changed node, and behind it a node of the same height that did not fit.\<close>

definition inserted :: "nat \<Rightarrow> js_string \<Rightarrow> 'k AstNode list \<Rightarrow> ('k AstNode \<times> 'k AstNode option) result \<Rightarrow> bool" where
  "inserted h s ls r \<longleftrightarrow>
     (\<exists>n p. r = Inr (n, p) \<and> AstNode_listHeight n = h \<and>
        (case p of
           None \<Rightarrow> spans n s \<and> ast_leaves n = ls
         | Some q \<Rightarrow> \<exists>s1 s2. s = s1 @ s2 \<and> spans n s1 \<and> spans q s2 \<and> AstNode_listHeight q = h \<and> ls = ast_leaves n @ ast_leaves q))"

lemma inserted_split:
  "AstNode_listHeight n = h \<Longrightarrow> AstNode_listHeight q = h \<Longrightarrow> spans n s1 \<Longrightarrow> spans q s2 \<Longrightarrow>
   inserted h (s1 @ s2) (ast_leaves n @ ast_leaves q) (Inr (n, Some q))"
  by (auto simp: inserted_def)

text \<open>A list whose last child became \<open>n\<close>, with a pending node \<open>p\<close> behind it.\<close>

lemma append_up_two:
  assumes "spans a s" "inserted (AstNode_listHeight a) t ls (Inr (n, p))" "short (s @ t)"
  shows "inserted (Suc (AstNode_listHeight a)) (s @ t) (ast_leaves a @ ls) (append_up p (TwoThreeListAstNode False l (Suc (AstNode_listHeight a)) a n None ids))"
proof (cases p)
  case None
  then show ?thesis using assms
    by (auto simp: inserted_def append_up_def refresh_node intro!: two_list_spans)
next
  case (Some q)
  then obtain t1 t2 where "t = t1 @ t2" "spans n t1" "spans q t2" "AstNode_listHeight q = AstNode_listHeight a" "ls = ast_leaves n @ ast_leaves q"
    using assms(2) by (auto simp: inserted_def)
  with Some assms show ?thesis
    by (auto simp: inserted_def append_up_def refresh_node intro!: three_list_spans)
qed

lemma append_up_three:
  assumes "spans a s" "spans b t" "AstNode_listHeight b = AstNode_listHeight a" "inserted (AstNode_listHeight a) u ls (Inr (n, p))" "short (s @ t @ u)"
  shows "inserted (Suc (AstNode_listHeight a)) (s @ t @ u) (ast_leaves a @ ast_leaves b @ ls)
    (append_up p (TwoThreeListAstNode False l (Suc (AstNode_listHeight a)) a b (Some n) ids))"
proof (cases p)
  case None
  then show ?thesis using assms
    by (auto simp: inserted_def append_up_def refresh_node intro!: three_list_spans)
next
  case (Some q)
  then obtain t1 t2 where c: "u = t1 @ t2" "spans n t1" "spans q t2" "AstNode_listHeight q = AstNode_listHeight a" "ls = ast_leaves n @ ast_leaves q"
      "AstNode_listHeight n = AstNode_listHeight a"
    using assms(4) by (auto simp: inserted_def)
  have "spans (two_list False a b) (s @ t)" "spans (two_list False n q) (t1 @ t2)"
    using c assms short_append [of "s @ t" u] short_append [of t u] short_append [of s "t @ u"] by (auto intro!: two_list_spans)
  from inserted_split [OF _ _ this, of "Suc (AstNode_listHeight a)"] show ?thesis
    using Some c assms(3) by (simp add: append_up_def refresh_node create23_node)
qed

text \<open>The same at the front, where the pending node comes first.\<close>

definition inserted_front :: "nat \<Rightarrow> js_string \<Rightarrow> 'k AstNode list \<Rightarrow> ('k AstNode \<times> 'k AstNode option) result \<Rightarrow> bool" where
  "inserted_front h s ls r \<longleftrightarrow>
     (\<exists>n p. r = Inr (n, p) \<and> AstNode_listHeight n = h \<and>
        (case p of
           None \<Rightarrow> spans n s \<and> ast_leaves n = ls
         | Some q \<Rightarrow> \<exists>s1 s2. s = s1 @ s2 \<and> spans q s1 \<and> spans n s2 \<and> AstNode_listHeight q = h \<and> ls = ast_leaves q @ ast_leaves n))"

lemma inserted_front_split:
  "AstNode_listHeight n = h \<Longrightarrow> AstNode_listHeight q = h \<Longrightarrow> spans q s1 \<Longrightarrow> spans n s2 \<Longrightarrow>
   inserted_front h (s1 @ s2) (ast_leaves q @ ast_leaves n) (Inr (n, Some q))"
  by (auto simp: inserted_front_def)

lemma prepend_up_two:
  assumes "spans b t" "AstNode_listHeight b = h" "inserted_front h s ls (Inr (n, p))" "short (s @ t)"
  shows "inserted_front (Suc h) (s @ t) (ls @ ast_leaves b) (prepend_up p (TwoThreeListAstNode False l (Suc h) n b None ids))"
proof (cases p)
  case None
  have hn: "AstNode_listHeight n = h" using assms(3) by (simp add: inserted_front_def)
  show ?thesis using None assms unfolding hn [symmetric]
    by (auto simp: inserted_front_def prepend_up_def refresh_node intro!: two_list_spans)
next
  case (Some q)
  then obtain t1 t2 where c: "s = t1 @ t2" "spans q t1" "spans n t2" "AstNode_listHeight q = h" "ls = ast_leaves q @ ast_leaves n" "AstNode_listHeight n = h"
    using assms(3) by (auto simp: inserted_front_def)
  then have "spans (three_list False q n b) (t1 @ t2 @ t)" using assms by (intro three_list_spans) auto
  with Some c assms show ?thesis
    using refresh_node(2) [of l q n b ids] by (simp add: inserted_front_def prepend_up_def)
qed

lemma prepend_up_three:
  assumes "spans b t" "spans c u" "AstNode_listHeight b = h" "AstNode_listHeight c = h" "inserted_front h s ls (Inr (n, p))" "short (s @ t @ u)"
  shows "inserted_front (Suc h) (s @ t @ u) (ls @ ast_leaves b @ ast_leaves c)
    (prepend_up p (TwoThreeListAstNode False l (Suc h) n b (Some c) ids))"
proof (cases p)
  case None
  have hn: "AstNode_listHeight n = h" using assms(5) by (simp add: inserted_front_def)
  show ?thesis using None assms unfolding hn [symmetric]
    by (auto simp: inserted_front_def prepend_up_def refresh_node intro!: three_list_spans)
next
  case (Some q)
  then obtain t1 t2 where d: "s = t1 @ t2" "spans q t1" "spans n t2" "AstNode_listHeight q = h" "ls = ast_leaves q @ ast_leaves n" "AstNode_listHeight n = h"
    using assms(5) by (auto simp: inserted_front_def)
  have "spans (two_list False q n) (t1 @ t2)" "spans (two_list False b c) (t @ u)"
    using d assms short_append [of s "t @ u"] by (auto intro!: two_list_spans)
  from inserted_front_split [OF _ _ this, of "Suc h"] show ?thesis
    using Some d assms(3) refresh_node(1) [of l b c ids] by (simp add: prepend_up_def create23_node)
qed

lemma append_to_spans:
  assumes "spans cur s" "spans node t" "AstNode_listHeight node \<le> AstNode_listHeight cur" "short (s @ t)" "ListAstNode_toMutable cur = cur"
  shows "inserted (AstNode_listHeight cur) (s @ t) (ast_leaves cur @ ast_leaves node) (append_to cur node)"
  using assms
proof (induction cur node arbitrary: s rule: append_to.induct)
  case (1 cur node)
  show ?case
  proof (cases "AstNode_listHeight node = AstNode_listHeight cur")
    case True
    then show ?thesis using 1 by (subst append_to.simps) (auto simp: inserted_def)
  next
    case False
    with 1(4) have lt: "AstNode_listHeight node < AstNode_listHeight cur" by simp
    have mut: "ListAstNode_toMutable (if AstNode_kind c = KList then ListAstNode_toMutable c else c) = (if AstNode_kind c = KList then ListAstNode_toMutable c else c)" for c
      by (cases c) simp_all
    show ?thesis using 1(2)
    proof cases
      case (spans_two a s1 b s2 h l ids im)
      let ?b = "if AstNode_kind b = KList then ListAstNode_toMutable b else b"
      have im: "\<not> im" using 1(6) spans_two by simp
      have mk: "ListAstNode_makeLastElementMutable cur = Inr (Some ?b, TwoThreeListAstNode False l h a ?b None ids)"
        using spans_two im by (simp add: ListAstNode_makeLastElementMutable_def make_element_mutable_def Let_def)
      have k: "AstNode_kind cur = KList" using spans_two by simp
      have hb: "AstNode_listHeight ?b = AstNode_listHeight a" "ast_leaves ?b = ast_leaves b" using spans_two by simp_all
      have "inserted (AstNode_listHeight ?b) (s2 @ t) (ast_leaves ?b @ ast_leaves node) (append_to ?b node)"
        using 1(1) [OF False _ mk refl refl, of s2] k spans_two 1(3-5) lt short_append [of s1 "s2 @ t"] mut [of b] toMutable_spans by (auto split: if_splits)
      then obtain n p where ap: "append_to ?b node = Inr (n, p)" "inserted (AstNode_listHeight a) (s2 @ t) (ast_leaves b @ ast_leaves node) (Inr (n, p))"
        unfolding hb by (auto simp: inserted_def)
      from append_up_two [OF spans_two(3) ap(2)] show ?thesis
        using False k mk ap(1) spans_two 1(5) by (subst append_to.simps) (simp split: if_splits)
    next
      case (spans_three a s1 b s2 c s3 h l ids im)
      let ?c = "if AstNode_kind c = KList then ListAstNode_toMutable c else c"
      have im: "\<not> im" using 1(6) spans_three by simp
      have mk: "ListAstNode_makeLastElementMutable cur = Inr (Some ?c, TwoThreeListAstNode False l h a b (Some ?c) ids)"
        using spans_three im by (simp add: ListAstNode_makeLastElementMutable_def make_element_mutable_def Let_def)
      have k: "AstNode_kind cur = KList" using spans_three by simp
      have hc: "AstNode_listHeight ?c = AstNode_listHeight a" "ast_leaves ?c = ast_leaves c" using spans_three by simp_all
      have "inserted (AstNode_listHeight ?c) (s3 @ t) (ast_leaves ?c @ ast_leaves node) (append_to ?c node)"
        using 1(1) [OF False _ mk refl refl, of s3] k spans_three 1(3-5) lt short_append [of "s1 @ s2" "s3 @ t"] mut [of c] toMutable_spans by (auto split: if_splits)
      then obtain n p where ap: "append_to ?c node = Inr (n, p)" "inserted (AstNode_listHeight a) (s3 @ t) (ast_leaves c @ ast_leaves node) (Inr (n, p))"
        unfolding hc by (auto simp: inserted_def)
      from append_up_three [OF spans_three(3,4) _ ap(2)] show ?thesis
        using False k mk ap(1) spans_three 1(5) by (subst append_to.simps) (simp split: if_splits)
    qed (use lt in auto)
  qed
qed

lemma prepend_to_spans:
  assumes "spans cur s" "spans node t" "AstNode_listHeight node \<le> AstNode_listHeight cur" "short (t @ s)" "ListAstNode_toMutable cur = cur"
  shows "inserted_front (AstNode_listHeight cur) (t @ s) (ast_leaves node @ ast_leaves cur) (prepend_to cur node)"
  using assms
proof (induction cur node arbitrary: s rule: prepend_to.induct)
  case (1 cur node)
  show ?case
  proof (cases "AstNode_listHeight node = AstNode_listHeight cur")
    case True
    then show ?thesis using 1 by (subst prepend_to.simps) (auto simp: inserted_front_def)
  next
    case False
    with 1(4) have lt: "AstNode_listHeight node < AstNode_listHeight cur" by simp
    have mut: "ListAstNode_toMutable (if AstNode_kind c = KList then ListAstNode_toMutable c else c) = (if AstNode_kind c = KList then ListAstNode_toMutable c else c)" for c
      by (cases c) simp_all
    show ?thesis using 1(2)
    proof cases
      case (spans_two a s1 b s2 h l ids im)
      let ?a = "if AstNode_kind a = KList then ListAstNode_toMutable a else a"
      have im: "\<not> im" using 1(6) spans_two by simp
      have mk: "ListAstNode_makeFirstElementMutable cur = Inr (Some ?a, TwoThreeListAstNode False l h ?a b None ids)"
        using spans_two im by (simp add: ListAstNode_makeFirstElementMutable_def make_element_mutable_def Let_def)
      have k: "AstNode_kind cur = KList" using spans_two by simp
      have ha: "AstNode_listHeight ?a = AstNode_listHeight a" "ast_leaves ?a = ast_leaves a" by simp_all
      have "inserted_front (AstNode_listHeight ?a) (t @ s1) (ast_leaves node @ ast_leaves ?a) (prepend_to ?a node)"
        using 1(1) [OF False _ mk refl refl, of s1] k spans_two 1(3-5) lt short_append [of "t @ s1" s2] mut [of a] toMutable_spans by (auto split: if_splits)
      then obtain n p where ap: "prepend_to ?a node = Inr (n, p)" "inserted_front (AstNode_listHeight a) (t @ s1) (ast_leaves node @ ast_leaves a) (Inr (n, p))"
        unfolding ha by (auto simp: inserted_front_def)
      from prepend_up_two [OF spans_two(4,6) ap(2)] show ?thesis
        using False k mk ap(1) spans_two 1(5) by (subst prepend_to.simps) (simp split: if_splits)
    next
      case (spans_three a s1 b s2 c s3 h l ids im)
      let ?a = "if AstNode_kind a = KList then ListAstNode_toMutable a else a"
      have im: "\<not> im" using 1(6) spans_three by simp
      have mk: "ListAstNode_makeFirstElementMutable cur = Inr (Some ?a, TwoThreeListAstNode False l h ?a b (Some c) ids)"
        using spans_three im by (simp add: ListAstNode_makeFirstElementMutable_def make_element_mutable_def Let_def)
      have k: "AstNode_kind cur = KList" using spans_three by simp
      have ha: "AstNode_listHeight ?a = AstNode_listHeight a" "ast_leaves ?a = ast_leaves a" by simp_all
      have "inserted_front (AstNode_listHeight ?a) (t @ s1) (ast_leaves node @ ast_leaves ?a) (prepend_to ?a node)"
        using 1(1) [OF False _ mk refl refl, of s1] k spans_three 1(3-5) lt short_append [of "t @ s1" "s2 @ s3"] mut [of a] toMutable_spans by (auto split: if_splits)
      then obtain n p where ap: "prepend_to ?a node = Inr (n, p)" "inserted_front (AstNode_listHeight a) (t @ s1) (ast_leaves node @ ast_leaves a) (Inr (n, p))"
        unfolding ha by (auto simp: inserted_front_def)
      from prepend_up_three [OF spans_three(4,5,7,8) ap(2)] show ?thesis
        using False k mk ap(1) spans_three 1(5) by (subst prepend_to.simps) (simp split: if_splits)
    qed (use lt in auto)
  qed
qed

lemma toMutable_idem: "ListAstNode_toMutable (ListAstNode_toMutable n) = ListAstNode_toMutable n"
  by (cases n) simp_all

lemma concat_append_spans:
  assumes "spans a s" "spans b t" "AstNode_listHeight b \<le> AstNode_listHeight a" "short (s @ t)"
  shows "joined (s @ t) (ast_leaves a @ ast_leaves b) (concat_append a b)"
proof -
  have "inserted (AstNode_listHeight a) (s @ t) (ast_leaves a @ ast_leaves b) (append_to (ListAstNode_toMutable a) b)"
    using append_to_spans [OF toMutable_spans [OF assms(1)] assms(2) _ assms(4) toMutable_idem] assms(3) by simp
  then obtain n p where i: "append_to (ListAstNode_toMutable a) b = Inr (n, p)" "inserted (AstNode_listHeight a) (s @ t) (ast_leaves a @ ast_leaves b) (Inr (n, p))"
    by (auto simp: inserted_def)
  show ?thesis
  proof (cases p)
    case None
    with i show ?thesis by (simp add: concat_append_def joined_def inserted_def)
  next
    case (Some q)
    with i(2) obtain s1 s2 where c: "s @ t = s1 @ s2" "spans n s1" "spans q s2" "AstNode_listHeight q = AstNode_listHeight n" "ast_leaves a @ ast_leaves b = ast_leaves n @ ast_leaves q"
      by (auto simp: inserted_def)
    have "spans (two_list False n q) (s1 @ s2)" using two_list_spans [OF c(2,3,4)] c(1) assms(4) by simp
    with c Some i(1) show ?thesis by (simp add: concat_append_def joined_def create23_node)
  qed
qed

lemma concat_prepend_spans:
  assumes "spans a s" "spans b t" "AstNode_listHeight b \<le> AstNode_listHeight a" "short (t @ s)"
  shows "joined (t @ s) (ast_leaves b @ ast_leaves a) (concat_prepend a b)"
proof -
  have "inserted_front (AstNode_listHeight a) (t @ s) (ast_leaves b @ ast_leaves a) (prepend_to (ListAstNode_toMutable a) b)"
    using prepend_to_spans [OF toMutable_spans [OF assms(1)] assms(2) _ assms(4) toMutable_idem] assms(3) by simp
  then obtain n p where i: "prepend_to (ListAstNode_toMutable a) b = Inr (n, p)" "inserted_front (AstNode_listHeight a) (t @ s) (ast_leaves b @ ast_leaves a) (Inr (n, p))"
    by (auto simp: inserted_front_def)
  show ?thesis
  proof (cases p)
    case None
    with i show ?thesis by (simp add: concat_prepend_def joined_def inserted_front_def)
  next
    case (Some q)
    with i(2) obtain s1 s2 where c: "t @ s = s1 @ s2" "spans q s1" "spans n s2" "AstNode_listHeight n = AstNode_listHeight q" "ast_leaves b @ ast_leaves a = ast_leaves q @ ast_leaves n"
      by (auto simp: inserted_front_def)
    have "spans (two_list False q n) (s1 @ s2)" using two_list_spans [OF c(2,3,4)] c(1) assms(4) by simp
    with c Some i(1) show ?thesis by (simp add: concat_prepend_def joined_def create23_node)
  qed
qed

lemma concat_two_spans:
  assumes "spans a s" "spans b t" "short (s @ t)"
  shows "joined (s @ t) (ast_leaves a @ ast_leaves b) (concat_two a b)"
  using concat_append_spans [OF assms(1,2)] concat_prepend_spans [OF assms(2,1)] two_list_spans [OF assms(1,2)] assms(3)
  by (simp add: concat_two_def joined_def create23_node)

section \<open>Lists of trees\<close>

fun forest :: "'k AstNode list \<Rightarrow> js_string \<Rightarrow> bool" where
  "forest [] s \<longleftrightarrow> s = []"
| "forest (n # ns) s \<longleftrightarrow> (\<exists>a b. s = a @ b \<and> spans n a \<and> forest ns b)"

abbreviation all_leaves :: "'k AstNode list \<Rightarrow> 'k AstNode list" where
  "all_leaves ns \<equiv> concat (map ast_leaves ns)"

lemma forest_append: "forest (xs @ ys) s \<longleftrightarrow> (\<exists>a b. s = a @ b \<and> forest xs a \<and> forest ys b)"
proof (induction xs arbitrary: s)
  case (Cons x xs)
  show ?case unfolding append_Cons forest.simps Cons.IH by (metis append.assoc)
qed simp

lemma pair_items_forest:
  assumes "forest items s" "short s" "\<forall>c \<in> set items. AstNode_listHeight c = h" "length items \<noteq> 1"
  shows "\<exists>ns. pair_items im items = Inr ns \<and> forest ns s \<and> all_leaves ns = all_leaves items \<and> (\<forall>c \<in> set ns. AstNode_listHeight c = Suc h)"
  using assms
proof (induction im items arbitrary: s rule: pair_items.induct [case_names three two more none one])
  case (three im a b c)
  then obtain s1 s2 s3 where "s = s1 @ s2 @ s3" "spans a s1" "spans b s2" "spans c s3" by auto
  with three three_list_spans [of a s1 b s2 c s3 im] show ?case by (simp add: create23_node)
next
  case (two im a b)
  then obtain s1 s2 where "s = s1 @ s2" "spans a s1" "spans b s2" by auto
  with two two_list_spans [of a s1 b s2 im] show ?case by (simp add: create23_node)
next
  case (more im a b c d rest)
  from more(2) obtain s1 s2 s3 where p: "s = s1 @ s2 @ s3" "spans a s1" "spans b s2" "forest (c # d # rest) s3" by fastforce
  have sh: "short (s1 @ s2)" "short s3" using more(3) p(1) short_append [of "s1 @ s2" s3] by auto
  have hs: "ListAstNode_create23 a b None im = Inr (two_list im a b)" "AstNode_listHeight b = AstNode_listHeight a" "AstNode_listHeight a = h"
    using more(4) by (simp_all add: create23_node)
  obtain ns where ns: "pair_items im (c # d # rest) = Inr ns" "forest ns s3" "all_leaves ns = all_leaves (c # d # rest)" "\<forall>c \<in> set ns. AstNode_listHeight c = Suc h"
    using more(1) [OF hs(1) p(4) sh(2)] more(4) by auto
  have "forest (two_list im a b # ns) s" using two_list_spans [OF p(2,3) hs(2) sh(1), of im] ns(2) p(1) by (auto intro: exI [of _ "s1 @ s2"])
  with ns hs show ?case by simp
qed auto

lemma same_height_loop_forest:
  assumes "forest items s" "short s" "\<forall>c \<in> set items. AstNode_listHeight c = h" "length items \<ge> 2"
  shows "\<exists>ns g. same_height_loop im items = Inr ns \<and> forest ns s \<and> all_leaves ns = all_leaves items \<and> (\<forall>c \<in> set ns. AstNode_listHeight c = g) \<and> (length ns = 2 \<or> length ns = 3)"
  using assms
proof (induction im items arbitrary: h rule: same_height_loop.induct)
  case (1 im items)
  show ?case
  proof (cases "length items > 3")
    case True
    obtain ns where ns: "pair_items im items = Inr ns" "forest ns s" "all_leaves ns = all_leaves items" "\<forall>c \<in> set ns. AstNode_listHeight c = Suc h"
      using pair_items_forest [OF 1(2-4)] True by auto
    moreover have "length ns \<ge> 2" using pair_items_length [OF ns(1)] True by simp
    ultimately show ?thesis using 1(1) [OF True ns(1) ns(2) 1(3) ns(4)] True by (subst same_height_loop.simps) simp
  next
    case False
    with 1 show ?thesis by (subst same_height_loop.simps) auto
  qed
qed

lemma concat_same_height_forest:
  assumes "forest items s" "short s" "\<forall>c \<in> set items. AstNode_listHeight c = h" "items \<noteq> []"
  shows "\<exists>n. concat23TreesOfSameHeight items im = Inr (Some n) \<and> spans n s \<and> ast_leaves n = all_leaves items"
proof (cases "length items = 1")
  case True
  with assms(1) show ?thesis by (auto simp: concat23TreesOfSameHeight_def length_Suc_conv)
next
  case False
  with assms(4) have l: "length items \<ge> 2" by (cases items) (auto simp: Suc_le_eq)
  obtain ns g where ns: "same_height_loop im items = Inr ns" "forest ns s" "all_leaves ns = all_leaves items" "\<forall>c \<in> set ns. AstNode_listHeight c = g"
    "length ns = 2 \<or> length ns = 3" using same_height_loop_forest [OF assms(1-3) l, of im] by blast
  from ns(5) show ?thesis
  proof
    assume "length ns = 2"
    then obtain a b where n: "ns = [a, b]" by (auto simp: length_Suc_conv numeral_2_eq_2)
    with ns(2) obtain s1 s2 where "s = s1 @ s2" "spans a s1" "spans b s2" by auto
    with two_list_spans [of a s1 b s2 im] ns n l assms(2) show ?thesis by (auto simp: concat23TreesOfSameHeight_def create23_node)
  next
    assume "length ns = 3"
    then obtain a b c where n: "ns = [a, b, c]" by (auto simp: length_Suc_conv numeral_3_eq_3)
    with ns(2) obtain s1 s2 s3 where "s = s1 @ s2 @ s3" "spans a s1" "spans b s2" "spans c s3" by auto
    with three_list_spans [of a s1 b s2 c s3 im] ns n l assms(2) show ?thesis by (auto simp: concat23TreesOfSameHeight_def create23_node)
  qed
qed

lemma readNode_forest:
  assumes "forest items s" "short s" "items \<noteq> []"
  shows "\<exists>n rest s1 s2. readNode items = Inr (Some n, rest) \<and> s = s1 @ s2 \<and> spans n s1 \<and> forest rest s2 \<and> all_leaves items = ast_leaves n @ all_leaves rest"
proof -
  obtain c cs where i: "items = c # cs" using assms(3) by (cases items) auto
  let ?same = "takeWhile (\<lambda>d. AstNode_listHeight d = AstNode_listHeight c) cs" and ?rest = "dropWhile (\<lambda>d. AstNode_listHeight d = AstNode_listHeight c) cs"
  have "forest ((c # ?same) @ ?rest) s" using assms(1) i by simp
  then obtain s1 s2 where f: "s = s1 @ s2" "forest (c # ?same) s1" "forest ?rest s2" unfolding forest_append by blast
  have r: "drop (length ?same) cs = ?rest" by (simp add: dropWhile_eq_drop)
  have h: "\<forall>d \<in> set (c # ?same). AstNode_listHeight d = AstNode_listHeight c" by (auto dest: set_takeWhileD)
  obtain n where n: "concat23TreesOfSameHeight (c # ?same) False = Inr (Some n)" "spans n s1" "ast_leaves n = all_leaves (c # ?same)"
    using concat_same_height_forest [OF f(2) _ h, of False] short_append [of s1 s2] assms(2) f(1) by auto
  have "readNode items = Inr (Some n, ?rest)"
  proof (cases "?same = []")
    case True
    with n(1) have "n = c" by (simp add: concat23TreesOfSameHeight_def)
    with True r show ?thesis by (simp add: readNode_def i Let_def)
  qed (use n(1) r in \<open>simp add: readNode_def i Let_def\<close>)
  moreover have "all_leaves cs = all_leaves ?same @ all_leaves ?rest"
    by (metis concat_append map_append takeWhile_dropWhile_id)
  ultimately show ?thesis using f n(2,3) i by (intro exI [of _ n] exI [of _ ?rest] exI [of _ s1] exI [of _ s2]) simp
qed

lemma concat_loop_forest:
  assumes "spans a s" "spans b t" "forest items u" "short (s @ t @ u)"
  shows "joined (s @ t @ u) (ast_leaves a @ ast_leaves b @ all_leaves items) (concat_loop a b items)"
  using assms
proof (induction a b items arbitrary: s t u rule: concat_loop.induct)
  case (1 a b items)
  have sh: "short (s @ t)" "short u" "short (t @ u)" using 1(6) short_append [of "s @ t" u] short_append [of s "t @ u"] by auto
  show ?case
  proof (cases "items = []")
    case True
    with 1 concat_two_spans [OF 1(3,4) sh(1)] show ?thesis by (subst concat_loop.simps) simp
  next
    case False
    obtain n rest u1 u2 where r: "readNode items = Inr (Some n, rest)" "u = u1 @ u2" "spans n u1" "forest rest u2" "all_leaves items = ast_leaves n @ all_leaves rest"
      using readNode_forest [OF 1(5) sh(2) False] by blast
    show ?thesis
    proof (cases "heightDiff a b \<le> heightDiff b n")
      case True
      obtain m where m: "concat_two a b = Inr m" "spans m (s @ t)" "ast_leaves m = ast_leaves a @ ast_leaves b"
        using concat_two_spans [OF 1(3,4) sh(1)] by (auto simp: joined_def)
      from 1(1) [OF False r(1) refl refl True m(1,2) r(3,4)] show ?thesis
        using False r True m 1(6) by (subst concat_loop.simps) simp
    next
      case nle: False
      obtain m where m: "concat_two b n = Inr m" "spans m (t @ u1)" "ast_leaves m = ast_leaves b @ ast_leaves n"
        using concat_two_spans [OF 1(4) r(3)] sh(3) r(2) short_append [of "t @ u1" u2] by (auto simp: joined_def)
      from 1(2) [OF False r(1) refl refl nle m(1) 1(3) m(2) r(4)] show ?thesis
        using False r nle m 1(6) by (subst concat_loop.simps) simp
    qed
  qed
qed

lemma concat_joins:
  assumes "forest items s" "short s"
  shows "(items = [] \<longrightarrow> concat23Trees items = Inr None) \<and>
    (items \<noteq> [] \<longrightarrow> (\<exists>n. concat23Trees items = Inr (Some n) \<and> spans n s \<and> ast_leaves n = concat (map ast_leaves items)))"
proof (cases "length items \<le> 1")
  case True
  with assms(1) show ?thesis by (cases items) (auto simp: concat23Trees_def)
next
  case False
  then have ne: "items \<noteq> []" "length items \<noteq> 1" by auto
  obtain a rest s1 s2 where a: "readNode items = Inr (Some a, rest)" "s = s1 @ s2" "spans a s1" "forest rest s2" "all_leaves items = ast_leaves a @ all_leaves rest"
    using readNode_forest [OF assms ne(1)] by blast
  show ?thesis
  proof (cases "rest = []")
    case True
    with a ne show ?thesis by (simp add: concat23Trees_def readNode_def [of "[]"])
  next
    case False
    obtain b rest2 s3 s4 where b: "readNode rest = Inr (Some b, rest2)" "s2 = s3 @ s4" "spans b s3" "forest rest2 s4" "all_leaves rest = ast_leaves b @ all_leaves rest2"
      using readNode_forest [OF a(4) _ False] assms(2) a(2) short_append [of s1 s2] by blast
    have "joined (s1 @ s3 @ s4) (ast_leaves a @ ast_leaves b @ all_leaves rest2) (concat_loop a b rest2)"
      using concat_loop_forest [OF a(3) b(3,4)] assms(2) a(2) b(2) by simp
    with a b ne show ?thesis by (auto simp: concat23Trees_def joined_def)
  qed
qed

text \<open>C7: \<^verbatim>\<open>concat23Trees\<close> of trees of any heights: it never throws, returns \<^verbatim>\<open>null\<close> exactly for no trees, and otherwise a tree for the concatenated text that satisfies
  all rules for trees (two or three children of the same height in every list, cached lengths and cached sets of missing brackets are right) with the same elements in the same order.\<close>

theorem concat23Trees_joins:
  assumes "forest items s" "short s"
  shows "(items = [] \<longrightarrow> concat23Trees items = Inr None) \<and>
    (items \<noteq> [] \<longrightarrow> (\<exists>n. concat23Trees items = Inr (Some n) \<and> spans n s \<and> ast_leaves n = concat (map ast_leaves items)))"
  using assms by (rule concat_joins)

theorem concat23Trees_joins_witness:
  "forest [TextAstNode 1, two_list False (TextAstNode 1) (TextAstNode 2) :: unit AstNode] [97, 98, 99, 100] \<and>
   (\<exists>n. concat23Trees [TextAstNode 1, two_list False (TextAstNode 1) (TextAstNode 2) :: unit AstNode] = Inr (Some n) \<and>
        spans n [97, 98, 99, 100] \<and> ast_leaves n = [TextAstNode 1, TextAstNode 1, TextAstNode 2])"
proof -
  have p1: "plen [x] = 1" if "x \<noteq> LF" for x
    using that by (simp add: plen_def pack_def toLength_def tlen_def TextLength_zero_def)
  have p2: "plen [x, y] = 2" if "x \<noteq> LF" "y \<noteq> LF" for x y
    using that by (simp add: plen_def pack_def toLength_def tlen_def TextLength_zero_def)
  have sh: "short [97, 98, 99, 100]" "short [98, 99, 100]" by (rule short_small, simp)+
  have sp: "spans (TextAstNode 1 :: unit AstNode) [97]" "spans (TextAstNode 1 :: unit AstNode) [98]" "spans (TextAstNode 2 :: unit AstNode) [99, 100]"
    by (rule spans_text, simp add: p1 p2)+
  have "spans (two_list False (TextAstNode 1) (TextAstNode 2) :: unit AstNode) ([98] @ [99, 100])"
    using two_list_spans [OF sp(2,3)] sh(2) by simp
  then have f: "forest [TextAstNode 1, two_list False (TextAstNode 1) (TextAstNode 2) :: unit AstNode] [97, 98, 99, 100]"
    using sp(1) by (simp only: forest.simps) (intro exI [of _ "[97]"] exI [of _ "[98, 99, 100]"] exI [of _ "[]"] conjI; simp)
  from concat23Trees_joins [OF this sh(1)] f show ?thesis by simp
qed

end
