(* ===== verification/Node_Reader.thy ===== *)
theory Node_Reader
  imports Bracket_Ast
begin

text \<open>
  \<^verbatim>\<open>nodeReader.ts\<close> of the bracket pair trees: finding the longest node of a tree at an offset, for ascending offsets.
\<close>

section \<open>The reader\<close>

text \<open>\<^verbatim>\<open>nextNodes\<close>, \<^verbatim>\<open>offsets\<close> and \<^verbatim>\<open>idxs\<close> are one stack: the current node with its offset, and below it the parents, innermost first, with their
  offsets and the index of the child that was taken.\<close>

record 'k NodeReader =
  nr_current :: "('k AstNode \<times> Length) option"
  nr_parents :: "('k AstNode \<times> Length \<times> nat) list"
  nr_lastOffset :: Length

definition new_NodeReader :: "'k AstNode \<Rightarrow> 'k NodeReader" where
  "new_NodeReader node = \<lparr>nr_current = Some (node, lengthZero), nr_parents = [], nr_lastOffset = lengthZero\<rparr>"

text \<open>The child at an index below \<^verbatim>\<open>childrenLength\<close>, if there is one.\<close>

definition child_at :: "nat \<Rightarrow> 'k AstNode \<Rightarrow> 'k AstNode option" where
  "child_at idx node = (case AstNode_getChild idx node of Inr c \<Rightarrow> c | Inl _ \<Rightarrow> None)"

text \<open>\<open>getNextChildIdx node from1\<close> is \<^verbatim>\<open>getNextChildIdx(node, from1 - 1)\<close>, with \<open>None\<close> for \<^verbatim>\<open>-1\<close>; the child comes with its index.\<close>

definition getNextChildIdx :: "'k AstNode \<Rightarrow> nat \<Rightarrow> (nat \<times> 'k AstNode) option" where
  "getNextChildIdx node from1 =
     (case find (\<lambda>i. child_at i node \<noteq> None) [from1 ..< AstNode_childrenLength node] of
        None \<Rightarrow> None
      | Some i \<Rightarrow> (case child_at i node of None \<Rightarrow> None | Some c \<Rightarrow> Some (i, c)))"

fun nextNodeAfterCurrent ::
  "'k AstNode \<Rightarrow> Length \<Rightarrow> ('k AstNode \<times> Length \<times> nat) list \<Rightarrow> ('k AstNode \<times> Length) option \<times> ('k AstNode \<times> Length \<times> nat) list" where
  "nextNodeAfterCurrent currentNode currentOffset [] = (None, [])"
| "nextNodeAfterCurrent currentNode currentOffset ((parent, parentOffset, idx) # ps) =
     (case getNextChildIdx parent (idx + 1) of
        Some (j, c) \<Rightarrow> (Some (c, lengthAdd currentOffset (AstNode_length currentNode)), (parent, parentOffset, j) # ps)
      | None \<Rightarrow> nextNodeAfterCurrent parent parentOffset ps)"

section \<open>The nodes that are left\<close>

fun weight :: "'k AstNode \<Rightarrow> nat" where
  "weight (PairAstNode _ ob c cl _) = 1 + weight ob + (case c of None \<Rightarrow> 0 | Some n \<Rightarrow> weight n) + (case cl of None \<Rightarrow> 0 | Some n \<Rightarrow> weight n)"
| "weight (TwoThreeListAstNode _ _ _ a b c _) = 1 + weight a + weight b + (case c of None \<Rightarrow> 0 | Some n \<Rightarrow> weight n)"
| "weight (ArrayListAstNode _ _ _ cs _) = 1 + sum_list (map weight cs)"
| "weight _ = 1"

fun slots :: "'k AstNode \<Rightarrow> 'k AstNode option list" where
  "slots (PairAstNode _ ob c cl _) = [Some ob, c, cl]"
| "slots (TwoThreeListAstNode _ _ _ a b c _) = [Some a, Some b] @ (case c of None \<Rightarrow> [] | Some n \<Rightarrow> [Some n])"
| "slots (ArrayListAstNode _ _ _ cs _) = map Some cs"
| "slots _ = []"

lemma slots_length: "length (slots n) = AstNode_childrenLength n"
  by (cases n) (auto split: option.split)

lemma child_at_slots: "i < length (slots n) \<Longrightarrow> child_at i n = slots n ! i"
  by (cases n) (auto simp: child_at_def js_at_def less_Suc_eq numeral_3_eq_3 nth_Cons' split: option.split)

definition slots_weight :: "'k AstNode option list \<Rightarrow> nat" where
  "slots_weight xs = (\<Sum>x\<leftarrow>xs. case x of None \<Rightarrow> 0 | Some n \<Rightarrow> weight n)"

lemma weight_slots: "weight n = 1 + slots_weight (slots n)"
  by (cases n) (auto simp: slots_weight_def o_def split: option.split)

lemma getNextChildIdx_Some:
  assumes "getNextChildIdx n from1 = Some (i, c)"
  shows "from1 \<le> i" "i < length (slots n)" "slots n ! i = Some c" "\<And>j. from1 \<le> j \<Longrightarrow> j < i \<Longrightarrow> slots n ! j = None"
proof -
  obtain i' where f: "find (\<lambda>i. child_at i n \<noteq> None) [from1 ..< AstNode_childrenLength n] = Some i'" "child_at i' n = Some c" "i' = i"
    using assms by (auto simp: getNextChildIdx_def split: option.splits)
  then obtain k where k: "k < AstNode_childrenLength n - from1" "i = from1 + k" "\<forall>j < k. child_at (from1 + j) n = None"
    by (auto simp: find_Some_iff)
  then show "from1 \<le> i" "i < length (slots n)" by (simp_all add: slots_length)
  then show "slots n ! i = Some c" using f(2,3) by (simp add: child_at_slots)
  fix j assume j: "from1 \<le> j" "j < i"
  then obtain d where "j = from1 + d" "d < k" using k(2) by (metis add_less_cancel_left le_Suc_ex)
  then have "child_at j n = None" using k(3) by simp
  with j \<open>i < length (slots n)\<close> show "slots n ! j = None" by (simp add: child_at_slots)
qed

lemma next_child_weight:
  assumes "getNextChildIdx n from1 = Some (i, c)"
  shows "weight c + slots_weight (drop (Suc i) (slots n)) \<le> slots_weight (drop from1 (slots n))"
proof -
  note s = getNextChildIdx_Some [OF assms]
  have "drop from1 (slots n) = take (i - from1) (drop from1 (slots n)) @ Some c # drop (Suc i) (slots n)"
    using s id_take_nth_drop [of "i - from1" "drop from1 (slots n)"] by simp
  then have "slots_weight (drop from1 (slots n)) = slots_weight (take (i - from1) (drop from1 (slots n))) + (weight c + slots_weight (drop (Suc i) (slots n)))"
    unfolding slots_weight_def by (metis (no_types, lifting) list.simps(9) map_append option.simps(5) sum_list.Cons sum_list_append)
  then show ?thesis by simp
qed

fun parents_weight :: "('k AstNode \<times> Length \<times> nat) list \<Rightarrow> nat" where
  "parents_weight [] = 0"
| "parents_weight ((p, _, i) # ps) = slots_weight (drop (Suc i) (slots p)) + parents_weight ps"

definition work :: "('k AstNode \<times> Length) option \<Rightarrow> ('k AstNode \<times> Length \<times> nat) list \<Rightarrow> nat" where
  "work cur ps = (case cur of None \<Rightarrow> 0 | Some (n, _) \<Rightarrow> weight n + parents_weight ps)"

lemma next_after_pending: "nextNodeAfterCurrent n off ps = (cur, ps2) \<Longrightarrow> work cur ps2 \<le> parents_weight ps"
proof (induction n off ps rule: nextNodeAfterCurrent.induct)
  case (2 n off p poff i ps)
  then show ?case
    using next_child_weight [of p "Suc i"] by (auto simp: work_def split: option.splits prod.splits)
qed (auto simp: work_def)

lemma weight_pos: "0 < weight n"
  by (simp add: weight_slots)

lemma work_next: "nextNodeAfterCurrent n off ps = (cur, ps2) \<Longrightarrow> work cur ps2 < work (Some (n, o2)) ps"
  using next_after_pending [of n off ps cur ps2] weight_pos [of n] by (simp add: work_def)

lemma work_child: "getNextChildIdx n 0 = Some (j, c) \<Longrightarrow> work (Some (c, o1)) ((n, o2, j) # ps) < work (Some (n, o3)) ps"
  using next_child_weight [of n 0 j c] by (simp add: work_def weight_slots [of n])

function read_loop ::
  "Length \<Rightarrow> ('k AstNode \<Rightarrow> bool result) \<Rightarrow> ('k AstNode \<times> Length) option \<Rightarrow> ('k AstNode \<times> Length \<times> nat) list
   \<Rightarrow> ('k AstNode option \<times> ('k AstNode \<times> Length) option \<times> ('k AstNode \<times> Length \<times> nat) list) result" where
  "read_loop off predicate None ps = Inr (None, None, ps)"
| "read_loop off predicate (Some (curNode, curNodeOffset)) ps =
     (if lengthLessThan off curNodeOffset then Inr (None, Some (curNode, curNodeOffset), ps)
      else if lengthLessThan curNodeOffset off then
        (if lengthAdd curNodeOffset (AstNode_length curNode) \<le> off then
           (case nextNodeAfterCurrent curNode curNodeOffset ps of (cur, ps2) \<Rightarrow> read_loop off predicate cur ps2)
         else
           (case getNextChildIdx curNode 0 of
              Some (j, c) \<Rightarrow> read_loop off predicate (Some (c, curNodeOffset)) ((curNode, curNodeOffset, j) # ps)
            | None \<Rightarrow> (case nextNodeAfterCurrent curNode curNodeOffset ps of (cur, ps2) \<Rightarrow> read_loop off predicate cur ps2)))
      else
        (case predicate curNode of
           Inl e \<Rightarrow> Inl e
         | Inr b \<Rightarrow>
             if b then (case nextNodeAfterCurrent curNode curNodeOffset ps of (cur, ps2) \<Rightarrow> Inr (Some curNode, cur, ps2))
             else
               (case getNextChildIdx curNode 0 of
                  None \<Rightarrow> (case nextNodeAfterCurrent curNode curNodeOffset ps of (cur, ps2) \<Rightarrow> Inr (None, cur, ps2))
                | Some (j, c) \<Rightarrow> read_loop off predicate (Some (c, curNodeOffset)) ((curNode, curNodeOffset, j) # ps))))"
  by pat_completeness auto

termination
  by (relation "measure (\<lambda>(_, _, cur, ps). work cur ps)") (auto intro: work_next work_child split: prod.split)

declare read_loop.simps(2) [simp del]

definition NodeReader_readLongestNodeAt ::
  "Length \<Rightarrow> ('k AstNode \<Rightarrow> bool result) \<Rightarrow> 'k NodeReader \<Rightarrow> ('k AstNode option \<times> 'k NodeReader) result" where
  "NodeReader_readLongestNodeAt off predicate this =
     (if lengthLessThan off (nr_lastOffset this) then Inl JsError
      else
        rbind (read_loop off predicate (nr_current this) (nr_parents this)) (\<lambda>(found, cur, ps).
          Inr (found, this\<lparr>nr_current := cur, nr_parents := ps, nr_lastOffset := off\<rparr>)))"

section \<open>Where nodes are\<close>

text \<open>The offset of the child in a slot, for a parent at an offset.\<close>

definition slot_offset :: "'k AstNode \<Rightarrow> Length \<Rightarrow> nat \<Rightarrow> Length" where
  "slot_offset p off i = foldl (\<lambda>l x. case x of None \<Rightarrow> l | Some n \<Rightarrow> lengthAdd l (AstNode_length n)) off (take i (slots p))"

text \<open>\<open>chain root n off ps\<close>: going up from \<open>n\<close> at \<open>off\<close> along the parents leads to the root at offset 0.\<close>

fun chain :: "'k AstNode \<Rightarrow> 'k AstNode \<Rightarrow> Length \<Rightarrow> ('k AstNode \<times> Length \<times> nat) list \<Rightarrow> bool" where
  "chain root n off [] \<longleftrightarrow> n = root \<and> off = lengthZero"
| "chain root n off ((p, poff, i) # ps) \<longleftrightarrow> i < length (slots p) \<and> slots p ! i = Some n \<and> off = slot_offset p poff i \<and> chain root p poff ps"

definition node_at :: "'k AstNode \<Rightarrow> 'k AstNode \<Rightarrow> Length \<Rightarrow> bool" where
  "node_at root n off \<longleftrightarrow> (\<exists>ps. chain root n off ps)"

lemma slot_offset_skip: "i \<le> j \<Longrightarrow> j \<le> length (slots p) \<Longrightarrow> (\<And>k. i \<le> k \<Longrightarrow> k < j \<Longrightarrow> slots p ! k = None) \<Longrightarrow> slot_offset p off j = slot_offset p off i"
proof (induction rule: dec_induct)
  case (step n)
  then show ?case by (simp add: slot_offset_def take_Suc_conv_app_nth)
qed simp

lemma slot_offset_Suc: "i < length (slots p) \<Longrightarrow> slots p ! i = Some n \<Longrightarrow> slot_offset p off (Suc i) = lengthAdd (slot_offset p off i) (AstNode_length n)"
  by (simp add: slot_offset_def take_Suc_conv_app_nth)

lemma next_after_chain: "chain root n off ps \<Longrightarrow> nextNodeAfterCurrent n off ps = (Some (m, moff), ps2) \<Longrightarrow> chain root m moff ps2"
proof (induction n off ps rule: nextNodeAfterCurrent.induct)
  case (2 n off p poff i ps)
  show ?case
  proof (cases "getNextChildIdx p (i + 1)")
    case None
    with 2 show ?thesis by simp
  next
    case (Some jc)
    obtain j c where g: "getNextChildIdx p (Suc i) = Some (j, c)" using Some by (cases jc) auto
    note s = getNextChildIdx_Some [OF g]
    have "slot_offset p poff j = slot_offset p poff (Suc i)" using s by (intro slot_offset_skip) auto
    with 2 g s show ?thesis by (auto simp: slot_offset_Suc)
  qed
qed simp

lemma child_chain: "chain root n off ps \<Longrightarrow> getNextChildIdx n 0 = Some (j, c) \<Longrightarrow> chain root c off ((n, off, j) # ps)"
  using getNextChildIdx_Some [of n 0 j c] slot_offset_skip [of 0 j n off] by (auto simp: slot_offset_def)

lemma read_loop_chain:
  assumes "\<And>n o1. cur = Some (n, o1) \<Longrightarrow> chain root n o1 ps" "read_loop off predicate cur ps = Inr (found, cur2, ps2)"
  shows "(\<forall>m. found = Some m \<longrightarrow> node_at root m off \<and> predicate m = Inr True) \<and> (\<forall>n o1. cur2 = Some (n, o1) \<longrightarrow> chain root n o1 ps2)"
  using assms
proof (induction off predicate cur ps rule: read_loop.induct)
  case (2 off predicate n noff ps)
  have c: "chain root n noff ps" using 2(5) by simp
  have nx: "chain root m moff ps2" if "nextNodeAfterCurrent n noff ps = (Some (m, moff), ps2)" for m moff ps2
    using next_after_chain [OF c that] .
  have ch: "chain root d noff ((n, noff, j) # ps)" if "getNextChildIdx n 0 = Some (j, d)" for j d
    using child_chain [OF c that] .
  obtain cur' ps' where na: "nextNodeAfterCurrent n noff ps = (cur', ps')" by (rule prod.exhaust)
  consider (before) "off < noff" | (behind) "noff < off" "lengthAdd noff (AstNode_length n) \<le> off" | (inside) "noff < off" "\<not> lengthAdd noff (AstNode_length n) \<le> off"
    | (here) "off = noff" by linarith
  then show ?case
  proof cases
    case before
    with 2(6) c show ?thesis by (auto simp: read_loop.simps(2) lengthLessThan_def)
  next
    case behind
    then show ?thesis using 2(1) [OF _ _ _ na [symmetric]] 2(6) nx na by (auto simp: read_loop.simps(2) lengthLessThan_def)
  next
    case inside
    show ?thesis
    proof (cases "getNextChildIdx n 0")
      case None
      then show ?thesis using 2(2) [OF _ _ _ None na [symmetric]] inside 2(6) nx na by (auto simp: read_loop.simps(2) lengthLessThan_def)
    next
      case (Some jd)
      obtain j d where jd: "jd = (j, d)" by (cases jd)
      show ?thesis using 2(3) [OF _ _ _ Some jd [symmetric]] inside 2(6) ch Some jd by (auto simp: read_loop.simps(2) lengthLessThan_def)
    qed
  next
    case here
    then have nl: "\<not> lengthLessThan off noff" "\<not> lengthLessThan noff off" by (simp_all add: lengthLessThan_def)
    show ?thesis
    proof (cases "predicate n")
      case (Inl e)
      with nl 2(6) show ?thesis by (simp add: read_loop.simps(2))
    next
      case (Inr b)
      show ?thesis
      proof (cases b)
        case True
        with nl 2(6) Inr na nx c here show ?thesis by (auto simp: read_loop.simps(2) node_at_def)
      next
        case False
        show ?thesis
        proof (cases "getNextChildIdx n 0")
          case None
          with nl 2(6) Inr False na nx show ?thesis by (auto simp: read_loop.simps(2))
        next
          case (Some jd)
          obtain j d where jd: "jd = (j, d)" by (cases jd)
          show ?thesis using 2(4) [OF nl Inr _ Some jd [symmetric]] False nl 2(6) Inr ch Some jd by (auto simp: read_loop.simps(2))
        qed
      qed
    qed
  qed
qed simp

text \<open>The reader reads the tree \<open>root\<close>.\<close>

definition reads :: "'k AstNode \<Rightarrow> 'k NodeReader \<Rightarrow> bool" where
  "reads root r \<longleftrightarrow> (\<forall>n off. nr_current r = Some (n, off) \<longrightarrow> chain root n off (nr_parents r))"

lemma reads_new: "reads root (new_NodeReader root)"
  by (simp add: reads_def new_NodeReader_def)

lemma readLongestNodeAt_node_at:
  assumes "reads root r" "NodeReader_readLongestNodeAt off predicate r = Inr (found, r2)"
  shows "reads root r2 \<and> nr_lastOffset r2 = off \<and> (\<forall>m. found = Some m \<longrightarrow> node_at root m off \<and> predicate m = Inr True)"
proof -
  obtain cur ps where "read_loop off predicate (nr_current r) (nr_parents r) = Inr (found, cur, ps)"
    "r2 = r\<lparr>nr_current := cur, nr_parents := ps, nr_lastOffset := off\<rparr>"
    using assms(2) by (auto simp: NodeReader_readLongestNodeAt_def rbind_eq_Inr_iff split: if_splits)
  with read_loop_chain [OF _ this(1), of root] assms(1) show ?thesis by (auto simp: reads_def)
qed

section \<open>In a tree for a text\<close>

lemma spans_slot:
  assumes "spans p s" "i < length (slots p)" "slots p ! i = Some c" "short (x @ s)"
  shows "\<exists>u v w. s = u @ v @ w \<and> spans c v \<and> slot_offset p (plen x) i = plen (x @ u)"
  using assms(1)
proof cases
  case (spans_pair ob s1 ch s2 ids cl s3 l)
  have sh: "short x" "short s1" "short s2" "short (x @ s1)" using assms(4) spans_pair(2) short_append [of x s] short_append [of s1 "s2 @ s3"] short_append [of s2 s3]
      short_append [of "x @ s1" "s2 @ s3"] by auto
  consider "i = 0" | "i = 1" | "i = 2" using assms(2) spans_pair(1) by fastforce
  then show ?thesis
  proof cases
    case 1
    with spans_pair assms(3) show ?thesis by (intro exI [of _ "[]"] exI [of _ s1] exI [of _ "s2 @ s3"]) (simp add: slot_offset_def)
  next
    case 2
    with spans_pair assms(3) have "spans c s2" by auto
    with 2 spans_pair assms(3) sh show ?thesis
      by (intro exI [of _ s1] exI [of _ s2] exI [of _ s3]) (simp add: slot_offset_def spans_length [OF spans_pair(3)] plen_append)
  next
    case 3
    with spans_pair assms(3) have "spans c s3" by auto
    moreover have "(case ch of None \<Rightarrow> plen (x @ s1) | Some n \<Rightarrow> lengthAdd (plen (x @ s1)) (AstNode_length n)) = plen (x @ s1 @ s2)"
      using spans_pair(5) sh plen_append [of "x @ s1" s2] by (auto simp: spans_length)
    ultimately show ?thesis using 3 spans_pair sh
      by (intro exI [of _ "s1 @ s2"] exI [of _ s3] exI [of _ "[]"]) (simp add: slot_offset_def spans_length [OF spans_pair(3)] plen_append numeral_2_eq_2)
  qed
next
  case (spans_two a s1 b s2 h l ids im)
  have sh: "short x" "short s1" using assms(4) spans_two(2) short_append [of x s] short_append [of s1 s2] by auto
  consider "i = 0" | "i = 1" using assms(2) spans_two(1) by fastforce
  then show ?thesis
  proof cases
    case 1
    with spans_two assms(3) show ?thesis by (intro exI [of _ "[]"] exI [of _ s1] exI [of _ s2]) (simp add: slot_offset_def)
  next
    case 2
    with spans_two assms(3) sh show ?thesis
      by (intro exI [of _ s1] exI [of _ s2] exI [of _ "[]"]) (simp add: slot_offset_def spans_length [OF spans_two(3)] plen_append)
  qed
next
  case (spans_three a s1 b s2 d s3 h l ids im)
  have sh: "short x" "short s1" "short s2" "short (x @ s1)" using assms(4) spans_three(2) short_append [of x s] short_append [of s1 "s2 @ s3"] short_append [of s2 s3]
      short_append [of "x @ s1" "s2 @ s3"] by auto
  consider "i = 0" | "i = 1" | "i = 2" using assms(2) spans_three(1) by fastforce
  then show ?thesis
  proof cases
    case 1
    with spans_three assms(3) show ?thesis by (intro exI [of _ "[]"] exI [of _ s1] exI [of _ "s2 @ s3"]) (simp add: slot_offset_def)
  next
    case 2
    with spans_three assms(3) sh show ?thesis
      by (intro exI [of _ s1] exI [of _ s2] exI [of _ s3]) (simp add: slot_offset_def spans_length [OF spans_three(3)] plen_append)
  next
    case 3
    with spans_three assms(3) sh plen_append [of "x @ s1" s2] show ?thesis
      by (intro exI [of _ "s1 @ s2"] exI [of _ s3] exI [of _ "[]"])
        (simp add: slot_offset_def spans_length [OF spans_three(3)] spans_length [OF spans_three(4)] plen_append numeral_2_eq_2)
  qed
qed (use assms(2) in auto)

lemma chain_spans:
  assumes "chain root n off ps" "spans root s" "short s"
  shows "\<exists>u v w. s = u @ v @ w \<and> off = plen u \<and> spans n v"
  using assms(1)
proof (induction ps arbitrary: n off)
  case Nil
  then show ?case using assms(2) by (intro exI [of _ "[]"] exI [of _ s] exI [of _ "[]"]) (simp add: lengthZero_def)
next
  case (Cons a ps)
  obtain p poff i where a: "a = (p, poff, i)" by (cases a)
  with Cons.prems have p: "i < length (slots p)" "slots p ! i = Some n" "off = slot_offset p poff i" "chain root p poff ps" by auto
  from Cons.IH [OF p(4)] obtain u v w where uvw: "s = u @ v @ w" "poff = plen u" "spans p v" by blast
  have "short (u @ v)" using assms(3) uvw(1) short_append [of "u @ v" w] by simp
  from spans_slot [OF uvw(3) p(1,2) this] obtain u2 v2 w2 where "v = u2 @ v2 @ w2" "spans n v2" "off = plen (u @ u2)" using p(3) uvw(2) by auto
  then show ?case using uvw(1) by (intro exI [of _ "u @ u2"] exI [of _ v2] exI [of _ "w2 @ w"]) simp
qed

text \<open>C28: The reader of a tree for the text \<open>s\<close>: whatever was read before, the node it returns for an offset satisfies the predicate and is the tree of a piece of the text
  that starts at this offset.\<close>

theorem readLongestNodeAt_finds_piece:
  assumes "spans root s" "short s" "reads root r" "NodeReader_readLongestNodeAt off predicate r = Inr (Some m, r2)"
  shows "predicate m = Inr True \<and> reads root r2 \<and> (\<exists>u v w. s = u @ v @ w \<and> off = plen u \<and> spans m v)"
  using readLongestNodeAt_node_at [OF assms(3,4)] chain_spans [OF _ assms(1,2)] by (auto simp: node_at_def)

theorem readLongestNodeAt_finds_piece_witness:
  "NodeReader_readLongestNodeAt 1 (\<lambda>n. Inr (AstNode_kind n \<noteq> KList)) (new_NodeReader (two_list False (TextAstNode 1) (TextAstNode 2 :: unit AstNode)))
     = Inr (Some (TextAstNode 2), \<lparr>nr_current = None, nr_parents = [], nr_lastOffset = 1\<rparr>) \<and>
   (\<exists>u v w. [98, 99, 100] = u @ v @ w \<and> 1 = plen u \<and> spans (TextAstNode 2 :: unit AstNode) v)"
proof -
  have p1: "plen [x] = 1" if "x \<noteq> LF" for x
    using that by (simp add: plen_def pack_def toLength_def tlen_def TextLength_zero_def)
  have p2: "plen [x, y] = 2" if "x \<noteq> LF" "y \<noteq> LF" for x y
    using that by (simp add: plen_def pack_def toLength_def tlen_def TextLength_zero_def)
  have sh: "short [98, 99, 100]" by (rule short_small) simp
  have sp: "spans (TextAstNode 1 :: unit AstNode) [98]" "spans (TextAstNode 2 :: unit AstNode) [99, 100]"
    by (rule spans_text, simp add: p1 p2)+
  have "spans (two_list False (TextAstNode 1) (TextAstNode 2) :: unit AstNode) [98, 99, 100]"
    using two_list_spans [OF sp] sh by simp
  moreover have r: "NodeReader_readLongestNodeAt 1 (\<lambda>n. Inr (AstNode_kind n \<noteq> KList)) (new_NodeReader (two_list False (TextAstNode 1) (TextAstNode 2 :: unit AstNode)))
     = Inr (Some (TextAstNode 2), \<lparr>nr_current = None, nr_parents = [], nr_lastOffset = 1\<rparr>)"
    by (simp add: NodeReader_readLongestNodeAt_def new_NodeReader_def read_loop.simps lengthLessThan_def lengthZero_def two_list_def lengthAdd_def Let_def factor_def
        getNextChildIdx_def child_at_def upt_rec)
  ultimately show ?thesis using readLongestNodeAt_finds_piece [OF _ sh reads_new r] by blast
qed

end
