(* ===== verification/Before_Edit_Mapper.thy ===== *)
theory Before_Edit_Mapper
  imports Edit_Infos
begin

text \<open>
  \<^verbatim>\<open>beforeEditPositionMapper.ts\<close> of the bracket pair trees: the mapper that finds, for ascending offsets of the text behind some edits, the offsets in the text before
  them, and how far the next edit is away.
\<close>

section \<open>The mapper\<close>

record IModelContentChange =
  mc_range :: Range
  mc_rangeOffset :: int
  mc_rangeLength :: int
  mc_text :: js_string

text \<open>\<^verbatim>\<open>Range.lift\<close> of a range that is present.\<close>

definition change_info :: "IModelContentChange \<Rightarrow> TextEditInfo option" where
  "change_info c =
     (case Range_lift (Some (mc_range c)) of
        None \<Rightarrow> None
      | Some r \<Rightarrow> Some (new_TextEditInfo (positionToLength (Range_getStartPosition r)) (positionToLength (Range_getEndPosition r))
                      (lengthOfString (mc_text c))))"

definition TextEditInfo_fromModelContentChanges :: "IModelContentChange list \<Rightarrow> TextEditInfo list" where
  "TextEditInfo_fromModelContentChanges changes = rev (map (\<lambda>c. the (change_info c)) changes)"

record TextEditInfoCache =
  endOffsetBeforeObj :: TextLength
  endOffsetAfterObj :: TextLength
  offsetObj :: TextLength

definition new_TextEditInfoCache :: "Length \<Rightarrow> Length \<Rightarrow> Length \<Rightarrow> TextEditInfoCache" where
  "new_TextEditInfoCache s e textLength =
     \<lparr>endOffsetBeforeObj = lengthToObj e, endOffsetAfterObj = lengthToObj (lengthAdd s textLength), offsetObj = lengthToObj s\<rparr>"

definition TextEditInfoCache_from :: "TextEditInfo \<Rightarrow> TextEditInfoCache" where
  "TextEditInfoCache_from edit = new_TextEditInfoCache (startOffset edit) (endOffset edit) (newLength edit)"

record BeforeEditPositionMapper =
  nextEditIdx :: nat
  deltaOldToNewLineCount :: int
  deltaOldToNewColumnCount :: int
  deltaLineIdxInOld :: int
  bm_edits :: "TextEditInfoCache list"

definition new_BeforeEditPositionMapper :: "TextEditInfo list \<Rightarrow> BeforeEditPositionMapper" where
  "new_BeforeEditPositionMapper edits =
     \<lparr>nextEditIdx = 0, deltaOldToNewLineCount = 0, deltaOldToNewColumnCount = 0, deltaLineIdxInOld = - 1,
      bm_edits = map TextEditInfoCache_from edits\<rparr>"

definition translateOldToCur :: "BeforeEditPositionMapper \<Rightarrow> TextLength \<Rightarrow> Length" where
  "translateOldToCur this oldOffsetObj =
     (if lineCount oldOffsetObj = deltaLineIdxInOld this
      then toLength (lineCount oldOffsetObj + deltaOldToNewLineCount this) (columnCount oldOffsetObj + deltaOldToNewColumnCount this)
      else toLength (lineCount oldOffsetObj + deltaOldToNewLineCount this) (columnCount oldOffsetObj))"

definition translateCurToOld :: "BeforeEditPositionMapper \<Rightarrow> Length \<Rightarrow> Length" where
  "translateCurToOld this newOffset =
     (let obj = lengthToObj newOffset
      in if lineCount obj - deltaOldToNewLineCount this = deltaLineIdxInOld this
         then toLength (lineCount obj - deltaOldToNewLineCount this) (columnCount obj - deltaOldToNewColumnCount this)
         else toLength (lineCount obj - deltaOldToNewLineCount this) (columnCount obj))"

text \<open>The part of the loop behind its test: the state when the next edit is skipped.\<close>

definition skip_edit :: "TextEditInfoCache \<Rightarrow> BeforeEditPositionMapper \<Rightarrow> BeforeEditPositionMapper" where
  "skip_edit nextEdit this =
     (let nextEditEndOffsetInCurObj = lengthToObj (translateOldToCur this (endOffsetAfterObj nextEdit));
          nextEditEndOffsetBeforeInCurObj = lengthToObj (translateOldToCur this (endOffsetBeforeObj nextEdit));
          lineDelta = lineCount nextEditEndOffsetInCurObj - lineCount nextEditEndOffsetBeforeInCurObj;
          previousColumnDelta = (if deltaLineIdxInOld this = lineCount (endOffsetBeforeObj nextEdit) then deltaOldToNewColumnCount this else 0);
          columnDelta = columnCount nextEditEndOffsetInCurObj - columnCount nextEditEndOffsetBeforeInCurObj
      in this\<lparr>nextEditIdx := nextEditIdx this + 1,
           deltaOldToNewLineCount := deltaOldToNewLineCount this + lineDelta,
           deltaOldToNewColumnCount := previousColumnDelta + columnDelta,
           deltaLineIdxInOld := lineCount (endOffsetBeforeObj nextEdit)\<rparr>)"

lemma skip_edit_simps [simp]: "bm_edits (skip_edit e m) = bm_edits m" "nextEditIdx (skip_edit e m) = Suc (nextEditIdx m)"
  by (simp_all add: skip_edit_def Let_def)

function adjustNextEdit :: "Length \<Rightarrow> BeforeEditPositionMapper \<Rightarrow> BeforeEditPositionMapper" where
  "adjustNextEdit off this =
     (if nextEditIdx this < length (bm_edits this)
         \<and> lengthLessThanEqual (translateOldToCur this (endOffsetAfterObj (bm_edits this ! nextEditIdx this))) off
      then adjustNextEdit off (skip_edit (bm_edits this ! nextEditIdx this) this)
      else this)"
  by pat_completeness auto
termination by (relation "measure (\<lambda>(_, m). length (bm_edits m) - nextEditIdx m)") auto

declare adjustNextEdit.simps [simp del]

definition getOffsetBeforeChange :: "Length \<Rightarrow> BeforeEditPositionMapper \<Rightarrow> Length \<times> BeforeEditPositionMapper" where
  "getOffsetBeforeChange off this = (let m = adjustNextEdit off this in (translateCurToOld m off, m))"

definition getDistanceToNextChange :: "Length \<Rightarrow> BeforeEditPositionMapper \<Rightarrow> Length option \<times> BeforeEditPositionMapper" where
  "getDistanceToNextChange off this =
     (let m = adjustNextEdit off this
      in (case js_at (bm_edits m) (int (nextEditIdx m)) of
            None \<Rightarrow> None
          | Some nextEdit \<Rightarrow> Some (lengthDiffNonNegative off (translateOldToCur m (offsetObj nextEdit))), m))"

section \<open>Earlier questions\<close>

text \<open>What was asked before makes no difference, as long as it was not asked behind the offset.\<close>

lemma adjust_after: "o1 \<le> o2 \<Longrightarrow> adjustNextEdit o2 (adjustNextEdit o1 m) = adjustNextEdit o2 m"
proof (induction o1 m rule: adjustNextEdit.induct)
  case (1 off m)
  show ?case
  proof (cases "nextEditIdx m < length (bm_edits m) \<and> lengthLessThanEqual (translateOldToCur m (endOffsetAfterObj (bm_edits m ! nextEditIdx m))) off")
    case True
    moreover from this 1(2) have "lengthLessThanEqual (translateOldToCur m (endOffsetAfterObj (bm_edits m ! nextEditIdx m))) o2"
      by (simp add: lengthLessThanEqual_def)
    ultimately show ?thesis using 1 by (simp add: adjustNextEdit.simps [of _ m])
  next
    case False
    then have "adjustNextEdit off m = m" by (subst adjustNextEdit.simps) (simp only: if_False)
    then show ?thesis by simp
  qed
qed

lemma adjust_after_all: "\<forall>x \<in> set os. x \<le> off \<Longrightarrow> adjustNextEdit off (fold adjustNextEdit os m) = adjustNextEdit off m"
  by (induction os arbitrary: m) (auto simp: adjust_after)

section \<open>Edits that were skipped\<close>

text \<open>The mapper has skipped edits that change \<open>p\<close> into \<open>q\<close>.\<close>

definition skipped :: "BeforeEditPositionMapper \<Rightarrow> js_string \<Rightarrow> js_string \<Rightarrow> bool" where
  "skipped m p q \<longleftrightarrow>
     (deltaOldToNewLineCount m = lineCount (tlen q) - lineCount (tlen p) \<and>
      (deltaLineIdxInOld m = lineCount (tlen p) \<and> deltaOldToNewColumnCount m = columnCount (tlen q) - columnCount (tlen p) \<or>
       deltaLineIdxInOld m = - 1 \<and> tlen p = tlen q \<and> deltaOldToNewColumnCount m = 0))"

lemma skipped_new: "skipped (new_BeforeEditPositionMapper es) [] []"
  by (simp add: skipped_def new_BeforeEditPositionMapper_def)

lemma plen_counts: "plen s = toLength (lineCount (tlen s)) (columnCount (tlen s))"
  by (simp add: plen_def pack_def)

lemma old_to_cur:
  assumes "skipped m p q"
  shows "translateOldToCur m (tlen (p @ w)) = plen (q @ w)"
  using assms tlen_counts_nonneg(1) [of p] tlen_counts_nonneg(1) [of w]
  unfolding skipped_def translateOldToCur_def plen_counts tlen_append_counts
  by (elim conjE disjE; cases "lineCount (tlen w) = 0") (simp_all add: add.commute)

lemma cur_to_old:
  assumes "skipped m p q" "fits_packed (tlen (q @ w))"
  shows "translateCurToOld m (plen (q @ w)) = plen (p @ w)"
proof -
  have o: "lengthToObj (plen (q @ w)) = tlen (q @ w)" using unpack [OF assms(2)] by (simp add: plen_def)
  show ?thesis
    using assms(1) tlen_counts_nonneg(1) [of p] tlen_counts_nonneg(1) [of w]
    unfolding skipped_def translateCurToOld_def Let_def o plen_counts [of "p @ w"] tlen_append_counts
    by (elim conjE disjE; cases "lineCount (tlen w) = 0") (simp_all add: add.commute)
qed

lemma unplen: "short s \<Longrightarrow> short t \<Longrightarrow> lengthToObj (plen (s @ t)) = tlen (s @ t)"
  by (simp add: plen_def unpack fits_packed_append)

lemma cache_eq:
  assumes "e = new_TextEditInfo (plen (p @ u)) (plen (p @ u @ d)) (plen n)" "short (p @ u)" "short d" "short n"
  shows "endOffsetBeforeObj (TextEditInfoCache_from e) = tlen (p @ u @ d)"
    "endOffsetAfterObj (TextEditInfoCache_from e) = tlen (p @ u @ n)" "offsetObj (TextEditInfoCache_from e) = tlen (p @ u)"
  using assms unplen [of "p @ u" d] unplen [of "p @ u" n] unplen [of "p @ u" "[]"]
  by (simp_all add: TextEditInfoCache_from_def new_TextEditInfoCache_def new_TextEditInfo_def plen_append)

lemma skipped_skip:
  assumes "skipped m p q" "e = new_TextEditInfo (plen (p @ u)) (plen (p @ u @ d)) (plen n)"
    "short (p @ u)" "short (q @ u)" "short d" "short n"
  shows "skipped (skip_edit (TextEditInfoCache_from e) m) (p @ u @ d) (q @ u @ n)"
proof -
  have "lengthToObj (translateOldToCur m (tlen (p @ u @ n))) = tlen (q @ u @ n)"
    "lengthToObj (translateOldToCur m (tlen (p @ u @ d))) = tlen (q @ u @ d)"
    using old_to_cur [OF assms(1)] assms unplen [of "q @ u" n] unplen [of "q @ u" d] by simp_all
  then have *: "deltaOldToNewLineCount (skip_edit (TextEditInfoCache_from e) m) = deltaOldToNewLineCount m + lineCount (tlen n) - lineCount (tlen d)"
    "deltaLineIdxInOld (skip_edit (TextEditInfoCache_from e) m) = lineCount (tlen (p @ u @ d))"
    "deltaOldToNewColumnCount (skip_edit (TextEditInfoCache_from e) m) =
       (if deltaLineIdxInOld m = lineCount (tlen (p @ u @ d)) then deltaOldToNewColumnCount m else 0)
       + columnCount (tlen (q @ u @ n)) - columnCount (tlen (q @ u @ d))"
    by (simp_all add: skip_edit_def Let_def cache_eq [OF assms(2,3,5,6)] tlen_append_counts(1))
  show ?thesis
    using assms(1) tlen_counts_nonneg(1) [of p] tlen_counts_nonneg(1) [of u] tlen_counts_nonneg(1) [of d]
    unfolding skipped_def * tlen_append_counts
    by (elim conjE disjE; cases "lineCount (tlen u) = 0"; cases "lineCount (tlen d) = 0") simp_all
qed

lemma drop_ConsD: "drop k xs = y # ys \<Longrightarrow> k < length xs \<and> xs ! k = y \<and> drop (Suc k) xs = ys"
  by (metis Cons_nth_drop_Suc drop_eq_Nil list.distinct(1) list.inject not_le)

lemma adjust_skips:
  assumes "describes_from p es s t" "skipped m p q" "drop (nextEditIdx m) (bm_edits m) = map TextEditInfoCache_from (es @ rest)"
    "short (p @ s)" "short (q @ t)" "plen (q @ t) \<le> off"
  shows "\<exists>m' s0 t0 r. s = s0 @ r \<and> t = t0 @ r \<and> skipped m' (p @ s0) (q @ t0) \<and> adjustNextEdit off m = adjustNextEdit off m' \<and>
    drop (nextEditIdx m') (bm_edits m') = map TextEditInfoCache_from rest"
  using assms
proof (induction arbitrary: m q rule: describes_from.induct)
  case (describes_Nil p s)
  then show ?case by (intro exI [of _ m] exI [of _ "[]"] exI [of _ s]) simp
next
  case (describes_Cons p u d es s t e n)
  let ?c = "TextEditInfoCache_from e"
  have sh: "short (p @ u)" "short (q @ u)" "short d" "short n" "short (q @ u @ n)" "short t"
    using describes_Cons.prems(3,4) short_append [of "p @ u" "d @ s"] short_append [of d s] short_append [of "q @ u @ n" t] short_append [of "q @ u" n]
      short_append [of n t] short_append [of "q @ u" "n @ t"] by auto
  have i: "nextEditIdx m < length (bm_edits m)" "bm_edits m ! nextEditIdx m = ?c" "drop (Suc (nextEditIdx m)) (bm_edits m) = map TextEditInfoCache_from (es @ rest)"
    using drop_ConsD [OF describes_Cons.prems(2) [simplified]] by simp_all
  have "translateOldToCur m (endOffsetAfterObj ?c) = plen (q @ u @ n)"
    using old_to_cur [OF describes_Cons.prems(1)] cache_eq [OF describes_Cons(2) sh(1,3,4)] by simp
  moreover have "plen (q @ u @ n) \<le> off"
    using plen_le_append [OF sh(5,6)] describes_Cons.prems(5) by simp
  ultimately have a: "adjustNextEdit off m = adjustNextEdit off (skip_edit ?c m)"
    using i by (subst adjustNextEdit.simps) (simp add: lengthLessThanEqual_def)
  from describes_Cons.IH [OF skipped_skip [OF describes_Cons.prems(1) describes_Cons(2) sh(1-4)]]
  obtain m' s0 t0 r where "s = s0 @ r" "t = t0 @ r" "skipped m' (p @ u @ d @ s0) (q @ u @ n @ t0)" "adjustNextEdit off (skip_edit ?c m) = adjustNextEdit off m'"
    "drop (nextEditIdx m') (bm_edits m') = map TextEditInfoCache_from rest"
    using i(3) describes_Cons.prems(3-5) by auto
  with a show ?case
    by (intro exI [of _ m'] exI [of _ "u @ d @ s0"] exI [of _ "u @ n @ t0"] exI [of _ r]) simp
qed

lemma mapper_old_offsets:
  assumes "describes first s1 t1" "describes_from s1 rest s2 t2" "short (s1 @ s2)" "short (t1 @ t2)"
    "rest = [] \<or> startOffset (hd rest) \<noteq> plen s1 \<or> newLength (hd rest) \<noteq> lengthZero" "\<forall>x \<in> set asked. x \<le> plen t1"
  shows "let m = fold adjustNextEdit asked (new_BeforeEditPositionMapper (first @ rest))
    in fst (getOffsetBeforeChange (plen t1) m) = plen s1 \<and>
       fst (getDistanceToNextChange (plen t1) m) =
         (if rest = [] then None else Some (lengthDiffNonNegative (plen s1) (startOffset (hd rest))))"
proof -
  let ?n = "new_BeforeEditPositionMapper (first @ rest)" and ?o = "plen t1"
  have d: "drop (nextEditIdx ?n) (bm_edits ?n) = map TextEditInfoCache_from (first @ rest)" by (simp add: new_BeforeEditPositionMapper_def)
  have sh1: "short s1" "short s2" "short t1" "short t2" using short_append [OF assms(3)] short_append [OF assms(4)] by auto
  obtain m' s0 t0 r where m': "s1 = s0 @ r" "t1 = t0 @ r" "skipped m' s0 t0" "adjustNextEdit ?o ?n = adjustNextEdit ?o m'"
    "drop (nextEditIdx m') (bm_edits m') = map TextEditInfoCache_from rest"
    using adjust_skips [OF assms(1) [unfolded describes_def] skipped_new d, of ?o] sh1 by auto
  have at: "js_at (bm_edits m') (int (nextEditIdx m')) = (case rest of [] \<Rightarrow> None | e # _ \<Rightarrow> Some (TextEditInfoCache_from e))"
    using m'(5) by (cases rest) (auto simp: js_at_def nth_via_drop not_less [symmetric] dest: arg_cong [of _ _ length])
  have stop: "adjustNextEdit ?o m' = m' \<and> (rest \<noteq> [] \<longrightarrow>
    lengthDiffNonNegative ?o (translateOldToCur m' (offsetObj (TextEditInfoCache_from (hd rest)))) = lengthDiffNonNegative (plen s1) (startOffset (hd rest)))"
    using assms(2)
  proof cases
    case describes_Nil
    with m'(5) show ?thesis by (subst adjustNextEdit.simps) simp
  next
    case (describes_Cons u d es s t e n)
    have sh: "short (s1 @ u)" "short d" "short n" "short (u @ n)" "short u"
      using assms(3,4) describes_Cons short_append [of "s1 @ u" "d @ s"] short_append [of "t1 @ u @ n" t] short_append [of t1 "u @ n"]
        short_append [of u n] short_append [of "s1 @ u @ d" s] short_append [of "s1 @ u" d] by auto
    have "u @ n \<noteq> []" using assms(5) describes_Cons by (auto simp: new_TextEditInfo_def lengthZero_def)
    then have "plen (t1 @ u @ n) \<noteq> ?o" using plen_append_eq [OF sh1(3) sh(4)] by blast
    with plen_le_append [OF sh1(3) sh(4)] have lt: "?o < plen (t1 @ u @ n)" by simp
    have "translateOldToCur m' (endOffsetAfterObj (TextEditInfoCache_from e)) = plen (t1 @ u @ n)"
      "translateOldToCur m' (offsetObj (TextEditInfoCache_from e)) = plen (t1 @ u)"
      using old_to_cur [OF m'(3), of "r @ u @ n"] old_to_cur [OF m'(3), of "r @ u"] cache_eq [OF describes_Cons(5) sh(1-3)] m'(1,2) by simp_all
    moreover have "bm_edits m' ! nextEditIdx m' = TextEditInfoCache_from e" using m'(5) describes_Cons by (simp add: nth_via_drop)
    ultimately show ?thesis
      using lt describes_Cons(1,5) plen_diff [OF sh1(1) sh(5)] plen_diff [OF sh1(3) sh(5)]
      by (subst adjustNextEdit.simps) (simp add: lengthLessThanEqual_def new_TextEditInfo_def)
  qed
  have "translateCurToOld m' ?o = plen s1" using cur_to_old [OF m'(3), of r] short_fits [OF sh1(3)] m'(1,2) by simp
  with stop at m'(4) show ?thesis
    using adjust_after_all [OF assms(6), of ?n]
    by (auto simp: getOffsetBeforeChange_def getDistanceToNextChange_def Let_def split: list.splits)
qed

text \<open>C21: The mapper of a list of edits: for an offset behind the edits at which the text before is known, \<^verbatim>\<open>getOffsetBeforeChange\<close> returns the offset before the edits and
  \<^verbatim>\<open>getDistanceToNextChange\<close> the distance to the next edit (\<^verbatim>\<open>null\<close> when there is none), whatever smaller offsets were asked before.  (A deletion right
  at the offset is taken to lie before it.)\<close>

theorem mapper_finds_old_offsets:
  assumes "describes first s1 t1" "describes_from s1 rest s2 t2" "short (s1 @ s2)" "short (t1 @ t2)"
    "rest = [] \<or> startOffset (hd rest) \<noteq> plen s1 \<or> newLength (hd rest) \<noteq> lengthZero" "\<forall>x \<in> set asked. x \<le> plen t1"
  shows "let m = fold adjustNextEdit asked (new_BeforeEditPositionMapper (first @ rest))
    in fst (getOffsetBeforeChange (plen t1) m) = plen s1 \<and>
       fst (getDistanceToNextChange (plen t1) m) =
         (if rest = [] then None else Some (lengthDiffNonNegative (plen s1) (startOffset (hd rest))))"
  using assms by (rule mapper_old_offsets)

theorem mapper_finds_old_offsets_witness:
  "fst (getOffsetBeforeChange 2 (fold adjustNextEdit [0, 1] (new_BeforeEditPositionMapper [new_TextEditInfo 0 1 2, new_TextEditInfo 2 2 1]))) = 1 \<and>
   fst (getDistanceToNextChange 2 (fold adjustNextEdit [0, 1] (new_BeforeEditPositionMapper [new_TextEditInfo 0 1 2, new_TextEditInfo 2 2 1]))) = Some 1"
proof -
  have p1: "plen [x] = 1" if "x \<noteq> LF" for x
    using that by (simp add: plen_def pack_def toLength_def tlen_def TextLength_zero_def)
  have p2: "plen [x, y] = 2" if "x \<noteq> LF" "y \<noteq> LF" for x y
    using that by (simp add: plen_def pack_def toLength_def tlen_def TextLength_zero_def)
  note p = p1 p2
  have "describes [new_TextEditInfo 0 1 2] [97] [98, 98]"
    using describes_Cons [of "[]" "[]" "[97]" "[]" "[]" "[]" "new_TextEditInfo 0 1 2" "[98, 98]"] describes_Nil by (simp add: describes_def p)
  moreover have "describes_from [97] [new_TextEditInfo 2 2 1] [99] [99, 100]"
    using describes_Cons [of "[97]" "[99]" "[]" "[]" "[]" "[]" "new_TextEditInfo 2 2 1" "[100]"] describes_Nil by (simp add: p)
  moreover have "short [97, 99]" "short [98, 98, 99, 100]" by (rule short_small, simp)+
  ultimately show ?thesis
    using mapper_finds_old_offsets [of "[new_TextEditInfo 0 1 2]" "[97]" "[98, 98]" "[new_TextEditInfo 2 2 1]" "[99]" "[99, 100]" "[0, 1]"]
    by (simp add: p Let_def new_TextEditInfo_def lengthDiffNonNegative_def factor_def toLength_def)
qed

section \<open>Changes of the text model\<close>

lemma positionToLength_pos_at: "positionToLength (pos_at s k) = plen (take k s)"
  by (simp add: pos_at_eq positionToLength_def plen_def pack_def)

lemma change_info_plen:
  assumes "mc_range c = Range_fromPositions (pos_at s a) (pos_at s b)" "a \<le> b" "13 \<notin> set (mc_text c)"
  shows "change_info c = Some (new_TextEditInfo (plen (take a s)) (plen (take b s)) (plen (mc_text c)))"
proof -
  have "new_Range (startLineNumber r) (startColumn r) (endLineNumber r) (endColumn r) = r" if "range_valid r" for r :: Range
    using that by (auto simp: new_Range_def range_valid_def Range_get_defs less_eq_Position_ext_def)
  from this [OF Range_fromPositions_valid] show ?thesis
    using assms lengthOfString_pack [of "mc_text c"] pos_at_mono [OF assms(2), of s]
    by (simp add: change_info_def Range_lift_def positionToLength_pos_at plen_def [of "mc_text c"])
qed

end
