(* ===== verification/Bracket_Parser.thy ===== *)
theory Bracket_Parser
  imports Fast_Tokenizer Concat_Trees Node_Reader Before_Edit_Mapper
begin

text \<open>
  \<^verbatim>\<open>parser.ts\<close> of the bracket pair trees: from tokens, and possibly an old tree and the edits since, to the tree.  The recursion between \<^verbatim>\<open>parseList\<close> and \<^verbatim>\<open>parseChild\<close>
  ends only if the tokenizer does, so it is bounded; running out of the bound is \<open>None\<close>.
\<close>

section \<open>The parser\<close>

text \<open>The interface \<^verbatim>\<open>Tokenizer\<close>: what its methods do on the state of a tokenizer.\<close>

record 't Tokenizer =
  tz_offset :: "'t \<Rightarrow> Length"
  tz_read :: "'t \<Rightarrow> BracketToken option \<times> 't"
  tz_peek :: "'t \<Rightarrow> BracketToken option \<times> 't"
  tz_skip :: "Length \<Rightarrow> 't \<Rightarrow> 't result"

definition FastTokenizer_methods :: "FastTokenizer Tokenizer" where
  "FastTokenizer_methods = \<lparr>tz_offset = ft_offset, tz_read = FastTokenizer_read, tz_peek = FastTokenizer_peek, tz_skip = FastTokenizer_skip\<rparr>"

record 't BracketParser =
  pa_tokenizer :: 't
  pa_oldNodeReader :: "BracketKind NodeReader option"
  pa_positionMapper :: BeforeEditPositionMapper
  pa_createImmutableLists :: bool
  pa_itemsConstructed :: nat
  pa_itemsFromCache :: nat

definition new_BracketParser :: "'t \<Rightarrow> TextEditInfo list \<Rightarrow> BracketKind AstNode option \<Rightarrow> bool \<Rightarrow> 't BracketParser result" where
  "new_BracketParser tokenizer edits oldNode createImmutableLists =
     (if oldNode \<noteq> None \<and> createImmutableLists then Inl JsError
      else Inr \<lparr>pa_tokenizer = tokenizer, pa_oldNodeReader = map_option new_NodeReader oldNode, pa_positionMapper = new_BeforeEditPositionMapper edits,
                pa_createImmutableLists = createImmutableLists, pa_itemsConstructed = 0, pa_itemsFromCache = 0\<rparr>)"

text \<open>The predicate of \<^verbatim>\<open>tryReadChildFromCache\<close>.\<close>

definition reusable :: "Length option \<Rightarrow> SmallImmutableSet \<Rightarrow> BracketKind AstNode \<Rightarrow> bool result" where
  "reusable maxCacheableLength openedBracketIds curNode =
     (case maxCacheableLength of
        Some m \<Rightarrow> if \<not> lengthLessThan (AstNode_length curNode) m then Inr False else AstNode_canBeReused openedBracketIds curNode
      | None \<Rightarrow> AstNode_canBeReused openedBracketIds curNode)"

definition tryReadChildFromCache :: "'t Tokenizer \<Rightarrow> SmallImmutableSet \<Rightarrow> 't BracketParser \<Rightarrow> (BracketKind AstNode option \<times> 't BracketParser) result" where
  "tryReadChildFromCache methods openedBracketIds this =
     (case pa_oldNodeReader this of
        None \<Rightarrow> Inr (None, this)
      | Some reader \<Rightarrow>
          let off = tz_offset methods (pa_tokenizer this)
          in case getDistanceToNextChange off (pa_positionMapper this) of (maxCacheableLength, mapper) \<Rightarrow>
            if (case maxCacheableLength of None \<Rightarrow> True | Some m \<Rightarrow> \<not> lengthIsZero m) then
              (case getOffsetBeforeChange off mapper of (before, mapper2) \<Rightarrow>
                 rbind (NodeReader_readLongestNodeAt before (reusable maxCacheableLength openedBracketIds) reader) (\<lambda>(cachedNode, reader2).
                   let this2 = this\<lparr>pa_positionMapper := mapper2, pa_oldNodeReader := Some reader2\<rparr>
                   in case cachedNode of
                        Some n \<Rightarrow> rbind (tz_skip methods (AstNode_length n) (pa_tokenizer this)) (\<lambda>tokenizer.
                          Inr (Some n, this2\<lparr>pa_itemsFromCache := pa_itemsFromCache this + 1, pa_tokenizer := tokenizer\<rparr>))
                      | None \<Rightarrow> Inr (None, this2)))
            else Inr (None, this\<lparr>pa_positionMapper := mapper\<rparr>))"

text \<open>A step that may throw or run out of the bound, followed by another.\<close>

definition run_bind :: "'a result option \<Rightarrow> ('a \<Rightarrow> 'b result option) \<Rightarrow> 'b result option" where
  "run_bind m f = (case m of None \<Rightarrow> None | Some (Inl e) \<Rightarrow> Some (Inl e) | Some (Inr x) \<Rightarrow> f x)"

text \<open>\<open>parse_list\<close> is \<^verbatim>\<open>parseList\<close> behind its loop.\<close>

definition concat_items :: "'t BracketParser \<Rightarrow> BracketKind AstNode list \<Rightarrow> BracketKind AstNode option result" where
  "concat_items this items =
     (case pa_oldNodeReader this of Some _ \<Rightarrow> concat23Trees items | None \<Rightarrow> concat23TreesOfSameHeight items (pa_createImmutableLists this))"

definition parse_list :: "(BracketKind AstNode list \<times> 't BracketParser) result option \<Rightarrow> (BracketKind AstNode option \<times> 't BracketParser) result option" where
  "parse_list loop = run_bind loop (\<lambda>(items, this). Some (rbind (concat_items this items) (\<lambda>n. Inr (n, this))))"

text \<open>\<open>close_pair\<close> is the end of \<^verbatim>\<open>parseChild\<close> for an opening bracket, behind the list.\<close>

definition close_pair :: "'t Tokenizer \<Rightarrow> BracketToken \<Rightarrow> BracketKind AstNode option \<Rightarrow> 't BracketParser \<Rightarrow> (BracketKind AstNode \<times> 't BracketParser) result" where
  "close_pair methods token child this =
     (case (tk_astNode token, tz_peek methods (pa_tokenizer this)) of
        (None, _) \<Rightarrow> Inl TypeError
      | (Some ob, (nextToken, tokenizer)) \<Rightarrow>
          (case nextToken of
             None \<Rightarrow> Inr (PairAstNode_create ob child None, this\<lparr>pa_tokenizer := tokenizer\<rparr>)
           | Some t \<Rightarrow>
               if tk_kind t = TClosingBracket \<and> (tk_bracketId t = tk_bracketId token \<or> SmallImmutableSet_intersects (tk_bracketIds t) (tk_bracketIds token))
               then Inr (PairAstNode_create ob child (tk_astNode t), this\<lparr>pa_tokenizer := snd (tz_read methods tokenizer)\<rparr>)
               else Inr (PairAstNode_create ob child None, this\<lparr>pa_tokenizer := tokenizer\<rparr>)))"

fun list_loop :: "nat \<Rightarrow> 't Tokenizer \<Rightarrow> SmallImmutableSet \<Rightarrow> nat \<Rightarrow> BracketKind AstNode list \<Rightarrow> 't BracketParser \<Rightarrow> (BracketKind AstNode list \<times> 't BracketParser) result option"
  and parseChild :: "nat \<Rightarrow> 't Tokenizer \<Rightarrow> SmallImmutableSet \<Rightarrow> nat \<Rightarrow> 't BracketParser \<Rightarrow> (BracketKind AstNode \<times> 't BracketParser) result option" where
  "list_loop 0 methods openedBracketIds level items this = None"
| "list_loop (Suc n) methods openedBracketIds level items this =
     run_bind (Some (tryReadChildFromCache methods openedBracketIds this)) (\<lambda>(cached, this2).
       case cached of
         Some child \<Rightarrow>
           list_loop n methods openedBracketIds level
             (if AstNode_kind child = KList \<and> AstNode_childrenLength child = 0 then items else items @ [child]) this2
       | None \<Rightarrow>
           (case tz_peek methods (pa_tokenizer this2) of (token, tokenizer) \<Rightarrow>
              let this3 = this2\<lparr>pa_tokenizer := tokenizer\<rparr>
              in if (case token of
                       None \<Rightarrow> True
                     | Some t \<Rightarrow> tk_kind t = TClosingBracket \<and> SmallImmutableSet_intersects (tk_bracketIds t) openedBracketIds)
                 then Some (Inr (items, this3))
                 else
                   run_bind (parseChild n methods openedBracketIds (level + 1) this3) (\<lambda>(child, this4).
                     list_loop n methods openedBracketIds level
                       (if AstNode_kind child = KList \<and> AstNode_childrenLength child = 0 then items else items @ [child]) this4)))"
| "parseChild 0 methods openedBracketIds level this = None"
| "parseChild (Suc n) methods openedBracketIds level this =
     (case tz_read methods (pa_tokenizer this) of (token, tokenizer) \<Rightarrow>
        let this2 = this\<lparr>pa_itemsConstructed := pa_itemsConstructed this + 1, pa_tokenizer := tokenizer\<rparr>
        in (case token of
              None \<Rightarrow> Some (Inl TypeError)
            | Some t \<Rightarrow>
                (case tk_kind t of
                   TClosingBracket \<Rightarrow> Some (Inr (InvalidBracketAstNode (tk_bracketIds t) (tk_length t), this2))
                 | TText \<Rightarrow> Some (case tk_astNode t of None \<Rightarrow> Inl TypeError | Some a \<Rightarrow> Inr (a, this2))
                 | TOpeningBracket \<Rightarrow>
                     if level > 300 then Some (Inr (TextAstNode (tk_length t), this2))
                     else
                       run_bind (parse_list (list_loop n methods (SmallImmutableSet_merge openedBracketIds (tk_bracketIds t)) (level + 1) [] this2))
                         (\<lambda>(child, this3). Some (close_pair methods t child this3)))))"

definition parseList :: "nat \<Rightarrow> 't Tokenizer \<Rightarrow> SmallImmutableSet \<Rightarrow> nat \<Rightarrow> 't BracketParser \<Rightarrow> (BracketKind AstNode option \<times> 't BracketParser) result option" where
  "parseList n methods openedBracketIds level this = parse_list (list_loop n methods openedBracketIds level [] this)"

definition Parser_parseDocument :: "nat \<Rightarrow> 't Tokenizer \<Rightarrow> 't BracketParser \<Rightarrow> (BracketKind AstNode \<times> 't BracketParser) result option" where
  "Parser_parseDocument n methods this =
     run_bind (parseList n methods SmallImmutableSet_getEmpty 0 (this\<lparr>pa_itemsConstructed := 0, pa_itemsFromCache := 0\<rparr>)) (\<lambda>(res, this2).
       Some (Inr (case res of None \<Rightarrow> ListAstNode_getEmpty | Some t \<Rightarrow> t, this2)))"

definition parseDocument :: "nat \<Rightarrow> 't Tokenizer \<Rightarrow> 't \<Rightarrow> TextEditInfo list \<Rightarrow> BracketKind AstNode option \<Rightarrow> bool \<Rightarrow> BracketKind AstNode result option" where
  "parseDocument n methods tokenizer edits oldNode createImmutableLists =
     run_bind (Some (new_BracketParser tokenizer edits oldNode createImmutableLists)) (\<lambda>parser.
       run_bind (Parser_parseDocument n methods parser) (\<lambda>(res, _). Some (Inr res)))"

end
