(* ===== verification/Bracket_Results.thy ===== *)
theory Bracket_Results
  imports Bracket_Parser
begin

text \<open>
  What the parser of the bracket pair trees promises when it parses from scratch: it returns, the tree covers the text, and brackets are matched the way the comments say.
\<close>

section \<open>Matched brackets\<close>

fun unclosed :: "'k AstNode \<Rightarrow> bool" where
  "unclosed (PairAstNode _ _ _ None _) = True"
| "unclosed _ = False"

abbreviation opt_leaves :: "'k AstNode option \<Rightarrow> 'k AstNode list" where
  "opt_leaves c \<equiv> (case c of None \<Rightarrow> [] | Some n \<Rightarrow> ast_leaves n)"

text \<open>The texts and brackets of a tree from left to right.\<close>

fun terminals :: "'k AstNode \<Rightarrow> 'k AstNode list" where
  "terminals (PairAstNode _ ob c cl _) = terminals ob @ (case c of None \<Rightarrow> [] | Some n \<Rightarrow> terminals n) @ (case cl of None \<Rightarrow> [] | Some n \<Rightarrow> terminals n)"
| "terminals (TwoThreeListAstNode _ _ _ a b c _) = terminals a @ terminals b @ (case c of None \<Rightarrow> [] | Some n \<Rightarrow> terminals n)"
| "terminals (ArrayListAstNode _ _ _ cs _) = concat (map terminals cs)"
| "terminals n = [n]"

lemma terminals_leaves: "terminals n = concat (map terminals (ast_leaves n))"
proof (induction n rule: ast_leaves.induct)
  case (1 im l h a b c ids)
  then show ?case by (cases c) simp_all
next
  case (2 im l h cs ids)
  then show ?case by (induction cs) simp_all
qed simp_all

text \<open>The list of tokens is at its end, or before a bracket that closes one of the open ones.\<close>

definition ended :: "BracketToken list \<Rightarrow> SmallImmutableSet \<Rightarrow> bool" where
  "ended ts opened \<longleftrightarrow> (case ts of [] \<Rightarrow> True | t # _ \<Rightarrow> tk_kind t = TClosingBracket \<and> SmallImmutableSet_intersects (tk_bracketIds t) opened)"

abbreviation texts_of :: "js_string list \<Rightarrow> BracketToken list \<Rightarrow> bool" where
  "texts_of ss ts \<equiv> list_all2 (\<lambda>s t. token_for s (Some t)) ss ts"

text \<open>
  The grammar: \<open>parses lv ids ts rest ns\<close> says that the tokens \<open>ts\<close>, which stand inside of open brackets with the ids \<open>ids\<close> and before the tokens \<open>rest\<close>, form the nodes \<open>ns\<close> of a list.  The list ends
  at the end of the document or before a bracket that closes an open one.  A closing bracket that closes none of the open ones is unexpected.  An opening bracket starts a pair, whose contents are a list
  inside of it too; the pair is closed if the token behind its contents closes it, and otherwise it is the last node of its list.  Below 150 pairs (\<open>lv\<close> grows by two with each pair) an opening bracket is a text.
\<close>

inductive parses :: "nat \<Rightarrow> nat set \<Rightarrow> BracketToken list \<Rightarrow> BracketToken list \<Rightarrow> BracketKind AstNode list \<Rightarrow> bool" where
  parses_end: "rest = [] \<or> tk_kind (hd rest) = TClosingBracket \<and> keys_of (tk_bracketIds (hd rest)) \<inter> ids \<noteq> {} \<Longrightarrow> parses lv ids [] rest []"
| parses_text: "tk_kind t = TText \<Longrightarrow> tk_astNode t = Some n \<Longrightarrow> parses lv ids ts rest ns \<Longrightarrow> parses lv ids (t # ts) rest (n # ns)"
| parses_unexpected: "tk_kind t = TClosingBracket \<Longrightarrow> keys_of (tk_bracketIds t) \<inter> ids = {} \<Longrightarrow> parses lv ids ts rest ns \<Longrightarrow>
    parses lv ids (t # ts) rest (InvalidBracketAstNode (tk_bracketIds t) (tk_length t) # ns)"
| parses_deep: "tk_kind t = TOpeningBracket \<Longrightarrow> lv > 300 \<Longrightarrow> parses lv ids ts rest ns \<Longrightarrow> parses lv ids (t # ts) rest (TextAstNode (tk_length t) # ns)"
| parses_closed: "tk_kind t = TOpeningBracket \<Longrightarrow> \<not> lv > 300 \<Longrightarrow> tk_astNode t = Some ob \<Longrightarrow> parses (Suc (Suc lv)) (ids \<union> keys_of (tk_bracketIds t)) ts1 (u # ts2 @ rest) (opt_leaves child) \<Longrightarrow>
    tk_kind u = TClosingBracket \<Longrightarrow> keys_of (tk_bracketIds u) \<inter> keys_of (tk_bracketIds t) \<noteq> {} \<Longrightarrow> tk_astNode u = Some cl \<Longrightarrow> parses lv ids ts2 rest ns \<Longrightarrow>
    parses lv ids (t # ts1 @ u # ts2) rest (PairAstNode l ob child (Some cl) mids # ns)"
| parses_unclosed: "tk_kind t = TOpeningBracket \<Longrightarrow> \<not> lv > 300 \<Longrightarrow> tk_astNode t = Some ob \<Longrightarrow> parses (Suc (Suc lv)) (ids \<union> keys_of (tk_bracketIds t)) ts1 rest (opt_leaves child) \<Longrightarrow>
    rest = [] \<or> keys_of (tk_bracketIds (hd rest)) \<inter> keys_of (tk_bracketIds t) = {} \<Longrightarrow> parses lv ids (t # ts1) rest [PairAstNode l ob child None mids]"

lemma parses_stop: "parses lv ids ts rest ns \<Longrightarrow> rest = [] \<or> tk_kind (hd rest) = TClosingBracket \<and> keys_of (tk_bracketIds (hd rest)) \<inter> ids \<noteq> {}"
  by (induction rule: parses.induct) auto

text \<open>The grammar reads the tokens in one way: the nodes of a list are determined up to the grouping of lists and the cached lengths and missing brackets.\<close>

datatype 'k bare = Bare "'k AstNode" | BarePair "'k AstNode" "'k bare list" "'k AstNode option"

fun bare_of :: "'k AstNode \<Rightarrow> 'k bare list" where
  "bare_of (PairAstNode _ ob c cl _) = [BarePair ob (case c of None \<Rightarrow> [] | Some n \<Rightarrow> bare_of n) cl]"
| "bare_of (TwoThreeListAstNode _ _ _ a b c _) = bare_of a @ bare_of b @ (case c of None \<Rightarrow> [] | Some n \<Rightarrow> bare_of n)"
| "bare_of (ArrayListAstNode _ _ _ cs _) = concat (map bare_of cs)"
| "bare_of n = [Bare n]"

lemma bare_leaves: "bare_of n = concat (map bare_of (ast_leaves n))"
proof (induction n rule: ast_leaves.induct)
  case (1 im l h a b c ids)
  then show ?case by (cases c) simp_all
next
  case (2 im l h cs ids)
  then show ?case by (induction cs) simp_all
qed simp_all

lemma bare_opt: "(case c of None \<Rightarrow> [] | Some n \<Rightarrow> bare_of n) = concat (map bare_of (opt_leaves c))"
  using bare_leaves by (cases c) auto

inductive_cases parses_NilE: "parses lv ids [] rest ns"
inductive_cases parses_ConsE: "parses lv ids (t # ts) rest ns"

lemma parses_first:
  assumes "parses lv ids (t # ts) rest ns"
  shows "tk_kind t = TText \<Longrightarrow> \<exists>n ns2. ns = n # ns2 \<and> tk_astNode t = Some n \<and> parses lv ids ts rest ns2"
    and "tk_kind t = TClosingBracket \<Longrightarrow> \<exists>ns2. ns = InvalidBracketAstNode (tk_bracketIds t) (tk_length t) # ns2 \<and> keys_of (tk_bracketIds t) \<inter> ids = {} \<and> parses lv ids ts rest ns2"
    and "tk_kind t = TOpeningBracket \<Longrightarrow> lv > 300 \<Longrightarrow> \<exists>ns2. ns = TextAstNode (tk_length t) # ns2 \<and> parses lv ids ts rest ns2"
  using assms by (erule_tac parses_ConsE; simp)+

lemma parses_first_pair:
  assumes "parses lv ids (t # ts) rest ns" "tk_kind t = TOpeningBracket" "\<not> lv > 300"
  obtains (closed) ob ts1 u ts2 child cl ns2 l mids where "ts = ts1 @ u # ts2" "ns = PairAstNode l ob child (Some cl) mids # ns2" "tk_astNode t = Some ob"
      "parses (Suc (Suc lv)) (ids \<union> keys_of (tk_bracketIds t)) ts1 (u # ts2 @ rest) (opt_leaves child)" "tk_kind u = TClosingBracket"
      "keys_of (tk_bracketIds u) \<inter> keys_of (tk_bracketIds t) \<noteq> {}" "tk_astNode u = Some cl" "parses lv ids ts2 rest ns2"
    | (unclosed) ob child l mids where "ns = [PairAstNode l ob child None mids]" "tk_astNode t = Some ob" "parses (Suc (Suc lv)) (ids \<union> keys_of (tk_bracketIds t)) ts rest (opt_leaves child)"
      "rest = [] \<or> keys_of (tk_bracketIds (hd rest)) \<inter> keys_of (tk_bracketIds t) = {}"
  apply (rule parses_ConsE [OF assms(1)])
  subgoal using assms(2) by simp
  subgoal using assms(2) by simp
  subgoal using assms(3) by simp
  subgoal by (rule closed)
  subgoal by (rule unclosed)
  done

lemma parses_nothing: "parses lv ids [] rest ns \<Longrightarrow> ns = []"
  by (erule parses_NilE) auto

lemma parses_unique:
  "parses lv ids ts rest ns \<Longrightarrow> parses lv ids ts' rest' ns' \<Longrightarrow> ts @ rest = ts' @ rest' \<Longrightarrow> ts = ts' \<and> concat (map bare_of ns) = concat (map bare_of ns')"
proof (induction arbitrary: ts' rest' ns' rule: parses.induct)
  case (parses_end rest ids lv)
  have "ts' = []"
  proof (cases ts')
    case (Cons t ts)
    with parses_end.hyps parses_end.prems(2) parses_first(2) [OF parses_end.prems(1) [unfolded Cons]] show ?thesis by auto
  qed
  moreover have "ns' = []" using parses_nothing [of lv ids rest' ns'] parses_end.prems(1) calculation by simp
  ultimately show ?case by simp
next
  case (parses_text t n lv ids ts rest ns)
  show ?case
  proof (cases ts')
    case Nil
    with parses_text.hyps parses_text.prems(2) parses_stop [OF parses_text.prems(1)] show ?thesis by auto
  next
    case (Cons t' ts2)
    with parses_first(1) [OF parses_text.prems(1) [unfolded Cons]] parses_text.prems(2) parses_text.hyps obtain ns2 where "t' = t" "ns' = n # ns2" "parses lv ids ts2 rest' ns2" by auto
    with parses_text.IH [of ts2 rest' ns2] parses_text.prems(2) Cons show ?thesis by simp
  qed
next
  case (parses_unexpected t ids lv ts rest ns)
  show ?case
  proof (cases ts')
    case Nil
    with parses_unexpected.hyps parses_unexpected.prems(2) parses_stop [OF parses_unexpected.prems(1)] show ?thesis by auto
  next
    case (Cons t' ts2)
    with parses_first(2) [OF parses_unexpected.prems(1) [unfolded Cons]] parses_unexpected.prems(2) parses_unexpected.hyps
    obtain ns2 where "t' = t" "ns' = InvalidBracketAstNode (tk_bracketIds t) (tk_length t) # ns2" "parses lv ids ts2 rest' ns2" by auto
    with parses_unexpected.IH [of ts2 rest' ns2] parses_unexpected.prems(2) Cons show ?thesis by simp
  qed
next
  case (parses_deep t lv ids ts rest ns)
  show ?case
  proof (cases ts')
    case Nil
    with parses_deep.hyps parses_deep.prems(2) parses_stop [OF parses_deep.prems(1)] show ?thesis by auto
  next
    case (Cons t' ts2)
    with parses_first(3) [OF parses_deep.prems(1) [unfolded Cons]] parses_deep.prems(2) parses_deep.hyps
    obtain ns2 where "t' = t" "ns' = TextAstNode (tk_length t) # ns2" "parses lv ids ts2 rest' ns2" by auto
    with parses_deep.IH [of ts2 rest' ns2] parses_deep.prems(2) Cons show ?thesis by simp
  qed
next
  case (parses_closed t lv ob ids ts1 u ts2 rest child cl ns l mids)
  show ?case
  proof (cases ts')
    case Nil
    with parses_closed.hyps parses_closed.prems(2) parses_stop [OF parses_closed.prems(1)] show ?thesis by auto
  next
    case (Cons t' ts3)
    then have t: "t' = t" and eq: "ts1 @ u # ts2 @ rest = ts3 @ rest'" using parses_closed.prems(2) by simp_all
    from parses_closed.prems(1) [unfolded Cons t] parses_closed.hyps(1,2) show ?thesis
    proof (cases rule: parses_first_pair)
      case (closed ob' ts1' u' ts2' child' cl' ns2 l' mids')
      have i: "ts1 = ts1'" "concat (map bare_of (opt_leaves child)) = concat (map bare_of (opt_leaves child'))"
        using parses_closed.IH(1) [OF closed(4)] eq closed(1) by simp_all
      then have u: "u' = u" "ts2 @ rest = ts2' @ rest'" using eq closed(1) by simp_all
      then have "ts2 = ts2'" "concat (map bare_of ns) = concat (map bare_of ns2)" using parses_closed.IH(2) [OF closed(8)] by simp_all
      with i u Cons t closed(1,2,3,7) parses_closed.hyps(3,7) show ?thesis by (simp add: bare_opt)
    next
      case (unclosed ob' child' l' mids')
      have "ts1 = ts3" using parses_closed.IH(1) [OF unclosed(3)] eq by simp
      then have "u # ts2 @ rest = rest'" using eq by simp
      with unclosed(4) parses_closed.hyps(6) show ?thesis by auto
    qed
  qed
next
  case (parses_unclosed t lv ob ids ts1 rest child l mids)
  show ?case
  proof (cases ts')
    case Nil
    with parses_unclosed.hyps parses_unclosed.prems(2) parses_stop [OF parses_unclosed.prems(1)] show ?thesis by auto
  next
    case (Cons t' ts3)
    then have t: "t' = t" and eq: "ts1 @ rest = ts3 @ rest'" using parses_unclosed.prems(2) by simp_all
    from parses_unclosed.prems(1) [unfolded Cons t] parses_unclosed.hyps(1,2) show ?thesis
    proof (cases rule: parses_first_pair)
      case (closed ob' ts1' u' ts2' child' cl' ns2 l' mids')
      have "ts1 = ts1'" using parses_unclosed.IH [OF closed(4)] eq closed(1) by simp
      then have "u' # ts2' @ rest' = rest" using eq closed(1) by simp
      with closed(6) parses_unclosed.hyps(5) show ?thesis by auto
    next
      case (unclosed ob' child' l' mids')
      have "ts1 = ts3" "concat (map bare_of (opt_leaves child)) = concat (map bare_of (opt_leaves child'))" using parses_unclosed.IH [OF unclosed(3)] eq by simp_all
      with Cons t unclosed(1,2) parses_unclosed.hyps(3) show ?thesis by (simp add: bare_opt)
    qed
  qed
qed

definition parsed_items :: "nat \<Rightarrow> nat set \<Rightarrow> BracketKind AstNode list \<Rightarrow> BracketToken list \<Rightarrow> BracketToken list \<Rightarrow> js_string \<Rightarrow> bool" where
  "parsed_items lv ids ns ts rest s \<longleftrightarrow> forest ns s \<and> (\<forall>c \<in> set ns. AstNode_kind c \<noteq> KList) \<and> parses lv ids ts rest ns"

lemma parsed_Nil: "ended rest ids \<Longrightarrow> parsed_items lv (keys_of ids) [] [] rest []"
  using parses_end [of rest "keys_of ids" lv] by (cases rest) (auto simp: parsed_items_def ended_def intersects_iff)

lemma flat_leaves: "\<forall>c \<in> set ns. AstNode_kind c \<noteq> KList \<Longrightarrow> concat (map ast_leaves ns) = ns"
  by (induction ns) (auto simp: ast_leaves_flat)

lemma flat_height: "AstNode_kind c \<noteq> KList \<Longrightarrow> AstNode_listHeight c = 0"
  by (cases c) auto

lemma parsed_concat:
  assumes "parsed_items lv ids ns ts rest s" "short s" "pa_oldNodeReader this = None"
  shows "\<exists>child. concat_items this ns = Inr child \<and> opt_leaves child = ns \<and> (child = None \<and> s = [] \<or> (\<exists>c. child = Some c \<and> spans c s))"
proof (cases "ns = []")
  case True
  with assms show ?thesis by (auto simp: concat_items_def concat23TreesOfSameHeight_def parsed_items_def)
next
  case False
  have "\<forall>c \<in> set ns. AstNode_listHeight c = 0" using assms(1) flat_height by (auto simp: parsed_items_def)
  from concat_same_height_forest [OF _ assms(2) this False, of "pa_createImmutableLists this"] assms flat_leaves [of ns] show ?thesis
    by (auto simp: concat_items_def parsed_items_def)
qed

text \<open>The pair that is made from an opening bracket.\<close>

lemma create_pair: "\<exists>l ids. PairAstNode_create ob c cl = PairAstNode l ob c cl ids"
  by (simp add: PairAstNode_create_def Let_def)

lemma opt_terminals: "(case c of None \<Rightarrow> [] | Some n \<Rightarrow> terminals n) = concat (map terminals (opt_leaves c))"
  using terminals_leaves by (cases c) auto

lemma create_pair_simps [simp]:
  "AstNode_kind (PairAstNode_create ob c cl) \<noteq> KList" "unclosed (PairAstNode_create ob c cl) \<longleftrightarrow> cl = None"
  "terminals (PairAstNode_create ob c cl) = terminals ob @ concat (map terminals (opt_leaves c)) @ (case cl of None \<Rightarrow> [] | Some n \<Rightarrow> terminals n)"
  unfolding opt_terminals [of c, symmetric] using create_pair [of ob c cl] by (cases cl; fastforce)+

lemma parses_create_pair:
  assumes "tk_kind t = TOpeningBracket" "\<not> lv > 300" "tk_astNode t = Some ob"
  shows "parses (Suc (Suc lv)) (ids \<union> keys_of (tk_bracketIds t)) ts1 (u # ts2 @ rest) (opt_leaves child) \<Longrightarrow> tk_kind u = TClosingBracket \<Longrightarrow>
      keys_of (tk_bracketIds u) \<inter> keys_of (tk_bracketIds t) \<noteq> {} \<Longrightarrow> tk_astNode u = Some cl \<Longrightarrow> parses lv ids ts2 rest ns \<Longrightarrow>
      parses lv ids (t # ts1 @ u # ts2) rest (PairAstNode_create ob child (Some cl) # ns)"
    and "parses (Suc (Suc lv)) (ids \<union> keys_of (tk_bracketIds t)) ts1 rest (opt_leaves child) \<Longrightarrow> rest = [] \<or> keys_of (tk_bracketIds (hd rest)) \<inter> keys_of (tk_bracketIds t) = {} \<Longrightarrow>
      parses lv ids (t # ts1) rest [PairAstNode_create ob child None]"
  using create_pair [of ob child "Some cl"] create_pair [of ob child None] parses_closed [OF assms, of ids ts1 u ts2 rest child cl ns] parses_unclosed [OF assms, of ids ts1 rest child] by auto

section \<open>Tokenizers\<close>

definition ready_for :: "('t \<Rightarrow> BracketToken list) \<Rightarrow> 't BracketParser \<Rightarrow> BracketToken list \<Rightarrow> bool" where
  "ready_for upcoming this ts \<longleftrightarrow> pa_oldNodeReader this = None \<and> upcoming (pa_tokenizer this) = ts"

text \<open>What the loop and \<^verbatim>\<open>parseChild\<close> return, for tokens and their texts.\<close>

definition loop_ok :: "('t \<Rightarrow> BracketToken list) \<Rightarrow> SmallImmutableSet \<Rightarrow> nat \<Rightarrow> BracketKind AstNode list \<Rightarrow> BracketToken list \<Rightarrow> js_string list
  \<Rightarrow> (BracketKind AstNode list \<times> 't BracketParser) result option \<Rightarrow> bool" where
  "loop_ok upcoming ids lv items ts ss r \<longleftrightarrow>
     (\<exists>new this2 ts1 ts2 ss1 ss2. r = Some (Inr (items @ new, this2)) \<and> ready_for upcoming this2 ts2 \<and> ts = ts1 @ ts2 \<and> ss = ss1 @ ss2 \<and> texts_of ss2 ts2 \<and>
        parsed_items lv (keys_of ids) new ts1 ts2 (concat ss1) \<and> ended ts2 ids)"

definition child_ok :: "('t \<Rightarrow> BracketToken list) \<Rightarrow> SmallImmutableSet \<Rightarrow> nat \<Rightarrow> BracketToken \<Rightarrow> BracketToken list \<Rightarrow> js_string \<Rightarrow> js_string list
  \<Rightarrow> (BracketKind AstNode \<times> 't BracketParser) result option \<Rightarrow> bool" where
  "child_ok upcoming ids lv t ts s ss r \<longleftrightarrow>
     (\<exists>c this2 ts1 ts2 ss1 ss2. r = Some (Inr (c, this2)) \<and> ready_for upcoming this2 ts2 \<and> ts = ts1 @ ts2 \<and> ss = ss1 @ ss2 \<and> texts_of ss2 ts2 \<and>
        spans c (s @ concat ss1) \<and> AstNode_kind c \<noteq> KList \<and>
        (if unclosed c then ended ts2 ids \<and> parses lv (keys_of ids) (t # ts1) ts2 [c]
         else \<forall>ts3 rest ns. ts2 = ts3 @ rest \<longrightarrow> parses lv (keys_of ids) ts3 rest ns \<longrightarrow> parses lv (keys_of ids) (t # ts1 @ ts3) rest (c # ns)))"

text \<open>A child that is one token.\<close>

lemma child_ok_single:
  assumes "ready_for upcoming this2 ts" "texts_of ss ts" "spans c s" "AstNode_kind c \<noteq> KList" "\<not> unclosed c"
    "\<And>ts3 rest ns. parses lv (keys_of ids) ts3 rest ns \<Longrightarrow> parses lv (keys_of ids) (t # ts3) rest (c # ns)"
  shows "child_ok upcoming ids lv t ts s ss (Some (Inr (c, this2)))"
  unfolding child_ok_def using assms
  by (intro exI [of _ c] exI [of _ this2] exI [of _ "[]"] exI [of _ ts] exI [of _ "[]"] exI [of _ ss]) simp

text \<open>What the parser relies on: the tokens that are still to come, which \<^verbatim>\<open>peek\<close> shows and \<^verbatim>\<open>read\<close> takes.\<close>

locale tokenizer_laws =
  fixes methods :: "'t Tokenizer" and upcoming :: "'t \<Rightarrow> BracketToken list"
  assumes peek_law: "fst (tz_peek methods t) = (case upcoming t of [] \<Rightarrow> None | x # _ \<Rightarrow> Some x) \<and> upcoming (snd (tz_peek methods t)) = upcoming t"
    and read_law: "upcoming t = x # xs \<Longrightarrow> fst (tz_read methods t) = Some x \<and> upcoming (snd (tz_read methods t)) = xs"
begin

lemma no_cache: "ready_for upcoming this ts \<Longrightarrow> tryReadChildFromCache methods ids this = Inr (None, this)"
  by (simp add: ready_for_def tryReadChildFromCache_def)

lemma peek_ready:
  assumes "ready_for upcoming this ts"
  obtains tokenizer where "tz_peek methods (pa_tokenizer this) = (case ts of [] \<Rightarrow> None | x # _ \<Rightarrow> Some x, tokenizer)" "ready_for upcoming (this\<lparr>pa_tokenizer := tokenizer\<rparr>) ts"
  using assms peek_law [of "pa_tokenizer this"] that [of "snd (tz_peek methods (pa_tokenizer this))"]
  by (cases "tz_peek methods (pa_tokenizer this)") (auto simp: ready_for_def)

lemma loop_ended:
  assumes "ready_for upcoming this ts" "ended ts ids"
  shows "\<exists>this2. list_loop (Suc n) methods ids level items this = Some (Inr (items, this2)) \<and> ready_for upcoming this2 ts"
proof -
  obtain tokenizer where "tz_peek methods (pa_tokenizer this) = (case ts of [] \<Rightarrow> None | x # _ \<Rightarrow> Some x, tokenizer)" "ready_for upcoming (this\<lparr>pa_tokenizer := tokenizer\<rparr>) ts"
    using peek_ready [OF assms(1)] .
  with assms no_cache [OF assms(1)] show ?thesis
    by (auto simp: run_bind_def ended_def Let_def split: list.splits)
qed

lemma loop_child:
  assumes "ready_for upcoming this ts" "\<not> ended ts ids"
  shows "\<exists>this2. ready_for upcoming this2 ts \<and> list_loop (Suc n) methods ids level items this =
    run_bind (parseChild n methods ids (level + 1) this2) (\<lambda>(child, this4).
      list_loop n methods ids level (if AstNode_kind child = KList \<and> AstNode_childrenLength child = 0 then items else items @ [child]) this4)"
proof -
  obtain tokenizer where "tz_peek methods (pa_tokenizer this) = (case ts of [] \<Rightarrow> None | x # _ \<Rightarrow> Some x, tokenizer)" "ready_for upcoming (this\<lparr>pa_tokenizer := tokenizer\<rparr>) ts"
    using peek_ready [OF assms(1)] .
  with assms no_cache [OF assms(1)] show ?thesis
    by (auto simp: run_bind_def ended_def Let_def split: list.splits)
qed

lemma child_single:
  assumes "ready_for upcoming this (t # ts)" "texts_of (s # ss) (t # ts)" "tk_kind t \<noteq> TOpeningBracket \<or> level > 300"
    "tk_kind t = TClosingBracket \<Longrightarrow> \<not> SmallImmutableSet_intersects (tk_bracketIds t) ids"
  shows "child_ok upcoming ids level t ts s ss (parseChild (Suc n) methods ids level this)"
proof -
  obtain tokenizer where r: "tz_read methods (pa_tokenizer this) = (Some t, tokenizer)" "upcoming tokenizer = ts"
    using read_law [of "pa_tokenizer this" t ts] assms(1) by (cases "tz_read methods (pa_tokenizer this)") (auto simp: ready_for_def)
  let ?this2 = "this\<lparr>pa_itemsConstructed := pa_itemsConstructed this + 1, pa_tokenizer := tokenizer\<rparr>"
  have rd: "ready_for upcoming ?this2 ts" using assms(1) r(2) by (simp add: ready_for_def)
  have tf: "token_for s (Some t)" "texts_of ss ts" "tk_length t = plen s" using assms(2) by (auto simp: token_for_def)
  show ?thesis
  proof (cases "tk_kind t")
    case TText
    then have "tk_astNode t = Some (TextAstNode (plen s))" using tf(1) by (auto simp: token_for_def)
    with TText r(1) show ?thesis
      using child_ok_single [OF rd tf(2), of "TextAstNode (plen s)" s level ids t] by (simp add: Let_def spans_text parses_text)
  next
    case TOpeningBracket
    with assms(3) r(1) show ?thesis
      using child_ok_single [OF rd tf(2), of "TextAstNode (plen s)" s level ids t] parses_deep [of t level] by (simp add: Let_def spans_text tf(3))
  next
    case TClosingBracket
    have "keys_of (tk_bracketIds t) \<inter> keys_of ids = {}" using assms(4) [OF TClosingBracket] by (simp add: intersects_iff)
    with TClosingBracket r(1) show ?thesis
      using child_ok_single [OF rd tf(2), of "InvalidBracketAstNode (tk_bracketIds t) (plen s)" s level ids t] parses_unexpected [of t "keys_of ids" level]
      by (simp add: Let_def spans_invalid tf(3))
  qed
qed

text \<open>The end of a pair, behind the list of its contents.\<close>

lemma close_pair_ok:
  assumes "ready_for upcoming this ts2" "texts_of ss2 ts2" "ended ts2 (SmallImmutableSet_merge ids (tk_bracketIds t))" "token_for s (Some t)" "tk_kind t = TOpeningBracket"
    "opt_leaves child = new" "child = None \<and> concat ss1 = [] \<or> (\<exists>c. child = Some c \<and> spans c (concat ss1))"
    "parsed_items (Suc (Suc level)) (keys_of (SmallImmutableSet_merge ids (tk_bracketIds t))) new ts1 ts2 (concat ss1)" "short (s @ concat ss1 @ concat ss2)" "\<not> level > 300"
  shows "child_ok upcoming ids level t (ts1 @ ts2) s (ss1 @ ss2) (Some (close_pair methods t child this))"
proof -
  obtain l1 k1 where ob: "tk_astNode t = Some (BracketAstNode l1 k1 (tk_bracketIds t))" "l1 = plen s" "tk_length t = plen s"
    and idt: "\<exists>i. tk_bracketId t = int i \<and> keys_of (tk_bracketIds t) = {i}"
    using assms(4,5) by (auto simp: token_for_def bracket_token_def)
  let ?ob = "BracketAstNode l1 k1 (tk_bracketIds t)"
  have so: "spans ?ob s" using ob(2) by (rule spans_bracket)
  obtain tokenizer where pk: "tz_peek methods (pa_tokenizer this) = (case ts2 of [] \<Rightarrow> None | x # _ \<Rightarrow> Some x, tokenizer)" "ready_for upcoming (this\<lparr>pa_tokenizer := tokenizer\<rparr>) ts2"
    using peek_ready [OF assms(1)] .
  have m: "parses (Suc (Suc level)) (keys_of ids \<union> keys_of (tk_bracketIds t)) ts1 ts2 (opt_leaves child)"
    using assms(6,8) by (simp add: parsed_items_def keys_of_merge)
  note pair = parses_create_pair [OF assms(5,10) ob(1), of "keys_of ids" ts1]
  have open1: "child_ok upcoming ids level t (ts1 @ ts2) s (ss1 @ ss2) (Some (Inr (PairAstNode_create ?ob child None, this\<lparr>pa_tokenizer := tokenizer\<rparr>)))"
    if "ended ts2 ids" "ts2 = [] \<or> keys_of (tk_bracketIds (hd ts2)) \<inter> keys_of (tk_bracketIds t) = {}"
  proof -
    have "spans (PairAstNode_create ?ob child None) (s @ concat ss1 @ [])"
      using create_pair_spans [OF so _ assms(7), of None "[]"] short_append [of "s @ concat ss1" "concat ss2"] assms(9) by simp
    then show ?thesis unfolding child_ok_def
      using pk(2) assms(2) that pair(2) [OF m that(2)]
      by (intro exI [of _ "PairAstNode_create ?ob child None"] exI [of _ "this\<lparr>pa_tokenizer := tokenizer\<rparr>"] exI [of _ ts1] exI [of _ ts2] exI [of _ ss1] exI [of _ ss2]) simp
  qed
  show ?thesis
  proof (cases ts2)
    case Nil
    with open1 pk(1) ob(1) show ?thesis by (simp add: close_pair_def ended_def)
  next
    case (Cons u ts3)
    show ?thesis
    proof (cases "tk_kind u = TClosingBracket \<and> (tk_bracketId u = tk_bracketId t \<or> SmallImmutableSet_intersects (tk_bracketIds u) (tk_bracketIds t))")
      case False
      then have "ended ts2 ids" "keys_of (tk_bracketIds u) \<inter> keys_of (tk_bracketIds t) = {}" using assms(3) Cons by (auto simp: ended_def intersects_iff keys_of_merge)
      with open1 pk(1) ob(1) Cons False show ?thesis by (auto simp: close_pair_def)
    next
      case True
      obtain v ss3 where v: "ss2 = v # ss3" "token_for v (Some u)" "texts_of ss3 ts3" using assms(2) Cons by (auto simp: list_all2_Cons2)
      obtain l2 k2 where cl: "tk_astNode u = Some (BracketAstNode l2 k2 (tk_bracketIds u))" "l2 = plen v"
        and idu: "\<exists>i. tk_bracketId u = int i \<and> i \<in> keys_of (tk_bracketIds u)"
        using v(2) True by (auto simp: token_for_def bracket_token_def)
      let ?cl = "BracketAstNode l2 k2 (tk_bracketIds u)"
      obtain tokenizer2 where r: "tz_read methods tokenizer = (Some u, tokenizer2)" "upcoming tokenizer2 = ts3"
        using read_law [of tokenizer u ts3] pk(2) Cons by (cases "tz_read methods tokenizer") (auto simp: ready_for_def)
      have "keys_of (tk_bracketIds u) \<inter> keys_of (tk_bracketIds t) \<noteq> {}" using True idt idu by (auto simp: intersects_iff)
      then have mc: "parses level (keys_of ids) (t # ts1 @ u # ts4) rest (PairAstNode_create ?ob child (Some ?cl) # ns)" if "parses level (keys_of ids) ts4 rest ns" "ts3 = ts4 @ rest" for ts4 rest ns
        using pair(1) [of u ts4 rest child ?cl ns] m that True cl(1) Cons by simp
      have sc: "spans ?cl v" using cl(2) by (rule spans_bracket)
      have "spans (PairAstNode_create ?ob child (Some ?cl)) (s @ concat ss1 @ v)"
        using create_pair_spans [OF so _ assms(7), of "Some ?cl" v] sc short_append [of "s @ concat ss1 @ v" "concat ss3"] assms(9) v(1) by simp
      then have "child_ok upcoming ids level t (ts1 @ ts2) s (ss1 @ ss2) (Some (Inr (PairAstNode_create ?ob child (Some ?cl), this\<lparr>pa_tokenizer := tokenizer2\<rparr>)))"
        unfolding child_ok_def using r(2) pk(2) v mc Cons
        by (intro exI [of _ "PairAstNode_create ?ob child (Some ?cl)"] exI [of _ "this\<lparr>pa_tokenizer := tokenizer2\<rparr>"] exI [of _ "ts1 @ [u]"] exI [of _ ts3] exI [of _ "ss1 @ [v]"] exI [of _ ss3])
          (simp add: ready_for_def)
      with pk(1) ob(1) Cons True r(1) cl(1) show ?thesis by (simp add: close_pair_def)
    qed
  qed
qed

lemma child_parses:
  assumes "ready_for upcoming this (t # ts)" "texts_of (s # ss) (t # ts)" "short (concat (s # ss))" "\<not> ended (t # ts) ids"
    and IH: "\<And>ids level this. ready_for upcoming this ts \<Longrightarrow> loop_ok upcoming ids (level + 1) [] ts ss (list_loop n methods ids level [] this)"
  shows "child_ok upcoming ids level t ts s ss (parseChild (Suc n) methods ids level this)"
proof (cases "tk_kind t \<noteq> TOpeningBracket \<or> level > 300")
  case True
  then show ?thesis using child_single [OF assms(1,2)] assms(4) by (auto simp: ended_def)
next
  case False
  obtain tokenizer where r: "tz_read methods (pa_tokenizer this) = (Some t, tokenizer)" "upcoming tokenizer = ts"
    using read_law [of "pa_tokenizer this" t ts] assms(1) by (cases "tz_read methods (pa_tokenizer this)") (auto simp: ready_for_def)
  let ?this2 = "this\<lparr>pa_itemsConstructed := pa_itemsConstructed this + 1, pa_tokenizer := tokenizer\<rparr>"
  let ?ids = "SmallImmutableSet_merge ids (tk_bracketIds t)"
  have "ready_for upcoming ?this2 ts" using assms(1) r(2) by (simp add: ready_for_def)
  from IH [OF this, of ?ids "level + 1"] obtain new this3 ts1 ts2 ss1 ss2
    where l: "list_loop n methods ?ids (level + 1) [] ?this2 = Some (Inr (new, this3))" "ready_for upcoming this3 ts2" "ts = ts1 @ ts2" "ss = ss1 @ ss2" "texts_of ss2 ts2"
      "parsed_items (Suc (Suc level)) (keys_of ?ids) new ts1 ts2 (concat ss1)" "ended ts2 ?ids" by (auto simp: loop_ok_def)
  have sh: "short (s @ concat ss1 @ concat ss2)" "short (concat ss1)"
    using assms(3) l(4) short_append [of s "concat ss1 @ concat ss2"] short_append [of "concat ss1" "concat ss2"] by auto
  have rn: "pa_oldNodeReader this3 = None" using l(2) by (simp add: ready_for_def)
  obtain child where c: "concat_items this3 new = Inr child" "opt_leaves child = new" "child = None \<and> concat ss1 = [] \<or> (\<exists>c. child = Some c \<and> spans c (concat ss1))"
    using parsed_concat [OF l(6) sh(2) rn] by metis
  have "child_ok upcoming ids level t (ts1 @ ts2) s (ss1 @ ss2) (Some (close_pair methods t child this3))"
    using close_pair_ok [OF l(2,5,7) _ _ c(2,3) l(6) sh(1)] assms(2) False by simp
  then show ?thesis
    using r(1) l(1,3,4) c(1) False by (simp add: Let_def parse_list_def run_bind_def)
qed

lemma loop_parses:
  assumes "ready_for upcoming this ts" "texts_of ss ts" "short (concat ss)" "2 * length ts < n"
  shows "loop_ok upcoming ids (level + 1) items ts ss (list_loop n methods ids level items this)"
  using assms
proof (induction "length ts" arbitrary: n ids level items this ts ss rule: less_induct)
  case less
  obtain n' where n: "n = Suc n'" using less.prems(4) by (cases n) auto
  show ?case
  proof (cases "ended ts ids")
    case True
    from loop_ended [OF less.prems(1) True] less.prems(2) True show ?thesis
      unfolding n loop_ok_def by (metis append.right_neutral append_Nil concat.simps(1) parsed_Nil [OF True])
  next
    case False
    then obtain t ts' where ts: "ts = t # ts'" by (cases ts) (auto simp: ended_def)
    then obtain s ss' where ss: "ss = s # ss'" using less.prems(2) by (auto simp: list_all2_Cons2)
    obtain n'' where n2: "n' = Suc n''" "2 * length ts' < n''" using less.prems(4) ts n by (cases n') auto
    obtain this2 where t2: "ready_for upcoming this2 ts" "list_loop n methods ids level items this =
      run_bind (parseChild n' methods ids (level + 1) this2) (\<lambda>(child, this4).
        list_loop n' methods ids level (if AstNode_kind child = KList \<and> AstNode_childrenLength child = 0 then items else items @ [child]) this4)"
      using loop_child [OF less.prems(1) False] unfolding n by blast
    have sh': "short (concat ss')" using less.prems(3) ss short_append [of s "concat ss'"] by simp
    have "child_ok upcoming ids (level + 1) t ts' s ss' (parseChild (Suc n'') methods ids (level + 1) this2)"
    proof (rule child_parses)
      show "loop_ok upcoming ids (level + 1) [] ts' ss' (list_loop n'' methods ids level [] this)" if "ready_for upcoming this ts'" for ids level this
        using less.hyps [of ts', OF _ that _ sh' n2(2)] less.prems(2) ts ss by simp
    qed (use t2(1) less.prems(2,3) ts ss False in simp_all)
    then obtain c this3 ts1 ts2 ss1 ss2 where c: "parseChild n' methods ids (level + 1) this2 = Some (Inr (c, this3))" "ready_for upcoming this3 ts2" "ts' = ts1 @ ts2" "ss' = ss1 @ ss2"
      "texts_of ss2 ts2" "spans c (s @ concat ss1)" "AstNode_kind c \<noteq> KList"
      "if unclosed c then ended ts2 ids \<and> parses (level + 1) (keys_of ids) (t # ts1) ts2 [c]
       else \<forall>ts3 rest ns. ts2 = ts3 @ rest \<longrightarrow> parses (level + 1) (keys_of ids) ts3 rest ns \<longrightarrow> parses (level + 1) (keys_of ids) (t # ts1 @ ts3) rest (c # ns)"
      unfolding n2(1) child_ok_def by blast
    have eq: "list_loop n methods ids level items this = list_loop n' methods ids level (items @ [c]) this3" using t2(2) c(1,7) by (simp add: run_bind_def)
    have sh2: "short (concat ss2)" using sh' c(4) short_append [of "concat ss1" "concat ss2"] by simp
    have "loop_ok upcoming ids (level + 1) (items @ [c]) ts2 ss2 (list_loop n' methods ids level (items @ [c]) this3)"
      using less.hyps [of ts2, OF _ c(2,5) sh2, of n'] ts c(3) n2 by simp
    then obtain new this4 ts3 ts4 ss3 ss4 where l: "list_loop n' methods ids level (items @ [c]) this3 = Some (Inr (items @ c # new, this4))" "ready_for upcoming this4 ts4"
      "ts2 = ts3 @ ts4" "ss2 = ss3 @ ss4" "texts_of ss4 ts4" "parsed_items (level + 1) (keys_of ids) new ts3 ts4 (concat ss3)" "ended ts4 ids" by (auto simp: loop_ok_def)
    have "parses (level + 1) (keys_of ids) (t # ts1 @ ts3) ts4 (c # new)"
    proof (cases "unclosed c")
      case True
      then obtain this5 where "list_loop n' methods ids level (items @ [c]) this3 = Some (Inr (items @ [c], this5))" "ready_for upcoming this5 ts2"
        using loop_ended [OF c(2), of ids n'' level "items @ [c]"] c(8) n2(1) by auto
      with l(1,2,3) have "new = []" "ts3 = []" by (auto simp: ready_for_def)
      with True c(8) l(3) show ?thesis by simp
    next
      case False
      with c(8) l(3,6) show ?thesis by (simp add: parsed_items_def)
    qed
    then have "parsed_items (level + 1) (keys_of ids) (c # new) (t # ts1 @ ts3) ts4 (s @ concat ss1 @ concat ss3)"
      using l(6) c(6,7) unfolding parsed_items_def by (auto intro: exI [of _ "s @ concat ss1"])
    then show ?thesis unfolding loop_ok_def eq
      using l ts ss c(3,4) by (intro exI [of _ "c # new"] exI [of _ this4] exI [of _ "t # ts1 @ ts3"] exI [of _ ts4] exI [of _ "s # ss1 @ ss3"] exI [of _ ss4]) simp
  qed
qed

lemma document_parses:
  assumes "upcoming tokenizer = ts" "texts_of ss ts" "short (concat ss)" "2 * length ts < n"
  shows "\<exists>root. parseDocument n methods tokenizer edits None im = Some (Inr root) \<and> parses 1 {} ts [] (ast_leaves root) \<and>
    (ts \<noteq> [] \<longrightarrow> spans root (concat ss)) \<and> (ts = [] \<longrightarrow> root = ListAstNode_getEmpty)"
proof -
  let ?p = "\<lparr>pa_tokenizer = tokenizer, pa_oldNodeReader = None, pa_positionMapper = new_BeforeEditPositionMapper edits,
    pa_createImmutableLists = im, pa_itemsConstructed = 0, pa_itemsFromCache = 0\<rparr>"
  have "ready_for upcoming ?p ts" using assms(1) by (simp add: ready_for_def)
  from loop_parses [OF this assms(2-4), of SmallImmutableSet_getEmpty 0 "[]"]
  obtain new this2 ts1 ts2 ss1 ss2 where l: "list_loop n methods SmallImmutableSet_getEmpty 0 [] ?p = Some (Inr (new, this2))" "ready_for upcoming this2 ts2" "ts = ts1 @ ts2"
    "ss = ss1 @ ss2" "texts_of ss2 ts2" "parsed_items 1 {} new ts1 ts2 (concat ss1)" "ended ts2 SmallImmutableSet_getEmpty" by (auto simp: loop_ok_def keys_of_empty)
  have e: "ts2 = []" using l(7) by (auto simp: ended_def intersects_iff keys_of_empty split: list.splits)
  then have ss: "ss1 = ss" "ts1 = ts" using l(3,4,5) by auto
  have rn: "pa_oldNodeReader this2 = None" using l(2) by (simp add: ready_for_def)
  obtain child where c: "concat_items this2 new = Inr child" "opt_leaves child = new" "child = None \<and> concat ss = [] \<or> (\<exists>c. child = Some c \<and> spans c (concat ss))"
    using parsed_concat [OF l(6) _ rn] assms(3) unfolding ss by metis
  let ?root = "case child of None \<Rightarrow> ListAstNode_getEmpty | Some t \<Rightarrow> t"
  have r: "parseDocument n methods tokenizer edits None im = Some (Inr ?root)"
    using l(1) c(1) by (simp add: parseDocument_def new_BracketParser_def Parser_parseDocument_def parseList_def parse_list_def run_bind_def)
  have lv: "ast_leaves ?root = new" using c(2) by (auto simp: ListAstNode_getEmpty_def split: option.splits)
  have ne: "ts = [] \<longleftrightarrow> concat ss = []"
    using assms(2) by (cases ts; cases ss) (auto simp: token_for_def)
  have none: "child = None \<longleftrightarrow> concat ss = []"
  proof
    assume "concat ss = []"
    then have "new = []" using l(6) ss ne parses_nothing [of 1 "{}" ts2 new] by (simp add: parsed_items_def)
    then show "child = None" using c(1) l(2) by (simp add: concat_items_def ready_for_def concat23TreesOfSameHeight_def)
  qed (use c(3) in auto)
  show ?thesis
    using r lv l(6) ss c(3) ne none e by (intro exI [of _ ?root]) (auto simp: parsed_items_def)
qed

end

section \<open>The fast tokenizer\<close>

definition ft_upcoming :: "FastTokenizer \<Rightarrow> BracketToken list" where
  "ft_upcoming z = map the (takeWhile (\<lambda>x. x \<noteq> None) (drop (ft_idx z) (ft_tokens z)))"

interpretation fast: tokenizer_laws FastTokenizer_methods ft_upcoming
proof
  fix z x xs
  show "fst (tz_peek FastTokenizer_methods z) = (case ft_upcoming z of [] \<Rightarrow> None | x # _ \<Rightarrow> Some x) \<and> ft_upcoming (snd (tz_peek FastTokenizer_methods z)) = ft_upcoming z"
    by (cases "drop (ft_idx z) (ft_tokens z)") (auto simp: FastTokenizer_methods_def FastTokenizer_peek_def ft_upcoming_def nth_via_drop dest: drop_ConsD)
  assume u: "ft_upcoming z = x # xs"
  then obtain ys where d: "drop (ft_idx z) (ft_tokens z) = Some x # ys" "xs = map the (takeWhile (\<lambda>x. x \<noteq> None) ys)"
    by (cases "drop (ft_idx z) (ft_tokens z)") (auto simp: ft_upcoming_def split: if_splits)
  from drop_ConsD [OF d(1)] d(2) show "fst (tz_read FastTokenizer_methods z) = Some x \<and> ft_upcoming (snd (tz_read FastTokenizer_methods z)) = xs"
    by (simp add: FastTokenizer_methods_def FastTokenizer_read_def ft_upcoming_def)
qed

lemma fast_upcoming:
  assumes "matches_from 0 ms s" "\<And>v t. getToken v = Some t \<Longrightarrow> bracket_token v t" "\<forall>(i, v) \<in> set ms. v \<noteq> [LF] \<longrightarrow> getToken v \<noteq> None"
  obtains ss where "texts_of ss (map the (ft_tokens (new_FastTokenizer s (Some ms) getToken)))" "concat ss = s"
    "ft_upcoming (new_FastTokenizer s (Some ms) getToken) = map the (ft_tokens (new_FastTokenizer s (Some ms) getToken))"
    "\<forall>m \<in> set ms. placed ss (ft_tokens (new_FastTokenizer s (Some ms) getToken)) getToken m"
proof -
  let ?z = "new_FastTokenizer s (Some ms) getToken"
  obtain ss where ss: "list_all2 token_for ss (ft_tokens ?z)" "concat ss = s" "\<forall>m \<in> set ms. placed ss (ft_tokens ?z) getToken m"
    using fast_tokens_cover [OF assms(1-3)] by blast
  have "\<forall>x \<in> set (ft_tokens ?z). x \<noteq> None" using ss(1) by (auto simp: list_all2_conv_all_nth in_set_conv_nth token_for_def) (metis option.distinct(1))
  then have u: "ft_upcoming ?z = map the (ft_tokens ?z)" "\<forall>x \<in> set (ft_tokens ?z). Some (the x) = x"
    by (simp_all add: ft_upcoming_def new_FastTokenizer_def Let_def takeWhile_eq_all_conv)
  have "texts_of ss (map the (ft_tokens ?z))"
    using ss(1) u(2) by (auto simp: list_all2_conv_all_nth)
  from that [OF this ss(2) u(1) ss(3)] show thesis .
qed

text \<open>C5: Parsing a text from scratch with the fast tokenizer and the bracket tokens of a language, for a text in which every match of the bracket expression has a token: \<^verbatim>\<open>parseDocument\<close> returns within
  two steps for each token and never throws.  The tokens are the bracket tokens of the matches, each at the offset of its match, and texts between them.  The tree covers the text, keeps all rules for trees, and is the one
  the grammar \<open>parses\<close> reads from the tokens: a closing bracket closes the innermost open pair it can close and is unexpected when it closes none of the open ones, a pair that is not closed ends before the
  bracket that closes a surrounding pair or at the end, and only inside of 150 pairs an opening bracket is taken for text.\<close>

theorem parseDocument_from_scratch:
  assumes "dkp_ok kp" "BracketTokens_createFromLanguage (new_LanguageBracketsConfiguration lang brackets colorized) kp = Inr (m, kp2)"
    "\<forall>v. toLowerCase v \<in> fst ` set m \<longrightarrow> length (toLowerCase v) = length v"
    "matches_from 0 ms s" "\<forall>(i, v) \<in> set ms. v \<noteq> [LF] \<longrightarrow> BracketTokens_getToken toLowerCase v m \<noteq> None"
    "short s" "s \<noteq> []" "z = new_FastTokenizer s (Some ms) (\<lambda>v. BracketTokens_getToken toLowerCase v m)" "2 * length (ft_tokens z) < n"
  shows "\<exists>root ss. parseDocument n FastTokenizer_methods z edits None im = Some (Inr root) \<and> spans root s \<and> parses 1 {} (map the (ft_tokens z)) [] (ast_leaves root) \<and>
    texts_of ss (map the (ft_tokens z)) \<and> concat ss = s \<and> (\<forall>x \<in> set ms. placed ss (ft_tokens z) (\<lambda>v. BracketTokens_getToken toLowerCase v m) x) \<and>
    filter (\<lambda>t. tk_kind t \<noteq> TText) (map the (ft_tokens z)) = map (\<lambda>(i, v). the (BracketTokens_getToken toLowerCase v m)) (filter (\<lambda>(i, v). v \<noteq> [LF]) ms)"
proof -
  have tok: "bracket_token v t" if "BracketTokens_getToken toLowerCase v m = Some t" for v t
  proof -
    have "toLowerCase v \<in> fst ` set m" using that by (force simp: BracketTokens_getToken_def dest: map_of_SomeD)
    with assms(3) show ?thesis using getToken_bracket [OF created_tokens_ok [OF assms(1,2)] that] by blast
  qed
  obtain ss where ss: "texts_of ss (map the (ft_tokens z))" "concat ss = s" "ft_upcoming z = map the (ft_tokens z)"
    "\<forall>x \<in> set ms. placed ss (ft_tokens z) (\<lambda>v. BracketTokens_getToken toLowerCase v m) x"
    using fast_upcoming [OF assms(4) tok assms(5)] unfolding assms(8) by blast
  have "ft_tokens z \<noteq> []" using ss(1,2) assms(7) by auto
  then obtain root where "parseDocument n FastTokenizer_methods z edits None im = Some (Inr root)" "parses 1 {} (map the (ft_tokens z)) [] (ast_leaves root)" "spans root s"
    using fast.document_parses [OF ss(3,1), of n edits im] ss(2) assms(6,9) by auto
  moreover note fast_brackets [OF tok assms(5), of s]
  ultimately show ?thesis using ss unfolding assms(8) by (intro exI [of _ root] exI [of _ ss] conjI)
qed

theorem parseDocument_from_scratch_witness:
  "\<exists>m kp2 z root. BracketTokens_createFromLanguage (new_LanguageBracketsConfiguration [] (Some [([40], [41])]) None) [] = Inr (m, kp2) \<and>
     z = new_FastTokenizer [97, LF, 40] (Some [(1, [LF]), (2, [40])]) (\<lambda>v. BracketTokens_getToken id v m) \<and>
     parseDocument 5 FastTokenizer_methods z [] None True = Some (Inr root) \<and> spans root [97, LF, 40] \<and> parses 1 {} (map the (ft_tokens z)) [] (ast_leaves root)"
proof -
  have "case BracketTokens_createFromLanguage (new_LanguageBracketsConfiguration [] (Some [([40], [41])]) None) [] of Inl _ \<Rightarrow> False | Inr (m, kp2) \<Rightarrow> BracketTokens_getToken id [40] m \<noteq> None"
    by code_simp
  then obtain m kp2 where m: "BracketTokens_createFromLanguage (new_LanguageBracketsConfiguration [] (Some [([40], [41])]) None) [] = Inr (m, kp2)" "BracketTokens_getToken id [40] m \<noteq> None"
    by (auto split: sum.splits)
  let ?z = "new_FastTokenizer [97, LF, 40] (Some [(1, [LF]), (2, [40])]) (\<lambda>v. BracketTokens_getToken id v m)"
  have d: "dkp_ok ([] :: js_string DenseKeyProvider)" by (simp add: dkp_ok_def)
  have f: "matches_from 0 [(1, [LF]), (2, [40])] [97, LF, 40]"
    using matches_line [of "[97]" 0 "[(2, [40])]" "[40]"] matches_bracket [of "[]" "[40]" 2 "[]" "[]"] matches_Nil by simp
  have t: "\<forall>(i, v) \<in> set [(1 :: int, [LF]), (2, [40])]. v \<noteq> [LF] \<longrightarrow> BracketTokens_getToken id v m \<noteq> None" using m(2) by simp
  have "short [97, LF, 40]" by (rule short_small) simp
  moreover have "2 * length (ft_tokens ?z) < 5" by (simp add: new_FastTokenizer_def fast_step_def Let_def)
  ultimately obtain root where "parseDocument 5 FastTokenizer_methods ?z [] None True = Some (Inr root)" "spans root [97, LF, 40]" "parses 1 {} (map the (ft_tokens ?z)) [] (ast_leaves root)"
    using parseDocument_from_scratch [OF d m(1) _ f t _ _ refl, of 5 "[]" True] by (auto simp: id_def)
  with m(1) show ?thesis by blast
qed

end
