(* ===== verification/Bracket_Reuse.thy ===== *)
theory Bracket_Reuse
  imports Bracket_Results
begin

text \<open>
  What makes it right to take nodes of an old tree for a text behind edits: where an offset of the new text comes from, what the position mapper answers while offsets only grow, and which
  nodes may stand at another place of a tree.
\<close>

section \<open>Where an offset comes from\<close>

text \<open>Behind a part \<open>z\<close> of the new text, edits are either done or to come, or \<open>z\<close> ends inside the new text of an edit.\<close>

definition between_edits :: "js_string \<Rightarrow> TextEditInfo list \<Rightarrow> js_string \<Rightarrow> js_string \<Rightarrow> js_string \<Rightarrow> bool" where
  "between_edits p es s z v \<longleftrightarrow>
     (\<exists>f r a b. es = f @ r \<and> s = a @ b \<and> describes_from p f a z \<and> describes_from (p @ a) r b v \<and>
        (r = [] \<or> startOffset (hd r) \<noteq> plen (p @ a) \<or> newLength (hd r) \<noteq> lengthZero))"

definition inside_edit :: "js_string \<Rightarrow> TextEditInfo list \<Rightarrow> js_string \<Rightarrow> js_string \<Rightarrow> js_string \<Rightarrow> bool" where
  "inside_edit p es s z v \<longleftrightarrow>
     (\<exists>f r a b d x n1 n2 z0 v0 e. es = f @ e # r \<and> s = a @ x @ d @ b \<and> z = z0 @ x @ n1 \<and> v = n2 @ v0 \<and> describes_from p f a z0 \<and>
        e = new_TextEditInfo (plen (p @ a @ x)) (plen (p @ a @ x @ d)) (plen (n1 @ n2)) \<and> n1 \<noteq> [] \<and> n2 \<noteq> [])"

lemma between_editsI:
  "describes_from p f a z \<Longrightarrow> describes_from (p @ a) r b v \<Longrightarrow> r = [] \<or> startOffset (hd r) \<noteq> plen (p @ a) \<or> newLength (hd r) \<noteq> lengthZero \<Longrightarrow>
   between_edits p (f @ r) (a @ b) z v"
  unfolding between_edits_def by blast

lemma inside_editI:
  "describes_from p f a z0 \<Longrightarrow> e = new_TextEditInfo (plen (p @ a @ x)) (plen (p @ a @ x @ d)) (plen (n1 @ n2)) \<Longrightarrow> n1 \<noteq> [] \<Longrightarrow> n2 \<noteq> [] \<Longrightarrow>
   inside_edit p (f @ e # r) (a @ x @ d @ b) (z0 @ x @ n1) (n2 @ v0)"
  unfolding inside_edit_def by blast

lemma split_edits:
  assumes "describes_from p es s (z @ v)" "short (p @ s)" "short (z @ v)"
  shows "between_edits p es s z v \<or> inside_edit p es s z v"
  using assms
proof (induction p es s "z @ v" arbitrary: z v rule: describes_from.induct)
  case (describes_Nil p)
  then show ?case using between_editsI [OF describes_from.describes_Nil [of p z] describes_from.describes_Nil [of "p @ z" v]] by simp
next
  case (describes_Cons p u d es s t e n)
  have sh: "short (p @ u)" "short n" "short t" "short u"
    using describes_Cons.prems(2) short_append [of "p @ u" "d @ s"] short_append [of u "n @ t"] short_append [of n t] describes_Cons.prems(1)
    unfolding describes_Cons(4) [symmetric] by simp_all
  consider (past) z' where "z = u @ n @ z'" "t = z' @ v" | (before) u' where "u = z @ u'" "v = u' @ n @ t" "u' @ n \<noteq> []"
    | (inside) n1 n2 where "z = u @ n1" "n = n1 @ n2" "v = n2 @ t" "n1 \<noteq> []" "n2 \<noteq> []"
  proof -
    have "u @ n @ t = z @ v" by (rule describes_Cons(4))
    then consider x where "u = z @ x" "v = x @ n @ t" | x where "z = u @ x" "n @ t = x @ v" by (auto simp: append_eq_append_conv2)
    then show ?thesis
    proof cases
      case 1
      then show ?thesis using before [of x] past [of "[]"] by (cases "x @ n = []") auto
    next
      case 2
      then consider w where "n = x @ w" "v = w @ t" | w where "x = n @ w" "t = w @ v" by (auto simp: append_eq_append_conv2)
      then show ?thesis
      proof cases
        case a: 1
        then show ?thesis using 2(1) before [of "[]"] past [of "[]"] inside [of x w] by (cases "x = []"; cases "w = []") auto
      next
        case b: 2
        then show ?thesis using 2(1) past [of w] by simp
      qed
    qed
  qed
  then show ?case
  proof cases
    case past
    have "between_edits (p @ u @ d) es s z' v \<or> inside_edit (p @ u @ d) es s z' v"
      using describes_Cons.hyps(2) [OF past(2)] describes_Cons.prems past short_append [of "u @ n" "z' @ v"] by simp
    then show ?thesis
    proof
      assume "between_edits (p @ u @ d) es s z' v"
      then obtain f r a b where *: "es = f @ r" "s = a @ b" "describes_from (p @ u @ d) f a z'" "describes_from (p @ u @ d @ a) r b v"
        "r = [] \<or> startOffset (hd r) \<noteq> plen (p @ u @ d @ a) \<or> newLength (hd r) \<noteq> lengthZero" unfolding between_edits_def by auto
      have "describes_from p (e # f) (u @ d @ a) (u @ n @ z')" using *(3) describes_Cons(3) by (rule describes_from.describes_Cons)
      from between_editsI [OF this, of r b v] * past(1) show ?thesis by simp
    next
      assume "inside_edit (p @ u @ d) es s z' v"
      then obtain f r a b d' x n1 n2 z0 v0 e' where *: "es = f @ e' # r" "s = a @ x @ d' @ b" "z' = z0 @ x @ n1" "v = n2 @ v0" "describes_from (p @ u @ d) f a z0"
        "e' = new_TextEditInfo (plen (p @ u @ d @ a @ x)) (plen (p @ u @ d @ a @ x @ d')) (plen (n1 @ n2))" "n1 \<noteq> []" "n2 \<noteq> []" unfolding inside_edit_def by auto
      have "describes_from p (e # f) (u @ d @ a) (u @ n @ z0)" using *(5) describes_Cons(3) by (rule describes_from.describes_Cons)
      from inside_editI [OF this, where e = e' and x = x and d = d' and ?n1.0 = n1 and ?n2.0 = n2 and r = r and b = b and ?v0.0 = v0] * past(1) show ?thesis by simp
    qed
  next
    case before
    have d: "describes_from (p @ z) (e # es) (u' @ d @ s) (u' @ n @ t)"
      using describes_from.describes_Cons [of "p @ z" u' d es s t e n] describes_Cons(1,3) before(1) by simp
    have "startOffset e \<noteq> plen (p @ z) \<or> newLength e \<noteq> lengthZero"
    proof (cases "u' = []")
      case True
      with before(3) sh(2) show ?thesis by (simp add: describes_Cons(3) new_TextEditInfo_def lengthZero_def plen_zero_iff)
    next
      case False
      have "short (p @ z)" "short u'" using sh(1) before(1) short_append [of "p @ z" u'] by auto
      with False plen_append_eq [of "p @ z" u'] show ?thesis by (simp add: describes_Cons(3) new_TextEditInfo_def before(1))
    qed
    with between_editsI [OF describes_from.describes_Nil d] before show ?thesis by simp
  next
    case inside
    then show ?thesis using inside_editI [where p = p and f = "[]" and a = "[]" and ?z0.0 = "[]" and e = e and x = u and d = d and ?n1.0 = n1 and ?n2.0 = n2 and r = es and b = s and ?v0.0 = t] describes_Cons(3) describes_from.describes_Nil [of p "[]"]
      by simp
  qed
qed

lemma describes_prefix: "describes_from (p @ x) es s t \<Longrightarrow> describes_from p es (x @ s) (x @ t)"
proof (induction "p @ x" es s t rule: describes_from.induct)
  case (describes_Cons u d es s t e n)
  then show ?case using describes_from.describes_Cons [of p "x @ u" d es s t e n] by simp
qed (rule describes_Nil)

lemma describes_compose: "describes_from p es s t \<Longrightarrow> describes_from (p @ s) fs s2 t2 \<Longrightarrow> describes_from p (es @ fs) (s @ s2) (t @ t2)"
proof (induction rule: describes_from.induct)
  case (describes_Cons p u d es s t e n)
  then have "describes_from (p @ u @ d) (es @ fs) (s @ s2) (t @ t2)" by simp
  from describes_from.describes_Cons [OF this describes_Cons(2)] show ?case by simp
qed (simp add: describes_prefix)

text \<open>A mapper that was asked for offsets in \<open>u\<close>.\<close>

definition asked_upto :: "TextEditInfo list \<Rightarrow> js_string \<Rightarrow> BeforeEditPositionMapper \<Rightarrow> bool" where
  "asked_upto es u m \<longleftrightarrow> (\<exists>asked. m = fold adjustNextEdit asked (new_BeforeEditPositionMapper es) \<and> (\<forall>x \<in> set asked. x \<le> plen u))"

lemma asked_new: "asked_upto es u (new_BeforeEditPositionMapper es)"
  unfolding asked_upto_def by (intro exI [of _ "[]"]) simp

lemma asked_adjust: "asked_upto es u m \<Longrightarrow> asked_upto es u (adjustNextEdit (plen u) m)"
proof -
  assume "asked_upto es u m"
  then obtain asked where "m = fold adjustNextEdit asked (new_BeforeEditPositionMapper es)" "\<forall>x \<in> set asked. x \<le> plen u" by (auto simp: asked_upto_def)
  then show ?thesis unfolding asked_upto_def by (intro exI [of _ "asked @ [plen u]"]) simp
qed

lemma asked_more: "asked_upto es u m \<Longrightarrow> short (u @ v) \<Longrightarrow> asked_upto es (u @ v) m"
  using short_append [of u v] plen_le_append [of u v] unfolding asked_upto_def by (metis order_trans)

lemma adjust_asked: "asked_upto es u m \<Longrightarrow> adjustNextEdit (plen u) m = adjustNextEdit (plen u) (new_BeforeEditPositionMapper es)"
  by (auto simp: asked_upto_def adjust_after_all)

lemma mapper_state: "snd (getDistanceToNextChange off m) = adjustNextEdit off m" "snd (getOffsetBeforeChange off m) = adjustNextEdit off m"
  "adjustNextEdit off (adjustNextEdit off m) = adjustNextEdit off m" "getOffsetBeforeChange off (adjustNextEdit off m) = getOffsetBeforeChange off m"
  by (simp_all add: getDistanceToNextChange_def getOffsetBeforeChange_def Let_def adjust_after)

lemma inside_distance:
  assumes "inside_edit [] es s u v" "short s" "short (u @ v)" "asked_upto es u m"
  shows "fst (getDistanceToNextChange (plen u) m) = Some lengthZero"
proof -
  obtain f r a b d x n1 n2 z0 v0 e where i: "es = f @ e # r" "s = a @ x @ d @ b" "u = z0 @ x @ n1" "v = n2 @ v0" "describes_from [] f a z0"
    "e = new_TextEditInfo (plen (a @ x)) (plen (a @ x @ d)) (plen (n1 @ n2))" "n1 \<noteq> []" "n2 \<noteq> []"
    using assms(1) unfolding inside_edit_def by auto
  have sh: "short (a @ x)" "short d" "short (n1 @ n2)" "short z0" "short a" "short (z0 @ x)" "short n1" "short (x @ n1)" "short u" "short n2"
    using assms(2,3) i(2,3,4) short_append [of a "x @ d @ b"] short_append [of "a @ x" "d @ b"] short_append [of d b] short_append [of z0 "x @ n1 @ n2 @ v0"] short_append [of "z0 @ x" "n1 @ n2 @ v0"]
      short_append [of "n1 @ n2" v0] short_append [of n1 n2] short_append [of "x @ n1" "n2 @ v0"] short_append [of u v] by auto
  have le: "plen z0 \<le> plen u" using plen_le_append [OF sh(4,8)] i(3) by simp
  let ?n = "new_BeforeEditPositionMapper es"
  obtain m' s0 t0 w where m': "a = s0 @ w" "z0 = t0 @ w" "skipped m' s0 t0" "adjustNextEdit (plen u) ?n = adjustNextEdit (plen u) m'"
    "drop (nextEditIdx m') (bm_edits m') = map TextEditInfoCache_from (e # r)"
    using adjust_skips [OF i(5) skipped_new, of es "e # r" "plen u"] i(1) sh(4,5) le by (auto simp: new_BeforeEditPositionMapper_def)
  have nth: "nextEditIdx m' < length (bm_edits m')" "bm_edits m' ! nextEditIdx m' = TextEditInfoCache_from e"
    using drop_ConsD [OF m'(5) [simplified]] by simp_all
  have c: "endOffsetAfterObj (TextEditInfoCache_from e) = tlen (a @ x @ n1 @ n2)" "offsetObj (TextEditInfoCache_from e) = tlen (a @ x)"
    using cache_eq [of e a x d "n1 @ n2"] i(6) sh(1,2,3) by simp_all
  have t: "translateOldToCur m' (tlen (a @ x @ n1 @ n2)) = plen (u @ n2)" "translateOldToCur m' (tlen (a @ x)) = plen (z0 @ x)"
    using old_to_cur [OF m'(3), of "w @ x @ n1 @ n2"] old_to_cur [OF m'(3), of "w @ x"] m'(1,2) i(3) by simp_all
  have "plen u \<le> plen (u @ n2)" "plen (u @ n2) \<noteq> plen u" using plen_le_append [OF sh(9,10)] plen_append_eq [OF sh(9,10)] i(8) by simp_all
  then have "adjustNextEdit (plen u) m' = m'" using nth c t by (subst adjustNextEdit.simps) (simp add: lengthLessThanEqual_def)
  then have "adjustNextEdit (plen u) m = m'" using adjust_asked [OF assms(4)] m'(4) by simp
  moreover have "lengthDiffNonNegative (plen u) (plen (z0 @ x)) = 0" using plen_diff_prefix [OF sh(6,7)] i(3) by simp
  ultimately show ?thesis using nth c t by (simp add: getDistanceToNextChange_def Let_def js_at_def lengthZero_def)
qed

text \<open>\<open>anchored es s u v old\<close>: the edits change \<open>s\<close> into \<open>u @ v\<close>, and offsets of \<open>s\<close> up to \<open>old\<close> belong to a part that ends in \<open>u\<close>.\<close>

definition anchored :: "TextEditInfo list \<Rightarrow> js_string \<Rightarrow> js_string \<Rightarrow> js_string \<Rightarrow> Length \<Rightarrow> bool" where
  "anchored es s u v old \<longleftrightarrow>
     (\<exists>first rest s1 s2 u0 z. es = first @ rest \<and> s = s1 @ s2 \<and> u = u0 @ z \<and> describes_from [] first s1 u0 \<and> describes_from s1 rest s2 (z @ v) \<and> old \<le> plen s1)"

lemma anchored_start: "describes es s v \<Longrightarrow> anchored es s [] v lengthZero"
  unfolding anchored_def describes_def
  by (intro exI [of _ "[]"] exI [of _ es] exI [of _ s]) (auto simp: lengthZero_def intro: describes_Nil)

lemma anchored_advance: "anchored es s u (v @ w) old \<Longrightarrow> anchored es s (u @ v) w old"
  unfolding anchored_def by (metis append.assoc)

lemma anchored_edits:
  assumes "anchored es s u v old" "short s" "short (u @ v)"
  shows "inside_edit [] es s u v \<or> (\<exists>f r a b. es = f @ r \<and> s = a @ b \<and> describes f a u \<and> describes_from a r b v \<and>
    (r = [] \<or> startOffset (hd r) \<noteq> plen a \<or> newLength (hd r) \<noteq> lengthZero) \<and> old \<le> plen a)"
proof -
  obtain first rest s1 s2 u0 z where a: "es = first @ rest" "s = s1 @ s2" "u = u0 @ z" "describes_from [] first s1 u0" "describes_from s1 rest s2 (z @ v)" "old \<le> plen s1"
    using assms(1) by (auto simp: anchored_def)
  have sh: "short (s1 @ s2)" "short (z @ v)" using assms(2,3) a(2,3) short_append [of u0 "z @ v"] by simp_all
  from split_edits [OF a(5) sh] show ?thesis
  proof
    assume "inside_edit s1 rest s2 z v"
    then obtain f r p b d x n1 n2 z0 v0 e where i: "rest = f @ e # r" "s2 = p @ x @ d @ b" "z = z0 @ x @ n1" "v = n2 @ v0" "describes_from s1 f p z0"
      "e = new_TextEditInfo (plen (s1 @ p @ x)) (plen (s1 @ p @ x @ d)) (plen (n1 @ n2))" "n1 \<noteq> []" "n2 \<noteq> []" unfolding inside_edit_def by auto
    have "describes_from [] (first @ f) (s1 @ p) (u0 @ z0)" using describes_compose [OF a(4)] i(5) by simp
    from inside_editI [OF this, where e = e and x = x and d = d and ?n1.0 = n1 and ?n2.0 = n2 and r = r and b = b and ?v0.0 = v0] show ?thesis
      using a i by simp
  next
    assume "between_edits s1 rest s2 z v"
    then obtain f r p b where i: "rest = f @ r" "s2 = p @ b" "describes_from s1 f p z" "describes_from (s1 @ p) r b v"
      "r = [] \<or> startOffset (hd r) \<noteq> plen (s1 @ p) \<or> newLength (hd r) \<noteq> lengthZero" unfolding between_edits_def by auto
    have "short s1" "short p" using sh(1) i(2) short_append [of s1 "p @ b"] short_append [of p b] by auto
    then have "old \<le> plen (s1 @ p)" using a(6) plen_le_append [of s1 p] by simp
    moreover have "describes_from [] (first @ f) (s1 @ p) (u0 @ z)" using describes_compose [OF a(4)] i(3) by simp
    ultimately show ?thesis using a i
      by (intro disjI2 exI [of _ "first @ f"] exI [of _ r] exI [of _ "s1 @ p"] exI [of _ b]) (simp add: describes_def)
  qed
qed

lemma mapper_step:
  assumes "anchored es s u v old" "short s" "short (u @ v)" "asked_upto es u m"
  shows "fst (getDistanceToNextChange (plen u) m) = Some lengthZero \<or>
    (\<exists>s1 s2. s = s1 @ s2 \<and> fst (getOffsetBeforeChange (plen u) m) = plen s1 \<and> old \<le> plen s1 \<and> anchored es s u v (plen s1) \<and>
       (fst (getDistanceToNextChange (plen u) m) = None \<and> s2 = v \<or>
        (\<exists>x a b. fst (getDistanceToNextChange (plen u) m) = Some (plen x) \<and> s2 = x @ a \<and> v = x @ b)))"
  using anchored_edits [OF assms(1-3)]
proof
  assume "inside_edit [] es s u v"
  from inside_distance [OF this assms(2-4)] show ?thesis ..
next
  assume "\<exists>f r a b. es = f @ r \<and> s = a @ b \<and> describes f a u \<and> describes_from a r b v \<and> (r = [] \<or> startOffset (hd r) \<noteq> plen a \<or> newLength (hd r) \<noteq> lengthZero) \<and> old \<le> plen a"
  then obtain f r a b where e: "es = f @ r" "s = a @ b" "describes f a u" "describes_from a r b v" "r = [] \<or> startOffset (hd r) \<noteq> plen a \<or> newLength (hd r) \<noteq> lengthZero" "old \<le> plen a"
    by blast
  obtain asked where m: "m = fold adjustNextEdit asked (new_BeforeEditPositionMapper es)" "\<forall>x \<in> set asked. x \<le> plen u" using assms(4) by (auto simp: asked_upto_def)
  have o: "fst (getOffsetBeforeChange (plen u) m) = plen a"
    "fst (getDistanceToNextChange (plen u) m) = (if r = [] then None else Some (lengthDiffNonNegative (plen a) (startOffset (hd r))))"
    using mapper_old_offsets [OF e(3,4) _ assms(3) e(5) m(2)] assms(2) e(1,2) m(1) by (simp_all add: Let_def)
  have an: "anchored es s u v (plen a)" unfolding anchored_def using e(1-4)
    by (intro exI [of _ f] exI [of _ r] exI [of _ a] exI [of _ b] exI [of _ u] exI [of _ "[]"]) (simp add: describes_def)
  have "(r = [] \<and> b = v) \<or> (\<exists>x c d. r \<noteq> [] \<and> startOffset (hd r) = plen (a @ x) \<and> b = x @ c \<and> v = x @ d)"
    using e(4) by cases (auto simp: new_TextEditInfo_def)
  then show ?thesis
  proof
    assume "r = [] \<and> b = v"
    with o an e show ?thesis by auto
  next
    assume "\<exists>x c d. r \<noteq> [] \<and> startOffset (hd r) = plen (a @ x) \<and> b = x @ c \<and> v = x @ d"
    then obtain x c d where x: "r \<noteq> []" "startOffset (hd r) = plen (a @ x)" "b = x @ c" "v = x @ d" by blast
    have "short a" "short x" using assms(2) e(2) x(3) short_append [of a "x @ c"] short_append [of x c] by auto
    then have "lengthDiffNonNegative (plen a) (plen (a @ x)) = plen x" by (rule plen_diff)
    with o an e x show ?thesis by auto
  qed
qed

section \<open>Nodes that can be reused\<close>

text \<open>\<open>sound ids n\<close>: a node inside of open brackets with the ids \<open>ids\<close>: an unexpected closing bracket closes none of the brackets around it, a pair that is closed ends with a bracket
  for its opening bracket, and no text is empty.\<close>

inductive sound :: "nat set \<Rightarrow> 'k AstNode \<Rightarrow> bool" where
  sound_text: "l \<noteq> 0 \<Longrightarrow> sound ids (TextAstNode l)"
| sound_invalid: "l \<noteq> 0 \<Longrightarrow> keys_of cids \<inter> ids = {} \<Longrightarrow> sound ids (InvalidBracketAstNode cids l)"
| sound_pair: "l1 \<noteq> 0 \<Longrightarrow> (\<And>c. c \<in> set (opt_leaves child) \<Longrightarrow> sound (ids \<union> keys_of oids) c) \<Longrightarrow>
    closing = None \<or> (\<exists>l2 k2 cids. closing = Some (BracketAstNode l2 k2 cids) \<and> keys_of cids \<inter> keys_of oids \<noteq> {}) \<Longrightarrow>
    sound ids (PairAstNode l (BracketAstNode l1 k1 oids) child closing mids)"

inductive_cases sound_pairE: "sound ids (PairAstNode l ob child closing mids)"

abbreviation sound_leaves :: "nat set \<Rightarrow> 'k AstNode \<Rightarrow> bool" where
  "sound_leaves ids n \<equiv> (\<forall>c \<in> set (ast_leaves n). sound ids c)"

lemma token_lengths: "texts_of ss ts \<Longrightarrow> short (concat ss) \<Longrightarrow> \<forall>t \<in> set ts. tk_length t \<noteq> 0 \<and> (\<exists>s. token_for s (Some t))"
proof (induction rule: list_all2_induct)
  case (Cons x xs t ts)
  have sh: "short x" "short (concat xs)" using Cons.prems short_append [of x "concat xs"] by auto
  have "tk_length t \<noteq> 0" using Cons.hyps(1) plen_zero_iff [OF sh(1)] by (auto simp: token_for_def)
  with Cons.IH [OF sh(2)] Cons.hyps(1) show ?case by auto
qed simp

lemma parses_sound: "parses lv ids ts rest ns \<Longrightarrow> \<forall>t \<in> set ts. tk_length t \<noteq> 0 \<and> (\<exists>s. token_for s (Some t)) \<Longrightarrow> \<forall>c \<in> set ns. sound ids c"
proof (induction rule: parses.induct)
  case (parses_text t n lv ids ts rest ns)
  then have "sound ids n" using sound_text [of "tk_length t" ids] by (auto simp: token_for_def)
  with parses_text show ?case by simp
next
  case (parses_closed t lv ob ids ts1 u ts2 rest child cl ns l mids)
  obtain k1 k2 where o: "ob = BracketAstNode (tk_length t) k1 (tk_bracketIds t)" "cl = BracketAstNode (tk_length u) k2 (tk_bracketIds u)"
    using parses_closed.hyps(1,3,5,7) parses_closed.prems by (auto simp: token_for_def bracket_token_def)
  have "sound ids (PairAstNode l ob child (Some cl) mids)"
    unfolding o by (rule sound_pair) (use parses_closed in auto)
  with parses_closed show ?case by simp
next
  case (parses_unclosed t lv ob ids ts1 rest child l mids)
  obtain k1 where o: "ob = BracketAstNode (tk_length t) k1 (tk_bracketIds t)"
    using parses_unclosed.hyps(1,3) parses_unclosed.prems by (auto simp: token_for_def bracket_token_def)
  have "sound ids (PairAstNode l ob child None mids)"
    unfolding o by (rule sound_pair) (use parses_unclosed in auto)
  then show ?case by simp
qed (auto intro: sound_text sound_invalid)

lemma spans_leaf: "spans n s \<Longrightarrow> c \<in> set (ast_leaves n) \<Longrightarrow> (\<exists>v. spans c v) \<and> missing c \<subseteq> missing n"
proof (induction rule: spans.induct)
  case (spans_pair ob s1 child s2 ids closing s3 l)
  have "spans (PairAstNode l ob child closing ids) (s1 @ s2 @ s3)" by (rule spans.spans_pair) (use spans_pair in blast)+
  with spans_pair.prems show ?case by auto
qed (auto intro: spans.intros)

lemma spans_child: "spans (PairAstNode l ob (Some c) cl ids) s \<Longrightarrow> (\<exists>v. spans c v) \<and> keys_of ids = missing c"
  by (erule spans_pairE) auto

text \<open>What is missing in a sound node opens none of the brackets around it, so the node is sound wherever nothing that is missing is open.\<close>

lemma missing_leaves: "spans n s \<Longrightarrow> missing n = (\<Union>c \<in> set (ast_leaves n). missing c)"
  by (induction rule: spans.induct) auto

lemma sound_missing: "sound ids n \<Longrightarrow> spans n s \<Longrightarrow> missing n \<inter> ids = {}"
proof (induction arbitrary: s rule: sound.induct)
  case (sound_pair l1 child ids oids closing l k1 mids)
  show ?case
  proof (cases child)
    case None
    with sound_pair.prems show ?thesis by (auto elim: spans_pairE)
  next
    case (Some d)
    obtain v where v: "spans d v" "keys_of mids = missing d" using spans_child sound_pair.prems unfolding Some by blast
    have "missing c \<inter> (ids \<union> keys_of oids) = {}" if "c \<in> set (ast_leaves d)" for c
      using sound_pair.IH [of c] that spans_leaf [OF v(1) that] Some by auto
    with v show ?thesis by (auto simp: missing_leaves [OF v(1)])
  qed
qed (auto simp: keys_of_empty)

lemma sound_elsewhere: "sound ids n \<Longrightarrow> spans n s \<Longrightarrow> missing n \<inter> ids2 = {} \<Longrightarrow> sound ids2 n"
proof (induction arbitrary: s ids2 rule: sound.induct)
  case (sound_pair l1 child ids oids closing l k1 mids)
  show ?case
  proof (rule sound.sound_pair)
    fix c assume c: "c \<in> set (opt_leaves child)"
    then obtain d where d: "child = Some d" "c \<in> set (ast_leaves d)" by (cases child) auto
    obtain v where v: "spans d v" "keys_of mids = missing d" using spans_child sound_pair.prems(1) unfolding d(1) by blast
    obtain w where w: "spans c w" "missing c \<subseteq> missing d" using spans_leaf [OF v(1) d(2)] by blast
    have "missing c \<inter> (ids \<union> keys_of oids) = {}" using sound_missing [OF sound_pair.hyps(2) [OF c] w(1)] .
    moreover have "missing d \<inter> ids2 = {}" using v(2) sound_pair.prems(2) by simp
    ultimately have "missing c \<inter> (ids2 \<union> keys_of oids) = {}" using w(2) by blast
    then show "sound (ids2 \<union> keys_of oids) c" by (rule sound_pair.IH [OF c w(1)])
  qed (use sound_pair.hyps in auto)
qed (auto intro: sound.intros)

lemma sound_nonempty:
  assumes "spans n v" "sound_leaves ids n" "short v"
  shows "v \<noteq> []"
  using assms
proof (induction rule: spans.induct)
  case (spans_pair ob s1 child s2 ids' closing s3 l)
  then have "AstNode_length ob \<noteq> 0" by (auto elim!: sound_pairE)
  with spans_length [OF spans_pair(1)] show ?case by auto
qed (auto elim: sound.cases dest: short_append)

lemma last_leaf_leaves: "spans n s \<Longrightarrow> last_leaf n = Inr (last (ast_leaves n)) \<and> ast_leaves n \<noteq> []"
  by (induction rule: spans.induct) auto

definition tree_for :: "'k AstNode \<Rightarrow> js_string \<Rightarrow> bool" where
  "tree_for root s \<longleftrightarrow> sound_leaves {} root \<and> (spans root s \<or> s = [] \<and> root = ListAstNode_getEmpty)"

lemma empty_chain: "chain ListAstNode_getEmpty n off ps \<Longrightarrow> n = ListAstNode_getEmpty"
proof (induction ps arbitrary: n off)
  case (Cons a ps)
  obtain p poff i where "a = (p, poff, i)" by (cases a)
  with Cons have "i < length (slots p)" "p = ListAstNode_getEmpty" by auto
  then show ?case by (simp add: ListAstNode_getEmpty_def)
qed simp

lemma node_at_tree:
  assumes "tree_for root s" "short s" "chain root n off ps"
  shows "n = ListAstNode_getEmpty \<or> (\<exists>u v w. s = u @ v @ w \<and> off = plen u \<and> spans n v)"
  using chain_spans [OF assms(3) _ assms(2)] empty_chain [of n off ps] assms by (auto simp: tree_for_def)

lemma chain_sound:
  assumes "spans root s" "short s" "sound_leaves {} root" "chain root n off ps" "AstNode_kind n \<noteq> KBracket"
  shows "\<exists>ids. sound_leaves ids n"
  using assms(4,5)
proof (induction ps arbitrary: n off)
  case Nil
  with assms(3) show ?case by auto
next
  case (Cons a ps)
  obtain p poff i where a: "a = (p, poff, i)" by (cases a)
  with Cons.prems have p: "i < length (slots p)" "slots p ! i = Some n" "chain root p poff ps" by auto
  then have "AstNode_kind p \<noteq> KBracket" by (cases p) auto
  then obtain ids where ids: "sound_leaves ids p" using Cons.IH p(3) by blast
  obtain v where sp: "spans p v" using chain_spans [OF p(3) assms(1,2)] by blast
  then show ?case
  proof cases
    case (spans_pair ob s1 ch s2 mids cl s3 l)
    have "cl = Some n \<longrightarrow> AstNode_kind n = KBracket" using spans_pair by auto
    with p(1,2) spans_pair(1,4) Cons.prems(2) have "ch = Some n" by (auto simp: less_Suc_eq nth_Cons' numeral_3_eq_3 split: if_splits)
    with ids spans_pair(1) obtain oids where "\<forall>c. c \<in> set (ast_leaves n) \<longrightarrow> sound (ids \<union> oids) c" by (auto elim!: sound_pairE)
    then show ?thesis by blast
  next
    case (spans_two x s1 y s2 h l ids' im)
    with p(1,2) have "n = x \<or> n = y" by (auto simp: less_Suc_eq nth_Cons' split: if_splits)
    with ids spans_two(1) show ?thesis by auto
  next
    case (spans_three x s1 y s2 z s3 h l ids' im)
    with p(1,2) have "n = x \<or> n = y \<or> n = z" by (auto simp: less_Suc_eq nth_Cons' split: if_splits)
    with ids spans_three(1) show ?thesis by auto
  qed (use p(1) in auto)
qed

lemma canBeReused_returns: "n = ListAstNode_getEmpty \<or> spans n v \<Longrightarrow> \<exists>b. AstNode_canBeReused ids n = Inr b"
  using last_leaf_leaves [of n v] by (auto simp: AstNode_canBeReused_def ListAstNode_getEmpty_def)

lemma canBeReused_True:
  assumes "AstNode_canBeReused ids n = Inr True" "n = ListAstNode_getEmpty \<or> spans n v"
  shows "spans n v \<and> AstNode_kind n \<noteq> KBracket \<and> missing n \<inter> keys_of ids = {}"
proof (cases "AstNode_kind n = KList")
  case True
  with assms show ?thesis
    by (auto simp: AstNode_canBeReused_def ListAstNode_getEmpty_def intersects_iff rbind_eq_Inr_iff split: if_splits)
next
  case False
  with assms show ?thesis
    by (cases n) (auto simp: AstNode_canBeReused_def ListAstNode_getEmpty_def intersects_iff keys_of_empty split: if_splits)
qed

section \<open>Reading from the old tree\<close>

lemma read_loop_returns:
  assumes "\<And>n o1. cur = Some (n, o1) \<Longrightarrow> chain root n o1 ps" "\<And>n o1. node_at root n o1 \<Longrightarrow> \<exists>b. predicate n = Inr b"
  shows "\<exists>r. read_loop off predicate cur ps = Inr r"
  using assms
proof (induction off predicate cur ps rule: read_loop.induct)
  case (2 off predicate n noff ps)
  have c: "chain root n noff ps" using 2(5) by simp
  have nx: "chain root m moff ps2" if "nextNodeAfterCurrent n noff ps = (Some (m, moff), ps2)" for m moff ps2
    using next_after_chain [OF c that] .
  have ch: "chain root d noff ((n, noff, j) # ps)" if "getNextChildIdx n 0 = Some (j, d)" for j d
    using child_chain [OF c that] .
  obtain cur' ps' where na: "nextNodeAfterCurrent n noff ps = (cur', ps')" by (rule prod.exhaust)
  obtain b where b: "predicate n = Inr b" using 2(6) c by (auto simp: node_at_def)
  note IH1 = 2(1) [OF _ _ _ na [symmetric], OF _ _ _ _ 2(6)] and IH2 = 2(2) [OF _ _ _ _ na [symmetric], OF _ _ _ _ _ 2(6)]
  have IH3: "\<exists>r. read_loop off predicate (Some (d, noff)) ((n, noff, j) # ps) = Inr r"
    if "getNextChildIdx n 0 = Some (j, d)" "\<not> lengthLessThan off noff" "lengthLessThan noff off \<Longrightarrow> \<not> lengthAdd noff (AstNode_length n) \<le> off" "\<not> lengthLessThan noff off \<Longrightarrow> \<not> b" for j d
  proof (cases "lengthLessThan noff off")
    case True
    show ?thesis by (rule 2(3) [OF that(2) True that(3) [OF True] that(1) refl _ 2(6)]) (use ch that(1) in auto)
  next
    case False
    show ?thesis by (rule 2(4) [OF that(2) False b that(4) [OF False] that(1) refl _ 2(6)]) (use ch that(1) in auto)
  qed
  show ?case
    using na nx b IH1 IH2 IH3 by (cases "getNextChildIdx n 0") (auto simp: read_loop.simps(2))
qed simp

end
