(* ===== verification/Incremental_Parser.thy ===== *)
theory Incremental_Parser
  imports Bracket_Reuse
begin

text \<open>
  \<^verbatim>\<open>parseDocument\<close> of \<^verbatim>\<open>parser.ts\<close> with an old tree and edits: for every tokenizer that reads a text and can skip a part of it (the locale \<open>text_tokenizer\<close>), the parser
  returns and its tree is a tree for the new text.
\<close>

lemma plen_prefix_unique:
  assumes "a @ b = c @ d" "short (a @ b)" "plen a = plen c"
  shows "a = c"
proof -
  have *: "x = []" if "short ((q @ x) @ r)" "plen (q @ x) = plen q" for q x r :: js_string
  proof -
    have "short (q @ x)" using short_append [OF that(1)] ..
    from short_append [OF this] show ?thesis using that(2) by (simp add: plen_append_eq)
  qed
  from assms(1) consider x where "a = c @ x" | x where "c = a @ x" unfolding append_eq_append_conv2 by blast
  then show ?thesis
  proof cases
    case 1
    with assms(2,3) *[of c x b] show ?thesis by simp
  next
    case 2
    with assms *[of a x d] show ?thesis by simp
  qed
qed

lemma short_LF: "short s \<Longrightarrow> short (s @ [LF])"
  unfolding short_def
proof (intro allI impI)
  fix a b c assume s: "\<forall>a b c. s = a @ b @ c \<longrightarrow> columnCount (tlen b) < 2 ^ 25" and e: "s @ [LF] = a @ b @ c"
  show "columnCount (tlen b) < 2 ^ 25"
  proof (cases c rule: rev_cases)
    case Nil
    show ?thesis
    proof (cases b rule: rev_cases)
      case (snoc b' x)
      then have "x = LF" using e Nil by simp
      then show ?thesis by (simp add: snoc tlen_append tlen_single TextLength_add_def)
    qed (simp add: TextLength_zero_def)
  next
    case (snoc c' x)
    then have "s = a @ b @ c'" using e by (metis append.assoc butlast_snoc)
    with s show ?thesis by blast
  qed
qed

text \<open>The old tree is one of the text \<open>s\<close>, the edits have changed \<open>s\<close> into \<open>u @ v\<close>, and the parser stands behind \<open>u\<close>.  Edits may reach over the line feed that one can imagine behind the text.\<close>

definition cache_ok :: "TextEditInfo list \<Rightarrow> BracketKind AstNode \<Rightarrow> js_string \<Rightarrow> 't BracketParser \<Rightarrow> js_string \<Rightarrow> js_string \<Rightarrow> bool" where
  "cache_ok es root s this u v \<longleftrightarrow>
     (case pa_oldNodeReader this of
        None \<Rightarrow> True
      | Some r \<Rightarrow> reads root r \<and> asked_upto es u (pa_positionMapper this) \<and> anchored es (s @ [LF]) u (v @ [LF]) (nr_lastOffset r) \<and>
          tree_for root s \<and> short s \<and> short (u @ v))"

lemma cache_advance: "cache_ok es root s this u (v @ w) \<Longrightarrow> cache_ok es root s this (u @ v) w"
  using asked_more [of es u "pa_positionMapper this" v] short_append [of "u @ v" w]
  by (auto simp: cache_ok_def anchored_advance split: option.splits)

lemma cache_cong:
  "pa_oldNodeReader this2 = pa_oldNodeReader this \<Longrightarrow> pa_positionMapper this2 = pa_positionMapper this \<Longrightarrow> cache_ok es root s this2 u v = cache_ok es root s this u v"
  by (cases "pa_oldNodeReader this") (simp_all add: cache_ok_def)

text \<open>A piece of the old text that a reusable node stands for is a piece of the new text.\<close>

lemma piece_unchanged:
  assumes "v1 @ w @ [LF] = s2" "dist = None \<and> s2 = v @ [LF] \<or> (\<exists>x a b. dist = Some (plen x) \<and> s2 = x @ a \<and> v @ [LF] = x @ b)"
    "\<forall>m. dist = Some m \<longrightarrow> plen v1 < m" "short s2"
  shows "\<exists>v2. v = v1 @ v2"
  using assms(2)
proof
  assume "dist = None \<and> s2 = v @ [LF]"
  with assms(1) have "v = v1 @ w" by (metis append.assoc append1_eq_conv)
  then show ?thesis by blast
next
  assume "\<exists>x a b. dist = Some (plen x) \<and> s2 = x @ a \<and> v @ [LF] = x @ b"
  then obtain x a b where x: "dist = Some (plen x)" "s2 = x @ a" "v @ [LF] = x @ b" by blast
  have "\<exists>y. x = v1 @ y \<and> y \<noteq> []"
  proof -
    have eq: "v1 @ w @ [LF] = x @ a" using assms(1) x(2) by simp
    then consider y where "v1 = x @ y" | y where "x = v1 @ y" "y \<noteq> []"
      unfolding append_eq_append_conv2 by (metis append.right_neutral)
    then show ?thesis
    proof cases
      case 1
      have "short x" "short y" using assms(4) eq x(2) 1 short_append [of x "y @ w @ [LF]"] short_append [of y "w @ [LF]"] by auto
      with 1 plen_le_append [of x y] assms(3) x(1) show ?thesis by simp
    qed blast
  qed
  then obtain y where "v @ [LF] = v1 @ y @ b" "y \<noteq> []" using x(3) by auto
  then have "v = v1 @ butlast (y @ b)" by (metis append_is_Nil_conv butlast_append butlast_snoc)
  then show ?thesis by blast
qed

lemma reader_step:
  assumes "tree_for root s" "short s" "reads root r" "nr_lastOffset r \<le> off"
  shows "\<exists>found r2. NodeReader_readLongestNodeAt off (reusable maxLength ids) r = Inr (found, r2) \<and> reads root r2 \<and> nr_lastOffset r2 = off \<and>
    (\<forall>n. found = Some n \<longrightarrow> (\<exists>u v w. s = u @ v @ w \<and> off = plen u \<and> spans n v \<and> v \<noteq> []) \<and> sound_leaves (keys_of ids) n \<and>
       (\<forall>m. maxLength = Some m \<longrightarrow> AstNode_length n < m))"
proof -
  have "\<exists>b. reusable maxLength ids n = Inr b" if at: "node_at root n o1" for n o1
  proof -
    obtain v where "n = ListAstNode_getEmpty \<or> spans n v" using at node_at_tree [OF assms(1,2)] unfolding node_at_def by blast
    from canBeReused_returns [OF this, of ids] show ?thesis by (auto simp: reusable_def split: option.split)
  qed
  then obtain found cur ps where l: "read_loop off (reusable maxLength ids) (nr_current r) (nr_parents r) = Inr (found, cur, ps)"
    using read_loop_returns [of "nr_current r" root "nr_parents r" "reusable maxLength ids" off] assms(3) by (force simp: reads_def)
  let ?r2 = "r\<lparr>nr_current := cur, nr_parents := ps, nr_lastOffset := off\<rparr>"
  have ok: "NodeReader_readLongestNodeAt off (reusable maxLength ids) r = Inr (found, ?r2)"
    using l assms(4) by (simp add: NodeReader_readLongestNodeAt_def lengthLessThan_def)
  note at = readLongestNodeAt_node_at [OF assms(3) ok]
  have "(\<exists>u v w. s = u @ v @ w \<and> off = plen u \<and> spans n v \<and> v \<noteq> []) \<and> sound_leaves (keys_of ids) n \<and> (\<forall>m. maxLength = Some m \<longrightarrow> AstNode_length n < m)"
    if fn: "found = Some n" for n
  proof -
    obtain ps2 where ch: "chain root n off ps2" and re: "reusable maxLength ids n = Inr True" using at fn by (auto simp: node_at_def)
    then have cb: "AstNode_canBeReused ids n = Inr True" "\<forall>m. maxLength = Some m \<longrightarrow> AstNode_length n < m"
      by (auto simp: reusable_def lengthLessThan_def split: option.splits if_splits)
    have "n \<noteq> ListAstNode_getEmpty" using cb(1) by (auto simp: AstNode_canBeReused_def ListAstNode_getEmpty_def split: if_splits)
    then obtain u v w where v: "s = u @ v @ w" "off = plen u" "spans n v" using node_at_tree [OF assms(1,2) ch] by blast
    note c = canBeReused_True [OF cb(1), of v]
    have sr: "spans root s" using assms(1) ch \<open>n \<noteq> ListAstNode_getEmpty\<close> empty_chain [of n off ps2] unfolding tree_for_def by blast
    then obtain ids' where "sound_leaves ids' n" using chain_sound [OF sr assms(2) _ ch] assms(1) c v(3) by (auto simp: tree_for_def)
    moreover have "short v" using assms(2) v(1) short_append [of u "v @ w"] short_append [of v w] by simp
    ultimately have "v \<noteq> []" using sound_nonempty [OF v(3)] by blast
    moreover have "sound (keys_of ids) x" if x: "x \<in> set (ast_leaves n)" for x
    proof -
      obtain y where y: "spans x y" "missing x \<subseteq> missing n" using spans_leaf [OF v(3) x] by blast
      have "sound ids' x" using \<open>sound_leaves ids' n\<close> x ..
      then show ?thesis by (rule sound_elsewhere [OF _ y(1)]) (use y(2) c v(3) in blast)
    qed
    ultimately show ?thesis using v cb(2) by blast
  qed
  with ok at show ?thesis by blast
qed

text \<open>What \<^verbatim>\<open>tryReadChildFromCache\<close> returns: nothing, or a node for the next piece of the text that may stand inside of the brackets \<open>ids\<close>.\<close>

definition reused :: "('t \<Rightarrow> js_string \<Rightarrow> js_string \<Rightarrow> bool) \<Rightarrow> TextEditInfo list \<Rightarrow> BracketKind AstNode \<Rightarrow> js_string \<Rightarrow> SmallImmutableSet \<Rightarrow> js_string \<Rightarrow> js_string \<Rightarrow>
    BracketKind AstNode option \<times> 't BracketParser \<Rightarrow> bool" where
  "reused reading es root s ids u v = (\<lambda>(cached, this).
     (\<exists>v1 v2. v = v1 @ v2 \<and> reading (pa_tokenizer this) (u @ v1) v2 \<and> cache_ok es root s this (u @ v1) v2 \<and>
       (case cached of
          None \<Rightarrow> v1 = []
        | Some n \<Rightarrow> pa_oldNodeReader this \<noteq> None \<and> v1 \<noteq> [] \<and> spans n v1 \<and> sound_leaves (keys_of ids) n)))"

locale text_tokenizer =
  fixes methods :: "'t Tokenizer" and reading :: "'t \<Rightarrow> js_string \<Rightarrow> js_string \<Rightarrow> bool"
  assumes offset_law: "reading z u v \<Longrightarrow> tz_offset methods z = plen u"
    and end_law: "reading z u [] \<Longrightarrow> \<exists>z2. tz_peek methods z = (None, z2) \<and> reading z2 u []"
    and peek_law: "reading z u v \<Longrightarrow> v \<noteq> [] \<Longrightarrow> \<exists>t z2 z3 v1 v2. v = v1 @ v2 \<and> token_for v1 (Some t) \<and> tz_peek methods z = (Some t, z2) \<and> reading z2 u v \<and>
      tz_read methods z2 = (Some t, z3) \<and> reading z3 (u @ v1) v2"
    and skip_law: "reading z u (v @ w) \<Longrightarrow> \<exists>z2. tz_skip methods (plen v) z = Inr z2 \<and> reading z2 (u @ v) w"
begin

lemma tryRead_ok:
  assumes "reading (pa_tokenizer this) u v" "cache_ok es root s this u v"
  shows "\<exists>x. tryReadChildFromCache methods ids this = Inr x \<and> reused reading es root s ids u v x"
proof (cases "pa_oldNodeReader this")
  case None
  with assms show ?thesis by (simp add: tryReadChildFromCache_def reused_def)
next
  case (Some r)
  let ?m = "pa_positionMapper this"
  have r: "reads root r" "asked_upto es u ?m" "anchored es (s @ [LF]) u (v @ [LF]) (nr_lastOffset r)" "tree_for root s" "short s" "short (u @ v)"
    using assms(2) Some by (simp_all add: cache_ok_def)
  obtain dist m where d: "getDistanceToNextChange (plen u) ?m = (dist, m)" by (rule prod.exhaust)
  then have m: "m = adjustNextEdit (plen u) ?m" using mapper_state(1) [of "plen u" ?m] by simp
  have am: "asked_upto es u m" using asked_adjust [OF r(2)] m by simp
  have off: "tz_offset methods (pa_tokenizer this) = plen u" by (rule offset_law [OF assms(1)])
  show ?thesis
  proof (cases "dist = Some lengthZero")
    case True
    with Some d off assms am r show ?thesis
      by (simp add: tryReadChildFromCache_def reused_def lengthIsZero_def lengthZero_def Let_def cache_ok_def)
  next
    case False
    have sh: "short (u @ v @ [LF])" using short_LF [OF r(6)] by simp
    obtain s1 s2 where s: "s @ [LF] = s1 @ s2" "fst (getOffsetBeforeChange (plen u) ?m) = plen s1" "nr_lastOffset r \<le> plen s1" "anchored es (s @ [LF]) u (v @ [LF]) (plen s1)"
      "dist = None \<and> s2 = v @ [LF] \<or> (\<exists>x a b. dist = Some (plen x) \<and> s2 = x @ a \<and> v @ [LF] = x @ b)"
      using mapper_step [OF r(3) short_LF [OF r(5)] sh r(2)] False unfolding d fst_conv by blast
    have g: "getOffsetBeforeChange (plen u) m = (plen s1, m)"
      using s(2) mapper_state(2,3,4) [of "plen u" ?m] m by (cases "getOffsetBeforeChange (plen u) ?m") simp
    obtain found r2 where f: "NodeReader_readLongestNodeAt (plen s1) (reusable dist ids) r = Inr (found, r2)" "reads root r2" "nr_lastOffset r2 = plen s1"
      "\<forall>n. found = Some n \<longrightarrow> (\<exists>u v w. s = u @ v @ w \<and> plen s1 = plen u \<and> spans n v \<and> v \<noteq> []) \<and> sound_leaves (keys_of ids) n \<and> (\<forall>m. dist = Some m \<longrightarrow> AstNode_length n < m)"
      using reader_step [OF r(4,5,1) s(3)] by blast
    have nz: "case dist of None \<Rightarrow> True | Some m \<Rightarrow> \<not> lengthIsZero m" using False by (auto simp: lengthIsZero_def lengthZero_def split: option.split)
    let ?this2 = "this\<lparr>pa_positionMapper := m, pa_oldNodeReader := Some r2\<rparr>"
    have c2: "cache_ok es root s ?this2 u v" using f(2,3) am s(4) r by (simp add: cache_ok_def)
    show ?thesis
    proof (cases found)
      case None
      with Some d g f(1) nz off assms(1) c2 show ?thesis by (simp add: tryReadChildFromCache_def Let_def reused_def)
    next
      case n: (Some n)
      then obtain u1 v1 w where v1: "s = u1 @ v1 @ w" "plen s1 = plen u1" "spans n v1" "v1 \<noteq> []" "sound_leaves (keys_of ids) n" "\<forall>m. dist = Some m \<longrightarrow> AstNode_length n < m"
        using f(4) by blast
      have sh2: "short (s1 @ s2)" using short_LF [OF r(5)] s(1) by simp
      then have "s1 = u1" using plen_prefix_unique [of s1 s2 u1 "v1 @ w @ [LF]"] s(1) v1(1,2) by simp
      then have "v1 @ w @ [LF] = s2" using s(1) v1(1) by simp
      moreover have "short s2" using short_append [OF sh2] ..
      ultimately obtain v2 where v2: "v = v1 @ v2" using piece_unchanged s(5) v1(6) spans_length [OF v1(3)] by metis
      obtain z2 where z2: "tz_skip methods (AstNode_length n) (pa_tokenizer this) = Inr z2" "reading z2 (u @ v1) v2"
        using skip_law [of "pa_tokenizer this" u v1 v2] assms(1) v2 spans_length [OF v1(3)] by auto
      let ?this3 = "?this2\<lparr>pa_itemsFromCache := pa_itemsFromCache this + 1, pa_tokenizer := z2\<rparr>"
      have "cache_ok es root s ?this3 (u @ v1) v2" using cache_advance [of es root s ?this2 u v1 v2] c2 v2 cache_cong [of ?this3 ?this2] by simp
      then have "reused reading es root s ids u v (Some n, ?this3)" using v1 v2 z2(2) unfolding reused_def
        by (simp only: split_conv) (intro exI [of _ v1] exI [of _ v2], simp)
      moreover have "tryReadChildFromCache methods ids this = Inr (Some n, ?this3)"
        using Some d g f(1) nz off n z2(1) by (simp add: tryReadChildFromCache_def Let_def)
      ultimately show ?thesis by blast
    qed
  qed
qed

end

lemma forest_concat_items:
  assumes "forest ns s" "short s" "pa_oldNodeReader this = None \<Longrightarrow> \<forall>c \<in> set ns. AstNode_kind c \<noteq> KList"
  shows "\<exists>child. concat_items this ns = Inr child \<and> opt_leaves child = all_leaves ns \<and> (child = None \<and> s = [] \<or> (\<exists>c. child = Some c \<and> spans c s))"
proof (cases "pa_oldNodeReader this")
  case None
  show ?thesis
  proof (cases "ns = []")
    case True
    with None assms(1) show ?thesis by (simp add: concat_items_def concat23TreesOfSameHeight_def)
  next
    case False
    have "\<forall>c \<in> set ns. AstNode_listHeight c = 0" using assms(3) [OF None] flat_height by auto
    from concat_same_height_forest [OF assms(1,2) this False, of "pa_createImmutableLists this"] None show ?thesis by (auto simp: concat_items_def)
  qed
next
  case (Some r)
  with concat_joins [OF assms(1,2)] assms(1) show ?thesis by (cases "ns = []") (auto simp: concat_items_def)
qed

lemma sound_create_pair:
  assumes "l1 \<noteq> 0" "\<forall>c \<in> set (opt_leaves child). sound (ids \<union> keys_of oids) c"
    "cl = None \<or> (\<exists>l2 k2 cids. cl = Some (BracketAstNode l2 k2 cids) \<and> keys_of cids \<inter> keys_of oids \<noteq> {})"
  shows "sound ids (PairAstNode_create (BracketAstNode l1 k1 oids) child cl)"
  using create_pair [of "BracketAstNode l1 k1 oids" child cl] sound_pair [of l1 child ids oids cl] assms by auto

text \<open>The parser with its old tree, behind \<open>u\<close> and before \<open>v\<close>; \<open>b\<close> tells whether there is an old tree.\<close>

definition parser_at :: "('t \<Rightarrow> js_string \<Rightarrow> js_string \<Rightarrow> bool) \<Rightarrow> TextEditInfo list \<Rightarrow> BracketKind AstNode \<Rightarrow> js_string \<Rightarrow> bool \<Rightarrow> 't BracketParser \<Rightarrow> js_string \<Rightarrow> js_string \<Rightarrow> bool" where
  "parser_at reading es root s b this u v \<longleftrightarrow> reading (pa_tokenizer this) u v \<and> cache_ok es root s this u v \<and> short (u @ v) \<and> (pa_oldNodeReader this \<noteq> None) = b"

definition items_ok :: "bool \<Rightarrow> nat set \<Rightarrow> BracketKind AstNode list \<Rightarrow> js_string \<Rightarrow> bool" where
  "items_ok b ids ns s \<longleftrightarrow> forest ns s \<and> (\<forall>c \<in> set (all_leaves ns). sound ids c) \<and> (b \<or> (\<forall>c \<in> set ns. AstNode_kind c \<noteq> KList))"

definition loop_result where
  "loop_result reading es root s b ids items u v r \<longleftrightarrow>
     (\<exists>new this v1 v2. r = Some (Inr (items @ new, this)) \<and> v = v1 @ v2 \<and> parser_at reading es root s b this (u @ v1) v2 \<and> items_ok b (keys_of ids) new v1 \<and>
        (v2 = [] \<or> keys_of ids \<noteq> {}))"

definition child_result where
  "child_result reading es root s b ids u v r \<longleftrightarrow>
     (\<exists>c this v1 v2. r = Some (Inr (c, this)) \<and> v = v1 @ v2 \<and> v1 \<noteq> [] \<and> parser_at reading es root s b this (u @ v1) v2 \<and> spans c v1 \<and>
        AstNode_kind c \<noteq> KList \<and> sound (keys_of ids) c)"

lemma parser_at_move:
  assumes "parser_at reading es root s b this u (v @ w)" "reading z (u @ v) w"
  shows "parser_at reading es root s b (this\<lparr>pa_tokenizer := z\<rparr>) (u @ v) w"
    "parser_at reading es root s b (this\<lparr>pa_itemsConstructed := k, pa_tokenizer := z\<rparr>) (u @ v) w"
  using assms cache_advance [of es root s this u v w] cache_cong [of "this\<lparr>pa_tokenizer := z\<rparr>" this es root s "u @ v" w]
    cache_cong [of "this\<lparr>pa_itemsConstructed := k, pa_tokenizer := z\<rparr>" this es root s "u @ v" w]
  by (simp_all add: parser_at_def)

lemma loop_result_step:
  assumes "parser_at reading es root s b this u v" "v = v1 @ v2" "spans c v1" "sound_leaves (keys_of ids) c" "b \<or> AstNode_kind c \<noteq> KList"
    "loop_result reading es root s b ids (items @ [c]) (u @ v1) v2 r"
  shows "loop_result reading es root s b ids items u v r"
proof -
  obtain new this2 w1 w2 where r: "r = Some (Inr ((items @ [c]) @ new, this2))" "v2 = w1 @ w2" "parser_at reading es root s b this2 ((u @ v1) @ w1) w2" "items_ok b (keys_of ids) new w1"
    "w2 = [] \<or> keys_of ids \<noteq> {}" using assms(6) unfolding loop_result_def by blast
  have "items_ok b (keys_of ids) (c # new) (v1 @ w1)" using r(4) assms(3-5) by (auto simp: items_ok_def)
  with r assms(2) show ?thesis unfolding loop_result_def
    by (intro exI [of _ "c # new"] exI [of _ this2] exI [of _ "v1 @ w1"] exI [of _ w2]) simp
qed

lemma spans_not_empty_list: "spans c v \<Longrightarrow> \<not> (AstNode_kind c = KList \<and> AstNode_childrenLength c = 0)"
  by (erule spans.cases) auto

context text_tokenizer
begin

lemma close_pair_result:
  assumes "parser_at reading es root s b this (u @ v0 @ v1) v2" "token_for v0 (Some t)" "tk_kind t = TOpeningBracket"
    "child = None \<and> v1 = [] \<or> (\<exists>c. child = Some c \<and> spans c v1)" "\<forall>c \<in> set (opt_leaves child). sound (keys_of (SmallImmutableSet_merge ids (tk_bracketIds t))) c"
  shows "child_result reading es root s b ids u (v0 @ v1 @ v2) (Some (close_pair methods t child this))"
proof -
  obtain l1 k1 where ob: "tk_astNode t = Some (BracketAstNode l1 k1 (tk_bracketIds t))" "l1 = plen v0" "v0 \<noteq> []"
    and idt: "\<exists>i. tk_bracketId t = int i \<and> keys_of (tk_bracketIds t) = {i}"
    using assms(2,3) by (auto simp: token_for_def bracket_token_def)
  let ?ob = "BracketAstNode l1 k1 (tk_bracketIds t)"
  have so: "spans ?ob v0" using ob(2) by (rule spans_bracket)
  have sh: "short (u @ v0 @ v1 @ v2)" "short (v0 @ v1 @ v2)" "short (v0 @ v1)" "short v0"
    using assms(1) short_append [of u "v0 @ v1 @ v2"] short_append [of "v0 @ v1" v2] short_append [of v0 v1] by (auto simp: parser_at_def)
  have l1: "l1 \<noteq> 0" using ob(2,3) sh(4) by (simp add: plen_zero_iff)
  have lv: "\<forall>c \<in> set (opt_leaves child). sound (keys_of ids \<union> keys_of (tk_bracketIds t)) c" using assms(5) by (simp add: keys_of_merge)
  have rd: "reading (pa_tokenizer this) (u @ v0 @ v1) v2" using assms(1) by (simp add: parser_at_def)
  have unclosed: "child_result reading es root s b ids u (v0 @ v1 @ v2) (Some (Inr (PairAstNode_create ?ob child None, this\<lparr>pa_tokenizer := z\<rparr>)))"
    if "reading z (u @ v0 @ v1) v2" for z
  proof -
    have "spans (PairAstNode_create ?ob child None) (v0 @ v1)" using create_pair_spans [OF so _ assms(4), of None "[]"] sh(3) by simp
    moreover have "sound (keys_of ids) (PairAstNode_create ?ob child None)" using sound_create_pair [OF l1 lv, of None] by simp
    ultimately show ?thesis using parser_at_move(1) [of reading es root s b this "u @ v0 @ v1" "[]" v2 z] assms(1) that ob(3) unfolding child_result_def
      by (intro exI [of _ "PairAstNode_create ?ob child None"] exI [of _ "this\<lparr>pa_tokenizer := z\<rparr>"] exI [of _ "v0 @ v1"] exI [of _ v2]) simp
  qed
  show ?thesis
  proof (cases "v2 = []")
    case True
    then obtain z where z: "tz_peek methods (pa_tokenizer this) = (None, z)" "reading z (u @ v0 @ v1) v2" using end_law [of "pa_tokenizer this"] rd by auto
    with unclosed [OF z(2)] ob(1) show ?thesis by (simp add: close_pair_def)
  next
    case False
    obtain x z z3 w1 w2 where z: "v2 = w1 @ w2" "token_for w1 (Some x)" "tz_peek methods (pa_tokenizer this) = (Some x, z)" "reading z (u @ v0 @ v1) v2"
      "tz_read methods z = (Some x, z3)" "reading z3 ((u @ v0 @ v1) @ w1) w2" using peek_law [OF rd False] by blast
    show ?thesis
    proof (cases "tk_kind x = TClosingBracket \<and> (tk_bracketId x = tk_bracketId t \<or> SmallImmutableSet_intersects (tk_bracketIds x) (tk_bracketIds t))")
      case True
      obtain l2 k2 where cl: "tk_astNode x = Some (BracketAstNode l2 k2 (tk_bracketIds x))" "l2 = plen w1" and idx: "\<exists>j. tk_bracketId x = int j \<and> j \<in> keys_of (tk_bracketIds x)"
        using z(2) True by (auto simp: token_for_def bracket_token_def)
      let ?cl = "BracketAstNode l2 k2 (tk_bracketIds x)" and ?n = "PairAstNode_create ?ob child (tk_astNode x)"
      have "keys_of (tk_bracketIds x) \<inter> keys_of (tk_bracketIds t) \<noteq> {}" using True idt idx by (auto simp: intersects_iff)
      then have snd: "sound (keys_of ids) ?n" using sound_create_pair [OF l1 lv, of "tk_astNode x"] cl(1) by auto
      have "short (v0 @ v1 @ w1)" using sh(2) z(1) short_append [of "v0 @ v1 @ w1" w2] by simp
      then have "spans ?n (v0 @ v1 @ w1)" using create_pair_spans [OF so _ assms(4), of "Some ?cl" w1] spans_bracket [OF cl(2), of k2 "tk_bracketIds x"] cl(1) by simp
      moreover have "parser_at reading es root s b (this\<lparr>pa_tokenizer := z3\<rparr>) ((u @ v0 @ v1) @ w1) w2"
        using parser_at_move(1) [of reading es root s b this "u @ v0 @ v1" w1 w2 z3] assms(1) z(1,6) by simp
      ultimately have "child_result reading es root s b ids u (v0 @ v1 @ v2) (Some (Inr (?n, this\<lparr>pa_tokenizer := z3\<rparr>)))"
        using snd z(1) ob(3) unfolding child_result_def
        by (intro exI [of _ ?n] exI [of _ "this\<lparr>pa_tokenizer := z3\<rparr>"] exI [of _ "v0 @ v1 @ w1"] exI [of _ w2]) simp
      with True ob(1) z(3,5) show ?thesis by (simp add: close_pair_def)
    next
      case False
      with unclosed [OF z(4)] ob(1) z(3) show ?thesis by (auto simp: close_pair_def)
    qed
  qed
qed

lemma child_single_result:
  assumes "parser_at reading es root s b this u (v1 @ v2)" "token_for v1 (Some t)" "tz_read methods (pa_tokenizer this) = (Some t, z)" "reading z (u @ v1) v2"
    "tk_kind t \<noteq> TOpeningBracket \<or> level > 300" "tk_kind t = TClosingBracket \<Longrightarrow> \<not> SmallImmutableSet_intersects (tk_bracketIds t) ids"
  shows "child_result reading es root s b ids u (v1 @ v2) (parseChild (Suc n) methods ids level this)"
proof -
  let ?this2 = "this\<lparr>pa_itemsConstructed := pa_itemsConstructed this + 1, pa_tokenizer := z\<rparr>"
  have at: "parser_at reading es root s b ?this2 (u @ v1) v2" using parser_at_move(2) [OF assms(1,4)] .
  have tf: "v1 \<noteq> []" "tk_length t = plen v1" using assms(2) by (auto simp: token_for_def)
  have "short v1" using assms(1) short_append [of u "v1 @ v2"] short_append [of v1 v2] by (auto simp: parser_at_def)
  then have l: "tk_length t \<noteq> 0" using tf by (simp add: plen_zero_iff)
  have ok: "child_result reading es root s b ids u (v1 @ v2) (Some (Inr (c, ?this2)))" if "spans c v1" "AstNode_kind c \<noteq> KList" "sound (keys_of ids) c" for c
    unfolding child_result_def using that at tf(1) by (intro exI [of _ c] exI [of _ ?this2] exI [of _ v1] exI [of _ v2]) simp
  show ?thesis
  proof (cases "tk_kind t")
    case TText
    then have "tk_astNode t = Some (TextAstNode (plen v1))" using assms(2) by (auto simp: token_for_def)
    with TText assms(3) ok [of "TextAstNode (plen v1)"] l tf(2) show ?thesis by (simp add: Let_def spans_text sound_text)
  next
    case TOpeningBracket
    with assms(3,5) ok [of "TextAstNode (tk_length t)"] l tf(2) show ?thesis by (simp add: Let_def spans_text sound_text)
  next
    case TClosingBracket
    have "keys_of (tk_bracketIds t) \<inter> keys_of ids = {}" using assms(6) [OF TClosingBracket] by (simp add: intersects_iff)
    with TClosingBracket assms(3) ok [of "InvalidBracketAstNode (tk_bracketIds t) (tk_length t)"] l tf(2) show ?thesis
      by (simp add: Let_def spans_invalid sound_invalid)
  qed
qed

lemma child_pair_result:
  assumes "parser_at reading es root s b this u (v1 @ v2)" "token_for v1 (Some t)" "tz_read methods (pa_tokenizer this) = (Some t, z)" "reading z (u @ v1) v2"
    "tk_kind t = TOpeningBracket" "\<not> level > 300"
    and IH: "\<And>ids level this2. parser_at reading es root s b this2 (u @ v1) v2 \<Longrightarrow> loop_result reading es root s b ids [] (u @ v1) v2 (list_loop n methods ids level [] this2)"
  shows "child_result reading es root s b ids u (v1 @ v2) (parseChild (Suc n) methods ids level this)"
proof -
  let ?this2 = "this\<lparr>pa_itemsConstructed := pa_itemsConstructed this + 1, pa_tokenizer := z\<rparr>"
  let ?ids = "SmallImmutableSet_merge ids (tk_bracketIds t)"
  have "parser_at reading es root s b ?this2 (u @ v1) v2" using parser_at_move(2) [OF assms(1,4)] .
  from IH [OF this, of ?ids "level + 1"] obtain new this3 w1 w2 where l: "list_loop n methods ?ids (level + 1) [] ?this2 = Some (Inr (new, this3))" "v2 = w1 @ w2"
    "parser_at reading es root s b this3 ((u @ v1) @ w1) w2" "items_ok b (keys_of ?ids) new w1" unfolding loop_result_def by auto
  have "short w1" using l(3) short_append [of "(u @ v1) @ w1" w2] short_append [of "u @ v1" w1] by (auto simp: parser_at_def)
  then obtain child where c: "concat_items this3 new = Inr child" "opt_leaves child = all_leaves new" "child = None \<and> w1 = [] \<or> (\<exists>c. child = Some c \<and> spans c w1)"
    using forest_concat_items [of new w1 this3] l(3,4) by (auto simp: items_ok_def parser_at_def)
  have "child_result reading es root s b ids u (v1 @ w1 @ w2) (Some (close_pair methods t child this3))"
    using close_pair_result [of es root s b this3 u v1 w1 w2 t child ids] l(3,4) assms(2,5) c by (simp add: items_ok_def)
  then show ?thesis using assms(3,5,6) l(1,2) c(1) by (simp add: Let_def parse_list_def run_bind_def)
qed

lemma tryRead_reader: "tryReadChildFromCache methods ids this = Inr (cached, this2) \<Longrightarrow> pa_oldNodeReader this2 \<noteq> None \<longleftrightarrow> pa_oldNodeReader this \<noteq> None"
  by (auto simp: tryReadChildFromCache_def Let_def rbind_eq_Inr_iff split: option.splits prod.splits if_splits)

lemma loop_incremental:
  assumes "parser_at reading es root s b this u v" "2 * length v < n"
  shows "loop_result reading es root s b ids items u v (list_loop n methods ids level items this)"
  using assms
proof (induction "length v" arbitrary: n ids level items this u v rule: less_induct)
  case less
  obtain n' where n: "n = Suc n'" using less.prems(2) by (cases n) auto
  have rd: "reading (pa_tokenizer this) u v" "cache_ok es root s this u v" using less.prems(1) by (simp_all add: parser_at_def)
  obtain cached this2 where tr: "tryReadChildFromCache methods ids this = Inr (cached, this2)" "reused reading es root s ids u v (cached, this2)"
    using tryRead_ok [OF rd, of ids] by (metis prod.exhaust)
  obtain v1 v2 where t: "tryReadChildFromCache methods ids this = Inr (cached, this2)" "v = v1 @ v2" "reading (pa_tokenizer this2) (u @ v1) v2" "cache_ok es root s this2 (u @ v1) v2"
    "case cached of None \<Rightarrow> v1 = [] | Some n \<Rightarrow> pa_oldNodeReader this2 \<noteq> None \<and> v1 \<noteq> [] \<and> spans n v1 \<and> sound_leaves (keys_of ids) n"
    "(pa_oldNodeReader this2 \<noteq> None) = b"
    using tr tryRead_reader [OF tr(1)] less.prems(1) unfolding reused_def parser_at_def split_conv by blast
  have at2: "parser_at reading es root s b this2 (u @ v1) v2" using t less.prems(1) by (simp add: parser_at_def)
  show ?case
  proof (cases cached)
    case (Some c)
    have c: "pa_oldNodeReader this2 \<noteq> None" "v1 \<noteq> []" "spans c v1" "sound_leaves (keys_of ids) c" using t(5) Some by simp_all
    have "loop_result reading es root s b ids (items @ [c]) (u @ v1) v2 (list_loop n' methods ids level (items @ [c]) this2)"
      using less.hyps [of v2, OF _ at2] t(2) c(2) less.prems(2) n by (cases v1) auto
    from loop_result_step [OF less.prems(1) t(2) c(3,4) _ this] show ?thesis
      using t(1,6) c(1) Some spans_not_empty_list [OF c(3)] unfolding n by (auto simp: run_bind_def)
  next
    case None
    then have v: "v1 = []" "v2 = v" using t(2,5) by auto
    show ?thesis
    proof (cases "v = []")
      case True
      then obtain z where z: "tz_peek methods (pa_tokenizer this2) = (None, z)" "reading z u []" using end_law [of "pa_tokenizer this2" u] t(3) v by auto
      have "parser_at reading es root s b (this2\<lparr>pa_tokenizer := z\<rparr>) u v" using parser_at_move(1) [of reading es root s b this2 u "[]" v z] at2 v z(2) True by simp
      then have "loop_result reading es root s b ids items u v (Some (Inr (items, this2\<lparr>pa_tokenizer := z\<rparr>)))" unfolding loop_result_def
        using True by (intro exI [of _ "[]"] exI [of _ "this2\<lparr>pa_tokenizer := z\<rparr>"]) (simp add: items_ok_def)
      with None t(1) z(1) show ?thesis unfolding n by (simp add: run_bind_def)
    next
      case False
      obtain x z z3 w1 w2 where z: "v = w1 @ w2" "token_for w1 (Some x)" "tz_peek methods (pa_tokenizer this2) = (Some x, z)" "reading z u v"
        "tz_read methods z = (Some x, z3)" "reading z3 (u @ w1) w2" using peek_law [of "pa_tokenizer this2" u v] t(3) [unfolded v append_Nil2] False by blast
      let ?this3 = "this2\<lparr>pa_tokenizer := z\<rparr>"
      have at3: "parser_at reading es root s b ?this3 u v" using parser_at_move(1) [of reading es root s b this2 u "[]" v z] at2 v z(4) by simp
      show ?thesis
      proof (cases "tk_kind x = TClosingBracket \<and> SmallImmutableSet_intersects (tk_bracketIds x) ids")
        case True
        then have "keys_of ids \<noteq> {}" by (auto simp: intersects_iff)
        then have "loop_result reading es root s b ids items u v (Some (Inr (items, ?this3)))" unfolding loop_result_def
          using at3 by (intro exI [of _ "[]"] exI [of _ ?this3] exI [of _ v]) (simp add: items_ok_def)
        with None t(1) z(3) True show ?thesis unfolding n by (simp add: run_bind_def)
      next
        case go: False
        have w1: "w1 \<noteq> []" using z(2) by (simp add: token_for_def)
        obtain n'' where n2: "n' = Suc n''" "2 * length w2 < n''" using less.prems(2) z(1) w1 n by (cases n'; cases w1) auto
        have "child_result reading es root s b ids u (w1 @ w2) (parseChild (Suc n'') methods ids (level + 1) ?this3)"
        proof (cases "tk_kind x = TOpeningBracket \<and> \<not> level + 1 > 300")
          case True
          show ?thesis
          proof (rule child_pair_result)
            show "loop_result reading es root s b ids [] (u @ w1) w2 (list_loop n'' methods ids level [] this2)" if "parser_at reading es root s b this2 (u @ w1) w2" for ids level this2
              using less.hyps [of w2, OF _ that n2(2)] z(1) w1 by (cases w1) auto
          qed (use at3 z True in auto)
        next
          case False
          show ?thesis by (rule child_single_result) (use at3 z False go in auto)
        qed
        then obtain c this4 c1 c2 where c: "parseChild n' methods ids (level + 1) ?this3 = Some (Inr (c, this4))" "v = c1 @ c2" "c1 \<noteq> []" "parser_at reading es root s b this4 (u @ c1) c2"
          "spans c c1" "AstNode_kind c \<noteq> KList" "sound (keys_of ids) c" unfolding n2(1) z(1) child_result_def by blast
        have "loop_result reading es root s b ids (items @ [c]) (u @ c1) c2 (list_loop n' methods ids level (items @ [c]) this4)"
          using less.hyps [of c2, OF _ c(4)] c(2,3) less.prems(2) n by (cases c1) auto
        from loop_result_step [OF less.prems(1) c(2,5) _ _ this] have "loop_result reading es root s b ids items u v (list_loop n' methods ids level (items @ [c]) this4)"
          using c(6,7) ast_leaves_flat [of c] by simp
        with None t(1) z(3) go c(1,6) show ?thesis unfolding n by (auto simp: run_bind_def Let_def)
      qed
    qed
  qed
qed

lemma document_incremental:
  assumes "reading tokenizer [] t" "short t" "2 * length t < n"
    "old = None \<or> (\<exists>root s. old = Some root \<and> tree_for root s \<and> describes es (s @ [LF]) (t @ [LF]) \<and> short s \<and> \<not> im)"
  shows "\<exists>root2. parseDocument n methods tokenizer es old im = Some (Inr root2) \<and> tree_for root2 t"
proof -
  let ?p = "\<lparr>pa_tokenizer = tokenizer, pa_oldNodeReader = map_option new_NodeReader old, pa_positionMapper = new_BeforeEditPositionMapper es,
    pa_createImmutableLists = im, pa_itemsConstructed = 0, pa_itemsFromCache = 0\<rparr>"
  obtain root s where "cache_ok es root s ?p [] t"
  proof (cases old)
    case (Some r)
    then obtain s where s: "tree_for r s" "describes es (s @ [LF]) (t @ [LF])" "short s" using assms(4) by auto
    have "nr_lastOffset (new_NodeReader r) = lengthZero" by (simp add: new_NodeReader_def)
    with s Some assms(2) anchored_start [OF s(2)] have "cache_ok es r s ?p [] t" by (simp add: cache_ok_def reads_new asked_new)
    then show thesis by (rule that)
  qed (simp add: cache_ok_def that)
  then have "parser_at reading es root s (old \<noteq> None) ?p [] t" using assms(1,2) by (simp add: parser_at_def)
  from loop_incremental [OF this assms(3), of SmallImmutableSet_getEmpty "[]" 0]
  obtain new this2 where l: "list_loop n methods SmallImmutableSet_getEmpty 0 [] ?p = Some (Inr (new, this2))" "parser_at reading es root s (old \<noteq> None) this2 t []"
    "items_ok (old \<noteq> None) {} new t" by (auto simp: loop_result_def keys_of_empty)
  obtain child where c: "concat_items this2 new = Inr child" "opt_leaves child = all_leaves new" "child = None \<and> t = [] \<or> (\<exists>c. child = Some c \<and> spans c t)"
    using forest_concat_items [of new t this2] l(2,3) assms(2) by (auto simp: items_ok_def parser_at_def)
  let ?root = "case child of None \<Rightarrow> ListAstNode_getEmpty | Some t \<Rightarrow> t"
  have "parseDocument n methods tokenizer es old im = Some (Inr ?root)"
    using l(1) c(1) assms(4) by (auto simp: parseDocument_def new_BracketParser_def Parser_parseDocument_def parseList_def parse_list_def run_bind_def)
  moreover have "tree_for ?root t" using c(2,3) l(3) by (auto simp: tree_for_def items_ok_def ListAstNode_getEmpty_def)
  ultimately show ?thesis by blast
qed

end

end
