(* ===== verification/Callback_Iterable.thy ===== *)
theory Callback_Iterable
  imports Main
begin

text \<open>
  \<^verbatim>\<open>CallbackIterable\<close> of \<^verbatim>\<open>src/vs/base/common/arrays.ts\<close>: a sequence that is given by a function which calls a callback with every item until the callback returns
  \<^verbatim>\<open>false\<close>.  What a callback changes is a state of type \<open>'s\<close> that is passed through the calls; every method chooses its own state.
\<close>

type_synonym ('a, 's) callback = "'a \<Rightarrow> 's \<Rightarrow> bool \<times> 's"
type_synonym ('a, 's) CallbackIterable = "('a, 's) callback \<Rightarrow> 's \<Rightarrow> 's"

definition CallbackIterable_empty :: "('a, 's) CallbackIterable" where
  "CallbackIterable_empty = (\<lambda>_ st. st)"

definition CallbackIterable_forEach :: "('a \<Rightarrow> 's \<Rightarrow> 's) \<Rightarrow> ('a, 's) CallbackIterable \<Rightarrow> 's \<Rightarrow> 's" where
  "CallbackIterable_forEach handler iterate = iterate (\<lambda>item st. (True, handler item st))"

definition CallbackIterable_toArray :: "('a, 'a list) CallbackIterable \<Rightarrow> 'a list" where
  "CallbackIterable_toArray iterate = iterate (\<lambda>item result. (True, result @ [item])) []"

definition CallbackIterable_filter :: "('a \<Rightarrow> bool) \<Rightarrow> ('a, 's) CallbackIterable \<Rightarrow> ('a, 's) CallbackIterable" where
  "CallbackIterable_filter predicate iterate = (\<lambda>cb. iterate (\<lambda>item st. if predicate item then cb item st else (True, st)))"

definition CallbackIterable_map :: "('a \<Rightarrow> 'b) \<Rightarrow> ('a, 's) CallbackIterable \<Rightarrow> ('b, 's) CallbackIterable" where
  "CallbackIterable_map mapFn iterate = (\<lambda>cb. iterate (\<lambda>item. cb (mapFn item)))"

definition CallbackIterable_some :: "('a \<Rightarrow> bool) \<Rightarrow> ('a, bool) CallbackIterable \<Rightarrow> bool" where
  "CallbackIterable_some predicate iterate = iterate (\<lambda>item _. (let result = predicate item in (\<not> result, result))) False"

definition CallbackIterable_findFirst :: "('a \<Rightarrow> bool) \<Rightarrow> ('a, 'a option) CallbackIterable \<Rightarrow> 'a option" where
  "CallbackIterable_findFirst predicate iterate = iterate (\<lambda>item result. if predicate item then (False, Some item) else (True, result)) None"

definition CallbackIterable_findLast :: "('a \<Rightarrow> bool) \<Rightarrow> ('a, 'a option) CallbackIterable \<Rightarrow> 'a option" where
  "CallbackIterable_findLast predicate iterate = iterate (\<lambda>item result. (True, if predicate item then Some item else result)) None"

text \<open>\<^verbatim>\<open>first\<close> is true as long as there is no \<^verbatim>\<open>result\<close>.\<close>

definition CallbackIterable_findLastMaxBy :: "('a \<Rightarrow> 'a \<Rightarrow> int) \<Rightarrow> ('a, 'a option) CallbackIterable \<Rightarrow> 'a option" where
  "CallbackIterable_findLastMaxBy comparator iterate =
     iterate (\<lambda>item result. (True, case result of None \<Rightarrow> Some item | Some r \<Rightarrow> if comparator item r > 0 then Some item else result)) None"

section \<open>The sequence of a list\<close>

fun iterate_list :: "'a list \<Rightarrow> ('a, 's) callback \<Rightarrow> 's \<Rightarrow> bool \<times> 's" where
  "iterate_list [] cb st = (True, st)"
| "iterate_list (x # xs) cb st = (case cb x st of (goOn, st2) \<Rightarrow> if goOn then iterate_list xs cb st2 else (False, st2))"

lemma iterate_list_cong [fundef_cong]:
  "xs = ys \<Longrightarrow> st = st2 \<Longrightarrow> (\<And>x s. x \<in> set ys \<Longrightarrow> f x s = g x s) \<Longrightarrow> iterate_list xs f st = iterate_list ys g st2"
  by (induction ys arbitrary: xs st st2) (auto split: prod.split)

lemma iterate_list_append: "iterate_list (xs @ ys) cb st = (case iterate_list xs cb st of (goOn, st2) \<Rightarrow> if goOn then iterate_list ys cb st2 else (False, st2))"
  by (induction xs arbitrary: st) (auto split: prod.split)

definition iterates :: "'a list \<Rightarrow> ('a, 's) CallbackIterable" where
  "iterates xs = (\<lambda>cb st. snd (iterate_list xs cb st))"

lemma iterate_list_all: "iterate_list xs (\<lambda>item st. (True, h item st)) st = (True, fold h xs st)"
  by (induction xs arbitrary: st) auto

lemma iterate_forEach: "CallbackIterable_forEach h (iterates xs) = fold h xs"
  by (rule ext) (simp add: CallbackIterable_forEach_def iterates_def iterate_list_all)

lemma iterate_toArray: "CallbackIterable_toArray (iterates xs) = xs"
proof -
  have "fold (\<lambda>item result. result @ [item]) xs st = st @ xs" for st by (induction xs arbitrary: st) auto
  then show ?thesis by (simp add: CallbackIterable_toArray_def iterates_def iterate_list_all)
qed

lemma iterate_filter: "CallbackIterable_filter p (iterates xs) = iterates (filter p xs)"
proof -
  have "iterate_list xs (\<lambda>item st. if p item then cb item st else (True, st)) st = iterate_list (filter p xs) cb st" for cb and st :: 'b
    by (induction xs arbitrary: st) (auto split: prod.split)
  then show ?thesis by (simp add: CallbackIterable_filter_def iterates_def)
qed

lemma iterate_list_map: "iterate_list (map f xs) cb st = iterate_list xs (\<lambda>item. cb (f item)) st"
  by (induction xs arbitrary: st) (auto split: prod.split)

lemma iterate_map: "CallbackIterable_map f (iterates xs) = iterates (map f xs)"
  by (simp add: CallbackIterable_map_def iterates_def iterate_list_map)

lemma iterate_some: "CallbackIterable_some p (iterates xs) \<longleftrightarrow> (\<exists>x \<in> set xs. p x)"
proof -
  have "snd (iterate_list xs (\<lambda>item _. (let result = p item in (\<not> result, result))) False) \<longleftrightarrow> (\<exists>x \<in> set xs. p x)" by (induction xs) (auto simp: Let_def)
  then show ?thesis by (simp add: CallbackIterable_some_def iterates_def)
qed

lemma iterate_findFirst: "CallbackIterable_findFirst p (iterates xs) = List.find p xs"
proof -
  have "snd (iterate_list xs (\<lambda>item result. if p item then (False, Some item) else (True, result)) None) = List.find p xs" by (induction xs) auto
  then show ?thesis by (simp add: CallbackIterable_findFirst_def iterates_def)
qed

lemma iterate_findLast: "CallbackIterable_findLast p (iterates xs) = List.find p (rev xs)"
proof -
  have "fold (\<lambda>item result. if p item then Some item else result) xs None = List.find p (rev xs)" by (induction xs rule: rev_induct) auto
  then show ?thesis by (simp add: CallbackIterable_findLast_def iterates_def iterate_list_all)
qed

text \<open>\<^verbatim>\<open>findLastMaxBy\<close> returns the first of the greatest items.\<close>

lemma iterate_findLastMaxBy:
  assumes "\<And>x y. cmp x y > 0 \<longleftrightarrow> v x > (v y :: int)" "xs \<noteq> []"
  shows "\<exists>as x bs. xs = as @ x # bs \<and> CallbackIterable_findLastMaxBy cmp (iterates xs) = Some x \<and> (\<forall>a \<in> set as. v a < v x) \<and> (\<forall>b \<in> set bs. v b \<le> v x)"
proof -
  let ?f = "\<lambda>item result. case result of None \<Rightarrow> Some item | Some r \<Rightarrow> if cmp item r > 0 then Some item else result"
  have "\<exists>as x bs. xs = as @ x # bs \<and> fold ?f xs None = Some x \<and> (\<forall>a \<in> set as. v a < v x) \<and> (\<forall>b \<in> set bs. v b \<le> v x)"
    using assms(2)
  proof (induction xs rule: rev_induct)
    case (snoc y ys)
    show ?case
    proof (cases "ys = []")
      case False
      from snoc.IH [OF this] obtain as x bs where x: "ys = as @ x # bs" "fold ?f ys None = Some x" "\<forall>a \<in> set as. v a < v x" "\<forall>b \<in> set bs. v b \<le> v x" by blast
      have f: "fold ?f (ys @ [y]) None = (if v x < v y then Some y else Some x)" using x(2) by (simp add: assms(1))
      show ?thesis
      proof (cases "v x < v y")
        case True
        moreover have "\<forall>a \<in> set ys. v a < v y" using x(1,3,4) True by fastforce
        ultimately show ?thesis using f by (metis (no_types, lifting) append_Nil2 empty_iff list.set(1))
      next
        case F: False
        with x(1,3,4) f show ?thesis by (intro exI [of _ as] exI [of _ x] exI [of _ "bs @ [y]"]) simp
      qed
    next
      case True
      then show ?thesis by (intro exI [of _ "[]"] exI [of _ y]) simp
    qed
  qed simp
  then show ?thesis by (simp add: CallbackIterable_findLastMaxBy_def iterates_def iterate_list_all)
qed

end
