(* ===== verification/Bracket_Queries.thy ===== *)
theory Bracket_Queries
  imports Incremental_Parser Callback_Iterable
begin

text \<open>
  The functions of \<^verbatim>\<open>bracketPairsTree.ts\<close> that search a tree for the nearest bracket before or behind a position and for the bracket pairs of a range, and lists of all brackets and pairs of
  a tree to which they are compared.
\<close>

section \<open>The first bracket before and after a position\<close>

record IFoundBracket =
  fb_range :: Range
  fb_bracketInfo :: BracketKind

text \<open>The loops over the children; the offsets of a child follow from those of the children before it.\<close>

fun with_offsets :: "Length \<Rightarrow> 'k AstNode list \<Rightarrow> ('k AstNode \<times> Length \<times> Length) list" where
  "with_offsets off [] = []"
| "with_offsets off (c # cs) = (c, off, lengthAdd off (AstNode_length c)) # with_offsets (lengthAdd off (AstNode_length c)) cs"

lemma with_offsets_children: "(c, x) \<in> set (with_offsets off cs) \<Longrightarrow> c \<in> set cs"
  by (induction cs arbitrary: off) auto

lemma children_size: "c \<in> set (AstNode_children n) \<Longrightarrow> size c < size n"
  by (cases n) (auto split: option.splits dest: size_list_estimation' [of _ _ _ size, OF _ order_refl])

lemma with_offsets_size:
  assumes "(c, x) \<in> set (with_offsets off (AstNode_children n))"
  shows "size c < size n"
  using with_offsets_children [OF assms] by (rule children_size)

fun first_Some :: "('a \<Rightarrow> 'b option) \<Rightarrow> 'a list \<Rightarrow> 'b option" where
  "first_Some f [] = None"
| "first_Some f (x # xs) = (case f x of None \<Rightarrow> first_Some f xs | Some y \<Rightarrow> Some y)"

lemma first_Some_cong [fundef_cong]: "xs = ys \<Longrightarrow> (\<And>x. x \<in> set ys \<Longrightarrow> f x = g x) \<Longrightarrow> first_Some f xs = first_Some g ys"
  by (induction ys arbitrary: xs) (auto split: option.split)

function getFirstBracketBefore :: "BracketKind AstNode \<Rightarrow> Length \<Rightarrow> Length \<Rightarrow> Length \<Rightarrow> IFoundBracket option" where
  "getFirstBracketBefore node nodeOffsetStart nodeOffsetEnd position =
     (case node of
        BracketAstNode _ bracketInfo _ \<Rightarrow> Some \<lparr>fb_range = lengthsToRange nodeOffsetStart nodeOffsetEnd, fb_bracketInfo = bracketInfo\<rparr>
      | InvalidBracketAstNode _ _ \<Rightarrow> None
      | TextAstNode _ \<Rightarrow> None
      | _ \<Rightarrow> first_Some (\<lambda>(child, childStart, childEnd). if lengthLessThan childStart position then getFirstBracketBefore child childStart childEnd position else None)
               (rev (with_offsets nodeOffsetStart (AstNode_children node))))"
  by pat_completeness auto
termination by (relation "measure (\<lambda>(n, _). size n)") (auto simp del: AstNode_children.simps AstNode.size dest: with_offsets_size)

function getFirstBracketAfter :: "BracketKind AstNode \<Rightarrow> Length \<Rightarrow> Length \<Rightarrow> Length \<Rightarrow> IFoundBracket option" where
  "getFirstBracketAfter node nodeOffsetStart nodeOffsetEnd position =
     (case node of
        BracketAstNode _ bracketInfo _ \<Rightarrow> Some \<lparr>fb_range = lengthsToRange nodeOffsetStart nodeOffsetEnd, fb_bracketInfo = bracketInfo\<rparr>
      | InvalidBracketAstNode _ _ \<Rightarrow> None
      | TextAstNode _ \<Rightarrow> None
      | _ \<Rightarrow> first_Some (\<lambda>(child, childStart, childEnd). if lengthLessThan position childEnd then getFirstBracketAfter child childStart childEnd position else None)
               (with_offsets nodeOffsetStart (AstNode_children node)))"
  by pat_completeness auto
termination by (relation "measure (\<lambda>(n, _). size n)") (auto simp del: AstNode_children.simps AstNode.size dest: with_offsets_size)

declare getFirstBracketBefore.simps [simp del] getFirstBracketAfter.simps [simp del]

text \<open>All brackets of a tree with their places, from left to right.\<close>

fun bracket_places :: "'k AstNode \<Rightarrow> Length \<Rightarrow> (Length \<times> Length \<times> 'k) list" where
  "bracket_places (BracketAstNode l k _) off = [(off, lengthAdd off l, k)]"
| "bracket_places (PairAstNode _ ob child closing _) off =
     bracket_places ob off @
     (let o1 = lengthAdd off (AstNode_length ob)
      in (case child of None \<Rightarrow> [] | Some c \<Rightarrow> bracket_places c o1) @
         (case closing of None \<Rightarrow> [] | Some c \<Rightarrow> bracket_places c (case child of None \<Rightarrow> o1 | Some d \<Rightarrow> lengthAdd o1 (AstNode_length d))))"
| "bracket_places (TwoThreeListAstNode _ _ _ a b c _) off =
     (let o1 = lengthAdd off (AstNode_length a)
      in bracket_places a off @ bracket_places b o1 @ (case c of None \<Rightarrow> [] | Some d \<Rightarrow> bracket_places d (lengthAdd o1 (AstNode_length b))))"
| "bracket_places _ _ = []"

definition found :: "Length \<times> Length \<times> BracketKind \<Rightarrow> IFoundBracket" where
  "found = (\<lambda>(s, e, k). \<lparr>fb_range = lengthsToRange s e, fb_bracketInfo = k\<rparr>)"

text \<open>A tree for a text, by its children.\<close>

definition places_list :: "('k AstNode \<times> Length \<times> Length) list \<Rightarrow> (Length \<times> Length \<times> 'k) list" where
  "places_list cs = concat (map (\<lambda>(c, s, _). bracket_places c s) cs)"

lemma bracket_places_children: "AstNode_children n \<noteq> [] \<Longrightarrow> spans n s \<Longrightarrow> bracket_places n off = places_list (with_offsets off (AstNode_children n))"
  by (erule spans.cases) (auto simp: places_list_def Let_def split: option.splits)

lemma spans_children:
  assumes "spans n s" "AstNode_kind n = KList \<or> AstNode_kind n = KPair"
  shows "forest (AstNode_children n) s \<and> AstNode_children n \<noteq> []"
  using assms(1)
proof cases
  case (spans_pair ob s1 child s2 ids closing s3 l)
  have one: "forest (case c of None \<Rightarrow> [] | Some d \<Rightarrow> [d]) t" if "c = None \<and> t = [] \<or> (\<exists>d. c = Some d \<and> spans d t)" for c and t
    using that by auto
  have "forest (case child of None \<Rightarrow> [] | Some d \<Rightarrow> [d]) s2" "forest (case closing of None \<Rightarrow> [] | Some d \<Rightarrow> [d]) s3"
    using one [of child s2] one [of closing s3] spans_pair by blast+
  then have "forest ((case child of None \<Rightarrow> [] | Some d \<Rightarrow> [d]) @ (case closing of None \<Rightarrow> [] | Some d \<Rightarrow> [d])) (s2 @ s3)" unfolding forest_append by blast
  then show ?thesis using spans_pair(1,2,3) by auto
next
  case (spans_two a s1 b s2 h l ids im)
  then show ?thesis by auto
next
  case (spans_three a s1 b s2 c s3 h l ids im)
  have "forest [b, c] (s2 @ s3)" using spans_three by auto
  then have "forest [a, b, c] (s1 @ s2 @ s3)" using spans_three(3) unfolding forest.simps(2) [of a] by blast
  then show ?thesis using spans_three by simp
qed (use assms(2) in auto)

lemma forest_offsets:
  assumes "forest cs s" "short (x @ s)" "(c, a, b) \<in> set (with_offsets (plen x) cs)"
  shows "\<exists>u v w. s = u @ v @ w \<and> spans c v \<and> a = plen (x @ u) \<and> b = plen (x @ u @ v)"
  using assms
proof (induction cs arbitrary: x s)
  case (Cons d ds)
  obtain v r where s: "s = v @ r" "spans d v" "forest ds r" using Cons.prems(1) by auto
  have sh: "short x" "short v" "short ((x @ v) @ r)" using Cons.prems(2) s(1) short_append [of x "v @ r"] short_append [of v r] by auto
  have o: "lengthAdd (plen x) (AstNode_length d) = plen (x @ v)" using spans_length [OF s(2)] plen_append sh(1,2) by simp
  from Cons.prems(3) consider "c = d" "a = plen x" "b = plen (x @ v)" | "(c, a, b) \<in> set (with_offsets (plen (x @ v)) ds)" by (auto simp: o)
  then show ?case
  proof cases
    case 1
    with s show ?thesis by (intro exI [of _ "[]"] exI [of _ v] exI [of _ r]) simp
  next
    case 2
    from Cons.IH [OF s(3) sh(3) this] obtain u v2 w where "r = u @ v2 @ w" "spans c v2" "a = plen ((x @ v) @ u)" "b = plen ((x @ v) @ u @ v2)" by blast
    with s(1) show ?thesis by (intro exI [of _ "v @ u"] exI [of _ v2] exI [of _ w]) simp
  qed
qed simp

lemma leaf_or_node: "spans n s \<Longrightarrow> (\<exists>l. n = TextAstNode l) \<or> (\<exists>ids l. n = InvalidBracketAstNode ids l) \<or> (\<exists>l k ids. n = BracketAstNode l k ids) \<or> AstNode_kind n = KList \<or> AstNode_kind n = KPair"
  by (erule spans.cases) auto

lemma places_within:
  assumes "spans n s" "short (x @ s)" "(a, b, k) \<in> set (bracket_places n (plen x))"
  shows "plen x \<le> a \<and> a \<le> b \<and> b \<le> plen (x @ s)"
  using assms
proof (induction "size n" arbitrary: n s x rule: less_induct)
  case less
  show ?case
  proof (cases "AstNode_kind n = KList \<or> AstNode_kind n = KPair")
    case True
    note f = spans_children [OF less.prems(1) True]
    obtain c ca cb where c: "(c, ca, cb) \<in> set (with_offsets (plen x) (AstNode_children n))" "(a, b, k) \<in> set (bracket_places c ca)"
      using less.prems(3) bracket_places_children [OF conjunct2 [OF f] less.prems(1)] by (auto simp: places_list_def)
    obtain u v w where v: "s = u @ v @ w" "spans c v" "ca = plen (x @ u)" "cb = plen (x @ u @ v)" using forest_offsets [OF conjunct1 [OF f] less.prems(2) c(1)] by blast
    have sh: "short (x @ u)" "short ((x @ u) @ v)" "short x" "short u" "short (x @ u @ v)" "short w" "short v"
      using less.prems(2) v(1) short_append [of "x @ u @ v" w] short_append [of "x @ u" v] short_append [of x u] by auto
    have "size c < size n" using children_size with_offsets_children [OF c(1)] by blast
    from less.hyps [OF this v(2) sh(2)] c(2) v(3) have "plen (x @ u) \<le> a \<and> a \<le> b \<and> b \<le> plen (x @ u @ v)" by simp
    then show ?thesis using plen_le_append [OF sh(3,4)] plen_le_append [OF sh(5,6)] v(1) by simp
  next
    case False
    then obtain l k' ids where n: "n = BracketAstNode l k' ids" using leaf_or_node [OF less.prems(1)] less.prems(3) by auto
    have "l = plen s" using spans_length [OF less.prems(1)] n by simp
    then show ?thesis using less.prems(2,3) n short_append [of x s] plen_append [of x s] plen_le_append [of x s] by simp
  qed
qed

lemma first_Some_concat: "first_Some (\<lambda>x. map_option h (List.find P (g x))) xs = map_option h (List.find P (concat (map g xs)))"
proof (induction xs)
  case (Cons x xs)
  have "List.find P (as @ bs) = (case List.find P as of None \<Rightarrow> List.find P bs | Some y \<Rightarrow> Some y)" for as bs by (induction as) auto
  with Cons show ?case by (simp split: option.split)
qed simp

lemma find_None: "(\<And>x. x \<in> set xs \<Longrightarrow> \<not> P x) \<Longrightarrow> List.find P xs = None"
  by (simp add: find_None_iff)

lemma rev_places: "rev (places_list cs) = concat (map (\<lambda>(c, s, _). rev (bracket_places c s)) (rev cs))"
  by (induction cs) (auto simp: places_list_def)

text \<open>A child that is not searched has no bracket that is asked for.\<close>

lemma first_after_children:
  assumes n: "spans n s" "short (x @ s)" "AstNode_kind n = KList \<or> AstNode_kind n = KPair"
    and IH: "\<And>c y v. c \<in> set (AstNode_children n) \<Longrightarrow> spans c v \<Longrightarrow> short (y @ v) \<Longrightarrow> pos < plen (y @ v) \<Longrightarrow>
      getFirstBracketAfter c (plen y) (plen (y @ v)) pos = map_option found (List.find (\<lambda>(_, e, _). pos < e) (bracket_places c (plen y)))"
  shows "getFirstBracketAfter n (plen x) z pos = map_option found (List.find (\<lambda>(_, e, _). pos < e) (bracket_places n (plen x)))"
proof -
  note f = spans_children [OF n(1,3)]
  have one: "(if lengthLessThan pos b then getFirstBracketAfter c a b pos else None) = map_option found (List.find (\<lambda>(_, e, _). pos < e) (bracket_places c a))"
    if c: "(c, a, b) \<in> set (with_offsets (plen x) (AstNode_children n))" for c a b
  proof -
    obtain u v w where v: "s = u @ v @ w" "spans c v" "a = plen (x @ u)" "b = plen ((x @ u) @ v)" using forest_offsets [OF conjunct1 [OF f] n(2) c] by auto
    have sh: "short ((x @ u) @ v)" using n(2) v(1) short_append [of "(x @ u) @ v" w] by simp
    have "List.find (\<lambda>(_, e, _). pos < e) (bracket_places c a) = None" if "\<not> pos < b"
      by (rule find_None) (use places_within [OF v(2) sh] v(3,4) that in fastforce)
    with IH [OF with_offsets_children [OF c] v(2) sh] show ?thesis by (auto simp: lengthLessThan_def v(3,4))
  qed
  have "getFirstBracketAfter n (plen x) z pos = first_Some (\<lambda>(c, a, b). if lengthLessThan pos b then getFirstBracketAfter c a b pos else None) (with_offsets (plen x) (AstNode_children n))"
    using n(3) by (subst getFirstBracketAfter.simps) (cases n; simp)
  also have "\<dots> = first_Some (\<lambda>t. map_option found (List.find (\<lambda>(_, e, _). pos < e) ((\<lambda>(c, a, _). bracket_places c a) t))) (with_offsets (plen x) (AstNode_children n))"
    by (rule first_Some_cong) (use one in auto)
  finally show ?thesis unfolding first_Some_concat bracket_places_children [OF conjunct2 [OF f] n(1)] places_list_def .
qed

lemma first_before_children:
  assumes n: "spans n s" "short (x @ s)" "AstNode_kind n = KList \<or> AstNode_kind n = KPair"
    and IH: "\<And>c y v. c \<in> set (AstNode_children n) \<Longrightarrow> spans c v \<Longrightarrow> short (y @ v) \<Longrightarrow> plen y < pos \<Longrightarrow>
      getFirstBracketBefore c (plen y) (plen (y @ v)) pos = map_option found (List.find (\<lambda>(b, _, _). b < pos) (rev (bracket_places c (plen y))))"
  shows "getFirstBracketBefore n (plen x) z pos = map_option found (List.find (\<lambda>(b, _, _). b < pos) (rev (bracket_places n (plen x))))"
proof -
  note f = spans_children [OF n(1,3)]
  have one: "(if lengthLessThan a pos then getFirstBracketBefore c a b pos else None) = map_option found (List.find (\<lambda>(b, _, _). b < pos) (rev (bracket_places c a)))"
    if c: "(c, a, b) \<in> set (with_offsets (plen x) (AstNode_children n))" for c a b
  proof -
    obtain u v w where v: "s = u @ v @ w" "spans c v" "a = plen (x @ u)" "b = plen ((x @ u) @ v)" using forest_offsets [OF conjunct1 [OF f] n(2) c] by auto
    have sh: "short ((x @ u) @ v)" using n(2) v(1) short_append [of "(x @ u) @ v" w] by simp
    have "List.find (\<lambda>(b, _, _). b < pos) (rev (bracket_places c a)) = None" if "\<not> a < pos"
      by (rule find_None) (use places_within [OF v(2) sh] v(3,4) that in fastforce)
    with IH [OF with_offsets_children [OF c] v(2) sh] show ?thesis by (auto simp: lengthLessThan_def v(3,4))
  qed
  have "getFirstBracketBefore n (plen x) z pos =
      first_Some (\<lambda>(c, a, b). if lengthLessThan a pos then getFirstBracketBefore c a b pos else None) (rev (with_offsets (plen x) (AstNode_children n)))"
    using n(3) by (subst getFirstBracketBefore.simps) (cases n; simp)
  also have "\<dots> = first_Some (\<lambda>t. map_option found (List.find (\<lambda>(b, _, _). b < pos) ((\<lambda>(c, a, _). rev (bracket_places c a)) t))) (rev (with_offsets (plen x) (AstNode_children n)))"
    by (rule first_Some_cong) (use one in auto)
  finally show ?thesis unfolding first_Some_concat bracket_places_children [OF conjunct2 [OF f] n(1)] rev_places .
qed

lemma first_after_inside:
  assumes "spans n s" "short (x @ s)" "pos < plen (x @ s)"
  shows "getFirstBracketAfter n (plen x) (plen (x @ s)) pos = map_option found (List.find (\<lambda>(_, e, _). pos < e) (bracket_places n (plen x)))"
  using assms
proof (induction "size n" arbitrary: n s x rule: less_induct)
  case less
  show ?case
  proof (cases "AstNode_kind n = KList \<or> AstNode_kind n = KPair")
    case True
    show ?thesis by (rule first_after_children [OF less.prems(1,2) True]) (use less.hyps children_size in blast)
  next
    case False
    have "AstNode_length n = plen s" by (rule spans_length [OF less.prems(1)])
    with False leaf_or_node [OF less.prems(1)] show ?thesis
      using less.prems(2,3) short_append [of x s] plen_append [of x s] by (subst getFirstBracketAfter.simps) (auto simp: found_def)
  qed
qed

lemma first_before_inside:
  assumes "spans n s" "short (x @ s)" "plen x < pos"
  shows "getFirstBracketBefore n (plen x) (plen (x @ s)) pos = map_option found (List.find (\<lambda>(b, _, _). b < pos) (rev (bracket_places n (plen x))))"
  using assms
proof (induction "size n" arbitrary: n s x rule: less_induct)
  case less
  show ?case
  proof (cases "AstNode_kind n = KList \<or> AstNode_kind n = KPair")
    case True
    show ?thesis by (rule first_before_children [OF less.prems(1,2) True]) (use less.hyps children_size in blast)
  next
    case False
    have "AstNode_length n = plen s" by (rule spans_length [OF less.prems(1)])
    with False leaf_or_node [OF less.prems(1)] show ?thesis
      using less.prems(2,3) short_append [of x s] plen_append [of x s] by (subst getFirstBracketBefore.simps) (auto simp: found_def)
  qed
qed

text \<open>The root of a document is not a bracket.\<close>

lemma tree_for_cases:
  assumes "tree_for n s"
  obtains (node) "spans n s" "AstNode_kind n = KList \<or> AstNode_kind n = KPair" | (leaf) "\<And>off. bracket_places n off = []"
    "\<And>a b pos. getFirstBracketAfter n a b pos = None" "\<And>a b pos. getFirstBracketBefore n a b pos = None"
proof (cases "n = ListAstNode_getEmpty")
  case True
  show thesis by (rule leaf) (simp_all add: True ListAstNode_getEmpty_def getFirstBracketAfter.simps getFirstBracketBefore.simps)
next
  case False
  with assms have s: "spans n s" "sound_leaves {} n" by (auto simp: tree_for_def)
  show thesis
  proof (cases "AstNode_kind n = KList \<or> AstNode_kind n = KPair")
    case True
    with s(1) show thesis by (rule node)
  next
    case F: False
    have "\<not> sound {} (BracketAstNode l k ids)" for l ids and k :: BracketKind by (auto elim: sound.cases)
    then have "(\<exists>l. n = TextAstNode l) \<or> (\<exists>ids l. n = InvalidBracketAstNode ids l)" using s(2) leaf_or_node [OF s(1)] F by fastforce
    then show thesis by (intro leaf) (auto simp: getFirstBracketAfter.simps getFirstBracketBefore.simps)
  qed
qed

lemma first_after: "tree_for n s \<Longrightarrow> short s \<Longrightarrow>
    getFirstBracketAfter n lengthZero (AstNode_length n) pos = map_option found (List.find (\<lambda>(_, e, _). pos < e) (bracket_places n lengthZero))"
proof (erule tree_for_cases)
  assume n: "short s" "spans n s" "AstNode_kind n = KList \<or> AstNode_kind n = KPair"
  show ?thesis using first_after_children [OF n(2) _ n(3), of "[]" pos] first_after_inside n(1) by (simp add: lengthZero_def)
qed simp

lemma first_before: "tree_for n s \<Longrightarrow> short s \<Longrightarrow>
    getFirstBracketBefore n lengthZero (AstNode_length n) pos = map_option found (List.find (\<lambda>(b, _, _). b < pos) (rev (bracket_places n lengthZero)))"
proof (erule tree_for_cases)
  assume n: "short s" "spans n s" "AstNode_kind n = KList \<or> AstNode_kind n = KPair"
  show ?thesis using first_before_children [OF n(2) _ n(3), of "[]" pos] first_before_inside n(1) by (simp add: lengthZero_def)
qed simp

section \<open>The bracket pairs of a range\<close>

record BracketPairWithMinIndentationInfo =
  pi_range :: Range
  pi_openingBracketRange :: Range
  pi_closingBracketRange :: "Range option"
  pi_nestingLevel :: int
  pi_nestingLevelOfEqualBracketType :: int
  pi_bracketPairNode :: "BracketKind AstNode"
  pi_minVisibleColumnIndentation :: int

fun BracketKind_bracketText :: "BracketKind \<Rightarrow> js_string" where
  "BracketKind_bracketText (OpeningKind b) = ob_bracketText b"
| "BracketKind_bracketText (ClosingKind b) = cb_bracketText b"

fun BracketAstNode_bracketInfo :: "BracketKind AstNode \<Rightarrow> BracketKind option" where
  "BracketAstNode_bracketInfo (BracketAstNode _ k _) = Some k"
| "BracketAstNode_bracketInfo _ = None"

text \<open>The opening and closing bracket of a pair are \<^verbatim>\<open>BracketAstNode\<close>s by their types.\<close>

definition BracketAstNode_text :: "BracketKind AstNode \<Rightarrow> js_string" where
  "BracketAstNode_text n = (case BracketAstNode_bracketInfo n of None \<Rightarrow> [] | Some k \<Rightarrow> BracketKind_bracketText k)"

definition BracketPairInfo_openingBracketInfo :: "BracketPairWithMinIndentationInfo \<Rightarrow> BracketKind option" where
  "BracketPairInfo_openingBracketInfo this = (case pi_bracketPairNode this of PairAstNode _ openingBracket _ _ _ \<Rightarrow> BracketAstNode_bracketInfo openingBracket | _ \<Rightarrow> None)"

definition BracketPairInfo_closingBracketInfo :: "BracketPairWithMinIndentationInfo \<Rightarrow> BracketKind option" where
  "BracketPairInfo_closingBracketInfo this = (case pi_bracketPairNode this of PairAstNode _ _ _ (Some closingBracket) _ \<Rightarrow> BracketAstNode_bracketInfo closingBracket | _ \<Rightarrow> None)"

text \<open>The indentation of a pair, which \<^verbatim>\<open>PairAstNode.computeMinIndentation\<close> reads from the lines of the text model, is an argument.\<close>

record 's CollectBracketPairsContext =
  cc_push :: "(BracketPairWithMinIndentationInfo, 's) callback"
  cc_includeMinIndentation :: bool
  cc_computeMinIndentation :: "BracketKind AstNode \<Rightarrow> Length \<Rightarrow> int"

definition map_get_or_0 :: "(js_string \<rightharpoonup> int) \<Rightarrow> js_string \<Rightarrow> int" where
  "map_get_or_0 m t = (case m t of None \<Rightarrow> 0 | Some existing \<Rightarrow> existing)"

definition pair_info :: "bool \<Rightarrow> (BracketKind AstNode \<Rightarrow> Length \<Rightarrow> int) \<Rightarrow> BracketKind AstNode \<Rightarrow> BracketKind AstNode \<Rightarrow> BracketKind AstNode option \<Rightarrow> BracketKind AstNode option \<Rightarrow>
    Length \<Rightarrow> Length \<Rightarrow> int \<Rightarrow> int \<Rightarrow> BracketPairWithMinIndentationInfo" where
  "pair_info includeMinIndentation computeMinIndentation node openingBracket child closingBracket nodeOffsetStart nodeOffsetEnd level levelPerBracket =
     (let openingBracketEnd = lengthAdd nodeOffsetStart (AstNode_length openingBracket);
          minIndentation = if includeMinIndentation then computeMinIndentation node nodeOffsetStart else -1
      in \<lparr>pi_range = lengthsToRange nodeOffsetStart nodeOffsetEnd,
          pi_openingBracketRange = lengthsToRange nodeOffsetStart openingBracketEnd,
          pi_closingBracketRange = (case closingBracket of None \<Rightarrow> None
            | Some _ \<Rightarrow> Some (lengthsToRange (lengthAdd openingBracketEnd (case child of None \<Rightarrow> lengthZero | Some c \<Rightarrow> AstNode_length c)) nodeOffsetEnd)),
          pi_nestingLevel = level,
          pi_nestingLevelOfEqualBracketType = levelPerBracket,
          pi_bracketPairNode = node,
          pi_minVisibleColumnIndentation = minIndentation\<rparr>)"

lemma pair_size [simp]: "size c < size (PairAstNode l openingBracket (Some c) closingBracket ids)"
  by simp

function collectBracketPairs :: "BracketKind AstNode \<Rightarrow> Length \<Rightarrow> Length \<Rightarrow> Length \<Rightarrow> Length \<Rightarrow> 's CollectBracketPairsContext \<Rightarrow> int \<Rightarrow>
    (js_string \<rightharpoonup> int) \<Rightarrow> 's \<Rightarrow> bool \<times> (js_string \<rightharpoonup> int) \<times> 's" where
  "collectBracketPairs node nodeOffsetStart nodeOffsetEnd start_offset end_offset context level levelPerBracketType st =
     (if level > 200 then (True, levelPerBracketType, st)
      else (case node of
          PairAstNode _ openingBracket child closingBracket _ \<Rightarrow>
            (let text = BracketAstNode_text openingBracket;
                 levelPerBracket = map_get_or_0 levelPerBracketType text;
                 levels = levelPerBracketType(text \<mapsto> levelPerBracket + 1);
                 openingBracketEnd = lengthAdd nodeOffsetStart (AstNode_length openingBracket);
                 (shouldContinue, st1) = cc_push context
                   (pair_info (cc_includeMinIndentation context) (cc_computeMinIndentation context) node openingBracket child closingBracket nodeOffsetStart nodeOffsetEnd level levelPerBracket) st
             in case child of
                  None \<Rightarrow> (shouldContinue, levels(text \<mapsto> levelPerBracket), st1)
                | Some c \<Rightarrow>
                    (let childEnd = lengthAdd openingBracketEnd (AstNode_length c)
                     in if shouldContinue \<and> lengthLessThanEqual openingBracketEnd end_offset \<and> lengthGreaterThanEqual childEnd start_offset then
                          (case collectBracketPairs c openingBracketEnd childEnd start_offset end_offset context (level + 1) levels st1 of
                             (goOn, levels2, st2) \<Rightarrow> if goOn then (True, levels2(text \<mapsto> levelPerBracket), st2) else (False, levels2, st2))
                        else (shouldContinue, levels(text \<mapsto> levelPerBracket), st1)))
        | _ \<Rightarrow>
            iterate_list (with_offsets nodeOffsetStart (AstNode_children node))
              (\<lambda>(child, childOffset, curOffset) (levels, st1).
                 if lengthLessThanEqual childOffset end_offset \<and> lengthLessThanEqual start_offset curOffset
                 then collectBracketPairs child childOffset curOffset start_offset end_offset context level levels st1
                 else (True, levels, st1))
              (levelPerBracketType, st)))"
  by pat_completeness auto
termination by (relation "measure (\<lambda>(n, _). size n)") (auto simp del: AstNode_children.simps AstNode.size dest: with_offsets_size)

declare collectBracketPairs.simps [simp del]

text \<open>All pairs of a tree with their places, from the outside to the inside and from left to right.  \<open>anc\<close> holds the texts of the opening brackets around a node.\<close>

fun pairs_of :: "bool \<Rightarrow> (BracketKind AstNode \<Rightarrow> Length \<Rightarrow> int) \<Rightarrow> BracketKind AstNode \<Rightarrow> Length \<Rightarrow> js_string list \<Rightarrow> (Length \<times> Length \<times> BracketPairWithMinIndentationInfo) list" where
  "pairs_of incl ind (PairAstNode l ob child closing ids) off anc =
     (let t = BracketAstNode_text ob
      in (off, lengthAdd off l, pair_info incl ind (PairAstNode l ob child closing ids) ob child closing off (lengthAdd off l) (int (length anc)) (int (count_list anc t))) #
         (case child of None \<Rightarrow> [] | Some c \<Rightarrow> pairs_of incl ind c (lengthAdd off (AstNode_length ob)) (t # anc)))"
| "pairs_of incl ind (TwoThreeListAstNode _ _ _ a b c _) off anc =
     (let o1 = lengthAdd off (AstNode_length a)
      in pairs_of incl ind a off anc @ pairs_of incl ind b o1 anc @ (case c of None \<Rightarrow> [] | Some d \<Rightarrow> pairs_of incl ind d (lengthAdd o1 (AstNode_length b)) anc))"
| "pairs_of _ _ _ _ _ = []"

lemma pairs_of_children: "AstNode_kind n = KList \<Longrightarrow> spans n s \<Longrightarrow>
    pairs_of incl ind n off anc = concat (map (\<lambda>(c, a, _). pairs_of incl ind c a anc) (with_offsets off (AstNode_children n)))"
  by (erule spans.cases) (auto simp: Let_def)

lemma pairs_leaf: "spans n s \<Longrightarrow> AstNode_kind n \<noteq> KList \<Longrightarrow> AstNode_kind n \<noteq> KPair \<Longrightarrow> pairs_of incl ind n off anc = []"
  by (erule spans.cases) auto

text \<open>A pair that covers a text: its opening bracket, what is inside and its closing bracket.\<close>

lemma spans_pair_parts:
  assumes "spans (PairAstNode l ob child closing ids) s" "short (x @ s)"
  obtains s1 s2 s3 where "s = s1 @ s2 @ s3" "spans ob s1" "AstNode_kind ob = KBracket" "child = None \<and> s2 = [] \<or> (\<exists>c. child = Some c \<and> spans c s2)"
    "closing = None \<and> s3 = [] \<or> (\<exists>c. closing = Some c \<and> spans c s3 \<and> AstNode_kind c = KBracket)" "lengthAdd (plen x) l = plen (x @ s)" "lengthAdd (plen x) (AstNode_length ob) = plen (x @ s1)"
    "\<forall>c. child = Some c \<longrightarrow> lengthAdd (plen (x @ s1)) (AstNode_length c) = plen ((x @ s1) @ s2)" "short ((x @ s1) @ s2)" "plen x \<le> plen (x @ s1)" "plen ((x @ s1) @ s2) \<le> plen (x @ s)"
proof -
  from assms(1) obtain s1 s2 s3 where s: "s = s1 @ s2 @ s3" "spans ob s1" "AstNode_kind ob = KBracket" "child = None \<and> s2 = [] \<or> (\<exists>c. child = Some c \<and> spans c s2)"
    "closing = None \<and> s3 = [] \<or> (\<exists>c. closing = Some c \<and> spans c s3 \<and> AstNode_kind c = KBracket)" "l = plen s" by (rule spans_pairE) blast
  have sh: "short (((x @ s1) @ s2) @ s3)" "short (x @ s)" using assms(2) s(1) by simp_all
  note sh2 = short_append [OF sh(1)] and sh3 = short_append [OF sh(2)]
  note sh4 = short_append [OF conjunct1 [OF sh2]]
  note sh5 = short_append [OF conjunct1 [OF sh4]]
  show thesis
  proof (rule that [OF s(1-5)])
    show "lengthAdd (plen x) l = plen (x @ s)" using s(6) sh3 plen_append [of x s] by simp
    show "lengthAdd (plen x) (AstNode_length ob) = plen (x @ s1)" using spans_length [OF s(2)] sh5 plen_append [of x s1] by simp
    show "\<forall>c. child = Some c \<longrightarrow> lengthAdd (plen (x @ s1)) (AstNode_length c) = plen ((x @ s1) @ s2)"
      using s(4) sh4 plen_append [of "x @ s1" s2] by (auto simp: spans_length [of _ s2])
    show "short ((x @ s1) @ s2)" using sh2 by simp
    show "plen x \<le> plen (x @ s1)" using sh5 plen_le_append [of x s1] by simp
    show "plen ((x @ s1) @ s2) \<le> plen (x @ s)" using sh2 plen_le_append [of "(x @ s1) @ s2" s3] s(1) by simp
  qed
qed

lemma pairs_within:
  assumes "spans n s" "short (x @ s)" "(a, b, i) \<in> set (pairs_of incl ind n (plen x) anc)"
  shows "plen x \<le> a \<and> b \<le> plen (x @ s) \<and> int (length anc) \<le> pi_nestingLevel i"
  using assms
proof (induction "size n" arbitrary: n s x anc rule: less_induct)
  case less
  consider (list) "AstNode_kind n = KList" | (pair) l ob child closing ids where "n = PairAstNode l ob child closing ids"
    using pairs_leaf [OF less.prems(1)] less.prems(3) by (cases n) auto
  then show ?case
  proof cases
    case list
    note f = spans_children [OF less.prems(1) disjI1 [OF list]]
    obtain c ca cb where c: "(c, ca, cb) \<in> set (with_offsets (plen x) (AstNode_children n))" "(a, b, i) \<in> set (pairs_of incl ind c ca anc)"
      using less.prems(3) pairs_of_children [OF list less.prems(1)] by auto
    obtain u v w where v: "s = u @ v @ w" "spans c v" "ca = plen (x @ u)" "cb = plen (x @ u @ v)" using forest_offsets [OF conjunct1 [OF f] less.prems(2) c(1)] by blast
    have sh: "short (x @ u)" "short ((x @ u) @ v)" "short x" "short u" "short (x @ u @ v)" "short w" "short v"
      using less.prems(2) v(1) short_append [of "x @ u @ v" w] short_append [of "x @ u" v] short_append [of x u] by auto
    from less.hyps [OF with_offsets_size [OF c(1)] v(2) sh(2)] c(2) v(3) have "plen (x @ u) \<le> a \<and> b \<le> plen (x @ u @ v) \<and> int (length anc) \<le> pi_nestingLevel i" by simp
    then show ?thesis using plen_le_append [OF sh(3,4)] plen_le_append [OF sh(5,6)] v(1) by simp
  next
    case pair
    obtain s1 s2 s3 where p: "s = s1 @ s2 @ s3" "spans ob s1" "AstNode_kind ob = KBracket" "child = None \<and> s2 = [] \<or> (\<exists>c. child = Some c \<and> spans c s2)"
      "closing = None \<and> s3 = [] \<or> (\<exists>c. closing = Some c \<and> spans c s3 \<and> AstNode_kind c = KBracket)" "lengthAdd (plen x) l = plen (x @ s)" "lengthAdd (plen x) (AstNode_length ob) = plen (x @ s1)"
      "\<forall>c. child = Some c \<longrightarrow> lengthAdd (plen (x @ s1)) (AstNode_length c) = plen ((x @ s1) @ s2)" "short ((x @ s1) @ s2)" "plen x \<le> plen (x @ s1)" "plen ((x @ s1) @ s2) \<le> plen (x @ s)"
      by (rule spans_pair_parts [OF less.prems(1) [unfolded pair] less.prems(2)])
    show ?thesis
    proof (cases "\<exists>c. child = Some c \<and> (a, b, i) \<in> set (pairs_of incl ind c (plen (x @ s1)) (BracketAstNode_text ob # anc))")
      case True
      then obtain c where c: "child = Some c" "(a, b, i) \<in> set (pairs_of incl ind c (plen (x @ s1)) (BracketAstNode_text ob # anc))" by blast
      have "size c < size n" "spans c s2" using c(1) p(4) pair by auto
      from less.hyps [OF this p(9) c(2)] p(10,11) show ?thesis by auto
    next
      case False
      then have "a = plen x" "b = plen (x @ s)" "pi_nestingLevel i = int (length anc)"
        using less.prems(3) p(6,7) by (auto simp: pair Let_def pair_info_def split: option.splits)
      then show ?thesis by simp
    qed
  qed
qed

definition levels_for :: "js_string list \<Rightarrow> (js_string \<rightharpoonup> int) \<Rightarrow> bool" where
  "levels_for anc m \<longleftrightarrow> (\<forall>t. map_get_or_0 m t = int (count_list anc t))"

definition collected :: "js_string list \<Rightarrow> bool \<times> (js_string \<rightharpoonup> int) \<times> 's \<Rightarrow> bool \<times> 's \<Rightarrow> bool" where
  "collected anc r q \<longleftrightarrow> fst r = fst q \<and> snd (snd r) = snd q \<and> (fst q \<longrightarrow> levels_for anc (fst (snd r)))"

lemma collect_loop:
  assumes "\<And>t m st. t \<in> set ts \<Longrightarrow> levels_for anc m \<Longrightarrow> collected anc (f t (m, st)) (iterate_list (g t) cb st)" "levels_for anc m"
  shows "collected anc (iterate_list ts f (m, st)) (iterate_list (concat (map g ts)) cb st)"
  using assms
proof (induction ts arbitrary: m st)
  case (Cons t ts)
  obtain b m1 st1 where f: "f t (m, st) = (b, m1, st1)" using prod_cases3 by blast
  have c: "iterate_list (g t) cb st = (b, st1)" "b \<Longrightarrow> levels_for anc m1" using Cons.prems(1) [of t m st] Cons.prems(2) f by (auto simp: collected_def prod_eq_iff)
  show ?case
  proof (cases b)
    case True
    have "collected anc (iterate_list ts f (m1, st1)) (iterate_list (concat (map g ts)) cb st1)" using Cons.IH Cons.prems(1) c(2) True by auto
    with c(1) f True show ?thesis by (simp add: iterate_list_append)
  qed (use c f in \<open>simp add: iterate_list_append collected_def\<close>)
qed (simp add: collected_def)

definition wanted :: "Length \<Rightarrow> Length \<Rightarrow> Length \<times> Length \<times> BracketPairWithMinIndentationInfo \<Rightarrow> bool" where
  "wanted start_offset end_offset = (\<lambda>(a, b, i). a \<le> end_offset \<and> start_offset \<le> b \<and> pi_nestingLevel i \<le> 200)"

definition pairs_in :: "'s CollectBracketPairsContext \<Rightarrow> Length \<Rightarrow> Length \<Rightarrow> BracketKind AstNode \<Rightarrow> Length \<Rightarrow> js_string list \<Rightarrow> BracketPairWithMinIndentationInfo list" where
  "pairs_in ctx so eo n off anc = map (\<lambda>(_, _, i). i) (filter (wanted so eo) (pairs_of (cc_includeMinIndentation ctx) (cc_computeMinIndentation ctx) n off anc))"

lemma pairs_outside:
  assumes "spans n s" "short (x @ s)" "\<not> (plen x \<le> eo \<and> so \<le> plen (x @ s)) \<or> 200 < length anc"
  shows "pairs_in ctx so eo n (plen x) anc = []"
proof -
  have "\<not> wanted so eo t" if "t \<in> set (pairs_of (cc_includeMinIndentation ctx) (cc_computeMinIndentation ctx) n (plen x) anc)" for t
    using pairs_within [OF assms(1,2), of "fst t" "fst (snd t)" "snd (snd t)"] that assms(3) by (fastforce simp: wanted_def)
  then show ?thesis by (simp add: pairs_in_def filter_empty_conv)
qed

lemma collected_leave:
  assumes "collected (t # anc) (b, m, st) q" "levels_for anc m0"
  shows "collected anc (if b then (True, m(t \<mapsto> map_get_or_0 m0 t), st) else (False, m, st)) q"
  using assms by (auto simp: collected_def levels_for_def map_get_or_0_def split: if_splits)

lemma levels_enter: "levels_for anc m \<Longrightarrow> levels_for (t # anc) (m(t \<mapsto> map_get_or_0 m t + 1))"
  by (auto simp: levels_for_def map_get_or_0_def)

lemma levels_same: "levels_for anc m \<Longrightarrow> levels_for anc (m(t \<mapsto> x, t \<mapsto> map_get_or_0 m t))"
  by (auto simp: levels_for_def map_get_or_0_def)

lemma collect_pairs:
  assumes "spans n s" "short (x @ s)" "levels_for anc m" "plen x \<le> eo" "so \<le> plen (x @ s)"
  shows "collected anc (collectBracketPairs n (plen x) (plen (x @ s)) so eo ctx (int (length anc)) m st) (iterate_list (pairs_in ctx so eo n (plen x) anc) (cc_push ctx) st)"
  using assms
proof (induction "size n" arbitrary: n s x anc m st rule: less_induct)
  case less
  note c = less.prems
  consider (deep) "200 < length anc" | (pair) l ob child closing ids where "n = PairAstNode l ob child closing ids" "length anc \<le> 200"
    | (list) "AstNode_kind n = KList" "length anc \<le> 200" | (leaf) "AstNode_kind n \<noteq> KList" "AstNode_kind n \<noteq> KPair" "length anc \<le> 200"
    by (cases n) (auto simp: not_less [symmetric])
  then show ?case
  proof cases
    case deep
    then show ?thesis using pairs_outside [OF c(1,2) disjI2 [OF deep], of ctx] c(3) by (subst collectBracketPairs.simps) (simp add: collected_def)
  next
    case leaf
    then have "pairs_in ctx so eo n (plen x) anc = []" using pairs_leaf [OF c(1)] by (simp add: pairs_in_def)
    with leaf leaf_or_node [OF c(1)] c(3) show ?thesis by (subst collectBracketPairs.simps) (auto simp: collected_def)
  next
    case list
    note f = spans_children [OF c(1) disjI1 [OF list(1)]]
    let ?ts = "with_offsets (plen x) (AstNode_children n)"
    let ?f = "\<lambda>(child, a, b) (levels, st1). if lengthLessThanEqual a eo \<and> lengthLessThanEqual so b
       then collectBracketPairs child a b so eo ctx (int (length anc)) levels st1 else (True, levels, st1)"
    have one: "collected anc (?f (d, a, b) (m, st)) (iterate_list (pairs_in ctx so eo d a anc) (cc_push ctx) st)" if d: "(d, a, b) \<in> set ?ts" "levels_for anc m" for d a b m st
    proof -
      obtain u v w where v: "s = u @ v @ w" "spans d v" "a = plen (x @ u)" "b = plen ((x @ u) @ v)" using forest_offsets [OF conjunct1 [OF f] c(2) d(1)] by auto
      have sh: "short ((x @ u) @ v)" using c(2) v(1) short_append [of "(x @ u) @ v" w] by simp
      show ?thesis
      proof (cases "a \<le> eo \<and> so \<le> b")
        case True
        with less.hyps [OF with_offsets_size [OF d(1)] v(2) sh d(2)] v(3,4) show ?thesis by (simp add: lengthLessThanEqual_def)
      next
        case False
        with pairs_outside [OF v(2) sh, of eo so anc ctx] v(3,4) d(2) show ?thesis by (auto simp: lengthLessThanEqual_def collected_def)
      qed
    qed
    have "pairs_in ctx so eo n (plen x) anc = concat (map (\<lambda>(d, a, _). pairs_in ctx so eo d a anc) ?ts)"
      unfolding pairs_in_def pairs_of_children [OF list(1) c(1)] filter_concat map_concat map_map by (rule arg_cong [of _ _ concat]) auto
    moreover have "collectBracketPairs n (plen x) (plen (x @ s)) so eo ctx (int (length anc)) m st = iterate_list ?ts ?f (m, st)"
      using list by (subst collectBracketPairs.simps) (cases n; simp)
    moreover have "collected anc (iterate_list ?ts ?f (m, st)) (iterate_list (concat (map (\<lambda>(d, a, _). pairs_in ctx so eo d a anc) ?ts)) (cc_push ctx) st)"
      by (rule collect_loop [OF _ c(3)]) (use one in auto)
    ultimately show ?thesis by simp
  next
    case pair
    obtain s1 s2 s3 where p: "s = s1 @ s2 @ s3" "spans ob s1" "AstNode_kind ob = KBracket" "child = None \<and> s2 = [] \<or> (\<exists>c. child = Some c \<and> spans c s2)"
      "closing = None \<and> s3 = [] \<or> (\<exists>c. closing = Some c \<and> spans c s3 \<and> AstNode_kind c = KBracket)" "lengthAdd (plen x) l = plen (x @ s)" "lengthAdd (plen x) (AstNode_length ob) = plen (x @ s1)"
      "\<forall>c. child = Some c \<longrightarrow> lengthAdd (plen (x @ s1)) (AstNode_length c) = plen ((x @ s1) @ s2)" "short ((x @ s1) @ s2)" "plen x \<le> plen (x @ s1)" "plen ((x @ s1) @ s2) \<le> plen (x @ s)"
      by (rule spans_pair_parts [OF c(1) [unfolded pair(1)] c(2)])
    let ?t = "BracketAstNode_text ob"
    let ?i = "pair_info (cc_includeMinIndentation ctx) (cc_computeMinIndentation ctx) n ob child closing (plen x) (plen (x @ s)) (int (length anc)) (map_get_or_0 m ?t)"
    have lv: "map_get_or_0 m ?t = int (count_list anc ?t)" using c(3) by (simp add: levels_for_def)
    have w: "wanted so eo (plen x, plen (x @ s), ?i)" using c(4,5) pair(2) by (simp add: wanted_def pair_info_def Let_def)
    have rest: "pairs_in ctx so eo n (plen x) anc = ?i # (case child of None \<Rightarrow> [] | Some d \<Rightarrow> pairs_in ctx so eo d (plen (x @ s1)) (?t # anc))"
      using w p(6,7) lv by (auto simp: pair(1) pairs_in_def Let_def split: option.split)
    obtain b st1 where push: "cc_push ctx ?i st = (b, st1)" by (rule prod.exhaust)
    show ?thesis
    proof (cases "\<exists>d. child = Some d \<and> b \<and> plen (x @ s1) \<le> eo \<and> so \<le> plen ((x @ s1) @ s2)")
      case True
      then obtain d where d: "child = Some d" "b" "plen (x @ s1) \<le> eo" "so \<le> plen ((x @ s1) @ s2)" by blast
      have ds: "size d < size n" "spans d s2" using d(1) p(4) pair(1) by auto
      obtain b2 m2 st2 where r: "collectBracketPairs d (plen (x @ s1)) (plen ((x @ s1) @ s2)) so eo ctx (int (length anc) + 1) (m(?t \<mapsto> map_get_or_0 m ?t + 1)) st1 = (b2, m2, st2)"
        by (rule prod_cases3)
      have "collected (?t # anc) (b2, m2, st2) (iterate_list (pairs_in ctx so eo d (plen (x @ s1)) (?t # anc)) (cc_push ctx) st1)"
        using less.hyps [OF ds p(9) levels_enter [OF c(3)] d(3,4), of ?t st1] r by (simp add: add.commute)
      from collected_leave [OF this c(3)] show ?thesis using pair(2) push p(7,8) d r unfolding rest
        by (subst collectBracketPairs.simps) (simp add: pair(1) Let_def lengthLessThanEqual_def lengthGreaterThanEqual_def)
    next
      case False
      have "(case child of None \<Rightarrow> [] | Some d \<Rightarrow> pairs_in ctx so eo d (plen (x @ s1)) (?t # anc)) = []" if b
        using False that p(4) pairs_outside [OF _ p(9), of _ eo so "?t # anc" ctx] by (auto split: option.split)
      then show ?thesis using pair(2) push p(7,8) False levels_same [OF c(3)] unfolding rest
        by (subst collectBracketPairs.simps) (auto simp: pair(1) Let_def lengthLessThanEqual_def lengthGreaterThanEqual_def collected_def split: option.split)
    qed
  qed
qed

end
