(* ===== verification/Brackets_In_Range.thy ===== *)
theory Brackets_In_Range
  imports Bracket_Queries
begin

text \<open>
  \<^verbatim>\<open>collectBrackets\<close> of \<^verbatim>\<open>bracketPairsTree.ts\<close>: the brackets of a range with their nesting levels.
\<close>

section \<open>The brackets of a range\<close>

record BracketInfo =
  bi_range :: Range
  bi_nestingLevel :: int
  bi_nestingLevelOfEqualBracketType :: int
  bi_isInvalid :: bool

text \<open>The arguments that all calls of \<^verbatim>\<open>collectBrackets\<close> share.\<close>

record 's bracket_window =
  bw_startOffset :: Length
  bw_endOffset :: Length
  bw_push :: "(BracketInfo, 's) callback"
  bw_onlyColorizedBrackets :: bool

definition in_window :: "'s bracket_window \<Rightarrow> Length \<Rightarrow> Length \<Rightarrow> bool" where
  "in_window w nodeOffsetStart nodeOffsetEnd \<longleftrightarrow> lengthLessThanEqual nodeOffsetStart (bw_endOffset w) \<and> lengthGreaterThanEqual nodeOffsetEnd (bw_startOffset w)"

definition pair_colorized :: "bool \<Rightarrow> BracketKind AstNode \<Rightarrow> BracketKind AstNode option \<Rightarrow> bool" where
  "pair_colorized onlyColorizedBrackets openingBracket closingBracket \<longleftrightarrow>
     \<not> onlyColorizedBrackets \<or>
     (case closingBracket of None \<Rightarrow> True
      | Some closing \<Rightarrow> (case (BracketAstNode_bracketInfo closing, BracketAstNode_bracketInfo openingBracket) of
            (Some (ClosingKind c), Some (OpeningKind ob)) \<Rightarrow> ClosingBracketKind_closesColorized ob c
          | _ \<Rightarrow> False))"

text \<open>The loops over the children: \<open>body\<close> is run for the children until it returns false; at the first child with \<open>jump\<close> the outer loop goes on with that child (\<open>next\<close>), and \<open>finish\<close> is what
  follows when there is no such child.\<close>

definition children_loop :: "('t \<Rightarrow> bool) \<Rightarrow> ('t, 's) callback \<Rightarrow> ('t \<Rightarrow> 's \<Rightarrow> bool \<times> 's) \<Rightarrow> ('s \<Rightarrow> bool \<times> 's) \<Rightarrow> 't list \<Rightarrow> 's \<Rightarrow> bool \<times> 's" where
  "children_loop jump body next finish ts st =
     (case iterate_list (takeWhile (\<lambda>t. \<not> jump t) ts) body st of
        (shouldContinue, st2) \<Rightarrow>
          if \<not> shouldContinue then (False, st2)
          else (case dropWhile (\<lambda>t. \<not> jump t) ts of [] \<Rightarrow> finish st2 | t # _ \<Rightarrow> next t st2))"

lemma children_loop_cong [fundef_cong]:
  assumes "ts = ts2" "st = st2" "jump = jump2" "finish = finish2" "\<And>t s. t \<in> set ts2 \<Longrightarrow> body t s = body2 t s" "\<And>t s. t \<in> set ts2 \<Longrightarrow> next t s = next2 t s"
  shows "children_loop jump body next finish ts st = children_loop jump2 body2 next2 finish2 ts2 st2"
proof -
  have "iterate_list (takeWhile (\<lambda>t. \<not> jump2 t) ts2) body st2 = iterate_list (takeWhile (\<lambda>t. \<not> jump2 t) ts2) body2 st2"
    by (rule iterate_list_cong) (use assms(5) set_takeWhileD in fastforce)+
  moreover have "(case dropWhile (\<lambda>t. \<not> jump2 t) ts2 of [] \<Rightarrow> finish2 s | t # _ \<Rightarrow> next t s) = (case dropWhile (\<lambda>t. \<not> jump2 t) ts2 of [] \<Rightarrow> finish2 s | t # _ \<Rightarrow> next2 t s)" for s
  proof (cases "dropWhile (\<lambda>t. \<not> jump2 t) ts2")
    case (Cons t r)
    then have "t \<in> set ts2" by (metis list.set_intros(1) set_dropWhileD)
    with Cons assms(6) show ?thesis by simp
  qed (simp only: list.case)
  ultimately show ?thesis by (simp only: assms(1-4) children_loop_def)
qed

function collectBrackets :: "'s bracket_window \<Rightarrow> BracketKind AstNode \<Rightarrow> Length \<Rightarrow> Length \<Rightarrow> int \<Rightarrow> int \<Rightarrow> bool \<Rightarrow> (js_string \<rightharpoonup> int) \<times> 's \<Rightarrow> bool \<times> (js_string \<rightharpoonup> int) \<times> 's"
  and collect_node :: "'s bracket_window \<Rightarrow> BracketKind AstNode \<Rightarrow> Length \<Rightarrow> Length \<Rightarrow> int \<Rightarrow> int \<Rightarrow> bool \<Rightarrow> (js_string \<rightharpoonup> int) \<times> 's \<Rightarrow> bool \<times> (js_string \<rightharpoonup> int) \<times> 's" where
  "collectBrackets w node nodeOffsetStart nodeOffsetEnd level nestingLevelOfEqualBracketType parentPairIsIncomplete st =
     (if level > 200 then (True, st)
      else collect_node w node nodeOffsetStart nodeOffsetEnd level nestingLevelOfEqualBracketType parentPairIsIncomplete st)"
| "collect_node w node nodeOffsetStart nodeOffsetEnd level nestingLevelOfEqualBracketType parentPairIsIncomplete (levelPerBracketType, st) =
     (case node of
        PairAstNode _ openingBracket child closingBracket _ \<Rightarrow>
          (let colorize = pair_colorized (bw_onlyColorizedBrackets w) openingBracket closingBracket;
               text = BracketAstNode_text openingBracket;
               levelPerBracket = map_get_or_0 levelPerBracketType text;
               levels = if colorize then levelPerBracketType(text \<mapsto> levelPerBracket + 1) else levelPerBracketType;
               innerLevel = if colorize then level + 1 else level;
               innerNesting = if colorize then levelPerBracket + 1 else levelPerBracket
           in children_loop
                (\<lambda>(child, a, b). in_window w a b \<and> lengthGreaterThanEqual b (bw_endOffset w) \<and> AstNode_kind child \<noteq> KBracket)
                (\<lambda>(child, a, b) st1.
                   if in_window w a b \<and> (colorize \<or> AstNode_kind child \<noteq> KBracket \<or> closingBracket = None)
                   then collectBrackets w child a b innerLevel innerNesting (closingBracket = None) st1
                   else (True, st1))
                (\<lambda>(child, a, b). collect_node w child a b innerLevel innerNesting parentPairIsIncomplete)
                (\<lambda>(levels2, st2). (True, levels2(text \<mapsto> levelPerBracket), st2))
                (with_offsets nodeOffsetStart (AstNode_children node)) (levels, st))
      | InvalidBracketAstNode _ _ \<Rightarrow>
          (case bw_push w \<lparr>bi_range = lengthsToRange nodeOffsetStart nodeOffsetEnd, bi_nestingLevel = level - 1, bi_nestingLevelOfEqualBracketType = 0, bi_isInvalid = True\<rparr> st of
             (goOn, st2) \<Rightarrow> (goOn, levelPerBracketType, st2))
      | BracketAstNode _ _ _ \<Rightarrow>
          (case bw_push w \<lparr>bi_range = lengthsToRange nodeOffsetStart nodeOffsetEnd, bi_nestingLevel = level - 1,
               bi_nestingLevelOfEqualBracketType = nestingLevelOfEqualBracketType - 1, bi_isInvalid = parentPairIsIncomplete\<rparr> st of
             (goOn, st2) \<Rightarrow> (goOn, levelPerBracketType, st2))
      | TextAstNode _ \<Rightarrow> (True, levelPerBracketType, st)
      | _ \<Rightarrow>
          children_loop
            (\<lambda>(child, a, b). in_window w a b \<and> lengthGreaterThanEqual b (bw_endOffset w))
            (\<lambda>(child, a, b) st1. if in_window w a b then collectBrackets w child a b level 0 False st1 else (True, st1))
            (\<lambda>(child, a, b). collect_node w child a b level nestingLevelOfEqualBracketType parentPairIsIncomplete)
            (\<lambda>st2. (True, st2))
            (with_offsets nodeOffsetStart (AstNode_children node)) (levelPerBracketType, st))"
  by pat_completeness auto
termination
  by (relation "measure (case_sum (\<lambda>(_, n, _). 2 * size n + 1) (\<lambda>(_, n, _). 2 * size n))")
    (auto simp del: AstNode_children.simps AstNode.size dest: with_offsets_size)

declare collectBrackets.simps [simp del] collect_node.simps [simp del]

section \<open>All brackets of a tree\<close>

text \<open>\<open>anc\<close> holds the texts of the opening brackets of the colorized pairs around a node.\<close>

fun brackets_of :: "bool \<Rightarrow> BracketKind AstNode \<Rightarrow> Length \<Rightarrow> js_string list \<Rightarrow> int \<Rightarrow> bool \<Rightarrow> (Length \<times> Length \<times> BracketInfo) list" where
  "brackets_of only (BracketAstNode l _ _) off anc nesting incomplete =
     [(off, lengthAdd off l, \<lparr>bi_range = lengthsToRange off (lengthAdd off l), bi_nestingLevel = int (length anc) - 1, bi_nestingLevelOfEqualBracketType = nesting - 1, bi_isInvalid = incomplete\<rparr>)]"
| "brackets_of only (InvalidBracketAstNode _ l) off anc _ _ =
     [(off, lengthAdd off l, \<lparr>bi_range = lengthsToRange off (lengthAdd off l), bi_nestingLevel = int (length anc) - 1, bi_nestingLevelOfEqualBracketType = 0, bi_isInvalid = True\<rparr>)]"
| "brackets_of only (PairAstNode _ ob child closing _) off anc _ _ =
     (let colorize = pair_colorized only ob closing;
          t = BracketAstNode_text ob;
          anc2 = if colorize then t # anc else anc;
          nesting = int (count_list anc2 t);
          o1 = lengthAdd off (AstNode_length ob);
          o2 = (case child of None \<Rightarrow> o1 | Some c \<Rightarrow> lengthAdd o1 (AstNode_length c))
      in (if colorize then brackets_of only ob off anc2 nesting (closing = None) else []) @
         (case child of None \<Rightarrow> [] | Some c \<Rightarrow> brackets_of only c o1 anc2 0 False) @
         (case closing of None \<Rightarrow> [] | Some c \<Rightarrow> if colorize then brackets_of only c o2 anc2 nesting False else []))"
| "brackets_of only (TwoThreeListAstNode _ _ _ a b c _) off anc _ _ =
     (let o1 = lengthAdd off (AstNode_length a)
      in brackets_of only a off anc 0 False @ brackets_of only b o1 anc 0 False @
         (case c of None \<Rightarrow> [] | Some d \<Rightarrow> brackets_of only d (lengthAdd o1 (AstNode_length b)) anc 0 False))"
| "brackets_of _ _ _ _ _ _ = []"

lemma brackets_of_list: "AstNode_kind n = KList \<Longrightarrow> spans n s \<Longrightarrow>
    brackets_of only n off anc nesting inc = concat (map (\<lambda>(c, a, _). brackets_of only c a anc 0 False) (with_offsets off (AstNode_children n)))"
  by (erule spans.cases) (auto simp: Let_def)

lemma brackets_of_other: "AstNode_kind n \<noteq> KBracket \<Longrightarrow> brackets_of only n off anc nesting inc = brackets_of only n off anc 0 False"
  by (cases n) auto

lemma brackets_of_pair:
  assumes "AstNode_kind ob = KBracket" "\<And>c. child = Some c \<Longrightarrow> AstNode_kind c \<noteq> KBracket" "\<And>c. closing = Some c \<Longrightarrow> AstNode_kind c = KBracket"
    "colorize = pair_colorized only ob closing" "anc2 = (if colorize then BracketAstNode_text ob # anc else anc)"
  shows "brackets_of only (PairAstNode l ob child closing ids) off anc nesting inc =
    concat (map (\<lambda>(c, a, _). if colorize \<or> AstNode_kind c \<noteq> KBracket then brackets_of only c a anc2 (int (count_list anc2 (BracketAstNode_text ob))) (closing = None) else [])
      (with_offsets off (AstNode_children (PairAstNode l ob child closing ids))))"
proof (cases child)
  case None
  with assms show ?thesis by (auto simp: Let_def split: option.splits)
next
  case (Some c)
  have "brackets_of only c (lengthAdd off (AstNode_length ob)) anc2 (int (count_list anc2 (BracketAstNode_text ob))) (closing = None) =
    brackets_of only c (lengthAdd off (AstNode_length ob)) anc2 0 False" by (rule brackets_of_other [OF assms(2) [OF Some]])
  with assms Some show ?thesis by (auto simp: Let_def split: option.splits)
qed

lemma brackets_in_child:
  assumes "spans n s" "AstNode_kind n = KList \<or> AstNode_kind n = KPair" "t \<in> set (brackets_of only n off anc nesting inc)"
  obtains c a b anc2 nesting2 inc2 where "(c, a, b) \<in> set (with_offsets off (AstNode_children n))" "t \<in> set (brackets_of only c a anc2 nesting2 inc2)" "length anc \<le> length anc2"
  using assms(1)
proof cases
  case (spans_pair ob s1 child s2 ids closing s3 l)
  show thesis using assms(3) unfolding spans_pair(1) brackets_of.simps Let_def
    by (cases child; cases closing) (auto split: if_splits intro: that simp: spans_pair(1))
next
  case (spans_two a s1 b s2 h l ids im)
  with assms(3) show thesis by (auto simp: Let_def intro: that)
next
  case (spans_three a s1 b s2 c s3 h l ids im)
  with assms(3) show thesis by (auto simp: Let_def intro: that)
qed (use assms(2) in auto)

lemma brackets_within:
  assumes "spans n s" "short (x @ s)" "(a, b, i) \<in> set (brackets_of only n (plen x) anc nesting inc)"
  shows "plen x \<le> a \<and> b \<le> plen (x @ s) \<and> int (length anc) - 1 \<le> bi_nestingLevel i"
  using assms
proof (induction "size n" arbitrary: n s x anc nesting inc rule: less_induct)
  case less
  show ?case
  proof (cases "AstNode_kind n = KList \<or> AstNode_kind n = KPair")
    case True
    note f = spans_children [OF less.prems(1) True]
    obtain c ca cb anc2 nesting2 inc2 where c: "(c, ca, cb) \<in> set (with_offsets (plen x) (AstNode_children n))" "(a, b, i) \<in> set (brackets_of only c ca anc2 nesting2 inc2)" "length anc \<le> length anc2"
      by (rule brackets_in_child [OF less.prems(1) True less.prems(3)])
    obtain u v w where v: "s = u @ v @ w" "spans c v" "ca = plen (x @ u)" "cb = plen (x @ u @ v)" using forest_offsets [OF conjunct1 [OF f] less.prems(2) c(1)] by blast
    have sh: "short (x @ u)" "short ((x @ u) @ v)" "short x" "short u" "short (x @ u @ v)" "short w" "short v"
      using less.prems(2) v(1) short_append [of "x @ u @ v" w] short_append [of "x @ u" v] short_append [of x u] by auto
    from less.hyps [OF with_offsets_size [OF c(1)] v(2) sh(2)] c(2) v(3) have "plen (x @ u) \<le> a \<and> b \<le> plen (x @ u @ v) \<and> int (length anc2) - 1 \<le> bi_nestingLevel i" by simp
    then show ?thesis using plen_le_append [OF sh(3,4)] plen_le_append [OF sh(5,6)] v(1) c(3) by simp
  next
    case False
    have "AstNode_length n = plen s" by (rule spans_length [OF less.prems(1)])
    then show ?thesis using leaf_or_node [OF less.prems(1)] False less.prems(2,3) short_append [of x s] plen_append [of x s] by auto
  qed
qed

section \<open>The search collects these brackets\<close>

abbreviation touching :: "'s bracket_window \<Rightarrow> Length \<times> Length \<times> BracketInfo \<Rightarrow> bool" where
  "touching w \<equiv> (\<lambda>(a, b, i). in_window w a b)"

abbreviation infos :: "(Length \<times> Length \<times> BracketInfo) list \<Rightarrow> BracketInfo list" where
  "infos \<equiv> map (\<lambda>(a, b, i). i)"

definition brackets_in :: "'s bracket_window \<Rightarrow> BracketKind AstNode \<Rightarrow> Length \<Rightarrow> js_string list \<Rightarrow> int \<Rightarrow> bool \<Rightarrow> (Length \<times> Length \<times> BracketInfo) list" where
  "brackets_in w n off anc nesting inc = filter (touching w) (brackets_of (bw_onlyColorizedBrackets w) n off anc nesting inc)"

lemma in_window_iff: "in_window w a b \<longleftrightarrow> a \<le> bw_endOffset w \<and> bw_startOffset w \<le> b"
  by (simp add: in_window_def lengthLessThanEqual_def lengthGreaterThanEqual_def)

lemma brackets_outside:
  assumes "spans n s" "short (x @ s)" "\<not> in_window w (plen x) (plen (x @ s))"
  shows "brackets_in w n (plen x) anc nesting inc = []"
proof -
  have "\<not> touching w t" if "t \<in> set (brackets_of (bw_onlyColorizedBrackets w) n (plen x) anc nesting inc)" for t
    using brackets_within [OF assms(1,2), of "fst t" "fst (snd t)" "snd (snd t)"] that assms(3) by (fastforce simp: in_window_iff)
  then show ?thesis by (simp add: brackets_in_def filter_empty_conv)
qed

definition shallow :: "bool \<Rightarrow> BracketKind AstNode \<Rightarrow> Length \<Rightarrow> js_string list \<Rightarrow> int \<Rightarrow> bool \<Rightarrow> bool" where
  "shallow only n off anc nesting inc \<longleftrightarrow> (\<forall>(a, b, i) \<in> set (brackets_of only n off anc nesting inc). bi_nestingLevel i < 200)"

lemma brackets_deep:
  assumes "spans n s" "short (x @ s)" "shallow (bw_onlyColorizedBrackets w) n (plen x) anc nesting inc" "200 < length anc"
  shows "brackets_in w n (plen x) anc nesting inc = []"
proof -
  have False if "t \<in> set (brackets_of (bw_onlyColorizedBrackets w) n (plen x) anc nesting inc)" for t
    using brackets_within [OF assms(1,2), of "fst t" "fst (snd t)" "snd (snd t)"] that assms(3,4) by (fastforce simp: shallow_def)
  then have "brackets_of (bw_onlyColorizedBrackets w) n (plen x) anc nesting inc = []" by (metis list.set_intros(1) neq_Nil_conv)
  then show ?thesis by (simp add: brackets_in_def)
qed

text \<open>Brackets are only below pairs.\<close>

definition clean :: "'k AstNode \<Rightarrow> bool" where
  "clean n \<longleftrightarrow> (\<exists>ids. sound_leaves ids n)"

lemma clean_not_bracket: "clean n \<Longrightarrow> AstNode_kind n \<noteq> KBracket"
  by (cases n) (auto simp: clean_def elim: sound.cases)

lemma clean_list_child: "clean n \<Longrightarrow> spans n s \<Longrightarrow> AstNode_kind n = KList \<Longrightarrow> c \<in> set (AstNode_children n) \<Longrightarrow> clean c"
  by (erule spans.cases) (auto simp: clean_def)

lemma clean_pair_child: "clean (PairAstNode l ob (Some c) closing ids) \<Longrightarrow> clean c"
  unfolding clean_def by (auto elim!: sound_pairE) (meson)+

text \<open>The loop over the children, for the children of a list and of a pair: \<open>shown\<close> are the children that it looks at.\<close>

definition child_brackets :: "'s bracket_window \<Rightarrow> (BracketKind AstNode \<Rightarrow> bool) \<Rightarrow> js_string list \<Rightarrow> int \<Rightarrow> bool \<Rightarrow> BracketKind AstNode \<times> Length \<times> Length \<Rightarrow> (Length \<times> Length \<times> BracketInfo) list" where
  "child_brackets w shown anc nesting inc = (\<lambda>(c, a, _). if shown c then brackets_in w c a anc nesting inc else [])"

definition child_body :: "'s bracket_window \<Rightarrow> (BracketKind AstNode \<Rightarrow> bool) \<Rightarrow> js_string list \<Rightarrow> int \<Rightarrow> bool \<Rightarrow> (BracketKind AstNode \<times> Length \<times> Length, (js_string \<rightharpoonup> int) \<times> 's) callback" where
  "child_body w shown anc nesting inc = (\<lambda>(c, a, b) st. if in_window w a b \<and> shown c then collectBrackets w c a b (int (length anc)) nesting inc st else (True, st))"

lemma loop_exact:
  assumes "forest cs s" "short (x @ s)" "set ts \<subseteq> set (with_offsets (plen x) cs)" "levels_for anc m"
    "\<And>c y v m st. c \<in> set cs \<Longrightarrow> (c, plen y, plen (y @ v)) \<in> set ts \<Longrightarrow> shown c \<Longrightarrow> spans c v \<Longrightarrow> short (y @ v) \<Longrightarrow> in_window w (plen y) (plen (y @ v)) \<Longrightarrow> levels_for anc m \<Longrightarrow>
      collected anc (collectBrackets w c (plen y) (plen (y @ v)) (int (length anc)) nesting inc (m, st)) (iterate_list (infos (brackets_in w c (plen y) anc nesting inc)) (bw_push w) st)"
  shows "collected anc (iterate_list ts (child_body w shown anc nesting inc) (m, st)) (iterate_list (infos (concat (map (child_brackets w shown anc nesting inc) ts))) (bw_push w) st)"
proof -
  have "collected anc (child_body w shown anc nesting inc t (m, st)) (iterate_list (infos (child_brackets w shown anc nesting inc t)) (bw_push w) st)"
    if t: "t \<in> set ts" and l: "levels_for anc m" for t m st
  proof -
    obtain c a b where c: "t = (c, a, b)" by (rule prod_cases3)
    obtain u v r where v: "s = u @ v @ r" "spans c v" "a = plen (x @ u)" "b = plen ((x @ u) @ v)" using forest_offsets [OF assms(1,2), of c a b] t c assms(3) by auto
    have sh: "short ((x @ u) @ v)" using assms(2) v(1) short_append [of "(x @ u) @ v" r] by simp
    show ?thesis
    proof (cases "in_window w a b \<and> shown c")
      case True
      have "c \<in> set cs" using t c assms(3) with_offsets_children by blast
      from assms(5) [OF this _ _ v(2) sh _ l, of st] True t show ?thesis by (simp add: c v(3,4) child_body_def child_brackets_def)
    next
      case False
      then have "child_brackets w shown anc nesting inc t = []" using brackets_outside [OF v(2) sh] by (auto simp: c v(3,4) child_brackets_def)
      with False l show ?thesis by (auto simp: c child_body_def collected_def)
    qed
  qed
  from collect_loop [of ts anc "child_body w shown anc nesting inc" "\<lambda>t. infos (child_brackets w shown anc nesting inc t)" "bw_push w", OF this assms(4)]
  show ?thesis by (simp add: map_concat comp_def)
qed

lemma children_loop_none: "\<forall>t \<in> set ts. \<not> jump t \<Longrightarrow>
    children_loop jump body next finish ts st = (case iterate_list ts body st of (goOn, st2) \<Rightarrow> if goOn then finish st2 else (False, st2))"
proof -
  assume a: "\<forall>t \<in> set ts. \<not> jump t"
  then have "takeWhile (\<lambda>t. \<not> jump t) ts = ts" "dropWhile (\<lambda>t. \<not> jump t) ts = []" by (auto simp: takeWhile_eq_all_conv)
  then show ?thesis by (simp add: children_loop_def del: dropWhile_eq_Nil_conv takeWhile_eq_all_conv split: prod.split)
qed

lemma shallow_child:
  assumes "shallow only n off anc nesting inc" "set (brackets_of only c a anc2 nesting2 inc2) \<subseteq> set (brackets_of only n off anc nesting inc)"
  shows "shallow only c a anc2 nesting2 inc2"
  using assms by (auto simp: shallow_def)

text \<open>How the loops of a list and of a pair are instances.\<close>

lemma list_brackets:
  assumes "AstNode_kind n = KList" "spans n s"
  shows "brackets_in w n off anc nesting inc = concat (map (child_brackets w (\<lambda>_. True) anc 0 False) (with_offsets off (AstNode_children n)))"
  unfolding brackets_in_def brackets_of_list [OF assms] filter_concat map_map by (rule arg_cong [of _ _ concat]) (auto simp: child_brackets_def brackets_in_def)

lemma list_node:
  assumes "AstNode_kind n = KList"
  shows "collect_node w n off e (int (length anc)) nesting inc (m, st) =
    children_loop (\<lambda>(c, a, b). in_window w a b \<and> bw_endOffset w \<le> b) (child_body w (\<lambda>_. True) anc 0 False)
      (\<lambda>(c, a, b). collect_node w c a b (int (length anc)) nesting inc) (\<lambda>st2. (True, st2)) (with_offsets off (AstNode_children n)) (m, st)"
  using assms by (subst collect_node.simps) (cases n; simp add: child_body_def lengthGreaterThanEqual_def)

lemma pair_brackets:
  assumes "n = PairAstNode l ob child closing ids" "spans n s" "clean n" "colorize = pair_colorized (bw_onlyColorizedBrackets w) ob closing" "anc2 = (if colorize then BracketAstNode_text ob # anc else anc)"
  shows "brackets_of (bw_onlyColorizedBrackets w) n off anc nesting inc =
    concat (map (\<lambda>(c, a, _). if colorize \<or> AstNode_kind c \<noteq> KBracket then brackets_of (bw_onlyColorizedBrackets w) c a anc2 (int (count_list anc2 (BracketAstNode_text ob))) (closing = None) else [])
      (with_offsets off (AstNode_children n)))"
proof -
  have "AstNode_kind ob = KBracket" "\<And>c. closing = Some c \<Longrightarrow> AstNode_kind c = KBracket" using assms(1,2) by (auto elim: spans_pairE)
  moreover have "\<And>c. child = Some c \<Longrightarrow> AstNode_kind c \<noteq> KBracket" using assms(1,3) clean_pair_child clean_not_bracket by blast
  ultimately show ?thesis unfolding assms(1) by (intro brackets_of_pair) (use assms in auto)
qed

lemma pair_brackets_in:
  assumes "n = PairAstNode l ob child closing ids" "spans n s" "clean n" "colorize = pair_colorized (bw_onlyColorizedBrackets w) ob closing" "anc2 = (if colorize then BracketAstNode_text ob # anc else anc)"
  shows "brackets_in w n off anc nesting inc =
    concat (map (child_brackets w (\<lambda>c. colorize \<or> AstNode_kind c \<noteq> KBracket) anc2 (int (count_list anc2 (BracketAstNode_text ob))) (closing = None)) (with_offsets off (AstNode_children n)))"
  unfolding brackets_in_def pair_brackets [OF assms] filter_concat map_map by (rule arg_cong [of _ _ concat]) (auto simp: child_brackets_def brackets_in_def)

lemma pair_node:
  assumes "n = PairAstNode l ob child closing ids" "colorize = pair_colorized (bw_onlyColorizedBrackets w) ob closing" "anc2 = (if colorize then BracketAstNode_text ob # anc else anc)" "levels_for anc m"
  shows "collect_node w n off e (int (length anc)) nesting inc (m, st) =
    children_loop (\<lambda>(c, a, b). in_window w a b \<and> bw_endOffset w \<le> b \<and> AstNode_kind c \<noteq> KBracket)
      (child_body w (\<lambda>c. colorize \<or> AstNode_kind c \<noteq> KBracket) anc2 (int (count_list anc2 (BracketAstNode_text ob))) (closing = None))
      (\<lambda>(c, a, b). collect_node w c a b (int (length anc2)) (int (count_list anc2 (BracketAstNode_text ob))) inc)
      (\<lambda>(m2, st2). (True, m2(BracketAstNode_text ob \<mapsto> map_get_or_0 m (BracketAstNode_text ob)), st2)) (with_offsets off (AstNode_children n))
      (if colorize then m(BracketAstNode_text ob \<mapsto> map_get_or_0 m (BracketAstNode_text ob) + 1) else m, st)"
proof -
  let ?t = "BracketAstNode_text ob"
  have l: "map_get_or_0 m ?t = int (count_list anc ?t)" using assms(4) by (simp add: levels_for_def)
  have i: "(if colorize then int (length anc) + 1 else int (length anc)) = int (length anc2)" "(if colorize then map_get_or_0 m ?t + 1 else map_get_or_0 m ?t) = int (count_list anc2 ?t)"
    by (auto simp: assms(3) l)
  have c: "(colorize \<or> AstNode_kind d \<noteq> KBracket \<or> closing = None) = (colorize \<or> AstNode_kind d \<noteq> KBracket)" for d :: "BracketKind AstNode" using assms(2) by (auto simp: pair_colorized_def)
  show ?thesis
    unfolding assms(1) collect_node.simps AstNode.case Let_def assms(2) [symmetric] i child_body_def lengthGreaterThanEqual_def c ..
qed

lemma levels_inner: "levels_for anc m \<Longrightarrow> levels_for (if col then t # anc else anc) (if col then m(t \<mapsto> map_get_or_0 m t + 1) else m)"
  using levels_enter [of anc m t] by simp

lemma collected_inner:
  assumes "collected anc2 r q" "levels_for anc m0" "anc2 = (if col then t # anc else anc)"
  shows "collected anc (case r of (goOn, st2) \<Rightarrow> if goOn then (case st2 of (m2, st3) \<Rightarrow> (True, m2(t \<mapsto> map_get_or_0 m0 t), st3)) else (False, st2)) q"
  using assms by (auto simp: collected_def levels_for_def map_get_or_0_def split: if_splits prod.split)

lemma brackets_part: "t \<in> set ts \<Longrightarrow> set (f t) \<subseteq> set (concat (map f ts))"
  by auto

lemma leaf_exact:
  assumes "spans n s" "short (x @ s)" "levels_for anc m" "in_window w (plen x) (plen (x @ s))" "AstNode_kind n \<noteq> KList" "AstNode_kind n \<noteq> KPair"
  shows "collected anc (collect_node w n (plen x) (plen (x @ s)) (int (length anc)) nesting inc (m, st))
    (iterate_list (infos (brackets_in w n (plen x) anc nesting inc)) (bw_push w) st)"
proof -
  have "lengthAdd (plen x) (AstNode_length n) = plen (x @ s)" using spans_length [OF assms(1)] short_append [OF assms(2)] plen_append by simp
  with assms(3-6) leaf_or_node [OF assms(1)] show ?thesis
    by (subst collect_node.simps) (auto simp: brackets_in_def collected_def split: prod.split if_splits)
qed

lemma pair_children_clean:
  assumes "spans (PairAstNode l ob child closing ids) s" "clean (PairAstNode l ob child closing ids)" "c \<in> set (AstNode_children (PairAstNode l ob child closing ids))"
  shows "clean c \<or> AstNode_kind c = KBracket"
  using assms by (auto elim!: spans_pairE dest: clean_pair_child split: option.splits)

text \<open>A node that ends before the range does: all of its brackets that touch the range.\<close>

lemma collect_exact:
  assumes "spans n s" "short (x @ s)" "clean n \<or> AstNode_kind n = KBracket" "levels_for anc m" "in_window w (plen x) (plen (x @ s))"
    "plen (x @ s) < bw_endOffset w \<or> AstNode_kind n = KBracket" "shallow (bw_onlyColorizedBrackets w) n (plen x) anc nesting inc"
  shows "collected anc (collectBrackets w n (plen x) (plen (x @ s)) (int (length anc)) nesting inc (m, st))
    (iterate_list (infos (brackets_in w n (plen x) anc nesting inc)) (bw_push w) st)"
  using assms
proof (induction "size n" arbitrary: n s x anc m st nesting inc rule: less_induct)
  case less
  note c = less.prems
  show ?case
  proof (cases "200 < length anc")
    case True
    with brackets_deep [OF c(1,2,7)] c(4) show ?thesis by (simp add: collectBrackets.simps collected_def)
  next
    case level: False
    then have cn: "collectBrackets w n (plen x) (plen (x @ s)) (int (length anc)) nesting inc (m, st) = collect_node w n (plen x) (plen (x @ s)) (int (length anc)) nesting inc (m, st)"
      by (simp add: collectBrackets.simps)
    consider (list) "AstNode_kind n = KList" | (pair) l ob child closing ids where "n = PairAstNode l ob child closing ids" | (leaf) "AstNode_kind n \<noteq> KList" "AstNode_kind n \<noteq> KPair"
      by (cases n) auto
    then show ?thesis
    proof cases
      case leaf
      then show ?thesis unfolding cn by (rule leaf_exact [OF c(1,2,4,5)])
    next
      case list
      note f = spans_children [OF c(1) disjI1 [OF list]]
      have cl: "clean n" "plen (x @ s) < bw_endOffset w" using c(3,6) list by auto
      let ?ts = "with_offsets (plen x) (AstNode_children n)"
      have inside: "b \<le> plen (x @ s)" if "(d, a, b) \<in> set ?ts" for d a b
        using forest_offsets [OF conjunct1 [OF f] c(2) that] c(2) plen_le_append short_append by (metis append.assoc)
      have "collected anc (iterate_list ?ts (child_body w (\<lambda>_. True) anc 0 False) (m, st)) (iterate_list (infos (concat (map (child_brackets w (\<lambda>_. True) anc 0 False) ?ts))) (bw_push w) st)"
      proof (rule loop_exact [OF conjunct1 [OF f] c(2) order_refl c(4)])
        fix d y v m2 st2
        assume d: "d \<in> set (AstNode_children n)" "(d, plen y, plen (y @ v)) \<in> set ?ts" "spans d v" "short (y @ v)" "in_window w (plen y) (plen (y @ v))" "levels_for anc m2"
        have "set (brackets_of (bw_onlyColorizedBrackets w) d (plen y) anc 0 False) \<subseteq> set (brackets_of (bw_onlyColorizedBrackets w) n (plen x) anc nesting inc)"
          unfolding brackets_of_list [OF list c(1)] using d(2) by force
        note sh = shallow_child [OF c(7) this]
        show "collected anc (collectBrackets w d (plen y) (plen (y @ v)) (int (length anc)) 0 False (m2, st2)) (iterate_list (infos (brackets_in w d (plen y) anc 0 False)) (bw_push w) st2)"
          using less.hyps [OF children_size [OF d(1)] d(3,4) disjI1 [OF clean_list_child [OF cl(1) c(1) list d(1)]] d(6,5) _ sh] inside [OF d(2)] cl(2) by auto
      qed
      moreover have "\<forall>t \<in> set ?ts. \<not> (case t of (d, a, b) \<Rightarrow> in_window w a b \<and> bw_endOffset w \<le> b)" using inside cl(2) by fastforce
      ultimately show ?thesis unfolding cn list_node [OF list] list_brackets [OF list c(1)]
        by (subst children_loop_none) (auto simp: collected_def split: prod.split)
    next
      case pair
      define col where "col = pair_colorized (bw_onlyColorizedBrackets w) ob closing"
      define anc2 where "anc2 = (if col then BracketAstNode_text ob # anc else anc)"
      have cl: "clean n" "plen (x @ s) < bw_endOffset w" using c(3,6) pair by auto
      note f = spans_children [OF c(1), unfolded pair, simplified, folded pair]
      let ?ts = "with_offsets (plen x) (AstNode_children n)"
      let ?k = "int (count_list anc2 (BracketAstNode_text ob))"
      let ?sh = "\<lambda>c. col \<or> AstNode_kind c \<noteq> KBracket"
      let ?m = "if col then m(BracketAstNode_text ob \<mapsto> map_get_or_0 m (BracketAstNode_text ob) + 1) else m"
      have fo: "forest (AstNode_children n) s" using spans_children [OF c(1)] pair by simp
      have inside: "b \<le> plen (x @ s)" if "(d, a, b) \<in> set ?ts" for d a b
        using forest_offsets [OF fo c(2) that] c(2) plen_le_append short_append by (metis append.assoc)
      have it: "collected anc2 (iterate_list ?ts (child_body w ?sh anc2 ?k (closing = None)) (?m, st)) (iterate_list (infos (concat (map (child_brackets w ?sh anc2 ?k (closing = None)) ?ts))) (bw_push w) st)"
      proof (rule loop_exact [OF fo c(2) order_refl])
        show "levels_for anc2 ?m" unfolding anc2_def by (rule levels_inner [OF c(4)])
        fix d y v m2 st2
        assume d: "d \<in> set (AstNode_children n)" "(d, plen y, plen (y @ v)) \<in> set ?ts" "?sh d" "spans d v" "short (y @ v)" "in_window w (plen y) (plen (y @ v))" "levels_for anc2 m2"
        have "set (brackets_of (bw_onlyColorizedBrackets w) d (plen y) anc2 ?k (closing = None)) \<subseteq> set (brackets_of (bw_onlyColorizedBrackets w) n (plen x) anc nesting inc)"
          unfolding pair_brackets [OF pair c(1) cl(1) col_def anc2_def] using brackets_part [OF d(2), of "\<lambda>(c, a, _). if ?sh c then brackets_of (bw_onlyColorizedBrackets w) c a anc2 ?k (closing = None) else []"] d(3) by simp
        note sh = shallow_child [OF c(7) this]
        have dc: "clean d \<or> AstNode_kind d = KBracket" using pair_children_clean c(1) cl(1) d(1) unfolding pair by blast
        show "collected anc2 (collectBrackets w d (plen y) (plen (y @ v)) (int (length anc2)) ?k (closing = None) (m2, st2))
            (iterate_list (infos (brackets_in w d (plen y) anc2 ?k (closing = None))) (bw_push w) st2)"
          using less.hyps [OF children_size [OF d(1)] d(4,5) dc d(7,6) _ sh] inside [OF d(2)] cl(2) by auto
      qed
      have none: "\<forall>t \<in> set ?ts. \<not> (case t of (d, a, b) \<Rightarrow> in_window w a b \<and> bw_endOffset w \<le> b \<and> AstNode_kind d \<noteq> KBracket)" using inside cl(2) by fastforce
      show ?thesis unfolding cn pair_node [OF pair col_def anc2_def c(4)] pair_brackets_in [OF pair c(1) cl(1) col_def anc2_def] children_loop_none [OF none]
        by (rule collected_inner [OF it c(4) anc2_def])
    qed
  qed
qed

lemma with_offsets_split:
  assumes "forest cs s" "short (x @ s)" "with_offsets (plen x) cs = bs @ (c, a, b) # rs"
  shows "\<exists>u w cs2. s = u @ w \<and> b = plen (x @ u) \<and> forest cs2 w \<and> rs = with_offsets b cs2"
  using assms
proof (induction cs arbitrary: x s bs)
  case (Cons d ds)
  obtain v r where s: "s = v @ r" "spans d v" "forest ds r" using Cons.prems(1) by auto
  have sh: "short x" "short v" "short ((x @ v) @ r)" using Cons.prems(2) s(1) short_append [of x "v @ r"] short_append [of v r] by auto
  have o: "lengthAdd (plen x) (AstNode_length d) = plen (x @ v)" using spans_length [OF s(2)] plen_append sh(1,2) by simp
  show ?case
  proof (cases bs)
    case Nil
    with Cons.prems(3) s o show ?thesis by (intro exI [of _ v] exI [of _ r] exI [of _ ds]) auto
  next
    case (Cons t ts)
    with Cons.prems(3) o have "with_offsets (plen (x @ v)) ds = ts @ (c, a, b) # rs" by simp
    from Cons.IH [OF s(3) sh(3) this] obtain u w cs2 where "r = u @ w" "b = plen ((x @ v) @ u)" "forest cs2 w" "rs = with_offsets b cs2" by blast
    with s(1) show ?thesis by (intro exI [of _ "v @ u"] exI [of _ w] exI [of _ cs2]) simp
  qed
qed simp

lemma with_offsets_after:
  assumes "forest cs s" "short (x @ s)" "with_offsets (plen x) cs = bs @ (c, a, b) # rs" "(c2, a2, b2) \<in> set rs"
  shows "b \<le> a2"
proof -
  obtain u w cs2 where w: "s = u @ w" "b = plen (x @ u)" "forest cs2 w" "rs = with_offsets b cs2" using with_offsets_split [OF assms(1-3)] by blast
  have sh: "short ((x @ u) @ w)" using assms(2) w(1) by simp
  obtain u2 v2 w2 where "w = u2 @ v2 @ w2" "a2 = plen ((x @ u) @ u2)" using forest_offsets [OF w(3) sh, of c2 a2 b2] assms(4) w(2,4) by blast
  moreover have "short (((x @ u) @ u2) @ v2 @ w2)" using sh calculation(1) by simp
  ultimately show ?thesis using w(2) short_append [of "(x @ u) @ u2" "v2 @ w2"] short_append [of "x @ u" u2] plen_le_append [of "x @ u" u2] by simp
qed

text \<open>The way down to the end of the range: all brackets that touch the range, except that some that start exactly where the range ends may be left out.\<close>

definition reaches :: "'s bracket_window \<Rightarrow> bool \<times> (js_string \<rightharpoonup> int) \<times> 's \<Rightarrow> (Length \<times> Length \<times> BracketInfo) list \<Rightarrow> 's \<Rightarrow> bool" where
  "reaches w r R st \<longleftrightarrow> (\<exists>P Q. R = P @ Q \<and> (\<forall>(a, _) \<in> set Q. a = bw_endOffset w) \<and> fst r = fst (iterate_list (infos P) (bw_push w) st) \<and> snd (snd r) = snd (iterate_list (infos P) (bw_push w) st))"

lemma reaches_all: "fst r = fst (iterate_list (infos R) (bw_push w) st) \<Longrightarrow> snd (snd r) = snd (iterate_list (infos R) (bw_push w) st) \<Longrightarrow> reaches w r R st"
  unfolding reaches_def by (intro exI [of _ R] exI [of _ "[]"]) simp

lemma reaches_collected: "collected anc r (iterate_list (infos R) (bw_push w) st) \<Longrightarrow> reaches w r R st"
  by (rule reaches_all) (simp_all add: collected_def)

lemma reaches_append:
  assumes "iterate_list (infos R) (bw_push w) st = (True, st1)" "reaches w r R2 st1" "\<forall>(a, _) \<in> set R3. a = bw_endOffset w"
  shows "reaches w r (R @ R2 @ R3) st"
proof -
  obtain P Q where p: "R2 = P @ Q" "\<forall>(a, _) \<in> set Q. a = bw_endOffset w" "fst r = fst (iterate_list (infos P) (bw_push w) st1)" "snd (snd r) = snd (iterate_list (infos P) (bw_push w) st1)"
    using assms(2) unfolding reaches_def by blast
  then show ?thesis unfolding reaches_def by (intro exI [of _ "R @ P"] exI [of _ "Q @ R3"]) (use assms(1,3) in \<open>auto simp: iterate_list_append\<close>)
qed

lemma child_brackets_at_end:
  assumes "forest cs s" "short (x @ s)" "with_offsets (plen x) cs = bs @ (c, a, b) # rs" "bw_endOffset w \<le> b"
  shows "\<forall>(a, _) \<in> set (concat (map (child_brackets w shown anc nesting inc) rs)). a = bw_endOffset w"
proof safe
  fix p q i assume "(p, q, i) \<in> set (concat (map (child_brackets w shown anc nesting inc) rs))"
  then obtain d a2 b2 where d: "(d, a2, b2) \<in> set rs" "(p, q, i) \<in> set (brackets_in w d a2 anc nesting inc)" by (auto simp: child_brackets_def split: if_splits)
  have le: "b \<le> a2" by (rule with_offsets_after [OF assms(1-3) d(1)])
  have "(d, a2, b2) \<in> set (with_offsets (plen x) cs)" using assms(3) d(1) by simp
  from forest_offsets [OF assms(1,2) this] obtain u v r where v: "s = u @ v @ r" "spans d v" "a2 = plen (x @ u)" by blast
  have "short ((x @ u) @ v)" using assms(2) v(1) short_append [of "(x @ u) @ v" r] by simp
  from brackets_within [OF v(2) this] d(2) v(3) have "a2 \<le> p" by (auto simp: brackets_in_def)
  moreover have "p \<le> bw_endOffset w" using d(2) by (auto simp: brackets_in_def in_window_iff)
  ultimately show "p = bw_endOffset w" using le assms(4) by simp
qed

lemma loop_spine:
  assumes "forest cs s" "short (x @ s)" "levels_for anc m"
    and exact: "\<And>c y v m st. c \<in> set cs \<Longrightarrow> (c, plen y, plen (y @ v)) \<in> set (with_offsets (plen x) cs) \<Longrightarrow> shown c \<Longrightarrow> spans c v \<Longrightarrow> short (y @ v) \<Longrightarrow>
      in_window w (plen y) (plen (y @ v)) \<Longrightarrow> levels_for anc m \<Longrightarrow> \<not> jump (c, plen y, plen (y @ v)) \<Longrightarrow>
      collected anc (collectBrackets w c (plen y) (plen (y @ v)) (int (length anc)) nesting inc (m, st)) (iterate_list (infos (brackets_in w c (plen y) anc nesting inc)) (bw_push w) st)"
    and spine: "\<And>c y v m st. c \<in> set cs \<Longrightarrow> (c, plen y, plen (y @ v)) \<in> set (with_offsets (plen x) cs) \<Longrightarrow> spans c v \<Longrightarrow> short (y @ v) \<Longrightarrow> levels_for anc m \<Longrightarrow>
      jump (c, plen y, plen (y @ v)) \<Longrightarrow> reaches w (next (c, plen y, plen (y @ v)) (m, st)) (brackets_in w c (plen y) anc nesting inc) st"
    and jump: "\<And>c a b. jump (c, a, b) \<Longrightarrow> shown c \<and> bw_endOffset w \<le> b"
    and finish: "\<And>m st. fst (finish (m, st)) \<and> snd (snd (finish (m, st))) = st"
  shows "reaches w (children_loop jump (child_body w shown anc nesting inc) next finish (with_offsets (plen x) cs) (m, st))
    (concat (map (child_brackets w shown anc nesting inc) (with_offsets (plen x) cs))) st"
proof -
  let ?ts = "with_offsets (plen x) cs" and ?g = "child_brackets w shown anc nesting inc"
  let ?bs = "takeWhile (\<lambda>t. \<not> jump t) ?ts"
  obtain go m1 st1 where it: "iterate_list ?bs (child_body w shown anc nesting inc) (m, st) = (go, m1, st1)" by (rule prod_cases3)
  have "collected anc (iterate_list ?bs (child_body w shown anc nesting inc) (m, st)) (iterate_list (infos (concat (map ?g ?bs))) (bw_push w) st)"
  proof (rule loop_exact [OF assms(1,2) _ assms(3)])
    show "set ?bs \<subseteq> set ?ts" using set_takeWhileD by fast
  qed (use exact set_takeWhileD in fast)
  then have q: "iterate_list (infos (concat (map ?g ?bs))) (bw_push w) st = (go, st1)" "go \<Longrightarrow> levels_for anc m1" using it by (auto simp: collected_def prod_eq_iff)
  have ts: "?ts = ?bs @ dropWhile (\<lambda>t. \<not> jump t) ?ts" by simp
  show ?thesis
  proof (cases "dropWhile (\<lambda>t. \<not> jump t) ?ts")
    case Nil
    then have "?bs = ?ts" using ts by simp
    with q it Nil finish show ?thesis by (intro reaches_all) (auto simp: children_loop_def simp del: dropWhile_eq_Nil_conv takeWhile_eq_all_conv)
  next
    case (Cons t rs)
    obtain c a b where t: "t = (c, a, b)" by (rule prod_cases3)
    have split: "?ts = ?bs @ (c, a, b) # rs" using ts Cons t by simp
    have jt: "jump (c, a, b)" using hd_dropWhile [of "\<lambda>t. \<not> jump t" ?ts] Cons t by simp
    have all: "concat (map ?g ?ts) = concat (map ?g ?bs) @ brackets_in w c a anc nesting inc @ concat (map ?g rs)"
      by (subst split) (use jump [OF jt] in \<open>simp add: child_brackets_def\<close>)
    show ?thesis
    proof (cases go)
      case True
      have mem: "(c, a, b) \<in> set ?ts" by (subst split) simp
      from forest_offsets [OF assms(1,2) this] obtain u v r where v: "s = u @ v @ r" "spans c v" "a = plen (x @ u)" "b = plen ((x @ u) @ v)" by auto
      have sh: "short ((x @ u) @ v)" using assms(2) v(1) short_append [of "(x @ u) @ v" r] by simp
      have "reaches w (next (c, a, b) (m1, st1)) (brackets_in w c a anc nesting inc) st1"
        using spine [OF with_offsets_children [OF mem] _ v(2) sh q(2) [OF True], of st1] mem jt unfolding v(3,4) by blast
      from reaches_append [OF _ this child_brackets_at_end [OF assms(1,2) split]] q(1) True jump [OF jt]
      show ?thesis unfolding all children_loop_def it Cons t by auto
    next
      case False
      then show ?thesis unfolding all by (intro reaches_all) (simp_all add: children_loop_def it q(1) iterate_list_append)
    qed
  qed
qed

lemma collect_spine:
  assumes "spans n s" "short (x @ s)" "clean n" "levels_for anc m" "in_window w (plen x) (plen (x @ s))" "shallow (bw_onlyColorizedBrackets w) n (plen x) anc nesting inc"
  shows "reaches w (collect_node w n (plen x) (plen (x @ s)) (int (length anc)) nesting inc (m, st)) (brackets_in w n (plen x) anc nesting inc) st"
  using assms
proof (induction "size n" arbitrary: n s x anc m st nesting inc rule: less_induct)
  case less
  note c = less.prems
  consider (list) "AstNode_kind n = KList" | (pair) l ob child closing ids where "n = PairAstNode l ob child closing ids" | (leaf) "AstNode_kind n \<noteq> KList" "AstNode_kind n \<noteq> KPair"
    by (cases n) auto
  then show ?case
  proof cases
    case leaf
    show ?thesis by (rule reaches_collected [OF leaf_exact [OF c(1,2,4,5) leaf]])
  next
    case list
    note f = conjunct1 [OF spans_children [OF c(1) disjI1 [OF list]]]
    let ?ts = "with_offsets (plen x) (AstNode_children n)"
    have sh: "shallow (bw_onlyColorizedBrackets w) d (plen y) anc 0 False" if "(d, plen y, e) \<in> set ?ts" for d y e
    proof (rule shallow_child [OF c(6)])
      show "set (brackets_of (bw_onlyColorizedBrackets w) d (plen y) anc 0 False) \<subseteq> set (brackets_of (bw_onlyColorizedBrackets w) n (plen x) anc nesting inc)"
        unfolding brackets_of_list [OF list c(1)] using that by force
    qed
    show ?thesis unfolding list_node [OF list] list_brackets [OF list c(1)]
    proof (rule loop_spine [OF f c(2,4)])
      fix d y v m2 st2
      assume d: "d \<in> set (AstNode_children n)" "(d, plen y, plen (y @ v)) \<in> set ?ts" "spans d v" "short (y @ v)" "levels_for anc m2"
      note cl = clean_list_child [OF c(3,1) list d(1)]
      show "collected anc (collectBrackets w d (plen y) (plen (y @ v)) (int (length anc)) 0 False (m2, st2)) (iterate_list (infos (brackets_in w d (plen y) anc 0 False)) (bw_push w) st2)"
        if "in_window w (plen y) (plen (y @ v))" "\<not> (case (d, plen y, plen (y @ v)) of (d, a, b) \<Rightarrow> in_window w a b \<and> bw_endOffset w \<le> b)"
        using collect_exact [OF d(3,4) disjI1 [OF cl] d(5) that(1) _ sh [OF d(2)]] that by auto
      assume "case (d, plen y, plen (y @ v)) of (d, a, b) \<Rightarrow> in_window w a b \<and> bw_endOffset w \<le> b"
      moreover have b: "brackets_in w d (plen y) anc 0 False = brackets_in w d (plen y) anc nesting inc" "shallow (bw_onlyColorizedBrackets w) d (plen y) anc nesting inc"
        using brackets_of_other [OF clean_not_bracket [OF cl]] sh [OF d(2)] unfolding brackets_in_def shallow_def by metis+
      ultimately show "reaches w ((case (d, plen y, plen (y @ v)) of (d, a, b) \<Rightarrow> collect_node w d a b (int (length anc)) nesting inc) (m2, st2)) (brackets_in w d (plen y) anc 0 False) st2"
        using less.hyps [OF children_size [OF d(1)] d(3,4) cl d(5) _ b(2)] unfolding b(1) by auto
    qed auto
  next
    case pair
    define col where "col = pair_colorized (bw_onlyColorizedBrackets w) ob closing"
    define anc2 where "anc2 = (if col then BracketAstNode_text ob # anc else anc)"
    let ?ts = "with_offsets (plen x) (AstNode_children n)"
    let ?k = "int (count_list anc2 (BracketAstNode_text ob))"
    let ?sh = "\<lambda>c. col \<or> AstNode_kind c \<noteq> KBracket"
    have f: "forest (AstNode_children n) s" using spans_children [OF c(1)] pair by simp
    have sh: "shallow (bw_onlyColorizedBrackets w) d (plen y) anc2 ?k (closing = None)" if "(d, plen y, e) \<in> set ?ts" "?sh d" for d y e
    proof (rule shallow_child [OF c(6)])
      show "set (brackets_of (bw_onlyColorizedBrackets w) d (plen y) anc2 ?k (closing = None)) \<subseteq> set (brackets_of (bw_onlyColorizedBrackets w) n (plen x) anc nesting inc)"
        unfolding pair_brackets [OF pair c(1,3) col_def anc2_def]
        using brackets_part [OF that(1), of "\<lambda>(c, a, _). if ?sh c then brackets_of (bw_onlyColorizedBrackets w) c a anc2 ?k (closing = None) else []"] that(2) by simp
    qed
    show ?thesis unfolding pair_node [OF pair col_def anc2_def c(4)] pair_brackets_in [OF pair c(1,3) col_def anc2_def]
    proof (rule loop_spine [OF f c(2)])
      show "levels_for anc2 (if col then m(BracketAstNode_text ob \<mapsto> map_get_or_0 m (BracketAstNode_text ob) + 1) else m)" unfolding anc2_def by (rule levels_inner [OF c(4)])
      fix d y v m2 st2
      assume d: "d \<in> set (AstNode_children n)" "(d, plen y, plen (y @ v)) \<in> set ?ts" "spans d v" "short (y @ v)" "levels_for anc2 m2"
      have cl: "clean d \<or> AstNode_kind d = KBracket" using pair_children_clean c(1,3) d(1) unfolding pair by blast
      show "collected anc2 (collectBrackets w d (plen y) (plen (y @ v)) (int (length anc2)) ?k (closing = None) (m2, st2))
          (iterate_list (infos (brackets_in w d (plen y) anc2 ?k (closing = None))) (bw_push w) st2)"
        if "?sh d" "in_window w (plen y) (plen (y @ v))" "\<not> (case (d, plen y, plen (y @ v)) of (d, a, b) \<Rightarrow> in_window w a b \<and> bw_endOffset w \<le> b \<and> AstNode_kind d \<noteq> KBracket)"
        using collect_exact [OF d(3,4) cl d(5) that(2) _ sh [OF d(2) that(1)]] that by auto
      assume j: "case (d, plen y, plen (y @ v)) of (d, a, b) \<Rightarrow> in_window w a b \<and> bw_endOffset w \<le> b \<and> AstNode_kind d \<noteq> KBracket"
      then have cd: "clean d" "AstNode_kind d \<noteq> KBracket" using cl by auto
      have b: "brackets_in w d (plen y) anc2 ?k (closing = None) = brackets_in w d (plen y) anc2 ?k inc" "shallow (bw_onlyColorizedBrackets w) d (plen y) anc2 ?k inc"
        using brackets_of_other [OF cd(2)] sh [OF d(2)] cd(2) unfolding brackets_in_def shallow_def by metis+
      show "reaches w ((case (d, plen y, plen (y @ v)) of (d, a, b) \<Rightarrow> collect_node w d a b (int (length anc2)) ?k inc) (m2, st2)) (brackets_in w d (plen y) anc2 ?k (closing = None)) st2"
        using less.hyps [OF children_size [OF d(1)] d(3,4) cd(1) d(5) _ b(2)] j unfolding b(1) by auto
    qed auto
  qed
qed

text \<open>The brackets in a range of a document.\<close>

lemma collect_brackets:
  assumes "tree_for n s" "short s" "shallow (bw_onlyColorizedBrackets w) n lengthZero [] 0 False" "lengthZero \<le> bw_endOffset w" "bw_startOffset w \<le> AstNode_length n"
  shows "reaches w (collectBrackets w n lengthZero (AstNode_length n) 0 0 False (Map.empty, st)) (brackets_in w n lengthZero [] 0 False) st"
proof (cases "n = ListAstNode_getEmpty")
  case True
  show ?thesis by (rule reaches_all)
    (simp_all add: True ListAstNode_getEmpty_def collectBrackets.simps collect_node.simps brackets_in_def children_loop_def)
next
  case False
  with assms(1) have s: "spans n s" "clean n" by (auto simp: tree_for_def clean_def)
  have "levels_for [] Map.empty" by (simp add: levels_for_def map_get_or_0_def)
  from collect_spine [OF s(1) _ s(2) this, of "[]" w 0 False st] assms(2-5) spans_length [OF s(1)]
  show ?thesis by (simp add: collectBrackets.simps in_window_iff lengthZero_def)
qed

lemma collect_bracket_pairs:
  assumes "tree_for n s" "short s" "lengthZero \<le> eo" "so \<le> AstNode_length n"
  shows "snd (snd (collectBracketPairs n lengthZero (AstNode_length n) so eo ctx 0 Map.empty st)) = iterates (pairs_in ctx so eo n lengthZero []) (cc_push ctx) st"
proof (cases "n = ListAstNode_getEmpty")
  case True
  show ?thesis by (simp add: True ListAstNode_getEmpty_def collectBracketPairs.simps pairs_in_def iterates_def)
next
  case False
  with assms(1) have s: "spans n s" by (auto simp: tree_for_def)
  have "levels_for [] Map.empty" by (simp add: levels_for_def map_get_or_0_def)
  from collect_pairs [OF s _ this, of "[]" eo so ctx st] assms(2-4) spans_length [OF s]
  show ?thesis by (simp add: lengthZero_def collected_def iterates_def)
qed

text \<open>C9: \<^verbatim>\<open>collectBrackets\<close> on the tree of a document whose brackets are not nested more than 200 levels deep: the callback gets the brackets that touch the range, in the order of the text and with
  their nesting levels (among all colorized pairs, and among those with the same opening bracket), and no others, until it returns false.  Only brackets that start exactly where the range ends may be
  left out.\<close>

theorem collectBrackets_touching:
  assumes "tree_for n s" "short s" "shallow (bw_onlyColorizedBrackets w) n lengthZero [] 0 False" "lengthZero \<le> bw_endOffset w" "bw_startOffset w \<le> AstNode_length n"
  shows "\<exists>P Q. filter (\<lambda>(a, b, i). in_window w a b) (brackets_of (bw_onlyColorizedBrackets w) n lengthZero [] 0 False) = P @ Q \<and> (\<forall>(a, _) \<in> set Q. a = bw_endOffset w) \<and>
    snd (snd (collectBrackets w n lengthZero (AstNode_length n) 0 0 False (Map.empty, st))) = iterates (map (\<lambda>(a, b, i). i) P) (bw_push w) st"
  using collect_brackets [OF assms, of st] unfolding reaches_def brackets_in_def iterates_def by blast

theorem collectBrackets_touching_witness:
  "\<exists>P Q. filter (\<lambda>(a, b, i). a \<le> 1) (brackets_of False (PairAstNode 1 (BracketAstNode 1 (OpeningKind \<lparr>ob_languageId = [], ob_bracketText = [40]\<rparr>) SmallImmutableSet_getEmpty) None None SmallImmutableSet_getEmpty) 0 [] 0 False) = P @ Q \<and>
     snd (snd (collectBrackets \<lparr>bw_startOffset = 0, bw_endOffset = 1, bw_push = (\<lambda>i xs. (True, xs @ [i])), bw_onlyColorizedBrackets = False\<rparr>
       (PairAstNode 1 (BracketAstNode 1 (OpeningKind \<lparr>ob_languageId = [], ob_bracketText = [40]\<rparr>) SmallImmutableSet_getEmpty) None None SmallImmutableSet_getEmpty) 0 1 0 0 False (Map.empty, [])))
     = map (\<lambda>(a, b, i). i) P"
proof -
  let ?n = "PairAstNode 1 (BracketAstNode 1 (OpeningKind \<lparr>ob_languageId = [], ob_bracketText = [40]\<rparr>) SmallImmutableSet_getEmpty) None None SmallImmutableSet_getEmpty"
  let ?w = "\<lparr>bw_startOffset = 0, bw_endOffset = 1, bw_push = (\<lambda>i xs. (True, xs @ [i])), bw_onlyColorizedBrackets = False\<rparr> :: BracketInfo list bracket_window"
  have p: "plen [40] = 1" by (simp add: plen_def pack_def toLength_def tlen_def TextLength_zero_def)
  have "spans ?n ([40] @ [] @ [])" by (rule spans_pair) (auto simp: p spans_bracket keys_of_empty)
  moreover have "sound {} ?n" by (rule sound_pair) auto
  ultimately have t: "tree_for ?n [40]" by (simp add: tree_for_def)
  have sh: "short [40]" by (rule short_small) simp
  have "shallow False ?n lengthZero [] 0 False" by (simp add: shallow_def Let_def pair_colorized_def)
  from collectBrackets_touching [OF t sh, of ?w "[]"] this obtain P Q where
    q: "filter (\<lambda>(a, b, i). in_window ?w a b) (brackets_of False ?n 0 [] 0 False) = P @ Q" "snd (snd (collectBrackets ?w ?n 0 1 0 0 False (Map.empty, []))) = iterates (map (\<lambda>(a, b, i). i) P) (bw_push ?w) []"
    by (auto simp: lengthZero_def)
  have "filter (\<lambda>(a, b, i). a \<le> 1) (brackets_of False ?n 0 [] 0 False) = filter (\<lambda>(a, b, i). in_window ?w a b) (brackets_of False ?n 0 [] 0 False)"
    by (simp add: in_window_iff Let_def pair_colorized_def lengthAdd_def factor_def)
  from trans [OF this q(1)] have "filter (\<lambda>(a, b, i). a \<le> 1) (brackets_of False ?n 0 [] 0 False) = P @ Q" .
  moreover have "iterates (map (\<lambda>(a, b, i). i) P) (bw_push ?w) [] = map (\<lambda>(a, b, i). i) P" using iterate_toArray [of "map (\<lambda>(a, b, i). i) P"] by (simp add: CallbackIterable_toArray_def)
  ultimately show ?thesis using q(2) by (intro exI [of _ P] exI [of _ Q]) simp
qed

end
