(* ===== verification/Line_Tokens.thy ===== *)
theory Line_Tokens
  imports Prefix_Sum Offset_Range
begin

text \<open>
  \<^verbatim>\<open>lineTokens.ts\<close>, \<^verbatim>\<open>tokenArray.ts\<close> and \<^verbatim>\<open>TokenMetadata\<close> of \<^verbatim>\<open>encodedTokenAttributes.ts\<close>: the tokens of a line, stored as 32-bit words, two for each token: the
  offset behind the token and the metadata, which packs language, type, style and colors.  The codec of language ids is a parameter.
  Reading a word outside of the array, where the source gets \<^verbatim>\<open>undefined\<close>, gives 0; token indices are far below \<^verbatim>\<open>2^30\<close>, so doubling them does not wrap.
\<close>

unbundle bit_operations_syntax

section \<open>Metadata\<close>

datatype StandardTokenType = TT_Other | TT_Comment | TT_String | TT_RegEx

definition LANGUAGEID_MASK :: u32 where "LANGUAGEID_MASK = 0xFF"
definition TOKEN_TYPE_MASK :: u32 where "TOKEN_TYPE_MASK = 0x300"
definition BALANCED_BRACKETS_MASK :: u32 where "BALANCED_BRACKETS_MASK = 0x400"
definition FONT_STYLE_MASK :: u32 where "FONT_STYLE_MASK = 0x7800"
definition FOREGROUND_MASK :: u32 where "FOREGROUND_MASK = 0xFF8000"
definition BACKGROUND_MASK :: u32 where "BACKGROUND_MASK = 0xFF000000"

definition LANGUAGEID_OFFSET :: nat where "LANGUAGEID_OFFSET = 0"
definition TOKEN_TYPE_OFFSET :: nat where "TOKEN_TYPE_OFFSET = 8"
definition FONT_STYLE_OFFSET :: nat where "FONT_STYLE_OFFSET = 11"
definition FOREGROUND_OFFSET :: nat where "FOREGROUND_OFFSET = 15"
definition BACKGROUND_OFFSET :: nat where "BACKGROUND_OFFSET = 24"

definition TokenMetadata_getLanguageId :: "u32 \<Rightarrow> u32" where
  "TokenMetadata_getLanguageId metadata = drop_bit LANGUAGEID_OFFSET (metadata AND LANGUAGEID_MASK)"

text \<open>The enum of token types has a value for each of the two bits' four patterns.\<close>

definition TokenMetadata_getTokenType :: "u32 \<Rightarrow> StandardTokenType" where
  "TokenMetadata_getTokenType metadata =
     (let v = drop_bit TOKEN_TYPE_OFFSET (metadata AND TOKEN_TYPE_MASK)
      in if v = 0 then TT_Other else if v = 1 then TT_Comment else if v = 2 then TT_String else TT_RegEx)"

definition TokenMetadata_containsBalancedBrackets :: "u32 \<Rightarrow> bool" where
  "TokenMetadata_containsBalancedBrackets metadata \<longleftrightarrow> metadata AND BALANCED_BRACKETS_MASK \<noteq> 0"

definition TokenMetadata_getFontStyle :: "u32 \<Rightarrow> u32" where
  "TokenMetadata_getFontStyle metadata = drop_bit FONT_STYLE_OFFSET (metadata AND FONT_STYLE_MASK)"

definition TokenMetadata_getForeground :: "u32 \<Rightarrow> u32" where
  "TokenMetadata_getForeground metadata = drop_bit FOREGROUND_OFFSET (metadata AND FOREGROUND_MASK)"

definition TokenMetadata_getBackground :: "u32 \<Rightarrow> u32" where
  "TokenMetadata_getBackground metadata = drop_bit BACKGROUND_OFFSET (metadata AND BACKGROUND_MASK)"

record ITokenPresentation =
  tp_foreground :: u32
  tp_italic :: bool
  tp_bold :: bool
  tp_underline :: bool
  tp_strikethrough :: bool

definition TokenMetadata_getPresentationFromMetadata :: "u32 \<Rightarrow> ITokenPresentation" where
  "TokenMetadata_getPresentationFromMetadata metadata =
     (let foreground = TokenMetadata_getForeground metadata; fontStyle = TokenMetadata_getFontStyle metadata
      in \<lparr>tp_foreground = foreground, tp_italic = (fontStyle AND 1 \<noteq> 0), tp_bold = (fontStyle AND 2 \<noteq> 0), tp_underline = (fontStyle AND 4 \<noteq> 0),
          tp_strikethrough = (fontStyle AND 8 \<noteq> 0)\<rparr>)"

section \<open>Token arrays\<close>

record TokenInfo =
  ti_length :: int
  ti_metadata :: u32

text \<open>A \<^verbatim>\<open>TokenArray\<close> is the list of its infos, and so is a builder.\<close>

definition TokenArrayBuilder_add :: "int \<Rightarrow> u32 \<Rightarrow> TokenInfo list \<Rightarrow> TokenInfo list" where
  "TokenArrayBuilder_add len metadata this = this @ [\<lparr>ti_length = len, ti_metadata = metadata\<rparr>]"

fun slice_loop :: "OffsetRange \<Rightarrow> int \<Rightarrow> TokenInfo list \<Rightarrow> TokenInfo list" where
  "slice_loop rng lengthSum [] = []"
| "slice_loop rng lengthSum (tokenInfo # rest) =
     (let tokenStart = lengthSum; tokenEndEx = tokenStart + ti_length tokenInfo
      in if tokenEndEx > start rng then
           if tokenStart \<ge> endExclusive rng then []
           else
             let deltaBefore = max 0 (start rng - tokenStart); deltaAfter = max 0 (tokenEndEx - endExclusive rng)
             in \<lparr>ti_length = ti_length tokenInfo - deltaBefore - deltaAfter, ti_metadata = ti_metadata tokenInfo\<rparr> # slice_loop rng tokenEndEx rest
         else slice_loop rng tokenEndEx rest)"

definition TokenArray_slice :: "OffsetRange \<Rightarrow> TokenInfo list \<Rightarrow> TokenInfo list" where
  "TokenArray_slice rng this = slice_loop rng 0 this"

section \<open>The tokens of a line\<close>

record LineTokens =
  lt_tokens :: "u32 list"
  lt_tokensCount :: int
  lt_text :: js_string
  lt_decodeLanguageId :: "u32 \<Rightarrow> js_string"

definition new_LineTokens :: "u32 list \<Rightarrow> js_string \<Rightarrow> (u32 \<Rightarrow> js_string) \<Rightarrow> LineTokens" where
  "new_LineTokens tokens text decoder = \<lparr>lt_tokens = tokens, lt_tokensCount = int (length tokens div 2), lt_text = text, lt_decodeLanguageId = decoder\<rparr>"

definition defaultTokenMetadata :: u32 where
  "defaultTokenMetadata = push_bit FONT_STYLE_OFFSET 0 OR push_bit FOREGROUND_OFFSET 1 OR push_bit BACKGROUND_OFFSET 2"

definition LineTokens_createEmpty :: "js_string \<Rightarrow> (u32 \<Rightarrow> js_string) \<Rightarrow> LineTokens" where
  "LineTokens_createEmpty lineContent decoder = new_LineTokens [of_nat (length lineContent), defaultTokenMetadata] lineContent decoder"

fun text_and_metadata :: "nat \<Rightarrow> js_string \<Rightarrow> u32 list \<Rightarrow> (js_string \<times> u32) list \<Rightarrow> u32 list \<times> js_string" where
  "text_and_metadata off fullText tokens [] = (tokens, fullText)"
| "text_and_metadata off fullText tokens ((text, metadata) # rest) =
     text_and_metadata (off + length text) (fullText @ text) (tokens @ [of_nat (off + length text), metadata]) rest"

definition LineTokens_createFromTextAndMetadata :: "(js_string \<times> u32) list \<Rightarrow> (u32 \<Rightarrow> js_string) \<Rightarrow> LineTokens" where
  "LineTokens_createFromTextAndMetadata items decoder =
     (case text_and_metadata 0 [] [] items of (tokens, fullText) \<Rightarrow> new_LineTokens tokens fullText decoder)"

text \<open>\<^verbatim>\<open>findIndexInTokensArray\<close> and its loop.\<close>

function find_token_loop :: "u32 list \<Rightarrow> int \<Rightarrow> int \<Rightarrow> int \<Rightarrow> int" where
  "find_token_loop tokens desiredIndex low high =
     (if low < high then
        let mid = low + (high - low) div 2; e = uint (typed_get tokens (2 * mid))
        in if e = desiredIndex then mid + 1
           else if e < desiredIndex then find_token_loop tokens desiredIndex (mid + 1) high
           else find_token_loop tokens desiredIndex low mid
      else low)"
  by pat_completeness auto
termination by (relation "measure (\<lambda>(_, _, low, high). nat (high - low))") auto

declare find_token_loop.simps [simp del]

definition LineTokens_findIndexInTokensArray :: "u32 list \<Rightarrow> int \<Rightarrow> int" where
  "LineTokens_findIndexInTokensArray tokens desiredIndex =
     (if length tokens \<le> 2 then 0 else find_token_loop tokens desiredIndex 0 (int (length tokens div 2) - 1))"

fun convert_loop :: "nat \<Rightarrow> nat \<Rightarrow> u32 list \<Rightarrow> u32 list" where
  "convert_loop 0 i tokens = tokens"
| "convert_loop (Suc n) i tokens = convert_loop n (Suc i) (tokens[2 * i := typed_get tokens (2 * (int i + 1))])"

text \<open>An empty array has no last token; a write at a negative index is ignored by a typed array.\<close>

definition LineTokens_convertToEndOffset :: "u32 list \<Rightarrow> nat \<Rightarrow> u32 list" where
  "LineTokens_convertToEndOffset tokens lineTextLength =
     (let tokenCount = length tokens div 2
      in if tokenCount = 0 then tokens
         else (convert_loop (tokenCount - 1) 0 tokens)[2 * (tokenCount - 1) := of_nat lineTextLength])"

definition LineTokens_getLineContent :: "LineTokens \<Rightarrow> js_string" where
  "LineTokens_getLineContent this = lt_text this"

definition LineTokens_getCount :: "LineTokens \<Rightarrow> int" where
  "LineTokens_getCount this = lt_tokensCount this"

definition LineTokens_getEndOffset :: "LineTokens \<Rightarrow> int \<Rightarrow> int" where
  "LineTokens_getEndOffset this tokenIndex = uint (typed_get (lt_tokens this) (2 * tokenIndex))"

definition LineTokens_getStartOffset :: "LineTokens \<Rightarrow> int \<Rightarrow> int" where
  "LineTokens_getStartOffset this tokenIndex = (if tokenIndex > 0 then uint (typed_get (lt_tokens this) (2 * (tokenIndex - 1))) else 0)"

definition LineTokens_getMetadata :: "LineTokens \<Rightarrow> int \<Rightarrow> u32" where
  "LineTokens_getMetadata this tokenIndex = typed_get (lt_tokens this) (2 * tokenIndex + 1)"

definition LineTokens_getLanguageId :: "LineTokens \<Rightarrow> int \<Rightarrow> js_string" where
  "LineTokens_getLanguageId this tokenIndex =
     lt_decodeLanguageId this (TokenMetadata_getLanguageId (typed_get (lt_tokens this) (2 * tokenIndex + 1)))"

definition LineTokens_getStandardTokenType :: "LineTokens \<Rightarrow> int \<Rightarrow> StandardTokenType" where
  "LineTokens_getStandardTokenType this tokenIndex = TokenMetadata_getTokenType (typed_get (lt_tokens this) (2 * tokenIndex + 1))"

definition LineTokens_getForeground :: "LineTokens \<Rightarrow> int \<Rightarrow> u32" where
  "LineTokens_getForeground this tokenIndex = TokenMetadata_getForeground (typed_get (lt_tokens this) (2 * tokenIndex + 1))"

definition LineTokens_getPresentation :: "LineTokens \<Rightarrow> int \<Rightarrow> ITokenPresentation" where
  "LineTokens_getPresentation this tokenIndex = TokenMetadata_getPresentationFromMetadata (typed_get (lt_tokens this) (2 * tokenIndex + 1))"

definition LineTokens_findTokenIndexAtOffset :: "LineTokens \<Rightarrow> int \<Rightarrow> int" where
  "LineTokens_findTokenIndexAtOffset this off = LineTokens_findIndexInTokensArray (lt_tokens this) off"

definition LineTokens_getTokenText :: "LineTokens \<Rightarrow> int \<Rightarrow> js_string" where
  "LineTokens_getTokenText this tokenIndex = js_substring (lt_text this) (LineTokens_getStartOffset this tokenIndex) (LineTokens_getEndOffset this tokenIndex)"

definition LineTokens_slicedEquals :: "LineTokens \<Rightarrow> LineTokens \<Rightarrow> int \<Rightarrow> int \<Rightarrow> bool" where
  "LineTokens_slicedEquals this other sliceFromTokenIndex sliceTokenCount =
     (if lt_text this \<noteq> lt_text other then False
      else if lt_tokensCount this \<noteq> lt_tokensCount other then False
      else
        let from1 = 2 * sliceFromTokenIndex; to1 = from1 + 2 * sliceTokenCount
        in list_all (\<lambda>i. js_at (lt_tokens this) i = js_at (lt_tokens other) i) [from1 .. to1 - 1])"

definition LineTokens_equals :: "LineTokens \<Rightarrow> LineTokens \<Rightarrow> bool" where
  "LineTokens_equals this other = LineTokens_slicedEquals this other 0 (lt_tokensCount this)"

text \<open>The loop of \<^verbatim>\<open>getTokensInRange\<close>.\<close>

definition LineTokens_getTokensInRange :: "LineTokens \<Rightarrow> OffsetRange \<Rightarrow> TokenInfo list result" where
  "LineTokens_getTokensInRange this rng =
     (let startTokenIndex = LineTokens_findTokenIndexAtOffset this (start rng);
          endTokenIndex = LineTokens_findTokenIndexAtOffset this (endExclusive rng)
      in foldl (\<lambda>builder tokenIndex. rbind builder (\<lambda>b.
             rbind (new_OffsetRange (LineTokens_getStartOffset this tokenIndex) (LineTokens_getEndOffset this tokenIndex)) (\<lambda>tokenRange.
               let len = OffsetRange_intersectionLength tokenRange rng
               in if len > 0 then Inr (TokenArrayBuilder_add len (LineTokens_getMetadata this tokenIndex) b) else Inr b)))
           (Inr []) [startTokenIndex .. endTokenIndex])"

record insert_token =
  it_offset :: int
  it_text :: js_string
  it_tokenMetadata :: u32

text \<open>The loop of \<^verbatim>\<open>withInserted\<close>: the original tokens still to come with their ends, the tokens to insert, the new text and tokens, and the end of the original text taken over so far.\<close>

function insert_loop :: "js_string \<Rightarrow> (int \<times> u32) list \<Rightarrow> insert_token list \<Rightarrow> js_string \<Rightarrow> u32 list \<Rightarrow> int \<Rightarrow> js_string \<times> u32 list" where
  "insert_loop original tokens inserts text newTokens originalEndOffset =
     (let takeToken = (case tokens of [] \<Rightarrow> False | (e, _) # _ \<Rightarrow> (case inserts of [] \<Rightarrow> True | t # _ \<Rightarrow> e \<le> it_offset t))
      in if takeToken then
           (case tokens of
              [] \<Rightarrow> (text, newTokens)
            | (e, metadata) # rest \<Rightarrow>
                let text2 = text @ js_substring original originalEndOffset e
                in insert_loop original rest inserts text2 (newTokens @ [of_nat (length text2), metadata]) e)
         else
           (case inserts of
              [] \<Rightarrow> (text, newTokens)
            | t # rest \<Rightarrow>
                let (text2, newTokens2, originalEndOffset2) =
                      (if it_offset t > originalEndOffset then
                         let text2 = text @ js_substring original originalEndOffset (it_offset t)
                         in (text2, newTokens @ [of_nat (length text2), case tokens of [] \<Rightarrow> 0 | (_, metadata) # _ \<Rightarrow> metadata], it_offset t)
                       else (text, newTokens, originalEndOffset));
                    text3 = text2 @ it_text t
                in insert_loop original tokens rest text3 (newTokens2 @ [of_nat (length text3), it_tokenMetadata t]) originalEndOffset2))"
  by pat_completeness auto
termination by (relation "measure (\<lambda>(_, tokens, inserts, _). length tokens + length inserts)") (auto split: if_splits)

declare insert_loop.simps [simp del]

definition LineTokens_withInserted :: "LineTokens \<Rightarrow> insert_token list \<Rightarrow> LineTokens" where
  "LineTokens_withInserted this insertTokens =
     (if length insertTokens = 0 then this
      else
        (case insert_loop (lt_text this) (map (\<lambda>i. (LineTokens_getEndOffset this i, LineTokens_getMetadata this i)) [0 .. lt_tokensCount this - 1]) insertTokens [] [] 0 of
           (text, newTokens) \<Rightarrow> new_LineTokens newTokens text (lt_decodeLanguageId this)))"

section \<open>Slices\<close>

record SliceLineTokens =
  sl_source :: LineTokens
  sl_startOffset :: int
  sl_endOffset :: int
  sl_deltaOffset :: int
  sl_firstTokenIndex :: int
  sl_tokensCount :: int

definition new_SliceLineTokens :: "LineTokens \<Rightarrow> int \<Rightarrow> int \<Rightarrow> int \<Rightarrow> SliceLineTokens" where
  "new_SliceLineTokens source startOffset endOffset deltaOffset =
     (let firstTokenIndex = LineTokens_findTokenIndexAtOffset source startOffset
      in \<lparr>sl_source = source, sl_startOffset = startOffset, sl_endOffset = endOffset, sl_deltaOffset = deltaOffset, sl_firstTokenIndex = firstTokenIndex,
          sl_tokensCount = int (length (takeWhile (\<lambda>i. \<not> LineTokens_getStartOffset source i \<ge> endOffset) [firstTokenIndex .. LineTokens_getCount source - 1]))\<rparr>)"

definition SliceLineTokens_getMetadata :: "SliceLineTokens \<Rightarrow> int \<Rightarrow> u32" where
  "SliceLineTokens_getMetadata this tokenIndex = LineTokens_getMetadata (sl_source this) (sl_firstTokenIndex this + tokenIndex)"

definition SliceLineTokens_getLanguageId :: "SliceLineTokens \<Rightarrow> int \<Rightarrow> js_string" where
  "SliceLineTokens_getLanguageId this tokenIndex = LineTokens_getLanguageId (sl_source this) (sl_firstTokenIndex this + tokenIndex)"

definition SliceLineTokens_getLineContent :: "SliceLineTokens \<Rightarrow> js_string" where
  "SliceLineTokens_getLineContent this = js_substring (LineTokens_getLineContent (sl_source this)) (sl_startOffset this) (sl_endOffset this)"

definition SliceLineTokens_equals :: "SliceLineTokens \<Rightarrow> SliceLineTokens \<Rightarrow> bool" where
  "SliceLineTokens_equals this other \<longleftrightarrow>
     sl_startOffset this = sl_startOffset other \<and> sl_endOffset this = sl_endOffset other \<and> sl_deltaOffset this = sl_deltaOffset other \<and>
     LineTokens_slicedEquals (sl_source this) (sl_source other) (sl_firstTokenIndex this) (sl_tokensCount this)"

definition SliceLineTokens_getCount :: "SliceLineTokens \<Rightarrow> int" where
  "SliceLineTokens_getCount this = sl_tokensCount this"

definition SliceLineTokens_getStandardTokenType :: "SliceLineTokens \<Rightarrow> int \<Rightarrow> StandardTokenType" where
  "SliceLineTokens_getStandardTokenType this tokenIndex = LineTokens_getStandardTokenType (sl_source this) (sl_firstTokenIndex this + tokenIndex)"

definition SliceLineTokens_getForeground :: "SliceLineTokens \<Rightarrow> int \<Rightarrow> u32" where
  "SliceLineTokens_getForeground this tokenIndex = LineTokens_getForeground (sl_source this) (sl_firstTokenIndex this + tokenIndex)"

definition SliceLineTokens_getEndOffset :: "SliceLineTokens \<Rightarrow> int \<Rightarrow> int" where
  "SliceLineTokens_getEndOffset this tokenIndex =
     min (sl_endOffset this) (LineTokens_getEndOffset (sl_source this) (sl_firstTokenIndex this + tokenIndex)) - sl_startOffset this + sl_deltaOffset this"

definition SliceLineTokens_findTokenIndexAtOffset :: "SliceLineTokens \<Rightarrow> int \<Rightarrow> int" where
  "SliceLineTokens_findTokenIndexAtOffset this off =
     LineTokens_findTokenIndexAtOffset (sl_source this) (off + sl_startOffset this - sl_deltaOffset this) - sl_firstTokenIndex this"

definition SliceLineTokens_getTokenText :: "SliceLineTokens \<Rightarrow> int \<Rightarrow> js_string" where
  "SliceLineTokens_getTokenText this tokenIndex =
     (let adjustedTokenIndex = sl_firstTokenIndex this + tokenIndex;
          tokenStartOffset = LineTokens_getStartOffset (sl_source this) adjustedTokenIndex;
          tokenEndOffset = LineTokens_getEndOffset (sl_source this) adjustedTokenIndex;
          text = LineTokens_getTokenText (sl_source this) adjustedTokenIndex;
          text = (if tokenStartOffset < sl_startOffset this then js_substring_from text (sl_startOffset this - tokenStartOffset) else text)
      in if tokenEndOffset > sl_endOffset this then js_substring text 0 (int (length text) - (tokenEndOffset - sl_endOffset this)) else text)"

section \<open>Tokens that cover their line\<close>

text \<open>The offset behind a token, and lines whose tokens are in order and end with the line.\<close>

abbreviation token_end :: "LineTokens \<Rightarrow> nat \<Rightarrow> int" where
  "token_end lt i \<equiv> uint (lt_tokens lt ! (2 * i))"

definition tokens_cover :: "LineTokens \<Rightarrow> bool" where
  "tokens_cover lt \<longleftrightarrow>
     (\<exists>n. length (lt_tokens lt) = 2 * n \<and> lt_tokensCount lt = int n \<and> 0 < n \<and> (\<forall>i j. i \<le> j \<longrightarrow> j < n \<longrightarrow> token_end lt i \<le> token_end lt j) \<and>
        token_end lt (n - 1) = int (length (lt_text lt)))"

lemma typed_get_int: "i < length xs \<Longrightarrow> typed_get xs (int i) = xs ! i"
  by (simp add: typed_get_def js_at_def)

lemma getEndOffset_nat: "2 * i < length (lt_tokens lt) \<Longrightarrow> LineTokens_getEndOffset lt (int i) = token_end lt i"
  using typed_get_int [of "2 * i" "lt_tokens lt"] by (simp add: LineTokens_getEndOffset_def)

lemma getStartOffset_nat: "0 < i \<Longrightarrow> 2 * i \<le> length (lt_tokens lt) \<Longrightarrow> LineTokens_getStartOffset lt (int i) = token_end lt (i - 1)"
  using typed_get_int [of "2 * (i - 1)" "lt_tokens lt"] by (simp add: LineTokens_getStartOffset_def of_nat_diff algebra_simps)

text \<open>The binary search: tokens before the result end at or before the offset, and the result does not.\<close>

lemma find_token_loop_correct:
  assumes "low \<le> high" "high < n" "2 * n \<le> length tokens" "\<And>i j. i \<le> j \<Longrightarrow> j < n \<Longrightarrow> uint (tokens ! (2 * i)) \<le> uint (tokens ! (2 * j))"
    "uint (tokens ! (2 * high)) \<ge> x" "low = 0 \<or> uint (tokens ! (2 * (low - 1))) \<le> x"
  shows "\<exists>i. find_token_loop tokens x (int low) (int high) = int i \<and> low \<le> i \<and> i \<le> high \<and> x \<le> uint (tokens ! (2 * i)) \<and> (i = 0 \<or> uint (tokens ! (2 * (i - 1))) \<le> x)"
  using assms
proof (induction "high - low" arbitrary: low high rule: less_induct)
  case less
  show ?case
  proof (cases "low < high")
    case False
    then show ?thesis using less.prems by (subst find_token_loop.simps) auto
  next
    case True
    define mid where "mid = low + (high - low) div 2"
    have m: "low \<le> mid" "mid < high" using True by (auto simp: mid_def)
    have im: "int low + (int high - int low) div 2 = int mid" using True by (simp add: mid_def of_nat_diff zdiv_int)
    have g: "uint (typed_get tokens (2 * int mid)) = uint (tokens ! (2 * mid))"
      using typed_get_int [of "2 * mid" tokens] m less.prems(2,3) by simp
    show ?thesis
    proof (cases "uint (tokens ! (2 * mid)) = x")
      case eq: True
      have "find_token_loop tokens x (int low) (int high) = int (Suc mid)" using True eq g im by (subst find_token_loop.simps) (simp add: Let_def)
      moreover have "x \<le> uint (tokens ! (2 * Suc mid))" using less.prems(4) [of mid "Suc mid"] m less.prems(2) eq by simp
      ultimately show ?thesis using m eq by (intro exI [of _ "Suc mid"]) auto
    next
      case ne: False
      show ?thesis
      proof (cases "uint (tokens ! (2 * mid)) < x")
        case lt: True
        have "find_token_loop tokens x (int low) (int high) = find_token_loop tokens x (int (Suc mid)) (int high)"
          using True ne lt g im by (subst find_token_loop.simps) (simp add: Let_def add.commute)
        moreover obtain i where "find_token_loop tokens x (int (Suc mid)) (int high) = int i" "Suc mid \<le> i" "i \<le> high" "x \<le> uint (tokens ! (2 * i))"
          "i = 0 \<or> uint (tokens ! (2 * (i - 1))) \<le> x"
          using less.hyps [of high "Suc mid", OF _ _ less.prems(2-5)] m lt by (auto simp del: of_nat_Suc simp: diff_less_mono2)
        ultimately show ?thesis using m by (intro exI [of _ i]) auto
      next
        case gt: False
        have "find_token_loop tokens x (int low) (int high) = find_token_loop tokens x (int low) (int mid)"
          using True ne gt g im by (subst find_token_loop.simps) (simp add: Let_def)
        moreover obtain i where "find_token_loop tokens x (int low) (int mid) = int i" "low \<le> i" "i \<le> mid" "x \<le> uint (tokens ! (2 * i))"
          "i = 0 \<or> uint (tokens ! (2 * (i - 1))) \<le> x"
          using less.hyps [of mid low, OF diff_less_mono [OF m(2,1)] m(1) _ less.prems(3,4)] less.prems(2,6) m gt by auto
        ultimately show ?thesis using m by (intro exI [of _ i]) auto
      qed
    qed
  qed
qed

lemma find_index_correct:
  assumes "tokens_cover lt" "x \<le> length (lt_text lt)"
  shows "\<exists>i. LineTokens_findTokenIndexAtOffset lt (int x) = int i \<and> int i < LineTokens_getCount lt \<and> int x \<le> token_end lt i \<and> (i = 0 \<or> token_end lt (i - 1) \<le> int x)"
proof -
  obtain n where n: "length (lt_tokens lt) = 2 * n" "lt_tokensCount lt = int n" "0 < n" "\<And>i j. i \<le> j \<Longrightarrow> j < n \<Longrightarrow> token_end lt i \<le> token_end lt j" "token_end lt (n - 1) = int (length (lt_text lt))"
    using assms(1) unfolding tokens_cover_def by blast
  show ?thesis
  proof (cases "n = 1")
    case True
    with n assms(2) show ?thesis
      by (intro exI [of _ 0]) (simp add: LineTokens_findTokenIndexAtOffset_def LineTokens_findIndexInTokensArray_def LineTokens_getCount_def)
  next
    case False
    have "\<exists>i. find_token_loop (lt_tokens lt) (int x) (int 0) (int (n - 1)) = int i \<and> 0 \<le> i \<and> i \<le> n - 1 \<and> int x \<le> token_end lt i \<and> (i = 0 \<or> token_end lt (i - 1) \<le> int x)"
      by (rule find_token_loop_correct [of _ _ n]) (use n assms(2) False in auto)
    then obtain i where "find_token_loop (lt_tokens lt) (int x) 0 (int (n - 1)) = int i" "i \<le> n - 1" "int x \<le> token_end lt i" "i = 0 \<or> token_end lt (i - 1) \<le> int x" by auto
    with n False show ?thesis
      by (intro exI [of _ i]) (auto simp: LineTokens_findTokenIndexAtOffset_def LineTokens_findIndexInTokensArray_def LineTokens_getCount_def of_nat_diff)
  qed
qed

section \<open>Inserted tokens\<close>

text \<open>The characters of a line with the metadata of their tokens, from an offset on.\<close>

fun styled :: "js_string \<Rightarrow> int \<Rightarrow> (int \<times> u32) list \<Rightarrow> (code_unit \<times> u32) list" where
  "styled text p [] = []"
| "styled text p ((e, m) # ts) = map (\<lambda>c. (c, m)) (js_substring text p e) @ styled text e ts"

definition token_list :: "LineTokens \<Rightarrow> (int \<times> u32) list" where
  "token_list lt = map (\<lambda>i. (LineTokens_getEndOffset lt i, LineTokens_getMetadata lt i)) [0 .. lt_tokensCount lt - 1]"

definition styled_chars :: "LineTokens \<Rightarrow> (code_unit \<times> u32) list" where
  "styled_chars lt = styled (lt_text lt) 0 (token_list lt)"

fun insert_styled :: "int \<Rightarrow> insert_token list \<Rightarrow> (code_unit \<times> u32) list \<Rightarrow> (code_unit \<times> u32) list" where
  "insert_styled p [] cs = cs"
| "insert_styled p (t # ts) cs =
     (let k = nat (it_offset t - p) in take k cs @ map (\<lambda>c. (c, it_tokenMetadata t)) (it_text t) @ insert_styled (it_offset t) ts (drop k cs))"

text \<open>Offsets that ascend up to a last one.\<close>

fun ascending :: "int \<Rightarrow> int list \<Rightarrow> int \<Rightarrow> bool" where
  "ascending p [] q \<longleftrightarrow> p \<le> q"
| "ascending p (x # xs) q \<longleftrightarrow> p \<le> x \<and> ascending x xs q"

lemma ascending_le: "ascending p xs q \<Longrightarrow> p \<le> q"
  by (induction xs arbitrary: p) (auto intro: order_trans)

lemma ascending_mono: "ascending p xs q \<Longrightarrow> q \<le> r \<Longrightarrow> ascending p xs r"
  by (induction xs arbitrary: p) auto

lemma ascending_snoc: "ascending p (xs @ [x]) q \<longleftrightarrow> ascending p xs x \<and> x \<le> q"
  by (induction xs arbitrary: p) (auto dest: ascending_le)

text \<open>The new text and its tokens, built from the left.\<close>

inductive builds :: "js_string \<Rightarrow> (int \<times> u32) list \<Rightarrow> (code_unit \<times> u32) list \<Rightarrow> bool" where
  builds_Nil: "builds [] [] []"
| builds_snoc: "builds text ts cs \<Longrightarrow> builds (text @ x) (ts @ [(int (length (text @ x)), m)]) (cs @ map (\<lambda>c. (c, m)) x)"

lemma styled_append: "styled text p (ts @ [(e, m)]) = styled text p ts @ map (\<lambda>c. (c, m)) (js_substring text (fst (last ((p, m) # ts))) e)"
  by (induction ts arbitrary: p) auto

lemma builds_props:
  assumes "builds text ts cs"
  shows "ascending 0 (map fst ts) (int (length text)) \<and> (ts = [] \<longrightarrow> text = []) \<and> (ts \<noteq> [] \<longrightarrow> fst (last ts) = int (length text)) \<and> styled (text @ y) 0 ts = cs \<and> map fst cs = text"
  using assms
proof (induction arbitrary: y rule: builds.induct)
  case (builds_snoc s ts cs x m)
  have "fst (last ((0, m) # ts)) = int (length s)" using builds_snoc.IH [of y] by (cases "ts = []") auto
  moreover have "js_substring ((s @ x) @ y) (int (length s)) (int (length (s @ x))) = x" by (subst js_substring_nat) simp_all
  ultimately show ?case using builds_snoc.IH [of "x @ y"] by (auto simp: styled_append ascending_snoc comp_def intro: ascending_mono)
qed auto

definition flat :: "(int \<times> u32) list \<Rightarrow> u32 list" where
  "flat ts = concat (map (\<lambda>(e, m). [of_int e, m]) ts)"

lemma substring_split: "0 \<le> a \<Longrightarrow> a \<le> b \<Longrightarrow> b \<le> c \<Longrightarrow> c \<le> int (length s) \<Longrightarrow> js_substring s a c = js_substring s a b @ js_substring s b c"
proof -
  assume a: "0 \<le> a" "a \<le> b" "b \<le> c" "c \<le> int (length s)"
  have n: "nat c - nat a = (nat b - nat a) + (nat c - nat b)" "nat b - nat a + nat a = nat b" using a by auto
  have "take (nat c - nat a) (drop (nat a) s) = take (nat b - nat a) (drop (nat a) s) @ take (nat c - nat b) (drop (nat b - nat a) (drop (nat a) s))"
    unfolding n(1) by (rule take_add)
  then show ?thesis using a n(2) by (simp add: js_substring_in_range)
qed

lemma insert_styled_skip:
  assumes "ascending e (map it_offset ts) q" "int (length as) = e - p"
  shows "insert_styled p ts (as @ bs) = as @ insert_styled e ts bs"
proof (cases ts)
  case (Cons t ts)
  with assms have "nat (it_offset t - p) = length as + nat (it_offset t - e)" by auto
  then show ?thesis using Cons by (simp add: Let_def)
qed simp


lemma styled_cut:
  assumes "0 \<le> p" "p \<le> k" "k \<le> e" "e \<le> int (length s)"
  shows "styled s p ((e, m) # ts) = map (\<lambda>c. (c, m)) (js_substring s p k) @ styled s k ((e, m) # ts)"
  using substring_split [OF assms] by simp

lemma insert_loop_builds:
  assumes "builds acc ts cs" "0 \<le> p" "ascending p (map fst tokens) (int (length original))" "fst (last ((p, m0) # tokens)) = int (length original)"
    "ascending p (map it_offset inserts) (int (length original))"
  shows "\<exists>acc2 ts2. insert_loop original tokens inserts acc (flat ts) p = (acc2, flat ts2) \<and> builds acc2 ts2 (cs @ insert_styled p inserts (styled original p tokens)) \<and> length ts + length tokens \<le> length ts2"
  using assms
proof (induction "length tokens + length inserts" arbitrary: acc ts cs p m0 tokens inserts rule: less_induct)
  case less
  note c = less.prems
  have fl: "flat (ts @ [(k, m)]) = flat ts @ [of_int k, m]" for k m and ts :: "(int \<times> u32) list" by (simp add: flat_def)
  consider (keep) e m rest where "tokens = (e, m) # rest" "case inserts of [] \<Rightarrow> True | t # _ \<Rightarrow> e \<le> it_offset t"
    | (insert) t rest where "inserts = t # rest" "\<forall>e m r. tokens = (e, m) # r \<longrightarrow> it_offset t < e" | (stop) "tokens = []" "inserts = []"
    by (cases tokens; cases inserts) (auto, meson not_le)
  then show ?case
  proof cases
    case stop
    with c(1) show ?thesis by (subst insert_loop.simps) auto
  next
    case keep
    let ?x = "js_substring original p e"
    have r: "p \<le> e" "ascending e (map fst rest) (int (length original))" "e \<le> int (length original)" using c(3) keep(1) ascending_le by auto
    have a: "ascending e (map it_offset inserts) (int (length original))" using keep(2) c(5) r(3) by (auto split: list.splits)
    have step: "insert_loop original tokens inserts acc (flat ts) p = insert_loop original rest inserts (acc @ ?x) (flat (ts @ [(int (length (acc @ ?x)), m)])) e"
      using keep by (subst insert_loop.simps) (simp add: fl Let_def)
    have "fst (last ((e, m) # rest)) = int (length original)" using c(4) keep(1) by simp
    from less.hyps [OF _ builds_snoc [OF c(1), of ?x m] _ r(2) this a] keep(1) c(2) r(1)
    obtain acc2 ts2 where "insert_loop original rest inserts (acc @ ?x) (flat (ts @ [(int (length (acc @ ?x)), m)])) e = (acc2, flat ts2)"
      "builds acc2 ts2 ((cs @ map (\<lambda>c. (c, m)) ?x) @ insert_styled e inserts (styled original e rest))" "length ts + length tokens \<le> length ts2" by auto
    moreover have "insert_styled p inserts (styled original p tokens) = map (\<lambda>c. (c, m)) ?x @ insert_styled e inserts (styled original e rest)"
      unfolding keep(1) styled.simps by (rule insert_styled_skip [OF a]) (use length_js_substring [OF c(2) r(1,3)] in simp)
    ultimately show ?thesis using step by (intro exI [of _ acc2] exI [of _ ts2]) simp
  next
    case (insert t rest)
    let ?o = "it_offset t"
    have a: "p \<le> ?o" "ascending ?o (map it_offset rest) (int (length original))" "?o \<le> int (length original)" using c(5) insert(1) ascending_le by auto
    have no: "(case tokens of [] \<Rightarrow> False | (e, _) # _ \<Rightarrow> e \<le> ?o) = False"
      using insert by (auto split: list.splits)
    have tok: "ascending ?o (map fst tokens) (int (length original))" "fst (last ((?o, m0) # tokens)) = int (length original)"
      using c(3,4) insert(2) a by (cases tokens; force)+
    obtain acc2 ts2 cs2 where mid: "builds acc2 ts2 cs2" "cs2 = cs @ take (nat (?o - p)) (styled original p tokens)" "styled original ?o tokens = drop (nat (?o - p)) (styled original p tokens)"
      "(if ?o > p then let acc2 = acc @ js_substring original p ?o
         in (acc2, flat ts @ [of_nat (length acc2), case tokens of [] \<Rightarrow> 0 | (_, metadata) # _ \<Rightarrow> metadata], ?o) else (acc, flat ts, p)) = (acc2, flat ts2, ?o)" "length ts \<le> length ts2"
    proof (cases "?o > p")
      case True
      with c(4) a(3) obtain e m r where e: "tokens = (e, m) # r" by (cases tokens) auto
      have eo: "?o \<le> e" "e \<le> int (length original)" using insert(2) e c(3) ascending_le by auto
      let ?x = "js_substring original p ?o"
      have l: "length ?x = nat (?o - p)" using length_js_substring [OF c(2) a(1,3)] by linarith
      have s: "styled original p tokens = map (\<lambda>c. (c, m)) ?x @ styled original ?o tokens" unfolding e by (rule styled_cut [OF c(2) a(1) eo])
      show thesis by (rule that [OF builds_snoc [OF c(1), of ?x m]]) (use True e s l in \<open>simp_all add: fl Let_def\<close>)
    next
      case False
      with a(1) show thesis by (intro that [OF c(1)]) simp_all
    qed
    let ?y = "acc2 @ it_text t"
    have step: "insert_loop original tokens inserts acc (flat ts) p = insert_loop original tokens rest ?y (flat (ts2 @ [(int (length ?y), it_tokenMetadata t)])) ?o"
      by (subst insert_loop.simps) (simp only: Let_def no if_False insert(1) list.case mid(4) [unfolded Let_def] prod.case fl of_int_of_nat_eq)
    from less.hyps [OF _ builds_snoc [OF mid(1), of "it_text t" "it_tokenMetadata t"] _ tok a(2)] insert(1) c(2) a(1)
    obtain acc3 ts3 where "insert_loop original tokens rest ?y (flat (ts2 @ [(int (length ?y), it_tokenMetadata t)])) ?o = (acc3, flat ts3)"
      "builds acc3 ts3 ((cs2 @ map (\<lambda>c. (c, it_tokenMetadata t)) (it_text t)) @ insert_styled ?o rest (styled original ?o tokens))" "length ts2 + 1 + length tokens \<le> length ts3" by auto
    then show ?thesis using step mid(2,3,5) insert(1) by (intro exI [of _ acc3] exI [of _ ts3]) (simp add: Let_def)
  qed
qed


text \<open>The array of the tokens of a list.\<close>

lemma flat_nth: "i < length ts \<Longrightarrow> flat ts ! (2 * i) = of_int (fst (ts ! i)) \<and> flat ts ! (2 * i + 1) = snd (ts ! i)"
proof (induction ts arbitrary: i)
  case (Cons t ts)
  then show ?case by (cases i) (auto simp: flat_def case_prod_beta)
qed simp

lemma flat_length: "length (flat ts) = 2 * length ts"
  by (induction ts) (auto simp: flat_def)

lemma token_list_flat:
  assumes "\<forall>(e, m) \<in> set ts. 0 \<le> e \<and> e < 2 ^ 32"
  shows "token_list (new_LineTokens (flat ts) s d) = ts"
proof (rule nth_equalityI)
  show "length (token_list (new_LineTokens (flat ts) s d)) = length ts" by (simp add: token_list_def new_LineTokens_def flat_length)
  fix i assume "i < length (token_list (new_LineTokens (flat ts) s d))"
  then have i: "i < length ts" by (simp add: token_list_def new_LineTokens_def flat_length)
  obtain e m where t: "ts ! i = (e, m)" by (rule prod.exhaust)
  then have "0 \<le> e" "e < 2 ^ 32" using assms i nth_mem [of i ts] by auto
  then have "uint (of_int e :: u32) = e" by (simp add: unsigned_of_int take_bit_int_eq_self)
  then show "token_list (new_LineTokens (flat ts) s d) ! i = ts ! i"
    using i t flat_nth [OF i] typed_get_int [of "2 * i" "flat ts"] typed_get_int [of "2 * i + 1" "flat ts"]
    by (simp add: token_list_def new_LineTokens_def flat_length LineTokens_getEndOffset_def LineTokens_getMetadata_def add.commute)
qed

lemma cover_ascending:
  assumes "tokens_cover lt"
  shows "ascending 0 (map fst (token_list lt)) (int (length (lt_text lt)))" "token_list lt \<noteq> []" "fst (last (token_list lt)) = int (length (lt_text lt))"
proof -
  obtain n where n: "length (lt_tokens lt) = 2 * n" "lt_tokensCount lt = int n" "0 < n" "\<And>i j. i \<le> j \<Longrightarrow> j < n \<Longrightarrow> token_end lt i \<le> token_end lt j" "token_end lt (n - 1) = int (length (lt_text lt))"
    using assms unfolding tokens_cover_def by blast
  have m: "map fst (token_list lt) = map (token_end lt) [0..<n]"
    by (rule nth_equalityI) (use n getEndOffset_nat in \<open>auto simp: token_list_def\<close>)
  have asc: "ascending p (map (token_end lt) [k..<n]) q" if "k < n" "p \<le> token_end lt k" "q = token_end lt (n - 1)" for p k q
    using that
  proof (induction "n - k" arbitrary: k p)
    case (Suc d)
    have u: "[k..<n] = k # [Suc k..<n]" using Suc.prems(1) by (simp add: upt_conv_Cons)
    show ?case
    proof (cases "Suc k < n")
      case True
      then have "ascending (token_end lt k) (map (token_end lt) [Suc k..<n]) q" using Suc.hyps Suc.prems(3) n(4) [of k "Suc k"] by simp
      with Suc.prems(2) show ?thesis unfolding u by simp
    next
      case False
      then have "k = n - 1" using Suc.prems(1) by simp
      with u Suc.prems show ?thesis by simp
    qed
  qed simp
  show "ascending 0 (map fst (token_list lt)) (int (length (lt_text lt)))" unfolding m using asc [of 0 0] n(3,5) by simp
  show ne: "token_list lt \<noteq> []" using arg_cong [OF m, of length] n(3) by auto
  have "fst (last (token_list lt)) = last (map fst (token_list lt))" using ne by (simp add: last_map)
  then show "fst (last (token_list lt)) = int (length (lt_text lt))" unfolding m using n(3,5) by (simp add: last_map last_upt)
qed


lemma ascending_nth: "ascending p xs q \<Longrightarrow> i \<le> j \<Longrightarrow> j < length xs \<Longrightarrow> xs ! i \<le> xs ! j \<and> p \<le> xs ! i \<and> xs ! j \<le> q"
proof (induction xs arbitrary: p i j)
  case (Cons x xs)
  show ?case
  proof (cases i)
    case 0
    with Cons ascending_le [of x xs q] show ?thesis by (cases j) (fastforce dest: Cons.IH [of x 0])+
  next
    case (Suc i2)
    then obtain j2 where "j = Suc j2" using Cons.prems(2) by (cases j) auto
    with Suc Cons.prems Cons.IH [of x i2 j2] show ?thesis by auto
  qed
qed simp

lemma builds_cover:
  assumes "builds s ts cs" "ts \<noteq> []" "length s < 2 ^ 32"
  shows "tokens_cover (new_LineTokens (flat ts) s d) \<and> styled_chars (new_LineTokens (flat ts) s d) = cs"
proof -
  note b = builds_props [OF assms(1), of "[]"]
  have e: "0 \<le> fst (ts ! i) \<and> fst (ts ! i) < 2 ^ 32" if "i < length ts" for i
    using ascending_nth [of 0 "map fst ts" "int (length s)" i i] b that assms(3) by auto
  have "\<forall>(e, m) \<in> set ts. 0 \<le> e \<and> e < 2 ^ 32" using e by (force simp: in_set_conv_nth)
  from token_list_flat [OF this] b have "styled_chars (new_LineTokens (flat ts) s d) = cs" by (simp add: styled_chars_def) (simp add: new_LineTokens_def)
  moreover have te: "token_end (new_LineTokens (flat ts) s d) i = fst (ts ! i)" if "i < length ts" for i
    using flat_nth [OF that] e [OF that] by (simp add: new_LineTokens_def unsigned_of_int take_bit_int_eq_self)
  moreover have "tokens_cover (new_LineTokens (flat ts) s d)"
    unfolding tokens_cover_def
  proof (intro exI [of _ "length ts"] conjI allI impI)
    fix i j :: nat assume "i \<le> j" "j < length ts"
    then show "token_end (new_LineTokens (flat ts) s d) i \<le> token_end (new_LineTokens (flat ts) s d) j"
      using ascending_nth [of 0 "map fst ts" "int (length s)" i j] b te by simp
  next
    show "token_end (new_LineTokens (flat ts) s d) (length ts - 1) = int (length (lt_text (new_LineTokens (flat ts) s d)))"
      using te [of "length ts - 1"] b assms(2) by (simp add: last_conv_nth) (simp add: new_LineTokens_def)
  qed (use assms(2) in \<open>simp_all add: new_LineTokens_def flat_length\<close>)
  ultimately show ?thesis by blast
qed

lemma insert_styled_length: "length (insert_styled p ins cs) = length cs + sum_list (map (\<lambda>t. length (it_text t)) ins)"
  by (induction p ins cs rule: insert_styled.induct) (auto simp: Let_def)

lemma styled_length: "0 \<le> p \<Longrightarrow> ascending p (map fst ts) (int (length s)) \<Longrightarrow> ts \<noteq> [] \<Longrightarrow> fst (last ts) = int (length s) \<Longrightarrow> int (length (styled s p ts)) = int (length s) - p"
proof (induction s p ts rule: styled.induct)
  case (2 s p e m ts)
  have "e \<le> int (length s)" using 2 ascending_le by auto
  then have l: "int (length (js_substring s p e)) = e - p" using 2 length_js_substring [of p e s] by simp
  show ?case
  proof (cases "ts = []")
    case False
    with 2 l show ?thesis by simp
  qed (use 2 l in simp)
qed simp

text \<open>C32: \<^verbatim>\<open>LineTokens.withInserted\<close>: for tokens that cover their line and insertions in ascending order, the result is a line whose tokens cover it, and its characters with the metadata of their tokens are
  those of the original line with the inserted texts, each with its own metadata, at their offsets; an insertion inside of a token splits it.\<close>

theorem withInserted_inserts:
  assumes "tokens_cover lt" "ascending 0 (map it_offset ins) (int (length (lt_text lt)))" "length (lt_text lt) + sum_list (map (\<lambda>t. length (it_text t)) ins) < 2 ^ 32"
  shows "tokens_cover (LineTokens_withInserted lt ins) \<and> styled_chars (LineTokens_withInserted lt ins) = insert_styled 0 ins (styled_chars lt)"
proof (cases "ins = []")
  case True
  with assms(1) show ?thesis by (simp add: LineTokens_withInserted_def)
next
  case False
  note c = cover_ascending [OF assms(1)]
  obtain s2 ts2 where l: "insert_loop (lt_text lt) (token_list lt) ins [] (flat []) 0 = (s2, flat ts2)" "builds s2 ts2 ([] @ insert_styled 0 ins (styled_chars lt))" "length (token_list lt) \<le> length ts2"
    using insert_loop_builds [OF builds_Nil _ c(1) _ assms(2), of 0] c(2,3) by (auto simp: styled_chars_def)
  have "length s2 = length (insert_styled 0 ins (styled_chars lt))" using builds_props [OF l(2), of "[]"] by (metis append_Nil length_map)
  also have "\<dots> = length (lt_text lt) + sum_list (map (\<lambda>t. length (it_text t)) ins)"
    using styled_length [OF _ c] by (simp add: insert_styled_length styled_chars_def)
  finally have "length s2 < 2 ^ 32" using assms(3) by simp
  moreover have "ts2 \<noteq> []" using l(3) c(2) by auto
  moreover have "LineTokens_withInserted lt ins = new_LineTokens (flat ts2) s2 (lt_decodeLanguageId lt)"
    using False l(1) by (simp add: LineTokens_withInserted_def token_list_def flat_def)
  ultimately show ?thesis using builds_cover [OF l(2)] by simp
qed

theorem withInserted_inserts_witness:
  "styled_chars (LineTokens_withInserted (new_LineTokens [2, 7, 3, 8] [97, 98, 99] (\<lambda>_. [])) [\<lparr>it_offset = 1, it_text = [120, 121], it_tokenMetadata = 9\<rparr>]) =
     [(97, 7), (120, 9), (121, 9), (98, 7), (99, 8)]"
proof -
  let ?lt = "new_LineTokens [2, 7, 3, 8] [97, 98, 99] (\<lambda>_. [])" and ?i = "[\<lparr>it_offset = 1, it_text = [120, 121], it_tokenMetadata = 9\<rparr>]"
  have c: "tokens_cover ?lt" unfolding tokens_cover_def by (intro exI [of _ 2]) (auto simp: new_LineTokens_def less_2_cases_iff le_Suc_eq)
  have "token_list ?lt = [(2, 7), (3, 8)]" by (simp add: token_list_def new_LineTokens_def LineTokens_getEndOffset_def LineTokens_getMetadata_def typed_get_def js_at_def upto.simps)
  then have "styled_chars ?lt = [(97, 7), (98, 7), (99, 8)]" by (simp add: styled_chars_def) (simp add: new_LineTokens_def js_substring_def)
  moreover have "ascending 0 (map it_offset ?i) (int (length (lt_text ?lt)))" "length (lt_text ?lt) + sum_list (map (\<lambda>t. length (it_text t)) ?i) < 2 ^ 32" by (simp_all add: new_LineTokens_def)
  ultimately show ?thesis using withInserted_inserts [OF c, of ?i] by simp
qed

end
