(* ===== verification/Text_Buffer_Tokenizer.thy ===== *)
theory Text_Buffer_Tokenizer
  imports Incremental_Parser Line_Tokens
begin

text \<open>
  \<^verbatim>\<open>TextBufferTokenizer\<close> and \<^verbatim>\<open>NonPeekableTextBufferTokenizer\<close> of \<^verbatim>\<open>tokenizer.ts\<close>: the tokenizer that reads the lines of a text model with their language tokens.  The expressions that find
  brackets and the lookup of a bracket are parameters; \<open>source_ok\<close> and \<open>brackets_ok\<close> say what the tokenizer relies on.
\<close>

section \<open>The tokenizer\<close>

text \<open>\<^verbatim>\<open>ITokenizerSource\<close>: what the tokenizer asks of the text model.\<close>

record ITokenizerSource =
  ts_getLineCount :: int
  ts_getLineLength :: "int \<Rightarrow> int"
  ts_getLineTokens :: "int \<Rightarrow> LineTokens"

text \<open>What \<^verbatim>\<open>getSingleLanguageBracketTokens\<close> returns for a language: the first match of the expression in a text (no expression when there are no brackets), \<^verbatim>\<open>getToken\<close>, and all matches of a bracket or a line feed, which \<^verbatim>\<open>FastTokenizer\<close> goes through.\<close>

record language_brackets =
  lg_regExpGlobal :: "(js_string \<Rightarrow> (int \<times> js_string) option) option"
  lg_getToken :: "js_string \<Rightarrow> BracketToken option"
  lg_matchAll :: "js_string \<Rightarrow> (int \<times> js_string) list option"

text \<open>\<^verbatim>\<open>line\<close> and \<^verbatim>\<open>lineTokens\<close> are set together and \<^verbatim>\<open>lineTokens\<close> is not read while \<^verbatim>\<open>line\<close> is \<^verbatim>\<open>null\<close>, so \<open>np_line\<close> stands for both.\<close>

record NonPeekableTextBufferTokenizer =
  np_textModel :: ITokenizerSource
  np_bracketTokens :: "js_string \<Rightarrow> language_brackets"
  np_textBufferLineCount :: int
  np_textBufferLastLineLength :: int
  np_lineIdx :: int
  np_line :: "LineTokens option"
  np_lineCharOffset :: int
  np_lineTokenOffset :: int
  np_peekedToken :: "BracketToken option"

definition new_NonPeekableTextBufferTokenizer :: "ITokenizerSource \<Rightarrow> (js_string \<Rightarrow> language_brackets) \<Rightarrow> NonPeekableTextBufferTokenizer" where
  "new_NonPeekableTextBufferTokenizer textModel bracketTokens =
     \<lparr>np_textModel = textModel, np_bracketTokens = bracketTokens, np_textBufferLineCount = ts_getLineCount textModel,
      np_textBufferLastLineLength = ts_getLineLength textModel (ts_getLineCount textModel), np_lineIdx = 0, np_line = None, np_lineCharOffset = 0,
      np_lineTokenOffset = 0, np_peekedToken = None\<rparr>"

definition token_offset_at :: "LineTokens \<Rightarrow> int \<Rightarrow> int" where
  "token_offset_at lineTokens off = (if off = 0 then 0 else LineTokens_findTokenIndexAtOffset lineTokens off)"

definition NonPeekable_setPosition :: "int \<Rightarrow> int \<Rightarrow> NonPeekableTextBufferTokenizer \<Rightarrow> NonPeekableTextBufferTokenizer" where
  "NonPeekable_setPosition lineIdx col this =
     (if lineIdx = np_lineIdx this then
        this\<lparr>np_lineCharOffset := col,
             np_lineTokenOffset := (case np_line this of None \<Rightarrow> np_lineTokenOffset this | Some lineTokens \<Rightarrow> token_offset_at lineTokens col),
             np_peekedToken := None\<rparr>
      else this\<lparr>np_lineIdx := lineIdx, np_lineCharOffset := col, np_line := None, np_peekedToken := None\<rparr>)"

text \<open>The inner loop of \<^verbatim>\<open>read\<close>, which skips tokens with the same metadata.\<close>

function skip_identical :: "LineTokens \<Rightarrow> u32 \<Rightarrow> int \<Rightarrow> int" where
  "skip_identical lineTokens metadata i =
     (if i + 1 < LineTokens_getCount lineTokens \<and> metadata = LineTokens_getMetadata lineTokens (i + 1) then skip_identical lineTokens metadata (i + 1) else i)"
  by pat_completeness auto
termination by (relation "measure (\<lambda>(lt, _, i). nat (LineTokens_getCount lt - i))") auto

declare skip_identical.simps [simp del]

text \<open>The bracket of a token behind an offset, if the token can contain brackets.\<close>

definition find_bracket :: "(js_string \<Rightarrow> language_brackets) \<Rightarrow> LineTokens \<Rightarrow> int \<Rightarrow> int \<Rightarrow> (int \<times> BracketToken) option" where
  "find_bracket bracketTokens lineTokens tokenOffset charOffset =
     (let metadata = LineTokens_getMetadata lineTokens tokenOffset; endOffset = LineTokens_getEndOffset lineTokens tokenOffset
      in if TokenMetadata_containsBalancedBrackets metadata \<and> TokenMetadata_getTokenType metadata = TT_Other \<and> charOffset < endOffset then
           let brackets = bracketTokens (LineTokens_getLanguageId lineTokens tokenOffset);
               text = js_substring (LineTokens_getLineContent lineTokens) charOffset endOffset
           in (case lg_regExpGlobal brackets of
                 None \<Rightarrow> None
               | Some exec \<Rightarrow>
                   (case exec text of
                      None \<Rightarrow> None
                    | Some (i, m) \<Rightarrow> map_option (\<lambda>t. (i, t)) (lg_getToken brackets m)))
         else None)"

lemma skip_identical_ge: "i \<le> skip_identical lt m i"
  by (induction lt m i rule: skip_identical.induct) (subst skip_identical.simps, auto)

text \<open>The loop of \<^verbatim>\<open>read\<close>.  A token is what it returns from inside; otherwise it was left with \<^verbatim>\<open>break\<close>.  The loop is entered only
  with \<^verbatim>\<open>lineIdx <= textBufferLineCount - 1\<close>, so the test for the last line can be \<open>\<ge>\<close>.\<close>

function read_tokens :: "int \<Rightarrow> int \<Rightarrow> int \<Rightarrow> LineTokens \<Rightarrow> NonPeekableTextBufferTokenizer \<Rightarrow> BracketToken option \<times> NonPeekableTextBufferTokenizer" where
  "read_tokens startLineIdx startLineCharOffset lengthHeuristic lineTokens this =
     (if np_lineTokenOffset this < LineTokens_getCount lineTokens then
        let tokenOffset = skip_identical lineTokens (LineTokens_getMetadata lineTokens (np_lineTokenOffset this)) (np_lineTokenOffset this);
            endOffset = LineTokens_getEndOffset lineTokens tokenOffset;
            this2 = this\<lparr>np_lineTokenOffset := tokenOffset\<rparr>
        in (case find_bracket (np_bracketTokens this) lineTokens tokenOffset (np_lineCharOffset this) of
              Some (i, t) \<Rightarrow>
                let charOffset = np_lineCharOffset this + i
                in if startLineIdx \<noteq> np_lineIdx this \<or> startLineCharOffset \<noteq> charOffset
                   then (None, this2\<lparr>np_lineCharOffset := charOffset, np_peekedToken := Some t\<rparr>)
                   else (Some t, this2\<lparr>np_lineCharOffset := charOffset + lengthGetColumnCountIfZeroLineCount (tk_length t)\<rparr>)
            | None \<Rightarrow>
                let heuristic = lengthHeuristic + (endOffset - np_lineCharOffset this);
                    this3 = this2\<lparr>np_lineTokenOffset := tokenOffset + 1, np_lineCharOffset := endOffset\<rparr>
                in if heuristic > 1500 then (None, this3)
                   else read_tokens startLineIdx startLineCharOffset heuristic lineTokens this3)
      else if np_lineIdx this \<ge> np_textBufferLineCount this - 1 then (None, this)
      else
        let lineTokens2 = ts_getLineTokens (np_textModel this) (np_lineIdx this + 1 + 1);
            this2 = this\<lparr>np_lineIdx := np_lineIdx this + 1, np_line := Some lineTokens2, np_lineTokenOffset := 0, np_lineCharOffset := 0\<rparr>
        in if lengthHeuristic + 33 > 1000 then (None, this2)
           else read_tokens startLineIdx startLineCharOffset (lengthHeuristic + 33) lineTokens2 this2)"
  by pat_completeness auto

termination
proof (relation "inv_image (less_than <*lex*> less_than) (\<lambda>(_, _, _, lt, this). (nat (np_textBufferLineCount this - np_lineIdx this), nat (LineTokens_getCount lt - np_lineTokenOffset this)))",
    goal_cases)
  case (2 s c h lt this x xa xb)
  then show ?case using skip_identical_ge [of "np_lineTokenOffset this" lt "LineTokens_getMetadata lt (np_lineTokenOffset this)"] by auto
qed auto

declare read_tokens.simps [simp del]

definition NonPeekable_read :: "NonPeekableTextBufferTokenizer \<Rightarrow> BracketToken option \<times> NonPeekableTextBufferTokenizer" where
  "NonPeekable_read this =
     (case np_peekedToken this of
        Some token \<Rightarrow>
          (Some token, this\<lparr>np_peekedToken := None, np_lineCharOffset := np_lineCharOffset this + lengthGetColumnCountIfZeroLineCount (tk_length token)\<rparr>)
      | None \<Rightarrow>
          if np_lineIdx this > np_textBufferLineCount this - 1
             \<or> np_lineIdx this = np_textBufferLineCount this - 1 \<and> np_lineCharOffset this \<ge> np_textBufferLastLineLength this
          then (None, this)
          else
            let (lineTokens, this2) =
                  (case np_line this of
                     Some lt \<Rightarrow> (lt, this)
                   | None \<Rightarrow>
                       let lt = ts_getLineTokens (np_textModel this) (np_lineIdx this + 1)
                       in (lt, this\<lparr>np_line := Some lt, np_lineTokenOffset := token_offset_at lt (np_lineCharOffset this)\<rparr>))
            in (case read_tokens (np_lineIdx this) (np_lineCharOffset this) 0 lineTokens this2 of
                  (Some t, this3) \<Rightarrow> (Some t, this3)
                | (None, this3) \<Rightarrow>
                    (Some (text_token (lengthDiff (np_lineIdx this) (np_lineCharOffset this) (np_lineIdx this3) (np_lineCharOffset this3))), this3)))"

record TextBufferTokenizer =
  tb_reader :: NonPeekableTextBufferTokenizer
  tb_textBufferLineCount :: int
  tb_textBufferLastLineLength :: int
  tb_offset :: Length
  tb_didPeek :: bool
  tb_peeked :: "BracketToken option"

definition new_TextBufferTokenizer :: "ITokenizerSource \<Rightarrow> (js_string \<Rightarrow> language_brackets) \<Rightarrow> TextBufferTokenizer" where
  "new_TextBufferTokenizer textModel bracketTokens =
     \<lparr>tb_reader = new_NonPeekableTextBufferTokenizer textModel bracketTokens, tb_textBufferLineCount = ts_getLineCount textModel,
      tb_textBufferLastLineLength = ts_getLineLength textModel (ts_getLineCount textModel), tb_offset = lengthZero, tb_didPeek = False, tb_peeked = None\<rparr>"

definition TextBufferTokenizer_length :: "TextBufferTokenizer \<Rightarrow> Length" where
  "TextBufferTokenizer_length this = toLength (tb_textBufferLineCount this - 1) (tb_textBufferLastLineLength this)"

definition TextBufferTokenizer_skip :: "Length \<Rightarrow> TextBufferTokenizer \<Rightarrow> TextBufferTokenizer result" where
  "TextBufferTokenizer_skip len this =
     (let off = lengthAdd (tb_offset this) len; obj = lengthToObj off
      in Inr (this\<lparr>tb_didPeek := False, tb_offset := off, tb_reader := NonPeekable_setPosition (lineCount obj) (columnCount obj) (tb_reader this)\<rparr>))"

definition TextBufferTokenizer_read :: "TextBufferTokenizer \<Rightarrow> BracketToken option \<times> TextBufferTokenizer" where
  "TextBufferTokenizer_read this =
     (let (token, this2) =
            (case tb_peeked this of
               Some t \<Rightarrow> (Some t, this\<lparr>tb_didPeek := False\<rparr>)
             | None \<Rightarrow> (case NonPeekable_read (tb_reader this) of (t, r) \<Rightarrow> (t, this\<lparr>tb_reader := r\<rparr>)))
      in case token of
           None \<Rightarrow> (None, this2)
         | Some t \<Rightarrow> (Some t, this2\<lparr>tb_offset := lengthAdd (tb_offset this2) (tk_length t)\<rparr>))"

definition TextBufferTokenizer_peek :: "TextBufferTokenizer \<Rightarrow> BracketToken option \<times> TextBufferTokenizer" where
  "TextBufferTokenizer_peek this =
     (let this2 = (if \<not> tb_didPeek this then (case NonPeekable_read (tb_reader this) of (t, r) \<Rightarrow> this\<lparr>tb_reader := r, tb_peeked := t, tb_didPeek := True\<rparr>) else this)
      in (tb_peeked this2, this2))"

definition TextBufferTokenizer_methods :: "TextBufferTokenizer Tokenizer" where
  "TextBufferTokenizer_methods = \<lparr>tz_offset = tb_offset, tz_read = TextBufferTokenizer_read, tz_peek = TextBufferTokenizer_peek, tz_skip = TextBufferTokenizer_skip\<rparr>"

section \<open>What the text model and the expressions promise\<close>

definition source_ok :: "ITokenizerSource \<Rightarrow> js_string list \<Rightarrow> bool" where
  "source_ok src lines \<longleftrightarrow> lines \<noteq> [] \<and> (\<forall>l \<in> set lines. LF \<notin> set l) \<and> ts_getLineCount src = int (length lines) \<and>
     ts_getLineLength src (int (length lines)) = int (length (last lines)) \<and>
     (\<forall>k < length lines. tokens_cover (ts_getLineTokens src (int k + 1)) \<and> lt_text (ts_getLineTokens src (int k + 1)) = lines ! k)"

definition brackets_ok :: "(js_string \<Rightarrow> language_brackets) \<Rightarrow> bool" where
  "brackets_ok bracketTokens \<longleftrightarrow>
     (\<forall>l exec s i m. lg_regExpGlobal (bracketTokens l) = Some exec \<longrightarrow> exec s = Some (i, m) \<longrightarrow> m \<noteq> [] \<and> (\<exists>a c. s = a @ m @ c \<and> i = int (length a))) \<and>
     (\<forall>l m t. lg_getToken (bracketTokens l) m = Some t \<longrightarrow> bracket_token m t)"

section \<open>Where the reader stands\<close>

definition in_token :: "LineTokens \<Rightarrow> int \<Rightarrow> nat \<Rightarrow> bool" where
  "in_token lt i j \<longleftrightarrow> i = LineTokens_getCount lt \<and> j = length (lt_text lt) \<or> (\<exists>n. i = int n \<and> i < LineTokens_getCount lt \<and> int j \<le> token_end lt n)"

definition np_at :: "ITokenizerSource \<Rightarrow> js_string list \<Rightarrow> nat \<Rightarrow> nat \<Rightarrow> NonPeekableTextBufferTokenizer \<Rightarrow> bool" where
  "np_at src lines k j this \<longleftrightarrow> np_textModel this = src \<and> brackets_ok (np_bracketTokens this) \<and> np_textBufferLineCount this = int (length lines) \<and>
     np_textBufferLastLineLength this = int (length (last lines)) \<and> np_lineIdx this = int k \<and> np_lineCharOffset this = int j \<and> k < length lines \<and> j \<le> length (lines ! k) \<and>
     (\<forall>lt. np_line this = Some lt \<longrightarrow> lt = ts_getLineTokens src (int k + 1) \<and> in_token lt (np_lineTokenOffset this) j)"

text \<open>The reader stands before a bracket that it has found already.\<close>

definition np_good :: "ITokenizerSource \<Rightarrow> js_string list \<Rightarrow> nat \<Rightarrow> nat \<Rightarrow> NonPeekableTextBufferTokenizer \<Rightarrow> bool" where
  "np_good src lines k j this \<longleftrightarrow> np_at src lines k j this \<and>
     (\<forall>t. np_peekedToken this = Some t \<longrightarrow>
        (\<exists>a w c lt. np_line this = Some lt \<and> lines ! k = a @ w @ c \<and> length a = j \<and> w \<noteq> [] \<and> bracket_token w t \<and> in_token lt (np_lineTokenOffset this) (j + length w)))"

lemma skip_identical_bound: "i < LineTokens_getCount lt \<Longrightarrow> skip_identical lt m i < LineTokens_getCount lt"
  by (induction lt m i rule: skip_identical.induct) (subst skip_identical.simps, auto)

lemma token_length: "bracket_token w t \<Longrightarrow> lengthGetColumnCountIfZeroLineCount (tk_length t) = int (length w)"
  by (simp add: bracket_token_def lengthGetColumnCountIfZeroLineCount_def toLength_def)

lemma cover_token:
  assumes "tokens_cover lt" "int n < LineTokens_getCount lt"
  shows "LineTokens_getEndOffset lt (int n) = token_end lt n" "token_end lt n \<le> int (length (lt_text lt))"
    "int n + 1 = LineTokens_getCount lt \<Longrightarrow> token_end lt n = int (length (lt_text lt))" "n \<le> m \<Longrightarrow> int m < LineTokens_getCount lt \<Longrightarrow> token_end lt n \<le> token_end lt m"
proof -
  obtain c where c: "length (lt_tokens lt) = 2 * c" "lt_tokensCount lt = int c" "0 < c" "\<And>i j. i \<le> j \<Longrightarrow> j < c \<Longrightarrow> token_end lt i \<le> token_end lt j" "token_end lt (c - 1) = int (length (lt_text lt))"
    using assms(1) unfolding tokens_cover_def by blast
  have n: "n < c" using assms(2) c(2) by (simp add: LineTokens_getCount_def)
  show "LineTokens_getEndOffset lt (int n) = token_end lt n" using getEndOffset_nat [of n lt] n c(1) by simp
  show "token_end lt n \<le> int (length (lt_text lt))" using c(4) [of n "c - 1"] c(5) n by simp
  show "token_end lt n = int (length (lt_text lt))" if "int n + 1 = LineTokens_getCount lt"
  proof -
    have "n = c - 1" using that c(2) by (simp add: LineTokens_getCount_def)
    then show ?thesis using c(5) by simp
  qed
  show "token_end lt n \<le> token_end lt m" if "n \<le> m" "int m < LineTokens_getCount lt" using c(4) [OF that(1)] that(2) c(2) by (simp add: LineTokens_getCount_def)
qed

lemma token_offset_in_token: "tokens_cover lt \<Longrightarrow> j \<le> length (lt_text lt) \<Longrightarrow> in_token lt (token_offset_at lt (int j)) j"
proof -
  assume c: "tokens_cover lt" and j: "j \<le> length (lt_text lt)"
  have "0 < LineTokens_getCount lt" using c by (auto simp: tokens_cover_def LineTokens_getCount_def)
  with find_index_correct [OF c j] show ?thesis by (auto simp: in_token_def token_offset_at_def)
qed

text \<open>The bracket of a token stands in the line behind the offset.\<close>

lemma find_bracket_Some:
  assumes "find_bracket b lt (int n) (int j) = Some (i, t)" "brackets_ok b" "tokens_cover lt" "int n < LineTokens_getCount lt" "j \<le> length (lt_text lt)"
  shows "\<exists>a w c. lt_text lt = a @ w @ c \<and> int (length a) = int j + i \<and> 0 \<le> i \<and> w \<noteq> [] \<and> bracket_token w t \<and> int (length (a @ w)) \<le> token_end lt n"
proof -
  note ce = cover_token(1,2) [OF assms(3,4)]
  let ?s = "js_substring (lt_text lt) (int j) (token_end lt n)" and ?g = "b (LineTokens_getLanguageId lt (int n))"
  obtain exec w where e: "lg_regExpGlobal ?g = Some exec" "exec ?s = Some (i, w)" "lg_getToken ?g w = Some t" "int j < token_end lt n"
    using assms(1) ce by (auto simp: find_bracket_def Let_def LineTokens_getLineContent_def split: if_splits option.splits prod.splits)
  obtain x y where s: "w \<noteq> []" "?s = x @ w @ y" "i = int (length x)" "bracket_token w t" using assms(2) e(1-3) unfolding brackets_ok_def by metis
  obtain e where te: "token_end lt n = int e" by (metis nonneg_int_cases uint_lt_0 not_le)
  have sub: "?s = take (e - j) (drop j (lt_text lt))" using e(4) ce(2) by (simp add: te js_substring_def Let_def min_def flip: of_nat_diff)
  have "lt_text lt = take j (lt_text lt) @ ?s @ drop e (lt_text lt)"
  proof -
    have "drop e (lt_text lt) = drop (e - j) (drop j (lt_text lt))" using e(4) te by simp
    then show ?thesis unfolding sub by (metis append_take_drop_id)
  qed
  then have "lt_text lt = (take j (lt_text lt) @ x) @ w @ (y @ drop e (lt_text lt))" using s(2) by simp
  moreover have "length ?s \<le> e - j" unfolding sub by simp
  then have "int j + int (length x) + int (length w) \<le> token_end lt n" using s(2) e(4) te by simp
  ultimately show ?thesis using s(1,3,4) assms(5) by (intro exI [of _ "take j (lt_text lt) @ x"] exI [of _ w] exI [of _ "y @ drop e (lt_text lt)"]) simp
qed

section \<open>Reading\<close>

lemma line_offset_Suc: "k < length ls \<Longrightarrow> line_offset ls (Suc k) = line_offset ls k + length (ls ! k) + 1"
  by (simp add: line_offset_def take_Suc_conv_app_nth)

abbreviation place :: "js_string list \<Rightarrow> nat \<Rightarrow> nat \<Rightarrow> nat" where
  "place lines k j \<equiv> line_offset lines k + j"

lemma place_unique:
  assumes "source_ok src lines" "k < length lines" "j \<le> length (lines ! k)" "k2 < length lines" "j2 \<le> length (lines ! k2)" "place lines k j = place lines k2 j2"
  shows "k = k2 \<and> j = j2"
proof -
  have lf: "\<forall>l \<in> set lines. LF \<notin> set l" using assms(1) by (simp add: source_ok_def)
  have "new_TextLength (int k) (int j) = new_TextLength (int k2) (int j2)"
    using take_join_lines [OF lf assms(2,3), THEN conjunct2] take_join_lines [OF lf assms(4,5), THEN conjunct2] unfolding assms(6) by (rule trans [OF sym])
  then show ?thesis by simp
qed

text \<open>What the loop returns when it was entered for the place \<open>p0\<close>: a bracket at this place, or the reader has moved on.\<close>

definition read_result :: "ITokenizerSource \<Rightarrow> js_string list \<Rightarrow> nat \<Rightarrow> nat \<Rightarrow> BracketToken option \<times> NonPeekableTextBufferTokenizer \<Rightarrow> bool" where
  "read_result src lines k0 j0 = (\<lambda>(r, this).
     case r of
       Some t \<Rightarrow> \<exists>a w c. lines ! k0 = a @ w @ c \<and> length a = j0 \<and> w \<noteq> [] \<and> bracket_token w t \<and> np_peekedToken this = None \<and> np_at src lines k0 (j0 + length w) this
     | None \<Rightarrow> \<exists>k j. place lines k0 j0 < place lines k j \<and> np_good src lines k j this)"

lemma read_result_bracket:
  "lines ! k0 = a @ w @ c \<Longrightarrow> length a = j0 \<Longrightarrow> w \<noteq> [] \<Longrightarrow> bracket_token w t \<Longrightarrow> np_peekedToken this = None \<Longrightarrow> np_at src lines k0 (j0 + length w) this \<Longrightarrow>
   read_result src lines k0 j0 (Some t, this)"
  unfolding read_result_def by auto

lemma read_result_text: "place lines k0 j0 < place lines k j \<Longrightarrow> np_good src lines k j this \<Longrightarrow> read_result src lines k0 j0 (None, this)"
  unfolding read_result_def by auto

lemma read_tokens_result:
  assumes "source_ok src lines" "np_at src lines k j this" "np_peekedToken this = None" "np_line this = Some lt" "k0 < length lines" "j0 \<le> length (lines ! k0)"
    "place lines k0 j0 \<le> place lines k j" "0 \<le> h" "0 < h \<Longrightarrow> place lines k0 j0 < place lines k j"
    "Suc k0 = length lines \<Longrightarrow> j0 < length (lines ! k0)"
  shows "read_result src lines k0 j0 (read_tokens (int k0) (int j0) h lt this)"
  using assms(2-4,7-9)
proof (induction "int k0" "int j0" h lt this arbitrary: k j rule: read_tokens.induct)
  case (1 h lt this)
  have at: "np_textModel this = src" "brackets_ok (np_bracketTokens this)" "np_textBufferLineCount this = int (length lines)" "np_textBufferLastLineLength this = int (length (last lines))"
    "np_lineIdx this = int k" "np_lineCharOffset this = int j" "k < length lines" "j \<le> length (lines ! k)" "lt = ts_getLineTokens src (int k + 1)" "in_token lt (np_lineTokenOffset this) j"
    using "1.prems"(1,3) unfolding np_at_def by auto
  have lt: "tokens_cover lt" "lt_text lt = lines ! k" using assms(1) at(7,9) by (simp_all add: source_ok_def)
  show ?case
  proof (cases "np_lineTokenOffset this < LineTokens_getCount lt")
    case True
    then obtain n0 where n0: "np_lineTokenOffset this = int n0" "int j \<le> token_end lt n0" using at(10) by (auto simp: in_token_def)
    let ?i = "skip_identical lt (LineTokens_getMetadata lt (np_lineTokenOffset this)) (np_lineTokenOffset this)"
    have i: "np_lineTokenOffset this \<le> ?i" "?i < LineTokens_getCount lt" using skip_identical_ge skip_identical_bound [OF True] by auto
    obtain n where n: "?i = int n" using i(1) n0(1) by (metis nonneg_int_cases of_nat_0_le_iff order_trans)
    have jn: "int j \<le> token_end lt n" using cover_token(4) [OF lt(1), of n0 n] n0 i n True by force
    note ce = cover_token(1,2,3) [OF lt(1) i(2) [unfolded n]]
    show ?thesis
    proof (cases "find_bracket (np_bracketTokens this) lt (int n) (int j)")
      case (Some it)
      obtain i' t where it: "it = (i', t)" by (cases it)
      obtain a w c where w: "lines ! k = a @ w @ c" "int (length a) = int j + i'" "0 \<le> i'" "w \<noteq> []" "bracket_token w t" "int (length (a @ w)) \<le> token_end lt n"
        using find_bracket_Some [OF Some [unfolded it] at(2) lt(1)] i(2) n at(8) lt(2) by auto
      have aj: "j \<le> length a" using w(2,3) by linarith
      show ?thesis
      proof (cases "k0 = k \<and> j0 = length a")
        case here: True
        then have "j0 = j" using "1.prems"(4) aj by simp
        let ?this3 = "this\<lparr>np_lineTokenOffset := int n, np_lineCharOffset := int (length a) + lengthGetColumnCountIfZeroLineCount (tk_length t)\<rparr>"
        have "read_tokens (int k0) (int j0) h lt this = (Some t, ?this3)"
          using True n Some it at(5,6) w(2) here by (subst read_tokens.simps) (simp add: Let_def)
        moreover have "np_at src lines k0 (j0 + length w) ?this3"
          using "1.prems"(1,3) w(1,6) i(2) n here at token_length [OF w(5)] by (auto simp: np_at_def in_token_def)
        ultimately show ?thesis using read_result_bracket [of lines k0 a w c j0 t ?this3 src] w here "1.prems"(2) by simp
      next
        case False
        let ?this3 = "this\<lparr>np_lineTokenOffset := int n, np_lineCharOffset := int (length a), np_peekedToken := Some t\<rparr>"
        have "read_tokens (int k0) (int j0) h lt this = (None, ?this3)"
          using True n Some it at(5,6) w(2) False by (subst read_tokens.simps) (auto simp: Let_def)
        moreover have "np_good src lines k (length a) ?this3"
          using "1.prems"(1,3) w i(2) n at by (auto simp: np_good_def np_at_def in_token_def)
        moreover have "place lines k0 j0 \<noteq> place lines k (length a)"
          using place_unique [OF assms(1) assms(5,6) at(7), of "length a"] w(1) False by auto
        ultimately show ?thesis using read_result_text [of lines k0 j0 k "length a" src ?this3] "1.prems"(4) aj by simp
      qed
    next
      case None
      obtain e where e: "token_end lt n = int e" by (metis nonneg_int_cases uint_lt_0 not_le)
      let ?this3 = "this\<lparr>np_lineTokenOffset := int n + 1, np_lineCharOffset := int e\<rparr>" and ?h = "h + (int e - int j)"
      have st: "read_tokens (int k0) (int j0) h lt this = (if ?h > 1500 then (None, ?this3) else read_tokens (int k0) (int j0) ?h lt ?this3)"
        using True n None at(5,6) ce(1) e by (subst read_tokens.simps) (simp add: Let_def)
      have it: "in_token lt (int n + 1) e"
      proof (cases "int n + 1 = LineTokens_getCount lt")
        case True
        then show ?thesis using ce(3) e by (simp add: in_token_def)
      next
        case False
        then have c: "int (Suc n) < LineTokens_getCount lt" using i(2) n by simp
        then have "int e \<le> token_end lt (Suc n)" using cover_token(4) [OF lt(1), of n "Suc n"] e by simp
        with c show ?thesis unfolding in_token_def by (intro disjI2 exI [of _ "Suc n"]) simp
      qed
      have at3: "np_at src lines k e ?this3" using "1.prems"(1,3) it ce(2) e lt(2) at by (simp add: np_at_def)
      have p3: "place lines k0 j0 \<le> place lines k e" "0 \<le> ?h" "0 < ?h \<Longrightarrow> place lines k0 j0 < place lines k e"
        using "1.prems"(4-6) jn e by (simp, simp, cases "0 < h") auto
      show ?thesis
      proof (cases "?h > 1500")
        case True
        then have "read_tokens (int k0) (int j0) h lt this = (None, ?this3)" using st by simp
        moreover have "np_good src lines k e ?this3" using at3 "1.prems"(2) by (simp add: np_good_def)
        ultimately show ?thesis using read_result_text [of lines k0 j0 k e src ?this3] p3(3) True by simp
      next
        case False
        have "read_result src lines k0 j0 (read_tokens (int k0) (int j0) ?h lt ?this3)"
          using "1.hyps"(1) [OF True refl refl refl, unfolded n at(6) ce(1) e, OF None refl _ _ at3 _ _ p3] False "1.prems"(2,3) by simp
        with st False show ?thesis by simp
      qed
    qed
  next
    case False
    then have je: "j = length (lines ! k)" using at(10) lt(2) by (auto simp: in_token_def)
    show ?thesis
    proof (cases "Suc k = length lines")
      case True
      then have "read_tokens (int k0) (int j0) h lt this = (None, this)" using False at(3,5) by (subst read_tokens.simps) simp
      moreover have "place lines k0 j0 \<noteq> place lines k j"
        using place_unique [OF assms(1) assms(5,6) at(7,8)] assms(10) True je by auto
      ultimately show ?thesis using read_result_text [of lines k0 j0 k j src this] "1.prems"(1,2,4) by (simp add: np_good_def)
    next
      case nl: False
      then have k1: "Suc k < length lines" using at(7) by simp
      let ?lt = "ts_getLineTokens src (int (Suc k) + 1)" and ?this2 = "this\<lparr>np_lineIdx := int (Suc k), np_line := Some (ts_getLineTokens src (int (Suc k) + 1)), np_lineTokenOffset := 0, np_lineCharOffset := int 0\<rparr>"
      have st: "read_tokens (int k0) (int j0) h lt this = (if h + 33 > 1000 then (None, ?this2) else read_tokens (int k0) (int j0) (h + 33) ?lt ?this2)"
        using False at(1,3,5) k1 by (subst read_tokens.simps) (simp add: Let_def add.commute)
      have "tokens_cover ?lt" using assms(1) k1 unfolding source_ok_def by blast
      then have "in_token ?lt 0 0" using token_offset_in_token [of ?lt 0] by (simp add: token_offset_at_def)
      then have at2: "np_at src lines (Suc k) 0 ?this2" using "1.prems"(1) k1 by (simp add: np_at_def)
      have p2: "place lines k0 j0 < place lines (Suc k) 0" using "1.prems"(4) je line_offset_Suc [OF at(7)] by simp
      show ?thesis
      proof (cases "h + 33 > 1000")
        case True
        then show ?thesis using read_result_text [of lines k0 j0 "Suc k" 0 src ?this2] st at2 p2 "1.prems"(2) by (simp add: np_good_def)
      next
        case small: False
        have "read_result src lines k0 j0 (read_tokens (int k0) (int j0) (h + 33) ?lt ?this2)"
          using "1.hyps"(2) [OF False _ _ _ _ at2] small "1.prems"(2,5) p2 at(1,3,5) k1 by (simp add: add.commute)
        with st small show ?thesis by simp
      qed
    qed
  qed
qed

lemma line_piece: "k < length ls \<Longrightarrow> \<exists>x y. join_lines ls = x @ ls ! k @ y \<and> length x = line_offset ls k"
proof (induction ls arbitrary: k rule: join_lines.induct)
  case (2 l)
  then show ?case by (intro exI [of _ "[]"]) simp
next
  case (3 l m ls)
  show ?case
  proof (cases k)
    case 0
    then show ?thesis by (intro exI [of _ "[]"] exI [of _ "LF # join_lines (m # ls)"]) simp
  next
    case (Suc k')
    then obtain x y where "join_lines (m # ls) = x @ (m # ls) ! k' @ y" "length x = line_offset (m # ls) k'" using "3.IH" [of k'] "3.prems" by auto
    with Suc show ?thesis by (intro exI [of _ "l @ LF # x"] exI [of _ y]) simp
  qed
qed simp

lemma join_lines_length: "ls \<noteq> [] \<Longrightarrow> length (join_lines ls) = line_offset ls (length ls - 1) + length (last ls)"
  by (induction ls rule: join_lines.induct) (auto simp: Suc_diff_Suc)

lemma place_end:
  assumes "source_ok src lines" "k < length lines" "j \<le> length (lines ! k)"
  shows "place lines k j \<le> length (join_lines lines)" "place lines k j = length (join_lines lines) \<longleftrightarrow> Suc k = length lines \<and> j = length (lines ! k)"
proof -
  have lf: "\<forall>l \<in> set lines. LF \<notin> set l" and ne: "lines \<noteq> []" using assms(1) by (simp_all add: source_ok_def)
  show "place lines k j \<le> length (join_lines lines)" using take_join_lines [OF lf assms(2,3)] ..
  have e: "length (join_lines lines) = place lines (length lines - 1) (length (lines ! (length lines - 1)))" using join_lines_length [OF ne] by (simp add: last_conv_nth [OF ne])
  show "place lines k j = length (join_lines lines) \<longleftrightarrow> Suc k = length lines \<and> j = length (lines ! k)"
  proof
    assume "place lines k j = length (join_lines lines)"
    with place_unique [OF assms, of "length lines - 1" "length (lines ! (length lines - 1))"] e ne assms(2) show "Suc k = length lines \<and> j = length (lines ! k)" by simp
  next
    assume "Suc k = length lines \<and> j = length (lines ! k)"
    then have "k = length lines - 1" "j = length (lines ! k)" by auto
    with e show "place lines k j = length (join_lines lines)" by simp
  qed
qed

text \<open>The text between two places, and the length the reader computes for it.\<close>

abbreviation piece :: "js_string list \<Rightarrow> nat \<Rightarrow> nat \<Rightarrow> js_string" where
  "piece lines p q \<equiv> take (q - p) (drop p (join_lines lines))"

lemma piece_append: "p \<le> q \<Longrightarrow> take p (join_lines lines) @ piece lines p q = take q (join_lines lines)"
  by (metis le_add_diff_inverse take_add)

lemma piece_length:
  assumes "source_ok src lines" "k < length lines" "j \<le> length (lines ! k)" "k2 < length lines" "j2 \<le> length (lines ! k2)" "place lines k j \<le> place lines k2 j2"
  shows "plen (piece lines (place lines k j) (place lines k2 j2)) = lengthDiff (int k) (int j) (int k2) (int j2)"
proof -
  have lf: "\<forall>l \<in> set lines. LF \<notin> set l" using assms(1) by (simp add: source_ok_def)
  let ?u = "take (place lines k j) (join_lines lines)" and ?p = "piece lines (place lines k j) (place lines k2 j2)"
  have "tlen ?u = new_TextLength (int k) (int j)" "tlen (?u @ ?p) = new_TextLength (int k2) (int j2)"
    using take_join_lines [OF lf assms(2,3)] take_join_lines [OF lf assms(4,5)] piece_append [OF assms(6)] by simp_all
  then have "int k2 = int k + lineCount (tlen ?p)" "int j2 = (if lineCount (tlen ?p) = 0 then int j + columnCount (tlen ?p) else columnCount (tlen ?p))"
    using tlen_append_counts [of ?u ?p] by simp_all
  then show ?thesis unfolding plen_counts by (auto simp: lengthDiff_def)
qed

lemma bracket_piece:
  assumes "k < length lines" "lines ! k = a @ w @ c"
  shows "piece lines (place lines k (length a)) (place lines k (length a + length w)) = w"
proof -
  obtain x y where "join_lines lines = x @ (a @ w @ c) @ y" "length x = line_offset lines k" using line_piece [OF assms(1)] assms(2) by auto
  then show ?thesis by simp
qed

lemma line_token_for: "lines ! k = a @ w @ c \<Longrightarrow> source_ok src lines \<Longrightarrow> k < length lines \<Longrightarrow> w \<noteq> [] \<Longrightarrow> bracket_token w t \<Longrightarrow> token_for w (Some t)"
proof -
  assume *: "lines ! k = a @ w @ c" "source_ok src lines" "k < length lines" "w \<noteq> []" "bracket_token w t"
  have "LF \<notin> set (lines ! k)" using *(2,3) nth_mem unfolding source_ok_def by blast
  with * show ?thesis by (intro bracket_token_for) auto
qed

lemma text_token_for: "s \<noteq> [] \<Longrightarrow> l = plen s \<Longrightarrow> token_for s (Some (text_token l))"
  by (simp add: token_for_def text_token_def new_BracketToken_def)

lemma np_good_places: "np_good src lines k j this \<Longrightarrow> k < length lines \<and> j \<le> length (lines ! k)"
  by (simp add: np_good_def np_at_def)

text \<open>Reading takes the next piece of the text.\<close>

lemma np_read_piece:
  assumes "source_ok src lines" "np_good src lines k j this" "place lines k j < length (join_lines lines)"
  shows "\<exists>t this2 k2 j2. NonPeekable_read this = (Some t, this2) \<and> np_good src lines k2 j2 this2 \<and> place lines k j < place lines k2 j2 \<and>
    token_for (piece lines (place lines k j) (place lines k2 j2)) (Some t)"
proof (cases "np_peekedToken this")
  case (Some t)
  then obtain a w c lt where w: "np_line this = Some lt" "lines ! k = a @ w @ c" "length a = j" "w \<noteq> []" "bracket_token w t" "in_token lt (np_lineTokenOffset this) (j + length w)"
    "np_at src lines k j this" using assms(2) by (auto simp: np_good_def)
  let ?this2 = "this\<lparr>np_peekedToken := None, np_lineCharOffset := int j + int (length w)\<rparr>"
  have k: "k < length lines" using w(7) by (simp add: np_at_def)
  have "NonPeekable_read this = (Some t, ?this2)" using Some w(7) token_length [OF w(5)] by (simp add: NonPeekable_read_def np_at_def)
  moreover have "np_good src lines k (j + length w) ?this2" using w by (auto simp: np_good_def np_at_def)
  moreover have "token_for (piece lines (place lines k j) (place lines k (j + length w))) (Some t)"
    using bracket_piece [OF k w(2)] line_token_for [OF w(2) assms(1) k w(4,5)] w(3) by simp
  ultimately show ?thesis using w(4) by (intro exI [of _ t] exI [of _ ?this2] exI [of _ k] exI [of _ "j + length w"]) simp
next
  case None
  have at: "np_at src lines k j this" using assms(2) by (simp add: np_good_def)
  then have k: "k < length lines" "j \<le> length (lines ! k)" "np_lineIdx this = int k" "np_lineCharOffset this = int j" "np_textBufferLineCount this = int (length lines)"
    "np_textBufferLastLineLength this = int (length (last lines))" "np_textModel this = src" by (simp_all add: np_at_def)
  have ne: "Suc k = length lines \<Longrightarrow> j < length (lines ! k)" using place_end(2) [OF assms(1) k(1,2)] assms(3) k(2) by linarith
  have lst: "Suc k = length lines \<Longrightarrow> last lines = lines ! k" using k(1) last_conv_nth [of lines] by (metis diff_Suc_1 length_0_conv less_nat_zero_code)
  have go: "\<not> (np_lineIdx this > np_textBufferLineCount this - 1 \<or> np_lineIdx this = np_textBufferLineCount this - 1 \<and> np_lineCharOffset this \<ge> np_textBufferLastLineLength this)"
    using k ne lst by auto
  obtain lt this2 where l: "(case np_line this of Some lt \<Rightarrow> (lt, this) | None \<Rightarrow> let lt = ts_getLineTokens (np_textModel this) (np_lineIdx this + 1)
       in (lt, this\<lparr>np_line := Some lt, np_lineTokenOffset := token_offset_at lt (np_lineCharOffset this)\<rparr>)) = (lt, this2)" by (rule prod.exhaust)
  have "tokens_cover (ts_getLineTokens src (int k + 1))" "lt_text (ts_getLineTokens src (int k + 1)) = lines ! k" using assms(1) k(1) by (auto simp: source_ok_def)
  then have "in_token (ts_getLineTokens src (int k + 1)) (token_offset_at (ts_getLineTokens src (int k + 1)) (int j)) j" using token_offset_in_token k(2) by simp
  then have a2: "np_at src lines k j this2" "np_line this2 = Some lt" "np_peekedToken this2 = None"
    using l at None k(3,4,7) by (auto simp: np_at_def Let_def split: option.splits)
  have res: "read_result src lines k j (read_tokens (int k) (int j) 0 lt this2)"
    by (rule read_tokens_result [OF assms(1) a2(1,3,2) k(1,2)]) (use ne in auto)
  obtain r this3 where r: "read_tokens (int k) (int j) 0 lt this2 = (r, this3)" by (rule prod.exhaust)
  show ?thesis
  proof (cases r)
    case (Some t)
    with res r obtain a w c where w: "lines ! k = a @ w @ c" "length a = j" "w \<noteq> []" "bracket_token w t" "np_peekedToken this3 = None" "np_at src lines k (j + length w) this3"
      by (auto simp: read_result_def)
    have "NonPeekable_read this = (Some t, this3)" unfolding NonPeekable_read_def using None go l r Some k(3,4) by simp
    moreover have "token_for (piece lines (place lines k j) (place lines k (j + length w))) (Some t)"
      using bracket_piece [OF k(1) w(1)] line_token_for [OF w(1) assms(1) k(1) w(3,4)] w(2) by simp
    ultimately show ?thesis using w(3,5,6) by (intro exI [of _ t] exI [of _ this3] exI [of _ k] exI [of _ "j + length w"]) (simp add: np_good_def)
  next
    case r0: None
    with res r obtain k2 j2 where k2: "place lines k j < place lines k2 j2" "np_good src lines k2 j2 this3" by (auto simp: read_result_def)
    then have k2': "k2 < length lines" "j2 \<le> length (lines ! k2)" "np_lineIdx this3 = int k2" "np_lineCharOffset this3 = int j2" by (simp_all add: np_good_def np_at_def)
    let ?t = "text_token (lengthDiff (int k) (int j) (int k2) (int j2))"
    have "NonPeekable_read this = (Some ?t, this3)" unfolding NonPeekable_read_def using None go l r r0 k(3,4) k2'(3,4) by simp
    moreover have "piece lines (place lines k j) (place lines k2 j2) \<noteq> []" using k2(1) place_end(1) [OF assms(1) k2'(1,2)] by simp
    then have "token_for (piece lines (place lines k j) (place lines k2 j2)) (Some ?t)"
      using piece_length [OF assms(1) k(1,2) k2'(1,2)] k2(1) by (intro text_token_for) simp_all
    ultimately show ?thesis using k2 by blast
  qed
qed

lemma np_read_end:
  assumes "source_ok src lines" "np_good src lines k j this" "place lines k j = length (join_lines lines)"
  shows "NonPeekable_read this = (None, this)"
proof -
  have at: "np_at src lines k j this" using assms(2) by (simp add: np_good_def)
  then have k: "k < length lines" "j \<le> length (lines ! k)" by (simp_all add: np_at_def)
  have e: "Suc k = length lines" "j = length (lines ! k)" using place_end(2) [OF assms(1) k] assms(3) by auto
  then have lst: "last lines = lines ! k" using k(1) last_conv_nth [of lines] by (metis diff_Suc_1 length_0_conv less_nat_zero_code)
  have "np_peekedToken this = None" using assms(2) e by (auto simp: np_good_def) (metis length_append less_add_same_cancel1 add.assoc length_greater_0_conv not_add_less1 add_less_cancel_left option.exhaust)
  then show ?thesis using at e lst by (simp add: NonPeekable_read_def np_at_def)
qed

lemma np_setPosition:
  assumes "source_ok src lines" "np_good src lines k j this" "k2 < length lines" "j2 \<le> length (lines ! k2)"
  shows "np_good src lines k2 j2 (NonPeekable_setPosition (int k2) (int j2) this)"
proof -
  have lt: "tokens_cover (ts_getLineTokens src (int k2 + 1))" "lt_text (ts_getLineTokens src (int k2 + 1)) = lines ! k2" using assms(1,3) by (auto simp: source_ok_def)
  show ?thesis
    using assms(2-4) token_offset_in_token [OF lt(1), of j2] lt(2)
    by (cases "k2 = k"; cases "np_line this") (auto simp: NonPeekable_setPosition_def np_good_def np_at_def)
qed

section \<open>The tokenizer over a text\<close>

definition tb_reading :: "ITokenizerSource \<Rightarrow> js_string list \<Rightarrow> TextBufferTokenizer \<Rightarrow> js_string \<Rightarrow> js_string \<Rightarrow> bool" where
  "tb_reading src lines this u v \<longleftrightarrow> source_ok src lines \<and> u @ v = join_lines lines \<and> short (u @ v) \<and> tb_offset this = plen u \<and>
     (\<exists>k j v1 v2. v = v1 @ v2 \<and> length (u @ v1) = place lines k j \<and> np_good src lines k j (tb_reader this) \<and>
        (if tb_didPeek this then (if v = [] then tb_peeked this = None else v1 \<noteq> [] \<and> token_for v1 (tb_peeked this)) else v1 = []))"

lemma tb_readingI:
  "source_ok src lines \<Longrightarrow> u @ v1 @ v2 = join_lines lines \<Longrightarrow> short (u @ v1 @ v2) \<Longrightarrow> tb_offset this = plen u \<Longrightarrow> length (u @ v1) = place lines k j \<Longrightarrow> np_good src lines k j (tb_reader this) \<Longrightarrow>
   (if tb_didPeek this then (if v1 @ v2 = [] then tb_peeked this = None else v1 \<noteq> [] \<and> token_for v1 (tb_peeked this)) else v1 = []) \<Longrightarrow> tb_reading src lines this u (v1 @ v2)"
  unfolding tb_reading_def by blast

lemma tb_peek:
  assumes "tb_reading src lines this u v"
  shows "\<exists>this2. TextBufferTokenizer_peek this = (tb_peeked this2, this2) \<and> tb_didPeek this2 \<and> tb_reading src lines this2 u v"
proof (cases "tb_didPeek this")
  case True
  then show ?thesis using assms by (simp add: TextBufferTokenizer_peek_def)
next
  case False
  obtain k j where a: "source_ok src lines" "u @ v = join_lines lines" "short (u @ v)" "tb_offset this = plen u" "length u = place lines k j" "np_good src lines k j (tb_reader this)"
    using assms unfolding tb_reading_def if_not_P [OF False] by (metis append.right_neutral)
  show ?thesis
  proof (cases "v = []")
    case True
    then have "NonPeekable_read (tb_reader this) = (None, tb_reader this)" using np_read_end [OF a(1,6)] a(2,5) by simp
    moreover have "tb_reading src lines (this\<lparr>tb_reader := tb_reader this, tb_peeked := None, tb_didPeek := True\<rparr>) u ([] @ [])"
      by (rule tb_readingI [OF a(1)]) (use a True in simp_all)
    ultimately show ?thesis using False True by (simp add: TextBufferTokenizer_peek_def)
  next
    case ne: False
    have jl: "join_lines lines = u @ v" using a(2) by simp
    have "place lines k j < length (join_lines lines)" using ne a(5) unfolding jl by simp
    from np_read_piece [OF a(1,6) this] obtain t r k2 j2 where r: "NonPeekable_read (tb_reader this) = (Some t, r)" "np_good src lines k2 j2 r" "place lines k j < place lines k2 j2"
      "token_for (piece lines (place lines k j) (place lines k2 j2)) (Some t)" by blast
    let ?v1 = "piece lines (place lines k j) (place lines k2 j2)"
    have "place lines k2 j2 \<le> length (u @ v)" using place_end(1) [OF a(1)] np_good_places [OF r(2)] jl by simp
    moreover have pv: "?v1 = take (place lines k2 j2 - length u) v" unfolding jl a(5) [symmetric] by simp
    ultimately have v1: "length (u @ ?v1) = place lines k2 j2" "?v1 \<noteq> []" using a(5) r(3) ne unfolding pv by simp_all
    have v: "v = ?v1 @ drop (place lines k2 j2 - length u) v" unfolding pv by simp
    let ?this2 = "this\<lparr>tb_reader := r, tb_peeked := Some t, tb_didPeek := True\<rparr>"
    have "tb_reading src lines ?this2 u (?v1 @ drop (place lines k2 j2 - length u) v)"
      by (rule tb_readingI [OF a(1) _ _ _ v1(1)]) (use a(2-4) r(2,4) v1(2) ne in \<open>simp_all flip: v\<close>)
    then have "tb_reading src lines ?this2 u v" by (simp flip: v)
    with False r(1) show ?thesis by (simp add: TextBufferTokenizer_peek_def)
  qed
qed

lemma tb_reading_peeked:
  assumes "tb_reading src lines this u v" "tb_didPeek this" "v \<noteq> []"
  shows "\<exists>t v1 v2 this2. v = v1 @ v2 \<and> tb_peeked this = Some t \<and> token_for v1 (Some t) \<and> TextBufferTokenizer_read this = (Some t, this2) \<and> tb_reading src lines this2 (u @ v1) v2"
proof -
  obtain k j v1 v2 where a: "v = v1 @ v2" "length (u @ v1) = place lines k j" "np_good src lines k j (tb_reader this)" "v1 \<noteq> []" "token_for v1 (tb_peeked this)"
    "source_ok src lines" "u @ v = join_lines lines" "short (u @ v)" "tb_offset this = plen u"
    using assms(1) unfolding tb_reading_def if_P [OF assms(2)] if_not_P [OF assms(3)] by blast
  then obtain t where t: "tb_peeked this = Some t" "tk_length t = plen v1" by (auto simp: token_for_def)
  have sh: "short u" "short v1" using a(1,8) short_append [of u "v1 @ v2"] short_append [of v1 v2] by auto
  let ?this2 = "this\<lparr>tb_didPeek := False, tb_offset := plen (u @ v1)\<rparr>"
  have "TextBufferTokenizer_read this = (Some t, ?this2)" using t a(9) plen_append [OF sh] by (simp add: TextBufferTokenizer_read_def)
  moreover have "tb_reading src lines ?this2 (u @ v1) ([] @ v2)" by (rule tb_readingI [OF a(6)]) (use a in simp_all)
  ultimately show ?thesis using a t by auto
qed

interpretation text_buffer: text_tokenizer TextBufferTokenizer_methods "\<lambda>this u v. \<exists>src lines. tb_reading src lines this u v"
proof
  fix z u v
  assume "\<exists>src lines. tb_reading src lines z u v"
  then obtain src lines where a: "tb_reading src lines z u v" by blast
  then show "tz_offset TextBufferTokenizer_methods z = plen u" by (simp add: tb_reading_def TextBufferTokenizer_methods_def)
  obtain z2 where p: "TextBufferTokenizer_peek z = (tb_peeked z2, z2)" "tb_didPeek z2" "tb_reading src lines z2 u v" using tb_peek [OF a] by blast
  assume "v \<noteq> []"
  from tb_reading_peeked [OF p(3,2) this] p show "\<exists>t z2 z3 v1 v2. v = v1 @ v2 \<and> token_for v1 (Some t) \<and> tz_peek TextBufferTokenizer_methods z = (Some t, z2) \<and>
      (\<exists>src lines. tb_reading src lines z2 u v) \<and> tz_read TextBufferTokenizer_methods z2 = (Some t, z3) \<and> (\<exists>src lines. tb_reading src lines z3 (u @ v1) v2)"
    by (fastforce simp: TextBufferTokenizer_methods_def)
next
  fix z u
  assume "\<exists>src lines. tb_reading src lines z u []"
  then obtain src lines where a: "tb_reading src lines z u []" by blast
  obtain z2 where p: "TextBufferTokenizer_peek z = (tb_peeked z2, z2)" "tb_didPeek z2" "tb_reading src lines z2 u []" using tb_peek [OF a] by blast
  then have "tb_peeked z2 = None" by (auto simp: tb_reading_def)
  with p show "\<exists>z2. tz_peek TextBufferTokenizer_methods z = (None, z2) \<and> (\<exists>src lines. tb_reading src lines z2 u [])" by (auto simp: TextBufferTokenizer_methods_def)
next
  fix z u v w
  assume "\<exists>src lines. tb_reading src lines z u (v @ w)"
  then obtain src lines k j where a: "source_ok src lines" "u @ v @ w = join_lines lines" "short (u @ v @ w)" "tb_offset z = plen u" "np_good src lines k j (tb_reader z)"
    unfolding tb_reading_def by blast
  have sh: "short u" "short v" "short (u @ v)" using a(3) short_append [of u "v @ w"] short_append [of v w] short_append [of "u @ v" w] by auto
  have ne: "lines \<noteq> []" and lf: "\<forall>l \<in> set lines. LF \<notin> set l" using a(1) by (simp_all add: source_ok_def)
  have "length (u @ v) \<le> length (join_lines lines)" unfolding a(2) [symmetric] by simp
  then obtain k2 j2 where k2: "k2 < length lines" "j2 \<le> length (lines ! k2)" "length (u @ v) = place lines k2 j2" using line_offset_cover [OF ne] by metis
  have "take (length (u @ v)) (join_lines lines) = u @ v" unfolding a(2) [symmetric] by simp
  then have "tlen (u @ v) = new_TextLength (int k2) (int j2)" using take_join_lines [OF lf k2(1,2)] k2(3) by simp
  then have o: "lengthToObj (plen (u @ v)) = new_TextLength (int k2) (int j2)" using unplen [OF sh(1,2)] by simp
  let ?z2 = "z\<lparr>tb_didPeek := False, tb_offset := plen (u @ v), tb_reader := NonPeekable_setPosition (int k2) (int j2) (tb_reader z)\<rparr>"
  have "tz_skip TextBufferTokenizer_methods (plen v) z = Inr ?z2"
    using a(4) o plen_append [OF sh(1,2)] by (simp add: TextBufferTokenizer_methods_def TextBufferTokenizer_skip_def Let_def)
  moreover have "tb_reading src lines ?z2 (u @ v) ([] @ w)"
    by (rule tb_readingI [OF a(1)]) (use a k2 np_setPosition [OF a(1,5) k2(1,2)] in simp_all)
  ultimately show "\<exists>z2. tz_skip TextBufferTokenizer_methods (plen v) z = Inr z2 \<and> (\<exists>src lines. tb_reading src lines z2 (u @ v) w)" by auto
qed

lemma tb_reading_new:
  assumes "source_ok src lines" "brackets_ok brackets" "short (join_lines lines)"
  shows "tb_reading src lines (new_TextBufferTokenizer src brackets) [] (join_lines lines)"
proof -
  have "0 < length lines" using assms(1) by (auto simp: source_ok_def)
  then have "np_good src lines 0 0 (new_NonPeekableTextBufferTokenizer src brackets)"
    using assms by (simp add: np_good_def np_at_def new_NonPeekableTextBufferTokenizer_def source_ok_def)
  then have "tb_reading src lines (new_TextBufferTokenizer src brackets) [] ([] @ join_lines lines)"
    by (intro tb_readingI [OF assms(1), of _ _ _ _ 0 0]) (use assms(3) in \<open>simp_all add: new_TextBufferTokenizer_def lengthZero_def\<close>)
  then show ?thesis by simp
qed

section \<open>Parsing again\<close>

text \<open>A text of one line with one token, and an expression for the opening parenthesis.\<close>

definition example_source :: "js_string \<Rightarrow> ITokenizerSource" where
  "example_source l = \<lparr>ts_getLineCount = 1, ts_getLineLength = (\<lambda>_. int (length l)), ts_getLineTokens = (\<lambda>_. new_LineTokens [of_nat (length l), 0] l (\<lambda>_. []))\<rparr>"

definition example_brackets :: "js_string \<Rightarrow> language_brackets" where
  "example_brackets _ = \<lparr>lg_regExpGlobal = Some (\<lambda>s. if 40 \<in> set s then Some (int (length (takeWhile (\<lambda>c. c \<noteq> 40) s)), [40]) else None),
     lg_getToken = example_token, lg_matchAll = (\<lambda>_. None)\<rparr>"

lemma example_source_ok:
  assumes "LF \<notin> set l" "length l < 2 ^ 32"
  shows "source_ok (example_source l) [l]"
proof -
  have "uint (of_nat (length l) :: u32) = int (length l)" using assms(2) by (simp add: unsigned_of_nat take_bit_nat_eq_self)
  then have "tokens_cover (new_LineTokens [of_nat (length l), 0] l (\<lambda>_. []))" unfolding tokens_cover_def by (intro exI [of _ 1]) (simp add: new_LineTokens_def)
  with assms(1) show ?thesis by (simp add: source_ok_def example_source_def new_LineTokens_def)
qed

lemma example_brackets_ok: "brackets_ok example_brackets"
proof -
  have "\<exists>a c. s = a @ 40 # c \<and> length (takeWhile (\<lambda>c. c \<noteq> 40) s) = length a" if "40 \<in> set s" for s :: js_string
  proof (intro exI conjI)
    have "dropWhile (\<lambda>c. c \<noteq> 40) s \<noteq> []" using that by auto
    then have "dropWhile (\<lambda>c. c \<noteq> 40) s = 40 # tl (dropWhile (\<lambda>c. c \<noteq> 40) s)" using hd_dropWhile [of "\<lambda>c. c \<noteq> 40" s] by (metis list.collapse)
    then show "s = takeWhile (\<lambda>c. c \<noteq> 40) s @ 40 # tl (dropWhile (\<lambda>c. c \<noteq> 40) s)" by (metis takeWhile_dropWhile_id)
  qed simp
  then show ?thesis using example_token_ok by (auto simp: brackets_ok_def example_brackets_def split: if_splits)
qed

text \<open>Parsing a text again after edits: given a tree for the text before and edits that describe the change, \<^verbatim>\<open>parseDocument\<close> with a \<^verbatim>\<open>TextBufferTokenizer\<close> returns within two steps for each
  code unit, never throws, and its tree, in which nodes of the old tree are reused, is a tree for the new text: it covers the text, all rules for trees hold, an unexpected closing bracket closes none
  of the brackets around it and a closed pair ends with a bracket for its opening bracket.\<close>

lemma parseDocument_incremental:
  assumes "source_ok src lines" "brackets_ok brackets" "short (join_lines lines)" "2 * length (join_lines lines) < n"
    "tree_for old s" "short s" "describes edits (s @ [LF]) (join_lines lines @ [LF])"
  shows "\<exists>root. parseDocument n TextBufferTokenizer_methods (new_TextBufferTokenizer src brackets) edits (Some old) False = Some (Inr root) \<and> tree_for root (join_lines lines)"
proof -
  have "\<exists>src2 lines2. tb_reading src2 lines2 (new_TextBufferTokenizer src brackets) [] (join_lines lines)" using tb_reading_new [OF assms(1-3)] by blast
  from text_buffer.document_incremental [OF this assms(3,4), of "Some old" edits False] assms(5-7) show ?thesis by blast
qed

end
