(* ===== verification/Bracket_Pairs_Tree.thy ===== *)
theory Bracket_Pairs_Tree
  imports Brackets_In_Range Text_Buffer_Tokenizer
begin

text \<open>
  The class \<^verbatim>\<open>BracketPairsTree\<close> of \<^verbatim>\<open>bracketPairsTree.ts\<close>: it keeps a tree with and one without tokens, queues the edits of the events of the text model and parses the changed parts again
  when it is asked.  \<open>n\<close> bounds the steps of the parser; the tree is a functional value (the parser changes nodes in place).
\<close>

section \<open>The state\<close>

datatype BackgroundTokenizationState = InProgress | Completed

text \<open>What the trees read of a text model.\<close>

record TextModel =
  tm_hasTokens :: bool
  tm_backgroundTokenizationState :: BackgroundTokenizationState
  tm_getLanguageId :: js_string
  tm_getValue :: js_string
  tm_source :: ITokenizerSource
  tm_computeMinIndentation :: "BracketKind AstNode \<Rightarrow> Length \<Rightarrow> int"

record BracketPairsTree =
  bp_initialAstWithoutTokens :: "BracketKind AstNode option"
  bp_astWithTokens :: "BracketKind AstNode option"
  bp_brackets :: "js_string \<Rightarrow> language_brackets"
  bp_queuedTextEditsForInitialAstWithoutTokens :: "TextEditInfo list"
  bp_queuedTextEdits :: "TextEditInfo list"

text \<open>A step that may throw (\<open>Inl\<close>) or not return (\<open>None\<close>), and what is done with its result.\<close>

definition and_then :: "'a result option \<Rightarrow> ('a \<Rightarrow> 'b result option) \<Rightarrow> 'b result option" where
  "and_then r f = (case r of None \<Rightarrow> None | Some (Inl e) \<Rightarrow> Some (Inl e) | Some (Inr x) \<Rightarrow> f x)"

lemma and_then_simps [simp]:
  "and_then None f = None" "and_then (Some (Inl e)) f = Some (Inl e)" "and_then (Some (Inr x)) f = f x"
  by (simp_all add: and_then_def)

definition parseDocumentFromTextBuffer :: "nat \<Rightarrow> TextModel \<Rightarrow> (js_string \<Rightarrow> language_brackets) \<Rightarrow> TextEditInfo list \<Rightarrow> BracketKind AstNode option \<Rightarrow> bool \<Rightarrow> BracketKind AstNode result option" where
  "parseDocumentFromTextBuffer n textModel brackets edits previousAst immutable =
     (let tokenizer = new_TextBufferTokenizer (tm_source textModel) brackets
      in parseDocument n TextBufferTokenizer_methods tokenizer edits previousAst immutable)"

definition new_BracketPairsTree :: "nat \<Rightarrow> TextModel \<Rightarrow> (js_string \<Rightarrow> language_brackets) \<Rightarrow> BracketPairsTree result option" where
  "new_BracketPairsTree n textModel getBrackets =
     (let this = \<lparr>bp_initialAstWithoutTokens = None, bp_astWithTokens = None, bp_brackets = getBrackets, bp_queuedTextEditsForInitialAstWithoutTokens = [], bp_queuedTextEdits = []\<rparr>
      in if \<not> tm_hasTokens textModel then
           (let brackets = getBrackets (tm_getLanguageId textModel);
                tokenizer = new_FastTokenizer (tm_getValue textModel) (lg_matchAll brackets (tm_getValue textModel)) (lg_getToken brackets)
            in and_then (parseDocument n FastTokenizer_methods tokenizer [] None True)
                 (\<lambda>ast. Some (Inr (this\<lparr>bp_initialAstWithoutTokens := Some ast, bp_astWithTokens := Some ast\<rparr>))))
         else if tm_backgroundTokenizationState textModel = Completed then
           and_then (parseDocumentFromTextBuffer n textModel getBrackets [] None False) (\<lambda>ast. Some (Inr (this\<lparr>bp_astWithTokens := Some ast\<rparr>)))
         else
           and_then (parseDocumentFromTextBuffer n textModel getBrackets [] None True)
             (\<lambda>ast. Some (Inr (this\<lparr>bp_initialAstWithoutTokens := Some ast, bp_astWithTokens := Some ast\<rparr>))))"

section \<open>Events of the text model\<close>

text \<open>The first component tells whether \<^verbatim>\<open>onDidChange\<close> fires.\<close>

definition BracketPairsTree_handleDidChangeBackgroundTokenizationState :: "TextModel \<Rightarrow> BracketPairsTree \<Rightarrow> bool \<times> BracketPairsTree" where
  "BracketPairsTree_handleDidChangeBackgroundTokenizationState textModel this =
     (if tm_backgroundTokenizationState textModel = Completed then
        (let wasUndefined = bp_initialAstWithoutTokens this = None
         in (\<not> wasUndefined, this\<lparr>bp_initialAstWithoutTokens := None\<rparr>))
      else (False, this))"

definition BracketPairsTree_handleEdits :: "TextEditInfo list \<Rightarrow> bool \<Rightarrow> BracketPairsTree \<Rightarrow> BracketPairsTree" where
  "BracketPairsTree_handleEdits edits tokenChange this =
     (let result = combineTextEditInfos (bp_queuedTextEdits this) edits;
          this = this\<lparr>bp_queuedTextEdits := result\<rparr>
      in if bp_initialAstWithoutTokens this \<noteq> None \<and> \<not> tokenChange
         then this\<lparr>bp_queuedTextEditsForInitialAstWithoutTokens := combineTextEditInfos (bp_queuedTextEditsForInitialAstWithoutTokens this) edits\<rparr>
         else this)"

record line_numbers =
  fromLineNumber :: int
  toLineNumber :: int

definition token_edit :: "line_numbers \<Rightarrow> TextEditInfo" where
  "token_edit r = new_TextEditInfo (toLength (fromLineNumber r - 1) 0) (toLength (toLineNumber r) 0) (toLength (toLineNumber r - fromLineNumber r + 1) 0)"

definition BracketPairsTree_handleDidChangeTokens :: "line_numbers list \<Rightarrow> BracketPairsTree \<Rightarrow> bool \<times> BracketPairsTree" where
  "BracketPairsTree_handleDidChangeTokens ranges this =
     (let this = BracketPairsTree_handleEdits (map token_edit ranges) True this
      in (bp_initialAstWithoutTokens this = None, this))"

definition BracketPairsTree_handleContentChanged :: "IModelContentChange list \<Rightarrow> BracketPairsTree \<Rightarrow> BracketPairsTree" where
  "BracketPairsTree_handleContentChanged changes this =
     (let edits = TextEditInfo_fromModelContentChanges changes
      in BracketPairsTree_handleEdits edits False this)"

section \<open>Queries\<close>

definition BracketPairsTree_flushQueue :: "nat \<Rightarrow> TextModel \<Rightarrow> BracketPairsTree \<Rightarrow> BracketPairsTree result option" where
  "BracketPairsTree_flushQueue n textModel this =
     and_then
       (if bp_queuedTextEdits this \<noteq> [] then
          and_then (parseDocumentFromTextBuffer n textModel (bp_brackets this) (bp_queuedTextEdits this) (bp_astWithTokens this) False)
            (\<lambda>ast. Some (Inr (this\<lparr>bp_astWithTokens := Some ast, bp_queuedTextEdits := []\<rparr>)))
        else Some (Inr this))
       (\<lambda>this.
          if bp_queuedTextEditsForInitialAstWithoutTokens this \<noteq> [] then
            and_then
              (case bp_initialAstWithoutTokens this of
                 None \<Rightarrow> Some (Inr this)
               | Some initial \<Rightarrow>
                   and_then (parseDocumentFromTextBuffer n textModel (bp_brackets this) (bp_queuedTextEditsForInitialAstWithoutTokens this) (Some initial) False)
                     (\<lambda>ast. Some (Inr (this\<lparr>bp_initialAstWithoutTokens := Some ast\<rparr>))))
              (\<lambda>this. Some (Inr (this\<lparr>bp_queuedTextEditsForInitialAstWithoutTokens := []\<rparr>)))
          else Some (Inr this))"

text \<open>\<^verbatim>\<open>this.initialAstWithoutTokens || this.astWithTokens!\<close>\<close>

definition current_ast :: "BracketPairsTree \<Rightarrow> BracketKind AstNode option" where
  "current_ast this = (case bp_initialAstWithoutTokens this of None \<Rightarrow> bp_astWithTokens this | Some ast \<Rightarrow> Some ast)"

text \<open>A query flushes the queue and reads the current tree.  The iterables read it when they are iterated; they are taken to be iterated before the tree changes again.\<close>

definition query :: "nat \<Rightarrow> TextModel \<Rightarrow> BracketPairsTree \<Rightarrow> (BracketKind AstNode \<Rightarrow> 'a) \<Rightarrow> ('a \<times> BracketPairsTree) result option" where
  "query n textModel this f =
     and_then (BracketPairsTree_flushQueue n textModel this)
       (\<lambda>this. case current_ast this of None \<Rightarrow> Some (Inl TypeError) | Some node \<Rightarrow> Some (Inr (f node, this)))"

definition BracketPairsTree_getBracketsInRange :: "nat \<Rightarrow> TextModel \<Rightarrow> Range \<Rightarrow> bool \<Rightarrow> BracketPairsTree \<Rightarrow> ((BracketInfo, 's) CallbackIterable \<times> BracketPairsTree) result option" where
  "BracketPairsTree_getBracketsInRange n textModel range1 onlyColorizedBrackets this =
     query n textModel this (\<lambda>node cb st.
       snd (snd (collectBrackets
         \<lparr>bw_startOffset = toLength (startLineNumber range1 - 1) (startColumn range1 - 1), bw_endOffset = toLength (endLineNumber range1 - 1) (endColumn range1 - 1),
          bw_push = cb, bw_onlyColorizedBrackets = onlyColorizedBrackets\<rparr>
         node lengthZero (AstNode_length node) 0 0 False (Map.empty, st))))"

definition BracketPairsTree_getBracketPairsInRange :: "nat \<Rightarrow> TextModel \<Rightarrow> Range \<Rightarrow> bool \<Rightarrow> BracketPairsTree \<Rightarrow>
    ((BracketPairWithMinIndentationInfo, 's) CallbackIterable \<times> BracketPairsTree) result option" where
  "BracketPairsTree_getBracketPairsInRange n textModel range1 includeMinIndentation this =
     query n textModel this (\<lambda>node cb st.
       snd (snd (collectBracketPairs node lengthZero (AstNode_length node) (positionToLength (Range_getStartPosition range1)) (positionToLength (Range_getEndPosition range1))
         \<lparr>cc_push = cb, cc_includeMinIndentation = includeMinIndentation, cc_computeMinIndentation = tm_computeMinIndentation textModel\<rparr> 0 Map.empty st)))"

definition BracketPairsTree_getFirstBracketAfter :: "nat \<Rightarrow> TextModel \<Rightarrow> Position \<Rightarrow> BracketPairsTree \<Rightarrow> (IFoundBracket option \<times> BracketPairsTree) result option" where
  "BracketPairsTree_getFirstBracketAfter n textModel pos this =
     query n textModel this (\<lambda>node. getFirstBracketAfter node lengthZero (AstNode_length node) (positionToLength pos))"

definition BracketPairsTree_getFirstBracketBefore :: "nat \<Rightarrow> TextModel \<Rightarrow> Position \<Rightarrow> BracketPairsTree \<Rightarrow> (IFoundBracket option \<times> BracketPairsTree) result option" where
  "BracketPairsTree_getFirstBracketBefore n textModel pos this =
     query n textModel this (\<lambda>node. getFirstBracketBefore node lengthZero (AstNode_length node) (positionToLength pos))"

section \<open>What the events say of the text\<close>

text \<open>\<open>changes_from p cs s t\<close>: behind the text \<open>p\<close>, the changes, in ascending order, turn \<open>s\<close> into \<open>t\<close>.\<close>

inductive changes_from :: "js_string \<Rightarrow> IModelContentChange list \<Rightarrow> js_string \<Rightarrow> js_string \<Rightarrow> bool" where
  changes_Nil: "changes_from p [] s s"
| changes_Cons: "changes_from (p @ u @ d) cs s t \<Longrightarrow>
    mc_range c = Range_fromPositions (pos_at (p @ u @ d @ s) (length (p @ u))) (pos_at (p @ u @ d @ s) (length (p @ u @ d))) \<Longrightarrow> 13 \<notin> set (mc_text c) \<Longrightarrow>
    changes_from p (c # cs) (u @ d @ s) (u @ mc_text c @ t)"

lemma changes_describe: "changes_from p cs s t \<Longrightarrow> describes_from p (map (\<lambda>c. the (change_info c)) cs) s t"
proof (induction rule: changes_from.induct)
  case (changes_Cons p u d cs s t c)
  have "change_info c = Some (new_TextEditInfo (plen (p @ u)) (plen (p @ u @ d)) (plen (mc_text c)))"
    using change_info_plen [OF changes_Cons(2) _ changes_Cons(3)] by simp
  with describes_Cons [OF changes_Cons.IH refl, of "mc_text c"] show ?case by simp
qed (simp add: describes_Nil)

text \<open>The changes of an event are in descending order.\<close>

definition changed :: "IModelContentChange list \<Rightarrow> js_string list \<Rightarrow> js_string list \<Rightarrow> bool" where
  "changed changes lines lines2 \<longleftrightarrow> changes_from [] (rev changes) (join_lines lines) (join_lines lines2) \<and> short (join_lines lines2)"

lemma changed_describes:
  assumes "changed changes lines lines2"
  shows "describes (TextEditInfo_fromModelContentChanges changes) (join_lines lines @ [LF]) (join_lines lines2 @ [LF])"
  using changes_describe [THEN describes_common [of _ _ _ _ "[LF]"], of "[]" "rev changes" "join_lines lines" "join_lines lines2"] assms
  by (simp add: changed_def describes_def TextEditInfo_fromModelContentChanges_def rev_map)

text \<open>The ranges of lines of a token event are in ascending order and do not overlap.\<close>

fun ranges_ok :: "int \<Rightarrow> int \<Rightarrow> line_numbers list \<Rightarrow> bool" where
  "ranges_ok done1 count [] = True"
| "ranges_ok done1 count (r # rs) \<longleftrightarrow> done1 < fromLineNumber r \<and> fromLineNumber r \<le> toLineNumber r \<and> toLineNumber r \<le> count \<and> ranges_ok (toLineNumber r) count rs"

definition closed_lines :: "js_string list \<Rightarrow> js_string" where
  "closed_lines lines = concat (map (\<lambda>l. l @ [LF]) lines)"

lemma closed_lines_join: "lines \<noteq> [] \<Longrightarrow> closed_lines lines = join_lines lines @ [LF]"
  unfolding closed_lines_def by (induction lines rule: join_lines.induct) auto

lemma closed_lines_append: "closed_lines (xs @ ys) = closed_lines xs @ closed_lines ys"
  by (simp add: closed_lines_def)

lemma tlen_closed_lines: "\<forall>l \<in> set lines. LF \<notin> set l \<Longrightarrow> tlen (closed_lines lines) = new_TextLength (int (length lines)) 0"
proof (induction lines)
  case (Cons l ls)
  have "tlen (l @ [LF]) = new_TextLength 1 0" using Cons.prems by (simp add: tlen_append tlen_single tlen_line TextLength_add_def)
  moreover have "tlen (closed_lines (l # ls)) = TextLength_add (tlen (l @ [LF])) (tlen (closed_lines ls))" unfolding closed_lines_def list.map concat.simps by (rule tlen_append)
  ultimately show ?case using Cons by (simp add: TextLength_add_def)
qed (simp add: closed_lines_def tlen_def TextLength_zero_def)

lemma plen_closed_lines: "\<forall>l \<in> set lines. LF \<notin> set l \<Longrightarrow> plen (closed_lines lines) = toLength (int (length lines)) 0"
  by (simp add: plen_def pack_def tlen_closed_lines)

lemma token_edits_describe:
  assumes "ranges_ok (int (length xs)) (int (length (xs @ ys))) ranges" "\<forall>l \<in> set (xs @ ys). LF \<notin> set l"
  shows "describes_from (closed_lines xs) (map token_edit ranges) (closed_lines ys) (closed_lines ys)"
  using assms
proof (induction ranges arbitrary: xs ys)
  case (Cons r rs)
  define k where "k = nat (fromLineNumber r - 1) - length xs"
  define j where "j = nat (toLineNumber r - fromLineNumber r + 1)"
  have n: "fromLineNumber r = int (length xs + k) + 1" "toLineNumber r = int (length xs + k + j)" "length xs + k + j \<le> length (xs @ ys)"
    using Cons.prems(1) by (auto simp: k_def j_def)
  obtain us ds zs where y: "ys = us @ ds @ zs" "length us = k" "length ds = j"
  proof
    show "ys = take k ys @ take j (drop k ys) @ drop j (drop k ys)" by (metis append_take_drop_id)
  qed (use n(3) in auto)
  have p: "plen (closed_lines (xs @ us)) = toLength (int (length xs + k)) 0" "plen (closed_lines (xs @ us @ ds)) = toLength (int (length xs + k + j)) 0"
    "plen (closed_lines ds) = toLength (int j) 0"
    using plen_closed_lines [of "xs @ us"] plen_closed_lines [of "xs @ us @ ds"] plen_closed_lines [of ds] Cons.prems(2) y by (auto simp: ac_simps)
  have e: "token_edit r = new_TextEditInfo (plen (closed_lines xs @ closed_lines us)) (plen (closed_lines xs @ closed_lines us @ closed_lines ds)) (plen (closed_lines ds))"
    using p unfolding closed_lines_append by (simp add: token_edit_def n)
  have "ranges_ok (int (length (xs @ us @ ds))) (int (length ((xs @ us @ ds) @ zs))) rs" using Cons.prems(1) y n by (simp add: ac_simps)
  from Cons.IH [OF this] have "describes_from (closed_lines xs @ closed_lines us @ closed_lines ds) (map token_edit rs) (closed_lines zs) (closed_lines zs)"
    using Cons.prems(2) y by (simp add: closed_lines_append)
  from describes_Cons [OF this e] show ?case by (simp add: y closed_lines_append)
qed (simp add: describes_Nil)

lemma token_edits: 
  assumes "ranges_ok 0 (int (length lines)) ranges" "lines \<noteq> []" "\<forall>l \<in> set lines. LF \<notin> set l"
  shows "describes (map token_edit ranges) (join_lines lines @ [LF]) (join_lines lines @ [LF])"
  using token_edits_describe [of "[]" lines ranges] assms by (simp add: describes_def closed_lines_join [symmetric]) (simp add: closed_lines_def)

section \<open>The trees follow the text\<close>

definition up_to_date :: "BracketKind AstNode option \<Rightarrow> TextEditInfo list \<Rightarrow> js_string \<Rightarrow> bool" where
  "up_to_date ast edits t \<longleftrightarrow> (\<exists>root s. ast = Some root \<and> tree_for root s \<and> short s \<and> describes edits (s @ [LF]) (t @ [LF]))"

definition tree_inv :: "(js_string \<Rightarrow> language_brackets) \<Rightarrow> js_string \<Rightarrow> BracketPairsTree \<Rightarrow> bool" where
  "tree_inv brackets t this \<longleftrightarrow> bp_brackets this = brackets \<and> short t \<and> up_to_date (bp_astWithTokens this) (bp_queuedTextEdits this) t \<and>
     (bp_initialAstWithoutTokens this \<noteq> None \<longrightarrow> up_to_date (bp_initialAstWithoutTokens this) (bp_queuedTextEditsForInitialAstWithoutTokens this) t)"

lemma up_to_date_edits:
  assumes "up_to_date ast edits t" "describes es (t @ [LF]) (t2 @ [LF])" "short t" "short t2"
  shows "up_to_date ast (combineTextEditInfos edits es) t2"
  using assms combine_describes [OF _ assms(2)] short_LF unfolding up_to_date_def by blast

lemma handleEdits_inv:
  assumes "tree_inv brackets t this" "describes es (t @ [LF]) (t2 @ [LF])" "short t2" "tokenChange \<longrightarrow> t2 = t"
  shows "tree_inv brackets t2 (BracketPairsTree_handleEdits es tokenChange this)"
  using assms up_to_date_edits [OF _ assms(2) _ assms(3)] by (auto simp: tree_inv_def BracketPairsTree_handleEdits_def Let_def)

text \<open>A text model whose lines are \<open>lines\<close>; a model without tokens is scanned with the expression of its language.\<close>

definition model_ok :: "(js_string \<Rightarrow> language_brackets) \<Rightarrow> TextModel \<Rightarrow> js_string list \<Rightarrow> bool" where
  "model_ok brackets textModel lines \<longleftrightarrow> source_ok (tm_source textModel) lines \<and> short (join_lines lines) \<and>
     (\<not> tm_hasTokens textModel \<longrightarrow> tm_getValue textModel = join_lines lines \<and>
        (\<exists>ms. lg_matchAll (brackets (tm_getLanguageId textModel)) (join_lines lines) = Some ms \<and> matches_from 0 ms (join_lines lines) \<and>
           (\<forall>(i, v) \<in> set ms. v \<noteq> [LF] \<longrightarrow> lg_getToken (brackets (tm_getLanguageId textModel)) v \<noteq> None)))"

lemma parse_from_text_buffer:
  assumes "brackets_ok brackets" "source_ok (tm_source textModel) lines" "short (join_lines lines)" "2 * length (join_lines lines) < n" "old = None \<or> up_to_date old es (join_lines lines) \<and> \<not> im"
  shows "\<exists>root. parseDocumentFromTextBuffer n textModel brackets es old im = Some (Inr root) \<and> tree_for root (join_lines lines)"
proof -
  have "\<exists>src lines2. tb_reading src lines2 (new_TextBufferTokenizer (tm_source textModel) brackets) [] (join_lines lines)"
    using tb_reading_new [OF assms(2,1,3)] by blast
  from text_buffer.document_incremental [OF this assms(3,4), of old es im] assms(5) show ?thesis
    by (auto simp: parseDocumentFromTextBuffer_def up_to_date_def)
qed

lemma up_to_date_now: "tree_for root t \<Longrightarrow> short t \<Longrightarrow> up_to_date (Some root) [] t"
  by (auto simp: up_to_date_def describes_def describes_Nil)

lemma up_to_date_nothing: "up_to_date ast [] t \<Longrightarrow> \<exists>root. ast = Some root \<and> tree_for root t"
  by (auto simp: up_to_date_def describes_def elim: describes_from.cases)

lemma tree_inv_flushed: "tree_inv brackets t this \<Longrightarrow> bp_queuedTextEdits this = [] \<Longrightarrow> \<exists>root. bp_astWithTokens this = Some root \<and> tree_for root t"
  using up_to_date_nothing by (simp add: tree_inv_def)

lemma tree_inv_current:
  assumes "tree_inv brackets t this" "bp_queuedTextEdits this = []" "bp_queuedTextEditsForInitialAstWithoutTokens this = []"
  shows "\<exists>root. current_ast this = Some root \<and> tree_for root t"
proof (cases "bp_initialAstWithoutTokens this")
  case None
  with tree_inv_flushed [OF assms(1,2)] show ?thesis by (simp add: current_ast_def)
next
  case (Some initial)
  with assms(1,3) up_to_date_nothing [of "Some initial" t] show ?thesis by (simp add: current_ast_def tree_inv_def)
qed

lemma flush_inv:
  assumes "tree_inv brackets (join_lines lines) this" "brackets_ok brackets" "model_ok brackets textModel lines" "2 * length (join_lines lines) < n"
  shows "\<exists>this2. BracketPairsTree_flushQueue n textModel this = Some (Inr this2) \<and> tree_inv brackets (join_lines lines) this2 \<and>
    bp_queuedTextEdits this2 = [] \<and> bp_queuedTextEditsForInitialAstWithoutTokens this2 = [] \<and> (bp_initialAstWithoutTokens this2 = None \<longleftrightarrow> bp_initialAstWithoutTokens this = None)"
proof -
  let ?t = "join_lines lines"
  have s: "source_ok (tm_source textModel) lines" "short ?t" using assms(3) by (auto simp: model_ok_def)
  note parse = parse_from_text_buffer [OF assms(2) s assms(4)]
  note i = assms(1) [unfolded tree_inv_def]
  let ?first = "if bp_queuedTextEdits this \<noteq> [] then
          and_then (parseDocumentFromTextBuffer n textModel (bp_brackets this) (bp_queuedTextEdits this) (bp_astWithTokens this) False)
            (\<lambda>ast. Some (Inr (this\<lparr>bp_astWithTokens := Some ast, bp_queuedTextEdits := []\<rparr>)))
        else Some (Inr this)"
  obtain root where "?first = Some (Inr (this\<lparr>bp_astWithTokens := Some root, bp_queuedTextEdits := []\<rparr>))" "tree_for root ?t"
  proof (cases "bp_queuedTextEdits this = []")
    case True
    with i obtain root where "bp_astWithTokens this = Some root" "tree_for root ?t" using up_to_date_nothing by metis
    with True show thesis by (intro that [of root]) simp_all
  next
    case False
    with i parse [of "bp_astWithTokens this" "bp_queuedTextEdits this" False] show thesis by (auto intro: that)
  qed
  note first = this
  let ?this = "this\<lparr>bp_astWithTokens := Some root, bp_queuedTextEdits := []\<rparr>"
  note now = up_to_date_now [OF _ s(2)]
  show ?thesis
  proof (cases "bp_initialAstWithoutTokens this")
    case None
    with first i now [OF first(2)] show ?thesis by (cases "bp_queuedTextEditsForInitialAstWithoutTokens this = []") (auto simp: BracketPairsTree_flushQueue_def tree_inv_def)
  next
    case (Some initial)
    show ?thesis
    proof (cases "bp_queuedTextEditsForInitialAstWithoutTokens this = []")
      case True
      with first i Some now [OF first(2)] show ?thesis by (auto simp: BracketPairsTree_flushQueue_def tree_inv_def)
    next
      case False
      obtain root2 where "parseDocumentFromTextBuffer n textModel brackets (bp_queuedTextEditsForInitialAstWithoutTokens this) (Some initial) False = Some (Inr root2)" "tree_for root2 ?t"
        using parse [of "Some initial" "bp_queuedTextEditsForInitialAstWithoutTokens this" False] i Some by auto
      with first i Some False now [OF first(2)] now [of root2] show ?thesis by (auto simp: BracketPairsTree_flushQueue_def tree_inv_def)
    qed
  qed
qed

text \<open>The constructor, for the three states of the tokenization.\<close>

lemma texts_count: "texts_of ss ts \<Longrightarrow> length ts \<le> length (concat ss)"
proof (induction rule: list_all2_induct)
  case (Cons x xs y ys)
  then show ?case by (cases x) (auto simp: token_for_def)
qed simp

lemma fast_parse:
  assumes "matches_from 0 ms s" "\<And>v t. getToken v = Some t \<Longrightarrow> bracket_token v t" "\<forall>(i, v) \<in> set ms. v \<noteq> [LF] \<longrightarrow> getToken v \<noteq> None" "short s" "2 * length s < n"
  shows "\<exists>root. parseDocument n FastTokenizer_methods (new_FastTokenizer s (Some ms) getToken) [] None True = Some (Inr root) \<and> tree_for root s"
proof -
  let ?z = "new_FastTokenizer s (Some ms) getToken"
  obtain ss where ss: "texts_of ss (map the (ft_tokens ?z))" "concat ss = s" "ft_upcoming ?z = map the (ft_tokens ?z)" using fast_upcoming [OF assms(1-3)] by blast
  have "2 * length (map the (ft_tokens ?z)) < n" using texts_count [OF ss(1)] ss(2) assms(5) by simp
  from fast.document_parses [OF ss(3,1) _ this, of "[]" True] obtain root where r: "parseDocument n FastTokenizer_methods ?z [] None True = Some (Inr root)" "parses 1 {} (map the (ft_tokens ?z)) [] (ast_leaves root)"
    "ft_tokens ?z \<noteq> [] \<longrightarrow> spans root s" "ft_tokens ?z = [] \<longrightarrow> root = ListAstNode_getEmpty"
    using ss(2) assms(4) by auto
  have "sound_leaves {} root" using parses_sound [OF r(2)] token_lengths [OF ss(1)] ss(2) assms(4) by simp
  then show ?thesis using r ss by (auto simp: tree_for_def)
qed

lemma new_tree:
  assumes "brackets_ok brackets" "model_ok brackets textModel lines" "2 * length (join_lines lines) < n"
  shows "\<exists>this. new_BracketPairsTree n textModel brackets = Some (Inr this) \<and> tree_inv brackets (join_lines lines) this"
proof -
  let ?t = "join_lines lines"
  have s: "source_ok (tm_source textModel) lines" "short ?t" using assms(2) by (auto simp: model_ok_def)
  note now = up_to_date_now [OF _ s(2)]
  show ?thesis
  proof (cases "tm_hasTokens textModel")
    case True
    obtain root where "parseDocumentFromTextBuffer n textModel brackets [] None (tm_backgroundTokenizationState textModel \<noteq> Completed) = Some (Inr root)" "tree_for root ?t"
      using parse_from_text_buffer [OF assms(1) s assms(3), of None "[]"] by blast
    with True s(2) now [of root] show ?thesis by (cases "tm_backgroundTokenizationState textModel") (auto simp: new_BracketPairsTree_def tree_inv_def)
  next
    case False
    let ?b = "brackets (tm_getLanguageId textModel)"
    obtain ms where m: "tm_getValue textModel = ?t" "lg_matchAll ?b ?t = Some ms" "matches_from 0 ms ?t" "\<forall>(i, v) \<in> set ms. v \<noteq> [LF] \<longrightarrow> lg_getToken ?b v \<noteq> None"
      using assms(2) False unfolding model_ok_def by blast
    have "\<And>v t. lg_getToken ?b v = Some t \<Longrightarrow> bracket_token v t" using assms(1) by (auto simp: brackets_ok_def)
    from fast_parse [OF m(3) this m(4) s(2) assms(3)] obtain root where "parseDocument n FastTokenizer_methods (new_FastTokenizer ?t (Some ms) (lg_getToken ?b)) [] None True = Some (Inr root)" "tree_for root ?t"
      by blast
    with False m(1,2) s(2) now [of root] show ?thesis by (auto simp: new_BracketPairsTree_def Let_def tree_inv_def)
  qed
qed

section \<open>The states of the trees of a text model\<close>

text \<open>A tree together with the lines of its text model: it is created, the text changes, tokens change, the state of the background tokenization changes, and a query flushes the queue.\<close>

inductive reached :: "(js_string \<Rightarrow> language_brackets) \<Rightarrow> js_string list \<Rightarrow> BracketPairsTree \<Rightarrow> bool" for brackets where
  reached_new: "model_ok brackets textModel lines \<Longrightarrow> 2 * length (join_lines lines) < n \<Longrightarrow> new_BracketPairsTree n textModel brackets = Some (Inr this) \<Longrightarrow> reached brackets lines this"
| reached_content: "reached brackets lines this \<Longrightarrow> changed changes lines lines2 \<Longrightarrow> reached brackets lines2 (BracketPairsTree_handleContentChanged changes this)"
| reached_tokens: "reached brackets lines this \<Longrightarrow> lines \<noteq> [] \<Longrightarrow> \<forall>l \<in> set lines. LF \<notin> set l \<Longrightarrow> ranges_ok 0 (int (length lines)) ranges \<Longrightarrow>
    reached brackets lines (snd (BracketPairsTree_handleDidChangeTokens ranges this))"
| reached_background: "reached brackets lines this \<Longrightarrow> reached brackets lines (snd (BracketPairsTree_handleDidChangeBackgroundTokenizationState textModel this))"
| reached_flush: "reached brackets lines this \<Longrightarrow> model_ok brackets textModel lines \<Longrightarrow> 2 * length (join_lines lines) < n \<Longrightarrow>
    BracketPairsTree_flushQueue n textModel this = Some (Inr this2) \<Longrightarrow> reached brackets lines this2"

lemma reached_inv: "reached brackets lines this \<Longrightarrow> brackets_ok brackets \<Longrightarrow> tree_inv brackets (join_lines lines) this"
proof (induction rule: reached.induct)
  case (reached_new textModel lines n this)
  with new_tree show ?case by fastforce
next
  case (reached_content lines this changes lines2)
  then show ?case using handleEdits_inv [OF _ changed_describes [OF reached_content(2)], of brackets this False]
    by (simp add: BracketPairsTree_handleContentChanged_def changed_def)
next
  case (reached_tokens lines this ranges)
  then show ?case using handleEdits_inv [OF _ token_edits [OF reached_tokens(4,2,3)], of brackets this True]
    by (simp add: BracketPairsTree_handleDidChangeTokens_def tree_inv_def Let_def)
next
  case (reached_background lines this textModel)
  then show ?case by (simp add: BracketPairsTree_handleDidChangeBackgroundTokenizationState_def tree_inv_def Let_def)
next
  case (reached_flush lines this textModel n this2)
  with flush_inv show ?case by fastforce
qed

text \<open>A query in a reachable state reads the current tree that \<^verbatim>\<open>flushQueue\<close> leaves, which is a tree for the current text.\<close>

definition flushes_to :: "nat \<Rightarrow> TextModel \<Rightarrow> BracketPairsTree \<Rightarrow> BracketPairsTree \<Rightarrow> BracketKind AstNode \<Rightarrow> bool" where
  "flushes_to n textModel this this2 root \<longleftrightarrow> BracketPairsTree_flushQueue n textModel this = Some (Inr this2) \<and> current_ast this2 = Some root \<and>
     bp_queuedTextEdits this2 = [] \<and> bp_queuedTextEditsForInitialAstWithoutTokens this2 = []"


lemma query_reached:
  assumes "reached brackets lines this" "brackets_ok brackets" "model_ok brackets textModel lines" "2 * length (join_lines lines) < n"
  obtains root this2 where "flushes_to n textModel this this2 root" "tree_for root (join_lines lines)" "reached brackets lines this2"
    "\<And>f :: BracketKind AstNode \<Rightarrow> 'a. query n textModel this f = Some (Inr (f root, this2))"
proof -
  obtain this2 where f: "BracketPairsTree_flushQueue n textModel this = Some (Inr this2)" "tree_inv brackets (join_lines lines) this2" "bp_queuedTextEdits this2 = []"
    "bp_queuedTextEditsForInitialAstWithoutTokens this2 = []"
    using flush_inv [OF reached_inv [OF assms(1,2)] assms(2-4)] by (elim exE conjE) (rule that)
  obtain root where c: "current_ast this2 = Some root" "tree_for root (join_lines lines)" using tree_inv_current [OF f(2-4)] by blast
  have "query n textModel this g = Some (Inr (g root, this2))" for g :: "BracketKind AstNode \<Rightarrow> 'a" unfolding query_def f(1) by (simp add: c(1))
  moreover have "flushes_to n textModel this this2 root" using f c by (simp add: flushes_to_def)
  ultimately show thesis using that [OF _ c(2) reached_flush [OF assms(1,3,4) f(1)]] by blast
qed

section \<open>Results\<close>

text \<open>In every state that is reached by creating a \<^verbatim>\<open>BracketPairsTree\<close> and by any sequence of content changes, token changes, changes of the background tokenization and queries,
  \<^verbatim>\<open>flushQueue\<close> returns without throwing, within two steps for each code unit, empties both queues, and leaves trees whose lengths and missing brackets are those of trees for the current text.\<close>

lemma bracket_trees_follow_text:
  assumes "reached brackets lines this" "brackets_ok brackets" "model_ok brackets textModel lines" "2 * length (join_lines lines) < n"
  shows "\<exists>this2 root root2. BracketPairsTree_flushQueue n textModel this = Some (Inr this2) \<and> reached brackets lines this2 \<and>
    bp_queuedTextEdits this2 = [] \<and> bp_queuedTextEditsForInitialAstWithoutTokens this2 = [] \<and>
    current_ast this2 = Some root \<and> tree_for root (join_lines lines) \<and> bp_astWithTokens this2 = Some root2 \<and> tree_for root2 (join_lines lines)"
proof -
  obtain this2 where f: "BracketPairsTree_flushQueue n textModel this = Some (Inr this2)" "tree_inv brackets (join_lines lines) this2" "bp_queuedTextEdits this2 = []"
    "bp_queuedTextEditsForInitialAstWithoutTokens this2 = []"
    using flush_inv [OF reached_inv [OF assms(1,2)] assms(2-4)] by (elim exE conjE) (rule that)
  obtain root2 where a: "bp_astWithTokens this2 = Some root2" "tree_for root2 (join_lines lines)" using tree_inv_flushed [OF f(2,3)] by blast
  obtain root where "current_ast this2 = Some root" "tree_for root (join_lines lines)" using tree_inv_current [OF f(2-4)] by blast
  then show ?thesis using f(1,3,4) a reached_flush [OF assms(1,3,4) f(1)] by (intro exI [of _ this2] exI [of _ root] exI [of _ root2] conjI)
qed

definition example_model :: "js_string \<Rightarrow> TextModel" where
  "example_model l = \<lparr>tm_hasTokens = True, tm_backgroundTokenizationState = Completed, tm_getLanguageId = [], tm_getValue = l, tm_source = example_source l, tm_computeMinIndentation = (\<lambda>_ _. 0)\<rparr>"

lemma example_model_ok: "LF \<notin> set l \<Longrightarrow> length l < 2 ^ 25 \<Longrightarrow> model_ok example_brackets (example_model l) [l]"
  using example_source_ok [of l] short_small [of l] by (simp add: model_ok_def example_model_def)

lemma example_reached: "LF \<notin> set l \<Longrightarrow> length l < 2 ^ 25 \<Longrightarrow> \<exists>this. reached example_brackets [l] this"
  using new_tree [OF example_brackets_ok example_model_ok, of l "Suc (2 * length l)"] reached_new [OF example_model_ok, of l "Suc (2 * length l)"] by fastforce

text \<open>C8: \<^verbatim>\<open>getFirstBracketAfter\<close> and \<^verbatim>\<open>getFirstBracketBefore\<close> of a \<^verbatim>\<open>BracketPairsTree\<close> in any reachable state (for the text models of \<open>model_ok\<close>): \<^verbatim>\<open>flushQueue\<close>
  returns with empty queues, and both return, from the tree that it leaves as the current one, the first bracket that ends behind the position and the last one that starts before it, with its range, its kind and
  whether it opens or closes, and \<^verbatim>\<open>null\<close> exactly when the current tree has none; unexpected closing brackets are passed over.  The queries leave the flushed state.\<close>

theorem nearest_bracket_queries:
  assumes "reached brackets lines this" "brackets_ok brackets" "model_ok brackets textModel lines" "2 * length (join_lines lines) < n"
  shows "\<exists>this2 root. flushes_to n textModel this this2 root \<and> tree_for root (join_lines lines) \<and> reached brackets lines this2 \<and>
    BracketPairsTree_getFirstBracketAfter n textModel pos this =
      Some (Inr (map_option found (List.find (\<lambda>(_, e, _). positionToLength pos < e) (bracket_places root lengthZero)), this2)) \<and>
    BracketPairsTree_getFirstBracketBefore n textModel pos this =
      Some (Inr (map_option found (List.find (\<lambda>(b, _, _). b < positionToLength pos) (rev (bracket_places root lengthZero))), this2))"
proof -
  obtain root this2 where q: "flushes_to n textModel this this2 root" "tree_for root (join_lines lines)" "reached brackets lines this2"
    "\<And>f :: BracketKind AstNode \<Rightarrow> IFoundBracket option. query n textModel this f = Some (Inr (f root, this2))"
    using query_reached [OF assms] by metis
  have s: "short (join_lines lines)" using assms(3) by (simp add: model_ok_def)
  show ?thesis unfolding BracketPairsTree_getFirstBracketAfter_def BracketPairsTree_getFirstBracketBefore_def q(4) first_after [OF q(2) s] first_before [OF q(2) s]
    using q(1,2,3) by blast
qed

theorem nearest_bracket_queries_witness:
  "\<exists>this this2 root. reached example_brackets [[40, 97]] this \<and> flushes_to 5 (example_model [40, 97]) this this2 root \<and>
    BracketPairsTree_getFirstBracketAfter 5 (example_model [40, 97]) (new_Position 1 1) this =
      Some (Inr (map_option found (List.find (\<lambda>(_, e, _). 0 < e) (bracket_places root 0)), this2))"
proof -
  obtain this where r: "reached example_brackets [[40, 97]] this" using example_reached [of "[40, 97]"] by auto
  have "positionToLength (new_Position 1 1) = 0" by (simp add: positionToLength_def toLength_def)
  then show ?thesis using nearest_bracket_queries [OF r example_brackets_ok example_model_ok, of 5 "new_Position 1 1"] r by (auto simp: lengthZero_def)
qed

text \<open>C6: \<^verbatim>\<open>getBracketPairsInRange\<close> of a \<^verbatim>\<open>BracketPairsTree\<close> in any reachable state (for the text models of \<open>model_ok\<close>), for a range that starts inside of the text: \<^verbatim>\<open>flushQueue\<close>
  returns with empty queues, and the iterable yields the pairs of the tree it leaves as the current one that touch the range and are nested at most 200 levels deep, outer pairs before inner ones and from left to right,
  each with its ranges, its level and its level among the pairs with the same opening bracket, until a callback returns false.  Deeper pairs are left out.\<close>

theorem bracket_pairs_query:
  assumes "reached brackets lines this" "brackets_ok brackets" "model_ok brackets textModel lines" "2 * length (join_lines lines) < n"
    "lengthZero \<le> positionToLength (Range_getEndPosition range1)" "positionToLength (Range_getStartPosition range1) \<le> plen (join_lines lines)"
  shows "\<exists>this2 root. flushes_to n textModel this this2 root \<and> tree_for root (join_lines lines) \<and> reached brackets lines this2 \<and>
    BracketPairsTree_getBracketPairsInRange n textModel range1 includeMinIndentation this =
      Some (Inr (iterates (map (\<lambda>(_, _, i). i) (filter (wanted (positionToLength (Range_getStartPosition range1)) (positionToLength (Range_getEndPosition range1)))
        (pairs_of includeMinIndentation (tm_computeMinIndentation textModel) root lengthZero []))), this2))"
proof -
  obtain root this2 where q: "flushes_to n textModel this this2 root" "tree_for root (join_lines lines)" "reached brackets lines this2"
    "\<And>f :: BracketKind AstNode \<Rightarrow> (BracketPairWithMinIndentationInfo, 'a) CallbackIterable. query n textModel this f = Some (Inr (f root, this2))"
    using query_reached [OF assms(1-4)] by metis
  have "AstNode_length root = plen (join_lines lines)" using q(2) spans_length by (auto simp: tree_for_def ListAstNode_getEmpty_def lengthZero_def)
  with assms(6) have e: "positionToLength (Range_getStartPosition range1) \<le> AstNode_length root" by simp
  have s: "short (join_lines lines)" using assms(3) by (simp add: model_ok_def)
  show ?thesis unfolding BracketPairsTree_getBracketPairsInRange_def q(4) collect_bracket_pairs [OF q(2) s assms(5) e] pairs_in_def
    using q(1,2,3) by (intro exI [of _ this2] exI [of _ root]) (simp add: fun_eq_iff)
qed

theorem bracket_pairs_query_witness:
  "\<exists>this this2 root. reached example_brackets [[40, 97]] this \<and> flushes_to 5 (example_model [40, 97]) this this2 root \<and>
    BracketPairsTree_getBracketPairsInRange 5 (example_model [40, 97]) (new_Range 1 1 1 2) False this =
      Some (Inr (iterates (map (\<lambda>(_, _, i). i) (filter (wanted 0 1) (pairs_of False (\<lambda>_ _. 0) root 0 [])) :: BracketPairWithMinIndentationInfo list) :: (_, unit) CallbackIterable, this2))"
proof -
  obtain this where r: "reached example_brackets [[40, 97]] this" using example_reached [of "[40, 97]"] by auto
  have p: "positionToLength (Range_getStartPosition (new_Range 1 1 1 2)) = 0" "positionToLength (Range_getEndPosition (new_Range 1 1 1 2)) = 1" "0 \<le> plen [40, 97]"
    by (simp_all add: positionToLength_def toLength_def new_Range_def Range_getStartPosition_def Range_getEndPosition_def Range_get_defs plen_def pack_def tlen_def TextLength_zero_def)
  show ?thesis using bracket_pairs_query [OF r example_brackets_ok example_model_ok, of 5 "new_Range 1 1 1 2" False] r p by (auto simp: lengthZero_def example_model_def)
qed

end
