(* ===== verification/Spec2Isabelle.thy ===== *)
theory Spec2Isabelle
  imports Text_Selection Line_Range Text_Edit Prefix_Sum Text_Change Keybinding_Results When_Completeness Bracket_Pairs_Tree
begin

text \<open>
  A verification development for the core of the code editor under \<^verbatim>\<open>src/\<close> (a fork of Visual Studio Code, in TypeScript).

  \<^bold>\<open>The program.\<close>  The editor keeps a document as text and addresses it in two ways, by offsets and by lines and columns;
  edits, ranges and undo records are values over these two coordinate systems.  Above it, commands are bound to keys, and a
  binding is active under a condition, the \<^verbatim>\<open>when\<close> clause, an expression over context keys.  Beside the text stands a tree of its brackets, which
  colors pairs and finds partners; it is parsed once and after edits parsed again with the subtrees the edits leave alone; events of the text model only queue edits, and a query parses.  The development models these three layers: the
  text core under \<^verbatim>\<open>src/vs/editor/common/core\<close> with the helpers of \<^verbatim>\<open>src/vs/base/common\<close> it calls, the
  bracket pair trees under \<^verbatim>\<open>src/vs/editor/common/model/bracketPairsTextModelPart\<close> with the tokens of lines they read, and
  the context keys and key bindings under \<^verbatim>\<open>src/vs/platform\<close>.

  \<^bold>\<open>How the code is read.\<close>  A class is a record of its fields, an enum or a family of classes with one interface a datatype.  A method is one definition named
  \<open>Class_method\<close>, a constructor \<open>new_Class\<close>, a loop a recursive function.  An exception is the left injection of
  \<open>'a result\<close>, \<^verbatim>\<open>undefined\<close> is \<open>None\<close>.  Numbers that count or index are integers, with \<^verbatim>\<open>| 0\<close> and typed arrays at their width; strings are lists
  of UTF-16 code units.  Parameters stand for what is not in the sources: printing of numbers and matching of regular expressions by the engine
  (the record \<open>js_lib\<close>), the constructor of regular expressions, which code points are letters, the localized messages, and the context key service a lookup asks.

  \<^bold>\<open>Theories and the files they model.\<close>
  \<^item> \<open>Js_Prelude\<close>, \<open>Js_Values\<close>: what the sources use of the language: results, array access, 32-bit conversion; the values of context keys, their comparisons and conversions.
  \<^item> \<open>Arrays_Find\<close> (\<^verbatim>\<open>arraysFind.ts\<close>): linear and binary searches, extremal elements, \<^verbatim>\<open>MonotonousArray\<close>.  On monotonous predicates the binary searches
    are the linear ones; the locale \<open>comparator_laws\<close> carries the extremal searches for every comparator of the core.
  \<^item> \<open>Text_Position\<close>, \<open>Text_Range\<close>, \<open>Text_Selection\<close> (\<^verbatim>\<open>position.ts\<close>, \<^verbatim>\<open>range.ts\<close>, \<^verbatim>\<open>selection.ts\<close>): positions as a linear order, ranges with meet and join, selections as
    ranges with a direction.
  \<^item> \<open>Interval_Lists\<close>, \<open>Offset_Range\<close>, \<open>Line_Range\<close> (\<^verbatim>\<open>offsetRange.ts\<close>, \<^verbatim>\<open>lineRange.ts\<close>): half-open ranges and sorted sets of them; both sets interpret \<open>range_set_spec\<close> and refine
    finite sets of integers.
  \<^item> \<open>Offset_Edit\<close> (\<^verbatim>\<open>offsetEdit.ts\<close>): edits in offsets; composition, inverse, normal form and rebasing against the effect on texts.
  \<^item> \<open>Text_Length\<close>, \<open>Position_Offset\<close> (\<^verbatim>\<open>textLength.ts\<close>, \<^verbatim>\<open>positionToOffset.ts\<close>): lengths of texts as a monoid that acts on positions; the round trips between positions and offsets.
  \<^item> \<open>Text_Edit\<close> (\<^verbatim>\<open>textEdit.ts\<close>, \<^verbatim>\<open>assert.ts\<close>): edits in lines and columns over an abstract text (locale \<open>abstract_text\<close>, interpreted on both texts of the
    source); they refine offset edits.
  \<^item> \<open>Prefix_Sum\<close> (\<^verbatim>\<open>prefixSumComputer.ts\<close>, \<^verbatim>\<open>uint.ts\<close>, \<^verbatim>\<open>arrayInsert\<close> of \<^verbatim>\<open>arrays.ts\<close>): two prefix sum structures as state machines that answer like a list (locale \<open>prefix_sum_spec\<close>).
  \<^item> \<open>Text_Change\<close> (\<^verbatim>\<open>textChange.ts\<close>, numbers of \<^verbatim>\<open>buffer.ts\<close>, decoding of \<^verbatim>\<open>stringBuilder.ts\<close>): undo records, their binary format, and the compression of two records into one.
  \<^item> \<open>Context_Key\<close> (\<^verbatim>\<open>contextkey.ts\<close>): the expression classes and everything they do.  \<open>Context_Key_Semantics\<close>: rewriting keeps the value (locale \<open>ck_calls\<close>);
    \<open>Context_Key_Shape\<close>: the invariant \<open>wf_expr\<close> of normal forms (locale \<open>ck_shape\<close>); \<open>Context_Key_Fuel\<close>: the rewriting ends; \<open>Context_Key_Results\<close>: implication, substitution of constants
    and the theorems about the public functions.
  \<^item> \<open>When_Scanner\<close> (\<^verbatim>\<open>scanner.ts\<close>), \<open>When_Parser\<close> (class \<^verbatim>\<open>Parser\<close>, \<^verbatim>\<open>deserialize\<close> and \<^verbatim>\<open>validateWhenClauses\<close> of \<^verbatim>\<open>contextkey.ts\<close>): from the text of a \<^verbatim>\<open>when\<close> clause to an expression.
    \<open>When_Grammar\<close> states the grammar of the source as inductive predicates over tokens and shows that the parser ends and is sound for it; \<open>When_Completeness\<close>
    shows that it refuses no phrase, and the theorem about \<^verbatim>\<open>parse\<close>.
  \<^item> \<open>Keybinding_Resolver\<close>, \<open>Keybinding_Results\<close> (\<^verbatim>\<open>keybindingResolver.ts\<close>, \<^verbatim>\<open>resolvedKeybindingItem.ts\<close>): the tables of key bindings, which refine the plain list: \<^verbatim>\<open>resolve\<close> finds the last binding that matches,
    \<^verbatim>\<open>lookupKeybindings\<close> lists the bindings no later one hides, and, by the soundness of \<^verbatim>\<open>implies\<close>, what it leaves out is hidden.
  \<^item> \<open>Bracket_Length\<close> (\<^verbatim>\<open>length.ts\<close>): lines and columns packed into one number, which refine the lengths of \<open>Text_Length\<close>.  \<open>Array_Queue\<close> (\<^verbatim>\<open>ArrayQueue\<close> of \<^verbatim>\<open>arrays.ts\<close>), \<open>Edit_Infos\<close>
    (\<^verbatim>\<open>combineTextEditInfos.ts\<close>): edits of which only the lengths are known, related to texts by \<open>describes\<close>.  \<open>Before_Edit_Mapper\<close> (\<^verbatim>\<open>beforeEditPositionMapper.ts\<close>): from offsets behind the edits to those before.
  \<^item> \<open>Bracket_Set\<close> (\<^verbatim>\<open>smallImmutableSet.ts\<close>): sets of bracket keys as one number or an array of numbers; the locale \<open>key_set\<close> is the contract the tokens and the parser use.
  \<^item> \<open>Bracket_Ast\<close> (\<^verbatim>\<open>ast.ts\<close>): the nodes, with \<open>spans\<close> for: all cached lengths, heights and missing brackets are right and the tree is one of the text.  \<open>Concat_Trees\<close> (\<^verbatim>\<open>concat23Trees.ts\<close>): lists of nodes
    as 2-3 trees are joined.  \<open>Node_Reader\<close> (\<^verbatim>\<open>nodeReader.ts\<close>): finds nodes of an old tree at ascending offsets.
  \<^item> \<open>Bracket_Tokens\<close> (\<^verbatim>\<open>languageBracketsConfiguration.ts\<close>, \<^verbatim>\<open>brackets.ts\<close>), \<open>Fast_Tokenizer\<close> (\<^verbatim>\<open>tokenizer.ts\<close>): the brackets of a language and the tokens of a text.
  \<^item> \<open>Bracket_Parser\<close> (\<^verbatim>\<open>parser.ts\<close>): the parser over an interface of tokenizers, with the reuse of old nodes.  \<open>Bracket_Results\<close>: the locale \<open>tokenizer_laws\<close>, interpreted on the fast tokenizer, and the theorem about parsing from
    scratch: it ends, the tree is one of the text, its leaves are the tokens, and pairs are matched as the brackets allow.
  \<^item> \<open>Bracket_Reuse\<close>, \<open>Incremental_Parser\<close>: why nodes of an old tree may be taken over: the mapper and the reader are asked at ascending offsets, a node is taken only where no edit touches it and
    nothing it misses is open.  The locale \<open>text_tokenizer\<close> is what the parser needs of a tokenizer that can skip; in it the parser is shown to return a tree for the new text (\<open>tree_for\<close>).
  \<^item> \<open>Line_Tokens\<close> (\<^verbatim>\<open>lineTokens.ts\<close>, \<^verbatim>\<open>tokenArray.ts\<close>, \<^verbatim>\<open>encodedTokenAttributes.ts\<close>): the tokens of a line as 32-bit words, their lookup by binary search, slices and insertions.  \<open>Text_Buffer_Tokenizer\<close>
    (\<^verbatim>\<open>tokenizer.ts\<close>): the tokenizer over lines and their tokens, an interpretation of \<open>text_tokenizer\<close>, and the theorem about parsing again.
  \<^item> \<open>Callback_Iterable\<close> (\<^verbatim>\<open>CallbackIterable\<close> of \<^verbatim>\<open>arrays.ts\<close>): sequences given by a function that calls back, compared with lists.  \<open>Bracket_Queries\<close>, \<open>Brackets_In_Range\<close>
    (functions of \<^verbatim>\<open>bracketPairsTree.ts\<close>): the searches in a tree against the lists of all its brackets (\<open>bracket_places\<close>, \<open>brackets_of\<close>) and pairs (\<open>pairs_of\<close>).
  \<^item> \<open>Bracket_Pairs_Tree\<close> (class \<^verbatim>\<open>BracketPairsTree\<close>): the state, its event handlers and queries; \<open>reached\<close> are the states of a tree and its text model, by creation, any sequence of events and queries,
    and the invariant \<open>tree_inv\<close> says that each tree is one of an older text from which its queue leads to the current text.

  \<^bold>\<open>Hypotheses.\<close>  The theorems about edits assume that the edit fits its text (sorted, disjoint, in bounds), which the constructors check.  Those about context keys
  assume \<open>wf_expr\<close>, which all factories establish, and for values \<open>sane\<close>: comparisons meet numbers only, the context agrees with the constants, and one source
  of a regular expression has one set of flags.  Each part of \<open>sane\<close> marks a place where the code departs from logic outside of it.
  Those about bracket trees assume \<open>short\<close>: no column reaches \<^verbatim>\<open>2^25\<close>, so that packed lengths do not overflow, and of the regular expression engine that matches are
  reported in order, do not overlap and leave no line feed out.  Of the text model they assume that its lines hold no line feed, that the tokens of a line cover it, that changes are reported in descending order
  with their ranges in the old text and ranges of tokens in ascending order, and that lines end with a line feed (no carriage returns).

  \<^bold>\<open>Bounds and fuel.\<close>  All loops are total functions except where \<^verbatim>\<open>create\<close> and \<^verbatim>\<open>negate\<close> of context keys call each other.  There a bound on the depth of calls is an argument, and the
  theorems say that from some bound on the result is defined and no longer changes: a negation recurs on expressions whose largest OR is smaller,
  a conjunction on arrays with a smaller product of \<open>dnf_size\<close>.  The parser passes the bound on and recurs on fewer tokens.
  The parser of brackets recurs as deeply as brackets are nested; its bound is two steps for each token (parsing from scratch) or code unit (parsing again), which the theorems show to be enough.
  Nodes of bracket trees are values: a mutation returns the changed node, and each place where the source mutates holds the only reference to the node.

  \<^bold>\<open>Not modelled.\<close>  Formatting (\<^verbatim>\<open>toString\<close>, \<^verbatim>\<open>toJSON\<close>) of the text core; the stored negations of context keys, which the model recomputes; the minimal indentation of bracket pairs and the cache of
  brackets per language, which are arguments of the bracket trees; that two trees made at different times share nodes: the source marks shared lists immutable, and the model checks that none of them is changed;
  the piece tree, the interval tree, the undo service and the diff algorithms; views, workbench, extension host, node and Electron services, which are I/O and glue.
\<close>

end
